(* ===== verification/Prelude.thy ===== *)
theory Prelude
  imports Main "HOL-Library.Word" "HOL-Library.Monad_Syntax"
begin

text \<open>
  What the component theories share: the names of the C integer types, the \<open>size_t\<close> arithmetic
  on natural numbers with its wrap-around written out, array loops that store one value in a
  range of slots, loops that stop at the first index failing a test, masks and shifts as
  arithmetic, and little-endian fields in byte buffers.
\<close>

unbundle bit_operations_syntax

section \<open>Machine types\<close>

type_synonym u8 = "8 word"
type_synonym u16 = "16 word"
type_synonym u32 = "32 word"
type_synonym u64 = "64 word"

text \<open>Facts that reduce wrapping arithmetic to ordinary arithmetic where nothing wraps.\<close>

named_theorems wrap_simps

text \<open>\<open>size_t\<close> and \<open>uintptr_t\<close> values are natural numbers below \<open>2 ^ 64\<close>.\<close>

definition add64 :: "nat \<Rightarrow> nat \<Rightarrow> nat" where
  "add64 a b = (a + b) mod 2 ^ 64"

definition sub64 :: "nat \<Rightarrow> nat \<Rightarrow> nat" where
  "sub64 a b = (a + (2 ^ 64 - b mod 2 ^ 64)) mod 2 ^ 64"

definition mul64 :: "nat \<Rightarrow> nat \<Rightarrow> nat" where
  "mul64 a b = (a * b) mod 2 ^ 64"

lemma add64_exact [wrap_simps]: "a + b < 2 ^ 64 \<Longrightarrow> add64 a b = a + b"
  by (simp add: add64_def)

lemma sub64_exact [wrap_simps]:
  assumes "b \<le> a" "a < 2 ^ 64"
  shows "sub64 a b = a - b"
proof -
  from assms have "b mod 2 ^ 64 = b" by simp
  then have "a + (2 ^ 64 - b mod 2 ^ 64) = (a - b) + 2 ^ 64"
    using assms by simp
  then have "sub64 a b = ((a - b) + 2 ^ 64) mod 2 ^ 64" by (simp only: sub64_def)
  also have "\<dots> = a - b" using assms by (simp only: mod_add_self2 mod_less)
  finally show ?thesis .
qed

lemma mul64_exact [wrap_simps]: "a * b < 2 ^ 64 \<Longrightarrow> mul64 a b = a * b"
  by (simp add: mul64_def)

section \<open>Array loops\<close>

text \<open>\<open>for (i = 0; i < n; i++) a[x + i] = v;\<close>\<close>

fun set_slots :: "'a list \<Rightarrow> nat \<Rightarrow> nat \<Rightarrow> 'a \<Rightarrow> 'a list" where
  "set_slots a x 0 v = a"
| "set_slots a x (Suc n) v = set_slots (a[x := v]) (Suc x) n v"

lemma length_set_slots [simp]: "length (set_slots a x n v) = length a"
  by (induction a x n v rule: set_slots.induct) auto

lemma nth_set_slots [simp]:
  "i < length a \<Longrightarrow> set_slots a x n v ! i = (if x \<le> i \<and> i < x + n then v else a ! i)"
  by (induction a x n v rule: set_slots.induct) (auto simp: nth_list_update)

lemma set_slots_0_append:
  "n \<le> length a \<Longrightarrow> set_slots a 0 n v = replicate n v @ drop n a"
  by (rule nth_equalityI) (auto simp: nth_append)

text \<open>\<open>for (i = from; i < to && p(i); i++);\<close> : the first index in the range that fails the test,
  or the bound.\<close>

function skip_while :: "(nat \<Rightarrow> bool) \<Rightarrow> nat \<Rightarrow> nat \<Rightarrow> nat" where
  "skip_while p i n = (if i < n \<and> p i then skip_while p (Suc i) n else i)"
  by pat_completeness auto
termination
  by (relation "measure (\<lambda>(p, i, n). n - i)") auto

declare skip_while.simps [simp del]

lemma skip_while_le: "i \<le> n \<Longrightarrow> i \<le> skip_while p i n \<and> skip_while p i n \<le> n"
  by (induction p i n rule: skip_while.induct) (subst (1 2) skip_while.simps, force)

lemma skip_while_all: "i \<le> k \<Longrightarrow> k < skip_while p i n \<Longrightarrow> p k"
proof (induction p i n rule: skip_while.induct)
  case (1 p i n)
  then show ?case
    by (subst (asm) (2) skip_while.simps) (cases "k = i"; auto split: if_splits)
qed

lemma skip_while_stop: "skip_while p i n < n \<Longrightarrow> \<not> p (skip_while p i n)"
  by (induction p i n rule: skip_while.induct)
    (subst (asm) (2) skip_while.simps, subst skip_while.simps, auto split: if_splits)

lemma skip_while_eqI:
  assumes "i \<le> k" "k \<le> n" "\<And>j. i \<le> j \<Longrightarrow> j < k \<Longrightarrow> p j" "k < n \<Longrightarrow> \<not> p k"
  shows "skip_while p i n = k"
  using assms
proof (induction p i n rule: skip_while.induct)
  case (1 p i n)
  show ?case
  proof (cases "i = k")
    case True
    with "1.prems" show ?thesis by (subst skip_while.simps) auto
  next
    case False
    with "1.prems" have "i < n" "p i" by auto
    then have "skip_while p (Suc i) n = k" using "1.prems" False by (intro "1.IH") auto
    with \<open>i < n\<close> \<open>p i\<close> show ?thesis by (subst skip_while.simps) auto
  qed
qed

section \<open>Masks and shifts as arithmetic\<close>

lemma unat_and_mask: "unat ((w :: 'a::len word) AND mask n) = unat w mod 2 ^ n"
  by (simp only: take_bit_eq_mask [symmetric] unsigned_take_bit_eq take_bit_eq_mod [where 'a = nat])

lemma unat_pow2: "k < LENGTH('a) \<Longrightarrow> unat (2 ^ k :: 'a::len word) = 2 ^ k"
proof -
  assume "k < LENGTH('a)"
  then have "(2 :: nat) ^ k < 2 ^ LENGTH('a)" by simp
  moreover have "(2 :: 'a word) ^ k = of_nat (2 ^ k)" by simp
  ultimately show ?thesis by (simp only: unat_of_nat mod_less)
qed

lemma and_not_mask: "(w :: 'a::len word) AND NOT (mask n) = push_bit n (drop_bit n w)"
  by (rule bit_eqI) (auto simp: bit_simps)

lemma unat_push_drop: "unat (push_bit n (drop_bit n (w :: 'a::len word))) = unat w div 2 ^ n * 2 ^ n"
proof -
  have "unat w div 2 ^ n * 2 ^ n \<le> unat w" by simp
  also have "\<dots> < 2 ^ LENGTH('a)" by simp
  finally show ?thesis
    by (simp only: unsigned_push_bit_eq unsigned_drop_bit_eq push_bit_eq_mult [where 'a = nat]
        drop_bit_eq_div [where 'a = nat] take_bit_eq_mod [where 'a = nat] mod_less unsigned_less)
qed

lemma unat_and_not_mask: "unat ((w :: 'a::len word) AND NOT (mask n)) = unat w div 2 ^ n * 2 ^ n"
  by (simp add: and_not_mask unat_push_drop)

text \<open>\<open>|\<close> of a value and one below its lowest bit is their sum.\<close>

lemma unat_or_disjoint:
  assumes "2 ^ k dvd unat a" "unat b < 2 ^ k"
  shows "unat (a OR b :: 'a::len word) = unat a + unat b"
proof -
  obtain c where c: "unat a = 2 ^ k * c" using assms(1) by (auto elim: dvdE)
  have "bit (unat a) i \<Longrightarrow> \<not> bit (unat b) i" for i
  proof -
    assume a: "bit (unat a) i"
    have "k \<le> i" using a unfolding c mult.commute [of "2 ^ k"] push_bit_eq_mult [symmetric] by (simp add: bit_push_bit_iff)
    then have "unat b < 2 ^ i" using assms(2) by (meson less_le_trans power_increasing one_le_numeral)
    then show ?thesis by (simp add: bit_iff_odd)
  qed
  then have "unat a AND unat b = 0" by (intro bit_eqI) (auto simp: bit_and_iff)
  then show ?thesis by (simp add: unsigned_or_eq disjunctive_add_eq_or)
qed

text \<open>\<open>(p + 0xFFF) & ~0xFFF\<close> on \<open>uintptr_t\<close>.\<close>

definition page_align :: "nat \<Rightarrow> nat" where
  "page_align p = unat ((of_nat (p + 0xFFF) :: u64) AND NOT 0xFFF)"

lemma page_align_eq:
  assumes "p + 0xFFF < 2 ^ 64"
  shows "page_align p = (p + 0xFFF) div 4096 * 4096"
proof -
  have m: "(0xFFF :: u64) = mask 12" by (simp add: mask_eq_decr_exp)
  have "unat (of_nat (p + 0xFFF) :: u64) = p + 0xFFF"     using assms by (subst unat_of_nat) simp
  then show ?thesis
    unfolding page_align_def m by (simp add: unat_and_not_mask)
qed

lemma page_align_bounds:
  assumes "p + 0xFFF < 2 ^ 64"
  shows "p \<le> page_align p" "page_align p \<le> p + 0xFFF" "page_align p mod 4096 = 0"
proof -
  define x where "x = p + 0xFFF"
  have "x = x div 4096 * 4096 + x mod 4096" "x mod 4096 < 4096" by simp_all
  then show "p \<le> page_align p" "page_align p \<le> p + 0xFFF"
    unfolding page_align_eq [OF assms] x_def [symmetric] using x_def by linarith+
  show "page_align p mod 4096 = 0" unfolding page_align_eq [OF assms] by simp
qed


section \<open>32-bit arithmetic on natural numbers\<close>

definition add32 :: "nat \<Rightarrow> nat \<Rightarrow> nat" where
  "add32 a b = (a + b) mod 2 ^ 32"

definition sub32 :: "nat \<Rightarrow> nat \<Rightarrow> nat" where
  "sub32 a b = (a + (2 ^ 32 - b mod 2 ^ 32)) mod 2 ^ 32"

definition mul32 :: "nat \<Rightarrow> nat \<Rightarrow> nat" where
  "mul32 a b = (a * b) mod 2 ^ 32"

lemma add32_exact [wrap_simps]: "a + b < 2 ^ 32 \<Longrightarrow> add32 a b = a + b"
  by (simp add: add32_def)

lemma sub32_exact [wrap_simps]:
  assumes "b \<le> a" "a < 2 ^ 32"
  shows "sub32 a b = a - b"
proof -
  from assms have "b mod 2 ^ 32 = b" by simp
  then have "a + (2 ^ 32 - b mod 2 ^ 32) = (a - b) + 2 ^ 32" using assms by simp
  then have "sub32 a b = ((a - b) + 2 ^ 32) mod 2 ^ 32" by (simp only: sub32_def)
  also have "\<dots> = a - b" using assms by (simp only: mod_add_self2 mod_less)
  finally show ?thesis .
qed

lemma mul32_exact [wrap_simps]: "a * b < 2 ^ 32 \<Longrightarrow> mul32 a b = a * b"
  by (simp add: mul32_def)

section \<open>Little-endian fields of a byte buffer\<close>

text \<open>A read past the end of the list is the value of \<open>byte_at\<close> there; the code's buffers are always
  long enough.\<close>

definition byte_at :: "u8 list \<Rightarrow> nat \<Rightarrow> u8" where
  "byte_at buf i = (if i < length buf then buf ! i else 0)"

definition le16 :: "u8 list \<Rightarrow> nat \<Rightarrow> nat" where
  "le16 buf i = unat (byte_at buf i) + 2 ^ 8 * unat (byte_at buf (i + 1))"

definition le32 :: "u8 list \<Rightarrow> nat \<Rightarrow> nat" where
  "le32 buf i = le16 buf i + 2 ^ 16 * le16 buf (i + 2)"

definition le64 :: "u8 list \<Rightarrow> nat \<Rightarrow> nat" where
  "le64 buf i = le32 buf i + 2 ^ 32 * le32 buf (i + 4)"

definition put_le16 :: "u8 list \<Rightarrow> nat \<Rightarrow> nat \<Rightarrow> u8 list" where
  "put_le16 buf i v = buf[i := of_nat v, i + 1 := of_nat (v div 2 ^ 8)]"

definition put_le32 :: "u8 list \<Rightarrow> nat \<Rightarrow> nat \<Rightarrow> u8 list" where
  "put_le32 buf i v = put_le16 (put_le16 buf i v) (i + 2) (v div 2 ^ 16)"

lemma length_put_le16 [simp]: "length (put_le16 buf i v) = length buf"
  by (simp add: put_le16_def)

lemma length_put_le32 [simp]: "length (put_le32 buf i v) = length buf"
  by (simp add: put_le32_def)

lemma le16_bound: "le16 buf i < 2 ^ 16"
proof -
  have "unat b < 2 ^ 8" for b :: u8 using unsigned_less [of b] by simp
  from this [of "byte_at buf i"] this [of "byte_at buf (i + 1)"] have
    "unat (byte_at buf i) < 2 ^ 8" "unat (byte_at buf (i + 1)) < 2 ^ 8" by blast+
  then show ?thesis by (simp add: le16_def)
qed

lemma le32_bound: "le32 buf i < 2 ^ 32"
  using le16_bound [of buf i] le16_bound [of buf "i + 2"] by (simp add: le32_def)

lemma byte_at_put_other: "j \<noteq> i \<Longrightarrow> j \<noteq> i + 1 \<Longrightarrow> byte_at (put_le16 buf i v) j = byte_at buf j"
  by (simp add: byte_at_def put_le16_def)

lemma le16_put_same: "i + 2 \<le> length buf \<Longrightarrow> le16 (put_le16 buf i v) i = v mod 2 ^ 16"
proof -
  assume "i + 2 \<le> length buf"
  then have "le16 (put_le16 buf i v) i = v mod 2 ^ 8 + 2 ^ 8 * (v div 2 ^ 8 mod 2 ^ 8)"
    by (simp add: le16_def put_le16_def byte_at_def unat_of_nat)
  also have "\<dots> = v mod (2 ^ 8 * 2 ^ 8)" by (subst mod_mult2_eq) simp
  finally show ?thesis by simp
qed

lemma le16_put_other: "j + 2 \<le> i \<or> i + 2 \<le> j \<Longrightarrow> le16 (put_le16 buf i v) j = le16 buf j"
  by (auto simp: le16_def byte_at_put_other)

lemma le32_put_same: "i + 4 \<le> length buf \<Longrightarrow> le32 (put_le32 buf i v) i = v mod 2 ^ 32"
proof -
  assume a: "i + 4 \<le> length buf"
  have "le32 (put_le32 buf i v) i = v mod 2 ^ 16 + 2 ^ 16 * (v div 2 ^ 16 mod 2 ^ 16)"
    using a by (simp add: le32_def put_le32_def le16_put_same le16_put_other)
  also have "\<dots> = v mod (2 ^ 16 * 2 ^ 16)" by (subst mod_mult2_eq) simp
  finally show ?thesis by simp
qed

lemma le32_put_other: "j + 4 \<le> i \<or> i + 4 \<le> j \<Longrightarrow> le32 (put_le32 buf i v) j = le32 buf j"
  by (auto simp: le32_def put_le32_def le16_put_other)

lemma byte_at_put32_other: "j < i \<or> i + 4 \<le> j \<Longrightarrow> byte_at (put_le32 buf i v) j = byte_at buf j"
  by (auto simp: put_le32_def byte_at_put_other)

lemma byte_at_concat: "byte_at (xs @ ys) i = (if i < length xs then byte_at xs i else byte_at ys (i - length xs))"
  by (auto simp: byte_at_def nth_append)

lemma concat_slice:
  assumes "\<And>i. i < n \<Longrightarrow> length (f i) = z" "i < n" "o1 + c \<le> z"
  shows "take c (drop (z * i + o1) (concat (map f [0 ..< n]))) = take c (drop o1 (f i))"
proof -
  have l: "length (concat (map f [0 ..< k])) = z * k" if "k \<le> n" for k
    using that assms(1) by (induction k) simp_all
  have "[0 ..< n] = [0 ..< i] @ i # [Suc i ..< n]" using assms(2) upt_add_eq_append [of 0 i "n - i"] upt_conv_Cons [of i n] by simp
  then have "concat (map f [0 ..< n]) = concat (map f [0 ..< i]) @ f i @ concat (map f [Suc i ..< n])" by simp
  then have "drop (z * i + o1) (concat (map f [0 ..< n])) = drop o1 (f i) @ concat (map f [Suc i ..< n])"
    using l [of i] assms by simp
  then show ?thesis using assms by simp
qed

text \<open>\<open>n\<close> bytes of a buffer, as \<open>memcpy\<close> takes them.\<close>

definition bytes_of :: "u8 list \<Rightarrow> nat \<Rightarrow> nat \<Rightarrow> u8 list" where
  "bytes_of buf off n = map (\<lambda>i. byte_at buf (off + i)) [0 ..< n]"

lemma length_bytes_of [simp]: "length (bytes_of buf off n) = n"
  by (simp add: bytes_of_def)

lemma bytes_of_take: "off + n \<le> length buf \<Longrightarrow> bytes_of buf off n = take n (drop off buf)"
  by (rule nth_equalityI) (auto simp: bytes_of_def byte_at_def)

lemma byte_at_bytes_of: "i < n \<Longrightarrow> byte_at (bytes_of buf off n) i = byte_at buf (off + i)"
  by (simp add: bytes_of_def byte_at_def [of "map _ _"])

text \<open>The cast \<open>(int)\<close> of an unsigned 32-bit value.\<close>

definition int32 :: "nat \<Rightarrow> int" where
  "int32 n = sint (of_nat n :: 32 word)"

lemma int32_small [wrap_simps]: "n < 2 ^ 31 \<Longrightarrow> int32 n = int n"
  by (simp add: int32_def signed_of_nat signed_take_bit_int_eq_self)

section \<open>C strings\<close>

text \<open>A C string argument is the list of its bytes; a read at or past the end is the terminator.\<close>

definition cstr_at :: "u8 list \<Rightarrow> nat \<Rightarrow> u8" where
  "cstr_at str i = (if i < length str then str ! i else 0)"

text \<open>The string stored in an array: the bytes before the first zero.\<close>

definition cstr_of :: "u8 list \<Rightarrow> u8 list" where
  "cstr_of = takeWhile (\<lambda>b. b \<noteq> 0)"

lemma takeWhile_eqI:
  assumes "n \<le> length xs" "\<forall>k < n. P (xs ! k)" "n < length xs \<longrightarrow> \<not> P (xs ! n)"
  shows "takeWhile P xs = take n xs"
  using assms
proof (induction xs arbitrary: n)
  case (Cons x xs)
  show ?case
  proof (cases n)
    case (Suc k)
    with Cons.prems have "P x" "\<forall>j < k. P (xs ! j)" "k \<le> length xs" "k < length xs \<longrightarrow> \<not> P (xs ! k)" by auto
    with Cons.IH [of k] Suc show ?thesis by simp
  qed (use Cons in auto)
qed simp

lemma cstr_of_zero: "n \<le> length name \<Longrightarrow> \<forall>k < n. cstr_at name k \<noteq> 0 \<Longrightarrow> cstr_at name n = 0 \<Longrightarrow> cstr_of name = take n name"
  unfolding cstr_of_def by (rule takeWhile_eqI) (auto simp: cstr_at_def)

lemma cstr_at_inside: "\<forall>k < n. cstr_at name k \<noteq> 0 \<Longrightarrow> n \<le> length name"
  by (rule ccontr) (auto simp: cstr_at_def not_le)

end
