(* ===== verification/KHeap.thy ===== *)
theory KHeap
  imports Prelude
begin

text \<open>
  The bitmap allocator of \<open>libc/heap.c\<close> and \<open>libc/heap.h\<close>. A block is its header fields, its
  address and the slot bytes stored at \<open>&b[1]\<close>: one byte per \<open>bsize\<close> bytes of the block, zero
  for a free slot and a small identifier for a used one. The chain \<open>fblock\<close>, \<open>next\<close> is a list of
  blocks, first block first. \<open>size_t\<close> values are natural numbers with the wrap-around of
  \<open>sub64\<close> and \<open>mul64\<close> where the code subtracts or multiplies; a read outside the slot bytes and a
  division by zero are the result \<open>None\<close>.

  The allocations of a block are read off its slot bytes: \<open>live bm\<close> is the set of maximal runs of
  one non-zero identifier. The theorems show that an allocation adds exactly one run,
  a release of a run's first slot removes exactly that run, and \<open>used\<close> counts the used slots.
\<close>

section \<open>The allocator\<close>

record kheapblock =
  kb_addr :: nat
  kb_size :: nat
  kb_used :: nat
  kb_bsize :: nat
  kb_lfb :: nat
  kb_bm :: "u8 list"

type_synonym kheap = "kheapblock list"

definition kheapblock_sizeof :: nat where
  "kheapblock_sizeof = 40"

definition k_heapBMInit :: kheap where
  "k_heapBMInit = []"

text \<open>The number of slots of \<open>bsize\<close> bytes that hold \<open>n\<close> bytes.\<close>

definition slots_for :: "nat \<Rightarrow> nat \<Rightarrow> nat" where
  "slots_for n bsize = (if (n div bsize) * bsize < n then n div bsize + 1 else n div bsize)"

definition k_heapBMAddBlock :: "kheap \<Rightarrow> nat \<Rightarrow> nat \<Rightarrow> nat \<Rightarrow> kheap option" where
  "k_heapBMAddBlock heap addr n bsize =
     (let sz = sub64 n kheapblock_sizeof in
      if bsize = 0 then None
      else
        let bcnt = sz div bsize;
            bm = set_slots (replicate bcnt 0) 0 bcnt 0;
            r = slots_for bcnt bsize;
            bm' = set_slots bm 0 r 5
        in Some (\<lparr>kb_addr = addr, kb_size = sz, kb_used = r, kb_bsize = bsize,
                  kb_lfb = sub64 r 1, kb_bm = bm'\<rparr> # heap))"

text \<open>\<open>for (c = a + 1; c == b || c == 0; ++c);\<close> on \<open>uint8_t\<close>.\<close>

function nid_from :: "u8 \<Rightarrow> u8 \<Rightarrow> u8" where
  "nid_from c b = (if c = b \<or> c = 0 then nid_from (c + 1) b else c)"
  by pat_completeness auto
termination
proof (relation "measure (\<lambda>(c, b). if c = b \<or> c = 0
    then (if c + 1 = b \<or> c + 1 = 0 then 2 else 1) else 0 :: nat)")
  fix c b :: u8
  define d e where "d = c + 1" and "e = d + 1"
  assume "c = b \<or> c = 0"
  moreover have "d \<noteq> c" "e \<noteq> c" "e \<noteq> d" by (simp_all add: d_def e_def)
  ultimately show "((c + 1, b), c, b) \<in> measure (\<lambda>(c, b). if c = b \<or> c = 0
      then (if c + 1 = b \<or> c + 1 = 0 then 2 else 1) else 0 :: nat)"
    by (auto simp flip: d_def e_def)
qed simp

declare nid_from.simps [simp del]

definition k_heapBMGetNID :: "u8 \<Rightarrow> u8 \<Rightarrow> u8" where
  "k_heapBMGetNID a b = nid_from (a + 1) b"

text \<open>The search of one block: the first \<open>x\<close> from which \<open>bneed\<close> slots are free. The inner loop
  counts free slots; a run that is too short is skipped.\<close>

datatype scan = Found nat | Full | Bad_Read

function scan_free :: "u8 list \<Rightarrow> nat \<Rightarrow> nat \<Rightarrow> nat \<Rightarrow> scan" where
  "scan_free bm bneed bcnt x =
     (if x + bneed \<le> bcnt then
        if length bm \<le> x then Bad_Read
        else if bm ! x = 0 then
          let y = skip_while (\<lambda>y. bm ! (x + y) = 0) 0 bneed in
          if y = bneed then Found x else scan_free bm bneed bcnt (x + y + 1)
        else scan_free bm bneed bcnt (x + 1)
      else Full)"
  by pat_completeness auto
termination
  by (relation "measure (\<lambda>(bm, bneed, bcnt, x). Suc bcnt - x)") auto

declare scan_free.simps [simp del]

text \<open>The result: the pointer (0 is \<open>NULL\<close>) and the updated chain.\<close>

fun k_heapBMAlloc :: "kheap \<Rightarrow> nat \<Rightarrow> (nat \<times> kheap) option" where
  "k_heapBMAlloc [] n = Some (0, [])"
| "k_heapBMAlloc (b # bs) n =
     (let try_next = map_option (\<lambda>(p, bs'). (p, b # bs')) (k_heapBMAlloc bs n) in
      if sub64 (kb_size b) (mul64 (kb_used b) (kb_bsize b)) \<ge> n then
        if kb_bsize b = 0 then None
        else
          let bcnt = kb_size b div kb_bsize b;
              bneed = slots_for n (kb_bsize b);
              bm = kb_bm b
          in case scan_free bm bneed bcnt 0 of
               Bad_Read \<Rightarrow> None
             | Full \<Rightarrow> try_next
             | Found x \<Rightarrow>
                 let prev = (if x > 0 then bm ! (x - 1) else 0);
                     nxt = (if x + bneed < bcnt then bm ! (x + bneed) else 0);
                     nid = k_heapBMGetNID prev nxt
                 in Some (x * kb_bsize b + (kb_addr b + kheapblock_sizeof),
                          b\<lparr>kb_bm := set_slots bm x bneed nid,
                            kb_lfb := sub64 (x + bneed) 1,
                            kb_used := kb_used b + bneed\<rparr> # bs)
      else try_next)"

fun k_heapBMFree :: "kheap \<Rightarrow> nat \<Rightarrow> kheap option" where
  "k_heapBMFree [] ptr = Some []"
| "k_heapBMFree (b # bs) ptr =
     (if kb_addr b < ptr \<and> ptr < kb_addr b + kheapblock_sizeof + kb_size b then
        if kb_bsize b = 0 then None
        else
          let ptroff = sub64 ptr (kb_addr b + kheapblock_sizeof);
              bi = ptroff div kb_bsize b;
              bm = kb_bm b
          in if length bm \<le> bi then None
             else
               let mx = kb_size b div kb_bsize b;
                   x = skip_while (\<lambda>x. bm ! x = bm ! bi) bi mx
               in Some (b\<lparr>kb_bm := set_slots bm bi (x - bi) 0,
                          kb_used := sub64 (kb_used b) (x - bi)\<rparr> # bs)
      else map_option (\<lambda>bs'. b # bs') (k_heapBMFree bs ptr))"

section \<open>What a block's slot bytes mean\<close>

definition is_run :: "u8 list \<Rightarrow> nat \<Rightarrow> nat \<Rightarrow> bool" where
  "is_run bm s l \<longleftrightarrow> 0 < l \<and> s + l \<le> length bm \<and> bm ! s \<noteq> 0 \<and>
     (\<forall>i < l. bm ! (s + i) = bm ! s) \<and>
     (0 < s \<longrightarrow> bm ! (s - 1) \<noteq> bm ! s) \<and>
     (s + l < length bm \<longrightarrow> bm ! (s + l) \<noteq> bm ! s)"

definition live :: "u8 list \<Rightarrow> (nat \<times> nat) set" where
  "live bm = {(s, l). is_run bm s l}"

definition used_slots :: "u8 list \<Rightarrow> nat set" where
  "used_slots bm = {i. i < length bm \<and> bm ! i \<noteq> 0}"

lemma used_slots_code: "used_slots bm = set (filter (\<lambda>i. bm ! i \<noteq> 0) [0 ..< length bm])"
  by (auto simp: used_slots_def)

text \<open>The invariant of a block: its slot bytes are as many as its size allows, it does not reach
  past the address space, and \<open>used\<close> is the number of used slots.\<close>

definition block_inv :: "kheapblock \<Rightarrow> bool" where
  "block_inv b \<longleftrightarrow> 0 < kb_bsize b \<and> length (kb_bm b) = kb_size b div kb_bsize b \<and>
     kb_addr b + kheapblock_sizeof + kb_size b < 2 ^ 64 \<and>
     kb_used b = card (used_slots (kb_bm b))"

definition block_end :: "kheapblock \<Rightarrow> nat" where
  "block_end b = kb_addr b + kheapblock_sizeof + kb_size b"

definition blocks_apart :: "kheapblock \<Rightarrow> kheapblock \<Rightarrow> bool" where
  "blocks_apart b c \<longleftrightarrow> block_end b \<le> kb_addr c \<or> block_end c \<le> kb_addr b"

definition heap_inv :: "kheap \<Rightarrow> bool" where
  "heap_inv h \<longleftrightarrow> list_all block_inv h \<and> sorted_wrt blocks_apart h"

text \<open>The allocated regions of a heap: pointer and length in bytes.\<close>

definition block_regions :: "kheapblock \<Rightarrow> (nat \<times> nat) set" where
  "block_regions b =
     (\<lambda>(s, l). (s * kb_bsize b + (kb_addr b + kheapblock_sizeof), l * kb_bsize b)) ` live (kb_bm b)"

definition regions :: "kheap \<Rightarrow> (nat \<times> nat) set" where
  "regions h = (\<Union>b \<in> set h. block_regions b)"

section \<open>Proofs\<close>

lemma nid_from_fresh: "nid_from c b \<noteq> 0 \<and> nid_from c b \<noteq> b"
  by (induction c b rule: nid_from.induct) (subst (1 2) nid_from.simps, auto)

lemma nid_from_eq:
  "nid_from c b \<in> {c, c + 1, c + 2}"
proof -
  have d: "c + 2 \<noteq> c" "c + 1 \<noteq> c" "c + 2 \<noteq> c + 1" "(c + 1) + 1 = c + 2" by simp_all
  have "\<not> (c = b \<or> c = 0) \<or> \<not> (c + 1 = b \<or> c + 1 = 0) \<or> \<not> (c + 2 = b \<or> c + 2 = 0)"
    using d by metis
  then show ?thesis
    using d nid_from.simps [of c b] nid_from.simps [of "c + 1" b] nid_from.simps [of "c + 2" b]
    by (metis insert_iff)
qed

text \<open>The identifier of a new run differs from both neighbours and is never the free mark.\<close>

lemma k_heapBMGetNID_fresh:
  "k_heapBMGetNID a b \<noteq> 0" "k_heapBMGetNID a b \<noteq> a" "k_heapBMGetNID a b \<noteq> b"
proof -
  have "a + 1 \<noteq> a" "a + 2 \<noteq> a" "a + 3 \<noteq> a" "(a + 1) + 1 = a + 2" "(a + 1) + 2 = a + 3"
    by simp_all
  then show "k_heapBMGetNID a b \<noteq> a"
    using nid_from_eq [of "a + 1" b] unfolding k_heapBMGetNID_def by auto
qed (simp_all add: k_heapBMGetNID_def nid_from_fresh)

lemma is_run_same: "is_run bm s l \<Longrightarrow> s \<le> i \<Longrightarrow> i < s + l \<Longrightarrow> bm ! i = bm ! s"
  unfolding is_run_def by (metis add_diff_inverse_nat nat_add_left_cancel_less not_less)

text \<open>Runs that share a slot are the same run: both are maximal.\<close>

lemma run_start_unique:
  assumes r: "is_run bm s l" and r': "is_run bm s' l'"
    and i: "s \<le> i" "i < s + l" "s' \<le> i" "i < s' + l'"
  shows "s' \<le> s"
proof (rule ccontr)
  assume "\<not> s' \<le> s"
  then have s: "s \<le> s' - 1" "s' - 1 < s + l" "0 < s'" "s' < s + l" using i by auto
  have "bm ! (s' - 1) = bm ! s" "bm ! s' = bm ! s"
    using r s by (auto intro: is_run_same)
  with r' s show False by (simp add: is_run_def)
qed

lemma run_unique:
  assumes r: "is_run bm s l" and r': "is_run bm s' l'"
    and i: "s \<le> i" "i < s + l" "s' \<le> i" "i < s' + l'"
  shows "s' = s \<and> l' = l"
proof -
  have s: "s' = s"
    using run_start_unique [OF r r' i] run_start_unique [OF r' r i(3,4,1,2)] by simp
  have le: "l\<^sub>1 \<le> l\<^sub>2" if a: "is_run bm s l\<^sub>1" "is_run bm s l\<^sub>2" for l\<^sub>1 l\<^sub>2
  proof (rule ccontr)
    assume "\<not> l\<^sub>1 \<le> l\<^sub>2"
    with a have "bm ! (s + l\<^sub>2) = bm ! s" "s + l\<^sub>2 < length bm" by (auto simp: is_run_def)
    with a show False by (simp add: is_run_def)
  qed
  show ?thesis using s le [OF r r' [unfolded s]] le [OF r' [unfolded s] r] by simp
qed

subsection \<open>Filling and clearing a run\<close>

definition free_at :: "u8 list \<Rightarrow> nat \<Rightarrow> nat \<Rightarrow> bool" where
  "free_at bm n x \<longleftrightarrow> x + n \<le> length bm \<and> (\<forall>i < n. bm ! (x + i) = 0)"

text \<open>A run outside a changed range stays a run when the values at the border of the range
  differ from its own.\<close>

lemma is_run_transfer:
  assumes r: "is_run bm s l" and len: "length bm' = length bm"
    and eq: "\<And>i. i < length bm \<Longrightarrow> i < x \<or> x + n \<le> i \<Longrightarrow> bm' ! i = bm ! i"
    and dis: "s + l \<le> x \<or> x + n \<le> s" and n: "0 < n" "x + n \<le> length bm"
    and lo: "s = x + n \<Longrightarrow> bm' ! (x + n - 1) \<noteq> bm ! s"
    and hi: "s + l = x \<Longrightarrow> bm' ! x \<noteq> bm ! s"
  shows "is_run bm' s l"
proof -
  from r have l: "0 < l" "s + l \<le> length bm" by (auto simp: is_run_def)
  have e: "bm' ! (s + i) = bm ! (s + i)" if "i < l" for i
    using that l dis by (intro eq) auto
  have e0: "bm' ! s = bm ! s" using e [of 0] l by simp
  have before: "bm' ! (s - 1) \<noteq> bm ! s" if "0 < s"
  proof (cases "s = x + n")
    case True
    with lo that show ?thesis by simp
  next
    case False
    then have "bm' ! (s - 1) = bm ! (s - 1)" using dis l n by (intro eq) auto
    with r that show ?thesis by (simp add: is_run_def)
  qed
  have after: "bm' ! (s + l) \<noteq> bm ! s" if "s + l < length bm"
  proof (cases "s + l = x")
    case True
    with hi show ?thesis by simp
  next
    case False
    then have "bm' ! (s + l) = bm ! (s + l)" using dis that by (intro eq) auto
    with r that show ?thesis by (simp add: is_run_def)
  qed
  show ?thesis using r e e0 before after len by (auto simp: is_run_def)
qed

lemma fill_run_is_run:
  assumes "0 < n" "x + n \<le> length bm" "v \<noteq> 0"
    "0 < x \<Longrightarrow> bm ! (x - 1) \<noteq> v" "x + n < length bm \<Longrightarrow> bm ! (x + n) \<noteq> v"
  shows "is_run (set_slots bm x n v) x n"
  using assms by (auto simp: is_run_def)

lemma fill_run_live:
  assumes n: "0 < n" and free: "free_at bm n x" and v: "v \<noteq> 0"
    and lo: "0 < x \<Longrightarrow> bm ! (x - 1) \<noteq> v" and hi: "x + n < length bm \<Longrightarrow> bm ! (x + n) \<noteq> v"
  shows "live (set_slots bm x n v) = insert (x, n) (live bm)"
proof -
  let ?bm = "set_slots bm x n v"
  have x: "x + n \<le> length bm" using free by (simp add: free_at_def)
  have zero: "bm ! i = 0" if "x \<le> i" "i < x + n" for i
    using free that unfolding free_at_def by (metis add_diff_inverse_nat nat_add_left_cancel_less not_less)
  have new: "is_run ?bm x n" using n x v lo hi by (rule fill_run_is_run)
  have "is_run ?bm s l" if r: "is_run bm s l" for s l
  proof -
    have "s + l \<le> x \<or> x + n \<le> s"
    proof (rule ccontr)
      assume "\<not> ?thesis"
      then have "x \<le> max s x" "max s x < x + n" "s \<le> max s x" "max s x < s + l"
        using r n by (auto simp: is_run_def)
      then have "bm ! s = 0" using zero is_run_same [OF r] by metis
      with r show False by (simp add: is_run_def)
    qed
    then show ?thesis
    proof (rule is_run_transfer [OF r, where x = x and n = n, rotated 2])
      have sl: "0 < l" "s + l \<le> length bm" using r by (auto simp: is_run_def)
      have "?bm ! (x + n - 1) = v" using n x by (subst nth_set_slots) auto
      then show "?bm ! (x + n - 1) \<noteq> bm ! s" if "s = x + n" using that hi sl by auto
      show "?bm ! x \<noteq> bm ! s" if "s + l = x"
        using that lo n x sl is_run_same [OF r, of "x - 1"] by auto
    qed (use n x in auto)
  qed
  moreover have "is_run bm s l" if r: "is_run ?bm s l" and ne: "(s, l) \<noteq> (x, n)" for s l
  proof -
    have dis: "s + l \<le> x \<or> x + n \<le> s"
    proof (rule ccontr)
      assume "\<not> ?thesis"
      then have "x \<le> max s x" "max s x < x + n" "s \<le> max s x" "max s x < s + l"
        using r n by (auto simp: is_run_def)
      with run_unique [OF new r] ne show False by blast
    qed
    have sl: "0 < l" "s + l \<le> length bm" "?bm ! s \<noteq> 0"
      using r unfolding is_run_def length_set_slots by blast+
    show ?thesis
    proof (rule is_run_transfer [OF r _ _ dis n])
      show "x + n \<le> length ?bm" using x by simp
      show "bm ! i = ?bm ! i" if "i < length ?bm" "i < x \<or> x + n \<le> i" for i
        using that by auto
      show "bm ! (x + n - 1) \<noteq> ?bm ! s" using zero [of "x + n - 1"] n sl by simp
      show "bm ! x \<noteq> ?bm ! s" using zero [of x] n sl by simp
    qed simp
  qed
  ultimately show ?thesis using new by (auto simp: live_def)
qed

lemma clear_run_live:
  assumes r: "is_run bm x n"
  shows "live (set_slots bm x n 0) = live bm - {(x, n)}"
proof -
  let ?bm = "set_slots bm x n 0"
  have b: "0 < n" "x + n \<le> length bm" "bm ! x \<noteq> 0" using r by (auto simp: is_run_def)
  have same: "bm ! i = bm ! x" if "x \<le> i" "i < x + n" for i using r that by (rule is_run_same)
  have "set_slots ?bm x n (bm ! x) = bm"
    by (intro nth_equalityI) (auto intro!: same [symmetric])
  moreover have "live (set_slots ?bm x n (bm ! x)) = insert (x, n) (live ?bm)"
    using r b by (intro fill_run_live) (auto simp: free_at_def is_run_def)
  moreover have "(x, n) \<notin> live ?bm" using b by (simp add: live_def is_run_def)
  ultimately show ?thesis by simp
qed

lemma finite_used_slots [simp]: "finite (used_slots bm)"
  by (simp add: used_slots_def)

lemma used_slots_fill:
  assumes "free_at bm n x" "v \<noteq> 0"
  shows "card (used_slots (set_slots bm x n v)) = card (used_slots bm) + n"
proof -
  have z: "bm ! i = 0" if "x \<le> i" "i < x + n" for i
    using assms(1) that unfolding free_at_def by (metis add_diff_inverse_nat nat_add_left_cancel_less not_less)
  have "used_slots (set_slots bm x n v) = used_slots bm \<union> {x ..< x + n}"
    using assms by (auto simp: used_slots_def free_at_def split: if_splits)
  moreover have "used_slots bm \<inter> {x ..< x + n} = {}"
    using z by (auto simp: used_slots_def)
  ultimately show ?thesis by (simp add: card_Un_disjoint)
qed

lemma used_slots_clear:
  assumes r: "is_run bm x n"
  shows "card (used_slots (set_slots bm x n 0)) = card (used_slots bm) - n" "n \<le> card (used_slots bm)"
proof -
  have b: "0 < n" "x + n \<le> length bm" "bm ! x \<noteq> 0" using r by (auto simp: is_run_def)
  have same: "bm ! i = bm ! x" if "x \<le> i" "i < x + n" for i using r that by (rule is_run_same)
  have "used_slots (set_slots bm x n 0) = used_slots bm - {x ..< x + n}"
    by (auto simp: used_slots_def split: if_splits)
  moreover have sub: "{x ..< x + n} \<subseteq> used_slots bm"
  proof
    fix i
    assume i: "i \<in> {x ..< x + n}"
    with same [of i] b show "i \<in> used_slots bm" by (auto simp: used_slots_def)
  qed
  ultimately show "card (used_slots (set_slots bm x n 0)) = card (used_slots bm) - n"
    by (simp add: card_Diff_subset)
  show "n \<le> card (used_slots bm)" using card_mono [OF _ sub] by simp
qed

subsection \<open>The search is first fit\<close>

text \<open>No slot run that starts before a too-short free run's end can be long enough.\<close>

lemma not_free_at:
  "i < n \<Longrightarrow> bm ! (x + i) \<noteq> 0 \<Longrightarrow> \<not> free_at bm n x"
  by (auto simp: free_at_def)

lemma short_run_skip:
  assumes y: "y = skip_while (\<lambda>y. bm ! (x + y) = 0) 0 n" and "y \<noteq> n" and z: "x \<le> z" "z < x + y + 1"
  shows "\<not> free_at bm n z"
proof -
  have "y < n" using skip_while_le [of 0 n "\<lambda>y. bm ! (x + y) = 0"] y \<open>y \<noteq> n\<close> by simp
  then have "bm ! (x + y) \<noteq> 0" using skip_while_stop [of "\<lambda>y. bm ! (x + y) = 0" 0 n] y by simp
  then have "bm ! (z + (x + y - z)) \<noteq> 0" using z by simp
  then show ?thesis using \<open>y < n\<close> z by (intro not_free_at [of "x + y - z"]) auto
qed

lemma scan_free_spec:
  assumes "length bm = bcnt" "0 < n"
  shows "case scan_free bm n bcnt x of
      Found y \<Rightarrow> x \<le> y \<and> free_at bm n y \<and> (\<forall>z. x \<le> z \<and> z < y \<longrightarrow> \<not> free_at bm n z)
    | Full \<Rightarrow> (\<forall>z \<ge> x. \<not> free_at bm n z)
    | Bad_Read \<Rightarrow> False"
  using assms
proof (induction bm n bcnt x rule: scan_free.induct)
  case (1 bm n bcnt x)
  let ?y = "skip_while (\<lambda>y. bm ! (x + y) = 0) 0 n"
  have lift: "case r of Found y \<Rightarrow> x \<le> y \<and> free_at bm n y \<and> (\<forall>z. x \<le> z \<and> z < y \<longrightarrow> \<not> free_at bm n z)
      | Full \<Rightarrow> (\<forall>z \<ge> x. \<not> free_at bm n z) | Bad_Read \<Rightarrow> False"
    if "case r of Found y \<Rightarrow> k \<le> y \<and> free_at bm n y \<and> (\<forall>z. k \<le> z \<and> z < y \<longrightarrow> \<not> free_at bm n z)
      | Full \<Rightarrow> (\<forall>z \<ge> k. \<not> free_at bm n z) | Bad_Read \<Rightarrow> False"
      and "x \<le> k" "\<forall>z. x \<le> z \<and> z < k \<longrightarrow> \<not> free_at bm n z" for r k
    using that by (auto split: scan.splits) (metis not_less)+
  consider "bcnt < x + n" | "x + n \<le> bcnt" "bm ! x \<noteq> 0"
    | "x + n \<le> bcnt" "bm ! x = 0" "?y \<noteq> n" | "x + n \<le> bcnt" "bm ! x = 0" "?y = n"
    by linarith
  then show ?case
  proof cases
    case 1
    then show ?thesis using "1.prems" by (subst scan_free.simps) (auto simp: free_at_def)
  next
    case 2
    have "\<forall>z. x \<le> z \<and> z < x + 1 \<longrightarrow> \<not> free_at bm n z"
    proof (intro allI impI)
      fix z assume "x \<le> z \<and> z < x + 1"
      then have "z = x" by simp
      with 2 "1.prems" show "\<not> free_at bm n z" by (intro not_free_at [of 0]) auto
    qed
    with 2 "1.prems" "1.IH"(2) show ?thesis
      by (subst scan_free.simps) (auto intro!: lift [where k = "x + 1"])
  next
    case 3
    have "\<forall>z. x \<le> z \<and> z < x + ?y + 1 \<longrightarrow> \<not> free_at bm n z"
      using short_run_skip [OF refl \<open>?y \<noteq> n\<close>] by blast
    with 3 "1.prems" "1.IH"(1) show ?thesis
      by (subst scan_free.simps) (auto simp: Let_def intro!: lift [where k = "x + ?y + 1"])
  next
    case 4
    have "bm ! (x + i) = 0" if "i < n" for i
      using that 4 skip_while_all [of 0 i "\<lambda>y. bm ! (x + y) = 0" n] by simp
    with 4 "1.prems" show ?thesis by (subst scan_free.simps) (auto simp: free_at_def)
  qed
qed

subsection \<open>Slots and bytes\<close>

lemma slots_for_bounds:
  assumes "0 < bs"
  shows "n \<le> slots_for n bs * bs" "0 < n \<Longrightarrow> 0 < slots_for n bs"
    "slots_for n bs * bs < n + bs" "slots_for n bs \<le> n"
proof -
  obtain q r where q: "n div bs = q" "n = q * bs + r" "r < bs"
    using assms by (metis div_mult_mod_eq mod_less_divisor)
  then show "n \<le> slots_for n bs * bs" "slots_for n bs * bs < n + bs"
    unfolding slots_for_def q(1) by (auto simp: not_less)
  show "0 < n \<Longrightarrow> 0 < slots_for n bs"
    using q unfolding slots_for_def q(1) by (cases q) auto
  have le: "q \<le> q * bs" using assms by simp
  show "slots_for n bs \<le> n"
  proof (cases "q * bs < n")
    case True
    then show ?thesis using le unfolding slots_for_def q(1) if_P [OF True] by linarith
  next
    case False
    then show ?thesis using le q(2) unfolding slots_for_def q(1) if_not_P [OF False] by linarith
  qed
qed

lemma block_slots_bytes: "block_inv b \<Longrightarrow> length (kb_bm b) * kb_bsize b \<le> kb_size b"
  by (simp add: block_inv_def)

text \<open>A run of free slots that is long enough implies the byte count test of the allocator.\<close>

lemma free_at_passes_guard:
  assumes inv: "block_inv b" and f: "free_at (kb_bm b) (slots_for n (kb_bsize b)) x" and n: "0 < n"
  shows "n \<le> sub64 (kb_size b) (mul64 (kb_used b) (kb_bsize b))"
proof -
  let ?k = "slots_for n (kb_bsize b)"
  have bs: "0 < kb_bsize b" and used: "kb_used b = card (used_slots (kb_bm b))"
    and sz: "kb_size b < 2 ^ 64" using inv by (auto simp: block_inv_def)
  have "used_slots (kb_bm b) \<subseteq> {..< length (kb_bm b)} - {x ..< x + ?k}"
  proof
    fix i assume "i \<in> used_slots (kb_bm b)"
    then have i: "i < length (kb_bm b)" "kb_bm b ! i \<noteq> 0" by (auto simp: used_slots_def)
    have "kb_bm b ! i = 0" if "x \<le> i" "i < x + ?k"
      using f [unfolded free_at_def] that by (metis add_diff_inverse_nat nat_add_left_cancel_less not_less)
    then show "i \<in> {..< length (kb_bm b)} - {x ..< x + ?k}" using i by auto
  qed
  then have "card (used_slots (kb_bm b)) \<le> card ({..< length (kb_bm b)} - {x ..< x + ?k})"
    by (intro card_mono) auto
  also have "\<dots> = length (kb_bm b) - ?k"
    using f by (subst card_Diff_subset) (auto simp: free_at_def)
  finally have "kb_used b + ?k \<le> length (kb_bm b)" using f used unfolding free_at_def by linarith
  then have "(kb_used b + ?k) * kb_bsize b \<le> length (kb_bm b) * kb_bsize b" by (rule mult_le_mono1)
  then have "kb_used b * kb_bsize b + ?k * kb_bsize b \<le> kb_size b"
    using block_slots_bytes [OF inv] by (simp add: algebra_simps)
  then show ?thesis using slots_for_bounds(1) [OF bs, of n] sz
    by (subst mul64_exact, simp, subst sub64_exact) auto
qed

lemma block_regions_bound:
  assumes "block_inv b" "(p, l) \<in> block_regions b"
  shows "kb_addr b + kheapblock_sizeof \<le> p" "p + l \<le> block_end b" "0 < l"
proof -
  obtain s k where sk: "is_run (kb_bm b) s k" "p = s * kb_bsize b + (kb_addr b + kheapblock_sizeof)"
    "l = k * kb_bsize b" using assms(2) by (auto simp: block_regions_def live_def)
  then have "(s + k) * kb_bsize b \<le> length (kb_bm b) * kb_bsize b" "0 < k"
    by (auto intro: mult_le_mono1 simp: is_run_def)
  then have "s * kb_bsize b + k * kb_bsize b \<le> kb_size b" "0 < k"
    using block_slots_bytes [OF assms(1)] by (auto simp: add_mult_distrib)
  then show "kb_addr b + kheapblock_sizeof \<le> p" "p + l \<le> block_end b" "0 < l"
    using sk assms(1) by (auto simp: block_end_def block_inv_def)
qed

lemma block_regions_inj:
  "block_inv b \<Longrightarrow> inj (\<lambda>(s, l). (s * kb_bsize b + (kb_addr b + kheapblock_sizeof), l * kb_bsize b))"
  by (auto simp: inj_def block_inv_def)

lemma block_regions_apart:
  assumes inv: "block_inv b" and r: "(p, l) \<in> block_regions b" "(q, m) \<in> block_regions b"
    and ne: "(p, l) \<noteq> (q, m)"
  shows "p + l \<le> q \<or> q + m \<le> p"
proof -
  let ?a = "kb_addr b + kheapblock_sizeof"
  obtain s k where sk: "is_run (kb_bm b) s k" "p = s * kb_bsize b + ?a" "l = k * kb_bsize b"
    using r(1) by (auto simp: block_regions_def live_def)
  obtain t j where tj: "is_run (kb_bm b) t j" "q = t * kb_bsize b + ?a" "m = j * kb_bsize b"
    using r(2) by (auto simp: block_regions_def live_def)
  have "s + k \<le> t \<or> t + j \<le> s"
  proof (rule ccontr)
    assume "\<not> ?thesis"
    then have "s \<le> max s t" "max s t < s + k" "t \<le> max s t" "max s t < t + j"
      using sk tj by (auto simp: is_run_def)
    then have "t = s \<and> j = k" by (rule run_unique [OF sk(1) tj(1)])
    with sk tj ne show False by simp
  qed
  then have "(s + k) * kb_bsize b \<le> t * kb_bsize b \<or> (t + j) * kb_bsize b \<le> s * kb_bsize b"
    by (auto intro: mult_le_mono1)
  then show ?thesis using sk tj by (auto simp: algebra_simps)
qed

subsection \<open>The whole chain\<close>

text \<open>Changing the slot bytes and the counters of a block keeps its place in the address space.\<close>

definition same_place :: "kheapblock \<Rightarrow> kheapblock \<Rightarrow> bool" where
  "same_place b b' \<longleftrightarrow> kb_addr b' = kb_addr b \<and> kb_size b' = kb_size b \<and> kb_bsize b' = kb_bsize b"

lemma heap_inv_Cons:
  "heap_inv (b # bs) \<longleftrightarrow> block_inv b \<and> (\<forall>c \<in> set bs. blocks_apart b c) \<and> heap_inv bs"
  by (auto simp: heap_inv_def)

lemma regions_Cons [simp]: "regions (b # bs) = block_regions b \<union> regions bs"
  by (simp add: regions_def)

lemma regions_Nil [simp]: "regions [] = {}"
  by (simp add: regions_def)

lemma same_place_refl [simp]: "same_place b b"
  by (simp add: same_place_def)

lemma blocks_apart_same_place:
  "same_place b b' \<Longrightarrow> same_place c c' \<Longrightarrow> blocks_apart b c \<Longrightarrow> blocks_apart b' c'"
  by (simp add: blocks_apart_def block_end_def same_place_def)

lemma heap_inv_Cons_upd:
  assumes "heap_inv (b # bs)" "same_place b b'" "block_inv b'" "heap_inv bs'"
    "list_all2 same_place bs bs'"
  shows "heap_inv (b' # bs')"
proof -
  have "blocks_apart b' c'" if c': "c' \<in> set bs'" for c'
  proof -
    obtain i where i: "i < length bs'" "c' = bs' ! i" using c' by (auto simp: in_set_conv_nth)
    then have "bs ! i \<in> set bs" "same_place (bs ! i) c'"
      using assms(5) by (auto simp: list_all2_conv_all_nth)
    with assms show ?thesis by (auto simp: heap_inv_Cons intro: blocks_apart_same_place)
  qed
  with assms show ?thesis by (simp add: heap_inv_Cons)
qed

lemma list_all2_same_place_refl [simp]: "list_all2 same_place bs bs"
  by (simp add: list.rel_refl)

lemma regions_in_heap:
  assumes "heap_inv h" "(p, l) \<in> regions h"
  shows "\<exists>b \<in> set h. block_inv b \<and> (p, l) \<in> block_regions b"
  using assms by (auto simp: heap_inv_def regions_def list_all_iff)

lemma regions_apart:
  assumes "heap_inv h" "(p, l) \<in> regions h" "(q, m) \<in> regions h" "(p, l) \<noteq> (q, m)"
  shows "p + l \<le> q \<or> q + m \<le> p"
  using assms
proof (induction h)
  case (Cons b bs)
  have far: "p' + l' \<le> q' \<or> q' + m' \<le> p'"
    if a: "(p', l') \<in> block_regions b" "(q', m') \<in> regions bs" for p' l' q' m'
  proof -
    have inv: "heap_inv bs" "block_inv b" using Cons.prems(1) by (auto simp: heap_inv_Cons)
    obtain c where c: "c \<in> set bs" "block_inv c" "(q', m') \<in> block_regions c"
      using regions_in_heap [OF inv(1) a(2)] by blast
    have "blocks_apart b c" using Cons.prems(1) c(1) by (simp add: heap_inv_Cons)
    then show ?thesis
      using block_regions_bound [OF inv(2) a(1)] block_regions_bound [OF c(2,3)]
      by (auto simp: blocks_apart_def)
  qed
  have inv: "heap_inv bs" "block_inv b" using Cons.prems(1) by (auto simp: heap_inv_Cons)
  consider "(p, l) \<in> block_regions b" "(q, m) \<in> block_regions b"
    | "(p, l) \<in> block_regions b" "(q, m) \<in> regions bs"
    | "(p, l) \<in> regions bs" "(q, m) \<in> block_regions b"
    | "(p, l) \<in> regions bs" "(q, m) \<in> regions bs" using Cons.prems(2,3) by auto
  then show ?case
  proof cases
    case 1
    then show ?thesis using Cons.prems(4) by (rule block_regions_apart [OF inv(2)])
  next
    case 2
    then show ?thesis by (rule far)
  next
    case 3
    then show ?thesis using far [of q m p l] by blast
  next
    case 4
    then show ?thesis using Cons.IH [OF inv(1)] Cons.prems(4) by blast
  qed
qed simp

text \<open>A block with room: some run of free slots holds \<open>n\<close> bytes.\<close>

definition has_room :: "kheapblock \<Rightarrow> nat \<Rightarrow> bool" where
  "has_room b n \<longleftrightarrow> (\<exists>x. free_at (kb_bm b) (slots_for n (kb_bsize b)) x)"

definition alloc_in :: "kheapblock \<Rightarrow> nat \<Rightarrow> nat \<Rightarrow> kheapblock \<Rightarrow> bool" where
  "alloc_in b n x b' \<longleftrightarrow> same_place b b' \<and> block_inv b' \<and>
     free_at (kb_bm b) (slots_for n (kb_bsize b)) x \<and>
     live (kb_bm b') = insert (x, slots_for n (kb_bsize b)) (live (kb_bm b))"

lemma alloc_block_ok:
  fixes b :: kheapblock and n :: nat
  defines "k \<equiv> slots_for n (kb_bsize b)"
  defines "nid x \<equiv> k_heapBMGetNID (if 0 < x then kb_bm b ! (x - 1) else 0)
      (if x + k < kb_size b div kb_bsize b then kb_bm b ! (x + k) else 0)"
  assumes inv: "block_inv b" and n: "0 < n" and f: "free_at (kb_bm b) k x"
  shows "alloc_in b n x (b\<lparr>kb_bm := set_slots (kb_bm b) x k (nid x), kb_lfb := lf,
      kb_used := kb_used b + k\<rparr>)"
proof -
  have k: "0 < k" using slots_for_bounds(2) n inv by (simp add: k_def block_inv_def)
  have len: "length (kb_bm b) = kb_size b div kb_bsize b" using inv by (simp add: block_inv_def)
  have nid: "nid x \<noteq> 0" "0 < x \<Longrightarrow> kb_bm b ! (x - 1) \<noteq> nid x"
    "x + k < length (kb_bm b) \<Longrightarrow> kb_bm b ! (x + k) \<noteq> nid x"
    unfolding nid_def len
    by (simp_all add: k_heapBMGetNID_fresh k_heapBMGetNID_fresh [symmetric])
  have "live (set_slots (kb_bm b) x k (nid x)) = insert (x, k) (live (kb_bm b))"
    using k f nid by (intro fill_run_live)
  moreover have "card (used_slots (set_slots (kb_bm b) x k (nid x))) = card (used_slots (kb_bm b)) + k"
    using f nid(1) by (rule used_slots_fill)
  ultimately show ?thesis
    using inv f by (simp add: alloc_in_def same_place_def block_inv_def k_def)
qed

text \<open>The allocator either finds room in the first block that has it, or reports that no block
  has room.\<close>

lemma k_heapBMAlloc_spec:
  assumes "heap_inv h" "0 < n"
  shows "(\<exists>pre b post x b'. h = pre @ b # post \<and> alloc_in b n x b' \<and>
            (\<forall>c \<in> set pre. \<not> has_room c n) \<and>
            k_heapBMAlloc h n =
              Some (x * kb_bsize b + (kb_addr b + kheapblock_sizeof), pre @ b' # post)) \<or>
         (\<forall>c \<in> set h. \<not> has_room c n) \<and> k_heapBMAlloc h n = Some (0, h)"
  using assms
proof (induction h)
  case (Cons b bs)
  have inv: "heap_inv bs" "block_inv b" using Cons.prems(1) by (auto simp: heap_inv_Cons)
  let ?k = "slots_for n (kb_bsize b)"
  let ?g = "n \<le> sub64 (kb_size b) (mul64 (kb_used b) (kb_bsize b))"
  have bs: "0 < kb_bsize b" and len: "length (kb_bm b) = kb_size b div kb_bsize b"
    using inv(2) by (auto simp: block_inv_def)
  note scan = scan_free_spec [OF len slots_for_bounds(2) [OF bs Cons.prems(2)], of 0]
  show ?case
  proof (cases "has_room b n")
    case True
    then obtain z where "free_at (kb_bm b) ?k z" by (auto simp: has_room_def)
    with scan have "scan_free (kb_bm b) ?k (kb_size b div kb_bsize b) 0 \<noteq> Full"
      "scan_free (kb_bm b) ?k (kb_size b div kb_bsize b) 0 \<noteq> Bad_Read" by auto
    with scan obtain x where x: "scan_free (kb_bm b) ?k (kb_size b div kb_bsize b) 0 = Found x"
      "free_at (kb_bm b) ?k x" by (cases "scan_free (kb_bm b) ?k (kb_size b div kb_bsize b) 0") auto
    have ?g using inv(2) x(2) Cons.prems(2) by (rule free_at_passes_guard)
    with x bs obtain b' where "k_heapBMAlloc (b # bs) n =
        Some (x * kb_bsize b + (kb_addr b + kheapblock_sizeof), b' # bs)" "alloc_in b n x b'"
      using alloc_block_ok [OF inv(2) Cons.prems(2) x(2)] by (simp add: Let_def)
    then show ?thesis
      by (intro disjI1 exI [of _ "[]"] exI [of _ b] exI [of _ bs] exI [of _ x] exI [of _ b']) simp
  next
    case False
    with scan have "scan_free (kb_bm b) ?k (kb_size b div kb_bsize b) 0 = Full"
      by (auto simp: has_room_def split: scan.splits)
    then have step: "k_heapBMAlloc (b # bs) n =
        map_option (\<lambda>(p, bs'). (p, b # bs')) (k_heapBMAlloc bs n)"
      using bs by (simp add: Let_def)
    from Cons.IH [OF inv(1) Cons.prems(2)] show ?thesis
    proof (elim disjE exE conjE)
      fix pre c post x c'
      assume "bs = pre @ c # post" "alloc_in c n x c'" "\<forall>c \<in> set pre. \<not> has_room c n"
        "k_heapBMAlloc bs n = Some (x * kb_bsize c + (kb_addr c + kheapblock_sizeof), pre @ c' # post)"
      then show ?thesis using False step
        by (intro disjI1 exI [of _ "b # pre"] exI [of _ c] exI [of _ post] exI [of _ x] exI [of _ c']) auto
    next
      assume "\<forall>c \<in> set bs. \<not> has_room c n" "k_heapBMAlloc bs n = Some (0, bs)"
      then show ?thesis using False step by (intro disjI2) auto
    qed
  qed
qed simp

lemma heap_inv_replace:
  assumes "heap_inv (pre @ b # post)" "same_place b b'" "block_inv b'"
  shows "heap_inv (pre @ b' # post)"
  using assms
proof (induction pre)
  case Nil
  then have "heap_inv (b # post)" "heap_inv post" by (simp_all add: heap_inv_Cons)
  with Nil show ?case using heap_inv_Cons_upd [of b post b' post] by simp
next
  case (Cons a pre)
  then have IH: "heap_inv (pre @ b' # post)" by (simp add: heap_inv_Cons)
  have l2: "list_all2 same_place (pre @ b # post) (pre @ b' # post)"
    using Cons.prems(2) by (simp add: list_all2_append)
  have "heap_inv (a # (pre @ b # post))" "block_inv a" using Cons.prems(1) by (auto simp: heap_inv_Cons)
  from heap_inv_Cons_upd [OF this(1) same_place_refl this(2) IH l2] show ?case by simp
qed

lemma alloc_in_regions:
  assumes "alloc_in b n x b'" "block_inv b"
  shows "block_regions b' = insert (x * kb_bsize b + (kb_addr b + kheapblock_sizeof),
      slots_for n (kb_bsize b) * kb_bsize b) (block_regions b)"
    "n \<le> slots_for n (kb_bsize b) * kb_bsize b"
  using assms slots_for_bounds(1) [of "kb_bsize b" n]
  by (auto simp: alloc_in_def block_regions_def same_place_def block_inv_def)

lemma free_at_not_live: "free_at bm k x \<Longrightarrow> 0 < k \<Longrightarrow> (x, l) \<notin> live bm"
  by (auto simp: free_at_def live_def is_run_def)

lemma regions_replace: "regions (pre @ b # post) = regions pre \<union> block_regions b \<union> regions post"
  by (auto simp: regions_def)

lemma free_at_fresh_region:
  assumes inv: "heap_inv (pre @ b # post)" and f: "free_at (kb_bm b) k x" "0 < k"
  shows "(x * kb_bsize b + (kb_addr b + kheapblock_sizeof), l) \<notin> regions (pre @ b # post)"
proof
  let ?p = "x * kb_bsize b + (kb_addr b + kheapblock_sizeof)"
  assume "(?p, l) \<in> regions (pre @ b # post)"
  then obtain c where c: "c \<in> set (pre @ b # post)" "block_inv c" "(?p, l) \<in> block_regions c"
    using regions_in_heap [OF inv] by blast
  have b: "block_inv b" using inv by (auto simp: heap_inv_def)
  have "x < length (kb_bm b)" using f by (simp add: free_at_def)
  then have "(x + 1) * kb_bsize b \<le> length (kb_bm b) * kb_bsize b" by (intro mult_le_mono1) simp
  then have "x * kb_bsize b + kb_bsize b \<le> kb_size b"
    using block_slots_bytes [OF b] by (simp add: add_mult_distrib)
  then have "?p < block_end b" using b by (simp add: block_end_def block_inv_def)
  moreover have "kb_addr b \<le> ?p" by simp
  ultimately have "\<not> blocks_apart b c" "\<not> blocks_apart c b"
    using block_regions_bound [OF c(2,3)] by (auto simp: blocks_apart_def)
  with inv c(1) have "c = b" by (auto simp: heap_inv_def sorted_wrt_append)
  with c(3) b have "(x, l div kb_bsize b) \<in> live (kb_bm b)"
    by (auto simp: block_regions_def block_inv_def)
  with free_at_not_live [OF f] show False by blast
qed

lemma heap_alloc:
  assumes inv: "heap_inv h" and n: "0 < n"
  shows "\<exists>p h'. k_heapBMAlloc h n = Some (p, h') \<and> heap_inv h' \<and> list_all2 same_place h h' \<and>
    (if p = 0 then h' = h \<and> (\<forall>b \<in> set h. \<not> has_room b n)
     else \<exists>l \<ge> n. regions h' = insert (p, l) (regions h) \<and> (p, l) \<notin> regions h)"
  using k_heapBMAlloc_spec [OF inv n]
proof (elim disjE exE conjE)
  fix pre b post x b'
  assume h: "h = pre @ b # post" and a: "alloc_in b n x b'"
    and res: "k_heapBMAlloc h n =
      Some (x * kb_bsize b + (kb_addr b + kheapblock_sizeof), pre @ b' # post)"
  have b: "block_inv b" using inv h by (auto simp: heap_inv_def)
  have "heap_inv (pre @ b' # post)"
    using heap_inv_replace inv h a by (auto simp: alloc_in_def)
  moreover have "0 < slots_for n (kb_bsize b)"
    using b n by (auto simp: block_inv_def intro: slots_for_bounds)
  then have "(x * kb_bsize b + (kb_addr b + kheapblock_sizeof), l) \<notin> regions h" for l
    using free_at_fresh_region inv a unfolding h alloc_in_def by blast
  moreover have "regions (pre @ b' # post) = insert (x * kb_bsize b + (kb_addr b + kheapblock_sizeof),
      slots_for n (kb_bsize b) * kb_bsize b) (regions h)"
    using alloc_in_regions(1) [OF a b] by (auto simp: h regions_replace)
  moreover have "list_all2 same_place h (pre @ b' # post)"
    using a h by (auto simp: alloc_in_def list_all2_append)
  ultimately show ?thesis
    using res alloc_in_regions(2) [OF a b] by (auto simp: kheapblock_sizeof_def)
qed (use inv in auto)

text \<open>Releasing a region: the first block whose range holds the pointer is the region's own.\<close>

lemma sub64_block_offset:
  assumes "block_inv b" "p < block_end b" "off + (kb_addr b + kheapblock_sizeof) = p"
  shows "sub64 p (kb_addr b + kheapblock_sizeof) = off"
proof -
  have "p < 2 ^ 64" using assms by (auto simp: block_inv_def block_end_def)
  then show ?thesis using assms(3) by (subst sub64_exact) auto
qed

lemma free_block_ok:
  assumes b: "block_inv b" and r: "(p, l) \<in> block_regions b"
  shows "\<exists>b'. k_heapBMFree (b # bs) p = Some (b' # bs) \<and> same_place b b' \<and> block_inv b' \<and>
    block_regions b' = block_regions b - {(p, l)}"
proof -
  let ?f = "\<lambda>(s, l). (s * kb_bsize b + (kb_addr b + kheapblock_sizeof), l * kb_bsize b)"
  obtain s k where sk: "is_run (kb_bm b) s k" "p = s * kb_bsize b + (kb_addr b + kheapblock_sizeof)"
    "l = k * kb_bsize b" using r by (auto simp: block_regions_def live_def)
  have bs: "0 < kb_bsize b" and len: "length (kb_bm b) = kb_size b div kb_bsize b"
    using b by (auto simp: block_inv_def)
  have bnd: "kb_addr b + kheapblock_sizeof \<le> p" "p < block_end b"
    using block_regions_bound [OF b r] by auto
  have run: "0 < k" "s + k \<le> length (kb_bm b)" using sk(1) by (auto simp: is_run_def)
  have off: "sub64 p (kb_addr b + kheapblock_sizeof) div kb_bsize b = s"
    using sub64_block_offset [OF b bnd(2) sk(2) [symmetric]] sk(2) bs by simp
  have loop: "skip_while (\<lambda>x. kb_bm b ! x = kb_bm b ! s) s (kb_size b div kb_bsize b) = s + k"
  proof (rule skip_while_eqI)
    show "kb_bm b ! j = kb_bm b ! s" if "s \<le> j" "j < s + k" for j
      using sk(1) that by (rule is_run_same)
    show "kb_bm b ! (s + k) \<noteq> kb_bm b ! s" if "s + k < kb_size b div kb_bsize b"
      using sk(1) that len by (simp add: is_run_def)
  qed (use run len in auto)
  let ?b' = "b\<lparr>kb_bm := set_slots (kb_bm b) s k 0, kb_used := sub64 (kb_used b) k\<rparr>"
  have res: "k_heapBMFree (b # bs) p = Some (?b' # bs)"
    using bnd bs off loop run len
    by (simp add: block_end_def kheapblock_sizeof_def Let_def)
  have "kb_used b \<le> kb_size b"
  proof -
    have "card (used_slots (kb_bm b)) \<le> card {..< length (kb_bm b)}"
      by (intro card_mono) (auto simp: used_slots_def)
    also have "\<dots> \<le> kb_size b" using len by simp
    finally show ?thesis using b by (simp add: block_inv_def)
  qed
  then have "sub64 (kb_used b) k = kb_used b - k"
    using b used_slots_clear(2) [OF sk(1)] by (intro sub64_exact) (auto simp: block_inv_def)
  then have "block_inv ?b'"
    using b used_slots_clear(1) [OF sk(1)] by (simp add: block_inv_def)
  moreover have "block_regions ?b' = block_regions b - {(p, l)}"
    using image_set_diff [OF block_regions_inj [OF b], of "live (kb_bm b)" "{(s, k)}"] sk
    by (simp add: block_regions_def clear_run_live)
  ultimately show ?thesis using res by (auto simp: same_place_def)
qed

lemma free_skips_block:
  assumes "heap_inv (b # bs)" "(p, l) \<in> regions bs"
  shows "\<not> (kb_addr b < p \<and> p < kb_addr b + kheapblock_sizeof + kb_size b)" "(p, l) \<notin> block_regions b"
proof -
  have inv: "heap_inv bs" "block_inv b" using assms(1) by (auto simp: heap_inv_Cons)
  obtain c where c: "c \<in> set bs" "block_inv c" "(p, l) \<in> block_regions c"
    using regions_in_heap [OF inv(1) assms(2)] by blast
  have "blocks_apart b c" using assms(1) c(1) by (simp add: heap_inv_Cons)
  then show *: "\<not> (kb_addr b < p \<and> p < kb_addr b + kheapblock_sizeof + kb_size b)"
    using block_regions_bound [OF c(2,3)]
    by (auto simp: blocks_apart_def block_end_def kheapblock_sizeof_def)
  show "(p, l) \<notin> block_regions b"
    using * block_regions_bound [OF inv(2)] by (force simp: block_end_def kheapblock_sizeof_def)
qed

lemma heap_free_exact:
  assumes "heap_inv h" "(p, l) \<in> regions h"
  shows "\<exists>h'. k_heapBMFree h p = Some h' \<and> heap_inv h' \<and> list_all2 same_place h h' \<and>
    regions h' = regions h - {(p, l)}"
  using assms
proof (induction h)
  case (Cons b bs)
  have inv: "heap_inv bs" "block_inv b" using Cons.prems(1) by (auto simp: heap_inv_Cons)
  show ?case
  proof (cases "(p, l) \<in> regions bs")
    case True
    note skip = free_skips_block [OF Cons.prems(1) True]
    obtain bs' where bs': "k_heapBMFree bs p = Some bs'" "heap_inv bs'" "list_all2 same_place bs bs'"
      "regions bs' = regions bs - {(p, l)}" using Cons.IH [OF inv(1) True] by blast
    have "heap_inv (b # bs')"
      using heap_inv_Cons_upd [OF Cons.prems(1) same_place_refl inv(2) bs'(2,3)] .
    then show ?thesis using skip bs' by auto
  next
    case False
    then have "(p, l) \<in> block_regions b" using Cons.prems(2) by simp
    from free_block_ok [OF inv(2) this] obtain b' where b': "k_heapBMFree (b # bs) p = Some (b' # bs)"
      "same_place b b'" "block_inv b'" "block_regions b' = block_regions b - {(p, l)}" by blast
    have "heap_inv (b' # bs)"
      using heap_inv_Cons_upd [OF Cons.prems(1) b'(2,3) inv(1)] by simp
    then show ?thesis using b' False by auto
  qed
qed simp

subsection \<open>A fresh block\<close>

lemma live_zeros [simp]: "live (replicate n 0) = {}"
  by (auto simp: live_def is_run_def)

lemma used_zeros [simp]: "used_slots (replicate n 0) = {}"
  by (auto simp: used_slots_def)

lemma set_slots_zeros [simp]: "set_slots (replicate n v) x k v = replicate n v"
  by (intro nth_equalityI) auto

text \<open>The block's own bookkeeping bytes: \<open>bcnt\<close> slot bytes at the start of the data area.\<close>

definition map_region :: "nat \<Rightarrow> nat \<Rightarrow> nat \<Rightarrow> (nat \<times> nat) set" where
  "map_region addr n bsize =
     (let bcnt = (n - kheapblock_sizeof) div bsize in
      if bcnt = 0 then {} else {(addr + kheapblock_sizeof, slots_for bcnt bsize * bsize)})"

lemma heap_add_block:
  assumes inv: "heap_inv h" and bs: "0 < bsize" and n: "kheapblock_sizeof \<le> n" "addr + n < 2 ^ 64"
    and apart: "\<And>c. c \<in> set h \<Longrightarrow> addr + n \<le> kb_addr c \<or> block_end c \<le> addr"
  shows "\<exists>b. k_heapBMAddBlock h addr n bsize = Some (b # h) \<and> heap_inv (b # h) \<and>
    kb_addr b = addr \<and> block_end b = addr + n \<and>
    regions (b # h) = map_region addr n bsize \<union> regions h"
proof -
  define bcnt where "bcnt = (n - kheapblock_sizeof) div bsize"
  define r where "r = slots_for bcnt bsize"
  define bm where "bm = set_slots (replicate bcnt (0 :: u8)) 0 r 5"
  have sz: "sub64 n kheapblock_sizeof = n - kheapblock_sizeof" using n by (simp add: sub64_exact)
  have free: "free_at (replicate bcnt 0) r 0"
    using slots_for_bounds(4) [OF bs, of bcnt] by (simp add: free_at_def r_def)
  have r: "r = 0 \<longleftrightarrow> bcnt = 0"
    using slots_for_bounds(2) [OF bs, of bcnt] by (auto simp: r_def slots_for_def)
  have live: "live bm = (if bcnt = 0 then {} else {(0, r)})"
  proof (cases "bcnt = 0")
    case False
    then have "live bm = insert (0, r) (live (replicate bcnt 0))"
      unfolding bm_def using r free by (intro fill_run_live) auto
    with False show ?thesis by simp
  qed (use r live_zeros [of 0] in \<open>simp add: bm_def\<close>)
  have used: "card (used_slots bm) = r"
    unfolding bm_def using used_slots_fill [OF free] by simp
  define b where "b = \<lparr>kb_addr = addr, kb_size = n - kheapblock_sizeof, kb_used = r,
    kb_bsize = bsize, kb_lfb = sub64 r 1, kb_bm = bm\<rparr>"
  have res: "k_heapBMAddBlock h addr n bsize = Some (b # h)"
    using bs by (simp add: k_heapBMAddBlock_def sz Let_def b_def bm_def r_def bcnt_def)
  have "block_inv b" using bs n used by (simp add: block_inv_def b_def) (simp add: bm_def bcnt_def)
  moreover have "blocks_apart b c" if "c \<in> set h" for c
    using apart [OF that] n by (auto simp: blocks_apart_def block_end_def b_def)
  ultimately have "heap_inv (b # h)" using inv by (simp add: heap_inv_Cons)
  moreover have "block_regions b = map_region addr n bsize"
    using live by (auto simp: block_regions_def map_region_def b_def bcnt_def r_def Let_def)
  moreover have "kb_addr b = addr" "block_end b = addr + n" using n by (auto simp: b_def block_end_def)
  ultimately show ?thesis using res by auto
qed

section \<open>The allocator interface\<close>

text \<open>What the clients of the allocator (\<open>libc/mem.c\<close>) rely on: the state's live regions, and the
  effect of the two operations on them.\<close>

locale region_allocator =
  fixes alloc :: "'s \<Rightarrow> nat \<Rightarrow> (nat \<times> 's) option"
    and release :: "'s \<Rightarrow> nat \<Rightarrow> 's option"
    and ok :: "'s \<Rightarrow> bool"
    and regs :: "'s \<Rightarrow> (nat \<times> nat) set"
  assumes alloc_ok: "ok s \<Longrightarrow> 0 < n \<Longrightarrow> \<exists>p s'. alloc s n = Some (p, s') \<and> ok s' \<and>
      (if p = 0 then regs s' = regs s
       else \<exists>l \<ge> n. regs s' = insert (p, l) (regs s) \<and> (p, l) \<notin> regs s)"
    and release_ok: "ok s \<Longrightarrow> (p, l) \<in> regs s \<Longrightarrow>
      \<exists>s'. release s p = Some s' \<and> ok s' \<and> regs s' = regs s - {(p, l)}"
    and apart_ok: "ok s \<Longrightarrow> (p, l) \<in> regs s \<Longrightarrow> (q, m) \<in> regs s \<Longrightarrow> (p, l) \<noteq> (q, m) \<Longrightarrow>
      p + l \<le> q \<or> q + m \<le> p"
begin

lemma alloc_cases:
  assumes "ok s" "0 < n" "alloc s n = Some (p, s')"
  shows "ok s'" "p = 0 \<Longrightarrow> regs s' = regs s"
    "p \<noteq> 0 \<Longrightarrow> \<exists>l \<ge> n. regs s' = insert (p, l) (regs s) \<and> (p, l) \<notin> regs s"
  using alloc_ok [OF assms(1,2)] assms(3) by (auto split: if_splits)

lemma alloc_disjoint:
  assumes "ok s" "0 < n" "alloc s n = Some (p, s')" "p \<noteq> 0" "(q, m) \<in> regs s"
  shows "p + n \<le> q \<or> q + m \<le> p"
proof -
  obtain l where l: "n \<le> l" "regs s' = insert (p, l) (regs s)" "(p, l) \<notin> regs s"
    using alloc_cases(3) [OF assms(1-4)] by blast
  have "ok s'" using assms(1-3) by (rule alloc_cases)
  then have "p + l \<le> q \<or> q + m \<le> p" using l assms(5) by (intro apart_ok [of s']) auto
  then show ?thesis using l(1) by linarith
qed

lemma alloc_release:
  assumes "ok s" "0 < n" "alloc s n = Some (p, s')" "p \<noteq> 0"
  shows "\<exists>s''. release s' p = Some s'' \<and> ok s'' \<and> regs s'' = regs s"
proof -
  obtain l where l: "regs s' = insert (p, l) (regs s)" "(p, l) \<notin> regs s"
    using alloc_cases(3) [OF assms] by blast
  have "ok s'" using assms(1-3) by (rule alloc_cases)
  from release_ok [OF this, of p l] l show ?thesis by auto
qed

end

interpretation kh: region_allocator k_heapBMAlloc k_heapBMFree heap_inv regions
proof
  fix s and n :: nat
  assume "heap_inv s" "0 < n"
  from heap_alloc [OF this] obtain p s' where a: "k_heapBMAlloc s n = Some (p, s')" "heap_inv s'"
    "if p = 0 then s' = s \<and> (\<forall>b \<in> set s. \<not> has_room b n)
     else \<exists>l \<ge> n. regions s' = insert (p, l) (regions s) \<and> (p, l) \<notin> regions s" by blast
  then have "if p = 0 then regions s' = regions s
     else \<exists>l \<ge> n. regions s' = insert (p, l) (regions s) \<and> (p, l) \<notin> regions s"
    by (cases "p = 0") simp_all
  with a show "\<exists>p s'. k_heapBMAlloc s n = Some (p, s') \<and> heap_inv s' \<and>
      (if p = 0 then regions s' = regions s
       else \<exists>l \<ge> n. regions s' = insert (p, l) (regions s) \<and> (p, l) \<notin> regions s)" by blast
next
  fix s p l
  assume "heap_inv s" "(p, l) \<in> regions s"
  from heap_free_exact [OF this] show "\<exists>s'. k_heapBMFree s p = Some s' \<and> heap_inv s' \<and>
      regions s' = regions s - {(p, l)}" by blast
qed (rule regions_apart)

section \<open>Properties\<close>

text \<open>A heap with one block: eight slots of 64 bytes, the first taken by the slot bytes.\<close>

definition heap_example :: kheap where
  "heap_example = [\<lparr>kb_addr = 0x1000, kb_size = 512, kb_used = 1, kb_bsize = 64, kb_lfb = 0,
     kb_bm = [5, 0, 0, 0, 0, 0, 0, 0]\<rparr>]"

lemma heap_example_inv: "heap_inv heap_example"
proof -
  have "used_slots [5, 0, 0, 0, 0, 0, 0, 0] = {0}"
    by (simp add: used_slots_code upt_rec)
  then show ?thesis
    by (simp add: heap_example_def heap_inv_def block_inv_def kheapblock_sizeof_def)
qed

lemma heap_example_live: "(0x1028, 64) \<in> regions heap_example"
proof -
  have "is_run [5, 0, 0, 0, 0, 0, 0, 0] 0 1" by (simp add: is_run_def)
  then show ?thesis
    by (force simp: heap_example_def block_regions_def live_def kheapblock_sizeof_def)
qed

text \<open>C3: the allocator is sound and complete. On a heap in order and for a request of at least one byte (\<open>kmalloc\<close>
  always asks for eight more than it is asked for) it never reads outside a block's slot bytes; it returns \<open>NULL\<close> exactly when no block has enough adjacent free slots, and then
  changes nothing; otherwise exactly one region of at least \<open>n\<close> bytes is added, and it overlaps
  none of the live regions.\<close>

theorem heap_alloc_sound_complete:
  assumes "heap_inv h" "0 < n"
  shows "\<exists>p h'. k_heapBMAlloc h n = Some (p, h') \<and> heap_inv h' \<and>
    (p = 0 \<longleftrightarrow> (\<forall>b \<in> set h. \<not> has_room b n)) \<and>
    (if p = 0 then h' = h
     else \<exists>l \<ge> n. regions h' = insert (p, l) (regions h) \<and>
       (\<forall>(q, m) \<in> regions h. p + l \<le> q \<or> q + m \<le> p))"
proof -
  obtain p h' where a: "k_heapBMAlloc h n = Some (p, h')" "heap_inv h'"
    "if p = 0 then h' = h \<and> (\<forall>b \<in> set h. \<not> has_room b n)
     else \<exists>l \<ge> n. regions h' = insert (p, l) (regions h) \<and> (p, l) \<notin> regions h"
    using heap_alloc [OF assms] by blast
  have room: "\<exists>b \<in> set h. has_room b n" if "p \<noteq> 0"
    using k_heapBMAlloc_spec [OF assms] a(1) that by (force simp: alloc_in_def has_room_def)
  show ?thesis
  proof (cases "p = 0")
    case True
    with a show ?thesis by auto
  next
    case False
    then obtain l where l: "n \<le> l" "regions h' = insert (p, l) (regions h)" "(p, l) \<notin> regions h"
      using a(3) by auto
    have "\<forall>(q, m) \<in> regions h. p + l \<le> q \<or> q + m \<le> p"
      using l kh.apart_ok [OF a(2), of p l] by auto
    with a(1,2) l room False show ?thesis by auto
  qed
qed

theorem heap_alloc_sound_complete_witness:
  "heap_inv heap_example \<and> (\<exists>p h'. k_heapBMAlloc heap_example 100 = Some (p, h') \<and> heap_inv h' \<and>
     (p = 0 \<longleftrightarrow> (\<forall>b \<in> set heap_example. \<not> has_room b 100)))"
  using heap_alloc_sound_complete [OF heap_example_inv, of 100] heap_example_inv by auto

text \<open>Releasing the pointer of a live region removes that region and no other, returns its slots
  to the free count, and keeps every block in place; so a later allocation sees the block as it was before.\<close>

theorem heap_free_removes_region:
  assumes "heap_inv h" "(p, l) \<in> regions h"
  shows "\<exists>h'. k_heapBMFree h p = Some h' \<and> heap_inv h' \<and> regions h' = regions h - {(p, l)} \<and>
    list_all2 same_place h h'"
  using heap_free_exact [OF assms] by blast

theorem heap_free_removes_region_witness:
  "\<exists>h'. k_heapBMFree heap_example 0x1028 = Some h' \<and>
     regions h' = regions heap_example - {(0x1028, 64)}"
  using heap_free_removes_region [OF heap_example_inv heap_example_live] by blast

end
