(* ===== verification/KMem.thy ===== *)
theory KMem
  imports KHeap
begin

text \<open>
  \<open>libc/mem.c\<close>: the byte loops \<open>memcpy\<close>, \<open>memset\<close>, \<open>memcmp\<close>, \<open>memmove\<close> over a flat byte memory,
  and the kernel heap \<open>kmalloc\<close>, \<open>kfree\<close> over the allocator of \<open>KHeap\<close>. Every allocation starts
  with an 8-byte header that holds the pointer the allocator returned; the header words are the
  map \<open>km_words\<close>. The address of the static arena \<open>kheap_area\<close> is fixed by the linker and is a
  field of the state. \<open>None\<close> is an access outside the allocator's slot bytes.
\<close>

section \<open>Byte loops\<close>

type_synonym memory = "nat \<Rightarrow> u8"

primrec memcpy :: "memory \<Rightarrow> nat \<Rightarrow> nat \<Rightarrow> nat \<Rightarrow> memory" where
  "memcpy m d s 0 = m"
| "memcpy m d s (Suc n) = (memcpy m d s n)(d + n := memcpy m d s n (s + n))"

primrec memset :: "memory \<Rightarrow> nat \<Rightarrow> u8 \<Rightarrow> nat \<Rightarrow> memory" where
  "memset m p v 0 = m"
| "memset m p v (Suc n) = memset (m(p := v)) (p + 1) v n"

fun memcmp :: "memory \<Rightarrow> nat \<Rightarrow> nat \<Rightarrow> nat \<Rightarrow> int" where
  "memcmp m a b 0 = 0"
| "memcmp m a b (Suc 0) = uint (m a) - uint (m b)"
| "memcmp m a b (Suc (Suc n)) =
     (if m a = m b then memcmp m (a + 1) (b + 1) (Suc n) else uint (m a) - uint (m b))"

text \<open>\<open>while (n--) *d++ = *s++;\<close> and \<open>while (n--) *--d = *--s;\<close> of \<open>memmove\<close>.\<close>

primrec move_up :: "memory \<Rightarrow> nat \<Rightarrow> nat \<Rightarrow> nat \<Rightarrow> memory" where
  "move_up m d s 0 = m"
| "move_up m d s (Suc n) = move_up (m(d := m s)) (d + 1) (s + 1) n"

primrec move_down :: "memory \<Rightarrow> nat \<Rightarrow> nat \<Rightarrow> nat \<Rightarrow> memory" where
  "move_down m d s 0 = m"
| "move_down m d s (Suc n) = move_down (m(d + n := m (s + n))) d s n"

definition memmove :: "memory \<Rightarrow> nat \<Rightarrow> nat \<Rightarrow> nat \<Rightarrow> memory" where
  "memmove m d s n =
     (if d = s then m else if d < s then move_up m d s n else move_down m d s n)"

section \<open>The kernel heap\<close>

record kmem =
  kheap :: kheap
  kheap_ready :: bool
  kheap_area :: nat
  km_words :: "nat \<Rightarrow> nat"

definition KHEAP_SIZE :: nat where
  "KHEAP_SIZE = 16 * 1024 * 1024"

definition KHEAP_BSIZE :: nat where
  "KHEAP_BSIZE = 64"

definition kheap_ensure_init :: "kmem \<Rightarrow> kmem option" where
  "kheap_ensure_init st =
     (if kheap_ready st then Some st
      else map_option (\<lambda>h. st\<lparr>kheap := h, kheap_ready := True\<rparr>)
        (k_heapBMAddBlock k_heapBMInit (kheap_area st) KHEAP_SIZE KHEAP_BSIZE))"

text \<open>The result: the returned address, the value stored through \<open>phys_addr\<close> when the caller
  passed one, and the new state.\<close>

definition kmalloc :: "kmem \<Rightarrow> nat \<Rightarrow> bool \<Rightarrow> bool \<Rightarrow> (nat \<times> nat option \<times> kmem) option" where
  "kmalloc st n align has_phys =
     do {
       st \<leftarrow> kheap_ensure_init st;
       let extra = 8 + (if align then 0x1000 else 0);
       (raw, h) \<leftarrow> k_heapBMAlloc (kheap st) (add64 n extra);
       let st = st\<lparr>kheap := h\<rparr>;
       (if raw = 0 then Some (0, if has_phys then Some 0 else None, st)
        else
          let p = raw + 8;
              p = (if align then page_align p else p);
              st = st\<lparr>km_words := (km_words st)(p - 8 := raw)\<rparr>
          in Some (p, if has_phys then Some p else None, st))
     }"

definition kfree :: "kmem \<Rightarrow> nat \<Rightarrow> kmem option" where
  "kfree st ptr =
     (if ptr = 0 \<or> \<not> kheap_ready st then Some st
      else map_option (\<lambda>h. st\<lparr>kheap := h\<rparr>) (k_heapBMFree (kheap st) (km_words st (ptr - 8))))"

text \<open>The arena lies inside the address space; once initialised, the chain is in order.\<close>

definition kmem_inv :: "kmem \<Rightarrow> bool" where
  "kmem_inv st \<longleftrightarrow> kheap_area st + KHEAP_SIZE + 0x2000 < 2 ^ 64 \<and>
     (kheap_ready st \<longrightarrow> heap_inv (kheap st) \<and>
        (\<forall>b \<in> set (kheap st). block_end b \<le> kheap_area st + KHEAP_SIZE))"

definition kregions :: "kmem \<Rightarrow> (nat \<times> nat) set" where
  "kregions st = (if kheap_ready st then regions (kheap st)
     else map_region (kheap_area st) KHEAP_SIZE KHEAP_BSIZE)"

section \<open>Byte loop proofs\<close>

lemma memcpy_outside: "a < d \<or> d + n \<le> a \<Longrightarrow> memcpy m d s n a = m a"
  by (induction n) auto

lemma memcpy_no_overlap:
  assumes "d + n \<le> s \<or> s + n \<le> d"
  shows "memcpy m d s n a = (if d \<le> a \<and> a < d + n then m (s + (a - d)) else m a)"
  using assms
proof (induction n arbitrary: a)
  case (Suc n)
  then have "d + n \<le> s \<or> s + n \<le> d" by auto
  note IH = Suc.IH [OF this]
  from Suc.prems show ?case by (auto simp: IH less_Suc_eq)
qed auto

lemma memset_spec: "memset m p v n a = (if p \<le> a \<and> a < p + n then v else m a)"
  by (induction n arbitrary: m p) auto

lemma move_up_spec:
  "d < s \<Longrightarrow> move_up m d s n a = (if d \<le> a \<and> a < d + n then m (s + (a - d)) else m a)"
proof (induction n arbitrary: m d s)
  case (Suc n)
  then have "move_up m d s (Suc n) a = (if d + 1 \<le> a \<and> a < d + 1 + n
      then (m(d := m s)) (s + 1 + (a - (d + 1))) else (m(d := m s)) a)" by simp
  also have "\<dots> = (if d \<le> a \<and> a < d + Suc n then m (s + (a - d)) else m a)"
    using Suc.prems by (cases "a = d") (auto simp: Suc_diff_Suc)
  finally show ?case .
qed auto

lemma move_down_spec:
  "s < d \<Longrightarrow> move_down m d s n a = (if d \<le> a \<and> a < d + n then m (s + (a - d)) else m a)"
proof (induction n arbitrary: m)
  case (Suc n)
  then have "move_down m d s (Suc n) a = (if d \<le> a \<and> a < d + n
      then (m(d + n := m (s + n))) (s + (a - d)) else (m(d + n := m (s + n))) a)" by simp
  also have "\<dots> = (if d \<le> a \<and> a < d + Suc n then m (s + (a - d)) else m a)"
    using Suc.prems by auto
  finally show ?case .
qed auto

lemma memcmp_first_difference:
  assumes "k < n" "m (a + k) \<noteq> m (b + k)" "\<And>i. i < k \<Longrightarrow> m (a + i) = m (b + i)"
  shows "memcmp m a b n = uint (m (a + k)) - uint (m (b + k))"
  using assms
proof (induction m a b n arbitrary: k rule: memcmp.induct)
  case (3 m a b n)
  show ?case
  proof (cases k)
    case 0
    with "3.prems" show ?thesis by simp
  next
    case (Suc j)
    have "m a = m b" using "3.prems"(3) [of 0] Suc by simp
    moreover have "memcmp m (a + 1) (b + 1) (Suc n) = uint (m (a + 1 + j)) - uint (m (b + 1 + j))"
    proof (rule "3.IH")
      show "m (a + 1 + i) = m (b + 1 + i)" if "i < j" for i
        using "3.prems"(3) [of "Suc i"] Suc that by simp
    qed (use "3.prems" Suc \<open>m a = m b\<close> in auto)
    ultimately show ?thesis using Suc by simp
  qed
qed auto

lemma memcmp_equal: "(\<And>i. i < n \<Longrightarrow> m (a + i) = m (b + i)) \<Longrightarrow> memcmp m a b n = 0"
proof (induction m a b n rule: memcmp.induct)
  case (2 m a b)
  from "2.prems" [of 0] show ?case by simp
next
  case (3 m a b n)
  from "3.prems" [of 0] have "m a = m b" by simp
  moreover have "m (a + 1 + i) = m (b + 1 + i)" if "i < Suc n" for i
    using "3.prems" [of "Suc i"] that by simp
  ultimately show ?case using "3.IH" by simp
qed simp

section \<open>Heap proofs\<close>

lemma kheap_ensure_init_ok:
  assumes "kmem_inv st"
  shows "\<exists>st'. kheap_ensure_init st = Some st' \<and> kmem_inv st' \<and> kheap_ready st' \<and>
    kregions st' = kregions st \<and> km_words st' = km_words st \<and> kheap_area st' = kheap_area st"
proof (cases "kheap_ready st")
  case True
  with assms show ?thesis by (simp add: kheap_ensure_init_def)
next
  case False
  have "heap_inv []" by (simp add: heap_inv_def)
  then obtain b where "k_heapBMAddBlock [] (kheap_area st) KHEAP_SIZE KHEAP_BSIZE = Some [b]"
    "heap_inv [b]" "block_end b = kheap_area st + KHEAP_SIZE"
    "regions [b] = map_region (kheap_area st) KHEAP_SIZE KHEAP_BSIZE"
    using heap_add_block [of "[]" KHEAP_BSIZE KHEAP_SIZE "kheap_area st"] assms
    by (auto simp: KHEAP_BSIZE_def kheapblock_sizeof_def KHEAP_SIZE_def kmem_inv_def)
  with assms False show ?thesis
    by (auto simp: kheap_ensure_init_def k_heapBMInit_def kmem_inv_def kregions_def)
qed

lemma same_place_ends:
  assumes "list_all2 same_place h h'" "\<forall>b \<in> set h. block_end b \<le> e" "b \<in> set h'"
  shows "block_end b \<le> e"
proof -
  obtain i where "i < length h'" "b = h' ! i" using assms(3) by (auto simp: in_set_conv_nth)
  then have "same_place (h ! i) b" "h ! i \<in> set h" using assms(1) by (auto simp: list_all2_conv_all_nth)
  then show ?thesis using assms(2) by (auto simp: same_place_def block_end_def)
qed

lemma regions_end:
  "heap_inv h \<Longrightarrow> \<forall>b \<in> set h. block_end b \<le> e \<Longrightarrow> (p, l) \<in> regions h \<Longrightarrow> p + l \<le> e"
  using regions_in_heap block_regions_bound(2) by (meson order_trans)

text \<open>The allocator call of an initialised heap, with the arena bound kept.\<close>

lemma kalloc_ok:
  assumes "kmem_inv st" "kheap_ready st" "0 < n"
  shows "\<exists>raw h. k_heapBMAlloc (kheap st) n = Some (raw, h) \<and> kmem_inv (st\<lparr>kheap := h\<rparr>) \<and>
    (if raw = 0 then h = kheap st
     else \<exists>l \<ge> n. regions h = insert (raw, l) (regions (kheap st)) \<and> (raw, l) \<notin> regions (kheap st) \<and>
       raw + l \<le> kheap_area st + KHEAP_SIZE)"
proof -
  have inv: "heap_inv (kheap st)" "\<forall>b \<in> set (kheap st). block_end b \<le> kheap_area st + KHEAP_SIZE"
    using assms by (auto simp: kmem_inv_def)
  obtain raw h where a: "k_heapBMAlloc (kheap st) n = Some (raw, h)" "heap_inv h"
    "list_all2 same_place (kheap st) h"
    "if raw = 0 then h = kheap st \<and> (\<forall>b \<in> set (kheap st). \<not> has_room b n)
     else \<exists>l \<ge> n. regions h = insert (raw, l) (regions (kheap st)) \<and> (raw, l) \<notin> regions (kheap st)"
    using heap_alloc [OF inv(1) assms(3)] by blast
  have ends: "\<forall>b \<in> set h. block_end b \<le> kheap_area st + KHEAP_SIZE"
    using same_place_ends [OF a(3) inv(2)] by blast
  have "kmem_inv (st\<lparr>kheap := h\<rparr>)" using a(2) ends assms(1) by (simp add: kmem_inv_def)
  moreover have "raw \<noteq> 0 \<Longrightarrow> \<exists>l \<ge> n. regions h = insert (raw, l) (regions (kheap st)) \<and>
      (raw, l) \<notin> regions (kheap st) \<and> raw + l \<le> kheap_area st + KHEAP_SIZE"
    using a(4) regions_end [OF a(2) ends] by (metis insertI1)
  ultimately show ?thesis using a(1,4) by (intro exI [of _ raw] exI [of _ h]) (cases "raw = 0"; simp)
qed

lemma kmalloc_spec:
  assumes inv: "kmem_inv st" and n: "n + 0x2000 < 2 ^ 64"
  shows "\<exists>p st'. kmalloc st n align has_phys = Some (p, if has_phys then Some p else None, st') \<and>
    kmem_inv st' \<and> kheap_ready st' \<and> kheap_area st' = kheap_area st \<and>
    (if p = 0 then kregions st' = kregions st \<and> km_words st' = km_words st
     else \<exists>raw l. raw \<noteq> 0 \<and> kregions st' = insert (raw, l) (kregions st) \<and> (raw, l) \<notin> kregions st \<and>
       raw + 8 \<le> p \<and> p + n \<le> raw + l \<and> (align \<longrightarrow> p mod 0x1000 = 0) \<and>
       km_words st' = (km_words st)(p - 8 := raw))"
proof -
  obtain s where s: "kheap_ensure_init st = Some s" "kmem_inv s" "kheap_ready s"
    "kregions s = kregions st" "km_words s = km_words st" "kheap_area s = kheap_area st"
    using kheap_ensure_init_ok [OF inv] by blast
  define k where "k = n + (8 + (if align then 0x1000 else 0))"
  have k: "add64 n (8 + (if align then 0x1000 else 0)) = k" "0 < k"
    using n by (auto simp: k_def add64_def)
  obtain raw h where a: "k_heapBMAlloc (kheap s) k = Some (raw, h)" "kmem_inv (s\<lparr>kheap := h\<rparr>)"
    "if raw = 0 then h = kheap s else \<exists>l \<ge> k. regions h = insert (raw, l) (regions (kheap s)) \<and>
       (raw, l) \<notin> regions (kheap s) \<and> raw + l \<le> kheap_area s + KHEAP_SIZE"
    using kalloc_ok [OF s(2,3) k(2)] by blast
  show ?thesis
  proof (cases "raw = 0")
    case True
    have "kmalloc st n align has_phys = Some (0, if has_phys then Some 0 else None, s\<lparr>kheap := h\<rparr>)"
      using s(1) k(1) a(1) True by (simp add: kmalloc_def)
    with a s True show ?thesis by (auto simp: kregions_def)
  next
    case False
    then obtain l where l: "k \<le> l" "regions h = insert (raw, l) (regions (kheap s))"
      "(raw, l) \<notin> regions (kheap s)" "raw + l \<le> kheap_area s + KHEAP_SIZE" using a(3) by auto
    define p where "p = (if align then page_align (raw + 8) else raw + 8)"
    have "raw + 8 + 0xFFF < 2 ^ 64" using l s(2) by (simp add: kmem_inv_def KHEAP_SIZE_def)
    note al = page_align_bounds [OF this]
    have p: "raw + 8 \<le> p" "p + n \<le> raw + l" "align \<longrightarrow> p mod 0x1000 = 0"
      using al l(1) by (auto simp: p_def k_def)
    define t where "t = s\<lparr>kheap := h, km_words := (km_words s)(p - 8 := raw)\<rparr>"
    have "kmalloc st n align has_phys = Some (p, if has_phys then Some p else None, t)"
      using s(1) k(1) a(1) False by (simp add: kmalloc_def p_def t_def Let_def)
    moreover have "kmem_inv t" "kheap_ready t" "kheap_area t = kheap_area st"
      "km_words t = (km_words st)(p - 8 := raw)" "p \<noteq> 0"
      using a(2) s p(1) by (auto simp: kmem_inv_def t_def)
    moreover have "kregions t = insert (raw, l) (kregions st)" "(raw, l) \<notin> kregions st"
      using l s(3,4) by (auto simp: kregions_def t_def)
    ultimately show ?thesis using p False by (intro exI [of _ p] exI [of _ t]) auto
  qed
qed

lemma kfree_spec:
  assumes inv: "kmem_inv st" "kheap_ready st" and p: "p \<noteq> 0"
    and r: "(km_words st (p - 8), l) \<in> kregions st"
  shows "\<exists>st'. kfree st p = Some st' \<and> kmem_inv st' \<and> kheap_ready st' \<and> km_words st' = km_words st \<and>
    kregions st' = kregions st - {(km_words st (p - 8), l)}"
proof -
  have "heap_inv (kheap st)" "(km_words st (p - 8), l) \<in> regions (kheap st)"
    using inv r by (auto simp: kmem_inv_def kregions_def)
  then obtain h where h: "k_heapBMFree (kheap st) (km_words st (p - 8)) = Some h" "heap_inv h"
    "list_all2 same_place (kheap st) h" "regions h = regions (kheap st) - {(km_words st (p - 8), l)}"
    using heap_free_exact by blast
  have "\<forall>b \<in> set h. block_end b \<le> kheap_area st + KHEAP_SIZE"
    using same_place_ends [OF h(3)] inv by (auto simp: kmem_inv_def)
  with h inv p show ?thesis by (auto simp: kfree_def kmem_inv_def kregions_def)
qed

section \<open>Properties\<close>

text \<open>\<open>memmove\<close> copies as if through a temporary buffer: whatever the overlap, the destination
  range holds the bytes the source range held before, and no other byte changes.\<close>

theorem memmove_as_if_buffered:
  "memmove m d s n a = (if d \<le> a \<and> a < d + n then m (s + (a - d)) else m a)"
  unfolding memmove_def by (auto simp: move_up_spec move_down_spec)

text \<open>\<open>memcmp\<close> is zero exactly on equal ranges, and otherwise has the sign of the first
  differing byte.\<close>

theorem memcmp_orders_by_first_difference:
  "(memcmp m a b n = 0 \<longleftrightarrow> (\<forall>i < n. m (a + i) = m (b + i))) \<and>
   (\<forall>k < n. m (a + k) \<noteq> m (b + k) \<and> (\<forall>i < k. m (a + i) = m (b + i)) \<longrightarrow>
      (memcmp m a b n < 0 \<longleftrightarrow> m (a + k) < m (b + k)))"
proof -
  have first: "\<exists>k < n. m (a + k) \<noteq> m (b + k) \<and> (\<forall>i < k. m (a + i) = m (b + i))"
    if "\<exists>i < n. m (a + i) \<noteq> m (b + i)"
    using that exists_least_iff [of "\<lambda>i. i < n \<and> m (a + i) \<noteq> m (b + i)"] by (auto dest: less_trans)
  have "memcmp m a b n \<noteq> 0" if k: "k < n" "m (a + k) \<noteq> m (b + k)" "\<forall>i < k. m (a + i) = m (b + i)" for k
    using memcmp_first_difference [OF k(1,2)] k by (auto simp: word_uint_eq_iff)
  then have "memcmp m a b n = 0 \<longleftrightarrow> (\<forall>i < n. m (a + i) = m (b + i))"
    using first memcmp_equal [of n m a b] by blast
  moreover have "memcmp m a b n < 0 \<longleftrightarrow> m (a + k) < m (b + k)"
    if k: "k < n" "m (a + k) \<noteq> m (b + k)" "\<forall>i < k. m (a + i) = m (b + i)" for k
    using memcmp_first_difference [OF k(1,2)] k(3) by (simp add: word_less_def)
  ultimately show ?thesis by blast
qed

theorem memcmp_orders_by_first_difference_witness:
  "memcmp (\<lambda>i. of_nat i) 1 4 2 < 0"
  using conjunct2 [OF memcmp_orders_by_first_difference [of "\<lambda>i. of_nat i" 1 4 2], rule_format, of 0]
  by simp

text \<open>A heap before its first use, with the arena at address \<open>0x200000\<close>.\<close>

definition kmem_boot :: kmem where
  "kmem_boot = \<lparr>kheap = [], kheap_ready = False, kheap_area = 0x200000, km_words = \<lambda>_. 0\<rparr>"

lemma kmem_boot_inv: "kmem_inv kmem_boot"
  by (simp add: kmem_inv_def kmem_boot_def KHEAP_SIZE_def)

text \<open>C8: \<open>kmalloc\<close> on a heap in order, for a size below \<open>2 ^ 64 - 0x2000\<close> (above it the addition of header and alignment can wrap), returns, keeps the heap in order and stores the returned
  address through \<open>phys_addr\<close> when asked. A non-null result is the user part of one new region:
  it starts after the 8-byte header, \<open>n\<close> bytes fit behind it, it is page aligned on request, the
  header word holds the allocator's pointer, and the region overlaps no region that was live.\<close>

theorem kmalloc_fresh_region:
  assumes "kmem_inv st" "n + 0x2000 < 2 ^ 64"
  shows "\<exists>p st'. kmalloc st n align has_phys = Some (p, if has_phys then Some p else None, st') \<and>
    kmem_inv st' \<and>
    (p \<noteq> 0 \<longrightarrow> (\<exists>raw l. kregions st' = insert (raw, l) (kregions st) \<and> raw + 8 \<le> p \<and>
       p + n \<le> raw + l \<and> (align \<longrightarrow> p mod 0x1000 = 0) \<and> km_words st' (p - 8) = raw \<and>
       (\<forall>(q, k) \<in> kregions st. raw + l \<le> q \<or> q + k \<le> raw))) \<and>
    (p = 0 \<longrightarrow> kregions st' = kregions st)"
proof -
  obtain p st' where a: "kmalloc st n align has_phys = Some (p, if has_phys then Some p else None, st')"
    "kmem_inv st'" "kheap_ready st'"
    "if p = 0 then kregions st' = kregions st \<and> km_words st' = km_words st
     else \<exists>raw l. raw \<noteq> 0 \<and> kregions st' = insert (raw, l) (kregions st) \<and> (raw, l) \<notin> kregions st \<and>
       raw + 8 \<le> p \<and> p + n \<le> raw + l \<and> (align \<longrightarrow> p mod 0x1000 = 0) \<and>
       km_words st' = (km_words st)(p - 8 := raw)"
    using kmalloc_spec [OF assms, of align has_phys] by blast
  have "heap_inv (kheap st')" "kregions st' = regions (kheap st')"
    using a(2,3) by (auto simp: kmem_inv_def kregions_def)
  then have apart: "raw + l \<le> q \<or> q + k \<le> raw"
    if "kregions st' = insert (raw, l) (kregions st)" "(raw, l) \<notin> kregions st" "(q, k) \<in> kregions st"
    for raw l q k
    using that kh.apart_ok [of "kheap st'" raw l q k] by auto
  show ?thesis
    using a apart by (intro exI [of _ p] exI [of _ st']) (cases "p = 0"; force)
qed

theorem kmalloc_fresh_region_witness:
  "kmem_inv kmem_boot \<and> (\<exists>p st'. kmalloc kmem_boot 100 True True = Some (p, Some p, st') \<and> kmem_inv st')"
  using kmalloc_fresh_region [of kmem_boot 100 True True] kmem_boot_inv by auto

text \<open>\<open>kfree\<close> undoes \<open>kmalloc\<close>: releasing a non-null result leaves exactly the regions that were
  live before the allocation.\<close>

theorem kfree_kmalloc:
  assumes "kmem_inv st" "n + 0x2000 < 2 ^ 64" "kmalloc st n align has_phys = Some (p, ph, st')" "p \<noteq> 0"
  shows "\<exists>st''. kfree st' p = Some st'' \<and> kmem_inv st'' \<and> kregions st'' = kregions st"
proof -
  obtain raw l where "kregions st' = insert (raw, l) (kregions st)" "(raw, l) \<notin> kregions st"
    "km_words st' (p - 8) = raw" "kmem_inv st'" "kheap_ready st'"
    using kmalloc_spec [OF assms(1,2), of align has_phys] assms(3,4) by auto
  with kfree_spec [of st' p l] assms(4) show ?thesis by auto
qed

text \<open>An initialised heap with one small block: eight slots of 64 bytes, the first taken by the slot
  bytes themselves.\<close>

definition kmem_small :: kmem where
  "kmem_small = \<lparr>kheap = [\<lparr>kb_addr = 0x1000, kb_size = 512, kb_used = 1, kb_bsize = 64, kb_lfb = 0,
     kb_bm = [5, 0, 0, 0, 0, 0, 0, 0]\<rparr>], kheap_ready = True, kheap_area = 0x1000, km_words = \<lambda>_. 0\<rparr>"

lemma kmem_small_inv: "kmem_inv kmem_small"
proof -
  have "used_slots [5, 0, 0, 0, 0, 0, 0, 0] = {0}"
    by (simp add: used_slots_code upt_rec)
  then show ?thesis
    by (simp add: kmem_inv_def kmem_small_def heap_inv_def block_inv_def kheapblock_sizeof_def
        block_end_def KHEAP_SIZE_def)
qed

lemma kmem_small_alloc:
  "map_option fst (kmalloc kmem_small 100 False False) = Some 0x1070"
  by (simp add: kmalloc_def kmem_small_def kheap_ensure_init_def add64_def sub64_def mul64_def
      slots_for_def scan_free.simps skip_while.simps kheapblock_sizeof_def Let_def)

theorem kfree_kmalloc_witness:
  "\<exists>ph st' st''. kmalloc kmem_small 100 False False = Some (0x1070, ph, st') \<and>
     kfree st' 0x1070 = Some st'' \<and> kregions st'' = kregions kmem_small"
proof -
  obtain ph st' where a: "kmalloc kmem_small 100 False False = Some (0x1070, ph, st')"
    using kmem_small_alloc by (cases "kmalloc kmem_small 100 False False") auto
  from kfree_kmalloc [OF kmem_small_inv _ a] a show ?thesis by auto
qed

end
