(* ===== verification/Fifo.thy ===== *)
theory Fifo
  imports Prelude
begin

text \<open>
  The bounded queue interface that three circular buffers of the program implement: the byte ring
  buffer (\<open>libc/ringbuf.h\<close>), the input event queue (\<open>ui/event.c\<close>) and the run queues of the
  scheduler (\<open>cpu/sched.c\<close>). \<open>ring_items\<close> reads the queued elements off a circular array; the
  locale \<open>bounded_fifo\<close> states the laws, and its lemmas about sequences of operations hold for
  every implementation.
\<close>

section \<open>Elements of a circular array\<close>

definition ring_items :: "'a list \<Rightarrow> nat \<Rightarrow> nat \<Rightarrow> 'a list" where
  "ring_items buf h n = map (\<lambda>i. buf ! ((h + i) mod length buf)) [0 ..< n]"

lemma length_ring_items [simp]: "length (ring_items buf h n) = n"
  by (simp add: ring_items_def)

lemma ring_items_0 [simp]: "ring_items buf h 0 = []"
  by (simp add: ring_items_def)

lemma nth_ring_items [simp]: "i < n \<Longrightarrow> ring_items buf h n ! i = buf ! ((h + i) mod length buf)"
  by (simp add: ring_items_def)

lemma mod_add_inj:
  fixes L :: nat
  assumes "i < L" "j < L" "(h + i) mod L = (h + j) mod L"
  shows "i = j"
proof -
  have "j = i" if "i \<le> j" "j < L" "(h + i) mod L = (h + j) mod L" for i j
  proof -
    have "L dvd (h + j) - (h + i)" using that by (metis add_le_cancel_left mod_eq_dvd_iff_nat)
    then have "L dvd j - i" by simp
    then show ?thesis using that by (auto dest: dvd_imp_le)
  qed
  note wlog = this
  show ?thesis
  proof (cases "i \<le> j")
    case True
    then show ?thesis using wlog [of i j] assms by simp
  next
    case False
    then show ?thesis using wlog [of j i] assms by simp
  qed
qed

lemma ring_items_push:
  assumes "n < length buf"
  shows "ring_items (buf[(h + n) mod length buf := x]) h (Suc n) = ring_items buf h n @ [x]"
proof (rule nth_equalityI)
  fix i assume i: "i < length (ring_items (buf[(h + n) mod length buf := x]) h (Suc n))"
  show "ring_items (buf[(h + n) mod length buf := x]) h (Suc n) ! i = (ring_items buf h n @ [x]) ! i"
  proof (cases "i = n")
    case True
    moreover have "(h + n) mod length buf < length buf" using assms by (intro mod_less_divisor) linarith
    ultimately show ?thesis using assms by (simp add: nth_append)
  next
    case False
    then have "i < n" using i by simp
    moreover have "(h + n) mod length buf \<noteq> (h + i) mod length buf"
      using mod_add_inj [of n "length buf" i h] assms \<open>i < n\<close> False by auto
    ultimately show ?thesis by (simp add: nth_append)
  qed
qed simp

lemma ring_items_mod: "h mod length buf = h' mod length buf \<Longrightarrow> ring_items buf h n = ring_items buf h' n"
  by (intro nth_equalityI) (simp_all, metis mod_add_left_eq)

lemma ring_items_pop:
  "ring_items buf h (Suc n) = buf ! (h mod length buf) # ring_items buf (Suc h) n"
proof (rule nth_equalityI)
  fix i assume "i < length (ring_items buf h (Suc n))"
  then show "ring_items buf h (Suc n) ! i = (buf ! (h mod length buf) # ring_items buf (Suc h) n) ! i"
    by (cases i) auto
qed simp

section \<open>The queue interface\<close>

locale bounded_fifo =
  fixes push :: "'q \<Rightarrow> 'a \<Rightarrow> 'q"
    and pop :: "'q \<Rightarrow> ('a \<times> 'q) option"
    and items :: "'q \<Rightarrow> 'a list"
    and capacity :: "'q \<Rightarrow> nat"
    and ok :: "'q \<Rightarrow> bool"
  assumes items_bound: "ok q \<Longrightarrow> length (items q) \<le> capacity q"
    and push_items: "ok q \<Longrightarrow>
      items (push q x) = (if length (items q) < capacity q then items q @ [x] else items q)"
    and pop_items: "ok q \<Longrightarrow> (case pop q of None \<Rightarrow> items q = [] | Some (x, q') \<Rightarrow> items q = x # items q')"
    and push_ok: "ok q \<Longrightarrow> ok (push q x) \<and> capacity (push q x) = capacity q"
    and pop_ok: "ok q \<Longrightarrow> pop q = Some (x, q') \<Longrightarrow> ok q' \<and> capacity q' = capacity q"
begin

primrec push_all :: "'q \<Rightarrow> 'a list \<Rightarrow> 'q" where
  "push_all q [] = q"
| "push_all q (x # xs) = push_all (push q x) xs"

primrec pop_n :: "nat \<Rightarrow> 'q \<Rightarrow> 'a list \<times> 'q" where
  "pop_n 0 q = ([], q)"
| "pop_n (Suc n) q = (case pop q of None \<Rightarrow> ([], q)
     | Some (x, q') \<Rightarrow> (let (xs, q'') = pop_n n q' in (x # xs, q'')))"

lemma pop_Nil: "ok q \<Longrightarrow> items q = [] \<Longrightarrow> pop q = None"
  using pop_items [of q] by (auto split: option.splits)

lemma pop_Cons:
  assumes "ok q" "items q = x # xs"
  shows "\<exists>q'. pop q = Some (x, q') \<and> items q' = xs \<and> ok q' \<and> capacity q' = capacity q"
proof (cases "pop q")
  case None
  with pop_items [OF assms(1)] assms(2) show ?thesis by simp
next
  case (Some a)
  then obtain y q' where y: "pop q = Some (y, q')" by (cases a) auto
  with pop_items [OF assms(1)] pop_ok [OF assms(1) y] assms(2) show ?thesis by simp
qed

text \<open>Elements come out in the order they went in; what does not fit is dropped.\<close>

lemma push_all_items:
  "ok q \<Longrightarrow> items (push_all q xs) = items q @ take (capacity q - length (items q)) xs \<and>
     ok (push_all q xs) \<and> capacity (push_all q xs) = capacity q"
proof (induction xs arbitrary: q)
  case (Cons x xs)
  note p = push_ok [OF Cons.prems, of x] push_items [OF Cons.prems, of x] items_bound [OF Cons.prems]
  have "items (push q x) @ take (capacity q - length (items (push q x))) xs =
      items q @ take (capacity q - length (items q)) (x # xs)"
  proof (cases "length (items q) < capacity q")
    case True
    then obtain k where "capacity q - length (items q) = Suc k" by (cases "capacity q - length (items q)") auto
    then have "capacity q - Suc (length (items q)) = k" by simp
    with True p \<open>capacity q - length (items q) = Suc k\<close> show ?thesis by simp
  next
    case False
    with p show ?thesis by simp
  qed
  with Cons.IH [of "push q x"] p show ?case by simp
qed simp

lemma pop_n_items:
  "ok q \<Longrightarrow> fst (pop_n n q) = take n (items q) \<and> items (snd (pop_n n q)) = drop n (items q) \<and>
     ok (snd (pop_n n q))"
proof (induction n arbitrary: q)
  case (Suc n)
  show ?case
  proof (cases "items q")
    case Nil
    with pop_Nil [OF Suc.prems] Suc.prems show ?thesis by simp
  next
    case (Cons x xs)
    then obtain q' where "pop q = Some (x, q')" "items q' = xs" "ok q'"
      using pop_Cons [OF Suc.prems] by blast
    with Suc.IH [of q'] Cons show ?thesis by (simp add: Let_def split_beta)
  qed
qed simp

lemma fifo_roundtrip:
  assumes "ok q" "length (items q) + length xs \<le> capacity q"
  shows "fst (pop_n (length (items q) + length xs) (push_all q xs)) = items q @ xs"
  using push_all_items [OF assms(1), of xs] pop_n_items [of "push_all q xs"] assms(2) by simp

end

end
