(* ===== verification/Ringbuf.thy ===== *)
theory Ringbuf
  imports Fifo
begin

text \<open>
  \<open>libc/ringbuf.h\<close>: the byte ring buffer. \<open>head\<close> and \<open>tail\<close> are free-running \<open>size_t\<close> counters
  (64-bit words that wrap) and a slot index is a counter masked with \<open>cap - 1\<close>. A result \<open>-1\<close>
  is \<open>None\<close>. The invariant asks for what the header's comment asks: a capacity that is a power of
  two and a backing array of that size. The queue laws hold across the wrap of the counters.
\<close>

section \<open>The ring buffer\<close>

record ringbuf =
  rb_buf :: "u8 list"
  rb_cap :: u64
  rb_head :: u64
  rb_tail :: u64

definition ringbuf_init :: "u8 list \<Rightarrow> u64 \<Rightarrow> ringbuf" where
  "ringbuf_init buf cap = \<lparr>rb_buf = buf, rb_cap = cap, rb_head = 0, rb_tail = 0\<rparr>"

definition ringbuf_empty :: "ringbuf \<Rightarrow> bool" where
  "ringbuf_empty rb \<longleftrightarrow> rb_head rb = rb_tail rb"

definition ringbuf_full :: "ringbuf \<Rightarrow> bool" where
  "ringbuf_full rb \<longleftrightarrow> rb_tail rb - rb_head rb = rb_cap rb"

definition ringbuf_len :: "ringbuf \<Rightarrow> u64" where
  "ringbuf_len rb = rb_tail rb - rb_head rb"

definition ringbuf_space :: "ringbuf \<Rightarrow> u64" where
  "ringbuf_space rb = rb_cap rb - (rb_tail rb - rb_head rb)"

definition ringbuf_slot :: "ringbuf \<Rightarrow> u64 \<Rightarrow> nat" where
  "ringbuf_slot rb i = unat (i AND (rb_cap rb - 1))"

definition ringbuf_push :: "ringbuf \<Rightarrow> u8 \<Rightarrow> ringbuf option" where
  "ringbuf_push rb byte =
     (if ringbuf_full rb then None
      else Some (rb\<lparr>rb_buf := (rb_buf rb)[ringbuf_slot rb (rb_tail rb) := byte],
                    rb_tail := rb_tail rb + 1\<rparr>))"

definition ringbuf_pop :: "ringbuf \<Rightarrow> (u8 \<times> ringbuf) option" where
  "ringbuf_pop rb =
     (if ringbuf_empty rb then None
      else Some (rb_buf rb ! ringbuf_slot rb (rb_head rb), rb\<lparr>rb_head := rb_head rb + 1\<rparr>))"

definition ringbuf_peek :: "ringbuf \<Rightarrow> u8 option" where
  "ringbuf_peek rb =
     (if ringbuf_empty rb then None else Some (rb_buf rb ! ringbuf_slot rb (rb_head rb)))"

definition ringbuf_peek_at :: "ringbuf \<Rightarrow> u64 \<Rightarrow> u8 option" where
  "ringbuf_peek_at rb k =
     (if k \<ge> ringbuf_len rb then None else Some (rb_buf rb ! ringbuf_slot rb (rb_head rb + k)))"

text \<open>The bulk loops: number of bytes moved and the new state.\<close>

fun ringbuf_write :: "ringbuf \<Rightarrow> u8 list \<Rightarrow> nat \<times> ringbuf" where
  "ringbuf_write rb [] = (0, rb)"
| "ringbuf_write rb (b # bs) =
     (if ringbuf_full rb then (0, rb)
      else case ringbuf_push rb b of
             None \<Rightarrow> (0, rb)
           | Some rb' \<Rightarrow> (let (n, rb'') = ringbuf_write rb' bs in (Suc n, rb'')))"

primrec ringbuf_read :: "ringbuf \<Rightarrow> nat \<Rightarrow> u8 list \<times> ringbuf" where
  "ringbuf_read rb 0 = ([], rb)"
| "ringbuf_read rb (Suc n) =
     (if ringbuf_empty rb then ([], rb)
      else case ringbuf_pop rb of
             None \<Rightarrow> ([], rb)
           | Some (b, rb') \<Rightarrow> (let (bs, rb'') = ringbuf_read rb' n in (b # bs, rb'')))"

definition ringbuf_discard :: "ringbuf \<Rightarrow> u64 \<Rightarrow> u64 \<times> ringbuf" where
  "ringbuf_discard rb n =
     (let avail = ringbuf_len rb; n = (if n > avail then avail else n)
      in (n, rb\<lparr>rb_head := rb_head rb + n\<rparr>))"

definition ringbuf_clear :: "ringbuf \<Rightarrow> ringbuf" where
  "ringbuf_clear rb = rb\<lparr>rb_head := 0, rb_tail := 0\<rparr>"

section \<open>Invariant and contents\<close>

definition ringbuf_ok :: "ringbuf \<Rightarrow> bool" where
  "ringbuf_ok rb \<longleftrightarrow> (\<exists>k < 64. rb_cap rb = 2 ^ k) \<and> length (rb_buf rb) = unat (rb_cap rb) \<and>
     rb_tail rb - rb_head rb \<le> rb_cap rb"

definition ringbuf_items :: "ringbuf \<Rightarrow> u8 list" where
  "ringbuf_items rb = ring_items (rb_buf rb) (unat (rb_head rb)) (unat (rb_tail rb - rb_head rb))"

lemma ringbuf_cap_pow:
  assumes "ringbuf_ok rb"
  obtains k where "k < 64" "rb_cap rb = 2 ^ k" "unat (rb_cap rb) = 2 ^ k" "length (rb_buf rb) = 2 ^ k"
proof -
  obtain k where k: "k < 64" "rb_cap rb = 2 ^ k" using assms by (auto simp: ringbuf_ok_def)
  have "unat (2 ^ k :: u64) = 2 ^ k" using k(1) by (simp add: unat_pow2)
  with k assms show ?thesis by (intro that) (auto simp: ringbuf_ok_def)
qed

lemma ringbuf_slot_mod:
  assumes "ringbuf_ok rb"
  shows "ringbuf_slot rb i = unat i mod length (rb_buf rb)"
proof -
  obtain k where k: "k < 64" "rb_cap rb = 2 ^ k" "length (rb_buf rb) = 2 ^ k"
    using ringbuf_cap_pow [OF assms] by blast
  have "rb_cap rb - 1 = mask k" using k by (simp add: mask_eq_decr_exp)
  then show ?thesis using k by (simp add: ringbuf_slot_def unat_and_mask)
qed

lemma ringbuf_len_items: "ringbuf_ok rb \<Longrightarrow> length (ringbuf_items rb) = unat (ringbuf_len rb)"
  by (simp add: ringbuf_items_def ringbuf_len_def)

text \<open>Masking a wrapped counter is the same as masking the counter without the wrap, because the
  capacity divides \<open>2 ^ 64\<close>.\<close>

lemma ringbuf_head_mod:
  fixes i j :: u64
  assumes "ringbuf_ok rb"
  shows "unat (i + j) mod length (rb_buf rb) = (unat i + unat j) mod length (rb_buf rb)"
proof -
  obtain k where k: "k < 64" "length (rb_buf rb) = 2 ^ k" using ringbuf_cap_pow [OF assms] by blast
  then have "length (rb_buf rb) dvd 2 ^ 64" by (simp only: le_imp_power_dvd less_imp_le)
  then show ?thesis by (simp add: unat_word_ariths mod_mod_cancel)
qed

lemma ringbuf_push_items:
  assumes ok: "ringbuf_ok rb" and "\<not> ringbuf_full rb"
  shows "\<exists>rb'. ringbuf_push rb b = Some rb' \<and> ringbuf_ok rb' \<and> rb_cap rb' = rb_cap rb \<and>
    ringbuf_items rb' = ringbuf_items rb @ [b]"
proof -
  let ?n = "unat (rb_tail rb - rb_head rb)"
  let ?rb = "rb\<lparr>rb_buf := (rb_buf rb)[ringbuf_slot rb (rb_tail rb) := b], rb_tail := rb_tail rb + 1\<rparr>"
  have lt: "rb_tail rb - rb_head rb < rb_cap rb"
    using assms by (auto simp: ringbuf_ok_def ringbuf_full_def order_less_le)
  then have n: "?n < length (rb_buf rb)" using ok by (simp add: ringbuf_ok_def word_less_nat_alt)
  have diff: "rb_tail rb + 1 - rb_head rb = (rb_tail rb - rb_head rb) + 1" by simp
  have suc: "unat (rb_tail rb + 1 - rb_head rb) = Suc ?n"
  proof -
    have "Suc ?n < 2 ^ 64" using lt unsigned_less [of "rb_cap rb", where 'a = nat]
      by (simp add: word_less_nat_alt)
    then show ?thesis unfolding diff by (subst unat_word_ariths) simp
  qed
  have slot: "ringbuf_slot rb (rb_tail rb) = (unat (rb_head rb) + ?n) mod length (rb_buf rb)"
    using ringbuf_head_mod [OF ok, of "rb_head rb" "rb_tail rb - rb_head rb"]
    by (simp add: ringbuf_slot_mod [OF ok])
  have "ringbuf_items ?rb = ringbuf_items rb @ [b]"
    using ring_items_push [OF n, of "unat (rb_head rb)" b]
    by (simp add: ringbuf_items_def suc slot)
  moreover have "ringbuf_ok ?rb"
    using ok n suc by (auto simp: ringbuf_ok_def word_le_nat_alt)
  ultimately show ?thesis using assms(2) by (simp add: ringbuf_push_def)
qed

lemma ringbuf_pop_items:
  assumes ok: "ringbuf_ok rb" and "\<not> ringbuf_empty rb"
  shows "\<exists>b rb'. ringbuf_pop rb = Some (b, rb') \<and> ringbuf_ok rb' \<and> rb_cap rb' = rb_cap rb \<and>
    ringbuf_items rb = b # ringbuf_items rb'"
proof -
  let ?rb = "rb\<lparr>rb_head := rb_head rb + 1\<rparr>"
  have "unat (rb_tail rb - rb_head rb) \<noteq> 0"
    using assms(2) by (auto simp: ringbuf_empty_def unat_eq_0)
  then obtain m where m: "unat (rb_tail rb - rb_head rb) = Suc m" by (cases "unat (rb_tail rb - rb_head rb)") auto
  have diff: "rb_tail rb - (rb_head rb + 1) = (rb_tail rb - rb_head rb) - 1" by simp
  have "1 \<le> rb_tail rb - rb_head rb" using m by (simp add: word_le_nat_alt)
  then have pm: "unat (rb_tail rb - (rb_head rb + 1)) = m" unfolding diff using m by (subst unat_sub) auto
  have "ring_items (rb_buf rb) (unat (rb_head rb + 1)) m = ring_items (rb_buf rb) (Suc (unat (rb_head rb))) m"
    using ringbuf_head_mod [OF ok, of "rb_head rb" 1] by (intro ring_items_mod) simp
  then have "ringbuf_items rb = rb_buf rb ! ringbuf_slot rb (rb_head rb) # ringbuf_items ?rb"
    using m pm ring_items_pop [of "rb_buf rb" "unat (rb_head rb)" m]
    by (simp add: ringbuf_items_def ringbuf_slot_mod [OF ok])
  moreover have "ringbuf_ok ?rb" using ok m pm by (auto simp: ringbuf_ok_def word_le_nat_alt)
  ultimately show ?thesis using assms(2) by (simp add: ringbuf_pop_def)
qed

lemma ringbuf_full_iff: "ringbuf_ok rb \<Longrightarrow> ringbuf_full rb \<longleftrightarrow> length (ringbuf_items rb) = unat (rb_cap rb)"
  by (simp add: ringbuf_full_def ringbuf_items_def word_unat_eq_iff)

lemma ringbuf_empty_iff: "ringbuf_ok rb \<Longrightarrow> ringbuf_empty rb \<longleftrightarrow> ringbuf_items rb = []"
  unfolding ringbuf_empty_def ringbuf_items_def length_0_conv [symmetric] length_ring_items
  by (auto simp: unat_eq_0)

section \<open>The queue laws\<close>

text \<open>A caller that ignores the result of a full push keeps the old state.\<close>

abbreviation rb_put :: "ringbuf \<Rightarrow> u8 \<Rightarrow> ringbuf" where
  "rb_put rb b \<equiv> (case ringbuf_push rb b of None \<Rightarrow> rb | Some rb' \<Rightarrow> rb')"

interpretation rb: bounded_fifo rb_put ringbuf_pop ringbuf_items "\<lambda>rb. unat (rb_cap rb)" ringbuf_ok
proof
  fix q x q'
  assume ok: "ringbuf_ok q"
  show le: "length (ringbuf_items q) \<le> unat (rb_cap q)"
    using ok by (simp add: ringbuf_items_def ringbuf_ok_def word_le_nat_alt)
  show "ringbuf_items (rb_put q x) =
      (if length (ringbuf_items q) < unat (rb_cap q) then ringbuf_items q @ [x] else ringbuf_items q)"
    using ringbuf_push_items [OF ok, of x] le ringbuf_full_iff [OF ok]
    by (cases "ringbuf_full q") (auto simp: ringbuf_push_def)
  show "case ringbuf_pop q of None \<Rightarrow> ringbuf_items q = []
      | Some (x, q') \<Rightarrow> ringbuf_items q = x # ringbuf_items q'"
    using ringbuf_pop_items [OF ok] ringbuf_empty_iff [OF ok]
    by (cases "ringbuf_empty q") (auto simp: ringbuf_pop_def)
  show "ringbuf_ok (rb_put q x) \<and> unat (rb_cap (rb_put q x)) = unat (rb_cap q)"
    using ringbuf_push_items [OF ok, of x] ok by (cases "ringbuf_full q") (auto simp: ringbuf_push_def)
  show "ringbuf_ok q' \<and> unat (rb_cap q') = unat (rb_cap q)" if "ringbuf_pop q = Some (x, q')"
    using ringbuf_pop_items [OF ok] that by (cases "ringbuf_empty q") (auto simp: ringbuf_pop_def)
qed

section \<open>Bulk operations\<close>

lemma ringbuf_write_spec:
  assumes "ringbuf_ok rb"
  shows "ringbuf_ok (snd (ringbuf_write rb bs)) \<and>
    fst (ringbuf_write rb bs) = min (length bs) (unat (rb_cap rb) - length (ringbuf_items rb)) \<and>
    ringbuf_items (snd (ringbuf_write rb bs)) =
      ringbuf_items rb @ take (unat (rb_cap rb) - length (ringbuf_items rb)) bs"
  using assms
proof (induction bs arbitrary: rb)
  case (Cons b bs)
  show ?case
  proof (cases "ringbuf_full rb")
    case True
    with Cons.prems ringbuf_full_iff [OF Cons.prems] show ?thesis by simp
  next
    case False
    obtain rb' where p: "ringbuf_push rb b = Some rb'" "ringbuf_ok rb'" "rb_cap rb' = rb_cap rb"
      "ringbuf_items rb' = ringbuf_items rb @ [b]"
      using ringbuf_push_items [OF Cons.prems False] by blast
    have "length (ringbuf_items rb) < unat (rb_cap rb)"
      using rb.items_bound [OF Cons.prems] ringbuf_full_iff [OF Cons.prems] False by simp
    then obtain k where "unat (rb_cap rb) - length (ringbuf_items rb) = Suc k"
      "unat (rb_cap rb) - Suc (length (ringbuf_items rb)) = k"
      by (metis Suc_diff_Suc)
    with Cons.IH [OF p(2)] p False show ?thesis by (simp add: split_beta Let_def)
  qed
qed simp

lemma ringbuf_read_pop_n: "ringbuf_read rb n = rb.pop_n n rb"
  by (induction n arbitrary: rb) (auto simp: ringbuf_pop_def)

section \<open>Properties\<close>

text \<open>C18: a byte stream through the ring buffer: \<open>ringbuf_write\<close> stores as many bytes as there is
  space for, behind the bytes already queued, and \<open>ringbuf_read\<close> returns the oldest bytes in
  order, for every position of the wrapping counters.\<close>

theorem ringbuf_stream:
  assumes "ringbuf_ok rb" "ringbuf_write rb bs = (w, rb')" "ringbuf_read rb' n = (out, rb'')"
  shows "w = min (length bs) (unat (ringbuf_space rb)) \<and>
    out = take n (ringbuf_items rb @ take w bs) \<and>
    ringbuf_items rb'' = drop n (ringbuf_items rb @ take w bs) \<and> ringbuf_ok rb''"
proof -
  have sp: "unat (ringbuf_space rb) = unat (rb_cap rb) - length (ringbuf_items rb)"
    using assms(1) unfolding ringbuf_space_def
    by (subst unat_sub) (auto simp: ringbuf_ok_def ringbuf_items_def)
  have w: "ringbuf_ok rb'" "w = min (length bs) (unat (ringbuf_space rb))"
    "ringbuf_items rb' = ringbuf_items rb @ take w bs"
    using ringbuf_write_spec [OF assms(1), of bs] assms(2) sp by (auto simp: min_def)
  from rb.pop_n_items [OF w(1), of n] assms(3) w show ?thesis
    by (simp add: ringbuf_read_pop_n)
qed

definition rb_example :: ringbuf where
  "rb_example = \<lparr>rb_buf = [1, 2, 3, 4], rb_cap = 4, rb_head = 0xFFFFFFFFFFFFFFFF, rb_tail = 1\<rparr>"

lemma rb_example_ok: "ringbuf_ok rb_example"
proof -
  have "(4 :: u64) = 2 ^ 2" by simp
  then have "\<exists>k < 64. (4 :: u64) = 2 ^ k" by (intro exI [of _ 2]) simp
  then show ?thesis by (simp add: ringbuf_ok_def rb_example_def)
qed

theorem ringbuf_stream_witness:
  "ringbuf_ok rb_example \<and>
   ringbuf_write rb_example [7, 8, 9] = (2, \<lparr>rb_buf = [1, 7, 8, 4], rb_cap = 4, rb_head = 0xFFFFFFFFFFFFFFFF, rb_tail = 3\<rparr>) \<and>
   fst (ringbuf_read (snd (ringbuf_write rb_example [7, 8, 9])) 3) = [4, 1, 7]"
proof -
  have w: "ringbuf_write rb_example [7, 8, 9] =
      (2, \<lparr>rb_buf = [1, 7, 8, 4], rb_cap = 4, rb_head = 0xFFFFFFFFFFFFFFFF, rb_tail = 3\<rparr>)"
    by (simp add: rb_example_def ringbuf_full_def ringbuf_push_def ringbuf_slot_def)
  have items: "ringbuf_items rb_example = [4, 1]"
    by (simp add: rb_example_def ringbuf_items_def ring_items_def upt_rec)
  from ringbuf_stream [OF rb_example_ok w, of 3] items rb_example_ok w show ?thesis
    by (cases "ringbuf_read (snd (ringbuf_write rb_example [7, 8, 9])) 3") simp
qed

text \<open>Looking \<open>k\<close> bytes ahead and discarding agree with the queue: \<open>ringbuf_peek_at\<close> returns the
  \<open>k\<close>th queued byte or nothing, and \<open>ringbuf_discard\<close> drops at most what is there.\<close>

theorem ringbuf_peek_discard:
  assumes "ringbuf_ok rb"
  shows "ringbuf_peek_at rb k =
      (if unat k < length (ringbuf_items rb) then Some (ringbuf_items rb ! unat k) else None) \<and>
    fst (ringbuf_discard rb k) = of_nat (min (unat k) (length (ringbuf_items rb))) \<and>
    ringbuf_items (snd (ringbuf_discard rb k)) = drop (unat k) (ringbuf_items rb)"
proof -
  let ?n = "rb_tail rb - rb_head rb"
  define d where "d = (if k > ?n then ?n else k)"
  have d: "d \<le> ?n" "unat d = min (unat k) (unat ?n)"
    by (auto simp: d_def word_less_nat_alt word_le_nat_alt)
  have len: "length (ringbuf_items rb) = unat ?n" by (simp add: ringbuf_items_def)
  have peek: "ringbuf_peek_at rb k =
      (if unat k < unat ?n then Some (ringbuf_items rb ! unat k) else None)"
    using assms by (auto simp: ringbuf_peek_at_def ringbuf_len_def ringbuf_items_def ringbuf_slot_mod
        ringbuf_head_mod word_le_nat_alt)
  have diff: "rb_tail rb - (rb_head rb + d) = ?n - d" by simp
  have "ring_items (rb_buf rb) (unat (rb_head rb + d)) (unat (rb_tail rb - (rb_head rb + d))) =
      drop (unat d) (ring_items (rb_buf rb) (unat (rb_head rb)) (unat ?n))"
    unfolding diff
  proof (rule nth_equalityI)
    fix i assume i: "i < length (ring_items (rb_buf rb) (unat (rb_head rb + d)) (unat (?n - d)))"
    have "(unat (rb_head rb + d) + i) mod length (rb_buf rb) =
        (unat (rb_head rb) + (unat d + i)) mod length (rb_buf rb)"
      using mod_add_cong [OF ringbuf_head_mod [OF assms, of "rb_head rb" d] refl, of i]
      by (simp add: add.assoc)
    with i d(1) show "ring_items (rb_buf rb) (unat (rb_head rb + d)) (unat (?n - d)) ! i =
        drop (unat d) (ring_items (rb_buf rb) (unat (rb_head rb)) (unat ?n)) ! i"
      by (simp add: unat_sub)
  qed (use d(1) in \<open>simp add: unat_sub\<close>)
  moreover have "drop (unat d) xs = drop (unat k) xs" if "length xs = unat ?n" for xs :: "u8 list"
    using that by (auto simp: d(2) min_def)
  moreover have dis: "ringbuf_discard rb k = (d, rb\<lparr>rb_head := rb_head rb + d\<rparr>)"
    by (simp add: ringbuf_discard_def ringbuf_len_def Let_def d_def)
  ultimately have "ringbuf_items (snd (ringbuf_discard rb k)) = drop (unat k) (ringbuf_items rb)"
    by (simp add: ringbuf_items_def)
  moreover have "fst (ringbuf_discard rb k) = of_nat (unat d)" by (simp add: dis)
  ultimately show ?thesis using peek d len by simp
qed

theorem ringbuf_peek_discard_witness:
  "ringbuf_ok rb_example \<and> ringbuf_peek_at rb_example 1 = Some 1 \<and>
   ringbuf_items (snd (ringbuf_discard rb_example 1)) = [1]"
proof -
  have items: "ringbuf_items rb_example = [4, 1]"
    by (simp add: rb_example_def ringbuf_items_def ring_items_def upt_rec)
  with ringbuf_peek_discard [OF rb_example_ok, of 1] rb_example_ok show ?thesis by simp
qed

end
