(* ===== verification/Events.thy ===== *)
theory Events
  imports Fifo
begin

text \<open>
  \<open>ui/event.c\<close>: the input event queue between the interrupt handlers and the window manager. The
  queue is a circular array of 128 events with free-running 32-bit counters; the producers derive
  button-edge events from the last mouse state. The masked interrupts around the consumer make each
  operation one step.
\<close>

section \<open>The event queue\<close>

datatype event_type = EV_NONE | EV_KEY_DOWN | EV_KEY_UP | EV_MOUSE_MOVE | EV_MOUSE_DOWN | EV_MOUSE_UP

record event =
  ev_type :: event_type
  ev_code :: u8
  ev_ch :: u8
  ev_buttons :: u8
  ev_x :: u32
  ev_y :: u32

record evstate =
  evq :: "event list"
  evq_head :: u32
  evq_tail :: u32
  last_mx :: u32
  last_my :: u32
  last_buttons :: u8

definition EVQ_CAP :: u32 where
  "EVQ_CAP = 128"

definition event_init :: "evstate \<Rightarrow> evstate" where
  "event_init s = s\<lparr>evq_head := 0, evq_tail := 0, last_mx := - 1, last_my := - 1, last_buttons := 0\<rparr>"

definition evq_push :: "evstate \<Rightarrow> event \<Rightarrow> evstate" where
  "evq_push s ev =
     (if evq_tail s - evq_head s \<ge> EVQ_CAP then s
      else s\<lparr>evq := (evq s)[unat (evq_tail s AND (EVQ_CAP - 1)) := ev], evq_tail := evq_tail s + 1\<rparr>)"

definition event_poll :: "evstate \<Rightarrow> (event \<times> evstate) option" where
  "event_poll s =
     (if evq_head s \<noteq> evq_tail s
      then Some (evq s ! unat (evq_head s AND (EVQ_CAP - 1)), s\<lparr>evq_head := evq_head s + 1\<rparr>)
      else None)"

definition event_push_key :: "evstate \<Rightarrow> u8 \<Rightarrow> bool \<Rightarrow> u8 \<Rightarrow> evstate" where
  "event_push_key s scancode down ch =
     evq_push s \<lparr>ev_type = (if down then EV_KEY_DOWN else EV_KEY_UP), ev_code = scancode,
       ev_ch = (if down then ch else 0), ev_buttons = last_buttons s, ev_x = last_mx s, ev_y = last_my s\<rparr>"

text \<open>The loop over the button bits \<open>1, 2, 4\<close>.\<close>

fun push_edges :: "evstate \<Rightarrow> u32 \<Rightarrow> u32 \<Rightarrow> u8 \<Rightarrow> u8 \<Rightarrow> u8 list \<Rightarrow> evstate" where
  "push_edges s x y buttons changed [] = s"
| "push_edges s x y buttons changed (b # bs) =
     push_edges
       (if changed AND b = 0 then s
        else evq_push s \<lparr>ev_type = (if buttons AND b \<noteq> 0 then EV_MOUSE_DOWN else EV_MOUSE_UP),
          ev_code = b, ev_ch = 0, ev_buttons = buttons, ev_x = x, ev_y = y\<rparr>)
       x y buttons changed bs"

definition event_push_mouse :: "evstate \<Rightarrow> u32 \<Rightarrow> u32 \<Rightarrow> u8 \<Rightarrow> evstate" where
  "event_push_mouse s x y buttons =
     (let changed = buttons XOR last_buttons s;
          s = push_edges s x y buttons changed [1, 2, 4];
          s = (if x \<noteq> last_mx s \<or> y \<noteq> last_my s
               then evq_push s \<lparr>ev_type = EV_MOUSE_MOVE, ev_code = 0, ev_ch = 0, ev_buttons = buttons,
                 ev_x = x, ev_y = y\<rparr>
               else s)
      in s\<lparr>last_mx := x, last_my := y, last_buttons := buttons\<rparr>)"

section \<open>Contents and laws\<close>

definition evq_ok :: "evstate \<Rightarrow> bool" where
  "evq_ok s \<longleftrightarrow> length (evq s) = 128 \<and> evq_tail s - evq_head s \<le> EVQ_CAP"

definition evq_items :: "evstate \<Rightarrow> event list" where
  "evq_items s = ring_items (evq s) (unat (evq_head s)) (unat (evq_tail s - evq_head s))"

lemma evq_slot: "unat ((i :: u32) AND (EVQ_CAP - 1)) = unat i mod 128"
proof -
  have "EVQ_CAP - 1 = mask 7" by (simp add: EVQ_CAP_def mask_eq_decr_exp)
  then show ?thesis by (simp add: unat_and_mask)
qed

lemma evq_counter_mod: "unat ((i :: u32) + j) mod 128 = (unat i + unat j) mod 128"
  by (simp add: unat_word_ariths mod_mod_cancel)

lemma evq_push_items:
  assumes ok: "evq_ok s" and lt: "evq_tail s - evq_head s < EVQ_CAP"
  shows "evq_items (evq_push s e) = evq_items s @ [e]" "evq_ok (evq_push s e)"
proof -
  let ?n = "unat (evq_tail s - evq_head s)"
  have n: "?n < 128" "length (evq s) = 128"
    using ok lt by (auto simp: evq_ok_def EVQ_CAP_def word_less_nat_alt)
  have diff: "evq_tail s + 1 - evq_head s = (evq_tail s - evq_head s) + 1" by simp
  have suc: "unat (evq_tail s + 1 - evq_head s) = Suc ?n"
    unfolding diff using n by (subst unat_word_ariths) simp
  have slot: "unat (evq_tail s) mod 128 = (unat (evq_head s) + ?n) mod 128"
    using evq_counter_mod [of "evq_head s" "evq_tail s - evq_head s"] by simp
  have push: "evq_push s e = s\<lparr>evq := (evq s)[(unat (evq_head s) + ?n) mod 128 := e], evq_tail := evq_tail s + 1\<rparr>"
    using lt by (simp add: evq_push_def evq_slot slot not_le)
  show "evq_items (evq_push s e) = evq_items s @ [e]"
    using ring_items_push [of ?n "evq s" "unat (evq_head s)" e] n
    by (simp add: push evq_items_def suc)
  show "evq_ok (evq_push s e)"
    using n suc by (simp add: push evq_ok_def word_le_nat_alt EVQ_CAP_def)
qed

lemma event_poll_items:
  assumes ok: "evq_ok s" and p: "event_poll s = Some (e, s')"
  shows "evq_items s = e # evq_items s'" "evq_ok s'"
proof -
  have ne: "evq_head s \<noteq> evq_tail s" and e: "e = evq s ! (unat (evq_head s) mod 128)"
    and s': "s' = s\<lparr>evq_head := evq_head s + 1\<rparr>" using p by (auto simp: event_poll_def evq_slot split: if_splits)
  have "unat (evq_tail s - evq_head s) \<noteq> 0" using ne by (auto simp: unat_eq_0)
  then obtain m where m: "unat (evq_tail s - evq_head s) = Suc m"
    by (cases "unat (evq_tail s - evq_head s)") auto
  have diff: "evq_tail s - (evq_head s + 1) = (evq_tail s - evq_head s) - 1" by simp
  have "1 \<le> evq_tail s - evq_head s" using m by (simp add: word_le_nat_alt)
  then have pm: "unat (evq_tail s - (evq_head s + 1)) = m" unfolding diff using m by (subst unat_sub) auto
  have len: "length (evq s) = 128" using ok by (simp add: evq_ok_def)
  have "ring_items (evq s) (unat (evq_head s + 1)) m = ring_items (evq s) (Suc (unat (evq_head s))) m"
    using evq_counter_mod [of "evq_head s" 1] len by (intro ring_items_mod) simp
  then show "evq_items s = e # evq_items s'"
    using m pm len by (simp add: evq_items_def s' e ring_items_pop)
  show "evq_ok s'" using ok m pm by (simp add: evq_ok_def s' word_le_nat_alt)
qed

interpretation ev: bounded_fifo evq_push event_poll evq_items "\<lambda>_. 128" evq_ok
proof
  fix q x q'
  assume ok: "evq_ok q"
  show le: "length (evq_items q) \<le> 128"
    using ok by (simp add: evq_items_def evq_ok_def EVQ_CAP_def word_le_nat_alt)
  have lt: "evq_tail q - evq_head q < EVQ_CAP \<longleftrightarrow> length (evq_items q) < 128"
    by (simp add: evq_items_def EVQ_CAP_def word_less_nat_alt)
  show "evq_items (evq_push q x) =
      (if length (evq_items q) < 128 then evq_items q @ [x] else evq_items q)"
    using evq_push_items(1) [OF ok] lt by (cases "length (evq_items q) < 128") (auto simp: evq_push_def)
  show "evq_ok (evq_push q x) \<and> (128 :: nat) = 128"
    using evq_push_items(2) [OF ok] lt ok by (cases "length (evq_items q) < 128") (auto simp: evq_push_def)
  show "case event_poll q of None \<Rightarrow> evq_items q = [] | Some (x, q') \<Rightarrow> evq_items q = x # evq_items q'"
    using event_poll_items(1) [OF ok]
    by (auto simp: event_poll_def evq_items_def split: option.splits if_splits)
  show "evq_ok q' \<and> (128 :: nat) = 128" if "event_poll q = Some (x, q')"
    using event_poll_items(2) [OF ok that] by simp
qed

section \<open>What a mouse report produces\<close>

definition edge_event :: "u32 \<Rightarrow> u32 \<Rightarrow> u8 \<Rightarrow> u8 \<Rightarrow> event" where
  "edge_event x y buttons b = \<lparr>ev_type = (if buttons AND b \<noteq> 0 then EV_MOUSE_DOWN else EV_MOUSE_UP),
     ev_code = b, ev_ch = 0, ev_buttons = buttons, ev_x = x, ev_y = y\<rparr>"

definition mouse_events :: "evstate \<Rightarrow> u32 \<Rightarrow> u32 \<Rightarrow> u8 \<Rightarrow> event list" where
  "mouse_events s x y buttons =
     map (edge_event x y buttons) (filter (\<lambda>b. (buttons XOR last_buttons s) AND b \<noteq> 0) [1, 2, 4]) @
     (if x \<noteq> last_mx s \<or> y \<noteq> last_my s
      then [\<lparr>ev_type = EV_MOUSE_MOVE, ev_code = 0, ev_ch = 0, ev_buttons = buttons, ev_x = x, ev_y = y\<rparr>]
      else [])"

lemma evq_push_last [simp]:
  "last_mx (evq_push s e) = last_mx s" "last_my (evq_push s e) = last_my s"
  "last_buttons (evq_push s e) = last_buttons s"
  by (simp_all add: evq_push_def)

lemma push_all_last [simp]:
  "last_mx (ev.push_all s es) = last_mx s" "last_my (ev.push_all s es) = last_my s"
  "last_buttons (ev.push_all s es) = last_buttons s"
  by (induction es arbitrary: s) simp_all

lemma push_edges_push_all:
  "push_edges s x y buttons changed bs =
     ev.push_all s (map (edge_event x y buttons) (filter (\<lambda>b. changed AND b \<noteq> 0) bs))"
  by (induction bs arbitrary: s) (simp_all add: edge_event_def)

lemma push_all_append: "ev.push_all s (es @ es') = ev.push_all (ev.push_all s es) es'"
  by (induction es arbitrary: s) simp_all

lemma event_push_mouse_push_all:
  "event_push_mouse s x y buttons =
     (ev.push_all s (mouse_events s x y buttons))\<lparr>last_mx := x, last_my := y, last_buttons := buttons\<rparr>"
  by (simp add: event_push_mouse_def Let_def push_edges_push_all mouse_events_def push_all_append)

text \<open>A consumer that keeps its own button mask from the edge events.\<close>

definition apply_edge :: "event \<Rightarrow> u8 \<Rightarrow> u8" where
  "apply_edge e m = (case ev_type e of EV_MOUSE_DOWN \<Rightarrow> m OR ev_code e
     | EV_MOUSE_UP \<Rightarrow> m AND NOT (ev_code e) | _ \<Rightarrow> m)"

lemma and_exp_zero_iff: "((w :: u8) AND 2 ^ j = 0) = (\<not> bit w j)"
  by (simp add: and_exp_eq_0_iff_not_bit)

text \<open>Applying the edges of a list of button bits sets every listed bit that changed.\<close>

lemma apply_edges_bit:
  assumes "n < 8" "\<forall>j \<in> set js. j < 8"
  shows "bit (fold apply_edge (map (edge_event x y buttons)
      (filter (\<lambda>b. changed AND b \<noteq> 0) (map (\<lambda>j. 2 ^ j) js))) k) n =
    (if n \<in> set js \<and> bit changed n then bit buttons n else bit k n)"
  using assms(2)
proof (induction js arbitrary: k)
  case (Cons j js)
  have "bit (apply_edge (edge_event x y buttons (2 ^ j)) k) n = (if n = j then bit buttons j else bit k n)"
    using assms(1) Cons.prems
    by (auto simp: apply_edge_def edge_event_def and_exp_zero_iff bit_or_iff bit_and_iff bit_not_iff bit_exp_iff
        split: if_splits)
  with Cons show ?case by (auto simp: and_exp_zero_iff)
qed simp

section \<open>Properties\<close>

text \<open>One mouse report queues exactly the button edges between the old and the new mask (buttons
  left, right, middle in that order) followed by a move event when the position changed; when the
  queue has no room for all of them the last ones are dropped, and the state remembers the report
  either way. A key report queues one event under the same rule.\<close>

theorem event_push_queues_report:
  assumes "evq_ok s"
  shows "evq_items (event_push_mouse s x y buttons) =
      evq_items s @ take (128 - length (evq_items s)) (mouse_events s x y buttons) \<and>
    evq_ok (event_push_mouse s x y buttons) \<and>
    last_buttons (event_push_mouse s x y buttons) = buttons \<and>
    length (evq_items (event_push_key s sc down ch)) = min 128 (length (evq_items s) + 1)"
  using ev.push_all_items [OF assms, of "mouse_events s x y buttons"] ev.push_items [OF assms]
    ev.items_bound [OF assms]
  by (simp add: event_push_mouse_push_all evq_items_def evq_ok_def event_push_key_def)

definition ev_example :: evstate where
  "ev_example = \<lparr>evq = replicate 128 \<lparr>ev_type = EV_NONE, ev_code = 0, ev_ch = 0, ev_buttons = 0,
     ev_x = 0, ev_y = 0\<rparr>, evq_head = 0, evq_tail = 0, last_mx = 5, last_my = 6, last_buttons = 2\<rparr>"

lemma ev_example_ok: "evq_ok ev_example"
  by (simp add: ev_example_def evq_ok_def EVQ_CAP_def)

theorem event_push_queues_report_witness:
  "evq_ok ev_example \<and>
   map (\<lambda>e. (ev_type e, ev_code e)) (evq_items (event_push_mouse ev_example 5 7 1)) =
     [(EV_MOUSE_DOWN, 1), (EV_MOUSE_UP, 2), (EV_MOUSE_MOVE, 0)]"
proof -
  have "evq_items ev_example = []" by (simp add: ev_example_def evq_items_def)
  with event_push_queues_report [OF ev_example_ok, of 5 7 1] ev_example_ok show ?thesis
    by (simp add: mouse_events_def edge_event_def) (simp add: ev_example_def)
qed

text \<open>The edge events of a report carry enough to follow the buttons: applied to the previous
  mask they give the new mask on the three button bits.\<close>

theorem mouse_edges_track_buttons:
  assumes "n < 3"
  shows "bit (fold apply_edge (mouse_events s x y buttons) (last_buttons s)) n = bit buttons n"
proof -
  have l: "[1, 2, 4 :: u8] = map (\<lambda>j. 2 ^ j) [0, 1, 2]" by simp
  have m: "fold apply_edge (mouse_events s x y buttons) k = fold apply_edge (map (edge_event x y buttons)
      (filter (\<lambda>b. (buttons XOR last_buttons s) AND b \<noteq> 0) (map (\<lambda>j. 2 ^ j) [0, 1, 2]))) k" for k
    unfolding mouse_events_def l [symmetric] by (simp add: apply_edge_def)
  have "n \<in> set [0, 1, 2]" using assms by auto
  then show ?thesis unfolding m using assms by (subst apply_edges_bit) (auto simp: bit_xor_iff)
qed

theorem mouse_edges_track_buttons_witness:
  "(1 :: nat) < 3 \<and> bit (fold apply_edge (mouse_events ev_example 5 6 1) (last_buttons ev_example)) 1 =
     bit (1 :: u8) 1"
  using mouse_edges_track_buttons [of 1 ev_example 5 6 1] by simp

end
