(* ===== verification/Sched.thy ===== *)
theory Sched
  imports KMem Fifo
begin

text \<open>
  \<open>cpu/sched.c\<close> and \<open>cpu/sched.h\<close>: the preemptive priority scheduler. The state holds the task
  pool, the four circular run queues, the idle task, the current task and the flags the interrupt
  epilogue reads. A task pointer is \<open>Idle\<close> or \<open>Slot i\<close> for \<open>&task_pool[i]\<close>. Task stacks come from
  \<open>kmalloc\<close>; initial register frames are written to the 64-bit words of the same memory. The
  operations run with interrupts masked, so each is one step of the machine. Link-time addresses
  (trampolines, the ring3 stack pool) are the fields of \<open>sched_env\<close>.
\<close>

section \<open>Tasks\<close>

datatype task_state = TASK_FREE | TASK_READY | TASK_RUNNING | TASK_BLOCKED | TASK_DONE

record file_descriptor =
  fd_node :: "nat option"
  fd_offset :: u64
  fd_flags :: u8
  fd_active :: bool

definition MAX_FD :: nat where
  "MAX_FD = 64"

definition fd_zero :: file_descriptor where
  "fd_zero = \<lparr>fd_node = None, fd_offset = 0, fd_flags = 0, fd_active = False\<rparr>"

record task =
  t_rsp :: nat
  t_id :: int
  t_name :: "u8 list"
  t_state :: task_state
  t_priority :: nat
  t_cpu_id :: int
  t_stack :: nat
  t_timeslice :: nat
  t_quantum :: nat
  t_func :: nat
  t_arg :: nat
  t_is_user :: bool
  t_user_stack :: nat
  t_cr3 :: nat
  t_fd_table :: "file_descriptor list"
  t_as :: nat
  t_heap_start :: nat
  t_heap_brk :: nat
  t_heap_end :: nat

datatype tref = Idle | Slot nat

definition MAX_TASKS :: nat where "MAX_TASKS = 32"
definition TASK_STACK_SZ :: nat where "TASK_STACK_SZ = 8192"
definition MAX_USER_TASKS :: nat where "MAX_USER_TASKS = 8"
definition USER_STACK_SZ :: nat where "USER_STACK_SZ = 65536"
definition PRIO_NORMAL :: nat where "PRIO_NORMAL = 2"
definition PRIO_IDLE_LVL :: nat where "PRIO_IDLE_LVL = 3"
definition PRIO_LEVELS :: nat where "PRIO_LEVELS = 4"
definition MASTER_CR3_PHYS :: nat where "MASTER_CR3_PHYS = 0x1000"

definition prio_quantum :: "nat list" where
  "prio_quantum = [5, 10, 20, 50]"

section \<open>Run queues\<close>

record runq =
  rq_buf :: "tref list"
  rq_head :: nat
  rq_tail :: nat
  rq_size :: nat

definition rq_push :: "runq \<Rightarrow> tref \<Rightarrow> runq" where
  "rq_push q t =
     (if rq_size q \<ge> MAX_TASKS then q
      else q\<lparr>rq_buf := (rq_buf q)[rq_tail q := t],
             rq_tail := (rq_tail q + 1) mod MAX_TASKS,
             rq_size := rq_size q + 1\<rparr>)"

definition rq_pop :: "runq \<Rightarrow> (tref \<times> runq) option" where
  "rq_pop q =
     (if rq_size q = 0 then None
      else Some (rq_buf q ! rq_head q,
                 q\<lparr>rq_head := (rq_head q + 1) mod MAX_TASKS, rq_size := rq_size q - 1\<rparr>))"

definition rq_ok :: "runq \<Rightarrow> bool" where
  "rq_ok q \<longleftrightarrow> length (rq_buf q) = MAX_TASKS \<and> rq_head q < MAX_TASKS \<and> rq_size q \<le> MAX_TASKS \<and>
     rq_tail q = (rq_head q + rq_size q) mod MAX_TASKS"

definition rq_items :: "runq \<Rightarrow> tref list" where
  "rq_items q = ring_items (rq_buf q) (rq_head q) (rq_size q)"

lemma rq_push_room:
  assumes "rq_ok q" "rq_size q < MAX_TASKS"
  shows "rq_items (rq_push q t) = rq_items q @ [t]" "rq_ok (rq_push q t)"
proof -
  have len: "length (rq_buf q) = MAX_TASKS" and tl: "rq_tail q = (rq_head q + rq_size q) mod MAX_TASKS"
    using assms by (auto simp: rq_ok_def)
  show "rq_items (rq_push q t) = rq_items q @ [t]"
    using ring_items_push [of "rq_size q" "rq_buf q" "rq_head q" t] assms(2) len
    by (simp add: rq_push_def rq_items_def tl)
  show "rq_ok (rq_push q t)"
    using assms by (simp add: rq_ok_def rq_push_def mod_Suc_eq)
qed

lemma rq_pop_some:
  assumes "rq_ok q" "rq_pop q = Some (t, q')"
  shows "rq_items q = t # rq_items q'" "rq_ok q'"
proof -
  obtain n where n: "rq_size q = Suc n" and q': "q' = q\<lparr>rq_head := (rq_head q + 1) mod MAX_TASKS, rq_size := n\<rparr>"
    and t: "t = rq_buf q ! rq_head q"
    using assms(2) by (cases "rq_size q") (auto simp: rq_pop_def)
  have len: "length (rq_buf q) = MAX_TASKS" "rq_head q < MAX_TASKS" using assms(1) by (auto simp: rq_ok_def)
  have "ring_items (rq_buf q) ((rq_head q + 1) mod MAX_TASKS) n = ring_items (rq_buf q) (Suc (rq_head q)) n"
    using len by (intro ring_items_mod) simp
  then show "rq_items q = t # rq_items q'"
    using len by (simp add: rq_items_def q' t n ring_items_pop)
  show "rq_ok q'"
    using assms(1) n by (auto simp: rq_ok_def q' MAX_TASKS_def mod_simps)
qed

interpretation rq: bounded_fifo rq_push rq_pop rq_items "\<lambda>_. MAX_TASKS" rq_ok
proof
  fix q x q'
  assume ok: "rq_ok q"
  then show le: "length (rq_items q) \<le> MAX_TASKS" by (simp add: rq_ok_def rq_items_def)
  have n: "length (rq_items q) = rq_size q" by (simp add: rq_items_def)
  show "rq_items (rq_push q x) = (if length (rq_items q) < MAX_TASKS then rq_items q @ [x] else rq_items q)"
    using rq_push_room(1) [OF ok] n by (cases "rq_size q < MAX_TASKS") (auto simp: rq_push_def)
  show "rq_ok (rq_push q x) \<and> MAX_TASKS = MAX_TASKS"
    using rq_push_room(2) [OF ok] ok by (cases "rq_size q < MAX_TASKS") (auto simp: rq_push_def)
  show "case rq_pop q of None \<Rightarrow> rq_items q = [] | Some (x, q') \<Rightarrow> rq_items q = x # rq_items q'"
    using rq_pop_some(1) [OF ok] by (auto simp: rq_pop_def rq_items_def split: option.splits if_splits)
  show "rq_ok q' \<and> MAX_TASKS = MAX_TASKS" if "rq_pop q = Some (x, q')"
    using rq_pop_some(2) [OF ok that] by simp
qed

section \<open>Scheduler state\<close>

record sched_env =
  task_trampoline :: nat
  user_task_trampoline :: nat
  user_stack_pool :: nat

record sched =
  task_pool :: "task list"
  task_count :: nat
  rqs :: "runq list"
  idle_task :: task
  cur_task :: "tref option"
  want_schedule :: bool
  scheduler_active :: bool
  loaded_cr3 :: nat
  user_stack_next :: nat
  tss_rsp0 :: nat
  s_mem :: kmem

definition get_task :: "sched \<Rightarrow> tref \<Rightarrow> task" where
  "get_task s r = (case r of Idle \<Rightarrow> idle_task s | Slot i \<Rightarrow> task_pool s ! i)"

definition upd_task :: "tref \<Rightarrow> (task \<Rightarrow> task) \<Rightarrow> sched \<Rightarrow> sched" where
  "upd_task r f s = (case r of Idle \<Rightarrow> s\<lparr>idle_task := f (idle_task s)\<rparr>
     | Slot i \<Rightarrow> s\<lparr>task_pool := (task_pool s)[i := f (task_pool s ! i)]\<rparr>)"

definition push_level :: "nat \<Rightarrow> tref \<Rightarrow> sched \<Rightarrow> sched" where
  "push_level p t s = s\<lparr>rqs := (rqs s)[p := rq_push (rqs s ! p) t]\<rparr>"

subsection \<open>Initial register frames\<close>

definition GDT_KERNEL_CS :: nat where "GDT_KERNEL_CS = 0x08"
definition GDT_KERNEL_DS :: nat where "GDT_KERNEL_DS = 0x10"
definition GDT_USER_CS :: nat where "GDT_USER_CS = 0x20"
definition GDT_USER_DS :: nat where "GDT_USER_DS = 0x28"

text \<open>\<open>*--sp = v;\<close> for each value in turn.\<close>

fun push_words :: "(nat \<Rightarrow> nat) \<Rightarrow> nat \<Rightarrow> nat list \<Rightarrow> nat \<times> (nat \<Rightarrow> nat)" where
  "push_words m sp [] = (sp, m)"
| "push_words m sp (v # vs) = push_words (m(sp - 8 := v)) (sp - 8) vs"

definition frame_build :: "(nat \<Rightarrow> nat) \<Rightarrow> nat \<Rightarrow> nat \<Rightarrow> nat \<Rightarrow> nat \<Rightarrow> nat \<Rightarrow> nat \<Rightarrow> nat \<Rightarrow>
    nat \<times> (nat \<Rightarrow> nat)" where
  "frame_build m kstack_top rip cs ss target_rsp rdi_val rsi_val =
     push_words m kstack_top
       [ss, target_rsp, 0x202, cs, rip,
        0, 0,
        0, 0, 0, 0, rsi_val, rdi_val, 0, 0, 0, 0, 0, 0, 0, 0, 0]"

definition set_frame :: "tref \<Rightarrow> nat \<times> (nat \<Rightarrow> nat) \<Rightarrow> sched \<Rightarrow> sched" where
  "set_frame r fr s = upd_task r (\<lambda>t. t\<lparr>t_rsp := fst fr\<rparr>) (s\<lparr>s_mem := (s_mem s)\<lparr>km_words := snd fr\<rparr>\<rparr>)"

definition task_init_stack :: "sched_env \<Rightarrow> tref \<Rightarrow> sched \<Rightarrow> sched" where
  "task_init_stack env r s =
     (let t = get_task s r; stack_top = t_stack t + TASK_STACK_SZ in
      set_frame r (frame_build (km_words (s_mem s)) stack_top (task_trampoline env)
        GDT_KERNEL_CS GDT_KERNEL_DS stack_top 0 0) s)"

definition task_init_stack_user :: "sched_env \<Rightarrow> tref \<Rightarrow> sched \<Rightarrow> sched" where
  "task_init_stack_user env r s =
     (let t = get_task s r; kstack_top = t_stack t + TASK_STACK_SZ;
          ustack_top = t_user_stack t + USER_STACK_SZ in
      set_frame r (frame_build (km_words (s_mem s)) kstack_top (user_task_trampoline env)
        (GDT_USER_CS OR 3) (GDT_USER_DS OR 3) ustack_top (t_func t) (t_arg t)) s)"

definition task_init_stack_user_as :: "sched_env \<Rightarrow> tref \<Rightarrow> nat \<Rightarrow> sched \<Rightarrow> sched" where
  "task_init_stack_user_as env r ustack_top s =
     (let t = get_task s r; kstack_top = t_stack t + TASK_STACK_SZ in
      set_frame r (frame_build (km_words (s_mem s)) kstack_top (user_task_trampoline env)
        (GDT_USER_CS OR 3) (GDT_USER_DS OR 3) ustack_top (t_func t) (t_arg t)) s)"

subsection \<open>Start, slots, names\<close>

definition sched_init :: "sched \<Rightarrow> sched" where
  "sched_init s =
     s\<lparr>task_pool := map (\<lambda>t. t\<lparr>t_state := TASK_FREE, t_id := - 1\<rparr>) (task_pool s),
       idle_task := (idle_task s)\<lparr>t_id := - 1, t_state := TASK_RUNNING, t_priority := PRIO_IDLE_LVL,
         t_stack := 0, t_timeslice := 0, t_quantum := 0, t_func := 0, t_arg := 0, t_cpu_id := 0,
         t_name := (t_name (idle_task s))[0 := 0x69, 1 := 0x64, 2 := 0x6C, 3 := 0x65, 4 := 0]\<rparr>,
       cur_task := Some Idle\<rparr>"

definition sched_run :: "sched \<Rightarrow> sched" where
  "sched_run s = s\<lparr>scheduler_active := True\<rparr>"

text \<open>The first \<open>FREE\<close> or \<open>DONE\<close> slot below \<open>task_count\<close>; otherwise the pool grows by one.\<close>

definition slot_reusable :: "task \<Rightarrow> bool" where
  "slot_reusable t \<longleftrightarrow> t_state t = TASK_FREE \<or> t_state t = TASK_DONE"

definition find_free_slot :: "sched \<Rightarrow> nat option \<times> sched" where
  "find_free_slot s =
     (let i = skip_while (\<lambda>i. \<not> slot_reusable (task_pool s ! i)) 0 (task_count s) in
      if i < task_count s then (Some i, s)
      else if task_count s \<ge> MAX_TASKS then (None, s)
      else (Some (task_count s), s\<lparr>task_count := task_count s + 1\<rparr>))"

function set_name_from :: "u8 list \<Rightarrow> u8 list \<Rightarrow> nat \<Rightarrow> u8 list" where
  "set_name_from arr name ni =
     (if ni < 23 \<and> cstr_at name ni \<noteq> 0
      then set_name_from (arr[ni := cstr_at name ni]) name (ni + 1)
      else arr[ni := 0])"
  by pat_completeness auto
termination
  by (relation "measure (\<lambda>(arr, name, ni). 23 - ni)") auto

declare set_name_from.simps [simp del]

definition task_set_name :: "task \<Rightarrow> u8 list \<Rightarrow> task" where
  "task_set_name t name = t\<lparr>t_name := set_name_from (t_name t) name 0\<rparr>"

subsection \<open>Submitting tasks\<close>

text \<open>The result is the slot number or \<open>-1\<close>. \<open>None\<close> is an undefined access in \<open>kmalloc\<close>.\<close>

definition sched_submit_prio :: "sched_env \<Rightarrow> sched \<Rightarrow> u8 list \<Rightarrow> nat \<Rightarrow> nat \<Rightarrow> nat \<Rightarrow>
    (int \<times> sched) option" where
  "sched_submit_prio env s name func arg priority =
     (if func = 0 \<or> priority \<ge> PRIO_LEVELS then Some (- 1, s)
      else case find_free_slot s of
        (None, s) \<Rightarrow> Some (- 1, s)
      | (Some slot, s) \<Rightarrow>
          (case kmalloc (s_mem s) TASK_STACK_SZ True False of
             None \<Rightarrow> None
           | Some (stack, _, mem) \<Rightarrow>
               let s = s\<lparr>s_mem := mem\<rparr> in
               if stack = 0 then Some (- 1, s)
               else
                 let s = upd_task (Slot slot) (\<lambda>t. task_set_name (t\<lparr>
                       t_id := int slot, t_state := TASK_READY, t_priority := priority,
                       t_cpu_id := - 1, t_stack := stack, t_is_user := False, t_user_stack := 0,
                       t_cr3 := 0, t_fd_table := replicate MAX_FD fd_zero, t_as := 0,
                       t_heap_start := 0, t_heap_brk := 0, t_heap_end := 0,
                       t_quantum := prio_quantum ! priority, t_timeslice := prio_quantum ! priority,
                       t_func := func, t_arg := arg\<rparr>) name) s;
                     s = task_init_stack env (Slot slot) s
                 in Some (int slot, push_level priority (Slot slot) s)))"

definition sched_submit :: "sched_env \<Rightarrow> sched \<Rightarrow> u8 list \<Rightarrow> nat \<Rightarrow> nat \<Rightarrow> (int \<times> sched) option" where
  "sched_submit env s name func arg = sched_submit_prio env s name func arg PRIO_NORMAL"

definition sched_submit_user :: "sched_env \<Rightarrow> sched \<Rightarrow> u8 list \<Rightarrow> nat \<Rightarrow> nat \<Rightarrow> (int \<times> sched) option" where
  "sched_submit_user env s name entry arg =
     (if entry = 0 then Some (- 1, s)
      else if user_stack_next s \<ge> MAX_USER_TASKS then Some (- 1, s)
      else case find_free_slot s of
        (None, s) \<Rightarrow> Some (- 1, s)
      | (Some slot, s) \<Rightarrow>
          (case kmalloc (s_mem s) TASK_STACK_SZ True False of
             None \<Rightarrow> None
           | Some (kstack, _, mem) \<Rightarrow>
               let s = s\<lparr>s_mem := mem\<rparr> in
               if kstack = 0 then Some (- 1, s)
               else
                 let ustack = user_stack_pool env + user_stack_next s * USER_STACK_SZ;
                     s = s\<lparr>user_stack_next := user_stack_next s + 1\<rparr>;
                     s = upd_task (Slot slot) (\<lambda>t. task_set_name (t\<lparr>
                       t_id := int slot, t_state := TASK_READY, t_priority := PRIO_NORMAL,
                       t_cpu_id := - 1, t_stack := kstack, t_user_stack := ustack, t_is_user := True,
                       t_cr3 := 0, t_fd_table := replicate MAX_FD fd_zero, t_as := 0,
                       t_heap_start := 0, t_heap_brk := 0, t_heap_end := 0,
                       t_quantum := prio_quantum ! PRIO_NORMAL,
                       t_timeslice := prio_quantum ! PRIO_NORMAL,
                       t_func := entry, t_arg := arg\<rparr>) name) s;
                     s = task_init_stack_user env (Slot slot) s
                 in Some (int slot, push_level PRIO_NORMAL (Slot slot) s)))"

definition sched_submit_user_as :: "sched_env \<Rightarrow> sched \<Rightarrow> u8 list \<Rightarrow> nat \<Rightarrow> nat \<Rightarrow> nat \<Rightarrow> nat \<Rightarrow>
    (int \<times> sched) option" where
  "sched_submit_user_as env s name entry arg cr3 user_stack_top =
     (if entry = 0 \<or> cr3 = 0 then Some (- 1, s)
      else case find_free_slot s of
        (None, s) \<Rightarrow> Some (- 1, s)
      | (Some slot, s) \<Rightarrow>
          (case kmalloc (s_mem s) TASK_STACK_SZ True False of
             None \<Rightarrow> None
           | Some (kstack, _, mem) \<Rightarrow>
               let s = s\<lparr>s_mem := mem\<rparr> in
               if kstack = 0 then Some (- 1, s)
               else
                 let s = upd_task (Slot slot) (\<lambda>t. task_set_name (t\<lparr>
                       t_id := int slot, t_state := TASK_READY, t_priority := PRIO_NORMAL,
                       t_cpu_id := - 1, t_stack := kstack, t_user_stack := 0, t_is_user := True,
                       t_cr3 := cr3, t_fd_table := replicate MAX_FD fd_zero, t_as := 0,
                       t_heap_start := 0, t_heap_brk := 0, t_heap_end := 0,
                       t_quantum := prio_quantum ! PRIO_NORMAL,
                       t_timeslice := prio_quantum ! PRIO_NORMAL,
                       t_func := entry, t_arg := arg\<rparr>) name) s;
                     s = task_init_stack_user_as env (Slot slot) user_stack_top s
                 in Some (int slot, push_level PRIO_NORMAL (Slot slot) s)))"

subsection \<open>Ticks and switches\<close>

definition sched_tick :: "sched \<Rightarrow> sched" where
  "sched_tick s = (if scheduler_active s then s\<lparr>want_schedule := True\<rparr> else s)"

text \<open>\<open>--timeslice\<close> on \<open>uint32_t\<close>.\<close>

definition dec32 :: "nat \<Rightarrow> nat" where
  "dec32 n = (if n = 0 then 2 ^ 32 - 1 else n - 1)"

text \<open>The first non-empty level from \<open>p\<close> on.\<close>

function pick_next :: "sched \<Rightarrow> nat \<Rightarrow> (tref \<times> sched) option" where
  "pick_next s p =
     (if p < PRIO_LEVELS then
        if rq_size (rqs s ! p) > 0 then
          (case rq_pop (rqs s ! p) of
             None \<Rightarrow> None
           | Some (t, q) \<Rightarrow> Some (t, s\<lparr>rqs := (rqs s)[p := q]\<rparr>))
        else pick_next s (p + 1)
      else None)"
  by pat_completeness auto
termination
  by (relation "measure (\<lambda>(s, p). PRIO_LEVELS - p)") auto

declare pick_next.simps [simp del]

definition switch_to :: "tref \<Rightarrow> sched \<Rightarrow> nat \<times> sched" where
  "switch_to nxt s =
     (let t = get_task s nxt;
          s = (if t_is_user t then s\<lparr>tss_rsp0 := t_stack t + TASK_STACK_SZ\<rparr> else s);
          want_cr3 = (if t_cr3 t \<noteq> 0 then t_cr3 t else MASTER_CR3_PHYS);
          s = (if want_cr3 \<noteq> loaded_cr3 s then s\<lparr>loaded_cr3 := want_cr3\<rparr> else s);
          s = upd_task nxt (\<lambda>t. t\<lparr>t_state := TASK_RUNNING\<rparr>) (s\<lparr>cur_task := Some nxt\<rparr>)
      in (t_rsp (get_task s nxt), s))"

definition requeue :: "tref \<Rightarrow> sched \<Rightarrow> sched" where
  "requeue c s =
     push_level (t_priority (get_task s c)) c
       (upd_task c (\<lambda>t. t\<lparr>t_timeslice := t_quantum t, t_state := TASK_READY\<rparr>) s)"

definition sched_irq_end :: "sched \<Rightarrow> nat \<Rightarrow> nat \<times> sched" where
  "sched_irq_end s cur_rsp =
     (if \<not> scheduler_active s \<or> \<not> want_schedule s then (cur_rsp, s)
      else
        let s = s\<lparr>want_schedule := False\<rparr>;
            c = the (cur_task s);
            s = upd_task c (\<lambda>t. t\<lparr>t_rsp := cur_rsp\<rparr>) s;
            running = (c \<noteq> Idle \<and> t_state (get_task s c) = TASK_RUNNING);
            s = (if running then upd_task c (\<lambda>t. t\<lparr>t_timeslice := dec32 (t_timeslice t)\<rparr>) s else s)
        in if running \<and> t_timeslice (get_task s c) > 0 then (cur_rsp, s)
           else
             let s = (if running then requeue c s else s);
                 (nxt, s) = (case pick_next s 0 of None \<Rightarrow> (Idle, s) | Some r \<Rightarrow> r)
             in if nxt = c then (cur_rsp, upd_task c (\<lambda>t. t\<lparr>t_state := TASK_RUNNING\<rparr>) s)
                else switch_to nxt s)"

definition sched_kill_current :: "sched \<Rightarrow> sched" where
  "sched_kill_current s =
     (case cur_task s of
        None \<Rightarrow> s
      | Some c \<Rightarrow> if c \<noteq> Idle
          then (upd_task c (\<lambda>t. t\<lparr>t_state := TASK_DONE\<rparr>) s)\<lparr>want_schedule := True\<rparr> else s)"

definition sched_want_reschedule :: "sched \<Rightarrow> sched" where
  "sched_want_reschedule s =
     (let c = the (cur_task s);
          s = (if c \<noteq> Idle \<and> t_state (get_task s c) = TASK_RUNNING
               then upd_task c (\<lambda>t. t\<lparr>t_timeslice := 1\<rparr>) s else s)
      in s\<lparr>want_schedule := True\<rparr>)"

text \<open>\<open>sched_yield\<close> and \<open>sched_exit\<close> raise interrupt 0x20, whose epilogue is \<open>sched_irq_end\<close>.\<close>

definition sched_yield :: "sched \<Rightarrow> nat \<Rightarrow> nat \<times> sched" where
  "sched_yield s cur_rsp = sched_irq_end (sched_want_reschedule s) cur_rsp"

definition sched_exit :: "sched \<Rightarrow> nat \<Rightarrow> nat \<times> sched" where
  "sched_exit s cur_rsp =
     sched_irq_end ((upd_task (the (cur_task s)) (\<lambda>t. t\<lparr>t_state := TASK_DONE\<rparr>) s)\<lparr>want_schedule := True\<rparr>)
       cur_rsp"

definition sched_task_count :: "sched \<Rightarrow> nat" where
  "sched_task_count s = task_count s"

definition sched_get_task :: "sched \<Rightarrow> int \<Rightarrow> tref option" where
  "sched_get_task s idx = (if idx < 0 \<or> idx \<ge> int (task_count s) then None else Some (Slot (nat idx)))"

definition sched_current_task :: "sched \<Rightarrow> tref option" where
  "sched_current_task s = cur_task s"

definition sched_idle_task :: "sched \<Rightarrow> tref" where
  "sched_idle_task s = Idle"

definition sched_state_name :: "task_state \<Rightarrow> string" where
  "sched_state_name st = (case st of TASK_FREE \<Rightarrow> ''free'' | TASK_READY \<Rightarrow> ''ready''
     | TASK_RUNNING \<Rightarrow> ''running'' | TASK_BLOCKED \<Rightarrow> ''blocked'' | TASK_DONE \<Rightarrow> ''done'')"

end
