(* ===== verification/Sched_Inv.thy ===== *)
theory Sched_Inv
  imports Sched
begin

text \<open>
  The invariant of the scheduler (\<open>cpu/sched.c\<close>) and its step relation. A level's run queue holds
  exactly the \<open>READY\<close> slots of that priority, each once; at most one slot is \<open>RUNNING\<close> and it is the
  current task; the loaded page table and the ring-0 stack in the TSS are those of the current task.
  The steps are the operations of the scheduler as the interrupt handlers and the kernel call them.
\<close>

section \<open>Invariant\<close>

definition level :: "sched \<Rightarrow> nat \<Rightarrow> tref list" where
  "level s p = rq_items (rqs s ! p)"

definition ready_at :: "task list \<Rightarrow> nat \<Rightarrow> nat \<Rightarrow> tref set" where
  "ready_at pool n p = {Slot i | i. i < n \<and> t_state (pool ! i) = TASK_READY \<and> t_priority (pool ! i) = p}"

text \<open>A schedulable task has a valid level, the quantum of that level and a started timeslice.
  Nothing sets \<open>TASK_BLOCKED\<close>.\<close>

definition task_ok :: "task \<Rightarrow> bool" where
  "task_ok t \<longleftrightarrow> t_state t \<noteq> TASK_BLOCKED \<and>
     (t_state t \<in> {TASK_READY, TASK_RUNNING} \<longrightarrow>
        t_priority t < PRIO_LEVELS \<and> t_quantum t = prio_quantum ! t_priority t \<and>
        0 < t_timeslice t \<and> t_timeslice t \<le> t_quantum t)"

definition queue_inv :: "sched \<Rightarrow> bool" where
  "queue_inv s \<longleftrightarrow> length (task_pool s) = MAX_TASKS \<and> task_count s \<le> MAX_TASKS \<and>
     length (rqs s) = PRIO_LEVELS \<and> list_all rq_ok (rqs s) \<and> list_all task_ok (task_pool s) \<and>
     (\<forall>i. task_count s \<le> i \<and> i < MAX_TASKS \<longrightarrow> t_state (task_pool s ! i) = TASK_FREE) \<and>
     (\<forall>p < PRIO_LEVELS. distinct (level s p) \<and> set (level s p) = ready_at (task_pool s) (task_count s) p) \<and>
     t_cr3 (idle_task s) = 0 \<and> \<not> t_is_user (idle_task s) \<and> kmem_inv (s_mem s)"

definition cr3_of :: "task \<Rightarrow> nat" where
  "cr3_of t = (if t_cr3 t \<noteq> 0 then t_cr3 t else MASTER_CR3_PHYS)"

definition current_ok :: "sched \<Rightarrow> bool" where
  "current_ok s \<longleftrightarrow> (case cur_task s of
       None \<Rightarrow> False
     | Some c \<Rightarrow>
         (c = Idle \<or> (\<exists>i < task_count s. c = Slot i \<and> t_state (task_pool s ! i) \<in> {TASK_RUNNING, TASK_DONE})) \<and>
         (\<forall>i < MAX_TASKS. t_state (task_pool s ! i) = TASK_RUNNING \<longrightarrow> c = Slot i) \<and>
         loaded_cr3 s = cr3_of (get_task s c) \<and>
         (t_is_user (get_task s c) \<longrightarrow> tss_rsp0 s = t_stack (get_task s c) + TASK_STACK_SZ))"

definition sched_inv :: "sched \<Rightarrow> bool" where
  "sched_inv s \<longleftrightarrow> queue_inv s \<and> current_ok s"

section \<open>Slots and queues\<close>

lemma get_task_simps [simp]:
  "get_task s Idle = idle_task s" "get_task s (Slot i) = task_pool s ! i"
  by (simp_all add: get_task_def)

lemma upd_task_simps [simp]:
  "upd_task Idle f s = s\<lparr>idle_task := f (idle_task s)\<rparr>"
  "upd_task (Slot i) f s = s\<lparr>task_pool := (task_pool s)[i := f (task_pool s ! i)]\<rparr>"
  by (simp_all add: upd_task_def)

lemma ready_at_upd:
  assumes "i < length pool"
  shows "ready_at (pool[i := t]) n p =
    (if i < n \<and> t_state t = TASK_READY \<and> t_priority t = p then insert (Slot i) (ready_at pool n p)
     else ready_at pool n p - {Slot i})"
  using assms by (auto simp: ready_at_def nth_list_update)

text \<open>A change of a slot that is neither ready before nor after leaves the ready sets alone.\<close>

lemma ready_at_keep:
  "t_state (pool ! i) \<noteq> TASK_READY \<Longrightarrow> t_state t \<noteq> TASK_READY \<Longrightarrow> ready_at (pool[i := t]) n p = ready_at pool n p"
  by (cases "i < length pool") (auto simp: ready_at_def nth_list_update list_update_beyond)

lemma level_push:
  assumes "length (rqs s) = PRIO_LEVELS" "list_all rq_ok (rqs s)" "p < PRIO_LEVELS"
    "length (level s p) < MAX_TASKS"
  shows "level (push_level p t s) q = (if q = p then level s p @ [t] else level s q)"
    "list_all rq_ok (rqs (push_level p t s))"
proof -
  have ok: "rq_ok (rqs s ! p)" using assms by (simp add: list_all_length)
  have "rq_size (rqs s ! p) < MAX_TASKS" using assms(4) by (simp add: level_def rq_items_def)
  note push = rq_push_room [OF ok this, of t]
  show "level (push_level p t s) q = (if q = p then level s p @ [t] else level s q)"
    using assms(1,3) push(1) by (simp add: level_def push_level_def)
  show "list_all rq_ok (rqs (push_level p t s))"
    using assms(2) push(2) by (simp add: push_level_def list_all_iff) (metis set_update_subset_insert insert_iff subsetD)
qed

text \<open>A queue of distinct slots that misses one slot has room: \<open>rq_push\<close> never drops a task.\<close>

lemma level_has_room:
  assumes "queue_inv s" "p < PRIO_LEVELS" "i < MAX_TASKS" "Slot i \<notin> set (level s p)"
  shows "length (level s p) < MAX_TASKS"
proof -
  have d: "distinct (level s p)" and sub: "set (level s p) \<subseteq> Slot ` ({..< MAX_TASKS} - {i})"
    using assms by (auto simp: queue_inv_def ready_at_def)
  have "length (level s p) = card (set (level s p))" using d by (simp add: distinct_card)
  also have "\<dots> \<le> card (Slot ` ({..< MAX_TASKS} - {i}))" using sub by (intro card_mono) auto
  also have "\<dots> = MAX_TASKS - 1" using assms(3) by (subst card_image) (auto simp: inj_on_def)
  also have "\<dots> < MAX_TASKS" by (simp add: MAX_TASKS_def)
  finally show ?thesis .
qed

text \<open>Making a slot ready and queueing it at its level keeps the queues in order.\<close>

lemma queue_ready_inv:
  assumes inv: "queue_inv s" and i: "i < task_count s" and st: "t_state (task_pool s ! i) \<noteq> TASK_READY"
    and t: "t_state t = TASK_READY" "task_ok t"
  shows "queue_inv (push_level (t_priority t) (Slot i) (s\<lparr>task_pool := (task_pool s)[i := t]\<rparr>))"
    and "\<And>q. level (push_level (t_priority t) (Slot i) (s\<lparr>task_pool := (task_pool s)[i := t]\<rparr>)) q =
      (if q = t_priority t then level s q @ [Slot i] else level s q)"
proof -
  let ?s1 = "s\<lparr>task_pool := (task_pool s)[i := t]\<rparr>"
  let ?s = "push_level (t_priority t) (Slot i) ?s1"
  have p: "t_priority t < PRIO_LEVELS" using t by (simp add: task_ok_def)
  have len: "i < length (task_pool s)" "i < MAX_TASKS" using inv i by (auto simp: queue_inv_def)
  have new: "Slot i \<notin> set (level s q)" if "q < PRIO_LEVELS" for q
    using inv st that by (auto simp: queue_inv_def ready_at_def)
  have lev: "level ?s1 q = level s q" for q by (simp add: level_def)
  have lv: "level ?s q = (if q = t_priority t then level s q @ [Slot i] else level s q)" for q
    using level_push(1) [of ?s1 "t_priority t" "Slot i" q] level_has_room [OF inv p len(2) new [OF p]] inv p
    by (auto simp: lev queue_inv_def)
  show "\<And>q. level ?s q = (if q = t_priority t then level s q @ [Slot i] else level s q)" by (rule lv)
  have ok: "list_all rq_ok (rqs ?s)"
    using level_push(2) [of ?s1 "t_priority t" "Slot i"] level_has_room [OF inv p len(2) new [OF p]] inv p
    by (simp add: lev queue_inv_def)
  have "list_all task_ok (task_pool ?s)"
    using inv t(2) by (auto simp: queue_inv_def push_level_def list_all_iff dest!: set_update_subset_insert [THEN subsetD])
  moreover have "distinct (level ?s q) \<and> set (level ?s q) = ready_at (task_pool ?s) (task_count ?s) q"
    if "q < PRIO_LEVELS" for q
    using inv new [OF that] that i len t(1) st unfolding lv
    by (auto simp: queue_inv_def push_level_def ready_at_upd)
  moreover have "t_state (task_pool ?s ! j) = TASK_FREE" if "task_count s \<le> j" "j < MAX_TASKS" for j
    using inv that i by (simp add: queue_inv_def push_level_def)
  ultimately show "queue_inv ?s"
    using inv ok by (simp add: queue_inv_def push_level_def)
qed


section \<open>Dispatching\<close>

lemma level_nonempty: "level s p \<noteq> [] \<longleftrightarrow> rq_size (rqs s ! p) > 0"
  by (simp add: level_def rq_items_def ring_items_def)

text \<open>The search returns the head of the first non-empty level.\<close>

lemma pick_next_spec:
  assumes "length (rqs s) = PRIO_LEVELS" "list_all rq_ok (rqs s)" "p \<le> PRIO_LEVELS"
  shows "case pick_next s p of
      None \<Rightarrow> \<forall>q. p \<le> q \<and> q < PRIO_LEVELS \<longrightarrow> level s q = []
    | Some (t, s') \<Rightarrow> \<exists>q rest. p \<le> q \<and> q < PRIO_LEVELS \<and> level s q = t # rest \<and>
        (\<forall>r. p \<le> r \<and> r < q \<longrightarrow> level s r = []) \<and>
        (\<exists>rq. rq_ok rq \<and> rq_items rq = rest \<and> s' = s\<lparr>rqs := (rqs s)[q := rq]\<rparr>)"
  using assms
proof (induction s p rule: pick_next.induct)
  case (1 s p)
  show ?case
  proof (cases "p < PRIO_LEVELS \<and> rq_size (rqs s ! p) = 0")
    case True
    then have e: "pick_next s p = pick_next s (p + 1)" by (subst pick_next.simps) auto
    have l: "level s p = []" using True level_nonempty [of s p] by auto
    have "\<forall>q. p \<le> q \<longleftrightarrow> q = p \<or> p + 1 \<le> q" by auto
    then show ?thesis
      using "1.IH" "1.prems" True e l
      by (auto split: option.splits prod.splits)
  next
    case F: False
    show ?thesis
    proof (cases "p < PRIO_LEVELS")
      case True
      then have sz: "0 < rq_size (rqs s ! p)" and ok: "rq_ok (rqs s ! p)"
        using F "1.prems" by (auto simp: list_all_length)
      then obtain t q where tq: "rq_pop (rqs s ! p) = Some (t, q)" by (auto simp: rq_pop_def)
      have "pick_next s p = Some (t, s\<lparr>rqs := (rqs s)[p := q]\<rparr>)"
        using True sz tq by (subst pick_next.simps) simp
      moreover have "level s p = t # rq_items q" "rq_ok q"
        using rq_pop_some [OF ok tq] by (simp_all add: level_def)
      ultimately show ?thesis using True by (auto intro!: exI [of _ p])
    next
      case False
      then show ?thesis using "1.prems" by (subst pick_next.simps) auto
    qed
  qed
qed

text \<open>The task that the queues \<open>lv\<close> select: the head of the first non-empty level.\<close>

definition first_of :: "(nat \<Rightarrow> tref list) \<Rightarrow> tref" where
  "first_of lv = (case concat (map lv [0 ..< PRIO_LEVELS]) of [] \<Rightarrow> Idle | t # _ \<Rightarrow> t)"

definition pop_first :: "(nat \<Rightarrow> tref list) \<Rightarrow> nat \<Rightarrow> tref list" where
  "pop_first lv q = (if lv q \<noteq> [] \<and> (\<forall>r < q. lv r = []) then tl (lv q) else lv q)"

lemma concat_first:
  assumes "q < n" "lv q = t # rest" "\<forall>r < q. lv r = []"
  shows "\<exists>xs. concat (map lv [0 ..< n]) = t # xs"
proof -
  have "[0 ..< n] = [0 ..< q] @ q # [Suc q ..< n]"
    using assms(1) by (metis le_add_same_cancel1 less_imp_le upt_add_eq_append upt_conv_Cons zero_le le_add_diff_inverse)
  moreover have "concat (map lv [0 ..< q]) = []" using assms(3) by simp
  ultimately show ?thesis using assms(2) by (simp del: concat_eq_Nil_conv)
qed

lemma upd_state_ok: "task_ok t \<Longrightarrow> t_state t = TASK_READY \<Longrightarrow> task_ok (t\<lparr>t_state := TASK_RUNNING\<rparr>)"
  by (simp add: task_ok_def)

text \<open>The dispatch: on queues in order, with no slot marked as running, the selected task leaves its
  queue and runs.\<close>

definition dispatched :: "sched \<Rightarrow> tref \<Rightarrow> sched \<Rightarrow> bool" where
  "dispatched s nxt s' \<longleftrightarrow> nxt = first_of (level s) \<and>
     queue_inv (upd_task nxt (\<lambda>t. t\<lparr>t_state := TASK_RUNNING\<rparr>) s') \<and>
     (\<forall>q < PRIO_LEVELS. level s' q = pop_first (level s) q) \<and>
     (\<exists>q. s' = s\<lparr>rqs := q\<rparr>) \<and>
     (\<forall>i. nxt = Slot i \<longrightarrow> i < task_count s \<and> t_state (task_pool s ! i) = TASK_READY)"

lemma pop_first_here:
  "lv q = t # rest \<Longrightarrow> \<forall>r < q. lv r = [] \<Longrightarrow> pop_first lv r = (if r = q then rest else lv r)"
  by (auto simp: pop_first_def not_less_iff_gr_or_eq) (metis linorder_neqE_nat list.distinct(1))

lemma dispatch_some:
  assumes inv: "queue_inv s" and q: "q < PRIO_LEVELS" "level s q = t # rest" "\<forall>r < q. level s r = []"
    and rq: "rq_ok rq" "rq_items rq = rest"
  shows "dispatched s t (s\<lparr>rqs := (rqs s)[q := rq]\<rparr>)"
proof -
  let ?s = "s\<lparr>rqs := (rqs s)[q := rq]\<rparr>"
  have len: "length (rqs s) = PRIO_LEVELS" "length (task_pool s) = MAX_TASKS" "task_count s \<le> MAX_TASKS"
    using inv by (auto simp: queue_inv_def)
  have "set (level s q) = ready_at (task_pool s) (task_count s) q" using inv q(1) by (simp add: queue_inv_def)
  then have "t \<in> ready_at (task_pool s) (task_count s) q" using q(2) by auto
  then obtain i where i: "t = Slot i" "i < task_count s" "t_state (task_pool s ! i) = TASK_READY"
    "t_priority (task_pool s ! i) = q" by (auto simp: ready_at_def)
  have lv: "level ?s r = (if r = q then rest else level s r)" for r
    using q(1) len rq by (simp add: level_def)
  let ?t = "task_pool s ! i" and ?u = "upd_task t (\<lambda>t. t\<lparr>t_state := TASK_RUNNING\<rparr>) ?s"
  have "list_all task_ok (task_pool ?u)"
    using inv i len
    by (auto simp: queue_inv_def list_all_iff upd_state_ok dest!: set_update_subset_insert [THEN subsetD])
  moreover have "list_all rq_ok (rqs ?u)"
    using inv i rq(1)
    by (auto simp: queue_inv_def list_all_iff dest!: set_update_subset_insert [THEN subsetD])
  moreover have "distinct (level ?u r) \<and> set (level ?u r) = ready_at (task_pool ?u) (task_count ?u) r"
    if r: "r < PRIO_LEVELS" for r
  proof -
    have "level ?u r = level ?s r" using i by (simp add: level_def)
    moreover have "distinct (level s r)" "set (level s r) = ready_at (task_pool s) (task_count s) r"
      using inv r by (auto simp: queue_inv_def)
    moreover have "Slot i \<notin> ready_at (task_pool s) (task_count s) r" if "r \<noteq> q"
      using that i by (auto simp: ready_at_def)
    ultimately show ?thesis using q i len by (auto simp: lv ready_at_upd)
  qed
  ultimately have "queue_inv ?u"
    using inv i len by (auto simp: queue_inv_def nth_list_update)
  moreover have "t = first_of (level s)"
    using concat_first [OF q] by (auto simp: first_of_def)
  ultimately show ?thesis
    using i pop_first_here [of "level s", OF q(2,3)] by (auto simp: dispatched_def lv)
qed

lemma dispatch_spec:
  assumes inv: "queue_inv s"
  shows "dispatched s (fst (case pick_next s 0 of None \<Rightarrow> (Idle, s) | Some r \<Rightarrow> r))
    (snd (case pick_next s 0 of None \<Rightarrow> (Idle, s) | Some r \<Rightarrow> r))"
proof (cases "pick_next s 0")
  case None
  then have e: "level s q = []" if "q < PRIO_LEVELS" for q
    using pick_next_spec [of s 0] inv that by (auto simp: queue_inv_def)
  then have "concat (map (level s) [0 ..< PRIO_LEVELS]) = []" by simp
  moreover have "queue_inv (s\<lparr>idle_task := (idle_task s)\<lparr>t_state := TASK_RUNNING\<rparr>\<rparr>)"
    using inv by (simp add: queue_inv_def level_def)
  ultimately show ?thesis using None e
    by (auto simp: dispatched_def first_of_def pop_first_def intro: exI [of _ "rqs s"]
        simp del: concat_eq_Nil_conv)
next
  case (Some r)
  then obtain q rest rq where "q < PRIO_LEVELS" "level s q = fst r # rest" "\<forall>r < q. level s r = []"
    "rq_ok rq" "rq_items rq = rest" "snd r = s\<lparr>rqs := (rqs s)[q := rq]\<rparr>"
    using pick_next_spec [of s 0] inv by (cases r) (auto simp: queue_inv_def)
  with dispatch_some [OF inv, of q "fst r" rest rq] Some show ?thesis by simp
qed

section \<open>The interrupt epilogue\<close>

lemma queue_inv_other_fields [simp]:
  "queue_inv (s\<lparr>cur_task := c\<rparr>) = queue_inv s" "queue_inv (s\<lparr>loaded_cr3 := x\<rparr>) = queue_inv s"
  "queue_inv (s\<lparr>tss_rsp0 := x\<rparr>) = queue_inv s" "queue_inv (s\<lparr>want_schedule := b\<rparr>) = queue_inv s"
  "queue_inv (s\<lparr>scheduler_active := b\<rparr>) = queue_inv s"
  by (simp_all add: queue_inv_def level_def)

lemma current_ok_other_fields [simp]:
  "current_ok (s\<lparr>want_schedule := b\<rparr>) = current_ok s" "current_ok (s\<lparr>scheduler_active := b\<rparr>) = current_ok s"
  by (auto simp: current_ok_def get_task_def split: option.splits tref.splits)

lemma level_upd_task [simp]: "level (upd_task r f s) p = level s p"
  by (cases r) (simp_all add: level_def)

text \<open>A change of one task that neither makes it ready nor takes its readiness away.\<close>

lemma queue_inv_upd:
  assumes "queue_inv s" "t_state (task_pool s ! i) \<noteq> TASK_READY" "i < task_count s"
    "t_state t \<noteq> TASK_READY" "task_ok t"
  shows "queue_inv (s\<lparr>task_pool := (task_pool s)[i := t]\<rparr>)"
proof -
  have "list_all task_ok ((task_pool s)[i := t])"
    using assms by (auto simp: queue_inv_def list_all_iff dest!: set_update_subset_insert [THEN subsetD])
  then show ?thesis using assms by (auto simp: queue_inv_def level_def ready_at_keep)
qed

definition none_running :: "sched \<Rightarrow> bool" where
  "none_running s \<longleftrightarrow> (\<forall>i < MAX_TASKS. t_state (task_pool s ! i) \<noteq> TASK_RUNNING)"

lemma switch_inv:
  assumes d: "dispatched s nxt s'" and n: "none_running s" and len: "length (task_pool s) = MAX_TASKS"
    "task_count s \<le> MAX_TASKS"
  shows "sched_inv (snd (switch_to nxt s'))"
proof -
  have q: "queue_inv (upd_task nxt (\<lambda>t. t\<lparr>t_state := TASK_RUNNING\<rparr>) s')"
    and s': "\<exists>q. s' = s\<lparr>rqs := q\<rparr>" using d by (auto simp: dispatched_def)
  then have e: "task_pool s' = task_pool s" "task_count s' = task_count s" by auto
  show ?thesis
  proof (cases nxt)
    case Idle
    with q n e show ?thesis
      by (auto simp: switch_to_def sched_inv_def current_ok_def cr3_of_def none_running_def queue_inv_def level_def Let_def)
  next
    case (Slot i)
    then have i: "i < task_count s" using d by (auto simp: dispatched_def)
    have "queue_inv (snd (switch_to nxt s'))"
      using q Slot by (simp add: switch_to_def Let_def queue_inv_def level_def)
    moreover have "current_ok (snd (switch_to nxt s'))"
      using i n e len Slot by (auto simp: switch_to_def Let_def current_ok_def cr3_of_def none_running_def nth_list_update)
    ultimately show ?thesis by (simp add: sched_inv_def)
  qed
qed

lemma resume_inv:
  assumes d: "dispatched s c s'" and n: "none_running s" and len: "length (task_pool s) = MAX_TASKS"
    "task_count s \<le> MAX_TASKS" and c: "cur_task s = Some c" "loaded_cr3 s = cr3_of (get_task s c)"
    "t_is_user (get_task s c) \<longrightarrow> tss_rsp0 s = t_stack (get_task s c) + TASK_STACK_SZ"
  shows "sched_inv (upd_task c (\<lambda>t. t\<lparr>t_state := TASK_RUNNING\<rparr>) s')"
proof -
  have q: "queue_inv (upd_task c (\<lambda>t. t\<lparr>t_state := TASK_RUNNING\<rparr>) s')"
    and s': "\<exists>q. s' = s\<lparr>rqs := q\<rparr>" using d by (auto simp: dispatched_def)
  then have e: "task_pool s' = task_pool s" "task_count s' = task_count s" "cur_task s' = Some c"
    "loaded_cr3 s' = loaded_cr3 s" "idle_task s' = idle_task s" "tss_rsp0 s' = tss_rsp0 s" using c by auto
  show ?thesis
  proof (cases c)
    case Idle
    with q n e c show ?thesis
      by (auto simp: sched_inv_def current_ok_def cr3_of_def none_running_def)
  next
    case (Slot i)
    then have i: "i < task_count s" using d by (auto simp: dispatched_def)
    have "current_ok (upd_task c (\<lambda>t. t\<lparr>t_state := TASK_RUNNING\<rparr>) s')"
      using i n e len c Slot by (auto simp: current_ok_def cr3_of_def none_running_def nth_list_update)
    then show ?thesis using q by (simp add: sched_inv_def)
  qed
qed


text \<open>The epilogue in two branches: the quantum is not used up, or the current task leaves the
  processor and the dispatch follows.\<close>

definition leave :: "sched \<Rightarrow> tref \<Rightarrow> nat \<Rightarrow> sched" where
  "leave s c rsp =
     (let s = upd_task c (\<lambda>t. t\<lparr>t_rsp := rsp\<rparr>) (s\<lparr>want_schedule := False\<rparr>) in
      if c \<noteq> Idle \<and> t_state (get_task s c) = TASK_RUNNING
      then requeue c (upd_task c (\<lambda>t. t\<lparr>t_timeslice := dec32 (t_timeslice t)\<rparr>) s) else s)"

definition quantum_left :: "sched \<Rightarrow> tref \<Rightarrow> bool" where
  "quantum_left s c \<longleftrightarrow> c \<noteq> Idle \<and> t_state (get_task s c) = TASK_RUNNING \<and> 0 < dec32 (t_timeslice (get_task s c))"

lemma sched_irq_end_cases:
  assumes "scheduler_active s" "want_schedule s" "cur_task s = Some c"
    "\<And>i. c = Slot i \<Longrightarrow> i < length (task_pool s)"
  shows "sched_irq_end s rsp =
    (if quantum_left s c
     then (rsp, upd_task c (\<lambda>t. t\<lparr>t_rsp := rsp, t_timeslice := dec32 (t_timeslice t)\<rparr>) (s\<lparr>want_schedule := False\<rparr>))
     else let s1 = leave s c rsp; (nxt, s2) = (case pick_next s1 0 of None \<Rightarrow> (Idle, s1) | Some r \<Rightarrow> r)
       in if nxt = c then (rsp, upd_task c (\<lambda>t. t\<lparr>t_state := TASK_RUNNING\<rparr>) s2) else switch_to nxt s2)"
proof (cases c)
  case Idle
  then show ?thesis using assms by (simp add: sched_irq_end_def leave_def quantum_left_def Let_def split_def)
next
  case (Slot i)
  then show ?thesis using assms(1-3) assms(4) [of i]
    by (cases "t_state (task_pool s ! i) = TASK_RUNNING")
       (simp_all add: sched_irq_end_def leave_def quantum_left_def Let_def split_def)
qed

lemma prio_quantum_pos: "p < PRIO_LEVELS \<Longrightarrow> 0 < prio_quantum ! p"
  by (auto simp: prio_quantum_def PRIO_LEVELS_def less_Suc_eq eval_nat_numeral)

lemma current_cases:
  assumes "sched_inv s"
  obtains (idle) "cur_task s = Some Idle" "none_running s"
  | (running) i where "cur_task s = Some (Slot i)" "i < task_count s" "i < length (task_pool s)"
      "t_state (task_pool s ! i) = TASK_RUNNING" "task_ok (task_pool s ! i)"
      "\<And>j. j < MAX_TASKS \<Longrightarrow> j \<noteq> i \<Longrightarrow> t_state (task_pool s ! j) \<noteq> TASK_RUNNING"
  | (finished) i where "cur_task s = Some (Slot i)" "i < task_count s" "i < length (task_pool s)"
      "t_state (task_pool s ! i) = TASK_DONE" "none_running s"
proof -
  obtain c where c: "cur_task s = Some c"
    "c = Idle \<or> (\<exists>i < task_count s. c = Slot i \<and> t_state (task_pool s ! i) \<in> {TASK_RUNNING, TASK_DONE})"
    "\<forall>i < MAX_TASKS. t_state (task_pool s ! i) = TASK_RUNNING \<longrightarrow> c = Slot i"
    using assms by (auto simp: sched_inv_def current_ok_def split: option.splits)
  have q: "length (task_pool s) = MAX_TASKS" "task_count s \<le> MAX_TASKS" "list_all task_ok (task_pool s)"
    using assms by (auto simp: sched_inv_def queue_inv_def)
  show ?thesis
  proof (cases c)
    case Idle
    with c idle show ?thesis by (auto simp: none_running_def)
  next
    case (Slot i)
    then have i: "i < task_count s" "i < length (task_pool s)"
      "t_state (task_pool s ! i) = TASK_RUNNING \<or> t_state (task_pool s ! i) = TASK_DONE" using c q by auto
    from i(3) show ?thesis
    proof
      assume "t_state (task_pool s ! i) = TASK_RUNNING"
      with i c Slot q show ?thesis by (intro running [of i]) (auto simp: list_all_length)
    next
      assume "t_state (task_pool s ! i) = TASK_DONE"
      with i c Slot q show ?thesis by (intro finished [of i]) (auto simp: none_running_def)
    qed
  qed
qed

text \<open>What holds between leaving and dispatching.\<close>

definition between :: "sched \<Rightarrow> tref \<Rightarrow> sched \<Rightarrow> bool" where
  "between s c s1 \<longleftrightarrow> queue_inv s1 \<and> none_running s1 \<and> cur_task s1 = Some c \<and> loaded_cr3 s1 = loaded_cr3 s \<and>
     tss_rsp0 s1 = tss_rsp0 s \<and> task_count s1 = task_count s \<and>
     cr3_of (get_task s1 c) = cr3_of (get_task s c) \<and> t_is_user (get_task s1 c) = t_is_user (get_task s c) \<and>
     t_stack (get_task s1 c) = t_stack (get_task s c)"

lemma leave_idle:
  assumes inv: "sched_inv s" and c: "cur_task s = Some Idle" and n: "none_running s"
  shows "between s Idle (leave s Idle rsp)" "level (leave s Idle rsp) q = level s q"
  using inv c n
  by (auto simp: leave_def Let_def between_def queue_inv_def sched_inv_def level_def none_running_def cr3_of_def)

lemma leave_done:
  assumes inv: "sched_inv s" and c: "cur_task s = Some (Slot i)" and i: "i < task_count s" "i < length (task_pool s)"
    and st: "t_state (task_pool s ! i) = TASK_DONE" and n: "none_running s"
  shows "between s (Slot i) (leave s (Slot i) rsp)" "level (leave s (Slot i) rsp) q = level s q"
proof -
  let ?t = "(task_pool s ! i)\<lparr>t_rsp := rsp\<rparr>"
  have e: "leave s (Slot i) rsp = s\<lparr>task_pool := (task_pool s)[i := ?t], want_schedule := False\<rparr>"
    using i st by (simp add: leave_def Let_def)
  have "queue_inv (s\<lparr>task_pool := (task_pool s)[i := ?t]\<rparr>)"
    using inv i st by (intro queue_inv_upd) (auto simp: sched_inv_def task_ok_def)
  then show "between s (Slot i) (leave s (Slot i) rsp)"
    using i n c st unfolding e by (auto simp: between_def none_running_def nth_list_update cr3_of_def)
  show "level (leave s (Slot i) rsp) q = level s q" unfolding e by (simp add: level_def)
qed

lemma leave_running:
  assumes inv: "sched_inv s" and c: "cur_task s = Some (Slot i)" and i: "i < task_count s" "i < length (task_pool s)"
    and st: "t_state (task_pool s ! i) = TASK_RUNNING" "task_ok (task_pool s ! i)"
    and n: "\<And>j. j < MAX_TASKS \<Longrightarrow> j \<noteq> i \<Longrightarrow> t_state (task_pool s ! j) \<noteq> TASK_RUNNING"
  shows "between s (Slot i) (leave s (Slot i) rsp)"
    "level (leave s (Slot i) rsp) q =
      (if q = t_priority (task_pool s ! i) then level s q @ [Slot i] else level s q)"
proof -
  let ?t = "(task_pool s ! i)\<lparr>t_rsp := rsp, t_timeslice := t_quantum (task_pool s ! i), t_state := TASK_READY\<rparr>"
  let ?s = "s\<lparr>want_schedule := False\<rparr>"
  have e: "leave s (Slot i) rsp = push_level (t_priority ?t) (Slot i) (?s\<lparr>task_pool := (task_pool ?s)[i := ?t]\<rparr>)"
    using i st by (simp add: leave_def Let_def requeue_def)
  have t: "t_state ?t = TASK_READY" "task_ok ?t"
    using st by (auto simp: task_ok_def prio_quantum_pos)
  have q: "queue_inv ?s" "i < task_count ?s" "t_state (task_pool ?s ! i) \<noteq> TASK_READY"
    using inv i st by (auto simp: sched_inv_def)
  note r = queue_ready_inv [OF q t]
  have "level ?s = level s" by (simp add: level_def fun_eq_iff)
  then show "level (leave s (Slot i) rsp) q =
      (if q = t_priority (task_pool s ! i) then level s q @ [Slot i] else level s q)"
    unfolding e r(2) by simp
  show "between s (Slot i) (leave s (Slot i) rsp)"
    using r(1) i n c unfolding e
    by (auto simp: between_def none_running_def nth_list_update push_level_def cr3_of_def)
qed

lemma leave_between:
  assumes "sched_inv s" "cur_task s = Some c"
  shows "between s c (leave s c rsp)"
  using assms(1)
proof (cases rule: current_cases)
  case idle
  with assms leave_idle show ?thesis by auto
next
  case (running i)
  with assms leave_running(1) [OF assms(1) running(1-5)] show ?thesis by auto
next
  case (finished i)
  with assms leave_done(1) [OF assms(1) finished(1-5)] show ?thesis by auto
qed


lemma dec32_pos [simp]: "0 < n \<Longrightarrow> dec32 n = n - 1"
  by (simp add: dec32_def)

text \<open>The dispatch that follows \<open>leave\<close>, whatever the branch.\<close>

lemma irq_end_dispatch:
  assumes inv: "sched_inv s" and a: "scheduler_active s" "want_schedule s" and c: "cur_task s = Some c"
    and e: "\<not> quantum_left s c"
  obtains s2 where "dispatched (leave s c rsp) (first_of (level (leave s c rsp))) s2"
    "sched_irq_end s rsp = (if first_of (level (leave s c rsp)) = c
       then (rsp, upd_task c (\<lambda>t. t\<lparr>t_state := TASK_RUNNING\<rparr>) s2)
       else switch_to (first_of (level (leave s c rsp))) s2)"
proof -
  let ?s1 = "leave s c rsp"
  let ?r = "case pick_next ?s1 0 of None \<Rightarrow> (Idle, ?s1) | Some r \<Rightarrow> r"
  have b: "queue_inv ?s1" using leave_between [OF inv c] by (simp add: between_def)
  note d = dispatch_spec [OF b]
  then have f: "fst ?r = first_of (level ?s1)" by (simp add: dispatched_def)
  have i: "i < length (task_pool s)" if "c = Slot i" for i
    using inv that c by (cases rule: current_cases) auto
  show ?thesis
  proof (rule that [of "snd ?r"])
    show "dispatched ?s1 (first_of (level ?s1)) (snd ?r)" using d f by simp
    show "sched_irq_end s rsp = (if first_of (level ?s1) = c
       then (rsp, upd_task c (\<lambda>t. t\<lparr>t_state := TASK_RUNNING\<rparr>) (snd ?r))
       else switch_to (first_of (level ?s1)) (snd ?r))"
      using sched_irq_end_cases [OF a c i, of rsp] e f by (simp add: Let_def split_def)
  qed
qed

lemma irq_end_inv:
  assumes inv: "sched_inv s"
  shows "sched_inv (snd (sched_irq_end s rsp))"
proof (cases "scheduler_active s \<and> want_schedule s")
  case False
  then show ?thesis using inv by (simp add: sched_irq_end_def)
next
  case True
  obtain c where c: "cur_task s = Some c"
    "loaded_cr3 s = cr3_of (get_task s c)" "t_is_user (get_task s c) \<longrightarrow> tss_rsp0 s = t_stack (get_task s c) + TASK_STACK_SZ"
    using inv by (auto simp: sched_inv_def current_ok_def split: option.splits)
  show ?thesis
  proof (cases "quantum_left s c")
    case q: True
    then obtain i where i: "c = Slot i" "t_state (task_pool s ! i) = TASK_RUNNING" "0 < dec32 (t_timeslice (task_pool s ! i))"
      by (cases c) (auto simp: quantum_left_def)
    from inv show ?thesis
    proof (cases rule: current_cases)
      case (running j)
      let ?t = "(task_pool s ! i)\<lparr>t_rsp := rsp, t_timeslice := t_timeslice (task_pool s ! i) - 1\<rparr>"
      have j: "j = i" using running c i by simp
      have ts: "0 < t_timeslice (task_pool s ! i)" using running j by (simp add: task_ok_def)
      have e: "sched_irq_end s rsp = (rsp, s\<lparr>want_schedule := False, task_pool := (task_pool s)[i := ?t]\<rparr>)"
        using sched_irq_end_cases [of s c rsp] True c(1) q running j i ts by auto
      have "queue_inv (s\<lparr>task_pool := (task_pool s)[i := ?t]\<rparr>)"
        using running j inv i ts by (intro queue_inv_upd) (auto simp: sched_inv_def task_ok_def)
      then have "queue_inv (s\<lparr>want_schedule := False, task_pool := (task_pool s)[i := ?t]\<rparr>)"
        by (simp add: queue_inv_def level_def)
      moreover have "current_ok (s\<lparr>want_schedule := False, task_pool := (task_pool s)[i := ?t]\<rparr>)"
        using inv running j by (auto simp: sched_inv_def current_ok_def nth_list_update cr3_of_def)
      ultimately show ?thesis unfolding e by (simp add: sched_inv_def)
    qed (use c i in auto)
  next
    case q: False
    let ?s1 = "leave s c rsp"
    obtain s2 where d: "dispatched ?s1 (first_of (level ?s1)) s2"
      "sched_irq_end s rsp = (if first_of (level ?s1) = c
         then (rsp, upd_task c (\<lambda>t. t\<lparr>t_state := TASK_RUNNING\<rparr>) s2) else switch_to (first_of (level ?s1)) s2)"
      using irq_end_dispatch [OF inv _ _ c(1) q] True by blast
    have b: "between s c ?s1" using inv c(1) by (rule leave_between)
    then have l: "none_running ?s1" "length (task_pool ?s1) = MAX_TASKS" "task_count ?s1 \<le> MAX_TASKS"
      by (auto simp: between_def queue_inv_def)
    show ?thesis
    proof (cases "first_of (level ?s1) = c")
      case True
      with resume_inv [of ?s1 c s2] d l b c show ?thesis by (auto simp: between_def)
    next
      case False
      with switch_inv [OF d(1) l] d(2) show ?thesis by simp
    qed
  qed
qed

section \<open>Submitting\<close>

lemma kmem_inv_words [simp]: "kmem_inv (m\<lparr>km_words := w\<rparr>) = kmem_inv m"
  by (simp add: kmem_inv_def)

lemma queue_inv_grow:
  assumes inv: "queue_inv s" and n: "task_count s < MAX_TASKS"
  shows "queue_inv (s\<lparr>task_count := task_count s + 1\<rparr>)"
proof -
  have "t_state (task_pool s ! task_count s) = TASK_FREE" using inv n by (simp add: queue_inv_def)
  then have "ready_at (task_pool s) (Suc (task_count s)) p = ready_at (task_pool s) (task_count s) p" for p
    by (auto simp: ready_at_def less_Suc_eq)
  then show ?thesis using inv n by (simp add: queue_inv_def level_def)
qed

text \<open>The slot search returns a slot that no queue holds, or finds all 32 slots taken.\<close>

lemma find_free_slot_some:
  assumes inv: "queue_inv s" and f: "find_free_slot s = (Some i, s')"
  shows "queue_inv s' \<and> i < task_count s' \<and> i < MAX_TASKS \<and> slot_reusable (task_pool s ! i) \<and>
    (\<exists>n \<ge> task_count s. s' = s\<lparr>task_count := n\<rparr>)"
proof -
  let ?P = "\<lambda>i. \<not> slot_reusable (task_pool s ! i)"
  have q: "task_count s \<le> MAX_TASKS" using inv by (simp add: queue_inv_def)
  show ?thesis
  proof (cases "skip_while ?P 0 (task_count s) < task_count s")
    case True
    then show ?thesis using f inv q skip_while_stop [OF True]
      by (auto simp: find_free_slot_def Let_def intro: exI [of _ "task_count s"])
  next
    case False
    then have i: "i = task_count s" "s' = s\<lparr>task_count := task_count s + 1\<rparr>" "task_count s < MAX_TASKS"
      using f by (auto simp: find_free_slot_def Let_def split: if_splits)
    then have "t_state (task_pool s ! i) = TASK_FREE" using inv by (simp add: queue_inv_def)
    then show ?thesis using i queue_inv_grow [OF inv]
      by (auto simp: slot_reusable_def intro!: exI [of _ "Suc (task_count s)"])
  qed
qed

lemma find_free_slot_none:
  assumes f: "find_free_slot s = (None, s')"
  shows "s' = s" "MAX_TASKS \<le> task_count s" "\<forall>i < task_count s. \<not> slot_reusable (task_pool s ! i)"
proof -
  let ?P = "\<lambda>i. \<not> slot_reusable (task_pool s ! i)"
  show "s' = s" "MAX_TASKS \<le> task_count s"
    using f by (auto simp: find_free_slot_def Let_def split: if_splits)
  have "\<not> skip_while ?P 0 (task_count s) < task_count s"
    using f by (auto simp: find_free_slot_def Let_def split: if_splits)
  then show "\<forall>i < task_count s. \<not> slot_reusable (task_pool s ! i)"
    using skip_while_all [of 0 _ ?P "task_count s"] by auto
qed

text \<open>The current task has not finished: the situation of every caller of a submit operation,
  since a finished task never runs again.\<close>

definition current_alive :: "sched \<Rightarrow> bool" where
  "current_alive s \<longleftrightarrow> (\<forall>i. cur_task s = Some (Slot i) \<longrightarrow> t_state (task_pool s ! i) = TASK_RUNNING)"

lemma admit_inv:
  fixes u :: nat
  assumes inv: "sched_inv s" and al: "current_alive s" and f: "find_free_slot s = (Some i, s1)"
    and m: "kmem_inv mem" and t: "t_state t = TASK_READY" "task_ok t"
  defines "s2 \<equiv> push_level (t_priority t) (Slot i)
      (s1\<lparr>s_mem := mem, task_pool := (task_pool s1)[i := t], user_stack_next := u\<rparr>)"
  shows "sched_inv s2" "level s2 q = (if q = t_priority t then level s q @ [Slot i] else level s q)"
    "task_pool s2 = (task_pool s)[i := t]" "cur_task s2 = cur_task s"
proof -
  obtain n where n: "queue_inv s1" "i < task_count s1" "i < MAX_TASKS" "slot_reusable (task_pool s ! i)"
    "task_count s \<le> n" "s1 = s\<lparr>task_count := n\<rparr>"
    using find_free_slot_some [OF _ f] inv by (auto simp: sched_inv_def)
  have st: "t_state (task_pool s ! i) \<noteq> TASK_READY" "t_state (task_pool s ! i) \<noteq> TASK_RUNNING"
    using n(4) by (auto simp: slot_reusable_def)
  let ?s = "s1\<lparr>s_mem := mem, user_stack_next := u\<rparr>"
  have q: "queue_inv ?s" using n(1) m by (simp add: queue_inv_def level_def)
  have e: "s2 = push_level (t_priority t) (Slot i) (?s\<lparr>task_pool := (task_pool ?s)[i := t]\<rparr>)"
    unfolding s2_def by (intro arg_cong [where f = "push_level (t_priority t) (Slot i)"] sched.equality) simp_all
  have r: "queue_inv s2" "level s2 q' = (if q' = t_priority t then level ?s q' @ [Slot i] else level ?s q')" for q'
    using queue_ready_inv [OF q _ _ t, of i] n st unfolding e by auto
  have lv: "level ?s = level s" using n(6) by (simp add: level_def fun_eq_iff)
  show "level s2 q = (if q = t_priority t then level s q @ [Slot i] else level s q)" using r(2) lv by simp
  show "task_pool s2 = (task_pool s)[i := t]" "cur_task s2 = cur_task s" using n(6) by (simp_all add: s2_def push_level_def)
  have len: "length (task_pool s) = MAX_TASKS" using inv by (simp add: sched_inv_def queue_inv_def)
  have other: "cur_task s \<noteq> Some (Slot i)" using al st by (auto simp: current_alive_def)
  have run: "t_state ((task_pool s)[i := t] ! j) = TASK_RUNNING \<Longrightarrow> t_state (task_pool s ! j) = TASK_RUNNING" for j
    using t(1) n(3) len by (cases "j = i") auto
  have "current_ok s2"
    using inv other n(5,6) run unfolding s2_def sched_inv_def
    by (auto simp: current_ok_def push_level_def get_task_def split: option.splits tref.splits)
  with r(1) show "sched_inv s2" by (simp add: sched_inv_def)
qed


text \<open>The descriptor a submit operation writes into the slot, apart from the stack pointer.\<close>

definition fresh_task :: "task \<Rightarrow> nat \<Rightarrow> u8 list \<Rightarrow> nat \<Rightarrow> nat \<Rightarrow> nat \<Rightarrow> bool \<Rightarrow> nat \<Rightarrow> nat \<Rightarrow> nat \<Rightarrow> task" where
  "fresh_task old i name p stack ustack user cr3 func arg =
     \<lparr>t_rsp = t_rsp old, t_id = int i, t_name = set_name_from (t_name old) name 0, t_state = TASK_READY,
      t_priority = p, t_cpu_id = - 1, t_stack = stack, t_timeslice = prio_quantum ! p,
      t_quantum = prio_quantum ! p, t_func = func, t_arg = arg, t_is_user = user, t_user_stack = ustack,
      t_cr3 = cr3, t_fd_table = replicate MAX_FD fd_zero, t_as = 0, t_heap_start = 0, t_heap_brk = 0,
      t_heap_end = 0\<rparr>"

lemma fresh_task_fields [simp]:
  "t_state (fresh_task old i name p stack ustack user cr3 func arg) = TASK_READY"
  "t_priority (fresh_task old i name p stack ustack user cr3 func arg) = p"
  "t_stack (fresh_task old i name p stack ustack user cr3 func arg) = stack"
  "t_user_stack (fresh_task old i name p stack ustack user cr3 func arg) = ustack"
  "t_func (fresh_task old i name p stack ustack user cr3 func arg) = func"
  "t_arg (fresh_task old i name p stack ustack user cr3 func arg) = arg"
  by (simp_all add: fresh_task_def)

text \<open>The assignments of the code, in their order, build that descriptor.\<close>

lemma fresh_task_kernel:
  "task_set_name (old\<lparr>t_id := int i, t_state := TASK_READY, t_priority := p, t_cpu_id := - 1, t_stack := stack,
     t_is_user := False, t_user_stack := 0, t_cr3 := 0, t_fd_table := replicate MAX_FD fd_zero, t_as := 0,
     t_heap_start := 0, t_heap_brk := 0, t_heap_end := 0, t_quantum := prio_quantum ! p,
     t_timeslice := prio_quantum ! p, t_func := func, t_arg := arg\<rparr>) name =
   fresh_task old i name p stack 0 False 0 func arg"
  by (cases old) (simp add: task_set_name_def fresh_task_def)

lemma fresh_task_user:
  "task_set_name (old\<lparr>t_id := int i, t_state := TASK_READY, t_priority := p, t_cpu_id := - 1, t_stack := stack,
     t_user_stack := ustack, t_is_user := True, t_cr3 := cr3, t_fd_table := replicate MAX_FD fd_zero, t_as := 0,
     t_heap_start := 0, t_heap_brk := 0, t_heap_end := 0, t_quantum := prio_quantum ! p,
     t_timeslice := prio_quantum ! p, t_func := func, t_arg := arg\<rparr>) name =
   fresh_task old i name p stack ustack True cr3 func arg"
  by (cases old) (simp add: task_set_name_def fresh_task_def)

lemma fresh_task_ok: "p < PRIO_LEVELS \<Longrightarrow> task_ok ((fresh_task old i name p k u b c f a)\<lparr>t_rsp := r\<rparr>)"
  by (simp add: task_ok_def fresh_task_def prio_quantum_pos)

text \<open>One definition for the three submit operations after their argument checks: \<open>tk\<close> is the new
  descriptor (a function of slot, old occupant and stack), \<open>fr\<close> its first frame.\<close>

definition submit_with :: "sched \<Rightarrow> (nat \<Rightarrow> task \<Rightarrow> nat \<Rightarrow> task) \<Rightarrow> (nat \<Rightarrow> (nat \<Rightarrow> nat) \<Rightarrow> nat \<times> (nat \<Rightarrow> nat)) \<Rightarrow>
    nat \<Rightarrow> (int \<times> sched) option" where
  "submit_with s tk fr u =
     (case find_free_slot s of
        (None, s) \<Rightarrow> Some (- 1, s)
      | (Some i, s) \<Rightarrow>
          (case kmalloc (s_mem s) TASK_STACK_SZ True False of
             None \<Rightarrow> None
           | Some (stack, _, mem) \<Rightarrow>
               if stack = 0 then Some (- 1, s\<lparr>s_mem := mem\<rparr>)
               else let f = fr stack (km_words mem); t = (tk i (task_pool s ! i) stack)\<lparr>t_rsp := fst f\<rparr> in
                 Some (int i, push_level (t_priority t) (Slot i)
                   (s\<lparr>s_mem := mem\<lparr>km_words := snd f\<rparr>, task_pool := (task_pool s)[i := t], user_stack_next := u\<rparr>))))"

text \<open>The outcome: refused with nothing but \<open>task_count\<close> and the heap touched, or the new task sits
  in a reusable slot, owns a new stack region and is last in its level's queue.\<close>

definition enrolled :: "sched \<Rightarrow> sched \<Rightarrow> (nat \<Rightarrow> task \<Rightarrow> nat \<Rightarrow> task) \<Rightarrow> nat \<Rightarrow> nat \<Rightarrow> nat \<Rightarrow> nat \<Rightarrow> task \<Rightarrow> bool" where
  "enrolled s s' tk i stack raw l t \<longleftrightarrow> i < MAX_TASKS \<and> slot_reusable (task_pool s ! i) \<and> stack \<noteq> 0 \<and>
     kregions (s_mem s') = insert (raw, l) (kregions (s_mem s)) \<and> (raw, l) \<notin> kregions (s_mem s) \<and>
     raw \<le> stack \<and> stack + TASK_STACK_SZ \<le> raw + l \<and>
     (\<exists>rsp. t = (tk i (task_pool s ! i) stack)\<lparr>t_rsp := rsp\<rparr>) \<and> task_pool s' = (task_pool s)[i := t] \<and>
     (\<forall>q. level s' q = (if q = t_priority t then level s q @ [Slot i] else level s q)) \<and>
     cur_task s' = cur_task s"

definition submitted :: "sched \<Rightarrow> int \<Rightarrow> sched \<Rightarrow> (nat \<Rightarrow> task \<Rightarrow> nat \<Rightarrow> task) \<Rightarrow> bool" where
  "submitted s r s' tk \<longleftrightarrow>
     (if r = - 1 then (\<exists>n m. s' = s\<lparr>task_count := n, s_mem := m\<rparr>)
      else \<exists>i stack raw l t. r = int i \<and> enrolled s s' tk i stack raw l t)"

lemma submitted_refused: "submitted s (- 1) s tk"
  by (auto simp: submitted_def intro!: exI [of _ "task_count s"] exI [of _ "s_mem s"])

lemma sched_inv_mem: "sched_inv s \<Longrightarrow> kmem_inv m \<Longrightarrow> sched_inv (s\<lparr>s_mem := m\<rparr>)"
  by (auto simp: sched_inv_def queue_inv_def current_ok_def level_def get_task_def split: option.splits tref.splits)

lemma sched_inv_grow:
  assumes "sched_inv s" "find_free_slot s = (Some i, s1)"
  shows "sched_inv s1"
proof -
  obtain n where n: "queue_inv s1" "task_count s \<le> n" "s1 = s\<lparr>task_count := n\<rparr>"
    using find_free_slot_some [OF _ assms(2)] assms(1) by (auto simp: sched_inv_def)
  then show ?thesis using assms(1)
    by (auto simp: sched_inv_def current_ok_def get_task_def split: option.splits tref.splits)
qed

lemma kregions_words [simp]: "kregions (m\<lparr>km_words := w\<rparr>) = kregions m"
  by (simp add: kregions_def)

lemma stack_alloc:
  assumes "sched_inv s" "find_free_slot s = (Some i, s1)"
  obtains stack mem where "kmalloc (s_mem s1) TASK_STACK_SZ True False = Some (stack, None, mem)" "kmem_inv mem"
    "stack \<noteq> 0 \<Longrightarrow> \<exists>raw l. kregions mem = insert (raw, l) (kregions (s_mem s)) \<and> (raw, l) \<notin> kregions (s_mem s) \<and>
       raw \<le> stack \<and> stack + TASK_STACK_SZ \<le> raw + l"
proof -
  have m: "s_mem s1 = s_mem s" "kmem_inv (s_mem s)" "TASK_STACK_SZ + 0x2000 < 2 ^ 64"
    using find_free_slot_some [OF _ assms(2)] assms(1)
    by (auto simp: sched_inv_def queue_inv_def TASK_STACK_SZ_def)
  obtain p st' where a: "kmalloc (s_mem s) TASK_STACK_SZ True False = Some (p, None, st')" "kmem_inv st'"
    "p \<noteq> 0 \<Longrightarrow> \<exists>raw l. kregions st' = insert (raw, l) (kregions (s_mem s)) \<and> (raw, l) \<notin> kregions (s_mem s) \<and>
       raw + 8 \<le> p \<and> p + TASK_STACK_SZ \<le> raw + l"
    using kmalloc_spec [OF m(2,3), of True False] by (auto split: if_splits)
  have "\<exists>raw l. kregions st' = insert (raw, l) (kregions (s_mem s)) \<and> (raw, l) \<notin> kregions (s_mem s) \<and>
       raw \<le> p \<and> p + TASK_STACK_SZ \<le> raw + l" if "p \<noteq> 0"
    using a(3) [OF that] by (meson add_leD1)
  with a(1,2) m(1) show ?thesis by (intro that) auto
qed

lemma submit_with_spec:
  assumes inv: "sched_inv s" and al: "current_alive s"
    and tk: "\<And>i old stack rsp. t_state (tk i old stack) = TASK_READY"
      "\<And>i old stack rsp. task_ok ((tk i old stack)\<lparr>t_rsp := rsp\<rparr>)"
  obtains r s' where "submit_with s tk fr u = Some (r, s')" "sched_inv s'" "submitted s r s' tk"
proof (cases "fst (find_free_slot s)")
  case None
  then have f: "find_free_slot s = (None, s)" using find_free_slot_none(1) by (cases "find_free_slot s") auto
  then show ?thesis using inv
    by (intro that [of "- 1" s]) (simp_all add: submit_with_def submitted_refused)
next
  case (Some i)
  then obtain s1 where f: "find_free_slot s = (Some i, s1)" by (cases "find_free_slot s") auto
  obtain stack mem where k: "kmalloc (s_mem s1) TASK_STACK_SZ True False = Some (stack, None, mem)" "kmem_inv mem"
    "stack \<noteq> 0 \<Longrightarrow> \<exists>raw l. kregions mem = insert (raw, l) (kregions (s_mem s)) \<and> (raw, l) \<notin> kregions (s_mem s) \<and>
       raw \<le> stack \<and> stack + TASK_STACK_SZ \<le> raw + l"
    using stack_alloc [OF inv f] by metis
  obtain n where n: "i < MAX_TASKS" "slot_reusable (task_pool s ! i)" "s1 = s\<lparr>task_count := n\<rparr>"
    using find_free_slot_some [OF _ f] inv by (auto simp: sched_inv_def)
  show ?thesis
  proof (cases "stack = 0")
    case True
    have "submit_with s tk fr u = Some (- 1, s1\<lparr>s_mem := mem\<rparr>)" using f k True by (simp add: submit_with_def)
    moreover have "sched_inv (s1\<lparr>s_mem := mem\<rparr>)" using sched_inv_grow [OF inv f] k(2) by (rule sched_inv_mem)
    moreover have "submitted s (- 1) (s1\<lparr>s_mem := mem\<rparr>) tk" using n(3) by (auto simp: submitted_def)
    ultimately show ?thesis by (rule that)
  next
    case False
    define m' where "m' = mem\<lparr>km_words := snd (fr stack (km_words mem))\<rparr>"
    define t where "t = (tk i (task_pool s ! i) stack)\<lparr>t_rsp := fst (fr stack (km_words mem))\<rparr>"
    define s2 where "s2 = push_level (t_priority t) (Slot i)
        (s1\<lparr>s_mem := m', task_pool := (task_pool s1)[i := t], user_stack_next := u\<rparr>)"
    have res: "submit_with s tk fr u = Some (int i, s2)"
      using f k False n(3) by (simp add: submit_with_def m'_def t_def s2_def Let_def)
    have "kmem_inv m'" "t_state t = TASK_READY" "task_ok t"
      using k(2) tk by (simp_all add: m'_def t_def)
    note a = admit_inv [OF inv al f this, of u, folded s2_def]
    obtain raw l where r: "kregions mem = insert (raw, l) (kregions (s_mem s))" "(raw, l) \<notin> kregions (s_mem s)"
      "raw \<le> stack" "stack + TASK_STACK_SZ \<le> raw + l" using k(3) False by blast
    have "kregions (s_mem s2) = kregions mem" by (simp add: s2_def push_level_def m'_def)
    then have "enrolled s s2 tk i stack raw l t"
      using n(1,2) False r a(2-4) t_def unfolding enrolled_def by (metis (no_types))
    then have "submitted s (int i) s2 tk" unfolding submitted_def by auto
    with res a(1) show ?thesis by (intro that)
  qed
qed

lemma submit_with_cong:
  assumes inv: "sched_inv s"
    and body: "\<And>i n stack mem. i < length (task_pool s) \<Longrightarrow> stack \<noteq> 0 \<Longrightarrow> body i stack (s\<lparr>task_count := n, s_mem := mem\<rparr>) =
      Some (int i, let f = fr stack (km_words mem); t = (tk i (task_pool s ! i) stack)\<lparr>t_rsp := fst f\<rparr> in
        push_level (t_priority t) (Slot i) (s\<lparr>task_count := n, s_mem := mem\<lparr>km_words := snd f\<rparr>,
          task_pool := (task_pool s)[i := t], user_stack_next := u\<rparr>))"
  shows "(case find_free_slot s of
        (None, s) \<Rightarrow> Some (- 1, s)
      | (Some i, s) \<Rightarrow>
          (case kmalloc (s_mem s) TASK_STACK_SZ True False of
             None \<Rightarrow> None
           | Some (stack, _, mem) \<Rightarrow>
               let s = s\<lparr>s_mem := mem\<rparr> in if stack = 0 then Some (- 1, s) else body i stack s)) = submit_with s tk fr u"
proof (cases "find_free_slot s")
  case (Pair r s1)
  show ?thesis
  proof (cases r)
    case None
    with Pair show ?thesis by (simp add: submit_with_def)
  next
    case (Some i)
    then obtain n where "i < MAX_TASKS" "s1 = s\<lparr>task_count := n\<rparr>" "length (task_pool s) = MAX_TASKS"
      using find_free_slot_some [of s i s1] inv Pair by (auto simp: sched_inv_def queue_inv_def)
    with Pair Some body [of i] show ?thesis
      by (auto simp: submit_with_def Let_def split: option.splits)
  qed
qed

lemma submit_prio_with:
  assumes inv: "sched_inv s" and ok: "func \<noteq> 0" "p < PRIO_LEVELS"
  shows "sched_submit_prio env s name func arg p =
    submit_with s (\<lambda>i old stack. fresh_task old i name p stack 0 False 0 func arg)
      (\<lambda>stack m. frame_build m (stack + TASK_STACK_SZ) (task_trampoline env) GDT_KERNEL_CS GDT_KERNEL_DS
        (stack + TASK_STACK_SZ) 0 0) (user_stack_next s)"
proof -
  from ok have g: "\<not> (func = 0 \<or> PRIO_LEVELS \<le> p)" by auto
  show ?thesis
    unfolding sched_submit_prio_def if_not_P [OF g]
    by (rule submit_with_cong [OF inv])
       (simp add: task_init_stack_def set_frame_def fresh_task_kernel Let_def)
qed

lemma submit_user_with:
  assumes inv: "sched_inv s" and ok: "entry \<noteq> 0" "user_stack_next s < MAX_USER_TASKS"
  shows "sched_submit_user env s name entry arg =
    submit_with s (\<lambda>i old stack. fresh_task old i name PRIO_NORMAL stack
        (user_stack_pool env + user_stack_next s * USER_STACK_SZ) True 0 entry arg)
      (\<lambda>stack m. frame_build m (stack + TASK_STACK_SZ) (user_task_trampoline env) (GDT_USER_CS OR 3) (GDT_USER_DS OR 3)
        (user_stack_pool env + user_stack_next s * USER_STACK_SZ + USER_STACK_SZ) entry arg) (user_stack_next s + 1)"
proof -
  from ok have g: "\<not> entry = 0" "\<not> MAX_USER_TASKS \<le> user_stack_next s" by auto
  show ?thesis
    unfolding sched_submit_user_def if_not_P [OF g(1)] if_not_P [OF g(2)]
    by (rule submit_with_cong [OF inv])
       (simp add: task_init_stack_user_def set_frame_def fresh_task_user Let_def,
        rule arg_cong2 [where f = "push_level PRIO_NORMAL", OF refl], rule sched.equality, simp_all)
qed

lemma submit_user_as_with:
  assumes inv: "sched_inv s" and ok: "entry \<noteq> 0" "cr3 \<noteq> 0"
  shows "sched_submit_user_as env s name entry arg cr3 ustack_top =
    submit_with s (\<lambda>i old stack. fresh_task old i name PRIO_NORMAL stack 0 True cr3 entry arg)
      (\<lambda>stack m. frame_build m (stack + TASK_STACK_SZ) (user_task_trampoline env) (GDT_USER_CS OR 3) (GDT_USER_DS OR 3)
        ustack_top entry arg) (user_stack_next s)"
proof -
  from ok have g: "\<not> (entry = 0 \<or> cr3 = 0)" by auto
  show ?thesis
    unfolding sched_submit_user_as_def if_not_P [OF g]
    by (rule submit_with_cong [OF inv])
       (simp add: task_init_stack_user_as_def set_frame_def fresh_task_user Let_def)
qed


lemma prio_normal_valid: "PRIO_NORMAL < PRIO_LEVELS"
  by (simp add: PRIO_NORMAL_def PRIO_LEVELS_def)

lemma submit_prio_spec:
  assumes inv: "sched_inv s" "current_alive s"
  obtains r s' where "sched_submit_prio env s name func arg p = Some (r, s')" "sched_inv s'"
    "submitted s r s' (\<lambda>i old stack. fresh_task old i name p stack 0 False 0 func arg)"
proof (cases "func = 0 \<or> PRIO_LEVELS \<le> p")
  case True
  then show ?thesis using inv
    by (intro that [of "- 1" s]) (auto simp: sched_submit_prio_def submitted_refused)
next
  case False
  then have ok: "func \<noteq> 0" "p < PRIO_LEVELS" by auto
  note t = that [unfolded submit_prio_with [OF inv(1) ok]]
  show ?thesis by (rule submit_with_spec [OF inv _ _ t]) (simp_all add: fresh_task_ok ok)
qed

lemma submit_user_spec:
  assumes inv: "sched_inv s" "current_alive s"
  obtains r s' where "sched_submit_user env s name entry arg = Some (r, s')" "sched_inv s'"
    "submitted s r s' (\<lambda>i old stack. fresh_task old i name PRIO_NORMAL stack
        (user_stack_pool env + user_stack_next s * USER_STACK_SZ) True 0 entry arg)"
proof (cases "entry = 0 \<or> MAX_USER_TASKS \<le> user_stack_next s")
  case True
  then show ?thesis using inv
    by (intro that [of "- 1" s]) (auto simp: sched_submit_user_def submitted_refused)
next
  case False
  then have ok: "entry \<noteq> 0" "user_stack_next s < MAX_USER_TASKS" by auto
  note t = that [unfolded submit_user_with [OF inv(1) ok]]
  show ?thesis by (rule submit_with_spec [OF inv _ _ t]) (simp_all add: fresh_task_ok prio_normal_valid)
qed

lemma submit_user_as_spec:
  assumes inv: "sched_inv s" "current_alive s"
  obtains r s' where "sched_submit_user_as env s name entry arg cr3 utop = Some (r, s')" "sched_inv s'"
    "submitted s r s' (\<lambda>i old stack. fresh_task old i name PRIO_NORMAL stack 0 True cr3 entry arg)"
proof (cases "entry = 0 \<or> cr3 = 0")
  case True
  then show ?thesis using inv
    by (intro that [of "- 1" s]) (auto simp: sched_submit_user_as_def submitted_refused)
next
  case False
  then have ok: "entry \<noteq> 0" "cr3 \<noteq> 0" by auto
  note t = that [unfolded submit_user_as_with [OF inv(1) ok]]
  show ?thesis by (rule submit_with_spec [OF inv _ _ t]) (simp_all add: fresh_task_ok prio_normal_valid)
qed

section \<open>Killing, yielding, exiting\<close>

lemma tick_inv: "sched_inv s \<Longrightarrow> sched_inv (sched_tick s)"
  by (simp add: sched_tick_def sched_inv_def)

lemma run_inv: "sched_inv s \<Longrightarrow> sched_inv (sched_run s)"
  by (simp add: sched_run_def sched_inv_def)

text \<open>Marking the current slot as finished.\<close>

lemma mark_done_inv:
  assumes inv: "sched_inv s" and c: "cur_task s = Some (Slot i)"
  shows "sched_inv (upd_task (Slot i) (\<lambda>t. t\<lparr>t_state := TASK_DONE\<rparr>) s)"
proof -
  let ?t = "(task_pool s ! i)\<lparr>t_state := TASK_DONE\<rparr>"
  have i: "i < task_count s" "i < length (task_pool s)" "t_state (task_pool s ! i) \<noteq> TASK_READY"
    "\<And>j. j < MAX_TASKS \<Longrightarrow> j \<noteq> i \<Longrightarrow> t_state (task_pool s ! j) \<noteq> TASK_RUNNING"
    using inv c by (cases rule: current_cases; auto simp: none_running_def)+
  have "queue_inv (s\<lparr>task_pool := (task_pool s)[i := ?t]\<rparr>)"
    using inv i by (intro queue_inv_upd) (auto simp: sched_inv_def task_ok_def)
  moreover have "current_ok (s\<lparr>task_pool := (task_pool s)[i := ?t]\<rparr>)"
    using inv i c by (auto simp: sched_inv_def current_ok_def nth_list_update cr3_of_def)
  ultimately show ?thesis by (simp add: sched_inv_def)
qed

lemma sched_inv_want [simp]: "sched_inv (s\<lparr>want_schedule := b\<rparr>) = sched_inv s"
  by (simp add: sched_inv_def)

lemma kill_inv:
  assumes "sched_inv s"
  shows "sched_inv (sched_kill_current s)"
proof (cases "cur_task s")
  case (Some c)
  then show ?thesis using assms mark_done_inv [OF assms] by (cases c) (simp_all add: sched_kill_current_def)
qed (simp add: sched_kill_current_def assms)

lemma want_reschedule_inv:
  assumes inv: "sched_inv s"
  shows "sched_inv (sched_want_reschedule s)"
  using inv
proof (cases rule: current_cases)
  case (running i)
  let ?t = "(task_pool s ! i)\<lparr>t_timeslice := 1\<rparr>"
  have "queue_inv (s\<lparr>task_pool := (task_pool s)[i := ?t]\<rparr>)"
    using inv running by (intro queue_inv_upd) (auto simp: sched_inv_def task_ok_def prio_quantum_pos Suc_leI)
  moreover have "current_ok (s\<lparr>task_pool := (task_pool s)[i := ?t]\<rparr>)"
    using inv running by (auto simp: sched_inv_def current_ok_def nth_list_update cr3_of_def)
  ultimately have "sched_inv (s\<lparr>task_pool := (task_pool s)[i := ?t]\<rparr>)" by (simp add: sched_inv_def)
  then have "sched_inv (s\<lparr>task_pool := (task_pool s)[i := ?t], want_schedule := True\<rparr>)" by simp
  then show ?thesis using running by (simp add: sched_want_reschedule_def Let_def)
qed (use inv in \<open>simp_all add: sched_want_reschedule_def Let_def\<close>)

lemma yield_inv: "sched_inv s \<Longrightarrow> sched_inv (snd (sched_yield s rsp))"
  unfolding sched_yield_def by (intro irq_end_inv want_reschedule_inv)

lemma exit_inv:
  assumes "sched_inv s" "cur_task s = Some (Slot i)"
  shows "sched_inv (snd (sched_exit s rsp))"
  unfolding sched_exit_def assms(2) option.sel
  by (intro irq_end_inv) (use mark_done_inv [OF assms] in simp)

section \<open>Steps\<close>

inductive sched_step :: "sched_env \<Rightarrow> sched \<Rightarrow> sched \<Rightarrow> bool" for env where
  start: "sched_step env s (sched_run s)"
| submit_prio: "current_alive s \<Longrightarrow> sched_submit_prio env s name func arg p = Some (r, s') \<Longrightarrow> sched_step env s s'"
| submit_user: "current_alive s \<Longrightarrow> sched_submit_user env s name func arg = Some (r, s') \<Longrightarrow> sched_step env s s'"
| submit_user_as: "current_alive s \<Longrightarrow> sched_submit_user_as env s name func arg cr3 utop = Some (r, s') \<Longrightarrow>
    sched_step env s s'"
| tick: "sched_step env s (sched_tick s)"
| irq_end: "sched_irq_end s rsp = (rsp', s') \<Longrightarrow> sched_step env s s'"
| kill: "sched_step env s (sched_kill_current s)"
| want: "sched_step env s (sched_want_reschedule s)"
| yield: "sched_yield s rsp = (rsp', s') \<Longrightarrow> sched_step env s s'"
| exit: "cur_task s = Some (Slot i) \<Longrightarrow> sched_exit s rsp = (rsp', s') \<Longrightarrow> sched_step env s s'"

text \<open>The state at boot: zeroed tables (\<open>.bss\<close>), the boot page table loaded.\<close>

definition sched_boot :: "sched \<Rightarrow> bool" where
  "sched_boot s \<longleftrightarrow> length (task_pool s) = MAX_TASKS \<and> task_count s = 0 \<and>
     rqs s = replicate PRIO_LEVELS \<lparr>rq_buf = replicate MAX_TASKS Idle, rq_head = 0, rq_tail = 0, rq_size = 0\<rparr> \<and>
     t_cr3 (idle_task s) = 0 \<and> \<not> t_is_user (idle_task s) \<and> loaded_cr3 s = MASTER_CR3_PHYS \<and> kmem_inv (s_mem s)"

inductive sched_reach :: "sched_env \<Rightarrow> sched \<Rightarrow> bool" for env where
  boot: "sched_boot s \<Longrightarrow> sched_reach env (sched_init s)"
| step: "sched_reach env s \<Longrightarrow> sched_step env s s' \<Longrightarrow> sched_reach env s'"

lemma init_inv:
  assumes "sched_boot s"
  shows "sched_inv (sched_init s)"
proof -
  let ?s = "sched_init s"
  have lv: "level ?s p = []" if "p < PRIO_LEVELS" for p
    using assms that by (simp add: sched_boot_def sched_init_def level_def rq_items_def ring_items_def)
  have "list_all task_ok (task_pool ?s)" by (simp add: sched_init_def list_all_iff task_ok_def)
  moreover have "list_all rq_ok (rqs ?s)"
    using assms by (simp add: sched_boot_def sched_init_def list_all_iff rq_ok_def MAX_TASKS_def)
  ultimately have "queue_inv ?s"
    using assms lv unfolding queue_inv_def by (auto simp: sched_boot_def sched_init_def ready_at_def)
  moreover have "current_ok ?s" using assms by (simp add: sched_boot_def sched_init_def current_ok_def cr3_of_def)
  ultimately show ?thesis by (simp add: sched_inv_def)
qed

lemma step_inv:
  assumes "sched_step env s s'" "sched_inv s"
  shows "sched_inv s'"
  using assms
proof (cases rule: sched_step.cases)
  case (submit_prio name func arg p r)
  with submit_prio_spec [OF assms(2) submit_prio(1)] show ?thesis by (metis option.inject prod.inject)
next
  case (submit_user name func arg r)
  with submit_user_spec [OF assms(2) submit_user(1)] show ?thesis by (metis option.inject prod.inject)
next
  case (submit_user_as name func arg cr3 utop r)
  with submit_user_as_spec [OF assms(2) submit_user_as(1)] show ?thesis by (metis option.inject prod.inject)
next
  case (irq_end rsp rsp')
  with irq_end_inv [OF assms(2), of rsp] show ?thesis by simp
next
  case (yield rsp rsp')
  with yield_inv [OF assms(2), of rsp] show ?thesis by simp
next
  case (exit i rsp rsp')
  with exit_inv [OF assms(2), of i rsp] show ?thesis by simp
qed (use assms(2) tick_inv run_inv kill_inv want_reschedule_inv in auto)

end
