(* ===== verification/Sched_Props.thy ===== *)
theory Sched_Props
  imports Sched_Inv
begin

text \<open>
  The properties of the scheduler: the invariant of every reachable state, the refinement of the
  interrupt epilogue to an abstract priority scheduler, round robin inside a level, exact quanta, the
  outcome of a submit call, and the first register frame of a task.
\<close>

section \<open>The abstract scheduler\<close>

text \<open>Its state is the current task and one FIFO list per level. A preemption puts a current task
  that can go on at the end of its level and takes the head of the first non-empty level.\<close>

type_synonym asched = "tref \<times> (nat \<Rightarrow> tref list)"

definition abs_sched :: "sched \<Rightarrow> asched" where
  "abs_sched s = (the (cur_task s), \<lambda>p. if p < PRIO_LEVELS then level s p else [])"

definition spec_preempt :: "nat option \<Rightarrow> asched \<Rightarrow> asched" where
  "spec_preempt rp a = (case a of (c, lv) \<Rightarrow>
     let lv' = (case rp of None \<Rightarrow> lv | Some p \<Rightarrow> lv(p := lv p @ [c])) in (first_of lv', pop_first lv'))"

definition runnable_prio :: "sched \<Rightarrow> nat option" where
  "runnable_prio s = (case the (cur_task s) of Idle \<Rightarrow> None
     | Slot i \<Rightarrow> if t_state (task_pool s ! i) = TASK_RUNNING then Some (t_priority (task_pool s ! i)) else None)"

lemma first_of_cong: "(\<And>p. p < PRIO_LEVELS \<Longrightarrow> lv p = lv' p) \<Longrightarrow> first_of lv = first_of lv'"
  unfolding first_of_def by (metis (no_types, lifting) atLeastLessThan_iff map_cong set_upt)

lemma pop_first_cong:
  "(\<And>p. p < PRIO_LEVELS \<Longrightarrow> lv p = lv' p) \<Longrightarrow> q < PRIO_LEVELS \<Longrightarrow> pop_first lv q = pop_first lv' q"
  by (auto simp: pop_first_def)

text \<open>The abstract queues after the current task has left.\<close>

lemma leave_abs:
  assumes inv: "sched_inv s" and c: "cur_task s = Some c"
  shows "(\<lambda>p. if p < PRIO_LEVELS then level (leave s c rsp) p else []) =
    (case runnable_prio s of None \<Rightarrow> snd (abs_sched s) | Some p \<Rightarrow> (snd (abs_sched s))(p := snd (abs_sched s) p @ [c]))"
  using inv
proof (cases rule: current_cases)
  case idle
  with leave_idle(2) [OF inv] c show ?thesis by (auto simp: runnable_prio_def abs_sched_def)
next
  case (running i)
  have "t_priority (task_pool s ! i) < PRIO_LEVELS" using running by (simp add: task_ok_def)
  with running leave_running(2) [OF inv running(1-5)] c show ?thesis
    by (auto simp: runnable_prio_def abs_sched_def fun_eq_iff)
next
  case (finished i)
  with leave_done(2) [OF inv finished(1-5)] c show ?thesis by (auto simp: runnable_prio_def abs_sched_def)
qed

lemma switch_to_abs: "abs_sched (snd (switch_to nxt s)) = (nxt, snd (abs_sched s))"
  by (cases nxt) (auto simp: switch_to_def abs_sched_def level_def Let_def)

lemma dispatched_abs:
  assumes "dispatched s nxt s'"
  shows "snd (abs_sched s') = pop_first (\<lambda>p. if p < PRIO_LEVELS then level s p else [])"
    "nxt = first_of (\<lambda>p. if p < PRIO_LEVELS then level s p else [])"
proof -
  let ?lv = "\<lambda>p. if p < PRIO_LEVELS then level s p else []"
  have "level s' q = pop_first ?lv q" if "q < PRIO_LEVELS" for q
    using assms that pop_first_cong [of "level s" ?lv q] by (simp add: dispatched_def)
  moreover have "pop_first ?lv q = []" if "\<not> q < PRIO_LEVELS" for q using that by (simp add: pop_first_def)
  ultimately show "snd (abs_sched s') = pop_first ?lv" by (auto simp: abs_sched_def fun_eq_iff)
  show "nxt = first_of ?lv" using assms first_of_cong [of "level s" ?lv] by (simp add: dispatched_def)
qed

lemma irq_end_abs:
  assumes inv: "sched_inv s" and a: "scheduler_active s" "want_schedule s" and c: "cur_task s = Some c"
  shows "abs_sched (snd (sched_irq_end s rsp)) =
    (if quantum_left s c then abs_sched s else spec_preempt (runnable_prio s) (abs_sched s))"
proof (cases "quantum_left s c")
  case True
  have i: "i < length (task_pool s)" if "c = Slot i" for i using inv that c by (cases rule: current_cases) auto
  show ?thesis
    using sched_irq_end_cases [OF a c i, of rsp] True c by (cases c) (auto simp: abs_sched_def level_def)
next
  case False
  let ?s1 = "leave s c rsp"
  let ?lv = "\<lambda>p. if p < PRIO_LEVELS then level ?s1 p else []"
  obtain s2 where d: "dispatched ?s1 (first_of (level ?s1)) s2"
    "sched_irq_end s rsp = (if first_of (level ?s1) = c
       then (rsp, upd_task c (\<lambda>t. t\<lparr>t_state := TASK_RUNNING\<rparr>) s2) else switch_to (first_of (level ?s1)) s2)"
    using irq_end_dispatch [OF inv a c False] by blast
  note e = dispatched_abs [OF d(1)]
  have cur: "cur_task s2 = Some c"
    using d(1) leave_between [OF inv c, of rsp] by (auto simp: dispatched_def between_def)
  have "abs_sched (snd (sched_irq_end s rsp)) = (first_of ?lv, pop_first ?lv)"
  proof (cases "first_of (level ?s1) = c")
    case True
    have "abs_sched (upd_task c (\<lambda>t. t\<lparr>t_state := TASK_RUNNING\<rparr>) s2) = (c, snd (abs_sched s2))"
      using cur by (cases c) (auto simp: abs_sched_def level_def)
    with True d(2) e show ?thesis by simp
  next
    case False
    with d(2) e switch_to_abs show ?thesis by simp
  qed
  moreover have "fst (abs_sched s) = c" using c by (simp add: abs_sched_def)
  ultimately show ?thesis
    using False leave_abs [OF inv c, of rsp]
    by (auto simp: spec_preempt_def Let_def split: prod.split option.split)
qed


lemma irq_end_rsp:
  assumes inv: "sched_inv s" and a: "scheduler_active s" "want_schedule s" and c: "cur_task s = Some c"
  shows "fst (sched_irq_end s rsp) = (let s' = snd (sched_irq_end s rsp); c' = fst (abs_sched s') in
    if c' = c then rsp else t_rsp (get_task s' c'))"
proof (cases "quantum_left s c")
  case True
  have i: "i < length (task_pool s)" if "c = Slot i" for i using inv that c by (cases rule: current_cases) auto
  show ?thesis
    using sched_irq_end_cases [OF a c i, of rsp] True c by (cases c) (auto simp: abs_sched_def Let_def)
next
  case False
  let ?s1 = "leave s c rsp"
  obtain s2 where d: "dispatched ?s1 (first_of (level ?s1)) s2"
    "sched_irq_end s rsp = (if first_of (level ?s1) = c
       then (rsp, upd_task c (\<lambda>t. t\<lparr>t_state := TASK_RUNNING\<rparr>) s2) else switch_to (first_of (level ?s1)) s2)"
    using irq_end_dispatch [OF inv a c False] by blast
  have cur: "cur_task s2 = Some c"
    using d(1) leave_between [OF inv c, of rsp] by (auto simp: dispatched_def between_def)
  show ?thesis
  proof (cases "first_of (level ?s1) = c")
    case True
    with d(2) cur show ?thesis by (cases c) (simp_all add: abs_sched_def)
  next
    case False
    have "fst (switch_to n u) = t_rsp (get_task (snd (switch_to n u)) n)" for n u
      by (simp add: switch_to_def Let_def)
    with False d(2) switch_to_abs show ?thesis by (simp add: Let_def)
  qed
qed

section \<open>No task is lost\<close>

definition alive_slots :: "sched \<Rightarrow> nat set" where
  "alive_slots s = {i. i < MAX_TASKS \<and> t_state (task_pool s ! i) \<in> {TASK_READY, TASK_RUNNING}}"

lemma alive_slots_upd:
  assumes "t_state (task_pool s' ! i) \<in> {TASK_READY, TASK_RUNNING} \<longleftrightarrow>
      t_state (task_pool s ! i) \<in> {TASK_READY, TASK_RUNNING}"
    "\<And>j. j \<noteq> i \<Longrightarrow> task_pool s' ! j = task_pool s ! j"
  shows "alive_slots s' = alive_slots s"
  unfolding alive_slots_def using assms by (intro Collect_cong) metis

lemma count_list_distinct: "distinct xs \<Longrightarrow> count_list xs x = (if x \<in> set xs then 1 else 0)"
  by (induction xs) auto

lemma leave_alive:
  assumes inv: "sched_inv s" and c: "cur_task s = Some c"
  shows "alive_slots (leave s c rsp) = alive_slots s"
proof -
  have len: "length (task_pool s) = MAX_TASKS" using inv by (simp add: sched_inv_def queue_inv_def)
  show ?thesis
  proof (cases c)
    case Idle
    then show ?thesis by (simp add: leave_def Let_def alive_slots_def)
  next
    case (Slot i)
    have i: "i < length (task_pool s)" using inv c Slot by (cases rule: current_cases) auto
    show ?thesis
      by (rule alive_slots_upd [where i = i])
         (use Slot i len in \<open>auto simp: leave_def Let_def requeue_def push_level_def\<close>)
  qed
qed

lemma run_alive:
  assumes d: "dispatched s nxt s'" and len: "length (task_pool s) = MAX_TASKS" "task_count s \<le> MAX_TASKS"
  shows "alive_slots (snd (switch_to nxt s')) = alive_slots s"
    "alive_slots (upd_task nxt (\<lambda>t. t\<lparr>t_state := TASK_RUNNING\<rparr>) s') = alive_slots s"
proof -
  have e: "task_pool s' = task_pool s" using d by (auto simp: dispatched_def)
  have "alive_slots (snd (switch_to nxt s')) = alive_slots s \<and>
    alive_slots (upd_task nxt (\<lambda>t. t\<lparr>t_state := TASK_RUNNING\<rparr>) s') = alive_slots s"
  proof (cases nxt)
    case Idle
    then show ?thesis by (simp add: switch_to_def alive_slots_def Let_def e)
  next
    case (Slot i)
    then have i: "i < task_count s" "t_state (task_pool s ! i) = TASK_READY" using d by (auto simp: dispatched_def)
    show ?thesis
      by (intro conjI; rule alive_slots_upd [where i = i]) (use Slot i len e in \<open>auto simp: switch_to_def Let_def\<close>)
  qed
  then show "alive_slots (snd (switch_to nxt s')) = alive_slots s"
    "alive_slots (upd_task nxt (\<lambda>t. t\<lparr>t_state := TASK_RUNNING\<rparr>) s') = alive_slots s" by simp_all
qed

lemma irq_end_alive:
  assumes inv: "sched_inv s"
  shows "alive_slots (snd (sched_irq_end s rsp)) = alive_slots s"
proof (cases "scheduler_active s \<and> want_schedule s")
  case False
  then show ?thesis by (simp add: sched_irq_end_def)
next
  case True
  obtain c where c: "cur_task s = Some c"
    using inv by (auto simp: sched_inv_def current_ok_def split: option.splits)
  have len: "length (task_pool s) = MAX_TASKS" using inv by (simp add: sched_inv_def queue_inv_def)
  have i: "i < length (task_pool s)" if "c = Slot i" for i using inv that c by (cases rule: current_cases) auto
  show ?thesis
  proof (cases "quantum_left s c")
    case q: True
    then obtain j where j: "c = Slot j" by (cases c) (auto simp: quantum_left_def)
    show ?thesis
      by (rule alive_slots_upd [where i = j])
         (use sched_irq_end_cases [OF _ _ c i, of rsp] True q i [OF j] j len in auto)
  next
    case q: False
    let ?s1 = "leave s c rsp"
    obtain s2 where d: "dispatched ?s1 (first_of (level ?s1)) s2"
      "sched_irq_end s rsp = (if first_of (level ?s1) = c
         then (rsp, upd_task c (\<lambda>t. t\<lparr>t_state := TASK_RUNNING\<rparr>) s2) else switch_to (first_of (level ?s1)) s2)"
      using irq_end_dispatch [OF inv _ _ c q] True by blast
    have "queue_inv ?s1" using leave_between [OF inv c] by (simp add: between_def)
    then have l: "length (task_pool ?s1) = MAX_TASKS" "task_count ?s1 \<le> MAX_TASKS" by (auto simp: queue_inv_def)
    show ?thesis using run_alive [OF d(1) l] d(2) leave_alive [OF inv c, of rsp] by auto
  qed
qed

text \<open>An alive slot is the running task or waits in exactly the queue of its priority.\<close>

lemma alive_placed:
  assumes inv: "sched_inv s" and i: "i \<in> alive_slots s"
  shows "if cur_task s = Some (Slot i) then t_state (task_pool s ! i) = TASK_RUNNING
    else t_priority (task_pool s ! i) < PRIO_LEVELS \<and>
      (\<forall>p < PRIO_LEVELS. count_list (level s p) (Slot i) = (if p = t_priority (task_pool s ! i) then 1 else 0))"
proof (cases "cur_task s = Some (Slot i)")
  case True
  with inv i show ?thesis by (cases rule: current_cases) (auto simp: alive_slots_def)
next
  case False
  have i': "i < MAX_TASKS" using i by (simp add: alive_slots_def)
  have "t_state (task_pool s ! i) \<noteq> TASK_RUNNING"
    using inv i' False by (cases rule: current_cases) (auto simp: none_running_def)
  then have r: "t_state (task_pool s ! i) = TASK_READY" using i by (simp add: alive_slots_def)
  have n: "i < task_count s"
  proof (rule ccontr)
    assume "\<not> ?thesis"
    then have "t_state (task_pool s ! i) = TASK_FREE" using inv i' by (simp add: sched_inv_def queue_inv_def)
    with r show False by simp
  qed
  have "task_ok (task_pool s ! i)" using inv i' by (simp add: sched_inv_def queue_inv_def list_all_length)
  then have p: "t_priority (task_pool s ! i) < PRIO_LEVELS" using r by (simp add: task_ok_def)
  have "count_list (level s q) (Slot i) = (if q = t_priority (task_pool s ! i) then 1 else 0)" if "q < PRIO_LEVELS" for q
  proof -
    have "distinct (level s q)" "set (level s q) = ready_at (task_pool s) (task_count s) q"
      using inv that by (auto simp: sched_inv_def queue_inv_def)
    moreover have "Slot i \<in> ready_at (task_pool s) (task_count s) q \<longleftrightarrow> q = t_priority (task_pool s ! i)"
      using r n by (auto simp: ready_at_def)
    ultimately show ?thesis by (simp add: count_list_distinct)
  qed
  with p False show ?thesis by simp
qed


section \<open>What an epilogue leaves alone\<close>

text \<open>A task's descriptor apart from the saved stack pointer, the state and the timeslice.\<close>

definition fixed_part :: "task \<Rightarrow> task" where
  "fixed_part t = t\<lparr>t_rsp := 0, t_state := TASK_FREE, t_timeslice := 0\<rparr>"

definition same_fixed :: "sched \<Rightarrow> sched \<Rightarrow> bool" where
  "same_fixed s s' \<longleftrightarrow> (\<forall>r. fixed_part (get_task s' r) = fixed_part (get_task s r)) \<and>
     scheduler_active s' = scheduler_active s \<and> task_count s' = task_count s \<and> s_mem s' = s_mem s"

lemma fixed_part_upd [simp]:
  "fixed_part (t\<lparr>t_rsp := r\<rparr>) = fixed_part t" "fixed_part (t\<lparr>t_state := st\<rparr>) = fixed_part t"
  "fixed_part (t\<lparr>t_timeslice := n\<rparr>) = fixed_part t"
  by (cases t; simp add: fixed_part_def)+

lemma fixed_part_priority: "fixed_part t = fixed_part t' \<Longrightarrow> t_priority t = t_priority t'"
  by (cases t; cases t') (simp add: fixed_part_def)

lemma same_fixed_refl [simp]: "same_fixed s s"
  by (simp add: same_fixed_def)

lemma same_fixed_trans: "same_fixed s s' \<Longrightarrow> same_fixed s' s'' \<Longrightarrow> same_fixed s s''"
  by (simp add: same_fixed_def)

lemma same_fixed_task:
  assumes "\<And>t. fixed_part (f t) = fixed_part t"
  shows "same_fixed s (upd_task r f s)"
proof -
  have "fixed_part (get_task (upd_task r f s) r') = fixed_part (get_task s r')" for r'
  proof (cases r)
    case Idle
    then show ?thesis using assms by (cases r') simp_all
  next
    case (Slot i)
    show ?thesis
    proof (cases r')
      case s: (Slot j)
      have "(task_pool s)[i := f (task_pool s ! i)] ! j = task_pool s ! j \<or>
          (task_pool s)[i := f (task_pool s ! i)] ! j = f (task_pool s ! j)"
        by (cases "j = i \<and> i < length (task_pool s)") (auto simp: list_update_beyond)
      then show ?thesis using assms s Slot by auto
    qed (use Slot in simp)
  qed
  then show ?thesis by (cases r) (auto simp: same_fixed_def)
qed

lemma same_fixed_other_fields:
  "same_fixed s (push_level p t s)" "same_fixed s (s\<lparr>want_schedule := b\<rparr>)" "same_fixed s (s\<lparr>rqs := q\<rparr>)"
  "same_fixed s (s\<lparr>cur_task := c\<rparr>)" "same_fixed s (s\<lparr>loaded_cr3 := x\<rparr>)" "same_fixed s (s\<lparr>tss_rsp0 := x\<rparr>)"
  by (auto simp: same_fixed_def push_level_def get_task_def split: tref.split)

lemmas same_fixed_intros = same_fixed_task same_fixed_other_fields fixed_part_upd

lemma same_fixed_switch: "same_fixed s (snd (switch_to nxt s))"
proof -
  have "same_fixed s (if t_is_user (get_task s nxt) then s\<lparr>tss_rsp0 := x\<rparr> else s)" for x
    by (simp add: same_fixed_other_fields)
  moreover have "same_fixed u (if y \<noteq> loaded_cr3 u then u\<lparr>loaded_cr3 := y\<rparr> else u)" for u y
    by (simp add: same_fixed_other_fields)
  moreover have "same_fixed u (upd_task nxt (\<lambda>t. t\<lparr>t_state := TASK_RUNNING\<rparr>) (u\<lparr>cur_task := Some nxt\<rparr>))" for u
    by (rule same_fixed_trans [OF same_fixed_other_fields(4) same_fixed_task]) simp
  ultimately show ?thesis unfolding switch_to_def Let_def snd_conv by (blast intro: same_fixed_trans)
qed

lemma same_fixed_leave: "same_fixed s (leave s c rsp)"
proof -
  have a: "same_fixed s (upd_task c (\<lambda>t. t\<lparr>t_rsp := rsp\<rparr>) (s\<lparr>want_schedule := False\<rparr>))"
    by (rule same_fixed_trans [OF same_fixed_other_fields(2) same_fixed_task]) simp
  have "same_fixed u (requeue c (upd_task c (\<lambda>t. t\<lparr>t_timeslice := dec32 (t_timeslice t)\<rparr>) u))" for u
    unfolding requeue_def
    by (intro same_fixed_trans [OF same_fixed_task same_fixed_trans [OF same_fixed_task same_fixed_other_fields(1)]]) simp_all
  with a show ?thesis unfolding leave_def Let_def by (auto intro: same_fixed_trans)
qed

lemma irq_end_same_fixed:
  assumes inv: "sched_inv s"
  shows "same_fixed s (snd (sched_irq_end s rsp))"
proof (cases "scheduler_active s \<and> want_schedule s")
  case False
  then show ?thesis by (simp add: sched_irq_end_def)
next
  case True
  obtain c where c: "cur_task s = Some c"
    using inv by (auto simp: sched_inv_def current_ok_def split: option.splits)
  have i: "i < length (task_pool s)" if "c = Slot i" for i using inv that c by (cases rule: current_cases) auto
  show ?thesis
  proof (cases "quantum_left s c")
    case q: True
    show ?thesis
      using sched_irq_end_cases [OF _ _ c i, of rsp] True q
        same_fixed_trans [OF same_fixed_other_fields(2) same_fixed_task] by simp
  next
    case q: False
    let ?s1 = "leave s c rsp"
    obtain s2 where d: "dispatched ?s1 (first_of (level ?s1)) s2"
      "sched_irq_end s rsp = (if first_of (level ?s1) = c
         then (rsp, upd_task c (\<lambda>t. t\<lparr>t_state := TASK_RUNNING\<rparr>) s2) else switch_to (first_of (level ?s1)) s2)"
      using irq_end_dispatch [OF inv _ _ c q] True by blast
    have "same_fixed ?s1 s2" using d(1) same_fixed_other_fields(3) by (auto simp: dispatched_def)
    then have f: "same_fixed s s2" using same_fixed_leave same_fixed_trans by blast
    have "same_fixed s2 (snd (sched_irq_end s rsp))"
      using d(2) same_fixed_switch same_fixed_task [of "\<lambda>t. t\<lparr>t_state := TASK_RUNNING\<rparr>"] by auto
    with f show ?thesis by (rule same_fixed_trans)
  qed
qed

section \<open>Yielding and quanta\<close>

lemma want_reschedule_same:
  "same_fixed s (sched_want_reschedule s)" "abs_sched (sched_want_reschedule s) = abs_sched s"
  "want_schedule (sched_want_reschedule s)" "cur_task (sched_want_reschedule s) = cur_task s"
proof -
  have u: "same_fixed u (upd_task c (\<lambda>t. t\<lparr>t_timeslice := 1\<rparr>) u)" for u c by (rule same_fixed_task) simp
  show "same_fixed s (sched_want_reschedule s)"
    unfolding sched_want_reschedule_def Let_def
    by (rule same_fixed_trans [OF _ same_fixed_other_fields(2)]) (use u in auto)
  show "abs_sched (sched_want_reschedule s) = abs_sched s" "cur_task (sched_want_reschedule s) = cur_task s"
    "want_schedule (sched_want_reschedule s)"
    by (cases "the (cur_task s)"; auto simp: sched_want_reschedule_def abs_sched_def level_def Let_def)+
qed

lemma want_reschedule_running:
  assumes "cur_task s = Some (Slot i)" "i < length (task_pool s)" "t_state (task_pool s ! i) = TASK_RUNNING"
  shows "runnable_prio (sched_want_reschedule s) = Some (t_priority (task_pool s ! i))"
    "\<not> quantum_left (sched_want_reschedule s) (Slot i)"
  using assms by (simp_all add: sched_want_reschedule_def Let_def runnable_prio_def quantum_left_def dec32_def)

lemma yield_running_abs:
  assumes inv: "sched_inv s" and a: "scheduler_active s" and c: "cur_task s = Some (Slot i)"
    and st: "t_state (task_pool s ! i) = TASK_RUNNING"
  shows "abs_sched (snd (sched_yield s rsp)) = spec_preempt (Some (t_priority (task_pool s ! i))) (abs_sched s)"
    "scheduler_active (snd (sched_yield s rsp))"
    "\<And>j. t_priority (task_pool (snd (sched_yield s rsp)) ! j) = t_priority (task_pool s ! j)"
    "alive_slots (snd (sched_yield s rsp)) = alive_slots s"
proof -
  let ?w = "sched_want_reschedule s"
  have i: "i < length (task_pool s)" using inv c by (cases rule: current_cases) auto
  note w = want_reschedule_same [of s] want_reschedule_running [OF c i st]
  have inv': "sched_inv ?w" using inv by (rule want_reschedule_inv)
  have a': "scheduler_active ?w" using w(1) a by (simp add: same_fixed_def)
  show "abs_sched (snd (sched_yield s rsp)) = spec_preempt (Some (t_priority (task_pool s ! i))) (abs_sched s)"
    using irq_end_abs [OF inv' a' w(3), of "Slot i" rsp] w c by (simp add: sched_yield_def)
  have f: "same_fixed s (snd (sched_yield s rsp))"
    unfolding sched_yield_def by (rule same_fixed_trans [OF w(1) irq_end_same_fixed [OF inv']])
  then show "scheduler_active (snd (sched_yield s rsp))" using a by (simp add: same_fixed_def)
  show "t_priority (task_pool (snd (sched_yield s rsp)) ! j) = t_priority (task_pool s ! j)" for j
  proof -
    have "fixed_part (get_task (snd (sched_yield s rsp)) (Slot j)) = fixed_part (get_task s (Slot j))"
      using f by (simp only: same_fixed_def)
    from fixed_part_priority [OF this] show ?thesis by simp
  qed
  have "alive_slots ?w = alive_slots s"
    by (rule alive_slots_upd [where i = i]) (use i c st in \<open>auto simp: sched_want_reschedule_def Let_def\<close>)
  then show "alive_slots (snd (sched_yield s rsp)) = alive_slots s"
    unfolding sched_yield_def irq_end_alive [OF inv'] .
qed

lemma spec_preempt_same_level:
  assumes "p < PRIO_LEVELS" "\<forall>q < p. lv q = []"
  shows "spec_preempt (Some p) (c, lv) = (hd (lv p @ [c]), lv(p := tl (lv p @ [c])))"
proof -
  obtain x rest where x: "lv p @ [c] = x # rest" by (cases "lv p @ [c]") auto
  define lv' where "lv' = lv(p := lv p @ [c])"
  have e: "lv' p = x # rest" "\<forall>q < p. lv' q = []" "\<And>q. q \<noteq> p \<Longrightarrow> lv' q = lv q"
    using x assms(2) by (auto simp: lv'_def)
  have "first_of lv' = x" using concat_first [OF assms(1) e(1,2)] by (auto simp: first_of_def)
  moreover have "pop_first lv' = lv(p := rest)" using pop_first_here [OF e(1,2)] e(3) by auto
  ultimately show ?thesis using x by (simp add: spec_preempt_def Let_def lv'_def)
qed


lemma rotate_hd_tl: "xs \<noteq> [] \<Longrightarrow> hd (tl xs @ [hd xs]) = hd (rotate1 xs) \<and> tl (tl xs @ [hd xs]) = tl (rotate1 xs)"
  by (cases xs) auto

lemma yields_rotate:
  fixes s :: sched and rsp p :: nat
  defines "y \<equiv> \<lambda>s. snd (sched_yield s rsp)"
  assumes inv: "sched_inv s" and a: "scheduler_active s" and c: "cur_task s = Some (Slot i)"
    and st: "t_state (task_pool s ! i) = TASK_RUNNING" and p: "p = t_priority (task_pool s ! i)"
    and hi: "\<forall>q < p. level s q = []"
  shows "sched_inv ((y ^^ n) s) \<and> scheduler_active ((y ^^ n) s) \<and>
    abs_sched ((y ^^ n) s) = (hd (rotate n (Slot i # level s p)),
      (snd (abs_sched s))(p := tl (rotate n (Slot i # level s p)))) \<and>
    alive_slots ((y ^^ n) s) = alive_slots s \<and> (\<forall>j. t_priority (task_pool ((y ^^ n) s) ! j) = t_priority (task_pool s ! j))"
proof (induction n)
  case 0
  have "i < length (task_pool s)" "task_ok (task_pool s ! i)" using inv c st by (cases rule: current_cases; auto)+
  then have "p < PRIO_LEVELS" using st p by (simp add: task_ok_def)
  with inv a c show ?case by (auto simp: abs_sched_def)
next
  case (Suc n)
  let ?s = "(y ^^ n) s" and ?r = "rotate n (Slot i # level s p)"
  have pl: "p < PRIO_LEVELS" using inv c st p by (cases rule: current_cases) (auto simp: task_ok_def)
  have ring: "\<exists>j. x = Slot j \<and> j \<in> alive_slots s \<and> t_priority (task_pool s ! j) = p" if "x \<in> set (Slot i # level s p)" for x
  proof -
    have len: "length (task_pool s) = MAX_TASKS" using inv by (simp add: sched_inv_def queue_inv_def)
    have i: "i < MAX_TASKS" using inv c len by (cases rule: current_cases) auto
    have "set (level s p) = ready_at (task_pool s) (task_count s) p" "task_count s \<le> MAX_TASKS"
      using inv pl by (auto simp: sched_inv_def queue_inv_def)
    then show ?thesis using that i st p by (auto simp: ready_at_def alive_slots_def)
  qed
  have ne: "?r \<noteq> []" by simp
  then have "hd ?r \<in> set (Slot i # level s p)" using hd_in_set [OF ne] by simp
  then obtain j where j: "hd ?r = Slot j" "j \<in> alive_slots s" "t_priority (task_pool s ! j) = p" using ring by blast
  have inv': "sched_inv ?s" and a': "scheduler_active ?s" using Suc by auto
  have c': "cur_task ?s = Some (Slot j)"
    using Suc j(1) inv' by (auto simp: abs_sched_def sched_inv_def current_ok_def split: option.splits)
  have st': "t_state (task_pool ?s ! j) = TASK_RUNNING"
    using alive_placed [OF inv', of j] Suc j(2) c' by simp
  have p': "t_priority (task_pool ?s ! j) = p" using Suc j(3) by simp
  note y = yield_running_abs [OF inv' a' c' st', of rsp]
  have hi': "\<forall>q < p. ((snd (abs_sched s))(p := tl ?r)) q = []" using hi by (auto simp: abs_sched_def)
  have yd: "y ?s = snd (sched_yield ?s rsp)" by (simp add: y_def)
  have ab: "abs_sched ?s = (hd ?r, (snd (abs_sched s))(p := tl ?r))" using Suc by blast
  have "abs_sched (y ?s) = (hd (tl ?r @ [hd ?r]), (snd (abs_sched s))(p := tl (tl ?r @ [hd ?r])))"
    unfolding yd y(1) p' ab spec_preempt_same_level [OF pl hi'] fun_upd_same fun_upd_upd by (rule refl)
  then have "abs_sched (y ?s) = (hd (rotate1 ?r), (snd (abs_sched s))(p := tl (rotate1 ?r)))"
    using rotate_hd_tl [OF ne] by simp
  moreover have "sched_inv (y ?s)" unfolding yd by (rule yield_inv [OF inv'])
  ultimately show ?case using y(2-4) Suc by (auto simp: yd fun_upd_def)
qed

text \<open>Timer ticks: \<open>sched_tick\<close> followed by the epilogue.\<close>

definition timer_irq :: "nat \<Rightarrow> sched \<Rightarrow> sched" where
  "timer_irq rsp s = snd (sched_irq_end (sched_tick s) rsp)"

lemma timer_irq_early:
  assumes inv: "sched_inv s" and a: "scheduler_active s" and c: "cur_task s = Some (Slot i)"
    and st: "t_state (task_pool s ! i) = TASK_RUNNING" and k: "t_timeslice (task_pool s ! i) = Suc (Suc k)"
  shows "sched_inv (timer_irq rsp s)" "scheduler_active (timer_irq rsp s)" "cur_task (timer_irq rsp s) = Some (Slot i)"
    "t_state (task_pool (timer_irq rsp s) ! i) = TASK_RUNNING" "t_timeslice (task_pool (timer_irq rsp s) ! i) = Suc k"
    "abs_sched (timer_irq rsp s) = abs_sched s" "t_priority (task_pool (timer_irq rsp s) ! i) = t_priority (task_pool s ! i)"
proof -
  have i: "i < length (task_pool s)" using inv c by (cases rule: current_cases) auto
  have q: "quantum_left (sched_tick s) (Slot i)"
    using st k a by (simp add: quantum_left_def sched_tick_def)
  have e: "timer_irq rsp s = s\<lparr>want_schedule := False, task_pool := (task_pool s)[i := (task_pool s ! i)\<lparr>t_rsp := rsp, t_timeslice := Suc k\<rparr>]\<rparr>"
    using sched_irq_end_cases [of "sched_tick s" "Slot i" rsp] q a c i k st
    by (simp add: timer_irq_def sched_tick_def)
  show "sched_inv (timer_irq rsp s)"
    unfolding timer_irq_def by (intro irq_end_inv tick_inv inv)
  show "scheduler_active (timer_irq rsp s)" "cur_task (timer_irq rsp s) = Some (Slot i)"
    "t_state (task_pool (timer_irq rsp s) ! i) = TASK_RUNNING" "t_timeslice (task_pool (timer_irq rsp s) ! i) = Suc k"
    "abs_sched (timer_irq rsp s) = abs_sched s" "t_priority (task_pool (timer_irq rsp s) ! i) = t_priority (task_pool s ! i)"
    using a c st i by (auto simp: e abs_sched_def level_def)
qed

lemma timer_irq_last:
  assumes inv: "sched_inv s" and a: "scheduler_active s" and c: "cur_task s = Some (Slot i)"
    and st: "t_state (task_pool s ! i) = TASK_RUNNING" and k: "t_timeslice (task_pool s ! i) = 1"
  shows "abs_sched (timer_irq rsp s) = spec_preempt (Some (t_priority (task_pool s ! i))) (abs_sched s)"
proof -
  have "\<not> quantum_left (sched_tick s) (Slot i)" using k a st by (simp add: quantum_left_def sched_tick_def)
  moreover have "abs_sched (sched_tick s) = abs_sched s" "runnable_prio (sched_tick s) = runnable_prio s"
    by (auto simp: sched_tick_def abs_sched_def level_def runnable_prio_def split: tref.split)
  ultimately show ?thesis
    using irq_end_abs [OF tick_inv [OF inv], of "Slot i" rsp] a c st
    by (simp add: timer_irq_def sched_tick_def runnable_prio_def)
qed

lemma timer_irqs:
  assumes "sched_inv s" "scheduler_active s" "cur_task s = Some (Slot i)"
    "t_state (task_pool s ! i) = TASK_RUNNING" "t_timeslice (task_pool s ! i) = Suc k"
  shows "(\<forall>j \<le> k. abs_sched ((timer_irq rsp ^^ j) s) = abs_sched s \<and>
       t_timeslice (task_pool ((timer_irq rsp ^^ j) s) ! i) = Suc k - j) \<and>
    abs_sched ((timer_irq rsp ^^ Suc k) s) = spec_preempt (Some (t_priority (task_pool s ! i))) (abs_sched s)"
  using assms
proof (induction k arbitrary: s)
  case 0
  with timer_irq_last [OF 0(1-4)] show ?case by simp
next
  case (Suc k)
  note t = timer_irq_early [OF Suc.prems(1-4), of k rsp, OF Suc.prems(5)]
  note IH = Suc.IH [OF t(1-5)]
  have "abs_sched ((timer_irq rsp ^^ j) s) = abs_sched s \<and> t_timeslice (task_pool ((timer_irq rsp ^^ j) s) ! i) = Suc (Suc k) - j"
    if "j \<le> Suc k" for j
    using that IH t(6) Suc.prems(5) by (cases j) (simp_all add: funpow_Suc_right del: funpow.simps)
  with IH t(6,7) show ?case by (simp add: funpow_Suc_right del: funpow.simps)
qed


section \<open>Example states\<close>

definition task_zero :: task where
  "task_zero = \<lparr>t_rsp = 0, t_id = 0, t_name = replicate 24 0, t_state = TASK_FREE, t_priority = 0, t_cpu_id = 0,
     t_stack = 0, t_timeslice = 0, t_quantum = 0, t_func = 0, t_arg = 0, t_is_user = False, t_user_stack = 0,
     t_cr3 = 0, t_fd_table = replicate MAX_FD fd_zero, t_as = 0, t_heap_start = 0, t_heap_brk = 0, t_heap_end = 0\<rparr>"

definition runq_zero :: runq where
  "runq_zero = \<lparr>rq_buf = replicate MAX_TASKS Idle, rq_head = 0, rq_tail = 0, rq_size = 0\<rparr>"

definition sched_zero :: sched where
  "sched_zero = \<lparr>task_pool = replicate MAX_TASKS task_zero, task_count = 0, rqs = replicate PRIO_LEVELS runq_zero,
     idle_task = task_zero, cur_task = None, want_schedule = False, scheduler_active = False,
     loaded_cr3 = MASTER_CR3_PHYS, user_stack_next = 0, tss_rsp0 = 0, s_mem = kmem_boot\<rparr>"

definition env_example :: sched_env where
  "env_example = \<lparr>task_trampoline = 0x100100, user_task_trampoline = 0x100200, user_stack_pool = 0x180000\<rparr>"

lemma sched_zero_boot: "sched_boot sched_zero"
  by (simp add: sched_boot_def sched_zero_def runq_zero_def task_zero_def kmem_boot_inv)

lemma sched_started: "sched_inv (sched_run (sched_init sched_zero))"
  by (intro run_inv init_inv sched_zero_boot)

lemma sched_started_alive: "current_alive (sched_run (sched_init sched_zero))"
  by (simp add: current_alive_def sched_run_def sched_init_def)

text \<open>Two tasks of the normal level: slot 0 runs with 3 ticks left, slot 1 waits.\<close>

definition task_normal :: "nat \<Rightarrow> task_state \<Rightarrow> task" where
  "task_normal i st = task_zero\<lparr>t_id := int i, t_state := st, t_priority := PRIO_NORMAL, t_stack := 0x5000 * (i + 1),
     t_timeslice := 3, t_quantum := 20\<rparr>"

definition sched_two :: sched where
  "sched_two = sched_zero\<lparr>task_pool := task_normal 0 TASK_RUNNING # task_normal 1 TASK_READY # replicate 30 task_zero,
     task_count := 2, cur_task := Some (Slot 0), scheduler_active := True,
     rqs := [runq_zero, runq_zero, runq_zero\<lparr>rq_buf := Slot 1 # replicate 31 Idle, rq_tail := 1, rq_size := 1\<rparr>, runq_zero]\<rparr>"

lemma sched_two_level:
  assumes "p < PRIO_LEVELS"
  shows "level sched_two p = (if p = PRIO_NORMAL then [Slot 1] else [])"
proof -
  have z: "rq_items runq_zero = []" by (simp add: rq_items_def ring_items_def runq_zero_def)
  have "p = 0 \<or> p = 1 \<or> p = 2 \<or> p = 3" using assms by (auto simp: PRIO_LEVELS_def)
  then show ?thesis
    by (elim disjE) (simp_all add: level_def sched_two_def PRIO_NORMAL_def z, simp add: rq_items_def ring_items_def runq_zero_def)
qed

lemma sched_two_slot:
  "i < MAX_TASKS \<Longrightarrow> task_pool sched_two ! i =
    (if i = 0 then task_normal 0 TASK_RUNNING else if i = 1 then task_normal 1 TASK_READY else task_zero)"
  by (auto simp: sched_two_def MAX_TASKS_def nth_Cons split: nat.split)

lemma sched_two_ready:
  "ready_at (task_pool sched_two) 2 p = (if p = PRIO_NORMAL then {Slot 1} else {})"
proof -
  have "task_pool sched_two ! 0 = task_normal 0 TASK_RUNNING" "task_pool sched_two ! 1 = task_normal 1 TASK_READY"
    by (simp_all add: sched_two_def)
  then show ?thesis by (auto simp: ready_at_def task_normal_def less_2_cases_iff intro!: gr0I)
qed

lemma sched_two_inv: "sched_inv sched_two"
proof -
  have "length (task_pool sched_two) = MAX_TASKS" "task_count sched_two = 2" "length (rqs sched_two) = PRIO_LEVELS"
    "list_all rq_ok (rqs sched_two)" "list_all task_ok (task_pool sched_two)" "idle_task sched_two = task_zero"
    "s_mem sched_two = kmem_boot"
    by (simp_all add: sched_two_def sched_zero_def MAX_TASKS_def PRIO_LEVELS_def rq_ok_def runq_zero_def task_ok_def
        task_normal_def task_zero_def PRIO_NORMAL_def prio_quantum_def list_all_iff)
  then have "queue_inv sched_two"
    unfolding queue_inv_def using sched_two_level sched_two_ready sched_two_slot kmem_boot_inv
    by (auto simp: task_zero_def MAX_TASKS_def)
  moreover have "\<forall>i < MAX_TASKS. t_state (task_pool sched_two ! i) = TASK_RUNNING \<longrightarrow> Slot 0 = Slot i"
    by (auto simp: sched_two_slot task_normal_def task_zero_def split: if_splits)
  moreover have "cur_task sched_two = Some (Slot 0)" "task_count sched_two = 2"
    "task_pool sched_two ! 0 = task_normal 0 TASK_RUNNING" "loaded_cr3 sched_two = MASTER_CR3_PHYS"
    by (simp_all add: sched_two_def sched_zero_def)
  then have "current_ok sched_two"
    using calculation(2) by (simp add: current_ok_def cr3_of_def task_normal_def task_zero_def)
  ultimately show ?thesis by (simp add: sched_inv_def)
qed

lemma sched_two_current:
  "scheduler_active sched_two" "cur_task sched_two = Some (Slot 0)" "t_state (task_pool sched_two ! 0) = TASK_RUNNING"
  "t_priority (task_pool sched_two ! 0) = PRIO_NORMAL" "t_timeslice (task_pool sched_two ! 0) = Suc 2"
  by (simp_all add: sched_two_def task_normal_def)


section \<open>First frames\<close>

text \<open>\<open>registers_t\<close> of \<open>cpu/isr.h\<close>: what the epilogue of \<open>interrupt.asm\<close> pops from a saved stack
  pointer, lowest address first.\<close>

record registers =
  reg_r15 :: nat  reg_r14 :: nat  reg_r13 :: nat  reg_r12 :: nat
  reg_r11 :: nat  reg_r10 :: nat  reg_r9 :: nat  reg_r8 :: nat
  reg_rbp :: nat  reg_rdi :: nat  reg_rsi :: nat  reg_rdx :: nat
  reg_rcx :: nat  reg_rbx :: nat  reg_rax :: nat
  reg_int_no :: nat  reg_err_code :: nat
  reg_rip :: nat  reg_cs :: nat  reg_rflags :: nat  reg_rsp :: nat  reg_ss :: nat

definition load_frame :: "(nat \<Rightarrow> nat) \<Rightarrow> nat \<Rightarrow> registers" where
  "load_frame m p = \<lparr>reg_r15 = m p, reg_r14 = m (p + 8), reg_r13 = m (p + 16), reg_r12 = m (p + 24),
     reg_r11 = m (p + 32), reg_r10 = m (p + 40), reg_r9 = m (p + 48), reg_r8 = m (p + 56),
     reg_rbp = m (p + 64), reg_rdi = m (p + 72), reg_rsi = m (p + 80), reg_rdx = m (p + 88),
     reg_rcx = m (p + 96), reg_rbx = m (p + 104), reg_rax = m (p + 112), reg_int_no = m (p + 120),
     reg_err_code = m (p + 128), reg_rip = m (p + 136), reg_cs = m (p + 144), reg_rflags = m (p + 152),
     reg_rsp = m (p + 160), reg_ss = m (p + 168)\<rparr>"

lemma frame_build_load:
  "fst (frame_build m (t + 176) rip cs ss target rdi rsi) = t"
  "load_frame (snd (frame_build m (t + 176) rip cs ss target rdi rsi)) t =
     \<lparr>reg_r15 = 0, reg_r14 = 0, reg_r13 = 0, reg_r12 = 0, reg_r11 = 0, reg_r10 = 0, reg_r9 = 0, reg_r8 = 0,
      reg_rbp = 0, reg_rdi = rdi, reg_rsi = rsi, reg_rdx = 0, reg_rcx = 0, reg_rbx = 0, reg_rax = 0,
      reg_int_no = 0, reg_err_code = 0, reg_rip = rip, reg_cs = cs, reg_rflags = 0x202, reg_rsp = target, reg_ss = ss\<rparr>"
  "a < t \<or> t + 176 \<le> a \<Longrightarrow> snd (frame_build m (t + 176) rip cs ss target rdi rsi) a = m a"
  by (auto simp: frame_build_def load_frame_def)

lemma init_stack_frame:
  assumes "i < length (task_pool s)"
    and s': "s' = set_frame (Slot i) (frame_build (km_words (s_mem s)) (stack + TASK_STACK_SZ) rip cs ss target rdi rsi) s"
  shows "load_frame (km_words (s_mem s')) (t_rsp (task_pool s' ! i)) =
     \<lparr>reg_r15 = 0, reg_r14 = 0, reg_r13 = 0, reg_r12 = 0, reg_r11 = 0, reg_r10 = 0, reg_r9 = 0, reg_r8 = 0,
      reg_rbp = 0, reg_rdi = rdi, reg_rsi = rsi, reg_rdx = 0, reg_rcx = 0, reg_rbx = 0, reg_rax = 0,
      reg_int_no = 0, reg_err_code = 0, reg_rip = rip, reg_cs = cs, reg_rflags = 0x202, reg_rsp = target, reg_ss = ss\<rparr>"
    "t_rsp (task_pool s' ! i) = stack + 8016"
    "a < stack \<or> stack + TASK_STACK_SZ \<le> a \<Longrightarrow> km_words (s_mem s') a = km_words (s_mem s) a"
proof -
  define t where "t = stack + 8016"
  have t: "stack + TASK_STACK_SZ = t + 176" by (simp add: t_def TASK_STACK_SZ_def)
  have r: "t_rsp (task_pool s' ! i) = t"
    using assms(1) unfolding s' t by (simp add: set_frame_def frame_build_load)
  then show "t_rsp (task_pool s' ! i) = stack + 8016" by (simp add: t_def)
  show "load_frame (km_words (s_mem s')) (t_rsp (task_pool s' ! i)) =
     \<lparr>reg_r15 = 0, reg_r14 = 0, reg_r13 = 0, reg_r12 = 0, reg_r11 = 0, reg_r10 = 0, reg_r9 = 0, reg_r8 = 0,
      reg_rbp = 0, reg_rdi = rdi, reg_rsi = rsi, reg_rdx = 0, reg_rcx = 0, reg_rbx = 0, reg_rax = 0,
      reg_int_no = 0, reg_err_code = 0, reg_rip = rip, reg_cs = cs, reg_rflags = 0x202, reg_rsp = target, reg_ss = ss\<rparr>"
    unfolding r unfolding s' t by (simp add: set_frame_def frame_build_load)
  show "km_words (s_mem s') a = km_words (s_mem s) a" if "a < stack \<or> stack + TASK_STACK_SZ \<le> a"
  proof -
    have "a < t \<or> t + 176 \<le> a" using that t by (auto simp: t_def)
    then show ?thesis unfolding s' t by (simp add: set_frame_def frame_build_load(3))
  qed
qed

section \<open>Task names\<close>

lemma set_name_from_spec:
  assumes "length arr = 24" "ni \<le> 23" "\<forall>k < ni. arr ! k = cstr_at name k \<and> arr ! k \<noteq> 0"
  shows "\<exists>n. ni \<le> n \<and> n \<le> 23 \<and> length (set_name_from arr name ni) = 24 \<and> set_name_from arr name ni ! n = 0 \<and>
    (\<forall>k < n. set_name_from arr name ni ! k = cstr_at name k \<and> cstr_at name k \<noteq> 0) \<and> (n < 23 \<longrightarrow> cstr_at name n = 0)"
  using assms
proof (induction arr name ni rule: set_name_from.induct)
  case (1 arr name ni)
  show ?case
  proof (cases "ni < 23 \<and> cstr_at name ni \<noteq> 0")
    case True
    then have e: "set_name_from arr name ni = set_name_from (arr[ni := cstr_at name ni]) name (ni + 1)"
      by (subst set_name_from.simps) simp
    have "length (arr[ni := cstr_at name ni]) = 24" "ni + 1 \<le> 23"
      "\<forall>k < ni + 1. arr[ni := cstr_at name ni] ! k = cstr_at name k \<and> arr[ni := cstr_at name ni] ! k \<noteq> 0"
      using "1.prems" True by (auto simp: nth_list_update less_Suc_eq)
    from "1.IH" [OF True this] obtain n where "ni + 1 \<le> n" "n \<le> 23" "length (set_name_from arr name ni) = 24"
      "set_name_from arr name ni ! n = 0" "n < 23 \<longrightarrow> cstr_at name n = 0"
      "\<forall>k < n. set_name_from arr name ni ! k = cstr_at name k \<and> cstr_at name k \<noteq> 0"
      unfolding e by blast
    then show ?thesis by (intro exI [of _ n]) auto
  next
    case False
    then have "set_name_from arr name ni = arr[ni := 0]" by (subst set_name_from.simps) auto
    with False "1.prems" show ?thesis by (intro exI [of _ ni]) auto
  qed
qed

lemma task_set_name_cstr:
  assumes "length arr = 24"
  shows "cstr_of (set_name_from arr name 0) = take 23 (cstr_of name)" "length (set_name_from arr name 0) = 24"
    "0 \<in> set (set_name_from arr name 0)"
proof -
  let ?a = "set_name_from arr name 0"
  obtain n where n: "n \<le> 23" "length ?a = 24" "?a ! n = 0"
    "\<forall>k < n. ?a ! k = cstr_at name k \<and> cstr_at name k \<noteq> 0" "n < 23 \<longrightarrow> cstr_at name n = 0"
    using set_name_from_spec [OF assms, of 0 name] by auto
  show "length ?a = 24" by (rule n)
  have "?a ! n \<in> set ?a" using n(1,2) by (intro nth_mem) simp
  then show "0 \<in> set ?a" using n(3) by simp
  have len: "n \<le> length name" using n(4) by (intro cstr_at_inside) auto
  have "cstr_of ?a = take n ?a" unfolding cstr_of_def using n by (intro takeWhile_eqI) auto
  also have "\<dots> = take n name" using n len by (intro nth_equalityI) (auto simp: cstr_at_def)
  also have "\<dots> = take 23 (cstr_of name)"
  proof (cases "n < 23")
    case True
    then have "cstr_of name = take n name" using n len by (intro cstr_of_zero) auto
    with True show ?thesis by simp
  next
    case False
    then have "n = 23" using n(1) by simp
    moreover have "take n (cstr_of name) = take n name"
    proof -
      have "name = take n name @ drop n name" by simp
      moreover have "\<forall>b \<in> set (take n name). b \<noteq> 0"
        using n(4) len by (auto simp: in_set_conv_nth cstr_at_def split: if_splits)
      ultimately have "cstr_of name = take n name @ cstr_of (drop n name)"
        unfolding cstr_of_def using takeWhile_append2 [of "take n name" "\<lambda>b. b \<noteq> 0" "drop n name"] by simp
      then show ?thesis using len by simp
    qed
    ultimately show ?thesis by simp
  qed
  finally show "cstr_of ?a = take 23 (cstr_of name)" .
qed


section \<open>Properties\<close>

text \<open>C11: in every reachable state at most one slot is \<open>RUNNING\<close> and it is the current task; the run
  queue of a level holds exactly the \<open>READY\<close> slots of that priority, each once; no slot is
  \<open>BLOCKED\<close>; the loaded page table is the current task's (or the shared one), and the TSS points to the
  kernel stack of a current ring-3 task.\<close>

theorem sched_reachable_safe:
  assumes "sched_reach env s"
  shows "\<exists>c. cur_task s = Some c \<and>
    (\<forall>i < MAX_TASKS. t_state (task_pool s ! i) = TASK_RUNNING \<longrightarrow> c = Slot i) \<and>
    (\<forall>i < MAX_TASKS. t_state (task_pool s ! i) \<noteq> TASK_BLOCKED) \<and>
    (\<forall>p < PRIO_LEVELS. distinct (level s p) \<and> set (level s p) =
       {Slot i | i. i < task_count s \<and> t_state (task_pool s ! i) = TASK_READY \<and> t_priority (task_pool s ! i) = p}) \<and>
    loaded_cr3 s = (if t_cr3 (get_task s c) \<noteq> 0 then t_cr3 (get_task s c) else MASTER_CR3_PHYS) \<and>
    (t_is_user (get_task s c) \<longrightarrow> tss_rsp0 s = t_stack (get_task s c) + TASK_STACK_SZ)"
proof -
  have "sched_inv s" using assms
    by (induction rule: sched_reach.induct) (auto intro: init_inv step_inv)
  then show ?thesis
    by (auto simp: sched_inv_def queue_inv_def current_ok_def cr3_of_def ready_at_def list_all_length task_ok_def
        split: option.splits)
qed

theorem sched_reachable_safe_witness:
  "\<exists>c. cur_task (sched_tick (sched_init sched_zero)) = Some c \<and>
     (\<forall>i < MAX_TASKS. t_state (task_pool (sched_tick (sched_init sched_zero)) ! i) = TASK_RUNNING \<longrightarrow> c = Slot i)"
proof -
  have "sched_reach env_example (sched_tick (sched_init sched_zero))"
    by (rule sched_reach.step [OF sched_reach.boot [OF sched_zero_boot] sched_step.tick])
  from sched_reachable_safe [OF this] show ?thesis by blast
qed

text \<open>C4: the interrupt epilogue implements the abstract priority scheduler: while the quantum lasts
  nothing changes; otherwise a current task that can go on is appended to its level, the head of the
  first non-empty level (or the idle task) becomes current and leaves its queue. The returned stack
  pointer is the interrupted one when the task stays, and else the one saved for the new task.\<close>

theorem sched_irq_end_refines:
  assumes "sched_inv s" "scheduler_active s" "want_schedule s" "cur_task s = Some c"
  shows "abs_sched (snd (sched_irq_end s rsp)) =
      (if quantum_left s c then abs_sched s else spec_preempt (runnable_prio s) (abs_sched s)) \<and>
    fst (sched_irq_end s rsp) = (let s' = snd (sched_irq_end s rsp); c' = fst (abs_sched s') in
      if c' = c then rsp else t_rsp (get_task s' c')) \<and>
    sched_inv (snd (sched_irq_end s rsp))"
  using irq_end_abs [OF assms] irq_end_inv [OF assms(1)] irq_end_rsp [OF assms] by blast

theorem sched_irq_end_refines_witness:
  "abs_sched (snd (sched_irq_end (sched_tick sched_two) 0x9000)) = abs_sched (sched_tick sched_two)"
proof -
  have h: "sched_inv (sched_tick sched_two)" "scheduler_active (sched_tick sched_two)"
    "want_schedule (sched_tick sched_two)" "cur_task (sched_tick sched_two) = Some (Slot 0)"
    "quantum_left (sched_tick sched_two) (Slot 0)"
    using tick_inv [OF sched_two_inv] sched_two_current by (simp_all add: sched_tick_def quantum_left_def)
  from sched_irq_end_refines [OF h(1-4), where rsp = "0x9000"] h(5) show ?thesis by simp
qed

text \<open>A slot is the running task and in no queue, or it is ready and once in the queue of its own level and in no other.\<close>

definition placed_once :: "sched \<Rightarrow> nat \<Rightarrow> bool" where
  "placed_once s i \<longleftrightarrow>
     (if cur_task s = Some (Slot i) then t_state (task_pool s ! i) = TASK_RUNNING \<and> (\<forall>p < PRIO_LEVELS. Slot i \<notin> set (level s p))
      else t_state (task_pool s ! i) = TASK_READY \<and> t_priority (task_pool s ! i) < PRIO_LEVELS \<and>
        (\<forall>p < PRIO_LEVELS. count_list (level s p) (Slot i) = (if p = t_priority (task_pool s ! i) then 1 else 0)))"

lemma alive_placed_once:
  assumes inv: "sched_inv s" and i: "i \<in> alive_slots s"
  shows "placed_once s i"
proof -
  have "Slot i \<notin> set (level s p)" if "t_state (task_pool s ! i) = TASK_RUNNING" "p < PRIO_LEVELS" for p
    using inv that by (auto simp: sched_inv_def queue_inv_def ready_at_def)
  moreover have "t_state (task_pool s ! i) = TASK_READY" if "cur_task s \<noteq> Some (Slot i)"
    using inv i that by (cases rule: current_cases) (auto simp: alive_slots_def none_running_def)
  ultimately show ?thesis using alive_placed [OF inv i] by (auto simp: placed_once_def)
qed

lemma same_fixed_slot: "same_fixed s s' \<Longrightarrow> fixed_part (task_pool s' ! i) = fixed_part (task_pool s ! i)"
  unfolding same_fixed_def by (metis get_task_simps(2))

lemma want_reschedule_alive:
  assumes "sched_inv s"
  shows "alive_slots (sched_want_reschedule s) = alive_slots s"
  using assms by (cases rule: current_cases) (auto simp: sched_want_reschedule_def Let_def alive_slots_def nth_list_update)

lemma submitted_survives:
  assumes "submitted s r s' tk" "i \<in> alive_slots s" "sched_inv s"
  shows "i \<in> alive_slots s'" "fixed_part (task_pool s' ! i) = fixed_part (task_pool s ! i)"
  using assms by (auto simp: submitted_def enrolled_def alive_slots_def slot_reusable_def nth_list_update sched_inv_def queue_inv_def split: if_splits)

lemma ended_survives:
  assumes inv: "sched_inv s" and c: "cur_task s = Some (Slot j)"
  defines "t \<equiv> (upd_task (Slot j) (\<lambda>t. t\<lparr>t_state := TASK_DONE\<rparr>) s)\<lparr>want_schedule := True\<rparr>"
  shows "alive_slots t = alive_slots s - {j}" "sched_inv t" "\<And>i. i \<noteq> j \<Longrightarrow> task_pool t ! i = task_pool s ! i"
proof -
  have "j < length (task_pool s)" using inv c by (cases rule: current_cases) auto
  then show "alive_slots t = alive_slots s - {j}" by (auto simp: t_def alive_slots_def nth_list_update)
  show "sched_inv t" using mark_done_inv [OF inv c] by (simp add: t_def)
  show "\<And>i. i \<noteq> j \<Longrightarrow> task_pool t ! i = task_pool s ! i" by (simp add: t_def)
qed

lemma step_survives:
  assumes step: "sched_step env s s'" and inv: "sched_inv s" and i: "i \<in> alive_slots s"
  shows "cur_task s = Some (Slot i) \<and> i \<notin> alive_slots s' \<and> (s' = sched_kill_current s \<or> (\<exists>rsp. s' = snd (sched_exit s rsp))) \<or>
    i \<in> alive_slots s' \<and> fixed_part (task_pool s' ! i) = fixed_part (task_pool s ! i)"
  using step
proof (cases rule: sched_step.cases)
  case (submit_prio name func arg p r)
  have "\<exists>tk. submitted s r s' tk"
    by (rule submit_prio_spec [OF inv submit_prio(1), of env name func arg p]) (use submit_prio(2) in auto)
  then show ?thesis using submitted_survives [OF _ i inv] by blast
next
  case (submit_user name func arg r)
  have "\<exists>tk. submitted s r s' tk"
    by (rule submit_user_spec [OF inv submit_user(1), of env name func arg]) (use submit_user(2) in auto)
  then show ?thesis using submitted_survives [OF _ i inv] by blast
next
  case (submit_user_as name func arg cr3 utop r)
  have "\<exists>tk. submitted s r s' tk"
    by (rule submit_user_as_spec [OF inv submit_user_as(1), of env name func arg cr3 utop]) (use submit_user_as(2) in auto)
  then show ?thesis using submitted_survives [OF _ i inv] by blast
next
  case (irq_end rsp rsp')
  with irq_end_alive [OF inv, of rsp] same_fixed_slot [OF irq_end_same_fixed [OF inv, of rsp]] i show ?thesis by simp
next
  case (yield rsp rsp')
  have w: "sched_inv (sched_want_reschedule s)" "same_fixed s (sched_want_reschedule s)" using want_reschedule_inv [OF inv] want_reschedule_same by auto
  from yield irq_end_alive [OF w(1), of rsp] want_reschedule_alive [OF inv] i
    same_fixed_slot [OF same_fixed_trans [OF w(2) irq_end_same_fixed [OF w(1), of rsp]]] show ?thesis by (simp add: sched_yield_def)
next
  case (exit j rsp rsp')
  let ?t = "(upd_task (Slot j) (\<lambda>t. t\<lparr>t_state := TASK_DONE\<rparr>) s)\<lparr>want_schedule := True\<rparr>"
  have s': "s' = snd (sched_exit s rsp)" "s' = snd (sched_irq_end ?t rsp)" using exit by (simp_all add: sched_exit_def)
  note e = ended_survives [OF inv exit(1)]
  have "alive_slots s' = alive_slots s - {j}" using irq_end_alive [OF e(2), of rsp] e(1) s'(2) by simp
  moreover have "fixed_part (task_pool s' ! k) = fixed_part (task_pool ?t ! k)" for k
    unfolding s'(2) by (rule same_fixed_slot [OF irq_end_same_fixed [OF e(2)]])
  ultimately show ?thesis using e(3) [of i] exit(1) s'(1) i by (cases "i = j") auto
next
  case kill
  show ?thesis
  proof (cases "\<exists>j. cur_task s = Some (Slot j)")
    case True
    then obtain j where j: "cur_task s = Some (Slot j)" by blast
    with kill ended_survives [OF inv j] i show ?thesis by (cases "i = j") (auto simp: sched_kill_current_def)
  next
    case False
    then have "cur_task s = None \<or> cur_task s = Some Idle" by (metis tref.exhaust option.exhaust)
    then have "sched_kill_current s = s" by (auto simp: sched_kill_current_def)
    then show ?thesis using kill i by simp
  qed
next
  case want
  then show ?thesis using want_reschedule_alive [OF inv] same_fixed_slot [OF want_reschedule_same(1)] i by simp
qed (use i in \<open>auto simp: sched_run_def sched_tick_def alive_slots_def\<close>)

text \<open>C19: the scheduler never loses a task. Over every step of the kernel (submission, tick, interrupt end, yield, kill, exit) a task
  that is ready or running stays so, with all of its fields but the saved stack pointer, the state and the time slice, unless
  it is the current task and the step is its own kill or exit. After the step it is the current one, running and in no queue, or it
  is ready and sits exactly once in the queue of its own level and in no other.\<close>

theorem sched_no_task_lost:
  assumes "sched_inv s" "sched_step env s s'" "i \<in> alive_slots s"
  shows "cur_task s = Some (Slot i) \<and> i \<notin> alive_slots s' \<and> (s' = sched_kill_current s \<or> (\<exists>rsp. s' = snd (sched_exit s rsp))) \<or>
    i \<in> alive_slots s' \<and> fixed_part (task_pool s' ! i) = fixed_part (task_pool s ! i) \<and> placed_once s' i"
  using step_survives [OF assms(2,1,3)] alive_placed_once [OF step_inv [OF assms(2,1)]] by blast

theorem sched_no_task_lost_witness:
  "1 \<in> alive_slots sched_two \<and> 1 \<in> alive_slots (snd (sched_yield sched_two 0x9000)) \<and> placed_once (snd (sched_yield sched_two 0x9000)) 1"
proof -
  have a: "1 \<in> alive_slots sched_two" "cur_task sched_two \<noteq> Some (Slot 1)" by (simp_all add: alive_slots_def sched_two_def task_normal_def MAX_TASKS_def)
  have "sched_step env sched_two (snd (sched_yield sched_two 0x9000))" for env
    by (rule sched_step.yield [of _ "0x9000" "fst (sched_yield sched_two 0x9000)"]) simp
  from sched_no_task_lost [OF sched_two_inv this a(1)] a show ?thesis by auto
qed

text \<open>C20: round robin. When the running task's level is the highest one in use, \<open>n\<close> yields rotate the
  list of the running task and its level's queue by \<open>n\<close> places: every task of the level gets the
  processor after at most as many yields as there are tasks in it, in queue order.\<close>

theorem sched_round_robin:
  assumes "sched_inv s" "scheduler_active s" "cur_task s = Some (Slot i)"
    "t_state (task_pool s ! i) = TASK_RUNNING" "\<forall>q < t_priority (task_pool s ! i). level s q = []"
  shows "fst (abs_sched (((\<lambda>s. snd (sched_yield s rsp)) ^^ n) s)) =
    (Slot i # level s (t_priority (task_pool s ! i))) ! (n mod Suc (length (level s (t_priority (task_pool s ! i)))))"
proof -
  let ?r = "Slot i # level s (t_priority (task_pool s ! i))"
  have "fst (abs_sched (((\<lambda>s. snd (sched_yield s rsp)) ^^ n) s)) = hd (rotate n ?r)"
    using yields_rotate [OF assms(1-4) refl assms(5), where rsp = rsp and n = n] by auto
  also have "\<dots> = ?r ! (n mod length ?r)" by (rule hd_rotate_conv_nth) simp
  finally show ?thesis by simp
qed

theorem sched_round_robin_witness:
  "fst (abs_sched (((\<lambda>s. snd (sched_yield s 0x9000)) ^^ 1) sched_two)) = Slot 1"
proof -
  have "PRIO_NORMAL < PRIO_LEVELS" by (rule prio_normal_valid)
  then have lv: "\<forall>q < t_priority (task_pool sched_two ! 0). level sched_two q = []"
    using sched_two_level sched_two_current(4) by auto
  from sched_round_robin [OF sched_two_inv sched_two_current(1,2,3) lv, where rsp = "0x9000" and n = 1]
  show ?thesis using sched_two_level [of PRIO_NORMAL] sched_two_current(4) prio_normal_valid by simp
qed

text \<open>A running task with \<open>k + 1\<close> ticks left keeps the processor for exactly \<open>k\<close> timer interrupts,
  its timeslice counting down by one each time, and the next one preempts it.\<close>

theorem sched_quantum_exact:
  assumes "sched_inv s" "scheduler_active s" "cur_task s = Some (Slot i)"
    "t_state (task_pool s ! i) = TASK_RUNNING" "t_timeslice (task_pool s ! i) = Suc k"
  shows "(\<forall>j \<le> k. abs_sched ((timer_irq rsp ^^ j) s) = abs_sched s \<and>
       t_timeslice (task_pool ((timer_irq rsp ^^ j) s) ! i) = Suc k - j) \<and>
    abs_sched ((timer_irq rsp ^^ Suc k) s) = spec_preempt (Some (t_priority (task_pool s ! i))) (abs_sched s)"
  using assms by (rule timer_irqs)

theorem sched_quantum_exact_witness:
  "abs_sched ((timer_irq 0x9000 ^^ 2) sched_two) = abs_sched sched_two \<and>
   abs_sched ((timer_irq 0x9000 ^^ 3) sched_two) = spec_preempt (Some PRIO_NORMAL) (abs_sched sched_two)"
proof -
  note q = sched_quantum_exact [OF sched_two_inv sched_two_current(1,2,3,5), where rsp = "0x9000"]
  have "Suc 2 = 3" by simp
  with q sched_two_current(4) show ?thesis by (metis order_refl)
qed

text \<open>The outcome of \<open>sched_submit_prio\<close>. The call returns and keeps the invariant. A null
  function or an invalid level is refused with the state unchanged, and any refusal leaves the task pool
  and the queues alone. Otherwise the task is set up in a free or finished slot with no open files and
  the shared address space, its stack lies in a new heap region, it waits at the end of its level's
  queue, and no other slot changes.\<close>

theorem sched_submit_outcome:
  assumes "sched_inv s" "current_alive s"
  shows "\<exists>r s'. sched_submit_prio env s name func arg p = Some (r, s') \<and> sched_inv s' \<and>
    (func = 0 \<or> PRIO_LEVELS \<le> p \<longrightarrow> r = - 1 \<and> s' = s) \<and>
    (if r = - 1 then task_pool s' = task_pool s \<and> rqs s' = rqs s \<and> cur_task s' = cur_task s
     else \<exists>i t raw l. r = int i \<and> i < MAX_TASKS \<and> slot_reusable (task_pool s ! i) \<and> task_pool s' = (task_pool s)[i := t] \<and>
       t_state t = TASK_READY \<and> t_func t = func \<and> t_arg t = arg \<and> t_cr3 t = 0 \<and> \<not> t_is_user t \<and>
       t_fd_table t = replicate MAX_FD fd_zero \<and> level s' p = level s p @ [Slot i] \<and>
       (\<forall>q. q \<noteq> p \<longrightarrow> level s' q = level s q) \<and>
       kregions (s_mem s') = insert (raw, l) (kregions (s_mem s)) \<and> (raw, l) \<notin> kregions (s_mem s) \<and>
       raw \<le> t_stack t \<and> t_stack t + TASK_STACK_SZ \<le> raw + l)"
proof -
  obtain r s' where r: "sched_submit_prio env s name func arg p = Some (r, s')" "sched_inv s'"
    "submitted s r s' (\<lambda>i old stack. fresh_task old i name p stack 0 False 0 func arg)"
    using submit_prio_spec [OF assms] by blast
  have bad: "func = 0 \<or> PRIO_LEVELS \<le> p \<longrightarrow> r = - 1 \<and> s' = s"
    using r(1) by (auto simp: sched_submit_prio_def)
  show ?thesis
  proof (cases "r = - 1")
    case True
    with r bad show ?thesis by (auto simp: submitted_def)
  next
    case False
    then obtain i stack raw l t where e: "r = int i"
      "enrolled s s' (\<lambda>i old stack. fresh_task old i name p stack 0 False 0 func arg) i stack raw l t"
      using r(3) by (auto simp: submitted_def)
    then obtain rsp where t: "t = (fresh_task (task_pool s ! i) i name p stack 0 False 0 func arg)\<lparr>t_rsp := rsp\<rparr>"
      by (auto simp: enrolled_def)
    then have "t_state t = TASK_READY" "t_func t = func" "t_arg t = arg" "t_cr3 t = 0" "\<not> t_is_user t"
      "t_fd_table t = replicate MAX_FD fd_zero" "t_priority t = p" "t_stack t = stack" by (simp_all add: fresh_task_def)
    moreover have "i < MAX_TASKS" "slot_reusable (task_pool s ! i)" "task_pool s' = (task_pool s)[i := t]"
      "kregions (s_mem s') = insert (raw, l) (kregions (s_mem s))" "(raw, l) \<notin> kregions (s_mem s)" "raw \<le> stack"
      "stack + TASK_STACK_SZ \<le> raw + l" "\<And>q. level s' q = (if q = t_priority t then level s q @ [Slot i] else level s q)"
      using e(2) unfolding enrolled_def by blast+
    ultimately have "\<exists>i t raw l. r = int i \<and> i < MAX_TASKS \<and> slot_reusable (task_pool s ! i) \<and>
       task_pool s' = (task_pool s)[i := t] \<and>
       t_state t = TASK_READY \<and> t_func t = func \<and> t_arg t = arg \<and> t_cr3 t = 0 \<and> \<not> t_is_user t \<and>
       t_fd_table t = replicate MAX_FD fd_zero \<and> level s' p = level s p @ [Slot i] \<and>
       (\<forall>q. q \<noteq> p \<longrightarrow> level s' q = level s q) \<and>
       kregions (s_mem s') = insert (raw, l) (kregions (s_mem s)) \<and> (raw, l) \<notin> kregions (s_mem s) \<and>
       raw \<le> t_stack t \<and> t_stack t + TASK_STACK_SZ \<le> raw + l"
      using e(1) by (intro exI [where x = i] exI [where x = t] exI [where x = raw] exI [where x = l]) simp
    with r(1,2) bad False show ?thesis by auto
  qed
qed

theorem sched_submit_outcome_witness:
  "\<exists>r s'. sched_submit_prio env_example (sched_run (sched_init sched_zero)) [0x61] 0x101000 0 2 = Some (r, s') \<and> sched_inv s'"
  using sched_submit_outcome [OF sched_started sched_started_alive, where env = env_example and name = "[0x61]" and
      func = "0x101000" and arg = 0 and p = 2] by blast

text \<open>The first switch to a ring-3 process enters its trampoline: popping the frame at the saved
  stack pointer loads ring-3 segments, interrupts enabled, the caller's stack top, and the entry and
  argument in the argument registers; every other register is zero, and nothing outside the task's
  kernel stack is written.\<close>

theorem user_first_frame:
  assumes "i < length (task_pool s)"
    and "s' = task_init_stack_user_as env (Slot i) ustack_top s"
  shows "let f = load_frame (km_words (s_mem s')) (t_rsp (task_pool s' ! i)) in
      reg_rip f = user_task_trampoline env \<and> reg_cs f = 0x23 \<and> reg_ss f = 0x2B \<and> reg_rflags f = 0x202 \<and>
      reg_rsp f = ustack_top \<and> reg_rdi f = t_func (task_pool s ! i) \<and> reg_rsi f = t_arg (task_pool s ! i) \<and>
      reg_rax f = 0 \<and> reg_rbx f = 0 \<and> reg_rcx f = 0 \<and> reg_rdx f = 0 \<and> reg_rbp f = 0 \<and> reg_r15 f = 0 \<and>
      t_stack (task_pool s ! i) \<le> t_rsp (task_pool s' ! i) \<and>
      (\<forall>a. a < t_stack (task_pool s ! i) \<or> t_stack (task_pool s ! i) + TASK_STACK_SZ \<le> a \<longrightarrow>
         km_words (s_mem s') a = km_words (s_mem s) a)"
proof -
  have e: "s' = set_frame (Slot i) (frame_build (km_words (s_mem s)) (t_stack (task_pool s ! i) + TASK_STACK_SZ)
      (user_task_trampoline env) (GDT_USER_CS OR 3) (GDT_USER_DS OR 3) ustack_top (t_func (task_pool s ! i))
      (t_arg (task_pool s ! i))) s"
    using assms(2) by (simp add: task_init_stack_user_as_def Let_def)
  have "GDT_USER_CS OR 3 = 0x23" "GDT_USER_DS OR 3 = 0x2B" by (simp_all add: GDT_USER_CS_def GDT_USER_DS_def)
  then show ?thesis
    using init_stack_frame [OF assms(1) e] by (simp add: Let_def)
qed

theorem user_first_frame_witness:
  "reg_rip (load_frame (km_words (s_mem (task_init_stack_user_as env_example (Slot 0) 0x7000 sched_two)))
     (t_rsp (task_pool (task_init_stack_user_as env_example (Slot 0) 0x7000 sched_two) ! 0))) = 0x100200"
  using user_first_frame [where i = 0 and s = sched_two and env = env_example and ustack_top = "0x7000", OF _ refl]
  by (simp add: sched_two_def env_example_def Let_def)

text \<open>\<open>task_set_name\<close> stores the name as a C string cut to 23 characters: it stays inside the
  24-byte array and always ends with a zero byte.\<close>

theorem task_name_truncated:
  assumes "length (t_name t) = 24"
  shows "cstr_of (t_name (task_set_name t name)) = take 23 (cstr_of name) \<and>
    length (t_name (task_set_name t name)) = 24 \<and> 0 \<in> set (t_name (task_set_name t name))"
  using task_set_name_cstr [OF assms] by (simp add: task_set_name_def)

theorem task_name_truncated_witness:
  "cstr_of (t_name (task_set_name task_zero (replicate 30 0x41))) = replicate 23 0x41"
proof -
  have "length (t_name task_zero) = 24" by (simp add: task_zero_def)
  from task_name_truncated [OF this, of "replicate 30 0x41"] show ?thesis
    by (simp add: cstr_of_def)
qed

end
