(* ===== verification/Disk.thy ===== *)
theory Disk
  imports Prelude
begin

text \<open>
  The block layer under the file systems: \<open>blk_read\<close> and \<open>blk_write\<close> of \<open>drivers/ata.c\<close>, and the
  partition tables read through them. A device is the contents of its 512-byte sectors. A command of
  several sectors transfers them in order and may stop with an error before the last of them (the
  drivers check the status before each sector or batch); which commands fail is the list \<open>dk_plan\<close>,
  one entry per command to come: \<open>None\<close> completes, \<open>Some k\<close> stops after \<open>k\<close> sectors. A failed read leaves
  the rest of the buffer as it was, a failed write the rest of the sectors. The AHCI and VirtIO drivers
  refuse commands longer than their DMA buffer.
\<close>

section \<open>Devices\<close>

record disk =
  dk_sec :: "u8 \<Rightarrow> u8 \<Rightarrow> nat \<Rightarrow> u8 list"
  dk_plan :: "nat option list"

definition DRIVE_TYPE_ATA :: u8 where "DRIVE_TYPE_ATA = 0"
definition DRIVE_TYPE_NVME :: u8 where "DRIVE_TYPE_NVME = 1"
definition DRIVE_TYPE_AHCI :: u8 where "DRIVE_TYPE_AHCI = 2"
definition DRIVE_TYPE_VBLK :: u8 where "DRIVE_TYPE_VBLK = 3"

text \<open>The sectors that the next command of \<open>count\<close> sectors transfers, and whether it succeeds.\<close>

definition blk_max :: "u8 \<Rightarrow> nat" where
  "blk_max ty = (if ty = DRIVE_TYPE_AHCI then 64 else if ty = DRIVE_TYPE_VBLK then 128 else 255)"

definition outcome :: "disk \<Rightarrow> u8 \<Rightarrow> nat \<Rightarrow> bool \<times> nat" where
  "outcome d ty count =
     (if count > blk_max ty then (False, 0)
      else (case dk_plan d of Some k # _ \<Rightarrow> (False, min k (count - 1)) | _ \<Rightarrow> (True, count)))"

definition read_sectors :: "disk \<Rightarrow> u8 \<Rightarrow> u8 \<Rightarrow> nat \<Rightarrow> nat \<Rightarrow> u8 list" where
  "read_sectors d ty drv lba n = concat (map (\<lambda>i. dk_sec d ty drv (lba + i)) [0 ..< n])"

definition overwrite :: "u8 list \<Rightarrow> u8 list \<Rightarrow> u8 list" where
  "overwrite buf data = data @ drop (length data) buf"

text \<open>The result: the return code, the buffer afterwards, the device.\<close>

definition blk_read :: "u8 \<Rightarrow> u8 \<Rightarrow> nat \<Rightarrow> nat \<Rightarrow> u8 list \<Rightarrow> disk \<Rightarrow> int \<times> u8 list \<times> disk" where
  "blk_read ty drv lba count buf d =
     (let (ok, n) = outcome d ty count in
      (if ok then 0 else - 1, overwrite buf (read_sectors d ty drv lba n), d\<lparr>dk_plan := tl (dk_plan d)\<rparr>))"

fun write_sectors :: "(nat \<Rightarrow> u8 list) \<Rightarrow> nat \<Rightarrow> nat \<Rightarrow> u8 list \<Rightarrow> nat \<Rightarrow> u8 list" where
  "write_sectors sec lba 0 data = sec"
| "write_sectors sec lba (Suc n) data = write_sectors (sec(lba := take 512 data)) (lba + 1) n (drop 512 data)"

definition blk_write :: "u8 \<Rightarrow> u8 \<Rightarrow> nat \<Rightarrow> nat \<Rightarrow> u8 list \<Rightarrow> disk \<Rightarrow> int \<times> disk" where
  "blk_write ty drv lba count buf d =
     (let (ok, n) = outcome d ty count in
      (if ok then 0 else - 1,
       d\<lparr>dk_sec := (dk_sec d)(ty := (dk_sec d ty)(drv := write_sectors (dk_sec d ty drv) lba n buf)),
         dk_plan := tl (dk_plan d)\<rparr>))"

section \<open>Partition tables\<close>

definition PART_SCHEME_NONE :: nat where "PART_SCHEME_NONE = 0"
definition PART_SCHEME_MBR :: nat where "PART_SCHEME_MBR = 1"
definition PART_SCHEME_GPT :: nat where "PART_SCHEME_GPT = 2"

record mbr_partition =
  mp_type :: u8
  mp_lba_start :: nat
  mp_sector_count :: nat

definition mbr_entry :: "u8 list \<Rightarrow> nat \<Rightarrow> mbr_partition" where
  "mbr_entry mbr i =
     \<lparr>mp_type = byte_at mbr (446 + 16 * i + 4), mp_lba_start = le32 mbr (446 + 16 * i + 8),
      mp_sector_count = le32 mbr (446 + 16 * i + 12)\<rparr>"

definition zero_sector :: "u8 list" where
  "zero_sector = replicate 512 0"

definition blk_detect_scheme :: "u8 \<Rightarrow> u8 \<Rightarrow> disk \<Rightarrow> nat \<times> disk" where
  "blk_detect_scheme ty drv d =
     (let (rc, mbr, d) = blk_read ty drv 0 1 zero_sector d in
      if rc \<noteq> 0 then (PART_SCHEME_NONE, d)
      else if byte_at mbr 510 \<noteq> 0x55 \<or> byte_at mbr 511 \<noteq> 0xAA then (PART_SCHEME_NONE, d)
      else if \<exists>i \<in> set [0 ..< 4]. mp_type (mbr_entry mbr i) = 0xEE then (PART_SCHEME_GPT, d)
      else (PART_SCHEME_MBR, d))"

definition blk_read_mbr_partitions :: "u8 \<Rightarrow> u8 \<Rightarrow> disk \<Rightarrow> int \<times> mbr_partition list \<times> disk" where
  "blk_read_mbr_partitions ty drv d =
     (let (rc, mbr, d) = blk_read ty drv 0 1 zero_sector d in
      if rc \<noteq> 0 then (- 1, [], d)
      else if byte_at mbr 510 \<noteq> 0x55 \<or> byte_at mbr 511 \<noteq> 0xAA then (- 2, [], d)
      else (0, map (mbr_entry mbr) [0 ..< 4], d))"

definition ata_read_partitions :: "u8 \<Rightarrow> disk \<Rightarrow> int \<times> mbr_partition list \<times> disk" where
  "ata_read_partitions drv d =
     (let (rc, mbr, d) = blk_read DRIVE_TYPE_ATA drv 0 1 zero_sector d in
      if rc \<noteq> 0 then (- 1, [], d)
      else if byte_at mbr 510 \<noteq> 0x55 \<or> byte_at mbr 511 \<noteq> 0xAA then (- 2, [], d)
      else (0, map (mbr_entry mbr) [0 ..< 4], d))"

text \<open>A GPT entry is its 128 bytes; the type GUID is the first 16.\<close>

definition guid_is_zero :: "u8 list \<Rightarrow> bool" where
  "guid_is_zero g \<longleftrightarrow> le32 g 0 = 0 \<and> le16 g 4 = 0 \<and> le16 g 6 = 0 \<and> (\<forall>i \<in> set [8 ..< 16]. byte_at g i = 0)"

function gpt_entries :: "u8 \<Rightarrow> u8 \<Rightarrow> nat \<Rightarrow> nat \<Rightarrow> nat \<Rightarrow> nat \<Rightarrow> u8 list \<Rightarrow> u8 list list \<Rightarrow> disk \<Rightarrow>
    int \<times> u8 list list \<times> disk" where
  "gpt_entries ty drv entry_lba entry_size num i sec found d =
     (if i < num then
        let per = 512 div entry_size; sec_idx = i div per; sec_off = (i mod per) * entry_size;
            (rc, sec, d) = (if sec_off = 0 then blk_read ty drv (entry_lba + sec_idx) 1 sec d else (0, sec, d))
        in if rc \<noteq> 0 then (- 1, found, d)
           else
             let pe = take 128 (drop sec_off sec) in
             gpt_entries ty drv entry_lba entry_size num (i + 1) sec
               (if guid_is_zero pe then found else found @ [pe]) d
      else (int (length found), found, d))"
  by pat_completeness auto
termination
  by (relation "measure (\<lambda>(ty, drv, l, e, num, i, sec, found, d). num - i)") auto

declare gpt_entries.simps [simp del]

definition blk_read_gpt :: "u8 \<Rightarrow> u8 \<Rightarrow> nat \<Rightarrow> disk \<Rightarrow> int \<times> u8 list list \<times> disk" where
  "blk_read_gpt ty drv mx d =
     (let (rc, hdr, d) = blk_read ty drv 1 1 zero_sector d in
      if rc \<noteq> 0 then (- 1, [], d)
      else if take 8 hdr \<noteq> [0x45, 0x46, 0x49, 0x20, 0x50, 0x41, 0x52, 0x54] then (- 2, [], d)
      else
        let num = le32 hdr 80; entry_size = le32 hdr 84; entry_lba = le64 hdr 72 in
        if entry_size < 128 \<or> entry_size > 512 then (- 3, [], d)
        else gpt_entries ty drv entry_lba entry_size (if num > mx then mx else num) 0 zero_sector [] d)"

section \<open>Laws\<close>

text \<open>Every sector has 512 bytes.\<close>

definition disk_ok :: "disk \<Rightarrow> bool" where
  "disk_ok d \<longleftrightarrow> (\<forall>ty drv lba. length (dk_sec d ty drv lba) = 512)"

lemma length_read_sectors: "disk_ok d \<Longrightarrow> length (read_sectors d ty drv lba n) = 512 * n"
  by (induction n) (simp_all add: read_sectors_def disk_ok_def)

lemma read_sectors_one [simp]: "read_sectors d ty drv lba (Suc 0) = dk_sec d ty drv lba"
  by (simp add: read_sectors_def)

lemma write_sectors_at:
  "write_sectors sec lba n data a =
     (if lba \<le> a \<and> a < lba + n then take 512 (drop (512 * (a - lba)) data) else sec a)"
proof (induction n arbitrary: sec lba data)
  case (Suc n)
  have "512 * (a - lba) = 512 * (a - (lba + 1)) + 512" if "lba + 1 \<le> a" using that by simp
  then show ?case using Suc by (cases "a = lba") (auto simp: add.commute)
qed auto

lemma overwrite_full: "length buf \<le> length data \<Longrightarrow> overwrite buf data = data"
  by (simp add: overwrite_def)

lemma slice_overwrite: "i + n \<le> length data \<Longrightarrow> take n (drop i (overwrite buf data)) = take n (drop i data)"
  by (simp add: overwrite_def)

text \<open>A device without pending faults.\<close>

definition healthy :: "disk \<Rightarrow> bool" where
  "healthy d \<longleftrightarrow> (\<forall>x \<in> set (dk_plan d). x = None)"

lemma healthy_outcome: "healthy d \<Longrightarrow> n \<le> blk_max ty \<Longrightarrow> outcome d ty n = (True, n)"
  by (cases "dk_plan d") (auto simp: healthy_def outcome_def split: list.split option.split)

lemma one_le_blk_max [simp]: "Suc 0 \<le> blk_max ty"
  by (simp add: blk_max_def)

lemma healthy_tl [simp]: "healthy d \<Longrightarrow> healthy (d\<lparr>dk_plan := tl (dk_plan d)\<rparr>)"
  by (cases "dk_plan d") (auto simp: healthy_def)

lemma blk_read_healthy:
  "healthy d \<Longrightarrow> n \<le> blk_max ty \<Longrightarrow> blk_read ty drv lba n buf d =
     (0, overwrite buf (read_sectors d ty drv lba n), d\<lparr>dk_plan := tl (dk_plan d)\<rparr>)"
  by (simp add: blk_read_def healthy_outcome)

lemma blk_write_healthy:
  "healthy d \<Longrightarrow> n \<le> blk_max ty \<Longrightarrow> blk_write ty drv lba n buf d =
     (0, d\<lparr>dk_sec := (dk_sec d)(ty := (dk_sec d ty)(drv := write_sectors (dk_sec d ty drv) lba n buf)),
          dk_plan := tl (dk_plan d)\<rparr>)"
  by (simp add: blk_write_def healthy_outcome)

end
