(* ===== verification/Fat32.thy ===== *)
theory Fat32
  imports Disk
begin

text \<open>
  \<open>fs/fat32.c\<close> and \<open>fs/fat32.h\<close>: the FAT32 driver. The state holds the fixed pools (volumes, nodes,
  node information), the one-sector FAT cache with its key, and the block devices. A pointer into a
  pool is its index. \<open>uint32_t\<close> and \<open>uint64_t\<close> values are natural numbers; the places where the code
  can wrap are written out. The scratch buffers \<open>sector_buf\<close> and \<open>cluster_buf\<close> are filled before
  every use and are local. A walk along a cluster chain may not end on a corrupted FAT: those loops
  are \<open>partial_function (option)\<close> and \<open>None\<close> is a call that does not return.
\<close>

section \<open>Data\<close>

definition MAX_FAT32_FS :: nat where "MAX_FAT32_FS = 4"
definition MAX_VFS_NODES :: nat where "MAX_VFS_NODES = 128"
definition FAT32_MAX_CLUSTER_SECTORS :: nat where "FAT32_MAX_CLUSTER_SECTORS = 128"
definition MAX_FILENAME :: nat where "MAX_FILENAME = 128"
definition FAT32_EOC :: nat where "FAT32_EOC = 0x0FFFFFF8"
definition FAT32_ATTR_LFN :: u8 where "FAT32_ATTR_LFN = 0x0F"
definition FAT32_ATTR_VOLUME_ID :: u8 where "FAT32_ATTR_VOLUME_ID = 0x08"
definition FAT32_ATTR_DIRECTORY :: u8 where "FAT32_ATTR_DIRECTORY = 0x10"
definition FAT32_ATTR_ARCHIVE :: u8 where "FAT32_ATTR_ARCHIVE = 0x20"
definition VFS_FILE :: u8 where "VFS_FILE = 0x01"
definition VFS_DIRECTORY :: u8 where "VFS_DIRECTORY = 0x02"
definition VFS_MOUNTPOINT :: u8 where "VFS_MOUNTPOINT = 0x04"
definition FS_FAT32 :: nat where "FS_FAT32 = 2"

record fat32_fs =
  fs_drive :: u8
  fs_drive_type :: u8
  fs_part_lba :: nat
  fs_spc :: nat
  fs_reserved :: nat
  fs_num_fats :: nat
  fs_fat_size :: nat
  fs_root_cluster :: nat
  fs_fat_start_lba :: nat
  fs_data_start_lba :: nat
  fs_total_sectors :: nat
  fs_total_clusters :: nat
  fs_next_free_hint :: nat
  fs_volume_label :: "u8 list"

record fat32_file_info =
  fi_fs :: nat
  fi_has_dirent :: bool
  fi_dirent_lba :: nat
  fi_dirent_off :: nat

text \<open>The operations of a node whose function pointers the driver has set.\<close>

datatype node_op = Op_read | Op_write | Op_readdir | Op_finddir | Op_create | Op_unlink | Op_rename

record vfs_node =
  vn_name :: "u8 list"
  vn_type :: u8
  vn_size :: nat
  vn_inode :: nat
  vn_ops :: "node_op list"
  vn_parent :: "nat option"
  vn_private :: "nat option"

record dirent =
  de_name :: "u8 list"
  de_size :: nat
  de_type :: u8

record fat_state =
  ft_disk :: disk
  ft_fs :: "fat32_fs list"
  ft_nodes :: "vfs_node list"
  ft_infos :: "fat32_file_info list"
  ft_buf :: "u8 list"
  ft_cached :: "(nat \<times> u8 \<times> u8) option"

text \<open>The pools hold the used entries; \<open>ft_cached\<close> is the key of the cached FAT sector (\<open>None\<close> before the
  first read, when the key in the code equals no real sector).\<close>

definition node_zero :: vfs_node where
  "node_zero = \<lparr>vn_name = [], vn_type = 0, vn_size = 0, vn_inode = 0, vn_ops = [], vn_parent = None, vn_private = None\<rparr>"

definition alloc_node :: "fat_state \<Rightarrow> nat option \<times> fat_state" where
  "alloc_node st = (if length (ft_nodes st) \<ge> MAX_VFS_NODES then (None, st)
     else (Some (length (ft_nodes st)), st\<lparr>ft_nodes := ft_nodes st @ [node_zero]\<rparr>))"

definition fs_zero :: fat32_fs where
  "fs_zero = \<lparr>fs_drive = 0, fs_drive_type = 0, fs_part_lba = 0, fs_spc = 0, fs_reserved = 0, fs_num_fats = 0,
     fs_fat_size = 0, fs_root_cluster = 0, fs_fat_start_lba = 0, fs_data_start_lba = 0, fs_total_sectors = 0,
     fs_total_clusters = 0, fs_next_free_hint = 0, fs_volume_label = replicate 12 0\<rparr>"

definition alloc_fs :: "fat_state \<Rightarrow> nat option \<times> fat_state" where
  "alloc_fs st = (if length (ft_fs st) \<ge> MAX_FAT32_FS then (None, st)
     else (Some (length (ft_fs st)), st\<lparr>ft_fs := ft_fs st @ [fs_zero]\<rparr>))"

definition finfo_zero :: fat32_file_info where
  "finfo_zero = \<lparr>fi_fs = 0, fi_has_dirent = False, fi_dirent_lba = 0, fi_dirent_off = 0\<rparr>"

definition alloc_finfo :: "fat_state \<Rightarrow> nat option \<times> fat_state" where
  "alloc_finfo st = (if length (ft_infos st) \<ge> MAX_VFS_NODES then (None, st)
     else (Some (length (ft_infos st)), st\<lparr>ft_infos := ft_infos st @ [finfo_zero]\<rparr>))"

text \<open>Sector transfers of a volume.\<close>

definition fs_read :: "fat32_fs \<Rightarrow> nat \<Rightarrow> nat \<Rightarrow> u8 list \<Rightarrow> fat_state \<Rightarrow> int \<times> u8 list \<times> fat_state" where
  "fs_read fs lba n buf st =
     (let (rc, buf, d) = blk_read (fs_drive_type fs) (fs_drive fs) lba n buf (ft_disk st) in
      (rc, buf, st\<lparr>ft_disk := d\<rparr>))"

definition fs_write :: "fat32_fs \<Rightarrow> nat \<Rightarrow> nat \<Rightarrow> u8 list \<Rightarrow> fat_state \<Rightarrow> int \<times> fat_state" where
  "fs_write fs lba n buf st =
     (let (rc, d) = blk_write (fs_drive_type fs) (fs_drive fs) lba n buf (ft_disk st) in (rc, st\<lparr>ft_disk := d\<rparr>))"

section \<open>Clusters and the FAT\<close>

definition cluster_to_lba :: "fat32_fs \<Rightarrow> nat \<Rightarrow> nat" where
  "cluster_to_lba fs cluster = fs_data_start_lba fs + sub32 cluster 2 * fs_spc fs"

text \<open>\<open>next & 0x0FFFFFFF\<close> and \<open>(value & 0x0FFFFFFF) | (old & 0xF0000000)\<close>.\<close>

definition fat_link :: "nat \<Rightarrow> nat" where
  "fat_link e = unat ((of_nat e :: u32) AND 0x0FFFFFFF)"

definition fat_merge :: "nat \<Rightarrow> nat \<Rightarrow> nat" where
  "fat_merge value old = unat ((of_nat value AND 0x0FFFFFFF) OR (of_nat old AND 0xF0000000) :: u32)"

definition fat32_next_cluster :: "fat32_fs \<Rightarrow> nat \<Rightarrow> fat_state \<Rightarrow> nat \<times> fat_state" where
  "fat32_next_cluster fs cluster st =
     (let fat_offset = mul32 cluster 4;
          fat_sector = fs_fat_start_lba fs + fat_offset div 512;
          entry_off = fat_offset mod 512;
          key = (fat_sector, fs_drive_type fs, fs_drive fs);
          (rc, st) = (if ft_cached st \<noteq> Some key
            then let (rc, buf, st) = fs_read fs fat_sector 1 (ft_buf st) st;
                     st = st\<lparr>ft_buf := buf\<rparr>
                 in (rc, if rc \<noteq> 0 then st else st\<lparr>ft_cached := Some key\<rparr>)
            else (0, st))
      in if rc \<noteq> 0 then (FAT32_EOC, st) else (fat_link (le32 (ft_buf st) entry_off), st))"

function fat_copies :: "fat32_fs \<Rightarrow> nat \<Rightarrow> nat \<Rightarrow> nat \<Rightarrow> nat \<Rightarrow> fat_state \<Rightarrow> int \<times> fat_state" where
  "fat_copies fs sector_idx entry_off value copy st =
     (if copy < fs_num_fats fs then
        let fat_sector = fs_fat_start_lba fs + copy * fs_fat_size fs + sector_idx;
            (rc, buf, st) = fs_read fs fat_sector 1 zero_sector st
        in if rc \<noteq> 0 then (- 1, st)
           else
             let buf = put_le32 buf entry_off (fat_merge value (le32 buf entry_off));
                 (rc, st) = fs_write fs fat_sector 1 buf st
             in if rc \<noteq> 0 then (- 1, st) else fat_copies fs sector_idx entry_off value (copy + 1) st
      else (0, st))"
  by pat_completeness auto
termination
  by (relation "measure (\<lambda>(fs, i, e, v, copy, st). fs_num_fats fs - copy)") auto

declare fat_copies.simps [simp del]

definition fat32_set_fat_entry :: "fat32_fs \<Rightarrow> nat \<Rightarrow> nat \<Rightarrow> fat_state \<Rightarrow> int \<times> fat_state" where
  "fat32_set_fat_entry fs cluster value st =
     (let fat_offset = mul32 cluster 4; sector_idx = fat_offset div 512; entry_off = fat_offset mod 512;
          (rc, st) = fat_copies fs sector_idx entry_off value 0 st
      in if rc \<noteq> 0 then (- 1, st)
         else
           let key = (fs_fat_start_lba fs + sector_idx, fs_drive_type fs, fs_drive fs) in
           (0, if ft_cached st = Some key
               then st\<lparr>ft_buf := put_le32 (ft_buf st) entry_off (fat_merge value (le32 (ft_buf st) entry_off))\<rparr>
               else st))"

text \<open>The first free cluster \<open>c\<close> with \<open>c \<le> hi\<close>; \<open>None\<close> when there is none.\<close>

function first_free :: "fat32_fs \<Rightarrow> nat \<Rightarrow> nat \<Rightarrow> fat_state \<Rightarrow> nat option \<times> fat_state" where
  "first_free fs c hi st =
     (if c \<le> hi then
        let (n, st) = fat32_next_cluster fs c st in
        if n = 0 then (Some c, st) else first_free fs (c + 1) hi st
      else (None, st))"
  by pat_completeness auto
termination
  by (relation "measure (\<lambda>(fs, c, hi, st). Suc hi - c)") auto

declare first_free.simps [simp del]

definition set_hint :: "nat \<Rightarrow> nat \<Rightarrow> fat_state \<Rightarrow> fat_state" where
  "set_hint f h st = st\<lparr>ft_fs := (ft_fs st)[f := (ft_fs st ! f)\<lparr>fs_next_free_hint := h\<rparr>]\<rparr>"

definition search_start :: "fat32_fs \<Rightarrow> nat \<Rightarrow> nat" where
  "search_start fs max_cluster =
     (if fs_next_free_hint fs < 2 \<or> fs_next_free_hint fs > max_cluster then 2 else fs_next_free_hint fs)"

definition take_cluster :: "nat \<Rightarrow> nat \<Rightarrow> fat_state \<Rightarrow> nat \<times> fat_state" where
  "take_cluster f c st =
     (let (rc, st) = fat32_set_fat_entry (ft_fs st ! f) c FAT32_EOC st in
      if rc \<noteq> 0 then (0, st) else (c, set_hint f (c + 1) st))"

definition fat32_alloc_cluster :: "nat \<Rightarrow> fat_state \<Rightarrow> nat \<times> fat_state" where
  "fat32_alloc_cluster f st =
     (let fs = ft_fs st ! f; max_cluster = add32 (fs_total_clusters fs) 1; start = search_start fs max_cluster in
      case first_free fs start max_cluster st of
        (Some c, st) \<Rightarrow> take_cluster f c st
      | (None, st) \<Rightarrow>
          (case first_free fs 2 (start - 1) st of
             (Some c, st) \<Rightarrow> take_cluster f c st
           | (None, st) \<Rightarrow> (0, st)))"

text \<open>One pass of the run search: \<open>(best_start, best_len)\<close> over the clusters \<open>c \<le> hi\<close>.\<close>

function scan_runs :: "fat32_fs \<Rightarrow> nat \<Rightarrow> nat \<Rightarrow> nat \<Rightarrow> nat \<times> nat \<Rightarrow> nat \<times> nat \<Rightarrow> fat_state \<Rightarrow>
    (nat \<times> nat) \<times> fat_state" where
  "scan_runs fs want c hi (run_start, run_len) (best_start, best_len) st =
     (if c \<le> hi then
        let (n, st) = fat32_next_cluster fs c st in
        if n = 0 then
          let run_start = (if run_len = 0 then c else run_start);
              run_len = run_len + 1;
              (best_start, best_len) =
                (if run_len > best_len then (run_start, run_len) else (best_start, best_len))
          in if best_len \<ge> want then ((best_start, best_len), st)
             else scan_runs fs want (c + 1) hi (run_start, run_len) (best_start, best_len) st
        else scan_runs fs want (c + 1) hi (run_start, 0) (best_start, best_len) st
      else ((best_start, best_len), st))"
  by pat_completeness auto
termination
  by (relation "measure (\<lambda>(fs, want, c, hi, run, best, st). Suc hi - c)") auto

declare scan_runs.simps [simp del]

text \<open>Chaining the run: entry \<open>i\<close> points to the next one, the last holds the end mark.\<close>

function chain_run :: "fat32_fs \<Rightarrow> nat \<Rightarrow> nat \<Rightarrow> nat \<Rightarrow> fat_state \<Rightarrow> bool \<times> fat_state" where
  "chain_run fs best_start best_len i st =
     (if i < best_len then
        let cl = best_start + i;
            nxt = (if i + 1 < best_len then cl + 1 else FAT32_EOC);
            (rc, st) = fat32_set_fat_entry fs cl nxt st
        in if rc \<noteq> 0 then (False, st) else chain_run fs best_start best_len (i + 1) st
      else (True, st))"
  by pat_completeness auto
termination
  by (relation "measure (\<lambda>(fs, b, l, i, st). l - i)") auto

declare chain_run.simps [simp del]

text \<open>The result: the first cluster (0 on failure), the value of \<open>*out_len\<close> when it is stored.\<close>

definition fat32_alloc_run :: "nat \<Rightarrow> nat \<Rightarrow> fat_state \<Rightarrow> (nat \<times> nat) \<times> fat_state" where
  "fat32_alloc_run f want st =
     (let want = (if want = 0 then 1 else want);
          fs = ft_fs st ! f; max_cluster = add32 (fs_total_clusters fs) 1; start = search_start fs max_cluster;
          (best, st) = (if start > max_cluster then ((0, 0), st) else scan_runs fs want start max_cluster (0, 0) (0, 0) st);
          (best, st) = (if snd best < want \<and> 2 \<le> start - 1 then scan_runs fs want 2 (start - 1) (0, 0) best st else (best, st));
          (best_start, best_len) = best
      in if best_len = 0 then ((0, 0), st)
         else
           let best_len = (if best_len > want then want else best_len);
               (ok, st) = chain_run fs best_start best_len 0 st
           in if \<not> ok then ((0, 0), st)
              else ((best_start, best_len), set_hint f (best_start + best_len) st))"


section \<open>Names\<close>

text \<open>The bytes up to the first space, at most \<open>n\<close> of them.\<close>

fun until_space :: "nat \<Rightarrow> u8 list \<Rightarrow> u8 list" where
  "until_space 0 xs = []"
| "until_space (Suc n) [] = []"
| "until_space (Suc n) (x # xs) = (if x = 0x20 then [] else x # until_space n xs)"

definition fat32_format_83 :: "u8 list \<Rightarrow> u8 list" where
  "fat32_format_83 raw =
     until_space 8 raw @ (if raw ! 8 \<noteq> 0x20 then 0x2E # until_space 3 (drop 8 raw) else [])"

definition upper :: "u8 \<Rightarrow> u8" where
  "upper c = (if c \<ge> 0x61 \<and> c \<le> 0x7A then c - 32 else c)"

text \<open>The base name: \<open>j\<close> characters stored so far, \<open>None\<close> when it does not fit.\<close>

fun parse_base :: "u8 list \<Rightarrow> nat \<Rightarrow> u8 list \<Rightarrow> (u8 list \<times> nat \<times> u8 list) option" where
  "parse_base raw j [] = Some (raw, j, [])"
| "parse_base raw j (c # cs) =
     (if c = 0 \<or> c = 0x2E then Some (raw, j, c # cs)
      else if j \<ge> 8 then None
      else parse_base (raw[j := upper c]) (j + 1) cs)"

fun parse_ext :: "u8 list \<Rightarrow> nat \<Rightarrow> u8 list \<Rightarrow> u8 list option" where
  "parse_ext raw k [] = Some raw"
| "parse_ext raw k (c # cs) =
     (if c = 0 then Some raw
      else if c = 0x2E \<or> k \<ge> 3 then None
      else parse_ext (raw[8 + k := upper c]) (k + 1) cs)"

definition fat32_parse_83 :: "u8 list \<Rightarrow> u8 list option" where
  "fat32_parse_83 name =
     (case parse_base (replicate 11 0x20) 0 name of
        None \<Rightarrow> None
      | Some (raw, j, rest) \<Rightarrow>
          if j = 0 then None
          else (case rest of
                  [] \<Rightarrow> Some raw
                | c # cs \<Rightarrow> if c = 0x2E then parse_ext raw 0 cs else Some raw))"

function strcasecmp_from :: "u8 list \<Rightarrow> u8 list \<Rightarrow> nat \<Rightarrow> int" where
  "strcasecmp_from a b i =
     (if cstr_at a i \<noteq> 0 \<and> cstr_at b i \<noteq> 0 then
        let ca = upper (cstr_at a i); cb = upper (cstr_at b i) in
        if ca \<noteq> cb then sint ca - sint cb else strcasecmp_from a b (i + 1)
      else uint (cstr_at a i) - uint (cstr_at b i))"
  by pat_completeness auto
termination
  by (relation "measure (\<lambda>(a, b, i). length a - i)") (auto simp: cstr_at_def split: if_splits)

declare strcasecmp_from.simps [simp del]

definition fat32_strcasecmp :: "u8 list \<Rightarrow> u8 list \<Rightarrow> int" where
  "fat32_strcasecmp a b = strcasecmp_from a b 0"

section \<open>Directory entries\<close>

text \<open>Entry \<open>e\<close> of a directory sector: its 32 bytes, and the fields.\<close>

definition entry :: "u8 list \<Rightarrow> nat \<Rightarrow> u8 list" where
  "entry buf e = take 32 (drop (32 * e) buf)"

definition ent_name :: "u8 list \<Rightarrow> u8 list" where "ent_name de = take 11 de"
definition ent_attr :: "u8 list \<Rightarrow> u8" where "ent_attr de = byte_at de 11"
definition ent_size :: "u8 list \<Rightarrow> nat" where "ent_size de = le32 de 28"
definition ent_cluster :: "u8 list \<Rightarrow> nat" where "ent_cluster de = le16 de 20 * 2 ^ 16 + le16 de 26"

definition fat32_entry_valid :: "u8 list \<Rightarrow> int" where
  "fat32_entry_valid de =
     (if byte_at de 0 = 0 then - 1
      else if byte_at de 0 = 0xE5 then 0
      else if ent_attr de = FAT32_ATTR_LFN then 0
      else if ent_attr de AND FAT32_ATTR_VOLUME_ID \<noteq> 0 then 0
      else 1)"

text \<open>The result of scanning one sector: the directory ends, entry \<open>e\<close> is the one, or go on with a
  count.\<close>

datatype dir_scan = Dir_End | Dir_Hit nat | Dir_More nat

function readdir_entries :: "u8 list \<Rightarrow> nat \<Rightarrow> nat \<Rightarrow> nat \<Rightarrow> dir_scan" where
  "readdir_entries buf e valid_count index =
     (if e < 16 then
        let v = fat32_entry_valid (entry buf e) in
        if v < 0 then Dir_End
        else if v = 0 then readdir_entries buf (e + 1) valid_count index
        else if valid_count = index then Dir_Hit e
        else readdir_entries buf (e + 1) (valid_count + 1) index
      else Dir_More valid_count)"
  by pat_completeness auto
termination
  by (relation "measure (\<lambda>(buf, e, n, i). 16 - e)") auto

declare readdir_entries.simps [simp del]

text \<open>The sectors of one cluster; a found entry comes with its bytes, a read error ends the search.\<close>

datatype 'a walk = Walk_Stop | Walk_Hit 'a | Walk_More nat

function readdir_sectors :: "fat32_fs \<Rightarrow> nat \<Rightarrow> nat \<Rightarrow> nat \<Rightarrow> nat \<Rightarrow> fat_state \<Rightarrow> u8 list walk \<times> fat_state" where
  "readdir_sectors fs lba s valid_count index st =
     (if s < fs_spc fs then
        let (rc, buf, st) = fs_read fs (lba + s) 1 zero_sector st in
        if rc \<noteq> 0 then (Walk_Stop, st)
        else (case readdir_entries buf 0 valid_count index of
                Dir_End \<Rightarrow> (Walk_Stop, st)
              | Dir_Hit e \<Rightarrow> (Walk_Hit (entry buf e), st)
              | Dir_More n \<Rightarrow> readdir_sectors fs lba (s + 1) n index st)
      else (Walk_More valid_count, st))"
  by pat_completeness auto
termination
  by (relation "measure (\<lambda>(fs, lba, s, n, i, st). fs_spc fs - s)") auto

declare readdir_sectors.simps [simp del]

partial_function (option) readdir_chain :: "fat32_fs \<Rightarrow> nat \<Rightarrow> nat \<Rightarrow> nat \<Rightarrow> fat_state \<Rightarrow>
    (u8 list option \<times> fat_state) option" where
  "readdir_chain fs cluster valid_count index st =
     (if cluster < FAT32_EOC then
        (case readdir_sectors fs (cluster_to_lba fs cluster) 0 valid_count index st of
           (Walk_Stop, st) \<Rightarrow> Some (None, st)
         | (Walk_Hit de, st) \<Rightarrow> Some (Some de, st)
         | (Walk_More n, st) \<Rightarrow>
             (let (c, st) = fat32_next_cluster fs cluster st in readdir_chain fs c n index st))
      else Some (None, st))"

definition fat32_readdir :: "nat \<Rightarrow> nat \<Rightarrow> fat_state \<Rightarrow> (dirent option \<times> fat_state) option" where
  "fat32_readdir node index st =
     (case vn_private (ft_nodes st ! node) of
        None \<Rightarrow> Some (None, st)
      | Some fi \<Rightarrow>
          map_option (\<lambda>(r, st). (map_option (\<lambda>de.
              \<lparr>de_name = fat32_format_83 (ent_name de), de_size = ent_size de,
               de_type = (if ent_attr de AND FAT32_ATTR_DIRECTORY \<noteq> 0 then VFS_DIRECTORY else VFS_FILE)\<rparr>) r, st))
            (readdir_chain (ft_fs st ! fi_fs (ft_infos st ! fi)) (vn_inode (ft_nodes st ! node)) 0 index st))"

subsection \<open>Lookup\<close>

function find_entries :: "u8 list \<Rightarrow> nat \<Rightarrow> u8 list \<Rightarrow> dir_scan" where
  "find_entries buf e name =
     (if e < 16 then
        let v = fat32_entry_valid (entry buf e) in
        if v < 0 then Dir_End
        else if v = 0 then find_entries buf (e + 1) name
        else if fat32_strcasecmp (fat32_format_83 (ent_name (entry buf e))) name \<noteq> 0
          then find_entries buf (e + 1) name
        else Dir_Hit e
      else Dir_More 0)"
  by pat_completeness auto
termination
  by (relation "measure (\<lambda>(buf, e, name). 16 - e)") auto

declare find_entries.simps [simp del]

text \<open>A hit carries the sector, the entry number and the entry's bytes.\<close>

function find_sectors :: "fat32_fs \<Rightarrow> nat \<Rightarrow> nat \<Rightarrow> u8 list \<Rightarrow> fat_state \<Rightarrow> (nat \<times> nat \<times> u8 list) walk \<times> fat_state" where
  "find_sectors fs lba s name st =
     (if s < fs_spc fs then
        let (rc, buf, st) = fs_read fs (lba + s) 1 zero_sector st in
        if rc \<noteq> 0 then (Walk_Stop, st)
        else (case find_entries buf 0 name of
                Dir_End \<Rightarrow> (Walk_Stop, st)
              | Dir_Hit e \<Rightarrow> (Walk_Hit (lba + s, e, entry buf e), st)
              | Dir_More n \<Rightarrow> find_sectors fs lba (s + 1) name st)
      else (Walk_More 0, st))"
  by pat_completeness auto
termination
  by (relation "measure (\<lambda>(fs, lba, s, name, st). fs_spc fs - s)") auto

declare find_sectors.simps [simp del]

partial_function (option) find_chain :: "fat32_fs \<Rightarrow> nat \<Rightarrow> u8 list \<Rightarrow> fat_state \<Rightarrow>
    ((nat \<times> nat \<times> u8 list) option \<times> fat_state) option" where
  "find_chain fs cluster name st =
     (if cluster < FAT32_EOC then
        (case find_sectors fs (cluster_to_lba fs cluster) 0 name st of
           (Walk_Stop, st) \<Rightarrow> Some (None, st)
         | (Walk_Hit h, st) \<Rightarrow> Some (Some h, st)
         | (Walk_More n, st) \<Rightarrow> (let (c, st) = fat32_next_cluster fs cluster st in find_chain fs c name st))
      else Some (None, st))"

definition dir_ops :: "node_op list" where
  "dir_ops = [Op_readdir, Op_finddir, Op_create, Op_unlink, Op_rename]"

definition file_ops :: "node_op list" where
  "file_ops = [Op_read, Op_write]"

text \<open>Filling in a new node and its information record.\<close>

definition set_node :: "nat \<Rightarrow> vfs_node \<Rightarrow> fat_state \<Rightarrow> fat_state" where
  "set_node n x st = st\<lparr>ft_nodes := (ft_nodes st)[n := x]\<rparr>"

definition set_finfo :: "nat \<Rightarrow> fat32_file_info \<Rightarrow> fat_state \<Rightarrow> fat_state" where
  "set_finfo n x st = st\<lparr>ft_infos := (ft_infos st)[n := x]\<rparr>"

definition fat32_finddir :: "nat \<Rightarrow> u8 list \<Rightarrow> fat_state \<Rightarrow> (nat option \<times> fat_state) option" where
  "fat32_finddir node name st =
     (case vn_private (ft_nodes st ! node) of
        None \<Rightarrow> Some (None, st)
      | Some nfi \<Rightarrow>
          let f = fi_fs (ft_infos st ! nfi) in
          (case find_chain (ft_fs st ! f) (vn_inode (ft_nodes st ! node)) name st of
             None \<Rightarrow> None
           | Some (None, st) \<Rightarrow> Some (None, st)
           | Some (Some (lba, e, de), st) \<Rightarrow>
               (case alloc_node st of
                  (None, st) \<Rightarrow> Some (None, st)
                | (Some found, st) \<Rightarrow>
                    (case alloc_finfo st of
                       (None, st) \<Rightarrow> Some (None, st)
                     | (Some fi, st) \<Rightarrow>
                         let isdir = (ent_attr de AND FAT32_ATTR_DIRECTORY \<noteq> 0);
                             st = set_finfo fi \<lparr>fi_fs = f, fi_has_dirent = True, fi_dirent_lba = lba,
                               fi_dirent_off = 32 * e\<rparr> st
                         in Some (Some found, set_node found
                              \<lparr>vn_name = cstr_of (fat32_format_83 (ent_name de)),
                               vn_type = (if isdir then VFS_DIRECTORY else VFS_FILE),
                               vn_size = ent_size de, vn_inode = ent_cluster de,
                               vn_ops = (if isdir then dir_ops else file_ops),
                               vn_parent = Some node, vn_private = Some fi\<rparr> st)))))"


section \<open>Reading\<close>

text \<open>Byte position of sector \<open>s\<close> of the cluster at \<open>pos\<close>, a \<open>uint32_t\<close>.\<close>

definition sec_start :: "nat \<Rightarrow> nat \<Rightarrow> nat" where
  "sec_start pos s = (pos + s * 512) mod 2 ^ 32"

text \<open>The first and last sector that overlap the window, from sector \<open>s\<close> on.\<close>

function find_run :: "nat \<Rightarrow> nat \<Rightarrow> nat \<Rightarrow> nat \<Rightarrow> nat \<Rightarrow> (nat \<times> nat) option \<Rightarrow> (nat \<times> nat) option" where
  "find_run spc pos offset n s run =
     (if s < spc then
        if add32 (sec_start pos s) 512 \<le> offset then find_run spc pos offset n (s + 1) run
        else if sec_start pos s \<ge> offset + n then run
        else find_run spc pos offset n (s + 1)
               (case run of None \<Rightarrow> Some (s, s) | Some (first_s, _) \<Rightarrow> Some (first_s, s))
      else run)"
  by pat_completeness auto
termination
  by (relation "measure (\<lambda>(spc, pos, offset, n, s, run). spc - s)") auto

declare find_run.simps [simp del]

definition copy_start :: "nat \<Rightarrow> nat \<Rightarrow> nat \<Rightarrow> nat" where
  "copy_start pos offset s = (if offset > sec_start pos s then sub32 offset (sec_start pos s) else 0)"

definition copy_len :: "nat \<Rightarrow> nat \<Rightarrow> nat \<Rightarrow> nat \<Rightarrow> nat \<Rightarrow> nat" where
  "copy_len pos offset n s moved =
     (let l = sub32 512 (copy_start pos offset s) in if l > sub32 n moved then sub32 n moved else l)"

text \<open>The copy of the sectors \<open>s \<le> last_s\<close> from the cluster buffer to the caller.\<close>

function read_copy :: "nat \<Rightarrow> nat \<Rightarrow> nat \<Rightarrow> nat \<Rightarrow> nat \<Rightarrow> u8 list \<Rightarrow> nat \<Rightarrow> u8 list \<Rightarrow> u8 list" where
  "read_copy pos offset n first_s last_s cbuf s out =
     (if s \<le> last_s then
        let l = copy_len pos offset n s (length out) in
        read_copy pos offset n first_s last_s cbuf (s + 1)
          (out @ take l (drop ((s - first_s) * 512 + copy_start pos offset s) cbuf))
      else out)"
  by pat_completeness auto
termination
  by (relation "measure (\<lambda>(pos, offset, n, f, last_s, cbuf, s, out). Suc last_s - s)") auto

declare read_copy.simps [simp del]

text \<open>Skipping whole clusters before the offset; the measure is what is left of the offset. With clusters of size 0, which a
  mount refuses, the code would follow the chain to its end; the test for it makes the recursion well-founded.\<close>

function skip_clusters :: "fat32_fs \<Rightarrow> nat \<Rightarrow> nat \<Rightarrow> nat \<Rightarrow> nat \<Rightarrow> fat_state \<Rightarrow> (nat \<times> nat) \<times> fat_state" where
  "skip_clusters fs csize offset pos cluster st =
     (if pos + csize \<le> offset \<and> cluster < FAT32_EOC \<and> 0 < csize then
        let (c, st) = fat32_next_cluster fs cluster st in skip_clusters fs csize offset (pos + csize) c st
      else ((pos, cluster), st))"
  by pat_completeness auto
termination
  by (relation "measure (\<lambda>(fs, csize, offset, pos, c, st). offset - pos)") auto

declare skip_clusters.simps [simp del]

text \<open>The transfer loop. \<open>None\<close> in the first component is a failed device read.\<close>

partial_function (option) read_clusters :: "fat32_fs \<Rightarrow> nat \<Rightarrow> nat \<Rightarrow> nat \<Rightarrow> nat \<Rightarrow> u8 list \<Rightarrow> fat_state \<Rightarrow>
    ((bool \<times> u8 list) \<times> fat_state) option" where
  "read_clusters fs offset n pos cluster out st =
     (if length out < n \<and> cluster < FAT32_EOC then
        (case find_run (fs_spc fs) pos offset n 0 None of
           None \<Rightarrow> Some ((True, out), st)
         | Some (first_s, last_s) \<Rightarrow>
             (let (rc, cbuf, st) = fs_read fs (cluster_to_lba fs cluster + first_s) (last_s - first_s + 1) [] st in
              if rc \<noteq> 0 then Some ((False, out), st)
              else
                let out = read_copy pos offset n first_s last_s cbuf first_s out;
                    (c, st) = fat32_next_cluster fs cluster st
                in read_clusters fs offset n (pos + fs_spc fs * 512) c out st))
      else Some ((True, out), st))"

text \<open>The result: the return value, the bytes stored in the caller's buffer, the state.\<close>

definition fat32_read :: "nat \<Rightarrow> nat \<Rightarrow> nat \<Rightarrow> fat_state \<Rightarrow> (int \<times> u8 list \<times> fat_state) option" where
  "fat32_read node offset n st =
     (let nd = ft_nodes st ! node in
      case vn_private nd of
        None \<Rightarrow> Some (- 1, [], st)
      | Some fi \<Rightarrow>
          let fs = ft_fs st ! fi_fs (ft_infos st ! fi) in
          if vn_type nd AND VFS_FILE = 0 then Some (- 1, [], st)
          else if offset \<ge> vn_size nd then Some (0, [], st)
          else
            let n = (if offset + n > vn_size nd then (vn_size nd - offset) mod 2 ^ 32 else n);
                ((pos, cluster), st) = skip_clusters fs (fs_spc fs * 512) offset 0 (vn_inode nd) st
            in map_option (\<lambda>((ok, out), st). (if \<not> ok \<and> length out = 0 then - 1 else int32 (length out), out, st))
                 (read_clusters fs offset n pos cluster [] st))"

section \<open>Writing\<close>

definition fat32_flush_dirent :: "nat \<Rightarrow> nat \<Rightarrow> fat_state \<Rightarrow> int \<times> fat_state" where
  "fat32_flush_dirent fi node st =
     (let info = ft_infos st ! fi; fs = ft_fs st ! fi_fs info; nd = ft_nodes st ! node in
      if \<not> fi_has_dirent info then (0, st)
      else
        let (rc, buf, st) = fs_read fs (fi_dirent_lba info) 1 zero_sector st in
        if rc \<noteq> 0 then (- 1, st)
        else
          let buf = put_le32 buf (fi_dirent_off info + 28) (vn_size nd mod 2 ^ 32);
              buf = put_le16 buf (fi_dirent_off info + 20) (vn_inode nd div 2 ^ 16);
              buf = put_le16 buf (fi_dirent_off info + 26) (vn_inode nd mod 2 ^ 16)
          in fs_write fs (fi_dirent_lba info) 1 buf st)"

text \<open>The walk to the last cluster: \<open>(tail, allocated_clusters)\<close>.\<close>

partial_function (option) find_tail :: "fat32_fs \<Rightarrow> nat \<Rightarrow> nat \<Rightarrow> fat_state \<Rightarrow> ((nat \<times> nat) \<times> fat_state) option" where
  "find_tail fs tail allocated st =
     (let (n, st) = fat32_next_cluster fs tail st in
      if n < FAT32_EOC then find_tail fs n (allocated + 1) st else Some ((tail, allocated), st))"

function zero_run :: "fat32_fs \<Rightarrow> nat \<Rightarrow> nat \<Rightarrow> nat \<Rightarrow> fat_state \<Rightarrow> bool \<times> fat_state" where
  "zero_run fs run_lba nsec zeroed st =
     (if zeroed < nsec then
        let chunk = (if nsec - zeroed > FAT32_MAX_CLUSTER_SECTORS then FAT32_MAX_CLUSTER_SECTORS else nsec - zeroed);
            (rc, st) = fs_write fs (run_lba + zeroed) chunk (replicate (chunk * 512) 0) st
        in if rc \<noteq> 0 then (False, st) else zero_run fs run_lba nsec (zeroed + chunk) st
      else (True, st))"
  by pat_completeness auto
termination
  by (relation "measure (\<lambda>(fs, l, nsec, zeroed, st). nsec - zeroed)")
    (auto simp: FAT32_MAX_CLUSTER_SECTORS_def)

declare zero_run.simps [simp del]

text \<open>Appending runs until \<open>needed\<close> clusters are there or the volume is full. A run has at least one
  cluster, so the missing number shrinks; the guard \<open>0 < got\<close> repeats that.\<close>

function grow_chain :: "nat \<Rightarrow> nat \<Rightarrow> nat \<Rightarrow> nat \<Rightarrow> fat_state \<Rightarrow> nat \<times> fat_state" where
  "grow_chain f needed tail allocated st =
     (if allocated < needed then
        let fs = ft_fs st ! f;
            ((run_start, got), st) = fat32_alloc_run f (needed - allocated) st
        in if run_start = 0 then (allocated, st)
           else
             let (ok, st) = zero_run fs (cluster_to_lba fs run_start) (got * fs_spc fs) 0 st in
             if \<not> ok then (allocated, st)
             else
               let (rc, st) = fat32_set_fat_entry fs tail run_start st in
               if rc \<noteq> 0 \<or> got = 0 then (allocated, st)
               else grow_chain f needed (run_start + got - 1) (allocated + got) st
      else (allocated, st))"
  by pat_completeness auto
termination
  by (relation "measure (\<lambda>(f, needed, tail, allocated, st). needed - allocated)") auto

declare grow_chain.simps [simp del]

text \<open>The copy from the caller into the cluster buffer: the new buffer and the bytes taken so far.\<close>

definition splice :: "u8 list \<Rightarrow> nat \<Rightarrow> u8 list \<Rightarrow> u8 list" where
  "splice buf at data = take at buf @ data @ drop (at + length data) buf"

function write_copy :: "nat \<Rightarrow> nat \<Rightarrow> nat \<Rightarrow> nat \<Rightarrow> nat \<Rightarrow> u8 list \<Rightarrow> nat \<Rightarrow> u8 list \<Rightarrow> nat \<Rightarrow> u8 list \<times> nat" where
  "write_copy pos offset n first_s last_s data s cbuf written =
     (if s \<le> last_s then
        let l = copy_len pos offset n s written in
        write_copy pos offset n first_s last_s data (s + 1)
          (splice cbuf ((s - first_s) * 512 + copy_start pos offset s) (take l (drop written data))) (written + l)
      else (cbuf, written))"
  by pat_completeness auto
termination
  by (relation "measure (\<lambda>(pos, offset, n, f, last_s, data, s, cbuf, w). Suc last_s - s)") auto

declare write_copy.simps [simp del]

text \<open>The read-modify-write loop; the result is \<open>bytes_written\<close>. It is counted before the write back:
  a failing write back leaves the loop with the bytes of that cluster counted.\<close>

partial_function (option) write_clusters :: "fat32_fs \<Rightarrow> nat \<Rightarrow> nat \<Rightarrow> u8 list \<Rightarrow> nat \<Rightarrow> nat \<Rightarrow> nat \<Rightarrow> fat_state \<Rightarrow>
    (nat \<times> fat_state) option" where
  "write_clusters fs offset n data pos cluster written st =
     (if written < n \<and> cluster < FAT32_EOC then
        (case find_run (fs_spc fs) pos offset n 0 None of
           None \<Rightarrow> Some (written, st)
         | Some (first_s, last_s) \<Rightarrow>
             (let lba = cluster_to_lba fs cluster + first_s; run = last_s - first_s + 1;
                  (rc, cbuf, st) = fs_read fs lba run [] st in
              if rc \<noteq> 0 then Some (written, st)
              else
                let (cbuf, written) = write_copy pos offset n first_s last_s data first_s cbuf written;
                    (rc, st) = fs_write fs lba run cbuf st
                in if rc \<noteq> 0 then Some (written, st)
                   else
                     let (c, st) = fat32_next_cluster fs cluster st in
                     write_clusters fs offset n data (pos + fs_spc fs * 512) c written st))
      else Some (written, st))"

definition upd_node :: "nat \<Rightarrow> (vfs_node \<Rightarrow> vfs_node) \<Rightarrow> fat_state \<Rightarrow> fat_state" where
  "upd_node n g st = st\<lparr>ft_nodes := (ft_nodes st)[n := g (ft_nodes st ! n)]\<rparr>"

text \<open>The first cluster of a file without one.\<close>

definition first_cluster :: "nat \<Rightarrow> nat \<Rightarrow> fat_state \<Rightarrow> bool \<times> fat_state" where
  "first_cluster f node st =
     (if vn_inode (ft_nodes st ! node) = 0 then
        let (c, st) = fat32_alloc_cluster f st in
        if c = 0 then (False, st) else (True, upd_node node (\<lambda>nd. nd\<lparr>vn_inode := c\<rparr>) st)
      else (True, st))"

text \<open>The end of a write: the node's size and the directory entry follow what was written.\<close>

definition finish_write :: "nat \<Rightarrow> nat \<Rightarrow> nat \<Rightarrow> nat \<Rightarrow> fat_state \<Rightarrow> int \<times> fat_state" where
  "finish_write fi node offset written st =
     (if written = 0 then (- 1, st)
      else
        let st = (if offset + written > vn_size (ft_nodes st ! node)
                  then upd_node node (\<lambda>nd. nd\<lparr>vn_size := offset + written\<rparr>) st else st)
        in (int32 written, snd (fat32_flush_dirent fi node st)))"

definition fat32_write :: "nat \<Rightarrow> nat \<Rightarrow> u8 list \<Rightarrow> fat_state \<Rightarrow> (int \<times> fat_state) option" where
  "fat32_write node offset data st =
     (let nd = ft_nodes st ! node; n = length data in
      case vn_private nd of
        None \<Rightarrow> Some (- 1, st)
      | Some fi \<Rightarrow>
          let f = fi_fs (ft_infos st ! fi); fs = ft_fs st ! f in
          if vn_type nd AND VFS_FILE = 0 then Some (- 1, st)
          else if n = 0 then Some (0, st)
          else if offset > vn_size nd then Some (- 1, st)
          else
            let csize = fs_spc fs * 512;
                (ok, st) = first_cluster f node st
            in if \<not> ok then Some (- 1, st)
               else
                 let first = vn_inode (ft_nodes st ! node) in
                 case find_tail fs first 1 st of
                   None \<Rightarrow> None
                 | Some ((tail, allocated), st) \<Rightarrow>
                     let needed = ((offset + n + csize - 1) div csize) mod 2 ^ 32;
                         needed = (if needed = 0 then 1 else needed);
                         (allocated, st) = grow_chain f needed tail allocated st;
                         writable_end = allocated * csize;
                         n = (if offset + n > writable_end
                              then (if writable_end > offset then writable_end - offset else 0) else n)
                     in if n = 0 then Some (0, st)
                        else
                          let ((pos, cluster), st) = skip_clusters fs csize offset 0 first st in
                          map_option (\<lambda>(written, st). finish_write fi node offset written st)
                            (write_clusters fs offset n data pos cluster 0 st))"


section \<open>Creating\<close>

text \<open>The bytes of a new entry: name, archive attribute, cluster and size.\<close>

definition dirent_bytes :: "u8 list \<Rightarrow> nat \<Rightarrow> nat \<Rightarrow> u8 list" where
  "dirent_bytes raw cluster_val size_val =
     put_le32 (put_le16 (put_le16 (take 11 raw @ [FAT32_ATTR_ARCHIVE] @ replicate 20 0)
       20 (cluster_val div 2 ^ 16)) 26 (cluster_val mod 2 ^ 16)) 28 size_val"

function free_slot :: "u8 list \<Rightarrow> nat \<Rightarrow> nat option" where
  "free_slot buf e =
     (if e < 16 then
        if byte_at (entry buf e) 0 \<noteq> 0 \<and> byte_at (entry buf e) 0 \<noteq> 0xE5 then free_slot buf (e + 1) else Some e
      else None)"
  by pat_completeness auto
termination
  by (relation "measure (\<lambda>(buf, e). 16 - e)") auto

declare free_slot.simps [simp del]

datatype insert_res = Ins_Err | Ins_At nat nat | Ins_Full

function insert_sectors :: "fat32_fs \<Rightarrow> nat \<Rightarrow> nat \<Rightarrow> u8 list \<Rightarrow> fat_state \<Rightarrow> insert_res \<times> fat_state" where
  "insert_sectors fs lba s de st =
     (if s < fs_spc fs then
        let (rc, buf, st) = fs_read fs (lba + s) 1 zero_sector st in
        if rc \<noteq> 0 then (Ins_Err, st)
        else (case free_slot buf 0 of
                None \<Rightarrow> insert_sectors fs lba (s + 1) de st
              | Some e \<Rightarrow>
                  let (rc, st) = fs_write fs (lba + s) 1 (splice buf (32 * e) de) st in
                  if rc \<noteq> 0 then (Ins_Err, st) else (Ins_At (lba + s) (32 * e), st))
      else (Ins_Full, st))"
  by pat_completeness auto
termination
  by (relation "measure (\<lambda>(fs, lba, s, de, st). fs_spc fs - s)") auto

declare insert_sectors.simps [simp del]

partial_function (option) insert_chain :: "fat32_fs \<Rightarrow> nat \<Rightarrow> nat \<Rightarrow> u8 list \<Rightarrow> fat_state \<Rightarrow>
    ((insert_res \<times> nat) \<times> fat_state) option" where
  "insert_chain fs cluster last_cluster de st =
     (if cluster < FAT32_EOC then
        (case insert_sectors fs (cluster_to_lba fs cluster) 0 de st of
           (Ins_Full, st) \<Rightarrow> (let (c, st) = fat32_next_cluster fs cluster st in insert_chain fs c cluster de st)
         | (r, st) \<Rightarrow> Some ((r, last_cluster), st))
      else Some ((Ins_Full, last_cluster), st))"

text \<open>A full directory grows by one cluster.\<close>

definition grow_dir :: "nat \<Rightarrow> nat \<Rightarrow> u8 list \<Rightarrow> fat_state \<Rightarrow> (nat \<times> nat) option \<times> fat_state" where
  "grow_dir f last_cluster de st =
     (let fs = ft_fs st ! f; (new_cluster, st) = fat32_alloc_cluster f st in
      if new_cluster = 0 then (None, st)
      else
        let new_lba = cluster_to_lba fs new_cluster;
            (rc, st) = fs_write fs new_lba (fs_spc fs) (replicate (fs_spc fs * 512) 0) st
        in if rc \<noteq> 0 then (None, st)
           else
             let (rc, st) = fat32_set_fat_entry fs last_cluster new_cluster st in
             if rc \<noteq> 0 then (None, st)
             else
               let (rc, st) = fs_write fs new_lba 1 (splice zero_sector 0 de) st in
               if rc \<noteq> 0 then (None, st) else (Some (new_lba, 0), st))"

text \<open>The result: the place of the new entry, or \<open>None\<close> for the return value \<open>-1\<close>.\<close>

definition fat32_insert_dirent :: "nat \<Rightarrow> nat \<Rightarrow> u8 list \<Rightarrow> nat \<Rightarrow> nat \<Rightarrow> fat_state \<Rightarrow>
    ((nat \<times> nat) option \<times> fat_state) option" where
  "fat32_insert_dirent f dir raw cluster_val size_val st =
     (let de = dirent_bytes raw cluster_val size_val; cluster = vn_inode (ft_nodes st ! dir) in
      case insert_chain (ft_fs st ! f) cluster cluster de st of
        None \<Rightarrow> None
      | Some ((Ins_Err, _), st) \<Rightarrow> Some (None, st)
      | Some ((Ins_At lba off, _), st) \<Rightarrow> Some (Some (lba, off), st)
      | Some ((Ins_Full, last_cluster), st) \<Rightarrow> Some (grow_dir f last_cluster de st))"

definition fat32_create :: "nat \<Rightarrow> u8 list \<Rightarrow> fat_state \<Rightarrow> (nat option \<times> fat_state) option" where
  "fat32_create dir name st =
     (let nd = ft_nodes st ! dir in
      case vn_private nd of
        None \<Rightarrow> Some (None, st)
      | Some dfi \<Rightarrow>
          let f = fi_fs (ft_infos st ! dfi) in
          if vn_type nd AND VFS_DIRECTORY = 0 then Some (None, st)
          else (case fat32_parse_83 name of
                  None \<Rightarrow> Some (None, st)
                | Some raw \<Rightarrow>
                    (case fat32_insert_dirent f dir raw 0 0 st of
                       None \<Rightarrow> None
                     | Some (None, st) \<Rightarrow> Some (None, st)
                     | Some (Some (lba, off), st) \<Rightarrow>
                         (case alloc_node st of
                            (None, st) \<Rightarrow> Some (None, st)
                          | (Some node, st) \<Rightarrow>
                              (case alloc_finfo st of
                                 (None, st) \<Rightarrow> Some (None, st)
                               | (Some fi, st) \<Rightarrow>
                                   let st = set_finfo fi \<lparr>fi_fs = f, fi_has_dirent = True, fi_dirent_lba = lba,
                                         fi_dirent_off = off\<rparr> st
                                   in Some (Some node, set_node node
                                        \<lparr>vn_name = cstr_of (fat32_format_83 raw), vn_type = VFS_FILE, vn_size = 0,
                                         vn_inode = 0, vn_ops = file_ops, vn_parent = Some dir,
                                         vn_private = Some fi\<rparr> st))))))"

section \<open>Renaming and deleting\<close>

text \<open>Read the sector of an entry, change it, write it back.\<close>

definition patch_entry :: "nat \<Rightarrow> fat32_file_info \<Rightarrow> (u8 list \<Rightarrow> u8 list) \<Rightarrow> fat_state \<Rightarrow> bool \<times> fat_state" where
  "patch_entry f info g st =
     (let fs = ft_fs st ! f; (rc, buf, st) = fs_read fs (fi_dirent_lba info) 1 zero_sector st in
      if rc \<noteq> 0 then (False, st)
      else let (rc, st) = fs_write fs (fi_dirent_lba info) 1 (g buf) st in (rc = 0, st))"

definition fat32_rename :: "nat \<Rightarrow> u8 list \<Rightarrow> nat \<Rightarrow> u8 list \<Rightarrow> fat_state \<Rightarrow> (int \<times> fat_state) option" where
  "fat32_rename old_dir old_name new_dir new_name st =
     (case vn_private (ft_nodes st ! old_dir) of
        None \<Rightarrow> Some (- 1, st)
      | Some ofi \<Rightarrow>
          let f = fi_fs (ft_infos st ! ofi) in
          if vn_type (ft_nodes st ! old_dir) AND VFS_DIRECTORY = 0 \<or> vn_type (ft_nodes st ! new_dir) AND VFS_DIRECTORY = 0
          then Some (- 1, st)
          else (case fat32_parse_83 new_name of
                  None \<Rightarrow> Some (- 1, st)
                | Some new_raw \<Rightarrow>
                    (case fat32_finddir old_dir old_name st of
                       None \<Rightarrow> None
                     | Some (None, st) \<Rightarrow> Some (- 2, st)
                     | Some (Some target, st) \<Rightarrow>
                         let tn = ft_nodes st ! target; info = ft_infos st ! the (vn_private tn) in
                         if vn_type tn AND VFS_FILE = 0 then Some (- 3, st)
                         else if old_dir = new_dir then
                           let (ok, st) = patch_entry f info (\<lambda>buf. splice buf (fi_dirent_off info) new_raw) st
                           in Some (if ok then 0 else - 4, st)
                         else (case fat32_insert_dirent f new_dir new_raw (vn_inode tn) (vn_size tn mod 2 ^ 32) st of
                                 None \<Rightarrow> None
                               | Some (None, st) \<Rightarrow> Some (- 5, st)
                               | Some (Some _, st) \<Rightarrow>
                                   let (ok, st) = patch_entry f info (\<lambda>buf. buf[fi_dirent_off info := 0xE5]) st
                                   in Some (if ok then 0 else - 6, st)))))"

text \<open>Freeing a chain; the return codes of the FAT updates are not looked at.\<close>

partial_function (option) free_chain :: "fat32_fs \<Rightarrow> nat \<Rightarrow> fat_state \<Rightarrow> fat_state option" where
  "free_chain fs cluster st =
     (if cluster \<noteq> 0 \<and> cluster < FAT32_EOC then
        let (nxt, st) = fat32_next_cluster fs cluster st;
            (_, st) = fat32_set_fat_entry fs cluster 0 st
        in free_chain fs nxt st
      else Some st)"

definition fat32_unlink :: "nat \<Rightarrow> u8 list \<Rightarrow> fat_state \<Rightarrow> (int \<times> fat_state) option" where
  "fat32_unlink dir name st =
     (case vn_private (ft_nodes st ! dir) of
        None \<Rightarrow> Some (- 1, st)
      | Some dfi \<Rightarrow>
          let f = fi_fs (ft_infos st ! dfi) in
          if vn_type (ft_nodes st ! dir) AND VFS_DIRECTORY = 0 then Some (- 1, st)
          else (case fat32_finddir dir name st of
                  None \<Rightarrow> None
                | Some (None, st) \<Rightarrow> Some (- 2, st)
                | Some (Some target, st) \<Rightarrow>
                    let tn = ft_nodes st ! target; info = ft_infos st ! the (vn_private tn) in
                    if vn_type tn AND VFS_FILE = 0 then Some (- 3, st)
                    else (case free_chain (ft_fs st ! f) (vn_inode tn) st of
                            None \<Rightarrow> None
                          | Some st \<Rightarrow>
                              let (ok, st) = patch_entry f info (\<lambda>buf. buf[fi_dirent_off info := 0xE5]) st
                              in Some (if ok then 0 else - 4, st))))"

section \<open>Mounting\<close>

record mount_point =
  mt_path :: "u8 list"
  mt_root :: "nat option"
  mt_active :: bool
  mt_drive :: u8
  mt_partition :: u8
  mt_fs_type :: nat
  mt_part_lba :: nat
  mt_part_sectors :: nat

fun trim_label :: "nat \<Rightarrow> u8 list \<Rightarrow> u8 list" where
  "trim_label 0 lab = lab"
| "trim_label (Suc i) lab = (if lab ! i = 0x20 then trim_label i (lab[i := 0]) else lab)"

definition bpb_fs :: "u8 list \<Rightarrow> u8 \<Rightarrow> u8 \<Rightarrow> nat \<Rightarrow> fat32_fs" where
  "bpb_fs boot drive_type drive part_lba =
     (let reserved = le16 boot 14; num_fats = unat (byte_at boot 16); fat_size = le32 boot 36;
          spc = unat (byte_at boot 13); fat_start = part_lba + reserved;
          data_start = fat_start + mul32 num_fats fat_size;
          data_sectors = sub64 (le32 boot 32) (sub64 data_start part_lba)
      in \<lparr>fs_drive = drive, fs_drive_type = drive_type, fs_part_lba = part_lba, fs_spc = spc,
          fs_reserved = reserved, fs_num_fats = num_fats, fs_fat_size = fat_size,
          fs_root_cluster = le32 boot 44, fs_fat_start_lba = fat_start, fs_data_start_lba = data_start,
          fs_total_sectors = le32 boot 32, fs_total_clusters = (data_sectors div spc) mod 2 ^ 32,
          fs_next_free_hint = 2, fs_volume_label = trim_label 11 (take 11 (drop 71 boot) @ [0])\<rparr>)"

definition fat32_mount :: "u8 \<Rightarrow> u8 \<Rightarrow> nat \<Rightarrow> mount_point \<Rightarrow> fat_state \<Rightarrow> int \<times> mount_point \<times> fat_state" where
  "fat32_mount drive_type drive part_lba mp st =
     (let (rc, boot, d) = blk_read drive_type drive part_lba 1 zero_sector (ft_disk st); st = st\<lparr>ft_disk := d\<rparr> in
      if rc \<noteq> 0 then (- 1, mp, st)
      else if le16 boot 11 \<noteq> 512 then (- 2, mp, st)
      else if le16 boot 17 \<noteq> 0 then (- 3, mp, st)
      else if le16 boot 22 \<noteq> 0 then (- 3, mp, st)
      else if byte_at boot 13 = 0 then (- 3, mp, st)
      else if unat (byte_at boot 13) > FAT32_MAX_CLUSTER_SECTORS then (- 3, mp, st)
      else (case alloc_fs st of
              (None, st) \<Rightarrow> (- 4, mp, st)
            | (Some f, st) \<Rightarrow>
                let fs = bpb_fs boot drive_type drive part_lba;
                    st = st\<lparr>ft_fs := (ft_fs st)[f := fs]\<rparr>
                in case alloc_node st of
                     (None, st) \<Rightarrow> (- 5, mp, st)
                   | (Some root, st) \<Rightarrow>
                       (case alloc_finfo st of
                          (None, st) \<Rightarrow> (- 5, mp, st)
                        | (Some fi, st) \<Rightarrow>
                            let st = set_node root
                                  \<lparr>vn_name = [0x2F], vn_type = VFS_DIRECTORY OR VFS_MOUNTPOINT, vn_size = 0,
                                   vn_inode = fs_root_cluster fs, vn_ops = dir_ops, vn_parent = None,
                                   vn_private = Some fi\<rparr> st;
                                st = set_finfo fi (finfo_zero\<lparr>fi_fs := f, fi_has_dirent := False\<rparr>) st
                            in (0, mp\<lparr>mt_root := Some root, mt_drive := drive, mt_fs_type := FS_FAT32,
                                     mt_part_lba := part_lba, mt_active := True\<rparr>, st))))"

section \<open>Defragmentation\<close>

text \<open>The chain's length and whether each cluster follows its predecessor.\<close>

partial_function (option) defrag_scan :: "fat32_fs \<Rightarrow> nat \<Rightarrow> nat \<Rightarrow> bool \<Rightarrow> fat_state \<Rightarrow>
    ((nat \<times> bool) \<times> fat_state) option" where
  "defrag_scan fs prev chain_len already_ok st =
     (let (c, st) = fat32_next_cluster fs prev st in
      if c < FAT32_EOC then defrag_scan fs c (chain_len + 1) (already_ok \<and> c = prev + 1) st
      else Some ((chain_len, already_ok), st))"

fun free_run :: "fat32_fs \<Rightarrow> nat \<Rightarrow> nat \<Rightarrow> fat_state \<Rightarrow> fat_state" where
  "free_run fs c 0 st = st"
| "free_run fs c (Suc n) st = free_run fs (c + 1) n (snd (fat32_set_fat_entry fs c 0 st))"

text \<open>The copy of \<open>k\<close> clusters; \<open>False\<close> is a failed transfer.\<close>

fun copy_chain :: "fat32_fs \<Rightarrow> nat \<Rightarrow> nat \<Rightarrow> nat \<Rightarrow> fat_state \<Rightarrow> bool \<times> fat_state" where
  "copy_chain fs old_c new_c 0 st = (True, st)"
| "copy_chain fs old_c new_c (Suc k) st =
     (let (rc, cbuf, st) = fs_read fs (cluster_to_lba fs old_c) (fs_spc fs) [] st in
      if rc \<noteq> 0 then (False, st)
      else
        let (rc, st) = fs_write fs (cluster_to_lba fs new_c) (fs_spc fs) cbuf st in
        if rc \<noteq> 0 then (False, st)
        else let (c, st) = fat32_next_cluster fs old_c st in copy_chain fs c (new_c + 1) k st)"

fun free_old :: "fat32_fs \<Rightarrow> nat \<Rightarrow> nat \<Rightarrow> fat_state \<Rightarrow> fat_state" where
  "free_old fs c 0 st = st"
| "free_old fs c (Suc k) st =
     (let (nxt, st) = fat32_next_cluster fs c st in free_old fs nxt k (snd (fat32_set_fat_entry fs c 0 st)))"

definition fat32_defrag_one :: "nat \<Rightarrow> nat \<Rightarrow> fat_state \<Rightarrow> (int \<times> fat_state) option" where
  "fat32_defrag_one f node st =
     (let nd = ft_nodes st ! node; fs = ft_fs st ! f in
      case vn_private nd of
        None \<Rightarrow> Some (- 1, st)
      | Some fi \<Rightarrow>
          if \<not> fi_has_dirent (ft_infos st ! fi) then Some (- 1, st)
          else if vn_inode nd = 0 then Some (0, st)
          else
            let old_start = vn_inode nd in
            (case defrag_scan fs old_start 1 True st of
               None \<Rightarrow> None
             | Some ((chain_len, already_ok), st) \<Rightarrow>
                 if already_ok then Some (0, st)
                 else
                   let ((new_start, got), st) = fat32_alloc_run f chain_len st in
                   if new_start = 0 \<or> got \<noteq> chain_len then
                     Some (- 1, if new_start \<noteq> 0 then free_run fs new_start got st else st)
                   else
                     let (ok, st) = copy_chain fs old_start new_start chain_len st in
                     if \<not> ok then Some (- 1, free_run fs new_start chain_len st)
                     else
                       let st = upd_node node (\<lambda>nd. nd\<lparr>vn_inode := new_start\<rparr>) st;
                           (rc, st) = fat32_flush_dirent fi node st
                       in if rc \<noteq> 0 then
                            let st = upd_node node (\<lambda>nd. nd\<lparr>vn_inode := old_start\<rparr>) st in
                            Some (- 1, free_run fs new_start chain_len st)
                          else Some (1, free_old fs old_start chain_len st)))"

text \<open>The loop over the directory: the counts \<open>(scanned, moved, skipped)\<close>.\<close>

partial_function (option) defrag_dir :: "nat \<Rightarrow> nat \<Rightarrow> nat \<Rightarrow> nat \<times> nat \<times> nat \<Rightarrow> fat_state \<Rightarrow>
    ((nat \<times> nat \<times> nat) \<times> fat_state) option" where
  "defrag_dir f dir idx counts st =
     do {
       (de, st) \<leftarrow> fat32_readdir dir idx st;
       (case de of
          None \<Rightarrow> Some (counts, st)
        | Some de \<Rightarrow>
            if de_type de AND VFS_DIRECTORY \<noteq> 0 then defrag_dir f dir (idx + 1) counts st
            else do {
              (node, st) \<leftarrow> fat32_finddir dir (cstr_of (de_name de)) st;
              (case node of
                 None \<Rightarrow> defrag_dir f dir (idx + 1) counts st
               | Some node \<Rightarrow> do {
                   (rc, st) \<leftarrow> fat32_defrag_one f node st;
                   let (scanned, moved, skipped) = counts;
                   defrag_dir f dir (idx + 1)
                     (scanned + 1, if rc = 1 then moved + 1 else moved, if rc < 0 then skipped + 1 else skipped) st
                 })
            })
     }"

definition fat32_defrag :: "nat \<Rightarrow> fat_state \<Rightarrow> (int \<times> (nat \<times> nat \<times> nat) \<times> fat_state) option" where
  "fat32_defrag dir st =
     (case vn_private (ft_nodes st ! dir) of
        None \<Rightarrow> Some (- 1, (0, 0, 0), st)
      | Some fi \<Rightarrow> map_option (\<lambda>(counts, st). (0, counts, st))
          (defrag_dir (fi_fs (ft_infos st ! fi)) dir 0 (0, 0, 0) st))"

end
