(* ===== verification/Fat32_Fat.thy ===== *)
theory Fat32_Fat
  imports Fat32
begin

text \<open>
  The file allocation table of \<open>fs/fat32.c\<close> as a map from clusters to links: a lookup through the
  one-sector cache returns the link on disk, an update changes exactly one link in every copy of the
  table and keeps the cache coherent, the allocators return free clusters and chain them, freeing a
  chain clears exactly its links.
\<close>

section \<open>Links\<close>

lemma fat_link_eq: "e < 2 ^ 32 \<Longrightarrow> fat_link e = e mod 2 ^ 28"
proof -
  assume "e < 2 ^ 32"
  then have "unat (of_nat e :: u32) = e" by (simp add: unat_of_nat)
  moreover have "(0x0FFFFFFF :: u32) = mask 28" by (simp add: mask_eq_decr_exp)
  ultimately show ?thesis by (simp only: fat_link_def unat_and_mask)
qed

lemma fat_link_mod: "fat_link v = v mod 2 ^ 32 mod 2 ^ 28"
proof -
  have m: "(0x0FFFFFFF :: u32) = mask 28" by (simp add: mask_eq_decr_exp)
  have "unat (of_nat v :: u32) = v mod 2 ^ 32" by (simp add: unsigned_of_nat take_bit_eq_mod)
  then show ?thesis unfolding fat_link_def m unat_and_mask by (simp only:)
qed

lemma fat_link_less: "fat_link e < 2 ^ 28"
proof -
  have m: "(0x0FFFFFFF :: u32) = mask 28" by (simp add: mask_eq_decr_exp)
  show ?thesis unfolding fat_link_def m unat_and_mask by (rule mod_less_divisor) simp
qed

text \<open>An update replaces the 28 link bits and keeps the upper four.\<close>

lemma fat_merge_word:
  "(of_nat (fat_merge v old) :: u32) = (of_nat v AND 0x0FFFFFFF) OR (of_nat old AND 0xF0000000)"
  by (simp add: fat_merge_def)

lemma fat_merge_less: "fat_merge v old < 2 ^ 32"
proof -
  have "unat w < 2 ^ 32" for w :: u32 using unsigned_less [of w] by simp
  then show ?thesis unfolding fat_merge_def by blast
qed

lemma fat_link_merge: "fat_link (fat_merge v old) = fat_link v"
proof -
  have "((of_nat v AND 0x0FFFFFFF) OR (of_nat old AND 0xF0000000)) AND 0x0FFFFFFF = (of_nat v AND 0x0FFFFFFF :: u32)"
    by (simp add: bit.conj_disj_distrib2 and.assoc)
  then show ?thesis by (simp add: fat_link_def fat_merge_word)
qed

lemma fat_merge_top: "(of_nat (fat_merge v old) :: u32) AND 0xF0000000 = of_nat old AND 0xF0000000"
  unfolding fat_merge_word by (simp add: bit.conj_disj_distrib2 and.assoc)

section \<open>The table on disk\<close>

text \<open>The table is large enough for all clusters and does not reach into the data area.\<close>

definition vol_ok :: "fat32_fs \<Rightarrow> bool" where
  "vol_ok fs \<longleftrightarrow> 0 < fs_num_fats fs \<and> 4 * (fs_total_clusters fs + 2) \<le> 512 * fs_fat_size fs \<and>
     fs_total_clusters fs + 2 < 0x0FFFFFF0 \<and> 0 < fs_spc fs \<and> fs_spc fs \<le> FAT32_MAX_CLUSTER_SECTORS \<and>
     fs_fat_start_lba fs + fs_num_fats fs * fs_fat_size fs \<le> fs_data_start_lba fs"

definition sec_of :: "fat32_fs \<Rightarrow> disk \<Rightarrow> nat \<Rightarrow> u8 list" where
  "sec_of fs d lba = dk_sec d (fs_drive_type fs) (fs_drive fs) lba"

definition valid_cluster :: "fat32_fs \<Rightarrow> nat \<Rightarrow> bool" where
  "valid_cluster fs c \<longleftrightarrow> c < fs_total_clusters fs + 2"

definition fat_word :: "fat32_fs \<Rightarrow> disk \<Rightarrow> nat \<Rightarrow> nat \<Rightarrow> nat" where
  "fat_word fs d copy c =
     le32 (sec_of fs d (fs_fat_start_lba fs + copy * fs_fat_size fs + 4 * c div 512)) (4 * c mod 512)"

definition fat_of :: "fat32_fs \<Rightarrow> disk \<Rightarrow> nat \<Rightarrow> nat" where
  "fat_of fs d c = fat_link (fat_word fs d 0 c)"

text \<open>The cache holds the sector its key names, and that is a sector of the volume's first table.\<close>

definition cache_ok :: "fat32_fs \<Rightarrow> fat_state \<Rightarrow> bool" where
  "cache_ok fs st \<longleftrightarrow> length (ft_buf st) = 512 \<and> (case ft_cached st of
       None \<Rightarrow> True
     | Some (lba, ty, drv) \<Rightarrow> ty = fs_drive_type fs \<and> drv = fs_drive fs \<and>
         fs_fat_start_lba fs \<le> lba \<and> lba < fs_fat_start_lba fs + fs_fat_size fs \<and> ft_buf st = sec_of fs (ft_disk st) lba)"

definition fat_ready :: "fat32_fs \<Rightarrow> fat_state \<Rightarrow> bool" where
  "fat_ready fs st \<longleftrightarrow> vol_ok fs \<and> disk_ok (ft_disk st) \<and> cache_ok fs st"

lemma valid_offset:
  assumes "vol_ok fs" "valid_cluster fs c"
  shows "mul32 c 4 = 4 * c" "4 * c div 512 < fs_fat_size fs" "4 * c mod 512 + 4 \<le> 512"
proof -
  have c: "4 * c + 4 \<le> 512 * fs_fat_size fs" "c < 2 ^ 28" using assms by (auto simp: vol_ok_def valid_cluster_def)
  then show "mul32 c 4 = 4 * c" by (simp add: mul32_def)
  show "4 * c div 512 < fs_fat_size fs" using c(1) by (simp add: div_less_iff_less_mult)
  have "4 * c mod 512 = 4 * (c mod 128)" using mult_mod_right [of 4 c 128] by simp
  moreover have "c mod 128 < 128" by simp
  ultimately show "4 * c mod 512 + 4 \<le> 512" by linarith
qed

text \<open>What a lookup leaves alone: the pools and the contents of the devices.\<close>

definition same_pools :: "fat_state \<Rightarrow> fat_state \<Rightarrow> bool" where
  "same_pools st st' \<longleftrightarrow> ft_fs st' = ft_fs st \<and> ft_nodes st' = ft_nodes st \<and> ft_infos st' = ft_infos st"

definition same_data :: "fat_state \<Rightarrow> fat_state \<Rightarrow> bool" where
  "same_data st st' \<longleftrightarrow> same_pools st st' \<and> dk_sec (ft_disk st') = dk_sec (ft_disk st) \<and>
     (healthy (ft_disk st) \<longrightarrow> healthy (ft_disk st'))"

lemma same_data_refl [simp]: "same_data st st"
  by (simp add: same_data_def same_pools_def)

lemma same_data_trans: "same_data st st' \<Longrightarrow> same_data st' st'' \<Longrightarrow> same_data st st''"
  by (auto simp: same_data_def same_pools_def)

lemma same_data_fat: "same_data st st' \<Longrightarrow> fat_of fs (ft_disk st') = fat_of fs (ft_disk st)"
  by (auto simp: same_data_def fat_of_def fat_word_def sec_of_def)

text \<open>Lookup: the cache never shows. A failed read of the table ends the chain.\<close>

lemma next_cluster_spec:
  assumes r: "fat_ready fs st" and c: "valid_cluster fs c"
  obtains n st' where "fat32_next_cluster fs c st = (n, st')" "fat_ready fs st'" "same_data st st'"
    "n = fat_of fs (ft_disk st) c \<or> n = FAT32_EOC" "healthy (ft_disk st) \<Longrightarrow> n = fat_of fs (ft_disk st) c"
proof -
  let ?lba = "fs_fat_start_lba fs + 4 * c div 512"
  let ?key = "(?lba, fs_drive_type fs, fs_drive fs)"
  let ?d = "(ft_disk st)\<lparr>dk_plan := tl (dk_plan (ft_disk st))\<rparr>"
  have v: "vol_ok fs" "disk_ok (ft_disk st)" "cache_ok fs st" using r by (auto simp: fat_ready_def)
  note off = valid_offset [OF v(1) c]
  have f0: "fat_of fs (ft_disk st) c = fat_link (le32 (sec_of fs (ft_disk st) ?lba) (4 * c mod 512))"
    by (simp add: fat_of_def fat_word_def)
  obtain ok n where o: "outcome (ft_disk st) (fs_drive_type fs) 1 = (ok, n)"
    by (cases "outcome (ft_disk st) (fs_drive_type fs) 1")
  consider (hit) "ft_cached st = Some ?key" | (miss) "ft_cached st \<noteq> Some ?key" ok
    | (fault) "ft_cached st \<noteq> Some ?key" "\<not> ok" by blast
  then show ?thesis
  proof cases
    case hit
    then have "ft_buf st = sec_of fs (ft_disk st) ?lba" using v(3) by (simp add: cache_ok_def)
    then show ?thesis using hit r f0 off(1)
      by (intro that [of "fat_of fs (ft_disk st) c" st]) (simp_all add: fat32_next_cluster_def Let_def)
  next
    case miss
    then have n: "n = 1" using o by (auto simp: outcome_def split: list.splits option.splits if_splits)
    let ?buf = "sec_of fs (ft_disk st) ?lba"
    let ?st = "st\<lparr>ft_disk := ?d, ft_buf := ?buf, ft_cached := Some ?key\<rparr>"
    have len: "length ?buf = 512" using v(2) by (simp add: disk_ok_def sec_of_def)
    have rd: "fs_read fs ?lba 1 (ft_buf st) st = (0, ?buf, st\<lparr>ft_disk := ?d\<rparr>)"
      using o miss n len v(3) by (simp add: fs_read_def blk_read_def sec_of_def overwrite_full cache_ok_def)
    have e: "fat32_next_cluster fs c st = (fat_of fs (ft_disk st) c, ?st)"
      using miss f0 off(1) rd by (simp add: fat32_next_cluster_def Let_def)
    have "fat_ready fs ?st"
      using v len off(2) by (simp add: fat_ready_def disk_ok_def cache_ok_def sec_of_def)
    then show ?thesis by (rule that [OF e]) (simp_all add: same_data_def same_pools_def)
  next
    case fault
    then have h: "\<not> healthy (ft_disk st)" using o healthy_outcome [of "ft_disk st" 1 "fs_drive_type fs"] by auto
    have n: "n = 0" using o fault by (auto simp: outcome_def split: list.splits option.splits if_splits)
    have "fs_read fs ?lba 1 (ft_buf st) st = (- 1, ft_buf st, st\<lparr>ft_disk := ?d\<rparr>)"
      using o fault n by (simp add: fs_read_def blk_read_def overwrite_def read_sectors_def)
    then have e: "fat32_next_cluster fs c st = (FAT32_EOC, st\<lparr>ft_disk := ?d\<rparr>)"
      using fault(1) off(1) by (simp add: fat32_next_cluster_def Let_def)
    have "fat_ready fs (st\<lparr>ft_disk := ?d\<rparr>)"
      using v by (auto simp: fat_ready_def disk_ok_def cache_ok_def sec_of_def split: option.splits)
    then show ?thesis by (rule that [OF e]) (use h in \<open>simp_all add: same_data_def same_pools_def\<close>)
  qed
qed

section \<open>Updating an entry\<close>

definition put_entry :: "u8 list \<Rightarrow> nat \<Rightarrow> nat \<Rightarrow> u8 list" where
  "put_entry buf off v = put_le32 buf off (fat_merge v (le32 buf off))"

lemma length_put_entry [simp]: "length (put_entry buf off v) = length buf"
  by (simp add: put_entry_def)

lemma put_entry_same:
  "off + 4 \<le> length buf \<Longrightarrow> le32 (put_entry buf off v) off = fat_merge v (le32 buf off)"
  using fat_merge_less by (simp add: put_entry_def le32_put_same)

lemma put_entry_other: "j + 4 \<le> off \<or> off + 4 \<le> j \<Longrightarrow> le32 (put_entry buf off v) j = le32 buf j"
  by (simp add: put_entry_def le32_put_other)

text \<open>The devices after one sector of the volume has been replaced.\<close>

definition set_sec :: "fat32_fs \<Rightarrow> nat \<Rightarrow> u8 list \<Rightarrow> disk \<Rightarrow> disk" where
  "set_sec fs lba b d = d\<lparr>dk_sec := (dk_sec d)(fs_drive_type fs :=
     (dk_sec d (fs_drive_type fs))(fs_drive fs := (dk_sec d (fs_drive_type fs) (fs_drive fs))(lba := b)))\<rparr>"

lemma sec_of_set_sec [simp]: "sec_of fs (set_sec fs lba b d) l = (if l = lba then b else sec_of fs d l)"
  by (simp add: sec_of_def set_sec_def)

lemma disk_ok_set_sec: "disk_ok d \<Longrightarrow> length b = 512 \<Longrightarrow> disk_ok (set_sec fs lba b d)"
  by (simp add: disk_ok_def set_sec_def)

lemma healthy_set_sec [simp]: "healthy (set_sec fs lba b d) = healthy d"
  by (simp add: healthy_def set_sec_def)

definition next_cmd :: "disk \<Rightarrow> disk" where
  "next_cmd d = d\<lparr>dk_plan := tl (dk_plan d)\<rparr>"

lemma next_cmd_simps [simp]:
  "sec_of fs (next_cmd d) = sec_of fs d" "healthy d \<Longrightarrow> healthy (next_cmd d)"
  "disk_ok (next_cmd d) = disk_ok d" "dk_sec (next_cmd d) = dk_sec d"
  by (auto simp: next_cmd_def sec_of_def disk_ok_def)

lemma next_cmd_set_sec: "next_cmd (set_sec fs lba b d) = set_sec fs lba b (next_cmd d)"
  by (simp add: next_cmd_def set_sec_def)

lemma fs_read_one:
  assumes "healthy (ft_disk st)" "disk_ok (ft_disk st)" "length buf = 512"
  shows "fs_read fs lba (Suc 0) buf st = (0, sec_of fs (ft_disk st) lba, st\<lparr>ft_disk := next_cmd (ft_disk st)\<rparr>)"
  using assms
  by (simp add: fs_read_def blk_read_healthy overwrite_full sec_of_def disk_ok_def next_cmd_def)

lemma fs_write_one:
  assumes "healthy (ft_disk st)" "length buf = 512"
  shows "fs_write fs lba (Suc 0) buf st = (0, st\<lparr>ft_disk := set_sec fs lba buf (next_cmd (ft_disk st))\<rparr>)"
  using assms by (simp add: fs_write_def blk_write_healthy set_sec_def next_cmd_def)

lemma length_zero_sector [simp]: "length zero_sector = 512"
  by (simp add: zero_sector_def)

text \<open>After the loop over the copies: every copy from \<open>j\<close> on has the entry, no other sector differs.\<close>

lemma fat_copies_spec:
  assumes "healthy (ft_disk st)" "disk_ok (ft_disk st)" "idx < fs_fat_size fs"
  shows "\<exists>d. fat_copies fs idx off v j st = (0, st\<lparr>ft_disk := d\<rparr>) \<and> healthy d \<and> disk_ok d \<and>
    (\<forall>l. sec_of fs d l = (if \<exists>k. j \<le> k \<and> k < fs_num_fats fs \<and> l = fs_fat_start_lba fs + k * fs_fat_size fs + idx
       then put_entry (sec_of fs (ft_disk st) l) off v else sec_of fs (ft_disk st) l))"
  using assms
proof (induction "fs_num_fats fs - j" arbitrary: j st)
  case 0
  then have "fat_copies fs idx off v j st = (0, st)" by (subst fat_copies.simps) simp
  with 0 show ?case by (intro exI [of _ "ft_disk st"]) auto
next
  case (Suc m)
  let ?lba = "fs_fat_start_lba fs + j * fs_fat_size fs + idx"
  let ?b = "put_entry (sec_of fs (ft_disk st) ?lba) off v"
  let ?d = "set_sec fs ?lba ?b (next_cmd (next_cmd (ft_disk st)))"
  have j: "j < fs_num_fats fs" using Suc.hyps by simp
  have len: "length ?b = 512" using Suc.prems by (simp add: disk_ok_def sec_of_def)
  have rd: "fs_read fs ?lba (Suc 0) zero_sector st =
      (0, sec_of fs (ft_disk st) ?lba, st\<lparr>ft_disk := next_cmd (ft_disk st)\<rparr>)"
    using Suc.prems fs_read_one by simp
  have wr: "fs_write fs ?lba (Suc 0) ?b (st\<lparr>ft_disk := next_cmd (ft_disk st)\<rparr>) = (0, st\<lparr>ft_disk := ?d\<rparr>)"
    using Suc.prems len fs_write_one [of "st\<lparr>ft_disk := next_cmd (ft_disk st)\<rparr>" ?b fs ?lba] by simp
  have e: "fat_copies fs idx off v j st = fat_copies fs idx off v (j + 1) (st\<lparr>ft_disk := ?d\<rparr>)"
    using j rd wr by (subst fat_copies.simps) (simp add: Let_def put_entry_def)
  have hd: "healthy (ft_disk (st\<lparr>ft_disk := ?d\<rparr>))" "disk_ok (ft_disk (st\<lparr>ft_disk := ?d\<rparr>))"
    using Suc.prems len by (simp_all add: disk_ok_set_sec)
  have m: "m = fs_num_fats fs - (j + 1)" using Suc.hyps(2) by simp
  obtain d where d: "fat_copies fs idx off v (j + 1) (st\<lparr>ft_disk := ?d\<rparr>) = (0, st\<lparr>ft_disk := d\<rparr>)"
    "healthy d" "disk_ok d"
    "\<And>l. sec_of fs d l = (if \<exists>k. j + 1 \<le> k \<and> k < fs_num_fats fs \<and> l = fs_fat_start_lba fs + k * fs_fat_size fs + idx
       then put_entry (sec_of fs ?d l) off v else sec_of fs ?d l)"
    using Suc.hyps(1) [OF m hd Suc.prems(3)] unfolding fat_state.select_convs fat_state.update_convs by fastforce
  have ne: "?lba \<noteq> fs_fat_start_lba fs + k * fs_fat_size fs + idx" if "j + 1 \<le> k" for k
    using that Suc.prems(3) by auto
  have "sec_of fs d l = (if \<exists>k. j \<le> k \<and> k < fs_num_fats fs \<and> l = fs_fat_start_lba fs + k * fs_fat_size fs + idx
       then put_entry (sec_of fs (ft_disk st) l) off v else sec_of fs (ft_disk st) l)" for l
  proof (cases "l = ?lba")
    case True
    have "\<not> (\<exists>k. j + 1 \<le> k \<and> k < fs_num_fats fs \<and> l = fs_fat_start_lba fs + k * fs_fat_size fs + idx)"
      unfolding True by (intro notI, elim exE conjE) (rule notE [OF ne], assumption+)
    then have "sec_of fs d l = sec_of fs ?d l" using d(4) [of l] by (simp only: if_False)
    moreover have "\<exists>k. j \<le> k \<and> k < fs_num_fats fs \<and> l = fs_fat_start_lba fs + k * fs_fat_size fs + idx"
      using True j by blast
    ultimately show ?thesis using True by (simp only: refl if_True sec_of_set_sec)
  next
    case False
    have "(\<exists>k. j + 1 \<le> k \<and> k < fs_num_fats fs \<and> l = fs_fat_start_lba fs + k * fs_fat_size fs + idx) \<longleftrightarrow>
        (\<exists>k. j \<le> k \<and> k < fs_num_fats fs \<and> l = fs_fat_start_lba fs + k * fs_fat_size fs + idx)"
      using False by (metis Suc_eq_plus1 Suc_leD le_antisym not_less_eq_eq)
    then show ?thesis using d(4) [of l] by (simp only: False if_False sec_of_set_sec next_cmd_simps)
  qed
  with d e show ?case by (intro exI [of _ d]) simp
qed

text \<open>Which sectors of the volume lie in its tables.\<close>

definition in_fat :: "fat32_fs \<Rightarrow> nat \<Rightarrow> bool" where
  "in_fat fs l \<longleftrightarrow> fs_fat_start_lba fs \<le> l \<and> l < fs_fat_start_lba fs + fs_num_fats fs * fs_fat_size fs"

lemma copy_in_fat:
  assumes "k < fs_num_fats fs" "idx < fs_fat_size fs"
  shows "in_fat fs (fs_fat_start_lba fs + k * fs_fat_size fs + idx)"
proof -
  have "(k + 1) * fs_fat_size fs \<le> fs_num_fats fs * fs_fat_size fs" using assms(1) by (intro mult_le_mono1) simp
  then show ?thesis using assms(2) by (simp add: in_fat_def)
qed

text \<open>Entries of different clusters share no byte.\<close>

lemma entries_apart:
  assumes "4 * c div 512 = 4 * c' div (512 :: nat)" "c \<noteq> c'"
  shows "4 * c mod 512 + 4 \<le> 4 * c' mod 512 \<or> 4 * c' mod 512 + 4 \<le> 4 * c mod (512 :: nat)"
proof -
  have m: "4 * x mod 512 = 4 * (x mod 128)" "4 * x div 512 = x div 128" for x :: nat
    using mult_mod_right [of 4 x 128] by simp_all
  have "c mod 128 \<noteq> c' mod 128" using assms m(2) by (metis div_mult_mod_eq)
  then show ?thesis unfolding m(1) by linarith
qed

lemma copy_sector_inj:
  assumes "fs_fat_start_lba fs + k * fs_fat_size fs + a = fs_fat_start_lba fs + k' * fs_fat_size fs + b"
    "a < fs_fat_size fs" "b < fs_fat_size fs"
  shows "k = k' \<and> a = b"
proof -
  have e: "k * fs_fat_size fs + a = k' * fs_fat_size fs + b" using assms(1) by simp
  have "k = k'" using arg_cong [OF e, of "\<lambda>x. x div fs_fat_size fs"] assms(2,3) by simp
  with e show ?thesis by simp
qed

text \<open>The state after a successful update: one link changed in every copy, nothing outside the tables.\<close>

definition fat_updated :: "fat32_fs \<Rightarrow> nat \<Rightarrow> nat \<Rightarrow> fat_state \<Rightarrow> fat_state \<Rightarrow> bool" where
  "fat_updated fs c v st st' \<longleftrightarrow> fat_ready fs st' \<and> same_pools st st' \<and> healthy (ft_disk st') \<and>
     (\<forall>k < fs_num_fats fs. \<forall>x. valid_cluster fs x \<longrightarrow> fat_word fs (ft_disk st') k x =
        (if x = c then fat_merge v (fat_word fs (ft_disk st) k x) else fat_word fs (ft_disk st) k x)) \<and>
     (\<forall>l. \<not> in_fat fs l \<longrightarrow> sec_of fs (ft_disk st') l = sec_of fs (ft_disk st) l)"

lemma set_fat_entry_spec:
  assumes r: "fat_ready fs st" and h: "healthy (ft_disk st)" and c: "valid_cluster fs c"
  obtains st' where "fat32_set_fat_entry fs c v st = (0, st')" "fat_updated fs c v st st'"
proof -
  have v: "vol_ok fs" "disk_ok (ft_disk st)" "cache_ok fs st" using r by (auto simp: fat_ready_def)
  note off = valid_offset [OF v(1) c]
  let ?idx = "4 * c div 512" and ?off = "4 * c mod 512"
  let ?lba = "\<lambda>k. fs_fat_start_lba fs + k * fs_fat_size fs + ?idx"
  obtain d where d: "fat_copies fs ?idx ?off v 0 st = (0, st\<lparr>ft_disk := d\<rparr>)" "healthy d" "disk_ok d"
    "\<And>l. sec_of fs d l = (if \<exists>k < fs_num_fats fs. l = ?lba k
       then put_entry (sec_of fs (ft_disk st) l) ?off v else sec_of fs (ft_disk st) l)"
    using fat_copies_spec [OF h v(2) off(2), of ?off v 0] by auto
  define key where "key = (fs_fat_start_lba fs + ?idx, fs_drive_type fs, fs_drive fs)"
  define st' where "st' = (if ft_cached st = Some key
      then st\<lparr>ft_disk := d, ft_buf := put_entry (ft_buf st) ?off v\<rparr> else st\<lparr>ft_disk := d\<rparr>)"
  have e: "fat32_set_fat_entry fs c v st = (0, st')"
    using d(1) off(1) by (simp add: fat32_set_fat_entry_def Let_def key_def st'_def put_entry_def)
  have nf: "0 < fs_num_fats fs" using v(1) by (simp add: vol_ok_def)
  have word: "fat_word fs d k x = (if x = c then fat_merge v (fat_word fs (ft_disk st) k x) else fat_word fs (ft_disk st) k x)"
    if k: "k < fs_num_fats fs" and x: "valid_cluster fs x" for k x
  proof -
    note offx = valid_offset [OF v(1) x]
    let ?lx = "fs_fat_start_lba fs + k * fs_fat_size fs + 4 * x div 512"
    have len: "length (sec_of fs (ft_disk st) ?lx) = 512" using v(2) by (simp add: disk_ok_def sec_of_def)
    show ?thesis
    proof (cases "4 * x div 512 = ?idx")
      case True
      then have s: "sec_of fs d ?lx = put_entry (sec_of fs (ft_disk st) ?lx) ?off v" using d(4) [of ?lx] k by auto
      show ?thesis
      proof (cases "x = c")
        case True
        then show ?thesis using s len off(3) put_entry_same by (simp add: fat_word_def)
      next
        case False
        then show ?thesis using s entries_apart [OF True False] by (simp add: fat_word_def put_entry_other)
      qed
    next
      case False
      then have "\<not> (\<exists>k' < fs_num_fats fs. ?lx = ?lba k')" using copy_sector_inj off(2) offx(2) by blast
      then have "sec_of fs d ?lx = sec_of fs (ft_disk st) ?lx" using d(4) [of ?lx] by (simp only: if_False)
      moreover have "x \<noteq> c" using False by auto
      ultimately show ?thesis by (simp add: fat_word_def)
    qed
  qed
  have out: "sec_of fs d l = sec_of fs (ft_disk st) l" if "\<not> in_fat fs l" for l
    using d(4) [of l] copy_in_fat off(2) that by auto
  have disk': "ft_disk st' = d" by (simp add: st'_def)
  have "cache_ok fs st'"
  proof (cases "ft_cached st")
    case None
    then show ?thesis using v(3) by (simp add: cache_ok_def st'_def)
  next
    case (Some x)
    obtain l ty drv where x: "x = (l, ty, drv)" by (cases x)
    have c0: "ty = fs_drive_type fs" "drv = fs_drive fs" "fs_fat_start_lba fs \<le> l" "l < fs_fat_start_lba fs + fs_fat_size fs"
      "ft_buf st = sec_of fs (ft_disk st) l" "length (ft_buf st) = 512"
      using v(3) Some x by (auto simp: cache_ok_def)
    show ?thesis
    proof (cases "l = fs_fat_start_lba fs + ?idx")
      case True
      then have "sec_of fs d l = put_entry (ft_buf st) ?off v" using d(4) [of l] nf c0(5) by auto
      then show ?thesis using Some x c0 True by (simp add: cache_ok_def st'_def key_def)
    next
      case False
      have "l \<noteq> ?lba k" for k
      proof (cases k)
        case 0
        with False show ?thesis by simp
      next
        case (Suc j)
        then have "fs_fat_size fs \<le> k * fs_fat_size fs" by simp
        then show ?thesis using c0(4) by linarith
      qed
      then have "sec_of fs d l = sec_of fs (ft_disk st) l" using d(4) [of l] by auto
      then show ?thesis using Some x c0 False by (simp add: cache_ok_def st'_def key_def)
    qed
  qed
  then have "fat_updated fs c v st st'"
    using v(1) d(2,3) word out disk' by (simp add: fat_updated_def fat_ready_def same_pools_def st'_def)
  with e show ?thesis by (rule that)
qed

lemma fat_updated_fat:
  assumes "fat_updated fs c v st st'" "valid_cluster fs x"
  shows "fat_of fs (ft_disk st') x = (if x = c then fat_link v else fat_of fs (ft_disk st) x)"
proof -
  have "fat_word fs (ft_disk st') 0 x =
      (if x = c then fat_merge v (fat_word fs (ft_disk st) 0 x) else fat_word fs (ft_disk st) 0 x)"
    using assms by (auto simp: fat_updated_def fat_ready_def vol_ok_def)
  then show ?thesis by (simp add: fat_of_def fat_link_merge)
qed


lemma next_cluster_healthy:
  assumes "fat_ready fs st" "healthy (ft_disk st)" "valid_cluster fs c"
  obtains st' where "fat32_next_cluster fs c st = (fat_of fs (ft_disk st) c, st')"
    "fat_ready fs st'" "same_data st st'" "healthy (ft_disk st')"
proof -
  obtain n st' where "fat32_next_cluster fs c st = (n, st')" "fat_ready fs st'" "same_data st st'"
    "healthy (ft_disk st) \<Longrightarrow> n = fat_of fs (ft_disk st) c"
    using next_cluster_spec [OF assms(1,3)] by blast
  with assms(2) show ?thesis by (intro that [of st']) (auto simp: same_data_def)
qed

section \<open>Changes to the table\<close>

text \<open>From \<open>st\<close> to \<open>st'\<close> the links of the volume became \<open>F\<close>; nodes, information records and all sectors
  outside the tables are as before.\<close>

definition fat_becomes :: "fat32_fs \<Rightarrow> (nat \<Rightarrow> nat) \<Rightarrow> fat_state \<Rightarrow> fat_state \<Rightarrow> bool" where
  "fat_becomes fs F st st' \<longleftrightarrow> fat_ready fs st' \<and> healthy (ft_disk st') \<and>
     ft_nodes st' = ft_nodes st \<and> ft_infos st' = ft_infos st \<and>
     (\<forall>x. valid_cluster fs x \<longrightarrow> fat_of fs (ft_disk st') x = F x) \<and>
     (\<forall>l. \<not> in_fat fs l \<longrightarrow> sec_of fs (ft_disk st') l = sec_of fs (ft_disk st) l)"

lemma fat_becomes_trans:
  "fat_becomes fs F st st' \<Longrightarrow> fat_becomes fs G st' st'' \<Longrightarrow> fat_becomes fs G st st''"
  by (auto simp: fat_becomes_def)

lemma fat_becomes_same:
  assumes "fat_ready fs st'" "same_data st st'" "healthy (ft_disk st)"
  shows "fat_becomes fs (fat_of fs (ft_disk st)) st st'"
  using assms same_data_fat [OF assms(2)]
  by (auto simp: fat_becomes_def same_data_def same_pools_def sec_of_def)

lemma fat_becomes_cong:
  "fat_becomes fs F st st' \<Longrightarrow> (\<And>x. valid_cluster fs x \<Longrightarrow> F x = G x) \<Longrightarrow> fat_becomes fs G st st'"
  by (auto simp: fat_becomes_def)

lemma fat_becomes_updated:
  assumes "fat_updated fs c v st st'"
  shows "fat_becomes fs ((fat_of fs (ft_disk st))(c := fat_link v)) st st'"
  using assms fat_updated_fat [OF assms] by (auto simp: fat_becomes_def fat_updated_def same_pools_def)

lemma set_fat_entry_becomes:
  assumes "fat_ready fs st" "healthy (ft_disk st)" "valid_cluster fs c"
  obtains st' where "fat32_set_fat_entry fs c v st = (0, st')" "ft_fs st' = ft_fs st"
    "fat_becomes fs ((fat_of fs (ft_disk st))(c := fat_link v)) st st'"
  using set_fat_entry_spec [OF assms] fat_becomes_updated by (metis fat_updated_def same_pools_def)

lemma fat_link_EOC: "fat_link FAT32_EOC = FAT32_EOC"
  by (simp add: fat_link_eq FAT32_EOC_def)

lemma fat_link_small: "v < 2 ^ 28 \<Longrightarrow> fat_link v = v"
  by (simp add: fat_link_eq)

text \<open>The hint is the one field of the volume that allocation changes; nothing else looks at it.\<close>

lemma hint_irrelevant [simp]:
  "vol_ok (fs\<lparr>fs_next_free_hint := h\<rparr>) = vol_ok fs"
  "sec_of (fs\<lparr>fs_next_free_hint := h\<rparr>) = sec_of fs"
  "valid_cluster (fs\<lparr>fs_next_free_hint := h\<rparr>) = valid_cluster fs"
  "in_fat (fs\<lparr>fs_next_free_hint := h\<rparr>) = in_fat fs"
  "fat_of (fs\<lparr>fs_next_free_hint := h\<rparr>) = fat_of fs"
  "cluster_to_lba (fs\<lparr>fs_next_free_hint := h\<rparr>) = cluster_to_lba fs"
  by (simp_all add: fun_eq_iff vol_ok_def sec_of_def valid_cluster_def in_fat_def fat_of_def fat_word_def cluster_to_lba_def)

lemma hint_cache_ok [simp]: "cache_ok (fs\<lparr>fs_next_free_hint := h\<rparr>) st = cache_ok fs st"
  by (simp add: cache_ok_def split: option.splits)

lemma hint_fat_ready [simp]: "fat_ready (fs\<lparr>fs_next_free_hint := h\<rparr>) st = fat_ready fs st"
  by (simp add: fat_ready_def)

lemma set_hint_simps [simp]:
  "ft_disk (set_hint f h st) = ft_disk st" "ft_nodes (set_hint f h st) = ft_nodes st"
  "ft_infos (set_hint f h st) = ft_infos st" "fat_ready fs (set_hint f h st) = fat_ready fs st"
  "ft_fs (set_hint f h st) = (ft_fs st)[f := (ft_fs st ! f)\<lparr>fs_next_free_hint := h\<rparr>]"
  by (simp_all add: set_hint_def fat_ready_def cache_ok_def split: option.splits)

lemma set_hint_becomes [simp]: "fat_becomes fs F st (set_hint f h st') = fat_becomes fs F st st'"
  by (simp add: fat_becomes_def)

section \<open>Allocating one cluster\<close>

text \<open>The clusters a file may get: number 2 and up, link 0.\<close>

definition free_cluster :: "fat32_fs \<Rightarrow> disk \<Rightarrow> nat \<Rightarrow> bool" where
  "free_cluster fs d c \<longleftrightarrow> 2 \<le> c \<and> valid_cluster fs c \<and> fat_of fs d c = 0"

lemma first_free_spec:
  assumes "fat_ready fs st" "healthy (ft_disk st)" "hi \<le> fs_total_clusters fs + 1"
  shows "\<exists>st'. first_free fs c hi st = (find (\<lambda>x. fat_of fs (ft_disk st) x = 0) [c..<Suc hi], st') \<and>
    fat_ready fs st' \<and> same_data st st' \<and> healthy (ft_disk st')"
  using assms
proof (induction "Suc hi - c" arbitrary: c st)
  case 0
  then show ?case by (intro exI [of _ st]) (subst first_free.simps, simp)
next
  case (Suc m)
  have c: "c \<le> hi" "valid_cluster fs c" using Suc.hyps(2) Suc.prems(3) by (auto simp: valid_cluster_def)
  obtain st1 where s: "fat32_next_cluster fs c st = (fat_of fs (ft_disk st) c, st1)"
    "fat_ready fs st1" "same_data st st1" "healthy (ft_disk st1)"
    using next_cluster_healthy [OF Suc.prems(1,2) c(2)] .
  have u: "[c..<Suc hi] = c # [c + 1..<Suc hi]" using c(1) by (simp add: upt_rec)
  show ?case
  proof (cases "fat_of fs (ft_disk st) c = 0")
    case True
    then have "first_free fs c hi st = (Some c, st1)" using c(1) s(1) by (subst first_free.simps) simp
    then show ?thesis using s True u by (intro exI [of _ st1]) simp
  next
    case False
    have m: "m = Suc hi - (c + 1)" using Suc.hyps(2) by simp
    have e: "first_free fs c hi st = first_free fs (c + 1) hi st1"
      using False c(1) s(1) by (subst first_free.simps) simp
    obtain st' where "first_free fs (c + 1) hi st1 = (find (\<lambda>x. fat_of fs (ft_disk st1) x = 0) [c + 1..<Suc hi], st')"
      "fat_ready fs st'" "same_data st1 st'" "healthy (ft_disk st')"
      using Suc.hyps(1) [OF m s(2,4) Suc.prems(3)] by blast
    then show ?thesis using e u False same_data_trans [OF s(3)] same_data_fat [OF s(3)]
      by (intro exI [of _ st']) simp
  qed
qed

text \<open>The next-fit order: the clusters from the hint on, then those before it; all in order when the hint is no cluster of the
  volume.\<close>

definition search_order :: "fat32_fs \<Rightarrow> nat list" where
  "search_order fs = (let cs = [2..<fs_total_clusters fs + 2]; before = (\<lambda>c. c < fs_next_free_hint fs) in
     if fs_next_free_hint fs \<in> set cs then filter (Not \<circ> before) cs @ filter before cs else cs)"

lemma filter_upt_less: "a \<le> h \<Longrightarrow> h \<le> b \<Longrightarrow> filter (\<lambda>c. c < h) [a..<b] = [a..<h] \<and> filter (\<lambda>c. \<not> c < h) [a..<b] = [h..<b]"
proof -
  assume "a \<le> h" "h \<le> b"
  then have "[a..<b] = [a..<h] @ [h..<b]" using upt_add_eq_append [of a h "b - h"] by simp
  then show ?thesis by (auto simp: filter_empty_conv filter_id_conv)
qed

text \<open>The two loops of the code, from the start it chooses and up to it, follow that order.\<close>

lemma search_order_loops: "search_order fs = (let m = fs_total_clusters fs + 1; s = search_start fs m in [s..<Suc m] @ [2..<s])"
proof (cases "fs_next_free_hint fs \<in> set [2..<fs_total_clusters fs + 2]")
  case True
  then have h: "2 \<le> fs_next_free_hint fs" "fs_next_free_hint fs \<le> fs_total_clusters fs + 2" "search_start fs (fs_total_clusters fs + 1) = fs_next_free_hint fs"
    by (auto simp: search_start_def)
  then show ?thesis using True filter_upt_less [OF h(1,2)] by (simp add: search_order_def Let_def comp_def del: upt_Suc)
next
  case False
  then have "search_start fs (fs_total_clusters fs + 1) = 2" by (auto simp: search_start_def)
  then show ?thesis using False by (auto simp: search_order_def Let_def simp del: upt_Suc)
qed

lemma set_search_order: "c \<in> set (search_order fs) \<longleftrightarrow> 2 \<le> c \<and> valid_cluster fs c"
  by (auto simp: search_order_loops Let_def search_start_def valid_cluster_def)

lemma find_append: "find P (xs @ ys) = (case find P xs of None \<Rightarrow> find P ys | Some x \<Rightarrow> Some x)"
  by (induction xs) auto

lemma take_cluster_spec:
  assumes "fat_ready (ft_fs st ! f) st" "healthy (ft_disk st)" "valid_cluster (ft_fs st ! f) c"
  obtains st' where "take_cluster f c st = (c, st')"
    "ft_fs st' = (ft_fs st)[f := (ft_fs st ! f)\<lparr>fs_next_free_hint := c + 1\<rparr>]"
    "fat_becomes (ft_fs st ! f) ((fat_of (ft_fs st ! f) (ft_disk st))(c := FAT32_EOC)) st st'"
proof -
  obtain st1 where "fat32_set_fat_entry (ft_fs st ! f) c FAT32_EOC st = (0, st1)" "ft_fs st1 = ft_fs st"
    "fat_becomes (ft_fs st ! f) ((fat_of (ft_fs st ! f) (ft_disk st))(c := fat_link FAT32_EOC)) st st1"
    using set_fat_entry_becomes [OF assms] .
  then show ?thesis by (intro that [of "set_hint f (c + 1) st1"]) (simp_all add: take_cluster_def fat_link_EOC)
qed

lemma max_cluster_exact: "fat_ready fs st \<Longrightarrow> add32 (fs_total_clusters fs) 1 = fs_total_clusters fs + 1"
  by (rule add32_exact) (simp add: fat_ready_def vol_ok_def)

lemma alloc_cluster_spec:
  fixes st f defines "fs \<equiv> ft_fs st ! f"
  assumes "fat_ready fs st" "healthy (ft_disk st)"
  shows "case find (\<lambda>x. fat_of fs (ft_disk st) x = 0) (search_order fs) of
      None \<Rightarrow> \<exists>st'. fat32_alloc_cluster f st = (0, st') \<and> fat_ready fs st' \<and> same_data st st'
    | Some c \<Rightarrow> \<exists>st'. fat32_alloc_cluster f st = (c, st') \<and>
        ft_fs st' = (ft_fs st)[f := fs\<lparr>fs_next_free_hint := c + 1\<rparr>] \<and>
        fat_becomes fs ((fat_of fs (ft_disk st))(c := FAT32_EOC)) st st'"
proof -
  let ?m = "fs_total_clusters fs + 1"
  let ?s = "search_start fs ?m"
  have max: "add32 (fs_total_clusters fs) 1 = ?m" using assms(2) by (rule max_cluster_exact)
  let ?P = "\<lambda>x. fat_of fs (ft_disk st) x = 0"
  have s2: "2 \<le> ?s" "?s - 1 \<le> ?m" "Suc (?s - 1) = ?s" by (auto simp: search_start_def)
  obtain st1 where s1: "first_free fs ?s ?m st = (find ?P [?s..<Suc ?m], st1)"
    "fat_ready fs st1" "same_data st st1" "healthy (ft_disk st1)"
    using first_free_spec [OF assms(2,3) order_refl] by blast
  have p1: "ft_fs st1 = ft_fs st" using s1(3) by (simp add: same_data_def same_pools_def)
  have taken: "\<exists>st'. take_cluster f c st2 = (c, st') \<and>
        ft_fs st' = (ft_fs st)[f := fs\<lparr>fs_next_free_hint := c + 1\<rparr>] \<and>
        fat_becomes fs ((fat_of fs (ft_disk st))(c := FAT32_EOC)) st st'"
    if "fat_ready fs st2" "same_data st st2" "healthy (ft_disk st2)" "valid_cluster fs c" for st2 c
  proof -
    note h = that
    have p: "ft_fs st2 = ft_fs st" using h(2) by (simp add: same_data_def same_pools_def)
    obtain st' where "take_cluster f c st2 = (c, st')" "ft_fs st' = (ft_fs st)[f := fs\<lparr>fs_next_free_hint := c + 1\<rparr>]"
      "fat_becomes fs ((fat_of fs (ft_disk st2))(c := FAT32_EOC)) st2 st'"
      using take_cluster_spec [of st2 f c] h(1,3,4) unfolding p fs_def by blast
    moreover have "fat_becomes fs (fat_of fs (ft_disk st)) st st2" using h assms(3) fat_becomes_same by blast
    ultimately show ?thesis using fat_becomes_trans same_data_fat [OF h(2)] by metis
  qed
  have valid: "valid_cluster fs c" if "find ?P xs = Some c" "set xs \<subseteq> set (search_order fs)" for c xs
    using that set_search_order unfolding find_Some_iff by (metis nth_mem subsetD)
  show ?thesis
  proof (cases "find ?P [?s..<Suc ?m]")
    case (Some c)
    have "valid_cluster fs c" using Some by (rule valid) (auto simp: search_order_loops Let_def)
    then show ?thesis using Some taken [OF s1(2,3,4)] s1(1)
      by (auto simp: fat32_alloc_cluster_def search_order_loops find_append Let_def fs_def [symmetric] max simp del: upt_Suc add_Suc_right add_0_right One_nat_def)
  next
    case None
    obtain st2 where s2': "first_free fs 2 (?s - 1) st1 = (find ?P [2..<?s], st2)"
      "fat_ready fs st2" "same_data st1 st2" "healthy (ft_disk st2)"
      using first_free_spec [OF s1(2,4) s2(2), of 2] same_data_fat [OF s1(3)] unfolding s2(3) by metis
    note sd = same_data_trans [OF s1(3) s2'(3)]
    show ?thesis
    proof (cases "find ?P [2..<?s]")
      case (Some c)
      have "valid_cluster fs c" using Some by (rule valid) (auto simp: search_order_loops Let_def)
      then show ?thesis using None Some taken [OF s2'(2) sd s2'(4)] s1(1) s2'(1)
        by (auto simp: fat32_alloc_cluster_def search_order_loops find_append Let_def fs_def [symmetric] max simp del: upt_Suc add_Suc_right add_0_right One_nat_def)
    next
      case none: None
      then show ?thesis using None sd s1(1) s2'(1,2)
        by (auto simp: fat32_alloc_cluster_def search_order_loops find_append Let_def fs_def [symmetric] max simp del: upt_Suc add_Suc_right add_0_right One_nat_def)
    qed
  qed
qed

section \<open>Allocating a run\<close>

definition free_range :: "fat32_fs \<Rightarrow> disk \<Rightarrow> nat \<Rightarrow> nat \<Rightarrow> bool" where
  "free_range fs d a k \<longleftrightarrow> (\<forall>x. a \<le> x \<and> x < a + k \<longrightarrow> fat_of fs d x = 0)"

definition free_run_at :: "fat32_fs \<Rightarrow> disk \<Rightarrow> nat \<Rightarrow> nat \<Rightarrow> bool" where
  "free_run_at fs d a k \<longleftrightarrow> 2 \<le> a \<and> a + k \<le> fs_total_clusters fs + 2 \<and> free_range fs d a k"

text \<open>No free run inside \<open>[lo, hi)\<close> is longer than \<open>n\<close>.\<close>

definition longest_free :: "fat32_fs \<Rightarrow> disk \<Rightarrow> nat \<Rightarrow> nat \<Rightarrow> nat \<Rightarrow> bool" where
  "longest_free fs d lo hi n \<longleftrightarrow> (\<forall>a k. lo \<le> a \<and> a + k \<le> hi \<and> free_range fs d a k \<longrightarrow> k \<le> n)"

text \<open>The loop invariant: the current run is the free stretch that ends just before \<open>c\<close>.\<close>

definition run_before :: "fat32_fs \<Rightarrow> disk \<Rightarrow> nat \<Rightarrow> nat \<Rightarrow> nat \<Rightarrow> nat \<Rightarrow> bool" where
  "run_before fs d lo c rs rl \<longleftrightarrow> lo + rl \<le> c \<and> free_range fs d (c - rl) rl \<and> (rl \<noteq> 0 \<longrightarrow> rs = c - rl) \<and>
     (c - rl = lo \<or> fat_of fs d (c - rl - 1) \<noteq> 0)"

lemma free_range_extend: "free_range fs d a k \<Longrightarrow> fat_of fs d (a + k) = 0 \<Longrightarrow> free_range fs d a (k + 1)"
  by (auto simp: free_range_def less_Suc_eq)

lemma run_before_free:
  assumes "run_before fs d lo c rs rl" "fat_of fs d c = 0"
  shows "run_before fs d lo (c + 1) (if rl = 0 then c else rs) (rl + 1)"
  using assms free_range_extend [of fs d "c - rl" rl] by (auto simp: run_before_def)

lemma run_before_used:
  assumes "run_before fs d lo c rs rl" "fat_of fs d c \<noteq> 0"
  shows "run_before fs d lo (c + 1) rs 0"
  using assms by (auto simp: run_before_def free_range_def)

lemma longest_step:
  assumes r: "run_before fs d lo (c + 1) rs rl" and l: "longest_free fs d lo c n" and n: "rl \<le> m" "n \<le> m"
  shows "longest_free fs d lo (c + 1) m"
  unfolding longest_free_def
proof (intro allI impI)
  fix a k assume a: "lo \<le> a \<and> a + k \<le> c + 1 \<and> free_range fs d a k"
  show "k \<le> m"
  proof (cases "a + k \<le> c")
    case True
    then show ?thesis using a l n by (force simp: longest_free_def)
  next
    case False
    then have e: "a + k = c + 1" using a by simp
    have "c + 1 - rl \<le> a"
    proof (rule ccontr)
      assume "\<not> c + 1 - rl \<le> a"
      then have "fat_of fs d (c + 1 - rl - 1) \<noteq> 0" "a \<le> c + 1 - rl - 1" "c + 1 - rl - 1 < a + k"
        using r a e by (auto simp: run_before_def)
      then show False using a by (auto simp: free_range_def)
    qed
    then show ?thesis using e n by simp
  qed
qed

lemma scan_runs_spec:
  assumes "fat_ready fs st" "healthy (ft_disk st)" "hi \<le> fs_total_clusters fs + 1" "2 \<le> lo" "lo \<le> c" "c \<le> hi + 1"
    "run_before fs (ft_disk st) lo c rs rl" "longest_free fs (ft_disk st) lo c bl"
    "bl = 0 \<or> free_run_at fs (ft_disk st) bs bl" "bl < want"
  shows "\<exists>bs' bl' st'. scan_runs fs want c hi (rs, rl) (bs, bl) st = ((bs', bl'), st') \<and>
    fat_ready fs st' \<and> same_data st st' \<and> healthy (ft_disk st') \<and> bl \<le> bl' \<and>
    (bl' = 0 \<or> free_run_at fs (ft_disk st) bs' bl') \<and> (want \<le> bl' \<or> longest_free fs (ft_disk st) lo (hi + 1) bl')"
  using assms
proof (induction "Suc hi - c" arbitrary: c rs rl bs bl st)
  case 0
  then have "c = hi + 1" by simp
  with 0 show ?case by (intro exI [of _ bs] exI [of _ bl] exI [of _ st]) (subst scan_runs.simps, simp)
next
  case (Suc m)
  let ?d = "ft_disk st"
  have c: "c \<le> hi" "valid_cluster fs c" using Suc.hyps(2) Suc.prems(3) by (auto simp: valid_cluster_def)
  obtain st1 where s: "fat32_next_cluster fs c st = (fat_of fs ?d c, st1)"
    "fat_ready fs st1" "same_data st st1" "healthy (ft_disk st1)"
    using next_cluster_healthy [OF Suc.prems(1,2) c(2)] .
  note fat1 = same_data_fat [OF s(3)]
  have eqs: "run_before fs (ft_disk st1) = run_before fs ?d" "longest_free fs (ft_disk st1) = longest_free fs ?d"
    "free_run_at fs (ft_disk st1) = free_run_at fs ?d"
    by (simp_all add: fun_eq_iff run_before_def longest_free_def free_run_at_def free_range_def fat1)
  have m: "m = Suc hi - (c + 1)" "lo \<le> c + 1" "c + 1 \<le> hi + 1" using Suc.hyps(2) Suc.prems c by auto
  note IH = Suc.hyps(1) [OF m(1) s(2,4) Suc.prems(3,4) m(2,3), unfolded eqs]
  show ?case
  proof (cases "fat_of fs ?d c = 0")
    case False
    note r = run_before_used [OF Suc.prems(7) False]
    have e: "scan_runs fs want c hi (rs, rl) (bs, bl) st = scan_runs fs want (c + 1) hi (rs, 0) (bs, bl) st1"
      using False c(1) s(1) by (subst scan_runs.simps) simp
    show ?thesis using IH [OF r longest_step [OF r Suc.prems(8)] Suc.prems(9,10)] same_data_trans [OF s(3)]
      unfolding e by fastforce
  next
    case True
    define rs' where "rs' = (if rl = 0 then c else rs)"
    define best where "best = (if rl + 1 > bl then (rs', rl + 1) else (bs, bl))"
    obtain bs1 bl1 where b: "best = (bs1, bl1)" by (cases best)
    note r = run_before_free [OF Suc.prems(7) True, folded rs'_def]
    have b1: "rl + 1 \<le> bl1" "bl \<le> bl1" using b by (auto simp: best_def split: if_splits)
    have "free_run_at fs ?d rs' (rl + 1)" using r c(2) Suc.prems(4) by (auto simp: run_before_def free_run_at_def valid_cluster_def)
    then have g: "bl1 = 0 \<or> free_run_at fs ?d bs1 bl1" using b Suc.prems(9) by (auto simp: best_def split: if_splits)
    have e: "scan_runs fs want c hi (rs, rl) (bs, bl) st = (if want \<le> bl1 then ((bs1, bl1), st1)
        else scan_runs fs want (c + 1) hi (rs', rl + 1) (bs1, bl1) st1)"
      using True c(1) s(1) b
      by (subst scan_runs.simps) (simp only: refl if_True Let_def prod.case rs'_def [symmetric] best_def [symmetric])
    show ?thesis
    proof (cases "want \<le> bl1")
      case True
      then show ?thesis unfolding e using s g b1(2)
        by (intro exI [of _ bs1] exI [of _ bl1] exI [of _ st1]) simp
    next
      case False
      show ?thesis using IH [OF r longest_step [OF r Suc.prems(8) b1] g] False same_data_trans [OF s(3)] b1(2)
        unfolding e by fastforce
    qed
  qed
qed

text \<open>The links of a run of \<open>l\<close> clusters at \<open>s\<close>, chained from number \<open>i\<close> on.\<close>

definition linked :: "(nat \<Rightarrow> nat) \<Rightarrow> nat \<Rightarrow> nat \<Rightarrow> nat \<Rightarrow> nat \<Rightarrow> nat" where
  "linked F s l i x = (if s + i \<le> x \<and> x < s + l then (if x + 1 < s + l then x + 1 else FAT32_EOC) else F x)"

lemma linked_step:
  assumes "i < l"
  shows "linked (F(s + i := if i + 1 < l then s + i + 1 else FAT32_EOC)) s l (i + 1) = linked F s l i"
  using assms by (auto simp: fun_eq_iff linked_def)

lemma linked_cong: "F x = G x \<Longrightarrow> linked F s l i x = linked G s l i x"
  by (simp add: linked_def)

lemma chain_run_spec:
  assumes "fat_ready fs st" "healthy (ft_disk st)" "s + l \<le> fs_total_clusters fs + 2"
  shows "\<exists>st'. chain_run fs s l i st = (True, st') \<and> ft_fs st' = ft_fs st \<and>
    fat_becomes fs (linked (fat_of fs (ft_disk st)) s l i) st st'"
  using assms
proof (induction "l - i" arbitrary: i st)
  case 0
  then have "linked (fat_of fs (ft_disk st)) s l i = fat_of fs (ft_disk st)" by (auto simp: fun_eq_iff linked_def)
  then show ?case using 0 fat_becomes_same [OF 0(2) same_data_refl 0(3)]
    by (intro exI [of _ st]) (subst chain_run.simps, simp)
next
  case (Suc m)
  let ?F = "fat_of fs (ft_disk st)"
  let ?v = "if i + 1 < l then s + i + 1 else FAT32_EOC"
  have i: "i < l" "m = l - (i + 1)" using Suc.hyps(2) by auto
  have c: "valid_cluster fs (s + i)" using i Suc.prems(3) by (simp add: valid_cluster_def)
  have "s + i + 1 < 2 ^ 28" if "i + 1 < l"
    using that Suc.prems(1,3) by (simp add: fat_ready_def vol_ok_def)
  then have v: "fat_link ?v = ?v" by (simp add: fat_link_EOC fat_link_small)
  obtain st1 where s: "fat32_set_fat_entry fs (s + i) ?v st = (0, st1)" "ft_fs st1 = ft_fs st"
    "fat_becomes fs (?F(s + i := ?v)) st st1"
    using set_fat_entry_becomes [OF Suc.prems(1,2) c, of ?v] v by auto
  have r: "fat_ready fs st1" "healthy (ft_disk st1)" using s(3) by (auto simp: fat_becomes_def)
  obtain st' where h: "chain_run fs s l (i + 1) st1 = (True, st')" "ft_fs st' = ft_fs st1"
    "fat_becomes fs (linked (fat_of fs (ft_disk st1)) s l (i + 1)) st1 st'"
    using Suc.hyps(1) [OF i(2) r Suc.prems(3)] by blast
  have "linked (fat_of fs (ft_disk st1)) s l (i + 1) x = linked ?F s l i x" if "valid_cluster fs x" for x
  proof -
    have "fat_of fs (ft_disk st1) x = (?F(s + i := ?v)) x" using s(3) that by (simp add: fat_becomes_def)
    then show ?thesis using linked_cong linked_step [OF i(1), of ?F s] by metis
  qed
  then have "fat_becomes fs (linked ?F s l i) st1 st'" using fat_becomes_cong [OF h(3)] by blast
  then have "fat_becomes fs (linked ?F s l i) st st'" using fat_becomes_trans [OF s(3)] by blast
  moreover have "chain_run fs s l i st = (True, st')"
    using i(1) s(1) h(1) by (subst chain_run.simps) (simp add: Let_def)
  ultimately show ?case using s(2) h(2) by auto
qed

text \<open>The two passes of the search.\<close>

lemma longest_freeD: "longest_free fs d lo hi n \<Longrightarrow> lo \<le> a \<Longrightarrow> a + k \<le> hi \<Longrightarrow> free_range fs d a k \<Longrightarrow> k \<le> n"
  by (auto simp: longest_free_def)

lemma longest_free_mono: "longest_free fs d lo hi n \<Longrightarrow> n \<le> m \<Longrightarrow> longest_free fs d lo hi m"
  by (force simp: longest_free_def)

lemma longest_free_empty: "hi \<le> lo \<Longrightarrow> longest_free fs d lo hi n"
  by (auto simp: longest_free_def)

definition run_search :: "fat32_fs \<Rightarrow> nat \<Rightarrow> fat_state \<Rightarrow> (nat \<times> nat) \<times> fat_state" where
  "run_search fs want st =
     (let m = fs_total_clusters fs + 1; start = search_start fs m;
          (best, st) = (if start > m then ((0, 0), st) else scan_runs fs want start m (0, 0) (0, 0) st)
      in if snd best < want \<and> 2 \<le> start - 1 then scan_runs fs want 2 (start - 1) (0, 0) best st else (best, st))"

lemma run_before_start: "run_before fs d lo lo 0 0"
  by (simp add: run_before_def free_range_def)

lemma run_search_spec:
  assumes "fat_ready fs st" "healthy (ft_disk st)" "0 < want"
  shows "\<exists>bs bl st'. run_search fs want st = ((bs, bl), st') \<and>
    fat_ready fs st' \<and> same_data st st' \<and> healthy (ft_disk st') \<and>
    (bl = 0 \<or> free_run_at fs (ft_disk st) bs bl) \<and>
    (want \<le> bl \<or> (let s = search_start fs (fs_total_clusters fs + 1) in
       longest_free fs (ft_disk st) s (fs_total_clusters fs + 2) bl \<and> longest_free fs (ft_disk st) 2 s bl))"
proof -
  let ?m = "fs_total_clusters fs + 1"
  let ?s = "search_start fs ?m"
  have s2: "2 \<le> ?s" by (auto simp: search_start_def)
  have "\<exists>bs bl st'. (if ?s > ?m then ((0, 0), st) else scan_runs fs want ?s ?m (0, 0) (0, 0) st) = ((bs, bl), st') \<and>
    fat_ready fs st' \<and> same_data st st' \<and> healthy (ft_disk st') \<and>
    (bl = 0 \<or> free_run_at fs (ft_disk st) bs bl) \<and> (want \<le> bl \<or> longest_free fs (ft_disk st) ?s (?m + 1) bl)"
  proof (cases "?s > ?m")
    case True
    then show ?thesis using assms longest_free_empty [of "?m + 1" ?s] by auto
  next
    case False
    then have "?s \<le> ?m + 1" by simp
    from scan_runs_spec [OF assms(1,2) order_refl s2 order_refl this run_before_start longest_free_empty [OF order_refl] _ assms(3), of 0]
    show ?thesis using False by auto
  qed
  then obtain bs bl st1 where p: "(if ?s > ?m then ((0, 0), st) else scan_runs fs want ?s ?m (0, 0) (0, 0) st) = ((bs, bl), st1)"
    "fat_ready fs st1" "same_data st st1" "healthy (ft_disk st1)"
    "bl = 0 \<or> free_run_at fs (ft_disk st) bs bl" "want \<le> bl \<or> longest_free fs (ft_disk st) ?s (?m + 1) bl"
    by blast
  note fat1 = same_data_fat [OF p(3)]
  have eqs: "longest_free fs (ft_disk st1) = longest_free fs (ft_disk st)" "free_run_at fs (ft_disk st1) = free_run_at fs (ft_disk st)"
    by (simp_all add: fun_eq_iff longest_free_def free_run_at_def free_range_def fat1)
  show ?thesis
  proof (cases "bl < want \<and> 2 \<le> ?s - 1")
    case False
    then have "run_search fs want st = ((bs, bl), st1)" unfolding run_search_def Let_def using p(1) by auto
    moreover have "want \<le> bl \<or> longest_free fs (ft_disk st) 2 ?s bl"
      using False longest_free_empty [of ?s 2 fs "ft_disk st" bl] s2 by linarith
    ultimately show ?thesis using p(2-6) by (auto simp: Let_def)
  next
    case True
    have e: "run_search fs want st = scan_runs fs want 2 (?s - 1) (0, 0) (bs, bl) st1"
      unfolding run_search_def Let_def using p(1) True by auto
    have h: "?s - 1 \<le> ?m" "2 \<le> ?s - 1 + 1" "?s - 1 + 1 = ?s" using True by (auto simp: search_start_def)
    obtain bs' bl' st' where q: "run_search fs want st = ((bs', bl'), st')" "fat_ready fs st'" "same_data st1 st'"
      "healthy (ft_disk st')" "bl \<le> bl'" "bl' = 0 \<or> free_run_at fs (ft_disk st) bs' bl'"
      "want \<le> bl' \<or> longest_free fs (ft_disk st) 2 ?s bl'"
      using scan_runs_spec [OF p(2,4) h(1) order_refl order_refl h(2) run_before_start longest_free_empty [OF order_refl], of bl bs want]
        p(5) True unfolding e eqs h(3) by blast
    have "want \<le> bl' \<or> longest_free fs (ft_disk st) ?s (?m + 1) bl'"
      using True p(6) q(5) longest_free_mono by fastforce
    then show ?thesis using q same_data_trans [OF p(3) q(3)] by (auto simp: Let_def)
  qed
qed

lemma alloc_run_eq:
  "fat_ready (ft_fs st ! f) st \<Longrightarrow> fat32_alloc_run f want st =
     (let want = (if want = 0 then 1 else want); fs = ft_fs st ! f; ((bs, bl), st) = run_search fs want st in
      if bl = 0 then ((0, 0), st)
      else
        let bl = (if bl > want then want else bl); (ok, st) = chain_run fs bs bl 0 st
        in if \<not> ok then ((0, 0), st) else ((bs, bl), set_hint f (bs + bl) st))"
  unfolding fat32_alloc_run_def run_search_def Let_def by (simp only: split_def max_cluster_exact)

text \<open>The allocator takes a free run of at most the wanted length and chains it; a shorter one only if
  neither search range holds a longer one, and none only if the volume is full.\<close>

lemma alloc_run_spec:
  fixes st f defines "fs \<equiv> ft_fs st ! f"
  assumes "fat_ready fs st" "healthy (ft_disk st)" "0 < want"
  shows "\<exists>s l st'. fat32_alloc_run f want st = ((s, l), st') \<and>
    (if l = 0 then s = 0 \<and> fat_ready fs st' \<and> same_data st st' \<and> (\<forall>c. \<not> free_cluster fs (ft_disk st) c)
     else l \<le> want \<and> free_run_at fs (ft_disk st) s l \<and>
       (l < want \<longrightarrow> (let h = search_start fs (fs_total_clusters fs + 1) in
          longest_free fs (ft_disk st) h (fs_total_clusters fs + 2) l \<and> longest_free fs (ft_disk st) 2 h l)) \<and>
       ft_fs st' = (ft_fs st)[f := fs\<lparr>fs_next_free_hint := s + l\<rparr>] \<and>
       fat_becomes fs (linked (fat_of fs (ft_disk st)) s l 0) st st')"
proof -
  let ?h = "search_start fs (fs_total_clusters fs + 1)"
  note eq = alloc_run_eq [OF assms(2) [unfolded fs_def], folded fs_def]
  obtain bs bl st1 where r: "run_search fs want st = ((bs, bl), st1)"
    "fat_ready fs st1" "same_data st st1" "healthy (ft_disk st1)" "bl = 0 \<or> free_run_at fs (ft_disk st) bs bl"
    "want \<le> bl \<or> longest_free fs (ft_disk st) ?h (fs_total_clusters fs + 2) bl \<and> longest_free fs (ft_disk st) 2 ?h bl"
    using run_search_spec [OF assms(2-4)] unfolding Let_def by blast
  have p1: "ft_fs st1 = ft_fs st" using r(3) by (simp add: same_data_def same_pools_def)
  show ?thesis
  proof (cases "bl = 0")
    case True
    have "\<not> free_cluster fs (ft_disk st) c" for c
    proof
      assume c: "free_cluster fs (ft_disk st) c"
      then have "free_range fs (ft_disk st) c 1" by (auto simp: free_cluster_def free_range_def less_Suc_eq_le dest: le_antisym)
      then show False using c r(6) True assms(4) longest_freeD [of fs "ft_disk st" ?h "fs_total_clusters fs + 2" bl c 1]
          longest_freeD [of fs "ft_disk st" 2 ?h bl c 1]
        by (cases "?h \<le> c") (simp_all add: free_cluster_def valid_cluster_def)
    qed
    then show ?thesis using r(1-3) True assms(4)
      by (intro exI [of _ 0] exI [of _ st1]) (simp add: eq)
  next
    case False
    define l where "l = (if bl > want then want else bl)"
    have l: "0 < l" "l \<le> want" "l \<le> bl" "l < want \<Longrightarrow> l = bl \<and> bl < want" using False assms(4) by (auto simp: l_def)
    have fr: "free_run_at fs (ft_disk st) bs l" using r(5) False l(3) by (auto simp: free_run_at_def free_range_def)
    then have "bs + l \<le> fs_total_clusters fs + 2" by (simp add: free_run_at_def)
    then obtain st2 where c: "chain_run fs bs l 0 st1 = (True, st2)" "ft_fs st2 = ft_fs st"
      "fat_becomes fs (linked (fat_of fs (ft_disk st)) bs l 0) st1 st2"
      using chain_run_spec [OF r(2,4), of bs l 0] p1 same_data_fat [OF r(3)] by auto
    have "fat_becomes fs (linked (fat_of fs (ft_disk st)) bs l 0) st st2"
      using fat_becomes_trans [OF fat_becomes_same [OF r(2,3) assms(3)] c(3)] .
    moreover have "fat32_alloc_run f want st = ((bs, l), set_hint f (bs + l) st2)"
      using r(1) c(1) False assms(4) by (simp add: eq l_def [symmetric] Let_def)
    ultimately show ?thesis using l fr r(6) c(2)
      by (intro exI [of _ bs] exI [of _ l] exI [of _ "set_hint f (bs + l) st2"]) (auto simp: Let_def fs_def)
  qed
qed

section \<open>Chains\<close>

text \<open>The clusters from \<open>c\<close> to the end mark. A table determines the chain, and a chain that ends visits no
  cluster twice.\<close>

fun chain :: "(nat \<Rightarrow> nat) \<Rightarrow> nat \<Rightarrow> nat list \<Rightarrow> bool" where
  "chain F c [] \<longleftrightarrow> FAT32_EOC \<le> c"
| "chain F c (x # xs) \<longleftrightarrow> x = c \<and> c < FAT32_EOC \<and> chain F (F c) xs"

lemma chain_unique: "chain F c xs \<Longrightarrow> chain F c ys \<Longrightarrow> xs = ys"
proof (induction F c xs arbitrary: ys rule: chain.induct)
  case (1 F c)
  then show ?case by (cases ys) auto
next
  case (2 F c x xs)
  then show ?case by (cases ys) auto
qed

lemma chain_suffix: "chain F c (xs @ y # ys) \<Longrightarrow> chain F y (y # ys)"
  by (induction xs arbitrary: c) auto

lemma chain_distinct: "chain F c xs \<Longrightarrow> distinct xs"
proof (induction xs arbitrary: c)
  case (Cons x xs)
  then have "distinct xs" by auto
  moreover have "x \<notin> set xs"
  proof
    assume "x \<in> set xs"
    then obtain as bs where e: "xs = as @ x # bs" by (meson split_list)
    then have "chain F x (x # bs)" using Cons.prems chain_suffix [of F c "x # as" x bs] by auto
    moreover have "chain F x (x # xs)" using Cons.prems by simp
    ultimately have "bs = xs" using chain_unique by blast
    moreover have "length xs = length as + Suc (length bs)" using e by simp
    ultimately show False by simp
  qed
  ultimately show ?case by simp
qed simp

lemma linked_chain_from:
  assumes "\<And>x. s \<le> x \<Longrightarrow> x < s + l \<Longrightarrow> G x = (if x + 1 < s + l then x + 1 else FAT32_EOC)" "s + l < FAT32_EOC" "i < l"
  shows "chain G (s + i) [s + i..<s + l]"
  using assms(3)
proof (induction "l - i" arbitrary: i)
  case (Suc m)
  have u: "[s + i..<s + l] = (s + i) # [s + (i + 1)..<s + l]" using Suc.prems by (simp add: upt_rec)
  show ?case
  proof (cases "i + 1 < l")
    case True
    moreover have "m = l - (i + 1)" using Suc.hyps(2) by simp
    ultimately have "chain G (s + (i + 1)) [s + (i + 1)..<s + l]" by (rule Suc.hyps(1) [rotated])
    then show ?thesis using True assms(1) [of "s + i"] assms(2) u by simp
  next
    case False
    then have "[s + (i + 1)..<s + l] = []" by simp
    then show ?thesis using False assms(1) [of "s + i"] assms(2) Suc.prems u by simp
  qed
qed simp

lemma linked_chain:
  assumes "vol_ok fs" "free_run_at fs d s l" "fat_becomes fs (linked F s l 0) st st'" "l \<noteq> 0"
  shows "chain (fat_of fs (ft_disk st')) s [s..<s + l]"
proof -
  have "s + l < FAT32_EOC" using assms(1,2) by (simp add: vol_ok_def free_run_at_def FAT32_EOC_def)
  moreover have "fat_of fs (ft_disk st') x = (if x + 1 < s + l then x + 1 else FAT32_EOC)" if "s \<le> x" "x < s + l" for x
    using assms(2,3) that by (simp add: fat_becomes_def linked_def valid_cluster_def free_run_at_def)
  ultimately show ?thesis using linked_chain_from [of s l _ 0] assms(4) by simp
qed

lemma chain_cong: "(\<And>x. x \<in> set xs \<Longrightarrow> F x = G x) \<Longrightarrow> chain F c xs = chain G c xs"
  by (induction xs arbitrary: c) auto

text \<open>Freeing a chain clears exactly its links.\<close>

lemma free_chain_spec:
  assumes "fat_ready fs st" "healthy (ft_disk st)" "chain (fat_of fs (ft_disk st)) c cs"
    "\<And>x. x \<in> set cs \<Longrightarrow> x \<noteq> 0 \<and> valid_cluster fs x"
  shows "\<exists>st'. free_chain fs c st = Some st' \<and> ft_fs st' = ft_fs st \<and>
    fat_becomes fs (\<lambda>x. if x \<in> set cs then 0 else fat_of fs (ft_disk st) x) st st'"
  using assms
proof (induction cs arbitrary: c st)
  case Nil
  then show ?case using fat_becomes_same [OF Nil(1) same_data_refl Nil(2)] by (subst free_chain.simps) simp
next
  case (Cons x cs)
  let ?F = "fat_of fs (ft_disk st)"
  have c: "x = c" "c < FAT32_EOC" "chain ?F (?F c) cs" "c \<noteq> 0" "valid_cluster fs c" using Cons.prems(3,4) by auto
  have ni: "c \<notin> set cs" using chain_distinct [OF Cons.prems(3)] c(1) by simp
  obtain st1 where n: "fat32_next_cluster fs c st = (?F c, st1)" "fat_ready fs st1" "same_data st st1" "healthy (ft_disk st1)"
    using next_cluster_healthy [OF Cons.prems(1,2) c(5)] .
  obtain st2 where s: "fat32_set_fat_entry fs c 0 st1 = (0, st2)" "ft_fs st2 = ft_fs st1"
    "fat_becomes fs (?F(c := 0)) st1 st2"
    using set_fat_entry_becomes [OF n(2,4) c(5), of 0] same_data_fat [OF n(3)] fat_link_small [of 0] by auto
  have r: "fat_ready fs st2" "healthy (ft_disk st2)" and f2: "\<And>y. valid_cluster fs y \<Longrightarrow> fat_of fs (ft_disk st2) y = (?F(c := 0)) y"
    using s(3) by (auto simp: fat_becomes_def)
  have "chain (fat_of fs (ft_disk st2)) (?F c) cs"
    using c(3) by (rule iffD1 [OF chain_cong, rotated]) (use ni f2 Cons.prems(4) in \<open>auto split: if_splits\<close>)
  from Cons.IH [OF r this] Cons.prems(4) obtain st' where f: "free_chain fs (?F c) st2 = Some st'" "ft_fs st' = ft_fs st2"
    "fat_becomes fs (\<lambda>x. if x \<in> set cs then 0 else fat_of fs (ft_disk st2) x) st2 st'" by auto
  have "fat_becomes fs (\<lambda>y. if y \<in> set (x # cs) then 0 else ?F y) st2 st'"
    using f(3) by (rule fat_becomes_cong) (use f2 c(1) in auto)
  then have "fat_becomes fs (\<lambda>y. if y \<in> set (x # cs) then 0 else ?F y) st st'"
    by (rule fat_becomes_trans [OF fat_becomes_trans [OF fat_becomes_same [OF n(2,3) Cons.prems(2)] s(3)]])
  moreover have "free_chain fs c st = Some st'" using c(2,4) n(1) s(1) f(1) by (subst free_chain.simps) simp
  moreover have "ft_fs st1 = ft_fs st" using n(3) by (simp add: same_data_def same_pools_def)
  ultimately show ?case using s(2) f(2) by auto
qed

lemma free_chain_empty: "free_chain fs 0 st = Some st"
  by (subst free_chain.simps) simp

section \<open>What the table operations promise\<close>

text \<open>A small volume: two tables of one sector, 100 clusters of one sector, all of them free.\<close>

definition vol_example :: fat32_fs where
  "vol_example = fs_zero\<lparr>fs_spc := 1, fs_num_fats := 2, fs_fat_size := 1, fs_fat_start_lba := 32,
     fs_data_start_lba := 34, fs_total_clusters := 100, fs_root_cluster := 2, fs_next_free_hint := 2\<rparr>"

definition disk_example :: disk where
  "disk_example = \<lparr>dk_sec = \<lambda>ty drv lba. zero_sector, dk_plan = []\<rparr>"

definition state_example :: fat_state where
  "state_example = \<lparr>ft_disk = disk_example, ft_fs = [vol_example], ft_nodes = [], ft_infos = [],
     ft_buf = zero_sector, ft_cached = None\<rparr>"

lemma example_vol: "vol_ok vol_example"
  by (simp add: vol_ok_def vol_example_def fs_zero_def FAT32_MAX_CLUSTER_SECTORS_def)

lemma example_ready: "fat_ready (ft_fs state_example ! 0) state_example" "healthy (ft_disk state_example)"
  using example_vol
  by (simp_all add: fat_ready_def state_example_def disk_ok_def disk_example_def cache_ok_def healthy_def)

lemma example_cluster: "c < 102 \<Longrightarrow> valid_cluster (ft_fs state_example ! 0) c"
  by (simp add: valid_cluster_def state_example_def vol_example_def fs_zero_def)

lemma example_links: "c < 102 \<Longrightarrow> fat_of (ft_fs state_example ! 0) (ft_disk state_example) c = 0"
proof -
  assume "c < 102"
  have "le32 zero_sector k = 0" if "k + 4 \<le> 512" for k
    using that by (simp add: le32_def le16_def byte_at_def zero_sector_def)
  moreover have "4 * c mod 512 + 4 \<le> 512" using valid_offset(3) [OF example_vol] example_cluster [OF \<open>c < 102\<close>]
    by (simp add: state_example_def)
  ultimately show ?thesis
    by (simp add: fat_of_def fat_word_def sec_of_def state_example_def disk_example_def fat_link_def)
qed

text \<open>On a volume whose devices work, an update of a table entry succeeds; afterwards the lookup of every
  cluster gives the new value (28 bits of it) for the updated cluster and the value from before for all
  others, whatever the one-sector cache held; every copy of the table holds the merged entry, which keeps
  the upper four bits; no sector outside the tables changes.\<close>

theorem fat_update_then_lookup:
  assumes "fat_ready fs st" "healthy (ft_disk st)" "valid_cluster fs c"
  shows "\<exists>st'. fat32_set_fat_entry fs c v st = (0, st') \<and>
    (\<forall>x. valid_cluster fs x \<longrightarrow>
       fst (fat32_next_cluster fs x st') = (if x = c then v mod 2 ^ 32 mod 2 ^ 28 else fst (fat32_next_cluster fs x st))) \<and>
    (\<forall>k < fs_num_fats fs. fat_word fs (ft_disk st') k c = fat_merge v (fat_word fs (ft_disk st) k c) \<and>
       (of_nat (fat_word fs (ft_disk st') k c) :: u32) AND 0xF0000000 = of_nat (fat_word fs (ft_disk st) k c) AND 0xF0000000) \<and>
    (\<forall>l. \<not> in_fat fs l \<longrightarrow> sec_of fs (ft_disk st') l = sec_of fs (ft_disk st) l)"
proof -
  obtain st' where s: "fat32_set_fat_entry fs c v st = (0, st')" "fat_updated fs c v st st'"
    using set_fat_entry_spec [OF assms] .
  have r: "fat_ready fs st'" "healthy (ft_disk st')" using s(2) by (auto simp: fat_updated_def)
  have look: "fst (fat32_next_cluster fs x st') = (if x = c then v mod 2 ^ 32 mod 2 ^ 28 else fst (fat32_next_cluster fs x st))"
    if x: "valid_cluster fs x" for x
  proof -
    have "fst (fat32_next_cluster fs x st') = fat_of fs (ft_disk st') x" using next_cluster_healthy [OF r x] by (metis fst_conv)
    moreover have "fst (fat32_next_cluster fs x st) = fat_of fs (ft_disk st) x"
      using next_cluster_healthy [OF assms(1,2) x] by (metis fst_conv)
    ultimately show ?thesis using fat_updated_fat [OF s(2) x] by (simp add: fat_link_mod)
  qed
  have "fat_word fs (ft_disk st') k c = fat_merge v (fat_word fs (ft_disk st) k c)" if "k < fs_num_fats fs" for k
    using s(2) assms(3) that by (simp add: fat_updated_def)
  moreover have "sec_of fs (ft_disk st') l = sec_of fs (ft_disk st) l" if "\<not> in_fat fs l" for l
    using s(2) that by (simp add: fat_updated_def)
  ultimately show ?thesis using s(1) look by (intro exI [of _ st']) (auto simp: fat_merge_top)
qed

theorem fat_update_then_lookup_witness:
  "\<exists>st'. fat32_set_fat_entry vol_example 5 7 state_example = (0, st') \<and> fst (fat32_next_cluster vol_example 5 st') = 7"
proof -
  have v: "vol_example = ft_fs state_example ! 0" by (simp add: state_example_def)
  from fat_update_then_lookup [OF example_ready example_cluster, of 5 7] example_cluster [of 5]
  show ?thesis unfolding v by auto
qed

text \<open>C21: allocation of one cluster returns the first free cluster in next-fit order from the hint, marks it
  (and no other cluster) as the end of a chain, and moves the hint behind it; it returns 0, changing no
  link, exactly when no cluster is free.\<close>

theorem fat_alloc_next_fit:
  assumes "fat_ready (ft_fs st ! f) st" "healthy (ft_disk st)"
  shows "case find (\<lambda>x. fat_of (ft_fs st ! f) (ft_disk st) x = 0) (search_order (ft_fs st ! f)) of
      None \<Rightarrow> (\<forall>c. \<not> free_cluster (ft_fs st ! f) (ft_disk st) c) \<and>
        (\<exists>st'. fat32_alloc_cluster f st = (0, st') \<and> same_data st st')
    | Some c \<Rightarrow> free_cluster (ft_fs st ! f) (ft_disk st) c \<and>
        (\<exists>st'. fat32_alloc_cluster f st = (c, st') \<and>
          ft_fs st' = (ft_fs st)[f := (ft_fs st ! f)\<lparr>fs_next_free_hint := c + 1\<rparr>] \<and>
          fat_becomes (ft_fs st ! f) ((fat_of (ft_fs st ! f) (ft_disk st))(c := FAT32_EOC)) st st')"
proof (cases "find (\<lambda>x. fat_of (ft_fs st ! f) (ft_disk st) x = 0) (search_order (ft_fs st ! f))")
  case None
  then have "\<not> free_cluster (ft_fs st ! f) (ft_disk st) c" for c
    using set_search_order by (auto simp: find_None_iff free_cluster_def)
  then show ?thesis using alloc_cluster_spec [OF assms] None by auto
next
  case (Some c)
  then have "c \<in> set (search_order (ft_fs st ! f))" "fat_of (ft_fs st ! f) (ft_disk st) c = 0"
    by (auto simp: find_Some_iff)
  then show ?thesis using alloc_cluster_spec [OF assms] Some by (simp add: set_search_order free_cluster_def)
qed

theorem fat_alloc_next_fit_witness:
  "\<exists>st'. fat32_alloc_cluster 0 (set_hint 0 50 state_example) = (50, st') \<and> fs_next_free_hint (ft_fs st' ! 0) = 51"
proof -
  let ?st = "set_hint 0 50 state_example"
  let ?fs = "ft_fs ?st ! 0"
  have fs: "?fs = (ft_fs state_example ! 0)\<lparr>fs_next_free_hint := 50\<rparr>" by (simp add: state_example_def)
  have r: "fat_ready ?fs ?st" "healthy (ft_disk ?st)" using example_ready unfolding fs by simp_all
  have "fs_total_clusters ?fs = 100" "fs_next_free_hint ?fs = 50" unfolding fs by (simp_all add: state_example_def vol_example_def)
  then have "search_order ?fs = 50 # [51..<102] @ [2..<50]"
    using filter_upt_less [of 2 50 102] by (simp add: search_order_def Let_def comp_def upt_rec [of 50] del: upt_Suc)
  then have "find (\<lambda>x. fat_of ?fs (ft_disk ?st) x = 0) (search_order ?fs) = Some 50"
    using example_links [of 50] unfolding fs by simp
  then show ?thesis using fat_alloc_next_fit [OF r] by (auto simp: state_example_def)
qed

text \<open>Allocation of a run returns a stretch of consecutive free clusters, at most as long as asked, and links
  them to a chain that ends with the end mark, changing no other link. A shorter stretch is returned only if
  neither of the two search ranges, behind and before the hint, holds a longer one, and none (0) only if no
  cluster is free.\<close>

theorem fat_alloc_run_best:
  assumes "fat_ready (ft_fs st ! f) st" "healthy (ft_disk st)" "0 < want"
  shows "\<exists>s l st'. fat32_alloc_run f want st = ((s, l), st') \<and>
    (if l = 0 then s = 0 \<and> same_data st st' \<and> (\<forall>c. \<not> free_cluster (ft_fs st ! f) (ft_disk st) c)
     else l \<le> want \<and> (\<forall>i < l. free_cluster (ft_fs st ! f) (ft_disk st) (s + i)) \<and>
       (l < want \<longrightarrow> (let h = search_start (ft_fs st ! f) (fs_total_clusters (ft_fs st ! f) + 1) in
          longest_free (ft_fs st ! f) (ft_disk st) h (fs_total_clusters (ft_fs st ! f) + 2) l \<and>
          longest_free (ft_fs st ! f) (ft_disk st) 2 h l)) \<and>
       chain (fat_of (ft_fs st ! f) (ft_disk st')) s [s..<s + l] \<and>
       (\<forall>x. valid_cluster (ft_fs st ! f) x \<and> \<not> (s \<le> x \<and> x < s + l) \<longrightarrow>
          fat_of (ft_fs st ! f) (ft_disk st') x = fat_of (ft_fs st ! f) (ft_disk st) x) \<and>
       (\<forall>b. \<not> in_fat (ft_fs st ! f) b \<longrightarrow> sec_of (ft_fs st ! f) (ft_disk st') b = sec_of (ft_fs st ! f) (ft_disk st) b))"
proof -
  let ?fs = "ft_fs st ! f"
  obtain s l st' where a: "fat32_alloc_run f want st = ((s, l), st')"
    "if l = 0 then s = 0 \<and> fat_ready ?fs st' \<and> same_data st st' \<and> (\<forall>c. \<not> free_cluster ?fs (ft_disk st) c)
     else l \<le> want \<and> free_run_at ?fs (ft_disk st) s l \<and>
       (l < want \<longrightarrow> (let h = search_start ?fs (fs_total_clusters ?fs + 1) in
          longest_free ?fs (ft_disk st) h (fs_total_clusters ?fs + 2) l \<and> longest_free ?fs (ft_disk st) 2 h l)) \<and>
       ft_fs st' = (ft_fs st)[f := ?fs\<lparr>fs_next_free_hint := s + l\<rparr>] \<and>
       fat_becomes ?fs (linked (fat_of ?fs (ft_disk st)) s l 0) st st'"
    using alloc_run_spec [OF assms] by blast
  show ?thesis
  proof (cases "l = 0")
    case True
    with a show ?thesis by auto
  next
    case False
    then have b: "free_run_at ?fs (ft_disk st) s l" "fat_becomes ?fs (linked (fat_of ?fs (ft_disk st)) s l 0) st st'"
      using a(2) by auto
    have c: "chain (fat_of ?fs (ft_disk st')) s [s..<s + l]"
      using assms(1) b False by (intro linked_chain) (auto simp: fat_ready_def)
    have "\<forall>i < l. free_cluster ?fs (ft_disk st) (s + i)"
      using b(1) by (auto simp: free_run_at_def free_cluster_def valid_cluster_def free_range_def)
    moreover have "\<forall>x. valid_cluster ?fs x \<and> \<not> (s \<le> x \<and> x < s + l) \<longrightarrow> fat_of ?fs (ft_disk st') x = fat_of ?fs (ft_disk st) x"
      "\<forall>b. \<not> in_fat ?fs b \<longrightarrow> sec_of ?fs (ft_disk st') b = sec_of ?fs (ft_disk st) b"
      using b(2) by (auto simp: fat_becomes_def linked_def)
    ultimately show ?thesis using a False c by (intro exI [of _ s] exI [of _ l] exI [of _ st']) simp
  qed
qed

theorem fat_alloc_run_best_witness:
  "\<exists>s l st'. fat32_alloc_run 0 3 state_example = ((s, l), st') \<and> 0 < l \<and> l \<le> 3"
proof -
  have "free_cluster (ft_fs state_example ! 0) (ft_disk state_example) 2"
    using example_links [of 2] example_cluster [of 2] by (simp add: free_cluster_def)
  moreover have "0 < (3 :: nat)" by simp
  note fat_alloc_run_best [OF example_ready this]
  ultimately show ?thesis by (metis gr0I)
qed

text \<open>Deleting a file's chain returns, clears the link of every cluster of the chain in the table and
  changes no other link and no sector outside the tables.\<close>

theorem fat_free_chain_exact:
  assumes "fat_ready fs st" "healthy (ft_disk st)" "chain (fat_of fs (ft_disk st)) c cs"
    "\<forall>x \<in> set cs. x \<noteq> 0 \<and> valid_cluster fs x"
  shows "\<exists>st'. free_chain fs c st = Some st' \<and>
    (\<forall>x. valid_cluster fs x \<longrightarrow> fat_of fs (ft_disk st') x = (if x \<in> set cs then 0 else fat_of fs (ft_disk st) x)) \<and>
    (\<forall>b. \<not> in_fat fs b \<longrightarrow> sec_of fs (ft_disk st') b = sec_of fs (ft_disk st) b)"
proof -
  obtain st' where "free_chain fs c st = Some st'"
    "fat_becomes fs (\<lambda>x. if x \<in> set cs then 0 else fat_of fs (ft_disk st) x) st st'"
    using free_chain_spec [OF assms(1-3)] assms(4) by blast
  then show ?thesis by (intro exI [of _ st']) (simp add: fat_becomes_def)
qed

text \<open>The chain of a run just allocated, as the input of the deletion.\<close>

theorem fat_free_chain_exact_witness:
  "\<exists>s l st st'. fat32_alloc_run 0 3 state_example = ((s, l), st) \<and> 0 < l \<and> free_chain vol_example s st = Some st' \<and>
     fat_of vol_example (ft_disk st') s = 0"
proof -
  let ?fs = "ft_fs state_example ! 0" and ?d = "ft_disk state_example"
  have v: "vol_example = ?fs" by (simp add: state_example_def)
  have three: "0 < (3 :: nat)" by simp
  have f2: "free_cluster ?fs ?d 2" using example_links [of 2] example_cluster [of 2] by (simp add: free_cluster_def)
  obtain s l st where a: "fat32_alloc_run 0 3 state_example = ((s, l), st)" "l \<noteq> 0" "free_run_at ?fs ?d s l"
    "fat_becomes ?fs (linked (fat_of ?fs ?d) s l 0) state_example st"
    using alloc_run_spec [OF example_ready three] f2 by metis
  have r: "fat_ready ?fs st" "healthy (ft_disk st)" using a(4) by (auto simp: fat_becomes_def)
  have c: "chain (fat_of ?fs (ft_disk st)) s [s..<s + l]"
    using a(2-4) r(1) by (intro linked_chain) (auto simp: fat_ready_def)
  have "\<forall>x \<in> set [s..<s + l]. x \<noteq> 0 \<and> valid_cluster ?fs x"
    using a(3) by (auto simp: free_run_at_def valid_cluster_def)
  from fat_free_chain_exact [OF r c this] show ?thesis
    unfolding v using a(1-3) by (force simp: free_run_at_def valid_cluster_def)
qed

text \<open>An update whose second copy cannot be read fails with \<open>-1\<close>, but the first copy on disk already holds
  the new link while the cached sector keeps the old one: the following lookup returns a value the table no
  longer has.\<close>

theorem fat_update_failure_leaves_stale_cache:
  assumes r: "fat_ready fs st" and c: "valid_cluster fs c" and n: "2 \<le> fs_num_fats fs"
    and plan: "dk_plan (ft_disk st) = None # None # Some k # rest"
    and hit: "ft_cached st = Some (fs_fat_start_lba fs + 4 * c div 512, fs_drive_type fs, fs_drive fs)"
  shows "\<exists>st'. fat32_set_fat_entry fs c v st = (- 1, st') \<and>
    fst (fat32_next_cluster fs c st') = fat_of fs (ft_disk st) c \<and> fat_of fs (ft_disk st') c = fat_link v"
proof -
  let ?d = "ft_disk st"
  have v: "vol_ok fs" "disk_ok ?d" "cache_ok fs st" using r by (auto simp: fat_ready_def)
  note off = valid_offset [OF v(1) c]
  let ?idx = "4 * c div 512" and ?off = "4 * c mod 512"
  let ?lba = "fs_fat_start_lba fs + ?idx" and ?lba2 = "fs_fat_start_lba fs + fs_fat_size fs + ?idx"
  let ?b = "put_entry (sec_of fs ?d ?lba) ?off v"
  let ?d1 = "?d\<lparr>dk_plan := None # Some k # rest\<rparr>"
  let ?d2 = "set_sec fs ?lba ?b (?d\<lparr>dk_plan := Some k # rest\<rparr>)"
  have len: "length (sec_of fs ?d ?lba) = 512" using v(2) by (simp add: disk_ok_def sec_of_def)
  have one: "0 < blk_max (fs_drive_type fs)" "\<not> blk_max (fs_drive_type fs) < Suc 0" by (simp_all add: blk_max_def)
  have rd: "fs_read fs ?lba 1 zero_sector st = (0, sec_of fs ?d ?lba, st\<lparr>ft_disk := ?d1\<rparr>)"
    using len one plan by (simp add: fs_read_def blk_read_def outcome_def read_sectors_def sec_of_def overwrite_def)
  have wr: "fs_write fs ?lba 1 ?b (st\<lparr>ft_disk := ?d1\<rparr>) = (0, st\<lparr>ft_disk := ?d2\<rparr>)"
    using len one by (simp add: fs_write_def blk_write_def outcome_def set_sec_def)
  have f: "fs_read fs ?lba2 1 zero_sector (st\<lparr>ft_disk := ?d2\<rparr>) = (- 1, zero_sector, st\<lparr>ft_disk := ?d2\<lparr>dk_plan := rest\<rparr>\<rparr>)"
    using one by (simp add: fs_read_def blk_read_def outcome_def read_sectors_def overwrite_def set_sec_def)
  have "fat_copies fs ?idx ?off v 1 (st\<lparr>ft_disk := ?d2\<rparr>) = (- 1, st\<lparr>ft_disk := ?d2\<lparr>dk_plan := rest\<rparr>\<rparr>)"
    using n f by (subst fat_copies.simps) (simp add: Let_def)
  then have "fat_copies fs ?idx ?off v 0 st = (- 1, st\<lparr>ft_disk := ?d2\<lparr>dk_plan := rest\<rparr>\<rparr>)"
    using n rd wr by (subst fat_copies.simps) (simp add: Let_def put_entry_def)
  then have e: "fat32_set_fat_entry fs c v st = (- 1, st\<lparr>ft_disk := ?d2\<lparr>dk_plan := rest\<rparr>\<rparr>)"
    using off(1) by (simp add: fat32_set_fat_entry_def Let_def)
  have "ft_buf st = sec_of fs ?d ?lba" using v(3) hit by (simp add: cache_ok_def)
  then have "fst (fat32_next_cluster fs c (st\<lparr>ft_disk := ?d2\<lparr>dk_plan := rest\<rparr>\<rparr>)) = fat_of fs ?d c"
    using hit off(1) by (simp add: fat32_next_cluster_def Let_def fat_of_def fat_word_def)
  moreover have "fat_of fs (?d2\<lparr>dk_plan := rest\<rparr>) c = fat_link v"
    using len off(3) put_entry_same [of ?off "sec_of fs ?d ?lba" v] fat_link_merge
    by (simp add: fat_of_def fat_word_def sec_of_def set_sec_def)
  ultimately show ?thesis using e by (intro exI [of _ "st\<lparr>ft_disk := ?d2\<lparr>dk_plan := rest\<rparr>\<rparr>"]) simp
qed

theorem fat_update_failure_leaves_stale_cache_witness:
  "\<exists>st st'. fat_ready vol_example st \<and> fat32_set_fat_entry vol_example 5 7 st = (- 1, st') \<and>
     fst (fat32_next_cluster vol_example 5 st') = 0 \<and> fat_of vol_example (ft_disk st') 5 = 7"
proof -
  let ?st = "state_example\<lparr>ft_disk := disk_example\<lparr>dk_plan := [None, None, Some 0]\<rparr>, ft_cached := Some (32, 0, 0)\<rparr>"
  have r: "fat_ready vol_example ?st" using example_vol
    by (simp add: fat_ready_def state_example_def disk_ok_def disk_example_def cache_ok_def vol_example_def fs_zero_def sec_of_def)
  have z: "fat_of vol_example (ft_disk ?st) 5 = 0"
    using example_links [of 5] by (simp add: fat_of_def fat_word_def sec_of_def state_example_def)
  have p: "valid_cluster vol_example 5" "2 \<le> fs_num_fats vol_example" "dk_plan (ft_disk ?st) = None # None # Some 0 # []"
    "ft_cached ?st = Some (fs_fat_start_lba vol_example + 4 * 5 div 512, fs_drive_type vol_example, fs_drive vol_example)"
    by (simp_all add: valid_cluster_def vol_example_def fs_zero_def)
  note fat_update_failure_leaves_stale_cache [OF r p, of 7]
  moreover have "fat_link 7 = 7" by (simp add: fat_link_eq)
  ultimately show ?thesis using r unfolding z by metis
qed

end
