(* ===== verification/Fat32_Names.thy ===== *)
theory Fat32_Names
  imports Fat32_Fat
begin

text \<open>
  The 8.3 names of \<open>fs/fat32.c\<close>: what \<open>fat32_parse_83\<close> accepts and stores, that \<open>fat32_format_83\<close> gives the
  upper-case name back, and that \<open>fat32_strcasecmp\<close> is equality up to case, so a name finds the entry created
  under it.
\<close>

section \<open>Case-insensitive comparison\<close>

lemma cstr_of_Cons: "cstr_of (x # xs) = (if x = 0 then [] else x # cstr_of xs)"
  by (simp add: cstr_of_def)

lemma cstr_drop:
  "cstr_of (drop i a) = (if cstr_at a i = 0 then [] else cstr_at a i # cstr_of (drop (i + 1) a))"
proof (cases "i < length a")
  case True
  then have "drop i a = a ! i # drop (i + 1) a" by (simp add: Cons_nth_drop_Suc)
  with True show ?thesis by (simp add: cstr_of_Cons cstr_at_def)
qed (simp add: cstr_at_def cstr_of_def)

lemma strcasecmp_from_zero:
  "strcasecmp_from a b i = 0 \<longleftrightarrow> map upper (cstr_of (drop i a)) = map upper (cstr_of (drop i b))"
proof (induction a b i rule: strcasecmp_from.induct)
  case (1 a b i)
  let ?a = "cstr_at a i" and ?b = "cstr_at b i"
  have s: "strcasecmp_from a b i = (if ?a \<noteq> 0 \<and> ?b \<noteq> 0 then
      if upper ?a \<noteq> upper ?b then sint (upper ?a) - sint (upper ?b) else strcasecmp_from a b (i + 1)
      else uint ?a - uint ?b)"
    by (subst strcasecmp_from.simps) (simp add: Let_def)
  consider (ends) "?a = 0 \<or> ?b = 0" | (differ) "?a \<noteq> 0" "?b \<noteq> 0" "upper ?a \<noteq> upper ?b"
    | (step) "?a \<noteq> 0" "?b \<noteq> 0" "upper ?a = upper ?b" by blast
  then show ?case
  proof cases
    case ends
    then show ?thesis using s cstr_drop [of i a] cstr_drop [of i b] by (auto simp: uint_0_iff)
  next
    case differ
    then have "sint (upper ?a) \<noteq> sint (upper ?b)" by (auto dest: signed_word_eqI)
    then show ?thesis using s differ cstr_drop [of i a] cstr_drop [of i b] by auto
  next
    case step
    then show ?thesis using s 1 cstr_drop [of i a] cstr_drop [of i b] by auto
  qed
qed

section \<open>Parsing\<close>

abbreviation dot :: u8 where "dot \<equiv> 0x2E"
abbreviation space :: u8 where "space \<equiv> 0x20"

definition pad :: "nat \<Rightarrow> u8 list \<Rightarrow> u8 list" where
  "pad n xs = xs @ replicate (n - length xs) space"

lemma length_pad [simp]: "length xs \<le> n \<Longrightarrow> length (pad n xs) = n"
  by (simp add: pad_def)

definition not_dot :: "u8 \<Rightarrow> bool" where "not_dot c \<longleftrightarrow> c \<noteq> dot"

text \<open>Storing characters one after the other from position \<open>k\<close>.\<close>

fun store :: "u8 list \<Rightarrow> nat \<Rightarrow> u8 list \<Rightarrow> u8 list" where
  "store raw k [] = raw"
| "store raw k (c # cs) = store (raw[k := upper c]) (k + 1) cs"

lemma store_eq: "k + length cs \<le> length raw \<Longrightarrow> store raw k cs = take k raw @ map upper cs @ drop (k + length cs) raw"
proof (induction cs arbitrary: raw k)
  case (Cons c cs)
  then have "store raw k (c # cs) = take (k + 1) (raw[k := upper c]) @ map upper cs @ drop (k + 1 + length cs) (raw[k := upper c])"
    by simp
  moreover have "take (k + 1) (raw[k := upper c]) = take k raw @ [upper c]"
    using Cons.prems by (simp add: take_Suc_conv_app_nth)
  ultimately show ?case by simp
qed simp

lemma parse_base_eq:
  "parse_base raw j name =
     (let s = takeWhile not_dot (cstr_of name) in
      if j + length s \<le> 8 \<or> s = [] then Some (store raw j s, j + length s, drop (length s) name) else None)"
proof (induction raw j name rule: parse_base.induct)
  case (2 raw j c cs)
  show ?case
  proof (cases "c = 0 \<or> c = dot")
    case True
    then show ?thesis by (auto simp: cstr_of_Cons not_dot_def Let_def)
  next
    case False
    then show ?thesis using 2 by (auto simp: cstr_of_Cons not_dot_def Let_def)
  qed
qed (simp add: cstr_of_def)

lemma parse_ext_eq:
  "parse_ext raw k name =
     (let s = cstr_of name in
      if (k + length s \<le> 3 \<or> s = []) \<and> dot \<notin> set s then Some (store raw (8 + k) s) else None)"
proof (induction raw k name rule: parse_ext.induct)
  case (2 raw k c cs)
  show ?case
  proof (cases "c = 0 \<or> c = dot \<or> k \<ge> 3")
    case True
    then show ?thesis by (auto simp: cstr_of_Cons Let_def)
  next
    case False
    then show ?thesis using 2 by (auto simp: cstr_of_Cons Let_def)
  qed
qed (simp add: cstr_of_def)

text \<open>The two parts of a name, at its first dot.\<close>

definition base_of :: "u8 list \<Rightarrow> u8 list" where
  "base_of s = takeWhile not_dot s"

definition ext_of :: "u8 list \<Rightarrow> u8 list" where
  "ext_of s = tl (dropWhile not_dot s)"

lemma cstr_rest:
  "cstr_of (drop (length (takeWhile not_dot (cstr_of name))) name) = dropWhile not_dot (cstr_of name)"
  by (induction name) (auto simp: cstr_of_def not_dot_def)

lemma rest_cases:
  assumes "rest = drop (length (takeWhile not_dot (cstr_of name))) name"
  shows "rest = [] \<and> dropWhile not_dot (cstr_of name) = [] \<or> (\<exists>cs. rest = 0 # cs \<and> dropWhile not_dot (cstr_of name) = []) \<or>
    (\<exists>cs. rest = dot # cs \<and> dropWhile not_dot (cstr_of name) = dot # cstr_of cs)"
  unfolding assms by (induction name) (auto simp: cstr_of_def not_dot_def)

definition fits_83 :: "u8 list \<Rightarrow> bool" where
  "fits_83 s \<longleftrightarrow> base_of s \<noteq> [] \<and> length (base_of s) \<le> 8 \<and> length (ext_of s) \<le> 3 \<and> dot \<notin> set (ext_of s)"

definition raw_83 :: "u8 list \<Rightarrow> u8 list" where
  "raw_83 s = pad 8 (map upper (base_of s)) @ pad 3 (map upper (ext_of s))"

lemma store_83:
  assumes "length b \<le> 8" "length e \<le> 3"
  shows "store (store (replicate 11 space) 0 b) 8 e = pad 8 (map upper b) @ pad 3 (map upper e)"
proof -
  have b: "store (replicate 11 space) 0 b = map upper b @ replicate (11 - length b) space"
    using assms(1) by (simp add: store_eq)
  have r: "replicate (11 - length b) space = replicate (8 - length b) space @ replicate 3 space"
    using assms(1) by (simp add: replicate_add [symmetric])
  show ?thesis unfolding b r using assms
    by (simp add: store_eq pad_def)
qed

lemma parse_83_eq: "fat32_parse_83 name = (if fits_83 (cstr_of name) then Some (raw_83 (cstr_of name)) else None)"
proof -
  let ?s = "cstr_of name"
  let ?rest = "drop (length (base_of ?s)) name"
  have p: "parse_base (replicate 11 space) 0 name =
      (if length (base_of ?s) \<le> 8 then Some (store (replicate 11 space) 0 (base_of ?s), length (base_of ?s), ?rest) else None)"
    unfolding parse_base_eq by (auto simp: base_of_def Let_def)
  consider "?rest = []" "dropWhile not_dot ?s = []" | cs where "?rest = 0 # cs" "dropWhile not_dot ?s = []"
    | cs where "?rest = dot # cs" "dropWhile not_dot ?s = dot # cstr_of cs"
    using rest_cases [of ?rest name] unfolding base_of_def by blast
  then show ?thesis
  proof cases
    case 1
    moreover from this(2) have "ext_of ?s = []" by (simp only: ext_of_def list.sel)
    ultimately show ?thesis using p store_83 [of "base_of ?s" "[]"] by (simp add: fat32_parse_83_def fits_83_def raw_83_def)
  next
    case 2
    moreover from this(2) have "ext_of ?s = []" by (simp only: ext_of_def list.sel)
    ultimately show ?thesis using p store_83 [of "base_of ?s" "[]"] by (simp add: fat32_parse_83_def fits_83_def raw_83_def)
  next
    case (3 cs)
    then show ?thesis using p store_83 [of "base_of ?s" "cstr_of cs"]
      by (auto simp: fat32_parse_83_def fits_83_def ext_of_def raw_83_def parse_ext_eq Let_def)
  qed
qed

section \<open>Printing\<close>

lemma until_space_pad: "length xs \<le> n \<Longrightarrow> space \<notin> set xs \<Longrightarrow> until_space n (pad n xs @ ys) = xs"
proof (induction xs arbitrary: n)
  case Nil
  then show ?case by (cases n) (simp_all add: pad_def)
next
  case (Cons x xs)
  then show ?case by (cases n) (auto simp: pad_def)
qed

lemma format_pad:
  assumes "length b \<le> 8" "length e \<le> 3" "space \<notin> set b" "space \<notin> set e"
  shows "fat32_format_83 (pad 8 b @ pad 3 e) = b @ (if e = [] then [] else dot # e)"
proof -
  have "(pad 8 b @ pad 3 e) ! 8 = pad 3 e ! 0" using assms(1) by (simp add: nth_append)
  moreover have "pad 3 e ! 0 = (if e = [] then space else hd e)" by (cases e) (simp_all add: pad_def)
  moreover have "e \<noteq> [] \<Longrightarrow> hd e \<noteq> space" using assms(4) by (cases e) auto
  moreover have "until_space 3 (drop 8 (pad 8 b @ pad 3 e)) = e"
    using assms until_space_pad [of e 3 "[]"] by simp
  ultimately show ?thesis using assms until_space_pad [of b 8 "pad 3 e"] by (simp add: fat32_format_83_def)
qed

lemma upper_space: "upper c = space \<longleftrightarrow> c = space"
proof -
  have "upper c = space \<Longrightarrow> c = space"
    by (auto simp: upper_def split: if_splits)
  then show ?thesis by (auto simp: upper_def)
qed

lemma upper_zero: "upper c = 0 \<longleftrightarrow> c = 0"
  by (auto simp: upper_def word_le_nat_alt split: if_splits)

lemma upper_idem [simp]: "upper (upper c) = upper c"
  by (auto simp: upper_def word_le_nat_alt unat_sub_if')

text \<open>The name as \<open>readdir\<close> shows it: upper case, a trailing dot dropped.\<close>

definition canonical :: "u8 list \<Rightarrow> u8 list" where
  "canonical s = base_of s @ (if ext_of s = [] then [] else dot # ext_of s)"

text \<open>\<open>fat32_parse_83\<close> accepts exactly the names with a base of 1 to 8 characters and an extension of at most
  3 characters without a second dot, and stores the two parts in upper case, padded with spaces to 8 and 3
  bytes; for a name without spaces \<open>fat32_format_83\<close> turns the 11 bytes back into the name in upper case (without
  a trailing dot), which compares equal to the name the caller gave.\<close>

theorem fat_name_round_trip:
  "(fat32_parse_83 name \<noteq> None \<longleftrightarrow> fits_83 (cstr_of name)) \<and>
   (fits_83 (cstr_of name) \<longrightarrow> fat32_parse_83 name = Some (raw_83 (cstr_of name)) \<and> length (raw_83 (cstr_of name)) = 11 \<and>
     (space \<notin> set (cstr_of name) \<longrightarrow>
        fat32_format_83 (raw_83 (cstr_of name)) = map upper (canonical (cstr_of name)) \<and>
        fat32_strcasecmp (map upper (canonical (cstr_of name))) (canonical (cstr_of name)) = 0))"
proof -
  let ?s = "cstr_of name"
  have tl_sub: "set (tl xs) \<subseteq> set xs" for xs :: "u8 list" by (cases xs) auto
  have sub: "set (base_of ?s) \<subseteq> set ?s" "set (ext_of ?s) \<subseteq> set ?s"
    unfolding base_of_def ext_of_def using tl_sub by (auto dest: set_takeWhileD set_dropWhileD)
  have "0 \<notin> set ?s" by (auto simp: cstr_of_def dest: set_takeWhileD)
  then have nz: "0 \<notin> set (canonical ?s)" using sub by (auto simp: canonical_def)
  have z: "cstr_of xs = xs" if "0 \<notin> set xs" for xs using that by (auto simp: cstr_of_def takeWhile_eq_all_conv)
  have "0 \<notin> set (map upper (canonical ?s))" using nz by (auto simp: upper_zero eq_commute [of 0])
  then have cmp: "fat32_strcasecmp (map upper (canonical ?s)) (canonical ?s) = 0"
    using nz by (simp add: fat32_strcasecmp_def strcasecmp_from_zero z)
  have fmt: "fat32_format_83 (raw_83 ?s) = map upper (canonical ?s)" if f: "fits_83 ?s" and sp: "space \<notin> set ?s"
  proof -
    have "space \<notin> set (map upper (base_of ?s))" "space \<notin> set (map upper (ext_of ?s))"
      using sp sub by (auto simp: upper_space eq_commute [of space])
    then have "fat32_format_83 (raw_83 ?s) = map upper (base_of ?s) @ (if map upper (ext_of ?s) = [] then [] else dot # map upper (ext_of ?s))"
      unfolding raw_83_def using f by (intro format_pad) (simp_all add: fits_83_def)
    then show ?thesis by (simp add: canonical_def upper_def)
  qed
  have "fits_83 ?s \<Longrightarrow> length (raw_83 ?s) = 11" by (simp add: raw_83_def fits_83_def)
  then show ?thesis using fmt cmp by (auto simp: parse_83_eq)
qed

theorem fat_name_round_trip_witness:
  "fat32_parse_83 [0x61, 0x2E, 0x74, 0x78] = Some ([0x41] @ replicate 7 space @ [0x54, 0x58, space]) \<and>
   fat32_format_83 ([0x41] @ replicate 7 space @ [0x54, 0x58, space]) = [0x41, 0x2E, 0x54, 0x58]"
proof -
  let ?n = "[0x61, 0x2E, 0x74, 0x78] :: u8 list"
  have s: "cstr_of ?n = ?n" by (simp add: cstr_of_def)
  have b: "base_of ?n = [0x61]" "ext_of ?n = [0x74, 0x78]" by (simp_all add: base_of_def ext_of_def not_dot_def)
  have u: "upper 0x61 = 0x41" "upper 0x74 = 0x54" "upper 0x78 = 0x58" "upper dot = dot" by (simp_all add: upper_def)
  have r: "raw_83 ?n = [0x41] @ replicate 7 space @ [0x54, 0x58, space]" by (simp add: raw_83_def b u pad_def)
  have "fits_83 ?n" by (simp add: fits_83_def b)
  then show ?thesis using fat_name_round_trip [of ?n] unfolding s r by (simp add: canonical_def b u)
qed

text \<open>The comparison used by lookups is equality of the two C strings up to the case of the letters A to Z,
  so two spellings of one name always match.\<close>

theorem fat_strcasecmp_equality:
  "fat32_strcasecmp a b = 0 \<longleftrightarrow> map upper (cstr_of a) = map upper (cstr_of b)"
  by (simp add: fat32_strcasecmp_def strcasecmp_from_zero)

end
