(* ===== verification/Vfs.thy ===== *)
theory Vfs
  imports Sched Fat32
begin

text \<open>
  \<open>fs/vfs.c\<close> and \<open>fs/vfs.h\<close>: mounts, path resolution and file descriptors. A node pointer is a number; the
  function pointers a driver stored in a node are its \<open>vn_ops\<close>, and calling one goes through the record
  \<open>driver\<close>, whose fields are the operations of the file systems behind the mounts (FAT32 is modelled in
  \<open>Fat32\<close>; the record is instantiated with it in \<open>Vfs_Fat\<close>). Driver calls may not return on a corrupted
  volume, so the operations that make them return an option, \<open>None\<close> being a call that does not return.
  The descriptor tables are those of the scheduler's tasks.
\<close>

section \<open>State\<close>

definition MAX_MOUNTS :: nat where "MAX_MOUNTS = 8"
definition MAX_PATH :: nat where "MAX_PATH = 256"
definition O_CREATE :: u8 where "O_CREATE = 0x04"
definition O_APPEND :: u8 where "O_APPEND = 0x08"
definition FS_EXT2 :: nat where "FS_EXT2 = 3"

abbreviation slash :: u8 where "slash \<equiv> 0x2F"

text \<open>The drivers: their nodes, the node operations, the mount and defragmentation entry points and the
  block devices below them.\<close>

record 's driver =
  dr_node :: "'s \<Rightarrow> nat \<Rightarrow> vfs_node"
  dr_finddir :: "nat \<Rightarrow> u8 list \<Rightarrow> 's \<Rightarrow> (nat option \<times> 's) option"
  dr_create :: "nat \<Rightarrow> u8 list \<Rightarrow> 's \<Rightarrow> (nat option \<times> 's) option"
  dr_read :: "nat \<Rightarrow> nat \<Rightarrow> nat \<Rightarrow> 's \<Rightarrow> (int \<times> u8 list \<times> 's) option"
  dr_write :: "nat \<Rightarrow> nat \<Rightarrow> u8 list \<Rightarrow> 's \<Rightarrow> (int \<times> 's) option"
  dr_readdir :: "nat \<Rightarrow> nat \<Rightarrow> 's \<Rightarrow> (dirent option \<times> 's) option"
  dr_unlink :: "nat \<Rightarrow> u8 list \<Rightarrow> 's \<Rightarrow> (int \<times> 's) option"
  dr_rename :: "nat \<Rightarrow> u8 list \<Rightarrow> nat \<Rightarrow> u8 list \<Rightarrow> 's \<Rightarrow> (int \<times> 's) option"
  dr_fat32_mount :: "u8 \<Rightarrow> u8 \<Rightarrow> nat \<Rightarrow> mount_point \<Rightarrow> 's \<Rightarrow> int \<times> mount_point \<times> 's"
  dr_ext2_mount :: "u8 \<Rightarrow> u8 \<Rightarrow> nat \<Rightarrow> mount_point \<Rightarrow> 's \<Rightarrow> int \<times> mount_point \<times> 's"
  dr_ntfs_mount :: "u8 \<Rightarrow> u8 \<Rightarrow> nat \<Rightarrow> mount_point \<Rightarrow> 's \<Rightarrow> int \<times> mount_point \<times> 's"
  dr_xfs_mount :: "u8 \<Rightarrow> u8 \<Rightarrow> nat \<Rightarrow> mount_point \<Rightarrow> 's \<Rightarrow> int \<times> mount_point \<times> 's"
  dr_fat32_defrag :: "nat \<Rightarrow> 's \<Rightarrow> (int \<times> (nat \<times> nat \<times> nat) \<times> 's) option"
  dr_ext2_defrag :: "nat \<Rightarrow> 's \<Rightarrow> (int \<times> (nat \<times> nat \<times> nat) \<times> 's) option"
  dr_disk :: "'s \<Rightarrow> disk"
  dr_set_disk :: "disk \<Rightarrow> 's \<Rightarrow> 's"

record 's vfs =
  mount_table :: "mount_point list"
  v_sched :: sched
  v_fs :: 's

definition mount_zero :: mount_point where
  "mount_zero = \<lparr>mt_path = [], mt_root = None, mt_active = False, mt_drive = 0, mt_partition = 0, mt_fs_type = 0,
     mt_part_lba = 0, mt_part_sectors = 0\<rparr>"

definition vfs_init :: "'s vfs \<Rightarrow> 's vfs" where
  "vfs_init v = v\<lparr>mount_table := replicate MAX_MOUNTS mount_zero\<rparr>"

definition set_mount :: "nat \<Rightarrow> mount_point \<Rightarrow> 's vfs \<Rightarrow> 's vfs" where
  "set_mount i mp v = v\<lparr>mount_table := (mount_table v)[i := mp]\<rparr>"

text \<open>The calling task's descriptor table.\<close>

definition fdt :: "'s vfs \<Rightarrow> file_descriptor list" where
  "fdt v = t_fd_table (get_task (v_sched v) (the (sched_current_task (v_sched v))))"

definition set_fd :: "nat \<Rightarrow> file_descriptor \<Rightarrow> 's vfs \<Rightarrow> 's vfs" where
  "set_fd i fd v = v\<lparr>v_sched := upd_task (the (sched_current_task (v_sched v)))
     (\<lambda>t. t\<lparr>t_fd_table := (t_fd_table t)[i := fd]\<rparr>) (v_sched v)\<rparr>"

section \<open>Strings and paths\<close>

fun prefix_match :: "u8 list \<Rightarrow> u8 list \<Rightarrow> bool" where
  "prefix_match str [] = True"
| "prefix_match str (p # ps) =
     (if p = 0 then True else if cstr_at str 0 \<noteq> p then False else prefix_match (tl str) ps)"

fun vfs_strlen :: "u8 list \<Rightarrow> nat" where
  "vfs_strlen [] = 0"
| "vfs_strlen (c # cs) = (if c = 0 then 0 else Suc (vfs_strlen cs))"

text \<open>The string left in the destination.\<close>

fun vfs_strcpy :: "u8 list \<Rightarrow> nat \<Rightarrow> u8 list" where
  "vfs_strcpy [] lim = []"
| "vfs_strcpy (c # cs) lim = (if c = 0 \<or> lim \<le> 1 then [] else c # vfs_strcpy cs (lim - 1))"

fun scan_mounts :: "u8 list \<Rightarrow> nat \<Rightarrow> mount_point list \<Rightarrow> nat option \<times> nat \<Rightarrow> nat option \<times> nat" where
  "scan_mounts path i [] best = best"
| "scan_mounts path i (mp # mps) (best, best_len) =
     (if \<not> mt_active mp then scan_mounts path (i + 1) mps (best, best_len)
      else
        let mlen = vfs_strlen (mt_path mp) in
        if prefix_match path (mt_path mp) \<and> mlen > best_len \<and> (cstr_at path mlen = 0 \<or> cstr_at path mlen = slash)
        then scan_mounts path (i + 1) mps (Some i, mlen)
        else scan_mounts path (i + 1) mps (best, best_len))"

text \<open>The mount and the rest of the path behind its prefix.\<close>

definition find_mount :: "u8 list \<Rightarrow> 's vfs \<Rightarrow> (nat \<times> u8 list) option" where
  "find_mount path v =
     (case scan_mounts path 0 (mount_table v) (None, 0) of
        (None, _) \<Rightarrow> None
      | (Some i, best_len) \<Rightarrow>
          let r = drop best_len path in Some (i, if cstr_at r 0 = slash then tl r else r))"

fun skip_slashes :: "u8 list \<Rightarrow> u8 list" where
  "skip_slashes (c # cs) = (if c = slash then skip_slashes cs else c # cs)"
| "skip_slashes [] = []"

text \<open>One component: at most \<open>MAX_FILENAME - 1\<close> characters, \<open>n\<close> of them left.\<close>

fun take_component :: "nat \<Rightarrow> u8 list \<Rightarrow> u8 list \<times> u8 list" where
  "take_component 0 p = ([], p)"
| "take_component (Suc n) [] = ([], [])"
| "take_component (Suc n) (c # cs) =
     (if c = 0 \<or> c = slash then ([], c # cs)
      else let (comp, rest) = take_component n cs in (c # comp, rest))"

lemma skip_slashes_length: "length (skip_slashes p) \<le> length p"
  by (induction p) auto

lemma take_component_length: "length (snd (take_component n p)) \<le> length p"
  by (induction n p rule: take_component.induct) (auto simp: split_def Let_def)

lemma take_component_less:
  "cstr_at p 0 \<noteq> 0 \<Longrightarrow> cstr_at p 0 \<noteq> slash \<Longrightarrow> length (snd (take_component (Suc n) p)) < length p"
  using take_component_length [of n "tl p"] by (cases p) (auto simp: cstr_at_def split_def Let_def)

lemma skip_slashes_head: "cstr_at (skip_slashes p) 0 \<noteq> slash"
  by (induction p) (auto simp: cstr_at_def)

lemma walk_decreases:
  assumes "take_component (MAX_FILENAME - 1) (skip_slashes p) = (component, rest)" "cstr_at (skip_slashes p) 0 \<noteq> 0"
  shows "length rest < length p"
proof -
  have "MAX_FILENAME - 1 = Suc 126" by (simp add: MAX_FILENAME_def)
  then have "length rest < length (skip_slashes p)"
    using take_component_less [of "skip_slashes p" 126] assms skip_slashes_head [of p] by simp
  then show ?thesis using skip_slashes_length [of p] by simp
qed

function walk_path :: "'s driver \<Rightarrow> nat \<Rightarrow> u8 list \<Rightarrow> 's \<Rightarrow> (nat option \<times> 's) option" where
  "walk_path D node relpath s =
     (if cstr_at relpath 0 = 0 then Some (Some node, s)
      else
        let p = skip_slashes relpath in
        if cstr_at p 0 = 0 then Some (Some node, s)
        else
          let (component, rest) = take_component (MAX_FILENAME - 1) p in
          if Op_finddir \<notin> set (vn_ops (dr_node D s node)) then Some (None, s)
          else (case dr_finddir D node component s of
                  None \<Rightarrow> None
                | Some (None, s) \<Rightarrow> Some (None, s)
                | Some (Some n, s) \<Rightarrow> walk_path D n rest s))"
  by pat_completeness auto
termination
  by (relation "measure (\<lambda>(D, node, p, s). length p)") (auto dest: walk_decreases [OF sym, unfolded One_nat_def])

declare walk_path.simps [simp del]

fun first_active :: "nat \<Rightarrow> mount_point list \<Rightarrow> nat option" where
  "first_active i [] = None"
| "first_active i (mp # mps) = (if mt_active mp then Some i else first_active (i + 1) mps)"

definition first_mount :: "'s vfs \<Rightarrow> nat option" where
  "first_mount v = first_active 0 (mount_table v)"

text \<open>The mount of a path and the path below its root; a relative path belongs to the first mount.\<close>

definition locate :: "u8 list \<Rightarrow> 's vfs \<Rightarrow> (nat \<times> u8 list) option" where
  "locate path v =
     (if cstr_at path 0 = slash then find_mount path v
      else map_option (\<lambda>i. (i, path)) (first_mount v))"

text \<open>The walk from the root of mount \<open>i\<close>. A mount without root has no nodes.\<close>

definition walk_mount :: "'s driver \<Rightarrow> nat \<Rightarrow> u8 list \<Rightarrow> 's vfs \<Rightarrow> (nat option \<times> 's vfs) option" where
  "walk_mount D i relpath v =
     (case mt_root (mount_table v ! i) of
        None \<Rightarrow> Some (None, v)
      | Some root \<Rightarrow> map_option (\<lambda>(n, s). (n, v\<lparr>v_fs := s\<rparr>)) (walk_path D root relpath (v_fs v)))"

definition resolve_path :: "'s driver \<Rightarrow> u8 list \<Rightarrow> 's vfs \<Rightarrow> (nat option \<times> 's vfs) option" where
  "resolve_path D path v =
     (case locate path v of None \<Rightarrow> Some (None, v) | Some (i, relpath) \<Rightarrow> walk_mount D i relpath v)"

text \<open>The position of the last slash.\<close>

fun last_slash :: "nat \<Rightarrow> u8 list \<Rightarrow> nat option \<Rightarrow> nat option" where
  "last_slash k [] acc = acc"
| "last_slash k (c # cs) acc =
     (if c = 0 then acc else last_slash (k + 1) cs (if c = slash then Some k else acc))"

text \<open>The parent directory and the name of the last component.\<close>

definition split_parent :: "'s driver \<Rightarrow> nat \<Rightarrow> u8 list \<Rightarrow> 's vfs \<Rightarrow> ((nat option \<times> u8 list) \<times> 's vfs) option" where
  "split_parent D i relpath v =
     (case last_slash 0 relpath None of
        None \<Rightarrow> Some ((mt_root (mount_table v ! i), vfs_strcpy relpath MAX_FILENAME), v)
      | Some dlen \<Rightarrow>
          if dlen \<ge> MAX_PATH then Some ((None, []), v)
          else map_option (\<lambda>(n, v). ((n, vfs_strcpy (drop (dlen + 1) relpath) MAX_FILENAME), v))
                 (walk_mount D i (take dlen relpath) v))"

section \<open>Mounting\<close>

fun free_mount :: "nat \<Rightarrow> mount_point list \<Rightarrow> nat option" where
  "free_mount i [] = None"
| "free_mount i (mp # mps) = (if \<not> mt_active mp then Some i else free_mount (i + 1) mps)"

text \<open>Run a mount function on the slot.\<close>

definition mount_with :: "(mount_point \<Rightarrow> 's \<Rightarrow> int \<times> mount_point \<times> 's) \<Rightarrow> nat \<Rightarrow> 's vfs \<Rightarrow> int \<times> 's vfs" where
  "mount_with f slot v =
     (let (rc, mp, s) = f (mount_table v ! slot) (v_fs v) in (rc, set_mount slot mp (v\<lparr>v_fs := s\<rparr>)))"

definition mount_fail :: "nat \<Rightarrow> 's vfs \<Rightarrow> int \<times> 's vfs" where
  "mount_fail slot v = (- 4, set_mount slot ((mount_table v ! slot)\<lparr>mt_active := False\<rparr>) v)"

definition vfs_mount :: "'s driver \<Rightarrow> u8 \<Rightarrow> u8 \<Rightarrow> u8 list \<Rightarrow> 's vfs \<Rightarrow> int \<times> 's vfs" where
  "vfs_mount D drive part_no mount_path v =
     (case free_mount 0 (mount_table v) of
        None \<Rightarrow> (- 1, v)
      | Some slot \<Rightarrow>
          let (rc, parts, d) = ata_read_partitions drive (dr_disk D (v_fs v));
              v = v\<lparr>v_fs := dr_set_disk D d (v_fs v)\<rparr>
          in if rc \<noteq> 0 then (- 2, v)
             else
               let part = parts ! unat part_no in
               if mp_type part = 0 then (- 3, v)
               else
                 let v = set_mount slot ((mount_table v ! slot)\<lparr>mt_path := vfs_strcpy mount_path 64,
                       mt_partition := part_no, mt_part_sectors := mp_sector_count part\<rparr>) v;
                     ptype = mp_type part; lba = mp_lba_start part
                 in if ptype = 0x0B \<or> ptype = 0x0C then mount_with (dr_fat32_mount D DRIVE_TYPE_ATA drive lba) slot v
                    else if ptype = 0x83 then
                      let (rc, v) = mount_with (dr_ext2_mount D DRIVE_TYPE_ATA drive lba) slot v in
                      if rc = - 2 then mount_with (dr_xfs_mount D DRIVE_TYPE_ATA drive lba) slot v else (rc, v)
                    else if ptype = 0x07 then mount_with (dr_ntfs_mount D DRIVE_TYPE_ATA drive lba) slot v
                    else mount_fail slot v)"

text \<open>The four GPT entry points differ in the drive type.\<close>

definition mount_gpt :: "'s driver \<Rightarrow> u8 \<Rightarrow> u8 \<Rightarrow> nat \<Rightarrow> nat \<Rightarrow> u8 list \<Rightarrow> 's vfs \<Rightarrow> int \<times> 's vfs" where
  "mount_gpt D ty drive lba_start sector_count mount_path v =
     (case free_mount 0 (mount_table v) of
        None \<Rightarrow> (- 1, v)
      | Some slot \<Rightarrow>
          let v = set_mount slot ((mount_table v ! slot)\<lparr>mt_path := vfs_strcpy mount_path 64, mt_partition := 0,
                mt_part_sectors := sector_count\<rparr>) v;
              (rc, boot, d) = blk_read ty drive lba_start 1 zero_sector (dr_disk D (v_fs v));
              v = v\<lparr>v_fs := dr_set_disk D d (v_fs v)\<rparr>
          in if rc \<noteq> 0 then (- 2, v)
             else if le16 boot 11 = 512 \<and> le16 boot 17 = 0 \<and> le16 boot 22 = 0 then
               mount_with (dr_fat32_mount D ty drive lba_start) slot v
             else if byte_at boot 3 = 0x4E \<and> byte_at boot 4 = 0x54 \<and> byte_at boot 5 = 0x46 \<and> byte_at boot 6 = 0x53 then
               mount_with (dr_ntfs_mount D ty drive lba_start) slot v
             else
               let (rc, sb_check, d) = blk_read ty drive (lba_start + 2) 1 zero_sector (dr_disk D (v_fs v));
                   v = v\<lparr>v_fs := dr_set_disk D d (v_fs v)\<rparr>
               in if rc = 0 \<and> le16 sb_check 56 = 0xEF53 then mount_with (dr_ext2_mount D ty drive lba_start) slot v
                  else mount_fail slot v)"

definition vfs_mount_gpt :: "'s driver \<Rightarrow> u8 \<Rightarrow> nat \<Rightarrow> nat \<Rightarrow> u8 list \<Rightarrow> 's vfs \<Rightarrow> int \<times> 's vfs" where
  "vfs_mount_gpt D = mount_gpt D DRIVE_TYPE_ATA"

definition vfs_mount_nvme_gpt :: "'s driver \<Rightarrow> u8 \<Rightarrow> nat \<Rightarrow> nat \<Rightarrow> u8 list \<Rightarrow> 's vfs \<Rightarrow> int \<times> 's vfs" where
  "vfs_mount_nvme_gpt D = mount_gpt D DRIVE_TYPE_NVME"

definition vfs_mount_ahci_gpt :: "'s driver \<Rightarrow> u8 \<Rightarrow> nat \<Rightarrow> nat \<Rightarrow> u8 list \<Rightarrow> 's vfs \<Rightarrow> int \<times> 's vfs" where
  "vfs_mount_ahci_gpt D = mount_gpt D DRIVE_TYPE_AHCI"

definition vfs_mount_vblk_gpt :: "'s driver \<Rightarrow> u8 \<Rightarrow> nat \<Rightarrow> nat \<Rightarrow> u8 list \<Rightarrow> 's vfs \<Rightarrow> int \<times> 's vfs" where
  "vfs_mount_vblk_gpt D = mount_gpt D DRIVE_TYPE_VBLK"

section \<open>Unmounting\<close>

text \<open>From a node up to \<open>root\<close> or past the topmost directory; a cyclic parent chain would not end.\<close>

partial_function (option) climb :: "(nat \<Rightarrow> nat option) \<Rightarrow> nat option \<Rightarrow> nat option \<Rightarrow> nat option option" where
  "climb par n root = (if n \<noteq> None \<and> n \<noteq> root then climb par (par (the n)) root else Some n)"

fun close_fds_under :: "(nat \<Rightarrow> nat option) \<Rightarrow> nat option \<Rightarrow> file_descriptor list \<Rightarrow> file_descriptor list option" where
  "close_fds_under par root [] = Some []"
| "close_fds_under par root (fd # fds) =
     do {
       fd \<leftarrow> (if \<not> fd_active fd then Some fd
             else map_option (\<lambda>n. if n = root then fd\<lparr>fd_active := False\<rparr> else fd) (climb par (fd_node fd) root));
       fds \<leftarrow> close_fds_under par root fds;
       Some (fd # fds)
     }"

definition close_task :: "(nat \<Rightarrow> nat option) \<Rightarrow> nat option \<Rightarrow> tref \<Rightarrow> sched \<Rightarrow> sched option" where
  "close_task par root r s =
     map_option (\<lambda>tbl. upd_task r (\<lambda>t. t\<lparr>t_fd_table := tbl\<rparr>) s) (close_fds_under par root (t_fd_table (get_task s r)))"

fun close_tasks :: "(nat \<Rightarrow> nat option) \<Rightarrow> nat option \<Rightarrow> nat \<Rightarrow> nat \<Rightarrow> sched \<Rightarrow> sched option" where
  "close_tasks par root t 0 s = Some s"
| "close_tasks par root t (Suc n) s = Option.bind (close_task par root (Slot t) s) (close_tasks par root (t + 1) n)"

function path_eq_from :: "u8 list \<Rightarrow> u8 list \<Rightarrow> nat \<Rightarrow> bool" where
  "path_eq_from a b k =
     (if cstr_at a k \<noteq> 0 \<or> cstr_at b k \<noteq> 0 then
        if cstr_at a k \<noteq> cstr_at b k then False else path_eq_from a b (k + 1)
      else True)"
  by pat_completeness auto
termination
  by (relation "measure (\<lambda>(a, b, k). length a - k)") (auto simp: cstr_at_def split: if_splits)

declare path_eq_from.simps [simp del]

fun mount_named :: "u8 list \<Rightarrow> nat \<Rightarrow> mount_point list \<Rightarrow> nat option" where
  "mount_named path i [] = None"
| "mount_named path i (mp # mps) =
     (if mt_active mp \<and> path_eq_from path (mt_path mp) 0 then Some i else mount_named path (i + 1) mps)"

definition vfs_umount :: "'s driver \<Rightarrow> u8 list \<Rightarrow> 's vfs \<Rightarrow> (int \<times> 's vfs) option" where
  "vfs_umount D mount_path v =
     (case mount_named mount_path 0 (mount_table v) of
        None \<Rightarrow> Some (- 1, v)
      | Some i \<Rightarrow>
          let mp = mount_table v ! i; root = mt_root mp; par = (\<lambda>n. vn_parent (dr_node D (v_fs v) n)) in
          do {
            s \<leftarrow> close_task par root (sched_idle_task (v_sched v)) (v_sched v);
            s \<leftarrow> close_tasks par root 0 (sched_task_count s) s;
            Some (0, set_mount i (mp\<lparr>mt_active := False, mt_root := None\<rparr>) (v\<lparr>v_sched := s\<rparr>))
          })"

definition vfs_defrag :: "'s driver \<Rightarrow> u8 list \<Rightarrow> 's vfs \<Rightarrow> (int \<times> (nat \<times> nat \<times> nat) option \<times> 's vfs) option" where
  "vfs_defrag D mount_path v =
     (case mount_named mount_path 0 (mount_table v) of
        None \<Rightarrow> Some (- 1, None, v)
      | Some i \<Rightarrow>
          let mp = mount_table v ! i; root = the (mt_root mp);
              result = map_option (\<lambda>(rc, counts, s). (rc, Some counts, v\<lparr>v_fs := s\<rparr>))
          in if mt_fs_type mp = FS_FAT32 then result (dr_fat32_defrag D root (v_fs v))
             else if mt_fs_type mp = FS_EXT2 then result (dr_ext2_defrag D root (v_fs v))
             else Some (- 2, None, v))"

section \<open>Files\<close>

fun free_fd :: "nat \<Rightarrow> file_descriptor list \<Rightarrow> nat option" where
  "free_fd i [] = None"
| "free_fd i (fd # fds) = (if \<not> fd_active fd then Some i else free_fd (i + 1) fds)"

definition install_fd :: "'s driver \<Rightarrow> nat \<Rightarrow> u8 \<Rightarrow> 's vfs \<Rightarrow> int \<times> 's vfs" where
  "install_fd D node flags v =
     (case free_fd 0 (fdt v) of
        None \<Rightarrow> (- 3, v)
      | Some i \<Rightarrow> (int i, set_fd i \<lparr>fd_node = Some node,
          fd_offset = (if flags AND O_APPEND \<noteq> 0 then of_nat (vn_size (dr_node D (v_fs v) node)) else 0),
          fd_flags = flags, fd_active = True\<rparr> v))"

text \<open>The creation of the last component in its parent directory.\<close>

definition create_at :: "'s driver \<Rightarrow> nat \<Rightarrow> u8 list \<Rightarrow> 's vfs \<Rightarrow> (nat option \<times> 's vfs) option" where
  "create_at D i relpath v =
     do {
       ((parent, name), v) \<leftarrow> split_parent D i relpath v;
       (case parent of
          None \<Rightarrow> Some (None, v)
        | Some p \<Rightarrow>
            if Op_create \<notin> set (vn_ops (dr_node D (v_fs v) p)) \<or> cstr_at name 0 = 0 then Some (None, v)
            else map_option (\<lambda>(n, s). (n, v\<lparr>v_fs := s\<rparr>)) (dr_create D p name (v_fs v)))
     }"

definition vfs_open :: "'s driver \<Rightarrow> u8 list \<Rightarrow> u8 \<Rightarrow> 's vfs \<Rightarrow> (int \<times> 's vfs) option" where
  "vfs_open D path flags v =
     (case locate path v of
        None \<Rightarrow> Some (- 1, v)
      | Some (i, relpath) \<Rightarrow>
          do {
            (node, v) \<leftarrow> walk_mount D i relpath v;
            (case node of
               Some n \<Rightarrow> Some (install_fd D n flags v)
             | None \<Rightarrow>
                 if flags AND O_CREATE = 0 then Some (- 2, v)
                 else do {
                   (node, v) \<leftarrow> create_at D i relpath v;
                   Some (case node of None \<Rightarrow> (- 2, v) | Some n \<Rightarrow> install_fd D n flags v)
                 })
          })"

text \<open>The guard of the operations on descriptors.\<close>

definition open_fd :: "int \<Rightarrow> 's vfs \<Rightarrow> file_descriptor option" where
  "open_fd fd v =
     (if fd < 0 \<or> fd \<ge> int MAX_FD then None
      else let e = fdt v ! nat fd in if fd_active e then Some e else None)"

definition vfs_close :: "int \<Rightarrow> 's vfs \<Rightarrow> int \<times> 's vfs" where
  "vfs_close fd v =
     (case open_fd fd v of
        None \<Rightarrow> (- 1, v)
      | Some e \<Rightarrow> (0, set_fd (nat fd) (e\<lparr>fd_active := False, fd_node := None\<rparr>) v))"

definition advance :: "int \<Rightarrow> int \<Rightarrow> 's vfs \<Rightarrow> 's vfs" where
  "advance fd n v =
     (if n > 0 then let e = fdt v ! nat fd in set_fd (nat fd) (e\<lparr>fd_offset := fd_offset e + of_int n\<rparr>) v else v)"

text \<open>The result: the return value, the bytes stored in the caller's buffer, the state.\<close>

definition vfs_read :: "'s driver \<Rightarrow> int \<Rightarrow> nat \<Rightarrow> 's vfs \<Rightarrow> (int \<times> u8 list \<times> 's vfs) option" where
  "vfs_read D fd count v =
     (case open_fd fd v of
        None \<Rightarrow> Some (- 1, [], v)
      | Some e \<Rightarrow>
          (case fd_node e of
             None \<Rightarrow> Some (- 1, [], v)
           | Some node \<Rightarrow>
               if Op_read \<notin> set (vn_ops (dr_node D (v_fs v) node)) then Some (- 1, [], v)
               else map_option (\<lambda>(n, out, s). (n, out, advance fd n (v\<lparr>v_fs := s\<rparr>)))
                      (dr_read D node (unat (fd_offset e)) (count mod 2 ^ 32) (v_fs v))))"

definition vfs_seek :: "int \<Rightarrow> u64 \<Rightarrow> 's vfs \<Rightarrow> int \<times> 's vfs" where
  "vfs_seek fd offset v =
     (case open_fd fd v of
        None \<Rightarrow> (- 1, v)
      | Some e \<Rightarrow> (0, set_fd (nat fd) (e\<lparr>fd_offset := offset\<rparr>) v))"

definition vfs_write :: "'s driver \<Rightarrow> int \<Rightarrow> u8 list \<Rightarrow> 's vfs \<Rightarrow> (int \<times> 's vfs) option" where
  "vfs_write D fd data v =
     (case open_fd fd v of
        None \<Rightarrow> Some (- 1, v)
      | Some e \<Rightarrow>
          (case fd_node e of
             None \<Rightarrow> Some (- 1, v)
           | Some node \<Rightarrow>
               if Op_write \<notin> set (vn_ops (dr_node D (v_fs v) node)) then Some (- 1, v)
               else map_option (\<lambda>(n, s). (n, advance fd n (v\<lparr>v_fs := s\<rparr>)))
                      (dr_write D node (unat (fd_offset e)) (take (length data mod 2 ^ 32) data) (v_fs v))))"

definition vfs_readdir :: "'s driver \<Rightarrow> int \<Rightarrow> nat \<Rightarrow> 's vfs \<Rightarrow> (dirent option \<times> 's vfs) option" where
  "vfs_readdir D fd index v =
     (case open_fd fd v of
        None \<Rightarrow> Some (None, v)
      | Some e \<Rightarrow>
          (case fd_node e of
             None \<Rightarrow> Some (None, v)
           | Some node \<Rightarrow>
               if Op_readdir \<notin> set (vn_ops (dr_node D (v_fs v) node)) then Some (None, v)
               else map_option (\<lambda>(r, s). (r, v\<lparr>v_fs := s\<rparr>)) (dr_readdir D node index (v_fs v))))"

record vfs_stat_t =
  st_size :: nat
  st_inode :: nat
  st_type :: u8

definition node_stat :: "vfs_node \<Rightarrow> vfs_stat_t" where
  "node_stat nd = \<lparr>st_size = vn_size nd, st_inode = vn_inode nd, st_type = vn_type nd\<rparr>"

definition vfs_stat :: "'s driver \<Rightarrow> u8 list \<Rightarrow> 's vfs \<Rightarrow> (int \<times> vfs_stat_t option \<times> 's vfs) option" where
  "vfs_stat D path v =
     map_option (\<lambda>(n, v). case n of
         None \<Rightarrow> (- 1, None, v)
       | Some node \<Rightarrow> (0, Some (node_stat (dr_node D (v_fs v) node)), v)) (resolve_path D path v)"

definition vfs_fstat :: "'s driver \<Rightarrow> int \<Rightarrow> 's vfs \<Rightarrow> int \<times> vfs_stat_t option" where
  "vfs_fstat D fd v =
     (case open_fd fd v of
        None \<Rightarrow> (- 1, None)
      | Some e \<Rightarrow>
          (case fd_node e of
             None \<Rightarrow> (- 1, None)
           | Some node \<Rightarrow> (0, Some (node_stat (dr_node D (v_fs v) node)))))"

definition vfs_unlink :: "'s driver \<Rightarrow> u8 list \<Rightarrow> 's vfs \<Rightarrow> (int \<times> 's vfs) option" where
  "vfs_unlink D path v =
     (case locate path v of
        None \<Rightarrow> Some (- 1, v)
      | Some (i, relpath) \<Rightarrow>
          do {
            ((parent, name), v) \<leftarrow> split_parent D i relpath v;
            (case parent of
               None \<Rightarrow> Some (- 2, v)
             | Some p \<Rightarrow>
                 if Op_unlink \<notin> set (vn_ops (dr_node D (v_fs v) p)) \<or> cstr_at name 0 = 0 then Some (- 2, v)
                 else map_option (\<lambda>(rc, s). (rc, v\<lparr>v_fs := s\<rparr>)) (dr_unlink D p name (v_fs v)))
          })"

definition vfs_rename :: "'s driver \<Rightarrow> u8 list \<Rightarrow> u8 list \<Rightarrow> 's vfs \<Rightarrow> (int \<times> 's vfs) option" where
  "vfs_rename D old_path new_path v =
     (case locate old_path v of
        None \<Rightarrow> Some (- 1, v)
      | Some (old_mp, old_rel) \<Rightarrow>
          (case locate new_path v of
             None \<Rightarrow> Some (- 1, v)
           | Some (new_mp, new_rel) \<Rightarrow>
               if old_mp \<noteq> new_mp then Some (- 1, v)
               else do {
                 ((old_dir, old_name), v) \<leftarrow> split_parent D old_mp old_rel v;
                 ((new_dir, new_name), v) \<leftarrow> split_parent D new_mp new_rel v;
                 (case (old_dir, new_dir) of
                    (Some od, Some nd) \<Rightarrow>
                      if Op_rename \<notin> set (vn_ops (dr_node D (v_fs v) od)) \<or> cstr_at old_name 0 = 0 \<or> cstr_at new_name 0 = 0
                      then Some (- 2, v)
                      else map_option (\<lambda>(rc, s). (rc, v\<lparr>v_fs := s\<rparr>)) (dr_rename D od old_name nd new_name (v_fs v))
                  | _ \<Rightarrow> Some (- 2, v))
               }))"

definition vfs_get_mounts :: "'s vfs \<Rightarrow> mount_point list" where
  "vfs_get_mounts v = mount_table v"

end
