(* ===== verification/Vfs_Props.thy ===== *)
theory Vfs_Props
  imports Vfs Sched_Props "HOL-Library.Sublist"
begin

text \<open>
  What the virtual file system promises: the mount of a path is the longest matching one, path resolution is
  lookup component by component, descriptors are private to a task and the lowest free one is handed out,
  unmounting closes exactly the descriptors below the mount's root, a failed mount changes no active mount.
\<close>

section \<open>Strings\<close>

lemma cstr_Nil [simp]: "cstr_of [] = []"
  by (simp add: cstr_of_def)

lemma cstr_Cons: "cstr_of (c # cs) = (if c = 0 then [] else c # cstr_of cs)"
  by (simp add: cstr_of_def)

lemma vfs_strlen_eq: "vfs_strlen p = length (cstr_of p)"
  by (induction p) (auto simp: cstr_Cons)

lemma vfs_strcpy_eq: "vfs_strcpy p n = take (n - 1) (cstr_of p)"
  by (induction p n rule: vfs_strcpy.induct) (auto simp: cstr_Cons take_Cons')

lemma prefix_match_eq: "prefix_match str p \<longleftrightarrow> prefix (cstr_of p) (cstr_of str)"
proof (induction str p rule: prefix_match.induct)
  case (2 str p ps)
  show ?case
  proof (cases "p = 0")
    case True
    then show ?thesis by (simp add: cstr_Cons)
  next
    case False
    then show ?thesis using 2 by (cases str) (auto simp: cstr_Cons cstr_at_def)
  qed
qed simp

lemma cstr_at_in: "k \<le> length (cstr_of p) \<Longrightarrow> cstr_at p k = (if k = length (cstr_of p) then 0 else cstr_of p ! k)"
proof (induction p arbitrary: k)
  case (Cons c p)
  show ?case
  proof (cases k)
    case (Suc n)
    then show ?thesis using Cons.IH [of n] Cons.prems by (auto simp: cstr_Cons cstr_at_def split: if_splits)
  qed (auto simp: cstr_Cons cstr_at_def)
qed (simp add: cstr_at_def)

lemma cstr_drop_in: "k \<le> length (cstr_of p) \<Longrightarrow> cstr_of (drop k p) = drop k (cstr_of p)"
proof (induction p arbitrary: k)
  case (Cons c p)
  then show ?case by (cases k) (auto simp: cstr_Cons split: if_splits)
qed simp

lemma cstr_at_zero: "cstr_at p 0 = 0 \<longleftrightarrow> cstr_of p = []"
  by (cases p) (auto simp: cstr_at_def cstr_Cons)

lemma path_eq_from_eq: "path_eq_from a b k \<longleftrightarrow> cstr_of (drop k a) = cstr_of (drop k b)"
proof (induction a b k rule: path_eq_from.induct)
  case (1 a b k)
  have d: "cstr_of (drop k x) = (if cstr_at x k = 0 then [] else cstr_at x k # cstr_of (drop (k + 1) x))" for x
  proof (cases "k < length x")
    case True
    then have "drop k x = x ! k # drop (k + 1) x" by (simp add: Cons_nth_drop_Suc)
    with True show ?thesis by (simp add: cstr_Cons cstr_at_def)
  qed (simp add: cstr_at_def)
  show ?case using 1 d [of a] d [of b] by (subst path_eq_from.simps) auto
qed

section \<open>Mount lookup\<close>

text \<open>A mount covers a path when its own path, not empty, is a prefix that ends at a component boundary.\<close>

definition covers :: "mount_point \<Rightarrow> u8 list \<Rightarrow> bool" where
  "covers mp path \<longleftrightarrow> mt_active mp \<and> cstr_of (mt_path mp) \<noteq> [] \<and> prefix (cstr_of (mt_path mp)) (cstr_of path) \<and>
     (cstr_of (mt_path mp) = cstr_of path \<or> cstr_of path ! length (cstr_of (mt_path mp)) = slash)"

abbreviation mlen :: "mount_point \<Rightarrow> nat" where "mlen mp \<equiv> length (cstr_of (mt_path mp))"

lemma boundary_eq:
  assumes "prefix (cstr_of q) (cstr_of path)"
  shows "(cstr_at path (length (cstr_of q)) = 0 \<or> cstr_at path (length (cstr_of q)) = slash) \<longleftrightarrow>
    (cstr_of q = cstr_of path \<or> cstr_of path ! length (cstr_of q) = slash)"
proof -
  have le: "length (cstr_of q) \<le> length (cstr_of path)" using assms by (rule prefix_length_le)
  have "length (cstr_of q) = length (cstr_of path) \<longleftrightarrow> cstr_of q = cstr_of path"
    using assms by (auto simp: prefix_def)
  moreover have "cstr_of path ! k \<noteq> 0" if "k < length (cstr_of path)" for k
    using nth_mem [OF that] by (auto simp: cstr_of_def dest: set_takeWhileD)
  ultimately show ?thesis using cstr_at_in [OF le] le by (auto simp: le_less)
qed

lemma scan_mounts_eq:
  "scan_mounts path i mps (best, blen) = (b, l) \<Longrightarrow>
     (b = best \<and> l = blen \<and> (\<forall>mp \<in> set mps. covers mp path \<longrightarrow> mlen mp \<le> blen)) \<or>
     (\<exists>k < length mps. b = Some (i + k) \<and> l = mlen (mps ! k) \<and> covers (mps ! k) path \<and> blen < l \<and>
        (\<forall>mp \<in> set mps. covers mp path \<longrightarrow> mlen mp \<le> l) \<and> (\<forall>j < k. covers (mps ! j) path \<longrightarrow> mlen (mps ! j) < l))"
proof (induction mps arbitrary: i best blen)
  case (Cons mp mps)
  let ?hit = "covers mp path \<and> blen < mlen mp"
  have e: "scan_mounts path i (mp # mps) (best, blen) =
      (if ?hit then scan_mounts path (i + 1) mps (Some i, mlen mp) else scan_mounts path (i + 1) mps (best, blen))"
    using boundary_eq [of "mt_path mp" path] by (auto simp: covers_def prefix_match_eq vfs_strlen_eq Let_def)
  show ?case
  proof (cases ?hit)
    case True
    have s: "scan_mounts path (i + 1) mps (Some i, mlen mp) = (b, l)" using Cons.prems unfolding e if_P [OF True] .
    from Cons.IH [OF s] show ?thesis
    proof
      assume "b = Some i \<and> l = mlen mp \<and> (\<forall>mp' \<in> set mps. covers mp' path \<longrightarrow> mlen mp' \<le> mlen mp)"
      then show ?thesis using True by (intro disjI2 exI [of _ 0]) auto
    next
      assume "\<exists>k < length mps. b = Some (i + 1 + k) \<and> l = mlen (mps ! k) \<and> covers (mps ! k) path \<and> mlen mp < l \<and>
        (\<forall>mp \<in> set mps. covers mp path \<longrightarrow> mlen mp \<le> l) \<and> (\<forall>j < k. covers (mps ! j) path \<longrightarrow> mlen (mps ! j) < l)"
      then obtain k where k: "k < length mps" "b = Some (i + 1 + k)" "l = mlen (mps ! k)" "covers (mps ! k) path" "mlen mp < l"
        "\<forall>mp \<in> set mps. covers mp path \<longrightarrow> mlen mp \<le> l" "\<forall>j < k. covers (mps ! j) path \<longrightarrow> mlen (mps ! j) < l" by blast
      then show ?thesis using True by (intro disjI2 exI [of _ "Suc k"]) (auto simp: nth_Cons split: nat.splits)
    qed
  next
    case False
    have s: "scan_mounts path (i + 1) mps (best, blen) = (b, l)" using Cons.prems unfolding e if_not_P [OF False] .
    from Cons.IH [OF s] show ?thesis
    proof
      assume "b = best \<and> l = blen \<and> (\<forall>mp \<in> set mps. covers mp path \<longrightarrow> mlen mp \<le> blen)"
      then show ?thesis using False by auto
    next
      assume "\<exists>k < length mps. b = Some (i + 1 + k) \<and> l = mlen (mps ! k) \<and> covers (mps ! k) path \<and> blen < l \<and>
        (\<forall>mp \<in> set mps. covers mp path \<longrightarrow> mlen mp \<le> l) \<and> (\<forall>j < k. covers (mps ! j) path \<longrightarrow> mlen (mps ! j) < l)"
      then obtain k where k: "k < length mps" "b = Some (i + 1 + k)" "l = mlen (mps ! k)" "covers (mps ! k) path" "blen < l"
        "\<forall>mp \<in> set mps. covers mp path \<longrightarrow> mlen mp \<le> l" "\<forall>j < k. covers (mps ! j) path \<longrightarrow> mlen (mps ! j) < l" by blast
      then show ?thesis using False by (intro disjI2 exI [of _ "Suc k"]) (auto simp: nth_Cons split: nat.splits)
    qed
  qed
qed simp

text \<open>An absolute path belongs to the active mount with the longest path that is a prefix of it ending at a
  component boundary, the first one in the table if several have that path, and the rest handed to the driver
  is the path behind the prefix without the separating slash; there is no result exactly when no active mount
  covers the path.\<close>

theorem find_mount_longest_prefix:
  "case find_mount path v of
     None \<Rightarrow> \<forall>mp \<in> set (mount_table v). \<not> covers mp path
   | Some (i, rest) \<Rightarrow> i < length (mount_table v) \<and> covers (mount_table v ! i) path \<and>
       (\<forall>mp \<in> set (mount_table v). covers mp path \<longrightarrow> mlen mp \<le> mlen (mount_table v ! i)) \<and>
       (\<forall>j < i. covers (mount_table v ! j) path \<longrightarrow> mlen (mount_table v ! j) < mlen (mount_table v ! i)) \<and>
       (cstr_of path = cstr_of (mt_path (mount_table v ! i)) @ cstr_of rest \<or>
        cstr_of path = cstr_of (mt_path (mount_table v ! i)) @ [slash] @ cstr_of rest)"
proof -
  obtain b l where s: "scan_mounts path 0 (mount_table v) (None, 0) = (b, l)" by fastforce
  from scan_mounts_eq [OF s] show ?thesis
  proof
    assume "b = None \<and> l = 0 \<and> (\<forall>mp \<in> set (mount_table v). covers mp path \<longrightarrow> mlen mp \<le> 0)"
    then show ?thesis using s by (auto simp: find_mount_def covers_def)
  next
    assume "\<exists>k < length (mount_table v). b = Some (0 + k) \<and> l = mlen (mount_table v ! k) \<and> covers (mount_table v ! k) path \<and> 0 < l \<and>
        (\<forall>mp \<in> set (mount_table v). covers mp path \<longrightarrow> mlen mp \<le> l) \<and>
        (\<forall>j < k. covers (mount_table v ! j) path \<longrightarrow> mlen (mount_table v ! j) < l)"
    then obtain k where k: "k < length (mount_table v)" "b = Some k" "l = mlen (mount_table v ! k)" "covers (mount_table v ! k) path"
      "\<forall>mp \<in> set (mount_table v). covers mp path \<longrightarrow> mlen mp \<le> l"
      "\<forall>j < k. covers (mount_table v ! j) path \<longrightarrow> mlen (mount_table v ! j) < l" by auto
    have pre: "prefix (cstr_of (mt_path (mount_table v ! k))) (cstr_of path)" using k(4) by (simp add: covers_def)
    then have le: "l \<le> length (cstr_of path)" using k(3) by (simp add: prefix_length_le)
    have split: "cstr_of path = cstr_of (mt_path (mount_table v ! k)) @ cstr_of (drop l path)"
      using pre cstr_drop_in [OF le] k(3) by (auto simp: prefix_def)
    let ?r = "drop l path"
    have "cstr_at ?r 0 = slash \<Longrightarrow> cstr_of ?r = slash # cstr_of (tl ?r)"
      by (cases ?r) (auto simp: cstr_at_def cstr_Cons)
    then show ?thesis using s k split by (auto simp: find_mount_def Let_def)
  qed
qed

text \<open>Two mounts, \<open>/a\<close> and \<open>/a/b\<close>.\<close>

definition vfs_example :: "unit vfs" where
  "vfs_example = \<lparr>mount_table = [mount_zero\<lparr>mt_path := [0x2F, 0x61], mt_root := Some 0, mt_active := True\<rparr>,
       mount_zero\<lparr>mt_path := [0x2F, 0x61, 0x2F, 0x62], mt_root := Some 1, mt_active := True\<rparr>],
     v_sched = sched_zero, v_fs = ()\<rparr>"

theorem find_mount_longest_prefix_witness:
  "find_mount [0x2F, 0x61, 0x2F, 0x62, 0x2F, 0x63] vfs_example = Some (1, [0x63]) \<and>
   covers (mount_table vfs_example ! 1) [0x2F, 0x61, 0x2F, 0x62, 0x2F, 0x63] \<and>
   find_mount [0x2F, 0x61, 0x62] vfs_example = None"
proof -
  have "find_mount [0x2F, 0x61, 0x2F, 0x62, 0x2F, 0x63] vfs_example = Some (1, [0x63])"
    "find_mount [0x2F, 0x61, 0x62] vfs_example = None"
    by (simp_all add: find_mount_def vfs_example_def mount_zero_def cstr_at_def Let_def)
  then show ?thesis using find_mount_longest_prefix [where path = "[0x2F, 0x61, 0x2F, 0x62, 0x2F, 0x63]" and v = vfs_example] by simp
qed

section \<open>Path resolution\<close>

text \<open>The components of a path: the non-empty stretches between slashes.\<close>

fun split_slash :: "u8 list \<Rightarrow> u8 list list" where
  "split_slash [] = [[]]"
| "split_slash (c # cs) =
     (if c = slash then [] # split_slash cs else (c # hd (split_slash cs)) # tl (split_slash cs))"

definition components :: "u8 list \<Rightarrow> u8 list list" where
  "components s = filter (\<lambda>c. c \<noteq> []) (split_slash s)"

text \<open>Lookup component by component.\<close>

fun lookup_all :: "'s driver \<Rightarrow> nat \<Rightarrow> u8 list list \<Rightarrow> 's \<Rightarrow> (nat option \<times> 's) option" where
  "lookup_all D node [] s = Some (Some node, s)"
| "lookup_all D node (c # cs) s =
     (if Op_finddir \<notin> set (vn_ops (dr_node D s node)) then Some (None, s)
      else (case dr_finddir D node c s of
              None \<Rightarrow> None
            | Some (None, s) \<Rightarrow> Some (None, s)
            | Some (Some n, s) \<Rightarrow> lookup_all D n cs s))"

lemma split_slash_nonempty: "split_slash s \<noteq> []"
  by (cases s) auto

lemma split_slash_first: "split_slash s = takeWhile (\<lambda>c. c \<noteq> slash) s #
    (case dropWhile (\<lambda>c. c \<noteq> slash) s of [] \<Rightarrow> [] | _ # r \<Rightarrow> split_slash r)"
  by (induction s) auto

lemma components_skip: "components (skip_slashes s) = components s"
  by (induction s) (auto simp: components_def)

lemma components_first:
  assumes "s \<noteq> []" "hd s \<noteq> slash"
  shows "components s = takeWhile (\<lambda>c. c \<noteq> slash) s # components (dropWhile (\<lambda>c. c \<noteq> slash) s)"
proof -
  have ne: "takeWhile (\<lambda>c. c \<noteq> slash) s \<noteq> []" using assms by (cases s) auto
  have "components s = takeWhile (\<lambda>c. c \<noteq> slash) s #
      (case dropWhile (\<lambda>c. c \<noteq> slash) s of [] \<Rightarrow> [] | _ # r \<Rightarrow> components r)"
    using ne unfolding components_def by (subst split_slash_first) (simp split: list.split del: dropWhile_eq_Nil_conv)
  moreover have "components (dropWhile (\<lambda>c. c \<noteq> slash) s) = (case dropWhile (\<lambda>c. c \<noteq> slash) s of [] \<Rightarrow> [] | _ # r \<Rightarrow> components r)"
  proof (cases "dropWhile (\<lambda>c. c \<noteq> slash) s")
    case (Cons x r)
    then have "x = slash" using hd_dropWhile [of "\<lambda>c. c \<noteq> slash" s] by simp
    with Cons show ?thesis by (simp add: components_def)
  next
    case Nil
    then show ?thesis unfolding Nil by (simp add: components_def)
  qed
  ultimately show ?thesis by simp
qed

lemma takeWhile_none: "takeWhile P xs = [] \<Longrightarrow> dropWhile P xs = xs"
  by (cases xs) (auto split: if_splits)

lemma take_component_eq:
  "length (takeWhile (\<lambda>c. c \<noteq> slash) (cstr_of p)) \<le> n \<Longrightarrow> fst (take_component n p) = takeWhile (\<lambda>c. c \<noteq> slash) (cstr_of p) \<and>
    cstr_of (snd (take_component n p)) = dropWhile (\<lambda>c. c \<noteq> slash) (cstr_of p)"
  by (induction n p rule: take_component.induct) (auto simp: cstr_Cons split_def Let_def takeWhile_none)

lemma cstr_skip: "cstr_of (skip_slashes p) = skip_slashes (cstr_of p)"
  by (induction p) (auto simp: cstr_Cons)

lemma walk_path_eq:
  assumes "\<forall>c \<in> set (components (cstr_of p)). length c < MAX_FILENAME"
  shows "walk_path D node p s = lookup_all D node (components (cstr_of p)) s"
  using assms
proof (induction "length p" arbitrary: p node s rule: less_induct)
  case less
  let ?q = "skip_slashes p"
  have q: "components (cstr_of p) = components (cstr_of ?q)" by (simp add: cstr_skip components_skip)
  show ?case
  proof (cases "cstr_at ?q 0 = 0")
    case True
    then have "cstr_of ?q = []" by (simp add: cstr_at_zero)
    then have "components (cstr_of p) = []" using q by (simp add: components_def)
    then show ?thesis using True by (subst walk_path.simps) simp
  next
    case False
    have p0: "cstr_at p 0 \<noteq> 0" using False by (cases p) (auto simp: cstr_at_def split: if_splits)
    obtain c rest where t: "take_component (MAX_FILENAME - 1) ?q = (c, rest)" by fastforce
    have s0: "cstr_of ?q \<noteq> []" "hd (cstr_of ?q) \<noteq> slash"
      using False skip_slashes_head [of p] by (cases ?q; auto simp: cstr_at_def cstr_Cons)+
    note cf = components_first [OF s0]
    have "length (takeWhile (\<lambda>c. c \<noteq> slash) (cstr_of ?q)) \<le> MAX_FILENAME - 1"
      using less.prems unfolding q cf by auto
    from take_component_eq [OF this] t have c: "c = takeWhile (\<lambda>c. c \<noteq> slash) (cstr_of ?q)"
      "cstr_of rest = dropWhile (\<lambda>c. c \<noteq> slash) (cstr_of ?q)" by auto
    have cs: "components (cstr_of p) = c # components (cstr_of rest)" using q cf c by simp
    have IH: "walk_path D n rest s' = lookup_all D n (components (cstr_of rest)) s'" for n s'
      using less.hyps [OF walk_decreases [OF t False]] less.prems cs by simp
    show ?thesis using p0 False t IH cs by (subst walk_path.simps) (simp add: Let_def split: option.splits)
  qed
qed

text \<open>C22: when no component of the path is longer than 127 characters, walking it from a node is the lookup of
  its components, in order and whatever the number of slashes between them, in the directories reached so
  far; a node without lookup operation, or a failed lookup, ends the walk without a result.\<close>

theorem walk_path_components:
  assumes "\<forall>c \<in> set (components (cstr_of p)). length c < MAX_FILENAME"
  shows "walk_path D node p s = lookup_all D node (components (cstr_of p)) s"
  using assms by (rule walk_path_eq)

text \<open>A tree of directories: node 0 holds \<open>a\<close> (node 1), which holds \<open>b\<close> (node 2).\<close>

definition dir_node :: "nat option \<Rightarrow> vfs_node" where
  "dir_node p = \<lparr>vn_name = [], vn_type = VFS_DIRECTORY, vn_size = 0, vn_inode = 0, vn_ops = dir_ops, vn_parent = p, vn_private = None\<rparr>"

definition driver_example :: "unit driver" where
  "driver_example = \<lparr>dr_node = \<lambda>s n. dir_node (if n = 0 then None else Some (n - 1)),
     dr_finddir = \<lambda>n name s. Some (if n = 0 \<and> name = [0x61] then Some 1 else if n = 1 \<and> name = [0x62] then Some 2 else None, s),
     dr_create = \<lambda>n name s. Some (None, s), dr_read = \<lambda>n off k s. Some (- 1, [], s), dr_write = \<lambda>n off d s. Some (- 1, s),
     dr_readdir = \<lambda>n i s. Some (None, s), dr_unlink = \<lambda>n name s. Some (- 1, s), dr_rename = \<lambda>o1 a o2 b s. Some (- 1, s),
     dr_fat32_mount = \<lambda>ty d l mp s. (- 1, mp, s), dr_ext2_mount = \<lambda>ty d l mp s. (- 1, mp, s),
     dr_ntfs_mount = \<lambda>ty d l mp s. (- 1, mp, s), dr_xfs_mount = \<lambda>ty d l mp s. (- 1, mp, s),
     dr_fat32_defrag = \<lambda>n s. Some (- 1, (0, 0, 0), s), dr_ext2_defrag = \<lambda>n s. Some (- 1, (0, 0, 0), s),
     dr_disk = \<lambda>s. \<lparr>dk_sec = \<lambda>ty d l. zero_sector, dk_plan = []\<rparr>, dr_set_disk = \<lambda>d s. s\<rparr>"

theorem walk_path_components_witness:
  "walk_path driver_example 0 [0x61, 0x2F, 0x2F, 0x62, 0x2F] () = Some (Some 2, ())"
proof -
  let ?p = "[0x61, 0x2F, 0x2F, 0x62, 0x2F] :: u8 list"
  have c: "components (cstr_of ?p) = [[0x61], [0x62]]" by (simp add: components_def cstr_of_def)
  then have "\<forall>c \<in> set (components (cstr_of ?p)). length c < MAX_FILENAME" by (simp add: MAX_FILENAME_def)
  from walk_path_components [OF this, of driver_example 0 "()"] show ?thesis
    unfolding c by (simp add: driver_example_def dir_node_def dir_ops_def)
qed

section \<open>Descriptors\<close>

definition fd_tables :: "'s vfs \<Rightarrow> tref \<Rightarrow> file_descriptor list" where
  "fd_tables v r = t_fd_table (get_task (v_sched v) r)"

definition caller :: "'s vfs \<Rightarrow> tref" where
  "caller v = the (sched_current_task (v_sched v))"

text \<open>The calling task exists and its table has its full length.\<close>

definition caller_ok :: "'s vfs \<Rightarrow> bool" where
  "caller_ok v \<longleftrightarrow> length (fdt v) = MAX_FD \<and>
     (case caller v of Idle \<Rightarrow> True | Slot i \<Rightarrow> i < length (task_pool (v_sched v)))"

lemma fdt_eq: "fdt v = fd_tables v (caller v)"
  by (simp add: fdt_def fd_tables_def caller_def)

lemma upd_task_current [simp]: "sched_current_task (upd_task r g s) = sched_current_task s"
  by (simp add: upd_task_def sched_current_task_def split: tref.splits)

lemma caller_set_fd [simp]: "caller (set_fd i fd v) = caller v"
  by (simp add: caller_def set_fd_def)

lemma fd_tables_set_fd:
  assumes "caller_ok v"
  shows "fd_tables (set_fd i fd v) r = (if r = caller v then (fdt v)[i := fd] else fd_tables v r)"
  using assms
  by (cases r; cases "caller v")
    (auto simp: caller_ok_def fdt_def fd_tables_def set_fd_def caller_def get_task_def upd_task_def)

lemma set_fd_simps [simp]:
  "mount_table (set_fd i fd v) = mount_table v" "v_fs (set_fd i fd v) = v_fs v"
  by (simp_all add: set_fd_def)

lemma caller_ok_set_fd [simp]: "caller_ok v \<Longrightarrow> caller_ok (set_fd i fd v)"
  using fd_tables_set_fd [of v i fd "caller v"]
  by (auto simp: caller_ok_def fdt_eq set_fd_def upd_task_def caller_def sched_current_task_def split: tref.splits)

text \<open>What path walks and driver calls leave alone.\<close>

definition same_tables :: "'s vfs \<Rightarrow> 's vfs \<Rightarrow> bool" where
  "same_tables v v' \<longleftrightarrow> mount_table v' = mount_table v \<and> v_sched v' = v_sched v"

lemma same_tablesD: "same_tables v v' \<Longrightarrow> fd_tables v' = fd_tables v \<and> caller v' = caller v \<and> fdt v' = fdt v \<and> mount_table v' = mount_table v"
  by (simp add: same_tables_def fd_tables_def caller_def fdt_def fun_eq_iff)

lemma same_tables_caller_ok: "same_tables v v' \<Longrightarrow> caller_ok v \<Longrightarrow> caller_ok v'"
  by (simp add: caller_ok_def same_tables_def caller_def fdt_def split: tref.splits)

lemma same_tables_fs [simp]: "same_tables v (v\<lparr>v_fs := s\<rparr>)" "same_tables v v"
  by (simp_all add: same_tables_def)

lemma same_tables_trans: "same_tables v v' \<Longrightarrow> same_tables v' v'' \<Longrightarrow> same_tables v v''"
  by (simp add: same_tables_def)

lemma walk_mount_tables: "walk_mount D i p v = Some (n, v') \<Longrightarrow> same_tables v v'"
  by (auto simp: walk_mount_def split: option.splits)

lemma split_parent_tables: "split_parent D i p v = Some (r, v') \<Longrightarrow> same_tables v v'"
  by (auto simp: split_parent_def split: option.splits if_splits dest: walk_mount_tables)

lemma create_at_tables:
  assumes "create_at D i p v = Some (n, v')"
  shows "same_tables v v'"
proof -
  obtain parent name w where w: "split_parent D i p v = Some ((parent, name), w)"
    using assms by (auto simp: create_at_def bind_eq_Some_conv)
  then have "same_tables w v'"
    using assms by (auto simp: create_at_def split: option.splits if_splits)
  then show ?thesis by (rule same_tables_trans [OF split_parent_tables [OF w]])
qed

lemma free_fd_spec:
  "free_fd i fds = (case find (\<lambda>k. \<not> fd_active (fds ! k)) [0..<length fds] of None \<Rightarrow> None | Some k \<Rightarrow> Some (i + k))"
proof (induction fds arbitrary: i)
  case (Cons fd fds)
  have u: "[0..<length (fd # fds)] = 0 # map Suc [0..<length fds]" by (simp add: upt_conv_Cons map_Suc_upt del: upt_Suc)
  have "find P (map Suc xs) = map_option Suc (find (P \<circ> Suc) xs)" for P xs by (induction xs) auto
  then show ?case using Cons [of "i + 1"] unfolding u by (auto simp: o_def split: option.splits)
qed simp

lemma free_fd_least:
  "free_fd 0 fds = Some k \<Longrightarrow> k < length fds \<and> \<not> fd_active (fds ! k) \<and> (\<forall>j < k. fd_active (fds ! j))"
  "free_fd 0 fds = None \<Longrightarrow> \<forall>j < length fds. fd_active (fds ! j)"
  by (auto simp: free_fd_spec find_Some_iff find_None_iff split: option.splits)

text \<open>The outcome of an attempt to hand out a descriptor for \<open>node\<close>.\<close>

definition opened :: "'s driver \<Rightarrow> u8 \<Rightarrow> 's vfs \<Rightarrow> int \<Rightarrow> 's vfs \<Rightarrow> bool" where
  "opened D flags v rc v' \<longleftrightarrow> 0 \<le> rc \<and> nat rc < MAX_FD \<and> \<not> fd_active (fdt v ! nat rc) \<and> (\<forall>j < nat rc. fd_active (fdt v ! j)) \<and>
     (\<exists>node. fdt v' = (fdt v)[nat rc := \<lparr>fd_node = Some node,
        fd_offset = (if flags AND O_APPEND \<noteq> 0 then of_nat (vn_size (dr_node D (v_fs v') node)) else 0),
        fd_flags = flags, fd_active = True\<rparr>])"

lemma install_fd_spec:
  assumes "caller_ok v" "install_fd D node flags v = (rc, v')"
  shows "mount_table v' = mount_table v \<and> (\<forall>r. r \<noteq> caller v \<longrightarrow> fd_tables v' r = fd_tables v r) \<and>
    (opened D flags v rc v' \<or> rc = - 3 \<and> v' = v \<and> (\<forall>j < MAX_FD. fd_active (fdt v ! j)))"
proof (cases "free_fd 0 (fdt v)")
  case None
  then show ?thesis using assms free_fd_least(2) [OF None] by (auto simp: install_fd_def caller_ok_def)
next
  case (Some k)
  then have v': "v' = set_fd k \<lparr>fd_node = Some node,
      fd_offset = (if flags AND O_APPEND \<noteq> 0 then of_nat (vn_size (dr_node D (v_fs v) node)) else 0),
      fd_flags = flags, fd_active = True\<rparr> v" and rc: "rc = int k" using assms(2) by (auto simp: install_fd_def)
  have "fdt v' = (fdt v)[k := \<lparr>fd_node = Some node,
      fd_offset = (if flags AND O_APPEND \<noteq> 0 then of_nat (vn_size (dr_node D (v_fs v') node)) else 0),
      fd_flags = flags, fd_active = True\<rparr>]"
    using fd_tables_set_fd [OF assms(1)] by (simp add: fdt_eq v')
  then have "opened D flags v rc v'"
    using free_fd_least(1) [OF Some] assms(1) unfolding opened_def rc by (auto simp: caller_ok_def)
  then show ?thesis using fd_tables_set_fd [OF assms(1)] by (auto simp: v')
qed

text \<open>Opening a file hands out the lowest free descriptor of the calling task, with the offset at the start
  or, for appending, at the end of the file; it touches no descriptor of another task and no mount. The errors
  are \<open>-1\<close> (no mount), \<open>-2\<close> (not found and not created) and \<open>-3\<close>, the last one exactly when all descriptors are
  in use, and none of them changes a descriptor.\<close>

theorem vfs_open_lowest_descriptor:
  assumes "caller_ok v" "vfs_open D path flags v = Some (rc, v')"
  shows "mount_table v' = mount_table v \<and> (\<forall>r. r \<noteq> caller v \<longrightarrow> fd_tables v' r = fd_tables v r) \<and>
    (if rc < 0 then fdt v' = fdt v \<and> rc \<in> {- 1, - 2, - 3} \<and> (rc = - 3 \<longrightarrow> (\<forall>j < MAX_FD. fd_active (fdt v ! j)))
     else opened D flags v rc v')"
proof -
  have put: "mount_table v' = mount_table v \<and> (\<forall>r. r \<noteq> caller v \<longrightarrow> fd_tables v' r = fd_tables v r) \<and>
      (if rc < 0 then fdt v' = fdt v \<and> rc \<in> {- 1, - 2, - 3} \<and> (rc = - 3 \<longrightarrow> (\<forall>j < MAX_FD. fd_active (fdt v ! j)))
       else opened D flags v rc v')"
    if w: "same_tables v w" and i: "install_fd D n flags w = (rc, v')" for w n
    using install_fd_spec [OF same_tables_caller_ok [OF w assms(1)] i] same_tablesD [OF w]
    by (auto simp: opened_def)
  show ?thesis
  proof (cases "locate path v")
    case None
    then show ?thesis using assms by (auto simp: vfs_open_def)
  next
    case (Some x)
    obtain i rel where x: "x = (i, rel)" by (cases x)
    then obtain n w where w: "walk_mount D i rel v = Some (n, w)" using assms(2) Some
      by (auto simp: vfs_open_def bind_eq_Some_conv)
    note sw = walk_mount_tables [OF w]
    show ?thesis
    proof (cases n)
      case (Some node)
      then have "install_fd D node flags w = (rc, v')" using assms(2) \<open>locate path v = Some x\<close> x w by (simp add: vfs_open_def)
      with sw show ?thesis by (rule put)
    next
      case None
      show ?thesis
      proof (cases "flags AND O_CREATE = 0")
        case True
        then have "rc = - 2" "v' = w" using assms(2) \<open>locate path v = Some x\<close> x w None by (auto simp: vfs_open_def)
        then show ?thesis using same_tablesD [OF sw] by simp
      next
        case False
        then obtain c u where c: "create_at D i rel w = Some (c, u)"
          "(case c of None \<Rightarrow> (- 2, u) | Some n \<Rightarrow> install_fd D n flags u) = (rc, v')"
          using assms(2) \<open>locate path v = Some x\<close> x w None by (auto simp: vfs_open_def bind_eq_Some_conv)
        note su = same_tables_trans [OF sw create_at_tables [OF c(1)]]
        show ?thesis
        proof (cases c)
          case None
          then show ?thesis using c(2) same_tablesD [OF su] by auto
        next
          case (Some n)
          with c(2) have "install_fd D n flags u = (rc, v')" by simp
          with su show ?thesis by (rule put)
        qed
      qed
    qed
  qed
qed

definition vfs_running :: "unit vfs" where
  "vfs_running = vfs_example\<lparr>v_sched := sched_zero\<lparr>cur_task := Some Idle\<rparr>\<rparr>"

lemma vfs_running_ok: "caller_ok vfs_running" "caller vfs_running = Idle"
  by (simp_all add: caller_ok_def vfs_running_def fdt_def sched_current_task_def caller_def get_task_def sched_zero_def task_zero_def)

theorem vfs_open_lowest_descriptor_witness:
  "\<exists>v'. vfs_open driver_example [0x2F, 0x61] 0 vfs_running = Some (0, v') \<and> opened driver_example 0 vfs_running 0 v'"
proof -
  have f: "find_mount [0x2F, 0x61] vfs_running = Some (0, [])"
    by (simp add: find_mount_def vfs_running_def vfs_example_def mount_zero_def cstr_at_def Let_def)
  have w: "walk_mount driver_example 0 [] vfs_running = Some (Some 0, vfs_running)"
    by (simp add: walk_mount_def vfs_running_def vfs_example_def walk_path.simps cstr_at_def)
  have "free_fd 0 (fdt vfs_running) = Some 0"
    by (simp add: vfs_running_def fdt_def sched_current_task_def get_task_def sched_zero_def task_zero_def MAX_FD_def fd_zero_def
        numeral_eq_Suc)
  then obtain v' where "vfs_open driver_example [0x2F, 0x61] 0 vfs_running = Some (0, v')"
    using f w by (auto simp: vfs_open_def locate_def cstr_at_def install_fd_def)
  with vfs_open_lowest_descriptor [OF vfs_running_ok(1) this] show ?thesis by simp
qed

section \<open>Unmounting\<close>

text \<open>A node lies under \<open>root\<close> when its chain of parents reaches it. Drivers create a node after its parent, so
  the chains descend.\<close>

definition parents_descend :: "(nat \<Rightarrow> nat option) \<Rightarrow> bool" where
  "parents_descend par \<longleftrightarrow> (\<forall>n p. par n = Some p \<longrightarrow> p < n)"

inductive under :: "(nat \<Rightarrow> nat option) \<Rightarrow> nat \<Rightarrow> nat \<Rightarrow> bool" for par root where
  here: "under par root root"
| up: "par n = Some p \<Longrightarrow> under par root p \<Longrightarrow> under par root n"

inductive_cases under_elim: "under par root n"

lemma climb_spec:
  assumes "parents_descend par"
  shows "climb par (Some n) (Some root) = Some (if under par root n then Some root else None)"
proof (induction n rule: less_induct)
  case (less n)
  show ?case
  proof (cases "n = root")
    case True
    then show ?thesis by (subst climb.simps) (simp add: under.here)
  next
    case False
    then have e: "climb par (Some n) (Some root) = climb par (par n) (Some root)" by (subst climb.simps) simp
    show ?thesis
    proof (cases "par n")
      case None
      then have "\<not> under par root n" using False by (auto elim: under_elim)
      then show ?thesis using e None by (simp add: climb.simps)
    next
      case (Some p)
      then have "p < n" using assms by (simp add: parents_descend_def)
      moreover have "under par root n \<longleftrightarrow> under par root p"
        using Some False by (auto elim: under_elim intro: under.up)
      ultimately show ?thesis using e Some less.IH by simp
    qed
  qed
qed

text \<open>The descriptor after closing everything under \<open>root\<close>.\<close>

definition close_under :: "(nat \<Rightarrow> nat option) \<Rightarrow> nat \<Rightarrow> file_descriptor \<Rightarrow> file_descriptor" where
  "close_under par root fd =
     (if fd_active fd \<and> (\<exists>n. fd_node fd = Some n \<and> under par root n) then fd\<lparr>fd_active := False\<rparr> else fd)"

lemma close_fds_under_eq:
  "parents_descend par \<Longrightarrow> close_fds_under par (Some root) fds = Some (map (close_under par root) fds)"
proof (induction fds)
  case (Cons fd fds)
  have "climb par None (Some root) = Some None" by (subst climb.simps) simp
  then have "(if \<not> fd_active fd then Some fd
      else map_option (\<lambda>n. if n = Some root then fd\<lparr>fd_active := False\<rparr> else fd) (climb par (fd_node fd) (Some root))) =
      Some (close_under par root fd)"
    using climb_spec [OF Cons.prems] by (cases "fd_node fd") (auto simp: close_under_def)
  then show ?case using Cons by simp
qed simp

abbreviation close_in :: "(nat \<Rightarrow> nat option) \<Rightarrow> nat \<Rightarrow> task \<Rightarrow> task" where
  "close_in par root t \<equiv> t\<lparr>t_fd_table := map (close_under par root) (t_fd_table t)\<rparr>"

lemma close_task_eq:
  "parents_descend par \<Longrightarrow> close_task par (Some root) r s = Some (upd_task r (\<lambda>t. t\<lparr>t_fd_table := map (close_under par root) (t_fd_table (get_task s r))\<rparr>) s)"
  by (simp add: close_task_def close_fds_under_eq)

lemma close_tasks_eq:
  assumes "parents_descend par" "t + n \<le> length (task_pool s)"
  shows "\<exists>s'. close_tasks par (Some root) t n s = Some s' \<and> idle_task s' = idle_task s \<and> task_count s' = task_count s \<and>
    cur_task s' = cur_task s \<and> length (task_pool s') = length (task_pool s) \<and>
    (\<forall>i < length (task_pool s). task_pool s' ! i =
       (if t \<le> i \<and> i < t + n then close_in par root (task_pool s ! i) else task_pool s ! i))"
  using assms(2)
proof (induction n arbitrary: t s)
  case (Suc n)
  let ?s = "upd_task (Slot t) (\<lambda>x. x\<lparr>t_fd_table := map (close_under par root) (t_fd_table (task_pool s ! t))\<rparr>) s"
  have "t + 1 + n \<le> length (task_pool ?s)" using Suc.prems by (simp add: upd_task_def)
  then obtain s' where "close_tasks par (Some root) (t + 1) n ?s = Some s'" "idle_task s' = idle_task ?s" "task_count s' = task_count ?s"
    "cur_task s' = cur_task ?s" "length (task_pool s') = length (task_pool ?s)"
    "\<forall>i < length (task_pool ?s). task_pool s' ! i =
       (if t + 1 \<le> i \<and> i < t + 1 + n then close_in par root (task_pool ?s ! i) else task_pool ?s ! i)"
    using Suc.IH by blast
  then show ?case using Suc.prems close_task_eq [OF assms(1), of root "Slot t" s]
    by (intro exI [of _ s']) (auto simp: upd_task_def get_task_def nth_list_update)
next
  case 0
  have "(if t \<le> i \<and> i < t + 0 then close_in par root (task_pool s ! i) else task_pool s ! i) = task_pool s ! i" for i by (rule if_not_P) simp
  then show ?case unfolding close_tasks.simps by (intro exI [of _ s]) (simp only: simp_thms)
qed

text \<open>C23: unmounting the mount named by the path returns 0 and closes, in every task and the idle task, exactly the
  open descriptors whose node lies under the mount's root; the mount becomes inactive and loses its root, all
  other mounts, the node states and the offsets stay.\<close>

theorem vfs_umount_closes_exactly:
  assumes "mount_named path 0 (mount_table v) = Some i" "mt_root (mount_table v ! i) = Some root"
    "parents_descend (\<lambda>n. vn_parent (dr_node D (v_fs v) n))" "task_count (v_sched v) \<le> length (task_pool (v_sched v))"
  shows "\<exists>v'. vfs_umount D path v = Some (0, v') \<and> v_fs v' = v_fs v \<and>
    mount_table v' = (mount_table v)[i := (mount_table v ! i)\<lparr>mt_active := False, mt_root := None\<rparr>] \<and>
    (\<forall>r. (case r of Idle \<Rightarrow> True | Slot t \<Rightarrow> t < task_count (v_sched v)) \<longrightarrow>
       fd_tables v' r = map (close_under (\<lambda>n. vn_parent (dr_node D (v_fs v) n)) root) (fd_tables v r))"
proof -
  let ?par = "\<lambda>n. vn_parent (dr_node D (v_fs v) n)"
  let ?s0 = "v_sched v"
  let ?s1 = "upd_task Idle (\<lambda>t. t\<lparr>t_fd_table := map (close_under ?par root) (t_fd_table (get_task ?s0 Idle))\<rparr>) ?s0"
  have c1: "task_count ?s1 = task_count ?s0" "task_pool ?s1 = task_pool ?s0"
    "idle_task ?s1 = close_in ?par root (idle_task ?s0)" by (simp_all add: upd_task_def get_task_def)
  have "0 + task_count ?s1 \<le> length (task_pool ?s1)" using c1 assms(4) by simp
  from close_tasks_eq [OF assms(3) this, of root] c1
  obtain s' where s': "close_tasks ?par (Some root) 0 (task_count ?s0) ?s1 = Some s'" "idle_task s' = close_in ?par root (idle_task ?s0)"
    "\<forall>t < length (task_pool ?s0). task_pool s' ! t = (if t < task_count ?s0 then close_in ?par root (task_pool ?s0 ! t) else task_pool ?s0 ! t)"
    by auto
  let ?v = "set_mount i ((mount_table v ! i)\<lparr>mt_active := False, mt_root := None\<rparr>) (v\<lparr>v_sched := s'\<rparr>)"
  have "vfs_umount D path v = Some (0, ?v)"
    using assms(1,2) close_task_eq [OF assms(3), of root Idle ?s0] s'(1) c1
    by (simp add: vfs_umount_def Let_def sched_idle_task_def sched_task_count_def)
  moreover have "fd_tables ?v r = map (close_under ?par root) (fd_tables v r)"
    if "case r of Idle \<Rightarrow> True | Slot t \<Rightarrow> t < task_count ?s0" for r
    using that s'(2,3) assms(4) by (cases r) (auto simp: fd_tables_def set_mount_def get_task_def)
  ultimately show ?thesis by (intro exI [of _ ?v]) (simp add: set_mount_def)
qed

theorem vfs_umount_closes_exactly_witness:
  "\<exists>v'. vfs_umount driver_example [0x2F, 0x61] vfs_running = Some (0, v') \<and> \<not> mt_active (mount_table v' ! 0) \<and>
     mt_active (mount_table v' ! 1)"
proof -
  have h: "mount_named [0x2F, 0x61] 0 (mount_table vfs_running) = Some 0" "mt_root (mount_table vfs_running ! 0) = Some 0"
    by (simp_all add: vfs_running_def vfs_example_def mount_zero_def path_eq_from_eq)
  have "parents_descend (\<lambda>n. vn_parent (dr_node driver_example (v_fs vfs_running) n))"
    by (simp add: parents_descend_def driver_example_def dir_node_def split: if_splits)
  moreover have "task_count (v_sched vfs_running) \<le> length (task_pool (v_sched vfs_running))"
    by (simp add: vfs_running_def sched_zero_def)
  ultimately obtain v' where "vfs_umount driver_example [0x2F, 0x61] vfs_running = Some (0, v')"
    "mount_table v' = (mount_table vfs_running)[0 := (mount_table vfs_running ! 0)\<lparr>mt_active := False, mt_root := None\<rparr>]"
    using vfs_umount_closes_exactly [OF h] by blast
  then show ?thesis by (simp add: vfs_running_def vfs_example_def)
qed

section \<open>Sequential reading\<close>

text \<open>What a driver promises of one open file: its contents stay, and a read delivers the slice asked for.\<close>

locale readable_file =
  fixes D :: "'s driver" and node :: nat and inv :: "'s \<Rightarrow> bool" and content :: "'s \<Rightarrow> u8 list"
  assumes has_read: "inv s \<Longrightarrow> Op_read \<in> set (vn_ops (dr_node D s node))"
    and content_small: "inv s \<Longrightarrow> length (content s) < 2 ^ 31"
    and read_slice: "inv s \<Longrightarrow> n < 2 ^ 32 \<Longrightarrow> \<exists>s'. dr_read D node off n s =
      Some (int (min n (length (content s) - off)), take n (drop off (content s)), s') \<and> inv s' \<and> content s' = content s"
begin

definition reading :: "int \<Rightarrow> nat \<Rightarrow> 's vfs \<Rightarrow> bool" where
  "reading fd off v \<longleftrightarrow> caller_ok v \<and> inv (v_fs v) \<and> off < 2 ^ 63 \<and>
     (\<exists>e. open_fd fd v = Some e \<and> fd_node e = Some node \<and> unat (fd_offset e) = off)"

lemma open_fd_range: "open_fd fd v = Some e \<Longrightarrow> 0 \<le> fd \<and> fd < int MAX_FD \<and> e = fdt v ! nat fd \<and> fd_active e"
  by (auto simp: open_fd_def Let_def split: if_splits)

lemma advance_reading:
  assumes r: "reading fd off v" and s: "inv s" and k: "k < 2 ^ 31" "off + k < 2 ^ 63"
  shows "reading fd (off + k) (advance fd (int k) (v\<lparr>v_fs := s\<rparr>))"
proof -
  obtain e where e: "open_fd fd v = Some e" "fd_node e = Some node" "unat (fd_offset e) = off" "caller_ok v"
    using r by (auto simp: reading_def)
  note er = open_fd_range [OF e(1)]
  let ?w = "v\<lparr>v_fs := s\<rparr>"
  have cw: "caller_ok ?w" "fdt ?w = fdt v" using same_tables_caller_ok [of v ?w] same_tablesD [of v ?w] e(4) by simp_all
  then have ow: "open_fd fd ?w = Some e" using e(1) unfolding open_fd_def by (simp only:)
  show ?thesis
  proof (cases "k = 0")
    case True
    then show ?thesis using r cw ow s e k by (auto simp: advance_def reading_def)
  next
    case False
    let ?e = "e\<lparr>fd_offset := fd_offset e + of_int (int k)\<rparr>"
    let ?v = "set_fd (nat fd) ?e ?w"
    have a: "advance fd (int k) ?w = ?v" using False er cw by (simp add: advance_def Let_def)
    have t: "fdt ?v = (fdt v)[nat fd := ?e]" using fd_tables_set_fd [OF cw(1), of "nat fd" ?e "caller ?w"] cw(2) by (simp add: fdt_eq)
    have "length (fdt v) = MAX_FD" using e(4) by (simp add: caller_ok_def)
    then have o: "open_fd fd ?v = Some ?e" using er t by (auto simp: open_fd_def Let_def)
    have "unat (fd_offset e + of_nat k) = off + k"
      using e(3) k by (subst unat_add_lem [THEN iffD1]) (simp_all add: unsigned_of_nat take_bit_nat_eq_self)
    then show ?thesis unfolding a using o s e(2) k cw(1) by (simp add: reading_def)
  qed
qed

lemma vfs_read_reading:
  assumes r: "reading fd off v" and n: "n < 2 ^ 32" and l: "off + n < 2 ^ 63"
  shows "\<exists>v'. vfs_read D fd n v = Some (int (min n (length (content (v_fs v)) - off)), take n (drop off (content (v_fs v))), v') \<and>
    reading fd (off + min n (length (content (v_fs v)) - off)) v' \<and> content (v_fs v') = content (v_fs v)"
proof -
  obtain e where e: "open_fd fd v = Some e" "fd_node e = Some node" "unat (fd_offset e) = off" "inv (v_fs v)"
    using r by (auto simp: reading_def)
  obtain s' where s': "dr_read D node off n (v_fs v) =
      Some (int (min n (length (content (v_fs v)) - off)), take n (drop off (content (v_fs v))), s')"
    "inv s'" "content s' = content (v_fs v)" using read_slice [OF e(4) n] by blast
  let ?k = "min n (length (content (v_fs v)) - off)"
  let ?v = "advance fd (int ?k) (v\<lparr>v_fs := s'\<rparr>)"
  have "vfs_read D fd n v = Some (int ?k, take n (drop off (content (v_fs v))), ?v)"
    using e s'(1) n has_read [OF e(4)] by (simp add: vfs_read_def)
  moreover have "reading fd (off + ?k) ?v"
    using content_small [OF e(4)] l by (intro advance_reading [OF r s'(2)]) auto
  moreover have "v_fs ?v = s'" by (simp add: advance_def Let_def)
  ultimately show ?thesis using s'(3) by auto
qed

end

text \<open>Reads of the given sizes one after the other: the bytes delivered, or \<open>None\<close> if one of them does not return.\<close>

fun vfs_read_seq :: "'s driver \<Rightarrow> int \<Rightarrow> nat list \<Rightarrow> 's vfs \<Rightarrow> (u8 list \<times> 's vfs) option" where
  "vfs_read_seq D fd [] v = Some ([], v)"
| "vfs_read_seq D fd (n # ns) v =
     do { (k, out, v) \<leftarrow> vfs_read D fd n v; (rest, v) \<leftarrow> vfs_read_seq D fd ns v; Some (out @ rest, v) }"

context readable_file
begin

lemma stream:
  assumes "reading fd off v" "\<forall>n \<in> set ns. n < 2 ^ 32" "off + sum_list ns < 2 ^ 63"
  shows "\<exists>v'. vfs_read_seq D fd ns v = Some (take (sum_list ns) (drop off (content (v_fs v))), v') \<and> reading fd
    (off + min (sum_list ns) (length (content (v_fs v)) - off)) v' \<and> content (v_fs v') = content (v_fs v)"
  using assms
proof (induction ns arbitrary: off v)
  case (Cons n ns)
  let ?c = "content (v_fs v)"
  let ?k = "min n (length ?c - off)"
  obtain v1 where v1: "vfs_read D fd n v = Some (int ?k, take n (drop off ?c), v1)" "reading fd (off + ?k) v1" "content (v_fs v1) = ?c"
    using vfs_read_reading [OF Cons.prems(1), of n] Cons.prems(2,3) by auto
  have "off + ?k + sum_list ns < 2 ^ 63" using Cons.prems(3) by simp
  from Cons.IH [OF v1(2) _ this] Cons.prems(2) obtain v2 where v2: "vfs_read_seq D fd ns v1 = Some (take (sum_list ns) (drop (off + ?k) ?c), v2)"
    "reading fd (off + ?k + min (sum_list ns) (length ?c - (off + ?k))) v2" "content (v_fs v2) = ?c" unfolding v1(3) by auto
  have "take n (drop off ?c) @ take (sum_list ns) (drop (off + ?k) ?c) = take (n + sum_list ns) (drop off ?c)"
  proof (cases "n \<le> length ?c - off")
    case True
    then show ?thesis by (simp add: take_add add.commute)
  qed (auto simp: min_def)
  moreover have "off + ?k + min (sum_list ns) (length ?c - (off + ?k)) = off + min (n + sum_list ns) (length ?c - off)"
    by linarith
  with v2(2) have "reading fd (off + min (n + sum_list ns) (length ?c - off)) v2" by (simp only:)
  ultimately show ?case using v1(1) v2(1,3) by (intro exI [of _ v2]) simp
qed (auto simp: reading_def)

end

end
