(* ===== verification/Fat32_File.thy ===== *)
theory Fat32_File
  imports Fat32_Fat
begin

text \<open>
  File data of \<open>fs/fat32.c\<close>: the contents of a file are the sectors of its cluster chain, \<open>fat32_read\<close> returns
  the slice of them that the caller asked for, clipped to the file's size, with one transfer per cluster.
\<close>

section \<open>The bytes of a chain\<close>

lemma read_sectors_add:
  "read_sectors d ty drv lba (a + b) = read_sectors d ty drv lba a @ read_sectors d ty drv (lba + a) b"
  by (induction b) (simp_all add: read_sectors_def add.assoc)

lemma read_sectors_slice:
  assumes "disk_ok d" "a + k \<le> n"
  shows "read_sectors d ty drv (lba + a) k = take (512 * k) (drop (512 * a) (read_sectors d ty drv lba n))"
proof -
  obtain r where n: "n = a + (k + r)" using assms(2) by (metis add.assoc le_Suc_ex)
  show ?thesis unfolding n read_sectors_add using length_read_sectors [OF assms(1)] by simp
qed

definition cluster_bytes :: "fat32_fs \<Rightarrow> disk \<Rightarrow> nat \<Rightarrow> u8 list" where
  "cluster_bytes fs d c = read_sectors d (fs_drive_type fs) (fs_drive fs) (cluster_to_lba fs c) (fs_spc fs)"

definition file_bytes :: "fat32_fs \<Rightarrow> disk \<Rightarrow> nat list \<Rightarrow> u8 list" where
  "file_bytes fs d cs = concat (map (cluster_bytes fs d) cs)"

abbreviation cluster_size :: "fat32_fs \<Rightarrow> nat" where
  "cluster_size fs \<equiv> fs_spc fs * 512"

lemma length_cluster_bytes: "disk_ok d \<Longrightarrow> length (cluster_bytes fs d c) = cluster_size fs"
  by (simp add: cluster_bytes_def length_read_sectors)

lemma length_file_bytes: "disk_ok d \<Longrightarrow> length (file_bytes fs d cs) = cluster_size fs * length cs"
  by (induction cs) (simp_all add: file_bytes_def length_cluster_bytes)

lemma drop_file_bytes:
  "disk_ok d \<Longrightarrow> j \<le> length cs \<Longrightarrow> drop (cluster_size fs * j) (file_bytes fs d cs) = file_bytes fs d (drop j cs)"
proof (induction j arbitrary: cs)
  case (Suc j)
  then obtain c cs' where cs: "cs = c # cs'" by (cases cs) auto
  have "drop (cluster_size fs * Suc j) (file_bytes fs d cs) = drop (cluster_size fs * j) (drop (cluster_size fs) (file_bytes fs d cs))"
    by (simp add: add.commute)
  also have "drop (cluster_size fs) (file_bytes fs d cs) = file_bytes fs d cs'"
    using Suc.prems(1) by (simp add: cs file_bytes_def length_cluster_bytes)
  finally show ?case using Suc cs by simp
qed simp

section \<open>The sectors of one cluster\<close>

lemma sec_start_exact: "pos + s * 512 < 2 ^ 32 \<Longrightarrow> sec_start pos s = pos + s * 512"
  by (simp add: sec_start_def)

text \<open>Sector \<open>s\<close> of the cluster at \<open>pos\<close> overlaps the window \<open>[offset, offset + n)\<close>.\<close>

definition overlaps :: "nat \<Rightarrow> nat \<Rightarrow> nat \<Rightarrow> nat \<Rightarrow> bool" where
  "overlaps pos offset n s \<longleftrightarrow> offset < pos + s * 512 + 512 \<and> pos + s * 512 < offset + n"

lemma find_run_step:
  assumes "pos + spc * 512 < 2 ^ 32" "s < spc"
  shows "find_run spc pos offset n s run =
     (if pos + s * 512 + 512 \<le> offset then find_run spc pos offset n (s + 1) run
      else if offset + n \<le> pos + s * 512 then run
      else find_run spc pos offset n (s + 1) (case run of None \<Rightarrow> Some (s, s) | Some (f, _) \<Rightarrow> Some (f, s)))"
proof -
  have "(s + 1) * 512 \<le> spc * 512" using assms(2) by (intro mult_le_mono1) simp
  then have "sec_start pos s = pos + s * 512" "add32 (sec_start pos s) 512 = pos + s * 512 + 512"
    using assms(1) by (simp_all add: sec_start_def add32_def)
  then show ?thesis using assms(2) by (subst find_run.simps) simp
qed

lemma find_run_end: "spc \<le> s \<Longrightarrow> find_run spc pos offset n s run = run"
  by (subst find_run.simps) simp

lemma find_run_last:
  assumes "pos + spc * 512 < 2 ^ 32" "e < spc" "overlaps pos offset n e"
  shows "\<exists>l. find_run spc pos offset n (e + 1) (Some (f, e)) = Some (f, l) \<and> e \<le> l \<and> l < spc \<and> overlaps pos offset n l \<and>
    (l + 1 = spc \<or> offset + n \<le> pos + (l + 1) * 512)"
  using assms(2,3)
proof (induction "spc - e" arbitrary: e)
  case (Suc m)
  show ?case
  proof (cases "e + 1 < spc \<and> pos + (e + 1) * 512 < offset + n")
    case True
    then have o: "overlaps pos offset n (e + 1)" using Suc.prems(2) by (simp add: overlaps_def)
    then have "find_run spc pos offset n (e + 1) (Some (f, e)) = find_run spc pos offset n (e + 1 + 1) (Some (f, e + 1))"
      using True find_run_step [OF assms(1), of "e + 1" offset n "Some (f, e)"] by (simp add: overlaps_def)
    moreover have "m = spc - (e + 1)" using Suc.hyps(2) by simp
    ultimately show ?thesis using Suc.hyps(1) [of "e + 1"] True o by (metis Suc_leD Suc_eq_plus1)
  next
    case False
    then have "find_run spc pos offset n (e + 1) (Some (f, e)) = Some (f, e)"
      using Suc.prems find_run_step [OF assms(1), of "e + 1" offset n "Some (f, e)"]
      by (cases "e + 1 < spc") (auto simp: overlaps_def find_run_end)
    then show ?thesis using False Suc.prems by (intro exI [of _ e]) auto
  qed
qed simp

lemma find_run_from:
  assumes "pos + spc * 512 < 2 ^ 32" "s < spc" "s = 0 \<or> pos + s * 512 \<le> offset" "pos < offset + n" "offset < pos + spc * 512" "0 < n"
  shows "\<exists>f l. find_run spc pos offset n s None = Some (f, l) \<and> f \<le> l \<and> l < spc \<and> overlaps pos offset n f \<and>
    overlaps pos offset n l \<and> (f = 0 \<or> pos + f * 512 \<le> offset) \<and> (l + 1 = spc \<or> offset + n \<le> pos + (l + 1) * 512)"
  using assms(2,3)
proof (induction "spc - s" arbitrary: s)
  case (Suc m)
  show ?case
  proof (cases "pos + s * 512 + 512 \<le> offset")
    case True
    then have "s + 1 < spc" using assms(5) Suc.prems(1) by (cases "s + 1 = spc") auto
    moreover have "find_run spc pos offset n s None = find_run spc pos offset n (s + 1) None"
      using True find_run_step [OF assms(1) Suc.prems(1)] by simp
    moreover have "m = spc - (s + 1)" using Suc.hyps(2) by simp
    ultimately show ?thesis using Suc.hyps(1) [of "s + 1"] True by simp
  next
    case False
    have o: "overlaps pos offset n s" using False Suc.prems(2) assms(4,6) by (auto simp: overlaps_def)
    then have "find_run spc pos offset n s None = find_run spc pos offset n (s + 1) (Some (s, s))"
      using find_run_step [OF assms(1) Suc.prems(1)] by (simp add: overlaps_def)
    then show ?thesis using find_run_last [OF assms(1) Suc.prems(1) o, of s] Suc.prems o by auto
  qed
qed simp

section \<open>Copying out of the cluster buffer\<close>

text \<open>\<open>B\<close> is the whole file; the buffer holds its bytes from sector \<open>first\<close> of the cluster at \<open>pos\<close> on. After
  the copy of a sector the bytes delivered are those from the offset to the end of that sector, or \<open>n\<close> of
  them.\<close>

definition upto :: "nat \<Rightarrow> nat \<Rightarrow> nat \<Rightarrow> nat" where
  "upto offset n p = min n (max offset p - offset)"

lemma copy_window:
  assumes "pos + s * 512 < 2 ^ 32" "overlaps pos offset n s" "offset + n < 2 ^ 32" "k = upto offset n (pos + s * 512)" "0 < n"
  shows "pos + s * 512 + copy_start pos offset s = offset + k"
    "copy_len pos offset n s k + k = upto offset n (pos + (s + 1) * 512)"
    "copy_start pos offset s + copy_len pos offset n s k \<le> 512"
proof -
  let ?P = "pos + s * 512"
  have o: "offset < ?P + 512" "?P < offset + n" using assms(2) by (auto simp: overlaps_def)
  have k: "k = max offset ?P - offset" "k < n" using assms(4,5) o by (auto simp: upto_def max_def min_def)
  have c: "copy_start pos offset s = max offset ?P - ?P"
    using assms(1,3) o by (auto simp: copy_start_def sec_start_exact sub32_exact)
  have l: "copy_len pos offset n s k = min (512 - (max offset ?P - ?P)) (n - k)"
    using assms(3) o k c by (auto simp: copy_len_def Let_def sub32_exact)
  show "?P + copy_start pos offset s = offset + k" using c k by simp
  show "copy_len pos offset n s k + k = upto offset n (pos + (s + 1) * 512)"
    using l k o by (cases "offset \<le> ?P") (auto simp: upto_def max_def min_def)
  show "copy_start pos offset s + copy_len pos offset n s k \<le> 512"
    using c l o by (cases "offset \<le> ?P") (auto simp: max_def min_def)
qed

lemma overlaps_between:
  assumes "overlaps pos offset n f" "overlaps pos offset n l" "f \<le> s" "s \<le> l"
  shows "overlaps pos offset n s"
proof -
  have "f * 512 \<le> s * 512" "s * 512 \<le> l * 512" using assms(3,4) by simp_all
  then show ?thesis using assms(1,2) unfolding overlaps_def by linarith
qed

lemma read_copy_spec:
  assumes cap: "pos + (l + 1) * 512 < 2 ^ 32" "pos + (l + 1) * 512 \<le> length B"
    and ov: "overlaps pos offset n f" "overlaps pos offset n l" and n: "offset + n < 2 ^ 32" "0 < n"
    and buf: "cbuf = take ((l - f + 1) * 512) (drop (pos + f * 512) B)"
    and s: "f \<le> s" "s \<le> l + 1" and out: "out = take (upto offset n (pos + s * 512)) (drop offset B)"
  shows "read_copy pos offset n f l cbuf s out = take (upto offset n (pos + (l + 1) * 512)) (drop offset B)"
  using s out
proof (induction "l + 1 - s" arbitrary: s out)
  case 0
  then show ?case by (subst read_copy.simps) simp
next
  case (Suc m)
  let ?k = "upto offset n (pos + s * 512)" and ?P = "pos + s * 512"
  have sl: "s \<le> l" "m = l + 1 - (s + 1)" using Suc.hyps(2) by auto
  have sle: "(s + 1) * 512 \<le> (l + 1) * 512" using sl(1) by (intro mult_le_mono1) simp
  have o: "overlaps pos offset n s" using overlaps_between [OF ov Suc.prems(1) sl(1)] .
  have p: "pos + s * 512 < 2 ^ 32" using sle cap(1) by simp
  note w = copy_window [OF p o n(1) refl n(2)]
  have len: "length out = ?k" using Suc.prems(3) sle cap(2) by (simp add: upto_def)
  let ?l = "copy_len pos offset n s ?k"
  have sf: "(s - f) * 512 + 512 \<le> (l - f + 1) * 512" using diff_le_mono [OF sl(1), of f] by simp
  have pf: "pos + f * 512 + (s - f) * 512 = ?P" using Suc.prems(1) by simp
  have "take ?l (drop ((s - f) * 512 + copy_start pos offset s) cbuf) =
      take ?l (drop (pos + f * 512 + ((s - f) * 512 + copy_start pos offset s)) B)"
    unfolding buf using sf w(3) by (simp add: drop_take min_def add.commute)
  also have "pos + f * 512 + ((s - f) * 512 + copy_start pos offset s) = offset + ?k" using pf w(1) by simp
  finally have "out @ take ?l (drop ((s - f) * 512 + copy_start pos offset s) cbuf) =
      take (upto offset n (pos + (s + 1) * 512)) (drop offset B)"
    unfolding w(2) [symmetric] Suc.prems(3) by (simp add: take_add add.commute)
  then have "read_copy pos offset n f l cbuf s out =
      read_copy pos offset n f l cbuf (s + 1) (take (upto offset n (pos + (s + 1) * 512)) (drop offset B))"
    using sl(1) len by (subst read_copy.simps) (simp add: Let_def)
  then show ?case using Suc.hyps(1) [OF sl(2)] Suc.prems(1) sl(1) by simp
qed

section \<open>Walking the chain\<close>

text \<open>A file's chain lies in the data area and its capacity fits 32 bits; one command transfers a cluster.\<close>

definition file_chain :: "fat32_fs \<Rightarrow> disk \<Rightarrow> nat \<Rightarrow> nat list \<Rightarrow> bool" where
  "file_chain fs d c cs \<longleftrightarrow> chain (fat_of fs d) c cs \<and> (\<forall>x \<in> set cs. 2 \<le> x \<and> valid_cluster fs x) \<and>
     cluster_size fs * length cs < 2 ^ 32 \<and> fs_spc fs \<le> blk_max (fs_drive_type fs)"

lemma file_bytes_cong: "dk_sec d' = dk_sec d \<Longrightarrow> file_bytes fs d' = file_bytes fs d"
  by (simp add: fun_eq_iff file_bytes_def cluster_bytes_def read_sectors_def cong: map_cong)

lemma fs_read_many:
  assumes "healthy (ft_disk st)" "n \<le> blk_max (fs_drive_type fs)"
  shows "fs_read fs lba n [] st =
    (0, read_sectors (ft_disk st) (fs_drive_type fs) (fs_drive fs) lba n, st\<lparr>ft_disk := next_cmd (ft_disk st)\<rparr>)"
  using assms by (simp add: fs_read_def blk_read_healthy overwrite_full next_cmd_def)

lemma next_cmd_ready:
  assumes "fat_ready fs st"
  shows "fat_ready fs (st\<lparr>ft_disk := next_cmd (ft_disk st)\<rparr>)" "same_data st (st\<lparr>ft_disk := next_cmd (ft_disk st)\<rparr>)"
  using assms by (auto simp: fat_ready_def cache_ok_def same_data_def same_pools_def split: option.splits)

lemma cluster_slice:
  assumes "disk_ok d" "j < length cs" "f + k \<le> fs_spc fs"
  shows "read_sectors d (fs_drive_type fs) (fs_drive fs) (cluster_to_lba fs (cs ! j) + f) k =
    take (k * 512) (drop (cluster_size fs * j + f * 512) (file_bytes fs d cs))"
proof -
  have dj: "drop j cs = cs ! j # drop (Suc j) cs" using assms(2) by (simp add: Cons_nth_drop_Suc)
  have "drop (cluster_size fs * j + f * 512) (file_bytes fs d cs) = drop (f * 512) (drop (cluster_size fs * j) (file_bytes fs d cs))"
    by (simp add: add.commute)
  also have "drop (cluster_size fs * j) (file_bytes fs d cs) = cluster_bytes fs d (cs ! j) @ file_bytes fs d (drop (Suc j) cs)"
    unfolding drop_file_bytes [OF assms(1) less_imp_le [OF assms(2)]] dj by (simp add: file_bytes_def)
  finally have "take (k * 512) (drop (cluster_size fs * j + f * 512) (file_bytes fs d cs)) =
      take (k * 512) (drop (f * 512) (cluster_bytes fs d (cs ! j)))"
    using assms length_cluster_bytes [OF assms(1), of fs "cs ! j"] by simp
  then show ?thesis using read_sectors_slice [OF assms(1,3)] by (simp add: cluster_bytes_def mult.commute)
qed

lemma read_clusters_spec:
  assumes "fat_ready fs st" "healthy (ft_disk st)" "file_chain fs (ft_disk st) c0 cs"
    "chain (fat_of fs (ft_disk st)) c (drop j cs)" "j \<le> length cs" "offset < cluster_size fs * (j + 1)"
    "offset + n \<le> cluster_size fs * length cs" "0 < n"
    "out = take (upto offset n (cluster_size fs * j)) (drop offset (file_bytes fs (ft_disk st) cs))"
  shows "\<exists>st'. read_clusters fs offset n (cluster_size fs * j) c out st =
      Some ((True, take n (drop offset (file_bytes fs (ft_disk st) cs))), st') \<and>
    fat_ready fs st' \<and> same_data st st' \<and> healthy (ft_disk st')"
  using assms
proof (induction "length cs - j" arbitrary: j c out st)
  case 0
  let ?B = "file_bytes fs (ft_disk st) cs"
  have "j = length cs" using 0 by simp
  then have u: "upto offset n (cluster_size fs * j) = n" using 0(8) by (simp add: upto_def)
  have "length ?B = cluster_size fs * length cs" using 0(2) by (simp add: length_file_bytes fat_ready_def)
  then have "length out = n" using 0(8,10) u by simp
  then show ?case using 0(2,3,10) u by (subst read_clusters.simps) simp
next
  case (Suc m)
  let ?B = "file_bytes fs (ft_disk st) cs" and ?pos = "cluster_size fs * j" and ?spc = "fs_spc fs"
  have j: "j < length cs" "m = length cs - (j + 1)" using Suc.hyps(2) by auto
  have dok: "disk_ok (ft_disk st)" "vol_ok fs" using Suc.prems(1) by (auto simp: fat_ready_def)
  have lB: "length ?B = cluster_size fs * length cs" using dok by (simp add: length_file_bytes)
  have pj: "?pos + ?spc * 512 \<le> cluster_size fs * length cs"
  proof -
    have "cluster_size fs * (j + 1) \<le> cluster_size fs * length cs" using j(1) by (intro mult_le_mono2) simp
    then show ?thesis by simp
  qed
  have fc: "cluster_size fs * length cs < 2 ^ 32" "\<forall>x \<in> set cs. 2 \<le> x \<and> valid_cluster fs x" "?spc \<le> blk_max (fs_drive_type fs)"
    using Suc.prems(3) by (auto simp: file_chain_def)
  have dj: "drop j cs = cs ! j # drop (j + 1) cs" using j(1) by (simp add: Cons_nth_drop_Suc)
  have c: "c = cs ! j" "c < FAT32_EOC" "chain (fat_of fs (ft_disk st)) (fat_of fs (ft_disk st) c) (drop (j + 1) cs)"
    using Suc.prems(4) unfolding dj by auto
  have vc: "valid_cluster fs c" using fc(2) c(1) j(1) by simp
  have lo: "length out = upto offset n ?pos" using Suc.prems(9) lB Suc.prems(7) by (auto simp: upto_def)
  show ?case
  proof (cases "upto offset n ?pos < n")
    case False
    then have "upto offset n ?pos = n" by (simp add: upto_def)
    then show ?thesis using Suc.prems(1,2,9) lo by (subst read_clusters.simps) simp
  next
    case True
    then have "?pos < offset + n" by (auto simp: upto_def)
    then obtain f l where r: "find_run ?spc ?pos offset n 0 None = Some (f, l)" "f \<le> l" "l < ?spc"
      "overlaps ?pos offset n f" "overlaps ?pos offset n l" "l + 1 = ?spc \<or> offset + n \<le> ?pos + (l + 1) * 512"
      "f = 0 \<or> ?pos + f * 512 \<le> offset"
      using find_run_from [of ?pos ?spc 0 offset n] pj fc(1) Suc.prems(6,8) dok(2) by (auto simp: vol_ok_def)
    let ?st1 = "st\<lparr>ft_disk := next_cmd (ft_disk st)\<rparr>"
    let ?cbuf = "take ((l - f + 1) * 512) (drop (?pos + f * 512) ?B)"
    have fl: "f + (l - f + 1) \<le> ?spc" using r(2,3) by simp
    have rd: "fs_read fs (cluster_to_lba fs c + f) (l - f + 1) [] st = (0, ?cbuf, ?st1)"
      using fs_read_many [of st "l - f + 1" fs] Suc.prems(2) fl fc(3) cluster_slice [OF dok(1) j(1) fl] c(1) by simp
    have l1: "(l + 1) * 512 \<le> ?spc * 512" using r(3) by (intro mult_le_mono1) simp
    have up: "upto offset n (?pos + (l + 1) * 512) = upto offset n (cluster_size fs * (j + 1))"
    proof (cases "l + 1 = ?spc")
      case True
      then show ?thesis by (metis add_mult_distrib2 mult.right_neutral)
    next
      case False
      then have a: "offset + n \<le> ?pos + (l + 1) * 512" using r(6) by simp
      moreover have "?pos + (l + 1) * 512 \<le> cluster_size fs * (j + 1)" using l1 by simp
      ultimately show ?thesis by (simp add: upto_def)
    qed
    have fo: "upto offset n (?pos + f * 512) = upto offset n ?pos" using r(7) by (auto simp: upto_def)
    have cp: "read_copy ?pos offset n f l ?cbuf f out = take (upto offset n (cluster_size fs * (j + 1))) (drop offset ?B)"
      unfolding up [symmetric]
      by (rule read_copy_spec) (use l1 pj fc(1) lB r Suc.prems(7-9) fo in simp_all)
    obtain st2 where nx: "fat32_next_cluster fs c ?st1 = (fat_of fs (ft_disk st) c, st2)" "fat_ready fs st2"
      "same_data ?st1 st2" "healthy (ft_disk st2)"
      using next_cluster_healthy [OF next_cmd_ready(1) [OF Suc.prems(1)] _ vc] Suc.prems(2) same_data_fat [OF next_cmd_ready(2) [OF Suc.prems(1)]]
      by auto
    note sd = same_data_trans [OF next_cmd_ready(2) [OF Suc.prems(1)] nx(3)]
    have sec: "dk_sec (ft_disk st2) = dk_sec (ft_disk st)" using sd by (simp add: same_data_def)
    have fb: "file_bytes fs (ft_disk st2) = file_bytes fs (ft_disk st)" "fat_of fs (ft_disk st2) = fat_of fs (ft_disk st)"
      using file_bytes_cong [OF sec] same_data_fat [OF sd] by auto
    have e: "read_clusters fs offset n ?pos c out st = read_clusters fs offset n (cluster_size fs * (j + 1)) (fat_of fs (ft_disk st) c)
        (take (upto offset n (cluster_size fs * (j + 1))) (drop offset ?B)) st2"
      using True c(2) lo r(1) rd cp nx(1) by (subst read_clusters.simps) (simp add: add.commute)
    have "file_chain fs (ft_disk st2) c0 cs" using Suc.prems(3) fb by (simp add: file_chain_def)
    from Suc.hyps(1) [OF j(2) nx(2,4) this] c(3) j(1) Suc.prems(6-8) fb
    show ?thesis unfolding e using same_data_trans [OF sd] by fastforce
  qed
qed

lemma skip_clusters_spec:
  assumes "fat_ready fs st" "healthy (ft_disk st)" "file_chain fs (ft_disk st) c0 cs"
    "chain (fat_of fs (ft_disk st)) c (drop j cs)" "j \<le> length cs" "cluster_size fs * j \<le> offset"
    "offset < cluster_size fs * length cs"
  shows "\<exists>c' j' st'. skip_clusters fs (cluster_size fs) offset (cluster_size fs * j) c st = ((cluster_size fs * j', c'), st') \<and>
    fat_ready fs st' \<and> same_data st st' \<and> healthy (ft_disk st') \<and>
    chain (fat_of fs (ft_disk st)) c' (drop j' cs) \<and> j' \<le> length cs \<and> cluster_size fs * j' \<le> offset \<and>
    offset < cluster_size fs * (j' + 1)"
  using assms
proof (induction "length cs - j" arbitrary: j c st)
  case 0
  then have "j = length cs" by simp
  then show ?case using 0(7,8) by simp
next
  case (Suc m)
  have j: "j < length cs" "m = length cs - (j + 1)" using Suc.hyps(2) by auto
  have dj: "drop j cs = cs ! j # drop (j + 1) cs" using j(1) by (simp add: Cons_nth_drop_Suc)
  have c: "c = cs ! j" "c < FAT32_EOC" "chain (fat_of fs (ft_disk st)) (fat_of fs (ft_disk st) c) (drop (j + 1) cs)"
    using Suc.prems(4) unfolding dj by auto
  have vc: "valid_cluster fs c" using Suc.prems(3) c(1) j(1) by (simp add: file_chain_def)
  have pos: "0 < cluster_size fs" using Suc.prems(1) by (simp add: fat_ready_def vol_ok_def)
  show ?case
  proof (cases "cluster_size fs * (j + 1) \<le> offset")
    case False
    then have "skip_clusters fs (cluster_size fs) offset (cluster_size fs * j) c st = ((cluster_size fs * j, c), st)"
      by (subst skip_clusters.simps) (simp add: algebra_simps)
    then show ?thesis using Suc.prems False by (intro exI [of _ c] exI [of _ j] exI [of _ st]) simp
  next
    case True
    obtain st1 where n: "fat32_next_cluster fs c st = (fat_of fs (ft_disk st) c, st1)" "fat_ready fs st1" "same_data st st1"
      "healthy (ft_disk st1)"
      using next_cluster_healthy [OF Suc.prems(1,2) vc] .
    note f1 = same_data_fat [OF n(3)]
    have e: "skip_clusters fs (cluster_size fs) offset (cluster_size fs * j) c st =
        skip_clusters fs (cluster_size fs) offset (cluster_size fs * (j + 1)) (fat_of fs (ft_disk st) c) st1"
      using True c(2) n(1) pos by (subst skip_clusters.simps) (simp add: algebra_simps)
    have fc: "file_chain fs (ft_disk st1) c0 cs" using Suc.prems(3) f1 by (simp add: file_chain_def)
    have j1: "j + 1 \<le> length cs" using j(1) by simp
    obtain c' j' st' where "skip_clusters fs (cluster_size fs) offset (cluster_size fs * (j + 1)) (fat_of fs (ft_disk st) c) st1 =
        ((cluster_size fs * j', c'), st')" "fat_ready fs st'" "same_data st1 st'" "healthy (ft_disk st')"
      "chain (fat_of fs (ft_disk st)) c' (drop j' cs)" "j' \<le> length cs" "cluster_size fs * j' \<le> offset"
      "offset < cluster_size fs * (j' + 1)"
      using Suc.hyps(1) [OF j(2) n(2,4) fc _ j1 True Suc.prems(7), of "fat_of fs (ft_disk st) c"] c(3) unfolding f1 by blast
    then show ?thesis unfolding e using same_data_trans [OF n(3)] by blast
  qed
qed

section \<open>Reading a file\<close>

lemma fat_read_spec:
  fixes st node
  defines "nd \<equiv> ft_nodes st ! node"
  defines "fs \<equiv> ft_fs st ! fi_fs (ft_infos st ! the (vn_private nd))"
  assumes "vn_private nd \<noteq> None" "vn_type nd AND VFS_FILE \<noteq> 0"
    and r: "fat_ready fs st" "healthy (ft_disk st)" and fc: "file_chain fs (ft_disk st) (vn_inode nd) cs"
    and sz: "vn_size nd \<le> cluster_size fs * length cs" "vn_size nd < 2 ^ 31"
  shows "\<exists>st'. fat32_read node offset n st =
      Some (int (min n (vn_size nd - offset)), take (min n (vn_size nd - offset)) (drop offset (file_bytes fs (ft_disk st) cs)), st') \<and>
    same_data st st' \<and> fat_ready fs st' \<and> healthy (ft_disk st')"
proof -
  obtain fi where fi: "vn_private nd = Some fi" using assms(3) by blast
  let ?B = "file_bytes fs (ft_disk st) cs"
  have e: "fat32_read node offset n st =
      (if offset \<ge> vn_size nd then Some (0, [], st)
       else let n = (if offset + n > vn_size nd then (vn_size nd - offset) mod 2 ^ 32 else n);
                ((pos, cluster), st) = skip_clusters fs (cluster_size fs) offset 0 (vn_inode nd) st
            in map_option (\<lambda>((ok, out), st). (if \<not> ok \<and> length out = 0 then - 1 else int32 (length out), out, st))
                 (read_clusters fs offset n pos cluster [] st))"
    using assms(4) fi by (simp add: fat32_read_def nd_def [symmetric] fs_def Let_def)
  show ?thesis
  proof (cases "vn_size nd \<le> offset")
    case True
    then show ?thesis using e r by simp
  next
    case False
    let ?m = "min n (vn_size nd - offset)"
    have m: "(if offset + n > vn_size nd then (vn_size nd - offset) mod 2 ^ 32 else n) = ?m" using sz(2) False by auto
    have "chain (fat_of fs (ft_disk st)) (vn_inode nd) (drop 0 cs)" using fc by (simp add: file_chain_def)
    moreover have "offset < cluster_size fs * length cs" using False sz(1) by simp
    ultimately obtain c' j st1 where
      s: "skip_clusters fs (cluster_size fs) offset 0 (vn_inode nd) st = ((cluster_size fs * j, c'), st1)"
      "fat_ready fs st1" "same_data st st1" "healthy (ft_disk st1)" "chain (fat_of fs (ft_disk st)) c' (drop j cs)" "j \<le> length cs"
      "cluster_size fs * j \<le> offset" "offset < cluster_size fs * (j + 1)"
      using skip_clusters_spec [OF r fc, of "vn_inode nd" 0 offset] by auto
    have sec: "dk_sec (ft_disk st1) = dk_sec (ft_disk st)" using s(3) by (simp add: same_data_def)
    note fb = file_bytes_cong [OF sec] same_data_fat [OF s(3)]
    have lB: "length ?B = cluster_size fs * length cs" using r(1) by (simp add: length_file_bytes fat_ready_def)
    have "\<exists>st'. read_clusters fs offset ?m (cluster_size fs * j) c' [] st1 = Some ((True, take ?m (drop offset ?B)), st') \<and>
        same_data st1 st' \<and> fat_ready fs st' \<and> healthy (ft_disk st')"
    proof (cases "?m = 0")
      case True
      then show ?thesis using s(2,4) by (subst read_clusters.simps) simp
    next
      case False
      have fc1: "file_chain fs (ft_disk st1) (vn_inode nd) cs" using fc fb by (simp add: file_chain_def)
      have le: "offset + ?m \<le> cluster_size fs * length cs" using sz(1) False by auto
      from read_clusters_spec [OF s(2,4) fc1, of c' j offset ?m "[]"] show ?thesis
        using s(5-8) fb False le by (auto simp: upto_def)
    qed
    then obtain st' where st': "read_clusters fs offset ?m (cluster_size fs * j) c' [] st1 = Some ((True, take ?m (drop offset ?B)), st')"
      "same_data st1 st'" "fat_ready fs st'" "healthy (ft_disk st')" by blast
    have "length (take ?m (drop offset ?B)) = ?m" using lB sz(1) by simp
    moreover have "int32 ?m = int ?m" using sz(2) by (intro int32_small) simp
    ultimately show ?thesis using e False m s(1) st' same_data_trans [OF s(3)] by (simp add: Let_def)
  qed
qed

text \<open>C7: on working devices and for a file below 2 GiB whose chain covers its size \<open>fat32_read\<close> returns, and delivers exactly the bytes of the file's cluster chain from
  the offset on, as many as asked but not past the file's size; it changes neither the devices nor the open
  nodes. An offset at or behind the end gives 0 bytes.\<close>

theorem fat_read_slice:
  fixes st node
  defines "nd \<equiv> ft_nodes st ! node"
  defines "fs \<equiv> ft_fs st ! fi_fs (ft_infos st ! the (vn_private nd))"
  assumes "vn_private nd \<noteq> None" "vn_type nd AND VFS_FILE \<noteq> 0"
    and r: "fat_ready fs st" "healthy (ft_disk st)" and fc: "file_chain fs (ft_disk st) (vn_inode nd) cs"
    and sz: "vn_size nd \<le> cluster_size fs * length cs" "vn_size nd < 2 ^ 31"
  shows "\<exists>st'. fat32_read node offset n st =
      Some (int (min n (vn_size nd - offset)), take (min n (vn_size nd - offset)) (drop offset (file_bytes fs (ft_disk st) cs)), st') \<and>
    same_data st st'"
  using fat_read_spec [of st node cs offset n] assms unfolding nd_def fs_def by blast

text \<open>A file of two clusters, 5 and 9, on the example volume.\<close>

definition file_state :: fat_state where
  "file_state = state_example\<lparr>ft_disk := disk_example\<lparr>dk_sec := \<lambda>ty drv lba.
        if lba = 32 then put_le32 (put_le32 zero_sector 20 9) 36 FAT32_EOC
        else if lba = 37 then replicate 512 1 else if lba = 41 then replicate 512 2 else zero_sector\<rparr>,
     ft_nodes := [node_zero\<lparr>vn_type := VFS_FILE, vn_size := 600, vn_inode := 5, vn_ops := file_ops, vn_private := Some 0\<rparr>],
     ft_infos := [finfo_zero]\<rparr>"

lemma file_state_ready: "fat_ready vol_example file_state" "healthy (ft_disk file_state)"
  using example_vol
  by (simp_all add: fat_ready_def file_state_def state_example_def disk_ok_def disk_example_def cache_ok_def healthy_def)

lemma file_state_chain: "file_chain vol_example (ft_disk file_state) 5 [5, 9]"
proof -
  have "le32 (put_le32 (put_le32 zero_sector 20 9) 36 FAT32_EOC) 20 = 9"
    "le32 (put_le32 (put_le32 zero_sector 20 9) 36 FAT32_EOC) 36 = FAT32_EOC"
    by (simp_all add: le32_put_same le32_put_other FAT32_EOC_def)
  then have "fat_of vol_example (ft_disk file_state) 5 = 9" "fat_of vol_example (ft_disk file_state) 9 = FAT32_EOC"
    by (simp_all add: fat_of_def fat_word_def sec_of_def file_state_def vol_example_def fs_zero_def fat_link_EOC fat_link_small)
  then show ?thesis
    by (simp add: file_chain_def valid_cluster_def vol_example_def fs_zero_def FAT32_EOC_def blk_max_def)
qed

lemma file_state_bytes: "file_bytes vol_example (ft_disk file_state) [5, 9] = replicate 512 1 @ replicate 512 2"
  by (simp add: file_bytes_def cluster_bytes_def file_state_def vol_example_def fs_zero_def cluster_to_lba_def sub32_def)

theorem fat_read_slice_witness:
  "\<exists>st'. fat32_read 0 510 4 file_state = Some (4, [1, 1, 2, 2], st')"
proof -
  let ?nd = "ft_nodes file_state ! 0"
  have f: "ft_fs file_state ! fi_fs (ft_infos file_state ! the (vn_private ?nd)) = vol_example"
    by (simp add: file_state_def state_example_def finfo_zero_def)
  have B: "take 4 (drop 510 (file_bytes vol_example (ft_disk file_state) [5, 9])) = [1, 1, 2, 2]"
    by (simp add: file_state_bytes numeral_2_eq_2)
  have "\<exists>st'. fat32_read 0 510 4 file_state = Some (int (min 4 (vn_size ?nd - 510)),
      take (min 4 (vn_size ?nd - 510)) (drop 510 (file_bytes vol_example (ft_disk file_state) [5, 9])), st') \<and> same_data file_state st'"
    using fat_read_slice [of file_state 0 "[5, 9]" 510 4] file_state_ready file_state_chain unfolding f
    by (simp add: file_state_def node_zero_def VFS_FILE_def vol_example_def fs_zero_def)
  moreover have "min 4 (vn_size ?nd - 510) = 4" by (simp add: file_state_def node_zero_def)
  ultimately show ?thesis using B by auto
qed

end
