(* ===== verification/Vfs_Fat.thy ===== *)
theory Vfs_Fat
  imports Vfs_Props Fat32_File
begin

text \<open>
  The virtual file system over the FAT32 driver: the driver record filled with the operations of \<open>Fat32\<close> (the
  mount functions of the other file systems stay parameters), and what a program sees that reads a FAT32 file
  through a descriptor.
\<close>

section \<open>The FAT32 driver behind the interface\<close>

type_synonym mount_fn = "u8 \<Rightarrow> u8 \<Rightarrow> nat \<Rightarrow> mount_point \<Rightarrow> fat_state \<Rightarrow> int \<times> mount_point \<times> fat_state"
type_synonym defrag_fn = "nat \<Rightarrow> fat_state \<Rightarrow> (int \<times> (nat \<times> nat \<times> nat) \<times> fat_state) option"

definition fat_driver :: "mount_fn \<Rightarrow> mount_fn \<Rightarrow> mount_fn \<Rightarrow> defrag_fn \<Rightarrow> fat_state driver" where
  "fat_driver ext2_mount ntfs_mount xfs_mount ext2_defrag =
     \<lparr>dr_node = \<lambda>s n. if n < length (ft_nodes s) then ft_nodes s ! n else node_zero,
      dr_finddir = fat32_finddir, dr_create = fat32_create, dr_read = fat32_read, dr_write = fat32_write,
      dr_readdir = fat32_readdir, dr_unlink = fat32_unlink, dr_rename = fat32_rename,
      dr_fat32_mount = fat32_mount, dr_ext2_mount = ext2_mount, dr_ntfs_mount = ntfs_mount, dr_xfs_mount = xfs_mount,
      dr_fat32_defrag = fat32_defrag, dr_ext2_defrag = ext2_defrag,
      dr_disk = ft_disk, dr_set_disk = \<lambda>d s. s\<lparr>ft_disk := d\<rparr>\<rparr>"

text \<open>Node \<open>n\<close> is a file whose data is the chain \<open>cs\<close>.\<close>

abbreviation node_fs :: "fat_state \<Rightarrow> nat \<Rightarrow> fat32_fs" where
  "node_fs s n \<equiv> ft_fs s ! fi_fs (ft_infos s ! the (vn_private (ft_nodes s ! n)))"

definition fat_file_at :: "nat \<Rightarrow> nat list \<Rightarrow> fat_state \<Rightarrow> bool" where
  "fat_file_at n cs s \<longleftrightarrow> n < length (ft_nodes s) \<and> vn_private (ft_nodes s ! n) \<noteq> None \<and>
     vn_type (ft_nodes s ! n) AND VFS_FILE \<noteq> 0 \<and> vn_ops (ft_nodes s ! n) = file_ops \<and>
     fat_ready (node_fs s n) s \<and> healthy (ft_disk s) \<and>
     file_chain (node_fs s n) (ft_disk s) (vn_inode (ft_nodes s ! n)) cs \<and>
     vn_size (ft_nodes s ! n) \<le> cluster_size (node_fs s n) * length cs \<and> vn_size (ft_nodes s ! n) < 2 ^ 31"

definition fat_contents :: "nat \<Rightarrow> nat list \<Rightarrow> fat_state \<Rightarrow> u8 list" where
  "fat_contents n cs s = take (vn_size (ft_nodes s ! n)) (file_bytes (node_fs s n) (ft_disk s) cs)"

lemma fat_file_read:
  assumes "fat_file_at n cs s"
  shows "\<exists>s'. fat32_read n off k s = Some (int (min k (length (fat_contents n cs s) - off)), take k (drop off (fat_contents n cs s)), s') \<and>
    fat_file_at n cs s' \<and> fat_contents n cs s' = fat_contents n cs s"
proof -
  let ?nd = "ft_nodes s ! n" and ?fs = "node_fs s n"
  let ?B = "file_bytes ?fs (ft_disk s) cs"
  have a: "vn_private ?nd \<noteq> None" "vn_type ?nd AND VFS_FILE \<noteq> 0" "fat_ready ?fs s" "healthy (ft_disk s)"
    "file_chain ?fs (ft_disk s) (vn_inode ?nd) cs" "vn_size ?nd \<le> cluster_size ?fs * length cs" "vn_size ?nd < 2 ^ 31"
    using assms by (auto simp: fat_file_at_def)
  let ?m = "min k (vn_size ?nd - off)"
  obtain s' where s': "fat32_read n off k s = Some (int ?m, take ?m (drop off ?B), s')" "same_data s s'" "fat_ready ?fs s'" "healthy (ft_disk s')"
    using fat_read_spec [OF a] by blast
  have lB: "length ?B = cluster_size ?fs * length cs" using a(3) by (simp add: length_file_bytes fat_ready_def)
  then have lc: "length (fat_contents n cs s) = vn_size ?nd" using a(6) by (simp add: fat_contents_def)
  have sl: "take ?m (drop off ?B) = take k (drop off (fat_contents n cs s))"
    by (simp add: fat_contents_def drop_take min.commute)
  have p: "ft_nodes s' = ft_nodes s" "ft_infos s' = ft_infos s" "ft_fs s' = ft_fs s" "dk_sec (ft_disk s') = dk_sec (ft_disk s)"
    using s'(2) by (auto simp: same_data_def same_pools_def)
  have "fat_file_at n cs s'"
    using assms s'(3,4) same_data_fat [OF s'(2)] p by (simp add: fat_file_at_def file_chain_def)
  moreover have "fat_contents n cs s' = fat_contents n cs s" using file_bytes_cong [OF p(4)] p by (simp add: fat_contents_def)
  ultimately show ?thesis using s'(1) sl lc by auto
qed

interpretation fat_file: readable_file "fat_driver ext2_mount ntfs_mount xfs_mount ext2_defrag" n "fat_file_at n cs" "fat_contents n cs"
  for ext2_mount ntfs_mount xfs_mount :: mount_fn and ext2_defrag :: defrag_fn and n cs
proof
  fix s off k assume i: "fat_file_at n cs s"
  then show "Op_read \<in> set (vn_ops (dr_node (fat_driver ext2_mount ntfs_mount xfs_mount ext2_defrag) s n))"
    by (simp add: fat_driver_def fat_file_at_def file_ops_def)
  show "length (fat_contents n cs s) < 2 ^ 31" using i
    by (auto simp: fat_file_at_def fat_contents_def intro: min.strict_coboundedI2)
  show "\<exists>s'. dr_read (fat_driver ext2_mount ntfs_mount xfs_mount ext2_defrag) n off k s =
      Some (int (min k (length (fat_contents n cs s) - off)), take k (drop off (fat_contents n cs s)), s') \<and>
      fat_file_at n cs s' \<and> fat_contents n cs s' = fat_contents n cs s"
    using fat_file_read [OF i] by (simp add: fat_driver_def)
qed

text \<open>C12: a program that reads a FAT32 file through a descriptor with any sequence of request sizes gets, one after the
  other, the bytes of the file from the descriptor's offset on, without gap or repetition, up to the end of the
  file; every read returns and the descriptor's offset ends where the delivered bytes end. The device is healthy and the file
  has less than 2 GiB.\<close>

theorem vfs_fat_stream:
  assumes "caller_ok v" "open_fd fd v = Some e" "fd_node e = Some n" "fat_file_at n cs (v_fs v)"
    "\<forall>k \<in> set ks. k < 2 ^ 32" "unat (fd_offset e) + sum_list ks < 2 ^ 63"
  shows "\<exists>v' e'. vfs_read_seq (fat_driver ext2_mount ntfs_mount xfs_mount ext2_defrag) fd ks v =
      Some (take (sum_list ks) (drop (unat (fd_offset e)) (fat_contents n cs (v_fs v))), v') \<and>
    open_fd fd v' = Some e' \<and> fd_node e' = Some n \<and>
    unat (fd_offset e') = unat (fd_offset e) + min (sum_list ks) (length (fat_contents n cs (v_fs v)) - unat (fd_offset e))"
proof -
  have "fat_file.reading n cs fd (unat (fd_offset e)) v" unfolding fat_file.reading_def using assms by simp
  from fat_file.stream [OF this assms(5,6), of ext2_mount ntfs_mount xfs_mount ext2_defrag]
  show ?thesis unfolding fat_file.reading_def by blast
qed

text \<open>The file of two clusters, open at offset 510 in the idle task.\<close>

definition fd_example :: file_descriptor where
  "fd_example = \<lparr>fd_node = Some 0, fd_offset = 510, fd_flags = 1, fd_active = True\<rparr>"

definition fat_vfs_example :: "fat_state vfs" where
  "fat_vfs_example = \<lparr>mount_table = [], v_sched = sched_zero\<lparr>cur_task := Some Idle,
     idle_task := task_zero\<lparr>t_fd_table := fd_example # replicate 63 fd_zero\<rparr>\<rparr>, v_fs = file_state\<rparr>"

definition no_mount :: mount_fn where "no_mount ty drv lba mp s = (- 1, mp, s)"
definition no_defrag :: defrag_fn where "no_defrag n s = Some (- 1, (0, 0, 0), s)"

theorem vfs_fat_stream_witness:
  "\<exists>v'. vfs_read_seq (fat_driver no_mount no_mount no_mount no_defrag) 0 [1, 3] fat_vfs_example = Some ([1, 1, 2, 2], v')"
proof -
  have f: "node_fs file_state 0 = vol_example" by (simp add: file_state_def state_example_def finfo_zero_def)
  have nd: "length (ft_nodes file_state) = 1" "vn_private (ft_nodes file_state ! 0) = Some 0" "vn_type (ft_nodes file_state ! 0) = VFS_FILE"
    "vn_ops (ft_nodes file_state ! 0) = file_ops" "vn_inode (ft_nodes file_state ! 0) = 5" "vn_size (ft_nodes file_state ! 0) = 600"
    by (simp_all add: file_state_def node_zero_def)
  have sp: "fs_spc vol_example = 1" by (simp add: vol_example_def)
  have at0: "fat_file_at 0 [5, 9] file_state"
    unfolding fat_file_at_def f using nd file_state_ready file_state_chain sp by (simp add: VFS_FILE_def)
  have ok: "caller_ok fat_vfs_example" "open_fd 0 fat_vfs_example = Some fd_example"
    by (simp_all add: caller_ok_def fat_vfs_example_def fdt_def sched_current_task_def caller_def get_task_def open_fd_def
        MAX_FD_def fd_example_def)
  have c: "fat_contents 0 [5, 9] (v_fs fat_vfs_example) = replicate 512 1 @ replicate 88 2"
    unfolding fat_contents_def fat_vfs_example_def using f nd(6) file_state_bytes by simp
  have "\<forall>k \<in> set [1, 3 :: nat]. k < 2 ^ 32" "unat (fd_offset fd_example) + sum_list [1, 3] < 2 ^ 63" "fd_node fd_example = Some 0"
    "fat_file_at 0 [5, 9] (v_fs fat_vfs_example)"
    using at0 by (simp_all add: fd_example_def fat_vfs_example_def)
  from vfs_fat_stream [OF ok this(3,4,1,2), of no_mount no_mount no_mount no_defrag]
  obtain v' where "vfs_read_seq (fat_driver no_mount no_mount no_mount no_defrag) 0 [1, 3] fat_vfs_example =
      Some (take (sum_list [1, 3]) (drop (unat (fd_offset fd_example)) (replicate 512 1 @ replicate 88 2)), v')"
    unfolding c by blast
  moreover have "unat (fd_offset fd_example) = 510" by (simp add: fd_example_def)
  moreover have "take (sum_list [1, 3]) (drop 510 (replicate 512 1 @ replicate 88 2)) = [1, 1, 2, 2 :: u8]"
    by (simp add: numeral_2_eq_2)
  ultimately show ?thesis by (simp del: vfs_read_seq.simps)
qed

end
