(* ===== verification/Net.thy ===== *)
theory Net
  imports Prelude "HOL-Library.Monad_Syntax"
begin

text \<open>
  \<open>net/*.c\<close>: Ethernet, ARP, IPv4, ICMP, UDP and DHCP. One record holds the static variables of the six files,
  the frames handed to the network card and what comes from outside: an endless sequence of turns, one per test of a
  polling loop's deadline, each with the value of the tick counter then and the frame that a poll after it finds
  pending, if any, and the number of turns taken so far. A poll may answer a request, which may have to resolve an
  address, which polls again; fuel bounds that nesting together with the iterations, and \<open>None\<close> stands for running
  out of it. Nothing in the model ends a loop but the code's own test of its deadline. Received data is passed on by pointers into the one receive buffer, and outgoing data sits in
  static buffers: addresses and payloads are therefore references that are read when the code reads them, so that
  a nested poll that overwrites a buffer shows.
\<close>

section \<open>Byte order and addresses\<close>

type_synonym mac_addr = "u8 list"
type_synonym ip_addr = "u8 list"

definition htons :: "16 word \<Rightarrow> 16 word" where
  "htons v = drop_bit 8 v OR push_bit 8 v"

definition ntohs :: "16 word \<Rightarrow> 16 word" where
  "ntohs v = htons v"

definition htonl :: "32 word \<Rightarrow> 32 word" where
  "htonl v = drop_bit 24 (v AND 0xFF000000) OR drop_bit 8 (v AND 0x00FF0000) OR
     push_bit 8 (v AND 0x0000FF00) OR push_bit 24 (v AND 0x000000FF)"

definition ntohl :: "32 word \<Rightarrow> 32 word" where
  "ntohl v = htonl v"

text \<open>Network-order fields of a packed header: loaded and stored as little-endian words, swapped.\<close>

definition get_be16 :: "u8 list \<Rightarrow> nat \<Rightarrow> nat" where
  "get_be16 p i = unat (ntohs (of_nat (le16 p i)))"

definition get_be32 :: "u8 list \<Rightarrow> nat \<Rightarrow> nat" where
  "get_be32 p i = unat (ntohl (of_nat (le32 p i)))"

definition set_be16 :: "u8 list \<Rightarrow> nat \<Rightarrow> nat \<Rightarrow> u8 list" where
  "set_be16 p i v = put_le16 p i (unat (htons (of_nat v)))"

definition set_be32 :: "u8 list \<Rightarrow> nat \<Rightarrow> nat \<Rightarrow> u8 list" where
  "set_be32 p i v = put_le32 p i (unat (htonl (of_nat v)))"

definition put_bytes :: "u8 list \<Rightarrow> nat \<Rightarrow> u8 list \<Rightarrow> u8 list" where
  "put_bytes buf i data = take i buf @ data @ drop (i + length data) buf"

definition mac_eq :: "mac_addr \<Rightarrow> mac_addr \<Rightarrow> bool" where
  "mac_eq a b \<longleftrightarrow> (\<forall>i \<in> set [0..<6]. a ! i = b ! i)"

definition ip_eq :: "ip_addr \<Rightarrow> ip_addr \<Rightarrow> bool" where
  "ip_eq a b \<longleftrightarrow> a ! 0 = b ! 0 \<and> a ! 1 = b ! 1 \<and> a ! 2 = b ! 2 \<and> a ! 3 = b ! 3"

definition ip_is_any :: "ip_addr \<Rightarrow> bool" where
  "ip_is_any a \<longleftrightarrow> a ! 0 = 0 \<and> a ! 1 = 0 \<and> a ! 2 = 0 \<and> a ! 3 = 0"

definition ip_is_bcast :: "ip_addr \<Rightarrow> bool" where
  "ip_is_bcast a \<longleftrightarrow> a ! 0 = 0xFF \<and> a ! 1 = 0xFF \<and> a ! 2 = 0xFF \<and> a ! 3 = 0xFF"

definition ETH_TYPE_IP :: nat where "ETH_TYPE_IP = 0x0800"
definition ETH_TYPE_ARP :: nat where "ETH_TYPE_ARP = 0x0806"
definition IP_PROTO_ICMP :: nat where "IP_PROTO_ICMP = 1"
definition IP_PROTO_UDP :: nat where "IP_PROTO_UDP = 17"
definition ARP_CACHE_SIZE :: nat where "ARP_CACHE_SIZE = 16"
definition MAX_UDP_HANDLERS :: nat where "MAX_UDP_HANDLERS = 8"
definition ICMP_PING_ID :: nat where "ICMP_PING_ID = 0x5A5A"
definition ICMP_DATA_LEN :: nat where "ICMP_DATA_LEN = 32"

definition mac_bcast :: mac_addr where "mac_bcast = replicate 6 0xFF"

section \<open>State\<close>

record arp_entry =
  ae_ip :: ip_addr
  ae_mac :: mac_addr
  ae_valid :: bool

text \<open>The callbacks that the kernel registers for UDP ports.\<close>

datatype udp_fn = Dhcp_recv

record udp_reg =
  ur_port :: nat
  ur_fn :: "udp_fn option"
  ur_used :: bool

record net =
  net_mac :: mac_addr
  net_ip :: ip_addr
  net_mask :: ip_addr
  net_gw :: ip_addr
  net_up :: bool
  arp_cache :: "arp_entry list"
  arp_cache_next :: nat
  eth_rx_frame :: "u8 list"
  icmp_reply :: "u8 list"
  icmp_pkt :: "u8 list"
  udp_tx :: "u8 list"
  ping_waiting :: bool
  ping_got :: bool
  ping_seq_cur :: nat
  ping_seq :: nat
  handlers :: "udp_reg list"
  dhcp_got_offer :: bool
  dhcp_got_ack :: bool
  dhcp_offered_ip :: ip_addr
  dhcp_server_ip :: ip_addr
  dhcp_offered_mask :: ip_addr
  dhcp_offered_gw :: ip_addr
  n_tick :: nat
  n_turns :: "nat \<Rightarrow> nat \<times> u8 list option"
  n_turn :: nat
  n_sent :: "u8 list list"

text \<open>A pointer to an address: a variable of the caller, or four bytes of the receive buffer.\<close>

datatype ip_ref = At ip_addr | In_rx nat

fun deref :: "net \<Rightarrow> ip_ref \<Rightarrow> ip_addr" where
  "deref s (At ip) = ip"
| "deref s (In_rx i) = take 4 (drop i (eth_rx_frame s))"

text \<open>The static buffers that outgoing payloads sit in.\<close>

datatype tx_buf = Buf_reply | Buf_ping | Buf_udp

fun tx_data :: "net \<Rightarrow> tx_buf \<Rightarrow> u8 list" where
  "tx_data s Buf_reply = icmp_reply s"
| "tx_data s Buf_ping = icmp_pkt s"
| "tx_data s Buf_udp = udp_tx s"

section \<open>Ethernet output\<close>

definition eth_send :: "mac_addr \<Rightarrow> nat \<Rightarrow> u8 list \<Rightarrow> net \<Rightarrow> net" where
  "eth_send dst etype payload s =
     (if length payload > 1500 then s
      else s\<lparr>n_sent := n_sent s @ [dst @ net_mac s @ [of_nat (etype div 256), of_nat etype] @ payload]\<rparr>)"

section \<open>ARP\<close>

fun lookup_entries :: "ip_addr \<Rightarrow> arp_entry list \<Rightarrow> mac_addr option" where
  "lookup_entries ip [] = None"
| "lookup_entries ip (e # es) = (if ae_valid e \<and> ip_eq (ae_ip e) ip then Some (ae_mac e) else lookup_entries ip es)"

definition arp_lookup :: "ip_addr \<Rightarrow> net \<Rightarrow> mac_addr option" where
  "arp_lookup ip s = lookup_entries ip (arp_cache s)"

fun update_entries :: "ip_addr \<Rightarrow> mac_addr \<Rightarrow> arp_entry list \<Rightarrow> arp_entry list option" where
  "update_entries ip mac [] = None"
| "update_entries ip mac (e # es) =
     (if ae_valid e \<and> ip_eq (ae_ip e) ip then Some (e\<lparr>ae_mac := mac\<rparr> # es)
      else map_option (\<lambda>es. e # es) (update_entries ip mac es))"

definition arp_insert :: "ip_addr \<Rightarrow> mac_addr \<Rightarrow> net \<Rightarrow> net" where
  "arp_insert ip mac s =
     (case update_entries ip mac (arp_cache s) of
        Some es \<Rightarrow> s\<lparr>arp_cache := es\<rparr>
      | None \<Rightarrow> s\<lparr>arp_cache := (arp_cache s)[arp_cache_next s := \<lparr>ae_ip = ip, ae_mac = mac, ae_valid = True\<rparr>],
                  arp_cache_next := (arp_cache_next s + 1) mod ARP_CACHE_SIZE\<rparr>)"

text \<open>The 28 bytes of an ARP packet.\<close>

definition arp_pkt :: "nat \<Rightarrow> mac_addr \<Rightarrow> ip_addr \<Rightarrow> mac_addr \<Rightarrow> ip_addr \<Rightarrow> u8 list" where
  "arp_pkt opcode sender_mac sender_ip target_mac target_ip =
     set_be16 (set_be16 (set_be16 (replicate 4 0 @ [6, 4] @ replicate 2 0 @ sender_mac @ sender_ip @ target_mac @ target_ip)
       0 1) 2 0x0800) 6 opcode"

definition arp_send_request :: "ip_addr \<Rightarrow> net \<Rightarrow> net" where
  "arp_send_request target_ip s =
     eth_send mac_bcast ETH_TYPE_ARP (arp_pkt 1 (net_mac s) (net_ip s) (replicate 6 0) target_ip) s"

definition arp_handle :: "u8 list \<Rightarrow> nat \<Rightarrow> net \<Rightarrow> net" where
  "arp_handle payload len s =
     (if len < 28 then s
      else if get_be16 payload 0 \<noteq> 1 then s
      else if get_be16 payload 2 \<noteq> 0x0800 then s
      else
        let sender_mac = take 6 (drop 8 payload); sender_ip = take 4 (drop 14 payload);
            target_ip = take 4 (drop 24 payload);
            s = arp_insert sender_ip sender_mac s
        in if get_be16 payload 6 = 1 \<and> \<not> ip_is_any (net_ip s) \<and> ip_eq target_ip (net_ip s)
           then eth_send sender_mac ETH_TYPE_ARP (arp_pkt 2 (net_mac s) (net_ip s) sender_mac sender_ip) s
           else s)"

section \<open>IPv4\<close>

text \<open>The 32-bit sum of the native words, the last odd byte alone.\<close>

fun ck_sum :: "u8 list \<Rightarrow> nat" where
  "ck_sum [] = 0"
| "ck_sum [a] = unat a"
| "ck_sum (a # b # xs) = (unat a + 256 * unat b + ck_sum xs) mod 2 ^ 32"

function ck_fold :: "nat \<Rightarrow> nat" where
  "ck_fold x = (if x div 65536 \<noteq> 0 then ck_fold (x mod 65536 + x div 65536) else x)"
  by pat_completeness auto
termination
proof (relation "measure id")
  fix x :: nat assume "x div 65536 \<noteq> 0"
  moreover have "x div 65536 * 65536 + x mod 65536 = x" by (rule div_mult_mod_eq)
  ultimately have "x mod 65536 + x div 65536 < x" by linarith
  then show "(x mod 65536 + x div 65536, x) \<in> measure id" by simp
qed simp

declare ck_fold.simps [simp del]

definition ip_checksum :: "u8 list \<Rightarrow> nat" where
  "ip_checksum data = 0xFFFF - ck_fold (ck_sum data)"

text \<open>The 20-byte header with the checksum field \<open>ck\<close> as stored.\<close>

definition ip_hdr :: "nat \<Rightarrow> nat \<Rightarrow> ip_addr \<Rightarrow> ip_addr \<Rightarrow> nat \<Rightarrow> u8 list" where
  "ip_hdr plen proto src dst ck =
     put_le16 (set_be16 (set_be16 ([0x45] @ replicate 7 0 @ [64, of_nat proto, 0, 0] @ src @ dst) 2 (20 + plen)) 6 0x4000) 10 ck"

text \<open>\<open>resolve\<close> is the address resolution, defined below.\<close>

type_synonym resolver = "ip_ref \<Rightarrow> net \<Rightarrow> (mac_addr option \<times> net) option"

definition on_subnet :: "ip_addr \<Rightarrow> net \<Rightarrow> bool" where
  "on_subnet dst s \<longleftrightarrow> (\<forall>i \<in> set [0..<4]. dst ! i AND net_mask s ! i = net_ip s ! i AND net_mask s ! i)"

definition ip_output :: "mac_addr \<Rightarrow> ip_ref \<Rightarrow> nat \<Rightarrow> tx_buf \<Rightarrow> nat \<Rightarrow> net \<Rightarrow> net" where
  "ip_output dst_mac dst proto payload plen s =
     (let ip = deref s dst;
          hdr = ip_hdr plen proto (net_ip s) ip (ip_checksum (ip_hdr plen proto (net_ip s) ip 0))
      in eth_send dst_mac ETH_TYPE_IP (hdr @ take plen (tx_data s payload)) s)"

definition ip_send :: "resolver \<Rightarrow> ip_ref \<Rightarrow> nat \<Rightarrow> tx_buf \<Rightarrow> nat \<Rightarrow> net \<Rightarrow> net option" where
  "ip_send resolve dst proto payload plen s =
     (if plen > 1480 then Some s
      else if ip_is_bcast (deref s dst) then Some (ip_output mac_bcast dst proto payload plen s)
      else if ip_is_any (net_ip s) then Some s
      else do {
        (r, s) \<leftarrow> resolve (if on_subnet (deref s dst) s then dst else At (net_gw s)) s;
        Some (case r of None \<Rightarrow> s | Some dst_mac \<Rightarrow> ip_output dst_mac dst proto payload plen s)
      })"

section \<open>ICMP\<close>

text \<open>\<open>at\<close> is where the payload starts in the receive buffer.\<close>

definition icmp_handle :: "resolver \<Rightarrow> ip_ref \<Rightarrow> nat \<Rightarrow> nat \<Rightarrow> net \<Rightarrow> net option" where
  "icmp_handle resolve src_ip at len s =
     (let payload = drop at (eth_rx_frame s) in
      if len < 8 then Some s
      else if byte_at payload 0 = 0 then
        let i = unat (byte_at payload 4) * 256 + unat (byte_at payload 5);
            seq = unat (byte_at payload 6) * 256 + unat (byte_at payload 7)
        in Some (if ping_waiting s \<and> i = ICMP_PING_ID \<and> seq = ping_seq_cur s then s\<lparr>ping_got := True\<rparr> else s)
      else if byte_at payload 0 = 8 then
        if len > 1480 then Some s
        else
          let reply = put_bytes (icmp_reply s) 0 (take len payload);
              reply = reply[0 := 0, 2 := 0, 3 := 0];
              cs = ip_checksum (take len reply);
              reply = reply[2 := of_nat cs, 3 := of_nat (cs div 256)]
          in ip_send resolve src_ip IP_PROTO_ICMP Buf_reply len (s\<lparr>icmp_reply := reply\<rparr>)
      else Some s)"

section \<open>UDP\<close>

fun reg_same :: "nat \<Rightarrow> udp_fn \<Rightarrow> udp_reg list \<Rightarrow> udp_reg list option" where
  "reg_same port fn [] = None"
| "reg_same port fn (r # rs) =
     (if ur_used r \<and> ur_port r = port then Some (r\<lparr>ur_fn := Some fn\<rparr> # rs)
      else map_option (\<lambda>rs. r # rs) (reg_same port fn rs))"

fun reg_free :: "nat \<Rightarrow> udp_fn \<Rightarrow> udp_reg list \<Rightarrow> udp_reg list" where
  "reg_free port fn [] = []"
| "reg_free port fn (r # rs) =
     (if \<not> ur_used r then \<lparr>ur_port = port, ur_fn = Some fn, ur_used = True\<rparr> # rs else r # reg_free port fn rs)"

definition udp_register :: "nat \<Rightarrow> udp_fn \<Rightarrow> net \<Rightarrow> net" where
  "udp_register port fn s =
     s\<lparr>handlers := (case reg_same port fn (handlers s) of Some rs \<Rightarrow> rs | None \<Rightarrow> reg_free port fn (handlers s))\<rparr>"

definition udp_send :: "resolver \<Rightarrow> ip_ref \<Rightarrow> nat \<Rightarrow> nat \<Rightarrow> u8 list \<Rightarrow> net \<Rightarrow> net option" where
  "udp_send resolve dst_ip src_port dst_port data s =
     (let dlen = length data in
      if dlen > 1472 then Some s
      else
        let hdr = set_be16 (set_be16 (set_be16 (replicate 8 0) 0 src_port) 2 dst_port) 4 (8 + dlen)
        in ip_send resolve dst_ip IP_PROTO_UDP Buf_udp (8 + dlen) (s\<lparr>udp_tx := put_bytes (udp_tx s) 0 (hdr @ data)\<rparr>))"

section \<open>DHCP\<close>

definition DHCP_XID :: nat where "DHCP_XID = 0xABCD1234"
definition DHCP_PORT_C :: nat where "DHCP_PORT_C = 68"
definition DHCP_PORT_S :: nat where "DHCP_PORT_S = 67"
definition DHCPDISCOVER :: u8 where "DHCPDISCOVER = 1"
definition DHCPOFFER :: u8 where "DHCPOFFER = 2"
definition DHCPREQUEST :: u8 where "DHCPREQUEST = 3"
definition DHCPACK :: u8 where "DHCPACK = 5"

text \<open>\<open>opts\<close> starts at the options field and goes on to the end of the receive buffer: an option at the very end
  of the field is read past it.\<close>

function option_type_from :: "u8 list \<Rightarrow> nat \<Rightarrow> nat \<Rightarrow> u8" where
  "option_type_from opts olen i =
     (if i < olen \<and> byte_at opts i \<noteq> 0xFF then
        if byte_at opts i = 0 then option_type_from opts olen (i + 1)
        else if byte_at opts i = 53 \<and> byte_at opts (i + 1) = 1 then byte_at opts (i + 2)
        else option_type_from opts olen (i + 2 + unat (byte_at opts (i + 1)))
      else 0)"
  by pat_completeness auto
termination
  by (relation "measure (\<lambda>(opts, olen, i). olen - i)") auto

declare option_type_from.simps [simp del]

definition dhcp_option_type :: "u8 list \<Rightarrow> nat \<Rightarrow> u8" where
  "dhcp_option_type opts olen = option_type_from opts olen 4"

function parse_options_from :: "u8 list \<Rightarrow> nat \<Rightarrow> nat \<Rightarrow> net \<Rightarrow> net" where
  "parse_options_from opts olen i s =
     (if i < olen \<and> byte_at opts i \<noteq> 0xFF then
        if byte_at opts i = 0 then parse_options_from opts olen (i + 1) s
        else
          let code = byte_at opts i; len = byte_at opts (i + 1); val = take 4 (drop (i + 2) opts);
              s = (if code = 1 \<and> len = 4 then s\<lparr>dhcp_offered_mask := val\<rparr> else s);
              s = (if code = 3 \<and> len \<ge> 4 then s\<lparr>dhcp_offered_gw := val\<rparr> else s);
              s = (if code = 54 \<and> len = 4 then s\<lparr>dhcp_server_ip := val\<rparr> else s)
          in parse_options_from opts olen (i + 2 + unat len) s
      else s)"
  by pat_completeness auto
termination
  by (relation "measure (\<lambda>(opts, olen, i, s). olen - i)") auto

declare parse_options_from.simps [simp del]

definition dhcp_parse_options :: "u8 list \<Rightarrow> nat \<Rightarrow> net \<Rightarrow> net" where
  "dhcp_parse_options opts olen s = parse_options_from opts olen 4 s"

definition dhcp_recv :: "u8 list \<Rightarrow> nat \<Rightarrow> net \<Rightarrow> net" where
  "dhcp_recv data len s =
     (if len < 548 then s
      else if get_be32 data 4 \<noteq> DHCP_XID then s
      else if byte_at data 0 \<noteq> 2 then s
      else
        let opts = drop 236 data in
        if byte_at opts 0 \<noteq> 0x63 \<or> byte_at opts 1 \<noteq> 0x82 \<or> byte_at opts 2 \<noteq> 0x53 \<or> byte_at opts 3 \<noteq> 0x63 then s
        else
          let mtype = dhcp_option_type opts 312; s = dhcp_parse_options opts 312 s; yiaddr = take 4 (drop 16 data) in
          if mtype = DHCPOFFER then s\<lparr>dhcp_offered_ip := yiaddr, dhcp_got_offer := True\<rparr>
          else if mtype = DHCPACK then s\<lparr>dhcp_offered_ip := yiaddr, dhcp_got_ack := True\<rparr>
          else s)"

text \<open>The options of an outgoing message and the whole of its 548 bytes.\<close>

definition dhcp_options :: "u8 \<Rightarrow> net \<Rightarrow> u8 list" where
  "dhcp_options msg_type s =
     [0x63, 0x82, 0x53, 0x63] @ [53, 1, msg_type] @
     (if msg_type = DHCPDISCOVER then [55, 3, 1, 3, 6] @ [61, 7, 1] @ net_mac s
      else if msg_type = DHCPREQUEST then [50, 4] @ dhcp_offered_ip s @ [54, 4] @ dhcp_server_ip s
      else []) @ [0xFF]"

definition dhcp_message :: "u8 \<Rightarrow> net \<Rightarrow> u8 list" where
  "dhcp_message msg_type s =
     put_bytes (put_bytes (set_be16 (set_be32 (put_bytes (replicate 548 0) 0 [1, 1, 6]) 4 DHCP_XID) 10 0x8000)
       28 (net_mac s)) 236 (dhcp_options msg_type s)"

definition dhcp_send :: "resolver \<Rightarrow> u8 \<Rightarrow> net \<Rightarrow> net option" where
  "dhcp_send resolve msg_type s =
     udp_send resolve (At [255, 255, 255, 255]) DHCP_PORT_C DHCP_PORT_S (dhcp_message msg_type s) s"

section \<open>Input\<close>

fun dispatch :: "nat \<Rightarrow> udp_reg list \<Rightarrow> udp_fn option" where
  "dispatch port [] = None"
| "dispatch port (r # rs) = (if ur_used r \<and> ur_port r = port \<and> ur_fn r \<noteq> None then ur_fn r else dispatch port rs)"

definition udp_handle :: "nat \<Rightarrow> nat \<Rightarrow> net \<Rightarrow> net" where
  "udp_handle at len s =
     (let payload = drop at (eth_rx_frame s) in
      if len < 8 then s
      else
        let dst_port = get_be16 payload 2; ulen = get_be16 payload 4 in
        if ulen < 8 then s
        else
          let dlen = ulen - 8; dlen = (if dlen > (len - 8) mod 2 ^ 16 then (len - 8) mod 2 ^ 16 else dlen) in
          case dispatch dst_port (handlers s) of
            None \<Rightarrow> s
          | Some Dhcp_recv \<Rightarrow> dhcp_recv (drop 8 payload) dlen s)"

definition ip_recv :: "resolver \<Rightarrow> nat \<Rightarrow> nat \<Rightarrow> net \<Rightarrow> net option" where
  "ip_recv resolve at len s =
     (let payload = drop at (eth_rx_frame s) in
      if len < 20 then Some s
      else if unat (drop_bit 4 (byte_at payload 0)) \<noteq> 4 then Some s
      else
        let ihl = unat (byte_at payload 0 AND 0xF) * 4 in
        if ihl < 20 \<or> ihl > len then Some s
        else
          let dst = take 4 (drop 16 payload) in
          if \<not> ip_eq dst (net_ip s) \<and> \<not> ip_is_bcast dst then Some s
          else
            let total_len = get_be16 payload 2;
                dlen = (if total_len < ihl \<or> total_len - ihl > len - ihl then len - ihl else total_len - ihl);
                proto = unat (byte_at payload 9)
            in if proto = IP_PROTO_ICMP then icmp_handle resolve (In_rx (at + 12)) (at + ihl) dlen s
               else if proto = IP_PROTO_UDP then Some (udp_handle (at + ihl) dlen s)
               else Some s)"

text \<open>One poll with the pending frame; the card truncates to the buffer.\<close>

definition net_poll_frame :: "resolver \<Rightarrow> u8 list option \<Rightarrow> net \<Rightarrow> net option" where
  "net_poll_frame resolve frame s =
     (case frame of
        None \<Rightarrow> Some s
      | Some fr \<Rightarrow>
          let data = take 1518 fr; len = length data;
              s = s\<lparr>eth_rx_frame := put_bytes (eth_rx_frame s) 0 data\<rparr>
          in if len < 14 then Some s
             else
               let dst = take 6 (eth_rx_frame s) in
               if \<not> mac_eq dst (net_mac s) \<and> \<not> mac_eq dst mac_bcast then Some s
               else
                 let etype = unat (byte_at (eth_rx_frame s) 12) * 256 + unat (byte_at (eth_rx_frame s) 13) in
                 if etype = ETH_TYPE_ARP then Some (arp_handle (drop 14 (eth_rx_frame s)) (len - 14) s)
                 else if etype = ETH_TYPE_IP then ip_recv resolve 14 (len - 14) s
                 else Some s)"

text \<open>The test \<open>get_tick() < deadline\<close> of a polling loop: the frame that the poll of this iteration finds, or \<open>None\<close> when the
  deadline has passed.\<close>

definition next_turn :: "nat \<Rightarrow> net \<Rightarrow> u8 list option option \<times> net" where
  "next_turn deadline s =
     (let (t, fr) = n_turns s (n_turn s); s = s\<lparr>n_tick := t\<rparr>
      in if t < deadline then (Some fr, s\<lparr>n_turn := n_turn s + 1\<rparr>) else (None, s))"

definition resolve_with :: "(ip_ref \<Rightarrow> nat \<Rightarrow> net \<Rightarrow> (mac_addr option \<times> net) option) \<Rightarrow> resolver" where
  "resolve_with wait ip s =
     (case arp_lookup (deref s ip) s of
        Some mac \<Rightarrow> Some (Some mac, s)
      | None \<Rightarrow> let s = arp_send_request (deref s ip) s in wait ip (n_tick s + 1000) s)"

fun arp_wait :: "nat \<Rightarrow> ip_ref \<Rightarrow> nat \<Rightarrow> net \<Rightarrow> (mac_addr option \<times> net) option" where
  "arp_wait 0 ip deadline s = None"
| "arp_wait (Suc n) ip deadline s =
     (case next_turn deadline s of
        (None, s) \<Rightarrow> Some (None, s)
      | (Some fr, s) \<Rightarrow>
          do {
            s \<leftarrow> net_poll_frame (resolve_with (arp_wait n)) fr s;
            (case arp_lookup (deref s ip) s of
               Some mac \<Rightarrow> Some (Some mac, s)
             | None \<Rightarrow> arp_wait n ip deadline s)
          })"

definition arp_resolve :: "nat \<Rightarrow> resolver" where
  "arp_resolve n = resolve_with (arp_wait n)"

definition net_poll :: "nat \<Rightarrow> u8 list option \<Rightarrow> net \<Rightarrow> net option" where
  "net_poll n = net_poll_frame (arp_resolve n)"

section \<open>Clients\<close>

text \<open>Polling until a flag is set: whether it was, before the deadline.\<close>

fun poll_until :: "nat \<Rightarrow> (net \<Rightarrow> bool) \<Rightarrow> nat \<Rightarrow> net \<Rightarrow> (bool \<times> net) option" where
  "poll_until 0 flag deadline s = None"
| "poll_until (Suc n) flag deadline s =
     (case next_turn deadline s of
        (None, s) \<Rightarrow> Some (False, s)
      | (Some fr, s) \<Rightarrow>
          do {
            s \<leftarrow> net_poll n fr s;
            if flag s then Some (True, s) else poll_until n flag deadline s
          })"

definition ping_data :: "nat \<Rightarrow> u8 list" where
  "ping_data seq =
     [8, 0, 0, 0, of_nat (ICMP_PING_ID div 256), of_nat ICMP_PING_ID, of_nat (seq div 256), of_nat seq] @
     map (\<lambda>i. of_nat (65 + i mod 26)) [0..<ICMP_DATA_LEN]"

definition icmp_ping :: "nat \<Rightarrow> ip_addr \<Rightarrow> nat \<Rightarrow> net \<Rightarrow> (int \<times> net) option" where
  "icmp_ping n dst timeout_ms s =
     (let seq = (ping_seq s + 1) mod 2 ^ 16;
          pkt = ping_data seq; cs = ip_checksum pkt;
          pkt = pkt[2 := of_nat cs, 3 := of_nat (cs div 256)];
          t0 = n_tick s;
          s = s\<lparr>ping_seq := seq, ping_seq_cur := seq, icmp_pkt := pkt, ping_got := False, ping_waiting := True\<rparr>
      in do {
           s \<leftarrow> ip_send (arp_resolve n) (At dst) IP_PROTO_ICMP Buf_ping (8 + ICMP_DATA_LEN) s;
           (got, s) \<leftarrow> poll_until n ping_got (t0 + timeout_ms) s;
           Some (if got then int32 (n_tick s - t0) else - 1, s\<lparr>ping_waiting := False\<rparr>)
         })"

definition dhcp_discover :: "nat \<Rightarrow> net \<Rightarrow> (int \<times> net) option" where
  "dhcp_discover n s =
     (let s = (udp_register DHCP_PORT_C Dhcp_recv s)\<lparr>dhcp_got_offer := False, dhcp_got_ack := False\<rparr> in
      do {
        s \<leftarrow> dhcp_send (arp_resolve n) DHCPDISCOVER s;
        (_, s) \<leftarrow> poll_until n dhcp_got_offer (n_tick s + 3000) s;
        if \<not> dhcp_got_offer s then Some (- 1, s)
        else do {
          s \<leftarrow> dhcp_send (arp_resolve n) DHCPREQUEST s;
          (_, s) \<leftarrow> poll_until n dhcp_got_ack (n_tick s + 3000) s;
          if \<not> dhcp_got_ack s then Some (- 1, s)
          else Some (0, s\<lparr>net_ip := dhcp_offered_ip s, net_mask := dhcp_offered_mask s, net_gw := dhcp_offered_gw s\<rparr>)
        }
      })"

text \<open>\<open>e1000_init\<close> is the result of bringing up the card.\<close>

definition net_init :: "nat \<Rightarrow> int \<Rightarrow> net \<Rightarrow> net option" where
  "net_init n e1000_init s =
     (if e1000_init \<noteq> 0 then Some s
      else map_option (\<lambda>(rc, s). if rc = 0 then s\<lparr>net_up := True\<rparr> else s) (dhcp_discover n s))"

section \<open>Address notation\<close>

text \<open>\<open>out\<close> are the bytes stored so far; the result carries them also on failure.\<close>

fun parse_ip_from :: "u8 list \<Rightarrow> nat \<Rightarrow> u8 list \<Rightarrow> int \<times> u8 list" where
  "parse_ip_from [] octet out = (if length out \<noteq> 3 then (- 1, out) else (0, out @ [of_nat octet]))"
| "parse_ip_from (c # cs) octet out =
     (if c = 0 then (if length out \<noteq> 3 then (- 1, out) else (0, out @ [of_nat octet]))
      else if c \<ge> 0x30 \<and> c \<le> 0x39 then
        let octet = octet * 10 + (unat c - 0x30) in if octet > 255 then (- 1, out) else parse_ip_from cs octet out
      else if c = 0x2E \<and> length out < 3 then parse_ip_from cs 0 (out @ [of_nat octet])
      else (if length out \<noteq> 3 then (- 1, out) else (0, out @ [of_nat octet])))"

definition net_parse_ip :: "u8 list \<Rightarrow> int \<times> u8 list" where
  "net_parse_ip str = parse_ip_from str 0 []"

end
