(* ===== verification/Net_Props.thy ===== *)
theory Net_Props
  imports Net
begin

text \<open>
  What the network stack promises: headers and echo replies carry checksums that verify, an echo request from a
  known peer is answered with its own data, the ARP cache never returns a stale address, every polling loop
  returns once the line falls quiet (and a flood of echo requests keeps one from returning), DHCP options and dotted addresses are read back as written.
\<close>

section \<open>Network byte order\<close>

lemma unat_htons: "unat (htons v) = unat v div 256 + 256 * (unat v mod 256)"
proof -
  have disj: "drop_bit 8 v + push_bit 8 v = drop_bit 8 v OR push_bit 8 v"
  proof (rule disjunctive_add)
    fix n show "\<not> bit (drop_bit 8 v) n \<or> \<not> bit (push_bit 8 v) n"
      by (auto simp: bit_drop_bit_eq bit_push_bit_iff dest: bit_imp_le_length)
  qed
  have u: "unat v < 65536" using unsigned_less [of v] by simp
  have a: "unat (drop_bit 8 v) = unat v div 256"
    by (simp only: unsigned_drop_bit_eq drop_bit_eq_div [where 'a = nat]) (use u in \<open>simp add: take_bit_nat_eq_self\<close>)
  have "unat (push_bit 8 v) = unat v * 256 mod 65536"
    by (simp add: push_bit_eq_mult unat_word_ariths)
  also have "\<dots> = 256 * (unat v mod 256)" using mult_mod_right [of 256 "unat v" 256] by (simp add: mult.commute)
  finally have b: "unat (push_bit 8 v) = 256 * (unat v mod 256)" .
  have "unat v div 256 < 256" using u by (simp add: less_mult_imp_div_less)
  moreover have "unat v mod 256 < 256" by simp
  ultimately have "unat v div 256 + 256 * (unat v mod 256) < 65536" by linarith
  then show ?thesis unfolding htons_def disj [symmetric] unat_word_ariths a b by simp
qed

lemma unat_u8_less: "unat (b :: u8) < 256"
  using unsigned_less [of b] by simp

lemma get_be16_eq: "get_be16 p i = unat (byte_at p i) * 256 + unat (byte_at p (i + 1))"
proof -
  have "unat (of_nat (le16 p i) :: 16 word) = le16 p i"
    using le16_bound [of p i] by (simp add: unsigned_of_nat take_bit_nat_eq_self)
  moreover have "le16 p i div 256 = unat (byte_at p (i + 1))" "le16 p i mod 256 = unat (byte_at p i)"
    using unat_u8_less [of "byte_at p i"] by (simp_all add: le16_def)
  ultimately show ?thesis by (simp add: get_be16_def ntohs_def unat_htons)
qed

lemma of_nat_mod_u8: "(of_nat a :: u8) = of_nat b \<longleftrightarrow> a mod 256 = b mod 256"
  by (simp only: word_unat_eq_iff unsigned_of_nat take_bit_eq_mod) simp

lemma set_be16_eq: "set_be16 p i v = p[i := of_nat (v div 256), i + 1 := of_nat v]"
proof -
  let ?v = "unat (of_nat v :: 16 word)"
  have v: "?v = v mod 65536" by (simp add: unsigned_of_nat take_bit_eq_mod)
  have lo: "(of_nat (v mod 65536 div 256 + 256 * (v mod 65536 mod 256)) :: u8) = of_nat (v div 256)"
  proof -
    have "v mod 65536 div 256 = v div 256 mod 256" using div_mult2_eq [of v 256 256] mod_mult2_eq [of v 256 256] by simp
    then show ?thesis by (simp only: of_nat_mod_u8 mod_mult_self1) simp
  qed
  have hi: "(of_nat ((v mod 65536 div 256 + 256 * (v mod 65536 mod 256)) div 256) :: u8) = of_nat v"
  proof -
    have "v mod 65536 div 256 < 256" by (simp add: less_mult_imp_div_less)
    then have "(v mod 65536 div 256 + 256 * (v mod 65536 mod 256)) div 256 = v mod 256" by (simp add: mod_mod_cancel)
    then show ?thesis by (simp only: of_nat_mod_u8) simp
  qed
  show ?thesis unfolding set_be16_def put_le16_def unat_htons v using lo hi by simp
qed

section \<open>The checksum\<close>

fun word_sum :: "u8 list \<Rightarrow> nat" where
  "word_sum [] = 0"
| "word_sum [a] = unat a"
| "word_sum (a # b # xs) = unat a + 256 * unat b + word_sum xs"

lemma word_sum_bound: "word_sum xs \<le> 65535 * length xs"
proof (induction xs rule: word_sum.induct)
  case (2 a)
  then show ?case using unat_u8_less [of a] by simp
next
  case (3 a b xs)
  then show ?case using unat_u8_less [of a] unat_u8_less [of b] by simp
qed simp

lemma ck_sum_eq: "length xs \<le> 65536 \<Longrightarrow> ck_sum xs = word_sum xs"
proof (induction xs rule: ck_sum.induct)
  case (3 a b xs)
  have "word_sum (a # b # xs) < 2 ^ 32"
  proof -
    have "word_sum (a # b # xs) \<le> 65535 * length (a # b # xs)" by (rule word_sum_bound)
    also have "\<dots> \<le> 65535 * 65536" using 3 by (intro mult_le_mono2) simp
    finally show ?thesis by simp
  qed
  then show ?case using 3 by simp
qed simp_all

lemma fold_props: "ck_fold x < 65536" "ck_fold x mod 65535 = x mod 65535" "0 < x \<Longrightarrow> 0 < ck_fold x"
proof (induction x rule: ck_fold.induct)
  case (1 x)
  {
    case 1 then show ?case using "1.IH"(1) by (subst ck_fold.simps) auto
  next
    case 2
    show ?case
    proof (cases "x div 65536 = 0")
      case True
      then show ?thesis by (subst ck_fold.simps) simp
    next
      case False
      have "(x div 65536 * 65536 + x mod 65536) mod 65535 = (x div 65536 + x mod 65536) mod 65535"
      proof -
        have "x div 65536 * 65536 = x div 65536 * 65535 + x div 65536" by simp
        then show ?thesis by (simp only: add.assoc mod_mult_self3)
      qed
      then have "(x mod 65536 + x div 65536) mod 65535 = x mod 65535" by (simp add: add.commute)
      then show ?thesis using "1.IH"(2) [OF False] False by (subst ck_fold.simps) simp
    qed
  next
    case 3
    then have "0 < x mod 65536 + x div 65536" by (metis add_gr_0 div_mult_mod_eq gr0I mult_is_0 add_is_0)
    then show ?case using "1.IH"(3) 3 by (subst ck_fold.simps) auto
  }
qed

text \<open>The complement added to the sum makes it verify.\<close>

lemma fold_complement: "ck_fold (x + (65535 - ck_fold x)) = 65535"
proof -
  let ?y = "x + (65535 - ck_fold x)"
  have f: "ck_fold x \<le> 65535" using fold_props(1) [of x] by simp
  have "?y mod 65535 = (ck_fold x + (65535 - ck_fold x)) mod 65535"
    using fold_props(2) [of x] by (metis mod_add_left_eq)
  then have "ck_fold ?y mod 65535 = 0" using f fold_props(2) [of ?y] by simp
  moreover have p: "0 < ck_fold ?y"
  proof (rule fold_props(3))
    have "ck_fold 0 = 0" by (subst ck_fold.simps) simp
    then show "0 < ?y" by (cases "x = 0") simp_all
  qed
  ultimately have "65535 \<le> ck_fold ?y" by (blast intro: dvd_imp_le dvd_eq_mod_eq_0 [THEN iffD2])
  then show ?thesis using fold_props(1) [of ?y] by simp
qed

lemma word_sum_append: "even (length xs) \<Longrightarrow> word_sum (xs @ ys) = word_sum xs + word_sum ys"
  by (induction xs rule: word_sum.induct) auto

lemma list_split2: "k + 2 \<le> length d \<Longrightarrow> d = take k d @ [d ! k, d ! (k + 1)] @ drop (k + 2) d"
  by (metis Cons_nth_drop_Suc Suc_eq_plus1 add_2_eq_Suc' append_Cons append_Nil append_take_drop_id le_imp_less_Suc less_Suc_eq less_le_trans lessI)

text \<open>A word at an even offset contributes its value.\<close>

lemma put_le16_split:
  assumes "k + 2 \<le> length d"
  shows "put_le16 d k c = take k d @ [of_nat c, of_nat (c div 256)] @ drop (k + 2) d"
proof -
  have "length (take k d) = k" using assms by simp
  then show ?thesis unfolding put_le16_def
    by (subst (1) list_split2 [OF assms]) (simp add: list_update_append)
qed

lemma word_sum_put:
  assumes "even k" "k + 2 \<le> length d" "d ! k = 0" "d ! (k + 1) = 0" "c < 65536"
  shows "word_sum (put_le16 d k c) = word_sum d + c"
proof -
  have ev: "even (length (take k d))" using assms(1,2) by simp
  have c: "unat (of_nat c :: u8) + 256 * unat (of_nat (c div 256) :: u8) = c"
    using assms(5) by (simp add: unsigned_of_nat take_bit_eq_mod)
  have "word_sum d = word_sum (take k d) + word_sum (drop (k + 2) d)"
    by (subst list_split2 [OF assms(2)], subst word_sum_append [OF ev]) (use assms(3,4) in simp)
  then show ?thesis unfolding put_le16_split [OF assms(2)] using word_sum_append [OF ev] c by simp
qed

text \<open>A packet whose zero field at an even offset receives the checksum verifies.\<close>

lemma checksum_inserted:
  assumes "even k" "k + 2 \<le> length d" "d ! k = 0" "d ! (k + 1) = 0" "length d \<le> 65536"
  shows "ip_checksum (put_le16 d k (ip_checksum d)) = 0"
proof -
  have "ip_checksum d < 65536" by (simp add: ip_checksum_def)
  then have "word_sum (put_le16 d k (ip_checksum d)) = word_sum d + (65535 - ck_fold (word_sum d))"
    using word_sum_put [OF assms(1-4)] assms(5) by (simp add: ip_checksum_def ck_sum_eq)
  then show ?thesis using assms(5) fold_complement by (simp add: ip_checksum_def ck_sum_eq)
qed

text \<open>RFC 1071, apart from the code: the data as big-endian 16-bit words, an odd last byte filled up with zero, added in
  ones' complement (the carry goes back in at the low end); a packet verifies when the sum has only ones.\<close>

fun be_words :: "u8 list \<Rightarrow> nat list" where
  "be_words [] = []"
| "be_words [a] = [256 * unat a]"
| "be_words (a # b # xs) = (256 * unat a + unat b) # be_words xs"

definition oc_add :: "nat \<Rightarrow> nat \<Rightarrow> nat" where
  "oc_add a b = (if a + b < 65536 then a + b else a + b - 65535)"

definition rfc1071_valid :: "u8 list \<Rightarrow> bool" where
  "rfc1071_valid d \<longleftrightarrow> foldr oc_add (be_words d) 0 = 0xFFFF"

lemma be_words_sum: "sum_list (be_words d) mod 65535 = 256 * word_sum d mod 65535" "sum_list (be_words d) = 0 \<longleftrightarrow> word_sum d = 0"
proof (induction d rule: be_words.induct)
  case (3 a b xs)
  {
    case 1
    have "256 * word_sum (a # b # xs) = 256 * unat a + unat b + 256 * word_sum xs + 65535 * unat b" by simp
    then have "256 * word_sum (a # b # xs) mod 65535 = (256 * unat a + unat b + 256 * word_sum xs) mod 65535" by (simp only: mod_mult_self2)
    also have "\<dots> = (256 * unat a + unat b + sum_list (be_words xs)) mod 65535" using "3"(1) by (metis mod_add_right_eq)
    finally show ?case by simp
  next
    case 2
    then show ?case using "3"(2) by auto
  }
qed auto

lemma be_words_small: "w \<in> set (be_words d) \<Longrightarrow> w < 65536"
proof (induction d rule: be_words.induct)
  case (2 a)
  then show ?case using unat_u8_less [of a] by simp
next
  case (3 a b xs)
  then show ?case using unat_u8_less [of a] unat_u8_less [of b] by auto
qed simp

lemma oc_add_props:
  assumes "a < 65536" "b < 65536"
  shows "oc_add a b < 65536" "oc_add a b = 0 \<longleftrightarrow> a = 0 \<and> b = 0" "oc_add a b mod 65535 = (a + b) mod 65535"
  using assms le_mod_geq [of 65535 "a + b"] by (auto simp: oc_add_def)

lemma oc_sum:
  "\<forall>w \<in> set ws. w < 65536 \<Longrightarrow> foldr oc_add ws 0 mod 65535 = sum_list ws mod 65535 \<and> foldr oc_add ws 0 < 65536 \<and> (foldr oc_add ws 0 = 0 \<longleftrightarrow> sum_list ws = 0)"
proof (induction ws)
  case (Cons w ws)
  let ?x = "foldr oc_add ws 0"
  have IH: "?x mod 65535 = sum_list ws mod 65535" "?x < 65536" "?x = 0 \<longleftrightarrow> sum_list ws = 0" "w < 65536" using Cons by auto
  note o = oc_add_props [OF IH(4,2)]
  have "oc_add w ?x mod 65535 = (w + ?x) mod 65535" by (rule o(3))
  also have "\<dots> = (w + sum_list ws) mod 65535" using IH(1) by (metis mod_add_right_eq)
  finally have "oc_add w ?x mod 65535 = (w + sum_list ws) mod 65535" .
  then show ?case using o(1,2) IH(3) by simp
qed simp

lemma checksum_valid:
  assumes "ip_checksum d = 0" "length d \<le> 65536"
  shows "rfc1071_valid d"
proof -
  have f: "ck_fold (word_sum d) = 65535" using assms fold_props(1) [of "word_sum d"] by (simp add: ip_checksum_def ck_sum_eq)
  have "word_sum d \<noteq> 0"
  proof
    assume "word_sum d = 0"
    then have "ck_fold (word_sum d) = 0" by (subst ck_fold.simps) simp
    with f show False by simp
  qed
  moreover have "word_sum d mod 65535 = 0" using fold_props(2) [of "word_sum d"] f by simp
  then have "256 * word_sum d mod 65535 = 0" by (metis mod_mult_right_eq mult_0_right mod_0)
  ultimately have s: "sum_list (be_words d) mod 65535 = 0" "sum_list (be_words d) \<noteq> 0" using be_words_sum [of d] by simp_all
  let ?x = "foldr oc_add (be_words d) 0"
  have "?x mod 65535 = 0" "?x < 65536" "?x \<noteq> 0" using oc_sum [of "be_words d"] be_words_small s by auto
  then have "65535 \<le> ?x" by (metis mod_less not_le)
  then show ?thesis using \<open>?x < 65536\<close> by (simp add: rfc1071_valid_def)
qed

section \<open>The ARP cache\<close>

text \<open>What a cache with eviction promises: a lookup finds what was just stored, and storing one key never changes
  the value of another, though it may drop it.\<close>

locale lossy_map =
  fixes lookup :: "'k \<Rightarrow> 'm \<Rightarrow> 'v option" and store :: "'k \<Rightarrow> 'v \<Rightarrow> 'm \<Rightarrow> 'm" and inv :: "'m \<Rightarrow> bool" and key :: "'k \<Rightarrow> bool"
  assumes inv_store: "inv m \<Longrightarrow> key k \<Longrightarrow> inv (store k v m)"
    and lookup_same: "inv m \<Longrightarrow> key k \<Longrightarrow> lookup k (store k v m) = Some v"
    and lookup_other: "inv m \<Longrightarrow> key k \<Longrightarrow> key k' \<Longrightarrow> k' \<noteq> k \<Longrightarrow> lookup k' (store k v m) = None \<or> lookup k' (store k v m) = lookup k' m"
begin

text \<open>After any stores, a lookup returns nothing or the value stored last under that key.\<close>

lemma lookup_latest:
  assumes "inv m" "\<forall>(k, v) \<in> set kvs. key k" "key k"
  shows "lookup k (fold (\<lambda>(k, v). store k v) kvs m) \<in>
    {None, case map_of (rev kvs) k of Some v \<Rightarrow> Some v | None \<Rightarrow> lookup k m} \<and> inv (fold (\<lambda>(k, v). store k v) kvs m)"
  using assms(2)
proof (induction kvs rule: rev_induct)
  case Nil
  then show ?case using assms(1) by simp
next
  case (snoc kv kvs)
  obtain k' v' where kv: "kv = (k', v')" by (cases kv)
  let ?m = "fold (\<lambda>(k, v). store k v) kvs m"
  have IH: "lookup k ?m \<in> {None, case map_of (rev kvs) k of Some v \<Rightarrow> Some v | None \<Rightarrow> lookup k m}" "inv ?m" "key k'"
    using snoc kv by auto
  show ?case
  proof (cases "k = k'")
    case True
    then show ?thesis using IH(2,3) kv lookup_same inv_store by simp
  next
    case False
    then show ?thesis using IH kv lookup_other [OF IH(2,3) assms(3) False, of v'] inv_store [OF IH(2,3), of v'] by auto
  qed
qed

end

definition addr4 :: "ip_addr \<Rightarrow> bool" where
  "addr4 ip \<longleftrightarrow> length ip = 4"

lemma ip_eq_eq: "addr4 a \<Longrightarrow> addr4 b \<Longrightarrow> ip_eq a b \<longleftrightarrow> a = b"
  unfolding addr4_def ip_eq_def
  by (auto simp: list_eq_iff_nth_eq numeral_eq_Suc less_Suc_eq)

text \<open>The cache has its size, the eviction index is inside, and no two valid entries hold the same address.\<close>

definition cache_inv :: "net \<Rightarrow> bool" where
  "cache_inv s \<longleftrightarrow> length (arp_cache s) = ARP_CACHE_SIZE \<and> arp_cache_next s < ARP_CACHE_SIZE \<and>
     (\<forall>e \<in> set (arp_cache s). ae_valid e \<longrightarrow> addr4 (ae_ip e)) \<and>
     distinct (map ae_ip (filter ae_valid (arp_cache s)))"

definition entries_ok :: "arp_entry list \<Rightarrow> bool" where
  "entries_ok es \<longleftrightarrow> (\<forall>e \<in> set es. ae_valid e \<longrightarrow> addr4 (ae_ip e)) \<and> distinct (map ae_ip (filter ae_valid es))"

lemma entries_ok_Cons: "entries_ok (e # es) \<Longrightarrow> entries_ok es"
  by (auto simp: entries_ok_def split: if_splits)

lemma entries_ok_distinct: "entries_ok (e # es) \<Longrightarrow> ae_valid e \<Longrightarrow> x \<in> set es \<Longrightarrow> ae_valid x \<Longrightarrow> ae_ip x \<noteq> ae_ip e"
  unfolding entries_ok_def by simp (metis (mono_tags, lifting) image_eqI mem_Collect_eq)

lemma lookup_none: "addr4 ip \<Longrightarrow> entries_ok es \<Longrightarrow> lookup_entries ip es = None \<longleftrightarrow> (\<forall>e \<in> set es. ae_valid e \<longrightarrow> ae_ip e \<noteq> ip)"
proof (induction es)
  case (Cons e es)
  show ?case using Cons.IH [OF Cons.prems(1) entries_ok_Cons [OF Cons.prems(2)]] Cons.prems ip_eq_eq [of "ae_ip e" ip]
    by (auto simp: entries_ok_def)
qed simp

lemma lookup_some:
  assumes "addr4 ip" "entries_ok es" "e \<in> set es" "ae_valid e" "ae_ip e = ip"
  shows "lookup_entries ip es = Some (ae_mac e)"
  using assms
proof (induction es)
  case (Cons x es)
  show ?case
  proof (cases "ae_valid x \<and> ip_eq (ae_ip x) ip")
    case True
    then have "ae_ip x = ip" using Cons.prems(1,2) ip_eq_eq [of "ae_ip x" ip] by (auto simp: entries_ok_def)
    then have "x = e" using Cons.prems(3-5) True entries_ok_distinct [OF Cons.prems(2)] by auto
    then show ?thesis using True by simp
  next
    case False
    then have "x \<noteq> e" using Cons.prems ip_eq_eq by (auto simp: entries_ok_def)
    then show ?thesis using False Cons.IH [OF Cons.prems(1) entries_ok_Cons [OF Cons.prems(2)]] Cons.prems by auto
  qed
qed simp

lemma update_spec:
  assumes "addr4 ip" "entries_ok es"
  shows "case update_entries ip mac es of
      None \<Rightarrow> lookup_entries ip es = None
    | Some es' \<Rightarrow> length es' = length es \<and> map ae_ip (filter ae_valid es') = map ae_ip (filter ae_valid es) \<and>
        lookup_entries ip es' = Some mac \<and> (\<forall>ip'. addr4 ip' \<longrightarrow> ip' \<noteq> ip \<longrightarrow> lookup_entries ip' es' = lookup_entries ip' es)"
  using assms
proof (induction es)
  case (Cons e es)
  have a: "ae_valid e \<Longrightarrow> addr4 (ae_ip e)" using Cons.prems by (simp add: entries_ok_def)
  show ?case
  proof (cases "ae_valid e \<and> ip_eq (ae_ip e) ip")
    case True
    then have "ae_ip e = ip" using a Cons.prems(1) ip_eq_eq by blast
    then show ?thesis using True Cons.prems(1) ip_eq_eq by auto
  next
    case False
    then show ?thesis using Cons.IH [OF Cons.prems(1) entries_ok_Cons [OF Cons.prems(2)]]
      by (auto split: option.splits)
  qed
qed simp

lemma entries_ok_ips: "entries_ok es \<longleftrightarrow> (\<forall>ip \<in> set (map ae_ip (filter ae_valid es)). addr4 ip) \<and> distinct (map ae_ip (filter ae_valid es))"
  by (auto simp: entries_ok_def)

lemma lookup_append: "lookup_entries ip (xs @ ys) = (case lookup_entries ip xs of Some m \<Rightarrow> Some m | None \<Rightarrow> lookup_entries ip ys)"
  by (induction xs) auto

lemma evict_spec:
  assumes ip: "addr4 ip" and ok: "entries_ok es" and none: "lookup_entries ip es = None" and i: "i < length es"
    and new: "new = \<lparr>ae_ip = ip, ae_mac = mac, ae_valid = True\<rparr>"
  shows "entries_ok (es[i := new])" "lookup_entries ip (es[i := new]) = Some mac"
    "addr4 ip' \<Longrightarrow> ip' \<noteq> ip \<Longrightarrow> lookup_entries ip' (es[i := new]) \<in> {None, lookup_entries ip' es}"
proof -
  let ?xs = "take i es" and ?ys = "drop (Suc i) es" and ?e = "es ! i"
  have es: "es = ?xs @ ?e # ?ys" by (rule id_take_nth_drop [OF i])
  have upd: "es[i := new] = ?xs @ new # ?ys" using i by (simp add: upd_conv_take_nth_drop)
  have fresh: "ip \<notin> ae_ip ` {e \<in> set es. ae_valid e}" using none lookup_none [OF ip ok] by auto
  have parts: "entries_ok (?xs @ ?ys)" "entries_ok ?xs" "entries_ok ?ys" "entries_ok (?e # ?ys)"
    using ok by (subst (asm) es; auto simp: entries_ok_def split: if_splits)+
  have "ip \<notin> ae_ip ` {e \<in> set ?xs. ae_valid e}" "ip \<notin> ae_ip ` {e \<in> set ?ys. ae_valid e}"
    using fresh in_set_takeD [of _ i es] in_set_dropD [of _ "Suc i" es] by blast+
  then show "entries_ok (es[i := new])" unfolding upd using parts(1) ip new by (auto simp: entries_ok_def)
  have "lookup_entries ip ?xs = None" using \<open>ip \<notin> ae_ip ` {e \<in> set ?xs. ae_valid e}\<close> lookup_none [OF ip parts(2)] by auto
  then show "lookup_entries ip (es[i := new]) = Some mac" unfolding upd lookup_append using new ip_eq_eq [OF ip ip] by simp
  assume ip': "addr4 ip'" "ip' \<noteq> ip"
  have "lookup_entries ip' ?ys = None" if "ae_valid ?e" "ip_eq (ae_ip ?e) ip'"
  proof -
    have "ae_ip ?e = ip'" using that ip' parts(4) ip_eq_eq by (auto simp: entries_ok_def)
    then show ?thesis using entries_ok_distinct [OF parts(4) that(1)] by (auto simp: lookup_none [OF ip'(1) parts(3)])
  qed
  then show "lookup_entries ip' (es[i := new]) \<in> {None, lookup_entries ip' es}"
    unfolding upd by (subst (2) es) (use new ip_eq_eq [OF ip ip'(1)] ip'(2) in \<open>auto simp: lookup_append split: option.splits\<close>)
qed

lemma cache_inv_entries: "cache_inv s \<longleftrightarrow> length (arp_cache s) = ARP_CACHE_SIZE \<and> arp_cache_next s < ARP_CACHE_SIZE \<and> entries_ok (arp_cache s)"
  by (auto simp: cache_inv_def entries_ok_def)

lemma arp_insert_spec:
  assumes "cache_inv s" "addr4 ip"
  shows "cache_inv (arp_insert ip mac s)" "arp_lookup ip (arp_insert ip mac s) = Some mac"
    "addr4 ip' \<Longrightarrow> ip' \<noteq> ip \<Longrightarrow> arp_lookup ip' (arp_insert ip mac s) \<in> {None, arp_lookup ip' s}"
proof -
  have inv: "length (arp_cache s) = ARP_CACHE_SIZE" "arp_cache_next s < ARP_CACHE_SIZE" "entries_ok (arp_cache s)"
    using assms(1) by (simp_all add: cache_inv_entries)
  note u = update_spec [OF assms(2) inv(3), of mac]
  show "cache_inv (arp_insert ip mac s)"
    using u inv evict_spec(1) [OF assms(2) inv(3) _ _ refl] entries_ok_ips [of "arp_cache s"]
    by (auto simp: cache_inv_entries arp_insert_def ARP_CACHE_SIZE_def entries_ok_ips [THEN iffD2] split: option.splits)
  show "arp_lookup ip (arp_insert ip mac s) = Some mac"
    using u inv evict_spec(2) [OF assms(2) inv(3) _ _ refl] by (auto simp: arp_lookup_def arp_insert_def split: option.splits)
  show "addr4 ip' \<Longrightarrow> ip' \<noteq> ip \<Longrightarrow> arp_lookup ip' (arp_insert ip mac s) \<in> {None, arp_lookup ip' s}"
    using u inv evict_spec(3) [OF assms(2) inv(3) _ _ refl] by (auto simp: arp_lookup_def arp_insert_def split: option.splits)
qed

interpretation arp: lossy_map arp_lookup arp_insert cache_inv addr4
proof
  fix m k' and k :: ip_addr and v
  assume "cache_inv m" "addr4 k"
  then show "cache_inv (arp_insert k v m)" "arp_lookup k (arp_insert k v m) = Some v" by (rule arp_insert_spec)+
  assume "addr4 k'" "k' \<noteq> k"
  then show "arp_lookup k' (arp_insert k v m) = None \<or> arp_lookup k' (arp_insert k v m) = arp_lookup k' m"
    using arp_insert_spec(3) [OF \<open>cache_inv m\<close> \<open>addr4 k\<close>] by blast
qed

text \<open>C24: the ARP cache keeps its invariant (sixteen slots, an eviction index inside, no address twice) over any
  sequence of insertions; a lookup then returns nothing or the hardware address inserted last for that IP address, and
  an address just inserted is found.\<close>

theorem arp_cache_sound:
  assumes "cache_inv s" "\<forall>(k, mac) \<in> set kvs. addr4 k" "addr4 ip"
  defines "t \<equiv> fold (\<lambda>(k, mac). arp_insert k mac) kvs s"
  shows "cache_inv t \<and> arp_lookup ip (arp_insert ip m t) = Some m \<and>
    (arp_lookup ip t = None \<or>
     arp_lookup ip t = (case map_of (rev kvs) ip of Some mac \<Rightarrow> Some mac | None \<Rightarrow> arp_lookup ip s))"
  using arp.lookup_latest [OF assms(1-3)] arp.lookup_same [OF _ assms(3), of t m] unfolding t_def by blast

section \<open>The polling loops return\<close>

text \<open>The clock does not go back; a spell from turn \<open>K\<close> to turn \<open>J\<close> in which no frame arrives and \<open>D\<close> ticks pass.\<close>

definition clock_runs :: "net \<Rightarrow> bool" where
  "clock_runs s \<longleftrightarrow> (\<forall>i j. i \<le> j \<longrightarrow> fst (n_turns s i) \<le> fst (n_turns s j)) \<and> n_tick s \<le> fst (n_turns s (n_turn s))"

definition quiet_spell :: "(nat \<Rightarrow> nat \<times> u8 list option) \<Rightarrow> nat \<Rightarrow> nat \<Rightarrow> nat \<Rightarrow> bool" where
  "quiet_spell T D K J \<longleftrightarrow> K \<le> J \<and> fst (T K) + D \<le> fst (T J) \<and> (\<forall>i. K \<le> i \<longrightarrow> i < J \<longrightarrow> snd (T i) = None)"

text \<open>The environment of a state, and how it changes until a call returns inside the spell.\<close>

definition env :: "net \<Rightarrow> (nat \<Rightarrow> nat \<times> u8 list option) \<times> nat \<times> nat" where
  "env s = (n_turns s, n_turn s, n_tick s)"

definition before :: "(nat \<Rightarrow> nat \<times> u8 list option) \<Rightarrow> nat \<Rightarrow> net \<Rightarrow> bool" where
  "before T J s \<longleftrightarrow> n_turns s = T \<and> n_turn s \<le> J \<and> n_tick s \<le> fst (T (n_turn s))"

lemma before_env: "env s' = env s \<Longrightarrow> before T J s' = before T J s"
  by (simp add: env_def before_def)

text \<open>A resolver that returns when it is called before the spell with at most \<open>m\<close> turns to the end of it.\<close>

definition resolver_ok :: "(nat \<Rightarrow> nat \<times> u8 list option) \<Rightarrow> nat \<Rightarrow> nat \<Rightarrow> nat \<Rightarrow> resolver \<Rightarrow> bool" where
  "resolver_ok T K J m R \<longleftrightarrow> (\<forall>ip s. before T J s \<longrightarrow> n_tick s \<le> fst (T K) \<longrightarrow> J - n_turn s \<le> m \<longrightarrow>
     (\<exists>r s'. R ip s = Some (r, s') \<and> before T J s' \<and> n_turn s \<le> n_turn s'))"

named_theorems env_simps

lemma env_upds [env_simps]: "env (s\<lparr>icmp_reply := a\<rparr>) = env s" "env (s\<lparr>eth_rx_frame := a\<rparr>) = env s" "env (s\<lparr>udp_tx := a\<rparr>) = env s"
  "env (s\<lparr>n_sent := b\<rparr>) = env s" "env (s\<lparr>arp_cache := c\<rparr>) = env s" "env (s\<lparr>arp_cache_next := d\<rparr>) = env s" "env (s\<lparr>handlers := h\<rparr>) = env s"
  "env (s\<lparr>ping_got := e\<rparr>) = env s" "env (s\<lparr>dhcp_got_offer := e\<rparr>) = env s" "env (s\<lparr>dhcp_got_ack := e\<rparr>) = env s" "env (s\<lparr>dhcp_offered_ip := a\<rparr>) = env s"
  "env (s\<lparr>dhcp_offered_mask := a\<rparr>) = env s" "env (s\<lparr>dhcp_offered_gw := a\<rparr>) = env s" "env (s\<lparr>dhcp_server_ip := a\<rparr>) = env s"
  by (simp_all add: env_def)

lemma env_eth [env_simps]: "env (eth_send m t p s) = env s"
  by (simp add: eth_send_def env_simps)

lemma env_arp [env_simps]: "env (arp_insert ip m s) = env s" "env (arp_handle p l s) = env s" "env (arp_send_request ip s) = env s"
  by (auto simp: arp_handle_def arp_send_request_def arp_insert_def env_simps Let_def split: option.splits)

lemma env_ip_output [env_simps]: "env (ip_output m d p b l s) = env s"
  by (simp add: ip_output_def Let_def env_simps)

lemma env_parse_options [env_simps]: "env (parse_options_from opts olen i s) = env s"
  by (induction opts olen i s rule: parse_options_from.induct)
    (subst parse_options_from.simps, simp add: Let_def env_simps)

lemma env_dhcp_recv [env_simps]: "env (dhcp_recv d l s) = env s"
  by (simp add: dhcp_recv_def dhcp_parse_options_def env_simps Let_def)

lemma env_udp [env_simps]: "env (udp_handle i l s) = env s" "env (udp_register p f s) = env s"
  by (auto simp: udp_handle_def udp_register_def env_simps Let_def split: option.splits udp_fn.splits)

text \<open>What a call to a handler gives when the resolver returns.\<close>

definition ends_before :: "(nat \<Rightarrow> nat \<times> u8 list option) \<Rightarrow> nat \<Rightarrow> net \<Rightarrow> net option \<Rightarrow> bool" where
  "ends_before T J s r \<longleftrightarrow> (\<exists>s'. r = Some s' \<and> before T J s' \<and> n_turn s \<le> n_turn s')"

lemma ends_before_same: "before T J s \<Longrightarrow> env s' = env s \<Longrightarrow> ends_before T J s (Some s')"
  by (simp add: ends_before_def before_def env_def)

lemma ends_before_env: "env s' = env s \<Longrightarrow> ends_before T J s' r = ends_before T J s r"
  by (simp add: ends_before_def env_def)

lemma ip_send_returns:
  assumes "resolver_ok T K J m R" "before T J s" "n_tick s \<le> fst (T K)" "J - n_turn s \<le> m"
  shows "ends_before T J s (ip_send R d p b l s)"
proof -
  obtain r s' where r: "R (if on_subnet (deref s d) s then d else At (net_gw s)) s = Some (r, s')" "before T J s'" "n_turn s \<le> n_turn s'"
    using assms unfolding resolver_ok_def by blast
  have o: "before T J (ip_output m' d p b l s')" "n_turn (ip_output m' d p b l s') = n_turn s'" for m'
    using r(2) before_env [OF env_ip_output] env_ip_output [of m' d p b l s'] by (simp_all add: env_def)
  show ?thesis using r o ends_before_same [OF assms(2)]
    by (auto simp: ip_send_def env_simps ends_before_def split: option.splits)
qed

lemma icmp_handle_returns:
  assumes "resolver_ok T K J m R" "before T J s" "n_tick s \<le> fst (T K)" "J - n_turn s \<le> m"
  shows "ends_before T J s (icmp_handle R d i l s)"
proof -
  have "ends_before T J s (ip_send R d IP_PROTO_ICMP Buf_reply l (s\<lparr>icmp_reply := x\<rparr>))" for x
    using ip_send_returns [OF assms(1), of "s\<lparr>icmp_reply := x\<rparr>"] assms(2-4) ends_before_env [of "s\<lparr>icmp_reply := x\<rparr>" s] by (simp add: before_def env_def)
  then show ?thesis using ends_before_same [OF assms(2)] by (simp add: icmp_handle_def Let_def env_simps)
qed

lemma poll_frame_returns:
  assumes "resolver_ok T K J m R" "before T J s" "n_tick s \<le> fst (T K)" "J - n_turn s \<le> m"
  shows "ends_before T J s (net_poll_frame R fr s)"
proof -
  have ipr: "ends_before T J t (ip_recv R i l t)" if "env t = env s" for i l t
  proof -
    have t: "before T J t" "n_tick t \<le> fst (T K)" "J - n_turn t \<le> m" using that assms(2-4) by (simp_all add: before_def env_def)
    show ?thesis using icmp_handle_returns [OF assms(1) t] ends_before_same [OF t(1)] by (simp add: ip_recv_def Let_def env_simps)
  qed
  have "ends_before T J s (ip_recv R i l (s\<lparr>eth_rx_frame := x\<rparr>))" for i l x
    using ipr [of "s\<lparr>eth_rx_frame := x\<rparr>"] by (simp add: env_simps ends_before_env [of "s\<lparr>eth_rx_frame := x\<rparr>" s])
  then show ?thesis using ends_before_same [OF assms(2)] by (simp add: net_poll_frame_def Let_def env_simps split: option.splits)
qed

lemma next_turn_eq:
  "next_turn deadline s = (let t = fst (n_turns s (n_turn s)) in
     if t < deadline then (Some (snd (n_turns s (n_turn s))), s\<lparr>n_tick := t, n_turn := Suc (n_turn s)\<rparr>) else (None, s\<lparr>n_tick := t\<rparr>))"
  by (simp add: next_turn_def Let_def split: prod.split)

text \<open>A turn before the end of the spell: the deadline has passed, or the next turn is not behind it either.\<close>

lemma next_turn_cases:
  assumes "before T J s" "\<forall>i j. i \<le> j \<longrightarrow> fst (T i) \<le> fst (T j)" "deadline \<le> fst (T J)"
  obtains (over) s1 where "next_turn deadline s = (None, s1)" "before T J s1" "n_turn s1 = n_turn s"
    | (turn) s1 where "next_turn deadline s = (Some (snd (T (n_turn s))), s1)" "before T J s1" "n_turn s1 = Suc (n_turn s)"
        "n_tick s1 = fst (T (n_turn s))" "n_turn s < J"
proof (cases "fst (T (n_turn s)) < deadline")
  case True
  have "n_turn s \<noteq> J" using True assms(3) by auto
  then have "n_turn s < J" using assms(1) by (simp add: before_def)
  then show thesis using True assms(1,2) turn [of "s\<lparr>n_tick := fst (T (n_turn s)), n_turn := Suc (n_turn s)\<rparr>"]
    by (simp add: next_turn_eq before_def)
next
  case False
  then show thesis using assms(1) over [of "s\<lparr>n_tick := fst (T (n_turn s))\<rparr>"] by (simp add: next_turn_eq before_def)
qed

text \<open>What a poll does with the frame of its turn: the deadlines it sets lie before the end of the spell.\<close>

lemma poll_turn_returns:
  assumes "resolver_ok T K J m R" "quiet_spell T D K J" "\<forall>i j. i \<le> j \<longrightarrow> fst (T i) \<le> fst (T j)" "before T J s1" "n_tick s1 = fst (T i)" "i < J" "J - n_turn s1 \<le> m"
  shows "ends_before T J s1 (net_poll_frame R (snd (T i)) s1)"
proof (cases "K \<le> i")
  case True
  then have "snd (T i) = None" using assms(2,6) by (simp add: quiet_spell_def)
  then show ?thesis using ends_before_same [OF assms(4)] by (simp add: net_poll_frame_def)
next
  case False
  then show ?thesis using poll_frame_returns [OF assms(1,4)] assms(3,5,7) by simp
qed

lemma resolve_with_ok:
  assumes w: "\<And>ip d s. before T J s \<Longrightarrow> J - n_turn s \<le> m \<Longrightarrow> d \<le> fst (T J) \<Longrightarrow> \<exists>r s'. w ip d s = Some (r, s') \<and> before T J s' \<and> n_turn s \<le> n_turn s'"
    and q: "quiet_spell T D K J" "1000 \<le> D"
  shows "resolver_ok T K J m (resolve_with w)"
proof -
  have "\<exists>r s'. resolve_with w ip s = Some (r, s') \<and> before T J s' \<and> n_turn s \<le> n_turn s'"
    if b: "before T J s" "n_tick s \<le> fst (T K)" "J - n_turn s \<le> m" for ip s
  proof -
    let ?t = "arp_send_request (deref s ip) s"
    have e: "env ?t = env s" by (simp add: env_simps)
    then have "n_tick ?t + 1000 \<le> fst (T J)" "J - n_turn ?t \<le> m" "n_turn ?t = n_turn s" using b q by (simp_all add: env_def quiet_spell_def)
    with w [of ?t "n_tick ?t + 1000" ip] before_env [OF e] b show ?thesis
      by (auto simp: resolve_with_def Let_def split: option.splits)
  qed
  then show ?thesis unfolding resolver_ok_def by blast
qed

lemma arp_wait_returns:
  assumes "\<forall>i j. i \<le> j \<longrightarrow> fst (T i) \<le> fst (T j)" "quiet_spell T D K J" "1000 \<le> D"
  shows "before T J s \<Longrightarrow> J - n_turn s < n \<Longrightarrow> d \<le> fst (T J) \<Longrightarrow> \<exists>r s'. arp_wait n ip d s = Some (r, s') \<and> before T J s' \<and> n_turn s \<le> n_turn s'"
proof (induction n arbitrary: ip d s)
  case (Suc n)
  from Suc.prems(1) assms(1) Suc.prems(3) show ?case
  proof (cases rule: next_turn_cases)
    case (over s1)
    then show ?thesis by simp
  next
    case (turn s1)
    have m: "J - n_turn s1 < n" using turn(3,5) Suc.prems(2) by simp
    have "resolver_ok T K J (J - n_turn s1) (resolve_with (arp_wait n))"
      by (rule resolve_with_ok [OF Suc.IH assms(2,3)]) (use m in simp_all)
    from poll_turn_returns [OF this assms(2,1) turn(2,4,5)] obtain s2 where
      s2: "net_poll_frame (resolve_with (arp_wait n)) (snd (T (n_turn s))) s1 = Some s2" "before T J s2" "n_turn s1 \<le> n_turn s2"
      by (auto simp: ends_before_def)
    have "J - n_turn s2 < n" using s2(3) m by simp
    from Suc.IH [OF s2(2) this Suc.prems(3), of ip] obtain r s3 where
      "arp_wait n ip d s2 = Some (r, s3)" "before T J s3" "n_turn s2 \<le> n_turn s3" by blast
    then show ?thesis using turn(1,3) s2 by (auto split: option.splits)
  qed
qed simp

lemma arp_resolve_ok:
  assumes "\<forall>i j. i \<le> j \<longrightarrow> fst (T i) \<le> fst (T j)" "quiet_spell T D K J" "1000 \<le> D" "m < n"
  shows "resolver_ok T K J m (arp_resolve n)"
  unfolding arp_resolve_def by (rule resolve_with_ok [OF arp_wait_returns [OF assms(1-3)] assms(2,3)]) (use assms(4) in simp_all)

lemma poll_until_returns:
  assumes "\<forall>i j. i \<le> j \<longrightarrow> fst (T i) \<le> fst (T j)" "quiet_spell T D K J" "1000 \<le> D"
  shows "before T J s \<Longrightarrow> J - n_turn s < n \<Longrightarrow> d \<le> fst (T J) \<Longrightarrow> \<exists>r s'. poll_until n flag d s = Some (r, s') \<and> before T J s' \<and> n_turn s \<le> n_turn s'"
proof (induction n arbitrary: s)
  case (Suc n)
  from Suc.prems(1) assms(1) Suc.prems(3) show ?case
  proof (cases rule: next_turn_cases)
    case (over s1)
    then show ?thesis by auto
  next
    case (turn s1)
    have m: "J - n_turn s1 < n" using turn(3,5) Suc.prems(2) by simp
    from poll_turn_returns [OF arp_resolve_ok [OF assms m] assms(2,1) turn(2,4,5)] obtain s2 where
      s2: "net_poll n (snd (T (n_turn s))) s1 = Some s2" "before T J s2" "n_turn s1 \<le> n_turn s2"
      by (auto simp: ends_before_def net_poll_def)
    have "J - n_turn s2 < n" using s2(3) m by simp
    from Suc.IH [OF s2(2) this Suc.prems(3)] obtain r s3 where
      "poll_until n flag d s2 = Some (r, s3)" "before T J s3" "n_turn s2 \<le> n_turn s3" by blast
    then show ?thesis using turn(1,3) s2 by auto
  qed
qed simp

text \<open>A call with this environment, and a spell long enough for its deadlines that begins later.\<close>

definition spell_ahead :: "nat \<Rightarrow> nat \<Rightarrow> nat \<Rightarrow> net \<Rightarrow> bool" where
  "spell_ahead D K J s \<longleftrightarrow> clock_runs s \<and> quiet_spell (n_turns s) D K J \<and> 1000 \<le> D \<and> n_turn s \<le> K"

lemma spell_ahead_facts:
  assumes "spell_ahead D K J s"
  shows "\<forall>i j. i \<le> j \<longrightarrow> fst (n_turns s i) \<le> fst (n_turns s j)" "quiet_spell (n_turns s) D K J" "1000 \<le> D" "before (n_turns s) J s"
    "n_tick s \<le> fst (n_turns s K)" "n_tick s + D \<le> fst (n_turns s J)"
proof -
  show "\<forall>i j. i \<le> j \<longrightarrow> fst (n_turns s i) \<le> fst (n_turns s j)" "quiet_spell (n_turns s) D K J" "1000 \<le> D" "before (n_turns s) J s"
    using assms by (auto simp: spell_ahead_def clock_runs_def before_def quiet_spell_def)
  show t: "n_tick s \<le> fst (n_turns s K)" using assms unfolding spell_ahead_def clock_runs_def by (meson le_trans)
  show "n_tick s + D \<le> fst (n_turns s J)" using assms t by (simp add: spell_ahead_def quiet_spell_def)
qed

lemma spell_ahead_env: "env s' = env s \<Longrightarrow> spell_ahead D K J s' = spell_ahead D K J s"
  by (simp add: env_def spell_ahead_def clock_runs_def)

lemma before_ahead: "before T J s \<Longrightarrow> \<forall>i j. i \<le> j \<longrightarrow> fst (T i) \<le> fst (T j) \<Longrightarrow> quiet_spell T D K' J' \<Longrightarrow> 1000 \<le> D \<Longrightarrow> J \<le> K' \<Longrightarrow> spell_ahead D K' J' s"
  by (auto simp: before_def spell_ahead_def clock_runs_def)

lemma ip_send_ahead: "spell_ahead D K J s \<Longrightarrow> J - n_turn s < n \<Longrightarrow> ends_before (n_turns s) J s (ip_send (arp_resolve n) d p b l s)"
  by (rule ip_send_returns [OF arp_resolve_ok, where m = "J - n_turn s"]) (assumption | rule spell_ahead_facts order_refl)+

lemma icmp_ping_returns:
  assumes "spell_ahead D K J s" "ms \<le> D" "J - n_turn s < n"
  shows "icmp_ping n dst ms s \<noteq> None"
proof -
  define s0 where "s0 = s\<lparr>ping_seq := (ping_seq s + 1) mod 2 ^ 16, ping_seq_cur := (ping_seq s + 1) mod 2 ^ 16,
    icmp_pkt := (ping_data ((ping_seq s + 1) mod 2 ^ 16))[2 := of_nat (ip_checksum (ping_data ((ping_seq s + 1) mod 2 ^ 16))),
      3 := of_nat (ip_checksum (ping_data ((ping_seq s + 1) mod 2 ^ 16)) div 256)], ping_got := False, ping_waiting := True\<rparr>"
  have e: "env s0 = env s" by (simp add: s0_def env_def)
  have s0: "n_turns s0 = n_turns s" "n_turn s0 = n_turn s" "spell_ahead D K J s0" using e assms(1) spell_ahead_env [OF e] by (simp_all add: env_def)
  obtain s1 where s1: "ip_send (arp_resolve n) (At dst) IP_PROTO_ICMP Buf_ping (8 + ICMP_DATA_LEN) s0 = Some s1" "before (n_turns s) J s1" "n_turn s \<le> n_turn s1"
    using ip_send_ahead [OF s0(3), of n] assms(3) unfolding ends_before_def s0(1,2) by blast
  have "J - n_turn s1 < n" using s1(3) assms(3) by simp
  moreover have "n_tick s + ms \<le> fst (n_turns s J)" using spell_ahead_facts(6) [OF assms(1)] assms(2) by simp
  ultimately obtain r s2 where "poll_until n ping_got (n_tick s + ms) s1 = Some (r, s2)"
    using poll_until_returns [OF spell_ahead_facts(1-3) [OF assms(1)] s1(2), of n] by blast
  then show ?thesis using s1(1) unfolding icmp_ping_def Let_def s0_def [symmetric] by simp
qed

text \<open>One exchange of DHCP: a message and the wait for the answer.\<close>

lemma dhcp_phase_returns:
  assumes "spell_ahead D K J s" "3000 \<le> D" "J - n_turn s < n"
  shows "\<exists>s1 r s2. dhcp_send (arp_resolve n) ty s = Some s1 \<and> poll_until n flag (n_tick s1 + 3000) s1 = Some (r, s2) \<and>
    before (n_turns s) J s2 \<and> n_turn s \<le> n_turn s2"
proof -
  have "dhcp_send (arp_resolve n) ty s = Some s \<or> (\<exists>s1. dhcp_send (arp_resolve n) ty s = Some s1 \<and> env s1 = env s)"
    by (auto simp: dhcp_send_def udp_send_def ip_send_def ip_is_bcast_def Let_def env_simps)
  then obtain s1 where s1: "dhcp_send (arp_resolve n) ty s = Some s1" "env s1 = env s" by blast
  then have t: "n_tick s1 = n_tick s" "n_turn s1 = n_turn s" "before (n_turns s) J s1"
    using before_env [OF s1(2)] spell_ahead_facts(4) [OF assms(1)] by (simp_all add: env_def)
  have "n_tick s1 + 3000 \<le> fst (n_turns s J)" using spell_ahead_facts(6) [OF assms(1)] assms(2) t(1) by simp
  then show ?thesis
    using poll_until_returns [OF spell_ahead_facts(1-3) [OF assms(1)] t(3), of n "n_tick s1 + 3000" flag] assms(3) s1(1) t(2) by auto
qed

lemma dhcp_discover_returns:
  assumes "spell_ahead D K J s" "3000 \<le> D" "quiet_spell (n_turns s) D K' J'" "J \<le> K'" "J' - n_turn s < n"
  shows "dhcp_discover n s \<noteq> None"
proof -
  define s0 where "s0 = (udp_register DHCP_PORT_C Dhcp_recv s)\<lparr>dhcp_got_offer := False, dhcp_got_ack := False\<rparr>"
  have e: "env s0 = env s" by (simp add: s0_def env_simps)
  have jj: "J \<le> J'" using assms(3,4) by (simp add: quiet_spell_def)
  have s0: "spell_ahead D K J s0" "n_turns s0 = n_turns s" "J - n_turn s0 < n" "n_turn s0 = n_turn s"
    using spell_ahead_env [OF e] assms(1,5) e jj by (simp_all add: env_def)
  obtain s1 r s2 where s: "dhcp_send (arp_resolve n) DHCPDISCOVER s0 = Some s1" "poll_until n dhcp_got_offer (n_tick s1 + 3000) s1 = Some (r, s2)"
    "before (n_turns s) J s2" "n_turn s \<le> n_turn s2"
    using dhcp_phase_returns [OF s0(1) assms(2) s0(3), of DHCPDISCOVER dhcp_got_offer] unfolding s0(2,4) by blast
  have "spell_ahead D K' J' s2" by (rule before_ahead [OF s(3) spell_ahead_facts(1) [OF assms(1)] assms(3) spell_ahead_facts(3) [OF assms(1)] assms(4)])
  moreover have "J' - n_turn s2 < n" using s(4) assms(5) by simp
  ultimately obtain s3 r' s4 where "dhcp_send (arp_resolve n) DHCPREQUEST s2 = Some s3" "poll_until n dhcp_got_ack (n_tick s3 + 3000) s3 = Some (r', s4)"
    using dhcp_phase_returns [OF _ assms(2)] by blast
  then show ?thesis using s(1,2) unfolding dhcp_discover_def Let_def s0_def [symmetric] by simp
qed

text \<open>C17: the network code returns when the line falls quiet now and then. Polls, address resolution, ping and DHCP nest (a
  poll may answer a request, which resolves an address with a deadline of its own, which polls), and frames may
  arrive at any turn; but if the clock runs and from any time on there is still a spell as long as the longest deadline
  without a frame, each of them produces a result. The loops end by their own deadlines: a call that never ends would
  be \<open>None\<close> for every fuel.\<close>

theorem net_loops_return:
  assumes "clock_runs s" "\<forall>p. \<exists>K J. p \<le> K \<and> quiet_spell (n_turns s) (max 3000 ms) K J"
  shows "\<exists>N. \<forall>n \<ge> N. net_poll n fr s \<noteq> None \<and> arp_resolve n ip s \<noteq> None \<and> icmp_ping n dst ms s \<noteq> None \<and>
    dhcp_discover n s \<noteq> None \<and> net_init n rc s \<noteq> None"
proof -
  let ?D = "max 3000 ms"
  obtain K J where q: "n_turn s \<le> K" "quiet_spell (n_turns s) ?D K J" using assms(2) by blast
  obtain K' J' where q': "J \<le> K'" "quiet_spell (n_turns s) ?D K' J'" using assms(2) by blast
  have a: "spell_ahead ?D K J s" using assms(1) q by (simp add: spell_ahead_def)
  have jj: "J \<le> J'" using q' by (simp add: quiet_spell_def)
  have "net_poll n fr s \<noteq> None \<and> arp_resolve n ip s \<noteq> None \<and> icmp_ping n dst ms s \<noteq> None \<and> dhcp_discover n s \<noteq> None \<and> net_init n rc s \<noteq> None"
    if n: "Suc J' \<le> n" for n
  proof -
    have m: "J - n_turn s < n" "J' - n_turn s < n" using n jj by simp_all
    note f = spell_ahead_facts [OF a]
    note ok = arp_resolve_ok [OF f(1-3) m(1)]
    have "net_poll n fr s \<noteq> None" using poll_frame_returns [OF ok f(4,5)] by (auto simp: net_poll_def ends_before_def)
    moreover have "arp_resolve n ip s \<noteq> None" using ok f(4,5) unfolding resolver_ok_def by fastforce
    moreover have "icmp_ping n dst ms s \<noteq> None" by (rule icmp_ping_returns [OF a _ m(1)]) simp
    moreover have "dhcp_discover n s \<noteq> None" by (rule dhcp_discover_returns [OF a _ q'(2,1) m(2)]) simp
    ultimately show ?thesis by (auto simp: net_init_def)
  qed
  then show ?thesis by blast
qed

section \<open>DHCP options\<close>

text \<open>Options as a server writes them: code, length, value.\<close>

definition enc_opt :: "u8 \<times> u8 list \<Rightarrow> u8 list" where
  "enc_opt kv = fst kv # of_nat (length (snd kv)) # snd kv"

definition opt_ok :: "u8 \<times> u8 list \<Rightarrow> bool" where
  "opt_ok kv \<longleftrightarrow> fst kv \<noteq> 0 \<and> fst kv \<noteq> 0xFF \<and> length (snd kv) < 256"

text \<open>The effect of one option: subnet mask, first router, server identifier.\<close>

definition apply_opt :: "u8 \<times> u8 list \<Rightarrow> net \<Rightarrow> net" where
  "apply_opt kv s =
     (if fst kv = 1 \<and> length (snd kv) = 4 then s\<lparr>dhcp_offered_mask := snd kv\<rparr>
      else if fst kv = 3 \<and> length (snd kv) \<ge> 4 then s\<lparr>dhcp_offered_gw := take 4 (snd kv)\<rparr>
      else if fst kv = 54 \<and> length (snd kv) = 4 then s\<lparr>dhcp_server_ip := snd kv\<rparr>
      else s)"

lemma length_enc_opt [simp]: "length (enc_opt kv) = 2 + length (snd kv)"
  by (simp add: enc_opt_def)

lemma byte_at_append: "byte_at (xs @ ys) (length xs + i) = byte_at ys i"
  by (simp add: byte_at_def nth_append)

lemma byte_at_append0: "byte_at (xs @ ys) (length xs) = byte_at ys 0"
  using byte_at_append [of xs ys 0] by simp

lemma byte_at_Cons [simp]: "byte_at (x # xs) 0 = x" "byte_at (x # xs) (Suc i) = byte_at xs i"
  by (simp_all add: byte_at_def)

lemma opt_head:
  assumes "opt_ok kv"
  shows "byte_at (pre @ enc_opt kv @ rest) (length pre) = fst kv"
    "unat (byte_at (pre @ enc_opt kv @ rest) (length pre + 1)) = length (snd kv)"
    "drop (length pre + 2) (pre @ enc_opt kv @ rest) = snd kv @ rest"
  using assms byte_at_append [of pre "enc_opt kv @ rest" 1] by (simp_all add: byte_at_append0 enc_opt_def opt_ok_def unsigned_of_nat take_bit_nat_eq_self)

lemma parse_options_enc:
  assumes "\<forall>kv \<in> set kvs. opt_ok kv" "length (pre @ concat (map enc_opt kvs)) < olen"
  shows "parse_options_from (pre @ concat (map enc_opt kvs) @ 0xFF # rest) olen (length pre) s = fold apply_opt kvs s"
  using assms
proof (induction kvs arbitrary: pre s)
  case Nil
  then show ?case by (subst parse_options_from.simps) (simp add: byte_at_append0)
next
  case (Cons kv kvs)
  let ?rest = "concat (map enc_opt kvs) @ 0xFF # rest"
  have ok: "opt_ok kv" using Cons.prems by simp
  note h = opt_head [OF ok, of pre ?rest]
  have l: "byte_at (pre @ enc_opt kv @ ?rest) (length pre + 1) = k \<longleftrightarrow> length (snd kv) = unat k" for k
    using h(2) by (metis word_unat_eq_iff)
  have l4: "4 \<le> byte_at (pre @ enc_opt kv @ ?rest) (length pre + 1) \<longleftrightarrow> 4 \<le> length (snd kv)"
    using h(2) by (simp add: word_le_nat_alt)
  have "parse_options_from (pre @ enc_opt kv @ ?rest) olen (length pre) s =
      parse_options_from (pre @ enc_opt kv @ ?rest) olen (length pre + 2 + length (snd kv)) (apply_opt kv s)"
    using Cons.prems(2) ok h l [of 4] l4
    by (subst parse_options_from.simps) (simp add: opt_ok_def apply_opt_def Let_def)
  also have "\<dots> = fold apply_opt kvs (apply_opt kv s)"
    using Cons.IH [of "pre @ enc_opt kv" "apply_opt kv s"] Cons.prems by (simp add: add.assoc)
  finally show ?case by simp
qed

lemma option_type_enc:
  assumes "\<forall>kv \<in> set kvs. opt_ok kv" "length (pre @ concat (map enc_opt kvs)) < olen"
  shows "option_type_from (pre @ concat (map enc_opt kvs) @ 0xFF # rest) olen (length pre) =
    (case find (\<lambda>kv. fst kv = 53 \<and> length (snd kv) = 1) kvs of Some kv \<Rightarrow> snd kv ! 0 | None \<Rightarrow> 0)"
  using assms
proof (induction kvs arbitrary: pre)
  case Nil
  then show ?case by (subst option_type_from.simps) (simp add: byte_at_append0)
next
  case (Cons kv kvs)
  let ?rest = "concat (map enc_opt kvs) @ 0xFF # rest"
  have ok: "opt_ok kv" using Cons.prems by simp
  note h = opt_head [OF ok, of pre ?rest]
  have l: "byte_at (pre @ enc_opt kv @ ?rest) (length pre + 1) = 1 \<longleftrightarrow> length (snd kv) = 1"
    using h(2) by (metis word_unat_eq_iff unat_1)
  have v: "byte_at (pre @ enc_opt kv @ ?rest) (length pre + 2) = snd kv ! 0" if "length (snd kv) = 1"
    using byte_at_append [of pre "enc_opt kv @ ?rest" 2] that by (cases "snd kv") (simp_all add: enc_opt_def numeral_eq_Suc)
  have IH: "option_type_from (pre @ enc_opt kv @ ?rest) olen (length pre + 2 + length (snd kv)) =
      (case find (\<lambda>kv. fst kv = 53 \<and> length (snd kv) = 1) kvs of Some kv \<Rightarrow> snd kv ! 0 | None \<Rightarrow> 0)"
    using Cons.IH [of "pre @ enc_opt kv"] Cons.prems by (simp add: add.assoc)
  show ?case using Cons.prems(2) ok h l v IH by (subst option_type_from.simps) (simp add: opt_ok_def)
qed

text \<open>What a DHCP server writes is what the client reads. From any list of well-formed options after the cookie
  and closed by the end marker inside the field, the client takes the message type of the first type option and
  applies the options in order: the last mask, router and server identifier win.\<close>

theorem dhcp_options_read_back:
  assumes "\<forall>kv \<in> set kvs. opt_ok kv" "length cookie = 4" "4 + length (concat (map enc_opt kvs)) < olen"
  shows "dhcp_parse_options (cookie @ concat (map enc_opt kvs) @ 0xFF # rest) olen s = fold apply_opt kvs s \<and>
    dhcp_option_type (cookie @ concat (map enc_opt kvs) @ 0xFF # rest) olen =
    (case find (\<lambda>kv. fst kv = 53 \<and> length (snd kv) = 1) kvs of Some kv \<Rightarrow> snd kv ! 0 | None \<Rightarrow> 0)"
  using parse_options_enc [of kvs cookie olen rest s] option_type_enc [of kvs cookie olen rest] assms
  by (simp add: dhcp_parse_options_def dhcp_option_type_def)

section \<open>Echo replies\<close>

text \<open>The header before the checksum is stored.\<close>

definition ip_base :: "nat \<Rightarrow> nat \<Rightarrow> ip_addr \<Rightarrow> ip_addr \<Rightarrow> u8 list" where
  "ip_base plen proto src dst =
     [0x45, 0, of_nat ((20 + plen) div 256), of_nat (20 + plen), 0, 0, 0x40, 0, 64, of_nat proto, 0, 0] @ src @ dst"

lemma hdr_stores:
  "([0x45] @ replicate 7 0 @ [64, pr, 0, 0 :: u8] @ addrs)[2 := h, 2 + 1 := l, 6 := x, 6 + 1 := y] =
     [0x45, 0, h, l, 0, 0, x, y, 64, pr, 0, 0] @ addrs"
  "([a, b, c, d, e, f, g, i, j, k, m, n :: u8] @ addrs)[10 := x, 10 + 1 := y] = [a, b, c, d, e, f, g, i, j, k, x, y] @ addrs"
  by (simp_all add: numeral_eq_Suc)

lemma ip_hdr_base: "ip_hdr plen proto src dst ck = put_le16 (ip_base plen proto src dst) 10 ck"
proof -
  have "(of_nat (0x4000 div 256) :: u8) = 0x40" "(of_nat 0x4000 :: u8) = 0" by simp_all
  then show ?thesis unfolding ip_hdr_def ip_base_def set_be16_eq hdr_stores by (simp only:)
qed

lemma ip_base_nth: "ip_base plen proto src dst ! 10 = 0" "ip_base plen proto src dst ! 11 = 0"
  "length (ip_base plen proto src dst) = 12 + length src + length dst"
  "put_le16 (ip_base plen proto src dst) 10 0 = ip_base plen proto src dst"
  by (simp_all add: ip_base_def put_le16_def)

definition sent_hdr :: "nat \<Rightarrow> nat \<Rightarrow> ip_addr \<Rightarrow> ip_addr \<Rightarrow> u8 list" where
  "sent_hdr plen proto src dst = ip_hdr plen proto src dst (ip_checksum (ip_hdr plen proto src dst 0))"

lemma sent_hdr_eq:
  "\<exists>x y. sent_hdr plen proto src dst =
     [0x45, 0, of_nat ((20 + plen) div 256), of_nat (20 + plen), 0, 0, 0x40, 0, 64, of_nat proto, x, y] @ src @ dst"
  unfolding sent_hdr_def ip_hdr_base ip_base_nth unfolding ip_base_def put_le16_def hdr_stores by blast

lemma sent_hdr_props:
  assumes "addr4 src" "addr4 dst" "plen \<le> 1480"
  shows "length (sent_hdr plen proto src dst) = 20" "ip_checksum (sent_hdr plen proto src dst) = 0"
    "drop 12 (sent_hdr plen proto src dst) = src @ dst" "get_be16 (sent_hdr plen proto src dst) 2 = 20 + plen"
    "sent_hdr plen proto src dst ! 9 = of_nat proto"
proof -
  obtain x y where eq: "sent_hdr plen proto src dst =
     [0x45, 0, of_nat ((20 + plen) div 256), of_nat (20 + plen), 0, 0, 0x40, 0, 64, of_nat proto, x, y] @ src @ dst"
    using sent_hdr_eq by blast
  show "length (sent_hdr plen proto src dst) = 20" using assms by (simp add: eq addr4_def)
  show "ip_checksum (sent_hdr plen proto src dst) = 0"
    unfolding sent_hdr_def ip_hdr_base ip_base_nth(4) using assms ip_base_nth [of plen proto src dst]
    by (intro checksum_inserted) (simp_all add: addr4_def)
  show "drop 12 (sent_hdr plen proto src dst) = src @ dst" "sent_hdr plen proto src dst ! 9 = of_nat proto"
    unfolding eq by simp_all
  have d: "(20 + plen) div 256 < 256" using assms(3) by (simp add: less_mult_imp_div_less)
  have "unat (of_nat ((20 + plen) div 256) :: u8) * 256 + unat (of_nat (20 + plen) :: u8) = 20 + plen"
    unfolding unsigned_of_nat take_bit_eq_mod using d by simp
  moreover have "byte_at (sent_hdr plen proto src dst) 2 = of_nat ((20 + plen) div 256)"
      "byte_at (sent_hdr plen proto src dst) (2 + 1) = of_nat (20 + plen)"
    unfolding eq by (simp_all add: byte_at_def)
  ultimately show "get_be16 (sent_hdr plen proto src dst) 2 = 20 + plen" unfolding get_be16_eq by simp
qed

definition echo_reply :: "u8 list \<Rightarrow> u8 list" where
  "echo_reply p = (let r = p[0 := 0, 2 := 0, 3 := 0] in put_le16 r 2 (ip_checksum r))"

lemma echo_reply_props:
  assumes "8 \<le> length p" "length p \<le> 1480"
  shows "length (echo_reply p) = length p" "ip_checksum (echo_reply p) = 0" "echo_reply p ! 0 = 0"
    "echo_reply p ! 1 = p ! 1" "drop 4 (echo_reply p) = drop 4 p"
proof -
  show "length (echo_reply p) = length p" "echo_reply p ! 0 = 0" "echo_reply p ! 1 = p ! 1" "drop 4 (echo_reply p) = drop 4 p"
    using assms by (cases p; simp add: echo_reply_def Let_def put_le16_def nth_list_update)+
  show "ip_checksum (echo_reply p) = 0"
    unfolding echo_reply_def Let_def using assms by (intro checksum_inserted) (simp_all add: nth_list_update)
qed

definition with_reply :: "u8 list \<Rightarrow> net \<Rightarrow> net" where
  "with_reply p s = s\<lparr>icmp_reply := echo_reply p @ drop (length p) (icmp_reply s)\<rparr>"

lemma with_reply_simps [simp]: "deref (with_reply p s) src = deref s src" "on_subnet ip (with_reply p s) = on_subnet ip s"
  "net_ip (with_reply p s) = net_ip s" "net_mac (with_reply p s) = net_mac s" "net_gw (with_reply p s) = net_gw s"
  "n_sent (with_reply p s) = n_sent s" "arp_cache (with_reply p s) = arp_cache s" "arp_cache_next (with_reply p s) = arp_cache_next s"
  "n_turns (with_reply p s) = n_turns s" "n_tick (with_reply p s) = n_tick s"
  by (cases src) (simp_all add: with_reply_def on_subnet_def)

lemma icmp_handle_echo:
  assumes p: "drop at (eth_rx_frame s) = p @ rest" "8 \<le> length p" "length p \<le> 1480" "p ! 0 = 8" "length (icmp_reply s) = 1480"
  shows "icmp_handle R src at (length p) s = ip_send R src IP_PROTO_ICMP Buf_reply (length p) (with_reply p s)"
proof -
  let ?q = "p[0 := 0, 2 := 0, 3 := 0]" and ?tl = "drop (length p) (icmp_reply s)"
  have t: "byte_at (p @ rest) 0 = 8" using p(2,4) by (cases p) simp_all
  have r0: "(put_bytes (icmp_reply s) 0 (take (length p) (p @ rest)))[0 := 0, 2 := 0, 3 := 0] = ?q @ ?tl"
    using p(2) by (cases "p = []") (simp_all add: put_bytes_def list_update_append)
  have r1: "(?q @ ?tl)[2 := of_nat c, 3 := of_nat (c div 256)] = put_le16 ?q 2 c @ ?tl" for c
    using p(2) by (simp add: put_le16_def list_update_append)
  show ?thesis
    unfolding icmp_handle_def p(1) Let_def t r0 using p(2,3) by (simp add: r1 echo_reply_def with_reply_def Let_def)
qed

lemma ip_send_reply:
  assumes "8 \<le> length p" "length p \<le> 1480" "deref s src = ip" "\<not> ip_is_bcast ip" "\<not> ip_is_any (net_ip s)"
    and hop: "R (if on_subnet ip s then src else At (net_gw s)) (with_reply p s) = Some (Some mac, with_reply p s)"
  shows "ip_send R src IP_PROTO_ICMP Buf_reply (length p) (with_reply p s) =
    Some (eth_send mac ETH_TYPE_IP (sent_hdr (length p) IP_PROTO_ICMP (net_ip s) ip @ echo_reply p) (with_reply p s))"
proof -
  have "take (length p) (tx_data (with_reply p s) Buf_reply) = echo_reply p"
    using echo_reply_props(1) [OF assms(1,2)] by (simp add: with_reply_def)
  then show ?thesis using assms by (cases "on_subnet ip s") (simp_all add: ip_send_def ip_output_def sent_hdr_def Let_def)
qed

lemma poll_ip_frame:
  assumes "fr = net_mac s @ smac @ [8, 0] @ h @ p" "length (net_mac s) = 6" "length smac = 6" "length h = 20" "length p \<le> 1480"
    and h: "h ! 0 = 0x45" "h ! 9 = 1" "get_be16 h 2 = 20 + length p" "drop 12 h = src @ net_ip s" "addr4 src" "addr4 (net_ip s)"
  defines "t \<equiv> s\<lparr>eth_rx_frame := fr @ drop (length fr) (eth_rx_frame s)\<rparr>"
  shows "net_poll_frame R (Some fr) s = icmp_handle R (In_rx 26) 34 (length p) t"
    "drop 34 (eth_rx_frame t) = p @ drop (length fr) (eth_rx_frame s)" "deref t (In_rx 26) = src"
proof -
  let ?tl = "drop (length fr) (eth_rx_frame s)"
  have d14: "drop 14 (eth_rx_frame t) = h @ p @ ?tl" using assms(1-3) by (simp add: t_def)
  show "drop 34 (eth_rx_frame t) = p @ ?tl" using assms(1-4) by (simp add: t_def)
  have "drop 26 (eth_rx_frame t) = drop 12 (drop 14 (eth_rx_frame t))" by simp
  also have "\<dots> = src @ net_ip s @ p @ ?tl" unfolding d14 using h(4) assms(4) by simp
  finally show "deref t (In_rx 26) = src" using h(5) by (simp add: addr4_def)
  have d16: "take 4 (drop 16 (h @ p @ ?tl)) = net_ip s"
  proof -
    have "drop 16 h = drop 4 (drop 12 h)" by simp
    then show ?thesis using h(4-6) assms(4) by (simp add: addr4_def)
  qed
  have b: "byte_at (h @ p @ ?tl) i = h ! i" if "i < 20" for i using that assms(4) by (simp add: byte_at_def nth_append)
  have "get_be16 (h @ p @ ?tl) 2 = get_be16 h 2" using assms(4) by (simp add: get_be16_eq byte_at_def nth_append)
  then have ip: "ip_recv R 14 (20 + length p) t = icmp_handle R (In_rx 26) 34 (length p) t"
    unfolding ip_recv_def d14 Let_def d16 using h(1-3) b ip_eq_eq [OF h(6) h(6)] by (simp add: IP_PROTO_ICMP_def t_def)
  have l: "length fr = 34 + length p" using assms(1-4) by simp
  have e: "byte_at (eth_rx_frame t) 12 = 8" "byte_at (eth_rx_frame t) 13 = 0"
    using assms(1-3) by (simp_all add: t_def byte_at_def nth_append)
  have m: "mac_eq (take 6 (eth_rx_frame t)) (net_mac s)" using assms(1-3) by (simp add: t_def mac_eq_def)
  show "net_poll_frame R (Some fr) s = icmp_handle R (In_rx 26) 34 (length p) t"
  proof -
    have t': "s\<lparr>eth_rx_frame := put_bytes (eth_rx_frame s) 0 (take 1518 fr)\<rparr> = t" "length (take 1518 fr) = 34 + length p"
        "net_mac t = net_mac s"
      using l assms(5) by (simp_all add: put_bytes_def t_def)
    show ?thesis unfolding net_poll_frame_def option.case Let_def t' e ETH_TYPE_ARP_def ETH_TYPE_IP_def using ip m by simp
  qed
qed

text \<open>C16: an echo request that fits a frame is answered at once when the next hop (the sender on the subnet, the gateway
  otherwise) is in the ARP cache: one frame goes to the hop's hardware address, its IP header verifies and names our
  address and the sender's, and the ICMP message is the request with type 0 and a checksum that verifies, identifier,
  sequence number and data unchanged. Both checksums verify in the sense of RFC 1071, for requests of odd length too.\<close>

theorem icmp_echo_answered:
  assumes "fr = net_mac s @ smac @ [8, 0] @ h @ p" "length (net_mac s) = 6" "length smac = 6" "length h = 20"
    and "h ! 0 = 0x45" "h ! 9 = 1" "get_be16 h 2 = 20 + length p" "drop 12 h = src @ net_ip s"
    and "addr4 src" "addr4 (net_ip s)" "\<not> ip_is_bcast src" "\<not> ip_is_any (net_ip s)"
    and "8 \<le> length p" "length p \<le> 1480" "p ! 0 = 8" "length (icmp_reply s) = 1480"
    and "arp_lookup (if on_subnet src s then src else net_gw s) s = Some mac"
  shows "\<exists>s' hdr reply. net_poll n (Some fr) s = Some s' \<and>
    n_sent s' = n_sent s @ [mac @ net_mac s @ [8, 0] @ hdr @ reply] \<and>
    length hdr = 20 \<and> rfc1071_valid hdr \<and> hdr ! 9 = 1 \<and> drop 12 hdr = net_ip s @ src \<and>
    length reply = length p \<and> rfc1071_valid reply \<and> reply ! 0 = 0 \<and> reply ! 1 = p ! 1 \<and> drop 4 reply = drop 4 p"
proof -
  note f = poll_ip_frame [OF assms(1-4,14,5-10)]
  define t where "t = s\<lparr>eth_rx_frame := fr @ drop (length fr) (eth_rx_frame s)\<rparr>"
  note f = f [folded t_def]
  let ?hdr = "sent_hdr (length p) IP_PROTO_ICMP (net_ip s) src" and ?t = "with_reply p t"
  have t: "net_ip t = net_ip s" "icmp_reply t = icmp_reply s" "net_gw t = net_gw s" "on_subnet src t = on_subnet src s"
      "net_mac t = net_mac s" "n_sent t = n_sent s" "arp_cache t = arp_cache s" by (simp_all add: t_def on_subnet_def)
  have hop: "arp_resolve n (if on_subnet src t then In_rx 26 else At (net_gw t)) ?t = Some (Some mac, ?t)"
    using assms(17) f(3) by (cases "on_subnet src s") (simp_all add: arp_resolve_def resolve_with_def t arp_lookup_def del: deref.simps(2))
  have "net_poll n (Some fr) s = Some (eth_send mac ETH_TYPE_IP (?hdr @ echo_reply p) ?t)"
    unfolding net_poll_def f(1) using icmp_handle_echo [OF f(2) assms(13-15)] ip_send_reply [where R = "arp_resolve n", OF assms(13,14) f(3) assms(11) _ hop]
      assms(12,16) t(1,2) by simp
  moreover note e = echo_reply_props [OF assms(13,14)] and hp = sent_hdr_props [OF assms(10,9,14)]
  have "n_sent (eth_send mac ETH_TYPE_IP (?hdr @ echo_reply p) ?t) = n_sent s @ [mac @ net_mac s @ [8, 0] @ ?hdr @ echo_reply p]"
    using e(1) hp(1) assms(14) by (simp add: eth_send_def t ETH_TYPE_IP_def)
  moreover have "?hdr ! 9 = 1" using hp(5) by (simp add: IP_PROTO_ICMP_def)
  moreover have "rfc1071_valid ?hdr" "rfc1071_valid (echo_reply p)" using e(1,2) hp(1,2) assms(14) by (simp_all add: checksum_valid)
  ultimately show ?thesis using e(1,3-5) hp(1,3) by blast
qed

lemma arp_wait_idle:
  assumes "\<And>i. n_turn s \<le> i \<Longrightarrow> i < J \<Longrightarrow> snd (n_turns s i) = None" "arp_lookup (deref s ip) s = None" "n_turn s \<le> J" "d \<le> fst (n_turns s J)" "J - n_turn s < n"
  shows "\<exists>s'. arp_wait n ip d s = Some (None, s') \<and> n_sent s' = n_sent s \<and> arp_cache s' = arp_cache s"
  using assms
proof (induction n arbitrary: s)
  case (Suc n)
  let ?t = "fst (n_turns s (n_turn s))"
  show ?case
  proof (cases "?t < d")
    case True
    then have p: "n_turn s < J" using Suc.prems(3,4) by (cases "n_turn s = J") auto
    let ?s = "s\<lparr>n_tick := ?t, n_turn := Suc (n_turn s)\<rparr>"
    have l: "arp_lookup (deref ?s ip) ?s = None" using Suc.prems(2) by (cases ip) (simp_all add: arp_lookup_def)
    have "\<exists>s'. arp_wait n ip d ?s = Some (None, s') \<and> n_sent s' = n_sent ?s \<and> arp_cache s' = arp_cache ?s"
      by (rule Suc.IH [OF _ l]) (use Suc.prems p in simp_all)
    then show ?thesis using True l Suc.prems(1) [of "n_turn s"] p by (simp add: next_turn_eq net_poll_frame_def)
  qed (simp add: next_turn_eq)
qed simp

lemma arp_stores:
  "(replicate 4 0 @ [6, 4] @ replicate 2 (0 :: u8) @ xs)[0 := a, 0 + 1 := b, 2 := c, 2 + 1 := d, 6 := e, 6 + 1 := f] = [a, b, c, d, 6, 4, e, f] @ xs"
  by (simp add: numeral_eq_Suc)

lemma arp_pkt_eq: "arp_pkt 2 sm si tm ti = [0, 1, 8, 0, 6, 4, 0, 2] @ sm @ si @ tm @ ti"
proof -
  have "(of_nat (1 div 256) :: u8) = 0" "(of_nat (0x800 div 256) :: u8) = 8" "(of_nat 0x800 :: u8) = 0" "(of_nat (2 div 256) :: u8) = 0"
    by simp_all
  then show ?thesis unfolding arp_pkt_def set_be16_eq arp_stores by (simp del: of_nat_numeral) simp
qed

lemma poll_arp_reply:
  assumes "fr = net_mac s @ smac @ [8, 6] @ arp_pkt 2 smac src (net_mac s) (net_ip s)" "length (net_mac s) = 6" "length smac = 6"
    "addr4 src" "addr4 (net_ip s)"
  defines "t \<equiv> s\<lparr>eth_rx_frame := fr @ drop 42 (eth_rx_frame s)\<rparr>"
  shows "net_poll_frame R (Some fr) s = Some (arp_insert src smac t)" "deref t (In_rx 26) = drop 4 smac @ take 2 src"
proof -
  let ?tl = "drop 42 (eth_rx_frame s)"
  have l: "length fr = 42" using assms(1-5) by (simp add: arp_pkt_eq addr4_def)
  have d14: "drop 14 (eth_rx_frame t) = [0, 1, 8, 0, 6, 4, 0, 2] @ smac @ src @ net_mac s @ net_ip s @ ?tl"
    using assms(1-3) by (simp add: t_def arp_pkt_eq)
  have "drop 26 (eth_rx_frame t) = drop 12 (drop 14 (eth_rx_frame t))" by simp
  also have "\<dots> = drop 4 smac @ src @ net_mac s @ net_ip s @ ?tl" unfolding d14 using assms(3) by simp
  finally show "deref t (In_rx 26) = drop 4 smac @ take 2 src" using assms(3,4) by (simp add: addr4_def)
  have op: "get_be16 (drop 14 (eth_rx_frame t)) 0 = 1" "get_be16 (drop 14 (eth_rx_frame t)) 2 = 0x0800"
      "get_be16 (drop 14 (eth_rx_frame t)) 6 = 2"
    unfolding d14 by (simp_all add: get_be16_eq byte_at_def)
  have "take 6 (drop 8 (drop 14 (eth_rx_frame t))) = smac" "take 4 (drop 14 (drop 14 (eth_rx_frame t))) = src"
    unfolding d14 using assms(3,4) by (simp_all add: addr4_def)
  then have h: "arp_handle (drop 14 (eth_rx_frame t)) 28 t = arp_insert src smac t"
    unfolding arp_handle_def Let_def op by simp
  have e: "byte_at (eth_rx_frame t) 12 = 8" "byte_at (eth_rx_frame t) 13 = 6"
    using assms(1-3) by (simp_all add: t_def byte_at_def nth_append)
  have m: "mac_eq (take 6 (eth_rx_frame t)) (net_mac s)" using assms(1-3) by (simp add: t_def mac_eq_def)
  have t': "s\<lparr>eth_rx_frame := put_bytes (eth_rx_frame s) 0 (take 1518 fr)\<rparr> = t" "length (take 1518 fr) = 42" "net_mac t = net_mac s"
    using l by (simp_all add: put_bytes_def t_def)
  show "net_poll_frame R (Some fr) s = Some (arp_insert src smac t)"
    unfolding net_poll_frame_def option.case Let_def t' e ETH_TYPE_ARP_def ETH_TYPE_IP_def using h m by simp
qed

text \<open>An echo request to this host from the address \<open>src\<close>.\<close>

definition echo_request :: "net \<Rightarrow> ip_addr \<Rightarrow> u8 list \<Rightarrow> u8 list \<Rightarrow> bool" where
  "echo_request s src p fr \<longleftrightarrow>
     (\<exists>smac h. fr = net_mac s @ smac @ [8, 0] @ h @ p \<and> length (net_mac s) = 6 \<and> length smac = 6 \<and> length h = 20 \<and>
        h ! 0 = 0x45 \<and> h ! 9 = 1 \<and> get_be16 h 2 = 20 + length p \<and> drop 12 h = src @ net_ip s \<and>
        addr4 src \<and> addr4 (net_ip s) \<and> \<not> ip_is_bcast src \<and> \<not> ip_is_any (net_ip s) \<and> 8 \<le> length p \<and> length p \<le> 1480 \<and> p ! 0 = 8)"

text \<open>The state in which the answer waits for the sender's hardware address.\<close>

definition asked :: "ip_addr \<Rightarrow> u8 list \<Rightarrow> u8 list \<Rightarrow> net \<Rightarrow> net" where
  "asked src p fr s = arp_send_request src (with_reply p (s\<lparr>eth_rx_frame := fr @ drop (length fr) (eth_rx_frame s)\<rparr>))"

lemma asked_simps: "net_ip (asked src p fr s) = net_ip s" "net_mac (asked src p fr s) = net_mac s" "net_mask (asked src p fr s) = net_mask s"
  "arp_cache (asked src p fr s) = arp_cache s" "arp_cache_next (asked src p fr s) = arp_cache_next s" "n_turns (asked src p fr s) = n_turns s"
  "n_turn (asked src p fr s) = n_turn s" "n_tick (asked src p fr s) = n_tick s"
  by (simp_all add: asked_def arp_send_request_def eth_send_def with_reply_def)

lemma echo_resolves:
  assumes "echo_request s src p fr" "length (icmp_reply s) = 1480" "arp_lookup src s = None" "on_subnet src s"
  shows "net_poll_frame (resolve_with w) (Some fr) s = (case w (In_rx 26) (n_tick s + 1000) (asked src p fr s) of
      None \<Rightarrow> None
    | Some (r, z) \<Rightarrow> Some (case r of None \<Rightarrow> z | Some mac \<Rightarrow> ip_output mac (In_rx 26) IP_PROTO_ICMP Buf_reply (length p) z))"
    "length (icmp_reply (asked src p fr s)) = 1480"
    "n_sent (asked src p fr s) = n_sent s @ [mac_bcast @ net_mac s @ [8, 6] @ arp_pkt 1 (net_mac s) (net_ip s) (replicate 6 0) src]"
proof -
  obtain smac h where e: "fr = net_mac s @ smac @ [8, 0] @ h @ p" "length (net_mac s) = 6" "length smac = 6" "length h = 20"
    "h ! 0 = 0x45" "h ! 9 = 1" "get_be16 h 2 = 20 + length p" "drop 12 h = src @ net_ip s" "addr4 src" "addr4 (net_ip s)"
    "\<not> ip_is_bcast src" "\<not> ip_is_any (net_ip s)" "8 \<le> length p" "length p \<le> 1480" "p ! 0 = 8"
    using assms(1) unfolding echo_request_def by blast
  define u where "u = s\<lparr>eth_rx_frame := fr @ drop (length fr) (eth_rx_frame s)\<rparr>"
  note f = poll_ip_frame [OF e(1-4,14,5-10), folded u_def]
  have u: "net_ip u = net_ip s" "icmp_reply u = icmp_reply s" "on_subnet src u = on_subnet src s" "net_mac u = net_mac s"
      "n_sent u = n_sent s" "arp_cache u = arp_cache s" "n_tick u = n_tick s"
    by (simp_all add: u_def on_subnet_def)
  have v: "asked src p fr s = arp_send_request src (with_reply p u)" by (simp add: asked_def u_def)
  have t: "n_tick (arp_send_request src (with_reply p u)) = n_tick s" using asked_simps(8) [of src p fr s] by (simp add: v)
  have "resolve_with w (In_rx 26) (with_reply p u) = w (In_rx 26) (n_tick s + 1000) (asked src p fr s)"
    using assms(3) f(3) by (simp add: resolve_with_def arp_lookup_def u v t Let_def del: deref.simps(2))
  then show "net_poll_frame (resolve_with w) (Some fr) s = (case w (In_rx 26) (n_tick s + 1000) (asked src p fr s) of
      None \<Rightarrow> None
    | Some (r, z) \<Rightarrow> Some (case r of None \<Rightarrow> z | Some mac \<Rightarrow> ip_output mac (In_rx 26) IP_PROTO_ICMP Buf_reply (length p) z))"
    unfolding f(1) icmp_handle_echo [OF f(2) e(13-15) assms(2) [folded u(2)]] ip_send_def
    using f(3) e(11,12,14) assms(4) u by (simp del: deref.simps(2) split: option.splits prod.splits)
  show "length (icmp_reply (asked src p fr s)) = 1480"
    using assms(2) e(13,14) echo_reply_props(1) [of p] by (simp add: v arp_send_request_def eth_send_def with_reply_def u)
  show "n_sent (asked src p fr s) = n_sent s @ [mac_bcast @ net_mac s @ [8, 6] @ arp_pkt 1 (net_mac s) (net_ip s) (replicate 6 0) src]"
    using e(2,9,10) by (simp add: v u arp_send_request_def eth_send_def ETH_TYPE_ARP_def arp_pkt_def set_be16_def addr4_def)
qed

text \<open>An echo request from a peer on the subnet that is not in the ARP cache is lost when the peer's ARP answer is the next
  frame and no other frame follows before the deadline. The address to answer is a pointer into the receive buffer; the
  ARP answer is received into the same buffer, so that the pending lookup reads two bytes of the hardware address and two of
  the IP address instead. Unless that happens to be a cached address, the poll ends with the peer in the cache and
  nothing sent but the ARP request.\<close>

theorem icmp_echo_to_unknown_peer_lost:
  assumes "echo_request s src p fr" "length (icmp_reply s) = 1480" "arp_lookup src s = None" "on_subnet src s"
    and "cache_inv s" "length smac = 6" "ans = net_mac s @ smac @ [8, 6] @ arp_pkt 2 smac src (net_mac s) (net_ip s)"
    and "n_turns s (n_turn s) = (t, Some ans)" "t < n_tick s + 1000"
    and "\<And>i. n_turn s < i \<Longrightarrow> i < J \<Longrightarrow> snd (n_turns s i) = None" "n_turn s < J" "n_tick s + 1000 \<le> fst (n_turns s J)"
    and "arp_lookup (drop 4 smac @ take 2 src) (arp_insert src smac s) = None"
    and "J - n_turn s < n"
  shows "\<exists>s'. net_poll n (Some fr) s = Some s' \<and> arp_lookup src s' = Some smac \<and>
    n_sent s' = n_sent s @ [mac_bcast @ net_mac s @ [8, 6] @ arp_pkt 1 (net_mac s) (net_ip s) (replicate 6 0) src]"
proof -
  have a: "length (net_mac s) = 6" "addr4 src" "addr4 (net_ip s)" using assms(1) by (auto simp: echo_request_def)
  note e = echo_resolves [OF assms(1-4)]
  define v where "v = asked src p fr s"
  define w where "w = v\<lparr>n_tick := t, n_turn := Suc (n_turn s)\<rparr>"
  define x where "x = w\<lparr>eth_rx_frame := ans @ drop 42 (eth_rx_frame w)\<rparr>"
  note v = asked_simps [of src p fr s, folded v_def]
  obtain m where n: "n = Suc m" using assms(14) by (cases n) simp_all
  have turn: "next_turn (n_tick s + 1000) v = (Some (Some ans), w)" using assms(8,9) by (simp add: next_turn_eq v w_def)
  have poll: "net_poll_frame R (Some ans) w = Some (arp_insert src smac x)" "deref x (In_rx 26) = drop 4 smac @ take 2 src" for R
    unfolding x_def by (rule poll_arp_reply; use a assms(6,7) in \<open>simp add: w_def v\<close>)+
  let ?y = "arp_insert src smac x"
  have y: "arp_cache ?y = arp_cache (arp_insert src smac s)" "n_sent ?y = n_sent v" "n_turns ?y = n_turns s" "n_turn ?y = Suc (n_turn s)"
      "eth_rx_frame ?y = eth_rx_frame x"
    by (simp_all add: arp_insert_def x_def w_def v split: option.splits)
  have no: "arp_lookup (deref ?y (In_rx 26)) ?y = None" using poll(2) assms(13) y by (simp add: arp_lookup_def)
  have "\<exists>z. arp_wait m (In_rx 26) (n_tick s + 1000) ?y = Some (None, z) \<and> n_sent z = n_sent ?y \<and> arp_cache z = arp_cache ?y"
    by (rule arp_wait_idle [where J = J, OF _ no]) (use assms(10-12,14) n y in auto)
  then obtain z where z: "arp_wait m (In_rx 26) (n_tick s + 1000) ?y = Some (None, z)" "n_sent z = n_sent ?y" "arp_cache z = arp_cache ?y" by blast
  have "arp_wait n (In_rx 26) (n_tick s + 1000) v = Some (None, z)" using turn poll(1) no z(1) by (simp add: n)
  then have "net_poll n (Some fr) s = Some z" unfolding net_poll_def arp_resolve_def e(1) v_def by simp
  moreover have "arp_lookup src z = Some smac"
    using z(3) y(1) arp.lookup_same [OF assms(5) a(2), of smac] by (simp add: arp_lookup_def)
  ultimately show ?thesis using z(2) y(2) e(3) by (simp add: v_def)
qed




section \<open>An example\<close>

definition net_example :: net where
  "net_example = \<lparr>net_mac = [2, 0, 0, 0, 0, 1], net_ip = [10, 0, 0, 1], net_mask = [255, 255, 255, 0], net_gw = [10, 0, 0, 254],
     net_up = True,
     arp_cache = \<lparr>ae_ip = [10, 0, 0, 2], ae_mac = [2, 0, 0, 0, 0, 2], ae_valid = True\<rparr> #
       replicate 15 \<lparr>ae_ip = [0, 0, 0, 0], ae_mac = [0, 0, 0, 0, 0, 0], ae_valid = False\<rparr>,
     arp_cache_next = 1, eth_rx_frame = replicate 1518 0, icmp_reply = replicate 1480 0, icmp_pkt = replicate 40 0,
     udp_tx = replicate 1480 0, ping_waiting = False, ping_got = False, ping_seq_cur = 0, ping_seq = 0,
     handlers = replicate MAX_UDP_HANDLERS \<lparr>ur_port = 0, ur_fn = None, ur_used = False\<rparr>,
     dhcp_got_offer = False, dhcp_got_ack = False, dhcp_offered_ip = [0, 0, 0, 0], dhcp_server_ip = [0, 0, 0, 0],
     dhcp_offered_mask = [0, 0, 0, 0], dhcp_offered_gw = [0, 0, 0, 0], n_tick = 0, n_turns = \<lambda>i. (i, None), n_turn = 0, n_sent = []\<rparr>"

theorem arp_cache_sound_witness:
  "arp_lookup [10, 0, 0, 3] (arp_insert [10, 0, 0, 3] [1, 2, 3, 4, 5, 6]
     (fold (\<lambda>(k, mac). arp_insert k mac) [([10, 0, 0, 2], [9, 9, 9, 9, 9, 9])] net_example)) = Some [1, 2, 3, 4, 5, 6] \<and>
   arp_lookup [10, 0, 0, 3] (fold (\<lambda>(k, mac). arp_insert k mac) [([10, 0, 0, 2], [9, 9, 9, 9, 9, 9])] net_example) = None"
proof -
  have "cache_inv net_example" by (simp add: cache_inv_def net_example_def ARP_CACHE_SIZE_def addr4_def)
  then show ?thesis
    using arp_cache_sound [of net_example "[([10, 0, 0, 2], [9, 9, 9, 9, 9, 9])]" "[10, 0, 0, 3]" "[1, 2, 3, 4, 5, 6]"]
    by (simp add: addr4_def) (simp add: net_example_def arp_lookup_def ip_eq_def numeral_eq_Suc)
qed

theorem net_loops_return_witness: "\<exists>N. \<forall>n \<ge> N. net_poll n None net_example \<noteq> None \<and> dhcp_discover n net_example \<noteq> None"
proof -
  have "clock_runs net_example" by (simp add: clock_runs_def net_example_def)
  moreover have "\<forall>p. \<exists>K J. p \<le> K \<and> quiet_spell (n_turns net_example) (max 3000 0) K J"
  proof
    fix p :: nat
    have "quiet_spell (n_turns net_example) (max 3000 0) p (p + 3000)" by (simp add: quiet_spell_def net_example_def)
    then show "\<exists>K J. p \<le> K \<and> quiet_spell (n_turns net_example) (max 3000 0) K J" by blast
  qed
  ultimately show ?thesis using net_loops_return [of net_example 0 None "At [10, 0, 0, 9]" "[10, 0, 0, 9]" 0] by blast
qed

theorem dhcp_options_read_back_witness:
  "dhcp_option_type ([0x63, 0x82, 0x53, 0x63] @ [53, 1, 5, 1, 4, 255, 255, 255, 0] @ 0xFF # []) 312 = 5 \<and>
   dhcp_offered_mask (dhcp_parse_options ([0x63, 0x82, 0x53, 0x63] @ [53, 1, 5, 1, 4, 255, 255, 255, 0] @ 0xFF # []) 312 net_example)
     = [255, 255, 255, 0]"
  using dhcp_options_read_back [of "[(53, [5]), (1, [255, 255, 255, 0])]" "[0x63, 0x82, 0x53, 0x63]" 312 "[]" net_example]
  by (simp add: opt_ok_def enc_opt_def apply_opt_def)

text \<open>An echo request with one byte of data from \<open>10.0.0.2\<close>.\<close>

definition echo_ip :: "u8 list" where
  "echo_ip = [0x45, 0, 0, 29, 0, 0, 0x40, 0, 64, 1, 0, 0] @ [10, 0, 0, 2] @ [10, 0, 0, 1]"

theorem icmp_echo_answered_witness:
  "\<exists>s' hdr reply. net_poll 0 (Some ([2, 0, 0, 0, 0, 1] @ [2, 0, 0, 0, 0, 2] @ [8, 0] @ echo_ip @ [8, 0, 0, 0, 0, 1, 0, 1, 5])) net_example = Some s' \<and>
     n_sent s' = [[2, 0, 0, 0, 0, 2] @ [2, 0, 0, 0, 0, 1] @ [8, 0] @ hdr @ reply] \<and> rfc1071_valid hdr \<and> rfc1071_valid reply \<and> drop 4 reply = [0, 1, 0, 1, 5]"
proof -
  let ?p = "[8, 0, 0, 0, 0, 1, 0, 1, 5] :: u8 list"
  have e: "net_mac net_example = [2, 0, 0, 0, 0, 1]" "net_ip net_example = [10, 0, 0, 1]" "n_sent net_example = []"
    "length (icmp_reply net_example) = 1480" by (simp_all add: net_example_def)
  have h: "length echo_ip = 20" "echo_ip ! 0 = 0x45" "echo_ip ! 9 = 1" "get_be16 echo_ip 2 = 20 + length ?p"
    "drop 12 echo_ip = [10, 0, 0, 2] @ net_ip net_example"
    by (simp_all add: echo_ip_def e get_be16_eq byte_at_def)
  have s: "on_subnet [10, 0, 0, 2] net_example" by (simp add: on_subnet_def net_example_def numeral_eq_Suc)
  then have l: "arp_lookup (if on_subnet [10, 0, 0, 2] net_example then [10, 0, 0, 2] else net_gw net_example) net_example
      = Some [2, 0, 0, 0, 0, 2]"
    by (simp add: arp_lookup_def net_example_def ip_eq_def)
  show ?thesis
    using icmp_echo_answered [where n = 0 and s = net_example and smac = "[2, 0, 0, 0, 0, 2]" and p = ?p and src = "[10, 0, 0, 2]",
        OF _ _ _ h(1-5) _ _ _ _ _ _ _ e(4) l]
    by (simp add: e addr4_def ip_is_bcast_def ip_is_any_def) blast
qed




end
