(* ===== verification/Elf.thy ===== *)
theory Elf
  imports Vmm Vfs
begin

text \<open>
  \<open>kernel/elf.c\<close>: loading an executable into a fresh address space and submitting it as a task. The kernel state joins the
  file systems and the scheduler of \<open>Vfs\<close> (which holds the heap) with the memory of \<open>Vmm\<close> and the address spaces that are
  alive. \<open>None\<close> stands for a file-system driver that does not return.
\<close>

section \<open>Kernel state\<close>

record 's kernel =
  k_vfs :: "'s vfs"
  k_mem :: memory
  k_spaces :: "vmm_as list"

definition vm_of :: "'s kernel \<Rightarrow> vm" where
  "vm_of k = \<lparr>vm_heap = s_mem (v_sched (k_vfs k)), vm_mem = k_mem k\<rparr>"

definition set_vm :: "vm \<Rightarrow> 's kernel \<Rightarrow> 's kernel" where
  "set_vm s k = k\<lparr>k_vfs := (k_vfs k)\<lparr>v_sched := (v_sched (k_vfs k))\<lparr>s_mem := vm_heap s\<rparr>\<rparr>, k_mem := vm_mem s\<rparr>"

text \<open>The calls of \<open>cpu/vmm.c\<close> on this state.\<close>

definition k_alloc_page :: "vmm_as \<Rightarrow> 's kernel \<Rightarrow> (nat \<times> vmm_as \<times> 's kernel) option" where
  "k_alloc_page as k = map_option (\<lambda>(p, as, s). (p, as, set_vm s k)) (vmm_alloc_page as (vm_of k))"

definition k_map_page :: "vmm_as \<Rightarrow> nat \<Rightarrow> nat \<Rightarrow> 's kernel \<Rightarrow> (int \<times> vmm_as \<times> 's kernel) option" where
  "k_map_page as va pa k = map_option (\<lambda>(r, as, s). (r, as, set_vm s k)) (vmm_map_page as va pa VMM_PAGE_RW_U (vm_of k))"

definition k_create :: "'s kernel \<Rightarrow> (vmm_as option \<times> 's kernel) option" where
  "k_create k = map_option (\<lambda>(r, s). (r, set_vm s k)) (vmm_create_address_space (vm_of k))"

definition k_destroy :: "vmm_as \<Rightarrow> 's kernel \<Rightarrow> 's kernel option" where
  "k_destroy as k = map_option (\<lambda>s. set_vm s k) (vmm_destroy_address_space as (vm_of k))"

text \<open>\<open>vfs_read\<close> into kernel memory.\<close>

definition k_read :: "'s driver \<Rightarrow> int \<Rightarrow> nat \<Rightarrow> nat \<Rightarrow> 's kernel \<Rightarrow> (int \<times> 's kernel) option" where
  "k_read D fd buf count k =
     map_option (\<lambda>(n, out, v). (n, k\<lparr>k_vfs := v, k_mem := store_bytes (k_mem k) buf out\<rparr>)) (vfs_read D fd count (k_vfs k))"

section \<open>Headers\<close>

definition O_RDONLY :: u8 where "O_RDONLY = 0x01"
definition ELFCLASS64 :: u8 where "ELFCLASS64 = 2"
definition ELFDATA2LSB :: u8 where "ELFDATA2LSB = 1"
definition ET_EXEC :: nat where "ET_EXEC = 2"
definition EM_X86_64 :: nat where "EM_X86_64 = 62"
definition PT_LOAD :: nat where "PT_LOAD = 1"
definition ELF_MAX_PHDR :: nat where "ELF_MAX_PHDR = 8"
definition ELF_STACK_PAGES :: nat where "ELF_STACK_PAGES = 4"
definition ELF_PAGE_SIZE :: nat where "ELF_PAGE_SIZE = 4096"
definition ELF_MAX_ARGS :: nat where "ELF_MAX_ARGS = 8"

text \<open>The packed headers are read from their bytes: 64 of the file header, 56 of each program header.\<close>

record elf64_ehdr =
  e_ident :: "u8 list"
  e_type :: nat
  e_machine :: nat
  e_entry :: nat
  e_phoff :: nat
  e_phentsize :: nat
  e_phnum :: nat

definition ehdr_of :: "u8 list \<Rightarrow> elf64_ehdr" where
  "ehdr_of b = \<lparr>e_ident = map (byte_at b) [0..<16], e_type = le16 b 16, e_machine = le16 b 18, e_entry = le64 b 24,
     e_phoff = le64 b 32, e_phentsize = le16 b 54, e_phnum = le16 b 56\<rparr>"

record elf64_phdr =
  p_type :: nat
  p_offset :: nat
  p_vaddr :: nat
  p_filesz :: nat
  p_memsz :: nat

definition phdr_of :: "u8 list \<Rightarrow> nat \<Rightarrow> elf64_phdr" where
  "phdr_of b i = \<lparr>p_type = le32 b (56 * i), p_offset = le64 b (56 * i + 8), p_vaddr = le64 b (56 * i + 16),
     p_filesz = le64 b (56 * i + 32), p_memsz = le64 b (56 * i + 40)\<rparr>"

definition validate_ehdr :: "elf64_ehdr \<Rightarrow> int" where
  "validate_ehdr eh =
     (if e_ident eh ! 0 \<noteq> 0x7F \<or> e_ident eh ! 1 \<noteq> 0x45 \<or> e_ident eh ! 2 \<noteq> 0x4C \<or> e_ident eh ! 3 \<noteq> 0x46 then - 1
      else if e_ident eh ! 4 \<noteq> ELFCLASS64 \<or> e_ident eh ! 5 \<noteq> ELFDATA2LSB then - 1
      else if e_type eh \<noteq> ET_EXEC \<or> e_machine eh \<noteq> EM_X86_64 then - 1
      else if e_phnum eh = 0 \<or> e_phnum eh > ELF_MAX_PHDR then - 1
      else if e_phentsize eh \<noteq> 56 then - 1
      else 0)"

section \<open>Segments\<close>

text \<open>The loop of \<open>load_segment\<close> from address \<open>va\<close> on.\<close>

function load_pages :: "'s driver \<Rightarrow> int \<Rightarrow> vmm_as \<Rightarrow> nat \<Rightarrow> nat \<Rightarrow> nat \<Rightarrow> nat \<Rightarrow> nat \<Rightarrow> 's kernel \<Rightarrow> (int \<times> vmm_as \<times> 's kernel) option" where
  "load_pages D fd as seg_start seg_end content_off remaining va k =
     (if va < seg_end then do {
        (pa, as, k) \<leftarrow> k_alloc_page as k;
        (if pa = 0 then Some (- 1, as, k)
         else do {
           (r, as, k) \<leftarrow> k_map_page as va pa k;
           (if r \<noteq> 0 then Some (- 1, as, k)
            else
              let page_off = (if va = seg_start then content_off else 0);
                  page_room = ELF_PAGE_SIZE - page_off;
                  to_read = (if remaining < page_room then remaining else page_room)
              in if to_read > 0 then do {
                   (n, k) \<leftarrow> k_read D fd (pa + page_off) to_read k;
                   (if n \<noteq> int to_read then Some (- 1, as, k)
                    else load_pages D fd as seg_start seg_end content_off (remaining - to_read) (va + ELF_PAGE_SIZE) k)
                 }
                 else load_pages D fd as seg_start seg_end content_off remaining (va + ELF_PAGE_SIZE) k)
         })
      }
      else Some (0, as, k))"
  by pat_completeness auto
termination
  by (relation "measure (\<lambda>(D, fd, as, seg_start, seg_end, content_off, remaining, va, k). seg_end - va)") (auto simp: ELF_PAGE_SIZE_def)

declare load_pages.simps [simp del]

definition load_segment :: "'s driver \<Rightarrow> int \<Rightarrow> vmm_as \<Rightarrow> nat \<Rightarrow> nat \<Rightarrow> nat \<Rightarrow> nat \<Rightarrow> 's kernel \<Rightarrow> (int \<times> vmm_as \<times> 's kernel) option" where
  "load_segment D fd as seg_start seg_end content_off filesz k = load_pages D fd as seg_start seg_end content_off filesz seg_start k"

text \<open>The loop over the program headers; the result is 0 with the end of the highest segment, or -1.\<close>

fun load_segments :: "'s driver \<Rightarrow> int \<Rightarrow> elf64_phdr list \<Rightarrow> vmm_as \<Rightarrow> nat \<Rightarrow> 's kernel \<Rightarrow> (int \<times> nat \<times> vmm_as \<times> 's kernel) option" where
  "load_segments D fd [] as max_seg_end k = Some (0, max_seg_end, as, k)"
| "load_segments D fd (ph # phs) as max_seg_end k =
     (if p_type ph \<noteq> PT_LOAD \<or> p_memsz ph = 0 then load_segments D fd phs as max_seg_end k
      else
        let seg_start = p_vaddr ph div ELF_PAGE_SIZE * ELF_PAGE_SIZE;
            seg_end = add64 (add64 (p_vaddr ph) (p_memsz ph)) (ELF_PAGE_SIZE - 1) div ELF_PAGE_SIZE * ELF_PAGE_SIZE
        in if seg_start < VMM_USER_BASE \<or> seg_end > VMM_USER_BASE + VMM_USER_SIZE \<or> p_filesz ph > p_memsz ph then Some (- 1, max_seg_end, as, k)
           else
             let (sr, v) = vfs_seek fd (of_nat (p_offset ph)) (k_vfs k); k = k\<lparr>k_vfs := v\<rparr>
             in if sr \<noteq> 0 then Some (- 1, max_seg_end, as, k)
                else do {
                  (r, as, k) \<leftarrow> load_segment D fd as seg_start seg_end (p_vaddr ph - seg_start) (p_filesz ph) k;
                  (if r \<noteq> 0 then Some (- 1, max_seg_end, as, k)
                   else load_segments D fd phs as (if seg_end > max_seg_end then seg_end else max_seg_end) k)
                })"

text \<open>The loop over the stack pages, \<open>i\<close> to \<open>n\<close>.\<close>

fun map_stack :: "nat \<Rightarrow> nat \<Rightarrow> nat \<Rightarrow> vmm_as \<Rightarrow> 's kernel \<Rightarrow> (int \<times> vmm_as \<times> 's kernel) option" where
  "map_stack stack_top i 0 as k = Some (0, as, k)"
| "map_stack stack_top i (Suc n) as k =
     do {
       (pa, as, k) \<leftarrow> k_alloc_page as k;
       (if pa = 0 then Some (- 1, as, k)
        else do {
          (r, as, k) \<leftarrow> k_map_page as (stack_top - (i + 1) * ELF_PAGE_SIZE) pa k;
          (if r \<noteq> 0 then Some (- 1, as, k) else map_stack stack_top (i + 1) n as k)
        })
     }"

section \<open>Arguments\<close>

definition proc_args_sizeof :: nat where "proc_args_sizeof = 72"

text \<open>The loop over the arguments: strings packed behind the header, their addresses in the process stored in it.\<close>

fun copy_args :: "nat \<Rightarrow> nat \<Rightarrow> nat \<Rightarrow> nat \<Rightarrow> u8 list list \<Rightarrow> memory \<Rightarrow> nat \<times> memory" where
  "copy_args pa va str_off copied [] m = (copied, m)"
| "copy_args pa va str_off copied (arg # args) m =
     (let len = length arg in
      if str_off + len + 1 > ELF_PAGE_SIZE - proc_args_sizeof then (copied, m)
      else
        let m = store_bytes m (pa + proc_args_sizeof + str_off) (arg @ [0]);
            m = wr64 m (pa + 8 + 8 * copied) (of_nat (va + proc_args_sizeof + str_off))
        in copy_args pa va (str_off + len + 1) (copied + 1) args m)"

fun clear_args :: "nat \<Rightarrow> nat \<Rightarrow> nat \<Rightarrow> memory \<Rightarrow> memory" where
  "clear_args pa i 0 m = m"
| "clear_args pa i (Suc n) m = clear_args pa (i + 1) n (wr64 m (pa + 8 + 8 * i) 0)"

text \<open>\<open>argv\<close> are the argument strings, without their terminators; \<open>argc\<close> is their number.\<close>

definition write_args :: "nat \<Rightarrow> nat \<Rightarrow> u8 list list \<Rightarrow> memory \<Rightarrow> memory" where
  "write_args pa va argv m =
     (let (copied, m) = copy_args pa va 0 0 (take ELF_MAX_ARGS argv) m;
          m = wr64 m pa (of_nat copied)
      in clear_args pa copied (ELF_MAX_ARGS - copied) m)"

section \<open>The loader\<close>

text \<open>Failure after the address space exists: destroy it, close the file.\<close>

definition exec_fail :: "int option \<Rightarrow> vmm_as \<Rightarrow> 's kernel \<Rightarrow> (int \<times> 's kernel) option" where
  "exec_fail fd as k =
     do {
       k \<leftarrow> k_destroy as k;
       Some (- 1, case fd of None \<Rightarrow> k | Some fd \<Rightarrow> k\<lparr>k_vfs := snd (vfs_close fd (k_vfs k))\<rparr>)
     }"

definition close_fail :: "int \<Rightarrow> 's kernel \<Rightarrow> (int \<times> 's kernel) option" where
  "close_fail fd k = Some (- 1, k\<lparr>k_vfs := snd (vfs_close fd (k_vfs k))\<rparr>)"

text \<open>Submission of the loaded program.\<close>

definition exec_submit :: "sched_env \<Rightarrow> u8 list \<Rightarrow> nat \<Rightarrow> nat \<Rightarrow> nat \<Rightarrow> nat \<Rightarrow> vmm_as \<Rightarrow> 's kernel \<Rightarrow> (int \<times> 's kernel) option" where
  "exec_submit env name start argv_va stack_top max_seg_end as k =
     do {
       (slot, sc) \<leftarrow> sched_submit_user_as env (v_sched (k_vfs k)) name start argv_va (pml4_phys as) stack_top;
       let k = k\<lparr>k_vfs := (k_vfs k)\<lparr>v_sched := sc\<rparr>\<rparr>;
       (if slot < 0 then exec_fail None as k
        else
          let sc = upd_task (Slot (nat slot)) (\<lambda>t. t\<lparr>t_as := as_ptr as, t_heap_start := max_seg_end, t_heap_brk := max_seg_end,
                t_heap_end := argv_va\<rparr>) sc
          in Some (slot, k\<lparr>k_vfs := (k_vfs k)\<lparr>v_sched := sc\<rparr>, k_spaces := as # k_spaces k\<rparr>))
     }"

definition exec_load :: "'s driver \<Rightarrow> sched_env \<Rightarrow> int \<Rightarrow> elf64_ehdr \<Rightarrow> elf64_phdr list \<Rightarrow> u8 list \<Rightarrow> u8 list list \<Rightarrow> vmm_as \<Rightarrow> 's kernel \<Rightarrow>
    (int \<times> 's kernel) option" where
  "exec_load D env fd eh phdrs name argv as k =
     do {
       (r, max_seg_end, as, k) \<leftarrow> load_segments D fd phdrs as VMM_USER_BASE k;
       (if r \<noteq> 0 then exec_fail (Some fd) as k
        else if e_entry eh < VMM_USER_BASE \<or> e_entry eh \<ge> VMM_USER_BASE + VMM_USER_SIZE then exec_fail (Some fd) as k
        else do {
          let stack_top = VMM_USER_BASE + VMM_USER_SIZE - ELF_PAGE_SIZE;
          (r, as, k) \<leftarrow> map_stack stack_top 0 ELF_STACK_PAGES as k;
          (if r \<noteq> 0 then exec_fail (Some fd) as k
           else do {
             let k = k\<lparr>k_vfs := snd (vfs_close fd (k_vfs k))\<rparr>;
             let argv_va = stack_top - (ELF_STACK_PAGES + 1) * ELF_PAGE_SIZE;
             (pa, as, k) \<leftarrow> k_alloc_page as k;
             (if pa = 0 then exec_fail None as k
              else do {
                (r, as, k) \<leftarrow> k_map_page as argv_va pa k;
                (if r \<noteq> 0 then exec_fail None as k
                 else exec_submit env name (e_entry eh) argv_va stack_top max_seg_end as
                   (k\<lparr>k_mem := write_args pa argv_va argv (k_mem k)\<rparr>))
              })
           })
        })
     }"

definition elf_exec :: "'s driver \<Rightarrow> sched_env \<Rightarrow> u8 list \<Rightarrow> u8 list \<Rightarrow> u8 list list \<Rightarrow> 's kernel \<Rightarrow> (int \<times> 's kernel) option" where
  "elf_exec D env path name argv k =
     do {
       (fd, v) \<leftarrow> vfs_open D path O_RDONLY (k_vfs k);
       let k = k\<lparr>k_vfs := v\<rparr>;
       (if fd < 0 then Some (- 1, k)
        else do {
          (n, hdr, v) \<leftarrow> vfs_read D fd 64 (k_vfs k);
          let k = k\<lparr>k_vfs := v\<rparr>;
          let eh = ehdr_of hdr;
          (if n \<noteq> 64 \<or> validate_ehdr eh \<noteq> 0 then close_fail fd k
           else do {
             let (sr, v) = vfs_seek fd (of_nat (e_phoff eh)) (k_vfs k);
             let k = k\<lparr>k_vfs := v\<rparr>;
             (if sr \<noteq> 0 then close_fail fd k
              else do {
                (n, tbl, v) \<leftarrow> vfs_read D fd (e_phnum eh * 56) (k_vfs k);
                let k = k\<lparr>k_vfs := v\<rparr>;
                (if n \<noteq> int (e_phnum eh * 56) then close_fail fd k
                 else do {
                   (as, k) \<leftarrow> k_create k;
                   (case as of
                      None \<Rightarrow> close_fail fd k
                    | Some as \<Rightarrow> exec_load D env fd eh (map (phdr_of tbl) [0..<e_phnum eh]) name argv as k)
                 })
              })
           })
        })
     }"

end
