(* ===== verification/Vmm_Props.thy ===== *)
theory Vmm_Props
  imports Vmm
begin

text \<open>Correctness of the page tables and of the pointer check.\<close>

section \<open>Words in memory\<close>

lemma rdn_cong: "(\<And>i. i < k \<Longrightarrow> m (a + i) = m' (a + i)) \<Longrightarrow> rdn m a k = rdn m' a k"
proof (induction k arbitrary: a)
  case (Suc k)
  have "m a = m' a" using Suc.prems [of 0] by simp
  moreover have "rdn m (a + 1) k = rdn m' (a + 1) k" by (rule Suc.IH) (use Suc.prems [of "Suc i" for i] in simp)
  ultimately show ?case by simp
qed simp

lemma wrn_other: "b < a \<or> a + k \<le> b \<Longrightarrow> wrn m a k v b = m b"
  by (induction k arbitrary: a v) auto

lemma rdn_wrn_same: "rdn (wrn m a k v) a k = v mod 256 ^ k"
proof (induction k arbitrary: m a v)
  case (Suc k)
  have "rdn (wrn m a (Suc k) v) (a + 1) k = rdn (wrn m (a + 1) k (v div 256)) (a + 1) k" by (rule rdn_cong) simp
  then have "rdn (wrn m a (Suc k) v) (a + 1) k = v div 256 mod 256 ^ k" using Suc.IH by simp
  moreover have "unat (wrn m a (Suc k) v a) = v mod 256" by (simp add: unsigned_of_nat take_bit_eq_mod)
  ultimately show ?case unfolding rdn.simps(2) by (simp only: power_Suc mod_mult2_eq add.commute)
qed simp

lemma rdn_8: "rdn m a 8 = unat (m a) + 256 * (unat (m (a + 1)) + 256 * (unat (m (a + 1 + 1)) + 256 * (unat (m (a + 1 + 1 + 1)) + 256 *
    (unat (m (a + 1 + 1 + 1 + 1)) + 256 * (unat (m (a + 1 + 1 + 1 + 1 + 1)) + 256 * (unat (m (a + 1 + 1 + 1 + 1 + 1 + 1)) + 256 *
    (unat (m (a + 1 + 1 + 1 + 1 + 1 + 1 + 1)) + 256 * 0)))))))"
proof -
  have "(8 :: nat) = Suc (Suc (Suc (Suc (Suc (Suc (Suc (Suc 0)))))))" by simp
  then show ?thesis by (simp only: rdn.simps)
qed

lemma rd64_wr64_same [simp]: "rd64 (wr64 m a w) a = w"
proof -
  have "unat w mod 256 ^ 8 = unat w" using unsigned_less [of w, where 'a = nat] by simp
  then show ?thesis by (simp add: rd64_def wr64_def rdn_wrn_same)
qed

lemma rd64_wr64_other: "b + 8 \<le> a \<or> a + 8 \<le> b \<Longrightarrow> rd64 (wr64 m a w) b = rd64 m b"
  unfolding rd64_def wr64_def by (subst rdn_cong [where m' = m]) (auto simp: wrn_other)

lemma rd64_memset_other: "b + 8 \<le> p \<or> p + n \<le> b \<Longrightarrow> rd64 (memset m p v n) b = rd64 m b"
  unfolding rd64_def by (subst rdn_cong [where m' = m]) (auto simp: memset_spec)

lemma rdn_zero: "(\<And>i. i < k \<Longrightarrow> m (a + i) = 0) \<Longrightarrow> rdn m a k = 0"
proof (induction k arbitrary: a)
  case (Suc k)
  have "m a = 0" using Suc.prems [of 0] by simp
  moreover have "rdn m (a + 1) k = 0" by (rule Suc.IH) (use Suc.prems [of "Suc i" for i] in simp)
  ultimately show ?case by simp
qed simp

lemma rd64_memset_zero: "p \<le> b \<Longrightarrow> b + 8 \<le> p + n \<Longrightarrow> rd64 (memset m p 0 n) b = 0"
  unfolding rd64_def by (subst rdn_zero) (auto simp: memset_spec)

section \<open>Table entries\<close>

lemma page_apart:
  assumes "(t :: nat) mod 4096 = 0" "t' mod 4096 = 0" "t \<noteq> t'"
  shows "t + 4096 \<le> t' \<or> t' + 4096 \<le> t"
proof -
  obtain q r where "t = 4096 * q" "t' = 4096 * r" using assms(1,2) by (metis dvd_def mod_eq_0_iff_dvd)
  then show ?thesis using assms(3) by (cases "q < r") auto
qed

lemma entry_apart:
  fixes t t' :: nat
  assumes "t mod 4096 = 0" "t' mod 4096 = 0" "i < 512" "j < 512" "(t, i) \<noteq> (t', j)"
  shows "t + 8 * i + 8 \<le> t' + 8 * j \<or> t' + 8 * j + 8 \<le> t + 8 * i"
proof (cases "t = t'")
  case True
  then show ?thesis using assms(5) by (cases "i < j") auto
next
  case False
  then show ?thesis using page_apart [OF assms(1,2)] assms(3,4) by auto
qed

lemma entry_wr64:
  assumes "t mod 4096 = 0" "t' mod 4096 = 0" "i < 512" "j < 512"
  shows "tbl_entry (wr64 m (t + 8 * i) w) t' j = (if t' = t \<and> j = i then w else tbl_entry m t' j)"
  using entry_apart [OF assms] rd64_wr64_other [of "t' + 8 * j" "t + 8 * i" m w] by (auto simp: tbl_entry_def)

lemma entry_fresh:
  assumes "p mod 4096 = 0" "t mod 4096 = 0" "j < 512"
  shows "tbl_entry (memset m p 0 4096) t j = (if t = p then 0 else tbl_entry m t j)"
proof (cases "t = p")
  case True
  then show ?thesis using assms by (simp add: tbl_entry_def rd64_memset_zero)
next
  case False
  then have "t + 8 * j + 8 \<le> p \<or> p + 4096 \<le> t + 8 * j"
    using page_apart [OF assms(2,1)] assms(3) by auto
  then show ?thesis using False by (simp add: tbl_entry_def rd64_memset_other)
qed

lemma mask_12: "PTE_ADDR_MASK = NOT (mask 12)"
  by (simp add: PTE_ADDR_MASK_def mask_eq_decr_exp)

lemma seven: "VMM_PAGE_RW_U = 7"
  by (simp add: VMM_PAGE_RW_U_def VMM_PAGE_P_def VMM_PAGE_W_def VMM_PAGE_U_def)

lemma pte_addr_link: "p mod 4096 = 0 \<Longrightarrow> p < 2 ^ 64 \<Longrightarrow> pte_addr (of_nat p OR VMM_PAGE_RW_U) = p"
proof -
  assume p: "p mod 4096 = 0" "p < 2 ^ 64"
  have "(7 :: u64) AND NOT (mask 12) = 0" by (simp add: mask_eq_decr_exp)
  then have "((of_nat p :: u64) OR 7) AND NOT (mask 12) = of_nat p AND NOT (mask 12)" by (simp add: bit.conj_disj_distrib2)
  then have "pte_addr (of_nat p OR VMM_PAGE_RW_U) = unat (of_nat p :: u64) div 4096 * 4096"
    by (simp add: pte_addr_def mask_12 seven unat_and_not_mask)
  also have "\<dots> = p" using p by (simp add: unsigned_of_nat take_bit_nat_eq_self) (metis add.right_neutral div_mult_mod_eq)
  finally show ?thesis .
qed

lemma present_bit: "present e \<longleftrightarrow> bit e 0"
  by (simp add: present_def VMM_PAGE_P_def and_one_eq bit_0 odd_iff_mod_2_eq_one)

lemma present_link [simp]: "present (a OR b) \<longleftrightarrow> present a \<or> present b" "present VMM_PAGE_RW_U" "present VMM_PAGE_P" "\<not> present 0"
  by (simp_all add: present_bit bit_or_iff seven VMM_PAGE_P_def del: bit_0)

section \<open>Live pages of the heap\<close>

definition hdr_raw :: "kmem \<Rightarrow> nat \<Rightarrow> nat" where
  "hdr_raw h p = km_words h (p - 8)"

definition live_ptr :: "kmem \<Rightarrow> nat \<Rightarrow> nat \<Rightarrow> bool" where
  "live_ptr h n p \<longleftrightarrow> p \<noteq> 0 \<and> (\<exists>l. (hdr_raw h p, l) \<in> kregions h \<and> hdr_raw h p + 8 \<le> p \<and> p + n \<le> hdr_raw h p + l)"

definition heap_ok :: "kmem \<Rightarrow> bool" where
  "heap_ok h \<longleftrightarrow> kmem_inv h \<and> kheap_ready h"

lemma kregions_apart:
  assumes "heap_ok h" "(p, l) \<in> kregions h" "(q, k) \<in> kregions h" "(p, l) \<noteq> (q, k)"
  shows "p + l \<le> q \<or> q + k \<le> p"
  using assms regions_apart [of "kheap h" p l q k] by (auto simp: heap_ok_def kmem_inv_def kregions_def)

lemma region_pos: "heap_ok h \<Longrightarrow> (p, l) \<in> kregions h \<Longrightarrow> 0 < l"
  using regions_in_heap [of "kheap h" p l] block_regions_bound(3) by (auto simp: heap_ok_def kmem_inv_def kregions_def)

lemma live_ptr_bound: "heap_ok h \<Longrightarrow> live_ptr h n p \<Longrightarrow> p + n < 2 ^ 64"
  using regions_end [of "kheap h" "kheap_area h + KHEAP_SIZE"]
  by (fastforce simp: heap_ok_def kmem_inv_def kregions_def live_ptr_def)

lemma live_ptr_region: "heap_ok h \<Longrightarrow> live_ptr h n p \<Longrightarrow> \<exists>!l. (hdr_raw h p, l) \<in> kregions h"
proof -
  assume h: "heap_ok h" "live_ptr h n p"
  then obtain l where l: "(hdr_raw h p, l) \<in> kregions h" "0 < l" unfolding live_ptr_def by fastforce
  have "k = l" if "(hdr_raw h p, k) \<in> kregions h" for k
  proof (rule ccontr)
    assume ne: "k \<noteq> l"
    then have "hdr_raw h p + l \<le> hdr_raw h p \<or> hdr_raw h p + k \<le> hdr_raw h p"
      using kregions_apart [OF h(1) l(1) that] by simp
    then have "k = 0" using l(2) by simp
    then show False using region_pos [OF h(1) that] by simp
  qed
  then show ?thesis using l(1) by blast
qed

text \<open>Two live pointers with different regions do not overlap.\<close>

lemma live_ptr_apart:
  assumes "heap_ok h" "live_ptr h n p" "live_ptr h k q" "hdr_raw h p \<noteq> hdr_raw h q"
  shows "p + n \<le> q \<or> q + k \<le> p"
  using assms kregions_apart [OF assms(1)] unfolding live_ptr_def by fastforce

text \<open>What an allocation does to the pointers that are live already.\<close>

lemma kmalloc_live:
  assumes "heap_ok h" "n + 0x2000 < 2 ^ 64"
  shows "\<exists>p h'. kmalloc h n align False = Some (p, None, h') \<and> heap_ok h' \<and>
    (if p = 0 then kregions h' = kregions h \<and> km_words h' = km_words h
     else live_ptr h' n p \<and> (align \<longrightarrow> p mod 4096 = 0) \<and>
       (\<exists>l. (hdr_raw h' p, l) \<notin> kregions h \<and> kregions h' = insert (hdr_raw h' p, l) (kregions h)) \<and>
       (\<forall>q k. live_ptr h k q \<longrightarrow> live_ptr h' k q \<and> hdr_raw h' q = hdr_raw h q \<and> hdr_raw h' q \<noteq> hdr_raw h' p))"
proof -
  obtain p h' where a: "kmalloc h n align False = Some (p, None, h')" "heap_ok h'"
    "if p = 0 then kregions h' = kregions h \<and> km_words h' = km_words h
     else \<exists>raw l. raw \<noteq> 0 \<and> kregions h' = insert (raw, l) (kregions h) \<and> (raw, l) \<notin> kregions h \<and>
       raw + 8 \<le> p \<and> p + n \<le> raw + l \<and> (align \<longrightarrow> p mod 0x1000 = 0) \<and> km_words h' = (km_words h)(p - 8 := raw)"
    using kmalloc_spec [of h n align False] assms by (auto simp: heap_ok_def)
  show ?thesis
  proof (cases "p = 0")
    case False
    then obtain raw l where r: "kregions h' = insert (raw, l) (kregions h)" "(raw, l) \<notin> kregions h" "raw + 8 \<le> p" "p + n \<le> raw + l"
      "align \<longrightarrow> p mod 0x1000 = 0" "km_words h' = (km_words h)(p - 8 := raw)" using a(3) by auto
    have raw: "hdr_raw h' p = raw" using r(6) by (simp add: hdr_raw_def)
    have old: "live_ptr h' k q \<and> hdr_raw h' q = hdr_raw h q \<and> hdr_raw h' q \<noteq> raw" if q: "live_ptr h k q" for q k
    proof -
      obtain m where m: "(hdr_raw h q, m) \<in> kregions h" "hdr_raw h q + 8 \<le> q" "q + k \<le> hdr_raw h q + m" "q \<noteq> 0"
        using q by (auto simp: live_ptr_def)
      then have ap: "raw + l \<le> hdr_raw h q \<or> hdr_raw h q + m \<le> raw" using kregions_apart [OF a(2), of raw l "hdr_raw h q" m] r(1,2) by auto
      have ne: "p - 8 \<noteq> q - 8" using ap m(2,3) r(3,4) by auto
      then have "hdr_raw h' q = hdr_raw h q" using r(6) by (simp add: hdr_raw_def)
      moreover have "hdr_raw h q \<noteq> raw" using ap m r(3,4) by auto
      ultimately show ?thesis using m r(1) by (auto simp: live_ptr_def)
    qed
    have "live_ptr h' n p" using r(1,3,4) False raw by (auto simp: live_ptr_def)
    moreover have "\<exists>l. (hdr_raw h' p, l) \<notin> kregions h \<and> kregions h' = insert (hdr_raw h' p, l) (kregions h)" using r(1,2) raw by auto
    moreover have "\<forall>q k. live_ptr h k q \<longrightarrow> live_ptr h' k q \<and> hdr_raw h' q = hdr_raw h q \<and> hdr_raw h' q \<noteq> hdr_raw h' p"
      using old raw by metis
    ultimately show ?thesis using a(1,2) False r(5) by (intro exI [of _ p] exI [of _ h']) (simp; metis)
  qed (use a in auto)
qed

section \<open>The tables of an address space\<close>

definition pdpt_of :: "memory \<Rightarrow> vmm_as \<Rightarrow> nat" where
  "pdpt_of m as = pte_addr (tbl_entry m (pml4_phys as) 0)"

definition pd_of :: "memory \<Rightarrow> vmm_as \<Rightarrow> nat" where
  "pd_of m as = pte_addr (tbl_entry m (pdpt_of m as) 1)"

definition pt_of :: "memory \<Rightarrow> vmm_as \<Rightarrow> nat \<Rightarrow> nat" where
  "pt_of m as i = pte_addr (tbl_entry m (pd_of m as) i)"

definition pd_present :: "memory \<Rightarrow> vmm_as \<Rightarrow> bool" where
  "pd_present m as \<longleftrightarrow> present (tbl_entry m (pdpt_of m as) 1)"

definition pt_present :: "memory \<Rightarrow> vmm_as \<Rightarrow> nat \<Rightarrow> bool" where
  "pt_present m as i \<longleftrightarrow> i < 512 \<and> pd_present m as \<and> present (tbl_entry m (pd_of m as) i)"

text \<open>The tables that exist are different pages, all owned by the space.\<close>

definition tables_ok :: "memory \<Rightarrow> vmm_as \<Rightarrow> bool" where
  "tables_ok m as \<longleftrightarrow> present (tbl_entry m (pml4_phys as) 0) \<and> pml4_phys as \<in> set (owned_pages as) \<and>
     pdpt_of m as \<in> set (owned_pages as) \<and> pdpt_of m as \<noteq> pml4_phys as \<and>
     (pd_present m as \<longrightarrow> pd_of m as \<in> set (owned_pages as) - {pml4_phys as, pdpt_of m as}) \<and>
     (\<forall>i. pt_present m as i \<longrightarrow> pt_of m as i \<in> set (owned_pages as) - {pml4_phys as, pdpt_of m as, pd_of m as}) \<and>
     inj_on (pt_of m as) {i. pt_present m as i}"

lemma tables_okI:
  assumes "present (tbl_entry m (pml4_phys as) 0)" "pml4_phys as \<in> set (owned_pages as)" "pdpt_of m as \<in> set (owned_pages as)"
    "pdpt_of m as \<noteq> pml4_phys as" "pd_present m as \<Longrightarrow> pd_of m as \<in> set (owned_pages as) - {pml4_phys as, pdpt_of m as}"
    "\<And>i. pt_present m as i \<Longrightarrow> pt_of m as i \<in> set (owned_pages as) - {pml4_phys as, pdpt_of m as, pd_of m as}"
    "inj_on (pt_of m as) {i. pt_present m as i}"
  shows "tables_ok m as"
  using assms unfolding tables_ok_def by blast

definition is_table :: "memory \<Rightarrow> vmm_as \<Rightarrow> nat \<Rightarrow> bool" where
  "is_table m as t \<longleftrightarrow> t = pml4_phys as \<or> t = pdpt_of m as \<or> pd_present m as \<and> t = pd_of m as \<or> (\<exists>i. pt_present m as i \<and> t = pt_of m as i)"

lemma is_table_owned: "tables_ok m as \<Longrightarrow> is_table m as t \<Longrightarrow> t \<in> set (owned_pages as)"
  by (auto simp: tables_ok_def is_table_def)

text \<open>The translation of the pages of the window.\<close>

definition user_page :: "nat \<Rightarrow> bool" where
  "user_page va \<longleftrightarrow> VMM_USER_BASE \<le> va \<and> va < VMM_USER_BASE + VMM_USER_SIZE \<and> va mod 0x1000 = 0"

definition as_map :: "memory \<Rightarrow> vmm_as \<Rightarrow> nat \<Rightarrow> u64 option" where
  "as_map m as va =
     (if user_page va then
        (case leaf_pte m (pdpt_of m as) va of Some e \<Rightarrow> if present e then Some e else None | None \<Rightarrow> None)
      else None)"

lemma user_page_idx: "VMM_USER_BASE \<le> va \<Longrightarrow> va < VMM_USER_BASE + VMM_USER_SIZE \<Longrightarrow> va div 2 ^ 30 mod 512 = 1"
proof -
  assume "VMM_USER_BASE \<le> va" "va < VMM_USER_BASE + VMM_USER_SIZE"
  then have "va div 2 ^ 30 = 1" by (intro div_nat_eqI) (simp_all add: VMM_USER_BASE_def VMM_USER_SIZE_def)
  then show ?thesis by simp
qed

lemma as_map_eq:
  "user_page va \<Longrightarrow> as_map m as va =
     (let i = va div 2 ^ 21 mod 512; e = tbl_entry m (pt_of m as i) (va div 2 ^ 12 mod 512)
      in if pt_present m as i \<and> present e then Some e else None)"
  using user_page_idx [of va]
  by (simp add: as_map_def leaf_pte_def pt_present_def pd_present_def pt_of_def pd_of_def user_page_def Let_def)

lemma as_map_none: "\<not> user_page va \<Longrightarrow> as_map m as va = None"
  by (simp add: as_map_def)

lemma user_page_inj:
  assumes "user_page va" "user_page vb" "va div 2 ^ 21 mod 512 = vb div 2 ^ 21 mod 512" "va div 2 ^ 12 mod 512 = vb div 2 ^ 12 mod 512"
  shows "va = vb"
proof -
  have split: "v = 2 ^ 30 + (v div 2 ^ 21 mod 512) * 2 ^ 21 + (v div 2 ^ 12 mod 512) * 2 ^ 12" if "user_page v" for v
  proof -
    define q where "q = v div 4096"
    have v: "v = q * 4096" using that by (simp add: user_page_def q_def) (metis div_mod_decomp add_0_right)
    define r where "r = q div 512"
    have q: "q = r * 512 + q mod 512" unfolding r_def by simp
    have r: "r = r div 512 * 512 + r mod 512" by simp
    have "v div 2 ^ 30 = 1" using that
      by (intro div_nat_eqI) (simp_all add: user_page_def VMM_USER_BASE_def VMM_USER_SIZE_def)
    then have "r div 512 = 1" unfolding r_def q_def by (simp add: div_mult2_eq [symmetric])
    moreover have "v div 2 ^ 21 = r" unfolding r_def q_def by (simp add: div_mult2_eq [symmetric])
    moreover have "v div 2 ^ 12 = q" by (simp add: q_def)
    ultimately show ?thesis using v q r by simp
  qed
  show ?thesis using split [OF assms(1)] split [OF assms(2)] assms(3,4) by simp
qed

text \<open>The tables and the translation depend on the entries of the tables only.\<close>

lemma tables_frame:
  assumes ok: "tables_ok m as" and same: "\<And>t j. is_table m as t \<Longrightarrow> j < 512 \<Longrightarrow> tbl_entry m' t j = tbl_entry m t j"
    and own: "set (owned_pages as) \<subseteq> set (owned_pages as')" "pml4_phys as' = pml4_phys as"
  shows "tables_ok m' as'" "as_map m' as' = as_map m as" "pdpt_of m' as' = pdpt_of m as" "pd_of m' as' = pd_of m as"
    "pd_present m' as' = pd_present m as" "pt_present m' as' = pt_present m as" "\<And>i. pt_present m as i \<Longrightarrow> pt_of m' as' i = pt_of m as i"
    "is_table m' as' = is_table m as"
proof -
  have o: "is_table m as (pml4_phys as)" "is_table m as (pdpt_of m as)"
    "pd_present m as \<Longrightarrow> is_table m as (pd_of m as)" "\<And>i. pt_present m as i \<Longrightarrow> is_table m as (pt_of m as i)"
    by (auto simp: is_table_def)
  show 1: "pdpt_of m' as' = pdpt_of m as" unfolding pdpt_of_def own(2) using same [OF o(1), of 0] by simp
  show 2: "pd_present m' as' = pd_present m as" unfolding pd_present_def 1 using same [OF o(2), of 1] by simp
  show 3: "pd_of m' as' = pd_of m as" unfolding pd_of_def 1 using same [OF o(2), of 1] by simp
  show 4: "pt_present m' as' = pt_present m as" unfolding pt_present_def fun_eq_iff 2 3 using same [OF o(3)] by auto
  show 5: "pt_of m' as' i = pt_of m as i" if "pt_present m as i" for i
    unfolding pt_of_def 3 using same [OF o(3), of i] that by (auto simp: pt_present_def)
  show "is_table m' as' = is_table m as" using 5 by (auto simp: is_table_def fun_eq_iff own(2) 1 2 3 4)
  have "inj_on (pt_of m' as') {i. pt_present m as i}" using ok 5 unfolding tables_ok_def inj_on_def by simp
  then show "tables_ok m' as'"
    using ok same [OF o(1), of 0] own 5 unfolding tables_ok_def 1 2 3 4 by auto
  show "as_map m' as' = as_map m as"
  proof
    fix va
    show "as_map m' as' va = as_map m as va"
    proof (cases "user_page va \<and> pt_present m as (va div 2 ^ 21 mod 512)")
      case True
      then show ?thesis using 4 5 same [OF o(4), of "va div 2 ^ 21 mod 512" "va div 2 ^ 12 mod 512"] by (simp add: as_map_eq Let_def)
    next
      case False
      then show ?thesis using 4 by (cases "user_page va") (simp_all add: as_map_eq Let_def as_map_none)
    qed
  qed
qed

section \<open>Several address spaces\<close>

definition as_ptrs :: "vmm_as \<Rightarrow> nat list" where
  "as_ptrs as = as_ptr as # owned_pages as"

text \<open>The structures and pages of all spaces are different live allocations of the heap.\<close>

definition spaces_ok :: "vmm_as list \<Rightarrow> vm \<Rightarrow> bool" where
  "spaces_ok ass s \<longleftrightarrow> heap_ok (vm_heap s) \<and> distinct (map (hdr_raw (vm_heap s)) (concat (map as_ptrs ass))) \<and>
     (\<forall>as \<in> set ass. live_ptr (vm_heap s) vmm_as_sizeof (as_ptr as) \<and>
        (\<forall>p \<in> set (owned_pages as). live_ptr (vm_heap s) 4096 p \<and> p mod 4096 = 0) \<and> tables_ok (vm_mem s) as)"

text \<open>The pages of a space in order, its tables aside.\<close>

definition pages_ok :: "vmm_as \<Rightarrow> vmm_as list \<Rightarrow> vm \<Rightarrow> bool" where
  "pages_ok as rest s \<longleftrightarrow> heap_ok (vm_heap s) \<and> distinct (map (hdr_raw (vm_heap s)) (as_ptrs as @ concat (map as_ptrs rest))) \<and>
     live_ptr (vm_heap s) vmm_as_sizeof (as_ptr as) \<and>
     (\<forall>p \<in> set (owned_pages as). live_ptr (vm_heap s) 4096 p \<and> p mod 4096 = 0) \<and> spaces_ok rest s"

lemma spaces_ok_Cons: "spaces_ok (as # rest) s \<longleftrightarrow> pages_ok as rest s \<and> tables_ok (vm_mem s) as"
  by (auto simp: spaces_ok_def pages_ok_def)

lemma other_pages:
  assumes "pages_ok as rest s" "p \<in> set (owned_pages as)" "b \<in> set rest" "q \<in> set (owned_pages b)"
  shows "p \<noteq> q" "p mod 4096 = 0" "q mod 4096 = 0"
proof -
  have "q \<in> set (concat (map as_ptrs rest))" using assms(3,4) by (auto simp: as_ptrs_def)
  then have "hdr_raw (vm_heap s) p \<noteq> hdr_raw (vm_heap s) q"
    using assms(1,2) unfolding pages_ok_def by (auto simp: as_ptrs_def image_iff disjoint_iff)
  then show "p \<noteq> q" by blast
  show "p mod 4096 = 0" "q mod 4096 = 0" using assms by (auto simp: pages_ok_def spaces_ok_def)
qed

text \<open>A change of the memory that leaves the entries of the other spaces alone.\<close>

definition unchanged_in :: "vmm_as list \<Rightarrow> memory \<Rightarrow> memory \<Rightarrow> bool" where
  "unchanged_in ass m m' \<longleftrightarrow> (\<forall>b \<in> set ass. \<forall>t \<in> set (owned_pages b). \<forall>j < 512. tbl_entry m' t j = tbl_entry m t j)"

lemma unchanged_maps:
  assumes "spaces_ok ass s" "unchanged_in ass (vm_mem s) m'" "b \<in> set ass"
  shows "tables_ok m' b" "as_map m' b = as_map (vm_mem s) b"
proof -
  have ok: "tables_ok (vm_mem s) b" using assms(1,3) by (simp add: spaces_ok_def)
  have same: "tbl_entry m' t j = tbl_entry (vm_mem s) t j" if "is_table (vm_mem s) b t" "j < 512" for t j
    using assms(2,3) is_table_owned [OF ok] that by (simp add: unchanged_in_def)
  show "tables_ok m' b" "as_map m' b = as_map (vm_mem s) b" using tables_frame(1,2) [OF ok same order_refl refl] by simp_all
qed

lemma spaces_ok_mem: "spaces_ok ass s \<Longrightarrow> unchanged_in ass (vm_mem s) m' \<Longrightarrow> spaces_ok ass (s\<lparr>vm_mem := m'\<rparr>)"
  using unchanged_maps(1) [of ass s m'] by (auto simp: spaces_ok_def)

lemma pages_ok_write:
  assumes "pages_ok as rest s" "t \<in> set (owned_pages as)" "i < 512"
  shows "pages_ok as rest (s\<lparr>vm_mem := wr64 (vm_mem s) (t + 8 * i) w\<rparr>)"
    "unchanged_in rest (vm_mem s) (wr64 (vm_mem s) (t + 8 * i) w)"
proof -
  show u: "unchanged_in rest (vm_mem s) (wr64 (vm_mem s) (t + 8 * i) w)"
    unfolding unchanged_in_def using other_pages [OF assms(1,2)] assms(3) by (auto simp: entry_wr64)
  have "spaces_ok rest s" using assms(1) by (simp add: pages_ok_def)
  from spaces_ok_mem [OF this u] show "pages_ok as rest (s\<lparr>vm_mem := wr64 (vm_mem s) (t + 8 * i) w\<rparr>)"
    using assms(1) by (simp add: pages_ok_def)
qed

text \<open>The regions of the heap that do not belong to a space.\<close>

definition others_regions :: "kmem \<Rightarrow> vmm_as \<Rightarrow> (nat \<times> nat) set" where
  "others_regions h as = {r \<in> kregions h. fst r \<notin> hdr_raw h ` set (as_ptrs as)}"

lemma pages_live:
  assumes "pages_ok as rest s" "q \<in> set (as_ptrs as @ concat (map as_ptrs rest))"
  shows "\<exists>k. live_ptr (vm_heap s) k q"
proof -
  have "live_ptr (vm_heap s) vmm_as_sizeof (as_ptr b)" "\<And>p. p \<in> set (owned_pages b) \<Longrightarrow> live_ptr (vm_heap s) 4096 p"
    if "b \<in> set (as # rest)" for b
    using that assms(1) by (auto simp: pages_ok_def spaces_ok_def)
  moreover obtain b where "b \<in> set (as # rest)" "q \<in> set (as_ptrs b)" using assms(2) by auto
  ultimately show ?thesis by (fastforce simp: as_ptrs_def)
qed

lemma alloc_page_ok:
  assumes ok: "pages_ok as rest s"
  shows "\<exists>p as' s'. vmm_alloc_page as s = Some (p, as', s') \<and> pages_ok as' rest s' \<and> unchanged_in (as # rest) (vm_mem s) (vm_mem s') \<and>
    pml4_phys as' = pml4_phys as \<and> as_ptr as' = as_ptr as \<and> others_regions (vm_heap s') as' = others_regions (vm_heap s) as \<and>
    (if p = 0 then as' = as \<and> vm_mem s' = vm_mem s
     else owned_pages as' = owned_pages as @ [p] \<and> p \<notin> set (owned_pages as) \<and> p mod 4096 = 0 \<and> p < 2 ^ 64 \<and>
       (\<forall>j < 512. tbl_entry (vm_mem s') p j = 0))"
proof (cases "length (owned_pages as) \<ge> VMM_MAX_PAGES")
  case True
  then show ?thesis using ok by (simp add: vmm_alloc_page_def unchanged_in_def)
next
  case False
  have h: "heap_ok (vm_heap s)" using ok by (simp add: pages_ok_def)
  obtain p h' where k: "kmalloc (vm_heap s) 4096 True False = Some (p, None, h')" "heap_ok h'"
    "if p = 0 then kregions h' = kregions (vm_heap s) \<and> km_words h' = km_words (vm_heap s)
     else live_ptr h' 4096 p \<and> (True \<longrightarrow> p mod 4096 = 0) \<and>
       (\<exists>l. (hdr_raw h' p, l) \<notin> kregions (vm_heap s) \<and> kregions h' = insert (hdr_raw h' p, l) (kregions (vm_heap s))) \<and>
       (\<forall>q k. live_ptr (vm_heap s) k q \<longrightarrow> live_ptr h' k q \<and> hdr_raw h' q = hdr_raw (vm_heap s) q \<and> hdr_raw h' q \<noteq> hdr_raw h' p)"
    using kmalloc_live [OF h, of 4096 True] by auto
  show ?thesis
  proof (cases "p = 0")
    case True
    then have "pages_ok as rest (s\<lparr>vm_heap := h'\<rparr>)"
      using ok k(2,3) by (simp add: pages_ok_def spaces_ok_def hdr_raw_def [abs_def] live_ptr_def)
    then show ?thesis using False True k(1,3) by (simp add: vmm_alloc_page_def unchanged_in_def others_regions_def hdr_raw_def [abs_def])
  next
    case ne: False
    note k3 = k(3) [simplified ne if_False simp_thms]
    let ?m = "memset (vm_mem s) p 0 4096" and ?as = "as\<lparr>owned_pages := owned_pages as @ [p]\<rparr>"
    let ?P = "as_ptrs as @ concat (map as_ptrs rest)"
    have keep: "hdr_raw h' q = hdr_raw (vm_heap s) q \<and> hdr_raw h' q \<noteq> hdr_raw h' p" if "q \<in> set ?P" for q
      using pages_live [OF ok that] k3 by blast
    have raws: "map (hdr_raw h') ?P = map (hdr_raw (vm_heap s)) ?P" by (rule map_cong) (use keep in blast)+
    have new: "hdr_raw h' p \<notin> hdr_raw h' ` set ?P" using keep by (metis imageE)
    have "distinct (map (hdr_raw h') ?P)" using ok raws by (simp only: pages_ok_def)
    then have d: "distinct (map (hdr_raw h') (as_ptrs ?as @ concat (map as_ptrs rest)))" using new by (auto simp: as_ptrs_def)
    have np: "t \<noteq> p \<and> t mod 4096 = 0" if "t \<in> set (owned_pages b)" "b \<in> set (as # rest)" for t b
    proof -
      have "t \<in> set ?P" using that by (auto simp: as_ptrs_def)
      then show ?thesis using keep ok that by (auto simp: pages_ok_def spaces_ok_def)
    qed
    have u: "unchanged_in (as # rest) (vm_mem s) ?m"
      unfolding unchanged_in_def using np k3 by (auto simp: entry_fresh)
    have r: "spaces_ok rest s" using ok by (simp add: pages_ok_def)
    then have "spaces_ok rest (s\<lparr>vm_mem := ?m\<rparr>)" using spaces_ok_mem u by (simp add: unchanged_in_def)
    then have "spaces_ok rest (s\<lparr>vm_heap := h', vm_mem := ?m\<rparr>)"
      using k(2) k3 d unfolding spaces_ok_def by (auto simp: as_ptrs_def)
    then have "pages_ok ?as rest (s\<lparr>vm_heap := h', vm_mem := ?m\<rparr>)"
      using ok k(2) k3 d by (auto simp: pages_ok_def as_ptrs_def)
    moreover have "vmm_alloc_page as s = Some (p, ?as, s\<lparr>vm_heap := h', vm_mem := ?m\<rparr>)"
      using False ne k(1) by (simp add: vmm_alloc_page_def)
    moreover have "p \<notin> set (owned_pages as)" "p mod 4096 = 0" "\<forall>j < 512. tbl_entry ?m p j = 0"
      using np [of p as] k3 by (auto simp: entry_fresh)
    moreover have "p < 2 ^ 64" using live_ptr_bound [OF k(2)] k3 by fastforce
    moreover have "others_regions h' ?as = others_regions (vm_heap s) as"
    proof -
      obtain l where l: "kregions h' = insert (hdr_raw h' p, l) (kregions (vm_heap s))" "(hdr_raw h' p, l) \<notin> kregions (vm_heap s)"
        using k3 by blast
      have "fst r \<noteq> hdr_raw h' p" if "r \<in> kregions (vm_heap s)" for r
        using that l live_ptr_region [OF k(2), of 4096 p] k3 by (metis insertCI prod.collapse)
      moreover have "hdr_raw h' ` set (as_ptrs ?as) = insert (hdr_raw h' p) (hdr_raw (vm_heap s) ` set (as_ptrs as))"
        using keep by (auto simp: as_ptrs_def image_iff)
      ultimately show ?thesis using l(1) by (auto simp: others_regions_def)
    qed
    ultimately show ?thesis using u ne by simp
  qed
qed

section \<open>Mapping a page\<close>

text \<open>Steps that keep every translation.\<close>

definition quiet :: "vmm_as \<Rightarrow> vmm_as list \<Rightarrow> vm \<Rightarrow> vmm_as \<Rightarrow> vm \<Rightarrow> bool" where
  "quiet as rest s as' s' \<longleftrightarrow> spaces_ok (as' # rest) s' \<and> pml4_phys as' = pml4_phys as \<and> pdpt_of (vm_mem s') as' = pdpt_of (vm_mem s) as \<and>
     as_map (vm_mem s') as' = as_map (vm_mem s) as \<and> unchanged_in rest (vm_mem s) (vm_mem s') \<and>
     as_ptr as' = as_ptr as \<and> others_regions (vm_heap s') as' = others_regions (vm_heap s) as"

lemma unchanged_trans: "unchanged_in ass m m' \<Longrightarrow> unchanged_in ass m' m'' \<Longrightarrow> unchanged_in ass m m''"
  by (simp add: unchanged_in_def)

lemma quiet_trans: "quiet as rest s as1 s1 \<Longrightarrow> quiet as1 rest s1 as2 s2 \<Longrightarrow> quiet as rest s as2 s2"
  by (auto simp: quiet_def intro: unchanged_trans)

lemma quiet_refl: "spaces_ok (as # rest) s \<Longrightarrow> quiet as rest s as s"
  by (simp add: quiet_def unchanged_in_def)

text \<open>Pages owned before that are not tables do not become tables.\<close>

definition data_kept :: "vmm_as \<Rightarrow> vm \<Rightarrow> vmm_as \<Rightarrow> vm \<Rightarrow> bool" where
  "data_kept as s as' s' \<longleftrightarrow> set (owned_pages as) \<subseteq> set (owned_pages as') \<and>
     (\<forall>q \<in> set (owned_pages as). is_table (vm_mem s') as' q \<longrightarrow> is_table (vm_mem s) as q)"

lemma data_kept_trans: "data_kept as s as1 s1 \<Longrightarrow> data_kept as1 s1 as2 s2 \<Longrightarrow> data_kept as s as2 s2"
  unfolding data_kept_def by blast

lemma data_kept_refl [simp]: "data_kept as s as s"
  by (simp add: data_kept_def)

lemma alloc_quiet:
  assumes ok: "spaces_ok (as # rest) s"
  shows "\<exists>p as' s'. vmm_alloc_page as s = Some (p, as', s') \<and> quiet as rest s as' s' \<and>
    (pd_present (vm_mem s') as' = pd_present (vm_mem s) as) \<and> pd_of (vm_mem s') as' = pd_of (vm_mem s) as \<and>
    pt_present (vm_mem s') as' = pt_present (vm_mem s) as \<and>
    (\<forall>j. pt_present (vm_mem s) as j \<longrightarrow> pt_of (vm_mem s') as' j = pt_of (vm_mem s) as j) \<and>
    (p \<noteq> 0 \<longrightarrow> p \<in> set (owned_pages as') \<and> p \<notin> set (owned_pages as) \<and> p < 2 ^ 64 \<and> (\<forall>j < 512. tbl_entry (vm_mem s') p j = 0)) \<and>
    set (owned_pages as) \<subseteq> set (owned_pages as') \<and> is_table (vm_mem s') as' = is_table (vm_mem s) as"
proof -
  have po: "pages_ok as rest s" "tables_ok (vm_mem s) as" using ok by (simp_all add: spaces_ok_Cons)
  obtain p as' s' where a: "vmm_alloc_page as s = Some (p, as', s')" "pages_ok as' rest s'" "unchanged_in (as # rest) (vm_mem s) (vm_mem s')"
    "pml4_phys as' = pml4_phys as" "as_ptr as' = as_ptr as \<and> others_regions (vm_heap s') as' = others_regions (vm_heap s) as"
    "if p = 0 then as' = as \<and> vm_mem s' = vm_mem s
     else owned_pages as' = owned_pages as @ [p] \<and> p \<notin> set (owned_pages as) \<and> p mod 4096 = 0 \<and> p < 2 ^ 64 \<and>
       (\<forall>j < 512. tbl_entry (vm_mem s') p j = 0)" using alloc_page_ok [OF po(1)] by blast
  have sub: "set (owned_pages as) \<subseteq> set (owned_pages as')" using a(6) by (cases "p = 0") auto
  have same: "tbl_entry (vm_mem s') t j = tbl_entry (vm_mem s) t j" if "is_table (vm_mem s) as t" "j < 512" for t j
    using a(3) is_table_owned [OF po(2)] that by (simp add: unchanged_in_def)
  note fr = tables_frame [OF po(2) same sub a(4)]
  have "quiet as rest s as' s'" unfolding quiet_def spaces_ok_Cons using a(2-5) fr(1-3) by (simp add: unchanged_in_def)
  then show ?thesis using a(1,6) sub fr(4-8) by (intro exI [of _ p] exI [of _ as'] exI [of _ s']) (cases "p = 0"; simp)
qed

lemma owned_ok:
  assumes "spaces_ok (as # rest) s" "t \<in> set (owned_pages as)"
  shows "t mod 4096 = 0" "t \<noteq> 0"
  using assms by (auto simp: spaces_ok_def live_ptr_def)

text \<open>Linking a zeroed page as page directory, as page table, and storing a leaf.\<close>

lemma link_pd:
  assumes ok: "spaces_ok (as # rest) s" and np: "\<not> pd_present (vm_mem s) as"
    and p: "p \<in> set (owned_pages as)" "p \<noteq> pml4_phys as" "p \<noteq> pdpt_of (vm_mem s) as" "p < 2 ^ 64" "\<forall>j < 512. tbl_entry (vm_mem s) p j = 0"
  defines "m' \<equiv> wr64 (vm_mem s) (pdpt_of (vm_mem s) as + 8 * 1) (of_nat p OR VMM_PAGE_RW_U)"
  shows "quiet as rest s as (s\<lparr>vm_mem := m'\<rparr>)" "pd_present m' as" "pd_of m' as = p" "\<And>q. is_table m' as q \<Longrightarrow> is_table (vm_mem s) as q \<or> q = p"
proof -
  let ?m = "vm_mem s" and ?t = "pdpt_of (vm_mem s) as"
  have po: "pages_ok as rest s" "tables_ok ?m as" using ok by (simp_all add: spaces_ok_Cons)
  have o: "pml4_phys as \<in> set (owned_pages as)" "?t \<in> set (owned_pages as)" "?t \<noteq> pml4_phys as" using po(2) by (auto simp: tables_ok_def)
  have e: "tbl_entry m' t j = (if t = ?t \<and> j = 1 then of_nat p OR VMM_PAGE_RW_U else tbl_entry ?m t j)" if "t \<in> set (owned_pages as)" "j < 512" for t j
    unfolding m'_def by (rule entry_wr64) (use that o owned_ok [OF ok] in auto)
  have 1: "pdpt_of m' as = ?t" unfolding pdpt_of_def using e [OF o(1), of 0] o(3) by (simp add: pdpt_of_def)
  show 2: "pd_present m' as" unfolding pd_present_def 1 using e [OF o(2), of 1] by simp
  show 3: "pd_of m' as = p" unfolding pd_of_def 1 using e [OF o(2), of 1] p owned_ok(1) [OF ok p(1)] by (simp add: pte_addr_link)
  have 4: "\<not> pt_present m' as i" for i unfolding pt_present_def 3 using e [OF p(1), of i] p(3,5) by auto
  have 5: "\<not> pt_present ?m as i" for i using np by (simp add: pt_present_def)
  show "is_table ?m as q \<or> q = p" if "is_table m' as q" for q using that 4 by (auto simp: is_table_def 1 3)
  have "tables_ok m' as"
  proof (rule tables_okI)
    show "inj_on (pt_of m' as) {i. pt_present m' as i}" using 4 by (simp add: inj_on_def)
  qed (use po(2) e [OF o(1), of 0] o p(1-3) 4 in \<open>auto simp: tables_ok_def 1 3\<close>)
  moreover have "as_map m' as va = as_map ?m as va" for va
    using 4 5 by (cases "user_page va") (simp_all add: as_map_eq as_map_none Let_def)
  ultimately show "quiet as rest s as (s\<lparr>vm_mem := m'\<rparr>)"
    using pages_ok_write [OF po(1) o(2), of 1] 1 by (auto simp: quiet_def spaces_ok_Cons m'_def fun_eq_iff)
qed

lemma link_pt:
  assumes ok: "spaces_ok (as # rest) s" and pd: "pd_present (vm_mem s) as" and np: "\<not> pt_present (vm_mem s) as i" "i < 512"
    and p: "p \<in> set (owned_pages as)" "p \<notin> {pml4_phys as, pdpt_of (vm_mem s) as, pd_of (vm_mem s) as}"
      "\<And>j. pt_present (vm_mem s) as j \<Longrightarrow> pt_of (vm_mem s) as j \<noteq> p" "p < 2 ^ 64" "\<forall>j < 512. tbl_entry (vm_mem s) p j = 0"
  defines "m' \<equiv> wr64 (vm_mem s) (pd_of (vm_mem s) as + 8 * i) (of_nat p OR VMM_PAGE_RW_U)"
  shows "quiet as rest s as (s\<lparr>vm_mem := m'\<rparr>)" "pt_present m' as i" "pt_of m' as i = p" "pd_of m' as = pd_of (vm_mem s) as"
    "\<And>q. is_table m' as q \<Longrightarrow> is_table (vm_mem s) as q \<or> q = p"
proof -
  let ?m = "vm_mem s" and ?t = "pd_of (vm_mem s) as"
  have po: "pages_ok as rest s" "tables_ok ?m as" using ok by (simp_all add: spaces_ok_Cons)
  have o: "pml4_phys as \<in> set (owned_pages as)" "pdpt_of ?m as \<in> set (owned_pages as)" "?t \<in> set (owned_pages as)"
      "?t \<noteq> pml4_phys as" "?t \<noteq> pdpt_of ?m as" using po(2) pd by (auto simp: tables_ok_def)
  have e: "tbl_entry m' t j = (if t = ?t \<and> j = i then of_nat p OR VMM_PAGE_RW_U else tbl_entry ?m t j)" if "t \<in> set (owned_pages as)" "j < 512" for t j
    unfolding m'_def by (rule entry_wr64) (use that o np(2) owned_ok [OF ok] in auto)
  have 1: "pdpt_of m' as = pdpt_of ?m as" unfolding pdpt_of_def using e [OF o(1), of 0] o(4) by simp
  have 2: "pd_present m' as" unfolding pd_present_def 1 using e [OF o(2), of 1] o(5) pd by (auto simp: pd_present_def)
  show 3: "pd_of m' as = ?t" unfolding pd_of_def 1 using e [OF o(2), of 1] o(5) by (auto simp: pd_of_def)
  have 4: "pt_present m' as j \<longleftrightarrow> j = i \<or> pt_present ?m as j" for j
    unfolding pt_present_def 3 using e [OF o(3), of j] 2 pd np(2) by auto
  show "pt_present m' as i" using 4 by simp
  show 6: "pt_of m' as i = p" unfolding pt_of_def 3 using e [OF o(3) np(2)] owned_ok(1) [OF ok p(1)] p(4) by (simp add: pte_addr_link)
  have 5: "pt_of m' as j = pt_of ?m as j" if "pt_present ?m as j" for j
    unfolding pt_of_def 3 using e [OF o(3), of j] that np(1) by (auto simp: pt_present_def)
  show "is_table ?m as q \<or> q = p" if "is_table m' as q" for q using that 4 5 6 pd by (auto simp: is_table_def 1 3)
  have pts: "pt_of ?m as j \<in> set (owned_pages as) - {pml4_phys as, pdpt_of ?m as, ?t}" if "pt_present ?m as j" for j
    using po(2) that by (simp add: tables_ok_def)
  have "inj_on (pt_of m' as) {j. pt_present m' as j}"
  proof -
    have "{j. pt_present m' as j} = insert i {j. pt_present ?m as j}" using 4 by auto
    moreover have "inj_on (pt_of m' as) {j. pt_present ?m as j}" using po(2) 5 by (simp add: tables_ok_def inj_on_def)
    moreover have "pt_of m' as i \<notin> pt_of m' as ` {j. pt_present ?m as j}"
    proof
      assume "pt_of m' as i \<in> pt_of m' as ` {j. pt_present ?m as j}"
      then obtain j where "pt_present ?m as j" "pt_of m' as i = pt_of m' as j" by auto
      then show False using 5 [of j] 6 p(3) [of j] by simp
    qed
    ultimately show ?thesis by (metis inj_on_insert Diff_empty Diff_insert0 image_eqI)
  qed
  moreover have "pt_of m' as j \<in> set (owned_pages as) - {pml4_phys as, pdpt_of ?m as, ?t}" if "pt_present m' as j" for j
    using that 4 5 6 pts p(1,2) by auto
  ultimately have "tables_ok m' as"
    by (intro tables_okI) (use po(2) e [OF o(1), of 0] o in \<open>auto simp: tables_ok_def 1 3\<close>)
  moreover have "as_map m' as va = as_map ?m as va" for va
  proof (cases "user_page va")
    case True
    let ?i = "va div 2 ^ 21 mod 512" and ?j = "va div 2 ^ 12 mod 512"
    show ?thesis
    proof (cases "?i = i")
      case True
      then show ?thesis using \<open>user_page va\<close> 6 np(1) e [OF p(1), of ?j] p(2,5) by (auto simp: as_map_eq Let_def)
    next
      case False
      then show ?thesis using \<open>user_page va\<close> 4 5 pts e [of "pt_of ?m as ?i" ?j] by (auto simp: as_map_eq Let_def)
    qed
  qed (simp add: as_map_none)
  ultimately show "quiet as rest s as (s\<lparr>vm_mem := m'\<rparr>)"
    using pages_ok_write [OF po(1) o(3) np(2)] 1 by (auto simp: quiet_def spaces_ok_Cons m'_def fun_eq_iff)
qed

lemma store_leaf:
  assumes ok: "spaces_ok (as # rest) s" and pt: "pt_present (vm_mem s) as (va div 2 ^ 21 mod 512)" and va: "user_page va" and w: "present w"
  defines "m' \<equiv> wr64 (vm_mem s) (pt_of (vm_mem s) as (va div 2 ^ 21 mod 512) + 8 * (va div 2 ^ 12 mod 512)) w"
  shows "spaces_ok (as # rest) (s\<lparr>vm_mem := m'\<rparr>)" "as_map m' as = (as_map (vm_mem s) as)(va \<mapsto> w)"
    "unchanged_in rest (vm_mem s) m'" "is_table m' as = is_table (vm_mem s) as"
proof -
  let ?m = "vm_mem s" and ?i = "va div 2 ^ 21 mod 512" and ?j = "va div 2 ^ 12 mod 512"
  let ?t = "pt_of ?m as ?i"
  have po: "pages_ok as rest s" "tables_ok ?m as" using ok by (simp_all add: spaces_ok_Cons)
  have o: "pml4_phys as \<in> set (owned_pages as)" "pdpt_of ?m as \<in> set (owned_pages as)" "pd_of ?m as \<in> set (owned_pages as)"
      "?t \<in> set (owned_pages as)" "?t \<notin> {pml4_phys as, pdpt_of ?m as, pd_of ?m as}" and pd: "pd_present ?m as"
    using po(2) pt by (auto simp: tables_ok_def pt_present_def)
  have j: "?j < 512" by simp
  have e: "tbl_entry m' t k = (if t = ?t \<and> k = ?j then w else tbl_entry ?m t k)" if "t \<in> set (owned_pages as)" "k < 512" for t k
    unfolding m'_def by (rule entry_wr64) (use that o j owned_ok [OF ok] in auto)
  have 1: "pdpt_of m' as = pdpt_of ?m as" unfolding pdpt_of_def using e [OF o(1), of 0] o(5) by auto
  have 2: "pd_present m' as = pd_present ?m as" unfolding pd_present_def 1 using e [OF o(2), of 1] o(5) by auto
  have 3: "pd_of m' as = pd_of ?m as" unfolding pd_of_def 1 using e [OF o(2), of 1] o(5) by auto
  have 4: "pt_present m' as k = pt_present ?m as k" for k unfolding pt_present_def 2 3 using e [OF o(3), of k] o(5) by auto
  have 5: "pt_of m' as k = pt_of ?m as k" if "k < 512" for k unfolding pt_of_def 3 using e [OF o(3) that] o(5) by auto
  show "is_table m' as = is_table ?m as"
  proof
    fix q show "is_table m' as q = is_table ?m as q"
      unfolding is_table_def 1 2 3 4 using 5 by (auto simp: pt_present_def)
  qed
  have "inj_on (pt_of m' as) {k. pt_present m' as k}" using po(2) 4 5 by (simp add: tables_ok_def inj_on_def pt_present_def)
  moreover have "pt_of m' as k \<in> set (owned_pages as) - {pml4_phys as, pdpt_of ?m as, pd_of ?m as}" if "pt_present m' as k" for k
  proof -
    have k: "pt_present ?m as k" using that 4 by blast
    then have "k < 512" by (simp add: pt_present_def)
    then show ?thesis using k 5 po(2) by (simp add: tables_ok_def)
  qed
  ultimately have "tables_ok m' as"
    by (intro tables_okI) (use po(2) e [OF o(1), of 0] o pd in \<open>auto simp: tables_ok_def 1 3\<close>)
  then show "spaces_ok (as # rest) (s\<lparr>vm_mem := m'\<rparr>)" "unchanged_in rest (vm_mem s) m'"
    using pages_ok_write [OF po(1) o(4) j] by (auto simp: spaces_ok_Cons m'_def)
  show "as_map m' as = (as_map ?m as)(va \<mapsto> w)"
  proof
    fix vb :: nat
    let ?k = "vb div 2 ^ 21 mod 512" and ?l = "vb div 2 ^ 12 mod 512"
    show "as_map m' as vb = ((as_map ?m as)(va \<mapsto> w)) vb"
    proof (cases "user_page vb \<and> pt_present ?m as ?k")
      case True
      then have own: "pt_of ?m as ?k \<in> set (owned_pages as)" using po(2) by (simp add: tables_ok_def)
      have "pt_of ?m as ?k = ?t \<and> ?l = ?j \<longleftrightarrow> vb = va"
      proof -
        have "pt_of ?m as ?k = ?t \<Longrightarrow> ?k = ?i" using po(2) pt True by (auto simp: tables_ok_def dest: inj_onD)
        then show ?thesis using user_page_inj [of vb va] True va by auto
      qed
      then show ?thesis using True 4 5 e [OF own, of ?l] w by (auto simp: as_map_eq Let_def)
    next
      case False
      then have "vb \<noteq> va" using va pt by auto
      then show ?thesis using False 4 by (cases "user_page vb") (simp_all add: as_map_eq as_map_none Let_def)
    qed
  qed
qed

lemma ensure_pd:
  assumes ok: "spaces_ok (as # rest) s"
  shows "\<exists>pd as' s'. ensure_table as (pdpt_of (vm_mem s) as) 1 s = Some (pd, as', s') \<and> quiet as rest s as' s' \<and> data_kept as s as' s' \<and>
    (pd \<noteq> 0 \<longrightarrow> pd_present (vm_mem s') as' \<and> pd = pd_of (vm_mem s') as')"
proof (cases "pd_present (vm_mem s) as")
  case True
  then show ?thesis using quiet_refl [OF ok] by (simp add: ensure_table_def pd_present_def pd_of_def)
next
  case False
  obtain p as1 s1 where a: "vmm_alloc_page as s = Some (p, as1, s1)" "quiet as rest s as1 s1"
    "pd_present (vm_mem s1) as1 = pd_present (vm_mem s) as"
    "p \<noteq> 0 \<longrightarrow> p \<in> set (owned_pages as1) \<and> p \<notin> set (owned_pages as) \<and> p < 2 ^ 64 \<and> (\<forall>j < 512. tbl_entry (vm_mem s1) p j = 0)"
    "set (owned_pages as) \<subseteq> set (owned_pages as1)" "is_table (vm_mem s1) as1 = is_table (vm_mem s) as"
    using alloc_quiet [OF ok] by blast
  have q: "spaces_ok (as1 # rest) s1" "pml4_phys as1 = pml4_phys as" "pdpt_of (vm_mem s1) as1 = pdpt_of (vm_mem s) as" using a(2) by (simp_all add: quiet_def)
  show ?thesis
  proof (cases "p = 0")
    case True
    then show ?thesis using False a(1,2,5,6) by (simp add: ensure_table_def pd_present_def data_kept_def)
  next
    case ne: False
    have "p \<noteq> pml4_phys as1" "p \<noteq> pdpt_of (vm_mem s1) as1"
      using ok a(4) ne unfolding q(2,3) by (auto simp: spaces_ok_Cons tables_ok_def)
    then have l: "quiet as1 rest s1 as1 (s1\<lparr>vm_mem := wr64 (vm_mem s1) (pdpt_of (vm_mem s1) as1 + 8 * 1) (of_nat p OR VMM_PAGE_RW_U)\<rparr>)"
        "pd_present (wr64 (vm_mem s1) (pdpt_of (vm_mem s1) as1 + 8 * 1) (of_nat p OR VMM_PAGE_RW_U)) as1"
        "\<And>q. is_table (wr64 (vm_mem s1) (pdpt_of (vm_mem s1) as1 + 8 * 1) (of_nat p OR VMM_PAGE_RW_U)) as1 q \<Longrightarrow> is_table (vm_mem s1) as1 q \<or> q = p"
      using a(3,4) False ne by (intro link_pd [OF q(1)]; blast)+
    have dk: "data_kept as s as1 (s1\<lparr>vm_mem := wr64 (vm_mem s1) (pdpt_of (vm_mem s1) as1 + 8 * 1) (of_nat p OR VMM_PAGE_RW_U)\<rparr>)"
      using l(3) a(4-6) ne by (auto simp: data_kept_def)
    have "pdpt_of (wr64 (vm_mem s1) (pdpt_of (vm_mem s1) as1 + 8 * 1) (of_nat p OR VMM_PAGE_RW_U)) as1 = pdpt_of (vm_mem s1) as1"
      using l(1) by (simp add: quiet_def)
    then show ?thesis using False ne a(1) quiet_trans [OF a(2) l(1)] dk l(2) q(3) by (simp add: ensure_table_def pd_present_def pd_of_def)
  qed
qed

lemma ensure_pt:
  assumes ok: "spaces_ok (as # rest) s" and pd: "pd_present (vm_mem s) as" and i: "i < 512"
  shows "\<exists>pt as' s'. ensure_table as (pd_of (vm_mem s) as) i s = Some (pt, as', s') \<and> quiet as rest s as' s' \<and> data_kept as s as' s' \<and>
    (pt \<noteq> 0 \<longrightarrow> pt_present (vm_mem s') as' i \<and> pt = pt_of (vm_mem s') as' i)"
proof (cases "pt_present (vm_mem s) as i")
  case True
  then show ?thesis using quiet_refl [OF ok] by (simp add: ensure_table_def pt_present_def pt_of_def)
next
  case False
  then have np: "\<not> present (tbl_entry (vm_mem s) (pd_of (vm_mem s) as) i)" using pd i by (simp add: pt_present_def)
  obtain p as1 s1 where a: "vmm_alloc_page as s = Some (p, as1, s1)" "quiet as rest s as1 s1"
    "pd_present (vm_mem s1) as1 = pd_present (vm_mem s) as" "pd_of (vm_mem s1) as1 = pd_of (vm_mem s) as"
    "pt_present (vm_mem s1) as1 = pt_present (vm_mem s) as"
    "\<forall>j. pt_present (vm_mem s) as j \<longrightarrow> pt_of (vm_mem s1) as1 j = pt_of (vm_mem s) as j"
    "p \<noteq> 0 \<longrightarrow> p \<in> set (owned_pages as1) \<and> p \<notin> set (owned_pages as) \<and> p < 2 ^ 64 \<and> (\<forall>j < 512. tbl_entry (vm_mem s1) p j = 0)"
    "set (owned_pages as) \<subseteq> set (owned_pages as1)" "is_table (vm_mem s1) as1 = is_table (vm_mem s) as"
    using alloc_quiet [OF ok] by blast
  have q: "spaces_ok (as1 # rest) s1" "pml4_phys as1 = pml4_phys as" "pdpt_of (vm_mem s1) as1 = pdpt_of (vm_mem s) as" using a(2) by (simp_all add: quiet_def)
  show ?thesis
  proof (cases "p = 0")
    case True
    then show ?thesis using np a(1,2,8,9) by (simp add: ensure_table_def data_kept_def)
  next
    case ne: False
    have t: "tables_ok (vm_mem s) as" using ok by (simp add: spaces_ok_Cons)
    have "p \<notin> {pml4_phys as1, pdpt_of (vm_mem s1) as1, pd_of (vm_mem s1) as1}"
      using t pd a(7) ne unfolding q(2,3) a(4) by (auto simp: tables_ok_def)
    moreover have "pt_of (vm_mem s1) as1 j \<noteq> p" if j: "pt_present (vm_mem s1) as1 j" for j
      using t a(5-7) ne j by (auto simp: tables_ok_def)
    ultimately have l: "quiet as1 rest s1 as1 (s1\<lparr>vm_mem := wr64 (vm_mem s1) (pd_of (vm_mem s1) as1 + 8 * i) (of_nat p OR VMM_PAGE_RW_U)\<rparr>)"
        "pt_present (wr64 (vm_mem s1) (pd_of (vm_mem s1) as1 + 8 * i) (of_nat p OR VMM_PAGE_RW_U)) as1 i"
        "pd_of (wr64 (vm_mem s1) (pd_of (vm_mem s1) as1 + 8 * i) (of_nat p OR VMM_PAGE_RW_U)) as1 = pd_of (vm_mem s1) as1"
        "\<And>q. is_table (wr64 (vm_mem s1) (pd_of (vm_mem s1) as1 + 8 * i) (of_nat p OR VMM_PAGE_RW_U)) as1 q \<Longrightarrow> is_table (vm_mem s1) as1 q \<or> q = p"
      using a(3,5,7) pd False i ne by (intro link_pt [OF q(1)]; simp)+
    have dk: "data_kept as s as1 (s1\<lparr>vm_mem := wr64 (vm_mem s1) (pd_of (vm_mem s1) as1 + 8 * i) (of_nat p OR VMM_PAGE_RW_U)\<rparr>)"
      using l(4) a(7-9) ne by (auto simp: data_kept_def)
    then show ?thesis using np ne a(1) quiet_trans [OF a(2) l(1)] a(4) l(2,3) by (simp add: ensure_table_def pt_of_def)
  qed
qed

lemma map_page_ok:
  assumes "spaces_ok (as # rest) s"
  shows "\<exists>r as' s'. vmm_map_page as va pa flags s = Some (r, as', s') \<and> spaces_ok (as' # rest) s' \<and>
    as_ptr as' = as_ptr as \<and> others_regions (vm_heap s') as' = others_regions (vm_heap s) as \<and> data_kept as s as' s' \<and> unchanged_in rest (vm_mem s) (vm_mem s') \<and>
    (\<forall>b \<in> set rest. as_map (vm_mem s') b = as_map (vm_mem s) b) \<and>
    (if \<not> user_page va then r = - 1 \<and> as' = as \<and> s' = s
     else r \<in> {0, - 1} \<and> as_map (vm_mem s') as' =
       (if r = 0 then (as_map (vm_mem s) as)(va \<mapsto> (of_nat pa AND PTE_ADDR_MASK) OR (flags AND 0xFFF) OR VMM_PAGE_P) else as_map (vm_mem s) as))"
proof (cases "user_page va")
  case False
  then show ?thesis using assms by (auto simp: vmm_map_page_def user_page_def unchanged_in_def)
next
  case True
  have rest: "spaces_ok rest s" using assms by (simp add: spaces_ok_Cons pages_ok_def)
  have others: "\<forall>b \<in> set rest. as_map (vm_mem s') b = as_map (vm_mem s) b" if "unchanged_in rest (vm_mem s) (vm_mem s')" for s' :: vm
    using unchanged_maps(2) [OF rest that] by blast
  have idx: "va div 2 ^ 30 mod 512 = 1" using True user_page_idx by (simp add: user_page_def)
  obtain pd as1 s1 where 1: "ensure_table as (pdpt_of (vm_mem s) as) 1 s = Some (pd, as1, s1)" "quiet as rest s as1 s1"
      "data_kept as s as1 s1"
      "pd \<noteq> 0 \<longrightarrow> pd_present (vm_mem s1) as1 \<and> pd = pd_of (vm_mem s1) as1" using ensure_pd [OF assms] by blast
  have u: "\<not> (va < VMM_USER_BASE \<or> va \<ge> VMM_USER_BASE + VMM_USER_SIZE)" "\<not> va mod 0x1000 \<noteq> 0" using True by (auto simp: user_page_def)
  note map_eq = vmm_map_page_def [of as va pa flags s, unfolded if_not_P [OF u(1)] if_not_P [OF u(2)] Let_def idx pdpt_of_def [symmetric] 1(1)]
  show ?thesis
  proof (cases "pd = 0")
    case z: True
    then show ?thesis using True 1(2,3) others [of s1] by (simp add: map_eq quiet_def)
  next
    case pd: False
    have ok1: "spaces_ok (as1 # rest) s1" using 1(2) by (simp add: quiet_def)
    obtain pt as2 s2 where 2: "ensure_table as1 pd (va div 2 ^ 21 mod 512) s1 = Some (pt, as2, s2)" "quiet as1 rest s1 as2 s2" "data_kept as1 s1 as2 s2"
      "pt \<noteq> 0 \<longrightarrow> pt_present (vm_mem s2) as2 (va div 2 ^ 21 mod 512) \<and> pt = pt_of (vm_mem s2) as2 (va div 2 ^ 21 mod 512)"
      using ensure_pt [OF ok1, of "va div 2 ^ 21 mod 512"] 1(4) pd by auto
    note q = quiet_trans [OF 1(2) 2(2)] and dk = data_kept_trans [OF 1(3) 2(3)]
    show ?thesis
    proof (cases "pt = 0")
      case z: True
      then show ?thesis using True pd 2(1) q dk others [of s2] by (simp add: map_eq quiet_def)
    next
      case pt: False
      let ?w = "(of_nat pa AND PTE_ADDR_MASK) OR (flags AND 0xFFF) OR VMM_PAGE_P"
      have "spaces_ok (as2 # rest) s2" using q by (simp add: quiet_def)
      note l = store_leaf [OF this _ True, of ?w]
      let ?m = "wr64 (vm_mem s2) (pt + 8 * (va div 2 ^ 12 mod 512)) ?w"
      have "present ?w" by simp
      then have l: "spaces_ok (as2 # rest) (s2\<lparr>vm_mem := ?m\<rparr>)" "as_map ?m as2 = (as_map (vm_mem s) as)(va \<mapsto> ?w)" "unchanged_in rest (vm_mem s2) ?m"
          "is_table ?m as2 = is_table (vm_mem s2) as2"
        using l 2(4) pt q by (simp_all add: quiet_def)
      have "unchanged_in rest (vm_mem s) (vm_mem s2)" using q by (simp add: quiet_def)
      from others [of "s2\<lparr>vm_mem := ?m\<rparr>"] unchanged_trans [OF this l(3)]
      show ?thesis using True pd pt 2(1) l(1,2,4) q dk by (simp add: map_eq quiet_def data_kept_def)
    qed
  qed
qed

text \<open>C5: mapping a page. With any number of address spaces whose tables are in order, \<open>vmm_map_page\<close> refuses addresses
  outside the window or off a page boundary without any effect, and otherwise either adds exactly the one translation asked
  for or, out of memory, changes no translation; the tables stay in order and the translations of every other space are
  untouched.\<close>

theorem vmm_map_page_isolated:
  assumes "spaces_ok (as # rest) s"
  shows "\<exists>r as' s'. vmm_map_page as va pa flags s = Some (r, as', s') \<and> spaces_ok (as' # rest) s' \<and>
    (\<forall>b \<in> set rest. as_map (vm_mem s') b = as_map (vm_mem s) b) \<and>
    (if \<not> user_page va then r = - 1 \<and> as' = as \<and> s' = s
     else r \<in> {0, - 1} \<and> as_map (vm_mem s') as' =
       (if r = 0 then (as_map (vm_mem s) as)(va \<mapsto> (of_nat pa AND PTE_ADDR_MASK) OR (flags AND 0xFFF) OR VMM_PAGE_P) else as_map (vm_mem s) as))"
  using map_page_ok [OF assms, of va pa flags] by blast

section \<open>Creating and destroying\<close>

lemma kfree_live:
  assumes "heap_ok h" "live_ptr h n p"
  shows "\<exists>h'. kfree h p = Some h' \<and> heap_ok h' \<and> km_words h' = km_words h \<and> kregions h' = {r \<in> kregions h. fst r \<noteq> hdr_raw h p}"
proof -
  obtain l where l: "(hdr_raw h p, l) \<in> kregions h" "p \<noteq> 0" using assms(2) by (auto simp: live_ptr_def)
  obtain h' where k: "kfree h p = Some h'" "heap_ok h'" "km_words h' = km_words h" "kregions h' = kregions h - {(hdr_raw h p, l)}"
    using kfree_spec [of h p l] assms(1) l by (auto simp: heap_ok_def hdr_raw_def)
  have only: "r = (hdr_raw h p, l)" if "r \<in> kregions h" "fst r = hdr_raw h p" for r
    using live_ptr_region [OF assms] l(1) that by (cases r) auto
  have "kregions h' = {r \<in> kregions h. fst r \<noteq> hdr_raw h p}"
  proof (intro set_eqI iffI)
    fix r assume "r \<in> kregions h'"
    then show "r \<in> {r \<in> kregions h. fst r \<noteq> hdr_raw h p}" using k(4) only [of r] by blast
  next
    fix r assume "r \<in> {r \<in> kregions h. fst r \<noteq> hdr_raw h p}"
    then have "r \<in> kregions h" "r \<noteq> (hdr_raw h p, l)" by force+
    then show "r \<in> kregions h'" unfolding k(4) by blast
  qed
  then show ?thesis using k(1-3) by blast
qed

lemma live_ptr_kept:
  assumes "live_ptr h n q" "km_words h' = km_words h" "kregions h' = {r \<in> kregions h. fst r \<notin> R}" "hdr_raw h q \<notin> R"
  shows "live_ptr h' n q" "hdr_raw h' q = hdr_raw h q"
  using assms by (auto simp: live_ptr_def hdr_raw_def)

lemma kfree_all_live:
  assumes "heap_ok h" "distinct (map (hdr_raw h) ps)" "\<forall>p \<in> set ps. \<exists>n. live_ptr h n p"
  shows "\<exists>h'. kfree_all ps h = Some h' \<and> heap_ok h' \<and> km_words h' = km_words h \<and> kregions h' = {r \<in> kregions h. fst r \<notin> hdr_raw h ` set ps}"
  using assms
proof (induction ps arbitrary: h)
  case (Cons p ps)
  obtain n where "live_ptr h n p" using Cons.prems(3) by auto
  then obtain h1 where h1: "kfree h p = Some h1" "heap_ok h1" "km_words h1 = km_words h" "kregions h1 = {r \<in> kregions h. fst r \<noteq> hdr_raw h p}"
    using kfree_live [OF Cons.prems(1)] by blast
  have raw: "hdr_raw h1 = hdr_raw h" using h1(3) by (simp add: hdr_raw_def fun_eq_iff)
  have "\<exists>n. live_ptr h1 n q" if q: "q \<in> set ps" for q
  proof -
    obtain n where "live_ptr h n q" using Cons.prems(3) q by auto
    moreover have "hdr_raw h q \<notin> {hdr_raw h p}" using Cons.prems(2) q by (auto simp: image_iff)
    ultimately show ?thesis using live_ptr_kept(1) [OF _ h1(3), of n q "{hdr_raw h p}"] h1(4) by auto
  qed
  then obtain h2 where "kfree_all ps h1 = Some h2" "heap_ok h2" "km_words h2 = km_words h1"
      "kregions h2 = {r \<in> kregions h1. fst r \<notin> hdr_raw h1 ` set ps}"
    using Cons.IH [OF h1(2)] Cons.prems(2) raw by auto
  then show ?case using h1 raw by auto
qed auto

lemma destroy_ok:
  assumes "pages_ok as rest s"
  shows "\<exists>s'. vmm_destroy_address_space as s = Some s' \<and> spaces_ok rest s' \<and> vm_mem s' = vm_mem s \<and>
    kregions (vm_heap s') = others_regions (vm_heap s) as"
proof -
  let ?h = "vm_heap s"
  have a: "heap_ok ?h" "distinct (map (hdr_raw ?h) (as_ptrs as))" "live_ptr ?h vmm_as_sizeof (as_ptr as)"
    "\<forall>p \<in> set (owned_pages as). \<exists>n. live_ptr ?h n p" using assms by (auto simp: pages_ok_def)
  obtain h1 where h1: "kfree_all (owned_pages as) ?h = Some h1" "heap_ok h1" "km_words h1 = km_words ?h"
      "kregions h1 = {r \<in> kregions ?h. fst r \<notin> hdr_raw ?h ` set (owned_pages as)}"
    using kfree_all_live [OF a(1) _ a(4)] a(2) by (auto simp: as_ptrs_def)
  have raw: "hdr_raw h1 = hdr_raw ?h" using h1(3) by (simp add: hdr_raw_def fun_eq_iff)
  have "live_ptr h1 vmm_as_sizeof (as_ptr as)" using live_ptr_kept(1) [OF a(3) h1(3,4)] a(2) by (simp add: as_ptrs_def)
  then obtain h2 where h2: "kfree h1 (as_ptr as) = Some h2" "heap_ok h2" "km_words h2 = km_words h1"
      "kregions h2 = {r \<in> kregions h1. fst r \<noteq> hdr_raw h1 (as_ptr as)}" using kfree_live [OF h1(2)] by blast
  have k: "kregions h2 = {r \<in> kregions ?h. fst r \<notin> hdr_raw ?h ` set (as_ptrs as)}" "km_words h2 = km_words ?h" "hdr_raw h2 = hdr_raw ?h"
    using h1(4) h2(3,4) raw h1(3) by (auto simp: as_ptrs_def hdr_raw_def fun_eq_iff)
  have keep: "live_ptr h2 n q" if "live_ptr ?h n q" "q \<in> set (concat (map as_ptrs rest))" for n q
  proof -
    have "hdr_raw ?h ` set (as_ptrs as) \<inter> hdr_raw ?h ` set (concat (map as_ptrs rest)) = {}"
      using assms unfolding pages_ok_def map_append distinct_append set_map by blast
    then have "hdr_raw ?h q \<notin> hdr_raw ?h ` set (as_ptrs as)" using that(2) by blast
    then show ?thesis using live_ptr_kept(1) [OF that(1) k(2,1)] by blast
  qed
  have "live_ptr h2 vmm_as_sizeof (as_ptr b) \<and> (\<forall>p \<in> set (owned_pages b). live_ptr h2 4096 p \<and> p mod 4096 = 0) \<and> tables_ok (vm_mem s) b"
    if b: "b \<in> set rest" for b
  proof -
    have old: "live_ptr ?h vmm_as_sizeof (as_ptr b)" "\<forall>p \<in> set (owned_pages b). live_ptr ?h 4096 p \<and> p mod 4096 = 0" "tables_ok (vm_mem s) b"
      using assms b by (auto simp: pages_ok_def spaces_ok_def)
    have sub: "as_ptr b \<in> set (concat (map as_ptrs rest))" "\<And>p. p \<in> set (owned_pages b) \<Longrightarrow> p \<in> set (concat (map as_ptrs rest))"
      using b by (auto simp: as_ptrs_def)
    show ?thesis using old keep [OF old(1) sub(1)] keep [OF _ sub(2)] by blast
  qed
  moreover have "distinct (map (hdr_raw h2) (concat (map as_ptrs rest)))" using assms k(3) by (simp add: pages_ok_def)
  ultimately have "spaces_ok rest (s\<lparr>vm_heap := h2\<rparr>)" using h2(2) by (simp add: spaces_ok_def)
  then show ?thesis using h1(1) h2(1) k(1) by (simp add: vmm_destroy_address_space_def others_regions_def)
qed

lemma vmm_as_small: "vmm_as_sizeof + 0x2000 < 2 ^ 64"
  by (simp add: vmm_as_sizeof_def)

lemma new_struct_ok:
  assumes ok: "spaces_ok rest s" and k: "kmalloc (vm_heap s) vmm_as_sizeof False False = Some (p, x, h)" "p \<noteq> 0"
  defines "as \<equiv> \<lparr>as_ptr = p, pml4_phys = 0, owned_pages = []\<rparr>"
  shows "pages_ok as rest (s\<lparr>vm_heap := h\<rparr>)" "others_regions h as = kregions (vm_heap s)"
proof -
  have h: "heap_ok (vm_heap s)" using ok by (simp add: spaces_ok_def)
  obtain p' h' where "kmalloc (vm_heap s) vmm_as_sizeof False False = Some (p', None, h')" "heap_ok h'"
    "p' \<noteq> 0 \<longrightarrow> live_ptr h' vmm_as_sizeof p' \<and>
       (\<exists>l. (hdr_raw h' p', l) \<notin> kregions (vm_heap s) \<and> kregions h' = insert (hdr_raw h' p', l) (kregions (vm_heap s))) \<and>
       (\<forall>q k. live_ptr (vm_heap s) k q \<longrightarrow> live_ptr h' k q \<and> hdr_raw h' q = hdr_raw (vm_heap s) q \<and> hdr_raw h' q \<noteq> hdr_raw h' p')"
    using kmalloc_live [OF h, of vmm_as_sizeof False] vmm_as_small by metis
  moreover from this(1) have "p' = p" "h' = h" using k(1) by simp_all
  ultimately obtain l where a: "heap_ok h" "live_ptr h vmm_as_sizeof p" "(hdr_raw h p, l) \<notin> kregions (vm_heap s)"
      "kregions h = insert (hdr_raw h p, l) (kregions (vm_heap s))"
    and old: "\<And>q k. live_ptr (vm_heap s) k q \<Longrightarrow> live_ptr h k q \<and> hdr_raw h q = hdr_raw (vm_heap s) q \<and> hdr_raw h q \<noteq> hdr_raw h p"
    using k(2) by blast
  have live: "\<exists>n. live_ptr (vm_heap s) n q" if q: "q \<in> set (concat (map as_ptrs rest))" for q
  proof -
    obtain b where b: "b \<in> set rest" "q \<in> set (as_ptrs b)" using q by auto
    have "live_ptr (vm_heap s) vmm_as_sizeof (as_ptr b)" "\<And>p. p \<in> set (owned_pages b) \<Longrightarrow> live_ptr (vm_heap s) 4096 p"
      using ok b(1) by (auto simp: spaces_ok_def)
    then show ?thesis using b(2) by (fastforce simp: as_ptrs_def)
  qed
  then have same: "map (hdr_raw h) (concat (map as_ptrs rest)) = map (hdr_raw (vm_heap s)) (concat (map as_ptrs rest))"
    by (intro map_cong refl) (metis old)
  have "hdr_raw h p \<notin> hdr_raw h ` set (concat (map as_ptrs rest))"
  proof
    assume "hdr_raw h p \<in> hdr_raw h ` set (concat (map as_ptrs rest))"
    then obtain q where "q \<in> set (concat (map as_ptrs rest))" "hdr_raw h p = hdr_raw h q" by blast
    then show False using live old by metis
  qed
  moreover have "distinct (map (hdr_raw h) (concat (map as_ptrs rest)))" unfolding same using ok by (simp add: spaces_ok_def)
  moreover have "live_ptr h vmm_as_sizeof (as_ptr b) \<and> (\<forall>p \<in> set (owned_pages b). live_ptr h 4096 p \<and> p mod 4096 = 0) \<and> tables_ok (vm_mem s) b"
    if "b \<in> set rest" for b
    using ok that old unfolding spaces_ok_def by blast
  ultimately show "pages_ok as rest (s\<lparr>vm_heap := h\<rparr>)"
    using a(1,2) by (simp add: pages_ok_def spaces_ok_def as_ptrs_def as_def)
  have "fst r \<noteq> hdr_raw h p" if "r \<in> kregions (vm_heap s)" for r
    using live_ptr_region [OF a(1,2)] a(3,4) that by (metis insertCI prod.collapse)
  then show "others_regions h as = kregions (vm_heap s)" using a(4) by (auto simp: others_regions_def as_ptrs_def as_def)
qed

lemma pages_ok_pml4: "pages_ok (as\<lparr>pml4_phys := x\<rparr>) rest s = pages_ok as rest s" "others_regions h (as\<lparr>pml4_phys := x\<rparr>) = others_regions h as"
  by (simp_all add: pages_ok_def as_ptrs_def others_regions_def)

text \<open>The two top tables of a new space.\<close>

lemma new_tables_ok:
  assumes ok: "pages_ok as rest s" and own: "owned_pages as = [pml4, pdpt]" "pdpt \<noteq> pml4" "pdpt < 2 ^ 64"
    and z: "\<forall>j < 512. tbl_entry (vm_mem s) pdpt j = 0"
    and m: "m1 = wr64 (vm_mem s) pml4 (of_nat pdpt OR VMM_PAGE_RW_U)" "m2 = wr64 m1 pdpt x" "m3 = wr64 m2 (pdpt + 8 * 3) y"
  shows "spaces_ok (as\<lparr>pml4_phys := pml4\<rparr> # rest) (s\<lparr>vm_mem := m3\<rparr>)" "as_map m3 (as\<lparr>pml4_phys := pml4\<rparr>) = Map.empty"
    "unchanged_in rest (vm_mem s) m3"
proof -
  let ?as = "as\<lparr>pml4_phys := pml4\<rparr>"
  have al: "pml4 mod 4096 = 0" "pdpt mod 4096 = 0" using ok own by (auto simp: pages_ok_def)
  have w1: "pages_ok as rest (s\<lparr>vm_mem := m1\<rparr>)" "unchanged_in rest (vm_mem s) m1"
    using pages_ok_write [OF ok, of pml4 0] own(1) m(1) by simp_all
  have w2: "pages_ok as rest (s\<lparr>vm_mem := m2\<rparr>)" "unchanged_in rest m1 m2"
    using pages_ok_write [OF w1(1), of pdpt 0] own(1) m(2) by simp_all
  have w3: "pages_ok as rest (s\<lparr>vm_mem := m3\<rparr>)" "unchanged_in rest m2 m3"
    using pages_ok_write [OF w2(1), of pdpt 3] own(1) m(3) by simp_all
  show "unchanged_in rest (vm_mem s) m3" using unchanged_trans [OF unchanged_trans [OF w1(2) w2(2)] w3(2)] .
  have e1: "tbl_entry m1 t j = (if t = pml4 \<and> j = 0 then of_nat pdpt OR VMM_PAGE_RW_U else tbl_entry (vm_mem s) t j)" if "t \<in> {pml4, pdpt}" "j < 512" for t j
    using entry_wr64 [of pml4 t 0 j] that al m(1) by auto
  have e2: "tbl_entry m2 t j = (if t = pdpt \<and> j = 0 then x else tbl_entry m1 t j)" if "t \<in> {pml4, pdpt}" "j < 512" for t j
    using entry_wr64 [of pdpt t 0 j] that al m(2) by auto
  have e3: "tbl_entry m3 t j = (if t = pdpt \<and> j = 3 then y else tbl_entry m2 t j)" if "t \<in> {pml4, pdpt}" "j < 512" for t j
    using entry_wr64 [of pdpt t 3 j] that al m(3) by auto
  have top: "tbl_entry m3 pml4 0 = of_nat pdpt OR VMM_PAGE_RW_U" using e1 [of pml4 0] e2 [of pml4 0] e3 [of pml4 0] own(2) by simp
  have pdpt: "pdpt_of m3 ?as = pdpt" using al(2) own(3) by (simp add: pdpt_of_def top pte_addr_link)
  have "tbl_entry m3 pdpt 1 = 0" using e1 [of pdpt 1] e2 [of pdpt 1] e3 [of pdpt 1] own(2) z by simp
  then have np: "\<not> pd_present m3 ?as" by (simp add: pd_present_def pdpt)
  have "tables_ok m3 ?as" by (rule tables_okI) (use top own np in \<open>auto simp: pdpt pt_present_def\<close>)
  then show "spaces_ok (?as # rest) (s\<lparr>vm_mem := m3\<rparr>)" using w3(1) by (simp add: spaces_ok_Cons pages_ok_pml4)
  have "as_map m3 ?as va = None" for va using np by (cases "user_page va") (simp_all add: as_map_eq as_map_none pt_present_def Let_def)
  then show "as_map m3 ?as = Map.empty" by (simp add: fun_eq_iff)
qed

lemma create_ok:
  assumes ok: "spaces_ok rest s"
  shows "\<exists>r s'. vmm_create_address_space s = Some (r, s') \<and>
    (case r of
       None \<Rightarrow> spaces_ok rest s' \<and> kregions (vm_heap s') = kregions (vm_heap s) \<and> unchanged_in rest (vm_mem s) (vm_mem s')
     | Some as \<Rightarrow> spaces_ok (as # rest) s' \<and> as_map (vm_mem s') as = Map.empty \<and> unchanged_in rest (vm_mem s) (vm_mem s') \<and>
         others_regions (vm_heap s') as = kregions (vm_heap s))"
proof -
  have h: "heap_ok (vm_heap s)" using ok by (simp add: spaces_ok_def)
  obtain p h1 where k: "kmalloc (vm_heap s) vmm_as_sizeof False False = Some (p, None, h1)"
    "p = 0 \<Longrightarrow> heap_ok h1 \<and> kregions h1 = kregions (vm_heap s) \<and> km_words h1 = km_words (vm_heap s)"
    using kmalloc_live [OF h, of vmm_as_sizeof False] by (auto simp: vmm_as_sizeof_def)
  show ?thesis
  proof (cases "p = 0")
    case True
    then have "spaces_ok rest (s\<lparr>vm_heap := h1\<rparr>)" using ok k(2) by (simp add: spaces_ok_def live_ptr_def hdr_raw_def [abs_def])
    then show ?thesis using k True by (simp add: vmm_create_address_space_def unchanged_in_def)
  next
    case False
    define as0 where "as0 = \<lparr>as_ptr = p, pml4_phys = 0, owned_pages = []\<rparr>"
    define s0 where "s0 = s\<lparr>vm_heap := h1\<rparr>"
    have p0: "pages_ok as0 rest s0" "others_regions (vm_heap s0) as0 = kregions (vm_heap s)" "vm_mem s0 = vm_mem s"
      using new_struct_ok [OF ok k(1) False] by (simp_all add: as0_def s0_def)
    obtain pml4 as1 s1 where 1: "vmm_alloc_page as0 s0 = Some (pml4, as1, s1)" "pages_ok as1 rest s1" "unchanged_in (as0 # rest) (vm_mem s0) (vm_mem s1)"
        "others_regions (vm_heap s1) as1 = others_regions (vm_heap s0) as0"
        "if pml4 = 0 then as1 = as0 \<and> vm_mem s1 = vm_mem s0 else owned_pages as1 = owned_pages as0 @ [pml4]"
      using alloc_page_ok [OF p0(1)] by metis
    obtain pdpt as2 s2 where 2: "vmm_alloc_page as1 s1 = Some (pdpt, as2, s2)" "pages_ok as2 rest s2" "unchanged_in (as1 # rest) (vm_mem s1) (vm_mem s2)"
        "others_regions (vm_heap s2) as2 = others_regions (vm_heap s1) as1"
        "if pdpt = 0 then as2 = as1 \<and> vm_mem s2 = vm_mem s1
         else owned_pages as2 = owned_pages as1 @ [pdpt] \<and> pdpt \<notin> set (owned_pages as1) \<and> pdpt mod 4096 = 0 \<and> pdpt < 2 ^ 64 \<and> (\<forall>j < 512. tbl_entry (vm_mem s2) pdpt j = 0)"
      using alloc_page_ok [OF 1(2)] by metis
    have un: "unchanged_in rest (vm_mem s) (vm_mem s2)" using 1(3) 2(3) p0(3) by (simp add: unchanged_in_def)
    note create = vmm_create_address_space_def [of s, unfolded k(1), simplified, folded s0_def, folded as0_def]
    show ?thesis
    proof (cases "pml4 = 0 \<or> pdpt = 0")
      case True
      obtain s3 where "vmm_destroy_address_space as2 s2 = Some s3" "spaces_ok rest s3" "vm_mem s3 = vm_mem s2" "kregions (vm_heap s3) = others_regions (vm_heap s2) as2"
        using destroy_ok [OF 2(2)] by blast
      then show ?thesis using False True 1(1,4) 2(1,4) p0(2) un by (simp add: create)
    next
      case ne: False
      have own: "owned_pages as2 = [pml4, pdpt]" "pdpt \<noteq> pml4" "pdpt < 2 ^ 64" "\<forall>j < 512. tbl_entry (vm_mem s2) pdpt j = 0"
        using ne 1(5) 2(5) by (auto simp: as0_def)
      note t = new_tables_ok [OF 2(2) own refl refl refl]
      show ?thesis using False ne 1(1,4) 2(1,4) p0(2) t unchanged_trans [OF un t(3)]
        by (simp add: create Let_def pages_ok_pml4)
    qed
  qed
qed

section \<open>Growing a space\<close>

definition user_pte :: "u64 \<Rightarrow> bool" where
  "user_pte e \<longleftrightarrow> e AND (VMM_PAGE_P OR VMM_PAGE_U) = VMM_PAGE_P OR VMM_PAGE_U"

lemma user_pte_present: "user_pte e \<Longrightarrow> present e"
proof -
  assume "user_pte e"
  then have "bit (e AND (VMM_PAGE_P OR VMM_PAGE_U)) 0" by (simp add: user_pte_def VMM_PAGE_P_def VMM_PAGE_U_def)
  then show ?thesis by (simp add: present_bit bit_and_iff)
qed

definition user_mapped :: "memory \<Rightarrow> vmm_as \<Rightarrow> nat \<Rightarrow> bool" where
  "user_mapped m as va \<longleftrightarrow> (case as_map m as va of Some pte \<Rightarrow> user_pte pte | None \<Rightarrow> False)"

lemma user_pte_leaf: "user_pte ((a AND PTE_ADDR_MASK) OR (VMM_PAGE_RW_U AND 0xFFF) OR VMM_PAGE_P)"
proof -
  have "((a AND PTE_ADDR_MASK) OR 7) AND 5 = (5 :: u64)"
    by (rule bit_word_eqI) (auto simp: bit_and_iff bit_or_iff numeral_eq_Suc elim!: less_SucE)
  then show ?thesis by (simp add: user_pte_def seven VMM_PAGE_P_def VMM_PAGE_U_def)
qed

text \<open>Steps of one space: tables in order, the others untouched, no region of the heap changed but its own, no user page lost.\<close>

definition grows :: "vmm_as \<Rightarrow> vmm_as list \<Rightarrow> vm \<Rightarrow> vmm_as \<Rightarrow> vm \<Rightarrow> bool" where
  "grows as rest s as' s' \<longleftrightarrow> spaces_ok (as' # rest) s' \<and> unchanged_in rest (vm_mem s) (vm_mem s') \<and>
     others_regions (vm_heap s') as' = others_regions (vm_heap s) as \<and> as_ptr as' = as_ptr as \<and> data_kept as s as' s' \<and>
     (\<forall>va. user_mapped (vm_mem s) as va \<longrightarrow> user_mapped (vm_mem s') as' va)"

lemma growsD: "grows as rest s as' s' \<Longrightarrow> spaces_ok (as' # rest) s'"
  by (simp add: grows_def)

lemma grows_refl: "spaces_ok (as # rest) s \<Longrightarrow> grows as rest s as s"
  by (simp add: grows_def unchanged_in_def)

lemma grows_trans: "grows as rest s as1 s1 \<Longrightarrow> grows as1 rest s1 as2 s2 \<Longrightarrow> grows as rest s as2 s2"
  unfolding grows_def using unchanged_trans data_kept_trans by metis

lemma alloc_grows:
  assumes ok: "spaces_ok (as # rest) s"
  shows "\<exists>p as' s'. vmm_alloc_page as s = Some (p, as', s') \<and> grows as rest s as' s' \<and>
    (p \<noteq> 0 \<longrightarrow> p \<in> set (owned_pages as') \<and> \<not> is_table (vm_mem s') as' p)"
proof -
  obtain p as' s' where a: "vmm_alloc_page as s = Some (p, as', s')" "quiet as rest s as' s'"
    "p \<noteq> 0 \<longrightarrow> p \<in> set (owned_pages as') \<and> p \<notin> set (owned_pages as)"
    "set (owned_pages as) \<subseteq> set (owned_pages as')" "is_table (vm_mem s') as' = is_table (vm_mem s) as" using alloc_quiet [OF ok] by blast
  have "grows as rest s as' s'" using a(2,4,5) by (simp add: grows_def quiet_def data_kept_def user_mapped_def)
  moreover have "p \<noteq> 0 \<longrightarrow> \<not> is_table (vm_mem s') as' p" using a(3,5) is_table_owned ok by (auto simp: spaces_ok_Cons)
  ultimately show ?thesis using a(1,3) by blast
qed

lemma map_grows:
  assumes ok: "spaces_ok (as # rest) s"
  shows "\<exists>r as' s'. vmm_map_page as va pa VMM_PAGE_RW_U s = Some (r, as', s') \<and> grows as rest s as' s' \<and> r \<in> {0, - 1} \<and>
    (r = 0 \<longrightarrow> user_mapped (vm_mem s') as' va)"
proof -
  obtain r as' s' where a: "vmm_map_page as va pa VMM_PAGE_RW_U s = Some (r, as', s')" "spaces_ok (as' # rest) s'"
    "as_ptr as' = as_ptr as" "others_regions (vm_heap s') as' = others_regions (vm_heap s) as" "data_kept as s as' s'" "unchanged_in rest (vm_mem s) (vm_mem s')"
    "if \<not> user_page va then r = - 1 \<and> as' = as \<and> s' = s
     else r \<in> {0, - 1} \<and> as_map (vm_mem s') as' =
       (if r = 0 then (as_map (vm_mem s) as)(va \<mapsto> (of_nat pa AND PTE_ADDR_MASK) OR (VMM_PAGE_RW_U AND 0xFFF) OR VMM_PAGE_P) else as_map (vm_mem s) as)"
    using map_page_ok [OF ok, of va pa VMM_PAGE_RW_U] by blast
  have "user_mapped (vm_mem s') as' vb" if "user_mapped (vm_mem s) as vb \<or> r = 0 \<and> vb = va" for vb
    using a(7) that user_pte_leaf by (auto simp: user_mapped_def split: if_splits)
  then show ?thesis using a by (auto simp: grows_def split: if_splits)
qed

text \<open>Storing data inside an owned page that is not a table.\<close>

lemma write_grows:
  assumes ok: "spaces_ok (as # rest) s" and q: "q \<in> set (owned_pages as)" "\<not> is_table (vm_mem s) as q"
    and loc: "\<And>i. i < q \<or> q + 4096 \<le> i \<Longrightarrow> m' i = vm_mem s i"
  shows "grows as rest s as (s\<lparr>vm_mem := m'\<rparr>)" "is_table m' as = is_table (vm_mem s) as" "as_map m' as = as_map (vm_mem s) as"
proof -
  have po: "pages_ok as rest s" "tables_ok (vm_mem s) as" using ok by (simp_all add: spaces_ok_Cons)
  have e: "tbl_entry m' t j = tbl_entry (vm_mem s) t j" if "t mod 4096 = 0" "t \<noteq> q" "j < 512" for t j
    using page_apart [OF that(1) owned_ok(1) [OF ok q(1)] that(2)] that(3) unfolding tbl_entry_def rd64_def
    by (subst rdn_cong [where m' = "vm_mem s"]) (auto intro: loc)
  have same: "tbl_entry m' t j = tbl_entry (vm_mem s) t j" if "is_table (vm_mem s) as t" "j < 512" for t j
    using that q owned_ok(1) [OF ok is_table_owned [OF po(2) that(1)]] by (intro e) auto
  have u: "unchanged_in rest (vm_mem s) m'"
    unfolding unchanged_in_def
  proof (intro ballI allI impI)
    fix b t j assume b: "b \<in> set rest" "t \<in> set (owned_pages b)" "j < (512::nat)"
    show "tbl_entry m' t j = tbl_entry (vm_mem s) t j" using other_pages(1,3) [OF po(1) q(1) b(1,2)] b(3) by (intro e) auto
  qed
  note fr = tables_frame [OF po(2) same order_refl refl]
  show "is_table m' as = is_table (vm_mem s) as" "as_map m' as = as_map (vm_mem s) as" using fr(2,8) by simp_all
  have "pages_ok as rest (s\<lparr>vm_mem := m'\<rparr>)" using po(1) spaces_ok_mem [OF _ u] by (simp add: pages_ok_def)
  then show "grows as rest s as (s\<lparr>vm_mem := m'\<rparr>)"
    using u fr(1,2,8) by (simp add: grows_def spaces_ok_Cons data_kept_def user_mapped_def)
qed

text \<open>A space filled the way the loader and \<open>sbrk\<close> fill one: a fresh page for each address, until one fails.\<close>

primrec populate :: "nat list \<Rightarrow> vmm_as \<Rightarrow> vm \<Rightarrow> (vmm_as \<times> vm) option" where
  "populate [] as s = Some (as, s)"
| "populate (va # vas) as s =
     do {
       (pa, as, s) \<leftarrow> vmm_alloc_page as s;
       (if pa = 0 then Some (as, s)
        else do {
          (r, as, s) \<leftarrow> vmm_map_page as va pa VMM_PAGE_RW_U s;
          (if r \<noteq> 0 then Some (as, s) else populate vas as s)
        })
     }"

lemma populate_grows:
  "spaces_ok (as # rest) s \<Longrightarrow> \<exists>as' s'. populate vas as s = Some (as', s') \<and> grows as rest s as' s'"
proof (induction vas arbitrary: as s)
  case Nil
  then show ?case by (simp add: grows_refl)
next
  case (Cons va vas)
  obtain pa as1 s1 where 1: "vmm_alloc_page as s = Some (pa, as1, s1)" "grows as rest s as1 s1" using alloc_grows [OF Cons.prems] by blast
  obtain r as2 s2 where 2: "vmm_map_page as1 va pa VMM_PAGE_RW_U s1 = Some (r, as2, s2)" "grows as1 rest s1 as2 s2"
    using map_grows [OF growsD [OF 1(2)]] by blast
  note g2 = grows_trans [OF 1(2) 2(2)]
  obtain as3 s3 where "populate vas as2 s2 = Some (as3, s3)" "grows as2 rest s2 as3 s3" using Cons.IH [OF growsD [OF 2(2)]] by blast
  then show ?case using 1 2 g2 grows_trans [OF g2] by (cases "pa = 0"; cases "r = 0") auto
qed

text \<open>C26: the life of an address space leaks nothing and disturbs nobody. A creation that fails leaves the live regions of the
  heap as they were; a space that was created, then given any pages until memory or the page limit ran out, and destroyed,
  leaves exactly the regions from before its creation, and the translations of all other spaces are the same throughout.\<close>

theorem vmm_lifecycle:
  assumes "spaces_ok rest s"
  shows "\<exists>r s1. vmm_create_address_space s = Some (r, s1) \<and> (\<forall>b \<in> set rest. as_map (vm_mem s1) b = as_map (vm_mem s) b) \<and>
    (case r of
       None \<Rightarrow> spaces_ok rest s1 \<and> kregions (vm_heap s1) = kregions (vm_heap s)
     | Some as \<Rightarrow> as_map (vm_mem s1) as = Map.empty \<and>
         (\<exists>as' s2 s3. populate vas as s1 = Some (as', s2) \<and> spaces_ok (as' # rest) s2 \<and> vmm_destroy_address_space as' s2 = Some s3 \<and>
            spaces_ok rest s3 \<and> kregions (vm_heap s3) = kregions (vm_heap s) \<and>
            (\<forall>b \<in> set rest. as_map (vm_mem s2) b = as_map (vm_mem s) b \<and> as_map (vm_mem s3) b = as_map (vm_mem s) b)))"
proof -
  obtain r s1 where c: "vmm_create_address_space s = Some (r, s1)"
    "case r of
       None \<Rightarrow> spaces_ok rest s1 \<and> kregions (vm_heap s1) = kregions (vm_heap s) \<and> unchanged_in rest (vm_mem s) (vm_mem s1)
     | Some as \<Rightarrow> spaces_ok (as # rest) s1 \<and> as_map (vm_mem s1) as = Map.empty \<and> unchanged_in rest (vm_mem s) (vm_mem s1) \<and>
         others_regions (vm_heap s1) as = kregions (vm_heap s)" using create_ok [OF assms] by blast
  have un: "unchanged_in rest (vm_mem s) (vm_mem s1)" using c(2) by (auto split: option.splits)
  note same = unchanged_maps(2) [OF assms]
  show ?thesis
  proof (cases r)
    case None
    then show ?thesis using c same [OF un] by auto
  next
    case (Some as)
    then have ok: "spaces_ok (as # rest) s1" "as_map (vm_mem s1) as = Map.empty" "others_regions (vm_heap s1) as = kregions (vm_heap s)" using c(2) by auto
    obtain as' s2 where p: "populate vas as s1 = Some (as', s2)" "grows as rest s1 as' s2" using populate_grows [OF ok(1)] by blast
    then have 2: "spaces_ok (as' # rest) s2" "unchanged_in rest (vm_mem s) (vm_mem s2)" "others_regions (vm_heap s2) as' = kregions (vm_heap s)"
      using ok(3) unchanged_trans [OF un] by (simp_all add: grows_def)
    obtain s3 where "vmm_destroy_address_space as' s2 = Some s3" "spaces_ok rest s3" "vm_mem s3 = vm_mem s2" "kregions (vm_heap s3) = others_regions (vm_heap s2) as'"
      using destroy_ok [of as' rest s2] 2(1) by (auto simp: spaces_ok_Cons)
    then show ?thesis using Some c(1) ok(2) p(1) 2 same [OF un] same [OF 2(2)] by simp
  qed
qed

section \<open>User pointers\<close>

lemma pages_mapped_iff:
  "page + 0x1000 * n < 2 ^ 64 \<Longrightarrow>
     pages_mapped m pdpt page n \<longleftrightarrow> (\<forall>k < n. \<exists>pte. leaf_pte m pdpt (page + 0x1000 * k) = Some pte \<and> user_pte pte)"
proof (induction n arbitrary: page)
  case (Suc n)
  have w: "add64 page 0x1000 = page + 0x1000" using Suc.prems by (simp add: add64_exact)
  have IH: "pages_mapped m pdpt (page + 0x1000) n \<longleftrightarrow> (\<forall>k < n. \<exists>pte. leaf_pte m pdpt (page + 0x1000 + 0x1000 * k) = Some pte \<and> user_pte pte)"
    using Suc by simp
  show ?case unfolding All_less_Suc2 using IH w by (auto simp: user_pte_def algebra_simps split: option.splits)
qed simp

lemma nat_gap: "(a :: nat) \<le> b \<Longrightarrow> k < b - a + 1 \<Longrightarrow> a + k \<le> b"
  by linarith

text \<open>The pages of a byte range, counted as the code counts them.\<close>

lemma range_pages:
  fixes p len :: nat
  assumes "0 < len"
  shows "(\<forall>k < ((p + len - 1) div 4096 * 4096 - p div 4096 * 4096) div 4096 + 1. Q (p div 4096 * 4096 + 4096 * k)) \<longleftrightarrow>
    (\<forall>a. p \<le> a \<and> a < p + len \<longrightarrow> Q (a div 4096 * 4096))" (is "?L \<longleftrightarrow> ?R")
proof -
  let ?f = "p div 4096" and ?l = "(p + len - 1) div 4096"
  have le: "?f \<le> ?l" using assms by (intro div_le_mono) simp
  have n: "(?l * 4096 - ?f * 4096) div 4096 + 1 = ?l - ?f + 1" by (simp add: diff_mult_distrib [symmetric])
  show ?thesis
  proof
    assume L: ?L
    show ?R
    proof (intro allI impI)
      fix a assume a: "p \<le> a \<and> a < p + len"
      then have "?f \<le> a div 4096" "a div 4096 \<le> ?l" by (auto intro: div_le_mono)
      moreover from this have "a div 4096 - ?f < ?l - ?f + 1" by linarith
      ultimately have "Q (?f * 4096 + 4096 * (a div 4096 - ?f))" using L n by metis
      then show "Q (a div 4096 * 4096)" using \<open>?f \<le> a div 4096\<close> by (simp add: diff_mult_distrib2 mult.commute)
    qed
  next
    assume R: ?R
    show ?L
    proof (intro allI impI)
      fix k assume "k < (?l * 4096 - ?f * 4096) div 4096 + 1"
      then have "k < ?l - ?f + 1" unfolding n .
      then have k: "?f + k \<le> ?l" by (rule nat_gap [OF le])
      define a where "a = max p ((?f + k) * 4096)"
      have "p \<le> a" by (simp add: a_def)
      moreover have "a < p + len"
      proof -
        have "(?f + k) * 4096 \<le> ?l * 4096" using k by simp
        also have "\<dots> \<le> p + len - 1" by simp
        finally show ?thesis using assms by (simp add: a_def)
      qed
      moreover have "a div 4096 = ?f + k"
      proof (cases "p \<le> (?f + k) * 4096")
        case False
        have "p = ?f * 4096 + p mod 4096" "p mod 4096 < 4096" by simp_all
        then have "k = 0" using False by (cases k) auto
        then show ?thesis using False by (simp add: a_def)
      qed (simp add: a_def max_def)
      ultimately have "Q ((?f + k) * 4096)" using R by metis
      then show "Q (?f * 4096 + 4096 * k)" by (simp add: algebra_simps)
    qed
  qed
qed

text \<open>A byte of the window that the tables of a space back with a user page.\<close>

definition user_byte :: "memory \<Rightarrow> vmm_as \<Rightarrow> nat \<Rightarrow> bool" where
  "user_byte m as a \<longleftrightarrow> (case as_map m as (a div 0x1000 * 0x1000) of Some pte \<Rightarrow> user_pte pte | None \<Rightarrow> False)"

lemma leaf_user:
  assumes "VMM_USER_BASE \<le> a" "a < VMM_USER_BASE + VMM_USER_SIZE"
  shows "(\<exists>pte. leaf_pte m (pdpt_of m as) (a div 0x1000 * 0x1000) = Some pte \<and> user_pte pte) \<longleftrightarrow> user_byte m as a"
proof -
  have "VMM_USER_BASE div 0x1000 * 0x1000 \<le> a div 0x1000 * 0x1000" using assms(1) by (intro mult_le_mono1 div_le_mono)
  moreover have "a div 0x1000 * 0x1000 \<le> a" by simp
  ultimately have "user_page (a div 0x1000 * 0x1000)"
    using assms(2) by (simp add: user_page_def VMM_USER_BASE_def VMM_USER_SIZE_def)
  then show ?thesis using user_pte_present by (auto simp: user_byte_def as_map_def split: option.splits)
qed

lemma range_mapped_iff:
  assumes ok: "tables_ok m as" and len: "0 < len" and w: "VMM_USER_BASE \<le> p" "p + len \<le> VMM_USER_BASE + VMM_USER_SIZE"
  shows "vmm_range_mapped m (pml4_phys as) p len \<longleftrightarrow> (\<forall>a. p \<le> a \<and> a < p + len \<longrightarrow> user_byte m as a)"
proof -
  have small: "p + len < 2 ^ 64" using w(2) by (simp add: VMM_USER_BASE_def VMM_USER_SIZE_def)
  let ?f = "p div 0x1000 * 0x1000" and ?l = "(p + len - 1) div 0x1000 * 0x1000"
  have fl: "?f \<le> ?l" using len by (intro mult_le_mono1 div_le_mono) simp
  have le: "?l \<le> p + len - 1" by simp
  have s1: "add64 p len = p + len" "sub64 (p + len) 1 = p + len - 1" using small len by (simp_all add: add64_exact sub64_exact)
  have s2: "sub64 ?l ?f = ?l - ?f" using fl le small by (intro sub64_exact) simp_all
  have n: "?f + 0x1000 * ((?l - ?f) div 0x1000 + 1) < 2 ^ 64"
  proof -
    have "0x1000 * ((?l - ?f) div 0x1000) \<le> ?l - ?f" by simp
    then have "?f + 0x1000 * ((?l - ?f) div 0x1000 + 1) \<le> ?l + 0x1000" using fl by simp
    also have "\<dots> < 2 ^ 64" using le w(2) by (simp add: VMM_USER_BASE_def VMM_USER_SIZE_def)
    finally show ?thesis .
  qed
  have "present (tbl_entry m (pml4_phys as) 0)" using ok by (simp add: tables_ok_def)
  then have "vmm_range_mapped m (pml4_phys as) p len \<longleftrightarrow> pages_mapped m (pdpt_of m as) ?f ((?l - ?f) div 0x1000 + 1)"
    using len w unfolding vmm_range_mapped_def s1 Let_def s2 pdpt_of_def by simp
  also have "\<dots> \<longleftrightarrow> (\<forall>k < (?l - ?f) div 0x1000 + 1. \<exists>pte. leaf_pte m (pdpt_of m as) (?f + 0x1000 * k) = Some pte \<and> user_pte pte)"
    by (rule pages_mapped_iff [OF n])
  also have "\<dots> \<longleftrightarrow> (\<forall>a. p \<le> a \<and> a < p + len \<longrightarrow> (\<exists>pte. leaf_pte m (pdpt_of m as) (a div 0x1000 * 0x1000) = Some pte \<and> user_pte pte))"
    by (rule range_pages [OF len])
  also have "\<dots> \<longleftrightarrow> (\<forall>a. p \<le> a \<and> a < p + len \<longrightarrow> user_byte m as a)" using leaf_user w by auto
  finally show ?thesis .
qed

lemma user_range_iff:
  assumes "tables_ok m as" "0 < len"
  shows "is_user_range us ue (pml4_phys as) m p len \<longleftrightarrow>
    us \<le> p \<and> p + len \<le> ue \<or>
    VMM_USER_BASE \<le> p \<and> p + len \<le> VMM_USER_BASE + VMM_USER_SIZE \<and> (\<forall>a. p \<le> a \<and> a < p + len \<longrightarrow> user_byte m as a)"
proof -
  have r: "in_range p len a b \<longleftrightarrow> a \<le> p \<and> p + len \<le> b" for a b using assms(2) by (auto simp: in_range_def)
  show ?thesis unfolding is_user_range_def r using range_mapped_iff [OF assms] by auto
qed

text \<open>C6: the check of user pointers is exact. For a non-empty range and the tables of the running process,
  \<open>is_user_range\<close> accepts it if and only if it lies inside the shared arena, or inside the private window with every one of
  its bytes on a page that the process has mapped for user access: a range that wraps around, leaves its area or touches
  one hole is refused.\<close>

theorem is_user_range_exact:
  assumes "tables_ok m as" "0 < len"
  shows "is_user_range us ue (pml4_phys as) m p len \<longleftrightarrow>
    us \<le> p \<and> p + len \<le> ue \<or>
    VMM_USER_BASE \<le> p \<and> p + len \<le> VMM_USER_BASE + VMM_USER_SIZE \<and> (\<forall>a. p \<le> a \<and> a < p + len \<longrightarrow> user_byte m as a)"
  using assms by (rule user_range_iff)

section \<open>An example\<close>

text \<open>A heap of eight slots of 8 KB from address \<open>0x10000\<close>: the slot bytes, an address space structure at \<open>0x12008\<close>, its PML4
  at \<open>0x15000\<close> and its PDPT at \<open>0x17000\<close>; the rest is free.\<close>

definition vm_example :: vm where
  "vm_example = \<lparr>vm_heap = \<lparr>kheap = [\<lparr>kb_addr = 0xFFD8, kb_size = 65536, kb_used = 4, kb_bsize = 8192, kb_lfb = 0,
       kb_bm = [1, 2, 3, 4, 0, 0, 0, 0]\<rparr>], kheap_ready = True, kheap_area = 0xFFD8,
       km_words = (\<lambda>_. 0)(0x12000 := 0x12000, 0x14FF8 := 0x14000, 0x16FF8 := 0x16000)\<rparr>,
     vm_mem = (\<lambda>_. 0)(0x15000 := 0x07, 0x15001 := 0x70, 0x15002 := 0x01)\<rparr>"

definition as_example :: vmm_as where
  "as_example = \<lparr>as_ptr = 0x12008, pml4_phys = 0x15000, owned_pages = [0x15000, 0x17000]\<rparr>"

lemma vm_example_heap: "heap_ok (vm_heap vm_example)"
proof -
  have "used_slots [1, 2, 3, 4, 0, 0, 0, 0] = {0, 1, 2, 3}" by (simp add: used_slots_code upt_rec) auto
  then show ?thesis
    by (simp add: heap_ok_def kmem_inv_def vm_example_def heap_inv_def block_inv_def kheapblock_sizeof_def block_end_def KHEAP_SIZE_def)
qed

lemma vm_example_regions:
  "(0x12000, 8192) \<in> kregions (vm_heap vm_example)" "(0x14000, 8192) \<in> kregions (vm_heap vm_example)"
  "(0x16000, 8192) \<in> kregions (vm_heap vm_example)"
proof -
  have run: "is_run [1, 2, 3, 4, 0, 0, 0, 0] 1 1" "is_run [1, 2, 3, 4, 0, 0, 0, 0] 2 1" "is_run [1, 2, 3, 4, 0, 0, 0, 0] 3 1"
    by (simp_all add: is_run_def)
  have r: "is_run [1, 2, 3, 4, 0, 0, 0, 0] i 1 \<Longrightarrow> (i * 8192 + 0x10000, 8192) \<in> kregions (vm_heap vm_example)" for i
    by (force simp: kregions_def vm_example_def block_regions_def live_def kheapblock_sizeof_def)
  show "(0x12000, 8192) \<in> kregions (vm_heap vm_example)" "(0x14000, 8192) \<in> kregions (vm_heap vm_example)"
      "(0x16000, 8192) \<in> kregions (vm_heap vm_example)" using r [OF run(1)] r [OF run(2)] r [OF run(3)] by simp_all
qed

lemma example_tables: "tables_ok (vm_mem vm_example) as_example"
proof -
  have e: "tbl_entry (vm_mem vm_example) 0x15000 0 = 0x17007" "tbl_entry (vm_mem vm_example) 0x17000 1 = 0"
    by (simp_all add: tbl_entry_def rd64_def vm_example_def rdn_8)
  have "pdpt_of (vm_mem vm_example) as_example = 0x17000"
    by (simp add: pdpt_of_def as_example_def e pte_addr_def PTE_ADDR_MASK_def)
  moreover have "present 0x17007" by (simp add: present_bit)
  ultimately show ?thesis
    by (intro tables_okI) (simp_all add: as_example_def e pd_present_def pt_present_def del: One_nat_def)
qed

lemma example_spaces: "spaces_ok [as_example] vm_example"
proof -
  have w: "hdr_raw (vm_heap vm_example) 0x12008 = 0x12000" "hdr_raw (vm_heap vm_example) 0x15000 = 0x14000" "hdr_raw (vm_heap vm_example) 0x17000 = 0x16000"
    by (simp_all add: hdr_raw_def vm_example_def)
  have "live_ptr (vm_heap vm_example) vmm_as_sizeof 0x12008" "live_ptr (vm_heap vm_example) 4096 0x15000" "live_ptr (vm_heap vm_example) 4096 0x17000"
    using vm_example_regions by (auto simp: live_ptr_def w vmm_as_sizeof_def)
  then show ?thesis using vm_example_heap example_tables w by (simp add: spaces_ok_def as_ptrs_def as_example_def)
qed

theorem vmm_map_page_isolated_witness:
  "\<exists>r as' s'. vmm_map_page as_example 0x40000000 0x9000 VMM_PAGE_RW_U vm_example = Some (r, as', s') \<and> spaces_ok [as'] s'"
  using vmm_map_page_isolated [OF example_spaces, where va = "0x40000000" and pa = "0x9000" and flags = VMM_PAGE_RW_U] by blast

theorem vmm_lifecycle_witness:
  "\<exists>r s1. vmm_create_address_space vm_example = Some (r, s1) \<and> as_map (vm_mem s1) as_example = as_map (vm_mem vm_example) as_example"
  using vmm_lifecycle [OF example_spaces, where vas = "[0x40000000]"] by fastforce

theorem is_user_range_exact_witness:
  "is_user_range 0x200000 0x400000 0x15000 (vm_mem vm_example) 0x3FFFF0 16 \<and>
   \<not> is_user_range 0x200000 0x400000 0x15000 (vm_mem vm_example) 0x3FFFF0 17"
  using is_user_range_exact [OF example_tables, where len = 16 and us = "0x200000" and ue = "0x400000" and p = "0x3FFFF0"] is_user_range_exact [OF example_tables, where len = 17 and us = "0x200000" and ue = "0x400000" and p = "0x3FFFF0"]
  by (simp add: as_example_def VMM_USER_BASE_def)

end
