(* ===== verification/Confined.thy ===== *)
theory Confined
  imports Vmm_Props "HOL-Library.Multiset"
begin

text \<open>
  Address spaces whose pages are their own: every page a process can reach through its window is one the space owns and none
  of them is a page table. Allocating pages and mapping them keeps this, so a write through the window never changes a
  translation and never reaches another space. The loader and \<open>sbrk\<close> only ever map pages this way.
\<close>

section \<open>What does not move\<close>

lemma alloc_fixed:
  "vmm_alloc_page as s = Some (p, as', s') \<Longrightarrow> pml4_phys as' = pml4_phys as \<and> kheap_area (vm_heap s') = kheap_area (vm_heap s)"
  by (auto simp: vmm_alloc_page_def kmalloc_def kheap_ensure_init_def bind_eq_Some_conv Let_def split: if_splits)

lemma ensure_fixed:
  "ensure_table as t i s = Some (p, as', s') \<Longrightarrow> pml4_phys as' = pml4_phys as \<and> kheap_area (vm_heap s') = kheap_area (vm_heap s)"
  by (auto simp: ensure_table_def bind_eq_Some_conv Let_def split: if_splits dest: alloc_fixed)

lemma map_fixed:
  assumes "vmm_map_page as va pa fl s = Some (r, as', s')"
  shows "pml4_phys as' = pml4_phys as \<and> kheap_area (vm_heap s') = kheap_area (vm_heap s)"
proof (cases "va < VMM_USER_BASE \<or> va \<ge> VMM_USER_BASE + VMM_USER_SIZE \<or> va mod 0x1000 \<noteq> 0")
  case True
  then have "vmm_map_page as va pa fl s = Some (- 1, as, s)" by (auto simp: vmm_map_page_def)
  then show ?thesis using assms by simp
next
  case False
  let ?e1 = "ensure_table as (pte_addr (tbl_entry (vm_mem s) (pml4_phys as) 0)) (va div 2 ^ 30 mod 512) s"
  obtain pd as1 s1 where 1: "?e1 = Some (pd, as1, s1)" using assms False by (cases ?e1) (auto simp: vmm_map_page_def Let_def)
  note f1 = ensure_fixed [OF 1]
  show ?thesis
  proof (cases "pd = 0")
    case True
    then show ?thesis using assms False 1 f1 by (auto simp: vmm_map_page_def Let_def)
  next
    case pd: False
    let ?e2 = "ensure_table as1 pd (va div 2 ^ 21 mod 512) s1"
    obtain pt as2 s2 where 2: "?e2 = Some (pt, as2, s2)" using assms False pd 1 by (cases ?e2) (auto simp: vmm_map_page_def Let_def)
    show ?thesis using assms False 1 pd 2 f1 ensure_fixed [OF 2] by (auto simp: vmm_map_page_def Let_def split: if_splits)
  qed
qed

text \<open>Live memory lies inside the heap area.\<close>

lemma live_ptr_area: "heap_ok h \<Longrightarrow> live_ptr h n p \<Longrightarrow> p + n \<le> kheap_area h + KHEAP_SIZE"
  using regions_end [of "kheap h" "kheap_area h + KHEAP_SIZE"]
  by (fastforce simp: heap_ok_def kmem_inv_def kregions_def live_ptr_def)

section \<open>Confined spaces\<close>

definition data_pg :: "memory \<Rightarrow> vmm_as \<Rightarrow> nat \<Rightarrow> bool" where
  "data_pg m as p \<longleftrightarrow> p \<in> set (owned_pages as) \<and> \<not> is_table m as p"

definition confined :: "memory \<Rightarrow> vmm_as \<Rightarrow> bool" where
  "confined m as \<longleftrightarrow> (\<forall>va pte. as_map m as va = Some pte \<longrightarrow> data_pg m as (pte_addr pte))"

lemma data_kept_pg: "data_kept as s as' s' \<Longrightarrow> data_pg (vm_mem s) as p \<Longrightarrow> data_pg (vm_mem s') as' p"
  by (auto simp: data_kept_def data_pg_def)

lemma leaf_addr:
  assumes "p mod 4096 = 0" "p < 2 ^ 64"
  shows "pte_addr ((of_nat p AND PTE_ADDR_MASK) OR (VMM_PAGE_RW_U AND 0xFFF) OR VMM_PAGE_P) = p"
proof -
  have "(7 :: u64) AND NOT (mask 12) = 0" by (simp add: mask_eq_decr_exp)
  then have "(((of_nat p :: u64) AND NOT (mask 12)) OR 7) AND NOT (mask 12) = of_nat p AND NOT (mask 12)"
    by (simp add: bit.conj_disj_distrib2 and.assoc)
  moreover have "(VMM_PAGE_RW_U AND 0xFFF) OR VMM_PAGE_P = 7" by (simp add: seven VMM_PAGE_P_def)
  ultimately have "pte_addr ((of_nat p AND PTE_ADDR_MASK) OR (VMM_PAGE_RW_U AND 0xFFF) OR VMM_PAGE_P) = unat (of_nat p :: u64) div 4096 * 4096"
    by (simp add: pte_addr_def mask_12 unat_and_not_mask or.assoc)
  also have "\<dots> = p" using assms by (simp add: unsigned_of_nat take_bit_nat_eq_self) (metis add.right_neutral div_mult_mod_eq)
  finally show ?thesis .
qed

lemma alloc_confined:
  assumes ok: "spaces_ok (as # rest) s" and a: "vmm_alloc_page as s = Some (p, as', s')" and c: "confined (vm_mem s) as"
  shows "confined (vm_mem s') as'"
proof -
  have "as_map (vm_mem s') as' = as_map (vm_mem s) as" "set (owned_pages as) \<subseteq> set (owned_pages as')"
    "is_table (vm_mem s') as' = is_table (vm_mem s) as" using alloc_quiet [OF ok] a by (auto simp: quiet_def)
  then show ?thesis using c by (auto simp: confined_def data_pg_def)
qed

lemma map_confined:
  assumes ok: "spaces_ok (as # rest) s" and m: "vmm_map_page as va pa VMM_PAGE_RW_U s = Some (r, as', s')"
    and c: "confined (vm_mem s) as" and pg: "data_pg (vm_mem s) as pa"
  shows "confined (vm_mem s') as'"
proof -
  have pa: "pa mod 4096 = 0" "pa < 2 ^ 64"
    using pg ok live_ptr_bound [of "vm_heap s" 4096 pa] by (auto simp: data_pg_def spaces_ok_def)
  have k: "data_kept as s as' s'" "as_map (vm_mem s') as' =
      (as_map (vm_mem s) as)(va \<mapsto> (of_nat pa AND PTE_ADDR_MASK) OR (VMM_PAGE_RW_U AND 0xFFF) OR VMM_PAGE_P) \<or> as_map (vm_mem s') as' = as_map (vm_mem s) as"
    using map_page_ok [OF ok, of va pa VMM_PAGE_RW_U] m by (auto split: if_splits)
  have "data_pg (vm_mem s') as' (pte_addr pte)" if "as_map (vm_mem s') as' vb = Some pte" for vb pte
  proof -
    have "as_map (vm_mem s) as vb = Some pte \<or> pte = (of_nat pa AND PTE_ADDR_MASK) OR (VMM_PAGE_RW_U AND 0xFFF) OR VMM_PAGE_P"
      using k(2) that by (auto split: if_splits)
    then have "data_pg (vm_mem s) as (pte_addr pte)" using c pg leaf_addr [OF pa] by (auto simp: confined_def)
    then show ?thesis by (rule data_kept_pg [OF k(1)])
  qed
  then show ?thesis by (simp add: confined_def)
qed

lemma unchanged_confined:
  assumes "spaces_ok ass s" "unchanged_in ass (vm_mem s) m'" "b \<in> set ass" "confined (vm_mem s) b"
  shows "confined m' b"
proof -
  have ok: "tables_ok (vm_mem s) b" using assms(1,3) by (simp add: spaces_ok_def)
  have same: "tbl_entry m' t j = tbl_entry (vm_mem s) t j" if "is_table (vm_mem s) b t" "j < 512" for t j
    using assms(2,3) is_table_owned [OF ok] that by (simp add: unchanged_in_def)
  show ?thesis using assms(4) tables_frame(2,8) [OF ok same order_refl refl] by (simp add: confined_def data_pg_def)
qed

lemma confined_empty: "as_map m as = Map.empty \<Longrightarrow> confined m as"
  by (simp add: confined_def)

section \<open>One byte\<close>

text \<open>A byte outside the tables of a space and outside the pages of the others.\<close>

definition writable :: "vmm_as \<Rightarrow> vmm_as list \<Rightarrow> memory \<Rightarrow> nat \<Rightarrow> bool" where
  "writable as rest m q \<longleftrightarrow> (\<forall>t. is_table m as t \<longrightarrow> q < t \<or> t + 4096 \<le> q) \<and> (\<forall>b \<in> set rest. \<forall>t \<in> set (owned_pages b). q < t \<or> t + 4096 \<le> q)"

lemma byte_write:
  fixes v :: u8
  assumes ok: "spaces_ok (as # rest) s" and w: "writable as rest (vm_mem s) q"
  defines "m' \<equiv> (vm_mem s)(q := v)"
  shows "spaces_ok (as # rest) (s\<lparr>vm_mem := m'\<rparr>)" "unchanged_in rest (vm_mem s) m'" "as_map m' as = as_map (vm_mem s) as"
    "is_table m' as = is_table (vm_mem s) as" "pdpt_of m' as = pdpt_of (vm_mem s) as"
proof -
  have po: "pages_ok as rest s" "tables_ok (vm_mem s) as" using ok by (simp_all add: spaces_ok_Cons)
  have e: "tbl_entry m' t j = tbl_entry (vm_mem s) t j" if "q < t \<or> t + 4096 \<le> q" "j < 512" for t j
    unfolding tbl_entry_def rd64_def using that by (subst rdn_cong [where m' = "vm_mem s"]) (auto simp: m'_def)
  have same: "tbl_entry m' t j = tbl_entry (vm_mem s) t j" if "is_table (vm_mem s) as t" "j < 512" for t j
    using w that by (intro e) (auto simp: writable_def)
  show u: "unchanged_in rest (vm_mem s) m'" unfolding unchanged_in_def
  proof (intro ballI allI impI)
    fix b t j assume "b \<in> set rest" "t \<in> set (owned_pages b)" "j < (512::nat)"
    then show "tbl_entry m' t j = tbl_entry (vm_mem s) t j" using w by (intro e) (auto simp: writable_def)
  qed
  note fr = tables_frame [OF po(2) same order_refl refl]
  have "pages_ok as rest (s\<lparr>vm_mem := m'\<rparr>)" using po(1) spaces_ok_mem [OF _ u] by (simp add: pages_ok_def)
  then show "spaces_ok (as # rest) (s\<lparr>vm_mem := m'\<rparr>)" using fr(1) by (simp add: spaces_ok_Cons)
  show "as_map m' as = as_map (vm_mem s) as" "is_table m' as = is_table (vm_mem s) as" "pdpt_of m' as = pdpt_of (vm_mem s) as"
    using fr(2,3,8) by simp_all
qed

lemma data_writable:
  assumes ok: "spaces_ok (as # rest) s" and p: "data_pg (vm_mem s) as p" "p \<le> q" "q < p + 4096"
  shows "writable as rest (vm_mem s) q"
  unfolding writable_def
proof (intro conjI allI ballI impI)
  have po: "pages_ok as rest s" "tables_ok (vm_mem s) as" using ok by (simp_all add: spaces_ok_Cons)
  have pm: "p mod 4096 = 0" using owned_ok(1) [OF ok] p(1) by (simp add: data_pg_def)
  fix t assume t: "is_table (vm_mem s) as t"
  then have "t \<noteq> p" "t mod 4096 = 0" using p(1) owned_ok(1) [OF ok is_table_owned [OF po(2) t]] by (auto simp: data_pg_def)
  then show "q < t \<or> t + 4096 \<le> q" using page_apart [of t p] pm p(2,3) by auto
next
  have po: "pages_ok as rest s" using ok by (simp add: spaces_ok_Cons)
  have pm: "p mod 4096 = 0" using owned_ok(1) [OF ok] p(1) by (simp add: data_pg_def)
  fix b t assume b: "b \<in> set rest" "t \<in> set (owned_pages b)"
  have "p \<noteq> t" "t mod 4096 = 0" using other_pages(1,3) [OF po _ b] p(1) by (auto simp: data_pg_def)
  then show "q < t \<or> t + 4096 \<le> q" using page_apart [of t p] pm p(2,3) by auto
qed

lemma area_writable:
  assumes ok: "spaces_ok (as # rest) s" and q: "kheap_area (vm_heap s) + KHEAP_SIZE \<le> q"
  shows "writable as rest (vm_mem s) q"
proof -
  have "t + 4096 \<le> q" if "b \<in> set (as # rest)" "t \<in> set (owned_pages b)" for b t
  proof -
    have "heap_ok (vm_heap s)" "live_ptr (vm_heap s) 4096 t" using ok that unfolding spaces_ok_def by blast+
    then show ?thesis using live_ptr_area q by fastforce
  qed
  moreover have "is_table (vm_mem s) as t \<Longrightarrow> t \<in> set (owned_pages as)" for t using is_table_owned ok by (auto simp: spaces_ok_Cons)
  ultimately show ?thesis by (auto simp: writable_def)
qed

section \<open>The order of the spaces\<close>

lemma spaces_ok_perm: "mset ass = mset bss \<Longrightarrow> spaces_ok ass s \<longleftrightarrow> spaces_ok bss s"
proof -
  assume m: "mset ass = mset bss"
  have "mset (map (hdr_raw (vm_heap s)) (concat (map as_ptrs ass))) = mset (map (hdr_raw (vm_heap s)) (concat (map as_ptrs bss)))"
    by (simp add: mset_concat m flip: sum_mset_sum_list)
  then have "distinct (map (hdr_raw (vm_heap s)) (concat (map as_ptrs ass))) = distinct (map (hdr_raw (vm_heap s)) (concat (map as_ptrs bss)))"
    by (rule mset_eq_imp_distinct_iff)
  moreover have "set ass = set bss" using m by (metis set_mset_mset)
  ultimately show ?thesis by (simp add: spaces_ok_def)
qed

end
