(* ===== verification/Elf_Props.thy ===== *)
theory Elf_Props
  imports Elf Confined Vfs_Fat
begin

text \<open>
  The loader of \<open>Elf\<close>: whatever the file holds, \<open>elf_exec\<close> either fails and leaves no trace in the heap and the address
  spaces, or submits a task whose space has its stack and argument pages mapped. The loader's promises are proved once, in
  the locale \<open>program_source\<close>, for every file system whose reads stay inside the buffer they are given, and hold for FAT32.
\<close>

section \<open>File operations and the kernel state\<close>

text \<open>What the file operations leave alone: everything of the scheduler but the descriptor tables, the heap included.\<close>

definition vfs_frame :: "'s vfs \<Rightarrow> 's vfs \<Rightarrow> bool" where
  "vfs_frame v v' \<longleftrightarrow> s_mem (v_sched v') = s_mem (v_sched v) \<and> length (task_pool (v_sched v')) = length (task_pool (v_sched v)) \<and>
     task_count (v_sched v') = task_count (v_sched v) \<and> cur_task (v_sched v') = cur_task (v_sched v) \<and>
     loaded_cr3 (v_sched v') = loaded_cr3 (v_sched v) \<and>
     (\<forall>r. (get_task (v_sched v') r)\<lparr>t_fd_table := []\<rparr> = (get_task (v_sched v) r)\<lparr>t_fd_table := []\<rparr>)"

lemma vfs_frame_refl [simp]: "vfs_frame v v" "vfs_frame v (v\<lparr>v_fs := s\<rparr>)" "vfs_frame v (set_mount i mp v)"
  by (simp_all add: vfs_frame_def set_mount_def)

lemma vfs_frame_trans: "vfs_frame v v' \<Longrightarrow> vfs_frame v' v'' \<Longrightarrow> vfs_frame v v''"
  by (simp add: vfs_frame_def)

lemma set_fd_frame [simp]: "vfs_frame v (set_fd i e v)"
proof (cases "the (sched_current_task (v_sched v))")
  case (Slot n)
  have "((task_pool (v_sched v))[n := (task_pool (v_sched v) ! n)\<lparr>t_fd_table := l\<rparr>] ! j)\<lparr>t_fd_table := []\<rparr> =
      (task_pool (v_sched v) ! j)\<lparr>t_fd_table := []\<rparr>" for j l
    by (cases "n < length (task_pool (v_sched v))") (auto simp: nth_list_update list_update_beyond)
  then show ?thesis using Slot by (simp add: vfs_frame_def set_fd_def get_task_def split: tref.splits)
qed (simp_all add: vfs_frame_def set_fd_def get_task_def split: tref.splits)

lemma walk_mount_frame: "walk_mount D i p v = Some (n, v') \<Longrightarrow> vfs_frame v v'"
  by (auto simp: walk_mount_def split: option.splits)

lemma split_parent_frame: "split_parent D i p v = Some (r, v') \<Longrightarrow> vfs_frame v v'"
  by (auto simp: split_parent_def dest: walk_mount_frame split: option.splits if_splits)

lemma create_at_frame: "create_at D i p v = Some (n, v') \<Longrightarrow> vfs_frame v v'"
proof -
  assume c: "create_at D i p v = Some (n, v')"
  then obtain parent name v1 where s: "split_parent D i p v = Some ((parent, name), v1)"
    by (cases "split_parent D i p v") (auto simp: create_at_def)
  have "vfs_frame v1 v'" using c s by (cases parent) (auto simp: create_at_def split: if_splits)
  then show ?thesis using split_parent_frame [OF s] by (rule vfs_frame_trans [rotated])
qed

lemma install_fd_frame: "vfs_frame v (snd (install_fd D n fl v))"
  by (simp add: install_fd_def split: option.splits)

lemma install_fd_frame2: "install_fd D n fl v = (r, v') \<Longrightarrow> vfs_frame v v'"
  using install_fd_frame [of v D n fl] by simp

lemma vfs_open_frame: "vfs_open D p fl v = Some (r, v') \<Longrightarrow> vfs_frame v v'"
proof (cases "locate p v")
  case (Some loc)
  assume o: "vfs_open D p fl v = Some (r, v')"
  obtain i rel where l: "locate p v = Some (i, rel)" using Some by (cases loc) auto
  obtain n v1 where w: "walk_mount D i rel v = Some (n, v1)"
    using o l by (cases "walk_mount D i rel v") (auto simp: vfs_open_def)
  note f = vfs_frame_trans [OF walk_mount_frame [OF w]]
  show ?thesis
  proof (cases "n = None \<and> fl AND O_CREATE \<noteq> 0")
    case True
    then obtain n2 v2 where c: "create_at D i rel v1 = Some (n2, v2)"
      using o l w by (cases "create_at D i rel v1") (auto simp: vfs_open_def)
    have "vfs_frame v2 v'" using o l w c True by (cases n2) (auto simp: vfs_open_def dest: install_fd_frame2)
    then show ?thesis by (intro f vfs_frame_trans [OF create_at_frame [OF c]])
  next
    case False
    then show ?thesis using o l w by (cases n) (auto simp: vfs_open_def dest: install_fd_frame2 intro!: f)
  qed
qed (simp add: vfs_open_def)

lemma vfs_close_frame: "vfs_frame v (snd (vfs_close fd v))"
  by (simp add: vfs_close_def split: option.splits)

lemma vfs_seek_frame: "vfs_seek fd p v = (r, v') \<Longrightarrow> vfs_frame v v'"
  by (auto simp: vfs_seek_def split: option.splits)

lemma advance_frame: "vfs_frame v (advance fd n v)"
  by (simp add: advance_def Let_def)

lemma vfs_read_frame: "vfs_read D fd n v = Some (r, out, v') \<Longrightarrow> vfs_frame v v'"
  unfolding vfs_read_def
  by (auto split: option.splits if_splits intro: vfs_frame_trans [OF vfs_frame_refl(2) advance_frame])

lemma vfs_write_frame: "vfs_write D fd d v = Some (r, v') \<Longrightarrow> vfs_frame v v'"
  unfolding vfs_write_def
  by (auto split: option.splits if_splits intro: vfs_frame_trans [OF vfs_frame_refl(2) advance_frame])

lemma vfs_readdir_frame: "vfs_readdir D fd i v = Some (r, v') \<Longrightarrow> vfs_frame v v'"
  unfolding vfs_readdir_def by (auto split: option.splits if_splits)

lemma resolve_path_frame: "resolve_path D p v = Some (n, v') \<Longrightarrow> vfs_frame v v'"
  by (auto simp: resolve_path_def dest: walk_mount_frame split: option.splits)

lemma vfs_stat_frame: "vfs_stat D p v = Some (rc, st, v') \<Longrightarrow> vfs_frame v v'"
  by (auto simp: vfs_stat_def dest!: resolve_path_frame split: option.splits)

lemma vfs_unlink_frame: "vfs_unlink D p v = Some (rc, v') \<Longrightarrow> vfs_frame v v'"
proof (cases "locate p v")
  case (Some loc)
  assume u: "vfs_unlink D p v = Some (rc, v')"
  obtain i rel where l: "locate p v = Some (i, rel)" using Some by (cases loc) auto
  obtain parent name v1 where s: "split_parent D i rel v = Some ((parent, name), v1)"
    using u l by (cases "split_parent D i rel v") (auto simp: vfs_unlink_def)
  have "vfs_frame v1 v'" using u l s by (cases parent) (auto simp: vfs_unlink_def split: if_splits)
  then show ?thesis by (rule vfs_frame_trans [OF split_parent_frame [OF s]])
qed (simp add: vfs_unlink_def)

lemma vfs_rename_frame: "vfs_rename D p q v = Some (rc, v') \<Longrightarrow> vfs_frame v v'"
proof (cases "\<exists>i relp relq. locate p v = Some (i, relp) \<and> locate q v = Some (i, relq)")
  case True
  assume u: "vfs_rename D p q v = Some (rc, v')"
  obtain i relp relq where l: "locate p v = Some (i, relp)" "locate q v = Some (i, relq)" using True by blast
  obtain od on v1 where s: "split_parent D i relp v = Some ((od, on), v1)"
    using u l by (cases "split_parent D i relp v") (auto simp: vfs_rename_def)
  obtain nd nn v2 where t: "split_parent D i relq v1 = Some ((nd, nn), v2)"
    using u l s by (cases "split_parent D i relq v1") (auto simp: vfs_rename_def)
  have "vfs_frame v2 v'" using u l s t by (cases od; cases nd) (auto simp: vfs_rename_def split: if_splits)
  then show ?thesis by (rule vfs_frame_trans [OF vfs_frame_trans [OF split_parent_frame [OF s] split_parent_frame [OF t]]])
qed (auto simp: vfs_rename_def split: option.splits if_splits)

section \<open>The heap under a new task\<close>

definition keeps :: "kmem \<Rightarrow> kmem \<Rightarrow> bool" where
  "keeps h h' \<longleftrightarrow> heap_ok h' \<and> kregions h \<subseteq> kregions h' \<and>
     (\<forall>q k. live_ptr h k q \<longrightarrow> live_ptr h' k q \<and> hdr_raw h' q = hdr_raw h q)"

lemma keeps_refl: "heap_ok h \<Longrightarrow> keeps h h"
  by (simp add: keeps_def)

lemma keeps_spaces:
  assumes ok: "spaces_ok ass s" and k: "keeps (vm_heap s) h'"
  shows "spaces_ok ass (s\<lparr>vm_heap := h'\<rparr>)"
proof -
  have live: "\<exists>k. live_ptr (vm_heap s) k q" if "q \<in> set (concat (map as_ptrs ass))" for q
    using ok that by (fastforce simp: spaces_ok_def as_ptrs_def)
  have "map (hdr_raw h') (concat (map as_ptrs ass)) = map (hdr_raw (vm_heap s)) (concat (map as_ptrs ass))"
    using live k by (intro map_cong refl) (auto simp: keeps_def)
  then have "distinct (map (hdr_raw h') (concat (map as_ptrs ass)))" using ok unfolding spaces_ok_def by metis
  then show ?thesis using ok k by (simp add: spaces_ok_def keeps_def)
qed

lemma push_words_above: "8 * length vs \<le> sp \<Longrightarrow> a < sp - 8 * length vs \<or> sp \<le> a \<Longrightarrow> snd (push_words m sp vs) a = m a"
proof (induction m sp vs rule: push_words.induct)
  case (2 m sp v vs)
  then have ne: "a \<noteq> sp - 8" by auto
  have "snd (push_words (m(sp - 8 := v)) (sp - 8) vs) a = (m(sp - 8 := v)) a" using 2(2,3) by (intro 2(1)) auto
  then show ?case using ne by simp
qed simp

lemma frame_build_local:
  "stack + TASK_STACK_SZ = ktop \<Longrightarrow> a < stack \<or> ktop \<le> a \<Longrightarrow> snd (frame_build m ktop rip cs ss sp a1 a2) a = m a"
  unfolding frame_build_def by (subst push_words_above) (auto simp: TASK_STACK_SZ_def)

text \<open>The frame goes into the new stack, so it reaches no header.\<close>

lemma frame_keeps:
  assumes k: "kmalloc h TASK_STACK_SZ True False = Some (stack, pp, h1)" "stack \<noteq> 0" "heap_ok h"
    and loc: "\<And>a. a < stack \<or> stack + TASK_STACK_SZ \<le> a \<Longrightarrow> w a = km_words h1 a"
  shows "keeps h (h1\<lparr>km_words := w\<rparr>)"
proof -
  note kk = kmalloc_live [OF k(3), of TASK_STACK_SZ True, unfolded k(1)]
  have h1: "heap_ok h1" "live_ptr h1 TASK_STACK_SZ stack" "kregions h \<subseteq> kregions h1"
    "\<And>q k. live_ptr h k q \<Longrightarrow> live_ptr h1 k q \<and> hdr_raw h1 q = hdr_raw h q \<and> hdr_raw h1 q \<noteq> hdr_raw h1 stack"
    using kk k(2) by (simp_all add: TASK_STACK_SZ_def) (blast, metis)
  have "w (q - 8) = km_words h1 (q - 8)" if "live_ptr h k q" for q k
    using h1(4) [OF that] kregions_apart [OF h1(1)] h1(2) unfolding live_ptr_def by (intro loc) fastforce
  then have raw: "hdr_raw (h1\<lparr>km_words := w\<rparr>) q = hdr_raw h1 q" if "live_ptr h k q" for q k
    using that by (simp add: hdr_raw_def)
  have "live_ptr (h1\<lparr>km_words := w\<rparr>) k q \<and> hdr_raw (h1\<lparr>km_words := w\<rparr>) q = hdr_raw h q" if q: "live_ptr h k q" for q k
    using h1(4) [OF q] unfolding live_ptr_def raw [OF q] kregions_words by metis
  then show ?thesis using h1(1,3) by (simp add: keeps_def heap_ok_def)
qed

lemma find_slot:
  assumes "find_free_slot s = (r, s1)" "task_count s \<le> MAX_TASKS"
  shows "s_mem s1 = s_mem s" "task_pool s1 = task_pool s" "r = Some i \<Longrightarrow> i < MAX_TASKS"
  using assms by (auto simp: find_free_slot_def Let_def split: if_splits)

definition user_task :: "task \<Rightarrow> nat \<Rightarrow> nat \<Rightarrow> nat \<Rightarrow> bool" where
  "user_task t start arg cr3 \<longleftrightarrow> t_state t = TASK_READY \<and> t_is_user t \<and> t_cr3 t = cr3 \<and> t_func t = start \<and> t_arg t = arg \<and>
     t_fd_table t = replicate MAX_FD fd_zero"

lemma submit_keeps:
  assumes r: "sched_submit_user_as env s name start arg cr3 ktop = Some (r, s')"
    and pool: "length (task_pool s) = MAX_TASKS" "task_count s \<le> MAX_TASKS" and ok: "heap_ok (s_mem s)"
  shows "keeps (s_mem s) (s_mem s')" "r < 0 \<Longrightarrow> r = - 1 \<and> kregions (s_mem s') = kregions (s_mem s)"
    "r \<ge> 0 \<Longrightarrow> nat r < length (task_pool s') \<and> user_task (task_pool s' ! nat r) start arg cr3"
proof -
  have *: "keeps (s_mem s) (s_mem s') \<and> (r < 0 \<longrightarrow> r = - 1 \<and> kregions (s_mem s') = kregions (s_mem s)) \<and>
    (r \<ge> 0 \<longrightarrow> nat r < length (task_pool s') \<and> user_task (task_pool s' ! nat r) start arg cr3)"
  proof (cases "start = 0 \<or> cr3 = 0 \<or> fst (find_free_slot s) = None")
    case True
    then show ?thesis using r keeps_refl [OF ok] find_free_slot_none(1) [of s]
      by (cases "find_free_slot s") (auto simp: sched_submit_user_as_def split: if_splits)
  next
    case False
    then obtain i s1 where f: "find_free_slot s = (Some i, s1)" by (cases "find_free_slot s") auto
    note fs = find_slot [OF f pool(2)]
    obtain stack h1 where k: "kmalloc (s_mem s) TASK_STACK_SZ True False = Some (stack, None, h1)" "heap_ok h1"
      "stack = 0 \<Longrightarrow> kregions h1 = kregions (s_mem s) \<and> km_words h1 = km_words (s_mem s)"
      using kmalloc_live [OF ok, of TASK_STACK_SZ True] by (auto simp: TASK_STACK_SZ_def split: if_splits)
    show ?thesis
    proof (cases "stack = 0")
      case True
      have "keeps (s_mem s) h1" using k True by (simp add: keeps_def live_ptr_def hdr_raw_def)
      moreover have "Some (r, s') = Some (- 1, s1\<lparr>s_mem := h1\<rparr>)"
        unfolding r [symmetric] sched_submit_user_as_def using False f k(1) True fs(1) by simp
      ultimately show ?thesis using k(3) [OF True] by simp
    next
      case ne: False
      have i: "i < length (task_pool s1)" using fs(2,3) pool by simp
      have u: "Some (r, s') = Some (int i, push_level PRIO_NORMAL (Slot i) (task_init_stack_user_as env (Slot i) ktop
          (upd_task (Slot i) (\<lambda>t. task_set_name (t\<lparr>
                       t_id := int i, t_state := TASK_READY, t_priority := PRIO_NORMAL,
                       t_cpu_id := - 1, t_stack := stack, t_user_stack := 0, t_is_user := True,
                       t_cr3 := cr3, t_fd_table := replicate MAX_FD fd_zero, t_as := 0,
                       t_heap_start := 0, t_heap_brk := 0, t_heap_end := 0,
                       t_quantum := prio_quantum ! PRIO_NORMAL,
                       t_timeslice := prio_quantum ! PRIO_NORMAL,
                       t_func := start, t_arg := arg\<rparr>) name) (s1\<lparr>s_mem := h1\<rparr>))))"
        unfolding r [symmetric] sched_submit_user_as_def using False f k(1) ne fs(1) by (simp add: Let_def)
      have mem: "s_mem s' = h1\<lparr>km_words := snd (frame_build (km_words h1) (stack + TASK_STACK_SZ) (user_task_trampoline env)
          (GDT_USER_CS OR 3) (GDT_USER_DS OR 3) ktop start arg)\<rparr>"
        using u i by (simp add: push_level_def task_init_stack_user_as_def set_frame_def get_task_def task_set_name_def Let_def)
      have "keeps (s_mem s) (s_mem s')" unfolding mem by (rule frame_keeps [OF k(1) ne ok], rule frame_build_local [OF refl])
      moreover have "r = int i" "length (task_pool s') = length (task_pool s1)" "user_task (task_pool s' ! i) start arg cr3"
        using u i by (simp_all add: push_level_def task_init_stack_user_as_def set_frame_def task_set_name_def user_task_def Let_def)
      ultimately show ?thesis using i by simp
    qed
  qed
  then show "keeps (s_mem s) (s_mem s')" "r < 0 \<Longrightarrow> r = - 1 \<and> kregions (s_mem s') = kregions (s_mem s)"
    "r \<ge> 0 \<Longrightarrow> nat r < length (task_pool s') \<and> user_task (task_pool s' ! nat r) start arg cr3" by simp_all
qed

section \<open>Growing a space of the kernel\<close>

abbreviation k_heap :: "'s kernel \<Rightarrow> kmem" where
  "k_heap k \<equiv> s_mem (v_sched (k_vfs k))"

definition pool_frame :: "'s kernel \<Rightarrow> 's kernel \<Rightarrow> bool" where
  "pool_frame k k' \<longleftrightarrow> k_spaces k' = k_spaces k \<and> length (task_pool (v_sched (k_vfs k'))) = length (task_pool (v_sched (k_vfs k))) \<and>
     task_count (v_sched (k_vfs k')) = task_count (v_sched (k_vfs k))"

definition kgrows :: "vmm_as \<Rightarrow> 's kernel \<Rightarrow> vmm_as \<Rightarrow> 's kernel \<Rightarrow> bool" where
  "kgrows as k as' k' \<longleftrightarrow> grows as (k_spaces k) (vm_of k) as' (vm_of k') \<and> pool_frame k k' \<and> pml4_phys as' = pml4_phys as \<and>
     kheap_area (k_heap k') = kheap_area (k_heap k) \<and> (confined (k_mem k) as \<longrightarrow> confined (k_mem k') as')"

definition k_open :: "vmm_as \<Rightarrow> 's kernel \<Rightarrow> bool" where
  "k_open as k \<longleftrightarrow> spaces_ok (as # k_spaces k) (vm_of k)"

abbreviation data_page :: "vmm_as \<Rightarrow> 's kernel \<Rightarrow> nat \<Rightarrow> bool" where
  "data_page as k p \<equiv> data_pg (k_mem k) as p"

lemma vm_of_simps [simp]: "vm_heap (vm_of k) = k_heap k" "vm_mem (vm_of k) = k_mem k"
  by (simp_all add: vm_of_def)

lemma set_vm_simps [simp]: "vm_of (set_vm s k) = s" "k_spaces (set_vm s k) = k_spaces k" "pool_frame k (set_vm s k)"
  by (simp_all add: vm_of_def set_vm_def pool_frame_def)

lemma kgrows_refl: "k_open as k \<Longrightarrow> kgrows as k as k"
  by (simp add: kgrows_def k_open_def pool_frame_def grows_refl)

lemma kgrows_trans: "kgrows as k as1 k1 \<Longrightarrow> kgrows as1 k1 as2 k2 \<Longrightarrow> kgrows as k as2 k2"
  unfolding kgrows_def pool_frame_def using grows_trans by metis

lemma kgrows_open: "kgrows as k as' k' \<Longrightarrow> k_open as' k'"
  using growsD by (auto simp: kgrows_def k_open_def pool_frame_def)

lemma kgrows_mapped: "kgrows as k as' k' \<Longrightarrow> user_mapped (k_mem k) as va \<Longrightarrow> user_mapped (k_mem k') as' va"
  by (simp add: kgrows_def grows_def)

lemma kgrows_data: "kgrows as k as' k' \<Longrightarrow> data_page as k p \<Longrightarrow> data_page as' k' p"
  by (auto simp: kgrows_def grows_def data_kept_def data_pg_def)

lemma k_alloc_grows:
  assumes "k_open as k"
  shows "\<exists>p as' k'. k_alloc_page as k = Some (p, as', k') \<and> kgrows as k as' k' \<and> (p \<noteq> 0 \<longrightarrow> data_page as' k' p)"
proof -
  obtain p as' s' where a: "vmm_alloc_page as (vm_of k) = Some (p, as', s')" "grows as (k_spaces k) (vm_of k) as' s'"
    "p \<noteq> 0 \<longrightarrow> p \<in> set (owned_pages as') \<and> \<not> is_table (vm_mem s') as' p" using alloc_grows assms unfolding k_open_def by blast
  moreover note alloc_fixed [OF a(1)] alloc_confined [OF _ a(1), of "k_spaces k"]
  ultimately show ?thesis using assms unfolding k_open_def by (simp add: k_alloc_page_def kgrows_def data_pg_def flip: vm_of_simps)
qed

lemma k_map_grows:
  assumes "k_open as k"
  shows "\<exists>r as' k'. k_map_page as va pa k = Some (r, as', k') \<and> (data_page as k pa \<longrightarrow> kgrows as k as' k') \<and>
    (r = 0 \<longrightarrow> user_mapped (k_mem k') as' va)"
proof -
  obtain r as' s' where m: "vmm_map_page as va pa VMM_PAGE_RW_U (vm_of k) = Some (r, as', s')" "grows as (k_spaces k) (vm_of k) as' s'"
    "r = 0 \<longrightarrow> user_mapped (vm_mem s') as' va" using map_grows assms unfolding k_open_def by blast
  moreover note map_fixed [OF m(1)] map_confined [OF _ m(1), of "k_spaces k"]
  ultimately show ?thesis using assms unfolding k_open_def by (simp add: k_map_page_def kgrows_def flip: vm_of_simps)
qed

text \<open>A page allocated and mapped, as the loader does it everywhere.\<close>

lemma page_step:
  assumes o: "k_open as k" and a: "k_alloc_page as k = Some (pa, as1, k1)" and m: "k_map_page as1 va pa k1 = Some (r, as2, k2)"
  shows "kgrows as k as1 k1" "pa \<noteq> 0 \<Longrightarrow> kgrows as k as2 k2" "pa \<noteq> 0 \<Longrightarrow> data_page as2 k2 pa" "r = 0 \<Longrightarrow> user_mapped (k_mem k2) as2 va"
proof -
  show 1: "kgrows as k as1 k1" using k_alloc_grows [OF o] a by auto
  have d: "pa \<noteq> 0 \<Longrightarrow> data_page as1 k1 pa" using k_alloc_grows [OF o] a by auto
  have 2: "pa \<noteq> 0 \<Longrightarrow> kgrows as1 k1 as2 k2" using k_map_grows [OF kgrows_open [OF 1], of va pa] m d by auto
  show "pa \<noteq> 0 \<Longrightarrow> kgrows as k as2 k2" using kgrows_trans [OF 1 2] by blast
  show "pa \<noteq> 0 \<Longrightarrow> data_page as2 k2 pa" using kgrows_data [OF 2 d] by blast
  show "r = 0 \<Longrightarrow> user_mapped (k_mem k2) as2 va" using k_map_grows [OF kgrows_open [OF 1], of va pa] m by auto
qed

lemma k_vfs_mem_grows:
  assumes o: "k_open as k" and f: "vfs_frame (k_vfs k) v"
    and m: "m = k_mem k \<or> data_page as k p \<and> (\<forall>i. i < p \<or> p + 4096 \<le> i \<longrightarrow> m i = k_mem k i)"
  shows "kgrows as k as (k\<lparr>k_vfs := v, k_mem := m\<rparr>)"
proof -
  have e: "vm_of (k\<lparr>k_vfs := v, k_mem := m\<rparr>) = (vm_of k)\<lparr>vm_mem := m\<rparr>" using f by (simp add: vm_of_def vfs_frame_def)
  have "grows as (k_spaces k) (vm_of k) as ((vm_of k)\<lparr>vm_mem := m\<rparr>) \<and> is_table m as = is_table (k_mem k) as \<and> as_map m as = as_map (k_mem k) as"
  proof (cases "m = k_mem k")
    case True
    then show ?thesis using o grows_refl by (simp add: k_open_def vm_of_def)
  next
    case False
    then have d: "data_page as k p" and l: "\<And>i. i < p \<or> p + 4096 \<le> i \<Longrightarrow> m i = vm_mem (vm_of k) i" using m by auto
    have "p \<in> set (owned_pages as)" "\<not> is_table (vm_mem (vm_of k)) as p" using d by (simp_all add: data_pg_def)
    then show ?thesis using write_grows [OF o [unfolded k_open_def] _ _ l] by simp
  qed
  then show ?thesis using f by (simp add: kgrows_def e pool_frame_def vfs_frame_def confined_def data_pg_def)
qed

lemma k_vfs_grows: "k_open as k \<Longrightarrow> vfs_frame (k_vfs k) v \<Longrightarrow> kgrows as k as (k\<lparr>k_vfs := v\<rparr>)"
  using k_vfs_mem_grows [of as k v "k_mem k"] by (cases k) simp

lemma map_stack_grows:
  "k_open as k \<Longrightarrow> \<exists>r as' k'. map_stack tp i n as k = Some (r, as', k') \<and> kgrows as k as' k' \<and>
     (r = 0 \<longrightarrow> (\<forall>j < n. user_mapped (k_mem k') as' (tp - (i + j + 1) * ELF_PAGE_SIZE)))"
proof (induction n arbitrary: i as k)
  case 0
  then show ?case by (simp add: kgrows_refl)
next
  case (Suc n)
  obtain pa as1 k1 where a: "k_alloc_page as k = Some (pa, as1, k1)" "kgrows as k as1 k1" using k_alloc_grows [OF Suc.prems] by blast
  obtain r as2 k2 where m: "k_map_page as1 (tp - (i + 1) * ELF_PAGE_SIZE) pa k1 = Some (r, as2, k2)" using k_map_grows [OF kgrows_open [OF a(2)]] by blast
  note st = page_step [OF Suc.prems a(1) m]
  show ?case
  proof (cases "pa = 0")
    case False
    note g2 = st(2) [OF False]
    obtain r' as3 k3 where t: "map_stack tp (i + 1) n as2 k2 = Some (r', as3, k3)" "kgrows as2 k2 as3 k3"
      "r' = 0 \<longrightarrow> (\<forall>j < n. user_mapped (k_mem k3) as3 (tp - (i + 1 + j + 1) * ELF_PAGE_SIZE))" using Suc.IH [OF kgrows_open [OF g2]] by blast
    have "user_mapped (k_mem k3) as3 (tp - (i + j + 1) * ELF_PAGE_SIZE)" if "r = 0" "r' = 0" "j < Suc n" for j
      using that t(3) kgrows_mapped [OF t(2) st(4)] by (cases j) auto
    then show ?thesis using a m t(1) g2 False kgrows_trans [OF g2 t(2)] by auto
  qed (use a in auto)
qed

section \<open>The arguments stay in their page\<close>

lemma wr64_other: "b < a \<or> a + 8 \<le> b \<Longrightarrow> wr64 m a w b = m b"
  by (simp add: wr64_def wrn_other)

lemma copy_args_local:
  "copy_args pa va off c args m = (c', m') \<Longrightarrow> c + length args \<le> ELF_MAX_ARGS \<Longrightarrow> b < pa \<or> pa + ELF_PAGE_SIZE \<le> b \<Longrightarrow>
     m' b = m b \<and> c' \<le> c + length args"
proof (induction pa va off c args m rule: copy_args.induct)
  case (2 pa va off c arg args m)
  have n: "ELF_MAX_ARGS = 8" "proc_args_sizeof = 72" "ELF_PAGE_SIZE = 4096" by (simp_all add: ELF_MAX_ARGS_def proc_args_sizeof_def ELF_PAGE_SIZE_def)
  show ?case
  proof (cases "off + length arg + 1 > ELF_PAGE_SIZE - proc_args_sizeof")
    case True
    then show ?thesis using 2 by (simp add: Let_def)
  next
    case False
    then show ?thesis using 2 by (auto simp: Let_def wr64_other store_bytes_def n)
  qed
qed simp

lemma clear_args_local:
  "i + n \<le> ELF_MAX_ARGS \<Longrightarrow> b < pa \<or> pa + ELF_PAGE_SIZE \<le> b \<Longrightarrow> clear_args pa i n m b = m b"
  by (induction pa i n m rule: clear_args.induct) (auto simp: wr64_other ELF_MAX_ARGS_def ELF_PAGE_SIZE_def)

lemma write_args_local:
  assumes b: "b < pa \<or> pa + 4096 \<le> b"
  shows "write_args pa va argv m b = m b"
proof -
  obtain c m1 where c: "copy_args pa va 0 0 (take ELF_MAX_ARGS argv) m = (c, m1)" by fastforce
  have b': "b < pa \<or> pa + ELF_PAGE_SIZE \<le> b" using b by (simp add: ELF_PAGE_SIZE_def)
  have "m1 b = m b" "c \<le> ELF_MAX_ARGS" using copy_args_local [OF c _ b'] by auto
  moreover have "clear_args pa c (ELF_MAX_ARGS - c) (wr64 m1 pa (of_nat c)) b = wr64 m1 pa (of_nat c) b"
    using \<open>c \<le> ELF_MAX_ARGS\<close> by (intro clear_args_local [OF _ b']) simp
  ultimately show ?thesis using b by (auto simp: write_args_def c wr64_other)
qed

section \<open>Segments\<close>

definition seg_mapped :: "memory \<Rightarrow> vmm_as \<Rightarrow> nat \<Rightarrow> nat \<Rightarrow> bool" where
  "seg_mapped m as va seg_end \<longleftrightarrow> (\<forall>j. va + j * ELF_PAGE_SIZE < seg_end \<longrightarrow> user_mapped m as (va + j * ELF_PAGE_SIZE))"

lemma seg_mapped_step: "seg_mapped m as (va + ELF_PAGE_SIZE) e \<Longrightarrow> user_mapped m as va \<Longrightarrow> seg_mapped m as va e"
  unfolding seg_mapped_def
proof (intro allI impI)
  fix j assume "\<forall>j. va + ELF_PAGE_SIZE + j * ELF_PAGE_SIZE < e \<longrightarrow> user_mapped m as (va + ELF_PAGE_SIZE + j * ELF_PAGE_SIZE)"
    "user_mapped m as va" "va + j * ELF_PAGE_SIZE < e"
  then show "user_mapped m as (va + j * ELF_PAGE_SIZE)" by (cases j) (auto simp: add.assoc)
qed

lemma kgrows_seg: "kgrows as k as' k' \<Longrightarrow> seg_mapped (k_mem k) as va e \<Longrightarrow> seg_mapped (k_mem k') as' va e"
  by (simp add: seg_mapped_def kgrows_mapped)

definition seg_start :: "elf64_phdr \<Rightarrow> nat" where
  "seg_start ph = p_vaddr ph div ELF_PAGE_SIZE * ELF_PAGE_SIZE"

definition seg_end :: "elf64_phdr \<Rightarrow> nat" where
  "seg_end ph = add64 (add64 (p_vaddr ph) (p_memsz ph)) (ELF_PAGE_SIZE - 1) div ELF_PAGE_SIZE * ELF_PAGE_SIZE"

text \<open>A segment to be loaded is in the user range and every page of it is mapped, below the heap that starts at \<open>brk\<close>.\<close>

definition seg_loaded :: "memory \<Rightarrow> vmm_as \<Rightarrow> nat \<Rightarrow> elf64_phdr \<Rightarrow> bool" where
  "seg_loaded m as brk ph \<longleftrightarrow> (p_type ph = PT_LOAD \<and> p_memsz ph \<noteq> 0 \<longrightarrow> VMM_USER_BASE \<le> seg_start ph \<and>
     seg_end ph \<le> VMM_USER_BASE + VMM_USER_SIZE \<and> seg_mapped m as (seg_start ph) (seg_end ph) \<and> seg_end ph \<le> brk)"

lemma kgrows_loaded: "kgrows as k as' k' \<Longrightarrow> seg_loaded (k_mem k) as brk ph \<Longrightarrow> seg_loaded (k_mem k') as' brk ph"
  by (auto simp: seg_loaded_def kgrows_seg)

lemma seg_loaded_mono: "seg_loaded m as b ph \<Longrightarrow> b \<le> b' \<Longrightarrow> seg_loaded m as b' ph"
  by (auto simp: seg_loaded_def)

text \<open>The interface the loader relies on: a read stores no more bytes than it was asked for.\<close>

locale program_source =
  fixes D :: "'s driver"
  assumes read_bounded: "dr_read D node off n s = Some (r, out, s') \<Longrightarrow> n < 2 ^ 32 \<Longrightarrow> length out \<le> n"
begin

lemma vfs_read_bounded: "vfs_read D fd n v = Some (r, out, v') \<Longrightarrow> length out \<le> n"
  unfolding vfs_read_def
  by (auto split: option.splits if_splits dest!: read_bounded intro: le_trans [OF _ mod_less_eq_dividend])

lemma k_read_grows:
  assumes r: "k_read D fd buf n k = Some (r, k')" and o: "k_open as k" "data_page as k p" "p \<le> buf" "buf + n \<le> p + 4096"
  shows "kgrows as k as k'"
proof -
  obtain out v where v: "vfs_read D fd n (k_vfs k) = Some (r, out, v)" "k' = k\<lparr>k_vfs := v, k_mem := store_bytes (k_mem k) buf out\<rparr>"
    using r by (auto simp: k_read_def)
  have "length out \<le> n" by (rule vfs_read_bounded [OF v(1)])
  then show ?thesis unfolding v(2) using o
    by (intro k_vfs_mem_grows [where p = p] vfs_read_frame [OF v(1)] disjI2) (auto simp: store_bytes_def)
qed

lemma load_pages_grows:
  "load_pages D fd as ss se off rem va k = Some (r, as', k') \<Longrightarrow> k_open as k \<Longrightarrow> off \<le> ELF_PAGE_SIZE \<Longrightarrow>
     kgrows as k as' k' \<and> (r = 0 \<longrightarrow> seg_mapped (k_mem k') as' va se)"
proof (induction "se - va" arbitrary: as rem va k rule: less_induct)
  case less
  note un = load_pages.simps [of D fd as ss se off rem va k]
  show ?case
  proof (cases "va < se")
    case False
    then show ?thesis using less.prems un by (auto simp: kgrows_refl seg_mapped_def)
  next
    case True
    obtain pa as1 k1 where a: "k_alloc_page as k = Some (pa, as1, k1)" "kgrows as k as1 k1"
      using k_alloc_grows [OF less.prems(2)] by blast
    obtain q as2 k2 where m: "k_map_page as1 va pa k1 = Some (q, as2, k2)" using k_map_grows [OF kgrows_open [OF a(2)]] by blast
    note st = page_step [OF less.prems(2) a(1) m]
    show ?thesis
    proof (cases "pa = 0 \<or> q \<noteq> 0")
      case bad: True
      then have "load_pages D fd as ss se off rem va k = Some (- 1, if pa = 0 then (as1, k1) else (as2, k2))"
        by (subst un) (use True a(1) m in auto)
      then show ?thesis using less.prems(1) a(2) st(2) by (simp split: if_splits)
    next
      case False
      then have g2: "kgrows as k as2 k2" using st(2) by simp
      define po where "po = (if va = ss then off else 0)"
      define tr where "tr = (if rem < ELF_PAGE_SIZE - po then rem else ELF_PAGE_SIZE - po)"
      define kr where "kr = (if 0 < tr then k_read D fd (pa + po) tr k2 else Some (int tr, k2))"
      have eq: "load_pages D fd as ss se off rem va k = do {
          (n, k) \<leftarrow> kr;
          (if n \<noteq> int tr then Some (- 1, as2, k) else load_pages D fd as2 ss se off (rem - tr) (va + ELF_PAGE_SIZE) k) }"
        unfolding kr_def po_def tr_def un using True False a(1) m by (simp add: Let_def cong: if_cong)
      obtain n k3 where k: "kr = Some (n, k3)" using less.prems(1) eq by (cases kr) auto
      have po: "pa + po + tr \<le> pa + 4096" using less.prems(3) by (auto simp: po_def tr_def ELF_PAGE_SIZE_def)
      have 3: "kgrows as2 k2 as2 k3"
      proof (cases "0 < tr")
        case True
        then have rd: "k_read D fd (pa + po) tr k2 = Some (n, k3)" using k by (simp add: kr_def)
        show ?thesis by (rule k_read_grows [OF rd kgrows_open [OF g2] _ le_add1 po]) (use st(3) False in auto)
      qed (use k kgrows_refl [OF kgrows_open [OF g2]] in \<open>simp add: kr_def\<close>)
      note g3 = kgrows_trans [OF g2 3]
      show ?thesis
      proof (cases "n = int tr")
        case n: True
        have "load_pages D fd as2 ss se off (rem - tr) (va + ELF_PAGE_SIZE) k3 = Some (r, as', k')" using less.prems(1) eq k n by simp
        then have l: "kgrows as2 k3 as' k' \<and> (r = 0 \<longrightarrow> seg_mapped (k_mem k') as' (va + ELF_PAGE_SIZE) se)"
          using True less.prems(3) kgrows_open [OF g3] by (intro less.hyps) (auto simp: ELF_PAGE_SIZE_def)
        have "user_mapped (k_mem k') as' va" using False l kgrows_mapped [OF kgrows_trans [OF 3]] st(4) by blast
        then show ?thesis using l kgrows_trans [OF g3] seg_mapped_step by blast
      qed (use less.prems(1) eq k g3 in auto)
    qed
  qed
qed

lemma load_segments_grows:
  "load_segments D fd phs as b k = Some (r, b', as', k') \<Longrightarrow> k_open as k \<Longrightarrow>
     kgrows as k as' k' \<and> b \<le> b' \<and> (r = 0 \<longrightarrow> (\<forall>ph \<in> set phs. seg_loaded (k_mem k') as' b' ph))"
proof (induction phs arbitrary: as b k)
  case Nil
  then show ?case by (simp add: kgrows_refl)
next
  case (Cons ph phs)
  note un = load_segments.simps(2) [of D fd ph phs as b k, folded seg_start_def seg_end_def]
  show ?case
  proof (cases "p_type ph \<noteq> PT_LOAD \<or> p_memsz ph = 0")
    case True
    then have "load_segments D fd phs as b k = Some (r, b', as', k')" using Cons.prems(1) un by simp
    then show ?thesis using Cons.IH [OF _ Cons.prems(2)] True by (auto simp: seg_loaded_def)
  next
    case F1: False
    obtain sr v where sv: "vfs_seek fd (of_nat (p_offset ph)) (k_vfs k) = (sr, v)" by fastforce
    note g1 = k_vfs_grows [OF Cons.prems(2) vfs_seek_frame [OF sv]]
    show ?thesis
    proof (cases "seg_start ph < VMM_USER_BASE \<or> seg_end ph > VMM_USER_BASE + VMM_USER_SIZE \<or> p_filesz ph > p_memsz ph \<or> sr \<noteq> 0")
      case True
      then show ?thesis using Cons.prems un F1 sv g1 by (auto simp: Let_def kgrows_refl split: if_splits)
    next
      case F2: False
      let ?lp = "load_pages D fd as (seg_start ph) (seg_end ph) (p_vaddr ph - seg_start ph) (p_filesz ph) (seg_start ph) (k\<lparr>k_vfs := v\<rparr>)"
      let ?b = "if seg_end ph > b then seg_end ph else b"
      have eq: "load_segments D fd (ph # phs) as b k = do { (r, as, k) \<leftarrow> ?lp; (if r \<noteq> 0 then Some (- 1, b, as, k) else load_segments D fd phs as ?b k) }"
        unfolding un using F1 F2 sv by (simp add: Let_def load_segment_def)
      obtain q as2 k2 where lp: "?lp = Some (q, as2, k2)" using Cons.prems(1) eq by (cases ?lp) auto
      have "p_vaddr ph - seg_start ph \<le> ELF_PAGE_SIZE"
        by (simp add: seg_start_def minus_div_mult_eq_mod ELF_PAGE_SIZE_def less_imp_le)
      then have l: "kgrows as (k\<lparr>k_vfs := v\<rparr>) as2 k2" "q = 0 \<longrightarrow> seg_mapped (k_mem k2) as2 (seg_start ph) (seg_end ph)"
        using load_pages_grows [OF lp kgrows_open [OF g1]] by auto
      note g2 = kgrows_trans [OF g1 l(1)]
      show ?thesis
      proof (cases "q = 0")
        case True
        then have "load_segments D fd phs as2 ?b k2 = Some (r, b', as', k')" using Cons.prems(1) eq lp by simp
        from Cons.IH [OF this kgrows_open [OF g2]]
        have t: "kgrows as2 k2 as' k'" "?b \<le> b'" "r = 0 \<longrightarrow> (\<forall>ph \<in> set phs. seg_loaded (k_mem k') as' b' ph)" by auto
        have "seg_loaded (k_mem k2) as2 ?b ph" using True l(2) F2 by (auto simp: seg_loaded_def)
        then have "seg_loaded (k_mem k') as' b' ph" using seg_loaded_mono [OF _ t(2)] kgrows_loaded [OF t(1)] by blast
        then show ?thesis using t kgrows_trans [OF g2 t(1)] by (auto split: if_splits)
      qed (use Cons.prems(1) eq lp g2 in auto)
    qed
  qed
qed

end

section \<open>Failing and submitting\<close>

text \<open>The state after an attempt that started from a state whose heap regions were \<open>R\<close>.\<close>

definition attempt :: "(nat \<times> nat) set \<Rightarrow> 's kernel \<Rightarrow> int \<Rightarrow> 's kernel \<Rightarrow> bool" where
  "attempt R k r k' \<longleftrightarrow> spaces_ok (k_spaces k') (vm_of k') \<and> unchanged_in (k_spaces k) (k_mem k) (k_mem k') \<and>
     (r < 0 \<longrightarrow> r = - 1 \<and> k_spaces k' = k_spaces k \<and> kregions (k_heap k') = R)"

lemma attempt_vfs: "attempt R k (- 1) k' \<Longrightarrow> vfs_frame (k_vfs k') v \<Longrightarrow> attempt R k (- 1) (k'\<lparr>k_vfs := v\<rparr>)"
  by (auto simp: attempt_def vm_of_def vfs_frame_def)

lemma exec_fail_ok:
  assumes g: "kgrows as k as' k'" and f: "exec_fail fd as' k' = Some (r, k2)"
  shows "r = - 1" "attempt (others_regions (k_heap k) as) k r k2"
proof -
  have "pages_ok as' (k_spaces k) (vm_of k')" using kgrows_open [OF g] g by (simp add: k_open_def spaces_ok_Cons kgrows_def pool_frame_def)
  then obtain s where s: "vmm_destroy_address_space as' (vm_of k') = Some s" "spaces_ok (k_spaces k) s" "vm_mem s = k_mem k'"
    "kregions (vm_heap s) = others_regions (k_heap k') as'" using destroy_ok by fastforce
  have "attempt (others_regions (k_heap k) as) k (- 1) (set_vm s k')"
    using s g by (simp add: attempt_def kgrows_def grows_def pool_frame_def flip: vm_of_simps)
  moreover have "r = - 1 \<and> (k2 = set_vm s k' \<or> (\<exists>fd. k2 = (set_vm s k')\<lparr>k_vfs := snd (vfs_close fd (k_vfs (set_vm s k')))\<rparr>))"
    using f s(1) by (cases fd) (auto simp: exec_fail_def k_destroy_def)
  ultimately show "r = - 1" "attempt (others_regions (k_heap k) as) k r k2" 
    by (auto intro: attempt_vfs vfs_close_frame)
qed

lemma keeps_others:
  assumes ok: "spaces_ok (as # rest) s" and k: "keeps (vm_heap s) h'" "kregions h' = kregions (vm_heap s)"
  shows "others_regions h' as = others_regions (vm_heap s) as"
proof -
  have "\<exists>k. live_ptr (vm_heap s) k q" if "q \<in> set (as_ptrs as)" for q using ok that by (fastforce simp: spaces_ok_def as_ptrs_def)
  then have "hdr_raw h' ` set (as_ptrs as) = hdr_raw (vm_heap s) ` set (as_ptrs as)" using k(1) by (intro image_cong refl) (auto simp: keeps_def)
  then show ?thesis using k(2) by (simp add: others_regions_def)
qed

text \<open>A program on its way: the task in \<open>slot\<close> runs in space \<open>as\<close>, starts inside the user range, has its segments below its
  heap, its stack pages and its argument page mapped, and reaches no page but its own.\<close>

definition stack_top :: nat where
  "stack_top = VMM_USER_BASE + VMM_USER_SIZE - ELF_PAGE_SIZE"

definition args_at :: nat where
  "args_at = stack_top - (ELF_STACK_PAGES + 1) * ELF_PAGE_SIZE"

definition ready_to_run :: "memory \<Rightarrow> vmm_as \<Rightarrow> elf64_ehdr \<Rightarrow> elf64_phdr list \<Rightarrow> nat \<Rightarrow> bool" where
  "ready_to_run m as eh phs brk \<longleftrightarrow> VMM_USER_BASE \<le> e_entry eh \<and> e_entry eh < VMM_USER_BASE + VMM_USER_SIZE \<and>
     (\<forall>ph \<in> set phs. seg_loaded m as brk ph) \<and> (\<forall>j < ELF_STACK_PAGES. user_mapped m as (stack_top - (j + 1) * ELF_PAGE_SIZE)) \<and>
     user_mapped m as args_at \<and> confined m as"

definition process_at :: "'s kernel \<Rightarrow> nat \<Rightarrow> vmm_as \<Rightarrow> elf64_ehdr \<Rightarrow> elf64_phdr list \<Rightarrow> bool" where
  "process_at k slot as eh phs \<longleftrightarrow>
     (let t = task_pool (v_sched (k_vfs k)) ! slot in
      slot < length (task_pool (v_sched (k_vfs k))) \<and> user_task t (e_entry eh) args_at (pml4_phys as) \<and> t_as t = as_ptr as \<and>
      t_heap_brk t = t_heap_start t \<and> t_heap_end t = args_at \<and> ready_to_run (k_mem k) as eh phs (t_heap_start t))"

lemma exec_submit_ok:
  assumes g: "kgrows as k as' k1" and pool: "length (task_pool (v_sched (k_vfs k))) = MAX_TASKS" "task_count (v_sched (k_vfs k)) \<le> MAX_TASKS"
    and e: "exec_submit env name (e_entry eh) args_at stack_top brk as' k1 = Some (r, k')"
    and rdy: "ready_to_run (k_mem k1) as' eh phs brk"
  shows "attempt (others_regions (k_heap k) as) k r k'"
    "r \<ge> 0 \<Longrightarrow> k_spaces k' = as' # k_spaces k \<and> process_at k' (nat r) as' eh phs"
proof -
  have ok: "spaces_ok (as' # k_spaces k) (vm_of k1)" "k_spaces k1 = k_spaces k" using g growsD by (auto simp: kgrows_def pool_frame_def)
  have heap: "heap_ok (k_heap k1)" using ok by (simp add: spaces_ok_def)
  obtain slot sc where s: "sched_submit_user_as env (v_sched (k_vfs k1)) name (e_entry eh) args_at (pml4_phys as') stack_top = Some (slot, sc)"
    using e by (cases "sched_submit_user_as env (v_sched (k_vfs k1)) name (e_entry eh) args_at (pml4_phys as') stack_top") (auto simp: exec_submit_def)
  have p1: "length (task_pool (v_sched (k_vfs k1))) = MAX_TASKS" "task_count (v_sched (k_vfs k1)) \<le> MAX_TASKS"
    using g pool by (auto simp: kgrows_def pool_frame_def)
  note sk = submit_keeps [OF s p1 heap]
  define k2 where "k2 = k1\<lparr>k_vfs := (k_vfs k1)\<lparr>v_sched := sc\<rparr>\<rparr>"
  have vm2: "vm_of k2 = (vm_of k1)\<lparr>vm_heap := s_mem sc\<rparr>" "k_mem k2 = k_mem k1" "k_spaces k2 = k_spaces k" using ok(2) by (simp_all add: k2_def vm_of_def)
  have ok2: "spaces_ok (as' # k_spaces k) (vm_of k2)" unfolding vm2 using keeps_spaces [OF ok(1)] sk(1) by simp
  have un: "unchanged_in (k_spaces k) (k_mem k) (k_mem k1)" using g by (simp add: kgrows_def grows_def)
  have ex: "exec_submit env name (e_entry eh) args_at stack_top brk as' k1 =
      (if slot < 0 then exec_fail None as' k2
       else Some (slot, k2\<lparr>k_vfs := (k_vfs k2)\<lparr>v_sched := upd_task (Slot (nat slot)) (\<lambda>t. t\<lparr>t_as := as_ptr as', t_heap_start := brk,
         t_heap_brk := brk, t_heap_end := args_at\<rparr>) sc\<rparr>, k_spaces := as' # k_spaces k2\<rparr>))"
    using s by (simp add: exec_submit_def k2_def Let_def)
  have *: "attempt (others_regions (k_heap k) as) k r k' \<and> (r \<ge> 0 \<longrightarrow> k_spaces k' = as' # k_spaces k \<and> process_at k' (nat r) as' eh phs)"
  proof (cases "slot < 0")
    case True
    have "kgrows as' k2 as' k2" using kgrows_refl [of as' k2] ok2 vm2(3) by (simp add: k_open_def)
    moreover have "exec_fail None as' k2 = Some (r, k')" using e ex True by simp
    ultimately have f: "r = - 1" "attempt (others_regions (k_heap k2) as') k2 r k'" by (rule exec_fail_ok)+
    have "others_regions (k_heap k2) as' = others_regions (k_heap k1) as'"
      using keeps_others [OF ok(1)] sk(1,2) True by (simp add: k2_def)
    also have "\<dots> = others_regions (k_heap k) as" using g by (simp add: kgrows_def grows_def)
    finally show ?thesis using f un vm2 unchanged_trans by (auto simp: attempt_def)
  next
    case False
    then have "Some (r, k') = Some (slot, k2\<lparr>k_vfs := (k_vfs k2)\<lparr>v_sched := upd_task (Slot (nat slot)) (\<lambda>t. t\<lparr>t_as := as_ptr as',
         t_heap_start := brk, t_heap_brk := brk, t_heap_end := args_at\<rparr>) sc\<rparr>, k_spaces := as' # k_spaces k2\<rparr>)"
      unfolding e [symmetric] ex by (simp only: if_False)
    then have k': "r = slot" "k' = k2\<lparr>k_vfs := (k_vfs k2)\<lparr>v_sched := upd_task (Slot (nat slot)) (\<lambda>t. t\<lparr>t_as := as_ptr as', t_heap_start := brk,
         t_heap_brk := brk, t_heap_end := args_at\<rparr>) sc\<rparr>, k_spaces := as' # k_spaces k2\<rparr>" by simp_all
    have "vm_of k' = vm_of k2" "k_spaces k' = as' # k_spaces k" "k_mem k' = k_mem k1" using k'(2) vm2(2,3) by (simp_all add: k2_def vm_of_def)
    moreover have "process_at k' (nat r) as' eh phs"
      using k' False sk(3) rdy by (simp add: process_at_def k2_def user_task_def Let_def)
    ultimately show ?thesis using ok2 k'(1) un False by (simp add: attempt_def)
  qed
  then show "attempt (others_regions (k_heap k) as) k r k'"
    "r \<ge> 0 \<Longrightarrow> k_spaces k' = as' # k_spaces k \<and> process_at k' (nat r) as' eh phs" by auto
qed

section \<open>The loader as a whole\<close>

text \<open>The headers a program file holds, read the way the loader reads them.\<close>

definition program_file :: "'s driver \<Rightarrow> u8 list \<Rightarrow> 's vfs \<Rightarrow> elf64_ehdr \<Rightarrow> elf64_phdr list \<Rightarrow> bool" where
  "program_file D path v eh phs \<longleftrightarrow>
     (\<exists>fd v1 hdr v2 tbl v3. vfs_open D path O_RDONLY v = Some (fd, v1) \<and> vfs_read D fd 64 v1 = Some (64, hdr, v2) \<and>
        eh = ehdr_of hdr \<and> validate_ehdr eh = 0 \<and>
        vfs_read D fd (e_phnum eh * 56) (snd (vfs_seek fd (of_nat (e_phoff eh)) v2)) = Some (int (e_phnum eh * 56), tbl, v3) \<and>
        phs = map (phdr_of tbl) [0..<e_phnum eh])"

text \<open>File operations before the address space exists.\<close>

definition only_vfs :: "'s kernel \<Rightarrow> 's vfs \<Rightarrow> bool" where
  "only_vfs k v \<longleftrightarrow> spaces_ok (k_spaces k) (vm_of k) \<and> vfs_frame (k_vfs k) v"

lemma only_vfs_fail: "only_vfs k v \<Longrightarrow> attempt (kregions (k_heap k)) k (- 1) (k\<lparr>k_vfs := v\<rparr>)"
  by (auto simp: only_vfs_def attempt_def vm_of_def vfs_frame_def unchanged_in_def)

lemma only_vfs_trans: "only_vfs k v \<Longrightarrow> vfs_frame v v' \<Longrightarrow> only_vfs k v'"
  unfolding only_vfs_def using vfs_frame_trans by blast

lemma only_vfs_close:
  assumes "only_vfs k v" "close_fail fd (k\<lparr>k_vfs := v\<rparr>) = Some (r, k')"
  shows "attempt (kregions (k_heap k)) k r k' \<and> r = - 1"
  using assms(2) only_vfs_fail [OF only_vfs_trans [OF assms(1) vfs_close_frame]] by (auto simp: close_fail_def)

context program_source
begin

lemma exec_load_ok:
  assumes o: "k_open as k" "confined (k_mem k) as" and pool: "length (task_pool (v_sched (k_vfs k))) = MAX_TASKS" "task_count (v_sched (k_vfs k)) \<le> MAX_TASKS"
    and e: "exec_load D env fd eh phs name argv as k = Some (r, k')"
  shows "attempt (others_regions (k_heap k) as) k r k'"
    "r \<ge> 0 \<Longrightarrow> \<exists>as'. k_spaces k' = as' # k_spaces k \<and> process_at k' (nat r) as' eh phs"
proof -
  let ?A = "\<lambda>r k'. attempt (others_regions (k_heap k) as) k r k' \<and>
    (r \<ge> 0 \<longrightarrow> (\<exists>as'. k_spaces k' = as' # k_spaces k \<and> process_at k' (nat r) as' eh phs))"
  have fail: "?A r k'" if "kgrows as k as1 k1" "exec_fail f as1 k1 = Some (r, k')" for f as1 k1
    using exec_fail_ok [OF that] by simp
  obtain r1 b as1 k1 where l: "load_segments D fd phs as VMM_USER_BASE k = Some (r1, b, as1, k1)"
    using e by (cases "load_segments D fd phs as VMM_USER_BASE k") (auto simp: exec_load_def)
  have g1: "kgrows as k as1 k1" "r1 = 0 \<longrightarrow> (\<forall>ph \<in> set phs. seg_loaded (k_mem k1) as1 b ph)" using load_segments_grows [OF l o(1)] by auto
  obtain r2 as2 k2 where m: "map_stack stack_top 0 ELF_STACK_PAGES as1 k1 = Some (r2, as2, k2)" "kgrows as1 k1 as2 k2"
    "r2 = 0 \<longrightarrow> (\<forall>j < ELF_STACK_PAGES. user_mapped (k_mem k2) as2 (stack_top - (0 + j + 1) * ELF_PAGE_SIZE))"
    using map_stack_grows [OF kgrows_open [OF g1(1)]] by blast
  note g2 = kgrows_trans [OF g1(1) m(2)]
  define k3 where "k3 = k2\<lparr>k_vfs := snd (vfs_close fd (k_vfs k2))\<rparr>"
  have m3: "kgrows as2 k2 as2 k3" unfolding k3_def by (rule k_vfs_grows [OF kgrows_open [OF g2] vfs_close_frame])
  note g3 = kgrows_trans [OF g2 m3]
  obtain pa as4 k4 where a: "k_alloc_page as2 k3 = Some (pa, as4, k4)" "kgrows as2 k3 as4 k4" using k_alloc_grows [OF kgrows_open [OF g3]] by blast
  obtain r5 as5 k5 where mp: "k_map_page as4 args_at pa k4 = Some (r5, as5, k5)" using k_map_grows [OF kgrows_open [OF a(2)]] by blast
  note st = page_step [OF kgrows_open [OF g3] a(1) mp]
  define k6 where "k6 = k5\<lparr>k_mem := write_args pa args_at argv (k_mem k5)\<rparr>"
  have un: "exec_load D env fd eh phs name argv as k =
     (if r1 \<noteq> 0 \<or> e_entry eh < VMM_USER_BASE \<or> e_entry eh \<ge> VMM_USER_BASE + VMM_USER_SIZE then exec_fail (Some fd) as1 k1
      else if r2 \<noteq> 0 then exec_fail (Some fd) as2 k2
      else if pa = 0 then exec_fail None as4 k4
      else if r5 \<noteq> 0 then exec_fail None as5 k5
      else exec_submit env name (e_entry eh) args_at stack_top b as5 k6)"
    using l m(1) a(1) mp by (simp add: exec_load_def args_at_def stack_top_def k3_def k6_def Let_def)
  have "?A r k'"
  proof (cases "r1 \<noteq> 0 \<or> e_entry eh < VMM_USER_BASE \<or> e_entry eh \<ge> VMM_USER_BASE + VMM_USER_SIZE \<or> r2 \<noteq> 0 \<or> pa = 0 \<or> r5 \<noteq> 0")
    case True
    then show ?thesis using e un fail [OF g1(1)] fail [OF g2] fail [OF kgrows_trans [OF g3 st(1)]] fail [OF kgrows_trans [OF g3 st(2)]]
      by (smt (verit))
  next
    case False
    then have g5: "kgrows as2 k3 as5 k5" using st(2) by simp
    have "kgrows as5 k5 as5 (k5\<lparr>k_vfs := k_vfs k5, k_mem := write_args pa args_at argv (k_mem k5)\<rparr>)"
      using False st(3) by (intro k_vfs_mem_grows [OF kgrows_open [OF g5], where p = pa]) (auto simp: write_args_local)
    then have m6: "kgrows as5 k5 as5 k6" by (simp add: k6_def)
    note g6 = kgrows_trans [OF g3 kgrows_trans [OF g5 m6]] and t2 = kgrows_trans [OF m3 kgrows_trans [OF g5 m6]]
    have "\<forall>ph \<in> set phs. seg_loaded (k_mem k6) as5 b ph" using g1(2) False kgrows_loaded [OF kgrows_trans [OF m(2) t2]] by blast
    moreover have "\<forall>j < ELF_STACK_PAGES. user_mapped (k_mem k6) as5 (stack_top - (j + 1) * ELF_PAGE_SIZE)"
      using m(3) False kgrows_mapped [OF t2] by simp
    moreover have "user_mapped (k_mem k6) as5 args_at" using st(4) False kgrows_mapped [OF m6] by blast
    moreover have "confined (k_mem k6) as5" using g6 o(2) by (simp add: kgrows_def)
    ultimately have rdy: "ready_to_run (k_mem k6) as5 eh phs b" using False by (simp add: ready_to_run_def)
    have "exec_submit env name (e_entry eh) args_at stack_top b as5 k6 = Some (r, k')" using e un False by simp
    from exec_submit_ok [OF g6 pool this rdy] show ?thesis by blast
  qed
  then show "attempt (others_regions (k_heap k) as) k r k'"
    "r \<ge> 0 \<Longrightarrow> \<exists>as'. k_spaces k' = as' # k_spaces k \<and> process_at k' (nat r) as' eh phs" by blast+
qed

lemma k_create_ok:
  assumes v: "only_vfs k v" and c: "k_create (k\<lparr>k_vfs := v\<rparr>) = Some (a, k1)"
  shows "unchanged_in (k_spaces k) (k_mem k) (k_mem k1)" "pool_frame (k\<lparr>k_vfs := v\<rparr>) k1"
    "case a of None \<Rightarrow> attempt (kregions (k_heap k)) k (- 1) k1
     | Some as \<Rightarrow> k_open as k1 \<and> confined (k_mem k1) as \<and> others_regions (k_heap k1) as = kregions (k_heap k)"
proof -
  let ?k = "k\<lparr>k_vfs := v\<rparr>"
  have vm: "vm_of ?k = vm_of k" using v by (simp add: only_vfs_def vm_of_def vfs_frame_def)
  obtain s where s: "vmm_create_address_space (vm_of k) = Some (a, s)" "k1 = set_vm s ?k" using c vm by (auto simp: k_create_def)
  have m: "vm_of k1 = s" "k_spaces k1 = k_spaces k" "pool_frame ?k k1" using s(2) by simp_all
  have ok: "spaces_ok (k_spaces k) (vm_of k)" using v by (simp add: only_vfs_def)
  show "pool_frame ?k k1" by (rule m(3))
  note cr = create_ok [OF ok]
  show "unchanged_in (k_spaces k) (k_mem k) (k_mem k1)" using cr s(1) m(1) by (cases a) (auto simp flip: vm_of_simps)
  then show "case a of None \<Rightarrow> attempt (kregions (k_heap k)) k (- 1) k1
     | Some as \<Rightarrow> k_open as k1 \<and> confined (k_mem k1) as \<and> others_regions (k_heap k1) as = kregions (k_heap k)"
    using cr s(1) m by (cases a) (auto simp: attempt_def k_open_def confined_empty simp flip: vm_of_simps)
qed

lemma elf_exec_ok:
  assumes ok: "spaces_ok (k_spaces k) (vm_of k)"
    and pool: "length (task_pool (v_sched (k_vfs k))) = MAX_TASKS" "task_count (v_sched (k_vfs k)) \<le> MAX_TASKS"
    and e: "elf_exec D env path name argv k = Some (r, k')"
  shows "attempt (kregions (k_heap k)) k r k'"
    "r \<ge> 0 \<Longrightarrow> \<exists>as eh phs. program_file D path (k_vfs k) eh phs \<and> k_spaces k' = as # k_spaces k \<and> process_at k' (nat r) as eh phs"
proof -
  let ?A = "attempt (kregions (k_heap k)) k r k' \<and>
    (r \<ge> 0 \<longrightarrow> (\<exists>as eh phs. program_file D path (k_vfs k) eh phs \<and> k_spaces k' = as # k_spaces k \<and> process_at k' (nat r) as eh phs))"
  obtain fd v1 where o: "vfs_open D path O_RDONLY (k_vfs k) = Some (fd, v1)"
    using e by (cases "vfs_open D path O_RDONLY (k_vfs k)") (auto simp: elf_exec_def)
  have f1: "only_vfs k v1" using ok vfs_open_frame [OF o] by (simp add: only_vfs_def)
  have ?A
  proof (cases "fd < 0")
    case True
    then show ?thesis using e o only_vfs_fail [OF f1] by (auto simp: elf_exec_def)
  next
    case fd: False
    obtain n hdr v2 where rd: "vfs_read D fd 64 v1 = Some (n, hdr, v2)" using e o fd by (cases "vfs_read D fd 64 v1") (auto simp: elf_exec_def)
    note f2 = only_vfs_trans [OF f1 vfs_read_frame [OF rd]]
    obtain sr v3 where sk: "vfs_seek fd (of_nat (e_phoff (ehdr_of hdr))) v2 = (sr, v3)" by fastforce
    note f3 = only_vfs_trans [OF f2 vfs_seek_frame [OF sk]]
    let ?n = "e_phnum (ehdr_of hdr) * 56"
    show ?thesis
    proof (cases "n \<noteq> 64 \<or> validate_ehdr (ehdr_of hdr) \<noteq> 0 \<or> sr \<noteq> 0")
      case True
      then have "close_fail fd (k\<lparr>k_vfs := v2\<rparr>) = Some (r, k') \<or> close_fail fd (k\<lparr>k_vfs := v3\<rparr>) = Some (r, k')"
        using e o fd rd sk by (auto simp: elf_exec_def Let_def split: if_splits)
      then have "attempt (kregions (k_heap k)) k r k' \<and> r = - 1" using only_vfs_close [OF f2] only_vfs_close [OF f3] by blast
      then show ?thesis by auto
    next
      case ok2: False
      obtain n2 tbl v4 where rd2: "vfs_read D fd ?n v3 = Some (n2, tbl, v4)"
        using e o fd rd sk ok2 by (cases "vfs_read D fd ?n v3") (auto simp: elf_exec_def)
      note f4 = only_vfs_trans [OF f3 vfs_read_frame [OF rd2]]
      have eq: "Some (r, k') = (if n2 \<noteq> int ?n then close_fail fd (k\<lparr>k_vfs := v4\<rparr>)
          else do { (as, k) \<leftarrow> k_create (k\<lparr>k_vfs := v4\<rparr>);
            (case as of None \<Rightarrow> close_fail fd k
             | Some as \<Rightarrow> exec_load D env fd (ehdr_of hdr) (map (phdr_of tbl) [0..<e_phnum (ehdr_of hdr)]) name argv as k) })"
        unfolding e [symmetric] using o fd rd sk ok2 rd2 by (simp add: elf_exec_def Let_def)
      show ?thesis
      proof (cases "n2 = int ?n")
        case False
        then show ?thesis using eq only_vfs_close [OF f4, of fd r k'] by auto
      next
        case n2: True
        obtain a k1 where c: "k_create (k\<lparr>k_vfs := v4\<rparr>) = Some (a, k1)" using eq n2 by (cases "k_create (k\<lparr>k_vfs := v4\<rparr>)") auto
        note cr = k_create_ok [OF f4 c]
        have pool1: "length (task_pool (v_sched (k_vfs k1))) = MAX_TASKS" "task_count (v_sched (k_vfs k1)) \<le> MAX_TASKS" "k_spaces k1 = k_spaces k"
          using cr(2) pool f4 by (auto simp: pool_frame_def only_vfs_def vfs_frame_def)
        have pf: "program_file D path (k_vfs k) (ehdr_of hdr) (map (phdr_of tbl) [0..<e_phnum (ehdr_of hdr)])"
          unfolding program_file_def
          by (intro exI [of _ fd] exI [of _ v1] exI [of _ hdr] exI [of _ v2] exI [of _ tbl] exI [of _ v4] conjI)
            (use o rd sk ok2 rd2 n2 in simp_all)
        show ?thesis
        proof (cases a)
          case None
          then have "k' = k1\<lparr>k_vfs := snd (vfs_close fd (k_vfs k1))\<rparr>" "r = - 1" using eq n2 c by (simp_all add: close_fail_def)
          then show ?thesis using cr(3) None by (auto intro: attempt_vfs vfs_close_frame)
        next
          case (Some as)
          then have l: "exec_load D env fd (ehdr_of hdr) (map (phdr_of tbl) [0..<e_phnum (ehdr_of hdr)]) name argv as k1 = Some (r, k')"
            using eq n2 c by simp
          have op: "k_open as k1" "confined (k_mem k1) as" "others_regions (k_heap k1) as = kregions (k_heap k)" using cr(3) Some by auto
          note x = exec_load_ok [OF op(1,2) pool1(1,2) l]
          have "attempt (kregions (k_heap k)) k r k'" using x(1) op(3) pool1(3) unchanged_trans [OF cr(1)] by (auto simp: attempt_def)
          then show ?thesis using x(2) pf pool1(3) by metis
        qed
      qed
    qed
  qed
  then show "attempt (kregions (k_heap k)) k r k'" "r \<ge> 0 \<Longrightarrow> \<exists>as eh phs. program_file D path (k_vfs k) eh phs \<and>
    k_spaces k' = as # k_spaces k \<and> process_at k' (nat r) as eh phs" by blast+
qed

end

section \<open>FAT32 as a program source\<close>

lemma copy_len_bound: "moved \<le> n \<Longrightarrow> n < 2 ^ 32 \<Longrightarrow> copy_len pos offset n s moved \<le> n - moved"
proof -
  assume "moved \<le> n" "n < 2 ^ 32"
  then have "sub32 n moved = n - moved" by (simp add: sub32_def mod_if)
  then show ?thesis by (simp add: copy_len_def Let_def)
qed

lemma read_copy_bound: "length out \<le> n \<Longrightarrow> n < 2 ^ 32 \<Longrightarrow> length (read_copy pos offset n f l cbuf s out) \<le> n"
proof (induction "Suc l - s" arbitrary: s out)
  case 0
  then show ?case by (subst read_copy.simps) simp
next
  case (Suc d)
  let ?c = "take (copy_len pos offset n s (length out)) (drop ((s - f) * 512 + copy_start pos offset s) cbuf)"
  have "length (out @ ?c) \<le> n" using copy_len_bound [OF Suc.prems, of pos offset s] Suc.prems(1) by simp
  then have "length (read_copy pos offset n f l cbuf (s + 1) (out @ ?c)) \<le> n" using Suc by (intro Suc.hyps(1)) auto
  then show ?case using Suc by (subst read_copy.simps) (simp add: Let_def)
qed

lemma read_clusters_bound:
  assumes "read_clusters fs offset n pos c out st = Some y"
  shows "length out \<le> n \<longrightarrow> n < 2 ^ 32 \<longrightarrow> length (snd (fst y)) \<le> n"
proof (rule read_clusters.raw_induct [OF _ assms, where P = "\<lambda>fs offset n pos c out st y.
      length out \<le> n \<longrightarrow> n < 2 ^ 32 \<longrightarrow> length (snd (fst y)) \<le> n"], intro impI)
  fix self fs offset n pos c out st y
  assume hyp: "\<And>fs offset n pos c out st y. self fs offset n pos c out st = Some y \<Longrightarrow>
      length out \<le> n \<longrightarrow> n < 2 ^ 32 \<longrightarrow> length (snd (fst y)) \<le> n"
    and eq: "(if length out < n \<and> c < FAT32_EOC then
        (case find_run (fs_spc fs) pos offset n 0 None of
           None \<Rightarrow> Some ((True, out), st)
         | Some (first_s, last_s) \<Rightarrow>
             (let (rc, cbuf, st) = fs_read fs (cluster_to_lba fs c + first_s) (last_s - first_s + 1) [] st in
              if rc \<noteq> 0 then Some ((False, out), st)
              else
                let out = read_copy pos offset n first_s last_s cbuf first_s out;
                    (c, st) = fat32_next_cluster fs c st
                in self fs offset n (pos + fs_spc fs * 512) c out st))
      else Some ((True, out), st)) = Some y"
    and b: "length out \<le> n" "n < 2 ^ 32"
  show "length (snd (fst y)) \<le> n"
  proof (cases "y = ((fst (fst y), out), snd y)")
    case True
    then show ?thesis using b(1) by (metis fst_conv snd_conv)
  next
    case False
    then obtain f l cbuf st2 c2 where "self fs offset n (pos + fs_spc fs * 512) c2 (read_copy pos offset n f l cbuf f out) st2 = Some y"
      using eq by (auto simp: Let_def split: if_splits option.splits prod.splits)
    then show ?thesis using hyp read_copy_bound [OF b] b(2) by blast
  qed
qed

lemma fat32_read_bound: "fat32_read node off n st = Some (r, out, st') \<Longrightarrow> n < 2 ^ 32 \<Longrightarrow> length out \<le> n"
proof -
  assume r: "fat32_read node off n st = Some (r, out, st')" "n < 2 ^ 32"
  show ?thesis
  proof (cases "out = []")
    case False
    then obtain fs n' pos c st1 ok where "read_clusters fs off n' pos c [] st1 = Some ((ok, out), st')" "n' \<le> n"
      using r by (auto simp: fat32_read_def Let_def split: option.splits if_splits prod.splits)
    then show ?thesis using read_clusters_bound [of fs off n' pos c "[]" st1] r(2) by fastforce
  qed simp
qed

interpretation fat_source: program_source "fat_driver ext2_mount ntfs_mount xfs_mount ext2_defrag"
  for ext2_mount ntfs_mount xfs_mount :: mount_fn and ext2_defrag :: defrag_fn
  by unfold_locales (auto simp: fat_driver_def dest: fat32_read_bound)

text \<open>C2: running a program from a FAT32 volume is all or nothing. Whatever the file holds, when \<open>elf_exec\<close> returns, every
  address space is in order and the mappings of the spaces that existed before are untouched. On failure the result is -1,
  no space is left behind and the heap has exactly the live regions it had before, on every error path. On success the new
  space is registered for the task in the returned slot: the task is ready, runs in user mode on the space's tables, starts
  at an entry point inside the user range, and all pages of its loadable segments, its four stack pages and its argument
  page are mapped for user access, with the heap starting behind the last segment and ending at the argument page; every
  page it can reach is one that its own space allocated and none is a page table.\<close>

theorem elf_exec_all_or_nothing:
  assumes "spaces_ok (k_spaces k) (vm_of k)"
    and "length (task_pool (v_sched (k_vfs k))) = MAX_TASKS" "task_count (v_sched (k_vfs k)) \<le> MAX_TASKS"
    and "elf_exec (fat_driver ext2_mount ntfs_mount xfs_mount ext2_defrag) env path name argv k = Some (r, k')"
  shows "spaces_ok (k_spaces k') (vm_of k') \<and> (\<forall>as \<in> set (k_spaces k). as_map (k_mem k') as = as_map (k_mem k) as) \<and>
    (if r < 0 then r = - 1 \<and> k_spaces k' = k_spaces k \<and> kregions (k_heap k') = kregions (k_heap k)
     else \<exists>as eh phs. program_file (fat_driver ext2_mount ntfs_mount xfs_mount ext2_defrag) path (k_vfs k) eh phs \<and>
       k_spaces k' = as # k_spaces k \<and> process_at k' (nat r) as eh phs)"
proof -
  note x = fat_source.elf_exec_ok [OF assms]
  then have a: "spaces_ok (k_spaces k') (vm_of k')" "unchanged_in (k_spaces k) (k_mem k) (k_mem k')"
    "r < 0 \<longrightarrow> r = - 1 \<and> k_spaces k' = k_spaces k \<and> kregions (k_heap k') = kregions (k_heap k)" by (simp_all add: attempt_def)
  moreover have "\<forall>as \<in> set (k_spaces k). as_map (k_mem k') as = as_map (k_mem k) as"
    using unchanged_maps(2) [OF assms(1)] a(2) by simp
  ultimately show ?thesis using x(2) by auto
qed

definition kernel_example :: "fat_state kernel" where
  "kernel_example = \<lparr>k_vfs = fat_vfs_example\<lparr>v_sched := sched_zero\<lparr>cur_task := Some Idle, s_mem := vm_heap vm_example\<rparr>\<rparr>,
     k_mem = vm_mem vm_example, k_spaces = [as_example]\<rparr>"

theorem elf_exec_all_or_nothing_witness:
  "elf_exec (fat_driver no_mount no_mount no_mount no_defrag) env_example [0x2F, 0x61] [0x61] [] kernel_example = Some (- 1, kernel_example) \<and>
   spaces_ok (k_spaces kernel_example) (vm_of kernel_example)"
proof -
  have vm: "vm_of kernel_example = vm_example" by (simp add: vm_of_def kernel_example_def)
  have s: "spaces_ok (k_spaces kernel_example) (vm_of kernel_example)" using example_spaces unfolding vm by (simp add: kernel_example_def)
  have e: "elf_exec (fat_driver no_mount no_mount no_mount no_defrag) env_example [0x2F, 0x61] [0x61] [] kernel_example = Some (- 1, kernel_example)"
    by (simp add: elf_exec_def vfs_open_def locate_def find_mount_def kernel_example_def fat_vfs_example_def cstr_at_def)
  have p: "length (task_pool (v_sched (k_vfs kernel_example))) = MAX_TASKS" "task_count (v_sched (k_vfs kernel_example)) \<le> MAX_TASKS"
    by (simp_all add: kernel_example_def sched_zero_def)
  from elf_exec_all_or_nothing [OF s p e] e show ?thesis by simp
qed

end
