(* ===== verification/Gfx.thy ===== *)
theory Gfx
  imports Vmm
begin

text \<open>
  \<open>gfx/gfx.c\<close>: the software 2D layer. Coordinates are \<open>int32_t\<close>, kept as \<open>int\<close> with the wrap-around written out where the
  code adds them before clipping. A surface holds its pixels as a list; an access outside the list is the value \<open>None\<close>, so a
  drawing operation that returns \<open>Some\<close> has touched only its own pixels. The framebuffer is byte memory. The font bitmaps
  (\<open>drivers/screen.c\<close>, a data table) are a function from character to sixteen rows.
\<close>

section \<open>State\<close>

definition wrap32 :: "int \<Rightarrow> int" where
  "wrap32 i = sint (of_int i :: 32 word)"

record gfx_surface =
  sf_ptr :: nat
  px_ptr :: nat
  sf_w :: int
  sf_h :: int
  sf_px :: "u32 list"

record screen_fb_params =
  fbp_base :: nat
  fbp_width :: nat
  fbp_height :: nat
  fbp_pitch :: nat
  fbp_bpp :: nat

record screen_fb =
  use_fb :: bool
  fb_base :: nat
  fb_width :: nat
  fb_height :: nat
  fb_pitch :: nat
  fb_bpp :: nat

record gfx =
  fbp :: screen_fb_params
  backbuf :: gfx_surface
  gfx_ready :: bool

definition screen_get_fb :: "screen_fb \<Rightarrow> screen_fb_params option" where
  "screen_get_fb sc =
     (if \<not> use_fb sc \<or> fb_bpp sc \<noteq> 32 \<or> fb_base sc = 0 then None
      else Some \<lparr>fbp_base = fb_base sc, fbp_width = fb_width sc, fbp_height = fb_height sc, fbp_pitch = fb_pitch sc,
        fbp_bpp = fb_bpp sc\<rparr>)"

definition gfx_available :: "gfx \<Rightarrow> bool" where
  "gfx_available g = gfx_ready g"

definition gfx_screen :: "gfx \<Rightarrow> gfx_surface option" where
  "gfx_screen g = (if gfx_ready g then Some (backbuf g) else None)"

text \<open>The outer option is an undefined access in the heap.\<close>

definition gfx_init :: "screen_fb \<Rightarrow> gfx \<Rightarrow> kmem \<Rightarrow> (int \<times> gfx \<times> kmem) option" where
  "gfx_init sc g h =
     (if gfx_ready g then Some (0, g, h)
      else case screen_get_fb sc of
        None \<Rightarrow> Some (- 1, g, h)
      | Some p \<Rightarrow>
          let g = g\<lparr>fbp := p\<rparr>; bytes = fbp_width p * fbp_height p * 4 mod 2 ^ 64 in
          do {
            (px, _, h) \<leftarrow> kmalloc h bytes False False;
            (if px = 0 then Some (- 1, g, h)
             else Some (0, g\<lparr>backbuf := (backbuf g)\<lparr>px_ptr := px, sf_w := wrap32 (int (fbp_width p)), sf_h := wrap32 (int (fbp_height p)),
                    sf_px := replicate (bytes div 4) 0\<rparr>, gfx_ready := True\<rparr>, h))
          })"

section \<open>Surfaces\<close>

definition gfx_surface_sizeof :: nat where "gfx_surface_sizeof = 16"

text \<open>\<open>junk\<close> is what the heap memory of the pixels holds; \<open>create\<close> does not clear it.\<close>

definition gfx_surface_create :: "(nat \<Rightarrow> u32) \<Rightarrow> int \<Rightarrow> int \<Rightarrow> kmem \<Rightarrow> (gfx_surface option \<times> kmem) option" where
  "gfx_surface_create junk w h m =
     (if w \<le> 0 \<or> h \<le> 0 then Some (None, m)
      else do {
        (s, _, m) \<leftarrow> kmalloc m gfx_surface_sizeof False False;
        (if s = 0 then Some (None, m)
         else do {
           let bytes = nat w * nat h * 4 mod 2 ^ 64;
           (px, _, m) \<leftarrow> kmalloc m bytes False False;
           (if px = 0 then map_option (\<lambda>m. (None, m)) (kfree m s)
            else Some (Some \<lparr>sf_ptr = s, px_ptr = px, sf_w = w, sf_h = h, sf_px = map junk [0..<bytes div 4]\<rparr>, m))
         })
      })"

definition gfx_surface_destroy :: "gfx_surface option \<Rightarrow> kmem \<Rightarrow> kmem option" where
  "gfx_surface_destroy s m =
     (case s of None \<Rightarrow> Some m
      | Some s \<Rightarrow> do { m \<leftarrow> kfree m (px_ptr s); kfree m (sf_ptr s) })"

section \<open>Clipping\<close>

definition clip_rect :: "gfx_surface \<Rightarrow> int \<Rightarrow> int \<Rightarrow> int \<Rightarrow> int \<Rightarrow> (int \<times> int \<times> int \<times> int) option" where
  "clip_rect s x y w h =
     (if w \<le> 0 \<or> h \<le> 0 then None
      else
        let (x, w) = (if x < 0 then (0, wrap32 (w + x)) else (x, w));
            (y, h) = (if y < 0 then (0, wrap32 (h + y)) else (y, h))
        in if x \<ge> sf_w s \<or> y \<ge> sf_h s then None
           else
             let w = (if wrap32 (x + w) > sf_w s then wrap32 (sf_w s - x) else w);
                 h = (if wrap32 (y + h) > sf_h s then wrap32 (sf_h s - y) else h)
             in if w > 0 \<and> h > 0 then Some (x, y, w, h) else None)"

section \<open>Primitives\<close>

definition put_px :: "int \<Rightarrow> u32 \<Rightarrow> u32 list \<Rightarrow> u32 list option" where
  "put_px i c px = (if 0 \<le> i \<and> i < int (length px) then Some (px[nat i := c]) else None)"

text \<open>\<open>n\<close> pixels from index \<open>i\<close> on.\<close>

fun fill_px :: "int \<Rightarrow> nat \<Rightarrow> u32 \<Rightarrow> u32 list \<Rightarrow> u32 list option" where
  "fill_px i 0 c px = Some px"
| "fill_px i (Suc n) c px = do { px \<leftarrow> put_px i c px; fill_px (i + 1) n c px }"

definition gfx_fill :: "gfx_surface \<Rightarrow> u32 \<Rightarrow> gfx_surface option" where
  "gfx_fill s c = map_option (\<lambda>px. s\<lparr>sf_px := px\<rparr>) (fill_px 0 (nat (wrap32 (sf_w s * sf_h s))) c (sf_px s))"

text \<open>\<open>n\<close> rows of a rectangle from row \<open>y\<close> on.\<close>

fun fill_rows :: "int \<Rightarrow> int \<Rightarrow> int \<Rightarrow> nat \<Rightarrow> nat \<Rightarrow> u32 \<Rightarrow> u32 list \<Rightarrow> u32 list option" where
  "fill_rows sw x y w 0 c px = Some px"
| "fill_rows sw x y w (Suc n) c px = do { px \<leftarrow> fill_px (y * sw + x) w c px; fill_rows sw x (y + 1) w n c px }"

definition gfx_fill_rect :: "gfx_surface \<Rightarrow> int \<Rightarrow> int \<Rightarrow> int \<Rightarrow> int \<Rightarrow> u32 \<Rightarrow> gfx_surface option" where
  "gfx_fill_rect s x y w h c =
     (case clip_rect s x y w h of
        None \<Rightarrow> Some s
      | Some (x, y, w, h) \<Rightarrow> map_option (\<lambda>px. s\<lparr>sf_px := px\<rparr>) (fill_rows (sf_w s) x y (nat w) (nat h) c (sf_px s)))"

definition gfx_hline :: "gfx_surface \<Rightarrow> int \<Rightarrow> int \<Rightarrow> int \<Rightarrow> u32 \<Rightarrow> gfx_surface option" where
  "gfx_hline s x y w c = gfx_fill_rect s x y w 1 c"

definition gfx_vline :: "gfx_surface \<Rightarrow> int \<Rightarrow> int \<Rightarrow> int \<Rightarrow> u32 \<Rightarrow> gfx_surface option" where
  "gfx_vline s x y h c = gfx_fill_rect s x y 1 h c"

definition gfx_draw_rect :: "gfx_surface \<Rightarrow> int \<Rightarrow> int \<Rightarrow> int \<Rightarrow> int \<Rightarrow> u32 \<Rightarrow> gfx_surface option" where
  "gfx_draw_rect s x y w h c =
     do {
       s \<leftarrow> gfx_hline s x y w c;
       s \<leftarrow> gfx_hline s x (wrap32 (y + h - 1)) w c;
       s \<leftarrow> gfx_vline s x y h c;
       gfx_vline s (wrap32 (x + w - 1)) y h c
     }"

text \<open>\<open>memcpy\<close> of \<open>n\<close> pixels between surfaces.\<close>

definition get_px :: "int \<Rightarrow> nat \<Rightarrow> u32 list \<Rightarrow> u32 list option" where
  "get_px i n px = (if 0 \<le> i \<and> i + int n \<le> int (length px) then Some (take n (drop (nat i) px)) else None)"

definition copy_px :: "int \<Rightarrow> u32 list \<Rightarrow> u32 list \<Rightarrow> u32 list option" where
  "copy_px i src px =
     (if 0 \<le> i \<and> i + int (length src) \<le> int (length px)
      then Some (take (nat i) px @ src @ drop (nat i + length src) px) else None)"

fun blit_rows :: "gfx_surface \<Rightarrow> int \<Rightarrow> int \<Rightarrow> int \<Rightarrow> int \<Rightarrow> int \<Rightarrow> nat \<Rightarrow> nat \<Rightarrow> u32 list \<Rightarrow> u32 list option" where
  "blit_rows src dw dx dy sx sy w 0 px = Some px"
| "blit_rows src dw dx dy sx sy w (Suc n) px =
     do {
       row \<leftarrow> get_px (sy * sf_w src + sx) w (sf_px src);
       px \<leftarrow> copy_px (dy * dw + dx) row px;
       blit_rows src dw dx (dy + 1) sx (sy + 1) w n px
     }"

definition gfx_blit :: "gfx_surface \<Rightarrow> int \<Rightarrow> int \<Rightarrow> gfx_surface \<Rightarrow> gfx_surface option" where
  "gfx_blit dst dx dy src =
     (let w = sf_w src; h = sf_h src;
          (dx, sx, w) = (if dx < 0 then (0, wrap32 (- dx), wrap32 (w + dx)) else (dx, 0, w));
          (dy, sy, h) = (if dy < 0 then (0, wrap32 (- dy), wrap32 (h + dy)) else (dy, 0, h));
          w = (if wrap32 (dx + w) > sf_w dst then wrap32 (sf_w dst - dx) else w);
          h = (if wrap32 (dy + h) > sf_h dst then wrap32 (sf_h dst - dy) else h)
      in if w \<le> 0 \<or> h \<le> 0 then Some dst
         else map_option (\<lambda>px. dst\<lparr>sf_px := px\<rparr>) (blit_rows src (sf_w dst) dx dy sx sy (nat w) (nat h) (sf_px dst)))"

section \<open>Text and cursor\<close>

definition FONT_W :: int where "FONT_W = 8"
definition FONT_H :: int where "FONT_H = 16"
definition GFX_TRANSPARENT :: u32 where "GFX_TRANSPARENT = 0x01000000"

text \<open>A sprite: the colour of each cell, or \<open>None\<close> where the surface shows through; cells outside the surface are skipped.\<close>

fun sprite_row :: "int \<Rightarrow> int \<Rightarrow> int \<Rightarrow> u32 option list \<Rightarrow> u32 list \<Rightarrow> u32 list option" where
  "sprite_row sw py x [] px = Some px"
| "sprite_row sw py x (c # cs) px =
     do {
       px \<leftarrow> (if x < 0 \<or> x \<ge> sw then Some px
             else case c of None \<Rightarrow> Some px | Some c \<Rightarrow> put_px (py * sw + x) c px);
       sprite_row sw py (wrap32 (x + 1)) cs px
     }"

fun sprite_rows :: "gfx_surface \<Rightarrow> int \<Rightarrow> int \<Rightarrow> u32 option list list \<Rightarrow> u32 list \<Rightarrow> u32 list option" where
  "sprite_rows s x y [] px = Some px"
| "sprite_rows s x y (r # rs) px =
     do {
       px \<leftarrow> (if y < 0 \<or> y \<ge> sf_h s then Some px else sprite_row (sf_w s) y x r px);
       sprite_rows s x (wrap32 (y + 1)) rs px
     }"

definition glyph_cells :: "u8 \<Rightarrow> u32 \<Rightarrow> u32 \<Rightarrow> u32 option list" where
  "glyph_cells bits fg bg =
     map (\<lambda>i. if bits AND push_bit (7 - i) 1 \<noteq> 0 then Some fg else if bg \<noteq> GFX_TRANSPARENT then Some bg else None) [0..<8]"

definition gfx_draw_char :: "(u8 \<Rightarrow> u8 list) \<Rightarrow> gfx_surface \<Rightarrow> int \<Rightarrow> int \<Rightarrow> u8 \<Rightarrow> u32 \<Rightarrow> u32 \<Rightarrow> gfx_surface option" where
  "gfx_draw_char screen_glyph8x16 s x y ch fg bg =
     map_option (\<lambda>px. s\<lparr>sf_px := px\<rparr>)
       (sprite_rows s x y (map (\<lambda>j. glyph_cells (byte_at (screen_glyph8x16 ch) j) fg bg) [0..<nat FONT_H]) (sf_px s))"

fun gfx_draw_text :: "(u8 \<Rightarrow> u8 list) \<Rightarrow> gfx_surface \<Rightarrow> int \<Rightarrow> int \<Rightarrow> u8 list \<Rightarrow> u32 \<Rightarrow> u32 \<Rightarrow> gfx_surface option" where
  "gfx_draw_text screen_glyph8x16 s x y [] fg bg = Some s"
| "gfx_draw_text screen_glyph8x16 s x y (ch # text) fg bg =
     (if ch = 0 then Some s
      else do {
        s \<leftarrow> gfx_draw_char screen_glyph8x16 s x y ch fg bg;
        gfx_draw_text screen_glyph8x16 s (wrap32 (x + FONT_W)) y text fg bg
      })"

definition cursor_map :: "nat list list" where
  "cursor_map = [
    [1,0,0,0,0,0,0,0,0,0,0,0],
    [1,1,0,0,0,0,0,0,0,0,0,0],
    [1,2,1,0,0,0,0,0,0,0,0,0],
    [1,2,2,1,0,0,0,0,0,0,0,0],
    [1,2,2,2,1,0,0,0,0,0,0,0],
    [1,2,2,2,2,1,0,0,0,0,0,0],
    [1,2,2,2,2,2,1,0,0,0,0,0],
    [1,2,2,2,2,2,2,1,0,0,0,0],
    [1,2,2,2,2,2,2,2,1,0,0,0],
    [1,2,2,2,2,2,2,2,2,1,0,0],
    [1,2,2,2,2,2,2,2,2,2,1,0],
    [1,2,2,2,2,2,2,2,2,2,2,1],
    [1,2,2,2,2,2,2,1,1,1,1,1],
    [1,2,2,2,1,2,2,1,0,0,0,0],
    [1,2,2,1,0,1,2,2,1,0,0,0],
    [1,2,1,0,0,1,2,2,1,0,0,0],
    [1,1,0,0,0,0,1,2,2,1,0,0],
    [0,0,0,0,0,0,1,2,2,1,0,0],
    [0,0,0,0,0,0,0,1,1,0,0,0]]"

definition gfx_draw_cursor :: "gfx_surface \<Rightarrow> int \<Rightarrow> int \<Rightarrow> gfx_surface option" where
  "gfx_draw_cursor s x y =
     map_option (\<lambda>px. s\<lparr>sf_px := px\<rparr>)
       (sprite_rows s x y (map (map (\<lambda>c. if c = 1 then Some 0 else if c = 2 then Some 0x00FFFFFF else None)) cursor_map) (sf_px s))"

section \<open>Presenting\<close>

definition px_bytes :: "u32 list \<Rightarrow> u8 list" where
  "px_bytes px = concat (map (\<lambda>p. map (\<lambda>i. ucast (drop_bit (8 * i) p)) [0..<4]) px)"

fun present_rows :: "gfx \<Rightarrow> int \<Rightarrow> int \<Rightarrow> nat \<Rightarrow> nat \<Rightarrow> memory \<Rightarrow> memory option" where
  "present_rows g x y w 0 m = Some m"
| "present_rows g x y w (Suc n) m =
     do {
       row \<leftarrow> get_px (y * sf_w (backbuf g) + x) w (sf_px (backbuf g));
       present_rows g x (y + 1) w n (store_bytes m (fbp_base (fbp g) + nat y * fbp_pitch (fbp g) + nat x * 4) (px_bytes row))
     }"

definition gfx_present_rect :: "gfx \<Rightarrow> int \<Rightarrow> int \<Rightarrow> int \<Rightarrow> int \<Rightarrow> memory \<Rightarrow> memory option" where
  "gfx_present_rect g x y w h m =
     (if \<not> gfx_ready g then Some m
      else case clip_rect (backbuf g) x y w h of
        None \<Rightarrow> Some m
      | Some (x, y, w, h) \<Rightarrow> present_rows g x y (nat w) (nat h) m)"

definition gfx_present :: "gfx \<Rightarrow> memory \<Rightarrow> memory option" where
  "gfx_present g m = gfx_present_rect g 0 0 (sf_w (backbuf g)) (sf_h (backbuf g)) m"

end
