(* ===== verification/Gfx_Props.thy ===== *)
theory Gfx_Props
  imports Gfx
begin

text \<open>
  Drawing stays inside the surface and paints exactly the clipped shape: fills, blits, text and cursor, and the copy of the
  back buffer to the framebuffer. Coordinates are bounded by \<open>2 ^ 30\<close>, so that no sum wraps; \<open>clip_overflow\<close> shows what happens
  beyond.
\<close>

section \<open>Pixels\<close>

lemma wrap32_id [simp]: "- (2 ^ 31) \<le> i \<Longrightarrow> i < 2 ^ 31 \<Longrightarrow> wrap32 i = i"
  by (simp add: wrap32_def signed_of_int signed_take_bit_int_eq_self)

definition sized :: "int \<Rightarrow> int \<Rightarrow> u32 list \<Rightarrow> bool" where
  "sized w h px \<longleftrightarrow> 0 \<le> w \<and> 0 \<le> h \<and> int (length px) = h * w"

definition surface_ok :: "gfx_surface \<Rightarrow> bool" where
  "surface_ok s \<longleftrightarrow> sized (sf_w s) (sf_h s) (sf_px s) \<and> sf_w s < 2 ^ 30 \<and> sf_h s < 2 ^ 30"

definition at_px :: "int \<Rightarrow> u32 list \<Rightarrow> int \<Rightarrow> int \<Rightarrow> u32" where
  "at_px w px X Y = px ! nat (Y * w + X)"

definition pixel :: "gfx_surface \<Rightarrow> int \<Rightarrow> int \<Rightarrow> u32" where
  "pixel s X Y = at_px (sf_w s) (sf_px s) X Y"

definition on_surface :: "gfx_surface \<Rightarrow> int \<Rightarrow> int \<Rightarrow> bool" where
  "on_surface s X Y \<longleftrightarrow> 0 \<le> X \<and> X < sf_w s \<and> 0 \<le> Y \<and> Y < sf_h s"

definition in_rect :: "int \<Rightarrow> int \<Rightarrow> int \<Rightarrow> int \<Rightarrow> int \<Rightarrow> int \<Rightarrow> bool" where
  "in_rect x y w h X Y \<longleftrightarrow> x \<le> X \<and> X < x + w \<and> y \<le> Y \<and> Y < y + h"

lemma index_range: "0 \<le> X \<Longrightarrow> 0 \<le> n \<Longrightarrow> X + n \<le> (w :: int) \<Longrightarrow> 0 \<le> Y \<Longrightarrow> Y < h \<Longrightarrow> 0 \<le> Y * w + X \<and> Y * w + X + n \<le> h * w"
  using mult_right_mono [of "Y + 1" h w] by (cases "0 \<le> w") (auto simp: algebra_simps)

text \<open>An index lies in a stretch of row \<open>y\<close> exactly when its row is \<open>y\<close> and its column in the stretch.\<close>

lemma row_index:
  assumes "0 \<le> X" "X < w" "0 \<le> x" "x + n \<le> (w :: int)"
  shows "y * w + x \<le> Y * w + X \<and> Y * w + X < y * w + x + n \<longleftrightarrow> Y = y \<and> x \<le> X \<and> X < x + n"
proof -
  have "Y * w + X < y * w + x" if "Y < y" using mult_right_mono [of "Y + 1" y w] that assms by (auto simp: algebra_simps)
  moreover have "y * w + x + n \<le> Y * w + X" if "y < Y" using mult_right_mono [of "y + 1" Y w] that assms by (auto simp: algebra_simps)
  ultimately show ?thesis using assms by (cases Y y rule: linorder_cases) auto
qed

text \<open>A change of one row of the pixels: the columns \<open>x\<close> to \<open>x + n\<close> of row \<open>y\<close> become \<open>f\<close>, the rest stays.\<close>

definition paints :: "int \<Rightarrow> int \<Rightarrow> u32 list \<Rightarrow> u32 list \<Rightarrow> (int \<Rightarrow> int \<Rightarrow> u32 option) \<Rightarrow> bool" where
  "paints w h px px' f \<longleftrightarrow> sized w h px' \<and>
     (\<forall>X Y. 0 \<le> X \<longrightarrow> X < w \<longrightarrow> 0 \<le> Y \<longrightarrow> Y < h \<longrightarrow>
        at_px w px' X Y = (case f X Y of None \<Rightarrow> at_px w px X Y | Some c \<Rightarrow> c))"

definition over :: "('a \<Rightarrow> 'b \<Rightarrow> u32 option) \<Rightarrow> ('a \<Rightarrow> 'b \<Rightarrow> u32 option) \<Rightarrow> 'a \<Rightarrow> 'b \<Rightarrow> u32 option" where
  "over g f X Y = (case g X Y of None \<Rightarrow> f X Y | Some c \<Rightarrow> Some c)"

lemma paints_refl: "sized w h px \<Longrightarrow> paints w h px px (\<lambda>_ _. None)"
  by (simp add: paints_def)

lemma paints_trans: "paints w h px px1 f \<Longrightarrow> paints w h px1 px2 g \<Longrightarrow> paints w h px px2 (over g f)"
  by (auto simp: paints_def over_def split: option.splits)

lemma paints_cong:
  "paints w h px px' f \<Longrightarrow> (\<And>X Y. 0 \<le> X \<Longrightarrow> X < w \<Longrightarrow> 0 \<le> Y \<Longrightarrow> Y < h \<Longrightarrow> f X Y = g X Y) \<Longrightarrow> paints w h px px' g"
  by (auto simp: paints_def)

lemma paints_sized: "paints w h px px' f \<Longrightarrow> sized w h px'"
  by (simp add: paints_def)

text \<open>Lists that agree outside a stretch of a row.\<close>

lemma paints_row:
  assumes s: "sized w h px" and r: "0 \<le> x" "x + n \<le> w" "0 \<le> y" "y < h" and l: "length px' = length px"
    and nth: "\<And>k. k < length px \<Longrightarrow> px' ! k = (if y * w + x \<le> int k \<and> int k < y * w + x + n then g (int k - (y * w + x)) else px ! k)"
  shows "paints w h px px' (\<lambda>X Y. if Y = y \<and> x \<le> X \<and> X < x + n then Some (g (X - x)) else None)"
proof -
  have "at_px w px' X Y = (if Y = y \<and> x \<le> X \<and> X < x + n then g (X - x) else at_px w px X Y)"
    if XY: "0 \<le> X" "X < w" "0 \<le> Y" "Y < h" for X Y
  proof -
    have k: "0 \<le> Y * w + X" "nat (Y * w + X) < length px" using index_range [of X 1 w Y h] XY s by (auto simp: sized_def nat_less_iff)
    show ?thesis using nth [OF k(2)] k(1) row_index [OF XY(1,2) r(1,2), of y Y] by (auto simp: at_px_def)
  qed
  then show ?thesis using s l by (auto simp: paints_def sized_def)
qed

section \<open>Fills\<close>

lemma fill_px_spec:
  "0 \<le> i \<Longrightarrow> i + int n \<le> int (length px) \<Longrightarrow> \<exists>px'. fill_px i n c px = Some px' \<and> length px' = length px \<and>
     (\<forall>k < length px. px' ! k = (if i \<le> int k \<and> int k < i + int n then c else px ! k))"
proof (induction n arbitrary: i px)
  case (Suc n)
  have p: "put_px i c px = Some (px[nat i := c])" using Suc.prems by (simp add: put_px_def)
  obtain px' where "fill_px (i + 1) n c (px[nat i := c]) = Some px'" "length px' = length px"
    "\<forall>k < length px. px' ! k = (if i + 1 \<le> int k \<and> int k < i + 1 + int n then c else px[nat i := c] ! k)"
    using Suc.IH [of "i + 1" "px[nat i := c]"] Suc.prems by auto
  then show ?case using p Suc.prems by (auto simp: nth_list_update)
qed auto

lemma fill_rows_spec:
  "sized w h px \<Longrightarrow> 0 \<le> x \<Longrightarrow> x + int n \<le> w \<Longrightarrow> 0 \<le> y \<Longrightarrow> y + int k \<le> h \<Longrightarrow>
     \<exists>px'. fill_rows w x y n k c px = Some px' \<and> paints w h px px' (\<lambda>X Y. if in_rect x y (int n) (int k) X Y then Some c else None)"
proof (induction k arbitrary: y px)
  case 0
  then show ?case by (auto simp: in_rect_def intro: paints_cong [OF paints_refl])
next
  case (Suc k)
  obtain px1 where 1: "fill_px (y * w + x) n c px = Some px1" "length px1 = length px"
    "\<forall>k < length px. px1 ! k = (if y * w + x \<le> int k \<and> int k < y * w + x + int n then c else px ! k)"
    using fill_px_spec [of "y * w + x" n px c] index_range [of x "int n" w y h] Suc.prems by (auto simp: sized_def)
  have p1: "paints w h px px1 (\<lambda>X Y. if Y = y \<and> x \<le> X \<and> X < x + int n then Some c else None)"
    using paints_row [OF Suc.prems(1-4) _ 1(2), where g = "\<lambda>_. c"] Suc.prems(5) 1(3) by simp
  obtain px' where 2: "fill_rows w x (y + 1) n k c px1 = Some px'"
    "paints w h px1 px' (\<lambda>X Y. if in_rect x (y + 1) (int n) (int k) X Y then Some c else None)"
    using Suc.IH [OF paints_sized [OF p1] Suc.prems(2,3), of "y + 1"] Suc.prems by auto
  have "paints w h px px' (\<lambda>X Y. if in_rect x y (int n) (int (Suc k)) X Y then Some c else None)"
    by (rule paints_cong [OF paints_trans [OF p1 2(2)]]) (auto simp: over_def in_rect_def)
  then show ?case using 1(1) 2(1) by simp
qed

text \<open>Numbers that can be added without leaving 32 bits.\<close>

abbreviation moderate :: "int \<Rightarrow> bool" where
  "moderate i \<equiv> - (2 ^ 30) < i \<and> i < 2 ^ 30"

lemma clip_rect_spec:
  assumes "surface_ok s" "moderate x" "moderate y" "moderate w" "moderate h"
  shows "case clip_rect s x y w h of
      None \<Rightarrow> \<forall>X Y. \<not> (on_surface s X Y \<and> in_rect x y w h X Y)
    | Some (x', y', w', h') \<Rightarrow> 0 \<le> x' \<and> 0 < w' \<and> x' + w' \<le> sf_w s \<and> 0 \<le> y' \<and> 0 < h' \<and> y' + h' \<le> sf_h s \<and>
        (\<forall>X Y. on_surface s X Y \<longrightarrow> in_rect x' y' w' h' X Y = in_rect x y w h X Y)"
  using assms unfolding clip_rect_def surface_ok_def sized_def on_surface_def in_rect_def Let_def
  by (auto split: if_splits)

lemma gfx_fill_rect_paints:
  assumes ok: "surface_ok s" and b: "moderate x" "moderate y" "moderate w" "moderate h"
  shows "\<exists>px. gfx_fill_rect s x y w h c = Some (s\<lparr>sf_px := px\<rparr>) \<and>
    paints (sf_w s) (sf_h s) (sf_px s) px (\<lambda>X Y. if in_rect x y w h X Y then Some c else None)"
proof (cases "clip_rect s x y w h")
  case None
  then have "\<And>X Y. on_surface s X Y \<Longrightarrow> \<not> in_rect x y w h X Y" using clip_rect_spec [OF assms] by simp
  moreover have "paints (sf_w s) (sf_h s) (sf_px s) (sf_px s) (\<lambda>_ _. None)" using ok by (simp add: paints_refl surface_ok_def)
  ultimately have "paints (sf_w s) (sf_h s) (sf_px s) (sf_px s) (\<lambda>X Y. if in_rect x y w h X Y then Some c else None)"
    by (auto simp: on_surface_def intro: paints_cong)
  then show ?thesis using None by (intro exI [of _ "sf_px s"]) (simp add: gfx_fill_rect_def)
next
  case (Some r)
  obtain x' y' w' h' where r: "clip_rect s x y w h = Some (x', y', w', h')" using Some by (cases r) auto
  then have c': "0 \<le> x'" "0 < w'" "x' + w' \<le> sf_w s" "0 \<le> y'" "0 < h'" "y' + h' \<le> sf_h s"
    "\<And>X Y. on_surface s X Y \<Longrightarrow> in_rect x' y' w' h' X Y = in_rect x y w h X Y" using clip_rect_spec [OF assms] by auto
  obtain px where px: "fill_rows (sf_w s) x' y' (nat w') (nat h') c (sf_px s) = Some px"
    "paints (sf_w s) (sf_h s) (sf_px s) px (\<lambda>X Y. if in_rect x' y' w' h' X Y then Some c else None)"
    using fill_rows_spec [of "sf_w s" "sf_h s" "sf_px s" x' "nat w'" y' "nat h'" c] c' ok by (auto simp: surface_ok_def)
  have "paints (sf_w s) (sf_h s) (sf_px s) px (\<lambda>X Y. if in_rect x y w h X Y then Some c else None)"
    by (rule paints_cong [OF px(2)]) (use c'(7) in \<open>simp add: on_surface_def\<close>)
  then show ?thesis using r px(1) by (auto simp: gfx_fill_rect_def)
qed

lemma paints_pixel:
  "paints (sf_w s) (sf_h s) (sf_px s) px f \<Longrightarrow> on_surface s X Y \<Longrightarrow>
     pixel (s\<lparr>sf_px := px\<rparr>) X Y = (case f X Y of None \<Rightarrow> pixel s X Y | Some c \<Rightarrow> c)"
  by (simp add: paints_def on_surface_def pixel_def cong: option.case_cong)

lemma paints_ok: "surface_ok s \<Longrightarrow> paints (sf_w s) (sf_h s) (sf_px s) px f \<Longrightarrow> surface_ok (s\<lparr>sf_px := px\<rparr>)"
  by (simp add: surface_ok_def paints_def)

section \<open>Blits\<close>

lemma copy_px_spec:
  assumes "0 \<le> i" "i + int (length src) \<le> int (length px)"
  shows "\<exists>px'. copy_px i src px = Some px' \<and> length px' = length px \<and>
    (\<forall>k < length px. px' ! k = (if i \<le> int k \<and> int k < i + int (length src) then src ! nat (int k - i) else px ! k))"
  using assms by (auto simp: copy_px_def nth_append nat_diff_distrib min_def)

text \<open>Row \<open>k\<close> of the rectangle shows the source's row \<open>sy + k\<close> from column \<open>sx\<close> on.\<close>

lemma blit_rows_spec:
  "sized w h px \<Longrightarrow> sized (sf_w src) (sf_h src) (sf_px src) \<Longrightarrow> 0 \<le> x \<Longrightarrow> x + int n \<le> w \<Longrightarrow> 0 \<le> y \<Longrightarrow> y + int k \<le> h \<Longrightarrow>
     0 \<le> sx \<Longrightarrow> sx + int n \<le> sf_w src \<Longrightarrow> 0 \<le> sy \<Longrightarrow> sy + int k \<le> sf_h src \<Longrightarrow>
     \<exists>px'. blit_rows src w x y sx sy n k px = Some px' \<and>
       paints w h px px' (\<lambda>X Y. if in_rect x y (int n) (int k) X Y then Some (pixel src (sx + (X - x)) (sy + (Y - y))) else None)"
proof (induction k arbitrary: y sy px)
  case 0
  then show ?case by (auto simp: in_rect_def intro: paints_cong [OF paints_refl])
next
  case (Suc k)
  let ?i = "sy * sf_w src + sx"
  let ?row = "take n (drop (nat ?i) (sf_px src))"
  have i: "0 \<le> ?i" "?i + int n \<le> int (length (sf_px src))" using index_range [of sx "int n" "sf_w src" sy "sf_h src"] Suc.prems by (auto simp: sized_def)
  have row: "get_px ?i n (sf_px src) = Some ?row" "length ?row = n" using i by (auto simp: get_px_def)
  obtain px1 where 1: "copy_px (y * w + x) ?row px = Some px1" "length px1 = length px"
    "\<forall>k < length px. px1 ! k = (if y * w + x \<le> int k \<and> int k < y * w + x + int n then ?row ! nat (int k - (y * w + x)) else px ! k)"
    using copy_px_spec [of "y * w + x" ?row px] index_range [of x "int n" w y h] Suc.prems row(2) by (auto simp: sized_def)
  have "paints w h px px1 (\<lambda>X Y. if Y = y \<and> x \<le> X \<and> X < x + int n then Some (?row ! nat (X - x)) else None)"
    using paints_row [OF Suc.prems(1,3,4,5) _ 1(2), where g = "\<lambda>d. ?row ! nat d"] Suc.prems(6) 1(3) by simp
  then have p1: "paints w h px px1 (\<lambda>X Y. if Y = y \<and> x \<le> X \<and> X < x + int n then Some (pixel src (sx + (X - x)) sy) else None)"
    by (rule paints_cong) (use i in \<open>auto simp: pixel_def at_px_def nat_add_distrib [symmetric] algebra_simps nat_less_iff\<close>)
  obtain px' where 2: "blit_rows src w x (y + 1) sx (sy + 1) n k px1 = Some px'"
    "paints w h px1 px' (\<lambda>X Y. if in_rect x (y + 1) (int n) (int k) X Y then Some (pixel src (sx + (X - x)) (sy + 1 + (Y - (y + 1)))) else None)"
    using Suc.IH [OF paints_sized [OF p1] Suc.prems(2,3,4), of "y + 1" "sy + 1"] Suc.prems by auto
  have "paints w h px px' (\<lambda>X Y. if in_rect x y (int n) (int (Suc k)) X Y then Some (pixel src (sx + (X - x)) (sy + (Y - y))) else None)"
    by (rule paints_cong [OF paints_trans [OF p1 2(2)]]) (auto simp: over_def in_rect_def algebra_simps)
  then show ?case using row(1) 1(1) 2(1) by simp
qed

lemma gfx_blit_paints:
  assumes ok: "surface_ok dst" "surface_ok src" and b: "moderate dx" "moderate dy"
  shows "\<exists>px. gfx_blit dst dx dy src = Some (dst\<lparr>sf_px := px\<rparr>) \<and> paints (sf_w dst) (sf_h dst) (sf_px dst) px
    (\<lambda>X Y. if in_rect dx dy (sf_w src) (sf_h src) X Y then Some (pixel src (X - dx) (Y - dy)) else None)"
proof -
  define x where "x = (if dx < 0 then 0 else dx)"
  define y where "y = (if dy < 0 then 0 else dy)"
  define sx where "sx = (if dx < 0 then - dx else 0)"
  define sy where "sy = (if dy < 0 then - dy else 0)"
  define w where "w = (if x + (sf_w src - sx) > sf_w dst then sf_w dst - x else sf_w src - sx)"
  define h where "h = (if y + (sf_h src - sy) > sf_h dst then sf_h dst - y else sf_h src - sy)"
  note d = x_def y_def sx_def sy_def w_def h_def
  have s: "sized (sf_w dst) (sf_h dst) (sf_px dst)" "sized (sf_w src) (sf_h src) (sf_px src)"
    "0 \<le> sf_w dst" "sf_w dst < 2 ^ 30" "0 \<le> sf_h dst" "sf_h dst < 2 ^ 30" "0 \<le> sf_w src" "sf_w src < 2 ^ 30" "0 \<le> sf_h src" "sf_h src < 2 ^ 30"
    using ok by (auto simp: surface_ok_def sized_def)
  have wx: "wrap32 (- dx) = - dx" "wrap32 (sf_w src + dx) = sf_w src + dx" "wrap32 (- dy) = - dy" "wrap32 (sf_h src + dy) = sf_h src + dy"
    "wrap32 (x + (sf_w src - sx)) = x + (sf_w src - sx)" "wrap32 (sf_w dst - x) = sf_w dst - x"
    "wrap32 (y + (sf_h src - sy)) = y + (sf_h src - sy)" "wrap32 (sf_h dst - y) = sf_h dst - y" using b s by (auto simp: d)
  have bx: "(if dx < 0 then (0, wrap32 (- dx), wrap32 (sf_w src + dx)) else (dx, 0, sf_w src)) = (x, sx, sf_w src - sx)"
    "(if dy < 0 then (0, wrap32 (- dy), wrap32 (sf_h src + dy)) else (dy, 0, sf_h src)) = (y, sy, sf_h src - sy)" using wx by (auto simp: d)
  have eq: "gfx_blit dst dx dy src = (if w \<le> 0 \<or> h \<le> 0 then Some dst
      else map_option (\<lambda>px. dst\<lparr>sf_px := px\<rparr>) (blit_rows src (sf_w dst) x y sx sy (nat w) (nat h) (sf_px dst)))"
    unfolding gfx_blit_def Let_def bx prod.case wx(5-8) w_def [symmetric] h_def [symmetric] ..
  have r: "in_rect dx dy (sf_w src) (sf_h src) X Y = in_rect x y w h X Y"
    if "0 \<le> X" "X < sf_w dst" "0 \<le> Y" "Y < sf_h dst" for X Y using that s unfolding in_rect_def d by auto
  show ?thesis
  proof (cases "w \<le> 0 \<or> h \<le> 0")
    case True
    then have "paints (sf_w dst) (sf_h dst) (sf_px dst) (sf_px dst)
        (\<lambda>X Y. if in_rect dx dy (sf_w src) (sf_h src) X Y then Some (pixel src (X - dx) (Y - dy)) else None)"
      by (intro paints_cong [OF paints_refl [OF s(1)]]) (simp add: r, auto simp: in_rect_def)
    then show ?thesis using True eq by (intro exI [of _ "sf_px dst"]) simp
  next
    case False
    have g: "0 \<le> x" "x + int (nat w) \<le> sf_w dst" "0 \<le> y" "y + int (nat h) \<le> sf_h dst" "0 \<le> sx" "sx + int (nat w) \<le> sf_w src"
      "0 \<le> sy" "sy + int (nat h) \<le> sf_h src" using False unfolding d by (auto split: if_splits)
    obtain px where px: "blit_rows src (sf_w dst) x y sx sy (nat w) (nat h) (sf_px dst) = Some px"
      "paints (sf_w dst) (sf_h dst) (sf_px dst) px
        (\<lambda>X Y. if in_rect x y (int (nat w)) (int (nat h)) X Y then Some (pixel src (sx + (X - x)) (sy + (Y - y))) else None)"
      using blit_rows_spec [OF s(1,2) g] by blast
    have "sx - x = - dx" "sy - y = - dy" by (simp_all add: d)
    then have sh: "sx + (X - x) = X - dx" "sy + (Y - y) = Y - dy" for X Y by simp_all
    have "paints (sf_w dst) (sf_h dst) (sf_px dst) px
        (\<lambda>X Y. if in_rect dx dy (sf_w src) (sf_h src) X Y then Some (pixel src (X - dx) (Y - dy)) else None)"
      by (rule paints_cong [OF px(2)]) (use False in \<open>simp add: r sh\<close>)
    then show ?thesis using eq False px(1) by auto
  qed
qed

section \<open>Sprites and text\<close>

definition cell :: "u32 option list \<Rightarrow> int \<Rightarrow> u32 option" where
  "cell r d = (if 0 \<le> d \<and> d < int (length r) then r ! nat d else None)"

lemma cell_Cons: "cell (c # r) d = (if d = 0 then c else cell r (d - 1))"
  by (auto simp: cell_def nth_Cons' nat_diff_distrib)

lemma cell_neg: "d < 0 \<Longrightarrow> cell r d = None"
  by (simp add: cell_def)

lemma put_px_paints:
  assumes "sized w h px" "0 \<le> x" "x < w" "0 \<le> y" "y < h"
  shows "\<exists>px'. put_px (y * w + x) c px = Some px' \<and> paints w h px px' (\<lambda>X Y. if Y = y \<and> X = x then Some c else None)"
proof -
  have i: "0 \<le> y * w + x" "y * w + x + 1 \<le> int (length px)" using index_range [of x 1 w y h] assms by (auto simp: sized_def)
  have "paints w h px (px[nat (y * w + x) := c]) (\<lambda>X Y. if Y = y \<and> x \<le> X \<and> X < x + 1 then Some c else None)"
    by (rule paints_row [where n = 1]) (use assms i in \<open>auto simp: nth_list_update\<close>)
  then have "paints w h px (px[nat (y * w + x) := c]) (\<lambda>X Y. if Y = y \<and> X = x then Some c else None)" by (rule paints_cong) auto
  then show ?thesis using i by (simp add: put_px_def)
qed

lemma sprite_row_paints:
  "sized w h px \<Longrightarrow> 0 \<le> y \<Longrightarrow> y < h \<Longrightarrow> - (2 ^ 31) \<le> x \<Longrightarrow> x + int (length r) < 2 ^ 31 \<Longrightarrow>
     \<exists>px'. sprite_row w y x r px = Some px' \<and> paints w h px px' (\<lambda>X Y. if Y = y then cell r (X - x) else None)"
proof (induction r arbitrary: x px)
  case Nil
  then show ?case by (auto simp: cell_def intro!: paints_cong [OF paints_refl])
next
  case (Cons c r)
  let ?f = "\<lambda>X Y. if Y = y \<and> X = x then c else None"
  obtain px1 where 1: "(if x < 0 \<or> x \<ge> w then Some px else case c of None \<Rightarrow> Some px | Some c \<Rightarrow> put_px (y * w + x) c px) = Some px1" "paints w h px px1 ?f"
  proof (cases "x < 0 \<or> x \<ge> w \<or> c = None")
    case True
    then show ?thesis using Cons.prems(1) by (intro that [of px]) (auto intro!: paints_cong [OF paints_refl])
  next
    case False
    then obtain c' where c': "c = Some c'" by auto
    then show ?thesis using put_px_paints [OF Cons.prems(1) _ _ Cons.prems(2,3), of x c'] False that by auto
  qed
  obtain px' where 2: "sprite_row w y (x + 1) r px1 = Some px'" "paints w h px1 px' (\<lambda>X Y. if Y = y then cell r (X - (x + 1)) else None)"
    using Cons.IH [OF paints_sized [OF 1(2)] Cons.prems(2,3), of "x + 1"] Cons.prems by auto
  have "paints w h px px' (\<lambda>X Y. if Y = y then cell (c # r) (X - x) else None)"
    by (rule paints_cong [OF paints_trans [OF 1(2) 2(2)]]) (auto simp: over_def cell_Cons cell_neg diff_diff_eq [symmetric] split: option.splits)
  then show ?case using 1(1) 2(1) Cons.prems by simp
qed

definition cell2 :: "u32 option list list \<Rightarrow> int \<Rightarrow> int \<Rightarrow> u32 option" where
  "cell2 rs d e = (if 0 \<le> e \<and> e < int (length rs) then cell (rs ! nat e) d else None)"

lemma cell2_Cons: "cell2 (r # rs) d e = (if e = 0 then cell r d else cell2 rs d (e - 1))"
  by (auto simp: cell2_def nth_Cons' nat_diff_distrib)

lemma cell2_neg: "e < 0 \<Longrightarrow> cell2 rs d e = None"
  by (simp add: cell2_def)

lemma sprite_rows_paints:
  "sized (sf_w s) (sf_h s) px \<Longrightarrow> - (2 ^ 31) \<le> y \<Longrightarrow> y + int (length rs) < 2 ^ 31 \<Longrightarrow> - (2 ^ 31) \<le> x \<Longrightarrow>
     \<forall>r \<in> set rs. x + int (length r) < 2 ^ 31 \<Longrightarrow>
     \<exists>px'. sprite_rows s x y rs px = Some px' \<and> paints (sf_w s) (sf_h s) px px' (\<lambda>X Y. cell2 rs (X - x) (Y - y))"
proof (induction rs arbitrary: y px)
  case Nil
  then show ?case by (auto simp: cell2_def intro!: paints_cong [OF paints_refl])
next
  case (Cons r rs)
  let ?f = "\<lambda>X Y. if Y = y then cell r (X - x) else None"
  obtain px1 where 1: "(if y < 0 \<or> y \<ge> sf_h s then Some px else sprite_row (sf_w s) y x r px) = Some px1" "paints (sf_w s) (sf_h s) px px1 ?f"
  proof (cases "y < 0 \<or> y \<ge> sf_h s")
    case True
    then show ?thesis using Cons.prems(1) by (intro that [of px]) (auto intro!: paints_cong [OF paints_refl])
  next
    case False
    then show ?thesis using sprite_row_paints [of "sf_w s" "sf_h s" px y x r] Cons.prems that by auto
  qed
  obtain px' where 2: "sprite_rows s x (y + 1) rs px1 = Some px'" "paints (sf_w s) (sf_h s) px1 px' (\<lambda>X Y. cell2 rs (X - x) (Y - (y + 1)))"
    using Cons.IH [OF paints_sized [OF 1(2)], of "y + 1"] Cons.prems by auto
  have "paints (sf_w s) (sf_h s) px px' (\<lambda>X Y. cell2 (r # rs) (X - x) (Y - y))"
    by (rule paints_cong [OF paints_trans [OF 1(2) 2(2)]]) (auto simp: over_def cell2_Cons cell2_neg diff_diff_eq [symmetric] split: option.splits)
  then show ?case using 1(1) 2(1) Cons.prems by simp
qed

text \<open>What the character cell at \<open>(d, e)\<close> of a text shows.\<close>

definition glyph_rows :: "(u8 \<Rightarrow> u8 list) \<Rightarrow> u8 \<Rightarrow> u32 \<Rightarrow> u32 \<Rightarrow> u32 option list list" where
  "glyph_rows font ch fg bg = map (\<lambda>j. glyph_cells (byte_at (font ch) j) fg bg) [0..<16]"

lemma glyph_rows_length [simp]: "length (glyph_rows font ch fg bg) = 16" "r \<in> set (glyph_rows font ch fg bg) \<Longrightarrow> length r = 8"
  by (auto simp: glyph_rows_def glyph_cells_def)

definition text_cell :: "(u8 \<Rightarrow> u8 list) \<Rightarrow> u8 list \<Rightarrow> u32 \<Rightarrow> u32 \<Rightarrow> int \<Rightarrow> int \<Rightarrow> u32 option" where
  "text_cell font text fg bg d e =
     (if 0 \<le> d \<and> d < 8 * int (length text) then cell2 (glyph_rows font (text ! nat (d div 8)) fg bg) (d mod 8) e else None)"

lemma cell2_width: "8 \<le> d \<Longrightarrow> cell2 (glyph_rows font ch fg bg) d e = None"
  by (auto simp: cell2_def cell_def glyph_rows_def glyph_cells_def nat_less_iff)

lemma text_cell_Cons:
  "text_cell font (ch # text) fg bg d e = (if d < 8 then cell2 (glyph_rows font ch fg bg) d e else text_cell font text fg bg (d - 8) e)"
proof -
  consider "d < 0" | "0 \<le> d" "d < 8" | "8 \<le> d" by linarith
  then show ?thesis
  proof cases
    case 1
    then show ?thesis by (auto simp: text_cell_def cell2_def cell_def)
  next
    case 2
    then show ?thesis by (auto simp: text_cell_def)
  next
    case 3
    then have "(d - 8) div 8 = d div 8 - 1" "(d - 8) mod 8 = d mod 8" "d div 8 \<ge> 1" by presburger+
    then show ?thesis using 3 by (auto simp: text_cell_def nth_Cons' nat_diff_distrib)
  qed
qed

lemma text_cell_neg: "d < 0 \<Longrightarrow> text_cell font str fg bg d e = None"
  by (simp add: text_cell_def)

lemma gfx_draw_char_paints:
  assumes ok: "surface_ok s" and b: "- (2 ^ 31) \<le> x" "x + 8 < 2 ^ 31" "- (2 ^ 31) \<le> y" "y + 16 < 2 ^ 31"
  shows "\<exists>px. gfx_draw_char font s x y ch fg bg = Some (s\<lparr>sf_px := px\<rparr>) \<and>
    paints (sf_w s) (sf_h s) (sf_px s) px (\<lambda>X Y. cell2 (glyph_rows font ch fg bg) (X - x) (Y - y))"
proof -
  have "\<exists>px'. sprite_rows s x y (glyph_rows font ch fg bg) (sf_px s) = Some px' \<and>
      paints (sf_w s) (sf_h s) (sf_px s) px' (\<lambda>X Y. cell2 (glyph_rows font ch fg bg) (X - x) (Y - y))"
    using ok b by (intro sprite_rows_paints) (auto simp: surface_ok_def)
  then show ?thesis by (auto simp: gfx_draw_char_def FONT_H_def glyph_rows_def)
qed

lemma gfx_draw_text_paints:
  "surface_ok s \<Longrightarrow> - (2 ^ 31) \<le> x \<Longrightarrow> x + 8 * int (length text) < 2 ^ 31 \<Longrightarrow> - (2 ^ 31) \<le> y \<Longrightarrow> y + 16 < 2 ^ 31 \<Longrightarrow> 0 \<notin> set text \<Longrightarrow>
     \<exists>px. gfx_draw_text font s x y text fg bg = Some (s\<lparr>sf_px := px\<rparr>) \<and>
       paints (sf_w s) (sf_h s) (sf_px s) px (\<lambda>X Y. text_cell font text fg bg (X - x) (Y - y))"
proof (induction "text" arbitrary: s x)
  case Nil
  then show ?case by (intro exI [of _ "sf_px s"]) (auto simp: text_cell_def surface_ok_def intro!: paints_cong [OF paints_refl])
next
  case (Cons ch str)
  obtain px1 where 1: "gfx_draw_char font s x y ch fg bg = Some (s\<lparr>sf_px := px1\<rparr>)"
    "paints (sf_w s) (sf_h s) (sf_px s) px1 (\<lambda>X Y. cell2 (glyph_rows font ch fg bg) (X - x) (Y - y))"
    using gfx_draw_char_paints [of s x y font ch fg bg] Cons.prems by auto
  obtain px where 2: "gfx_draw_text font (s\<lparr>sf_px := px1\<rparr>) (x + 8) y str fg bg = Some (s\<lparr>sf_px := px\<rparr>)"
    "paints (sf_w s) (sf_h s) px1 px (\<lambda>X Y. text_cell font str fg bg (X - (x + 8)) (Y - y))"
    using Cons.IH [of "s\<lparr>sf_px := px1\<rparr>" "x + 8"] Cons.prems paints_ok [OF Cons.prems(1) 1(2)] by auto
  have "paints (sf_w s) (sf_h s) (sf_px s) px (\<lambda>X Y. text_cell font (ch # str) fg bg (X - x) (Y - y))"
  proof (rule paints_cong [OF paints_trans [OF 1(2) 2(2)]])
    fix X Y
    show "over (\<lambda>X Y. text_cell font str fg bg (X - (x + 8)) (Y - y)) (\<lambda>X Y. cell2 (glyph_rows font ch fg bg) (X - x) (Y - y)) X Y =
        text_cell font (ch # str) fg bg (X - x) (Y - y)"
      by (cases "X - x < 8") (auto simp: over_def text_cell_Cons text_cell_neg cell2_width diff_diff_eq [symmetric] split: option.splits)
  qed
  then show ?case using 1(1) 2(1) Cons.prems by (auto simp: FONT_W_def)
qed

section \<open>Presenting\<close>

definition fb_addr :: "gfx \<Rightarrow> int \<Rightarrow> int \<Rightarrow> nat \<Rightarrow> nat" where
  "fb_addr g X Y b = fbp_base (fbp g) + nat Y * fbp_pitch (fbp g) + nat X * 4 + b"

definition px_byte :: "u32 \<Rightarrow> nat \<Rightarrow> u8" where
  "px_byte p b = ucast (drop_bit (8 * b) p)"

lemma px_bytes_length [simp]: "length (px_bytes l) = 4 * length l"
  by (induction l) (simp_all add: px_bytes_def)

lemma px_bytes_nth: "i < length l \<Longrightarrow> b < 4 \<Longrightarrow> px_bytes l ! (4 * i + b) = px_byte (l ! i) b"
proof (induction l arbitrary: i)
  case (Cons p l)
  have c: "px_bytes (p # l) = map (px_byte p) [0..<4] @ px_bytes l" by (simp add: px_bytes_def px_byte_def [abs_def])
  show ?case
  proof (cases i)
    case 0
    then show ?thesis using Cons.prems unfolding c by (subst nth_append) simp
  next
    case (Suc j)
    then show ?thesis using Cons unfolding c by (subst nth_append) simp
  qed
qed simp

text \<open>The framebuffer has at least four bytes for each column of the back buffer.\<close>

definition fb_ok :: "gfx \<Rightarrow> bool" where
  "fb_ok g \<longleftrightarrow> surface_ok (backbuf g) \<and> 4 * nat (sf_w (backbuf g)) \<le> fbp_pitch (fbp g)"

lemma fb_addr_below:
  assumes "fb_ok g" "0 \<le> X" "X < sf_w (backbuf g)" "0 \<le> Y" "Y < Y'" "b < 4"
  shows "fb_addr g X Y b < fb_addr g X' Y' b'"
proof -
  have "(nat Y + 1) * fbp_pitch (fbp g) \<le> nat Y' * fbp_pitch (fbp g)" using assms by (intro mult_le_mono1) auto
  moreover have "nat X * 4 + b < fbp_pitch (fbp g)" using assms by (auto simp: fb_ok_def)
  ultimately show ?thesis by (simp add: fb_addr_def)
qed

lemma present_rows_spec:
  "fb_ok g \<Longrightarrow> 0 \<le> x \<Longrightarrow> x + int n \<le> sf_w (backbuf g) \<Longrightarrow> 0 \<le> y \<Longrightarrow> y + int k \<le> sf_h (backbuf g) \<Longrightarrow>
     \<exists>m'. present_rows g x y n k m = Some m' \<and>
       (\<forall>X Y b. in_rect x y (int n) (int k) X Y \<longrightarrow> b < 4 \<longrightarrow> m' (fb_addr g X Y b) = px_byte (pixel (backbuf g) X Y) b) \<and>
       (\<forall>a. (\<forall>X Y b. in_rect x y (int n) (int k) X Y \<and> b < 4 \<longrightarrow> a \<noteq> fb_addr g X Y b) \<longrightarrow> m' a = m a)"
proof (induction k arbitrary: y m)
  case 0
  then show ?case by (auto simp: in_rect_def)
next
  case (Suc k)
  let ?s = "backbuf g"
  let ?i = "y * sf_w ?s + x"
  let ?row = "take n (drop (nat ?i) (sf_px ?s))"
  let ?m1 = "store_bytes m (fb_addr g x y 0) (px_bytes ?row)"
  have i: "0 \<le> ?i" "?i + int n \<le> int (length (sf_px ?s))"
    using index_range [of x "int n" "sf_w ?s" y "sf_h ?s"] Suc.prems by (auto simp: fb_ok_def surface_ok_def sized_def)
  have row: "get_px ?i n (sf_px ?s) = Some ?row" "length ?row = n" using i by (auto simp: get_px_def)
  obtain m' where m': "present_rows g x (y + 1) n k ?m1 = Some m'"
    "\<And>X Y b. in_rect x (y + 1) (int n) (int k) X Y \<Longrightarrow> b < 4 \<Longrightarrow> m' (fb_addr g X Y b) = px_byte (pixel ?s X Y) b"
    "\<And>a. \<forall>X Y b. in_rect x (y + 1) (int n) (int k) X Y \<and> b < 4 \<longrightarrow> a \<noteq> fb_addr g X Y b \<Longrightarrow> m' a = ?m1 a"
    using Suc.IH [OF Suc.prems(1-3), of "y + 1" ?m1] Suc.prems by auto
  have here: "m' (fb_addr g X y b) = px_byte (pixel ?s X y) b" if X: "x \<le> X" "X < x + int n" "b < 4" for X b
  proof -
    have "fb_addr g X y b \<noteq> fb_addr g X' Y' b'" if "in_rect x (y + 1) (int n) (int k) X' Y'" for X' Y' b'
      using fb_addr_below [OF Suc.prems(1), of X y Y' b X' b'] X Suc.prems that by (auto simp: in_rect_def)
    then have "m' (fb_addr g X y b) = ?m1 (fb_addr g X y b)" by (intro m'(3)) blast
    moreover have "fb_addr g X y b = fb_addr g x y 0 + (4 * nat (X - x) + b)"
      using X Suc.prems(2) by (simp add: fb_addr_def nat_diff_distrib diff_mult_distrib2)
    moreover have "?m1 (fb_addr g x y 0 + (4 * nat (X - x) + b)) = px_bytes ?row ! (4 * nat (X - x) + b)" using X row(2) by (auto simp: store_bytes_def)
    ultimately have "m' (fb_addr g X y b) = px_bytes ?row ! (4 * nat (X - x) + b)" by simp
    also have "\<dots> = px_byte (?row ! nat (X - x)) b" using X row(2) by (intro px_bytes_nth) auto
    also have "?row ! nat (X - x) = pixel ?s X y"
      using X i by (auto simp: pixel_def at_px_def nat_add_distrib [symmetric] algebra_simps nat_less_iff)
    finally show ?thesis .
  qed
  have out: "m' a = m a" if a: "\<forall>X Y b. in_rect x y (int n) (int (Suc k)) X Y \<and> b < 4 \<longrightarrow> a \<noteq> fb_addr g X Y b" for a
  proof -
    have "m' a = ?m1 a" using a by (intro m'(3)) (auto simp: in_rect_def)
    moreover have "\<not> (fb_addr g x y 0 \<le> a \<and> a < fb_addr g x y 0 + 4 * n)"
    proof
      assume r: "fb_addr g x y 0 \<le> a \<and> a < fb_addr g x y 0 + 4 * n"
      let ?d = "a - fb_addr g x y 0"
      have "a = fb_addr g (x + int (?d div 4)) y (?d mod 4)" using r Suc.prems(2) by (auto simp: fb_addr_def nat_add_distrib)
      moreover have "?d div 4 < n" using r by auto
      ultimately show False using a by (auto simp: in_rect_def)
    qed
    ultimately show ?thesis using row(2) by (auto simp: store_bytes_def)
  qed
  have "m' (fb_addr g X Y b) = px_byte (pixel ?s X Y) b" if "in_rect x y (int n) (int (Suc k)) X Y" "b < 4" for X Y b
    using that here [of X b] m'(2) [of X Y b] by (cases "Y = y") (auto simp: in_rect_def)
  then show ?case using row(1) m'(1) out by (auto simp: fb_addr_def)
qed

lemma gfx_present_rect_ok:
  assumes ok: "fb_ok g" and b: "moderate x" "moderate y" "moderate w" "moderate h"
  shows "\<exists>m'. gfx_present_rect g x y w h m = Some m'"
proof (cases "clip_rect (backbuf g) x y w h")
  case (Some r)
  obtain x' y' w' h' where r: "clip_rect (backbuf g) x y w h = Some (x', y', w', h')" using Some by (cases r) auto
  then have c: "0 \<le> x'" "x' + int (nat w') \<le> sf_w (backbuf g)" "0 \<le> y'" "y' + int (nat h') \<le> sf_h (backbuf g)"
    using clip_rect_spec [OF _ b, of "backbuf g"] ok by (auto simp: fb_ok_def)
  show ?thesis using present_rows_spec [OF ok c, of m] r by (auto simp: gfx_present_rect_def)
qed (simp add: gfx_present_rect_def)

section \<open>The drawing operations\<close>

text \<open>C27: \<open>gfx_fill_rect\<close> with a position and a size below \<open>2 ^ 30\<close> in magnitude, which may lie partly or wholly off the surface or be
  empty, accesses no pixel outside the surface and changes exactly the pixels of the surface that lie in the rectangle to
  the colour; all others keep theirs. (With larger values the sum of position and size can overflow and the clipping
  fails, see \<open>clip_overflow\<close>.)\<close>

theorem gfx_fill_rect_exact:
  assumes "surface_ok s" "moderate x" "moderate y" "moderate w" "moderate h"
  shows "\<exists>s'. gfx_fill_rect s x y w h c = Some s' \<and> surface_ok s' \<and> sf_w s' = sf_w s \<and> sf_h s' = sf_h s \<and>
    (\<forall>X Y. on_surface s X Y \<longrightarrow> pixel s' X Y = (if in_rect x y w h X Y then c else pixel s X Y))"
  using gfx_fill_rect_paints [OF assms, of c] paints_ok [OF assms(1)] paints_pixel by fastforce

text \<open>\<open>gfx_blit\<close> reads inside the source and writes inside the destination for every position below \<open>2 ^ 30\<close> in magnitude, also partly or
  wholly off the screen; a destination pixel covered by the moved source shows the source's pixel, all others stay.\<close>

theorem gfx_blit_exact:
  assumes "surface_ok dst" "surface_ok src" "moderate dx" "moderate dy"
  shows "\<exists>d. gfx_blit dst dx dy src = Some d \<and> surface_ok d \<and> sf_w d = sf_w dst \<and> sf_h d = sf_h dst \<and>
    (\<forall>X Y. on_surface dst X Y \<longrightarrow> pixel d X Y = (if on_surface src (X - dx) (Y - dy) then pixel src (X - dx) (Y - dy) else pixel dst X Y))"
proof -
  obtain px where px: "gfx_blit dst dx dy src = Some (dst\<lparr>sf_px := px\<rparr>)" "paints (sf_w dst) (sf_h dst) (sf_px dst) px
    (\<lambda>X Y. if in_rect dx dy (sf_w src) (sf_h src) X Y then Some (pixel src (X - dx) (Y - dy)) else None)"
    using gfx_blit_paints [OF assms] by blast
  have "in_rect dx dy (sf_w src) (sf_h src) X Y = on_surface src (X - dx) (Y - dy)" for X Y by (auto simp: in_rect_def on_surface_def)
  then show ?thesis using px paints_ok [OF assms(1) px(2)] paints_pixel [OF px(2)] by auto
qed

text \<open>\<open>gfx_present\<close> makes the framebuffer show the back buffer: the four bytes at the place of every pixel become the
  pixel's bytes, and no other byte of memory changes, so the padding between the scanlines stays untouched.\<close>

theorem gfx_present_exact:
  assumes "fb_ok g" "gfx_ready g"
  shows "\<exists>m'. gfx_present g m = Some m' \<and>
    (\<forall>X Y b. on_surface (backbuf g) X Y \<longrightarrow> b < 4 \<longrightarrow> m' (fb_addr g X Y b) = px_byte (pixel (backbuf g) X Y) b) \<and>
    (\<forall>a. (\<forall>X Y b. on_surface (backbuf g) X Y \<and> b < 4 \<longrightarrow> a \<noteq> fb_addr g X Y b) \<longrightarrow> m' a = m a)"
proof -
  let ?s = "backbuf g"
  have s: "0 \<le> sf_w ?s" "0 \<le> sf_h ?s" "sf_w ?s < 2 ^ 30" "sf_h ?s < 2 ^ 30" using assms(1) by (auto simp: fb_ok_def surface_ok_def sized_def)
  have r: "in_rect 0 0 (int (nat (sf_w ?s))) (int (nat (sf_h ?s))) = on_surface ?s"
    using s by (auto simp: fun_eq_iff in_rect_def on_surface_def)
  show ?thesis
  proof (cases "sf_w ?s = 0 \<or> sf_h ?s = 0")
    case True
    then have "gfx_present g m = Some m" by (auto simp: gfx_present_def gfx_present_rect_def clip_rect_def)
    then show ?thesis using True by (auto simp: on_surface_def)
  next
    case False
    then have "gfx_present g m = present_rows g 0 0 (nat (sf_w ?s)) (nat (sf_h ?s)) m"
      using s assms(2) by (auto simp: gfx_present_def gfx_present_rect_def clip_rect_def)
    then show ?thesis using present_rows_spec [OF assms(1), of 0 "nat (sf_w ?s)" 0 "nat (sf_h ?s)" m, unfolded r] s by simp
  qed
qed

text \<open>Beyond the bound: a width that makes \<open>x + w\<close> wrap is not clipped, and the fill leaves the surface.\<close>

lemma fill_px_out: "int (length px) < i + int n \<Longrightarrow> i \<le> int (length px) \<Longrightarrow> fill_px i n c px = None"
  by (induction n arbitrary: i px) (auto simp: put_px_def)

definition surface_example :: gfx_surface where
  "surface_example = \<lparr>sf_ptr = 0, px_ptr = 0x9000, sf_w = 4, sf_h = 2, sf_px = replicate 8 0\<rparr>"

lemma surface_example_ok: "surface_ok surface_example"
  by (simp add: surface_ok_def sized_def surface_example_def)

theorem clip_overflow: "gfx_fill_rect surface_example 1 0 (2 ^ 31 - 1) 1 c = None"
proof -
  have "clip_rect surface_example 1 0 (2 ^ 31 - 1) 1 = Some (1, 0, 2 ^ 31 - 1, 1)"
    by (simp add: clip_rect_def surface_example_def wrap32_def)
  moreover have "fill_px 1 (nat (2 ^ 31 - 1)) c (sf_px surface_example) = None" by (rule fill_px_out) (simp_all add: surface_example_def)
  ultimately show ?thesis by (simp add: gfx_fill_rect_def)
qed

theorem gfx_fill_rect_exact_witness:
  "\<exists>s'. gfx_fill_rect surface_example (- 1) 1 3 5 7 = Some s' \<and> pixel s' 1 1 = 7 \<and> pixel s' 2 1 = 0"
proof -
  obtain s' where s: "gfx_fill_rect surface_example (- 1) 1 3 5 7 = Some s'"
    "\<And>X Y. on_surface surface_example X Y \<Longrightarrow> pixel s' X Y = (if in_rect (- 1) 1 3 5 X Y then 7 else pixel surface_example X Y)"
    using gfx_fill_rect_exact [OF surface_example_ok, of "- 1" 1 3 5 7] by auto
  have "pixel s' 1 1 = 7" "pixel s' 2 1 = 0"
    using s(2) [of 1 1] s(2) [of 2 1] by (simp_all add: on_surface_def in_rect_def surface_example_def pixel_def at_px_def)
  with s(1) show ?thesis by blast
qed

theorem gfx_blit_exact_witness:
  "\<exists>d. gfx_blit surface_example 2 (- 1) (surface_example\<lparr>sf_px := replicate 8 9\<rparr>) = Some d \<and> pixel d 3 0 = 9 \<and> pixel d 1 0 = 0"
proof -
  let ?src = "surface_example\<lparr>sf_px := replicate 8 9\<rparr>"
  have "surface_ok ?src" by (simp add: surface_ok_def sized_def surface_example_def)
  then obtain d where d: "gfx_blit surface_example 2 (- 1) ?src = Some d"
    "\<And>X Y. on_surface surface_example X Y \<Longrightarrow>
       pixel d X Y = (if on_surface ?src (X - 2) (Y + 1) then pixel ?src (X - 2) (Y + 1) else pixel surface_example X Y)"
    using gfx_blit_exact [OF surface_example_ok, of ?src 2 "- 1"] by auto
  have "pixel d 3 0 = 9" "pixel d 1 0 = 0"
    using d(2) [of 3 0] d(2) [of 1 0] by (simp_all add: on_surface_def surface_example_def pixel_def at_px_def)
  with d(1) show ?thesis by blast
qed

theorem gfx_present_exact_witness:
  "\<exists>m'. gfx_present \<lparr>fbp = \<lparr>fbp_base = 0x1000, fbp_width = 4, fbp_height = 2, fbp_pitch = 32, fbp_bpp = 32\<rparr>,
     backbuf = surface_example\<lparr>sf_px := replicate 8 0x11223344\<rparr>, gfx_ready = True\<rparr> (\<lambda>_. 0) = Some m' \<and> m' 0x1021 = 0x33 \<and> m' 0x1010 = 0"
proof -
  let ?g = "\<lparr>fbp = \<lparr>fbp_base = 0x1000, fbp_width = 4, fbp_height = 2, fbp_pitch = 32, fbp_bpp = 32\<rparr>,
     backbuf = surface_example\<lparr>sf_px := replicate 8 0x11223344\<rparr>, gfx_ready = True\<rparr>"
  have ok: "fb_ok ?g" by (simp add: fb_ok_def surface_ok_def sized_def surface_example_def)
  obtain m' where m': "gfx_present ?g (\<lambda>_. 0) = Some m'"
    "\<And>X Y b. on_surface (backbuf ?g) X Y \<Longrightarrow> b < 4 \<Longrightarrow> m' (fb_addr ?g X Y b) = px_byte (pixel (backbuf ?g) X Y) b"
    "\<And>a. \<forall>X Y b. on_surface (backbuf ?g) X Y \<and> b < 4 \<longrightarrow> a \<noteq> fb_addr ?g X Y b \<Longrightarrow> m' a = 0"
    using gfx_present_exact [OF ok, of "\<lambda>_. 0"] by auto
  have "m' (fb_addr ?g 0 1 1) = 0x33"
    using m'(2) [of 0 1 1] by (simp add: on_surface_def surface_example_def pixel_def at_px_def px_byte_def drop_bit_eq_div)
  then have "m' 0x1021 = 0x33" by (simp add: fb_addr_def)
  moreover have "m' 0x1010 = 0"
  proof (intro m'(3) allI impI)
    fix X Y b assume a: "on_surface (backbuf ?g) X Y \<and> b < (4 :: nat)"
    have "Y = 0 \<or> Y = 1" "nat X \<le> 3" using a by (auto simp: on_surface_def surface_example_def)
    then show "(0x1010 :: nat) \<noteq> fb_addr ?g X Y b" using a by (auto simp: fb_addr_def)
  qed
  ultimately show ?thesis using m'(1) by blast
qed

end
