(* ===== verification/Syscall.thy ===== *)
theory Syscall
  imports Elf Gfx Events
begin

text \<open>
  \<open>cpu/syscall.c\<close>: the system calls. A call runs on the whole kernel: files, scheduler and heap, the memory with the page
  tables, the address spaces, the input queue and the screen. User pointers are dereferenced through the page tables the
  caller runs on, byte by byte, as the processor does it; an address without a present page is a fault, which in ring 0
  stops the machine. The outcome of a call tells such a fault from a file-system driver that does not return.
\<close>

section \<open>Outcomes\<close>

datatype 'a outcome = Done 'a | Fault | Hang

fun and_then :: "'a outcome \<Rightarrow> ('a \<Rightarrow> 'b outcome) \<Rightarrow> 'b outcome" where
  "and_then (Done a) f = f a"
| "and_then Fault f = Fault"
| "and_then Hang f = Hang"

text \<open>Memory accesses that may fault, and drivers that may not return.\<close>

definition mem_access :: "'a option \<Rightarrow> 'a outcome" where
  "mem_access r = (case r of None \<Rightarrow> Fault | Some a \<Rightarrow> Done a)"

definition drv_call :: "'a option \<Rightarrow> 'a outcome" where
  "drv_call r = (case r of None \<Rightarrow> Hang | Some a \<Rightarrow> Done a)"

section \<open>State\<close>

record 's sys =
  y_k :: "'s kernel"
  y_ev :: evstate
  y_gfx :: gfx
  y_fb :: memory
  y_ticks :: u64
  y_console :: "u8 list list"

text \<open>The bounds of the shared arena (\<open>linker.ld\<close>), the font table, and the bytes that happen to lie in the padding of
  structures on the kernel stack.\<close>

record sys_env =
  user_start :: nat
  user_end :: nat
  font8x16 :: "u8 \<Rightarrow> u8 list"
  padding :: "nat \<Rightarrow> u8"

text \<open>The registers a system call reads; the result replaces \<open>rax\<close>.\<close>

record regs =
  r_rax :: u64
  r_rdi :: u64
  r_rsi :: u64
  r_rdx :: u64
  r_r10 :: u64

abbreviation y_sched :: "'s sys \<Rightarrow> sched" where
  "y_sched y \<equiv> v_sched (k_vfs (y_k y))"

definition y_vfs_set :: "'s vfs \<Rightarrow> 's sys \<Rightarrow> 's sys" where
  "y_vfs_set v y = y\<lparr>y_k := (y_k y)\<lparr>k_vfs := v\<rparr>\<rparr>"

definition y_sched_set :: "sched \<Rightarrow> 's sys \<Rightarrow> 's sys" where
  "y_sched_set s y = y_vfs_set ((k_vfs (y_k y))\<lparr>v_sched := s\<rparr>) y"

definition y_mem_set :: "memory \<Rightarrow> 's sys \<Rightarrow> 's sys" where
  "y_mem_set m y = y\<lparr>y_k := (y_k y)\<lparr>k_mem := m\<rparr>\<rparr>"

section \<open>User memory\<close>

text \<open>The address translation of the processor: the first gigabyte is mapped one to one in every address space, the private
  window through the tables of the loaded space.\<close>

definition translate :: "memory \<Rightarrow> nat \<Rightarrow> nat \<Rightarrow> nat option" where
  "translate m cr3 a =
     (if a < VMM_USER_BASE then Some a
      else if a < VMM_USER_BASE + VMM_USER_SIZE \<and> present (tbl_entry m cr3 0) then
        (case leaf_pte m (pte_addr (tbl_entry m cr3 0)) (a div 0x1000 * 0x1000) of
           None \<Rightarrow> None
         | Some pte \<Rightarrow> if present pte then Some (pte_addr pte + a mod 0x1000) else None)
      else None)"

fun copy_in :: "memory \<Rightarrow> nat \<Rightarrow> nat \<Rightarrow> nat \<Rightarrow> u8 list option" where
  "copy_in m cr3 a 0 = Some []"
| "copy_in m cr3 a (Suc n) = do { p \<leftarrow> translate m cr3 a; bs \<leftarrow> copy_in m cr3 (a + 1) n; Some (m p # bs) }"

fun copy_out :: "memory \<Rightarrow> nat \<Rightarrow> nat \<Rightarrow> u8 list \<Rightarrow> memory option" where
  "copy_out m cr3 a [] = Some m"
| "copy_out m cr3 a (b # bs) = do { p \<leftarrow> translate m cr3 a; copy_out (m(p := b)) cr3 (a + 1) bs }"

definition user_ok :: "sys_env \<Rightarrow> 's sys \<Rightarrow> u64 \<Rightarrow> nat \<Rightarrow> bool" where
  "user_ok env y p len = is_user_range (user_start env) (user_end env) (loaded_cr3 (y_sched y)) (k_mem (y_k y)) (unat p) len"

definition from_user :: "'s sys \<Rightarrow> u64 \<Rightarrow> nat \<Rightarrow> u8 list outcome" where
  "from_user y p n = mem_access (copy_in (k_mem (y_k y)) (loaded_cr3 (y_sched y)) (unat p) n)"

definition to_user :: "u64 \<Rightarrow> u8 list \<Rightarrow> 's sys \<Rightarrow> 's sys outcome" where
  "to_user p bs y =
     mem_access (map_option (\<lambda>m. y_mem_set m y) (copy_out (k_mem (y_k y)) (loaded_cr3 (y_sched y)) (unat p) bs))"

section \<open>Arguments and results\<close>

definition minus_one :: u64 where "minus_one = - 1"

definition int_arg :: "u64 \<Rightarrow> int" where
  "int_arg r = sint (ucast r :: 32 word)"

text \<open>The four 16-bit fields of a packed rectangle, from \<open>shift\<close> up.\<close>

definition field16 :: "u64 \<Rightarrow> nat \<Rightarrow> int" where
  "field16 r sh = int (unat (drop_bit sh r) mod 2 ^ 16)"

definition le_bytes :: "nat \<Rightarrow> nat \<Rightarrow> u8 list" where
  "le_bytes n v = map (\<lambda>i. of_nat (v div 256 ^ i)) [0..<n]"

definition ev_code_of :: "event_type \<Rightarrow> u8" where
  "ev_code_of t = (case t of EV_NONE \<Rightarrow> 0 | EV_KEY_DOWN \<Rightarrow> 1 | EV_KEY_UP \<Rightarrow> 2 | EV_MOUSE_MOVE \<Rightarrow> 3 | EV_MOUSE_DOWN \<Rightarrow> 4 | EV_MOUSE_UP \<Rightarrow> 5)"

definition event_bytes :: "event \<Rightarrow> u8 list" where
  "event_bytes e = [ev_code_of (ev_type e), ev_code e, ev_ch e, ev_buttons e] @ le_bytes 4 (unat (ev_x e)) @ le_bytes 4 (unat (ev_y e))"

definition stat_bytes :: "sys_env \<Rightarrow> vfs_stat_t \<Rightarrow> u8 list" where
  "stat_bytes env st = le_bytes 8 (st_size st) @ le_bytes 4 (st_inode st) @ [st_type st] @ map (padding env) [0..<3]"

definition vfs_dirent_bytes :: "sys_env \<Rightarrow> dirent \<Rightarrow> u8 list" where
  "vfs_dirent_bytes env de =
     take MAX_FILENAME (de_name de @ [0] @ map (padding env) [0..<MAX_FILENAME]) @ le_bytes 8 (de_size de) @ [de_type de] @ map (padding env) [0..<7]"

text \<open>The bytes of \<open>n\<close> pixels.\<close>

fun bytes_px :: "u8 list \<Rightarrow> u32 list" where
  "bytes_px (a # b # c # d # bs) = of_nat (unat a + 256 * unat b + 65536 * unat c + 16777216 * unat d) # bytes_px bs"
| "bytes_px _ = []"

definition cap :: "u64 \<Rightarrow> nat \<Rightarrow> nat" where
  "cap len lim = (if unat len > lim then lim else unat len)"

type_synonym 's call = "sys_env \<Rightarrow> regs \<Rightarrow> 's sys \<Rightarrow> (u64 \<times> 's sys) outcome"

text \<open>A path argument: checked, copied to the stack and terminated.\<close>

definition path_arg :: "'s sys \<Rightarrow> u64 \<Rightarrow> nat \<Rightarrow> u8 list outcome" where
  "path_arg y p len = and_then (from_user y p len) (\<lambda>bs. Done (bs @ [0]))"

section \<open>The calls\<close>

definition sys_exit :: "'s call" where
  "sys_exit env r y = Done (0, y_sched_set (sched_kill_current (y_sched y)) y)"

definition sys_yield :: "'s call" where
  "sys_yield env r y = Done (0, y_sched_set (sched_want_reschedule (y_sched y)) y)"

definition sys_get_ticks :: "'s call" where
  "sys_get_ticks env r y = Done (y_ticks y, y)"

definition sys_event_poll :: "'s call" where
  "sys_event_poll env r y =
     (if \<not> user_ok env y (r_rdi r) 12 then Done (minus_one, y)
      else case event_poll (y_ev y) of
        None \<Rightarrow> Done (0, y)
      | Some (ev, q) \<Rightarrow> and_then (to_user (r_rdi r) (event_bytes ev) (y\<lparr>y_ev := q\<rparr>)) (\<lambda>y. Done (1, y)))"

text \<open>Storing the screen surface, and blitting to the framebuffer.\<close>

definition set_screen :: "gfx_surface \<Rightarrow> 's sys \<Rightarrow> 's sys" where
  "set_screen s y = y\<lparr>y_gfx := (y_gfx y)\<lparr>backbuf := s\<rparr>\<rparr>"

definition blit_fb :: "int \<Rightarrow> int \<Rightarrow> int \<Rightarrow> int \<Rightarrow> 's sys \<Rightarrow> (u64 \<times> 's sys) outcome" where
  "blit_fb x y w h st = and_then (mem_access (gfx_present_rect (y_gfx st) x y w h (y_fb st))) (\<lambda>m. Done (0, st\<lparr>y_fb := m\<rparr>))"

definition sys_gfx_present :: "'s call" where
  "sys_gfx_present env r y =
     (case gfx_screen (y_gfx y) of
        None \<Rightarrow> Done (minus_one, y)
      | Some scr \<Rightarrow>
          let bytes = nat (sf_w scr) * nat (sf_h scr) * 4 in
          if \<not> user_ok env y (r_rdi r) bytes then Done (minus_one, y)
          else
            and_then (from_user y (r_rdi r) bytes) (\<lambda>bs.
            and_then (mem_access (copy_px 0 (bytes_px bs) (sf_px scr))) (\<lambda>px.
            let y = set_screen (scr\<lparr>sf_px := px\<rparr>) y in
            and_then (mem_access (gfx_present (y_gfx y) (y_fb y))) (\<lambda>m. Done (0, y\<lparr>y_fb := m\<rparr>)))))"

text \<open>The copy loop over \<open>n\<close> rows from row \<open>ry\<close> on.\<close>

fun rect_rows :: "'s sys \<Rightarrow> u64 \<Rightarrow> nat \<Rightarrow> nat \<Rightarrow> nat \<Rightarrow> nat \<Rightarrow> nat \<Rightarrow> u32 list \<Rightarrow> u32 list outcome" where
  "rect_rows y p sw x ry w 0 px = Done px"
| "rect_rows y p sw x ry w (Suc n) px =
     (let off = (ry * sw + x) * 4 in
      and_then (from_user y (p + of_nat off) (w * 4)) (\<lambda>bs.
      and_then (mem_access (copy_px (int (off div 4)) (bytes_px bs) px)) (\<lambda>px.
      rect_rows y p sw x (ry + 1) w n px)))"

definition sys_gfx_present_rect :: "'s call" where
  "sys_gfx_present_rect env r y =
     (case gfx_screen (y_gfx y) of
        None \<Rightarrow> Done (minus_one, y)
      | Some scr \<Rightarrow>
          let x = field16 (r_rsi r) 48; yy = field16 (r_rsi r) 32; w = field16 (r_rsi r) 16; h = field16 (r_rsi r) 0;
              (x, w) = (if x < 0 then (0, w + x) else (x, w));
              (yy, h) = (if yy < 0 then (0, h + yy) else (yy, h))
          in if x \<ge> sf_w scr \<or> yy \<ge> sf_h scr \<or> w \<le> 0 \<or> h \<le> 0 then Done (0, y)
             else
               let w = (if x + w > sf_w scr then sf_w scr - x else w);
                   h = (if yy + h > sf_h scr then sf_h scr - yy else h)
               in if \<not> user_ok env y (r_rdi r) (nat (sf_w scr) * nat (sf_h scr) * 4) then Done (minus_one, y)
                  else
                    and_then (rect_rows y (r_rdi r) (nat (sf_w scr)) (nat x) (nat yy) (nat w) (nat h) (sf_px scr)) (\<lambda>px.
                    blit_fb x yy w h (set_screen (scr\<lparr>sf_px := px\<rparr>) y)))"

definition sys_fb_info :: "'s call" where
  "sys_fb_info env r y =
     Done (case gfx_screen (y_gfx y) of
         Some scr \<Rightarrow> push_bit 32 (of_nat (unat (of_int (sf_w scr) :: u32))) OR of_nat (unat (of_int (sf_h scr) :: u32))
       | None \<Rightarrow> 0, y)"

text \<open>The loop over the characters from \<open>ch\<close> on.\<close>

fun font_chars :: "sys_env \<Rightarrow> u64 \<Rightarrow> nat \<Rightarrow> nat \<Rightarrow> 's sys \<Rightarrow> 's sys outcome" where
  "font_chars env dst ch 0 y = Done y"
| "font_chars env dst ch (Suc n) y =
     and_then (to_user (dst + of_nat (ch * 16)) (map (byte_at (font8x16 env (of_nat ch))) [0..<16]) y) (font_chars env dst (ch + 1) n)"

definition sys_get_font :: "'s call" where
  "sys_get_font env r y =
     (if \<not> user_ok env y (r_rdi r) (256 * 16) then Done (minus_one, y)
      else and_then (font_chars env (r_rdi r) 0 256 y) (\<lambda>y. Done (0, y)))"

definition sys_open :: "'s driver \<Rightarrow> 's call" where
  "sys_open D env r y =
     (let len = cap (r_rsi r) (MAX_PATH - 1) in
      if \<not> user_ok env y (r_rdi r) len then Done (minus_one, y)
      else
        and_then (path_arg y (r_rdi r) len) (\<lambda>local.
        and_then (drv_call (vfs_open D local (ucast (r_rdx r)) (k_vfs (y_k y)))) (\<lambda>(fd, v).
        Done (of_int fd, y_vfs_set v y))))"

definition sys_close :: "'s call" where
  "sys_close env r y = (let (rc, v) = vfs_close (int_arg (r_rdi r)) (k_vfs (y_k y)) in Done (of_int rc, y_vfs_set v y))"

definition sys_read :: "'s driver \<Rightarrow> 's call" where
  "sys_read D env r y =
     (if \<not> user_ok env y (r_rsi r) (unat (r_rdx r)) then Done (minus_one, y)
      else
        and_then (drv_call (vfs_read D (int_arg (r_rdi r)) (unat (r_rdx r)) (k_vfs (y_k y)))) (\<lambda>(n, out, v).
        and_then (to_user (r_rsi r) out (y_vfs_set v y)) (\<lambda>y. Done (of_int n, y))))"

definition sys_seek :: "'s call" where
  "sys_seek env r y = (let (rc, v) = vfs_seek (int_arg (r_rdi r)) (r_rsi r) (k_vfs (y_k y)) in Done (of_int rc, y_vfs_set v y))"

definition sys_fwrite :: "'s driver \<Rightarrow> 's call" where
  "sys_fwrite D env r y =
     (if \<not> user_ok env y (r_rsi r) (unat (r_rdx r)) then Done (minus_one, y)
      else
        and_then (from_user y (r_rsi r) (unat (r_rdx r))) (\<lambda>data.
        and_then (drv_call (vfs_write D (int_arg (r_rdi r)) data (k_vfs (y_k y)))) (\<lambda>(n, v).
        Done (of_int n, y_vfs_set v y))))"

definition sys_stat :: "'s driver \<Rightarrow> 's call" where
  "sys_stat D env r y =
     (let len = cap (r_rsi r) (MAX_PATH - 1) in
      if \<not> user_ok env y (r_rdi r) len \<or> \<not> user_ok env y (r_rdx r) 16 then Done (minus_one, y)
      else
        and_then (path_arg y (r_rdi r) len) (\<lambda>local.
        and_then (drv_call (vfs_stat D local (k_vfs (y_k y)))) (\<lambda>(rc, st, v).
        let y = y_vfs_set v y in
        if rc \<noteq> 0 then Done (minus_one, y)
        else and_then (to_user (r_rdx r) (stat_bytes env (the st)) y) (\<lambda>y. Done (0, y)))))"

definition sys_fstat :: "'s driver \<Rightarrow> 's call" where
  "sys_fstat D env r y =
     (if \<not> user_ok env y (r_rsi r) 16 then Done (minus_one, y)
      else
        let (rc, st) = vfs_fstat D (int_arg (r_rdi r)) (k_vfs (y_k y)) in
        if rc \<noteq> 0 then Done (minus_one, y)
        else and_then (to_user (r_rsi r) (stat_bytes env (the st)) y) (\<lambda>y. Done (0, y)))"

definition sys_readdir :: "'s driver \<Rightarrow> 's call" where
  "sys_readdir D env r y =
     (if \<not> user_ok env y (r_rdx r) 144 then Done (minus_one, y)
      else
        and_then (drv_call (vfs_readdir D (int_arg (r_rdi r)) (unat (r_rsi r) mod 2 ^ 32) (k_vfs (y_k y)))) (\<lambda>(de, v).
        let y = y_vfs_set v y in
        case de of
          None \<Rightarrow> Done (minus_one, y)
        | Some de \<Rightarrow> and_then (to_user (r_rdx r) (vfs_dirent_bytes env de) y) (\<lambda>y. Done (0, y))))"

definition sys_unlink :: "'s driver \<Rightarrow> 's call" where
  "sys_unlink D env r y =
     (let len = cap (r_rsi r) (MAX_PATH - 1) in
      if \<not> user_ok env y (r_rdi r) len then Done (minus_one, y)
      else
        and_then (path_arg y (r_rdi r) len) (\<lambda>local.
        and_then (drv_call (vfs_unlink D local (k_vfs (y_k y)))) (\<lambda>(rc, v).
        Done (if rc = 0 then 0 else minus_one, y_vfs_set v y))))"

section \<open>The break\<close>

text \<open>The address space behind the pointer \<open>cur->as\<close>, and storing it back.\<close>

definition find_space :: "nat \<Rightarrow> vmm_as list \<Rightarrow> vmm_as option" where
  "find_space ptr ass = find (\<lambda>a. as_ptr a = ptr) ass"

definition put_space :: "vmm_as \<Rightarrow> vmm_as list \<Rightarrow> vmm_as list" where
  "put_space as ass = map (\<lambda>a. if as_ptr a = as_ptr as then as else a) ass"

text \<open>The mapping loop. The bounds are below the process's heap end, far from \<open>2 ^ 64\<close>, so \<open>va\<close> does not wrap.\<close>

function sbrk_pages :: "nat \<Rightarrow> nat \<Rightarrow> vmm_as \<Rightarrow> 's kernel \<Rightarrow> (bool \<times> vmm_as \<times> 's kernel) option" where
  "sbrk_pages va needed_end as k =
     (if va < needed_end then do {
        (pa, as, k) \<leftarrow> k_alloc_page as k;
        (if pa = 0 then Some (False, as, k)
         else do {
           (r, as, k) \<leftarrow> k_map_page as va pa k;
           (if r \<noteq> 0 then Some (False, as, k) else sbrk_pages (va + 0x1000) needed_end as k)
         })
      }
      else Some (True, as, k))"
  by pat_completeness auto
termination
  by (relation "measure (\<lambda>(va, needed_end, as, k). needed_end - va)") auto

declare sbrk_pages.simps [simp del]

definition round_page :: "nat \<Rightarrow> nat" where
  "round_page n = add64 n 0xFFF div 0x1000 * 0x1000"

definition sys_sbrk :: "'s call" where
  "sys_sbrk env r y =
     (let cur = the (sched_current_task (y_sched y)); t = get_task (y_sched y) cur in
      if t_as t = 0 \<or> t_heap_end t = 0 then Done (minus_one, y)
      else
        let increment = sint (r_rdi r); old_brk = t_heap_brk t in
        if increment = 0 then Done (of_nat old_brk, y)
        else if increment < 0 then Done (minus_one, y)
        else
          let new_brk = add64 old_brk (nat increment) in
          if new_brk < old_brk \<or> new_brk > t_heap_end t then Done (minus_one, y)
          else
            let mapped_end = add64 (t_heap_start t) (round_page (sub64 old_brk (t_heap_start t)));
                needed_end = add64 (t_heap_start t) (round_page (sub64 new_brk (t_heap_start t)))
            in
              and_then (mem_access (find_space (t_as t) (k_spaces (y_k y)))) (\<lambda>as.
              and_then (mem_access (sbrk_pages mapped_end needed_end as (y_k y))) (\<lambda>(ok, as, k).
              let y = y\<lparr>y_k := k\<lparr>k_spaces := put_space as (k_spaces k)\<rparr>\<rparr> in
              if \<not> ok then Done (minus_one, y)
              else Done (of_nat old_brk, y_sched_set (upd_task cur (\<lambda>t. t\<lparr>t_heap_brk := new_brk\<rparr>) (y_sched y)) y))))"

section \<open>Renaming, drawing, writing\<close>

definition sys_rename :: "'s driver \<Rightarrow> 's call" where
  "sys_rename D env r y =
     (let old_len = cap (r_rsi r) (MAX_PATH - 1); new_len = cap (r_r10 r) (MAX_PATH - 1) in
      if \<not> user_ok env y (r_rdi r) old_len \<or> \<not> user_ok env y (r_rdx r) new_len then Done (minus_one, y)
      else
        and_then (path_arg y (r_rdi r) old_len) (\<lambda>old_path.
        and_then (path_arg y (r_rdx r) new_len) (\<lambda>new_path.
        and_then (drv_call (vfs_rename D old_path new_path (k_vfs (y_k y)))) (\<lambda>(rc, v).
        Done (if rc = 0 then 0 else minus_one, y_vfs_set v y)))))"

definition sys_gfx_fill_rect :: "'s call" where
  "sys_gfx_fill_rect env r y =
     (case gfx_screen (y_gfx y) of
        None \<Rightarrow> Done (minus_one, y)
      | Some scr \<Rightarrow>
          and_then (mem_access (gfx_fill_rect scr (field16 (r_rdi r) 48) (field16 (r_rdi r) 32) (field16 (r_rdi r) 16)
            (field16 (r_rdi r) 0) (ucast (r_rsi r)))) (\<lambda>scr. Done (0, set_screen scr y)))"

definition sys_gfx_draw_text :: "'s call" where
  "sys_gfx_draw_text env r y =
     (case gfx_screen (y_gfx y) of
        None \<Rightarrow> Done (minus_one, y)
      | Some scr \<Rightarrow>
          let len = cap (r_rdx r) 256 in
          if \<not> user_ok env y (r_rsi r) len then Done (minus_one, y)
          else
            and_then (from_user y (r_rsi r) len) (\<lambda>bs.
            and_then (mem_access (gfx_draw_text (font8x16 env) scr (field16 (r_rdi r) 16) (field16 (r_rdi r) 0) (bs @ [0])
              (ucast (drop_bit 32 (r_r10 r))) (ucast (r_r10 r)))) (\<lambda>scr. Done (0, set_screen scr y))))"

definition sys_gfx_flush_rect :: "'s call" where
  "sys_gfx_flush_rect env r y =
     (case gfx_screen (y_gfx y) of
        None \<Rightarrow> Done (minus_one, y)
      | Some scr \<Rightarrow> blit_fb (field16 (r_rdi r) 48) (field16 (r_rdi r) 32) (field16 (r_rdi r) 16) (field16 (r_rdi r) 0) y)"

text \<open>\<open>kprint\<close> is observed by the string it is given.\<close>

definition sys_write :: "'s call" where
  "sys_write env r y =
     (let len = cap (r_rsi r) 256 in
      if \<not> user_ok env y (r_rdi r) len then Done (minus_one, y)
      else and_then (from_user y (r_rdi r) len) (\<lambda>bs. Done (of_nat len, y\<lparr>y_console := y_console y @ [takeWhile (\<lambda>c. c \<noteq> 0) bs]\<rparr>)))"

section \<open>Dispatch\<close>

definition syscall_dispatch :: "'s driver \<Rightarrow> 's call" where
  "syscall_dispatch D env r y =
     (let n = unat (r_rax r) in
      if n = 0 then sys_exit env r y
      else if n = 1 then sys_yield env r y
      else if n = 2 then sys_get_ticks env r y
      else if n = 3 then sys_event_poll env r y
      else if n = 4 then sys_gfx_present env r y
      else if n = 8 then sys_gfx_present_rect env r y
      else if n = 5 then sys_fb_info env r y
      else if n = 6 then sys_get_font env r y
      else if n = 9 then sys_open D env r y
      else if n = 10 then sys_close env r y
      else if n = 11 then sys_read D env r y
      else if n = 12 then sys_seek env r y
      else if n = 13 then sys_fwrite D env r y
      else if n = 14 then sys_stat D env r y
      else if n = 15 then sys_fstat D env r y
      else if n = 16 then sys_readdir D env r y
      else if n = 17 then sys_unlink D env r y
      else if n = 18 then sys_sbrk env r y
      else if n = 19 then sys_rename D env r y
      else if n = 20 then sys_gfx_fill_rect env r y
      else if n = 21 then sys_gfx_draw_text env r y
      else if n = 26 then sys_gfx_flush_rect env r y
      else if n = 7 then sys_write env r y
      else Done (minus_one, y))"

end
