(* ===== verification/Syscall_Props.thy ===== *)
theory Syscall_Props
  imports Syscall Elf_Props Gfx_Props
begin

text \<open>
  System calls against the memory of the processes: no argument a process can put into the registers makes a call fault in
  the kernel, change a page table through a user pointer or touch a page of another process. The proofs go through one
  notion of user byte, an address that passes the pointer check; reading, writing and growing the heap are shown once for it.
\<close>

section \<open>User bytes\<close>

text \<open>An address of the shared arena or one that the tables of the space back with a user page.\<close>

definition ubyte :: "sys_env \<Rightarrow> memory \<Rightarrow> vmm_as \<Rightarrow> nat \<Rightarrow> bool" where
  "ubyte env m as a \<longleftrightarrow> user_start env \<le> a \<and> a < user_end env \<or>
     VMM_USER_BASE \<le> a \<and> a < VMM_USER_BASE + VMM_USER_SIZE \<and> user_byte m as a"

text \<open>One process at a time: its space, the others, the place of the arena behind the heap.\<close>

definition space_inv :: "sys_env \<Rightarrow> vmm_as \<Rightarrow> vmm_as list \<Rightarrow> vm \<Rightarrow> bool" where
  "space_inv env as rest s \<longleftrightarrow> spaces_ok (as # rest) s \<and> (\<forall>b \<in> set (as # rest). confined (vm_mem s) b) \<and>
     kheap_area (vm_heap s) + KHEAP_SIZE \<le> user_start env \<and> user_end env \<le> VMM_USER_BASE"

lemma space_invD:
  "space_inv env as rest s \<Longrightarrow> spaces_ok (as # rest) s \<and> confined (vm_mem s) as \<and> tables_ok (vm_mem s) as \<and>
     kheap_area (vm_heap s) + KHEAP_SIZE \<le> user_start env \<and> user_end env \<le> VMM_USER_BASE"
  by (simp add: space_inv_def spaces_ok_Cons)

text \<open>A user byte translates, to a byte that may be written.\<close>

lemma ubyte_translate:
  assumes inv: "space_inv env as rest s" and u: "ubyte env (vm_mem s) as a"
  shows "\<exists>q. translate (vm_mem s) (pml4_phys as) a = Some q \<and> writable as rest (vm_mem s) q"
proof (cases "user_start env \<le> a \<and> a < user_end env")
  case True
  then show ?thesis using space_invD [OF inv] area_writable [of as rest s a] by (simp add: translate_def)
next
  case False
  then have w: "VMM_USER_BASE \<le> a" "a < VMM_USER_BASE + VMM_USER_SIZE" "user_byte (vm_mem s) as a" using u by (auto simp: ubyte_def)
  then obtain pte where pte: "as_map (vm_mem s) as (a div 0x1000 * 0x1000) = Some pte" by (auto simp: user_byte_def split: option.splits)
  then have l: "leaf_pte (vm_mem s) (pdpt_of (vm_mem s) as) (a div 0x1000 * 0x1000) = Some pte" "present pte"
    by (auto simp: as_map_def split: if_splits option.splits)
  have "present (tbl_entry (vm_mem s) (pml4_phys as) 0)" using space_invD [OF inv] by (simp add: tables_ok_def)
  then have t: "translate (vm_mem s) (pml4_phys as) a = Some (pte_addr pte + a mod 0x1000)"
    using w l by (simp add: translate_def pdpt_of_def)
  have "data_pg (vm_mem s) as (pte_addr pte)" using space_invD [OF inv] pte by (simp add: confined_def)
  then have "writable as rest (vm_mem s) (pte_addr pte + a mod 0x1000)" using space_invD [OF inv] by (intro data_writable) auto
  with t show ?thesis by blast
qed

lemma user_byte_cong: "as_map m' as = as_map m as \<Longrightarrow> user_byte m' as = user_byte m as"
  by (simp add: user_byte_def fun_eq_iff)

lemma ubyte_cong: "as_map m' as = as_map m as \<Longrightarrow> ubyte env m' as = ubyte env m as"
  using user_byte_cong [of m' as m] by (simp add: ubyte_def [abs_def])

lemma byte_write_inv:
  assumes inv: "space_inv env as rest s" and w: "writable as rest (vm_mem s) q"
  shows "space_inv env as rest (s\<lparr>vm_mem := (vm_mem s)(q := v)\<rparr>)" "as_map ((vm_mem s)(q := v)) as = as_map (vm_mem s) as"
    "unchanged_in rest (vm_mem s) ((vm_mem s)(q := v))"
proof -
  have ok: "spaces_ok (as # rest) s" using inv by (simp add: space_inv_def)
  note b = byte_write [OF ok w, of v]
  show "as_map ((vm_mem s)(q := v)) as = as_map (vm_mem s) as" "unchanged_in rest (vm_mem s) ((vm_mem s)(q := v))" by (rule b(3), rule b(2))
  have "confined ((vm_mem s)(q := v)) as" using b(3,4) inv by (simp add: space_inv_def confined_def data_pg_def)
  moreover have "confined ((vm_mem s)(q := v)) c" if "c \<in> set rest" for c
    using unchanged_confined [OF _ b(2) that] ok inv that by (auto simp: space_inv_def spaces_ok_Cons pages_ok_def)
  ultimately show "space_inv env as rest (s\<lparr>vm_mem := (vm_mem s)(q := v)\<rparr>)" using b(1) inv by (simp add: space_inv_def)
qed

lemma copy_in_ok:
  assumes inv: "space_inv env as rest s"
  shows "(\<And>a. p \<le> a \<Longrightarrow> a < p + n \<Longrightarrow> ubyte env (vm_mem s) as a) \<Longrightarrow>
    \<exists>bs. copy_in (vm_mem s) (pml4_phys as) p n = Some bs \<and> length bs = n"
proof (induction n arbitrary: p)
  case (Suc n)
  obtain q where "translate (vm_mem s) (pml4_phys as) p = Some q" using ubyte_translate [OF inv Suc.prems(1) [of p]] by auto
  moreover obtain bs where "copy_in (vm_mem s) (pml4_phys as) (p + 1) n = Some bs" "length bs = n" using Suc.IH [of "p + 1"] Suc.prems by auto
  ultimately show ?case by auto
qed simp

lemma copy_out_ok:
  assumes "space_inv env as rest s" "\<And>a. p \<le> a \<Longrightarrow> a < p + length bs \<Longrightarrow> ubyte env (vm_mem s) as a"
  shows "\<exists>m'. copy_out (vm_mem s) (pml4_phys as) p bs = Some m' \<and> space_inv env as rest (s\<lparr>vm_mem := m'\<rparr>) \<and>
    as_map m' as = as_map (vm_mem s) as \<and> unchanged_in rest (vm_mem s) m'"
  using assms
proof (induction bs arbitrary: p s)
  case Nil
  then show ?case by (simp add: unchanged_in_def)
next
  case (Cons b bs)
  obtain q where q: "translate (vm_mem s) (pml4_phys as) p = Some q" "writable as rest (vm_mem s) q"
    using ubyte_translate [OF Cons.prems(1) Cons.prems(2) [of p]] by auto
  let ?s = "s\<lparr>vm_mem := (vm_mem s)(q := b)\<rparr>"
  note w = byte_write_inv [OF Cons.prems(1) q(2), of b]
  have "ubyte env (vm_mem ?s) as a" if "p + 1 \<le> a" "a < p + 1 + length bs" for a
    using Cons.prems(2) [of a] that ubyte_cong [OF w(2), of env] by simp
  from Cons.IH [OF w(1) this] obtain m' where "copy_out (vm_mem ?s) (pml4_phys as) (p + 1) bs = Some m'"
    "space_inv env as rest (?s\<lparr>vm_mem := m'\<rparr>)" "as_map m' as = as_map (vm_mem ?s) as" "unchanged_in rest (vm_mem ?s) m'" by blast
  then show ?case using q(1) w(2) unchanged_trans [OF w(3)] by simp
qed

text \<open>What the pointer check accepts.\<close>

lemma accepted:
  assumes inv: "space_inv env as rest s" and u: "is_user_range (user_start env) (user_end env) (pml4_phys as) (vm_mem s) p len"
  shows "p \<le> a \<Longrightarrow> a < p + len \<Longrightarrow> ubyte env (vm_mem s) as a" "0 < len \<Longrightarrow> p + len \<le> 2 ^ 31"
proof -
  have b: "user_end env \<le> VMM_USER_BASE" "tables_ok (vm_mem s) as" using space_invD [OF inv] by auto
  note x = user_range_iff [OF b(2), of len "user_start env" "user_end env" p]
  show "p \<le> a \<Longrightarrow> a < p + len \<Longrightarrow> ubyte env (vm_mem s) as a" using x u by (cases "len = 0") (auto simp: ubyte_def)
  show "0 < len \<Longrightarrow> p + len \<le> 2 ^ 31" using x u b(1) by (auto simp: VMM_USER_BASE_def VMM_USER_SIZE_def)
qed

section \<open>Outcomes\<close>

text \<open>No fault, and a property of what is returned.\<close>

definition fine :: "('a \<Rightarrow> bool) \<Rightarrow> 'a outcome \<Rightarrow> bool" where
  "fine P r \<longleftrightarrow> (case r of Done a \<Rightarrow> P a | Fault \<Rightarrow> False | Hang \<Rightarrow> True)"

lemma fine_Done [simp]: "fine P (Done a) = P a"
  by (simp add: fine_def)

lemma fine_bind: "fine P r \<Longrightarrow> (\<And>a. P a \<Longrightarrow> fine Q (f a)) \<Longrightarrow> fine Q (and_then r f)"
  by (cases r) (auto simp: fine_def)

lemma fine_mem: "\<exists>a. r = Some a \<and> P a \<Longrightarrow> fine P (mem_access r)"
  by (auto simp: mem_access_def)

lemma fine_drv: "(\<And>a. r = Some a \<Longrightarrow> P a) \<Longrightarrow> fine P (drv_call r)"
  by (cases r) (auto simp: drv_call_def fine_def)

lemma fine_weaken: "fine P r \<Longrightarrow> (\<And>a. P a \<Longrightarrow> Q a) \<Longrightarrow> fine Q r"
  by (cases r) (auto simp: fine_def)

section \<open>The invariant of the running process\<close>

definition others :: "vmm_as \<Rightarrow> vmm_as list \<Rightarrow> vmm_as list" where
  "others as ass = filter (\<lambda>b. as_ptr b \<noteq> as_ptr as) ass"

text \<open>The heap of the calling task: its space is the loaded one and every page below the break is mapped.\<close>

definition brk_task :: "memory \<Rightarrow> vmm_as \<Rightarrow> task \<Rightarrow> bool" where
  "brk_task m as t \<longleftrightarrow> (t_as t \<noteq> 0 \<and> t_heap_end t \<noteq> 0 \<longrightarrow> t_as t = as_ptr as \<and> t_heap_start t \<le> t_heap_brk t \<and>
     t_heap_end t \<le> VMM_USER_BASE + VMM_USER_SIZE \<and> seg_mapped m as (t_heap_start t) (t_heap_brk t))"

definition brk_ok :: "memory \<Rightarrow> vmm_as \<Rightarrow> sched \<Rightarrow> bool" where
  "brk_ok m as s \<longleftrightarrow> brk_task m as (get_task s (the (cur_task s)))"

lemma brk_ok_mem: "as_map m' as = as_map m as \<Longrightarrow> brk_ok m' as s = brk_ok m as s"
  by (simp add: brk_ok_def brk_task_def seg_mapped_def user_mapped_def)

definition process_ok :: "sys_env \<Rightarrow> vmm_as \<Rightarrow> 's sys \<Rightarrow> bool" where
  "process_ok env as y \<longleftrightarrow> spaces_ok (k_spaces (y_k y)) (vm_of (y_k y)) \<and> (\<forall>b \<in> set (k_spaces (y_k y)). confined (k_mem (y_k y)) b) \<and>
     kheap_area (k_heap (y_k y)) + KHEAP_SIZE \<le> user_start env \<and> user_end env \<le> VMM_USER_BASE \<and>
     as \<in> set (k_spaces (y_k y)) \<and> loaded_cr3 (y_sched y) = pml4_phys as \<and> brk_ok (k_mem (y_k y)) as (y_sched y) \<and>
     (gfx_ready (y_gfx y) \<longrightarrow> fb_ok (y_gfx y))"

lemma spaces_distinct: "spaces_ok ass s \<Longrightarrow> distinct (map as_ptr ass)"
proof (induction ass)
  case (Cons as ass)
  then have d: "pages_ok as ass s" by (simp add: spaces_ok_Cons)
  then have "spaces_ok ass s" by (simp add: pages_ok_def)
  moreover have "as_ptr as \<notin> set (map as_ptr ass)" using d by (fastforce simp: pages_ok_def as_ptrs_def)
  ultimately show ?case using Cons.IH by simp
qed simp

lemma others_perm:
  assumes "distinct (map as_ptr ass)" "as \<in> set ass"
  shows "mset (as # others as ass) = mset ass" "as_ptr as' = as_ptr as \<Longrightarrow> mset (as' # others as ass) = mset (put_space as' ass)"
    "as_ptr as' = as_ptr as \<Longrightarrow> others as (put_space as' ass) = others as ass" "put_space as ass = ass"
proof -
  obtain xs ys where s: "ass = xs @ as # ys" using assms(2) by (auto simp: in_set_conv_decomp)
  have "as_ptr as \<notin> as_ptr ` set (xs @ ys)" using assms(1) unfolding s by auto
  then have n: "as_ptr b \<noteq> as_ptr as" if "b \<in> set (xs @ ys)" for b using that by (metis imageI)
  have o: "others as ass = xs @ ys" using n unfolding s others_def by (auto simp: filter_id_conv)
  have p: "put_space as' ass = xs @ as' # ys" if "as_ptr as' = as_ptr as" for as'
    using n that unfolding s put_space_def by (auto intro: map_idI)
  show "mset (as # others as ass) = mset ass" "put_space as ass = ass" using o p [OF refl] by (simp_all add: s)
  show "mset (as' # others as ass) = mset (put_space as' ass)" if "as_ptr as' = as_ptr as" for as' :: vmm_as
    unfolding o p [OF that] by simp
  show "others as (put_space as' ass) = others as ass" if "as_ptr as' = as_ptr as" for as' :: vmm_as
    unfolding o p [OF that] using n that by (auto simp: others_def filter_id_conv)
qed

abbreviation y_others :: "vmm_as \<Rightarrow> 's sys \<Rightarrow> vmm_as list" where
  "y_others as y \<equiv> others as (k_spaces (y_k y))"

lemma process_space:
  assumes "process_ok env as y"
  shows "space_inv env as (y_others as y) (vm_of (y_k y))"
proof -
  have p: "spaces_ok (k_spaces (y_k y)) (vm_of (y_k y))" "as \<in> set (k_spaces (y_k y))" using assms by (simp_all add: process_ok_def)
  note o = others_perm(1) [OF spaces_distinct [OF p(1)] p(2)]
  have "spaces_ok (as # y_others as y) (vm_of (y_k y))" using p(1) spaces_ok_perm [OF o] by simp
  then show ?thesis using assms by (auto simp: process_ok_def space_inv_def others_def)
qed

text \<open>Steps that leave all translations and the pages of the others alone.\<close>

definition qstep :: "sys_env \<Rightarrow> vmm_as \<Rightarrow> 's sys \<Rightarrow> 's sys \<Rightarrow> bool" where
  "qstep env as y y' \<longleftrightarrow> process_ok env as y' \<and> k_spaces (y_k y') = k_spaces (y_k y) \<and>
     unchanged_in (y_others as y) (k_mem (y_k y)) (k_mem (y_k y')) \<and> as_map (k_mem (y_k y')) as = as_map (k_mem (y_k y)) as"

lemma qstep_refl: "process_ok env as y \<Longrightarrow> qstep env as y y"
  by (simp add: qstep_def unchanged_in_def)

lemma qstep_trans: "qstep env as y y1 \<Longrightarrow> qstep env as y1 y2 \<Longrightarrow> qstep env as y y2"
  unfolding qstep_def using unchanged_trans by metis

lemma qstep_ok: "qstep env as y y' \<Longrightarrow> process_ok env as y'"
  by (simp add: qstep_def)

definition ubytes :: "sys_env \<Rightarrow> vmm_as \<Rightarrow> 's sys \<Rightarrow> nat \<Rightarrow> nat \<Rightarrow> bool" where
  "ubytes env as y p n \<longleftrightarrow> (\<forall>a. p \<le> a \<and> a < p + n \<longrightarrow> ubyte env (k_mem (y_k y)) as a)"

lemma ubytes_sub: "ubytes env as y p n \<Longrightarrow> p \<le> q \<Longrightarrow> q + k \<le> p + n \<Longrightarrow> ubytes env as y q k"
  by (auto simp: ubytes_def)

lemma ubytes_qstep: "qstep env as y y' \<Longrightarrow> ubytes env as y p n \<Longrightarrow> ubytes env as y' p n"
  using ubyte_cong [of "k_mem (y_k y')" as "k_mem (y_k y)" env] by (simp add: qstep_def ubytes_def)

lemma user_ok_bytes:
  assumes "process_ok env as y" "user_ok env y p n"
  shows "ubytes env as y (unat p) n" "0 < n \<Longrightarrow> unat p + n \<le> 2 ^ 31"
proof -
  have "is_user_range (user_start env) (user_end env) (pml4_phys as) (vm_mem (vm_of (y_k y))) (unat p) n"
    using assms by (simp add: user_ok_def process_ok_def)
  note a = accepted [OF process_space [OF assms(1)] this]
  show "ubytes env as y (unat p) n" "0 < n \<Longrightarrow> unat p + n \<le> 2 ^ 31" using a by (auto simp: ubytes_def)
qed

lemma from_user_fine:
  assumes "process_ok env as y" "ubytes env as y (unat p) n"
  shows "fine (\<lambda>bs. length bs = n) (from_user y p n)"
  unfolding from_user_def
  using copy_in_ok [OF process_space [OF assms(1)], of "unat p" n] assms by (intro fine_mem) (auto simp: ubytes_def process_ok_def)

lemma to_user_fine:
  assumes p: "process_ok env as y" and u: "ubytes env as y (unat p) (length bs)"
  shows "fine (qstep env as y) (to_user p bs y)"
proof -
  let ?k = "y_k y"
  obtain m' where m: "copy_out (k_mem ?k) (pml4_phys as) (unat p) bs = Some m'" "space_inv env as (y_others as y) ((vm_of ?k)\<lparr>vm_mem := m'\<rparr>)"
    "as_map m' as = as_map (k_mem ?k) as" "unchanged_in (y_others as y) (k_mem ?k) m'"
    using copy_out_ok [OF process_space [OF p], of "unat p" bs] u by (auto simp: ubytes_def)
  have vm: "vm_of (y_k (y_mem_set m' y)) = (vm_of ?k)\<lparr>vm_mem := m'\<rparr>" by (simp add: y_mem_set_def vm_of_def)
  have d: "spaces_ok (k_spaces ?k) (vm_of ?k)" "as \<in> set (k_spaces ?k)" using p by (simp_all add: process_ok_def)
  note o = others_perm(1) [OF spaces_distinct [OF d(1)] d(2)]
  have "spaces_ok (k_spaces ?k) ((vm_of ?k)\<lparr>vm_mem := m'\<rparr>)" using m(2) spaces_ok_perm [OF o] by (simp add: space_inv_def)
  moreover have "\<forall>b \<in> set (k_spaces ?k). confined m' b" using m(2) unfolding mset_eq_setD [OF o, symmetric] by (simp add: space_inv_def)
  ultimately have "qstep env as y (y_mem_set m' y)" using p m(3,4) vm brk_ok_mem [OF m(3)]
    by (simp add: qstep_def process_ok_def) (simp add: y_mem_set_def)
  then show ?thesis using m(1) p by (auto simp: to_user_def mem_access_def process_ok_def)
qed

text \<open>Steps of the parts of the state that hold no user memory.\<close>

lemma process_vfs:
  assumes p: "process_ok env as y" and f: "vfs_frame (k_vfs (y_k y)) v"
  shows "qstep env as y (y_vfs_set v y)"
proof -
  let ?s = "v_sched (k_vfs (y_k y))"
  have g: "(get_task (v_sched v) r)\<lparr>t_fd_table := []\<rparr> = (get_task ?s r)\<lparr>t_fd_table := []\<rparr>" for r using f by (simp add: vfs_frame_def)
  have t: "t_as (get_task (v_sched v) r) = t_as (get_task ?s r)" "t_heap_end (get_task (v_sched v) r) = t_heap_end (get_task ?s r)"
    "t_heap_start (get_task (v_sched v) r) = t_heap_start (get_task ?s r)" "t_heap_brk (get_task (v_sched v) r) = t_heap_brk (get_task ?s r)" for r
    using arg_cong [OF g [of r], of t_as] arg_cong [OF g [of r], of t_heap_end] arg_cong [OF g [of r], of t_heap_start] arg_cong [OF g [of r], of t_heap_brk]
    by simp_all
  have "vm_of ((y_k y)\<lparr>k_vfs := v\<rparr>) = vm_of (y_k y)" using f by (simp add: vm_of_def vfs_frame_def)
  then have "spaces_ok (k_spaces (y_k y)) (vm_of ((y_k y)\<lparr>k_vfs := v\<rparr>))" using p unfolding process_ok_def by metis
  moreover have "brk_ok (k_mem (y_k y)) as (v_sched v)" using p f by (simp add: process_ok_def brk_ok_def brk_task_def vfs_frame_def t)
  ultimately show ?thesis using p f by (simp add: qstep_def process_ok_def y_vfs_set_def vfs_frame_def unchanged_in_def)
qed

lemma process_sched:
  assumes p: "process_ok env as y" and f: "s_mem s = s_mem (y_sched y)" "loaded_cr3 s = loaded_cr3 (y_sched y)" "brk_ok (k_mem (y_k y)) as s"
  shows "qstep env as y (y_sched_set s y)"
proof -
  have "vm_of ((y_k y)\<lparr>k_vfs := (k_vfs (y_k y))\<lparr>v_sched := s\<rparr>\<rparr>) = vm_of (y_k y)" using f by (simp add: vm_of_def)
  then have "spaces_ok (k_spaces (y_k y)) (vm_of ((y_k y)\<lparr>k_vfs := (k_vfs (y_k y))\<lparr>v_sched := s\<rparr>\<rparr>))" using p unfolding process_ok_def by metis
  then show ?thesis using p f by (simp add: qstep_def process_ok_def y_sched_set_def y_vfs_set_def unchanged_in_def)
qed

lemma process_gfx:
  assumes p: "process_ok env as y" and g: "y' = y\<lparr>y_ev := q, y_gfx := g, y_fb := m, y_console := c\<rparr>" "gfx_ready g \<Longrightarrow> fb_ok g"
  shows "qstep env as y y'"
  using p g by (simp add: qstep_def process_ok_def unchanged_in_def)

lemma process_screen:
  assumes p: "process_ok env as y" and g: "gfx_screen (y_gfx y) = Some scr"
  shows "surface_ok scr" "fb_ok (y_gfx y)" "scr = backbuf (y_gfx y)"
    "paints (sf_w scr) (sf_h scr) (sf_px scr) px f \<Longrightarrow> qstep env as y (set_screen (scr\<lparr>sf_px := px\<rparr>) y)"
proof -
  show s: "scr = backbuf (y_gfx y)" using g by (simp add: gfx_screen_def split: if_splits)
  show ok: "fb_ok (y_gfx y)" using p g by (auto simp: process_ok_def gfx_screen_def split: if_splits)
  then show so: "surface_ok scr" using s by (simp add: fb_ok_def)
  show "qstep env as y (set_screen (scr\<lparr>sf_px := px\<rparr>) y)" if "paints (sf_w scr) (sf_h scr) (sf_px scr) px f"
  proof (rule process_gfx [OF p])
    show "set_screen (scr\<lparr>sf_px := px\<rparr>) y = y\<lparr>y_ev := y_ev y, y_gfx := (y_gfx y)\<lparr>backbuf := scr\<lparr>sf_px := px\<rparr>\<rparr>, y_fb := y_fb y, y_console := y_console y\<rparr>"
      by (simp add: set_screen_def)
    show "fb_ok ((y_gfx y)\<lparr>backbuf := scr\<lparr>sf_px := px\<rparr>\<rparr>)" using ok s paints_ok [OF so that] by (simp add: fb_ok_def)
  qed
qed

lemma field16_moderate: "moderate (field16 r n)" "0 \<le> field16 r n" "field16 r n < 2 ^ 16"
proof -
  show "0 \<le> field16 r n" "field16 r n < 2 ^ 16" by (simp_all add: field16_def)
  then show "moderate (field16 r n)" by (simp add: order.strict_trans2 [of _ 65536])
qed

lemma blit_fb_fine:
  assumes p: "process_ok env as y" and g: "fb_ok (y_gfx y)" and b: "moderate x" "moderate yy" "moderate w" "moderate h"
  shows "fine (\<lambda>(v, y'). qstep env as y y') (blit_fb x yy w h y)"
proof -
  obtain m' where m: "gfx_present_rect (y_gfx y) x yy w h (y_fb y) = Some m'" using gfx_present_rect_ok [OF g b] by blast
  have "qstep env as y (y\<lparr>y_fb := m'\<rparr>)"
    by (rule process_gfx [OF p, where q = "y_ev y" and g = "y_gfx y" and c = "y_console y"]) (use g in simp_all)
  then show ?thesis using m by (simp add: blit_fb_def mem_access_def)
qed

section \<open>The calls\<close>

abbreviation safe :: "sys_env \<Rightarrow> vmm_as \<Rightarrow> 's sys \<Rightarrow> (u64 \<times> 's sys) outcome \<Rightarrow> bool" where
  "safe env as y r \<equiv> fine (\<lambda>(v, y'). qstep env as y y') r"

lemma safe_same: "process_ok env as y \<Longrightarrow> safe env as y (Done (v, y))"
  by (simp add: qstep_refl)

lemma safe_after: "qstep env as y y1 \<Longrightarrow> safe env as y1 r \<Longrightarrow> safe env as y r"
  by (erule fine_weaken) (auto intro: qstep_trans)

text \<open>A call that stores its result through a pointer the check accepted.\<close>

lemma safe_to_user:
  assumes q: "qstep env as y y1" and u: "ubytes env as y (unat p) n" "length bs \<le> n"
  shows "safe env as y (and_then (to_user p bs y1) (\<lambda>y. Done (v, y)))"
proof (rule fine_bind)
  show "fine (qstep env as y1) (to_user p bs y1)"
    by (rule to_user_fine [OF qstep_ok [OF q] ubytes_sub [OF ubytes_qstep [OF q u(1)]]]) (use u(2) in simp_all)
  show "fine (\<lambda>(v, y'). qstep env as y y') (Done (v, y2))" if "qstep env as y1 y2" for y2 using qstep_trans [OF q that] by simp
qed

text \<open>A call that reads a path or a buffer first.\<close>

lemma safe_from_user:
  assumes "process_ok env as y" "user_ok env y p n" "\<And>bs. length bs = n \<Longrightarrow> safe env as y (f bs)"
  shows "safe env as y (and_then (from_user y p n) f)"
  using assms from_user_fine [OF assms(1) user_ok_bytes(1)] by (auto intro: fine_bind)

lemma safe_path_arg:
  assumes "process_ok env as y" "user_ok env y p n" "\<And>bs. safe env as y (f bs)"
  shows "safe env as y (and_then (path_arg y p n) f)"
proof (rule fine_bind [of "\<lambda>_. True"])
  show "fine (\<lambda>_. True) (path_arg y p n)" unfolding path_arg_def
    by (rule fine_bind [OF from_user_fine [OF assms(1) user_ok_bytes(1) [OF assms(1,2)]]]) simp
qed (rule assms(3))

text \<open>A driver call whose new state only differs inside the file systems.\<close>

lemma safe_drv:
  assumes "process_ok env as y" "\<And>a. r = Some a \<Longrightarrow> safe env as y (f a)"
  shows "safe env as y (and_then (drv_call r) f)"
  by (rule fine_bind [of "\<lambda>a. r = Some a"]) (auto intro: fine_drv assms)

lemma brk_ok_cong:
  assumes "cur_task s' = cur_task s"
    "\<And>r. t_as (get_task s' r) = t_as (get_task s r) \<and> t_heap_start (get_task s' r) = t_heap_start (get_task s r) \<and>
       t_heap_brk (get_task s' r) = t_heap_brk (get_task s r) \<and> t_heap_end (get_task s' r) = t_heap_end (get_task s r)"
  shows "brk_ok m as s' = brk_ok m as s"
  using assms by (simp add: brk_ok_def brk_task_def)

lemma brk_ok_upd:
  "(\<And>t. t_as (f t) = t_as t \<and> t_heap_start (f t) = t_heap_start t \<and> t_heap_brk (f t) = t_heap_brk t \<and> t_heap_end (f t) = t_heap_end t) \<Longrightarrow>
    brk_ok m as (upd_task r f s) = brk_ok m as s"
proof (rule brk_ok_cong)
  assume f: "\<And>t. t_as (f t) = t_as t \<and> t_heap_start (f t) = t_heap_start t \<and> t_heap_brk (f t) = t_heap_brk t \<and> t_heap_end (f t) = t_heap_end t"
  have "xs[i := f (xs ! i)] ! j = (if i = j \<and> j < length xs then f (xs ! j) else xs ! j)" for xs i j
    by (cases "i < length xs") (auto simp: nth_list_update list_update_beyond)
  then show "t_as (get_task (upd_task r f s) x) = t_as (get_task s x) \<and> t_heap_start (get_task (upd_task r f s) x) = t_heap_start (get_task s x) \<and>
    t_heap_brk (get_task (upd_task r f s) x) = t_heap_brk (get_task s x) \<and> t_heap_end (get_task (upd_task r f s) x) = t_heap_end (get_task s x)" for x
    using f by (auto simp: upd_task_def get_task_def split: tref.splits)
qed (simp add: upd_task_def split: tref.splits)

lemma brk_ok_want [simp]: "brk_ok m as (s\<lparr>want_schedule := b\<rparr>) = brk_ok m as s"
  by (rule brk_ok_cong) (auto simp: get_task_def split: tref.splits)

lemma upd_task_frame [simp]: "s_mem (upd_task r f s) = s_mem s" "loaded_cr3 (upd_task r f s) = loaded_cr3 s"
  by (simp_all add: upd_task_def split: tref.splits)

lemma kill_safe: "process_ok env as y \<Longrightarrow> qstep env as y (y_sched_set (sched_kill_current (y_sched y)) y)"
  by (rule process_sched) (auto simp: sched_kill_current_def process_ok_def brk_ok_upd split: option.splits)

lemma want_safe: "process_ok env as y \<Longrightarrow> qstep env as y (y_sched_set (sched_want_reschedule (y_sched y)) y)"
  by (rule process_sched) (auto simp: sched_want_reschedule_def process_ok_def brk_ok_upd Let_def)

lemma console_safe: "process_ok env as y \<Longrightarrow> qstep env as y (y\<lparr>y_console := c\<rparr>)"
  by (simp add: qstep_def process_ok_def unchanged_in_def)

lemma events_safe: "process_ok env as y \<Longrightarrow> qstep env as y (y\<lparr>y_ev := q\<rparr>)"
  by (simp add: qstep_def process_ok_def unchanged_in_def)

lemma result_sizes:
  "length (le_bytes n v) = n" "length (event_bytes ev) = 12" "length (stat_bytes env st) = 16" "length (vfs_dirent_bytes env de) = 144"
proof -
  show l: "length (le_bytes n v) = n" for n v by (simp add: le_bytes_def)
  show "length (event_bytes ev) = 12" "length (stat_bytes env st) = 16" "length (vfs_dirent_bytes env de) = 144"
    by (simp_all add: event_bytes_def stat_bytes_def vfs_dirent_bytes_def l MAX_FILENAME_def)
qed

lemma sys_event_poll_safe: "process_ok env as y \<Longrightarrow> safe env as y (sys_event_poll env r y)"
  unfolding sys_event_poll_def
  by (auto split: option.splits intro: qstep_refl intro!: safe_to_user [OF events_safe user_ok_bytes(1)] simp: result_sizes)

lemma sys_write_safe: "process_ok env as y \<Longrightarrow> safe env as y (sys_write env r y)"
  unfolding sys_write_def Let_def by (auto intro: qstep_refl intro!: safe_from_user console_safe)

lemma unat_off: "unat p + n < 2 ^ 64 \<Longrightarrow> unat (p + of_nat n :: u64) = unat p + n"
proof -
  assume a: "unat p + n < 2 ^ 64"
  then have "unat (of_nat n :: u64) = n" by (simp add: unsigned_of_nat take_bit_nat_eq_self)
  then show ?thesis using a unat_add_lem [of p "of_nat n"] by simp
qed

lemma font_chars_safe:
  "process_ok env as y \<Longrightarrow> ubytes env as y (unat dst + ch * 16) (n * 16) \<Longrightarrow> unat dst + (ch + n) * 16 < 2 ^ 64 \<Longrightarrow>
    fine (qstep env as y) (font_chars env dst ch n y)"
proof (induction n arbitrary: ch y)
  case (Suc n)
  have a: "unat (dst + of_nat (ch * 16)) = unat dst + ch * 16" using Suc.prems(3) by (intro unat_off) simp
  show ?case unfolding font_chars.simps
  proof (rule fine_bind)
    show "fine (qstep env as y) (to_user (dst + of_nat (ch * 16)) (map (byte_at (font8x16 env (of_nat ch))) [0..<16]) y)"
      by (rule to_user_fine [OF Suc.prems(1)], unfold a, rule ubytes_sub [OF Suc.prems(2)]) simp_all
    fix y1 assume q: "qstep env as y y1"
    have "fine (qstep env as y1) (font_chars env dst (ch + 1) n y1)"
      by (rule Suc.IH [OF qstep_ok [OF q] ubytes_sub [OF ubytes_qstep [OF q Suc.prems(2)]]]) (use Suc.prems(3) in simp_all)
    then show "fine (qstep env as y) (font_chars env dst (ch + 1) n y1)" by (rule fine_weaken) (rule qstep_trans [OF q])
  qed
qed (simp add: qstep_refl)

lemma sys_get_font_safe:
  assumes p: "process_ok env as y"
  shows "safe env as y (sys_get_font env r y)"
proof (cases "user_ok env y (r_rdi r) (256 * 16)")
  case True
  have "fine (qstep env as y) (font_chars env (r_rdi r) 0 256 y)"
    using user_ok_bytes [OF p True] by (intro font_chars_safe [OF p]) simp_all
  then show ?thesis using True by (auto simp: sys_get_font_def intro: fine_bind)
qed (simp add: sys_get_font_def qstep_refl [OF p])

section \<open>Files\<close>

lemma sys_open_safe:
  assumes p: "process_ok env as y"
  shows "safe env as y (sys_open D env r y)"
proof (cases "user_ok env y (r_rdi r) (cap (r_rsi r) (MAX_PATH - 1))")
  case True
  show ?thesis unfolding sys_open_def Let_def using True
    by (auto intro!: safe_path_arg [OF p] safe_drv [OF p] process_vfs [OF p] dest: vfs_open_frame)
qed (simp add: sys_open_def qstep_refl [OF p])

lemma sys_unlink_safe:
  assumes p: "process_ok env as y"
  shows "safe env as y (sys_unlink D env r y)"
proof (cases "user_ok env y (r_rdi r) (cap (r_rsi r) (MAX_PATH - 1))")
  case True
  show ?thesis unfolding sys_unlink_def Let_def using True
    by (auto intro!: safe_path_arg [OF p] safe_drv [OF p] process_vfs [OF p] dest: vfs_unlink_frame)
qed (simp add: sys_unlink_def qstep_refl [OF p])

lemma sys_rename_safe:
  assumes p: "process_ok env as y"
  shows "safe env as y (sys_rename D env r y)"
  unfolding sys_rename_def Let_def
  by (auto intro: qstep_refl [OF p] intro!: safe_path_arg [OF p] safe_drv [OF p] process_vfs [OF p] dest: vfs_rename_frame)

lemma sys_close_safe: "process_ok env as y \<Longrightarrow> safe env as y (sys_close env r y)"
  unfolding sys_close_def using vfs_close_frame [of "k_vfs (y_k y)" "int_arg (r_rdi r)"] by (auto split: prod.split intro!: process_vfs)

lemma sys_seek_safe: "process_ok env as y \<Longrightarrow> safe env as y (sys_seek env r y)"
  unfolding sys_seek_def by (auto split: prod.split intro!: process_vfs dest: vfs_seek_frame)

lemma sys_fwrite_safe:
  assumes p: "process_ok env as y"
  shows "safe env as y (sys_fwrite D env r y)"
  unfolding sys_fwrite_def
  by (auto intro: qstep_refl [OF p] intro!: safe_from_user [OF p] safe_drv [OF p] process_vfs [OF p] dest: vfs_write_frame)

lemma sys_fstat_safe:
  assumes p: "process_ok env as y"
  shows "safe env as y (sys_fstat D env r y)"
  unfolding sys_fstat_def
  by (auto split: prod.split intro: qstep_refl [OF p] intro!: safe_to_user [OF qstep_refl [OF p] user_ok_bytes(1) [OF p]] simp: result_sizes)

lemma sys_stat_safe:
  assumes p: "process_ok env as y"
  shows "safe env as y (sys_stat D env r y)"
proof (cases "user_ok env y (r_rdi r) (cap (r_rsi r) (MAX_PATH - 1)) \<and> user_ok env y (r_rdx r) 16")
  case True
  have "safe env as y (let y = y_vfs_set v y in
      if rc \<noteq> 0 then Done (minus_one, y) else and_then (to_user (r_rdx r) (stat_bytes env (the st)) y) (\<lambda>y. Done (0, y)))"
    if "vfs_stat D local (k_vfs (y_k y)) = Some (rc, st, v)" for local rc st v
  proof -
    note q = process_vfs [OF p vfs_stat_frame [OF that]]
    show ?thesis unfolding Let_def using q True by (auto simp: result_sizes intro!: safe_to_user [OF q user_ok_bytes(1) [OF p]])
  qed
  then show ?thesis using True unfolding sys_stat_def Let_def by (auto intro!: safe_path_arg [OF p] safe_drv [OF p])
qed (auto simp: sys_stat_def Let_def qstep_refl [OF p])

lemma sys_readdir_safe:
  assumes p: "process_ok env as y"
  shows "safe env as y (sys_readdir D env r y)"
proof (cases "user_ok env y (r_rdx r) 144")
  case True
  have "safe env as y (let y = y_vfs_set v y in case de of None \<Rightarrow> Done (minus_one, y)
      | Some de \<Rightarrow> and_then (to_user (r_rdx r) (vfs_dirent_bytes env de) y) (\<lambda>y. Done (0, y)))"
    if "vfs_readdir D fd i (k_vfs (y_k y)) = Some (de, v)" for fd i de v
  proof -
    note q = process_vfs [OF p vfs_readdir_frame [OF that]]
    show ?thesis unfolding Let_def using q True by (auto split: option.split simp: result_sizes intro!: safe_to_user [OF q user_ok_bytes(1) [OF p]])
  qed
  then show ?thesis using True unfolding sys_readdir_def Let_def by (auto intro!: safe_drv [OF p])
qed (simp add: sys_readdir_def qstep_refl [OF p])

text \<open>The driver fills no more of the buffer than the check covered.\<close>

lemma sys_read_safe:
  assumes p: "process_ok env as y" and b: "\<And>fd n v r out v'. vfs_read D fd n v = Some (r, out, v') \<Longrightarrow> length out \<le> n"
  shows "safe env as y (sys_read D env r y)"
proof (cases "user_ok env y (r_rsi r) (unat (r_rdx r))")
  case True
  have "safe env as y (and_then (to_user (r_rsi r) out (y_vfs_set v y)) (\<lambda>y. Done (of_int n, y)))"
    if "vfs_read D (int_arg (r_rdi r)) (unat (r_rdx r)) (k_vfs (y_k y)) = Some (n, out, v)" for n out v
    by (rule safe_to_user [OF process_vfs [OF p vfs_read_frame [OF that]] user_ok_bytes(1) [OF p True] b [OF that]])
  then show ?thesis using True unfolding sys_read_def by (auto intro!: safe_drv [OF p])
qed (simp add: sys_read_def qstep_refl [OF p])

section \<open>The screen\<close>

lemma no_screen: "process_ok env as y \<Longrightarrow> gfx_screen (y_gfx y) = None \<Longrightarrow>
    safe env as y (sys_gfx_present env r y) \<and> safe env as y (sys_gfx_present_rect env r y) \<and> safe env as y (sys_gfx_fill_rect env r y) \<and>
    safe env as y (sys_gfx_draw_text env r y) \<and> safe env as y (sys_gfx_flush_rect env r y)"
  by (simp add: sys_gfx_present_def sys_gfx_present_rect_def sys_gfx_fill_rect_def sys_gfx_draw_text_def sys_gfx_flush_rect_def qstep_refl)

lemma sys_gfx_fill_rect_safe:
  assumes p: "process_ok env as y"
  shows "safe env as y (sys_gfx_fill_rect env r y)"
proof (cases "gfx_screen (y_gfx y)")
  case (Some scr)
  note s = process_screen [OF p Some]
  obtain px where px: "gfx_fill_rect scr (field16 (r_rdi r) 48) (field16 (r_rdi r) 32) (field16 (r_rdi r) 16) (field16 (r_rdi r) 0)
      (ucast (r_rsi r)) = Some (scr\<lparr>sf_px := px\<rparr>)"
    "qstep env as y (set_screen (scr\<lparr>sf_px := px\<rparr>) y)"
    using gfx_fill_rect_paints [OF s(1) field16_moderate(1) field16_moderate(1) field16_moderate(1) field16_moderate(1)] s(4) by blast
  then show ?thesis using Some by (simp add: sys_gfx_fill_rect_def mem_access_def)
qed (use no_screen [OF p] in simp)

lemma draw_text_stops: "gfx_draw_text font s x y bs fg bg = gfx_draw_text font s x y (takeWhile (\<lambda>c. c \<noteq> 0) bs) fg bg"
proof (induction bs arbitrary: s x)
  case (Cons c bs)
  show ?case by (cases "gfx_draw_char font s x y c fg bg") (use Cons.IH in auto)
qed simp

lemma sys_gfx_draw_text_safe:
  assumes p: "process_ok env as y"
  shows "safe env as y (sys_gfx_draw_text env r y)"
proof (cases "gfx_screen (y_gfx y)")
  case (Some scr)
  note s = process_screen [OF p Some]
  let ?n = "cap (r_rdx r) 256" and ?x = "field16 (r_rdi r) 16" and ?y = "field16 (r_rdi r) 0"
  have "safe env as y (and_then (mem_access (gfx_draw_text (font8x16 env) scr ?x ?y (bs @ [0])
      (ucast (drop_bit 32 (r_r10 r))) (ucast (r_r10 r)))) (\<lambda>scr. Done (0, set_screen scr y)))" if n: "length bs = ?n" for bs
  proof -
    let ?t = "takeWhile (\<lambda>c. c \<noteq> 0) (bs @ [0])"
    have "length ?t \<le> length (bs @ [0])" by (rule length_takeWhile_le)
    then have "length ?t \<le> 257" using n by (auto simp: cap_def split: if_splits)
    then have l: "- (2 ^ 31) \<le> ?x" "?x + 8 * int (length ?t) < 2 ^ 31" "- (2 ^ 31) \<le> ?y" "?y + 16 < 2 ^ 31" "0 \<notin> set ?t"
      using field16_moderate(2,3) [of "r_rdi r" 16] field16_moderate(2,3) [of "r_rdi r" 0] by (auto dest: set_takeWhileD)
    obtain px where px: "gfx_draw_text (font8x16 env) scr ?x ?y (bs @ [0]) (ucast (drop_bit 32 (r_r10 r))) (ucast (r_r10 r)) = Some (scr\<lparr>sf_px := px\<rparr>)"
      "qstep env as y (set_screen (scr\<lparr>sf_px := px\<rparr>) y)"
      using gfx_draw_text_paints [OF s(1) l] s(4) unfolding draw_text_stops [of _ _ _ _ "bs @ [0]"] by blast
    then show ?thesis by (simp add: mem_access_def)
  qed
  then show ?thesis using Some qstep_refl [OF p] by (auto simp: sys_gfx_draw_text_def Let_def intro!: safe_from_user [OF p])
qed (use no_screen [OF p] in simp)

lemma sys_gfx_flush_rect_safe:
  assumes p: "process_ok env as y"
  shows "safe env as y (sys_gfx_flush_rect env r y)"
proof (cases "gfx_screen (y_gfx y)")
  case (Some scr)
  then show ?thesis using blit_fb_fine [OF p process_screen(2) [OF p Some] field16_moderate(1) field16_moderate(1) field16_moderate(1) field16_moderate(1)]
    by (simp add: sys_gfx_flush_rect_def)
qed (use no_screen [OF p] in simp)

lemma bytes_px_length: "length (bytes_px bs) = length bs div 4"
  by (induction bs rule: bytes_px.induct) auto

lemma sized_paints: "sized w h px' \<Longrightarrow> paints w h px px' (\<lambda>X Y. Some (at_px w px' X Y))"
  by (simp add: paints_def)

lemma surface_len:
  assumes "surface_ok scr"
  shows "length (sf_px scr) = nat (sf_w scr) * nat (sf_h scr)"
proof -
  have "int (length (sf_px scr)) = sf_h scr * sf_w scr" "0 \<le> sf_w scr" "0 \<le> sf_h scr" using assms by (simp_all add: surface_ok_def sized_def)
  then show ?thesis by (metis mult.commute nat_int nat_mult_distrib)
qed

lemma sys_gfx_present_safe:
  assumes p: "process_ok env as y"
  shows "safe env as y (sys_gfx_present env r y)"
proof (cases "gfx_screen (y_gfx y)")
  case (Some scr)
  note s = process_screen [OF p Some]
  have sz: "sized (sf_w scr) (sf_h scr) (sf_px scr)" "moderate (sf_w scr)" "moderate (sf_h scr)" using s(1) by (auto simp: surface_ok_def sized_def)
  have "safe env as y (and_then (mem_access (copy_px 0 (bytes_px bs) (sf_px scr))) (\<lambda>px.
      let y = set_screen (scr\<lparr>sf_px := px\<rparr>) y in
      and_then (mem_access (gfx_present (y_gfx y) (y_fb y))) (\<lambda>m. Done (0, y\<lparr>y_fb := m\<rparr>))))"
    if l: "length bs = nat (sf_w scr) * nat (sf_h scr) * 4" for bs
  proof -
    obtain px where px: "copy_px 0 (bytes_px bs) (sf_px scr) = Some px" "length px = length (sf_px scr)"
      using copy_px_spec [of 0 "bytes_px bs" "sf_px scr"] surface_len [OF s(1)] l by (auto simp: bytes_px_length)
    let ?y = "set_screen (scr\<lparr>sf_px := px\<rparr>) y"
    have "sized (sf_w scr) (sf_h scr) px" using sz(1) px(2) by (simp add: sized_def)
    note q = s(4) [OF sized_paints [OF this]]
    have g: "fb_ok (y_gfx ?y)" "sf_w (backbuf (y_gfx ?y)) = sf_w scr" "sf_h (backbuf (y_gfx ?y)) = sf_h scr"
      using q Some by (auto simp: qstep_def process_ok_def set_screen_def gfx_screen_def split: if_splits)
    have "safe env as ?y (blit_fb 0 0 (sf_w scr) (sf_h scr) ?y)" using sz by (intro blit_fb_fine [OF qstep_ok [OF q] g(1)]) auto
    then have "safe env as y (blit_fb 0 0 (sf_w scr) (sf_h scr) ?y)" by (rule safe_after [OF q])
    then show ?thesis using px(1) g by (simp add: Let_def mem_access_def gfx_present_def blit_fb_def)
  qed
  then show ?thesis using Some qstep_refl [OF p] by (auto simp: sys_gfx_present_def Let_def intro!: safe_from_user [OF p])
qed (use no_screen [OF p] in simp)

lemma rect_rows_fine:
  assumes p: "process_ok env as y" and u: "ubytes env as y (unat q) (sw * sh * 4)" "unat q + sw * sh * 4 < 2 ^ 64" and w: "x + w \<le> sw"
  shows "length px = sw * sh \<Longrightarrow> ry + n \<le> sh \<Longrightarrow> fine (\<lambda>px'. length px' = sw * sh) (rect_rows y q sw x ry w n px)"
proof (induction n arbitrary: ry px)
  case (Suc n)
  let ?off = "(ry * sw + x) * 4"
  have "(ry + 1) * sw \<le> sh * sw" using Suc.prems(2) by (intro mult_right_mono) simp_all
  then have o: "ry * sw + x + w \<le> sw * sh" using w by (simp add: algebra_simps)
  then have a: "unat (q + of_nat ?off) = unat q + ?off" using u(2) by (intro unat_off) simp
  have sub: "ubytes env as y (unat (q + of_nat ?off)) (w * 4)" unfolding a using o by (intro ubytes_sub [OF u(1)]) simp_all
  show ?case unfolding rect_rows.simps Let_def
  proof (rule fine_bind [OF from_user_fine [OF p sub]])
    fix bs :: "u8 list" assume l: "length bs = w * 4"
    have "int (?off div 4) + int (length (bytes_px bs)) \<le> int (length px)"
      unfolding Suc.prems(1) bytes_px_length l of_nat_add [symmetric] of_nat_le_iff using o by simp
    then obtain px' where c: "copy_px (int (?off div 4)) (bytes_px bs) px = Some px'" "length px' = sw * sh"
      using copy_px_spec [of "int (?off div 4)" "bytes_px bs" px] Suc.prems(1) by auto
    show "fine (\<lambda>px'. length px' = sw * sh) (and_then (mem_access (copy_px (int (?off div 4)) (bytes_px bs) px)) (rect_rows y q sw x (ry + 1) w n))"
      unfolding c(1) using Suc.IH [OF c(2), of "ry + 1"] Suc.prems(2) by (simp add: mem_access_def)
  qed
qed simp

lemma sys_gfx_present_rect_safe:
  assumes p: "process_ok env as y"
  shows "safe env as y (sys_gfx_present_rect env r y)"
proof (cases "gfx_screen (y_gfx y)")
  case (Some scr)
  note s = process_screen [OF p Some]
  have sz: "sized (sf_w scr) (sf_h scr) (sf_px scr)" "0 \<le> sf_w scr" "sf_w scr < 2 ^ 30" "0 \<le> sf_h scr" "sf_h scr < 2 ^ 30"
    using s(1) by (auto simp: surface_ok_def sized_def)
  let ?n = "nat (sf_w scr) * nat (sf_h scr) * 4"
  have inner: "safe env as y (and_then (rect_rows y (r_rdi r) (nat (sf_w scr)) (nat X) (nat Y) (nat W) (nat H) (sf_px scr)) (\<lambda>px.
      blit_fb X Y W H (set_screen (scr\<lparr>sf_px := px\<rparr>) y)))"
    if b: "0 \<le> X" "0 < W" "X + W \<le> sf_w scr" "0 \<le> Y" "0 < H" "Y + H \<le> sf_h scr" and u: "user_ok env y (r_rdi r) ?n" for X Y W H
  proof (rule fine_bind)
    have "0 < ?n" using b by simp
    then have "unat (r_rdi r) + ?n \<le> 2 ^ 31" using user_ok_bytes(2) [OF p u] by blast
    then have u2: "unat (r_rdi r) + ?n < 2 ^ 64" by (rule le_less_trans) simp
    have "nat X + nat W \<le> nat (sf_w scr)" "nat Y + nat H \<le> nat (sf_h scr)" using b by linarith+
    then show "fine (\<lambda>px'. length px' = nat (sf_w scr) * nat (sf_h scr))
        (rect_rows y (r_rdi r) (nat (sf_w scr)) (nat X) (nat Y) (nat W) (nat H) (sf_px scr))"
      using rect_rows_fine [OF p user_ok_bytes(1) [OF p u] u2] surface_len [OF s(1)] by blast
    fix px :: "u32 list" assume "length px = nat (sf_w scr) * nat (sf_h scr)"
    then have "sized (sf_w scr) (sf_h scr) px" using sz(1) surface_len [OF s(1)] by (simp add: sized_def)
    note q = s(4) [OF sized_paints [OF this]]
    have "fb_ok (y_gfx (set_screen (scr\<lparr>sf_px := px\<rparr>) y))"
      using q Some by (auto simp: qstep_def process_ok_def set_screen_def gfx_screen_def split: if_splits)
    then show "safe env as y (blit_fb X Y W H (set_screen (scr\<lparr>sf_px := px\<rparr>) y))"
      using b sz by (intro safe_after [OF q] blit_fb_fine [OF qstep_ok [OF q]]) auto
  qed
  note f = field16_moderate(2) [of "r_rsi r"]
  have nn: "\<not> field16 (r_rsi r) 48 < 0" "\<not> field16 (r_rsi r) 32 < 0" using f by (simp_all add: not_less)
  show ?thesis unfolding sys_gfx_present_rect_def Some option.case Let_def if_not_P [OF nn(1)] if_not_P [OF nn(2)] prod.case
    using f [of 48] f [of 32] by (auto intro!: inner simp: qstep_refl [OF p])
qed (use no_screen [OF p] in simp)

section \<open>Growing the heap\<close>

text \<open>What every call guarantees: the invariant again, for a space at the same place with the same top table and no user page
  lost; all other spaces are the same and no word of their pages has changed.\<close>

definition sstep :: "sys_env \<Rightarrow> vmm_as \<Rightarrow> 's sys \<Rightarrow> 's sys \<Rightarrow> bool" where
  "sstep env as y y' \<longleftrightarrow> (\<exists>as'. process_ok env as' y' \<and> as_ptr as' = as_ptr as \<and> pml4_phys as' = pml4_phys as \<and>
     k_spaces (y_k y') = put_space as' (k_spaces (y_k y)) \<and> unchanged_in (y_others as y) (k_mem (y_k y)) (k_mem (y_k y')) \<and>
     (\<forall>va. user_mapped (k_mem (y_k y)) as va \<longrightarrow> user_mapped (k_mem (y_k y')) as' va))"

lemma qstep_sstep:
  assumes p: "process_ok env as y" and q: "qstep env as y y'"
  shows "sstep env as y y'"
proof -
  have d: "spaces_ok (k_spaces (y_k y)) (vm_of (y_k y))" "as \<in> set (k_spaces (y_k y))" using p by (simp_all add: process_ok_def)
  have "k_spaces (y_k y') = put_space as (k_spaces (y_k y))" using others_perm(4) [OF spaces_distinct [OF d(1)] d(2)] q by (simp add: qstep_def)
  then show ?thesis unfolding sstep_def using q by (intro exI [of _ as]) (simp add: qstep_def user_mapped_def)
qed

lemma option_triple_cases: obtains (1) "r = None" | (2) a b c where "r = Some (a, b, c)"
  by (cases r) auto

text \<open>The list of spaces is only bookkeeping for the calls of \<open>cpu/vmm.c\<close>; they change the heap and the memory.\<close>

lemma k_page_spaces:
  "k_alloc_page as (k\<lparr>k_spaces := X\<rparr>) = map_option (\<lambda>(p, as, k). (p, as, k\<lparr>k_spaces := X\<rparr>)) (k_alloc_page as k)"
  "k_map_page as va pa (k\<lparr>k_spaces := X\<rparr>) = map_option (\<lambda>(p, as, k). (p, as, k\<lparr>k_spaces := X\<rparr>)) (k_map_page as va pa k)"
  by (cases k, auto simp: k_alloc_page_def k_map_page_def vm_of_def set_vm_def option.map_comp o_def split_def)+

lemma sbrk_pages_spaces:
  "sbrk_pages va e as (k\<lparr>k_spaces := X\<rparr>) = map_option (\<lambda>(ok, as, k). (ok, as, k\<lparr>k_spaces := X\<rparr>)) (sbrk_pages va e as k)"
proof (induction va e as k rule: sbrk_pages.induct)
  case (1 va e as k)
  note un = sbrk_pages.simps [of va e as] k_page_spaces
  show ?case
  proof (cases "k_alloc_page as k" rule: option_triple_cases)
    case a: (2 pa as1 k1)
    show ?thesis
    proof (cases "k_map_page as1 va pa k1" rule: option_triple_cases)
      case m: (2 r as2 k2)
      show ?thesis using 1 [OF _ a refl refl _ m refl refl] m a by (simp add: un)
    qed (use a in \<open>simp add: un\<close>)
  qed (simp add: un)
qed

lemma sbrk_pages_grows:
  "k_open as k \<Longrightarrow> \<exists>ok as' k'. sbrk_pages va e as k = Some (ok, as', k') \<and> kgrows as k as' k' \<and> k' = set_vm (vm_of k') k \<and>
     (ok \<longrightarrow> seg_mapped (k_mem k') as' va e)"
proof (induction "e - va" arbitrary: va as k rule: less_induct)
  case less
  have id: "set_vm (vm_of k) k = k" by (simp add: set_vm_def vm_of_def)
  show ?case
  proof (cases "va < e")
    case True
    obtain pa as1 k1 where a: "k_alloc_page as k = Some (pa, as1, k1)" "kgrows as k as1 k1" using k_alloc_grows [OF less.prems] by blast
    obtain r as2 k2 where m: "k_map_page as1 va pa k1 = Some (r, as2, k2)" using k_map_grows [OF kgrows_open [OF a(2)]] by blast
    note st = page_step [OF less.prems a(1) m]
    have v1: "k1 = set_vm (vm_of k1) k" using a(1) by (auto simp: k_alloc_page_def)
    have v2: "k2 = set_vm (vm_of k2) k1" using m by (auto simp: k_map_page_def)
    have v: "k2 = set_vm (vm_of k2) k" by (subst v2, subst v1) (simp add: set_vm_def vm_of_def)
    show ?thesis
    proof (cases "pa = 0 \<or> r \<noteq> 0")
      case True
      then show ?thesis using \<open>va < e\<close> a m st(2) v1 v by (cases "pa = 0") (auto simp: sbrk_pages.simps [of va e as])
    next
      case False
      then have g2: "kgrows as k as2 k2" and um: "user_mapped (k_mem k2) as2 va" using st(2,4) by auto
      obtain ok as3 k3 where t: "sbrk_pages (va + 0x1000) e as2 k2 = Some (ok, as3, k3)" "kgrows as2 k2 as3 k3" "k3 = set_vm (vm_of k3) k2"
        "ok \<longrightarrow> seg_mapped (k_mem k3) as3 (va + 0x1000) e" using less.hyps [OF _ kgrows_open [OF g2], of "va + 0x1000"] True by fastforce
      have "k3 = set_vm (vm_of k3) k" by (subst t(3), subst v) (simp add: set_vm_def vm_of_def)
      moreover have "ok \<longrightarrow> seg_mapped (k_mem k3) as3 va e"
        using t(4) seg_mapped_step [of "k_mem k3" as3 va e] kgrows_mapped [OF t(2) um] by (simp add: ELF_PAGE_SIZE_def)
      moreover have "sbrk_pages va e as k = Some (ok, as3, k3)" using True False a(1) m t(1) by (simp add: sbrk_pages.simps [of va e as])
      ultimately show ?thesis using kgrows_trans [OF g2 t(2)] by blast
    qed
  next
    case False
    then have "sbrk_pages va e as k = Some (True, as, k)" by (simp add: sbrk_pages.simps)
    then show ?thesis using False kgrows_refl [OF less.prems] id by (auto simp: seg_mapped_def)
  qed
qed

text \<open>A step of the memory manager on the running space, seen from the whole kernel.\<close>

lemma space_replaced:
  fixes y :: "'s sys"
  assumes p: "process_ok env as y" and g: "kgrows as ((y_k y)\<lparr>k_spaces := y_others as y\<rparr>) as' k0"
  defines "y' \<equiv> y\<lparr>y_k := (set_vm (vm_of k0) (y_k y))\<lparr>k_spaces := put_space as' (k_spaces (y_k y))\<rparr>\<rparr>"
  shows "process_ok env as' y'" "sstep env as y y'" "k_mem (y_k y') = k_mem k0" "as_ptr as' = as_ptr as"
proof -
  let ?k = "y_k y" and ?o = "y_others as y"
  have d: "spaces_ok (k_spaces ?k) (vm_of ?k)" "as \<in> set (k_spaces ?k)" using p by (simp_all add: process_ok_def)
  have gr: "grows as ?o (vm_of ?k) as' (vm_of k0)" using g by (simp add: kgrows_def vm_of_def)
  have f: "as_ptr as' = as_ptr as" "pml4_phys as' = pml4_phys as" "kheap_area (k_heap k0) = kheap_area (k_heap ?k)"
    "unchanged_in ?o (k_mem ?k) (k_mem k0)" "\<And>va. user_mapped (k_mem ?k) as va \<Longrightarrow> user_mapped (k_mem k0) as' va"
    "confined (k_mem ?k) as \<Longrightarrow> confined (k_mem k0) as'" using g gr by (simp_all add: kgrows_def grows_def)
  note o = others_perm [OF spaces_distinct [OF d(1)] d(2)]
  have so: "spaces_ok (as # ?o) (vm_of ?k)" using d(1) spaces_ok_perm [OF o(1)] by simp
  have s: "spaces_ok (put_space as' (k_spaces ?k)) (vm_of k0)" using growsD [OF gr] spaces_ok_perm [OF o(2) [OF f(1)]] by simp
  have st: "set (put_space as' (k_spaces ?k)) = insert as' (set ?o)" using mset_eq_setD [OF o(2) [OF f(1)]] by simp
  have "confined (k_mem k0) c" if "c \<in> set ?o" for c
    using unchanged_confined [of ?o "vm_of ?k" "k_mem k0" c] so f(4) that p by (simp add: spaces_ok_Cons pages_ok_def process_ok_def others_def)
  then have cf: "\<forall>b \<in> set (put_space as' (k_spaces ?k)). confined (k_mem k0) b" using f(6) d(2) p unfolding st by (simp add: process_ok_def)
  have "brk_ok (k_mem k0) as' (y_sched y)"
    using p f(1,5) by (simp add: process_ok_def brk_ok_def brk_task_def seg_mapped_def)
  moreover have "brk_ok m a ((y_sched y)\<lparr>s_mem := h\<rparr>) = brk_ok m a (y_sched y)" for m a h by (rule brk_ok_cong) (auto simp: get_task_def split: tref.split)
  moreover have v: "vm_of (y_k y') = vm_of k0" by (simp add: y'_def set_vm_def vm_of_def)
  ultimately show p': "process_ok env as' y'" using p s cf f(2,3) st unfolding process_ok_def v
    by (simp add: y'_def set_vm_def)
  show "as_ptr as' = as_ptr as" by (rule f(1))
  show "k_mem (y_k y') = k_mem k0" by (simp add: y'_def set_vm_def)
  then show "sstep env as y y'" using p' f unfolding sstep_def by (intro exI [of _ as']) (simp add: y'_def)
qed

lemma find_space_in: "distinct (map as_ptr ass) \<Longrightarrow> as \<in> set ass \<Longrightarrow> find_space (as_ptr as) ass = Some as"
  by (induction ass) (auto simp: find_space_def image_iff)

lemma find_space_own: "process_ok env as y \<Longrightarrow> find_space (as_ptr as) (k_spaces (y_k y)) = Some as"
  using spaces_distinct by (intro find_space_in) (auto simp: process_ok_def)

text \<open>The pages that \<open>sbrk\<close> adds are those behind the last one in use.\<close>

lemma round_page_up: "n < 2 ^ 63 \<Longrightarrow> n \<le> round_page n \<and> round_page n < n + 4096 \<and> round_page n mod 4096 = 0"
proof -
  assume n: "n < 2 ^ 63"
  then have "round_page n = (n + 0xFFF) div 0x1000 * 0x1000" by (simp add: round_page_def add64_def)
  moreover have "(n + 0xFFF) div 0x1000 * 0x1000 + (n + 0xFFF) mod 0x1000 = n + 0xFFF" by (rule div_mult_mod_eq)
  moreover have "(n + 0xFFF) mod 0x1000 < 0x1000" by simp
  ultimately have "n \<le> round_page n" "round_page n < n + 4096" "round_page n mod 4096 = 0" by (linarith, linarith, simp)
  then show ?thesis by simp
qed

lemma seg_mapped_extend:
  assumes "seg_mapped m as s old" "seg_mapped m as (s + round_page (old - s)) (s + round_page (new - s))" "s \<le> old" "old \<le> new" "new < 2 ^ 63"
  shows "seg_mapped m as s new"
  unfolding seg_mapped_def
proof (intro allI impI)
  fix j assume j: "s + j * ELF_PAGE_SIZE < new"
  show "user_mapped m as (s + j * ELF_PAGE_SIZE)"
  proof (cases "s + j * ELF_PAGE_SIZE < old")
    case True
    then show ?thesis using assms(1) by (simp add: seg_mapped_def)
  next
    case False
    have ro: "round_page (old - s) < old - s + 4096" "round_page (old - s) mod 4096 = 0" and rn: "new - s \<le> round_page (new - s)"
      using round_page_up [of "old - s"] round_page_up [of "new - s"] assms(3-5) by auto
    obtain q where q: "round_page (old - s) = q * 4096" using ro(2) by (metis div_mult_mod_eq add.right_neutral)
    have "q * 4096 < j * 4096 + 4096" using False ro(1) q assms(3) by (simp add: ELF_PAGE_SIZE_def)
    then have "q \<le> j" by simp
    then have "s + j * ELF_PAGE_SIZE = s + round_page (old - s) + (j - q) * ELF_PAGE_SIZE" using q by (simp add: ELF_PAGE_SIZE_def diff_mult_distrib)
    moreover have "s + j * ELF_PAGE_SIZE < s + round_page (new - s)" using j rn by linarith
    ultimately show ?thesis using assms(2) unfolding seg_mapped_def by metis
  qed
qed

lemma get_upd_task:
  "get_task (upd_task c f s) c = f (get_task s c) \<or> get_task (upd_task c f s) c = get_task s c"
  "(\<And>i. c = Slot i \<Longrightarrow> i < length (task_pool s)) \<Longrightarrow> get_task (upd_task c f s) c = f (get_task s c)"
proof -
  have "xs[i := z] ! i = z \<or> xs[i := z] ! i = xs ! i" for xs :: "task list" and i z by (cases "i < length xs") (simp_all add: list_update_beyond not_less)
  then show "get_task (upd_task c f s) c = f (get_task s c) \<or> get_task (upd_task c f s) c = get_task s c"
    by (cases c) (simp_all add: upd_task_def get_task_def)
  show "get_task (upd_task c f s) c = f (get_task s c)" if "\<And>i. c = Slot i \<Longrightarrow> i < length (task_pool s)"
    using that by (cases c) (simp_all add: upd_task_def get_task_def)
qed

text \<open>The two ends of the pages to map, when the new break is in the window.\<close>

lemma brk_bounds:
  assumes "s \<le> (old :: nat)" "old \<le> new" "new \<le> 2 ^ 31"
  shows "add64 s (round_page (sub64 old s)) = s + round_page (old - s)" "add64 s (round_page (sub64 new s)) = s + round_page (new - s)"
proof -
  have "add64 s (round_page (sub64 x s)) = s + round_page (x - s)" if "s \<le> x" "x \<le> 2 ^ 31" for x
  proof -
    have x: "x - s < 2 ^ 63" "x < 2 ^ 32" using that by auto
    have "sub64 x s = x - s" using x that by (intro sub64_exact) auto
    moreover have "s + round_page (x - s) < x + 4096" using round_page_up [OF x(1)] that by linarith
    then have "s + round_page (x - s) < 2 ^ 64" using x(2) by simp
    ultimately show ?thesis by (simp add: add64_exact)
  qed
  then show "add64 s (round_page (sub64 old s)) = s + round_page (old - s)" "add64 s (round_page (sub64 new s)) = s + round_page (new - s)"
    using assms by auto
qed

definition brk_moved :: "regs \<Rightarrow> task \<Rightarrow> u64 \<Rightarrow> task \<Rightarrow> bool" where
  "brk_moved r t v t' \<longleftrightarrow> v = minus_one \<and> t' = t \<or>
     v = of_nat (t_heap_brk t) \<and> 0 \<le> sint (r_rdi r) \<and> t' = t\<lparr>t_heap_brk := t_heap_brk t + nat (sint (r_rdi r))\<rparr> \<and>
     (t' = t \<or> t_heap_brk t' \<le> t_heap_end t)"

lemma set_brk_ok:
  assumes p: "process_ok env as y" and c: "c = the (cur_task (y_sched y))" and s: "seg_mapped (k_mem (y_k y)) as (t_heap_start (get_task (y_sched y) c)) new"
    "t_heap_start (get_task (y_sched y) c) \<le> new"
  shows "qstep env as y (y_sched_set (upd_task c (\<lambda>t. t\<lparr>t_heap_brk := new\<rparr>) (y_sched y)) y)"
proof (rule process_sched [OF p])
  have ct: "cur_task (upd_task c f (y_sched y)) = cur_task (y_sched y)" for f by (simp add: upd_task_def split: tref.split)
  have b: "brk_task (k_mem (y_k y)) as (get_task (y_sched y) c)" using p by (simp add: process_ok_def brk_ok_def c)
  then have "brk_task (k_mem (y_k y)) as ((get_task (y_sched y) c)\<lparr>t_heap_brk := new\<rparr>)" using s by (simp add: brk_task_def)
  then show "brk_ok (k_mem (y_k y)) as (upd_task c (\<lambda>t. t\<lparr>t_heap_brk := new\<rparr>) (y_sched y))"
    using b get_upd_task(1) [of c "\<lambda>t. t\<lparr>t_heap_brk := new\<rparr>" "y_sched y"] unfolding brk_ok_def ct c [symmetric] by metis
qed simp_all

lemma sstep_qstep:
  assumes p: "process_ok env as y" and s: "sstep env as y y1" "process_ok env as1 y1" "as_ptr as1 = as_ptr as" and q: "qstep env as1 y1 y2"
  shows "sstep env as y y2"
proof -
  obtain as' where a: "process_ok env as' y1" "as_ptr as' = as_ptr as" "pml4_phys as' = pml4_phys as"
    "k_spaces (y_k y1) = put_space as' (k_spaces (y_k y))" "unchanged_in (y_others as y) (k_mem (y_k y)) (k_mem (y_k y1))"
    "\<forall>va. user_mapped (k_mem (y_k y)) as va \<longrightarrow> user_mapped (k_mem (y_k y1)) as' va" using s(1) by (auto simp: sstep_def)
  have "as1 = as'" using find_space_own [OF a(1)] find_space_own [OF s(2)] a(2) s(3) by simp
  moreover have "y_others as' y1 = y_others as y"
    using others_perm(3) [OF spaces_distinct, of "k_spaces (y_k y)" "vm_of (y_k y)" as as'] p a(2,4) by (simp add: process_ok_def others_def)
  ultimately show ?thesis using q a unfolding sstep_def qstep_def
    by (intro exI [of _ as']) (auto simp: user_mapped_def intro: unchanged_trans)
qed

lemma sys_sbrk_ok:
  assumes p: "process_ok env as y" and c: "c = the (cur_task (y_sched y))"
    and inr: "\<And>i. c = Slot i \<Longrightarrow> i < length (task_pool (y_sched y))"
  shows "\<exists>v y'. sys_sbrk env r y = Done (v, y') \<and> sstep env as y y' \<and> cur_task (y_sched y') = cur_task (y_sched y) \<and>
    length (task_pool (y_sched y')) = length (task_pool (y_sched y)) \<and> brk_moved r (get_task (y_sched y) c) v (get_task (y_sched y') c)"
proof -
  define t where "t = get_task (y_sched y) c"
  define new where "new = add64 (t_heap_brk t) (nat (sint (r_rdi r)))"
  note refl = qstep_sstep [OF p qstep_refl [OF p]]
  let ?early = "t_as t = 0 \<or> t_heap_end t = 0 \<or> sint (r_rdi r) < 0 \<or> sint (r_rdi r) \<noteq> 0 \<and> (new < t_heap_brk t \<or> new > t_heap_end t)"
  consider "?early" | "\<not> ?early" "sint (r_rdi r) = 0" | "\<not> ?early" "0 < sint (r_rdi r)" by linarith
  then show ?thesis
  proof cases
    case 1
    then have "sys_sbrk env r y = Done (minus_one, y)" by (auto simp: sys_sbrk_def sched_current_task_def Let_def t_def new_def c)
    then show ?thesis using refl by (auto simp: brk_moved_def)
  next
    case 2
    then have "sys_sbrk env r y = Done (of_nat (t_heap_brk t), y)" by (simp add: sys_sbrk_def sched_current_task_def Let_def t_def c)
    then show ?thesis using refl 2(2) by (auto simp: brk_moved_def t_def)
  next
    case 3
    let ?s = "t_heap_start t" and ?old = "t_heap_brk t"
    have b: "t_as t = as_ptr as" "?s \<le> ?old" "t_heap_end t \<le> VMM_USER_BASE + VMM_USER_SIZE" "seg_mapped (k_mem (y_k y)) as ?s ?old"
      using p 3(1) unfolding process_ok_def brk_ok_def t_def c by (auto simp: brk_task_def)
    have n: "?old \<le> new" "new \<le> t_heap_end t" "new \<le> 2 ^ 31" using 3 b(3) by (auto simp: VMM_USER_BASE_def VMM_USER_SIZE_def)
    have "nat (sint (r_rdi r)) < 2 ^ 63" using sint_less [of "r_rdi r"] by (simp add: nat_less_iff)
    then have new: "new = ?old + nat (sint (r_rdi r))" using n(1,3) unfolding new_def add64_def
      by (cases "?old + nat (sint (r_rdi r)) < 2 ^ 64") (auto simp: mod_if)
    let ?k0 = "(y_k y)\<lparr>k_spaces := y_others as y\<rparr>"
    have o: "k_open as ?k0" using process_space [OF p] by (simp add: k_open_def space_inv_def vm_of_def)
    obtain ok as' k0 where k0: "sbrk_pages (?s + round_page (?old - ?s)) (?s + round_page (new - ?s)) as ?k0 = Some (ok, as', k0)"
      "kgrows as ?k0 as' k0" "k0 = set_vm (vm_of k0) ?k0" "ok \<longrightarrow> seg_mapped (k_mem k0) as' (?s + round_page (?old - ?s)) (?s + round_page (new - ?s))"
      using sbrk_pages_grows [OF o, of "?s + round_page (?old - ?s)" "?s + round_page (new - ?s)"] by blast
    define y1 where "y1 = y\<lparr>y_k := (set_vm (vm_of k0) (y_k y))\<lparr>k_spaces := put_space as' (k_spaces (y_k y))\<rparr>\<rparr>"
    note y1 = space_replaced [OF p k0(2), folded y1_def]
    have "k0\<lparr>k_spaces := k_spaces (y_k y)\<rparr> = set_vm (vm_of k0) (y_k y)" by (subst k0(3)) (simp add: set_vm_def vm_of_def)
    then have sp: "sbrk_pages (?s + round_page (?old - ?s)) (?s + round_page (new - ?s)) as (y_k y) = Some (ok, as', set_vm (vm_of k0) (y_k y))"
      using sbrk_pages_spaces [of "?s + round_page (?old - ?s)" "?s + round_page (new - ?s)" as "k_spaces (y_k y)" ?k0] k0(1) by simp
    have g: "get_task (y_sched y1) x = get_task (y_sched y) x" "cur_task (y_sched y1) = cur_task (y_sched y)" "task_pool (y_sched y1) = task_pool (y_sched y)" for x
      by (simp_all add: y1_def set_vm_def get_task_def split: tref.split)
    define y2 where "y2 = y_sched_set (upd_task c (\<lambda>t. t\<lparr>t_heap_brk := new\<rparr>) (y_sched y1)) y1"
    have r: "sys_sbrk env r y = (if ok then Done (of_nat ?old, y2) else Done (minus_one, y1))"
      using 3 n find_space_own [OF p] b(1) sp brk_bounds [OF b(2) n(1,3)]
      by (simp add: sys_sbrk_def sched_current_task_def Let_def t_def new_def c mem_access_def y1_def y2_def)
    show ?thesis
    proof (cases ok)
      case True
      have "seg_mapped (k_mem (y_k y1)) as' ?s ?old" using kgrows_seg [OF k0(2)] b(4) y1(3) by simp
      moreover have "seg_mapped (k_mem (y_k y1)) as' (?s + round_page (?old - ?s)) (?s + round_page (new - ?s))" using k0(4) True y1(3) by simp
      moreover have "new < 2 ^ 63" using n(3) by simp
      ultimately have "seg_mapped (k_mem (y_k y1)) as' ?s new" using b(2) n(1) by (rule_tac seg_mapped_extend)
      then have "qstep env as' y1 y2" unfolding y2_def using b(2) n(1) g by (intro set_brk_ok [OF y1(1)]) (auto simp: c t_def)
      then have "sstep env as y y2" by (rule sstep_qstep [OF p y1(2,1) y1(4)])
      moreover have g2: "get_task (y_sched y2) c = t\<lparr>t_heap_brk := new\<rparr>"
        using get_upd_task(2) [of c "y_sched y1"] inr g by (simp add: y2_def y_sched_set_def y_vfs_set_def t_def)
      moreover have "cur_task (y_sched y2) = cur_task (y_sched y)" using g(2) by (simp add: y2_def y_sched_set_def y_vfs_set_def upd_task_def split: tref.split)
      moreover have "length (task_pool (y_sched y2)) = length (task_pool (y_sched y))"
        using g(3) by (simp add: y2_def y_sched_set_def y_vfs_set_def upd_task_def split: tref.split)
      moreover have "brk_moved r t (of_nat ?old) (get_task (y_sched y2) c)" unfolding g2 brk_moved_def using 3(2) n(2) by (simp add: new)
      moreover have "sys_sbrk env r y = Done (of_nat ?old, y2)" using r True by simp
      ultimately show ?thesis unfolding t_def by blast
    next
      case False
      then show ?thesis using r y1(2) g by (auto simp: brk_moved_def)
    qed
  qed
qed

section \<open>Every call\<close>

text \<open>Calls that move no page give the guarantee at once.\<close>

lemma safe_outcome: "process_ok env as y \<Longrightarrow> safe env as y r \<Longrightarrow> fine (\<lambda>(v, y'). sstep env as y y') r"
  by (erule fine_weaken) (auto intro: qstep_sstep)

lemma fine_if: "(c \<Longrightarrow> fine Q a) \<Longrightarrow> (\<not> c \<Longrightarrow> fine Q b) \<Longrightarrow> fine Q (if c then a else b)"
  by simp

context program_source
begin

lemma dispatch_ok:
  assumes p: "process_ok env as y" and c: "cur_task (y_sched y) = Some (Slot i)" "i < length (task_pool (y_sched y))"
  shows "fine (\<lambda>(v, y'). sstep env as y y') (syscall_dispatch D env r y)"
proof (cases "unat (r_rax r) = 18")
  case True
  then show ?thesis using sys_sbrk_ok [OF p refl, of r] c by (auto simp: syscall_dispatch_def)
next
  case False
  have "safe env as y (sys_exit env r y)" "safe env as y (sys_yield env r y)" "safe env as y (sys_get_ticks env r y)"
      "safe env as y (sys_fb_info env r y)" "safe env as y (Done (minus_one, y))"
    using kill_safe [OF p] want_safe [OF p] qstep_refl [OF p] by (simp_all add: sys_exit_def sys_yield_def sys_get_ticks_def sys_fb_info_def)
  note simple = this
  have "safe env as y (syscall_dispatch D env r y)" unfolding syscall_dispatch_def Let_def
    by (intro fine_if simple sys_event_poll_safe sys_gfx_present_safe sys_gfx_present_rect_safe sys_get_font_safe sys_open_safe sys_close_safe
      sys_read_safe [OF p vfs_read_bounded] sys_seek_safe sys_fwrite_safe sys_stat_safe sys_fstat_safe sys_readdir_safe sys_unlink_safe
      sys_rename_safe sys_gfx_fill_rect_safe sys_gfx_draw_text_safe sys_gfx_flush_rect_safe sys_write_safe p) (use False in simp_all)
  then show ?thesis by (rule safe_outcome [OF p])
qed

end

text \<open>C1: whatever a process puts into the registers, a system call does no harm. With a FAT32 volume below the file calls, the
  kernel never faults on a pointer it was given; when the call returns, the invariant holds again: the heap, the page tables
  of all spaces and the break of the caller are in order, and every page a process reaches is its own and no page table. The
  caller keeps every user page it had, and no word of any page of another process has changed.\<close>

theorem syscall_dispatch_safe:
  assumes "process_ok env as y" "cur_task (y_sched y) = Some (Slot i)" "i < length (task_pool (y_sched y))"
  shows "case syscall_dispatch (fat_driver ext2_mount ntfs_mount xfs_mount ext2_defrag) env r y of
      Fault \<Rightarrow> False
    | Hang \<Rightarrow> True
    | Done (v, y') \<Rightarrow> \<exists>as'. process_ok env as' y' \<and> as_ptr as' = as_ptr as \<and> pml4_phys as' = pml4_phys as \<and>
        k_spaces (y_k y') = put_space as' (k_spaces (y_k y)) \<and> unchanged_in (y_others as y) (k_mem (y_k y)) (k_mem (y_k y')) \<and>
        (\<forall>va. user_mapped (k_mem (y_k y)) as va \<longrightarrow> user_mapped (k_mem (y_k y')) as' va)"
  using fat_source.dispatch_ok [OF assms, of ext2_mount ntfs_mount xfs_mount ext2_defrag r]
  by (simp add: fine_def sstep_def split: outcome.split)

text \<open>C9: \<open>sbrk\<close> always returns, and either fails with -1 and leaves the caller's task as it was, or returns the old break and
  moves it up by exactly the increment, not beyond the end of the heap; afterwards every page from the start of the heap to
  the break is mapped for the caller.\<close>

theorem sbrk_moves_break:
  assumes "process_ok env as y" "cur_task (y_sched y) = Some (Slot i)" "i < length (task_pool (y_sched y))"
    and "t = task_pool (y_sched y) ! i" "t_as t \<noteq> 0" "t_heap_end t \<noteq> 0"
  shows "\<exists>v y' as'. sys_sbrk env r y = Done (v, y') \<and> as_ptr as' = as_ptr as \<and> process_ok env as' y' \<and>
    (let t' = task_pool (y_sched y') ! i in
     (v = minus_one \<and> t' = t \<or>
      v = of_nat (t_heap_brk t) \<and> 0 \<le> sint (r_rdi r) \<and> t' = t\<lparr>t_heap_brk := t_heap_brk t + nat (sint (r_rdi r))\<rparr> \<and>
        (t' = t \<or> t_heap_brk t' \<le> t_heap_end t)) \<and>
     seg_mapped (k_mem (y_k y')) as' (t_heap_start t') (t_heap_brk t'))"
proof -
  obtain v y' where s: "sys_sbrk env r y = Done (v, y')" "sstep env as y y'" "cur_task (y_sched y') = Some (Slot i)"
      "brk_moved r t v (task_pool (y_sched y') ! i)"
    using sys_sbrk_ok [OF assms(1) refl, of r] assms(2,3,4) by (auto simp: get_task_def)
  obtain as' where a: "process_ok env as' y'" "as_ptr as' = as_ptr as" using s(2) by (auto simp: sstep_def)
  have "t_as (task_pool (y_sched y') ! i) \<noteq> 0" "t_heap_end (task_pool (y_sched y') ! i) \<noteq> 0" using s(4) assms(5,6) by (auto simp: brk_moved_def)
  then have "seg_mapped (k_mem (y_k y')) as' (t_heap_start (task_pool (y_sched y') ! i)) (t_heap_brk (task_pool (y_sched y') ! i))"
    using a(1) s(3) by (simp add: process_ok_def brk_ok_def brk_task_def get_task_def)
  then show ?thesis using s a by (auto simp: brk_moved_def Let_def)
qed

section \<open>The invariant holds when a program starts\<close>

text \<open>Once the scheduler has switched to a task that the loader started, its calls run under the invariant.\<close>

lemma exec_starts_ok:
  assumes "process_at k slot as eh phs" "spaces_ok (k_spaces k) (vm_of k)" "as \<in> set (k_spaces k)"
    and "\<forall>b \<in> set (k_spaces k). confined (k_mem k) b"
    and "kheap_area (k_heap k) + KHEAP_SIZE \<le> user_start env" "user_end env \<le> VMM_USER_BASE"
    and "y_k y = k" "cur_task (y_sched y) = Some (Slot slot)" "loaded_cr3 (y_sched y) = t_cr3 (task_pool (y_sched y) ! slot)"
    and "gfx_ready (y_gfx y) \<Longrightarrow> fb_ok (y_gfx y)"
  shows "process_ok env as y"
proof -
  have "args_at \<le> VMM_USER_BASE + VMM_USER_SIZE" by (simp add: args_at_def stack_top_def)
  then have "brk_ok (k_mem k) as (y_sched y)"
    using assms(1,7,8) by (simp add: process_at_def brk_ok_def brk_task_def get_task_def seg_mapped_def Let_def)
  then show ?thesis using assms by (simp add: process_ok_def process_at_def user_task_def Let_def)
qed

section \<open>A running process\<close>

definition sys_env_example :: sys_env where
  "sys_env_example = \<lparr>user_start = 0x2000000, user_end = 0x3000000, font8x16 = (\<lambda>_. []), padding = (\<lambda>_. 0)\<rparr>"

definition task_example :: task where
  "task_example = task_zero\<lparr>t_as := 0x12008, t_cr3 := 0x15000, t_heap_start := 0x40000000, t_heap_brk := 0x40000000, t_heap_end := 0x7FFFA000\<rparr>"

definition sys_example :: "fat_state sys" where
  "sys_example = \<lparr>y_k = kernel_example\<lparr>k_vfs := fat_vfs_example\<lparr>v_sched := sched_zero\<lparr>task_pool := (replicate MAX_TASKS task_zero)[3 := task_example],
       cur_task := Some (Slot 3), loaded_cr3 := 0x15000, s_mem := vm_heap vm_example\<rparr>\<rparr>\<rparr>, y_ev = ev_example,
     y_gfx = \<lparr>fbp = \<lparr>fbp_base = 0, fbp_width = 0, fbp_height = 0, fbp_pitch = 0, fbp_bpp = 0\<rparr>, backbuf = surface_example, gfx_ready = False\<rparr>,
     y_fb = (\<lambda>_. 0), y_ticks = 7, y_console = []\<rparr>"

lemma as_example_confined: "confined (vm_mem vm_example) as_example"
proof -
  have e: "tbl_entry (vm_mem vm_example) 0x15000 0 = 0x17007" "tbl_entry (vm_mem vm_example) 0x17000 1 = 0"
    by (simp_all add: tbl_entry_def rd64_def vm_example_def rdn_8)
  have "pdpt_of (vm_mem vm_example) as_example = 0x17000"
    by (simp add: pdpt_of_def as_example_def e pte_addr_def PTE_ADDR_MASK_def)
  then have "leaf_pte (vm_mem vm_example) (pdpt_of (vm_mem vm_example) as_example) va = None" if "user_page va" for va
    using that user_page_idx [of va] e(2) by (simp add: leaf_pte_def user_page_def del: One_nat_def)
  then show ?thesis by (intro confined_empty) (auto simp: as_map_def fun_eq_iff)
qed

lemma sys_example_ok: "process_ok sys_env_example as_example sys_example" "cur_task (y_sched sys_example) = Some (Slot 3)"
  "3 < length (task_pool (y_sched sys_example))" "task_pool (y_sched sys_example) ! 3 = task_example"
proof -
  have vm: "vm_of (y_k sys_example) = vm_example" by (simp add: vm_of_def sys_example_def kernel_example_def)
  show c: "cur_task (y_sched sys_example) = Some (Slot 3)" "3 < length (task_pool (y_sched sys_example))"
    "task_pool (y_sched sys_example) ! 3 = task_example" by (simp_all add: sys_example_def MAX_TASKS_def)
  have b: "brk_ok (k_mem (y_k sys_example)) as_example (y_sched sys_example)"
    unfolding brk_ok_def c option.sel get_task_def tref.case
    by (simp add: brk_task_def task_example_def as_example_def seg_mapped_def VMM_USER_BASE_def VMM_USER_SIZE_def)
  have f: "k_spaces (y_k sys_example) = [as_example]" "k_mem (y_k sys_example) = vm_mem vm_example" "\<not> gfx_ready (y_gfx sys_example)"
    "loaded_cr3 (y_sched sys_example) = pml4_phys as_example" "kheap_area (k_heap (y_k sys_example)) = 0xFFD8"
    by (simp_all add: sys_example_def kernel_example_def as_example_def vm_example_def)
  show "process_ok sys_env_example as_example sys_example"
    using b f example_spaces as_example_confined unfolding process_ok_def vm by (simp add: sys_env_example_def KHEAP_SIZE_def VMM_USER_BASE_def)
qed

theorem syscall_dispatch_safe_witness:
  "\<exists>v y' as'. syscall_dispatch (fat_driver no_mount no_mount no_mount no_defrag) sys_env_example
     \<lparr>r_rax = 7, r_rdi = 0xDEAD0000, r_rsi = 100, r_rdx = 0, r_r10 = 0\<rparr> sys_example = Done (v, y') \<and> process_ok sys_env_example as' y'"
proof -
  let ?r = "\<lparr>r_rax = 7, r_rdi = 0xDEAD0000, r_rsi = 100, r_rdx = 0, r_r10 = 0\<rparr>"
  have d: "syscall_dispatch (fat_driver no_mount no_mount no_mount no_defrag) sys_env_example ?r sys_example = Done (minus_one, sys_example)"
    by (simp add: syscall_dispatch_def sys_write_def user_ok_def is_user_range_def in_range_def sys_env_example_def VMM_USER_BASE_def VMM_USER_SIZE_def cap_def)
  then show ?thesis using syscall_dispatch_safe [OF sys_example_ok(1-3), of no_mount no_mount no_mount no_defrag ?r] by auto
qed

theorem sbrk_moves_break_witness:
  "\<exists>v y' as'. sys_sbrk sys_env_example \<lparr>r_rax = 18, r_rdi = 0x1000, r_rsi = 0, r_rdx = 0, r_r10 = 0\<rparr> sys_example = Done (v, y') \<and>
     process_ok sys_env_example as' y'"
  using sbrk_moves_break [OF sys_example_ok(1-3) refl, of "\<lparr>r_rax = 18, r_rdi = 0x1000, r_rsi = 0, r_rdx = 0, r_r10 = 0\<rparr>"]
  unfolding sys_example_ok(4) by (auto simp: task_example_def)

end
