(* ===== verification/Ext2.thy ===== *)
theory Ext2
  imports Vfs
begin

text \<open>
  \<open>fs/ext2.c\<close> and \<open>fs/ext2.h\<close>: the ext2/3/4 driver. The state holds the pools of volumes and nodes, the four
  static block buffers and the block devices; a pointer into a pool is its index. An inode is its 128 bytes, a
  group descriptor its 32 bytes, a directory entry the bytes of its block, and their fields are read and written
  at the offsets of the packed structs. \<open>uint32_t\<close> values are natural numbers with the wrap-around written out.
  Loops that a damaged volume can keep running (directory scans, reads, writes) are \<open>partial_function (option)\<close>,
  \<open>None\<close> being a call that does not return. Two things the code does not check are outside the model: a volume
  whose superblock gives no blocks or inodes per group makes the code divide by zero, where the division here
  gives 0; and blocks above 4096 bytes would run over the static buffers, which here grow, and a read behind
  the end of a buffer gives 0. The theorems are about volumes with a sane geometry.
\<close>

section \<open>Data\<close>

definition MAX_EXT2_FS :: nat where "MAX_EXT2_FS = 4"
definition MAX_EXT2_NODES :: nat where "MAX_EXT2_NODES = 128"
definition EXT2_MAGIC :: nat where "EXT2_MAGIC = 0xEF53"
definition EXT2_ROOT_INO :: nat where "EXT2_ROOT_INO = 2"
definition EXT2_S_IFDIR :: u16 where "EXT2_S_IFDIR = 0x4000"
definition EXT2_S_IFREG :: u16 where "EXT2_S_IFREG = 0x8000"
definition EXT4_EXTENTS_FL :: u32 where "EXT4_EXTENTS_FL = 0x00080000"
definition EXT2_FT_REG_FILE :: u8 where "EXT2_FT_REG_FILE = 1"
definition EXT2_FT_DIR :: u8 where "EXT2_FT_DIR = 2"
definition EXT4_EXT_MAGIC :: nat where "EXT4_EXT_MAGIC = 0xF30A"
definition EXT2_VALID_FS :: u16 where "EXT2_VALID_FS = 0x0001"
definition EXT2_SUPPORTED_INCOMPAT :: u32 where "EXT2_SUPPORTED_INCOMPAT = 0x0002 OR 0x0040"
definition EXT2_SUPPORTED_ROCOMPAT_FOR_WRITE :: u32 where
  "EXT2_SUPPORTED_ROCOMPAT_FOR_WRITE = 0x0001 OR 0x0002 OR 0x0008 OR 0x0020"

record ext2_fs =
  xf_drive :: u8
  xf_drive_type :: u8
  xf_part_lba :: nat
  xf_block_size :: nat
  xf_spb :: nat
  xf_ipg :: nat
  xf_bpg :: nat
  xf_inode_size :: nat
  xf_first_data_block :: nat
  xf_groups_count :: nat
  xf_blocks_count :: nat
  xf_inodes_count :: nat
  xf_first_ino :: nat
  xf_write_supported :: bool

record ext2_state =
  x_disk :: disk
  x_fs :: "ext2_fs list"
  x_nodes :: "vfs_node list"
  x_block :: "u8 list"
  x_meta :: "u8 list"
  x_ind :: "u8 list"
  x_bitmap :: "u8 list"

text \<open>Fields of an inode.\<close>

definition i_mode :: "u8 list \<Rightarrow> nat" where "i_mode inode = le16 inode 0"
definition i_size :: "u8 list \<Rightarrow> nat" where "i_size inode = le32 inode 4"
definition i_links_count :: "u8 list \<Rightarrow> nat" where "i_links_count inode = le16 inode 26"
definition i_blocks :: "u8 list \<Rightarrow> nat" where "i_blocks inode = le32 inode 28"
definition i_flags :: "u8 list \<Rightarrow> nat" where "i_flags inode = le32 inode 32"
definition i_block :: "u8 list \<Rightarrow> nat \<Rightarrow> nat" where "i_block inode k = le32 inode (40 + 4 * k)"
definition i_size_high :: "u8 list \<Rightarrow> nat" where "i_size_high inode = le32 inode 108"

definition set_i_block :: "u8 list \<Rightarrow> nat \<Rightarrow> nat \<Rightarrow> u8 list" where
  "set_i_block inode k v = put_le32 inode (40 + 4 * k) v"

definition has_extents :: "u8 list \<Rightarrow> bool" where
  "has_extents inode \<longleftrightarrow> (of_nat (i_flags inode) :: u32) AND EXT4_EXTENTS_FL \<noteq> 0"

definition is_dir_inode :: "u8 list \<Rightarrow> bool" where
  "is_dir_inode inode \<longleftrightarrow> (of_nat (i_mode inode) :: u16) AND EXT2_S_IFDIR \<noteq> 0"

text \<open>Fields of a group descriptor.\<close>

definition bg_block_bitmap :: "u8 list \<Rightarrow> nat" where "bg_block_bitmap gd = le32 gd 0"
definition bg_inode_bitmap :: "u8 list \<Rightarrow> nat" where "bg_inode_bitmap gd = le32 gd 4"
definition bg_inode_table :: "u8 list \<Rightarrow> nat" where "bg_inode_table gd = le32 gd 8"
definition bg_free_blocks_count :: "u8 list \<Rightarrow> nat" where "bg_free_blocks_count gd = le16 gd 12"
definition bg_free_inodes_count :: "u8 list \<Rightarrow> nat" where "bg_free_inodes_count gd = le16 gd 14"

text \<open>Fields of the directory entry at offset \<open>off\<close> of a block.\<close>

definition d_inode :: "u8 list \<Rightarrow> nat \<Rightarrow> nat" where "d_inode buf off = le32 buf off"
definition d_rec_len :: "u8 list \<Rightarrow> nat \<Rightarrow> nat" where "d_rec_len buf off = le16 buf (off + 4)"
definition d_name_len :: "u8 list \<Rightarrow> nat \<Rightarrow> u8" where "d_name_len buf off = byte_at buf (off + 6)"
definition d_file_type :: "u8 list \<Rightarrow> nat \<Rightarrow> u8" where "d_file_type buf off = byte_at buf (off + 7)"
definition d_name :: "u8 list \<Rightarrow> nat \<Rightarrow> nat \<Rightarrow> u8" where "d_name buf off i = byte_at buf (off + 8 + i)"

text \<open>The pools.\<close>

definition ext2_alloc_node :: "ext2_state \<Rightarrow> nat option \<times> ext2_state" where
  "ext2_alloc_node st = (if length (x_nodes st) \<ge> MAX_EXT2_NODES then (None, st)
     else (Some (length (x_nodes st)), st\<lparr>x_nodes := x_nodes st @ [node_zero]\<rparr>))"

definition ext2_fs_zero :: ext2_fs where
  "ext2_fs_zero = \<lparr>xf_drive = 0, xf_drive_type = 0, xf_part_lba = 0, xf_block_size = 0, xf_spb = 0, xf_ipg = 0,
     xf_bpg = 0, xf_inode_size = 0, xf_first_data_block = 0, xf_groups_count = 0, xf_blocks_count = 0,
     xf_inodes_count = 0, xf_first_ino = 0, xf_write_supported = False\<rparr>"

definition ext2_alloc_fs :: "ext2_state \<Rightarrow> nat option \<times> ext2_state" where
  "ext2_alloc_fs st = (if length (x_fs st) \<ge> MAX_EXT2_FS then (None, st)
     else (Some (length (x_fs st)), st\<lparr>x_fs := x_fs st @ [ext2_fs_zero]\<rparr>))"

definition ext2_set_node :: "nat \<Rightarrow> vfs_node \<Rightarrow> ext2_state \<Rightarrow> ext2_state" where
  "ext2_set_node n nd st = st\<lparr>x_nodes := (x_nodes st)[n := nd]\<rparr>"

section \<open>Blocks, descriptors and inodes\<close>

definition block_lba :: "ext2_fs \<Rightarrow> nat \<Rightarrow> nat" where
  "block_lba fs block = add64 (xf_part_lba fs) (block * xf_spb fs)"

definition read_block :: "ext2_fs \<Rightarrow> nat \<Rightarrow> u8 list \<Rightarrow> ext2_state \<Rightarrow> int \<times> u8 list \<times> ext2_state" where
  "read_block fs block buf st =
     (let (rc, buf, d) = blk_read (xf_drive_type fs) (xf_drive fs) (block_lba fs block) (xf_spb fs mod 2 ^ 8) buf (x_disk st)
      in (rc, buf, st\<lparr>x_disk := d\<rparr>))"

definition write_block :: "ext2_fs \<Rightarrow> nat \<Rightarrow> u8 list \<Rightarrow> ext2_state \<Rightarrow> int \<times> ext2_state" where
  "write_block fs block buf st =
     (let (rc, d) = blk_write (xf_drive_type fs) (xf_drive fs) (block_lba fs block) (xf_spb fs mod 2 ^ 8) buf (x_disk st)
      in (rc, st\<lparr>x_disk := d\<rparr>))"

text \<open>Reads into the four static buffers.\<close>

definition read_blk :: "ext2_fs \<Rightarrow> nat \<Rightarrow> ext2_state \<Rightarrow> int \<times> ext2_state" where
  "read_blk fs b st = (let (rc, buf, st) = read_block fs b (x_block st) st in (rc, st\<lparr>x_block := buf\<rparr>))"

definition read_meta :: "ext2_fs \<Rightarrow> nat \<Rightarrow> ext2_state \<Rightarrow> int \<times> ext2_state" where
  "read_meta fs b st = (let (rc, buf, st) = read_block fs b (x_meta st) st in (rc, st\<lparr>x_meta := buf\<rparr>))"

definition read_ind :: "ext2_fs \<Rightarrow> nat \<Rightarrow> ext2_state \<Rightarrow> int \<times> ext2_state" where
  "read_ind fs b st = (let (rc, buf, st) = read_block fs b (x_ind st) st in (rc, st\<lparr>x_ind := buf\<rparr>))"

definition read_bitmap :: "ext2_fs \<Rightarrow> nat \<Rightarrow> ext2_state \<Rightarrow> int \<times> ext2_state" where
  "read_bitmap fs b st = (let (rc, buf, st) = read_block fs b (x_bitmap st) st in (rc, st\<lparr>x_bitmap := buf\<rparr>))"

definition locate_bgd :: "ext2_fs \<Rightarrow> nat \<Rightarrow> nat \<times> nat" where
  "locate_bgd fs grp =
     (let bgdt_block = add32 (xf_first_data_block fs) 1; bgd_byte = mul32 grp 32
      in (add32 bgdt_block (bgd_byte div xf_block_size fs), bgd_byte mod xf_block_size fs))"

definition locate_inode :: "ext2_fs \<Rightarrow> nat \<Rightarrow> nat \<Rightarrow> nat \<times> nat" where
  "locate_inode fs inode_table index =
     (let inode_byte = mul32 index (xf_inode_size fs)
      in (add32 inode_table (inode_byte div xf_block_size fs), inode_byte mod xf_block_size fs))"

text \<open>The common head of \<open>read_inode\<close> and \<open>write_inode\<close>: the inode's block in the metadata buffer, its number
  and the inode's offset in it.\<close>

definition load_inode :: "ext2_fs \<Rightarrow> nat \<Rightarrow> ext2_state \<Rightarrow> (nat \<times> nat) option \<times> ext2_state" where
  "load_inode fs ino st =
     (let grp = sub32 ino 1 div xf_ipg fs; index = sub32 ino 1 mod xf_ipg fs;
          (bgd_blk, bgd_off) = locate_bgd fs grp;
          (rc, st) = read_meta fs bgd_blk st
      in if rc \<noteq> 0 then (None, st)
         else
           let inode_table = bg_inode_table (drop bgd_off (x_meta st));
               (inode_blk, inode_off) = locate_inode fs inode_table index;
               (rc, st) = read_meta fs inode_blk st
           in if rc \<noteq> 0 then (None, st) else (Some (inode_blk, inode_off), st))"

definition read_inode :: "ext2_fs \<Rightarrow> nat \<Rightarrow> ext2_state \<Rightarrow> int \<times> u8 list \<times> ext2_state" where
  "read_inode fs ino st =
     (case load_inode fs ino st of
        (None, st) \<Rightarrow> (- 1, [], st)
      | (Some (inode_blk, inode_off), st) \<Rightarrow> (0, take 128 (drop inode_off (x_meta st)), st))"

definition write_inode :: "ext2_fs \<Rightarrow> nat \<Rightarrow> u8 list \<Rightarrow> ext2_state \<Rightarrow> int \<times> ext2_state" where
  "write_inode fs ino inode st =
     (case load_inode fs ino st of
        (None, st) \<Rightarrow> (- 1, st)
      | (Some (inode_blk, inode_off), st) \<Rightarrow>
          let st = st\<lparr>x_meta := splice (x_meta st) inode_off inode\<rparr> in write_block fs inode_blk (x_meta st) st)"

text \<open>The free counters of the superblock; a failed transfer is ignored.\<close>

definition sb_adjust_free :: "ext2_fs \<Rightarrow> int \<Rightarrow> int \<Rightarrow> ext2_state \<Rightarrow> ext2_state" where
  "sb_adjust_free fs blocks_delta inodes_delta st =
     (let lba = add64 (xf_part_lba fs) 2;
          (rc, sb, d) = blk_read (xf_drive_type fs) (xf_drive fs) lba 2 (replicate 1024 0) (x_disk st);
          st = st\<lparr>x_disk := d\<rparr>
      in if rc \<noteq> 0 then st
         else
           let sb = put_le32 sb 12 (add32 (le32 sb 12) (nat (blocks_delta mod 2 ^ 32)));
               sb = put_le32 sb 16 (add32 (le32 sb 16) (nat (inodes_delta mod 2 ^ 32)));
               (rc, d) = blk_write (xf_drive_type fs) (xf_drive fs) lba 2 sb (x_disk st)
           in st\<lparr>x_disk := d\<rparr>)"

section \<open>Bitmap allocators\<close>

definition bm_test :: "u8 list \<Rightarrow> nat \<Rightarrow> bool" where
  "bm_test bm b \<longleftrightarrow> byte_at bm (b div 8) AND push_bit (b mod 8) 1 \<noteq> 0"

definition bm_set :: "u8 list \<Rightarrow> nat \<Rightarrow> u8 list" where
  "bm_set bm b = bm[b div 8 := byte_at bm (b div 8) OR push_bit (b mod 8) 1]"

definition bm_clear :: "u8 list \<Rightarrow> nat \<Rightarrow> u8 list" where
  "bm_clear bm b = bm[b div 8 := byte_at bm (b div 8) AND NOT (push_bit (b mod 8) 1)]"

fun bm_set_run :: "u8 list \<Rightarrow> nat \<Rightarrow> nat \<Rightarrow> u8 list" where
  "bm_set_run bm b 0 = bm"
| "bm_set_run bm b (Suc n) = bm_set_run (bm_set bm b) (b + 1) n"

text \<open>What every allocation and release ends with: the bitmap block, then the descriptor block (which
  is in the metadata buffer), then the superblock's counters.\<close>

definition commit_group :: "ext2_fs \<Rightarrow> nat \<Rightarrow> u8 list \<Rightarrow> nat \<times> nat \<Rightarrow> u8 list \<Rightarrow> int \<Rightarrow> int \<Rightarrow> ext2_state \<Rightarrow> int \<times> ext2_state" where
  "commit_group fs bitmap_blk bm loc gd blocks_delta inodes_delta st =
     (let (bgd_blk, bgd_off) = loc;
          st = st\<lparr>x_bitmap := bm\<rparr>;
          (rc, st) = write_block fs bitmap_blk (x_bitmap st) st
      in if rc \<noteq> 0 then (- 1, st)
         else
           let st = st\<lparr>x_meta := splice (x_meta st) bgd_off gd\<rparr>;
               (rc, st) = write_block fs bgd_blk (x_meta st) st
           in if rc \<noteq> 0 then (- 1, st) else (0, sb_adjust_free fs blocks_delta inodes_delta st))"

text \<open>The descriptor of a group, copied out of the metadata buffer.\<close>

definition load_bgd :: "ext2_fs \<Rightarrow> nat \<Rightarrow> ext2_state \<Rightarrow> u8 list option \<times> ext2_state" where
  "load_bgd fs grp st =
     (let (bgd_blk, bgd_off) = locate_bgd fs grp; (rc, st) = read_meta fs bgd_blk st
      in if rc \<noteq> 0 then (None, st) else (Some (take 32 (drop bgd_off (x_meta st))), st))"

definition set_free_blocks :: "u8 list \<Rightarrow> nat \<Rightarrow> u8 list" where "set_free_blocks gd v = put_le16 gd 12 v"
definition set_free_inodes :: "u8 list \<Rightarrow> nat \<Rightarrow> u8 list" where "set_free_inodes gd v = put_le16 gd 14 v"

text \<open>The first block of a group and how many the volume has in it.\<close>

definition group_blocks :: "ext2_fs \<Rightarrow> nat \<Rightarrow> nat \<times> nat" where
  "group_blocks fs grp =
     (let group_start = add32 (xf_first_data_block fs) (mul32 grp (xf_bpg fs));
          group_end = add32 group_start (xf_bpg fs);
          group_end = (if group_end > xf_blocks_count fs then xf_blocks_count fs else group_end)
      in (group_start, sub32 group_end group_start))"

function alloc_block_from :: "ext2_fs \<Rightarrow> nat \<Rightarrow> ext2_state \<Rightarrow> nat \<times> ext2_state" where
  "alloc_block_from fs grp st =
     (if grp < xf_groups_count fs then
        (case load_bgd fs grp st of
           (None, st) \<Rightarrow> (0, st)
         | (Some gd, st) \<Rightarrow>
             if bg_free_blocks_count gd = 0 then alloc_block_from fs (grp + 1) st
             else
               let (rc, st) = read_bitmap fs (bg_block_bitmap gd) st in
               if rc \<noteq> 0 then (0, st)
               else
                 let (group_start, count) = group_blocks fs grp;
                     b = skip_while (bm_test (x_bitmap st)) 0 count
                 in if b < count then
                      let (rc, st) = commit_group fs (bg_block_bitmap gd) (bm_set (x_bitmap st) b) (locate_bgd fs grp)
                            (set_free_blocks gd (bg_free_blocks_count gd - 1)) (- 1) 0 st
                      in if rc \<noteq> 0 then (0, st) else (add32 group_start b, st)
                    else alloc_block_from fs (grp + 1) st)
      else (0, st))"
  by pat_completeness auto
termination
  by (relation "measure (\<lambda>(fs, grp, st). xf_groups_count fs - grp)") auto

declare alloc_block_from.simps [simp del]

definition alloc_block :: "ext2_fs \<Rightarrow> ext2_state \<Rightarrow> nat \<times> ext2_state" where
  "alloc_block fs st = alloc_block_from fs 0 st"

definition alloc_block_near :: "ext2_fs \<Rightarrow> nat \<Rightarrow> ext2_state \<Rightarrow> nat \<times> ext2_state" where
  "alloc_block_near fs goal st =
     (if goal \<ge> xf_first_data_block fs \<and> goal < xf_blocks_count fs then
        let grp = (goal - xf_first_data_block fs) div xf_bpg fs;
            b = (goal - xf_first_data_block fs) mod xf_bpg fs
        in case load_bgd fs grp st of
             (None, st) \<Rightarrow> alloc_block fs st
           | (Some gd, st) \<Rightarrow>
               if bg_free_blocks_count gd > 0 then
                 let (rc, st) = read_bitmap fs (bg_block_bitmap gd) st in
                 if rc = 0 \<and> \<not> bm_test (x_bitmap st) b then
                   let (rc, st) = commit_group fs (bg_block_bitmap gd) (bm_set (x_bitmap st) b) (locate_bgd fs grp)
                         (set_free_blocks gd (bg_free_blocks_count gd - 1)) (- 1) 0 st
                   in if rc = 0 then (goal, st) else alloc_block fs st
                 else alloc_block fs st
               else alloc_block fs st
      else alloc_block fs st)"

text \<open>The longest run of free bits, with the early exit: \<open>(best_start, best_len)\<close>.\<close>

function scan_run :: "u8 list \<Rightarrow> nat \<Rightarrow> nat \<Rightarrow> nat \<Rightarrow> nat \<times> nat \<Rightarrow> nat \<times> nat \<Rightarrow> nat \<times> nat" where
  "scan_run bm want b count (run_start, run_len) (best_start, best_len) =
     (if b < count then
        if \<not> bm_test bm b then
          let run_start = (if run_len = 0 then b else run_start);
              run_len = run_len + 1;
              (best_start, best_len) = (if run_len > best_len then (run_start, run_len) else (best_start, best_len))
          in if best_len \<ge> want then (best_start, best_len)
             else scan_run bm want (b + 1) count (run_start, run_len) (best_start, best_len)
        else scan_run bm want (b + 1) count (run_start, 0) (best_start, best_len)
      else (best_start, best_len))"
  by pat_completeness auto
termination
  by (relation "measure (\<lambda>(bm, want, b, count, run, best). count - b)") auto

declare scan_run.simps [simp del]

function alloc_run_from :: "ext2_fs \<Rightarrow> nat \<Rightarrow> nat \<Rightarrow> ext2_state \<Rightarrow> (nat \<times> nat) \<times> ext2_state" where
  "alloc_run_from fs want grp st =
     (if grp < xf_groups_count fs then
        (case load_bgd fs grp st of
           (None, st) \<Rightarrow> ((0, 0), st)
         | (Some gd, st) \<Rightarrow>
             if bg_free_blocks_count gd = 0 then alloc_run_from fs want (grp + 1) st
             else
               let (rc, st) = read_bitmap fs (bg_block_bitmap gd) st in
               if rc \<noteq> 0 then ((0, 0), st)
               else
                 let (group_start, count) = group_blocks fs grp;
                     (best_start, best_len) = scan_run (x_bitmap st) want 0 count (0, 0) (0, 0)
                 in if best_len = 0 then alloc_run_from fs want (grp + 1) st
                    else
                      let best_len = (if best_len > want then want else best_len);
                          (rc, st) = commit_group fs (bg_block_bitmap gd) (bm_set_run (x_bitmap st) best_start best_len)
                            (locate_bgd fs grp)
                            (set_free_blocks gd (bg_free_blocks_count gd + (2 ^ 16 - best_len mod 2 ^ 16)))
                            (- int best_len) 0 st
                      in if rc \<noteq> 0 then ((0, 0), st) else ((add32 group_start best_start, best_len), st))
      else ((0, 0), st))"
  by pat_completeness auto
termination
  by (relation "measure (\<lambda>(fs, want, grp, st). xf_groups_count fs - grp)") auto

declare alloc_run_from.simps [simp del]

text \<open>The result: the first block and \<open>out_len\<close> (which the caller has set to 0).\<close>

definition alloc_block_run :: "ext2_fs \<Rightarrow> nat \<Rightarrow> ext2_state \<Rightarrow> (nat \<times> nat) \<times> ext2_state" where
  "alloc_block_run fs want st = alloc_run_from fs (if want = 0 then 1 else want) 0 st"

function alloc_inode_from :: "ext2_fs \<Rightarrow> nat \<Rightarrow> ext2_state \<Rightarrow> nat \<times> ext2_state" where
  "alloc_inode_from fs grp st =
     (if grp < xf_groups_count fs then
        (case load_bgd fs grp st of
           (None, st) \<Rightarrow> (0, st)
         | (Some gd, st) \<Rightarrow>
             if bg_free_inodes_count gd = 0 then alloc_inode_from fs (grp + 1) st
             else
               let (rc, st) = read_bitmap fs (bg_inode_bitmap gd) st in
               if rc \<noteq> 0 then (0, st)
               else
                 let group_start_ino = mul32 grp (xf_ipg fs);
                     remain = sub32 (xf_inodes_count fs) group_start_ino;
                     count = (if remain < xf_ipg fs then remain else xf_ipg fs);
                     ino = (\<lambda>b. add32 (add32 group_start_ino b) 1);
                     b = skip_while (\<lambda>b. ino b < xf_first_ino fs \<or> bm_test (x_bitmap st) b) 0 count
                 in if b < count then
                      let (rc, st) = commit_group fs (bg_inode_bitmap gd) (bm_set (x_bitmap st) b) (locate_bgd fs grp)
                            (set_free_inodes gd (bg_free_inodes_count gd - 1)) 0 (- 1) st
                      in if rc \<noteq> 0 then (0, st) else (ino b, st)
                    else alloc_inode_from fs (grp + 1) st)
      else (0, st))"
  by pat_completeness auto
termination
  by (relation "measure (\<lambda>(fs, grp, st). xf_groups_count fs - grp)") auto

declare alloc_inode_from.simps [simp del]

definition alloc_inode :: "ext2_fs \<Rightarrow> ext2_state \<Rightarrow> nat \<times> ext2_state" where
  "alloc_inode fs st = alloc_inode_from fs 0 st"

definition free_block :: "ext2_fs \<Rightarrow> nat \<Rightarrow> ext2_state \<Rightarrow> int \<times> ext2_state" where
  "free_block fs block st =
     (let grp = sub32 block (xf_first_data_block fs) div xf_bpg fs;
          b = sub32 block (xf_first_data_block fs) mod xf_bpg fs
      in case load_bgd fs grp st of
           (None, st) \<Rightarrow> (- 1, st)
         | (Some gd, st) \<Rightarrow>
             let (rc, st) = read_bitmap fs (bg_block_bitmap gd) st in
             if rc \<noteq> 0 then (- 1, st)
             else commit_group fs (bg_block_bitmap gd) (bm_clear (x_bitmap st) b) (locate_bgd fs grp)
                    (set_free_blocks gd (bg_free_blocks_count gd + 1)) 1 0 st)"

definition free_inode :: "ext2_fs \<Rightarrow> nat \<Rightarrow> ext2_state \<Rightarrow> int \<times> ext2_state" where
  "free_inode fs ino st =
     (let grp = sub32 ino 1 div xf_ipg fs; b = sub32 ino 1 mod xf_ipg fs
      in case load_bgd fs grp st of
           (None, st) \<Rightarrow> (- 1, st)
         | (Some gd, st) \<Rightarrow>
             let (rc, st) = read_bitmap fs (bg_inode_bitmap gd) st in
             if rc \<noteq> 0 then (- 1, st)
             else commit_group fs (bg_inode_bitmap gd) (bm_clear (x_bitmap st) b) (locate_bgd fs grp)
                    (set_free_inodes gd (bg_free_inodes_count gd + 1)) 0 1 st)"

section \<open>Block mapping\<close>

text \<open>A leaf entry that covers the logical block; unwritten extents are holes.\<close>

definition extent_covers :: "u8 list \<Rightarrow> nat \<Rightarrow> nat \<Rightarrow> bool" where
  "extent_covers eh logical i \<longleftrightarrow>
     (let ee = 12 + 12 * i; ee_block = le32 eh ee; len = le16 eh (ee + 4) in
      len \<le> 32768 \<and> ee_block \<le> logical \<and> logical < add32 ee_block len)"

text \<open>\<open>eh\<close> is the buffer from the header on, the first argument the levels left of the eight.\<close>

fun extent_walk :: "nat \<Rightarrow> ext2_fs \<Rightarrow> u8 list \<Rightarrow> nat \<Rightarrow> ext2_state \<Rightarrow> nat \<times> ext2_state" where
  "extent_walk 0 fs eh logical st = (0, st)"
| "extent_walk (Suc levels) fs eh logical st =
     (if le16 eh 0 \<noteq> EXT4_EXT_MAGIC then (0, st)
      else
        let eh_entries = le16 eh 2; eh_depth = le16 eh 6 in
        if eh_depth = 0 then
          let i = skip_while (\<lambda>i. \<not> extent_covers eh logical i) 0 eh_entries in
          if i < eh_entries then (add32 (le32 eh (12 + 12 * i + 8)) (logical - le32 eh (12 + 12 * i)), st) else (0, st)
        else if eh_entries = 0 \<or> logical < le32 eh 12 then (0, st)
        else
          let k = skip_while (\<lambda>k. le32 eh (12 + 12 * (k + 1)) \<le> logical) 0 (eh_entries - 1);
              (rc, st) = read_ind fs (le32 eh (12 + 12 * k + 4)) st
          in if rc \<noteq> 0 then (0, st) else extent_walk levels fs (x_ind st) logical st)"

definition ext4_extent_lookup :: "ext2_fs \<Rightarrow> u8 list \<Rightarrow> nat \<Rightarrow> ext2_state \<Rightarrow> nat \<times> ext2_state" where
  "ext4_extent_lookup = extent_walk 8"

text \<open>Entry \<open>idx\<close> of the pointer block \<open>b\<close>; 0 when there is no such block or it cannot be read.\<close>

definition indirect :: "ext2_fs \<Rightarrow> nat \<Rightarrow> nat \<Rightarrow> ext2_state \<Rightarrow> nat \<times> ext2_state" where
  "indirect fs b idx st =
     (if b = 0 then (0, st)
      else let (rc, st) = read_ind fs b st in if rc \<noteq> 0 then (0, st) else (le32 (x_ind st) (4 * idx), st))"

definition get_block :: "ext2_fs \<Rightarrow> u8 list \<Rightarrow> nat \<Rightarrow> ext2_state \<Rightarrow> nat \<times> ext2_state" where
  "get_block fs inode logical st =
     (let ptrs = xf_block_size fs div 4 in
      if has_extents inode then ext4_extent_lookup fs (drop 40 inode) logical st
      else if logical < 12 then (i_block inode logical, st)
      else
        let logical = logical - 12 in
        if logical < ptrs then indirect fs (i_block inode 12) logical st
        else
          let logical = logical - ptrs in
          if logical < mul32 ptrs ptrs then
            let (ind2, st) = indirect fs (i_block inode 13) (logical div ptrs) st in
            indirect fs ind2 (logical mod ptrs) st
          else
            let logical = logical - mul32 ptrs ptrs in
            if logical div ptrs div ptrs < ptrs then
              let (ind2, st) = indirect fs (i_block inode 14) (logical div mul32 ptrs ptrs) st;
                  (ind3, st) = indirect fs ind2 (logical div ptrs mod ptrs) st
              in indirect fs ind3 (logical mod ptrs) st
            else (0, st))"

definition add_i_blocks :: "u8 list \<Rightarrow> nat \<Rightarrow> u8 list" where
  "add_i_blocks inode n = put_le32 inode 28 (add32 (i_blocks inode) n)"

text \<open>The indirect block of an inode, allocated and zeroed when there is none.\<close>

definition ensure_indirect :: "ext2_fs \<Rightarrow> u8 list \<Rightarrow> ext2_state \<Rightarrow> bool \<times> u8 list \<times> ext2_state" where
  "ensure_indirect fs inode st =
     (if i_block inode 12 = 0 then
        let (nb, st) = alloc_block fs st in
        if nb = 0 then (False, inode, st)
        else
          let st = st\<lparr>x_ind := overwrite (x_ind st) (replicate (xf_block_size fs) 0)\<rparr>;
              (rc, st) = write_block fs nb (x_ind st) st
          in if rc \<noteq> 0 then (False, inode, st)
             else (True, add_i_blocks (set_i_block inode 12 nb) (xf_spb fs), st)
      else (True, inode, st))"

definition get_or_alloc_block :: "ext2_fs \<Rightarrow> u8 list \<Rightarrow> nat \<Rightarrow> ext2_state \<Rightarrow> nat \<times> u8 list \<times> ext2_state" where
  "get_or_alloc_block fs inode logical st =
     (if has_extents inode then (0, inode, st)
      else
        let ptrs = xf_block_size fs div 4 in
        if logical < 12 then
          if i_block inode logical = 0 then
            let goal = (if logical > 0 \<and> i_block inode (logical - 1) \<noteq> 0 then add32 (i_block inode (logical - 1)) 1 else 0);
                (nb, st) = alloc_block_near fs goal st
            in if nb = 0 then (0, inode, st)
               else let inode = add_i_blocks (set_i_block inode logical nb) (xf_spb fs) in (i_block inode logical, inode, st)
          else (i_block inode logical, inode, st)
        else
          let logical = logical - 12 in
          if logical < ptrs then
            let (ok, inode, st) = ensure_indirect fs inode st in
            if \<not> ok then (0, inode, st)
            else
              let (rc, st) = read_ind fs (i_block inode 12) st in
              if rc \<noteq> 0 then (0, inode, st)
              else if le32 (x_ind st) (4 * logical) = 0 then
                let goal = (if logical > 0 \<and> le32 (x_ind st) (4 * (logical - 1)) \<noteq> 0
                              then add32 (le32 (x_ind st) (4 * (logical - 1))) 1
                            else if logical = 0 \<and> i_block inode 11 \<noteq> 0 then add32 (i_block inode 11) 1 else 0);
                    (nb, st) = alloc_block_near fs goal st
                in if nb = 0 then (0, inode, st)
                   else
                     let st = st\<lparr>x_ind := put_le32 (x_ind st) (4 * logical) nb\<rparr>;
                         (rc, st) = write_block fs (i_block inode 12) (x_ind st) st
                     in if rc \<noteq> 0 then (0, inode, st)
                        else (le32 (x_ind st) (4 * logical), add_i_blocks inode (xf_spb fs), st)
              else (le32 (x_ind st) (4 * logical), inode, st)
          else (0, inode, st))"

section \<open>Directories\<close>

text \<open>The scan that the five directory operations share. \<open>test\<close> looks at the entry at an offset of the block
  buffer: \<open>None\<close> stops there, \<open>Some\<close> goes on with a new value of the counter. \<open>cur\<close> is the logical block in the
  buffer and \<open>phys\<close> its number.\<close>

datatype scan_result =
    Hit nat nat
  | Miss
  | Bad_block
  | Zero_rec

definition scan_load :: "ext2_fs \<Rightarrow> u8 list \<Rightarrow> nat \<Rightarrow> nat \<Rightarrow> nat \<Rightarrow> ext2_state \<Rightarrow> bool \<times> nat \<times> ext2_state" where
  "scan_load fs inode blk_log cur phys st =
     (if blk_log \<noteq> cur then
        let (p, st) = get_block fs inode blk_log st in
        if p = 0 then (False, phys, st) else let (rc, st) = read_blk fs p st in (rc = 0, p, st)
      else (True, phys, st))"

partial_function (option) scan_entries :: "ext2_fs \<Rightarrow> u8 list \<Rightarrow> ('a \<Rightarrow> u8 list \<Rightarrow> nat \<Rightarrow> 'a option) \<Rightarrow> nat \<Rightarrow> nat \<Rightarrow> nat \<Rightarrow>
    'a \<Rightarrow> ext2_state \<Rightarrow> (scan_result \<times> ext2_state) option" where
  "scan_entries fs inode test pos cur phys acc st =
     (if pos < i_size inode then
        let blk_log = pos div xf_block_size fs; blk_off = pos mod xf_block_size fs;
            (ok, phys, st) = scan_load fs inode blk_log cur phys st
        in if \<not> ok then Some (Bad_block, st)
           else if d_rec_len (x_block st) blk_off = 0 then Some (Zero_rec, st)
           else (case test acc (x_block st) blk_off of
                   None \<Rightarrow> Some (Hit blk_off phys, st)
                 | Some acc \<Rightarrow> scan_entries fs inode test (add32 pos (d_rec_len (x_block st) blk_off)) blk_log phys acc st)
      else Some (Miss, st))"

definition scan_dir :: "ext2_fs \<Rightarrow> u8 list \<Rightarrow> ('a \<Rightarrow> u8 list \<Rightarrow> nat \<Rightarrow> 'a option) \<Rightarrow> 'a \<Rightarrow> ext2_state \<Rightarrow>
    (scan_result \<times> ext2_state) option" where
  "scan_dir fs inode test acc st = scan_entries fs inode test 0 0xFFFFFFFF 0 acc st"

text \<open>A live entry other than \<open>.\<close> and \<open>..\<close>; the counter is \<open>valid_count\<close>.\<close>

definition dot_entry :: "u8 list \<Rightarrow> nat \<Rightarrow> bool" where
  "dot_entry buf off \<longleftrightarrow> (d_name_len buf off = 1 \<and> d_name buf off 0 = 0x2E) \<or>
     (d_name_len buf off = 2 \<and> d_name buf off 0 = 0x2E \<and> d_name buf off 1 = 0x2E)"

definition nth_entry :: "nat \<Rightarrow> nat \<Rightarrow> u8 list \<Rightarrow> nat \<Rightarrow> nat option" where
  "nth_entry index valid_count buf off =
     (if d_inode buf off \<noteq> 0 \<and> d_name_len buf off > 0 \<and> \<not> dot_entry buf off
      then if valid_count = index then None else Some (valid_count + 1)
      else Some valid_count)"

definition ext2_readdir :: "nat \<Rightarrow> nat \<Rightarrow> ext2_state \<Rightarrow> (dirent option \<times> ext2_state) option" where
  "ext2_readdir node index st =
     (let nd = x_nodes st ! node in
      case vn_private nd of
        None \<Rightarrow> Some (None, st)
      | Some f \<Rightarrow>
          let fs = x_fs st ! f; (rc, dir_inode, st) = read_inode fs (vn_inode nd) st in
          if rc \<noteq> 0 then Some (None, st)
          else do {
            (r, st) \<leftarrow> scan_dir fs dir_inode (nth_entry index) 0 st;
            (case r of
               Hit off phys \<Rightarrow>
                 let buf = x_block st;
                     len = unat (d_name_len buf off);
                     len = (if len \<ge> MAX_FILENAME then MAX_FILENAME - 1 else len);
                     (rc, child, st) = read_inode fs (d_inode buf off) st
                 in Some (Some \<lparr>de_name = map (d_name buf off) [0 ..< len],
                               de_size = (if rc = 0 then i_size child else 0),
                               de_type = (if d_file_type buf off = EXT2_FT_DIR then VFS_DIRECTORY else VFS_FILE)\<rparr>, st)
             | _ \<Rightarrow> Some (None, st))
          })"

text \<open>A live entry with the given name: the length byte first, then the characters.\<close>

definition named_entry :: "u8 list \<Rightarrow> unit \<Rightarrow> u8 list \<Rightarrow> nat \<Rightarrow> unit option" where
  "named_entry name u buf off =
     (if d_inode buf off \<noteq> 0 \<and> d_name_len buf off = of_nat (vfs_strlen name) \<and>
         (\<forall>i \<in> set [0 ..< vfs_strlen name]. d_name buf off i = cstr_at name i)
      then None else Some ())"

text \<open>The part of the name that fits the node.\<close>

definition node_name :: "u8 list \<Rightarrow> u8 list" where
  "node_name name = take (if vfs_strlen name < MAX_FILENAME - 1 then vfs_strlen name else MAX_FILENAME - 1) name"

definition ext2_finddir :: "nat \<Rightarrow> u8 list \<Rightarrow> ext2_state \<Rightarrow> (nat option \<times> ext2_state) option" where
  "ext2_finddir node name st =
     (let nd = x_nodes st ! node in
      case vn_private nd of
        None \<Rightarrow> Some (None, st)
      | Some f \<Rightarrow>
          let fs = x_fs st ! f; (rc, dir_inode, st) = read_inode fs (vn_inode nd) st in
          if rc \<noteq> 0 then Some (None, st)
          else do {
            (r, st) \<leftarrow> scan_dir fs dir_inode (named_entry name) () st;
            (case r of
               Hit off phys \<Rightarrow>
                 let ino = d_inode (x_block st) off; (rc, child, st) = read_inode fs ino st in
                 if rc \<noteq> 0 then Some (None, st)
                 else (case ext2_alloc_node st of
                         (None, st) \<Rightarrow> Some (None, st)
                       | (Some found, st) \<Rightarrow>
                           Some (Some found, ext2_set_node found
                             \<lparr>vn_name = node_name name,
                              vn_type = (if is_dir_inode child then VFS_DIRECTORY else VFS_FILE),
                              vn_size = i_size child, vn_inode = ino,
                              vn_ops = (if is_dir_inode child then dir_ops else file_ops),
                              vn_parent = Some node, vn_private = Some f\<rparr> st))
             | _ \<Rightarrow> Some (None, st))
          })"

section \<open>Reading and writing\<close>

text \<open>The loop after the size is clamped; \<open>out\<close> holds the bytes copied so far. \<open>True\<close> is a normal end.\<close>

partial_function (option) read_blocks :: "ext2_fs \<Rightarrow> u8 list \<Rightarrow> nat \<Rightarrow> nat \<Rightarrow> u8 list \<Rightarrow> ext2_state \<Rightarrow>
    ((bool \<times> u8 list) \<times> ext2_state) option" where
  "read_blocks fs inode offset n out st =
     (if length out < n then
        let cur = (offset + length out) mod 2 ^ 32;
            blk_l = cur div xf_block_size fs; blk_o = cur mod xf_block_size fs;
            (phys, st) = get_block fs inode blk_l st
        in if phys = 0 then Some ((True, out), st)
           else
             let (rc, st) = read_blk fs phys st in
             if rc \<noteq> 0 then Some ((False, out), st)
             else
               let copy = sub32 (xf_block_size fs) blk_o;
                   copy = (if copy > n - length out then n - length out else copy)
               in read_blocks fs inode offset n (out @ take copy (drop blk_o (x_block st))) st
      else Some ((True, out), st))"

definition ext2_read :: "nat \<Rightarrow> nat \<Rightarrow> nat \<Rightarrow> ext2_state \<Rightarrow> (int \<times> u8 list \<times> ext2_state) option" where
  "ext2_read node offset n st =
     (let nd = x_nodes st ! node in
      case vn_private nd of
        None \<Rightarrow> Some (- 1, [], st)
      | Some f \<Rightarrow>
          let fs = x_fs st ! f; (rc, inode, st) = read_inode fs (vn_inode nd) st in
          if rc \<noteq> 0 then Some (- 1, [], st)
          else
            let file_size = i_size inode in
            if offset \<ge> file_size then Some (0, [], st)
            else
              let n = (if offset + n > file_size then file_size - offset else n) in
              map_option (\<lambda>((ok, out), st). (if ok then int32 (length out) else - 1, out, st))
                (read_blocks fs inode offset n [] st))"

text \<open>Phase 1 of a write: every logical block of the range exists, up to the first that cannot be had.\<close>

function ensure_blocks :: "ext2_fs \<Rightarrow> nat \<Rightarrow> nat \<Rightarrow> nat \<Rightarrow> u8 list \<Rightarrow> ext2_state \<Rightarrow> nat \<times> u8 list \<times> ext2_state" where
  "ensure_blocks fs lb last_blk got inode st =
     (if lb \<le> last_blk then
        let (b, inode, st) = get_or_alloc_block fs inode lb st in
        if b = 0 then (got, inode, st) else ensure_blocks fs (lb + 1) last_blk (got + 1) inode st
      else (got, inode, st))"
  by pat_completeness auto
termination
  by (relation "measure (\<lambda>(fs, lb, last_blk, got, inode, st). Suc last_blk - lb)") auto

declare ensure_blocks.simps [simp del]

text \<open>Phase 2: the bytes written until the end or the first failure.\<close>

partial_function (option) write_blocks :: "ext2_fs \<Rightarrow> u8 list \<Rightarrow> nat \<Rightarrow> nat \<Rightarrow> u8 list \<Rightarrow> nat \<Rightarrow> ext2_state \<Rightarrow>
    (nat \<times> ext2_state) option" where
  "write_blocks fs inode offset n data bytes_written st =
     (if bytes_written < n then
        let cur = offset + bytes_written;
            blk_l = cur div xf_block_size fs mod 2 ^ 32; blk_o = cur mod xf_block_size fs;
            (phys, st) = get_block fs inode blk_l st
        in if phys = 0 then Some (bytes_written, st)
           else
             let (rc, st) = read_blk fs phys st in
             if rc \<noteq> 0 then Some (bytes_written, st)
             else
               let copy = sub32 (xf_block_size fs) blk_o;
                   copy = (if copy > n - bytes_written then n - bytes_written else copy);
                   st = st\<lparr>x_block := splice (x_block st) blk_o (take copy (drop bytes_written data))\<rparr>;
                   (rc, st) = write_block fs phys (x_block st) st
               in if rc \<noteq> 0 then Some (bytes_written, st)
                  else write_blocks fs inode offset n data (bytes_written + copy) st
      else Some (bytes_written, st))"

text \<open>The data is the first \<open>size\<close> bytes of the buffer.\<close>

definition ext2_write :: "nat \<Rightarrow> nat \<Rightarrow> u8 list \<Rightarrow> ext2_state \<Rightarrow> (int \<times> ext2_state) option" where
  "ext2_write node offset data st =
     (let nd = x_nodes st ! node; n = length data in
      case vn_private nd of
        None \<Rightarrow> Some (- 1, st)
      | Some f \<Rightarrow>
          let fs = x_fs st ! f in
          if \<not> xf_write_supported fs then Some (- 1, st)
          else if vn_type nd AND VFS_FILE = 0 then Some (- 1, st)
          else if n = 0 then Some (0, st)
          else
            let (rc, inode, st) = read_inode fs (vn_inode nd) st in
            if rc \<noteq> 0 then Some (- 1, st)
            else if has_extents inode then Some (- 1, st)
            else if i_size_high inode \<noteq> 0 then Some (- 1, st)
            else if offset > i_size inode then Some (- 1, st)
            else
              let new_end = offset + n;
                  first_blk = offset div xf_block_size fs mod 2 ^ 32;
                  last_blk = (new_end - 1) div xf_block_size fs mod 2 ^ 32;
                  (got_blocks, inode, st) = ensure_blocks fs first_blk last_blk 0 inode st;
                  allocated_end = add32 first_blk got_blocks * xf_block_size fs;
                  n = (if new_end > allocated_end then (if allocated_end > offset then allocated_end - offset else 0) else n)
              in if n = 0 then Some (0, st)
                 else do {
                   (bytes_written, st) \<leftarrow> write_blocks fs inode offset n data 0 st;
                   (if bytes_written = 0 then Some (- 1, st)
                    else
                      let inode = (if offset + bytes_written > i_size inode
                                   then put_le32 inode 4 (offset + bytes_written) else inode);
                          (rc, st) = write_inode fs (vn_inode nd) inode st
                      in if rc \<noteq> 0 then Some (- 1, st)
                         else Some (int32 bytes_written,
                                ext2_set_node node ((x_nodes st ! node)\<lparr>vn_size := i_size inode\<rparr>) st))
                 })"

section \<open>Creating, renaming, removing\<close>

definition align4 :: "nat \<Rightarrow> nat" where
  "align4 x = unat ((of_nat (x + 3) :: u32) AND NOT 3)"

definition new_file_inode :: "u8 list" where
  "new_file_inode = put_le16 (put_le16 (replicate 128 0) 0 (unat (EXT2_S_IFREG OR 0x1A4))) 26 1"

definition finish_new_file_node :: "ext2_fs \<Rightarrow> nat \<Rightarrow> nat \<Rightarrow> nat \<Rightarrow> u8 list \<Rightarrow> ext2_state \<Rightarrow> nat option \<times> ext2_state" where
  "finish_new_file_node fs f dir ino name st =
     (let (rc, st) = write_inode fs ino new_file_inode st in
      if rc \<noteq> 0 then (None, st)
      else (case ext2_alloc_node st of
              (None, st) \<Rightarrow> (None, st)
            | (Some n, st) \<Rightarrow>
                (Some n, ext2_set_node n
                  \<lparr>vn_name = node_name name, vn_type = VFS_FILE, vn_size = 0, vn_inode = ino, vn_ops = file_ops,
                   vn_parent = Some dir, vn_private = Some f\<rparr> st)))"

definition entry_used :: "u8 list \<Rightarrow> nat \<Rightarrow> nat" where
  "entry_used buf off = (if d_inode buf off \<noteq> 0 then align4 (8 + unat (d_name_len buf off)) else 0)"

text \<open>An entry with room for \<open>new_min\<close> bytes behind what it uses itself.\<close>

definition roomy_entry :: "nat \<Rightarrow> unit \<Rightarrow> u8 list \<Rightarrow> nat \<Rightarrow> unit option" where
  "roomy_entry new_min u buf off =
     (if sub32 (d_rec_len buf off) (entry_used buf off) \<ge> new_min then None else Some ())"

definition put_dirent :: "u8 list \<Rightarrow> nat \<Rightarrow> nat \<Rightarrow> u8 \<Rightarrow> u8 list \<Rightarrow> u8 list" where
  "put_dirent buf off ino file_type name =
     splice ((put_le32 buf off ino)[off + 6 := of_nat (vfs_strlen name), off + 7 := file_type]) (off + 8)
       (take (vfs_strlen name) name)"

text \<open>The new entry in the record at \<open>off\<close>: a free record is reused whole, a live one is cut to what it uses.\<close>

definition place_dirent :: "u8 list \<Rightarrow> nat \<Rightarrow> nat \<Rightarrow> u8 \<Rightarrow> u8 list \<Rightarrow> u8 list" where
  "place_dirent buf off ino file_type name =
     (let used = entry_used buf off; old_rec_len = d_rec_len buf off in
      if used = 0 then put_dirent buf off ino file_type name
      else put_dirent (put_le16 (put_le16 buf (off + 4) used) (off + used + 4) (sub32 old_rec_len used))
             (off + used) ino file_type name)"

definition append_dirent :: "ext2_fs \<Rightarrow> nat \<Rightarrow> u8 list \<Rightarrow> u8 list \<Rightarrow> nat \<Rightarrow> u8 \<Rightarrow> ext2_state \<Rightarrow> int \<times> ext2_state" where
  "append_dirent fs dir_ino dir_inode name ino file_type st =
     (let new_logical = i_size dir_inode div xf_block_size fs;
          dir_size = i_size dir_inode;
          (new_phys, dir_inode, st) = get_or_alloc_block fs dir_inode new_logical st
      in if new_phys = 0 then (- 1, st)
         else
           let buf = overwrite (x_block st) (replicate (xf_block_size fs) 0);
               st = st\<lparr>x_block := put_dirent (put_le16 buf 4 (xf_block_size fs)) 0 ino file_type name\<rparr>;
               (rc, st) = write_block fs new_phys (x_block st) st
           in if rc \<noteq> 0 then (- 1, st)
              else write_inode fs dir_ino (put_le32 dir_inode 4 (add32 dir_size (xf_block_size fs))) st)"

definition ext2_insert_dirent :: "ext2_fs \<Rightarrow> nat \<Rightarrow> u8 list \<Rightarrow> nat \<Rightarrow> u8 \<Rightarrow> ext2_state \<Rightarrow> (int \<times> ext2_state) option" where
  "ext2_insert_dirent fs dir_ino name ino file_type st =
     (if vfs_strlen name = 0 \<or> vfs_strlen name > 255 then Some (- 1, st)
      else
        let new_min = align4 (8 + vfs_strlen name);
            (rc, dir_inode, st) = read_inode fs dir_ino st
        in if rc \<noteq> 0 then Some (- 1, st)
           else do {
             (r, st) \<leftarrow> scan_dir fs dir_inode (roomy_entry new_min) () st;
             (case r of
                Hit off phys \<Rightarrow>
                  let st = st\<lparr>x_block := place_dirent (x_block st) off ino file_type name\<rparr> in
                  Some (write_block fs phys (x_block st) st)
              | _ \<Rightarrow> Some (append_dirent fs dir_ino dir_inode name ino file_type st))
           })"

definition ext2_create :: "nat \<Rightarrow> u8 list \<Rightarrow> ext2_state \<Rightarrow> (nat option \<times> ext2_state) option" where
  "ext2_create dir name st =
     (let nd = x_nodes st ! dir in
      case vn_private nd of
        None \<Rightarrow> Some (None, st)
      | Some f \<Rightarrow>
          let fs = x_fs st ! f in
          if \<not> xf_write_supported fs then Some (None, st)
          else if vn_type nd AND VFS_DIRECTORY = 0 then Some (None, st)
          else if vfs_strlen name = 0 \<or> vfs_strlen name > 255 then Some (None, st)
          else
            let (new_ino, st) = alloc_inode fs st in
            if new_ino = 0 then Some (None, st)
            else do {
              (rc, st) \<leftarrow> ext2_insert_dirent fs (vn_inode nd) name new_ino EXT2_FT_REG_FILE st;
              (if rc \<noteq> 0 then let (rc, st) = free_inode fs new_ino st in Some (None, st)
               else Some (finish_new_file_node fs f dir new_ino name st))
            })"

text \<open>The second half of \<open>ext2_rename\<close>: the entry is found at \<open>off\<close> of block \<open>phys\<close>, which is in the block buffer.\<close>

definition rename_found :: "ext2_fs \<Rightarrow> bool \<Rightarrow> nat \<Rightarrow> u8 list \<Rightarrow> nat \<Rightarrow> nat \<Rightarrow> ext2_state \<Rightarrow> (int \<times> ext2_state) option" where
  "rename_found fs same_dir new_dir_ino new_name off phys st =
     (let target_ino = d_inode (x_block st) off; target_ftype = d_file_type (x_block st) off;
          target_rec_len = d_rec_len (x_block st) off;
          (rc, target_inode, st) = read_inode fs target_ino st
      in if rc \<noteq> 0 then Some (- 4, st)
         else if is_dir_inode target_inode then Some (- 5, st)
         else if same_dir \<and> align4 (8 + vfs_strlen new_name) \<le> target_rec_len then
           let st = st\<lparr>x_block := splice ((x_block st)[off + 6 := of_nat (vfs_strlen new_name)]) (off + 8)
                 (take (vfs_strlen new_name) new_name)\<rparr>;
               (rc, st) = write_block fs phys (x_block st) st
           in Some (if rc = 0 then 0 else - 6, st)
         else do {
           (rc, st) \<leftarrow> ext2_insert_dirent fs new_dir_ino new_name target_ino target_ftype st;
           (if rc \<noteq> 0 then Some (- 7, st)
            else
              let (rc, st) = read_blk fs phys st in
              if rc \<noteq> 0 then Some (- 8, st)
              else
                let st = st\<lparr>x_block := put_le32 (x_block st) off 0\<rparr>;
                    (rc, st) = write_block fs phys (x_block st) st
                in Some (if rc \<noteq> 0 then - 8 else 0, st))
         })"

definition ext2_rename :: "nat \<Rightarrow> u8 list \<Rightarrow> nat \<Rightarrow> u8 list \<Rightarrow> ext2_state \<Rightarrow> (int \<times> ext2_state) option" where
  "ext2_rename old_dir old_name new_dir new_name st =
     (let od = x_nodes st ! old_dir; nw = x_nodes st ! new_dir in
      case vn_private od of
        None \<Rightarrow> Some (- 1, st)
      | Some f \<Rightarrow>
          let fs = x_fs st ! f in
          if \<not> xf_write_supported fs then Some (- 1, st)
          else if vn_type od AND VFS_DIRECTORY = 0 \<or> vn_type nw AND VFS_DIRECTORY = 0 then Some (- 1, st)
          else if vfs_strlen old_name = 0 \<or> vfs_strlen new_name = 0 \<or> vfs_strlen new_name > 255 then Some (- 1, st)
          else
            let (rc, old_dir_inode, st) = read_inode fs (vn_inode od) st in
            if rc \<noteq> 0 then Some (- 1, st)
            else do {
              (r, st) \<leftarrow> scan_dir fs old_dir_inode (named_entry old_name) () st;
              (case r of
                 Bad_block \<Rightarrow> Some (- 2, st)
               | Hit off phys \<Rightarrow> rename_found fs (old_dir = new_dir) (vn_inode nw) new_name off phys st
               | _ \<Rightarrow> Some (- 3, st))
            })"

text \<open>Releasing a list of blocks; a zero is a hole, a failed release is ignored.\<close>

fun free_blocks :: "ext2_fs \<Rightarrow> nat list \<Rightarrow> ext2_state \<Rightarrow> ext2_state" where
  "free_blocks fs [] st = st"
| "free_blocks fs (b # bs) st = free_blocks fs bs (if b \<noteq> 0 then snd (free_block fs b st) else st)"

text \<open>The tail of \<open>ext2_unlink\<close> for a file without further links.\<close>

definition release_file :: "ext2_fs \<Rightarrow> nat \<Rightarrow> u8 list \<Rightarrow> ext2_state \<Rightarrow> ext2_state" where
  "release_file fs ino inode st =
     (let st = free_blocks fs (map (i_block inode) [0 ..< 12]) st;
          st = (if i_block inode 12 \<noteq> 0 then
                  let (rc, st) = read_ind fs (i_block inode 12) st;
                      st = (if rc = 0 then free_blocks fs (map (\<lambda>i. le32 (x_ind st) (4 * i)) [0 ..< xf_block_size fs div 4]) st
                            else st)
                  in snd (free_block fs (i_block inode 12) st)
                else st);
          st = snd (free_inode fs ino st)
      in snd (write_inode fs ino (replicate 128 0) st))"

definition unlink_found :: "ext2_fs \<Rightarrow> nat \<Rightarrow> nat \<Rightarrow> ext2_state \<Rightarrow> int \<times> ext2_state" where
  "unlink_found fs off phys st =
     (let target_ino = d_inode (x_block st) off; (rc, target_inode, st) = read_inode fs target_ino st in
      if rc \<noteq> 0 then (- 4, st)
      else if is_dir_inode target_inode then (- 5, st)
      else if has_extents target_inode then (- 6, st)
      else if i_block target_inode 13 \<noteq> 0 \<or> i_block target_inode 14 \<noteq> 0 then (- 7, st)
      else
        let st = st\<lparr>x_block := put_le32 (x_block st) off 0\<rparr>;
            (rc, st) = write_block fs phys (x_block st) st
        in if rc \<noteq> 0 then (- 8, st)
           else if i_links_count target_inode > 1 then
             (0, snd (write_inode fs target_ino (put_le16 target_inode 26 (i_links_count target_inode - 1)) st))
           else (0, release_file fs target_ino target_inode st))"

definition ext2_unlink :: "nat \<Rightarrow> u8 list \<Rightarrow> ext2_state \<Rightarrow> (int \<times> ext2_state) option" where
  "ext2_unlink dir name st =
     (let nd = x_nodes st ! dir in
      case vn_private nd of
        None \<Rightarrow> Some (- 1, st)
      | Some f \<Rightarrow>
          let fs = x_fs st ! f in
          if \<not> xf_write_supported fs then Some (- 1, st)
          else if vn_type nd AND VFS_DIRECTORY = 0 then Some (- 1, st)
          else if vfs_strlen name = 0 then Some (- 1, st)
          else
            let (rc, dir_inode, st) = read_inode fs (vn_inode nd) st in
            if rc \<noteq> 0 then Some (- 1, st)
            else do {
              (r, st) \<leftarrow> scan_dir fs dir_inode (named_entry name) () st;
              (case r of
                 Bad_block \<Rightarrow> Some (- 2, st)
               | Hit off phys \<Rightarrow> Some (unlink_found fs off phys st)
               | _ \<Rightarrow> Some (- 3, st))
            })"

section \<open>Defragmentation\<close>

text \<open>The physical blocks of the first \<open>count\<close> logical ones, in order; \<open>None\<close> at a hole.\<close>

fun collect_blocks :: "ext2_fs \<Rightarrow> u8 list \<Rightarrow> nat \<Rightarrow> nat \<Rightarrow> ext2_state \<Rightarrow> nat list option \<times> ext2_state" where
  "collect_blocks fs inode i 0 st = (Some [], st)"
| "collect_blocks fs inode i (Suc n) st =
     (let (phys, st) = get_block fs inode i st in
      if phys = 0 then (None, st)
      else
        let (bs, st) = collect_blocks fs inode (i + 1) n st in (map_option (\<lambda>bs. phys # bs) bs, st))"

fun contiguous :: "nat list \<Rightarrow> bool" where
  "contiguous (a # b # bs) \<longleftrightarrow> b = add32 a 1 \<and> contiguous (b # bs)"
| "contiguous _ \<longleftrightarrow> True"

definition new_run :: "nat \<Rightarrow> nat \<Rightarrow> nat list" where
  "new_run new_start n = map (add32 new_start) [0 ..< n]"

text \<open>Unconditional releases, as the error paths and the end of the move make them.\<close>

fun free_all :: "ext2_fs \<Rightarrow> nat list \<Rightarrow> ext2_state \<Rightarrow> ext2_state" where
  "free_all fs [] st = st"
| "free_all fs (b # bs) st = free_all fs bs (snd (free_block fs b st))"

fun copy_blocks :: "ext2_fs \<Rightarrow> (nat \<times> nat) list \<Rightarrow> ext2_state \<Rightarrow> bool \<times> ext2_state" where
  "copy_blocks fs [] st = (True, st)"
| "copy_blocks fs ((old_b, new_b) # ps) st =
     (let (rc, st) = read_blk fs old_b st in
      if rc \<noteq> 0 then (False, st)
      else
        let (rc, st) = write_block fs new_b (x_block st) st in
        if rc \<noteq> 0 then (False, st) else copy_blocks fs ps st)"

definition set_direct :: "u8 list \<Rightarrow> nat \<Rightarrow> nat \<Rightarrow> u8 list" where
  "set_direct inode new_start n = fold (\<lambda>i inode. set_i_block inode i (add32 new_start i)) [0 ..< n] inode"

definition set_pointers :: "u8 list \<Rightarrow> nat \<Rightarrow> nat \<Rightarrow> u8 list" where
  "set_pointers buf new_start count = fold (\<lambda>i buf. put_le32 buf (4 * (i - 12)) (add32 new_start i)) [12 ..< count] buf"

text \<open>The indirect pointers of a moved file; \<open>False\<close> leaves them at the old blocks.\<close>

definition repoint_indirect :: "ext2_fs \<Rightarrow> u8 list \<Rightarrow> nat \<Rightarrow> nat \<Rightarrow> ext2_state \<Rightarrow> bool \<times> ext2_state" where
  "repoint_indirect fs inode new_start count st =
     (if count > 12 then
        let (rc, st) = read_ind fs (i_block inode 12) st in
        if rc \<noteq> 0 then (False, st)
        else
          let st = st\<lparr>x_ind := set_pointers (x_ind st) new_start count\<rparr>;
              (rc, st) = write_block fs (i_block inode 12) (x_ind st) st
          in (rc = 0, st)
      else (True, st))"

definition ext2_defrag_one :: "ext2_fs \<Rightarrow> nat \<Rightarrow> ext2_state \<Rightarrow> int \<times> ext2_state" where
  "ext2_defrag_one fs ino st =
     (let (rc, inode, st) = read_inode fs ino st in
      if rc \<noteq> 0 then (- 1, st)
      else if has_extents inode then (- 1, st)
      else if i_size inode = 0 then (0, st)
      else
        let ptrs = xf_block_size fs div 4; max_blocks = add32 12 ptrs;
            count = sub32 (add32 (i_size inode) (xf_block_size fs)) 1 div xf_block_size fs
        in if count > max_blocks then (- 1, st)
           else if max_blocks > 12 + 1024 then (- 1, st)
           else (case collect_blocks fs inode 0 count st of
                   (None, st) \<Rightarrow> (- 1, st)
                 | (Some old_blocks, st) \<Rightarrow>
                     if contiguous old_blocks then (0, st)
                     else
                       let ((new_start, got), st) = alloc_block_run fs count st in
                       if new_start = 0 \<or> got \<noteq> count then (- 1, free_all fs (new_run new_start got) st)
                       else
                         let (ok, st) = copy_blocks fs (zip old_blocks (new_run new_start count)) st in
                         if \<not> ok then (- 1, free_all fs (new_run new_start count) st)
                         else
                           let inode = set_direct inode new_start (if count < 12 then count else 12);
                               (rc, st) = write_inode fs ino inode st
                           in if rc \<noteq> 0 then (- 1, free_all fs (new_run new_start count) st)
                              else
                                let (ok, st) = repoint_indirect fs inode new_start count st in
                                if \<not> ok then (1, st) else (1, free_all fs old_blocks st)))"

text \<open>The loop over the entries: \<open>(scanned, moved, skipped)\<close>.\<close>

partial_function (option) defrag_entries :: "nat \<Rightarrow> ext2_fs \<Rightarrow> nat \<Rightarrow> nat \<times> nat \<times> nat \<Rightarrow> ext2_state \<Rightarrow>
    ((nat \<times> nat \<times> nat) \<times> ext2_state) option" where
  "defrag_entries dir fs idx counts st =
     do {
       (de, st) \<leftarrow> ext2_readdir dir idx st;
       (case de of
          None \<Rightarrow> Some (counts, st)
        | Some de \<Rightarrow>
            if de_type de AND VFS_DIRECTORY \<noteq> 0 then defrag_entries dir fs (add32 idx 1) counts st
            else do {
              (n, st) \<leftarrow> ext2_finddir dir (take (MAX_FILENAME - 1) (cstr_of (de_name de))) st;
              (case n of
                 None \<Rightarrow> defrag_entries dir fs (add32 idx 1) counts st
               | Some n \<Rightarrow>
                   let (scanned, moved, skipped) = counts; (rc, st) = ext2_defrag_one fs (vn_inode (x_nodes st ! n)) st
                   in defrag_entries dir fs (add32 idx 1)
                        (scanned + 1, if rc = 1 then moved + 1 else moved, if rc < 0 then skipped + 1 else skipped) st)
            })
     }"

definition ext2_defrag :: "nat \<Rightarrow> ext2_state \<Rightarrow> (int \<times> (nat \<times> nat \<times> nat) \<times> ext2_state) option" where
  "ext2_defrag dir st =
     (case vn_private (x_nodes st ! dir) of
        None \<Rightarrow> Some (- 1, (0, 0, 0), st)
      | Some f \<Rightarrow> map_option (\<lambda>(counts, st). (0, counts, st)) (defrag_entries dir (x_fs st ! f) 0 (0, 0, 0) st))"

section \<open>Mounting\<close>

text \<open>The volume that a superblock describes.\<close>

definition sb_fs :: "u8 list \<Rightarrow> u8 \<Rightarrow> u8 \<Rightarrow> nat \<Rightarrow> ext2_fs" where
  "sb_fs sb drive_type drive part_lba =
     (let rev = le32 sb 76; block_size = unat (push_bit (le32 sb 24) (1024 :: u32));
          state_clean = (rev < 1 \<or> (of_nat (le16 sb 58) :: u16) AND EXT2_VALID_FS \<noteq> 0);
          rocompat_ok = (rev < 1 \<or> (of_nat (le32 sb 100) :: u32) AND NOT EXT2_SUPPORTED_ROCOMPAT_FOR_WRITE = 0)
      in \<lparr>xf_drive = drive, xf_drive_type = drive_type, xf_part_lba = part_lba, xf_block_size = block_size,
          xf_spb = block_size div 512, xf_ipg = le32 sb 40, xf_bpg = le32 sb 32,
          xf_inode_size = (if rev \<ge> 1 then le16 sb 88 else 128), xf_first_data_block = le32 sb 20,
          xf_groups_count = sub32 (add32 (le32 sb 4) (le32 sb 32)) 1 div le32 sb 32,
          xf_blocks_count = le32 sb 4, xf_inodes_count = le32 sb 0,
          xf_first_ino = (if rev \<ge> 1 then le32 sb 84 else 11), xf_write_supported = (state_clean \<and> rocompat_ok)\<rparr>)"

definition ext2_mount :: "u8 \<Rightarrow> u8 \<Rightarrow> nat \<Rightarrow> mount_point \<Rightarrow> ext2_state \<Rightarrow> int \<times> mount_point \<times> ext2_state" where
  "ext2_mount drive_type drive part_lba mp st =
     (let (rc, sb, d) = blk_read drive_type drive (add64 part_lba 2) 2 (replicate 1024 0) (x_disk st);
          st = st\<lparr>x_disk := d\<rparr>
      in if rc \<noteq> 0 then (- 1, mp, st)
         else if le16 sb 56 \<noteq> EXT2_MAGIC then (- 2, mp, st)
         else if le32 sb 76 \<ge> 1 \<and> (of_nat (le32 sb 96) :: u32) AND NOT EXT2_SUPPORTED_INCOMPAT \<noteq> 0 then (- 6, mp, st)
         else (case ext2_alloc_fs st of
                 (None, st) \<Rightarrow> (- 3, mp, st)
               | (Some f, st) \<Rightarrow>
                   let st = st\<lparr>x_fs := (x_fs st)[f := sb_fs sb drive_type drive part_lba]\<rparr> in
                   case ext2_alloc_node st of
                     (None, st) \<Rightarrow> (- 4, mp, st)
                   | (Some root, st) \<Rightarrow>
                       let st = ext2_set_node root
                             \<lparr>vn_name = [0x2F], vn_type = VFS_DIRECTORY OR VFS_MOUNTPOINT, vn_size = 0,
                              vn_inode = EXT2_ROOT_INO, vn_ops = dir_ops, vn_parent = None, vn_private = Some f\<rparr> st
                       in (0, mp\<lparr>mt_root := Some root, mt_drive := drive, mt_fs_type := FS_EXT2,
                                 mt_part_lba := part_lba, mt_active := True\<rparr>, st)))"

end
