(* ===== verification/Ext2_Blocks.thy ===== *)
theory Ext2_Blocks
  imports Ext2
begin

text \<open>
  The block level of the ext2 driver on devices that work: a volume is the contents of its blocks, reading a block
  changes nothing but the buffer it is read into, writing one changes that block alone, and updating the superblock's
  counters leaves every other block as it is. On top of that the bitmap allocator: \<open>alloc_block\<close> and \<open>free_block\<close>
  implement an abstract allocator whose state is the set of blocks in use.
\<close>

section \<open>Volumes and states\<close>

text \<open>A geometry the driver can handle: blocks of 1024, 2048 or 4096 bytes, the superblock in the block that the
  volume calls its first.\<close>

definition geometry :: "ext2_fs \<Rightarrow> bool" where
  "geometry fs \<longleftrightarrow> xf_spb fs \<in> {2, 4, 8} \<and> xf_block_size fs = 512 * xf_spb fs \<and> xf_part_lba fs < 2 ^ 60 \<and>
     xf_first_data_block fs = 1024 div xf_block_size fs \<and> 0 < xf_bpg fs \<and> 0 < xf_ipg fs"

definition calm :: "ext2_state \<Rightarrow> bool" where
  "calm st \<longleftrightarrow> healthy (x_disk st) \<and> disk_ok (x_disk st) \<and> length (x_block st) = 4096 \<and> length (x_meta st) = 4096 \<and>
     length (x_ind st) = 4096 \<and> length (x_bitmap st) = 4096"

text \<open>The contents of a block.\<close>

definition blk :: "ext2_fs \<Rightarrow> ext2_state \<Rightarrow> nat \<Rightarrow> u8 list" where
  "blk fs st b = read_sectors (x_disk st) (xf_drive_type fs) (xf_drive fs) (block_lba fs b) (xf_spb fs)"

definition tick :: "ext2_state \<Rightarrow> ext2_state" where
  "tick st = st\<lparr>x_disk := (x_disk st)\<lparr>dk_plan := tl (dk_plan (x_disk st))\<rparr>\<rparr>"

definition put_blk :: "ext2_fs \<Rightarrow> nat \<Rightarrow> u8 list \<Rightarrow> ext2_state \<Rightarrow> ext2_state" where
  "put_blk fs b buf st = snd (write_block fs b buf st)"

named_theorems ext2_simps

lemma tick_simps [simp]: "x_block (tick st) = x_block st" "x_meta (tick st) = x_meta st" "x_ind (tick st) = x_ind st"
  "x_bitmap (tick st) = x_bitmap st" "x_fs (tick st) = x_fs st" "x_nodes (tick st) = x_nodes st"
  by (simp_all add: tick_def)

lemma blk_cong: "dk_sec (x_disk st') = dk_sec (x_disk st) \<Longrightarrow> blk fs st' = blk fs st"
  by (simp add: blk_def read_sectors_def fun_eq_iff)

lemma blk_buffers [simp]: "blk fs (st\<lparr>x_block := a\<rparr>) = blk fs st" "blk fs (st\<lparr>x_meta := a\<rparr>) = blk fs st"
  "blk fs (st\<lparr>x_ind := a\<rparr>) = blk fs st" "blk fs (st\<lparr>x_bitmap := a\<rparr>) = blk fs st" "blk fs (st\<lparr>x_nodes := ns\<rparr>) = blk fs st"
  "blk fs (tick st) = blk fs st"
  by (rule blk_cong; simp add: tick_def)+

lemma calm_tick [simp]: "calm st \<Longrightarrow> calm (tick st)"
  by (auto simp: calm_def tick_def disk_ok_def)

lemma calm_buffers [simp]: "calm st \<Longrightarrow> length a = 4096 \<Longrightarrow> calm (st\<lparr>x_block := a\<rparr>)"
  "calm st \<Longrightarrow> length a = 4096 \<Longrightarrow> calm (st\<lparr>x_meta := a\<rparr>)" "calm st \<Longrightarrow> length a = 4096 \<Longrightarrow> calm (st\<lparr>x_ind := a\<rparr>)"
  "calm st \<Longrightarrow> length a = 4096 \<Longrightarrow> calm (st\<lparr>x_bitmap := a\<rparr>)" "calm st \<Longrightarrow> calm (st\<lparr>x_nodes := ns\<rparr>)"
  by (simp_all add: calm_def)

lemma geometry_block_size: "geometry fs \<Longrightarrow> xf_block_size fs \<in> {1024, 2048, 4096}"
  by (auto simp: geometry_def)

lemma geometry_spb: "geometry fs \<Longrightarrow> xf_spb fs \<le> 8 \<and> 0 < xf_spb fs \<and> xf_spb fs mod 2 ^ 8 = xf_spb fs \<and> xf_spb fs \<le> blk_max ty"
  by (auto simp: geometry_def blk_max_def)

lemma geometry_positive: "geometry fs \<Longrightarrow> 0 < xf_block_size fs \<and> xf_block_size fs \<le> 4096 \<and> xf_block_size fs mod 1024 = 0"
  by (auto simp: geometry_def)

lemma length_blk [simp]: "geometry fs \<Longrightarrow> calm st \<Longrightarrow> length (blk fs st b) = xf_block_size fs"
  by (simp add: blk_def length_read_sectors calm_def geometry_def)

lemma length_overwrite_blk [simp]:
  "geometry fs \<Longrightarrow> calm st \<Longrightarrow> length buf = 4096 \<Longrightarrow> length (overwrite buf (blk fs st b)) = 4096"
  using geometry_positive [of fs] by (simp add: overwrite_def)

lemma calm_lengths [simp]: "calm st \<Longrightarrow> length (x_block st) = 4096" "calm st \<Longrightarrow> length (x_meta st) = 4096"
  "calm st \<Longrightarrow> length (x_ind st) = 4096" "calm st \<Longrightarrow> length (x_bitmap st) = 4096"
  by (simp_all add: calm_def)

lemma calmD: "calm st \<Longrightarrow> healthy (x_disk st)" "calm st \<Longrightarrow> disk_ok (x_disk st)"
  by (simp_all add: calm_def del: calm_lengths)

section \<open>Transfers\<close>

lemma read_block_calm:
  assumes "geometry fs" "calm st"
  shows "read_block fs b buf st = (0, overwrite buf (blk fs st b), tick st)"
  using geometry_spb [OF assms(1), of "xf_drive_type fs"] calmD [OF assms(2)]
  by (simp add: read_block_def blk_read_healthy blk_def tick_def)

lemma reads_calm:
  assumes "geometry fs" "calm st"
  shows "read_blk fs b st = (0, (tick st)\<lparr>x_block := overwrite (x_block st) (blk fs st b)\<rparr>)"
    and "read_meta fs b st = (0, (tick st)\<lparr>x_meta := overwrite (x_meta st) (blk fs st b)\<rparr>)"
    and "read_ind fs b st = (0, (tick st)\<lparr>x_ind := overwrite (x_ind st) (blk fs st b)\<rparr>)"
    and "read_bitmap fs b st = (0, (tick st)\<lparr>x_bitmap := overwrite (x_bitmap st) (blk fs st b)\<rparr>)"
  by (simp_all add: read_blk_def read_meta_def read_ind_def read_bitmap_def read_block_calm [OF assms])

lemma write_block_calm:
  assumes "geometry fs" "calm st"
  shows "write_block fs b buf st = (0, put_blk fs b buf st)"
  using geometry_spb [OF assms(1), of "xf_drive_type fs"] calmD [OF assms(2)]
  by (simp add: put_blk_def write_block_def blk_write_healthy)

lemma put_blk_fields [simp]: "x_block (put_blk fs b buf st) = x_block st" "x_meta (put_blk fs b buf st) = x_meta st"
  "x_ind (put_blk fs b buf st) = x_ind st" "x_bitmap (put_blk fs b buf st) = x_bitmap st"
  "x_fs (put_blk fs b buf st) = x_fs st" "x_nodes (put_blk fs b buf st) = x_nodes st"
  by (simp_all add: put_blk_def write_block_def split_def Let_def)

text \<open>A write to some sectors of the volume's device, as seen by the rest.\<close>

lemma disk_ok_write:
  assumes "disk_ok d" "512 * n \<le> length buf"
  shows "disk_ok (d\<lparr>dk_sec := (dk_sec d)(ty := (dk_sec d ty)(drv := write_sectors (dk_sec d ty drv) lba n buf)), dk_plan := p\<rparr>)"
  using assms by (auto simp: disk_ok_def write_sectors_at)

lemma healthy_write: "healthy d \<Longrightarrow> healthy (d\<lparr>dk_sec := f, dk_plan := tl (dk_plan d)\<rparr>)"
  by (cases "dk_plan d") (auto simp: healthy_def)

lemma calm_put_blk [simp]:
  assumes "geometry fs" "calm st" "xf_block_size fs \<le> length buf"
  shows "calm (put_blk fs b buf st)"
proof -
  have h: "healthy (x_disk st)" "disk_ok (x_disk st)" using calmD [OF assms(2)] .
  have n: "512 * xf_spb fs \<le> length buf" using assms(1,3) by (simp add: geometry_def)
  have "healthy (x_disk (put_blk fs b buf st)) \<and> disk_ok (x_disk (put_blk fs b buf st))"
    using geometry_spb [OF assms(1), of "xf_drive_type fs"]
    by (simp add: put_blk_def write_block_def blk_write_healthy [OF h(1)] healthy_write [OF h(1)] disk_ok_write [OF h(2) n])
  then show ?thesis using calm_lengths [OF assms(2)] by (simp add: calm_def del: calm_lengths)
qed

lemma block_lba_exact: "geometry fs \<Longrightarrow> b < 2 ^ 32 \<Longrightarrow> block_lba fs b = xf_part_lba fs + b * xf_spb fs"
proof -
  assume g: "geometry fs" and b: "b < 2 ^ 32"
  have "b * xf_spb fs \<le> b * 8" using geometry_spb [OF g] by (simp add: mult_le_mono2)
  also have "\<dots> < 2 ^ 35" using b by simp
  finally have "xf_part_lba fs + b * xf_spb fs < 2 ^ 60 + 2 ^ 35" using g by (simp add: geometry_def)
  then show ?thesis unfolding block_lba_def by (intro add64_exact) simp
qed

lemma take_piece: "i < n \<Longrightarrow> take 512 (drop (512 * i) (take (512 * n) xs)) = take 512 (drop (512 * i) xs)"
proof -
  assume "i < n"
  then have "512 * i + 512 \<le> 512 * n" by simp
  then have "512 \<le> 512 * n - 512 * i" by linarith
  then show ?thesis by (simp only: drop_take take_take min_def if_True)
qed

lemma concat_pieces: "length xs = 512 * n \<Longrightarrow> concat (map (\<lambda>i. take 512 (drop (512 * i) xs)) [0 ..< n]) = xs"
proof (induction n arbitrary: xs)
  case (Suc n)
  have m: "map (\<lambda>i. take 512 (drop (512 * i) xs)) [0 ..< n] = map (\<lambda>i. take 512 (drop (512 * i) (take (512 * n) xs))) [0 ..< n]"
    by (rule map_cong) (simp_all only: atLeastLessThan_upt [symmetric] atLeastLessThan_iff take_piece refl)
  have "concat (map (\<lambda>i. take 512 (drop (512 * i) (take (512 * n) xs))) [0 ..< n]) = take (512 * n) xs"
    using Suc.prems by (intro Suc.IH) simp
  then have "concat (map (\<lambda>i. take 512 (drop (512 * i) xs)) [0 ..< n]) = take (512 * n) xs" by (simp only: m)
  moreover have "take 512 (drop (512 * n) xs) = drop (512 * n) xs" using Suc.prems by (intro take_all) simp
  ultimately show ?case by (simp only: upt_Suc_append [OF le0] map_append concat_append list.map concat.simps append_Nil2 append_take_drop_id)
qed simp

lemma block_ranges_apart:
  assumes "b \<noteq> b'" "i < n" "j < n"
  shows "p + b' * n + i \<noteq> p + b * n + (j :: nat)"
proof
  assume "p + b' * n + i = p + b * n + j"
  then have e: "n * b' + i = n * b + j" by (simp add: mult.commute)
  have "(n * b' + i) div n = b'" "(n * b + j) div n = b" using assms(2,3) by simp_all
  with e assms(1) show False by simp
qed

lemma read_sectors_cong:
  "n = n' \<Longrightarrow> (\<And>i. i < n' \<Longrightarrow> dk_sec d ty drv (lba + i) = dk_sec d' ty drv (lba + i)) \<Longrightarrow>
    read_sectors d ty drv lba n = read_sectors d' ty drv lba n'"
  by (auto simp: read_sectors_def intro!: arg_cong [of _ _ concat])

lemma blk_put [simp]:
  assumes "geometry fs" "calm st" "xf_block_size fs \<le> length buf" "b < 2 ^ 32" "b' < 2 ^ 32"
  shows "blk fs (put_blk fs b buf st) b' = (if b' = b then take (xf_block_size fs) buf else blk fs st b')"
proof -
  let ?n = "xf_spb fs" and ?p = "xf_part_lba fs" and ?ty = "xf_drive_type fs" and ?dv = "xf_drive fs"
  note sp = geometry_spb [OF assms(1), of "xf_drive_type fs"]
  have sec: "dk_sec (x_disk (put_blk fs b buf st)) ?ty ?dv a =
      (if block_lba fs b \<le> a \<and> a < block_lba fs b + ?n then take 512 (drop (512 * (a - block_lba fs b)) buf)
       else dk_sec (x_disk st) ?ty ?dv a)" for a
    using calmD [OF assms(2)] sp by (simp add: put_blk_def write_block_def blk_write_healthy write_sectors_at)
  have lb: "block_lba fs b = ?p + b * ?n" "block_lba fs b' = ?p + b' * ?n"
    using block_lba_exact assms by simp_all
  show ?thesis
  proof (cases "b' = b")
    case True
    have bs: "xf_block_size fs = 512 * ?n" using assms(1) by (simp add: geometry_def)
    have "blk fs (put_blk fs b buf st) b' = concat (map (\<lambda>i. take 512 (drop (512 * i) (take (512 * ?n) buf))) [0 ..< ?n])"
    proof -
      have "dk_sec (x_disk (put_blk fs b buf st)) ?ty ?dv (block_lba fs b + i) = take 512 (drop (512 * i) (take (512 * ?n) buf))"
        if "i < ?n" for i using that by (simp only: sec take_piece) simp
      then show ?thesis unfolding blk_def read_sectors_def True by (intro arg_cong [of _ _ concat] map_cong) simp_all
    qed
    also have "\<dots> = take (512 * ?n) buf" using assms(3) bs by (intro concat_pieces) simp
    finally show ?thesis using True bs by simp
  next
    case False
    have "dk_sec (x_disk (put_blk fs b buf st)) ?ty ?dv (block_lba fs b' + i) = dk_sec (x_disk st) ?ty ?dv (block_lba fs b' + i)"
      if "i < ?n" for i
    proof -
      have "\<not> (block_lba fs b \<le> block_lba fs b' + i \<and> block_lba fs b' + i < block_lba fs b + ?n)"
      proof
        assume "block_lba fs b \<le> block_lba fs b' + i \<and> block_lba fs b' + i < block_lba fs b + ?n"
        then obtain j where "j < ?n" "block_lba fs b' + i = block_lba fs b + j"
          by (intro that [of "block_lba fs b' + i - block_lba fs b"]) auto
        then show False using block_ranges_apart [OF False [symmetric] that, of j "xf_part_lba fs"] lb by simp
      qed
      then show ?thesis by (simp only: sec if_False)
    qed
    then show ?thesis using False unfolding blk_def by (auto intro!: read_sectors_cong)
  qed
qed

text \<open>The superblock's counters live in the first block.\<close>

lemma sb_adjust_fields [simp]: "x_block (sb_adjust_free fs u v st) = x_block st" "x_meta (sb_adjust_free fs u v st) = x_meta st"
  "x_ind (sb_adjust_free fs u v st) = x_ind st" "x_bitmap (sb_adjust_free fs u v st) = x_bitmap st"
  "x_fs (sb_adjust_free fs u v st) = x_fs st" "x_nodes (sb_adjust_free fs u v st) = x_nodes st"
  by (simp_all add: sb_adjust_free_def split_def Let_def)

lemma sb_adjust_disk:
  assumes "geometry fs" "calm st"
  obtains sb where "length sb = 1024" "x_disk (sb_adjust_free fs u v st) =
    (x_disk st)\<lparr>dk_sec := (dk_sec (x_disk st))(xf_drive_type fs := (dk_sec (x_disk st) (xf_drive_type fs))
       (xf_drive fs := write_sectors (dk_sec (x_disk st) (xf_drive_type fs) (xf_drive fs)) (xf_part_lba fs + 2) 2 sb)),
       dk_plan := tl (tl (dk_plan (x_disk st)))\<rparr>"
proof -
  let ?d = "x_disk st"
  let ?d1 = "?d\<lparr>dk_plan := tl (dk_plan ?d)\<rparr>"
  have h: "healthy ?d" "disk_ok ?d" using calmD [OF assms(2)] .
  have m: "2 \<le> blk_max ty" for ty by (simp add: blk_max_def)
  have l: "add64 (xf_part_lba fs) 2 = xf_part_lba fs + 2" using assms(1) by (intro add64_exact) (simp add: geometry_def)
  define sb0 where "sb0 = overwrite (replicate 1024 0) (read_sectors ?d (xf_drive_type fs) (xf_drive fs) (xf_part_lba fs + 2) 2)"
  have l0: "length sb0 = 1024" by (simp add: sb0_def overwrite_def length_read_sectors [OF h(2)])
  define sb where "sb = put_le32 (put_le32 sb0 12 (add32 (le32 sb0 12) (nat (u mod 2 ^ 32)))) 16
     (add32 (le32 (put_le32 sb0 12 (add32 (le32 sb0 12) (nat (u mod 2 ^ 32)))) 16) (nat (v mod 2 ^ 32)))"
  have "sb_adjust_free fs u v st = st\<lparr>x_disk := snd (blk_write (xf_drive_type fs) (xf_drive fs) (xf_part_lba fs + 2) 2 sb ?d1)\<rparr>"
    unfolding sb_adjust_free_def l by (simp add: blk_read_healthy [OF h(1) m] sb0_def sb_def Let_def split_def)
  moreover have "length sb = 1024" by (simp add: sb_def l0)
  ultimately show ?thesis using that [of sb] by (simp add: blk_write_healthy [OF healthy_tl [OF h(1)] m])
qed

lemma sb_adjust_calm:
  assumes "geometry fs" "calm st"
  shows "calm (sb_adjust_free fs u v st)"
    and "b < 2 ^ 32 \<Longrightarrow> b \<noteq> xf_first_data_block fs \<Longrightarrow> blk fs (sb_adjust_free fs u v st) b = blk fs st b"
proof -
  obtain sb where sb: "length sb = 1024" "x_disk (sb_adjust_free fs u v st) =
    (x_disk st)\<lparr>dk_sec := (dk_sec (x_disk st))(xf_drive_type fs := (dk_sec (x_disk st) (xf_drive_type fs))
       (xf_drive fs := write_sectors (dk_sec (x_disk st) (xf_drive_type fs) (xf_drive fs)) (xf_part_lba fs + 2) 2 sb)),
       dk_plan := tl (tl (dk_plan (x_disk st)))\<rparr>"
    by (rule sb_adjust_disk [OF assms])
  have "healthy (x_disk (sb_adjust_free fs u v st)) \<and> disk_ok (x_disk (sb_adjust_free fs u v st))"
    unfolding sb(2) using disk_ok_write [OF calmD(2) [OF assms(2)], of 2 sb] sb(1)
      healthy_tl [OF healthy_tl [OF calmD(1) [OF assms(2)]]] by (simp add: healthy_def)
  then show "calm (sb_adjust_free fs u v st)" using calm_lengths [OF assms(2)] by (simp add: calm_def del: calm_lengths)
  assume b: "b < 2 ^ 32" "b \<noteq> xf_first_data_block fs"
  have "\<not> (xf_part_lba fs + 2 \<le> block_lba fs b + i \<and> block_lba fs b + i < xf_part_lba fs + 2 + 2)" if "i < xf_spb fs" for i
  proof
    assume "xf_part_lba fs + 2 \<le> block_lba fs b + i \<and> block_lba fs b + i < xf_part_lba fs + 2 + 2"
    then have r: "2 \<le> b * xf_spb fs + i" "b * xf_spb fs + i < 4" using block_lba_exact [OF assms(1) b(1)] by auto
    have "xf_spb fs = 2 \<or> xf_spb fs = 4 \<or> xf_spb fs = 8" using assms(1) by (simp add: geometry_def)
    then show False using r that b(2) assms(1) by (auto simp: geometry_def)
  qed
  then show "blk fs (sb_adjust_free fs u v st) b = blk fs st b"
    unfolding blk_def sb(2) by (intro read_sectors_cong refl) (auto simp: write_sectors_at)
qed

section \<open>Group descriptors\<close>

definition gd_blk :: "ext2_fs \<Rightarrow> nat \<Rightarrow> nat" where
  "gd_blk fs g = fst (locate_bgd fs g)"

definition gd_off :: "ext2_fs \<Rightarrow> nat \<Rightarrow> nat" where
  "gd_off fs g = snd (locate_bgd fs g)"

definition gdesc :: "ext2_fs \<Rightarrow> ext2_state \<Rightarrow> nat \<Rightarrow> u8 list" where
  "gdesc fs st g = take 32 (drop (gd_off fs g) (blk fs st (gd_blk fs g)))"

lemma gd_place:
  assumes "geometry fs" "32 * g < 2 ^ 32"
  shows "gd_blk fs g = xf_first_data_block fs + 1 + 32 * g div xf_block_size fs" "gd_off fs g = 32 * g mod xf_block_size fs"
    "gd_off fs g + 32 \<le> xf_block_size fs" "gd_blk fs g < 2 ^ 32" "gd_blk fs g \<noteq> xf_first_data_block fs"
proof -
  have bs: "xf_block_size fs \<in> {1024, 2048, 4096}" using geometry_block_size [OF assms(1)] .
  have f: "xf_first_data_block fs \<le> 1" using bs assms(1) by (auto simp: geometry_def)
  have m: "mul32 g 32 = 32 * g" using assms(2) by (subst mul32_exact) (simp_all add: mult.commute)
  have d: "32 * g div xf_block_size fs \<le> 2 ^ 22"
  proof -
    have "32 * g div xf_block_size fs \<le> 32 * g div 1024" using bs by (intro div_le_mono2) auto
    also have "\<dots> \<le> 2 ^ 32 div 1024" using assms(2) by (intro div_le_mono) simp
    finally show ?thesis by simp
  qed
  have a1: "add32 (xf_first_data_block fs) 1 = xf_first_data_block fs + 1" using f by (intro add32_exact) simp
  have a2: "add32 (xf_first_data_block fs + 1) (32 * g div xf_block_size fs) = xf_first_data_block fs + 1 + 32 * g div xf_block_size fs"
    using f d by (intro add32_exact) simp
  show b: "gd_blk fs g = xf_first_data_block fs + 1 + 32 * g div xf_block_size fs" "gd_off fs g = 32 * g mod xf_block_size fs"
    by (simp_all only: gd_blk_def gd_off_def locate_bgd_def m a1 a2 Let_def fst_conv snd_conv)
  show "gd_blk fs g < 2 ^ 32" "gd_blk fs g \<noteq> xf_first_data_block fs" using f d b(1) by simp_all
  have "32 dvd xf_block_size fs" using bs by auto
  then obtain k where k: "xf_block_size fs = 32 * k" by (auto simp: dvd_def)
  have "32 * g mod xf_block_size fs = 32 * (g mod k)" unfolding k by (rule mult_mod_right [symmetric])
  moreover have "g mod k < k" using k bs by (intro mod_less_divisor) auto
  then have "32 * (g mod k) + 32 \<le> 32 * k" by simp
  ultimately show "gd_off fs g + 32 \<le> xf_block_size fs" using b(2) k by simp
qed

text \<open>Slices of a buffer that holds a block.\<close>

lemma take_overwrite: "take (length data) (overwrite buf data) = data"
  by (simp add: overwrite_def)

lemma length_splice: "i + length xs \<le> length buf \<Longrightarrow> length (splice buf i xs) = length buf"
  by (simp add: splice_def)

lemma splice_overwrite:
  "i + length xs \<le> length data \<Longrightarrow> length data \<le> length buf \<Longrightarrow>
     take (length data) (splice (overwrite buf data) i xs) = splice data i xs"
  by (auto simp: splice_def overwrite_def)

lemma splice_same: "i + length xs \<le> length buf \<Longrightarrow> take (length xs) (drop i (splice buf i xs)) = xs"
  by (simp add: splice_def)

lemma splice_other:
  assumes "i + length xs \<le> length buf" "j + n \<le> i \<or> i + length xs \<le> j"
  shows "take n (drop j (splice buf i xs)) = take n (drop j buf)"
proof -
  consider "j + n \<le> i" | "i + length xs \<le> j" using assms(2) by blast
  then show ?thesis
  proof cases
    case 1
    then have "take n (drop j (take i buf)) = take n (drop j buf)" by (simp add: drop_take min_def)
    moreover have "take n (drop j (splice buf i xs)) = take n (drop j (take i buf))" using 1 assms(1) by (simp add: splice_def)
    ultimately show ?thesis by simp
  next
    case 2
    then show ?thesis using assms(1) by (simp add: splice_def min_def)
  qed
qed

lemma load_bgd_calm:
  assumes "geometry fs" "calm st" "32 * g < 2 ^ 32"
  shows "load_bgd fs g st = (Some (gdesc fs st g), (tick st)\<lparr>x_meta := overwrite (x_meta st) (blk fs st (gd_blk fs g))\<rparr>)"
  using gd_place(3) [OF assms(1,3)] assms(1,2)
  by (simp add: load_bgd_def split_def gd_blk_def [symmetric] gd_off_def [symmetric] reads_calm gdesc_def slice_overwrite Let_def)

text \<open>The descriptors of a volume are disjoint slots.\<close>

lemma gdesc_splice:
  assumes "geometry fs" "32 * g < 2 ^ 32" "32 * g' < 2 ^ 32" "length gd = 32" "length data = xf_block_size fs"
    and "gd_blk fs g' = gd_blk fs g"
  shows "take 32 (drop (gd_off fs g') (splice data (gd_off fs g) gd)) = (if g' = g then gd else take 32 (drop (gd_off fs g') data))"
proof (cases "g' = g")
  case True
  then show ?thesis using splice_same [of "gd_off fs g" gd data] gd_place(3) [OF assms(1,2)] assms(4,5) by simp
next
  case False
  let ?n = "xf_block_size fs"
  have q: "32 * g' div ?n = 32 * g div ?n" using assms(6) gd_place(1) [OF assms(1,2)] gd_place(1) [OF assms(1,3)] by simp
  have e: "32 * g = ?n * (32 * g div ?n) + gd_off fs g" "32 * g' = ?n * (32 * g div ?n) + gd_off fs g'"
    using gd_place(2) [OF assms(1,2)] gd_place(2) [OF assms(1,3)] q mult_div_mod_eq [of ?n "32 * g"] mult_div_mod_eq [of ?n "32 * g'"]
    by simp_all
  have "gd_off fs g' + 32 \<le> gd_off fs g \<or> gd_off fs g + 32 \<le> gd_off fs g'"
  proof (cases "g' < g")
    case True
    then have "32 * g' + 32 \<le> 32 * g" by simp
    then show ?thesis using e by linarith
  next
    case False
    then have "32 * g + 32 \<le> 32 * g'" using \<open>g' \<noteq> g\<close> by simp
    then show ?thesis using e by linarith
  qed
  then show ?thesis using False splice_other [of "gd_off fs g" gd data "gd_off fs g'" 32] gd_place(3) [OF assms(1,2)] assms(4,5) by simp
qed

text \<open>What an allocation or a release leaves on the volume.\<close>

lemma commit_group_calm:
  assumes "geometry fs" "calm st" "32 * g < 2 ^ 32" "x_meta st = overwrite m (blk fs st (gd_blk fs g))"
    and "length bm = 4096" "length gd = 32" "bb < 2 ^ 32"
  obtains st' where "commit_group fs bb bm (locate_bgd fs g) gd u v st = (0, st')" "calm st'"
    "x_fs st' = x_fs st" "x_nodes st' = x_nodes st" "x_block st' = x_block st" "x_ind st' = x_ind st"
    "\<And>b. b < 2 ^ 32 \<Longrightarrow> b \<noteq> xf_first_data_block fs \<Longrightarrow> blk fs st' b =
      (if b = gd_blk fs g then splice (blk fs st b) (gd_off fs g) gd
       else if b = bb then take (xf_block_size fs) bm else blk fs st b)"
proof -
  note gp = gd_place [OF assms(1,3)]
  have bs: "xf_block_size fs \<le> 4096" "0 < xf_block_size fs" using geometry_positive [OF assms(1)] by simp_all
  let ?s1 = "put_blk fs bb bm (st\<lparr>x_bitmap := bm\<rparr>)"
  let ?buf = "splice (x_meta st) (gd_off fs g) gd"
  let ?s2 = "put_blk fs (gd_blk fs g) ?buf (?s1\<lparr>x_meta := ?buf\<rparr>)"
  have lm: "length (x_meta st) = 4096" using assms(2) by simp
  have lb: "length ?buf = 4096" using gp(3) bs assms(6) lm by (subst length_splice) simp_all
  have c1: "calm ?s1" using assms(1,2,5) bs by simp
  have c2: "calm ?s2" using assms(1) c1 lb bs by simp
  have eq: "commit_group fs bb bm (locate_bgd fs g) gd u v st = (0, sb_adjust_free fs u v ?s2)"
    using assms(1,2,5) c1 lb
    by (simp add: commit_group_def split_def gd_blk_def [symmetric] gd_off_def [symmetric] write_block_calm Let_def)
  have lmb: "length (blk fs st (gd_blk fs g)) = xf_block_size fs" using assms(1,2) by simp
  have tm: "take (xf_block_size fs) ?buf = splice (take (xf_block_size fs) (x_meta st)) (gd_off fs g) gd"
    using gp(3) lm bs assms(6) by (simp add: splice_def min_def drop_take)
  have tb: "take (xf_block_size fs) (x_meta st) = blk fs st (gd_blk fs g)"
    using take_overwrite [of "blk fs st (gd_blk fs g)" m] lmb assms(4) by simp
  show ?thesis
  proof (rule that [OF eq])
    show "calm (sb_adjust_free fs u v ?s2)" by (rule sb_adjust_calm(1) [OF assms(1) c2])
    fix b :: nat assume b: "b < 2 ^ 32" "b \<noteq> xf_first_data_block fs"
    show "blk fs (sb_adjust_free fs u v ?s2) b =
      (if b = gd_blk fs g then splice (blk fs st b) (gd_off fs g) gd
       else if b = bb then take (xf_block_size fs) bm else blk fs st b)"
      unfolding sb_adjust_calm(2) [OF assms(1) c2 b]
      using blk_put [OF assms(1), of "?s1\<lparr>x_meta := ?buf\<rparr>" ?buf "gd_blk fs g" b] blk_put [OF assms(1), of "st\<lparr>x_bitmap := bm\<rparr>" bm bb b]
        c1 lb bs assms(2,5,7) gp(4) b(1) tm tb lmb by simp
  qed simp_all
qed

section \<open>Bitmaps\<close>

lemma bm_test_iff: "bm_test bm b \<longleftrightarrow> bit (byte_at bm (b div 8)) (b mod 8)"
  by (simp add: bm_test_def bit_iff_and_push_bit_not_eq_0)

lemma length_bm [simp]: "length (bm_set bm b) = length bm" "length (bm_clear bm b) = length bm"
  by (simp_all add: bm_set_def bm_clear_def)

lemma bit_one_shift: "k < 8 \<Longrightarrow> bit (2 ^ m :: u8) k \<longleftrightarrow> k = m"
  by (auto simp: bit_simps)

lemma bm_test_set: "b < 8 * length bm \<Longrightarrow> bm_test (bm_set bm b) b' \<longleftrightarrow> b' = b \<or> bm_test bm b'"
proof -
  assume "b < 8 * length bm"
  then have l: "b div 8 < length bm" by (simp add: less_mult_imp_div_less mult.commute)
  have e: "b' = b \<longleftrightarrow> b' div 8 = b div 8 \<and> b' mod 8 = b mod 8" by (metis div_mult_mod_eq)
  show ?thesis
    using l by (cases "b' div 8 = b div 8")
      (simp_all add: bm_test_iff bm_set_def byte_at_def bit_or_iff bit_one_shift e nth_list_update disj_commute)
qed

lemma bm_test_clear: "b < 8 * length bm \<Longrightarrow> bm_test (bm_clear bm b) b' \<longleftrightarrow> b' \<noteq> b \<and> bm_test bm b'"
proof -
  assume "b < 8 * length bm"
  then have l: "b div 8 < length bm" by (simp add: less_mult_imp_div_less mult.commute)
  have e: "b' = b \<longleftrightarrow> b' div 8 = b div 8 \<and> b' mod 8 = b mod 8" by (metis div_mult_mod_eq)
  show ?thesis
    using l by (cases "b' div 8 = b div 8")
      (auto simp: bm_test_iff bm_clear_def byte_at_def bit_and_iff bit_not_iff bit_one_shift e)
qed

lemma bm_test_prefix: "b < 8 * n \<Longrightarrow> n \<le> length bm \<Longrightarrow> bm_test (take n bm) b = bm_test bm b"
proof -
  assume "b < 8 * n" "n \<le> length bm"
  then have "b div 8 < n" by (simp add: less_mult_imp_div_less mult.commute)
  then show ?thesis using \<open>n \<le> length bm\<close> by (simp add: bm_test_def byte_at_def)
qed

lemma bm_test_overwrite: "b < 8 * length data \<Longrightarrow> bm_test (overwrite buf data) b = bm_test data b"
proof -
  assume "b < 8 * length data"
  then have "b div 8 < length data" by (simp add: less_mult_imp_div_less mult.commute)
  then show ?thesis by (simp add: bm_test_def byte_at_def overwrite_def nth_append)
qed

end
