(* ===== verification/Ext2_Alloc.thy ===== *)
theory Ext2_Alloc
  imports Ext2_Blocks
begin

text \<open>
  The bitmap allocators of the ext2 driver. The abstract state is the set of used blocks (inodes); on a
  consistent volume \<open>alloc_block\<close> takes the lowest free block, \<open>alloc_block_near\<close> the goal or else the lowest,
  \<open>free_block\<close> gives one back, \<open>alloc_inode\<close> and \<open>free_inode\<close> do the same for inodes, and each keeps the volume
  consistent: the free counters equal the free bits, the metadata stays reserved, and no other block changes.
\<close>

section \<open>Consistent volumes\<close>

abbreviation gbbm :: "ext2_fs \<Rightarrow> ext2_state \<Rightarrow> nat \<Rightarrow> nat" where
  "gbbm fs st g \<equiv> bg_block_bitmap (gdesc fs st g)"

abbreviation gibm :: "ext2_fs \<Rightarrow> ext2_state \<Rightarrow> nat \<Rightarrow> nat" where
  "gibm fs st g \<equiv> bg_inode_bitmap (gdesc fs st g)"

definition bbit :: "ext2_fs \<Rightarrow> ext2_state \<Rightarrow> nat \<Rightarrow> nat \<Rightarrow> bool" where
  "bbit fs st g b \<longleftrightarrow> bm_test (blk fs st (gbbm fs st g)) b"

definition ibit :: "ext2_fs \<Rightarrow> ext2_state \<Rightarrow> nat \<Rightarrow> nat \<Rightarrow> bool" where
  "ibit fs st g b \<longleftrightarrow> bm_test (blk fs st (gibm fs st g)) b"

text \<open>The bits that mean something in the block and inode bitmap of a group.\<close>

definition nbits :: "ext2_fs \<Rightarrow> nat \<Rightarrow> nat" where
  "nbits fs g = min (xf_bpg fs) (xf_blocks_count fs - (xf_first_data_block fs + g * xf_bpg fs))"

definition nibits :: "ext2_fs \<Rightarrow> nat \<Rightarrow> nat" where
  "nibits fs g = min (xf_ipg fs) (xf_inodes_count fs - g * xf_ipg fs)"

definition shape :: "ext2_fs \<Rightarrow> bool" where
  "shape fs \<longleftrightarrow> geometry fs \<and> 32 * xf_groups_count fs < 2 ^ 32 \<and> xf_bpg fs \<le> 8 * xf_block_size fs \<and>
     xf_ipg fs \<le> 8 * xf_block_size fs \<and> xf_first_data_block fs + xf_groups_count fs * xf_bpg fs < 2 ^ 32 \<and>
     xf_blocks_count fs \<le> xf_first_data_block fs + xf_groups_count fs * xf_bpg fs \<and>
     (\<forall>g < xf_groups_count fs. xf_first_data_block fs + g * xf_bpg fs \<le> xf_blocks_count fs) \<and>
     xf_groups_count fs * xf_ipg fs < 2 ^ 32 \<and> xf_inodes_count fs \<le> xf_groups_count fs * xf_ipg fs \<and>
     (\<forall>g < xf_groups_count fs. g * xf_ipg fs \<le> xf_inodes_count fs)"

text \<open>The descriptor table, the bitmaps and the superblock's block do not overlap.\<close>

definition layout :: "ext2_fs \<Rightarrow> ext2_state \<Rightarrow> bool" where
  "layout fs st \<longleftrightarrow> (let G = {..< xf_groups_count fs}; fixed = insert (xf_first_data_block fs) (gd_blk fs ` G) in
     inj_on (gbbm fs st) G \<and> inj_on (gibm fs st) G \<and> gbbm fs st ` G \<inter> gibm fs st ` G = {} \<and>
     (gbbm fs st ` G \<union> gibm fs st ` G) \<inter> fixed = {})"

definition meta_blocks :: "ext2_fs \<Rightarrow> ext2_state \<Rightarrow> nat set" where
  "meta_blocks fs st = (let G = {..< xf_groups_count fs} in
     insert (xf_first_data_block fs) (gd_blk fs ` G) \<union> gbbm fs st ` G \<union> gibm fs st ` G)"

definition block_pool :: "ext2_fs \<Rightarrow> nat set" where
  "block_pool fs = {xf_first_data_block fs ..< xf_blocks_count fs}"

definition used_blocks :: "ext2_fs \<Rightarrow> ext2_state \<Rightarrow> nat set" where
  "used_blocks fs st = {x \<in> block_pool fs.
     bbit fs st ((x - xf_first_data_block fs) div xf_bpg fs) ((x - xf_first_data_block fs) mod xf_bpg fs)}"

text \<open>Inodes are numbered from 1.\<close>

definition used_inodes :: "ext2_fs \<Rightarrow> ext2_state \<Rightarrow> nat set" where
  "used_inodes fs st = {i \<in> {1 .. xf_inodes_count fs}. ibit fs st ((i - 1) div xf_ipg fs) ((i - 1) mod xf_ipg fs)}"

definition counters :: "ext2_fs \<Rightarrow> ext2_state \<Rightarrow> bool" where
  "counters fs st \<longleftrightarrow> (\<forall>g < xf_groups_count fs.
     bg_free_blocks_count (gdesc fs st g) = card {b. b < nbits fs g \<and> \<not> bbit fs st g b} \<and>
     bg_free_inodes_count (gdesc fs st g) = card {b. b < nibits fs g \<and> \<not> ibit fs st g b})"

definition volume_ok :: "ext2_fs \<Rightarrow> ext2_state \<Rightarrow> bool" where
  "volume_ok fs st \<longleftrightarrow> shape fs \<and> calm st \<and> layout fs st \<and> counters fs st \<and> meta_blocks fs st \<subseteq> used_blocks fs st"

text \<open>Only the blocks matter.\<close>

lemma gdesc_cong: "blk fs st' = blk fs st \<Longrightarrow> gdesc fs st' = gdesc fs st"
  by (simp add: gdesc_def fun_eq_iff)

lemma bits_cong:
  assumes "blk fs st' = blk fs st"
  shows "bbit fs st' = bbit fs st" "ibit fs st' = ibit fs st"
  by (intro ext; simp only: bbit_def ibit_def assms gdesc_cong [OF assms])+

lemma volume_cong:
  assumes "blk fs st' = blk fs st"
  shows "layout fs st' = layout fs st" "counters fs st' = counters fs st"
    "meta_blocks fs st' = meta_blocks fs st" "used_blocks fs st' = used_blocks fs st" "used_inodes fs st' = used_inodes fs st"
  by (simp_all only: layout_def counters_def meta_blocks_def used_blocks_def used_inodes_def bits_cong [OF assms] gdesc_cong [OF assms])

lemma volume_ok_cong: "blk fs st' = blk fs st \<Longrightarrow> calm st' \<Longrightarrow> volume_ok fs st \<Longrightarrow> volume_ok fs st'"
  using volume_cong [of fs st' st] by (simp add: volume_ok_def)

lemma volume_okD: "volume_ok fs st \<Longrightarrow> geometry fs" "volume_ok fs st \<Longrightarrow> calm st" "volume_ok fs st \<Longrightarrow> shape fs"
  by (simp_all add: volume_ok_def shape_def)

lemma shape_group: "shape fs \<Longrightarrow> g < xf_groups_count fs \<Longrightarrow> 32 * g < 2 ^ 32"
  by (simp add: shape_def)

lemma length_gdesc: "geometry fs \<Longrightarrow> calm st \<Longrightarrow> 32 * g < 2 ^ 32 \<Longrightarrow> length (gdesc fs st g) = 32"
  using gd_place(3) [of fs g] by (simp add: gdesc_def)

lemma bitmap_numbers: "gbbm fs st g < 2 ^ 32" "gibm fs st g < 2 ^ 32"
  using le32_bound by (simp_all add: bg_block_bitmap_def bg_inode_bitmap_def)

lemma nbits_bound: "shape fs \<Longrightarrow> nbits fs g \<le> 8 * xf_block_size fs" "shape fs \<Longrightarrow> nibits fs g \<le> 8 * xf_block_size fs"
  by (auto simp: shape_def nbits_def nibits_def)

text \<open>The numbers of the blocks of a group.\<close>

lemma group_blocks_eq:
  assumes "shape fs" "g < xf_groups_count fs"
  shows "group_blocks fs g = (xf_first_data_block fs + g * xf_bpg fs, nbits fs g)"
proof -
  let ?s = "xf_first_data_block fs + g * xf_bpg fs"
  have le: "?s + xf_bpg fs \<le> xf_first_data_block fs + xf_groups_count fs * xf_bpg fs"
    using mult_le_mono1 [of "Suc g" "xf_groups_count fs" "xf_bpg fs"] assms(2) by simp
  have lim: "xf_first_data_block fs + xf_groups_count fs * xf_bpg fs < 2 ^ 32" "?s \<le> xf_blocks_count fs"
    "xf_blocks_count fs \<le> xf_first_data_block fs + xf_groups_count fs * xf_bpg fs"
    using assms by (simp_all add: shape_def)
  have "mul32 g (xf_bpg fs) = g * xf_bpg fs" "add32 (xf_first_data_block fs) (g * xf_bpg fs) = ?s" "add32 ?s (xf_bpg fs) = ?s + xf_bpg fs"
    using le lim by (simp_all add: wrap_simps)
  moreover have "sub32 (min (?s + xf_bpg fs) (xf_blocks_count fs)) ?s = min (?s + xf_bpg fs) (xf_blocks_count fs) - ?s"
    using le lim by (intro sub32_exact) auto
  moreover have "min (?s + xf_bpg fs) (xf_blocks_count fs) - ?s = nbits fs g" using lim(2) by (auto simp: nbits_def min_def)
  moreover have "(if ?s + xf_bpg fs > xf_blocks_count fs then xf_blocks_count fs else ?s + xf_bpg fs) = min (?s + xf_bpg fs) (xf_blocks_count fs)"
    by (simp add: min_def)
  ultimately show ?thesis by (simp only: group_blocks_def Let_def)
qed

lemma block_of_bit:
  assumes "shape fs" "g < xf_groups_count fs" "b < nbits fs g"
  shows "(xf_first_data_block fs + g * xf_bpg fs + b - xf_first_data_block fs) div xf_bpg fs = g"
    "(xf_first_data_block fs + g * xf_bpg fs + b - xf_first_data_block fs) mod xf_bpg fs = b"
    "xf_first_data_block fs + g * xf_bpg fs + b \<in> block_pool fs" "xf_first_data_block fs + g * xf_bpg fs + b < 2 ^ 32"
  using assms by (auto simp: nbits_def block_pool_def shape_def)

lemma bit_of_block:
  assumes "shape fs" "x \<in> block_pool fs"
  defines "g \<equiv> (x - xf_first_data_block fs) div xf_bpg fs" and "b \<equiv> (x - xf_first_data_block fs) mod xf_bpg fs"
  shows "g < xf_groups_count fs" "b < nbits fs g" "x = xf_first_data_block fs + g * xf_bpg fs + b"
proof -
  have p: "0 < xf_bpg fs" using assms(1) by (simp add: shape_def geometry_def)
  have x: "xf_first_data_block fs \<le> x" "x < xf_blocks_count fs" using assms(2) by (simp_all add: block_pool_def)
  show e: "x = xf_first_data_block fs + g * xf_bpg fs + b" unfolding g_def b_def using x(1) by simp
  have "b < xf_bpg fs" unfolding b_def using p by simp
  then show "b < nbits fs g" using e x(2) by (simp add: nbits_def)
  have "x < xf_first_data_block fs + xf_groups_count fs * xf_bpg fs" using x(2) assms(1) by (simp add: shape_def)
  then have "x - xf_first_data_block fs < xf_groups_count fs * xf_bpg fs" using x(1) by simp
  then show "g < xf_groups_count fs" unfolding g_def by (simp add: less_mult_imp_div_less)
qed

lemma used_block_iff:
  assumes "shape fs" "g < xf_groups_count fs" "b < nbits fs g"
  shows "xf_first_data_block fs + g * xf_bpg fs + b \<in> used_blocks fs st \<longleftrightarrow> bbit fs st g b"
  unfolding used_blocks_def mem_Collect_eq using block_of_bit [OF assms] by metis

section \<open>One bit changes\<close>

lemma le32_put16_other: "j + 4 \<le> i \<or> i + 2 \<le> j \<Longrightarrow> le32 (put_le16 buf i v) j = le32 buf j"
  by (auto simp: le32_def le16_put_other)

lemma descriptor_fields [simp]:
  "bg_block_bitmap (set_free_blocks gd v) = bg_block_bitmap gd" "bg_inode_bitmap (set_free_blocks gd v) = bg_inode_bitmap gd"
  "bg_inode_table (set_free_blocks gd v) = bg_inode_table gd" "bg_free_inodes_count (set_free_blocks gd v) = bg_free_inodes_count gd"
  "bg_block_bitmap (set_free_inodes gd v) = bg_block_bitmap gd" "bg_inode_bitmap (set_free_inodes gd v) = bg_inode_bitmap gd"
  "bg_inode_table (set_free_inodes gd v) = bg_inode_table gd" "bg_free_blocks_count (set_free_inodes gd v) = bg_free_blocks_count gd"
  "length (set_free_blocks gd v) = length gd" "length (set_free_inodes gd v) = length gd"
  by (simp_all add: bg_block_bitmap_def bg_inode_bitmap_def bg_inode_table_def bg_free_blocks_count_def bg_free_inodes_count_def
      set_free_blocks_def set_free_inodes_def le32_put16_other le16_put_other)

lemma set_free_counts: "length gd = 32 \<Longrightarrow> v < 2 ^ 16 \<Longrightarrow> bg_free_blocks_count (set_free_blocks gd v) = v"
  "length gd = 32 \<Longrightarrow> v < 2 ^ 16 \<Longrightarrow> bg_free_inodes_count (set_free_inodes gd v) = v"
  by (simp_all add: bg_free_blocks_count_def bg_free_inodes_count_def set_free_blocks_def set_free_inodes_def le16_put_same)

lemma layoutD:
  assumes "layout fs st" "g < xf_groups_count fs" "g' < xf_groups_count fs"
  shows "gbbm fs st g' = gbbm fs st g \<longleftrightarrow> g' = g" "gibm fs st g' = gibm fs st g \<longleftrightarrow> g' = g" "gbbm fs st g \<noteq> gibm fs st g'"
    "gbbm fs st g \<noteq> xf_first_data_block fs" "gibm fs st g \<noteq> xf_first_data_block fs"
    "gbbm fs st g \<noteq> gd_blk fs g'" "gibm fs st g \<noteq> gd_blk fs g'"
proof -
  let ?G = "{..< xf_groups_count fs}"
  have m: "g \<in> ?G" "g' \<in> ?G" using assms(2,3) by simp_all
  have l: "inj_on (gbbm fs st) ?G" "inj_on (gibm fs st) ?G" "gbbm fs st ` ?G \<inter> gibm fs st ` ?G = {}"
    "(gbbm fs st ` ?G \<union> gibm fs st ` ?G) \<inter> insert (xf_first_data_block fs) (gd_blk fs ` ?G) = {}"
    using assms(1) unfolding layout_def Let_def by blast+
  show "gbbm fs st g' = gbbm fs st g \<longleftrightarrow> g' = g" "gibm fs st g' = gibm fs st g \<longleftrightarrow> g' = g"
    using inj_on_eq_iff [OF l(1) m(2,1)] inj_on_eq_iff [OF l(2) m(2,1)] .
  show "gbbm fs st g \<noteq> gibm fs st g'" using l(3) m by blast
  show "gbbm fs st g \<noteq> xf_first_data_block fs" "gibm fs st g \<noteq> xf_first_data_block fs"
    "gbbm fs st g \<noteq> gd_blk fs g'" "gibm fs st g \<noteq> gd_blk fs g'" using l(4) m by blast+
qed

lemma commit_volume:
  assumes "shape fs" "calm st" "layout fs st" "g < xf_groups_count fs" "x_meta st = overwrite m (blk fs st (gd_blk fs g))"
    and "length bm = 4096" "length gd = 32" "bg_block_bitmap gd = gbbm fs st g" "bg_inode_bitmap gd = gibm fs st g"
    and "bb \<in> {gbbm fs st g, gibm fs st g}"
  obtains st' where "commit_group fs bb bm (locate_bgd fs g) gd u v st = (0, st')" "calm st'"
    "x_fs st' = x_fs st" "x_nodes st' = x_nodes st" "x_block st' = x_block st" "x_ind st' = x_ind st"
    "\<And>g'. g' < xf_groups_count fs \<Longrightarrow> gdesc fs st' g' = (if g' = g then gd else gdesc fs st g')"
    "\<And>b. b < 2 ^ 32 \<Longrightarrow> b \<noteq> xf_first_data_block fs \<Longrightarrow> b \<notin> gd_blk fs ` {..< xf_groups_count fs} \<Longrightarrow>
       blk fs st' b = (if b = bb then take (xf_block_size fs) bm else blk fs st b)"
proof -
  have geo: "geometry fs" using assms(1) by (simp add: shape_def)
  note sg = shape_group [OF assms(1)]
  have bb: "bb < 2 ^ 32" "bb \<noteq> gd_blk fs g'" if "g' < xf_groups_count fs" for g'
    using assms(10) bitmap_numbers layoutD(6,7) [OF assms(3,4) that] by auto
  from commit_group_calm [OF geo assms(2) sg [OF assms(4)] assms(5-7) bb(1) [OF assms(4)]]
  obtain st' where st': "commit_group fs bb bm (locate_bgd fs g) gd u v st = (0, st')" "calm st'"
    "x_fs st' = x_fs st" "x_nodes st' = x_nodes st" "x_block st' = x_block st" "x_ind st' = x_ind st"
    and bl: "\<And>b. b < 2 ^ 32 \<Longrightarrow> b \<noteq> xf_first_data_block fs \<Longrightarrow> blk fs st' b =
      (if b = gd_blk fs g then splice (blk fs st b) (gd_off fs g) gd else if b = bb then take (xf_block_size fs) bm else blk fs st b)"
    by blast
  have gds: "gdesc fs st' g' = (if g' = g then gd else gdesc fs st g')" if g': "g' < xf_groups_count fs" for g'
  proof (cases "gd_blk fs g' = gd_blk fs g")
    case True
    then show ?thesis
      using gdesc_splice [OF geo sg [OF assms(4)] sg [OF g'] assms(7), of "blk fs st (gd_blk fs g)"] geo assms(2)
        bl [OF gd_place(4,5) [OF geo sg [OF assms(4)]]] by (simp add: gdesc_def)
  next
    case False
    then show ?thesis using bl [OF gd_place(4,5) [OF geo sg [OF g']]] bb(2) [OF g'] by (auto simp: gdesc_def)
  qed
  show ?thesis
  proof (rule that [OF st' gds])
    fix b :: nat
    assume "b < 2 ^ 32" "b \<noteq> xf_first_data_block fs" "b \<notin> gd_blk fs ` {..< xf_groups_count fs}"
    then show "blk fs st' b = (if b = bb then take (xf_block_size fs) bm else blk fs st b)" using bl assms(4) by auto
  qed
qed

lemma bitmaps_outside:
  assumes "layout fs st" "g < xf_groups_count fs"
  shows "gbbm fs st g \<notin> gd_blk fs ` {..< xf_groups_count fs}" "gibm fs st g \<notin> gd_blk fs ` {..< xf_groups_count fs}"
  using layoutD(6,7) [OF assms] by auto

text \<open>What \<open>commit_volume\<close> says of the state it leaves.\<close>

definition flipped :: "ext2_fs \<Rightarrow> ext2_state \<Rightarrow> nat \<Rightarrow> nat \<Rightarrow> u8 list \<Rightarrow> u8 list \<Rightarrow> ext2_state \<Rightarrow> bool" where
  "flipped fs st g bb bm gd st' \<longleftrightarrow> calm st' \<and> x_fs st' = x_fs st \<and> x_nodes st' = x_nodes st \<and>
     x_block st' = x_block st \<and> x_ind st' = x_ind st \<and>
     (\<forall>g' < xf_groups_count fs. gdesc fs st' g' = (if g' = g then gd else gdesc fs st g')) \<and>
     (\<forall>b < 2 ^ 32. b \<noteq> xf_first_data_block fs \<longrightarrow> b \<notin> gd_blk fs ` {..< xf_groups_count fs} \<longrightarrow>
        blk fs st' b = (if b = bb then take (xf_block_size fs) bm else blk fs st b))"

text \<open>The frame of an allocation: everything outside the metadata stays.\<close>

definition framed :: "ext2_fs \<Rightarrow> ext2_state \<Rightarrow> ext2_state \<Rightarrow> bool" where
  "framed fs st st' \<longleftrightarrow> x_fs st' = x_fs st \<and> x_nodes st' = x_nodes st \<and> x_block st' = x_block st \<and> x_ind st' = x_ind st \<and>
     meta_blocks fs st' = meta_blocks fs st \<and>
     (\<forall>b < 2 ^ 32. b \<notin> meta_blocks fs st \<longrightarrow> blk fs st' b = blk fs st b) \<and>
     (\<forall>g < xf_groups_count fs. bg_inode_table (gdesc fs st' g) = bg_inode_table (gdesc fs st g))"

definition same_places :: "u8 list \<Rightarrow> u8 list \<Rightarrow> bool" where
  "same_places gd gd' \<longleftrightarrow> bg_block_bitmap gd' = bg_block_bitmap gd \<and> bg_inode_bitmap gd' = bg_inode_bitmap gd \<and>
     bg_inode_table gd' = bg_inode_table gd"

lemma flipped_frame:
  assumes "layout fs st" "g < xf_groups_count fs" "bb \<in> {gbbm fs st g, gibm fs st g}" "same_places (gdesc fs st g) gd"
    "flipped fs st g bb bm gd st'"
  shows "layout fs st'" "framed fs st st'" "calm st'"
    "\<And>g'. g' < xf_groups_count fs \<Longrightarrow> gbbm fs st' g' = gbbm fs st g' \<and> gibm fs st' g' = gibm fs st g'"
proof -
  let ?G = "{..< xf_groups_count fs}"
  have pl: "gbbm fs st' g' = gbbm fs st g' \<and> gibm fs st' g' = gibm fs st g' \<and> bg_inode_table (gdesc fs st' g') = bg_inode_table (gdesc fs st g')"
    if "g' < xf_groups_count fs" for g' using assms(4,5) that by (simp add: flipped_def same_places_def)
  then show "gbbm fs st' g' = gbbm fs st g' \<and> gibm fs st' g' = gibm fs st g'" if "g' < xf_groups_count fs" for g' using that by blast
  have im: "gbbm fs st' ` ?G = gbbm fs st ` ?G" "gibm fs st' ` ?G = gibm fs st ` ?G" by (intro image_cong refl; simp add: pl)+
  have "inj_on (gbbm fs st') ?G = inj_on (gbbm fs st) ?G" "inj_on (gibm fs st') ?G = inj_on (gibm fs st) ?G"
    by (intro inj_on_cong; simp add: pl)+
  then show "layout fs st'" using assms(1) by (simp only: layout_def Let_def im)
  have "meta_blocks fs st' = meta_blocks fs st" by (simp only: meta_blocks_def Let_def im)
  moreover have "bb \<in> meta_blocks fs st" using assms(2,3) by (auto simp: meta_blocks_def Let_def)
  ultimately show "framed fs st st'" using assms(5) pl by (auto simp: framed_def flipped_def meta_blocks_def Let_def)
  show "calm st'" using assms(5) by (simp add: flipped_def)
qed

lemma flipped_bitmaps:
  assumes "layout fs st" "flipped fs st g bb bm gd st'" "g' < xf_groups_count fs"
  shows "blk fs st' (gbbm fs st g') = (if gbbm fs st g' = bb then take (xf_block_size fs) bm else blk fs st (gbbm fs st g'))"
    "blk fs st' (gibm fs st g') = (if gibm fs st g' = bb then take (xf_block_size fs) bm else blk fs st (gibm fs st g'))"
  using assms(2) bitmap_numbers [of fs st g'] bitmaps_outside [OF assms(1,3)] layoutD(4,5) [OF assms(1,3,3)]
  by (simp_all add: flipped_def)

text \<open>The changed bitmap.\<close>

lemma changed_bitmap:
  assumes "geometry fs" "calm st" "x_bitmap st = overwrite mb (blk fs st bb)" "b < 8 * xf_block_size fs" "b' < 8 * xf_block_size fs"
    and "bm = (if v then bm_set (x_bitmap st) b else bm_clear (x_bitmap st) b)"
  shows "bm_test (take (xf_block_size fs) bm) b' = (if b' = b then v else bm_test (blk fs st bb) b')"
proof -
  have l: "length (x_bitmap st) = 4096" "xf_block_size fs \<le> 4096" using assms(2) geometry_positive [OF assms(1)] by simp_all
  have "bm_test (x_bitmap st) b' = bm_test (blk fs st bb) b'" using assms(1,2,5) by (simp add: assms(3) bm_test_overwrite)
  moreover have "bm_test (take (xf_block_size fs) bm) b' = bm_test bm b'" using assms(5) l by (intro bm_test_prefix) (simp_all add: assms(6))
  moreover have "b < 8 * length (x_bitmap st)" using assms(4) l by simp
  ultimately show ?thesis by (auto simp: assms(6) bm_test_set bm_test_clear)
qed

text \<open>Free bits before and after.\<close>

lemma count_change:
  fixes n :: nat
  assumes "\<And>b'. b' < n \<Longrightarrow> P' b' = (if b' = b then v else P b')" "b < n" "P b = (\<not> v)" "n \<le> 8 * 4096"
  shows "card {b'. b' < n \<and> \<not> P' b'} = (if v then card {b'. b' < n \<and> \<not> P b'} - 1 else card {b'. b' < n \<and> \<not> P b'} + 1)"
    and "card {b'. b' < n \<and> \<not> P' b'} < 2 ^ 16"
proof -
  have "card {b'. b' < n \<and> \<not> P' b'} \<le> card {..< n}" by (intro card_mono) auto
  then show "card {b'. b' < n \<and> \<not> P' b'} < 2 ^ 16" using assms(4) by simp
  have "{b'. b' < n \<and> \<not> P' b'} = (if v then {b'. b' < n \<and> \<not> P b'} - {b} else insert b {b'. b' < n \<and> \<not> P b'})"
    using assms(1-3) by (auto split: if_splits)
  then show "card {b'. b' < n \<and> \<not> P' b'} = (if v then card {b'. b' < n \<and> \<not> P b'} - 1 else card {b'. b' < n \<and> \<not> P b'} + 1)"
    using assms(2,3) by auto
qed

lemma used_blocks_change:
  assumes "shape fs" "g < xf_groups_count fs" "b < nbits fs g"
    and "\<And>g' b'. g' < xf_groups_count fs \<Longrightarrow> b' < 8 * xf_block_size fs \<Longrightarrow>
      bbit fs st' g' b' = (if g' = g \<and> b' = b then v else bbit fs st g' b')"
  defines "x \<equiv> xf_first_data_block fs + g * xf_bpg fs + b"
  shows "used_blocks fs st' = (if v then insert x (used_blocks fs st) else used_blocks fs st - {x})"
proof (rule set_eqI)
  fix y
  show "y \<in> used_blocks fs st' \<longleftrightarrow> y \<in> (if v then insert x (used_blocks fs st) else used_blocks fs st - {x})"
  proof (cases "y \<in> block_pool fs")
    case True
    let ?g = "(y - xf_first_data_block fs) div xf_bpg fs" and ?b = "(y - xf_first_data_block fs) mod xf_bpg fs"
    note by' = bit_of_block [OF assms(1) True]
    have "?b < 8 * xf_block_size fs" using by'(2) nbits_bound(1) [OF assms(1), of ?g] by simp
    from assms(4) [OF by'(1) this] have "y \<in> used_blocks fs st' \<longleftrightarrow> (if ?g = g \<and> ?b = b then v else y \<in> used_blocks fs st)"
      using True by (simp add: used_blocks_def)
    moreover have "?g = g \<and> ?b = b \<longleftrightarrow> y = x" using by'(3) block_of_bit(1,2) [OF assms(1-3)] unfolding x_def by metis
    ultimately show ?thesis by auto
  next
    case False
    then show ?thesis using block_of_bit(3) [OF assms(1-3)] by (auto simp: used_blocks_def x_def)
  qed
qed

lemma inode_of_bit:
  assumes "shape fs" "g < xf_groups_count fs" "b < nibits fs g"
  shows "(g * xf_ipg fs + b) div xf_ipg fs = g" "(g * xf_ipg fs + b) mod xf_ipg fs = b" "g * xf_ipg fs + b < xf_inodes_count fs"
    "g * xf_ipg fs + b + 1 < 2 ^ 32"
  using assms by (auto simp: nibits_def shape_def)

lemma bit_of_inode:
  assumes "shape fs" "0 < i" "i \<le> xf_inodes_count fs"
  shows "(i - 1) div xf_ipg fs < xf_groups_count fs" "(i - 1) mod xf_ipg fs < nibits fs ((i - 1) div xf_ipg fs)"
proof -
  have p: "0 < xf_ipg fs" using assms(1) by (simp add: shape_def geometry_def)
  have "i - 1 < xf_groups_count fs * xf_ipg fs" using assms by (auto simp: shape_def)
  then show "(i - 1) div xf_ipg fs < xf_groups_count fs" by (simp add: less_mult_imp_div_less)
  have "(i - 1) div xf_ipg fs * xf_ipg fs + (i - 1) mod xf_ipg fs = i - 1" by simp
  then have "(i - 1) mod xf_ipg fs < xf_inodes_count fs - (i - 1) div xf_ipg fs * xf_ipg fs" using assms(2,3) by linarith
  then show "(i - 1) mod xf_ipg fs < nibits fs ((i - 1) div xf_ipg fs)" using p by (simp add: nibits_def)
qed

lemma used_inodes_change:
  assumes "shape fs" "g < xf_groups_count fs" "b < nibits fs g"
    and "\<And>g' b'. g' < xf_groups_count fs \<Longrightarrow> b' < 8 * xf_block_size fs \<Longrightarrow>
      ibit fs st' g' b' = (if g' = g \<and> b' = b then v else ibit fs st g' b')"
  defines "x \<equiv> g * xf_ipg fs + b + 1"
  shows "used_inodes fs st' = (if v then insert x (used_inodes fs st) else used_inodes fs st - {x})"
proof (rule set_eqI)
  fix y
  show "y \<in> used_inodes fs st' \<longleftrightarrow> y \<in> (if v then insert x (used_inodes fs st) else used_inodes fs st - {x})"
  proof (cases "y \<in> {1 .. xf_inodes_count fs}")
    case True
    let ?g = "(y - 1) div xf_ipg fs" and ?b = "(y - 1) mod xf_ipg fs"
    have r: "0 < y" "y \<le> xf_inodes_count fs" using True by auto
    note by' = bit_of_inode [OF assms(1) r]
    have "?b < 8 * xf_block_size fs" using by'(2) nbits_bound(2) [OF assms(1), of ?g] by simp
    from assms(4) [OF by'(1) this] have "y \<in> used_inodes fs st' \<longleftrightarrow> (if ?g = g \<and> ?b = b then v else y \<in> used_inodes fs st)"
      using True by (simp add: used_inodes_def)
    moreover have "?g = g \<and> ?b = b \<longleftrightarrow> y = x"
      using r inode_of_bit(1,2) [OF assms(1-3)] div_mult_mod_eq [of "y - 1" "xf_ipg fs"] unfolding x_def by (metis Suc_eq_plus1 Suc_pred' diff_Suc_1)
    ultimately show ?thesis by auto
  next
    case False
    then show ?thesis using inode_of_bit(3) [OF assms(1-3)] by (auto simp: used_inodes_def x_def)
  qed
qed

text \<open>The state in which an operation commits: the descriptor's block and the bitmap are in their buffers.\<close>

lemma flip_block:
  assumes vol: "volume_ok fs st" and g: "g < xf_groups_count fs" "b < nbits fs g" and bit: "bbit fs st g b = (\<not> v)"
    and buf: "x_bitmap st = overwrite mb (blk fs st (gbbm fs st g))"
    and fl: "flipped fs st g (gbbm fs st g) (if v then bm_set (x_bitmap st) b else bm_clear (x_bitmap st) b)
      (set_free_blocks (gdesc fs st g) (if v then bg_free_blocks_count (gdesc fs st g) - 1 else bg_free_blocks_count (gdesc fs st g) + 1)) st'"
    and meta: "\<not> v \<Longrightarrow> xf_first_data_block fs + g * xf_bpg fs + b \<notin> meta_blocks fs st"
  shows "volume_ok fs st'" "framed fs st st'"
    "used_blocks fs st' = (if v then insert (xf_first_data_block fs + g * xf_bpg fs + b) (used_blocks fs st)
       else used_blocks fs st - {xf_first_data_block fs + g * xf_bpg fs + b})"
    "used_inodes fs st' = used_inodes fs st"
proof -
  have c: "shape fs" "geometry fs" "calm st" "layout fs st" "counters fs st" "meta_blocks fs st \<subseteq> used_blocks fs st"
    using vol by (auto simp: volume_ok_def shape_def)
  have lg: "length (gdesc fs st g) = 32" using length_gdesc [OF c(2,3) shape_group [OF c(1) g(1)]] .
  have b8: "b < 8 * xf_block_size fs" using g(2) nbits_bound(1) [OF c(1), of g] by simp
  have lim: "nbits fs g \<le> 8 * 4096" using nbits_bound(1) [OF c(1), of g] geometry_positive [OF c(2)] by linarith
  note fr = flipped_frame [OF c(4) g(1) insertI1 _ fl, unfolded same_places_def, simplified]
  note bmp = flipped_bitmaps [OF c(4) fl]
  have bb: "bbit fs st' g' b' = (if g' = g \<and> b' = b then v else bbit fs st g' b')"
    if "g' < xf_groups_count fs" "b' < 8 * xf_block_size fs" for g' b'
    using changed_bitmap [OF c(2,3) buf b8 that(2) refl, of v] bmp(1) [OF that(1)] fr(4) [OF that(1)] layoutD(1) [OF c(4) g(1) that(1)]
    by (cases v; cases "b' = b") (auto simp: bbit_def)
  have ib: "ibit fs st' g' b' = ibit fs st g' b'" if "g' < xf_groups_count fs" for g' b'
    using bmp(2) [OF that] fr(4) [OF that] layoutD(3) [OF c(4) g(1) that] by (auto simp: ibit_def)
  have gds: "gdesc fs st' g' = (if g' = g then set_free_blocks (gdesc fs st g)
      (if v then bg_free_blocks_count (gdesc fs st g) - 1 else bg_free_blocks_count (gdesc fs st g) + 1) else gdesc fs st g')"
    if "g' < xf_groups_count fs" for g' using fl that by (simp add: flipped_def)
  have small: "b' < nbits fs g' \<Longrightarrow> b' < 8 * xf_block_size fs" for b' g' using nbits_bound(1) [OF c(1), of g'] by simp
  have in_g: "bbit fs st' g b' = (if b' = b then v else bbit fs st g b')" if "b' < nbits fs g" for b' using bb [OF g(1) small [OF that]] by simp
  have old_g: "bg_free_blocks_count (gdesc fs st g) = card {b. b < nbits fs g \<and> \<not> bbit fs st g b}" using c(5) g(1) by (simp add: counters_def)
  have new_g: "bg_free_blocks_count (gdesc fs st' g) = card {b. b < nbits fs g \<and> \<not> bbit fs st' g b}"
  proof -
    have cc: "card {b. b < nbits fs g \<and> \<not> bbit fs st' g b} =
        (if v then bg_free_blocks_count (gdesc fs st g) - 1 else bg_free_blocks_count (gdesc fs st g) + 1)"
      unfolding old_g by (rule count_change(1) [where P = "bbit fs st g" and b = b and v = v, OF _ g(2) bit lim]) (rule in_g)
    have "card {b. b < nbits fs g \<and> \<not> bbit fs st' g b} < 2 ^ 16" by (rule count_change(2) [where P = "bbit fs st g" and b = b and v = v, OF _ g(2) bit lim]) (rule in_g)
    then show ?thesis unfolding cc using gds [OF g(1)] by (simp only: simp_thms if_True set_free_counts(1) [OF lg])
  qed
  have "counters fs st'"
    unfolding counters_def
  proof (intro allI impI)
    fix g' assume g': "g' < xf_groups_count fs"
    have old: "bg_free_blocks_count (gdesc fs st g') = card {b. b < nbits fs g' \<and> \<not> bbit fs st g' b}"
      "bg_free_inodes_count (gdesc fs st g') = card {b. b < nibits fs g' \<and> \<not> ibit fs st g' b}"
      using c(5) g' by (simp_all add: counters_def)
    have "{b. b < nbits fs g' \<and> \<not> bbit fs st' g' b} = {b. b < nbits fs g' \<and> \<not> bbit fs st g' b}" if "g' \<noteq> g"
      by (intro Collect_cong conj_cong refl) (simp add: that bb [OF g' small])
    then show "bg_free_blocks_count (gdesc fs st' g') = card {b. b < nbits fs g' \<and> \<not> bbit fs st' g' b} \<and>
      bg_free_inodes_count (gdesc fs st' g') = card {b. b < nibits fs g' \<and> \<not> ibit fs st' g' b}"
      using old new_g gds [OF g'] by (cases "g' = g") (simp_all add: ib [OF g'] ib [OF g(1)])
  qed
  moreover show used: "used_blocks fs st' = (if v then insert (xf_first_data_block fs + g * xf_bpg fs + b) (used_blocks fs st)
       else used_blocks fs st - {xf_first_data_block fs + g * xf_bpg fs + b})"
    by (rule used_blocks_change [OF c(1) g bb])
  ultimately show "volume_ok fs st'" using c(1,6) fr meta by (auto simp: volume_ok_def framed_def split: if_splits)
  show "framed fs st st'" by (rule fr(2))
  show "used_inodes fs st' = used_inodes fs st"
    unfolding used_inodes_def using ib bit_of_inode(1) [OF c(1)] by auto
qed

lemma flip_inode:
  assumes vol: "volume_ok fs st" and g: "g < xf_groups_count fs" "b < nibits fs g" and bit: "ibit fs st g b = (\<not> v)"
    and buf: "x_bitmap st = overwrite mb (blk fs st (gibm fs st g))"
    and fl: "flipped fs st g (gibm fs st g) (if v then bm_set (x_bitmap st) b else bm_clear (x_bitmap st) b)
      (set_free_inodes (gdesc fs st g) (if v then bg_free_inodes_count (gdesc fs st g) - 1 else bg_free_inodes_count (gdesc fs st g) + 1)) st'"
  shows "volume_ok fs st'" "framed fs st st'" "used_blocks fs st' = used_blocks fs st"
    "used_inodes fs st' = (if v then insert (g * xf_ipg fs + b + 1) (used_inodes fs st) else used_inodes fs st - {g * xf_ipg fs + b + 1})"
proof -
  have c: "shape fs" "geometry fs" "calm st" "layout fs st" "counters fs st" "meta_blocks fs st \<subseteq> used_blocks fs st"
    using vol by (auto simp: volume_ok_def shape_def)
  have lg: "length (gdesc fs st g) = 32" using length_gdesc [OF c(2,3) shape_group [OF c(1) g(1)]] .
  have b8: "b < 8 * xf_block_size fs" using g(2) nbits_bound(2) [OF c(1), of g] by simp
  have lim: "nibits fs g \<le> 8 * 4096" using nbits_bound(2) [OF c(1), of g] geometry_positive [OF c(2)] by linarith
  note fr = flipped_frame [OF c(4) g(1) insertI2 [OF singletonI] _ fl, unfolded same_places_def, simplified]
  note bmp = flipped_bitmaps [OF c(4) fl]
  have ib: "ibit fs st' g' b' = (if g' = g \<and> b' = b then v else ibit fs st g' b')"
    if "g' < xf_groups_count fs" "b' < 8 * xf_block_size fs" for g' b'
    using changed_bitmap [OF c(2,3) buf b8 that(2) refl, of v] bmp(2) [OF that(1)] fr(4) [OF that(1)] layoutD(2) [OF c(4) g(1) that(1)]
    by (cases v; cases "b' = b") (auto simp: ibit_def)
  have bb: "bbit fs st' g' b' = bbit fs st g' b'" if "g' < xf_groups_count fs" for g' b'
    using bmp(1) [OF that] fr(4) [OF that] layoutD(3) [OF c(4) that g(1)] by (auto simp: bbit_def)
  have gds: "gdesc fs st' g' = (if g' = g then set_free_inodes (gdesc fs st g)
      (if v then bg_free_inodes_count (gdesc fs st g) - 1 else bg_free_inodes_count (gdesc fs st g) + 1) else gdesc fs st g')"
    if "g' < xf_groups_count fs" for g' using fl that by (simp add: flipped_def)
  have small: "b' < nibits fs g' \<Longrightarrow> b' < 8 * xf_block_size fs" for b' g' using nbits_bound(2) [OF c(1), of g'] by simp
  have in_g: "ibit fs st' g b' = (if b' = b then v else ibit fs st g b')" if "b' < nibits fs g" for b' using ib [OF g(1) small [OF that]] by simp
  have old_g: "bg_free_inodes_count (gdesc fs st g) = card {b. b < nibits fs g \<and> \<not> ibit fs st g b}" using c(5) g(1) by (simp add: counters_def)
  have new_g: "bg_free_inodes_count (gdesc fs st' g) = card {b. b < nibits fs g \<and> \<not> ibit fs st' g b}"
  proof -
    have cc: "card {b. b < nibits fs g \<and> \<not> ibit fs st' g b} =
        (if v then bg_free_inodes_count (gdesc fs st g) - 1 else bg_free_inodes_count (gdesc fs st g) + 1)"
      unfolding old_g by (rule count_change(1) [where P = "ibit fs st g" and b = b and v = v, OF _ g(2) bit lim]) (rule in_g)
    have "card {b. b < nibits fs g \<and> \<not> ibit fs st' g b} < 2 ^ 16" by (rule count_change(2) [where P = "ibit fs st g" and b = b and v = v, OF _ g(2) bit lim]) (rule in_g)
    then show ?thesis unfolding cc using gds [OF g(1)] by (simp only: simp_thms if_True set_free_counts(2) [OF lg])
  qed
  have "counters fs st'"
    unfolding counters_def
  proof (intro allI impI)
    fix g' assume g': "g' < xf_groups_count fs"
    have old: "bg_free_blocks_count (gdesc fs st g') = card {b. b < nbits fs g' \<and> \<not> bbit fs st g' b}"
      "bg_free_inodes_count (gdesc fs st g') = card {b. b < nibits fs g' \<and> \<not> ibit fs st g' b}"
      using c(5) g' by (simp_all add: counters_def)
    have "{b. b < nibits fs g' \<and> \<not> ibit fs st' g' b} = {b. b < nibits fs g' \<and> \<not> ibit fs st g' b}" if "g' \<noteq> g"
      by (intro Collect_cong conj_cong refl) (simp add: that ib [OF g' small])
    then show "bg_free_blocks_count (gdesc fs st' g') = card {b. b < nbits fs g' \<and> \<not> bbit fs st' g' b} \<and>
      bg_free_inodes_count (gdesc fs st' g') = card {b. b < nibits fs g' \<and> \<not> ibit fs st' g' b}"
      using old new_g gds [OF g'] by (cases "g' = g") (simp_all add: bb [OF g'] bb [OF g(1)])
  qed
  moreover show used: "used_blocks fs st' = used_blocks fs st"
    unfolding used_blocks_def using bb bit_of_block(1) [OF c(1)] by auto
  ultimately show "volume_ok fs st'" using c(1,6) fr by (simp add: volume_ok_def framed_def)
  show "framed fs st st'" by (rule fr(2))
  show "used_inodes fs st' = (if v then insert (g * xf_ipg fs + b + 1) (used_inodes fs st) else used_inodes fs st - {g * xf_ipg fs + b + 1})"
    by (rule used_inodes_change [OF c(1) g ib])
qed

section \<open>The operations\<close>

text \<open>Loading a group: its descriptor, then one of its bitmaps.\<close>

lemma load_group:
  assumes "volume_ok fs st" "g < xf_groups_count fs"
  obtains st1 where "load_bgd fs g st = (Some (gdesc fs st g), st1)" "volume_ok fs st1" "framed fs st st1" "blk fs st1 = blk fs st"
    "x_meta st1 = overwrite (x_meta st) (blk fs st1 (gd_blk fs g))"
proof -
  note c = volume_okD [OF assms(1)]
  let ?s = "(tick st)\<lparr>x_meta := overwrite (x_meta st) (blk fs st (gd_blk fs g))\<rparr>"
  have b: "blk fs ?s = blk fs st" by simp
  have "volume_ok fs ?s" using c by (intro volume_ok_cong [OF b _ assms(1)]) simp
  moreover have "framed fs st ?s" by (simp add: framed_def volume_cong [OF b] gdesc_cong [OF b])
  ultimately show ?thesis by (intro that [of ?s]) (simp_all add: load_bgd_calm [OF c(1,2) shape_group [OF c(3) assms(2)]])
qed

lemma load_bits:
  assumes "volume_ok fs st" "x_meta st = overwrite m (blk fs st (gd_blk fs g))"
  obtains st1 where "read_bitmap fs bb st = (0, st1)" "volume_ok fs st1" "framed fs st st1" "blk fs st1 = blk fs st"
    "x_meta st1 = overwrite m (blk fs st1 (gd_blk fs g))" "x_bitmap st1 = overwrite (x_bitmap st) (blk fs st1 bb)"
proof -
  note c = volume_okD [OF assms(1)]
  let ?s = "(tick st)\<lparr>x_bitmap := overwrite (x_bitmap st) (blk fs st bb)\<rparr>"
  have b: "blk fs ?s = blk fs st" by simp
  have "volume_ok fs ?s" using c by (intro volume_ok_cong [OF b _ assms(1)]) simp
  moreover have "framed fs st ?s" by (simp add: framed_def volume_cong [OF b] gdesc_cong [OF b])
  ultimately show ?thesis by (intro that [of ?s]) (simp_all add: reads_calm [OF c(1,2)] assms(2))
qed

lemma framed_trans: "framed fs st st1 \<Longrightarrow> framed fs st1 st2 \<Longrightarrow> framed fs st st2"
  by (auto simp: framed_def)

lemma framed_refl: "framed fs st st"
  by (simp add: framed_def)

lemma commit_flips:
  assumes "volume_ok fs st" "g < xf_groups_count fs" "x_meta st = overwrite m (blk fs st (gd_blk fs g))"
    and "length bm = 4096" "length gd = 32" "same_places (gdesc fs st g) gd" "bb \<in> {gbbm fs st g, gibm fs st g}"
  obtains st' where "commit_group fs bb bm (locate_bgd fs g) gd u v st = (0, st')" "flipped fs st g bb bm gd st'"
proof -
  have c: "shape fs" "calm st" "layout fs st" using assms(1) by (simp_all add: volume_ok_def)
  have p: "bg_block_bitmap gd = gbbm fs st g" "bg_inode_bitmap gd = gibm fs st g" using assms(6) by (simp_all add: same_places_def)
  obtain st' where "commit_group fs bb bm (locate_bgd fs g) gd u v st = (0, st')" "calm st'"
    "x_fs st' = x_fs st" "x_nodes st' = x_nodes st" "x_block st' = x_block st" "x_ind st' = x_ind st"
    "\<And>g'. g' < xf_groups_count fs \<Longrightarrow> gdesc fs st' g' = (if g' = g then gd else gdesc fs st g')"
    "\<And>b. b < 2 ^ 32 \<Longrightarrow> b \<noteq> xf_first_data_block fs \<Longrightarrow> b \<notin> gd_blk fs ` {..< xf_groups_count fs} \<Longrightarrow>
       blk fs st' b = (if b = bb then take (xf_block_size fs) bm else blk fs st b)"
    by (rule commit_volume [OF c assms(2-5) p assms(7)]) (rule that)
  then show ?thesis by (intro that [of st']) (simp_all add: flipped_def)
qed

text \<open>A block is taken or given back.\<close>

definition taken_block :: "ext2_fs \<Rightarrow> ext2_state \<Rightarrow> nat \<Rightarrow> ext2_state \<Rightarrow> bool" where
  "taken_block fs st x st' \<longleftrightarrow> volume_ok fs st' \<and> framed fs st st' \<and> x \<in> block_pool fs - used_blocks fs st \<and>
     used_blocks fs st' = insert x (used_blocks fs st) \<and> used_inodes fs st' = used_inodes fs st"

definition taken_inode :: "ext2_fs \<Rightarrow> ext2_state \<Rightarrow> nat \<Rightarrow> ext2_state \<Rightarrow> bool" where
  "taken_inode fs st i st' \<longleftrightarrow> volume_ok fs st' \<and> framed fs st st' \<and> i \<in> {1 .. xf_inodes_count fs} - used_inodes fs st \<and>
     used_inodes fs st' = insert i (used_inodes fs st) \<and> used_blocks fs st' = used_blocks fs st"

lemma same_places_counts: "same_places gd (set_free_blocks gd v)" "same_places gd (set_free_inodes gd v)"
  by (simp_all add: same_places_def)

lemma take_block_bit:
  assumes "volume_ok fs st" "g < xf_groups_count fs" "b < nbits fs g" "\<not> bbit fs st g b"
    and "x_meta st = overwrite m (blk fs st (gd_blk fs g))" "x_bitmap st = overwrite mb (blk fs st (gbbm fs st g))"
  obtains st' where "commit_group fs (gbbm fs st g) (bm_set (x_bitmap st) b) (locate_bgd fs g)
      (set_free_blocks (gdesc fs st g) (bg_free_blocks_count (gdesc fs st g) - 1)) p q st = (0, st')"
    "taken_block fs st (xf_first_data_block fs + g * xf_bpg fs + b) st'"
proof -
  note c = volume_okD [OF assms(1)]
  have l: "length (bm_set (x_bitmap st) b) = 4096" "length (set_free_blocks (gdesc fs st g) (bg_free_blocks_count (gdesc fs st g) - 1)) = 32"
    using c(2) length_gdesc [OF c(1,2) shape_group [OF c(3) assms(2)]] by simp_all
  obtain st' where s: "commit_group fs (gbbm fs st g) (bm_set (x_bitmap st) b) (locate_bgd fs g)
      (set_free_blocks (gdesc fs st g) (bg_free_blocks_count (gdesc fs st g) - 1)) p q st = (0, st')"
    and f: "flipped fs st g (gbbm fs st g) (bm_set (x_bitmap st) b)
      (set_free_blocks (gdesc fs st g) (bg_free_blocks_count (gdesc fs st g) - 1)) st'"
    by (rule commit_flips [OF assms(1,2,5) l same_places_counts(1) insertI1])
  have t: "bbit fs st g b = (\<not> True)" using assms(4) by simp
  note fb = flip_block [where v = True, OF assms(1-3) t assms(6), unfolded if_True, OF f]
  have "taken_block fs st (xf_first_data_block fs + g * xf_bpg fs + b) st'"
    using fb block_of_bit(3) [OF c(3) assms(2,3)] used_block_iff [OF c(3) assms(2,3), of st] assms(4) by (simp add: taken_block_def)
  with s show ?thesis by (rule that)
qed

lemma take_inode_bit:
  assumes "volume_ok fs st" "g < xf_groups_count fs" "b < nibits fs g" "\<not> ibit fs st g b"
    and "x_meta st = overwrite m (blk fs st (gd_blk fs g))" "x_bitmap st = overwrite mb (blk fs st (gibm fs st g))"
  obtains st' where "commit_group fs (gibm fs st g) (bm_set (x_bitmap st) b) (locate_bgd fs g)
      (set_free_inodes (gdesc fs st g) (bg_free_inodes_count (gdesc fs st g) - 1)) p q st = (0, st')"
    "taken_inode fs st (g * xf_ipg fs + b + 1) st'"
proof -
  note c = volume_okD [OF assms(1)]
  have l: "length (bm_set (x_bitmap st) b) = 4096" "length (set_free_inodes (gdesc fs st g) (bg_free_inodes_count (gdesc fs st g) - 1)) = 32"
    using c(2) length_gdesc [OF c(1,2) shape_group [OF c(3) assms(2)]] by simp_all
  obtain st' where s: "commit_group fs (gibm fs st g) (bm_set (x_bitmap st) b) (locate_bgd fs g)
      (set_free_inodes (gdesc fs st g) (bg_free_inodes_count (gdesc fs st g) - 1)) p q st = (0, st')"
    and f: "flipped fs st g (gibm fs st g) (bm_set (x_bitmap st) b)
      (set_free_inodes (gdesc fs st g) (bg_free_inodes_count (gdesc fs st g) - 1)) st'"
    by (rule commit_flips [OF assms(1,2,5) l same_places_counts(2) insertI2 [OF singletonI]])
  have t: "ibit fs st g b = (\<not> True)" using assms(4) by simp
  note fb = flip_inode [where v = True, OF assms(1-3) t assms(6), unfolded if_True, OF f]
  have "taken_inode fs st (g * xf_ipg fs + b + 1) st'"
    using fb inode_of_bit [OF c(3) assms(2,3)] assms(4) by (simp add: taken_inode_def used_inodes_def)
  with s show ?thesis by (rule that)
qed

text \<open>A group is searched: loaded, its bitmap read, the state otherwise as before.\<close>

lemma load_both:
  assumes "volume_ok fs st" "g < xf_groups_count fs"
  obtains st1 st2 where "load_bgd fs g st = (Some (gdesc fs st g), st1)" "read_bitmap fs bb st1 = (0, st2)"
    "volume_ok fs st1" "blk fs st1 = blk fs st" "framed fs st st1" "volume_ok fs st2" "blk fs st2 = blk fs st" "framed fs st st2"
    "x_meta st2 = overwrite (x_meta st) (blk fs st2 (gd_blk fs g))" "x_bitmap st2 = overwrite (x_bitmap st1) (blk fs st2 bb)"
proof -
  obtain st1 where 1: "load_bgd fs g st = (Some (gdesc fs st g), st1)" "volume_ok fs st1" "framed fs st st1" "blk fs st1 = blk fs st"
    "x_meta st1 = overwrite (x_meta st) (blk fs st1 (gd_blk fs g))" by (rule load_group [OF assms])
  obtain st2 where 2: "read_bitmap fs bb st1 = (0, st2)" "volume_ok fs st2" "framed fs st1 st2" "blk fs st2 = blk fs st1"
    "x_meta st2 = overwrite (x_meta st) (blk fs st2 (gd_blk fs g))" "x_bitmap st2 = overwrite (x_bitmap st1) (blk fs st2 bb)"
    by (rule load_bits [OF 1(2,5)])
  show ?thesis by (rule that [OF 1(1) 2(1) 1(2,4,3) 2(2) _ framed_trans [OF 1(3) 2(3)] 2(5,6)]) (simp add: 1(4) 2(4))
qed

text \<open>Taking in a state that differs only in its buffers.\<close>

lemma taken_cong:
  assumes "blk fs st1 = blk fs st" "framed fs st st1"
  shows "taken_block fs st1 x st' \<Longrightarrow> taken_block fs st x st'" "taken_inode fs st1 i st' \<Longrightarrow> taken_inode fs st i st'"
  using framed_trans [OF assms(2), of st'] volume_cong [OF assms(1)] by (simp_all add: taken_block_def taken_inode_def)

lemma group_full:
  assumes "shape fs" "g < xf_groups_count fs" "\<forall>x \<in> block_pool fs. x < xf_first_data_block fs + g * xf_bpg fs \<longrightarrow> x \<in> used_blocks fs st"
    and "\<forall>b < nbits fs g. bbit fs st g b"
  shows "\<forall>x \<in> block_pool fs. x < xf_first_data_block fs + (g + 1) * xf_bpg fs \<longrightarrow> x \<in> used_blocks fs st"
proof (intro ballI impI)
  fix x assume x: "x \<in> block_pool fs" "x < xf_first_data_block fs + (g + 1) * xf_bpg fs"
  show "x \<in> used_blocks fs st"
  proof (cases "x < xf_first_data_block fs + g * xf_bpg fs")
    case False
    let ?b = "x - (xf_first_data_block fs + g * xf_bpg fs)"
    have "?b < nbits fs g" using x False by (auto simp: nbits_def block_pool_def)
    then have "xf_first_data_block fs + g * xf_bpg fs + ?b \<in> used_blocks fs st" using used_block_iff [OF assms(1,2)] assms(4) by blast
    then show ?thesis using False by simp
  qed (use assms(3) x(1) in blast)
qed

lemma no_free_bits: "card {b. b < (n :: nat) \<and> \<not> P b} = 0 \<Longrightarrow> \<forall>b < n. P b"
  by auto

definition block_result :: "ext2_fs \<Rightarrow> ext2_state \<Rightarrow> nat \<times> ext2_state \<Rightarrow> bool" where
  "block_result fs st res \<longleftrightarrow> (let (r, st') = res in
     if r = 0 then volume_ok fs st' \<and> framed fs st st' \<and> blk fs st' = blk fs st \<and> block_pool fs \<subseteq> used_blocks fs st
     else taken_block fs st r st' \<and> (\<forall>x \<in> block_pool fs. x < r \<longrightarrow> x \<in> used_blocks fs st))"

lemma block_result_cong:
  "blk fs st1 = blk fs st \<Longrightarrow> framed fs st st1 \<Longrightarrow> block_result fs st1 res \<Longrightarrow> block_result fs st res"
  using framed_trans [of fs st st1] taken_cong(1) [of fs st1 st] volume_cong(4) [of fs st1 st]
  by (auto simp: block_result_def split: if_splits)

lemma fresh_not_zero: "volume_ok fs st \<Longrightarrow> x \<in> block_pool fs - used_blocks fs st \<Longrightarrow> x \<noteq> 0"
  by (cases "x = 0") (auto simp: volume_ok_def meta_blocks_def Let_def block_pool_def)

text \<open>The lowest free block of the volume, when all groups before are full.\<close>

lemma take_lowest_block:
  assumes vol: "volume_ok fs st" and g: "g < xf_groups_count fs"
    and low: "\<forall>x \<in> block_pool fs. x < xf_first_data_block fs + g * xf_bpg fs \<longrightarrow> x \<in> used_blocks fs st"
    and st2: "volume_ok fs st2" "blk fs st2 = blk fs st" "framed fs st st2"
      "x_meta st2 = overwrite m (blk fs st2 (gd_blk fs g))" "x_bitmap st2 = overwrite mb (blk fs st2 (gbbm fs st g))"
    and b: "b < nbits fs g" "\<not> bbit fs st g b" "\<And>c. c < b \<Longrightarrow> bbit fs st g c"
  obtains st' where "commit_group fs (gbbm fs st g) (bm_set (x_bitmap st2) b) (locate_bgd fs g)
      (set_free_blocks (gdesc fs st g) (bg_free_blocks_count (gdesc fs st g) - 1)) (- 1) 0 st2 = (0, st')"
    "block_result fs st (add32 (xf_first_data_block fs + g * xf_bpg fs) b, st')"
proof -
  note c = volume_okD [OF vol]
  let ?x = "xf_first_data_block fs + g * xf_bpg fs + b"
  obtain st' where s: "commit_group fs (gbbm fs st g) (bm_set (x_bitmap st2) b) (locate_bgd fs g)
      (set_free_blocks (gdesc fs st g) (bg_free_blocks_count (gdesc fs st g) - 1)) (- 1) 0 st2 = (0, st')" "taken_block fs st2 ?x st'"
    by (rule take_block_bit [OF st2(1) g b(1), unfolded gdesc_cong [OF st2(2)] bits_cong [OF st2(2)], OF b(2) st2(4,5)])
  have t: "taken_block fs st ?x st'" by (rule taken_cong(1) [OF st2(2,3) s(2)])
  have nz: "?x \<noteq> 0" by (rule fresh_not_zero [OF vol]) (use t in \<open>simp add: taken_block_def\<close>)
  have a: "add32 (xf_first_data_block fs + g * xf_bpg fs) b = ?x" using block_of_bit(4) [OF c(3) g b(1)] by (rule add32_exact)
  have "x \<in> used_blocks fs st" if x: "x \<in> block_pool fs" "x < ?x" for x
  proof (cases "x < xf_first_data_block fs + g * xf_bpg fs")
    case False
    let ?c = "x - (xf_first_data_block fs + g * xf_bpg fs)"
    have cb: "?c < b" using False x(2) by simp
    then show ?thesis using used_block_iff [OF c(3) g, of ?c st] b(1) b(3) [OF cb] False by simp
  qed (use x low in blast)
  then have "block_result fs st (add32 (xf_first_data_block fs + g * xf_bpg fs) b, st')"
    unfolding a block_result_def Let_def prod.case if_not_P [OF nz] using t by blast
  with s(1) show ?thesis by (rule that)
qed

lemma first_free_bit:
  assumes "\<And>b. b < n \<Longrightarrow> P b = Q b"
  defines "b \<equiv> skip_while P 0 n"
  shows "b < n \<Longrightarrow> \<not> Q b \<and> (\<forall>c < b. Q c)" "\<not> b < n \<Longrightarrow> \<forall>c < n. Q c"
proof -
  have le: "b \<le> n" using skip_while_le [of 0 n P] by (simp add: b_def)
  have all: "P c" if "c < b" for c using skip_while_all [of 0 c P n] that by (simp add: b_def)
  have stop: "b < n \<Longrightarrow> \<not> P b" using skip_while_stop [of P 0 n] by (simp add: b_def)
  show "b < n \<Longrightarrow> \<not> Q b \<and> (\<forall>c < b. Q c)" using stop all assms(1) le by (metis less_le_trans)
  show "\<not> b < n \<Longrightarrow> \<forall>c < n. Q c" using all assms(1) le by (metis leI less_le_trans)
qed

lemma alloc_block_from_spec:
  assumes "volume_ok fs st" "g \<le> xf_groups_count fs"
    "\<forall>x \<in> block_pool fs. x < xf_first_data_block fs + g * xf_bpg fs \<longrightarrow> x \<in> used_blocks fs st"
  shows "block_result fs st (alloc_block_from fs g st)"
  using assms
proof (induction fs g st rule: alloc_block_from.induct)
  case (1 fs g st)
  note c = volume_okD [OF "1.prems"(1)]
  show ?case
  proof (cases "g < xf_groups_count fs")
    case False
    then have "block_pool fs \<subseteq> used_blocks fs st" using "1.prems" c(3) by (auto simp: shape_def block_pool_def)
    then show ?thesis using False "1.prems"(1) by (subst alloc_block_from.simps) (simp add: block_result_def framed_refl)
  next
    case g: True
    obtain st1 st2 where l: "load_bgd fs g st = (Some (gdesc fs st g), st1)" "read_bitmap fs (gbbm fs st g) st1 = (0, st2)"
      "volume_ok fs st1" "blk fs st1 = blk fs st" "framed fs st st1" "volume_ok fs st2" "blk fs st2 = blk fs st" "framed fs st st2"
      "x_meta st2 = overwrite (x_meta st) (blk fs st2 (gd_blk fs g))" "x_bitmap st2 = overwrite (x_bitmap st1) (blk fs st2 (gbbm fs st g))"
      by (rule load_both [OF "1.prems"(1) g])
    have bits: "bm_test (x_bitmap st2) b = bbit fs st g b" if "b < nbits fs g" for b
      using that nbits_bound(1) [OF c(3), of g] l(10) c(1,2) by (simp add: l(7) bbit_def bm_test_overwrite)
    note ff = first_free_bit [of "nbits fs g" "bm_test (x_bitmap st2)" "bbit fs st g", OF bits]
    show ?thesis
    proof (cases "bg_free_blocks_count (gdesc fs st g) = 0")
      case True
      have full: "\<forall>b < nbits fs g. bbit fs st g b" using True g "1.prems"(1) by (intro no_free_bits) (simp add: volume_ok_def counters_def)
      have "block_result fs st1 (alloc_block_from fs (g + 1) st1)"
        using True g l(1,3) group_full [OF c(3) g "1.prems"(3) full] by (intro "1.IH"(1)) (simp_all add: volume_cong(4) [OF l(4)])
      then show ?thesis using block_result_cong [OF l(4,5)] g l(1) True by (subst alloc_block_from.simps) simp
    next
      case some: False
      let ?b = "skip_while (bm_test (x_bitmap st2)) 0 (nbits fs g)"
      note gb = group_blocks_eq [OF c(3) g]
      show ?thesis
      proof (cases "?b < nbits fs g")
        case True
        from ff(1) [OF _ True] have fb: "\<not> bbit fs st g ?b" "\<And>c. c < ?b \<Longrightarrow> bbit fs st g c" by blast+
        obtain st' where "commit_group fs (gbbm fs st g) (bm_set (x_bitmap st2) ?b) (locate_bgd fs g)
            (set_free_blocks (gdesc fs st g) (bg_free_blocks_count (gdesc fs st g) - 1)) (- 1) 0 st2 = (0, st')"
          "block_result fs st (add32 (xf_first_data_block fs + g * xf_bpg fs) ?b, st')"
          by (rule take_lowest_block [OF "1.prems"(1) g "1.prems"(3) l(6-10) True fb])
        then show ?thesis using g l(1,2) some True by (subst alloc_block_from.simps) (simp add: gb)
      next
        case False
        then have full: "\<forall>b < nbits fs g. bbit fs st g b" using ff(2) by blast
        have "block_result fs st2 (alloc_block_from fs (g + 1) st2)"
          using g False l(6) group_full [OF c(3) g "1.prems"(3) full]
          by (intro "1.IH"(2) [OF g l(1) [symmetric] refl some refl l(2) [symmetric] _ refl gb [symmetric] refl]) (simp_all add: volume_cong(4) [OF l(7)])
        then show ?thesis using block_result_cong [OF l(7,8)] g l(1,2) some False by (subst alloc_block_from.simps) (simp add: gb)
      qed
    qed
  qed
qed

lemma alloc_block_spec: "volume_ok fs st \<Longrightarrow> block_result fs st (alloc_block fs st)"
  unfolding alloc_block_def by (rule alloc_block_from_spec) (auto simp: block_pool_def)

lemma alloc_block_near_spec:
  assumes "volume_ok fs st"
  shows "if goal \<in> block_pool fs - used_blocks fs st
    then \<exists>st'. alloc_block_near fs goal st = (goal, st') \<and> taken_block fs st goal st'
    else block_result fs st (alloc_block_near fs goal st)"
proof (cases "goal \<in> block_pool fs")
  case False
  then show ?thesis using alloc_block_spec [OF assms] by (auto simp: alloc_block_near_def block_pool_def)
next
  case True
  note c = volume_okD [OF assms]
  let ?g = "(goal - xf_first_data_block fs) div xf_bpg fs" and ?b = "(goal - xf_first_data_block fs) mod xf_bpg fs"
  note bx = bit_of_block [OF c(3) True]
  obtain st1 st2 where l: "load_bgd fs ?g st = (Some (gdesc fs st ?g), st1)" "read_bitmap fs (gbbm fs st ?g) st1 = (0, st2)"
    "volume_ok fs st1" "blk fs st1 = blk fs st" "framed fs st st1" "volume_ok fs st2" "blk fs st2 = blk fs st" "framed fs st st2"
    "x_meta st2 = overwrite (x_meta st) (blk fs st2 (gd_blk fs ?g))" "x_bitmap st2 = overwrite (x_bitmap st1) (blk fs st2 (gbbm fs st ?g))"
    by (rule load_both [OF assms bx(1)])
  have bit: "bm_test (x_bitmap st2) ?b = bbit fs st ?g ?b"
    using bx(2) nbits_bound(1) [OF c(3), of ?g] l(10) c(1,2) by (simp add: l(7) bbit_def bm_test_overwrite)
  have u: "goal \<in> used_blocks fs st \<longleftrightarrow> bbit fs st ?g ?b" using used_block_iff [OF c(3) bx(1,2), of st] bx(3) by simp
  have r: "xf_first_data_block fs \<le> goal" "goal < xf_blocks_count fs" using True by (auto simp: block_pool_def)
  note fall = block_result_cong [OF l(4,5) alloc_block_spec [OF l(3)]] block_result_cong [OF l(7,8) alloc_block_spec [OF l(6)]]
  show ?thesis
  proof (cases "goal \<in> used_blocks fs st")
    case used: True
    then show ?thesis using fall l(1,2) r bit u by (simp add: alloc_block_near_def Let_def)
  next
    case free: False
    have "0 < card {b. b < nbits fs ?g \<and> \<not> bbit fs st ?g b}" using free u bx(2) by (auto simp: card_gt_0_iff)
    then have pos: "0 < bg_free_blocks_count (gdesc fs st ?g)" using assms bx(1) by (simp add: volume_ok_def counters_def)
    have nb: "\<not> bbit fs st ?g ?b" using free u by simp
    obtain st' where s: "commit_group fs (gbbm fs st ?g) (bm_set (x_bitmap st2) ?b) (locate_bgd fs ?g)
        (set_free_blocks (gdesc fs st ?g) (bg_free_blocks_count (gdesc fs st ?g) - 1)) (- 1) 0 st2 = (0, st')"
      "taken_block fs st2 (xf_first_data_block fs + ?g * xf_bpg fs + ?b) st'"
      by (rule take_block_bit [OF l(6) bx(1,2), unfolded gdesc_cong [OF l(7)] bits_cong [OF l(7)], OF nb l(9,10)])
    then have "taken_block fs st goal st'" using taken_cong(1) [OF l(7,8)] bx(3) by simp
    then show ?thesis using True free s(1) l(1,2) r bit nb pos by (simp add: alloc_block_near_def)
  qed
qed

lemma free_block_spec:
  assumes "volume_ok fs st" "x \<in> used_blocks fs st - meta_blocks fs st"
  obtains st' where "free_block fs x st = (0, st')" "volume_ok fs st'" "framed fs st st'" "used_blocks fs st' = used_blocks fs st - {x}"
    "used_inodes fs st' = used_inodes fs st"
proof -
  note c = volume_okD [OF assms(1)]
  have xp: "x \<in> block_pool fs" using assms(2) by (simp add: used_blocks_def)
  let ?g = "(x - xf_first_data_block fs) div xf_bpg fs" and ?b = "(x - xf_first_data_block fs) mod xf_bpg fs"
  note bx = bit_of_block [OF c(3) xp]
  have "x < 2 ^ 32" using xp c(3) by (auto simp: block_pool_def shape_def)
  then have sub: "sub32 x (xf_first_data_block fs) = x - xf_first_data_block fs" using xp by (intro sub32_exact) (simp_all add: block_pool_def)
  obtain st1 st2 where l: "load_bgd fs ?g st = (Some (gdesc fs st ?g), st1)" "read_bitmap fs (gbbm fs st ?g) st1 = (0, st2)"
    "volume_ok fs st1" "blk fs st1 = blk fs st" "framed fs st st1" "volume_ok fs st2" "blk fs st2 = blk fs st" "framed fs st st2"
    "x_meta st2 = overwrite (x_meta st) (blk fs st2 (gd_blk fs ?g))" "x_bitmap st2 = overwrite (x_bitmap st1) (blk fs st2 (gbbm fs st ?g))"
    by (rule load_both [OF assms(1) bx(1)])
  note cg = gdesc_cong [OF l(7)] bits_cong [OF l(7)] volume_cong [OF l(7)]
  let ?gd = "set_free_blocks (gdesc fs st ?g) (bg_free_blocks_count (gdesc fs st ?g) + 1)"
  have len: "length (bm_clear (x_bitmap st2) ?b) = 4096" "length ?gd = 32"
    using volume_okD(2) [OF l(6)] length_gdesc [OF c(1,2) shape_group [OF c(3) bx(1)]] by simp_all
  obtain st' where s: "commit_group fs (gbbm fs st ?g) (bm_clear (x_bitmap st2) ?b) (locate_bgd fs ?g) ?gd 1 0 st2 = (0, st')"
    and f: "flipped fs st2 ?g (gbbm fs st ?g) (bm_clear (x_bitmap st2) ?b) ?gd st'"
    by (rule commit_flips [OF l(6) bx(1) l(9) len, unfolded cg, OF same_places_counts(1) insertI1])
  have t: "bbit fs st2 ?g ?b = (\<not> False)" using used_block_iff [OF c(3) bx(1,2), of st] bx(3) assms(2) by (simp add: cg)
  have m: "xf_first_data_block fs + ?g * xf_bpg fs + ?b \<notin> meta_blocks fs st" using assms(2) bx(3) by simp
  note fb = flip_block [where v = False, OF l(6) bx(1,2) t, unfolded cg if_False, OF l(10) f m]
  have "free_block fs x st = (0, st')" using l(1,2) s by (simp add: free_block_def sub)
  then show ?thesis using fb(1,3,4) framed_trans [OF l(8) fb(2)] bx(3) by (intro that [of st']) simp_all
qed

text \<open>Inodes: the reserved ones below \<open>first_ino\<close> are never handed out.\<close>

definition inode_pool :: "ext2_fs \<Rightarrow> nat set" where
  "inode_pool fs = {max 1 (xf_first_ino fs) .. xf_inodes_count fs}"

definition inode_result :: "ext2_fs \<Rightarrow> ext2_state \<Rightarrow> nat \<times> ext2_state \<Rightarrow> bool" where
  "inode_result fs st res \<longleftrightarrow> (let (i, st') = res in
     if i = 0 then volume_ok fs st' \<and> framed fs st st' \<and> blk fs st' = blk fs st \<and> inode_pool fs \<subseteq> used_inodes fs st
     else taken_inode fs st i st' \<and> i \<in> inode_pool fs \<and> (\<forall>x \<in> inode_pool fs. x < i \<longrightarrow> x \<in> used_inodes fs st))"

lemma inode_result_cong:
  "blk fs st1 = blk fs st \<Longrightarrow> framed fs st st1 \<Longrightarrow> inode_result fs st1 res \<Longrightarrow> inode_result fs st res"
  using framed_trans [of fs st st1] taken_cong(2) [of fs st1 st] volume_cong(5) [of fs st1 st]
  by (auto simp: inode_result_def split: if_splits)

lemma used_inode_iff:
  assumes "shape fs" "g < xf_groups_count fs" "b < nibits fs g"
  shows "g * xf_ipg fs + b + 1 \<in> used_inodes fs st \<longleftrightarrow> ibit fs st g b"
  using inode_of_bit [OF assms] by (simp add: used_inodes_def)

text \<open>The inodes of a group: the range the loop runs over and their numbers.\<close>

lemma group_inodes:
  assumes "shape fs" "g < xf_groups_count fs"
  shows "mul32 g (xf_ipg fs) = g * xf_ipg fs"
    "(if sub32 (xf_inodes_count fs) (g * xf_ipg fs) < xf_ipg fs then sub32 (xf_inodes_count fs) (g * xf_ipg fs) else xf_ipg fs) = nibits fs g"
    "b < nibits fs g \<Longrightarrow> add32 (add32 (g * xf_ipg fs) b) 1 = g * xf_ipg fs + b + 1"
proof -
  have le: "g * xf_ipg fs \<le> xf_groups_count fs * xf_ipg fs" using assms(2) by (simp add: mult_le_mono1)
  have lim: "xf_groups_count fs * xf_ipg fs < 2 ^ 32" "g * xf_ipg fs \<le> xf_inodes_count fs" "xf_inodes_count fs < 2 ^ 32"
    using assms by (auto simp: shape_def)
  show "mul32 g (xf_ipg fs) = g * xf_ipg fs" using le lim by (intro mul32_exact) simp
  have "sub32 (xf_inodes_count fs) (g * xf_ipg fs) = xf_inodes_count fs - g * xf_ipg fs" using lim by (intro sub32_exact)
  then show "(if sub32 (xf_inodes_count fs) (g * xf_ipg fs) < xf_ipg fs then sub32 (xf_inodes_count fs) (g * xf_ipg fs) else xf_ipg fs) = nibits fs g"
    by (simp add: nibits_def min_def)
  assume "b < nibits fs g"
  then have "g * xf_ipg fs + b + 1 < 2 ^ 32" by (rule inode_of_bit(4) [OF assms])
  then show "add32 (add32 (g * xf_ipg fs) b) 1 = g * xf_ipg fs + b + 1" by (simp add: wrap_simps)
qed

text \<open>A group without a free inode that may be handed out.\<close>

lemma group_inodes_full:
  assumes "shape fs" "g < xf_groups_count fs" "\<forall>x \<in> inode_pool fs. x \<le> g * xf_ipg fs \<longrightarrow> x \<in> used_inodes fs st"
    and "\<forall>b < nibits fs g. g * xf_ipg fs + b + 1 < xf_first_ino fs \<or> ibit fs st g b"
  shows "\<forall>x \<in> inode_pool fs. x \<le> (g + 1) * xf_ipg fs \<longrightarrow> x \<in> used_inodes fs st"
proof (intro ballI impI)
  fix x assume x: "x \<in> inode_pool fs" "x \<le> (g + 1) * xf_ipg fs"
  show "x \<in> used_inodes fs st"
  proof (cases "x \<le> g * xf_ipg fs")
    case False
    let ?b = "x - 1 - g * xf_ipg fs"
    have b: "?b < nibits fs g" "g * xf_ipg fs + ?b + 1 = x" using x False by (auto simp: nibits_def inode_pool_def)
    then have "ibit fs st g ?b" using assms(4) x(1) by (auto simp: inode_pool_def)
    then show ?thesis using used_inode_iff [OF assms(1,2) b(1), of st] b(2) by simp
  qed (use assms(3) x(1) in blast)
qed

lemma take_lowest_inode:
  assumes vol: "volume_ok fs st" and g: "g < xf_groups_count fs"
    and low: "\<forall>x \<in> inode_pool fs. x \<le> g * xf_ipg fs \<longrightarrow> x \<in> used_inodes fs st"
    and st2: "volume_ok fs st2" "blk fs st2 = blk fs st" "framed fs st st2"
      "x_meta st2 = overwrite m (blk fs st2 (gd_blk fs g))" "x_bitmap st2 = overwrite mb (blk fs st2 (gibm fs st g))"
    and b: "b < nibits fs g" "\<not> (g * xf_ipg fs + b + 1 < xf_first_ino fs \<or> ibit fs st g b)"
      "\<And>c. c < b \<Longrightarrow> g * xf_ipg fs + c + 1 < xf_first_ino fs \<or> ibit fs st g c"
  obtains st' where "commit_group fs (gibm fs st g) (bm_set (x_bitmap st2) b) (locate_bgd fs g)
      (set_free_inodes (gdesc fs st g) (bg_free_inodes_count (gdesc fs st g) - 1)) 0 (- 1) st2 = (0, st')"
    "inode_result fs st (g * xf_ipg fs + b + 1, st')"
proof -
  note c = volume_okD [OF vol]
  let ?x = "g * xf_ipg fs + b + 1"
  have free: "\<not> ibit fs st g b" using b(2) by blast
  obtain st' where s: "commit_group fs (gibm fs st g) (bm_set (x_bitmap st2) b) (locate_bgd fs g)
      (set_free_inodes (gdesc fs st g) (bg_free_inodes_count (gdesc fs st g) - 1)) 0 (- 1) st2 = (0, st')" "taken_inode fs st2 ?x st'"
    by (rule take_inode_bit [OF st2(1) g b(1), unfolded gdesc_cong [OF st2(2)] bits_cong [OF st2(2)], OF free st2(4,5)])
  have t: "taken_inode fs st ?x st'" by (rule taken_cong(2) [OF st2(2,3) s(2)])
  then have p: "?x \<in> inode_pool fs" using b(2) by (auto simp: taken_inode_def inode_pool_def)
  have "x \<in> used_inodes fs st" if x: "x \<in> inode_pool fs" "x < ?x" for x
  proof (cases "x \<le> g * xf_ipg fs")
    case False
    let ?c = "x - 1 - g * xf_ipg fs"
    have cb: "?c < b" "g * xf_ipg fs + ?c + 1 = x" using False x by (auto simp: inode_pool_def)
    then have "ibit fs st g ?c" using b(3) [OF cb(1)] x(1) by (auto simp: inode_pool_def)
    then show ?thesis using used_inode_iff [OF c(3) g, of ?c st] cb b(1) by simp
  qed (use x low in blast)
  then have "inode_result fs st (?x, st')" using t p by (simp add: inode_result_def)
  with s(1) show ?thesis by (rule that)
qed

lemma alloc_inode_from_spec:
  assumes "volume_ok fs st" "g \<le> xf_groups_count fs" "\<forall>x \<in> inode_pool fs. x \<le> g * xf_ipg fs \<longrightarrow> x \<in> used_inodes fs st"
  shows "inode_result fs st (alloc_inode_from fs g st)"
  using assms
proof (induction fs g st rule: alloc_inode_from.induct)
  case (1 fs g st)
  note c = volume_okD [OF "1.prems"(1)]
  show ?case
  proof (cases "g < xf_groups_count fs")
    case False
    then have "inode_pool fs \<subseteq> used_inodes fs st" using "1.prems" c(3) by (auto simp: shape_def inode_pool_def)
    then show ?thesis using False "1.prems"(1) by (subst alloc_inode_from.simps) (simp add: inode_result_def framed_refl)
  next
    case g: True
    obtain st1 st2 where l: "load_bgd fs g st = (Some (gdesc fs st g), st1)" "read_bitmap fs (gibm fs st g) st1 = (0, st2)"
      "volume_ok fs st1" "blk fs st1 = blk fs st" "framed fs st st1" "volume_ok fs st2" "blk fs st2 = blk fs st" "framed fs st st2"
      "x_meta st2 = overwrite (x_meta st) (blk fs st2 (gd_blk fs g))" "x_bitmap st2 = overwrite (x_bitmap st1) (blk fs st2 (gibm fs st g))"
      by (rule load_both [OF "1.prems"(1) g])
    note gi = group_inodes [OF c(3) g]
    let ?P = "\<lambda>b. add32 (add32 (g * xf_ipg fs) b) 1 < xf_first_ino fs \<or> bm_test (x_bitmap st2) b"
    let ?Q = "\<lambda>b. g * xf_ipg fs + b + 1 < xf_first_ino fs \<or> ibit fs st g b"
    have bits: "?P b = ?Q b" if "b < nibits fs g" for b
      using that nbits_bound(2) [OF c(3), of g] l(10) c(1,2) gi(3) [OF that] by (simp add: l(7) ibit_def bm_test_overwrite)
    note ff = first_free_bit [of "nibits fs g" ?P ?Q, OF bits]
    show ?thesis
    proof (cases "bg_free_inodes_count (gdesc fs st g) = 0")
      case True
      have "\<forall>b < nibits fs g. ibit fs st g b" using True g "1.prems"(1) by (intro no_free_bits) (simp add: volume_ok_def counters_def)
      then have full: "\<forall>b < nibits fs g. ?Q b" by blast
      have "inode_result fs st1 (alloc_inode_from fs (g + 1) st1)"
        using True g l(1,3) group_inodes_full [OF c(3) g "1.prems"(3) full] by (intro "1.IH"(1)) (simp_all add: volume_cong(5) [OF l(4)])
      then show ?thesis using inode_result_cong [OF l(4,5)] g l(1) True by (subst alloc_inode_from.simps) simp
    next
      case some: False
      let ?b = "skip_while ?P 0 (nibits fs g)"
      show ?thesis
      proof (cases "?b < nibits fs g")
        case True
        from ff(1) [OF _ True] have fb: "\<not> ?Q ?b" "\<And>c. c < ?b \<Longrightarrow> ?Q c" by blast+
        obtain st' where "commit_group fs (gibm fs st g) (bm_set (x_bitmap st2) ?b) (locate_bgd fs g)
            (set_free_inodes (gdesc fs st g) (bg_free_inodes_count (gdesc fs st g) - 1)) 0 (- 1) st2 = (0, st')"
          "inode_result fs st (g * xf_ipg fs + ?b + 1, st')"
          by (rule take_lowest_inode [OF "1.prems"(1) g "1.prems"(3) l(6-10) True fb])
        then show ?thesis using g l(1,2) some True gi(3) [OF True] by (subst alloc_inode_from.simps) (simp add: gi(1,2) Let_def)
      next
        case False
        then have full: "\<forall>b < nibits fs g. ?Q b" using ff(2) by blast
        have "inode_result fs st2 (alloc_inode_from fs (g + 1) st2)"
          using g False l(6) group_inodes_full [OF c(3) g "1.prems"(3) full]
          by (intro "1.IH"(2) [OF g l(1) [symmetric] refl some refl l(2) [symmetric] _ gi(1) [symmetric] refl gi(2) [symmetric] refl refl])
            (simp_all add: volume_cong(5) [OF l(7)])
        then show ?thesis using inode_result_cong [OF l(7,8)] g l(1,2) some False by (subst alloc_inode_from.simps) (simp add: gi(1,2) Let_def)
      qed
    qed
  qed
qed

lemma alloc_inode_spec: "volume_ok fs st \<Longrightarrow> inode_result fs st (alloc_inode fs st)"
  unfolding alloc_inode_def by (rule alloc_inode_from_spec) (auto simp: inode_pool_def)

lemma free_inode_spec:
  assumes "volume_ok fs st" "i \<in> used_inodes fs st"
  obtains st' where "free_inode fs i st = (0, st')" "volume_ok fs st'" "framed fs st st'" "used_inodes fs st' = used_inodes fs st - {i}"
    "used_blocks fs st' = used_blocks fs st"
proof -
  note c = volume_okD [OF assms(1)]
  have ip: "0 < i" "i \<le> xf_inodes_count fs" using assms(2) by (simp_all add: used_inodes_def)
  let ?g = "(i - 1) div xf_ipg fs" and ?b = "(i - 1) mod xf_ipg fs"
  note bx = bit_of_inode [OF c(3) ip]
  have "i < 2 ^ 32" using ip c(3) by (auto simp: shape_def)
  then have sub: "sub32 i 1 = i - 1" using ip by (intro sub32_exact) simp_all
  have ie: "?g * xf_ipg fs + ?b + 1 = i" using ip(1) by simp
  obtain st1 st2 where l: "load_bgd fs ?g st = (Some (gdesc fs st ?g), st1)" "read_bitmap fs (gibm fs st ?g) st1 = (0, st2)"
    "volume_ok fs st1" "blk fs st1 = blk fs st" "framed fs st st1" "volume_ok fs st2" "blk fs st2 = blk fs st" "framed fs st st2"
    "x_meta st2 = overwrite (x_meta st) (blk fs st2 (gd_blk fs ?g))" "x_bitmap st2 = overwrite (x_bitmap st1) (blk fs st2 (gibm fs st ?g))"
    by (rule load_both [OF assms(1) bx(1)])
  note cg = gdesc_cong [OF l(7)] bits_cong [OF l(7)] volume_cong [OF l(7)]
  let ?gd = "set_free_inodes (gdesc fs st ?g) (bg_free_inodes_count (gdesc fs st ?g) + 1)"
  have len: "length (bm_clear (x_bitmap st2) ?b) = 4096" "length ?gd = 32"
    using volume_okD(2) [OF l(6)] length_gdesc [OF c(1,2) shape_group [OF c(3) bx(1)]] by simp_all
  obtain st' where s: "commit_group fs (gibm fs st ?g) (bm_clear (x_bitmap st2) ?b) (locate_bgd fs ?g) ?gd 0 1 st2 = (0, st')"
    and f: "flipped fs st2 ?g (gibm fs st ?g) (bm_clear (x_bitmap st2) ?b) ?gd st'"
    by (rule commit_flips [OF l(6) bx(1) l(9) len, unfolded cg, OF same_places_counts(2) insertI2 [OF singletonI]])
  have t: "ibit fs st2 ?g ?b = (\<not> False)" using assms(2) by (simp add: cg used_inodes_def)
  note fb = flip_inode [where v = False, OF l(6) bx t, unfolded cg if_False, OF l(10) f]
  have "free_inode fs i st = (0, st')" unfolding free_inode_def sub using l(1,2) s by (simp add: Let_def)
  then show ?thesis using fb(1,3,4) framed_trans [OF l(8) fb(2)] ie by (intro that [of st']) simp_all
qed

section \<open>The interface of an allocator\<close>

text \<open>The client's view: numbers are handed out and given back. \<open>pool\<close> may be handed out, \<open>reserved\<close> never comes
  back, \<open>kept\<close> relates the states before and after.\<close>

locale number_allocator =
  fixes alloc :: "'s \<Rightarrow> nat \<times> 's" and release :: "nat \<Rightarrow> 's \<Rightarrow> int \<times> 's"
    and ok :: "'s \<Rightarrow> bool" and used :: "'s \<Rightarrow> nat set" and reserved :: "'s \<Rightarrow> nat set" and pool :: "nat set"
    and kept :: "'s \<Rightarrow> 's \<Rightarrow> bool"
  assumes alloc_law: "ok s \<Longrightarrow> alloc s = (n, s') \<Longrightarrow> ok s' \<and> kept s s' \<and> reserved s' = reserved s \<and>
      (if n = 0 then pool \<subseteq> used s \<and> used s' = used s
       else n \<in> pool - used s \<and> (\<forall>x \<in> pool. x < n \<longrightarrow> x \<in> used s) \<and> used s' = insert n (used s))"
    and release_law: "ok s \<Longrightarrow> n \<in> used s - reserved s \<Longrightarrow>
      \<exists>s'. release n s = (0, s') \<and> ok s' \<and> kept s s' \<and> reserved s' = reserved s \<and> used s' = used s - {n}"
    and reserved_law: "ok s \<Longrightarrow> reserved s \<subseteq> used s"
    and kept_refl: "kept s s"
    and kept_trans: "kept s s' \<Longrightarrow> kept s' s'' \<Longrightarrow> kept s s''"

text \<open>A client that takes numbers and gives back the \<open>k\<close>-th of those it holds.\<close>

datatype alloc_op = Take | Give nat

fun play :: "('s \<Rightarrow> nat \<times> 's) \<Rightarrow> (nat \<Rightarrow> 's \<Rightarrow> int \<times> 's) \<Rightarrow> alloc_op list \<Rightarrow> nat list \<Rightarrow> 's \<Rightarrow> nat list \<times> 's" where
  "play alloc release [] held s = (held, s)"
| "play alloc release (Take # ops) held s =
     (let (n, s) = alloc s in play alloc release ops (if n = 0 then held else n # held) s)"
| "play alloc release (Give k # ops) held s =
     (if k < length held then play alloc release ops (take k held @ drop (Suc k) held) (snd (release (held ! k) s))
      else play alloc release ops held s)"

context number_allocator
begin

lemma play_law:
  assumes "ok s" "distinct held" "set held \<inter> base = {}" "used s = base \<union> set held" "reserved s \<subseteq> base"
    and "play alloc release ops held s = (held', s')"
  shows "ok s' \<and> kept s s' \<and> distinct held' \<and> set held' \<inter> base = {} \<and> used s' = base \<union> set held' \<and> reserved s' = reserved s"
  using assms
proof (induction ops arbitrary: held s)
  case Nil
  then show ?case using kept_refl by simp
next
  case (Cons op ops)
  show ?case
  proof (cases op)
    case Take
    obtain n s1 where a: "alloc s = (n, s1)" by fastforce
    let ?held = "if n = 0 then held else n # held"
    note law = alloc_law [OF Cons.prems(1) a]
    have "ok s1" "distinct ?held" "set ?held \<inter> base = {}" "used s1 = base \<union> set ?held" "reserved s1 \<subseteq> base"
      using law Cons.prems by (auto split: if_splits)
    moreover have "play alloc release ops ?held s1 = (held', s')" using Cons.prems(6) a Take by simp
    ultimately show ?thesis using Cons.IH law kept_trans [of s s1 s'] by metis
  next
    case (Give k)
    show ?thesis
    proof (cases "k < length held")
      case False
      then show ?thesis using Cons Give by simp
    next
      case True
      let ?n = "held ! k" and ?rest = "take k held @ drop (Suc k) held"
      have e: "held = take k held @ ?n # drop (Suc k) held" using True by (rule id_take_nth_drop)
      have d: "distinct (take k held @ ?n # drop (Suc k) held)" using Cons.prems(2) by (simp only: e [symmetric])
      have m: "set held = set (take k held @ ?n # drop (Suc k) held)" by (simp only: e [symmetric])
      have sp: "distinct ?rest" "?n \<notin> set ?rest" using d by auto
      have sm: "set held = insert ?n (set ?rest)" by (subst m) simp
      have n: "?n \<in> set held" using True by simp
      then have "?n \<in> used s - reserved s" using Cons.prems(3-5) by auto
      from release_law [OF Cons.prems(1) this] obtain s1 where r: "release ?n s = (0, s1)" "ok s1" "kept s s1" "reserved s1 = reserved s"
        "used s1 = used s - {?n}" by blast
      have "used s1 = base \<union> set ?rest" "set ?rest \<inter> base = {}" using r(5) Cons.prems(3,4) sp(2) sm n by auto
      moreover have "play alloc release ops ?rest s1 = (held', s')" using Cons.prems(6) Give True r(1) by simp
      ultimately show ?thesis using Cons.IH [OF r(2) sp(1)] Cons.prems(5) r(3,4) kept_trans [OF r(3), of s'] by metis
    qed
  qed
qed

lemma take_give: "ok s \<Longrightarrow> alloc s = (n, s') \<Longrightarrow> n \<noteq> 0 \<Longrightarrow> n \<notin> reserved s \<and> (\<exists>s''. release n s' = (0, s'') \<and> ok s'' \<and> used s'' = used s)"
  using alloc_law [of s n s'] release_law [of s' n] reserved_law [of s] by auto

end

interpretation xb: number_allocator "alloc_block fs" "free_block fs" "volume_ok fs" "used_blocks fs" "meta_blocks fs" "block_pool fs"
  "\<lambda>st st'. framed fs st st' \<and> used_inodes fs st' = used_inodes fs st" for fs
proof
  fix s s' n
  assume ok: "volume_ok fs s"
  show "meta_blocks fs s \<subseteq> used_blocks fs s" using ok by (simp add: volume_ok_def)
  show "volume_ok fs s' \<and> (framed fs s s' \<and> used_inodes fs s' = used_inodes fs s) \<and> meta_blocks fs s' = meta_blocks fs s \<and>
      (if n = 0 then block_pool fs \<subseteq> used_blocks fs s \<and> used_blocks fs s' = used_blocks fs s
       else n \<in> block_pool fs - used_blocks fs s \<and> (\<forall>x \<in> block_pool fs. x < n \<longrightarrow> x \<in> used_blocks fs s) \<and>
         used_blocks fs s' = insert n (used_blocks fs s))" if "alloc_block fs s = (n, s')"
    using alloc_block_spec [OF ok] that volume_cong [of fs s' s]
    by (cases "n = 0") (auto simp: block_result_def taken_block_def framed_def)
  assume "n \<in> used_blocks fs s - meta_blocks fs s"
  from free_block_spec [OF ok this] show "\<exists>s'. free_block fs n s = (0, s') \<and> volume_ok fs s' \<and>
      (framed fs s s' \<and> used_inodes fs s' = used_inodes fs s) \<and> meta_blocks fs s' = meta_blocks fs s \<and> used_blocks fs s' = used_blocks fs s - {n}"
    by (metis framed_def)
qed (auto simp: framed_refl intro: framed_trans)

interpretation xi: number_allocator "alloc_inode fs" "free_inode fs" "volume_ok fs" "used_inodes fs" "\<lambda>_. {}" "inode_pool fs"
  "\<lambda>st st'. framed fs st st' \<and> used_blocks fs st' = used_blocks fs st" for fs
proof
  fix s s' n
  assume ok: "volume_ok fs s"
  show "volume_ok fs s' \<and> (framed fs s s' \<and> used_blocks fs s' = used_blocks fs s) \<and> {} = {} \<and>
      (if n = 0 then inode_pool fs \<subseteq> used_inodes fs s \<and> used_inodes fs s' = used_inodes fs s
       else n \<in> inode_pool fs - used_inodes fs s \<and> (\<forall>x \<in> inode_pool fs. x < n \<longrightarrow> x \<in> used_inodes fs s) \<and>
         used_inodes fs s' = insert n (used_inodes fs s))" if "alloc_inode fs s = (n, s')"
    using alloc_inode_spec [OF ok] that volume_cong [of fs s' s]
    by (cases "n = 0") (auto simp: inode_result_def taken_inode_def)
  assume "n \<in> used_inodes fs s - {}"
  then have "n \<in> used_inodes fs s" by simp
  from free_inode_spec [OF ok this] show "\<exists>s'. free_inode fs n s = (0, s') \<and> volume_ok fs s' \<and>
      (framed fs s s' \<and> used_blocks fs s' = used_blocks fs s) \<and> {} = {} \<and> used_inodes fs s' = used_inodes fs s - {n}"
    by metis
qed (auto simp: framed_refl intro: framed_trans)

end
