(* ===== verification/Ext2_File.thy ===== *)
theory Ext2_File
  imports Ext2_Alloc Vfs_Props
begin

text \<open>
  Inodes and files of an ext2 volume on a device that works: \<open>read_inode\<close> and \<open>write_inode\<close> as lookup and update of
  the inode tables, \<open>get_block\<close> as a walk along the pointer tree, \<open>ext2_read\<close> as a slice of the file's contents, and
  what a program sees that reads an ext2 file through a descriptor of the virtual file system.
\<close>

section \<open>Inodes\<close>

definition inode_group :: "ext2_fs \<Rightarrow> nat \<Rightarrow> nat" where
  "inode_group fs ino = (ino - 1) div xf_ipg fs"

definition inode_blk :: "ext2_fs \<Rightarrow> ext2_state \<Rightarrow> nat \<Rightarrow> nat" where
  "inode_blk fs st ino = fst (locate_inode fs (bg_inode_table (gdesc fs st (inode_group fs ino))) ((ino - 1) mod xf_ipg fs))"

definition inode_off :: "ext2_fs \<Rightarrow> nat \<Rightarrow> nat" where
  "inode_off fs ino = snd (locate_inode fs 0 ((ino - 1) mod xf_ipg fs))"

definition inode_at :: "ext2_fs \<Rightarrow> ext2_state \<Rightarrow> nat \<Rightarrow> u8 list" where
  "inode_at fs st ino = take 128 (drop (inode_off fs ino) (blk fs st (inode_blk fs st ino)))"

text \<open>Inodes of at least 128 bytes that fill the blocks of their table.\<close>

definition inode_shape :: "ext2_fs \<Rightarrow> bool" where
  "inode_shape fs \<longleftrightarrow> geometry fs \<and> 128 \<le> xf_inode_size fs \<and> xf_block_size fs mod xf_inode_size fs = 0 \<and>
     xf_ipg fs * xf_inode_size fs < 2 ^ 32 \<and> 32 * xf_groups_count fs < 2 ^ 32 \<and>
     xf_inodes_count fs \<le> xf_groups_count fs * xf_ipg fs \<and> xf_inodes_count fs < 2 ^ 32"

lemma index_bytes: "inode_shape fs \<Longrightarrow> k < xf_ipg fs \<Longrightarrow> k * xf_inode_size fs < 2 ^ 32"
  by (rule le_less_trans [OF mult_le_mono1 [of k "xf_ipg fs"]]) (simp_all add: inode_shape_def)

lemma inode_place:
  assumes "inode_shape fs"
  shows "inode_off fs ino = (ino - 1) mod xf_ipg fs * xf_inode_size fs mod xf_block_size fs"
    "inode_off fs ino + xf_inode_size fs \<le> xf_block_size fs"
    "snd (locate_inode fs table ((ino - 1) mod xf_ipg fs)) = inode_off fs ino"
proof -
  have p: "0 < xf_ipg fs" "0 < xf_block_size fs" "128 \<le> xf_inode_size fs" using assms geometry_positive [of fs] by (auto simp: inode_shape_def geometry_def)
  have "(ino - 1) mod xf_ipg fs * xf_inode_size fs < 2 ^ 32" using p(1) by (intro index_bytes [OF assms]) simp
  then have m: "mul32 ((ino - 1) mod xf_ipg fs) (xf_inode_size fs) = (ino - 1) mod xf_ipg fs * xf_inode_size fs" by (rule mul32_exact)
  show o: "inode_off fs ino = (ino - 1) mod xf_ipg fs * xf_inode_size fs mod xf_block_size fs"
    "snd (locate_inode fs table ((ino - 1) mod xf_ipg fs)) = inode_off fs ino"
    by (simp_all only: inode_off_def locate_inode_def m Let_def snd_conv)
  obtain k where k: "xf_block_size fs = xf_inode_size fs * k" using assms by (auto simp: inode_shape_def mod_eq_0_iff_dvd dvd_def)
  have k0: "0 < k" using k p(2) by (cases k) simp_all
  define i where "i = (ino - 1) mod xf_ipg fs"
  have "i * xf_inode_size fs mod xf_block_size fs = xf_inode_size fs * (i mod k)"
    unfolding k by (subst mult.commute) (rule mult_mod_right [symmetric])
  moreover have "xf_inode_size fs * (i mod k) + xf_inode_size fs \<le> xf_inode_size fs * k"
    using mult_le_mono2 [of "Suc (i mod k)" k "xf_inode_size fs"] k0 by (simp add: Suc_leI)
  ultimately show "inode_off fs ino + xf_inode_size fs \<le> xf_block_size fs" using o(1) k i_def by simp
qed

lemma inode_group_bound: "inode_shape fs \<Longrightarrow> 0 < ino \<Longrightarrow> ino \<le> xf_inodes_count fs \<Longrightarrow> inode_group fs ino < xf_groups_count fs"
  unfolding inode_group_def by (intro less_mult_imp_div_less) (auto simp: inode_shape_def)

lemma byte_in_buffer:
  "i + n \<le> length data \<Longrightarrow> j < n \<Longrightarrow> byte_at (drop i (overwrite buf data)) j = byte_at (take n (drop i data)) j"
  by (auto simp: byte_at_def overwrite_def nth_append)

lemma table_in_buffer:
  "i + 32 \<le> length data \<Longrightarrow> bg_inode_table (drop i (overwrite buf data)) = bg_inode_table (take 32 (drop i data))"
  by (simp add: bg_inode_table_def le32_def le16_def byte_in_buffer [of i 32])

lemma load_inode_calm:
  assumes "inode_shape fs" "calm st" "0 < ino" "ino \<le> xf_inodes_count fs"
  obtains st' where "load_inode fs ino st = (Some (inode_blk fs st ino, inode_off fs ino), st')" "calm st'" "blk fs st' = blk fs st"
    "x_fs st' = x_fs st" "x_nodes st' = x_nodes st" "x_block st' = x_block st" "x_ind st' = x_ind st"
    "x_meta st' = overwrite (x_meta st') (blk fs st (inode_blk fs st ino))"
proof -
  have geo: "geometry fs" using assms(1) by (simp add: inode_shape_def)
  let ?g = "inode_group fs ino"
  have g: "32 * ?g < 2 ^ 32" using inode_group_bound [OF assms(1,3,4)] assms(1) by (simp add: inode_shape_def)
  note gp = gd_place [OF geo g]
  let ?s1 = "(tick st)\<lparr>x_meta := overwrite (x_meta st) (blk fs st (gd_blk fs ?g))\<rparr>"
  let ?m = "overwrite (overwrite (x_meta st) (blk fs st (gd_blk fs ?g))) (blk fs st (inode_blk fs st ino))"
  let ?s2 = "(tick ?s1)\<lparr>x_meta := ?m\<rparr>"
  have c1: "calm ?s1" using assms(2) geo by simp
  have c2: "calm ?s2" using c1 assms(2) geo by simp
  have sub: "sub32 ino 1 = ino - 1" using assms by (intro sub32_exact) (auto simp: inode_shape_def)
  have tab: "bg_inode_table (drop (gd_off fs ?g) (overwrite (x_meta st) (blk fs st (gd_blk fs ?g)))) = bg_inode_table (gdesc fs st ?g)"
    using gp(3) geo assms(2) by (simp add: gdesc_def table_in_buffer)
  have loc: "locate_bgd fs ?g = (gd_blk fs ?g, gd_off fs ?g)" by (simp add: gd_blk_def gd_off_def)
  have iloc: "locate_inode fs (bg_inode_table (gdesc fs st ?g)) ((ino - 1) mod xf_ipg fs) = (inode_blk fs st ino, inode_off fs ino)"
    using inode_place(3) [OF assms(1)] by (metis inode_blk_def prod.collapse)
  have "load_inode fs ino st = (Some (inode_blk fs st ino, inode_off fs ino), ?s2)"
    unfolding load_inode_def sub inode_group_def [symmetric] Let_def loc prod.case reads_calm(2) [OF geo assms(2)]
    using tab iloc reads_calm(2) [OF geo c1, of "inode_blk fs st ino"] by simp
  moreover have "x_meta ?s2 = overwrite (x_meta ?s2) (blk fs st (inode_blk fs st ino))" by (simp add: overwrite_def)
  ultimately show ?thesis using c2 by (intro that [of ?s2]) simp_all
qed

lemma read_inode_calm:
  assumes "inode_shape fs" "calm st" "0 < ino" "ino \<le> xf_inodes_count fs"
  obtains st' where "read_inode fs ino st = (0, inode_at fs st ino, st')" "calm st'" "blk fs st' = blk fs st"
    "x_fs st' = x_fs st" "x_nodes st' = x_nodes st" "x_block st' = x_block st" "x_ind st' = x_ind st"
proof -
  have geo: "geometry fs" "128 \<le> xf_inode_size fs" using assms(1) by (simp_all add: inode_shape_def)
  obtain st' where s: "load_inode fs ino st = (Some (inode_blk fs st ino, inode_off fs ino), st')" "calm st'" "blk fs st' = blk fs st"
    "x_fs st' = x_fs st" "x_nodes st' = x_nodes st" "x_block st' = x_block st" "x_ind st' = x_ind st"
    "x_meta st' = overwrite (x_meta st') (blk fs st (inode_blk fs st ino))" by (rule load_inode_calm [OF assms])
  have "take 128 (drop (inode_off fs ino) (x_meta st')) = inode_at fs st ino"
    unfolding inode_at_def using inode_place(2) [OF assms(1), of ino] geo assms(2) by (subst s(8), subst slice_overwrite) simp_all
  then have "read_inode fs ino st = (0, inode_at fs st ino, st')" using s(1) by (simp add: read_inode_def)
  then show ?thesis using s(2-7) by (rule that)
qed

lemma length_inode_at: "inode_shape fs \<Longrightarrow> calm st \<Longrightarrow> length (inode_at fs st ino) = 128"
  using inode_place(2) [of fs ino] by (auto simp: inode_at_def inode_shape_def)

text \<open>The inode tables lie outside the other metadata and apart from each other.\<close>

definition inode_tables_ok :: "ext2_fs \<Rightarrow> ext2_state \<Rightarrow> bool" where
  "inode_tables_ok fs st \<longleftrightarrow> inode_shape fs \<and> (\<forall>ino \<in> {1 .. xf_inodes_count fs}. inode_blk fs st ino \<notin> meta_blocks fs st \<and>
     (\<forall>ino' \<in> {1 .. xf_inodes_count fs}. inode_group fs ino' \<noteq> inode_group fs ino \<longrightarrow> inode_blk fs st ino' \<noteq> inode_blk fs st ino))"

lemma inode_blk_bound: "inode_blk fs st ino < 2 ^ 32"
  by (simp add: inode_blk_def locate_inode_def Let_def add32_def)

lemma add32_cancel: "add32 t a = add32 t b \<Longrightarrow> a < 2 ^ 32 \<Longrightarrow> b < 2 ^ 32 \<Longrightarrow> a = b"
proof -
  assume e: "add32 t a = add32 t b" and l: "a < 2 ^ 32" "b < 2 ^ 32"
  obtain p q where "t + a + 2 ^ 32 * p = t + b + 2 ^ 32 * q" using e unfolding add32_def nat_mod_eq_iff by blast
  then have "a + 2 ^ 32 * p = b + 2 ^ 32 * q" by linarith
  then have "(a + 2 ^ 32 * p) mod 2 ^ 32 = (b + 2 ^ 32 * q) mod 2 ^ 32" by (rule arg_cong)
  then show "a = b" using l by (simp only: mod_mult_self2 mod_less)
qed

text \<open>Two inodes in the same block of a table occupy different bytes of it.\<close>

lemma inode_slots_apart:
  assumes "inode_shape fs" "inode_group fs ino' = inode_group fs ino" "0 < ino" "0 < ino'" "ino' \<noteq> ino"
    and "inode_blk fs st ino' = inode_blk fs st ino" "ino \<le> xf_inodes_count fs" "ino' \<le> xf_inodes_count fs"
  shows "inode_off fs ino' + 128 \<le> inode_off fs ino \<or> inode_off fs ino + 128 \<le> inode_off fs ino'"
proof -
  let ?n = "xf_block_size fs" and ?z = "xf_inode_size fs" and ?i = "(ino - 1) mod xf_ipg fs" and ?j = "(ino' - 1) mod xf_ipg fs"
  have z: "128 \<le> ?z" "geometry fs" using assms(1) by (simp_all add: inode_shape_def)
  have ij: "?i \<noteq> ?j"
  proof
    assume "?i = ?j"
    then have "ino - 1 = ino' - 1" using assms(2) by (metis inode_group_def div_mult_mod_eq)
    then show False using assms(3-5) by simp
  qed
  have ex: "mul32 k ?z = k * ?z" if "k < xf_ipg fs" for k
    using index_bytes [OF assms(1) that] by (rule mul32_exact)
  have p: "0 < xf_ipg fs" using z(2) by (simp add: geometry_def)
  have q: "?i * ?z div ?n = ?j * ?z div ?n"
  proof -
    have sm: "k * ?z div ?n < 2 ^ 32" if "k < xf_ipg fs" for k
      using index_bytes [OF assms(1) that] by (rule le_less_trans [OF div_le_dividend])
    have "add32 (bg_inode_table (gdesc fs st (inode_group fs ino))) (?i * ?z div ?n) =
        add32 (bg_inode_table (gdesc fs st (inode_group fs ino))) (?j * ?z div ?n)"
      using assms(2,6) by (simp add: inode_blk_def locate_inode_def ex p Let_def)
    then show ?thesis by (rule add32_cancel) (use p in \<open>simp_all only: sm mod_less_divisor\<close>)
  qed
  have e: "?i * ?z = ?n * (?i * ?z div ?n) + inode_off fs ino" "?j * ?z = ?n * (?i * ?z div ?n) + inode_off fs ino'"
    using inode_place(1) [OF assms(1)] q mult_div_mod_eq [of ?n "?i * ?z"] mult_div_mod_eq [of ?n "?j * ?z"] by simp_all
  consider "?j + 1 \<le> ?i" | "?i + 1 \<le> ?j" using ij by linarith
  then show ?thesis
  proof cases
    case 1
    then have "(?j + 1) * ?z \<le> ?i * ?z" by (rule mult_le_mono1)
    then show ?thesis using e z(1) by (simp add: add_mult_distrib)
  next
    case 2
    then have "(?i + 1) * ?z \<le> ?j * ?z" by (rule mult_le_mono1)
    then show ?thesis using e z(1) by (simp add: add_mult_distrib)
  qed
qed

text \<open>A write outside the metadata leaves the allocation state alone.\<close>

lemma volume_outside:
  assumes "volume_ok fs st" "x \<notin> meta_blocks fs st"
    and "\<And>b. b < 2 ^ 32 \<Longrightarrow> b \<noteq> x \<Longrightarrow> blk fs st' b = blk fs st b" "calm st'"
  shows "volume_ok fs st'" "used_blocks fs st' = used_blocks fs st" "used_inodes fs st' = used_inodes fs st"
    "meta_blocks fs st' = meta_blocks fs st" "\<And>g. g < xf_groups_count fs \<Longrightarrow> gdesc fs st' g = gdesc fs st g"
proof -
  have c: "shape fs" "geometry fs" "layout fs st" "counters fs st" "meta_blocks fs st \<subseteq> used_blocks fs st"
    using assms(1) by (auto simp: volume_ok_def shape_def)
  show gd: "gdesc fs st' g = gdesc fs st g" if "g < xf_groups_count fs" for g
  proof -
    have "gd_blk fs g < 2 ^ 32" "gd_blk fs g \<noteq> x"
      using gd_place(4) [OF c(2) shape_group [OF c(1) that]] assms(2) that by (auto simp: meta_blocks_def Let_def)
    then show ?thesis using assms(3) by (simp add: gdesc_def)
  qed
  have bits: "bbit fs st' g b = bbit fs st g b" "ibit fs st' g b = ibit fs st g b" if "g < xf_groups_count fs" for g b
  proof -
    have "gbbm fs st g \<noteq> x" "gibm fs st g \<noteq> x" using assms(2) that by (auto simp: meta_blocks_def Let_def)
    then show "bbit fs st' g b = bbit fs st g b" "ibit fs st' g b = ibit fs st g b"
      using assms(3) bitmap_numbers [of fs st g] by (simp_all add: bbit_def ibit_def gd [OF that])
  qed
  have im: "gbbm fs st' ` {..< xf_groups_count fs} = gbbm fs st ` {..< xf_groups_count fs}"
    "gibm fs st' ` {..< xf_groups_count fs} = gibm fs st ` {..< xf_groups_count fs}" by (intro image_cong refl; simp add: gd)+
  have "inj_on (gbbm fs st') {..< xf_groups_count fs} = inj_on (gbbm fs st) {..< xf_groups_count fs}"
    "inj_on (gibm fs st') {..< xf_groups_count fs} = inj_on (gibm fs st) {..< xf_groups_count fs}" by (intro inj_on_cong; simp add: gd)+
  then have "layout fs st'" using c(3) by (simp only: layout_def Let_def im)
  moreover show m: "meta_blocks fs st' = meta_blocks fs st" by (simp only: meta_blocks_def Let_def im)
  moreover show u: "used_blocks fs st' = used_blocks fs st" unfolding used_blocks_def using bits(1) bit_of_block(1) [OF c(1)] by auto
  moreover have "counters fs st'" using c(4) by (simp add: counters_def gd bits)
  ultimately show "volume_ok fs st'" using c(1,5) assms(4) by (simp add: volume_ok_def)
  show "used_inodes fs st' = used_inodes fs st" unfolding used_inodes_def using bits(2) bit_of_inode(1) [OF c(1)] by auto
qed

lemma inode_at_written:
  assumes "inode_shape fs" "calm st" "0 < i" "i \<le> xf_inodes_count fs" "length d = 128" "j \<in> {1 .. xf_inodes_count fs}"
    and "inode_group fs j \<noteq> inode_group fs i \<Longrightarrow> inode_blk fs st j \<noteq> inode_blk fs st i"
    and "\<And>b. b < 2 ^ 32 \<Longrightarrow> blk fs st' b = (if b = inode_blk fs st i then splice (blk fs st b) (inode_off fs i) d else blk fs st b)"
  shows "take 128 (drop (inode_off fs j) (blk fs st' (inode_blk fs st j))) = (if j = i then d else inode_at fs st j)"
proof -
  have geo: "geometry fs" "128 \<le> xf_inode_size fs" using assms(1) by (simp_all add: inode_shape_def)
  have fit: "inode_off fs i + length d \<le> length (blk fs st (inode_blk fs st i))"
    using inode_place(2) [OF assms(1), of i] geo assms(2,5) by simp
  show ?thesis
  proof (cases "inode_blk fs st j = inode_blk fs st i")
    case False
    then show ?thesis using assms(8) [OF inode_blk_bound] by (auto simp: inode_at_def)
  next
    case True
    have apart: "inode_off fs j + 128 \<le> inode_off fs i \<or> inode_off fs i + length d \<le> inode_off fs j" if "j \<noteq> i"
      using inode_slots_apart [OF assms(1) _ assms(3) _ that True assms(4)] assms(5,6,7) True by auto
    show ?thesis using assms(8) [OF inode_blk_bound, of fs st i] splice_same [OF fit] splice_other [OF fit apart] True assms(5)
      by (simp add: inode_at_def)
  qed
qed


lemma write_inode_calm:
  assumes "inode_shape fs" "calm st" "0 < ino" "ino \<le> xf_inodes_count fs" "length d = 128"
  obtains st' where "write_inode fs ino d st = (0, st')" "calm st'" "x_fs st' = x_fs st" "x_nodes st' = x_nodes st"
    "x_block st' = x_block st" "x_ind st' = x_ind st"
    "\<And>b. b < 2 ^ 32 \<Longrightarrow> blk fs st' b = (if b = inode_blk fs st ino then splice (blk fs st b) (inode_off fs ino) d else blk fs st b)"
proof -
  have geo: "geometry fs" "128 \<le> xf_inode_size fs" using assms(1) by (simp_all add: inode_shape_def)
  obtain st1 where s: "load_inode fs ino st = (Some (inode_blk fs st ino, inode_off fs ino), st1)" "calm st1" "blk fs st1 = blk fs st"
    "x_fs st1 = x_fs st" "x_nodes st1 = x_nodes st" "x_block st1 = x_block st" "x_ind st1 = x_ind st"
    "x_meta st1 = overwrite (x_meta st1) (blk fs st (inode_blk fs st ino))" by (rule load_inode_calm [OF assms(1-4)])
  let ?b = "inode_blk fs st ino" and ?m = "splice (x_meta st1) (inode_off fs ino) d"
  note pl = inode_place(2) [OF assms(1), of ino]
  have bs: "xf_block_size fs \<le> 4096" using geometry_positive [OF geo(1)] by simp
  have lm: "length ?m = 4096" using pl bs geo(2) s(2) assms(5) by (subst length_splice) simp_all
  let ?st' = "put_blk fs ?b ?m (st1\<lparr>x_meta := ?m\<rparr>)"
  have tm: "take (xf_block_size fs) ?m = splice (blk fs st ?b) (inode_off fs ino) d"
    using pl bs geo assms(2,5) s(2) splice_overwrite [of "inode_off fs ino" d "blk fs st ?b" "x_meta st1"]
    by (subst s(8)) simp
  show ?thesis
  proof (rule that [of ?st'])
    show "write_inode fs ino d st = (0, ?st')" using s(1,2) lm geo(1) by (simp add: write_inode_def write_block_calm Let_def)
    show "blk fs ?st' b = (if b = ?b then splice (blk fs st b) (inode_off fs ino) d else blk fs st b)" if "b < 2 ^ 32" for b
      using blk_put [OF geo(1), of "st1\<lparr>x_meta := ?m\<rparr>" ?m ?b b] s(2,3) lm bs tm that inode_blk_bound [of fs st ino] by simp
  qed (use s geo(1) lm bs in simp_all)
qed

section \<open>Block mapping\<close>

text \<open>States that differ in the device's fault plan and the scratch buffers for metadata and pointers.\<close>

definition undisturbed :: "ext2_fs \<Rightarrow> ext2_state \<Rightarrow> ext2_state \<Rightarrow> bool" where
  "undisturbed fs st st' \<longleftrightarrow> calm st' \<and> blk fs st' = blk fs st \<and> x_fs st' = x_fs st \<and> x_nodes st' = x_nodes st"

lemma undisturbed_trans: "undisturbed fs st st1 \<Longrightarrow> undisturbed fs st1 st2 \<Longrightarrow> undisturbed fs st st2"
  by (simp add: undisturbed_def)

text \<open>The tree of block pointers in the file's inode: twelve direct pointers, then one tree each of depth one, two and
  three with \<open>p\<close> pointers per block.\<close>

definition ptr :: "ext2_fs \<Rightarrow> ext2_state \<Rightarrow> nat \<Rightarrow> nat \<Rightarrow> nat" where
  "ptr fs st b i = (if b = 0 then 0 else le32 (blk fs st b) (4 * i))"

fun ptr_tree :: "ext2_fs \<Rightarrow> ext2_state \<Rightarrow> nat \<Rightarrow> nat \<Rightarrow> nat \<Rightarrow> nat" where
  "ptr_tree fs st 0 b l = b"
| "ptr_tree fs st (Suc depth) b l =
     (let p = xf_block_size fs div 4 in ptr_tree fs st depth (ptr fs st b (l div p ^ depth)) (l mod p ^ depth))"

definition block_map :: "ext2_fs \<Rightarrow> ext2_state \<Rightarrow> u8 list \<Rightarrow> nat \<Rightarrow> nat" where
  "block_map fs st inode l =
     (let p = xf_block_size fs div 4 in
      if l < 12 then i_block inode l
      else if l < 12 + p then ptr_tree fs st 1 (i_block inode 12) (l - 12)
      else if l < 12 + p + p ^ 2 then ptr_tree fs st 2 (i_block inode 13) (l - 12 - p)
      else if l < 12 + p + p ^ 2 + p ^ 3 then ptr_tree fs st 3 (i_block inode 14) (l - 12 - p - p ^ 2)
      else 0)"

lemma block_map_cong: "blk fs st' = blk fs st \<Longrightarrow> block_map fs st' = block_map fs st"
proof -
  assume e: "blk fs st' = blk fs st"
  have "ptr_tree fs st' d b l = ptr_tree fs st d b l" for d b l
    by (induction d arbitrary: b l) (simp_all add: ptr_def e Let_def)
  then show ?thesis by (intro ext) (simp only: block_map_def)
qed

lemma le32_overwrite: "i + 4 \<le> length data \<Longrightarrow> le32 (overwrite buf data) i = le32 data i"
  by (simp add: le32_def le16_def byte_at_def overwrite_def nth_append)

lemma indirect_calm:
  assumes "geometry fs" "calm st" "i < xf_block_size fs div 4"
  obtains st' where "indirect fs b i st = (ptr fs st b i, st')" "undisturbed fs st st'" "x_block st' = x_block st"
proof (cases "b = 0")
  case True
  then show ?thesis using assms(2) by (intro that [of st]) (simp_all add: indirect_def ptr_def undisturbed_def)
next
  case False
  let ?s = "(tick st)\<lparr>x_ind := overwrite (x_ind st) (blk fs st b)\<rparr>"
  have "4 * i + 4 \<le> xf_block_size fs" using assms(3) by linarith
  then show ?thesis using False assms(1,2)
    by (intro that [of ?s]) (simp_all add: indirect_def ptr_def reads_calm undisturbed_def le32_overwrite)
qed

lemma ptrs_geometry: "geometry fs \<Longrightarrow> xf_block_size fs div 4 \<in> {256, 512, 1024}"
  by (auto simp: geometry_def)

text \<open>The chains of two and three pointer blocks.\<close>

definition ptrs :: "ext2_fs \<Rightarrow> nat" where "ptrs fs = xf_block_size fs div 4"

lemma ptr_cong: "blk fs st' = blk fs st \<Longrightarrow> ptr fs st' = ptr fs st"
  by (simp add: ptr_def fun_eq_iff)

lemma indirect2_calm:
  assumes "geometry fs" "calm st" "k < ptrs fs ^ 2"
  obtains st' where "(let (ind2, st) = indirect fs b (k div ptrs fs) st in indirect fs ind2 (k mod ptrs fs) st) = (ptr_tree fs st 2 b k, st')"
    "undisturbed fs st st'" "x_block st' = x_block st"
proof -
  let ?p = "ptrs fs"
  have p: "0 < ?p" using ptrs_geometry [OF assms(1)] by (auto simp: ptrs_def)
  have k: "k div ?p < ?p" "k mod ?p < ?p" using assms(3) p less_mult_imp_div_less [of k ?p ?p] by (simp_all add: power2_eq_square)
  note ic = indirect_calm [OF assms(1), folded ptrs_def]
  obtain s1 where 1: "indirect fs b (k div ?p) st = (ptr fs st b (k div ?p), s1)" "undisturbed fs st s1" "x_block s1 = x_block st"
    by (rule ic [OF assms(2) k(1)])
  have c1: "calm s1" "blk fs s1 = blk fs st" using 1(2) by (simp_all add: undisturbed_def)
  obtain s2 where 2: "indirect fs (ptr fs st b (k div ?p)) (k mod ?p) s1 = (ptr fs s1 (ptr fs st b (k div ?p)) (k mod ?p), s2)"
    "undisturbed fs s1 s2" "x_block s2 = x_block s1" by (rule ic [OF c1(1) k(2)])
  have "ptr_tree fs st 2 b k = ptr fs s1 (ptr fs st b (k div ?p)) (k mod ?p)"
    by (simp add: numeral_2_eq_2 ptr_cong [OF c1(2)] ptrs_def Let_def)
  then show ?thesis using 1 2 undisturbed_trans [OF 1(2) 2(2)] by (intro that [of s2]) simp_all
qed

lemma indirect3_calm:
  assumes "geometry fs" "calm st" "k < ptrs fs ^ 3"
  obtains st' where "(let (ind2, st) = indirect fs b (k div ptrs fs ^ 2) st; (ind3, st) = indirect fs ind2 (k div ptrs fs mod ptrs fs) st
      in indirect fs ind3 (k mod ptrs fs) st) = (ptr_tree fs st 3 b k, st')" "undisturbed fs st st'" "x_block st' = x_block st"
proof -
  let ?p = "ptrs fs"
  have p: "0 < ?p" using ptrs_geometry [OF assms(1)] by (auto simp: ptrs_def)
  have k: "k div ?p ^ 2 < ?p" using assms(3) less_mult_imp_div_less [of k ?p "?p ^ 2"] by (simp add: power3_eq_cube power2_eq_square mult.assoc)
  have km: "k mod ?p ^ 2 < ?p ^ 2" using p by simp
  have km2: "k mod ?p ^ 2 div ?p = k div ?p mod ?p" "k mod ?p ^ 2 mod ?p = k mod ?p"
    using mod_mult2_eq [of k ?p ?p] p by (simp_all add: power2_eq_square)
  obtain s1 where 1: "indirect fs b (k div ?p ^ 2) st = (ptr fs st b (k div ?p ^ 2), s1)" "undisturbed fs st s1" "x_block s1 = x_block st"
    by (rule indirect_calm [OF assms(1,2), folded ptrs_def, OF k])
  have c1: "calm s1" "blk fs s1 = blk fs st" using 1(2) by (simp_all add: undisturbed_def)
  obtain s2 where 2: "(let (ind2, st) = indirect fs (ptr fs st b (k div ?p ^ 2)) (k mod ?p ^ 2 div ?p) s1 in
      indirect fs ind2 (k mod ?p ^ 2 mod ?p) st) = (ptr_tree fs s1 2 (ptr fs st b (k div ?p ^ 2)) (k mod ?p ^ 2), s2)"
    "undisturbed fs s1 s2" "x_block s2 = x_block s1" by (rule indirect2_calm [OF assms(1) c1(1) km])
  have "ptr_tree fs st 3 b k = ptr_tree fs s1 2 (ptr fs st b (k div ?p ^ 2)) (k mod ?p ^ 2)"
    by (simp add: numeral_2_eq_2 numeral_3_eq_3 ptr_cong [OF c1(2)] ptrs_def Let_def)
  then show ?thesis using 1 2 km2 undisturbed_trans [OF 1(2) 2(2)] by (intro that [of s2]) simp_all
qed

lemma get_block_calm:
  assumes "geometry fs" "calm st" "\<not> has_extents inode"
  obtains st' where "get_block fs inode l st = (block_map fs st inode l, st')" "undisturbed fs st st'" "x_block st' = x_block st"
proof -
  let ?p = "ptrs fs"
  have "?p \<in> {256, 512, 1024}" using ptrs_geometry [OF assms(1)] by (simp add: ptrs_def)
  then have pp: "mul32 ?p ?p = ?p ^ 2" "0 < ?p" by (auto simp: mul32_def power2_eq_square)
  have tri: "k div ?p div ?p < ?p \<longleftrightarrow> k < ?p ^ 3" for k
    using pp(2) by (simp add: div_mult2_eq [symmetric] power3_eq_cube div_less_iff_less_mult mult.assoc)
  have unf: "get_block fs inode l st = (if l < 12 then (i_block inode l, st)
      else if l - 12 < ?p then indirect fs (i_block inode 12) (l - 12) st
      else if l - 12 - ?p < ?p ^ 2 then
        let (ind2, st) = indirect fs (i_block inode 13) ((l - 12 - ?p) div ?p) st in indirect fs ind2 ((l - 12 - ?p) mod ?p) st
      else if l - 12 - ?p - ?p ^ 2 < ?p ^ 3 then
        let (ind2, st) = indirect fs (i_block inode 14) ((l - 12 - ?p - ?p ^ 2) div ?p ^ 2) st;
            (ind3, st) = indirect fs ind2 ((l - 12 - ?p - ?p ^ 2) div ?p mod ?p) st
        in indirect fs ind3 ((l - 12 - ?p - ?p ^ 2) mod ?p) st
      else (0, st))"
    using assms(3) by (simp only: get_block_def ptrs_def [symmetric] pp tri Let_def if_False)
  have q0: "undisturbed fs st st" using assms(2) by (simp add: undisturbed_def)
  consider "l < 12" | "\<not> l < 12" "l - 12 < ?p" | "\<not> l - 12 < ?p" "l - 12 - ?p < ?p ^ 2"
    | "\<not> l - 12 - ?p < ?p ^ 2" "l - 12 - ?p - ?p ^ 2 < ?p ^ 3" | "\<not> l - 12 - ?p - ?p ^ 2 < ?p ^ 3" by blast
  then show ?thesis
  proof cases
    case 1
    then show ?thesis using q0 by (intro that [of st]) (simp_all add: unf block_map_def)
  next
    case 2
    obtain s1 where "indirect fs (i_block inode 12) (l - 12) st = (ptr fs st (i_block inode 12) (l - 12), s1)" "undisturbed fs st s1" "x_block s1 = x_block st"
      by (rule indirect_calm [OF assms(1,2), folded ptrs_def, OF 2(2)])
    then show ?thesis using 2 by (intro that [of s1]) (simp_all add: unf block_map_def ptrs_def [symmetric] less_diff_conv2)
  next
    case 3
    obtain s1 where s: "(let (ind2, st) = indirect fs (i_block inode 13) ((l - 12 - ?p) div ?p) st in indirect fs ind2 ((l - 12 - ?p) mod ?p) st) =
        (ptr_tree fs st 2 (i_block inode 13) (l - 12 - ?p), s1)" "undisturbed fs st s1" "x_block s1 = x_block st"
      by (rule indirect2_calm [OF assms(1,2) 3(2)])
    have "\<not> l < 12" "\<not> l < 12 + ?p" "l < 12 + ?p + ?p ^ 2" using 3 pp(2) by linarith+
    then show ?thesis using 3 s by (intro that [of s1]) (simp_all only: unf block_map_def ptrs_def [symmetric] if_True if_False Let_def)
  next
    case 4
    obtain s1 where s: "(let (ind2, st) = indirect fs (i_block inode 14) ((l - 12 - ?p - ?p ^ 2) div ?p ^ 2) st;
          (ind3, st) = indirect fs ind2 ((l - 12 - ?p - ?p ^ 2) div ?p mod ?p) st
        in indirect fs ind3 ((l - 12 - ?p - ?p ^ 2) mod ?p) st) = (ptr_tree fs st 3 (i_block inode 14) (l - 12 - ?p - ?p ^ 2), s1)"
      "undisturbed fs st s1" "x_block s1 = x_block st" by (rule indirect3_calm [OF assms(1,2) 4(2)])
    have "0 < ?p ^ 2" using pp(2) by simp
    then have "\<not> l < 12" "\<not> l < 12 + ?p" "\<not> l - 12 < ?p" "\<not> l < 12 + ?p + ?p ^ 2" "l < 12 + ?p + ?p ^ 2 + ?p ^ 3" using 4 pp(2) by linarith+
    then show ?thesis using 4 s by (intro that [of s1]) (simp_all only: unf block_map_def ptrs_def [symmetric] if_True if_False Let_def)
  next
    case 5
    have "0 < ?p ^ 2" "0 < ?p ^ 3" using pp(2) by simp_all
    then have "\<not> l < 12" "\<not> l < 12 + ?p" "\<not> l - 12 < ?p" "\<not> l < 12 + ?p + ?p ^ 2" "\<not> l - 12 - ?p < ?p ^ 2" "\<not> l < 12 + ?p + ?p ^ 2 + ?p ^ 3"
      using 5 pp(2) by linarith+
    then show ?thesis using 5 q0 by (intro that [of st]) (simp_all only: unf block_map_def ptrs_def [symmetric] if_False Let_def)
  qed
qed

section \<open>Reading\<close>

text \<open>The first \<open>n\<close> blocks of a file, one after the other.\<close>

definition blocks_data :: "ext2_fs \<Rightarrow> ext2_state \<Rightarrow> u8 list \<Rightarrow> nat \<Rightarrow> u8 list" where
  "blocks_data fs st inode n = concat (map (\<lambda>l. blk fs st (block_map fs st inode l)) [0 ..< n])"

lemma length_blocks_data: "geometry fs \<Longrightarrow> calm st \<Longrightarrow> length (blocks_data fs st inode n) = xf_block_size fs * n"
  by (induction n) (simp_all add: blocks_data_def)

lemma blocks_data_slice:
  assumes "geometry fs" "calm st" "l < n" "o1 + c \<le> xf_block_size fs"
  shows "take c (drop (xf_block_size fs * l + o1) (blocks_data fs st inode n)) = take c (drop o1 (blk fs st (block_map fs st inode l)))"
  unfolding blocks_data_def by (rule concat_slice [OF _ assms(3,4)]) (simp add: assms(1,2))

lemma blocks_data_cong: "blk fs st' = blk fs st \<Longrightarrow> blocks_data fs st' = blocks_data fs st"
  using block_map_cong [of fs st' st] by (simp add: blocks_data_def fun_eq_iff)

text \<open>One turn of the loop: the bytes of the current block, from the current offset on.\<close>

lemma read_blocks_spec:
  assumes "geometry fs" "\<not> has_extents inode" "offset + n \<le> xf_block_size fs * k" "offset + n < 2 ^ 32"
    and "\<forall>l < k. block_map fs st inode l \<noteq> 0" "calm st" "length out \<le> n" "out = take (length out) (drop offset (blocks_data fs st inode k))"
  shows "\<exists>st'. read_blocks fs inode offset n out st = Some ((True, take n (drop offset (blocks_data fs st inode k))), st') \<and> undisturbed fs st st'"
  using assms(5-8)
proof (induction "n - length out" arbitrary: out st rule: less_induct)
  case less
  let ?bs = "xf_block_size fs" and ?D = "blocks_data fs st inode k"
  have bs: "0 < ?bs" "?bs \<le> 4096" using geometry_positive [OF assms(1)] by simp_all
  show ?case
  proof (cases "length out < n")
    case False
    then have "length out = n" using less.prems(3) by simp
    then show ?thesis using less.prems(2,4) by (subst read_blocks.simps) (simp add: undisturbed_def)
  next
    case True
    let ?cur = "offset + length out"
    let ?l = "?cur div ?bs" and ?o = "?cur mod ?bs"
    define copy where "copy = min (?bs - ?o) (n - length out)"
    have cur: "?cur mod 2 ^ 32 = ?cur" "?cur < ?bs * k" using True assms(3,4) by simp_all
    have l: "?l < k" using cur(2) by (simp add: less_mult_imp_div_less mult.commute)
    have o: "?o < ?bs" "?bs * ?l + ?o = ?cur" using bs(1) by simp_all
    have cp: "?o + copy \<le> ?bs" "0 < copy" "copy \<le> n - length out" using o(1) True by (auto simp: copy_def)
    obtain s1 where g: "get_block fs inode ?l st = (block_map fs st inode ?l, s1)" "undisturbed fs st s1" "x_block s1 = x_block st"
      by (rule get_block_calm [OF assms(1) less.prems(2) assms(2)])
    have c1: "calm s1" "blk fs s1 = blk fs st" using g(2) by (simp_all add: undisturbed_def)
    let ?s2 = "(tick s1)\<lparr>x_block := overwrite (x_block s1) (blk fs st (block_map fs st inode ?l))\<rparr>"
    have rd: "read_blk fs (block_map fs st inode ?l) s1 = (0, ?s2)" using reads_calm(1) [OF assms(1) c1(1)] c1(2) by simp
    have c2: "calm ?s2" "blk fs ?s2 = blk fs st" using c1 assms(1) less.prems(2) by simp_all
    let ?out = "out @ take copy (drop ?o (overwrite (x_block s1) (blk fs st (block_map fs st inode ?l))))"
    have chunk: "take copy (drop ?o (overwrite (x_block s1) (blk fs st (block_map fs st inode ?l)))) = take copy (drop ?cur ?D)"
      using blocks_data_slice [OF assms(1) less.prems(2) l cp(1), of inode] cp(1) o(2) assms(1) less.prems(2) by (simp add: slice_overwrite)
    have lc: "length (take copy (drop ?cur ?D)) = copy"
      using length_blocks_data [OF assms(1) less.prems(2)] cp(3) assms(3) True by simp
    have out': "?out = take (length ?out) (drop offset ?D)"
      unfolding chunk length_append lc take_add drop_drop add.commute [of "length out" offset] using less.prems(4) by simp
    have len: "length ?out = length out + copy" unfolding chunk length_append lc ..
    have le: "n - length ?out < n - length out" "length ?out \<le> n" unfolding len using cp(2,3) True by simp_all
    have same: "\<forall>l < k. block_map fs ?s2 inode l \<noteq> 0" "?out = take (length ?out) (drop offset (blocks_data fs ?s2 inode k))"
      unfolding block_map_cong [OF c2(2)] blocks_data_cong [OF c2(2)] by (rule less.prems(1), rule out')
    obtain st' where i: "read_blocks fs inode offset n ?out ?s2 = Some ((True, take n (drop offset ?D)), st')" "undisturbed fs ?s2 st'"
      using less.hyps [OF le(1) same(1) c2(1) le(2) same(2)] unfolding blocks_data_cong [OF c2(2)] by blast
    have "sub32 ?bs ?o = ?bs - ?o" using o(1) bs(2) by (intro sub32_exact) simp_all
    then have cc: "(if sub32 ?bs ?o > n - length out then n - length out else sub32 ?bs ?o) = copy" by (simp add: copy_def min_def)
    have step: "read_blocks fs inode offset n out st = read_blocks fs inode offset n ?out ?s2"
      using True g(1) rd less.prems(1) l by (subst read_blocks.simps) (simp only: if_True cur(1) Let_def prod.case cc, simp)
    have "undisturbed fs st st'" using i(2) c2(2) g(2) by (simp add: undisturbed_def)
    with trans [OF step i(1)] show ?thesis by blast
  qed
qed

text \<open>Node \<open>n\<close> is a file of volume \<open>fs\<close> whose blocks are all present.\<close>

definition ext2_file_at :: "nat \<Rightarrow> ext2_fs \<Rightarrow> ext2_state \<Rightarrow> bool" where
  "ext2_file_at n fs st \<longleftrightarrow> calm st \<and> inode_shape fs \<and> n < length (x_nodes st) \<and> vn_ops (x_nodes st ! n) = file_ops \<and>
     (\<exists>f < length (x_fs st). vn_private (x_nodes st ! n) = Some f \<and> x_fs st ! f = fs) \<and>
     0 < vn_inode (x_nodes st ! n) \<and> vn_inode (x_nodes st ! n) \<le> xf_inodes_count fs \<and>
     (let inode = inode_at fs st (vn_inode (x_nodes st ! n)) in
      \<not> has_extents inode \<and> i_size inode < 2 ^ 31 \<and>
      (\<forall>l < (i_size inode + xf_block_size fs - 1) div xf_block_size fs. block_map fs st inode l \<noteq> 0))"

definition ext2_contents :: "nat \<Rightarrow> ext2_fs \<Rightarrow> ext2_state \<Rightarrow> u8 list" where
  "ext2_contents n fs st = (let inode = inode_at fs st (vn_inode (x_nodes st ! n)) in
     take (i_size inode) (blocks_data fs st inode ((i_size inode + xf_block_size fs - 1) div xf_block_size fs)))"

lemma inode_at_cong: "blk fs st' = blk fs st \<Longrightarrow> inode_at fs st' = inode_at fs st"
  using gdesc_cong [of fs st' st] by (simp add: inode_at_def inode_blk_def fun_eq_iff)

lemma ext2_file_quiet:
  "undisturbed fs st st' \<Longrightarrow> ext2_file_at n fs st \<Longrightarrow> ext2_file_at n fs st' \<and> ext2_contents n fs st' = ext2_contents n fs st"
  using inode_at_cong [of fs st' st] block_map_cong [of fs st' st] blocks_data_cong [of fs st' st]
  by (simp add: ext2_file_at_def ext2_contents_def undisturbed_def)

lemma ceil_blocks: "0 < (z :: nat) \<Longrightarrow> s \<le> z * ((s + z - 1) div z)"
proof -
  assume z: "0 < z"
  have "(s + z - 1) mod z < z" using z by simp
  then have "s + z - 1 < z * ((s + z - 1) div z) + z" using mult_div_mod_eq [of z "s + z - 1"] by linarith
  then show ?thesis using z by linarith
qed

lemma ext2_read_spec:
  assumes "ext2_file_at n fs st"
  shows "\<exists>st'. ext2_read n off k st = Some (int (min k (length (ext2_contents n fs st) - off)), take k (drop off (ext2_contents n fs st)), st') \<and>
    undisturbed fs st st'"
proof -
  let ?ino = "vn_inode (x_nodes st ! n)"
  let ?inode = "inode_at fs st ?ino"
  let ?N = "(i_size ?inode + xf_block_size fs - 1) div xf_block_size fs"
  let ?D = "blocks_data fs st ?inode ?N"
  have a: "calm st" "inode_shape fs" "geometry fs" "0 < ?ino" "?ino \<le> xf_inodes_count fs" "\<not> has_extents ?inode" "i_size ?inode < 2 ^ 31"
    "\<forall>l < ?N. block_map fs st ?inode l \<noteq> 0" using assms by (simp_all add: ext2_file_at_def inode_shape_def Let_def)
  obtain f where f: "vn_private (x_nodes st ! n) = Some f" "x_fs st ! f = fs" using assms by (auto simp: ext2_file_at_def)
  obtain s1 where s1: "read_inode fs ?ino st = (0, ?inode, s1)" "calm s1" "blk fs s1 = blk fs st" "x_fs s1 = x_fs st" "x_nodes s1 = x_nodes st"
    by (rule read_inode_calm [OF a(2,1,4,5)])
  have lD: "length ?D = xf_block_size fs * ?N" by (rule length_blocks_data [OF a(3,1)])
  have fit: "i_size ?inode \<le> xf_block_size fs * ?N" by (rule ceil_blocks) (use geometry_positive [OF a(3)] in simp)
  have lc: "length (ext2_contents n fs st) = i_size ?inode" using lD fit by (simp add: ext2_contents_def Let_def)
  show ?thesis
  proof (cases "off \<ge> i_size ?inode")
    case True
    then show ?thesis using f s1 lc by (intro exI [of _ s1]) (simp add: ext2_read_def undisturbed_def)
  next
    case False
    define m where "m = min k (i_size ?inode - off)"
    have m: "(if off + k > i_size ?inode then i_size ?inode - off else k) = m" "off + m \<le> i_size ?inode" "m < 2 ^ 31" using False a(7) by (auto simp: m_def)
    have "\<exists>st'. read_blocks fs ?inode off m [] s1 = Some ((True, take m (drop off (blocks_data fs s1 ?inode ?N))), st') \<and> undisturbed fs s1 st'"
      by (rule read_blocks_spec [OF a(3,6)]) (use m fit a(7,8) s1(2) in \<open>simp_all add: block_map_cong [OF s1(3)]\<close>)
    then obtain st' where r: "read_blocks fs ?inode off m [] s1 = Some ((True, take m (drop off ?D)), st')" "undisturbed fs s1 st'"
      unfolding blocks_data_cong [OF s1(3)] by blast
    have lm: "length (take m (drop off ?D)) = m" using lD fit m(2) by simp
    have tk: "take m (drop off ?D) = take k (drop off (ext2_contents n fs st))"
      by (simp add: ext2_contents_def Let_def drop_take m_def min.commute)
    have "ext2_read n off k st = Some (int32 m, take m (drop off ?D), st')"
      using f s1(1) False r(1) lm by (simp add: ext2_read_def m(1) Let_def)
    moreover have "int32 m = int (min k (length (ext2_contents n fs st) - off))" using m(3) lc by (simp add: int32_small m_def)
    moreover have "undisturbed fs st st'" using r(2) s1 by (simp add: undisturbed_def)
    ultimately show ?thesis using tk by auto
  qed
qed

section \<open>The ext2 driver behind the interface of the virtual file system\<close>

type_synonym ext2_mount_fn = "u8 \<Rightarrow> u8 \<Rightarrow> nat \<Rightarrow> mount_point \<Rightarrow> ext2_state \<Rightarrow> int \<times> mount_point \<times> ext2_state"
type_synonym ext2_defrag_fn = "nat \<Rightarrow> ext2_state \<Rightarrow> (int \<times> (nat \<times> nat \<times> nat) \<times> ext2_state) option"

definition ext2_driver :: "ext2_mount_fn \<Rightarrow> ext2_mount_fn \<Rightarrow> ext2_mount_fn \<Rightarrow> ext2_defrag_fn \<Rightarrow> ext2_state driver" where
  "ext2_driver fat_mount ntfs_mount xfs_mount fat_defrag =
     \<lparr>dr_node = \<lambda>s n. if n < length (x_nodes s) then x_nodes s ! n else node_zero,
      dr_finddir = ext2_finddir, dr_create = ext2_create, dr_read = ext2_read, dr_write = ext2_write,
      dr_readdir = ext2_readdir, dr_unlink = ext2_unlink, dr_rename = ext2_rename,
      dr_fat32_mount = fat_mount, dr_ext2_mount = ext2_mount, dr_ntfs_mount = ntfs_mount, dr_xfs_mount = xfs_mount,
      dr_fat32_defrag = fat_defrag, dr_ext2_defrag = ext2_defrag,
      dr_disk = x_disk, dr_set_disk = \<lambda>d s. s\<lparr>x_disk := d\<rparr>\<rparr>"

interpretation ext2_file: readable_file "ext2_driver fat_mount ntfs_mount xfs_mount fat_defrag" n "ext2_file_at n fs" "ext2_contents n fs"
  for fat_mount ntfs_mount xfs_mount :: ext2_mount_fn and fat_defrag :: ext2_defrag_fn and n fs
proof
  fix s off k assume i: "ext2_file_at n fs s"
  then show "Op_read \<in> set (vn_ops (dr_node (ext2_driver fat_mount ntfs_mount xfs_mount fat_defrag) s n))"
    by (simp add: ext2_driver_def ext2_file_at_def file_ops_def)
  show "length (ext2_contents n fs s) < 2 ^ 31"
    using i by (auto simp: ext2_file_at_def ext2_contents_def Let_def intro: min.strict_coboundedI2)
  show "\<exists>s'. dr_read (ext2_driver fat_mount ntfs_mount xfs_mount fat_defrag) n off k s =
      Some (int (min k (length (ext2_contents n fs s) - off)), take k (drop off (ext2_contents n fs s)), s') \<and>
      ext2_file_at n fs s' \<and> ext2_contents n fs s' = ext2_contents n fs s"
    using ext2_read_spec [OF i, of off k] ext2_file_quiet [of fs s _ n] i by (auto simp: ext2_driver_def)
qed

section \<open>Every call returns\<close>

text \<open>The block buffer keeps its size and the sectors theirs, whatever the device holds and whichever transfers fail.\<close>

definition bufs :: "ext2_state \<Rightarrow> bool" where
  "bufs st \<longleftrightarrow> disk_ok (x_disk st) \<and> length (x_block st) = 4096"

lemma outcome_bound: "snd (outcome d ty n) \<le> n"
  by (auto simp: outcome_def split: list.split option.split)

lemma read_block_bufs:
  assumes "geometry fs" "disk_ok (x_disk st)" "length buf = 4096" "read_block fs b buf st = (rc, buf', st')"
  shows "disk_ok (x_disk st') \<and> length buf' = 4096 \<and> x_block st' = x_block st"
proof -
  obtain ok n where o: "outcome (x_disk st) (xf_drive_type fs) (xf_spb fs) = (ok, n)" by fastforce
  have n: "n \<le> xf_spb fs" "xf_spb fs \<le> 8" "xf_spb fs mod 256 = xf_spb fs"
    using outcome_bound [of "x_disk st" "xf_drive_type fs" "xf_spb fs"] o geometry_spb [OF assms(1)] by simp_all
  then have "512 * n \<le> 4096" by linarith
  then show ?thesis
    using assms(2-4) o n by (auto simp: read_block_def blk_read_def overwrite_def length_read_sectors disk_ok_def)
qed

lemma read_block_keeps: "read_block fs b buf st = (rc, buf', st') \<Longrightarrow> bufs st \<Longrightarrow> bufs st' \<and> x_block st' = x_block st"
  by (auto simp: read_block_def blk_read_def bufs_def disk_ok_def split: prod.splits)

lemma reads_bufs:
  assumes "geometry fs" "bufs st"
  shows "read_blk fs b st = (rc, st') \<Longrightarrow> bufs st'" "read_ind fs b st = (rc, st') \<Longrightarrow> bufs st'" "read_meta fs b st = (rc, st') \<Longrightarrow> bufs st'"
proof -
  obtain rc1 buf1 st1 where r: "read_block fs b (x_block st) st = (rc1, buf1, st1)" by (metis prod_cases3)
  then show "read_blk fs b st = (rc, st') \<Longrightarrow> bufs st'"
    using read_block_bufs [OF assms(1) _ _ r] assms(2) by (auto simp: read_blk_def bufs_def)
  show "read_ind fs b st = (rc, st') \<Longrightarrow> bufs st'" "read_meta fs b st = (rc, st') \<Longrightarrow> bufs st'"
    using read_block_keeps [of fs b _ st] assms(2) by (auto simp: read_ind_def read_meta_def bufs_def split: prod.splits)
qed

lemma read_inode_bufs: "geometry fs \<Longrightarrow> bufs st \<Longrightarrow> bufs (snd (snd (read_inode fs ino st)))"
proof -
  assume a: "geometry fs" "bufs st"
  have "bufs (snd (read_meta fs b s))" if "bufs s" for b s by (rule reads_bufs(3) [OF a(1) that surjective_pairing])
  then have "bufs (snd (load_inode fs ino st))" using a(2) by (simp add: load_inode_def split_def Let_def)
  then show ?thesis by (auto simp: read_inode_def split: prod.splits option.splits)
qed

lemma indirect_bufs: "geometry fs \<Longrightarrow> bufs st \<Longrightarrow> bufs (snd (indirect fs b i st))"
  using reads_bufs(2) [of fs st b] by (auto simp: indirect_def split: prod.splits)

lemma extent_walk_bufs: "geometry fs \<Longrightarrow> bufs st \<Longrightarrow> bufs (snd (extent_walk k fs eh l st))"
proof (induction k fs eh l st rule: extent_walk.induct)
  case (2 k fs eh l st)
  then show ?case using reads_bufs(2) [of fs st] by (auto simp: Let_def split: prod.splits)
qed simp

lemma get_block_bufs: "geometry fs \<Longrightarrow> bufs st \<Longrightarrow> bufs (snd (get_block fs inode l st))"
  using indirect_bufs extent_walk_bufs [of fs st 8 "drop 40 inode" l]
  by (simp add: get_block_def ext4_extent_lookup_def split_def Let_def)

lemma read_blocks_returns:
  assumes "geometry fs" "bufs st"
  shows "read_blocks fs inode offset n out st \<noteq> None"
  using assms(2)
proof (induction "n - length out" arbitrary: out st rule: less_induct)
  case less
  let ?bs = "xf_block_size fs"
  let ?cur = "(offset + length out) mod 2 ^ 32"
  obtain phys s1 where g: "get_block fs inode (?cur div ?bs) st = (phys, s1)" by fastforce
  obtain rc s2 where r: "read_blk fs phys s1 = (rc, s2)" by fastforce
  have b: "bufs s2" using get_block_bufs [OF assms(1) less.prems, of inode "?cur div ?bs"] g reads_bufs(1) [OF assms(1) _ r] by simp
  define copy where "copy = (if sub32 ?bs (?cur mod ?bs) > n - length out then n - length out else sub32 ?bs (?cur mod ?bs))"
  let ?out = "out @ take copy (drop (?cur mod ?bs) (x_block s2))"
  have rec: "read_blocks fs inode offset n ?out s2 \<noteq> None" if "length out < n"
  proof (rule less.hyps [OF _ b])
    have bs: "?cur mod ?bs < ?bs" "?bs \<le> 4096" using geometry_positive [OF assms(1)] by simp_all
    have "sub32 ?bs (?cur mod ?bs) = ?bs - ?cur mod ?bs" using bs by (intro sub32_exact) simp_all
    then have "0 < copy" using bs(1) that by (auto simp: copy_def)
    moreover have "?cur mod ?bs < 4096" using bs by linarith
    ultimately have "0 < length (take copy (drop (?cur mod ?bs) (x_block s2)))" using b by (simp add: bufs_def)
    then show "n - length ?out < n - length out" using that by (simp only: length_append)
  qed
  show ?case
    using rec by (subst read_blocks.simps) (simp only: Let_def prod.case g r copy_def [symmetric], simp del: not_None_eq)
qed

lemma write_blocks_returns:
  assumes "geometry fs"
  shows "write_blocks fs inode offset n data w st \<noteq> None"
proof (induction "n - w" arbitrary: w st rule: less_induct)
  case less
  let ?bs = "xf_block_size fs"
  let ?cur = "offset + w"
  define copy where "copy = (if sub32 ?bs (?cur mod ?bs) > n - w then n - w else sub32 ?bs (?cur mod ?bs))"
  have rec: "write_blocks fs inode offset n data (w + copy) s \<noteq> None" if "w < n" for s
  proof (rule less.hyps)
    have bs: "?cur mod ?bs < ?bs" "?bs \<le> 4096" using geometry_positive [OF assms] by simp_all
    have "sub32 ?bs (?cur mod ?bs) = ?bs - ?cur mod ?bs" using bs by (intro sub32_exact) simp_all
    then show "n - (w + copy) < n - w" using bs(1) that by (auto simp: copy_def)
  qed
  show ?case
    by (subst write_blocks.simps) (simp only: Let_def copy_def [symmetric], simp add: rec del: not_None_eq split: prod.split)
qed

text \<open>A directory whose size leaves room for one more record below \<open>2 ^ 32\<close>: the position cannot wrap.\<close>

lemma scan_entries_returns:
  assumes "i_size inode + 2 ^ 16 \<le> 2 ^ 32"
  shows "scan_entries fs inode test pos cur phys acc st \<noteq> None"
proof (induction "i_size inode - pos" arbitrary: pos cur phys acc st rule: less_induct)
  case less
  have rec: "scan_entries fs inode test (add32 pos (d_rec_len buf off)) c p a s \<noteq> None"
    if "pos < i_size inode" "d_rec_len buf off \<noteq> 0" for buf off c p a s
  proof (rule less.hyps)
    have "d_rec_len buf off < 2 ^ 16" unfolding d_rec_len_def by (rule le16_bound)
    then have "add32 pos (d_rec_len buf off) = pos + d_rec_len buf off" using that(1) assms by (intro add32_exact) linarith
    then show "i_size inode - add32 pos (d_rec_len buf off) < i_size inode - pos" using that by simp
  qed
  show ?case
    using rec by (subst scan_entries.simps) (auto simp: Let_def simp del: not_None_eq split: prod.splits option.splits)
qed

end
