(* ===== verification/Ext2_Props.thy ===== *)
theory Ext2_Props
  imports Ext2_File Elf_Props
begin

text \<open>
  The properties of the ext2 driver that rest on the theories before, and a small volume on which they are
  instantiated: one group of sixteen 1024-byte blocks with eight inodes, and a file of 600 bytes in block 6.
\<close>

section \<open>A small volume\<close>

definition vol16 :: ext2_fs where
  "vol16 = \<lparr>xf_drive = 0, xf_drive_type = 0, xf_part_lba = 0, xf_block_size = 1024, xf_spb = 2, xf_ipg = 8, xf_bpg = 16,
     xf_inode_size = 128, xf_first_data_block = 1, xf_groups_count = 1, xf_blocks_count = 17, xf_inodes_count = 8,
     xf_first_ino = 3, xf_write_supported = True\<rparr>"

definition gd16 :: "u8 list" where
  "gd16 = [3, 0, 0, 0, 4, 0, 0, 0, 5, 0, 0, 0, 10, 0, 5, 0] @ replicate 16 0"

definition inode16 :: "u8 list" where
  "inode16 = [0, 0x80, 0, 0, 0x58, 2, 0, 0] @ replicate 32 0 @ [6, 0, 0, 0] @ replicate 84 0"

definition sec16 :: "nat \<Rightarrow> u8 list" where
  "sec16 lba = (if lba = 4 then gd16 @ replicate 480 0
     else if lba = 6 then 0x3F # replicate 511 0
     else if lba = 8 then 7 # replicate 511 0
     else if lba = 10 then replicate 256 0 @ inode16 @ replicate 128 0
     else if lba = 12 then replicate 512 7
     else if lba = 13 then replicate 512 9
     else replicate 512 0)"

definition file16 :: vfs_node where
  "file16 = node_zero\<lparr>vn_type := VFS_FILE, vn_size := 600, vn_inode := 3, vn_ops := file_ops, vn_private := Some 0\<rparr>"

definition st16 :: ext2_state where
  "st16 = \<lparr>x_disk = \<lparr>dk_sec = \<lambda>ty drv. sec16, dk_plan = []\<rparr>, x_fs = [vol16], x_nodes = [file16], x_block = replicate 4096 0,
     x_meta = replicate 4096 0, x_ind = replicate 4096 0, x_bitmap = replicate 4096 0\<rparr>"

lemma vol16_fields [simp]: "xf_block_size vol16 = 1024" "xf_spb vol16 = 2" "xf_ipg vol16 = 8" "xf_bpg vol16 = 16" "xf_inode_size vol16 = 128"
  "xf_first_data_block vol16 = 1" "xf_groups_count vol16 = 1" "xf_blocks_count vol16 = 17" "xf_inodes_count vol16 = 8" "xf_first_ino vol16 = 3"
  "xf_part_lba vol16 = 0"
  by (simp_all add: vol16_def)

lemma geometry16: "geometry vol16"
  by (simp add: geometry_def)

lemma length_sec16: "length (sec16 lba) = 512"
  by (simp add: sec16_def gd16_def inode16_def)

lemma calm16: "calm st16"
  by (simp add: calm_def st16_def healthy_def disk_ok_def length_sec16 del: calm_lengths)

lemma shape16: "shape vol16"
  using geometry16 by (simp add: shape_def)

lemma blk16: "b < 2 ^ 32 \<Longrightarrow> blk vol16 st16 b = sec16 (2 * b) @ sec16 (2 * b + 1)"
proof -
  assume "b < 2 ^ 32"
  then have "block_lba vol16 b = 2 * b" using block_lba_exact [OF geometry16] by simp
  then show ?thesis by (simp add: blk_def read_sectors_def st16_def numeral_2_eq_2)
qed

lemma gd_place16: "gd_blk vol16 0 = 2" "gd_off vol16 0 = 0"
  using gd_place(1,2) [OF geometry16, of 0] by simp_all

lemma gdesc16: "gdesc vol16 st16 0 = gd16"
  by (simp add: gdesc_def gd_place16 blk16 sec16_def gd16_def)

lemma gd16_fields: "bg_block_bitmap gd16 = 3" "bg_inode_bitmap gd16 = 4" "bg_inode_table gd16 = 5" "bg_free_blocks_count gd16 = 10"
  "bg_free_inodes_count gd16 = 5"
  by (simp_all add: bg_block_bitmap_def bg_inode_bitmap_def bg_inode_table_def bg_free_blocks_count_def bg_free_inodes_count_def
      le32_def le16_def byte_at_def gd16_def)

lemma bits16: "b < 16 \<Longrightarrow> bbit vol16 st16 0 b = (b < 6)" "b < 8 \<Longrightarrow> ibit vol16 st16 0 b = (b < 3)"
proof -
  have m: "(0x3F :: u8) = mask 6" "(7 :: u8) = mask 3" by (simp_all add: mask_eq_exp_minus_1)
  show "bbit vol16 st16 0 b = (b < 6)" if "b < 16"
  proof (cases "b < 8")
    case True
    then show ?thesis by (simp add: bbit_def gdesc16 gd16_fields blk16 sec16_def bm_test_iff byte_at_def m(1) bit_mask_iff)
  next
    case False
    then have "b div 8 = 1" using that by simp
    then show ?thesis using False by (simp add: bbit_def gdesc16 gd16_fields blk16 sec16_def bm_test_iff byte_at_def nth_append)
  qed
  show "ibit vol16 st16 0 b = (b < 3)" if "b < 8"
    using that by (simp add: ibit_def gdesc16 gd16_fields blk16 sec16_def bm_test_iff byte_at_def m(2) bit_mask_iff)
qed

lemma sets16: "used_blocks vol16 st16 = {1 ..< 7}" "used_inodes vol16 st16 = {1 .. 3}" "meta_blocks vol16 st16 = {1, 2, 3, 4}"
proof -
  have "x \<in> used_blocks vol16 st16 \<longleftrightarrow> x \<in> {1 ..< 7}" for x
  proof (cases "1 \<le> x \<and> x < 17")
    case True
    then have "x - 1 < 16" by linarith
    then have "(x - 1) div 16 = 0" "(x - 1) mod 16 = x - 1" "x - 1 < 16" by simp_all
    then show ?thesis using True bits16(1) [of "x - 1"] by (auto simp: used_blocks_def block_pool_def)
  qed (auto simp: used_blocks_def block_pool_def)
  then show "used_blocks vol16 st16 = {1 ..< 7}" by blast
  have "x \<in> used_inodes vol16 st16 \<longleftrightarrow> x \<in> {1 .. 3}" for x
  proof (cases "1 \<le> x \<and> x \<le> 8")
    case True
    then have "x - 1 < 8" by linarith
    then have "(x - 1) div 8 = 0" "(x - 1) mod 8 = x - 1" "x - 1 < 8" by simp_all
    then show ?thesis using True bits16(2) [of "x - 1"] by (auto simp: used_inodes_def)
  qed (auto simp: used_inodes_def)
  then show "used_inodes vol16 st16 = {1 .. 3}" by blast
  have "{..< 1} = {0 :: nat}" by auto
  then show "meta_blocks vol16 st16 = {1, 2, 3, 4}" by (simp add: meta_blocks_def gd_place16 gdesc16 gd16_fields Let_def insert_commute)
qed

lemma volume_ok16: "volume_ok vol16 st16"
proof -
  have "{b. b < 16 \<and> \<not> bbit vol16 st16 0 b} = {6 ..< 16}" "{b. b < 8 \<and> \<not> ibit vol16 st16 0 b} = {3 ..< 8}" using bits16 by auto
  then have "counters vol16 st16" by (simp add: counters_def gdesc16 gd16_fields nbits_def nibits_def)
  moreover have "layout vol16 st16"
  proof -
    have "{..< 1} = {0 :: nat}" by auto
    then show ?thesis by (simp add: layout_def gd_place16 gdesc16 gd16_fields Let_def)
  qed
  moreover have "meta_blocks vol16 st16 \<subseteq> used_blocks vol16 st16" unfolding sets16 by auto
  ultimately show ?thesis using shape16 calm16 by (simp add: volume_ok_def)
qed

lemma inode_shape16: "inode_shape vol16"
  using geometry16 by (simp add: inode_shape_def)

lemma inode_place16: "ino \<in> {1 .. 8} \<Longrightarrow> inode_group vol16 ino = 0 \<and> inode_blk vol16 st16 ino = 5 \<and> inode_off vol16 ino = (ino - 1) * 128"
proof -
  assume i: "ino \<in> {1 .. 8}"
  then have g: "inode_group vol16 ino = 0" "(ino - 1) mod 8 = ino - 1" "ino - 1 < 8" by (auto simp: inode_group_def)
  have "mul32 (ino - 1) 128 = (ino - 1) * 128" "(ino - 1) * 128 div 1024 = 0" "(ino - 1) * 128 mod 1024 = (ino - 1) * 128"
    using g(3) by (simp_all add: mul32_def)
  then show ?thesis using g by (simp add: inode_blk_def inode_off_def locate_inode_def gdesc16 gd16_fields Let_def add32_def)
qed

lemma inode_tables_ok16: "inode_tables_ok vol16 st16"
  using inode_shape16 inode_place16 by (simp add: inode_tables_ok_def sets16)

lemma inode_at16: "inode_at vol16 st16 3 = inode16"
  using inode_place16 [of 3] by (simp add: inode_at_def blk16 sec16_def inode16_def)

lemma file_ok16: "ext2_file_at 0 vol16 st16"
proof -
  have "i_size inode16 = 600" "\<not> has_extents inode16" "i_block inode16 0 = 6"
    by (simp_all add: i_size_def has_extents_def i_flags_def i_block_def le32_def le16_def byte_at_def inode16_def nth_append)
  moreover have "vn_inode (x_nodes st16 ! 0) = 3" "vn_ops (x_nodes st16 ! 0) = file_ops" "vn_private (x_nodes st16 ! 0) = Some 0"
    "x_nodes st16 = [file16]" "x_fs st16 = [vol16]" by (simp_all add: st16_def file16_def)
  ultimately show ?thesis
    using calm16 inode_shape16 by (simp add: ext2_file_at_def inode_at16 Let_def block_map_def)
qed

lemma contents16: "ext2_contents 0 vol16 st16 = replicate 512 7 @ replicate 88 9"
proof -
  have "i_size inode16 = 600" "i_block inode16 0 = 6"
    by (simp_all add: i_size_def i_block_def le32_def le16_def byte_at_def inode16_def nth_append)
  moreover have "vn_inode (x_nodes st16 ! 0) = 3" by (simp add: st16_def file16_def)
  ultimately show ?thesis
    by (simp add: ext2_contents_def inode_at16 Let_def blocks_data_def block_map_def blk16 sec16_def)
qed

section \<open>Allocation\<close>

text \<open>The abstract allocator: the least number that may be handed out, 0 when there is none.\<close>

definition lowest :: "nat set \<Rightarrow> nat" where
  "lowest S = (if S = {} then 0 else LEAST x. x \<in> S)"

lemma lowest_eqI: "n \<in> S \<Longrightarrow> (\<And>x. x \<in> S \<Longrightarrow> n \<le> x) \<Longrightarrow> lowest S = n"
  unfolding lowest_def by (auto intro!: Least_equality)

lemma lowest_cases:
  assumes "if n = 0 then P \<subseteq> U \<and> U' = U else n \<in> P - U \<and> (\<forall>x \<in> P. x < n \<longrightarrow> x \<in> U) \<and> U' = insert n U"
  shows "n = lowest (P - U) \<and> U' = U \<union> ({lowest (P - U)} - {0})"
proof (cases "n = 0")
  case True
  then have "P - U = {}" "U' = U" using assms by auto
  then show ?thesis using True by (simp add: lowest_def)
next
  case False
  then have n: "n \<in> P - U" "\<forall>x \<in> P. x < n \<longrightarrow> x \<in> U" "U' = insert n U" using assms by simp_all
  have "lowest (P - U) = n" using n(1,2) by (intro lowest_eqI) (auto simp: not_less [symmetric])
  then show ?thesis using n(3) False by auto
qed

text \<open>C13: the bitmap allocators implement the abstract allocator on the sets of used blocks and inodes. On a consistent
  volume \<open>alloc_block\<close> returns the lowest free block and 0 when every block is used, \<open>alloc_inode\<close> the lowest free
  inode that is not reserved and 0 when there is none; what is returned is added to the used set, the other set
  stays, the volume stays consistent (free counters, metadata reserved), and no block outside the metadata changes.\<close>

theorem ext2_alloc_refines:
  assumes "volume_ok fs st"
  shows "(\<exists>st1. alloc_block fs st = (lowest (block_pool fs - used_blocks fs st), st1) \<and> volume_ok fs st1 \<and> framed fs st st1 \<and>
      used_blocks fs st1 = used_blocks fs st \<union> ({lowest (block_pool fs - used_blocks fs st)} - {0}) \<and>
      used_inodes fs st1 = used_inodes fs st) \<and>
    (\<exists>st2. alloc_inode fs st = (lowest (inode_pool fs - used_inodes fs st), st2) \<and> volume_ok fs st2 \<and> framed fs st st2 \<and>
      used_inodes fs st2 = used_inodes fs st \<union> ({lowest (inode_pool fs - used_inodes fs st)} - {0}) \<and>
      used_blocks fs st2 = used_blocks fs st)"
proof -
  obtain b st1 where b: "alloc_block fs st = (b, st1)" by fastforce
  obtain i st2 where i: "alloc_inode fs st = (i, st2)" by fastforce
  note lb = xb.alloc_law [OF assms b] and li = xi.alloc_law [OF assms i]
  have "b = lowest (block_pool fs - used_blocks fs st) \<and>
      used_blocks fs st1 = used_blocks fs st \<union> ({lowest (block_pool fs - used_blocks fs st)} - {0})"
    using lb by (intro lowest_cases) blast
  moreover have "i = lowest (inode_pool fs - used_inodes fs st) \<and>
      used_inodes fs st2 = used_inodes fs st \<union> ({lowest (inode_pool fs - used_inodes fs st)} - {0})"
    using li by (intro lowest_cases) blast
  ultimately show ?thesis using lb li b i by blast
qed

theorem ext2_alloc_refines_witness:
  "(\<exists>st. alloc_block vol16 st16 = (7, st) \<and> used_blocks vol16 st = {1 .. 7}) \<and>
   (\<exists>st. alloc_inode vol16 st16 = (4, st) \<and> used_inodes vol16 st = {1 .. 4})"
proof -
  have "lowest (block_pool vol16 - used_blocks vol16 st16) = 7" "lowest (inode_pool vol16 - used_inodes vol16 st16) = 4"
    unfolding sets16 by (rule lowest_eqI; auto simp: block_pool_def inode_pool_def)+
  moreover have "{1 ..< 7} \<union> ({7} - {0}) = {1 .. 7 :: nat}" "{1 .. 3} \<union> ({4} - {0}) = {1 .. 4 :: nat}" by auto
  ultimately show ?thesis using ext2_alloc_refines [OF volume_ok16] sets16 by auto
qed

text \<open>C14: blocks are never handed out twice. For any sequence of allocations and releases of blocks held, starting from a
  consistent volume, the blocks held at the end are pairwise distinct, none was in use at the start (in particular
  none is metadata), the used blocks are exactly those in use at the start and those held, the volume is consistent,
  and every block outside the metadata has the contents it had.\<close>

theorem ext2_blocks_exclusive:
  assumes "volume_ok fs st" "play (alloc_block fs) (free_block fs) ops [] st = (held, st')"
  shows "volume_ok fs st' \<and> distinct held \<and> set held \<inter> used_blocks fs st = {} \<and> set held \<inter> meta_blocks fs st = {} \<and>
    used_blocks fs st' = used_blocks fs st \<union> set held \<and> used_inodes fs st' = used_inodes fs st \<and>
    (\<forall>b < 2 ^ 32. b \<notin> meta_blocks fs st \<longrightarrow> blk fs st' b = blk fs st b)"
proof -
  have r: "meta_blocks fs st \<subseteq> used_blocks fs st" by (rule xb.reserved_law [OF assms(1)])
  have "volume_ok fs st' \<and> (framed fs st st' \<and> used_inodes fs st' = used_inodes fs st) \<and> distinct held \<and> set held \<inter> used_blocks fs st = {} \<and>
      used_blocks fs st' = used_blocks fs st \<union> set held \<and> meta_blocks fs st' = meta_blocks fs st"
    by (rule xb.play_law [OF assms(1) _ _ _ r assms(2)]) simp_all
  with r show ?thesis by (auto simp: framed_def)
qed

theorem ext2_blocks_exclusive_witness:
  "\<exists>held st'. play (alloc_block vol16) (free_block vol16) [Take, Take, Give 1, Take] [] st16 = (held, st') \<and> distinct held \<and>
     set held \<inter> {1 ..< 7} = {} \<and> used_blocks vol16 st' = {1 ..< 7} \<union> set held"
proof -
  obtain held st' where p: "play (alloc_block vol16) (free_block vol16) [Take, Take, Give 1, Take] [] st16 = (held, st')" by fastforce
  from ext2_blocks_exclusive [OF volume_ok16 p] show ?thesis using p sets16 by auto
qed

section \<open>Inodes and files\<close>

text \<open>C15: the inode tables are a map. On a consistent volume, \<open>write_inode\<close> succeeds, reading the inode back returns the
  128 bytes written, reading any other inode returns what it returned before, no other block of the volume changes
  and the allocation bitmaps stay as they are.\<close>

theorem write_inode_read:
  assumes "volume_ok fs st" "inode_tables_ok fs st" "i \<in> {1 .. xf_inodes_count fs}" "length d = 128"
  shows "\<exists>st'. write_inode fs i d st = (0, st') \<and> volume_ok fs st' \<and> inode_tables_ok fs st' \<and>
    used_blocks fs st' = used_blocks fs st \<and> used_inodes fs st' = used_inodes fs st \<and>
    (\<forall>j \<in> {1 .. xf_inodes_count fs}. \<exists>s1 s2. read_inode fs j st' = (0, if j = i then d else inode_at fs st j, s1) \<and>
       read_inode fs j st = (0, inode_at fs st j, s2)) \<and>
    (\<forall>b < 2 ^ 32. b \<noteq> inode_blk fs st i \<longrightarrow> blk fs st' b = blk fs st b)"
proof -
  have c: "inode_shape fs" "calm st" using assms(1,2) by (simp_all add: inode_tables_ok_def volume_ok_def)
  have i: "0 < i" "i \<le> xf_inodes_count fs" using assms(3) by simp_all
  let ?b = "inode_blk fs st i"
  obtain st' where s: "write_inode fs i d st = (0, st')" "calm st'"
    "\<And>b. b < 2 ^ 32 \<Longrightarrow> blk fs st' b = (if b = ?b then splice (blk fs st b) (inode_off fs i) d else blk fs st b)"
    by (rule write_inode_calm [OF c i assms(4)]) (rule that)
  have out: "?b \<notin> meta_blocks fs st" using assms(2,3) by (simp add: inode_tables_ok_def)
  have "blk fs st' b = blk fs st b" if "b < 2 ^ 32" "b \<noteq> ?b" for b using s(3) [OF that(1)] that(2) by simp
  note v = volume_outside [OF assms(1) out this s(2)]
  have ib: "inode_blk fs st' j = inode_blk fs st j" if "j \<in> {1 .. xf_inodes_count fs}" for j
    using v(5) [of "inode_group fs j"] inode_group_bound [OF c(1), of j] that by (simp add: inode_blk_def)
  have at: "inode_at fs st' j = (if j = i then d else inode_at fs st j)" if j: "j \<in> {1 .. xf_inodes_count fs}" for j
  proof -
    have "inode_blk fs st j \<noteq> inode_blk fs st i" if "inode_group fs j \<noteq> inode_group fs i"
      using assms(2,3) j that unfolding inode_tables_ok_def by blast
    then show ?thesis unfolding inode_at_def [of fs st' j] ib [OF j] by (rule inode_at_written [OF c i assms(4) j _ s(3)])
  qed
  have rd: "\<exists>s1 s2. read_inode fs j st' = (0, if j = i then d else inode_at fs st j, s1) \<and> read_inode fs j st = (0, inode_at fs st j, s2)"
    if "j \<in> {1 .. xf_inodes_count fs}" for j
  proof -
    have j: "0 < j" "j \<le> xf_inodes_count fs" using that by simp_all
    obtain s1 where "read_inode fs j st' = (0, inode_at fs st' j, s1)" by (rule read_inode_calm [OF c(1) s(2) j])
    moreover obtain s2 where "read_inode fs j st = (0, inode_at fs st j, s2)" by (rule read_inode_calm [OF c j])
    ultimately show ?thesis using at [OF that] by simp
  qed
  have "inode_tables_ok fs st'" using assms(2) ib v(4) by (simp add: inode_tables_ok_def)
  moreover have "\<forall>b < 2 ^ 32. b \<noteq> ?b \<longrightarrow> blk fs st' b = blk fs st b" using s(3) by simp
  ultimately show ?thesis using s(1) v(1-3) rd by blast
qed

theorem write_inode_read_witness:
  "\<exists>st'. write_inode vol16 4 inode16 st16 = (0, st') \<and> (\<exists>s. read_inode vol16 4 st' = (0, inode16, s)) \<and> (\<exists>s. read_inode vol16 3 st' = (0, inode16, s)) \<and>
     volume_ok vol16 st' \<and> used_inodes vol16 st' = {1 .. 3}"
proof -
  have i: "4 \<in> {1 .. xf_inodes_count vol16}" "3 \<in> {1 .. xf_inodes_count vol16}" "length inode16 = 128" by (simp_all add: inode16_def)
  from write_inode_read [OF volume_ok16 inode_tables_ok16 i(1,3)] obtain st' where w: "write_inode vol16 4 inode16 st16 = (0, st')" "volume_ok vol16 st'"
    "used_inodes vol16 st' = used_inodes vol16 st16"
    "\<forall>j \<in> {1 .. xf_inodes_count vol16}. \<exists>s1 s2. read_inode vol16 j st' = (0, if j = 4 then inode16 else inode_at vol16 st16 j, s1) \<and>
       read_inode vol16 j st16 = (0, inode_at vol16 st16 j, s2)" by blast
  then show ?thesis using bspec [OF w(4) i(1)] bspec [OF w(4) i(2)] sets16(2) inode_at16 by auto
qed

text \<open>C28: a program that reads an ext2 file through a descriptor with any sequence of request sizes gets, one after the
  other, the bytes that the block pointers of the file's inode lead to (direct, single, double and triple indirect),
  from the descriptor's offset on, without gap or repetition, up to the size in the inode; every read returns and
  the descriptor's offset ends where the delivered bytes end. The device is healthy and the file has no hole and no extents.\<close>

theorem vfs_ext2_stream:
  assumes "caller_ok v" "open_fd fd v = Some e" "fd_node e = Some n" "ext2_file_at n fs (v_fs v)"
    "\<forall>k \<in> set ks. k < 2 ^ 32" "unat (fd_offset e) + sum_list ks < 2 ^ 63"
  shows "\<exists>v' e'. vfs_read_seq (ext2_driver fat_mount ntfs_mount xfs_mount fat_defrag) fd ks v =
      Some (take (sum_list ks) (drop (unat (fd_offset e)) (ext2_contents n fs (v_fs v))), v') \<and>
    open_fd fd v' = Some e' \<and> fd_node e' = Some n \<and>
    unat (fd_offset e') = unat (fd_offset e) + min (sum_list ks) (length (ext2_contents n fs (v_fs v)) - unat (fd_offset e))"
proof -
  have "ext2_file.reading n fs fd (unat (fd_offset e)) v" unfolding ext2_file.reading_def using assms by simp
  from ext2_file.stream [OF this assms(5,6), of fat_mount ntfs_mount xfs_mount fat_defrag]
  show ?thesis unfolding ext2_file.reading_def by blast
qed

definition fd16 :: file_descriptor where
  "fd16 = \<lparr>fd_node = Some 0, fd_offset = 510, fd_flags = 1, fd_active = True\<rparr>"

definition vfs16 :: "ext2_state vfs" where
  "vfs16 = \<lparr>mount_table = [], v_sched = sched_zero\<lparr>cur_task := Some Idle,
     idle_task := task_zero\<lparr>t_fd_table := fd16 # replicate 63 fd_zero\<rparr>\<rparr>, v_fs = st16\<rparr>"

definition no_mount16 :: ext2_mount_fn where "no_mount16 ty drv lba mp s = (- 1, mp, s)"
definition no_defrag16 :: ext2_defrag_fn where "no_defrag16 n s = Some (- 1, (0, 0, 0), s)"

theorem vfs_ext2_stream_witness:
  "\<exists>v'. vfs_read_seq (ext2_driver no_mount16 no_mount16 no_mount16 no_defrag16) 0 [1, 3] vfs16 = Some ([7, 7, 9, 9], v')"
proof -
  have ok: "caller_ok vfs16" "open_fd 0 vfs16 = Some fd16"
    by (simp_all add: caller_ok_def vfs16_def fdt_def sched_current_task_def caller_def get_task_def open_fd_def MAX_FD_def fd16_def)
  have f: "ext2_file_at 0 vol16 (v_fs vfs16)" "fd_node fd16 = Some 0" using file_ok16 by (simp_all add: vfs16_def fd16_def)
  have c: "ext2_contents 0 vol16 (v_fs vfs16) = replicate 512 7 @ replicate 88 9" using contents16 by (simp add: vfs16_def)
  have o: "unat (fd_offset fd16) = 510" by (simp add: fd16_def)
  have "\<forall>k \<in> set [1, 3 :: nat]. k < 2 ^ 32" "unat (fd_offset fd16) + sum_list [1, 3] < 2 ^ 63" by (simp_all add: o)
  from vfs_ext2_stream [OF ok f(2,1) this, of no_mount16 no_mount16 no_mount16 no_defrag16]
  obtain v' where "vfs_read_seq (ext2_driver no_mount16 no_mount16 no_mount16 no_defrag16) 0 [1, 3] vfs16 =
      Some (take (sum_list [1, 3]) (drop 510 (replicate 512 7 @ replicate 88 9)), v')"
    unfolding c o by blast
  moreover have "take (sum_list [1, 3]) (drop 510 (replicate 512 7 @ replicate 88 9)) = [7, 7, 9, 9 :: u8]"
    by (simp add: numeral_2_eq_2)
  ultimately show ?thesis by (simp del: vfs_read_seq.simps)
qed

section \<open>Programs on an ext2 volume\<close>

lemma read_blocks_bound:
  assumes "read_blocks fs inode offset n out st = Some y"
  shows "length out \<le> n \<longrightarrow> length (snd (fst y)) \<le> n"
proof (rule read_blocks.raw_induct [OF _ assms, where P = "\<lambda>fs inode offset n out st y. length out \<le> n \<longrightarrow> length (snd (fst y)) \<le> n"],
    goal_cases)
  case (1 self fs inode offset n out st y)
  note hyp = 1(1)
  show ?case
    using 1(2) by (auto simp: Let_def min_def split: if_splits prod.splits dest!: hyp)
qed

lemma ext2_read_bound: "ext2_read node off n st = Some (r, out, st') \<Longrightarrow> length out \<le> n"
proof -
  assume r: "ext2_read node off n st = Some (r, out, st')"
  show ?thesis
  proof (cases "out = []")
    case False
    then obtain fs inode n' st1 ok where "read_blocks fs inode off n' [] st1 = Some ((ok, out), st')" "n' \<le> n"
      using r by (auto simp: ext2_read_def Let_def split: option.splits if_splits prod.splits)
    then show ?thesis using read_blocks_bound [of fs inode off n' "[]" st1] by fastforce
  qed simp
qed

interpretation ext2_source: program_source "ext2_driver fat_mount ntfs_mount xfs_mount fat_defrag"
  for fat_mount ntfs_mount xfs_mount :: ext2_mount_fn and fat_defrag :: ext2_defrag_fn
  by unfold_locales (auto simp: ext2_driver_def dest: ext2_read_bound)

text \<open>The loader's guarantee for programs on an ext2 volume: when \<open>elf_exec\<close> fails, spaces and heap regions are as before.\<close>

corollary ext2_exec_failure_clean:
  assumes "spaces_ok (k_spaces k) (vm_of k)"
    and "length (task_pool (v_sched (k_vfs k))) = MAX_TASKS" "task_count (v_sched (k_vfs k)) \<le> MAX_TASKS"
    and "elf_exec (ext2_driver fat_mount ntfs_mount xfs_mount fat_defrag) env path name argv k = Some (r, k')" "r < 0"
  shows "r = - 1 \<and> k_spaces k' = k_spaces k \<and> kregions (k_heap k') = kregions (k_heap k) \<and> spaces_ok (k_spaces k') (vm_of k')"
  using ext2_source.elf_exec_ok(1) [OF assms(1-4)] assms(5) by (auto simp: attempt_def)

section \<open>Calls return\<close>

lemma scan_dir_returns: "i_size inode + 2 ^ 16 \<le> 2 ^ 32 \<Longrightarrow> scan_dir fs inode test acc st \<noteq> None"
  unfolding scan_dir_def by (rule scan_entries_returns)

lemma ext2_read_returns:
  assumes "vn_private (x_nodes st ! n) = Some f" "geometry (x_fs st ! f)" "bufs st"
  shows "ext2_read n off k st \<noteq> None"
proof -
  obtain rc inode s1 where r: "read_inode (x_fs st ! f) (vn_inode (x_nodes st ! n)) st = (rc, inode, s1)" by (metis prod_cases3)
  have "bufs s1" using read_inode_bufs [OF assms(2,3), of "vn_inode (x_nodes st ! n)"] r by simp
  from read_blocks_returns [OF assms(2) this] show ?thesis using assms(1) r by (simp add: ext2_read_def Let_def del: not_None_eq)
qed

lemma ext2_write_returns:
  assumes "vn_private (x_nodes st ! n) = Some f" "geometry (x_fs st ! f)"
  shows "ext2_write n off data st \<noteq> None"
  using assms(1) write_blocks_returns [OF assms(2)]
  by (auto simp: ext2_write_def Let_def bind_eq_None_conv simp del: not_None_eq split: prod.splits)

lemma ext2_scans_return:
  assumes "vn_private (x_nodes st ! n) = Some f"
    and "i_size (fst (snd (read_inode (x_fs st ! f) (vn_inode (x_nodes st ! n)) st))) + 2 ^ 16 \<le> 2 ^ 32"
  shows "ext2_readdir n idx st \<noteq> None" "ext2_finddir n name st \<noteq> None" "ext2_unlink n name st \<noteq> None"
proof -
  obtain rc inode s1 where r: "read_inode (x_fs st ! f) (vn_inode (x_nodes st ! n)) st = (rc, inode, s1)" by (metis prod_cases3)
  then have i: "i_size inode + 2 ^ 16 \<le> 2 ^ 32" using assms(2) by simp
  show "ext2_readdir n idx st \<noteq> None"
    using assms(1) r scan_dir_returns [OF i, of "x_fs st ! f" "nth_entry idx" 0 s1]
    by (auto simp: ext2_readdir_def Let_def bind_eq_None_conv split: prod.splits scan_result.splits)
  show "ext2_finddir n name st \<noteq> None" "ext2_unlink n name st \<noteq> None"
    using assms(1) r scan_dir_returns [OF i, of "x_fs st ! f" "named_entry name" "()" s1]
    by (auto simp: ext2_finddir_def ext2_unlink_def Let_def bind_eq_None_conv split: prod.splits option.splits scan_result.splits)
qed

text \<open>Beyond that size the position wraps: a directory whose blocks each hold one blank record of the block's length is scanned
  for ever, so the call does not return.\<close>

lemma scan_load_blank:
  assumes "geometry fs" "\<not> has_extents inode" "calm st" "blk fs st = blk fs st0" "lb \<noteq> cur" "block_map fs st0 inode lb \<noteq> 0"
  shows "\<exists>s. scan_load fs inode lb cur phys st = (True, block_map fs st0 inode lb, s) \<and> calm s \<and> blk fs s = blk fs st0 \<and>
    x_block s = overwrite (x_block st) (blk fs st0 (block_map fs st0 inode lb))"
proof -
  obtain s where s: "get_block fs inode lb st = (block_map fs st inode lb, s)" "undisturbed fs st s" "x_block s = x_block st"
    by (rule get_block_calm [OF assms(1,3,2)])
  have c: "calm s" "blk fs s = blk fs st0" "block_map fs st = block_map fs st0" using s(2) assms(4) block_map_cong [OF assms(4)] by (simp_all add: undisturbed_def)
  let ?s = "(tick s)\<lparr>x_block := overwrite (x_block s) (blk fs s (block_map fs st0 inode lb))\<rparr>"
  have "blk fs ?s = blk fs s" by (simp add: fun_eq_iff blk_def tick_def read_sectors_def)
  moreover have "calm ?s" by (rule calm_buffers(1) [OF calm_tick [OF c(1)]]) (use c(1) assms(1) in simp)
  ultimately show ?thesis using s c reads_calm(1) [OF assms(1) c(1)] assms(5,6) by (simp add: scan_load_def)
qed

lemma scan_dir_wraps:
  assumes g: "geometry fs" and x: "\<not> has_extents inode" "2 ^ 32 - xf_block_size fs < i_size inode" and c: "calm st0"
    and blank: "\<And>lb. lb < 2 ^ 32 div xf_block_size fs \<Longrightarrow> block_map fs st0 inode lb \<noteq> 0 \<and>
      d_inode (blk fs st0 (block_map fs st0 inode lb)) 0 = 0 \<and> d_rec_len (blk fs st0 (block_map fs st0 inode lb)) 0 = xf_block_size fs"
    and test: "\<And>acc buf. d_inode buf 0 = 0 \<Longrightarrow> \<exists>a. test acc buf 0 = Some a"
  shows "scan_dir fs inode test acc0 st0 = None"
proof (rule ccontr)
  let ?bs = "xf_block_size fs"
  let ?I = "\<lambda>pos cur st. ?bs dvd pos \<and> pos < 2 ^ 32 \<and> cur \<noteq> pos div ?bs \<and> calm st \<and> blk fs st = blk fs st0"
  have bs: "?bs \<in> {1024, 2048, 4096}" using g by (auto simp: geometry_def)
  then have d: "?bs dvd 2 ^ 32" "0 < ?bs" by auto
  assume "scan_dir fs inode test acc0 st0 \<noteq> None"
  then obtain y where y: "scan_entries fs inode test 0 0xFFFFFFFF 0 acc0 st0 = Some y" by (auto simp: scan_dir_def)
  have "fs = fs \<and> inode = inode \<and> test = test \<longrightarrow> \<not> ?I 0 0xFFFFFFFF st0"
  proof (rule scan_entries.raw_induct [OF _ y, where P = "\<lambda>f i t pos cur phys acc st y. f = fs \<and> i = inode \<and> t = test \<longrightarrow> \<not> ?I pos cur st"], goal_cases)
    case (1 self f i t pos cur phys acc st y)
    show ?case
    proof (intro impI notI)
      assume e: "f = fs \<and> i = inode \<and> t = test" and I: "?I pos cur st"
      let ?lb = "pos div ?bs"
      have lb: "?lb < 2 ^ 32 div ?bs" using I d by (metis dvd_div_mult_self less_mult_imp_div_less)
      note b = blank [OF lb]
      obtain s where s: "scan_load fs inode ?lb cur phys st = (True, block_map fs st0 inode ?lb, s)" "calm s" "blk fs s = blk fs st0"
          "x_block s = overwrite (x_block st) (blk fs st0 (block_map fs st0 inode ?lb))"
        using scan_load_blank [OF g x(1), of st st0 ?lb cur phys] I b by blast
      have l: "length (blk fs st0 p) = ?bs" for p using g c by simp
      have f0: "d_inode (x_block s) 0 = 0" "d_rec_len (x_block s) 0 = ?bs"
      proof -
        have "8 \<le> length (blk fs st0 (block_map fs st0 inode ?lb))" using bs l by auto
        then have "le32 (x_block s) 0 = le32 (blk fs st0 (block_map fs st0 inode ?lb)) 0" "le16 (x_block s) 4 = le16 (blk fs st0 (block_map fs st0 inode ?lb)) 4"
          unfolding s(4) by (simp_all add: le32_overwrite) (simp add: le16_def byte_at_def overwrite_def nth_append)
        then show "d_inode (x_block s) 0 = 0" "d_rec_len (x_block s) 0 = ?bs" using b by (simp_all add: d_inode_def d_rec_len_def)
      qed
      obtain a where a: "test acc (x_block s) 0 = Some a" using test [OF f0(1)] by blast
      have "pos + ?bs \<le> 2 ^ 32"
      proof -
        have "?bs dvd 2 ^ 32 - pos" using I d(1) by (intro dvd_diff_nat) auto
        then show ?thesis using I by (auto dest: dvd_imp_le)
      qed
      then have p: "pos < i_size inode" "pos mod ?bs = 0" using x(2) I by (auto simp: mod_eq_0_iff_dvd)
      have r: "self fs inode test (add32 pos ?bs) ?lb (block_map fs st0 inode ?lb) a s = Some y"
        using 1(2) e p s(1) f0(2) a d(2) by (simp add: Let_def)
      have "?I (add32 pos ?bs) ?lb s"
      proof -
        have "?bs dvd add32 pos ?bs" using I d(1) by (simp add: add32_def dvd_mod_iff)
        moreover have "?lb \<noteq> add32 pos ?bs div ?bs"
        proof
          assume "?lb = add32 pos ?bs div ?bs"
          then have "pos = add32 pos ?bs" using I calculation by (metis dvd_mult_div_cancel)
          then show False using \<open>pos + ?bs \<le> 2 ^ 32\<close> bs by (cases "pos + ?bs = 2 ^ 32") (auto simp: add32_def)
        qed
        ultimately show ?thesis using s(2,3) by (simp add: add32_def)
      qed
      with 1(1) [OF r] show False by blast
    qed
  qed
  then show False using bs c by auto
qed

text \<open>C30: the calls of the driver return. On a volume with blocks of 1024, 2048 or 4096 bytes, for any contents of the device (cyclic,
  truncated or garbage directories, extent trees and pointer blocks) and any pattern of failing transfers, reading and
  writing a file return; listing, looking up and removing return as well when the size in the directory's inode
  leaves room for one record below 4 GiB. Beyond that the 32-bit position can wrap and the scan does not end
  (\<open>scan_dir_wraps\<close>).\<close>

theorem ext2_calls_return:
  assumes "vn_private (x_nodes st ! n) = Some f" "geometry (x_fs st ! f)" "bufs st"
  shows "ext2_read n off k st \<noteq> None \<and> ext2_write n off data st \<noteq> None \<and>
    (i_size (fst (snd (read_inode (x_fs st ! f) (vn_inode (x_nodes st ! n)) st))) + 2 ^ 16 \<le> 2 ^ 32 \<longrightarrow>
      ext2_readdir n idx st \<noteq> None \<and> ext2_finddir n name st \<noteq> None \<and> ext2_unlink n name st \<noteq> None)"
  using ext2_read_returns [OF assms(1-3)] ext2_write_returns [OF assms(1,2)] ext2_scans_return [OF assms(1)] by blast

theorem ext2_calls_return_witness:
  "ext2_read 0 100 50 st16 \<noteq> None \<and> ext2_write 0 600 [1, 2, 3] st16 \<noteq> None \<and> ext2_readdir 0 0 st16 \<noteq> None \<and>
   ext2_finddir 0 [0x61] st16 \<noteq> None \<and> ext2_unlink 0 [0x61] st16 \<noteq> None"
proof -
  have f: "vn_private (x_nodes st16 ! 0) = Some 0" "x_fs st16 ! 0 = vol16" "vn_inode (x_nodes st16 ! 0) = 3" by (simp_all add: st16_def file16_def)
  obtain s where "read_inode vol16 3 st16 = (0, inode_at vol16 st16 3, s)" by (rule read_inode_calm [OF inode_shape16 calm16, of 3]) simp_all
  moreover have "i_size inode16 = 600" by (simp add: i_size_def le32_def le16_def byte_at_def inode16_def)
  ultimately have i: "i_size (fst (snd (read_inode (x_fs st16 ! 0) (vn_inode (x_nodes st16 ! 0)) st16))) + 2 ^ 16 \<le> 2 ^ 32"
    by (simp add: f inode_at16)
  have "geometry (x_fs st16 ! 0)" "bufs st16" using geometry16 calmD(2) [OF calm16] calm_lengths(1) [OF calm16] by (simp_all add: f bufs_def)
  from ext2_calls_return [OF f(1) this] i show ?thesis by blast
qed

end
