(* ===== verification/Ext2_Dir.thy ===== *)
theory Ext2_Dir
  imports Ext2
begin

text \<open>
  Directory blocks of the ext2 driver. A block is read as the list of its records, each as long as its \<open>rec_len\<close>
  says; the live entries are the records with an inode number. The edits the driver makes in a block
  (\<open>place_dirent\<close> of \<open>ext2_insert_dirent\<close>, the clearing store of \<open>ext2_unlink\<close> and \<open>ext2_rename\<close>) act on that
  list as insertion and removal of one entry.
\<close>

section \<open>Records\<close>

text \<open>A record of a directory block: its length is right, and what a live entry uses fits.\<close>

definition wf_rec :: "u8 list \<Rightarrow> bool" where
  "wf_rec c \<longleftrightarrow> 8 \<le> length c \<and> length c < 2 ^ 16 \<and> d_rec_len c 0 = length c \<and> (d_inode c 0 \<noteq> 0 \<longrightarrow> entry_used c 0 \<le> length c)"

text \<open>The entry in a record: inode, type and name.\<close>

definition dent :: "u8 list \<Rightarrow> nat \<times> u8 \<times> u8 list" where
  "dent c = (d_inode c 0, d_file_type c 0, map (d_name c 0) [0 ..< unat (d_name_len c 0)])"

definition live_dents :: "u8 list list \<Rightarrow> (nat \<times> u8 \<times> u8 list) list" where
  "live_dents rs = map dent (filter (\<lambda>c. d_inode c 0 \<noteq> 0) rs)"

text \<open>The records of a block, in order, as the scan visits them.\<close>

function records :: "u8 list \<Rightarrow> u8 list list" where
  "records xs = (let n = d_rec_len xs 0 in
     if n = 0 \<or> n > length xs then [] else take n xs # records (drop n xs))"
  by pat_completeness auto
termination
  by (relation "measure length") auto

declare records.simps [simp del]

lemma rec_len_append: "6 \<le> length c \<Longrightarrow> d_rec_len (c @ s) 0 = d_rec_len c 0"
  by (simp add: d_rec_len_def le16_def byte_at_concat)

lemma records_concat: "\<forall>c \<in> set rs. wf_rec c \<Longrightarrow> records (concat rs) = rs"
proof (induction rs)
  case Nil
  show ?case by (subst records.simps) (simp add: d_rec_len_def le16_def byte_at_def)
next
  case (Cons c rs)
  then have "8 \<le> length c" "d_rec_len c 0 = length c" by (simp_all add: wf_rec_def)
  then have "d_rec_len (c @ concat rs) 0 = length c" "length c \<noteq> 0" using rec_len_append [of c "concat rs"] by auto
  then show ?case using Cons by (subst records.simps) simp
qed

lemma live_dents_append [simp]: "live_dents (as @ bs) = live_dents as @ live_dents bs"
  by (simp add: live_dents_def)

section \<open>Edits are local\<close>

lemma put_le16_local: "i + 2 \<le> length c \<Longrightarrow> put_le16 (p @ c @ s) (length p + i) v = p @ put_le16 c i v @ s"
  by (simp add: put_le16_def list_update_append)

lemma put_le32_local: "i + 4 \<le> length c \<Longrightarrow> put_le32 (p @ c @ s) (length p + i) v = p @ put_le32 c i v @ s"
  using put_le16_local [of i c p s v] put_le16_local [of "i + 2" "put_le16 c i v" p s "v div 2 ^ 16"]
  by (simp add: put_le32_def add.assoc)

lemma splice_local: "i + length d \<le> length c \<Longrightarrow> splice (p @ c @ s) (length p + i) d = p @ splice c i d @ s"
  by (simp add: splice_def)

lemma update_local: "i < length c \<Longrightarrow> (p @ c @ s)[length p + i := v] = p @ c[i := v] @ s"
  by (simp add: list_update_append)

lemma fields_local:
  assumes "8 \<le> length c"
  shows "d_inode (p @ c @ s) (length p) = d_inode c 0" "d_rec_len (p @ c @ s) (length p) = d_rec_len c 0"
    "d_name_len (p @ c @ s) (length p) = d_name_len c 0" "entry_used (p @ c @ s) (length p) = entry_used c 0"
proof -
  have b: "byte_at (p @ c @ s) (length p + i) = byte_at c i" if "i < length c" for i using that by (simp add: byte_at_concat)
  have l16: "le16 (p @ c @ s) (length p + i) = le16 c i" if "i + 2 \<le> length c" for i
    using b [of i] b [of "i + 1"] that by (simp add: le16_def)
  have "le32 (p @ c @ s) (length p + 0) = le32 c 0" using l16 [of 0] l16 [of 2] assms by (simp add: le32_def numeral_2_eq_2)
  then show i: "d_inode (p @ c @ s) (length p) = d_inode c 0" by (simp add: d_inode_def)
  show "d_rec_len (p @ c @ s) (length p) = d_rec_len c 0" using l16 [of 4] assms by (simp add: d_rec_len_def)
  show n: "d_name_len (p @ c @ s) (length p) = d_name_len c 0" using b [of 6] assms by (simp add: d_name_len_def)
  show "entry_used (p @ c @ s) (length p) = entry_used c 0" by (simp only: entry_used_def i n)
qed

lemma length_splice_fit: "i + length d \<le> length c \<Longrightarrow> length (splice c i d) = length c"
  by (simp add: splice_def)

lemma strlen_le [simp]: "vfs_strlen name \<le> length name"
  by (induction name) auto

lemma length_name: "length (take (vfs_strlen name) name) = vfs_strlen name"
  by simp

lemma put_dirent_local:
  assumes "u + (8 + vfs_strlen name) \<le> length c"
  shows "put_dirent (p @ c @ s) (length p + u) ino ft name = p @ put_dirent c u ino ft name @ s"
proof -
  let ?c1 = "put_le32 c u ino"
  let ?c2 = "?c1[u + 6 := of_nat (vfs_strlen name), u + 7 := ft]"
  have "put_le32 (p @ c @ s) (length p + u) ino = p @ ?c1 @ s" using assms by (intro put_le32_local) simp
  moreover have "(p @ ?c1 @ s)[length p + u + 6 := of_nat (vfs_strlen name), length p + u + 7 := ft] = p @ ?c2 @ s"
    using assms update_local [of "u + 6" ?c1 p s] update_local [of "u + 7" "?c1[u + 6 := of_nat (vfs_strlen name)]" p s]
    by (simp add: add.assoc)
  moreover have "splice (p @ ?c2 @ s) (length p + u + 8) (take (vfs_strlen name) name) = p @ splice ?c2 (u + 8) (take (vfs_strlen name) name) @ s"
    using assms splice_local [of "u + 8" "take (vfs_strlen name) name" ?c2 p s] by (simp add: add.assoc min_absorb2)
  ultimately show ?thesis by (simp add: put_dirent_def)
qed

text \<open>What a fresh entry holds.\<close>

lemma put_dirent_fields:
  assumes "8 + vfs_strlen name \<le> length c" "vfs_strlen name \<le> 255" "ino < 2 ^ 32"
  shows "dent (put_dirent c 0 ino ft name) = (ino, ft, take (vfs_strlen name) name)"
    "d_rec_len (put_dirent c 0 ino ft name) 0 = d_rec_len c 0" "length (put_dirent c 0 ino ft name) = length c"
    "unat (d_name_len (put_dirent c 0 ino ft name) 0) = vfs_strlen name"
proof -
  let ?n = "vfs_strlen name"
  let ?h = "(put_le32 c 0 ino)[6 := of_nat ?n, 7 := ft]"
  let ?e = "put_dirent c 0 ino ft name"
  have e: "?e = take 8 ?h @ take ?n name @ drop (8 + ?n) ?h" by (simp add: put_dirent_def splice_def min_absorb2)
  have ln: "length (take ?n name) = ?n" by (rule length_name)
  have b: "byte_at ?e i = byte_at ?h i" if "i < 8" for i
    using that assms(1) by (simp add: e byte_at_concat) (simp add: byte_at_def)
  have h: "byte_at ?h i = byte_at (put_le32 c 0 ino) i" if "i < 6" for i using that by (simp add: byte_at_def)
  show l: "length ?e = length c" using assms(1) ln by (simp add: e)
  have "le32 ?e 0 = le32 (put_le32 c 0 ino) 0" by (simp add: le32_def le16_def b h)
  then have ino: "d_inode ?e 0 = ino" using assms(1,3) le32_put_same [of 0 c ino] by (simp add: d_inode_def)
  show "d_rec_len ?e 0 = d_rec_len c 0" by (simp add: d_rec_len_def le16_def b h byte_at_put32_other)
  have ty: "d_file_type ?e 0 = ft" using assms(1) by (simp add: d_file_type_def b) (simp add: byte_at_def)
  have "d_name_len ?e 0 = of_nat ?n" using assms(1) by (simp add: d_name_len_def b) (simp add: byte_at_def)
  then show nl: "unat (d_name_len ?e 0) = ?n" using assms(2) by (simp add: unat_of_nat)
  have "map (d_name ?e 0) [0 ..< ?n] = take ?n name"
  proof (rule nth_equalityI)
    fix i assume "i < length (map (d_name ?e 0) [0 ..< ?n])"
    then have i: "i < ?n" by simp
    then have "byte_at ?e (8 + i) = take ?n name ! i" using assms(1) ln by (simp add: e byte_at_concat) (simp add: byte_at_def)
    then show "map (d_name ?e 0) [0 ..< ?n] ! i = take ?n name ! i" using i by (simp add: d_name_def)
  qed (simp add: ln)
  then show "dent ?e = (ino, ft, take ?n name)" by (simp add: dent_def ino ty nl)
qed

lemma align4_eq: "x + 3 < 2 ^ 32 \<Longrightarrow> align4 x = (x + 3) div 4 * 4"
proof -
  assume "x + 3 < 2 ^ 32"
  then have u: "unat (of_nat (x + 3) :: u32) = x + 3" by (subst unat_of_nat) simp
  have m: "(3 :: u32) = mask 2" by (simp add: mask_eq_exp_minus_1)
  show ?thesis unfolding align4_def m unat_and_not_mask u by simp
qed

lemma align4_bounds: "x \<le> 2 ^ 16 \<Longrightarrow> x \<le> align4 x \<and> align4 x < x + 4"
  using align4_eq [of x] div_mult_mod_eq [of "x + 3" 4] mod_less_divisor [of 4 "x + 3"] by simp linarith

section \<open>Insertion\<close>

lemma entry_used_bounds: "d_inode c 0 \<noteq> 0 \<Longrightarrow> 8 + unat (d_name_len c 0) \<le> entry_used c 0 \<and> entry_used c 0 < 2 ^ 16"
proof -
  have "unat (d_name_len c 0) < 2 ^ 8" using unsigned_less [of "d_name_len c 0"] by simp
  then show "d_inode c 0 \<noteq> 0 \<Longrightarrow> ?thesis" using align4_bounds [of "8 + unat (d_name_len c 0)"] by (simp add: entry_used_def)
qed

text \<open>A record shortened to what its entry uses still holds the entry.\<close>

lemma shortened:
  assumes "8 + unat (d_name_len c 0) \<le> u" "u \<le> length c" "u < 2 ^ 16"
  shows "dent (put_le16 (take u c) 4 u) = dent c" "d_rec_len (put_le16 (take u c) 4 u) 0 = u"
    "d_inode (put_le16 (take u c) 4 u) 0 = d_inode c 0" "entry_used (put_le16 (take u c) 4 u) 0 = entry_used c 0"
proof -
  let ?x = "put_le16 (take u c) 4 u"
  have b: "byte_at ?x i = byte_at c i" if "i < u" "i \<noteq> 4" "i \<noteq> 5" for i
    using that assms(2) by (simp add: byte_at_put_other) (simp add: byte_at_def)
  have u: "8 \<le> u" using assms(1) by simp
  show i: "d_inode ?x 0 = d_inode c 0" using u by (simp add: d_inode_def le32_def le16_def b)
  have n: "d_name_len ?x 0 = d_name_len c 0" "d_file_type ?x 0 = d_file_type c 0" using u by (simp_all add: d_name_len_def d_file_type_def b)
  show "d_rec_len ?x 0 = u" using u assms(2,3) le16_put_same [of 4 "take u c" u] by (simp add: d_rec_len_def)
  show "entry_used ?x 0 = entry_used c 0" by (simp only: entry_used_def i n)
  have "map (d_name ?x 0) [0 ..< unat (d_name_len c 0)] = map (d_name c 0) [0 ..< unat (d_name_len c 0)]"
    using assms(1) by (intro map_cong refl) (simp add: d_name_def b)
  then show "dent ?x = dent c" by (simp add: dent_def i n)
qed

lemma fresh_record:
  assumes "align4 (8 + vfs_strlen name) \<le> length c" "length c < 2 ^ 16" "vfs_strlen name \<le> 255" "0 < ino" "ino < 2 ^ 32"
    and "d_rec_len c 0 = length c"
  shows "wf_rec (put_dirent c 0 ino ft name)" "live_dents [put_dirent c 0 ino ft name] = [(ino, ft, take (vfs_strlen name) name)]"
proof -
  have f: "8 + vfs_strlen name \<le> length c" using align4_bounds [of "8 + vfs_strlen name"] assms(1,3) by simp
  note pf = put_dirent_fields [OF f assms(3,5), of ft]
  have i: "d_inode (put_dirent c 0 ino ft name) 0 = ino" using pf(1) by (simp add: dent_def)
  have "entry_used (put_dirent c 0 ino ft name) 0 = align4 (8 + vfs_strlen name)" using assms(4) by (simp add: entry_used_def i pf(4))
  then show "wf_rec (put_dirent c 0 ino ft name)" using f assms(1,2,6) pf(2,3) by (simp add: wf_rec_def)
  show "live_dents [put_dirent c 0 ino ft name] = [(ino, ft, take (vfs_strlen name) name)]" using pf(1) i assms(4) by (simp add: live_dents_def)
qed

text \<open>The record that the scan stops at is replaced by one or two.\<close>

lemma place_in_record:
  assumes "wf_rec c" "roomy_entry (align4 (8 + vfs_strlen name)) () c 0 = None" "vfs_strlen name \<le> 255" "0 < ino" "ino < 2 ^ 32"
  obtains rs where "place_dirent c 0 ino ft name = concat rs" "\<forall>r \<in> set rs. wf_rec r" "length (concat rs) = length c"
    "live_dents rs = live_dents [c] @ [(ino, ft, take (vfs_strlen name) name)]"
proof -
  let ?u = "entry_used c 0" and ?m = "align4 (8 + vfs_strlen name)"
  have w: "8 \<le> length c" "length c < 2 ^ 16" "d_rec_len c 0 = length c" "?u \<le> length c" using assms(1) by (auto simp: wf_rec_def entry_used_def)
  have "sub32 (length c) ?u = length c - ?u" using w by (intro sub32_exact) simp_all
  then have room: "?m \<le> length c - ?u" using assms(2) w(3) by (simp add: roomy_entry_def split: if_splits)
  have m8: "8 + vfs_strlen name \<le> ?m" using align4_bounds [of "8 + vfs_strlen name"] assms(3) by simp
  show ?thesis
  proof (cases "d_inode c 0 = 0")
    case True
    then have u: "?u = 0" by (simp add: entry_used_def)
    note fr = fresh_record [OF _ w(2) assms(3-5) w(3), of ft]
    have "length (put_dirent c 0 ino ft name) = length c" using put_dirent_fields(3) m8 room u assms(3,5) by simp
    then show ?thesis using fr room u True by (intro that [of "[put_dirent c 0 ino ft name]"]) (simp_all add: place_dirent_def live_dents_def)
  next
    case False
    note ub = entry_used_bounds [OF False]
    let ?y = "put_le16 (drop ?u c) 4 (length c - ?u)"
    have y: "length ?y = length c - ?u" "d_rec_len ?y 0 = length c - ?u"
      using le16_put_same [of 4 "drop ?u c" "length c - ?u"] m8 room w(2) by (simp_all add: d_rec_len_def)
    let ?x = "put_le16 (take ?u c) 4 ?u"
    have "put_le16 c 4 ?u = ?x @ drop ?u c" using put_le16_local [of 4 "take ?u c" "[]" "drop ?u c" ?u] ub w(4) by simp
    then have "put_le16 (put_le16 c 4 ?u) (?u + 4) (length c - ?u) = ?x @ ?y"
      using put_le16_local [of 4 "drop ?u c" ?x "[]" "length c - ?u"] m8 room w(4) by simp
    then have "place_dirent c 0 ino ft name = ?x @ put_dirent ?y 0 ino ft name"
      using put_dirent_local [of 0 name ?y ?x "[]" ino ft] ub w(3,4) room m8 y(1) \<open>sub32 (length c) ?u = length c - ?u\<close>
      by (simp add: place_dirent_def Let_def)
    moreover have "wf_rec ?x" "live_dents [?x] = live_dents [c]"
      using shortened [of c ?u] ub w(4) False by (simp_all add: wf_rec_def live_dents_def)
    moreover have "wf_rec (put_dirent ?y 0 ino ft name)" "live_dents [put_dirent ?y 0 ino ft name] = [(ino, ft, take (vfs_strlen name) name)]"
      using fresh_record [of name ?y ino ft] y room w(2) assms(3-5) by simp_all
    moreover have "length (put_dirent ?y 0 ino ft name) = length c - ?u" using put_dirent_fields(3) [of name ?y ino ft] y m8 room assms(3,5) by simp
    ultimately show ?thesis
      using w(4) live_dents_append [of "[?x]" "[put_dirent ?y 0 ino ft name]"]
      by (intro that [of "[?x, put_dirent ?y 0 ino ft name]"]) simp_all
  qed
qed

lemma place_dirent_local:
  assumes "wf_rec c" "roomy_entry (align4 (8 + vfs_strlen name)) () c 0 = None" "vfs_strlen name \<le> 255"
  shows "place_dirent (p @ c @ s) (length p) ino ft name = p @ place_dirent c 0 ino ft name @ s"
proof -
  let ?u = "entry_used c 0" and ?m = "align4 (8 + vfs_strlen name)"
  have w: "8 \<le> length c" "length c < 2 ^ 16" "d_rec_len c 0 = length c" "?u \<le> length c" using assms(1) by (auto simp: wf_rec_def entry_used_def)
  have sb: "sub32 (length c) ?u = length c - ?u" using w by (intro sub32_exact) simp_all
  then have room: "?m \<le> length c - ?u" using assms(2) w(3) by (simp add: roomy_entry_def split: if_splits)
  have m8: "8 + vfs_strlen name \<le> ?m" using align4_bounds [of "8 + vfs_strlen name"] assms(3) by simp
  note fl = fields_local [OF w(1), of p s]
  show ?thesis
  proof (cases "?u = 0")
    case True
    then show ?thesis using put_dirent_local [of 0 name c p s ino ft] m8 room by (simp add: place_dirent_def fl)
  next
    case False
    let ?c1 = "put_le16 (put_le16 c 4 ?u) (?u + 4) (length c - ?u)"
    have a: "put_le16 (p @ c @ s) (length p + 4) ?u = p @ put_le16 c 4 ?u @ s" using put_le16_local [of 4 c p s ?u] w(1) by simp
    have b: "put_le16 (p @ put_le16 c 4 ?u @ s) (length p + ?u + 4) (length c - ?u) = p @ ?c1 @ s"
      using put_le16_local [of "?u + 4" "put_le16 c 4 ?u" p s "length c - ?u"] m8 room by (simp add: add.assoc)
    have "put_dirent (p @ ?c1 @ s) (length p + ?u) ino ft name = p @ put_dirent ?c1 ?u ino ft name @ s"
      using w(4) m8 room by (intro put_dirent_local) simp
    then show ?thesis using False by (simp add: place_dirent_def fl w(3) sb a b Let_def)
  qed
qed

text \<open>Clearing the inode number of a record.\<close>

lemma cleared_record:
  assumes "wf_rec c"
  shows "wf_rec (put_le32 c 0 0)" "live_dents [put_le32 c 0 0] = []" "length (put_le32 c 0 0) = length c"
proof -
  have "8 \<le> length c" using assms by (simp add: wf_rec_def)
  then have i: "d_inode (put_le32 c 0 0) 0 = 0" using le32_put_same [of 0 c 0] by (simp add: d_inode_def)
  moreover have "d_rec_len (put_le32 c 0 0) 0 = d_rec_len c 0" by (simp add: d_rec_len_def le16_def byte_at_put32_other)
  ultimately show "wf_rec (put_le32 c 0 0)" "live_dents [put_le32 c 0 0] = []" "length (put_le32 c 0 0) = length c"
    using assms by (simp_all add: wf_rec_def live_dents_def)
qed

text \<open>C29: the edits of a directory block are insertion into and removal from its list of entries. When a block is a sequence
  of well-formed records and the scan of \<open>ext2_insert_dirent\<close> stops at a record with room, the block it writes is again
  a sequence of well-formed records of the same total length, whose live entries are the old ones in their order with the
  new inode, type and name right behind the entry of that record; no other entry changes or moves. Clearing the inode of a
  record, as \<open>ext2_unlink\<close> and \<open>ext2_rename\<close> do, removes exactly its entry.\<close>

theorem directory_edits:
  assumes "\<forall>r \<in> set (as @ c # bs). wf_rec r" "vfs_strlen name \<le> 255" "0 < ino" "ino < 2 ^ 32"
  shows "(roomy_entry (align4 (8 + vfs_strlen name)) () (concat (as @ c # bs)) (length (concat as)) = None \<longrightarrow>
      (let b = place_dirent (concat (as @ c # bs)) (length (concat as)) ino ft name in
       length b = length (concat (as @ c # bs)) \<and> concat (records b) = b \<and> (\<forall>r \<in> set (records b). wf_rec r) \<and>
       live_dents (records b) = live_dents (as @ [c]) @ [(ino, ft, take (vfs_strlen name) name)] @ live_dents bs)) \<and>
    (let b = put_le32 (concat (as @ c # bs)) (length (concat as)) 0 in
       length b = length (concat (as @ c # bs)) \<and> concat (records b) = b \<and> (\<forall>r \<in> set (records b). wf_rec r) \<and>
       live_dents (records b) = live_dents as @ live_dents bs)"
proof -
  let ?b = "concat (as @ c # bs)" and ?o = "length (concat as)"
  have c: "wf_rec c" "8 \<le> length c" using assms(1) by (simp_all add: wf_rec_def)
  have b0: "?b = concat as @ c @ concat bs" by simp
  have ins: "let b = place_dirent ?b ?o ino ft name in
       length b = length ?b \<and> concat (records b) = b \<and> (\<forall>r \<in> set (records b). wf_rec r) \<and>
       live_dents (records b) = live_dents (as @ [c]) @ [(ino, ft, take (vfs_strlen name) name)] @ live_dents bs"
    if "roomy_entry (align4 (8 + vfs_strlen name)) () ?b ?o = None"
  proof -
    have r: "roomy_entry (align4 (8 + vfs_strlen name)) () c 0 = None"
      using that unfolding b0 roomy_entry_def by (simp only: fields_local [OF c(2)])
    obtain rs where rs: "place_dirent c 0 ino ft name = concat rs" "\<forall>r \<in> set rs. wf_rec r" "length (concat rs) = length c"
      "live_dents rs = live_dents [c] @ [(ino, ft, take (vfs_strlen name) name)]" by (rule place_in_record [OF c(1) r assms(2-4)])
    have e: "place_dirent ?b ?o ino ft name = concat (as @ rs @ bs)"
      unfolding b0 using place_dirent_local [OF c(1) r assms(2), of "concat as" "concat bs" ino ft] rs(1) by simp
    have wf: "\<forall>r \<in> set (as @ rs @ bs). wf_rec r" using assms(1) rs(2) by auto
    show ?thesis unfolding e Let_def records_concat [OF wf] using wf rs(3,4) by simp
  qed
  have e: "put_le32 ?b ?o 0 = concat (as @ put_le32 c 0 0 # bs)"
    using put_le32_local [of 0 c "concat as" "concat bs" 0] c(2) by simp
  have wf: "\<forall>r \<in> set (as @ put_le32 c 0 0 # bs). wf_rec r" using assms(1) cleared_record(1) [OF c(1)] by auto
  have "let b = put_le32 ?b ?o 0 in length b = length ?b \<and> concat (records b) = b \<and> (\<forall>r \<in> set (records b). wf_rec r) \<and>
       live_dents (records b) = live_dents as @ live_dents bs"
    unfolding e Let_def records_concat [OF wf]
    using wf cleared_record(2,3) [OF c(1)] live_dents_append [of "[put_le32 c 0 0]" bs] by simp
  with ins show ?thesis by blast
qed

text \<open>The entry \<open>.\<close> in a record of 24 bytes has room for one more.\<close>

definition dot24 :: "u8 list" where
  "dot24 = [2, 0, 0, 0, 24, 0, 1, 2, 0x2E] @ replicate 15 0"

theorem directory_edits_witness:
  "live_dents (records (place_dirent dot24 0 5 1 [0x61])) = [(2, 2, [0x2E]), (5, 1, [0x61])] \<and> live_dents (records (put_le32 dot24 0 0)) = []"
proof -
  have s: "vfs_strlen [0x61] = 1" by simp
  have a: "align4 9 = 12" by (simp add: align4_eq)
  have f: "d_inode dot24 0 = 2" "d_rec_len dot24 0 = 24" "d_name_len dot24 0 = 1" "d_file_type dot24 0 = 2" "d_name dot24 0 0 = 0x2E" "length dot24 = 24"
    by (simp_all add: d_inode_def d_rec_len_def d_name_len_def d_file_type_def d_name_def le32_def le16_def byte_at_def dot24_def)
  have u: "entry_used dot24 0 = 12" by (simp add: entry_used_def f a)
  have w: "\<forall>r \<in> set ([] @ dot24 # []). wf_rec r" by (simp add: wf_rec_def f u)
  have room: "roomy_entry (align4 (8 + vfs_strlen [0x61])) () (concat ([] @ dot24 # [])) (length (concat [])) = None"
    by (simp add: roomy_entry_def s a f u sub32_def)
  have d: "live_dents ([] @ [dot24]) = [(2, 2, [0x2E])]" by (simp add: live_dents_def dent_def f)
  have "vfs_strlen [0x61] \<le> 255" "0 < (5 :: nat)" "(5 :: nat) < 2 ^ 32" by simp_all
  from directory_edits [OF w this, of 1] room d show ?thesis by (simp add: live_dents_def Let_def)
qed

end
