(* ===== verification/Xfs.thy ===== *)
theory Xfs
  imports Vfs
begin

text \<open>
  \<open>fs/xfs.c\<close> and \<open>fs/xfs.h\<close>: the read-only XFS driver. The state holds the pools of volumes and nodes, the three
  static buffers (\<open>inode_buf\<close>, \<open>block_buf\<close> and the \<open>inode_block_buf\<close> of \<open>read_inode_raw\<close>) and the block devices; a
  pointer into a pool is its index. The structures of the disk are big-endian: a field is read as the machine
  reads it and swapped. Unsigned values are natural numbers with the wrap-around written out. Loops that a
  damaged volume can keep running are \<open>partial_function (option)\<close>, \<open>None\<close> being a call that does not return. Bytes
  behind the end of a static buffer, which the driver can read on a damaged volume, read as 0 here, and shifts
  are by the logarithms of the superblock, which the code does not check to be below the width.
\<close>

section \<open>Data\<close>

definition MAX_XFS_FS :: nat where "MAX_XFS_FS = 4"
definition MAX_XFS_NODES :: nat where "MAX_XFS_NODES = 128"
definition FS_XFS :: nat where "FS_XFS = 5"
definition XFS_SB_MAGIC :: nat where "XFS_SB_MAGIC = 0x58465342"
definition XFS_SB_VERSION_NUMBITS :: u16 where "XFS_SB_VERSION_NUMBITS = 0x000f"
definition XFS_SB_VERSION_5 :: u16 where "XFS_SB_VERSION_5 = 5"
definition XFS_DINODE_MAGIC :: nat where "XFS_DINODE_MAGIC = 0x494e"
definition XFS_DINODE_FMT_LOCAL :: u8 where "XFS_DINODE_FMT_LOCAL = 1"
definition XFS_DINODE_FMT_EXTENTS :: u8 where "XFS_DINODE_FMT_EXTENTS = 2"
definition XFS_S_IFMT :: u16 where "XFS_S_IFMT = 0xF000"
definition XFS_S_IFDIR :: u16 where "XFS_S_IFDIR = 0x4000"

record xfs_fs =
  xs_drive :: u8
  xs_drive_type :: u8
  xs_part_lba :: nat
  xs_block_size :: nat
  xs_spb :: nat
  xs_agblocks :: nat
  xs_agcount :: nat
  xs_agblklog :: nat
  xs_inodesize :: nat
  xs_inopblock :: nat
  xs_inopblog :: nat
  xs_dirblklog :: nat
  xs_rootino :: nat

record xfs_state =
  xs_disk :: disk
  xs_pool :: "xfs_fs list"
  xs_nodes :: "vfs_node list"
  xs_inode_buf :: "u8 list"
  xs_block_buf :: "u8 list"
  xs_inode_block :: "u8 list"

definition xfs_fs_zero :: xfs_fs where
  "xfs_fs_zero = \<lparr>xs_drive = 0, xs_drive_type = 0, xs_part_lba = 0, xs_block_size = 0, xs_spb = 0, xs_agblocks = 0,
     xs_agcount = 0, xs_agblklog = 0, xs_inodesize = 0, xs_inopblock = 0, xs_inopblog = 0, xs_dirblklog = 0, xs_rootino = 0\<rparr>"

definition xfs_alloc_node :: "xfs_state \<Rightarrow> nat option \<times> xfs_state" where
  "xfs_alloc_node st = (if length (xs_nodes st) \<ge> MAX_XFS_NODES then (None, st)
     else (Some (length (xs_nodes st)), st\<lparr>xs_nodes := xs_nodes st @ [node_zero]\<rparr>))"

definition xfs_alloc_fs :: "xfs_state \<Rightarrow> nat option \<times> xfs_state" where
  "xfs_alloc_fs st = (if length (xs_pool st) \<ge> MAX_XFS_FS then (None, st)
     else (Some (length (xs_pool st)), st\<lparr>xs_pool := xs_pool st @ [xfs_fs_zero]\<rparr>))"

section \<open>Big-endian fields\<close>

definition xfs_be16 :: "u16 \<Rightarrow> u16" where "xfs_be16 v = drop_bit 8 v OR push_bit 8 v"

definition xfs_be32 :: "nat \<Rightarrow> nat" where
  "xfs_be32 v = v mod 2 ^ 8 * 2 ^ 24 + v div 2 ^ 8 mod 2 ^ 8 * 2 ^ 16 + v div 2 ^ 16 mod 2 ^ 8 * 2 ^ 8 + v div 2 ^ 24 mod 2 ^ 8"

definition xfs_be64 :: "nat \<Rightarrow> nat" where
  "xfs_be64 v = xfs_be32 (v mod 2 ^ 32) * 2 ^ 32 + xfs_be32 (v div 2 ^ 32)"

definition be16_at :: "u8 list \<Rightarrow> nat \<Rightarrow> nat" where "be16_at buf i = unat (xfs_be16 (of_nat (le16 buf i)))"
definition be32_at :: "u8 list \<Rightarrow> nat \<Rightarrow> nat" where "be32_at buf i = xfs_be32 (le32 buf i)"
definition be64_at :: "u8 list \<Rightarrow> nat \<Rightarrow> nat" where "be64_at buf i = xfs_be64 (le64 buf i)"

text \<open>The inode core.\<close>

definition di_mode :: "u8 list \<Rightarrow> u16" where "di_mode core = of_nat (be16_at core 2)"
definition di_format :: "u8 list \<Rightarrow> u8" where "di_format core = byte_at core 5"
definition di_size :: "u8 list \<Rightarrow> nat" where "di_size core = be64_at core 56"
definition di_nextents :: "u8 list \<Rightarrow> nat" where "di_nextents core = be32_at core 76"

section \<open>Blocks and inodes\<close>

definition xfs_read_block :: "xfs_fs \<Rightarrow> nat \<Rightarrow> u8 list \<Rightarrow> xfs_state \<Rightarrow> int \<times> u8 list \<times> xfs_state" where
  "xfs_read_block fs block buf st =
     (let lba = add64 (xs_part_lba fs) (mul64 block (xs_spb fs));
          (rc, buf, d) = blk_read (xs_drive_type fs) (xs_drive fs) lba (xs_spb fs) buf (xs_disk st)
      in (rc, buf, st\<lparr>xs_disk := d\<rparr>))"

definition xfs_fsb_to_block :: "xfs_fs \<Rightarrow> nat \<Rightarrow> nat" where
  "xfs_fsb_to_block fs fsbno =
     (let agno = fsbno div 2 ^ xs_agblklog fs; agbno = fsbno mod 2 ^ xs_agblklog fs
      in add64 (mul64 agno (xs_agblocks fs)) agbno)"

definition xfs_ino_to_loc :: "xfs_fs \<Rightarrow> nat \<Rightarrow> nat \<times> nat" where
  "xfs_ino_to_loc fs ino =
     (let agno = ino div 2 ^ (xs_agblklog fs + xs_inopblog fs);
          rest = ino mod 2 ^ (xs_agblklog fs + xs_inopblog fs);
          agbno = rest div 2 ^ xs_inopblog fs;
          index = rest mod 2 ^ xs_inopblog fs mod 2 ^ 32
      in (add64 (mul64 agno (xs_agblocks fs)) agbno, mul32 index (xs_inodesize fs)))"

definition xfs_read_inode_raw :: "xfs_fs \<Rightarrow> nat \<Rightarrow> xfs_state \<Rightarrow> int \<times> xfs_state" where
  "xfs_read_inode_raw fs ino st =
     (let (block, off) = xfs_ino_to_loc fs ino;
          (rc, buf, st) = xfs_read_block fs block (xs_inode_block st) st;
          st = st\<lparr>xs_inode_block := buf\<rparr>
      in if rc \<noteq> 0 then (- 1, st)
         else if add32 off (xs_inodesize fs) > 4096 then (- 1, st)
         else
           let st = st\<lparr>xs_inode_buf := overwrite (xs_inode_buf st) (bytes_of (xs_inode_block st) off (xs_inodesize fs))\<rparr> in
           if be16_at (xs_inode_buf st) 0 \<noteq> XFS_DINODE_MAGIC then (- 1, st) else (0, st))"

section \<open>Extents\<close>

record xfs_extent =
  xe_startoff :: nat
  xe_startblock :: nat
  xe_blockcount :: nat
  xe_unwritten :: bool

text \<open>The record at offset \<open>at\<close> of a buffer.\<close>

definition xfs_decode_extent :: "u8 list \<Rightarrow> nat \<Rightarrow> xfs_extent" where
  "xfs_decode_extent buf at =
     (let l0 = of_nat (be64_at buf at) :: u64; l1 = of_nat (be64_at buf (at + 8)) :: u64
      in \<lparr>xe_startoff = unat (drop_bit 9 l0 AND (push_bit 54 1 - 1)),
          xe_startblock = unat (push_bit 43 (l0 AND 0x1FF) OR drop_bit 21 l1),
          xe_blockcount = unat (l1 AND (push_bit 21 1 - 1)),
          xe_unwritten = (drop_bit 63 l0 \<noteq> 0)\<rparr>)"

text \<open>The records from the \<open>i\<close>th on; they start at \<open>inode_buf + 100\<close>.\<close>

function xfs_resolve_extent :: "xfs_fs \<Rightarrow> u8 list \<Rightarrow> nat \<Rightarrow> nat \<Rightarrow> nat \<Rightarrow> nat" where
  "xfs_resolve_extent fs buf i n lb =
     (if i < n then
        let e = xfs_decode_extent buf (100 + mul32 i 16) in
        if lb \<ge> xe_startoff e \<and> lb < xe_startoff e + xe_blockcount e
        then xfs_fsb_to_block fs (add64 (xe_startblock e) (lb - xe_startoff e))
        else xfs_resolve_extent fs buf (i + 1) n lb
      else 0)"
  by pat_completeness auto
termination
  by (relation "measure (\<lambda>(fs, buf, i, n, lb). n - i)") auto

declare xfs_resolve_extent.simps [simp del]

section \<open>Reading\<close>

text \<open>The loop over blocks; \<open>out\<close> holds the bytes copied so far.\<close>

partial_function (option) xfs_read_blocks :: "xfs_fs \<Rightarrow> nat \<Rightarrow> nat \<Rightarrow> nat \<Rightarrow> u8 list \<Rightarrow> xfs_state \<Rightarrow> (u8 list \<times> xfs_state) option" where
  "xfs_read_blocks fs nextents offset remaining out st =
     (if length out < remaining then
        let cur = add64 offset (length out);
            lb = cur div xs_block_size fs; blk_off = cur mod xs_block_size fs;
            phys = xfs_resolve_extent fs (xs_inode_buf st) 0 nextents lb
        in if phys = 0 then Some (out, st)
           else
             let (rc, buf, st) = xfs_read_block fs phys (xs_block_buf st) st;
                 st = st\<lparr>xs_block_buf := buf\<rparr>
             in if rc \<noteq> 0 then Some (out, st)
                else
                  let copy = min (xs_block_size fs - blk_off) (remaining - length out)
                  in xfs_read_blocks fs nextents offset remaining (out @ bytes_of (xs_block_buf st) blk_off copy) st
      else Some (out, st))"

definition xfs_read :: "nat \<Rightarrow> nat \<Rightarrow> nat \<Rightarrow> xfs_state \<Rightarrow> (int \<times> u8 list \<times> xfs_state) option" where
  "xfs_read node offset n st =
     (let nd = xs_nodes st ! node in
      case vn_private nd of
        None \<Rightarrow> Some (- 1, [], st)
      | Some f \<Rightarrow>
          let fs = xs_pool st ! f in
          if offset \<ge> vn_size nd then Some (0, [], st)
          else
            let (rc, st) = xfs_read_inode_raw fs (vn_inode nd) st in
            if rc \<noteq> 0 then Some (- 1, [], st)
            else
              let remaining = (if add64 offset n > vn_size nd then (vn_size nd - offset) mod 2 ^ 32 else n) in
              if remaining = 0 then Some (0, [], st)
              else if di_format (xs_inode_buf st) = XFS_DINODE_FMT_LOCAL then
                Some (int32 remaining, bytes_of (xs_inode_buf st) (100 + offset) remaining, st)
              else if di_format (xs_inode_buf st) \<noteq> XFS_DINODE_FMT_EXTENTS then Some (- 1, [], st)
              else do {
                (out, st) \<leftarrow> xfs_read_blocks fs (di_nextents (xs_inode_buf st)) offset remaining [] st;
                Some (if out = [] then - 1 else int32 (length out), out, st)
              })"

section \<open>Directories\<close>

record xfs_sf_entry =
  se_name :: "u8 list"
  se_inumber :: nat
  se_ftype :: u8

text \<open>\<open>sf\<close> is the literal area of the inode, \<open>pos\<close> the position of entry \<open>i\<close> in it; \<open>left\<close> entries remain.\<close>

definition sf_inumber :: "u8 list \<Rightarrow> nat \<Rightarrow> nat \<Rightarrow> nat" where
  "sf_inumber sf inum_sz pos = (if inum_sz = 8 then be64_at sf pos else be32_at sf pos)"

fun sf_walk :: "u8 list \<Rightarrow> nat \<Rightarrow> nat \<Rightarrow> nat \<Rightarrow> nat \<Rightarrow> nat \<Rightarrow> xfs_sf_entry option" where
  "sf_walk sf inum_sz want_idx i pos 0 = None"
| "sf_walk sf inum_sz want_idx i pos (Suc left) =
     (let namelen = unat (byte_at sf pos) in
      if i = want_idx then
        Some \<lparr>se_name = bytes_of sf (pos + 3) namelen, se_inumber = sf_inumber sf inum_sz (pos + 3 + namelen + 1),
              se_ftype = byte_at sf (pos + 3 + namelen)\<rparr>
      else sf_walk sf inum_sz want_idx (i + 1) (pos + (3 + namelen + 1 + inum_sz)) left)"

definition xfs_sf_entry_at :: "nat \<Rightarrow> xfs_state \<Rightarrow> xfs_sf_entry option" where
  "xfs_sf_entry_at want_idx st =
     (let sf = drop 100 (xs_inode_buf st); inum_sz = (if byte_at sf 1 \<noteq> 0 then 8 else 4)
      in sf_walk sf inum_sz want_idx 0 (2 + inum_sz) (unat (byte_at sf 0)))"

definition block_entry_len :: "nat \<Rightarrow> nat" where
  "block_entry_len namelen = unat ((of_nat (9 + namelen + 1 + 2 + 7) :: u32) AND NOT 7)"

partial_function (option) block_walk :: "u8 list \<Rightarrow> nat \<Rightarrow> nat \<Rightarrow> nat \<Rightarrow> nat \<Rightarrow> xfs_sf_entry option option" where
  "block_walk buf leaf_start want_idx pos seen =
     (if pos < leaf_start then
        if be16_at buf pos = 0xFFFF then block_walk buf leaf_start want_idx (add32 pos (be16_at buf (pos + 2))) seen
        else
          let namelen = unat (byte_at buf (pos + 8));
              name = bytes_of buf (pos + 9) namelen;
              is_dot = (name = [0x2E]); is_dotdot = (name = [0x2E, 0x2E]);
              nxt = add32 pos (block_entry_len namelen)
          in if \<not> is_dot \<and> \<not> is_dotdot then
               if seen = want_idx then
                 Some (Some \<lparr>se_name = name, se_inumber = be64_at buf pos, se_ftype = byte_at buf (pos + 9 + namelen)\<rparr>)
               else block_walk buf leaf_start want_idx nxt (seen + 1)
             else block_walk buf leaf_start want_idx nxt seen
      else Some None)"

definition xfs_block_entry_at :: "nat \<Rightarrow> nat \<Rightarrow> xfs_state \<Rightarrow> xfs_sf_entry option option" where
  "xfs_block_entry_at dirblksize want_idx st =
     (let tail_off = sub32 dirblksize 8;
          count = be32_at (xs_block_buf st) tail_off;
          leaf_start = sub32 tail_off (mul32 count 8)
      in block_walk (xs_block_buf st) leaf_start want_idx 16 0)"

text \<open>The file system blocks of one directory block, read one after the other.\<close>

fun load_dir_blocks :: "xfs_fs \<Rightarrow> nat \<Rightarrow> nat \<Rightarrow> nat \<Rightarrow> xfs_state \<Rightarrow> bool \<times> xfs_state" where
  "load_dir_blocks fs phys i 0 st = (True, st)"
| "load_dir_blocks fs phys i (Suc n) st =
     (let off = mul32 i (xs_block_size fs);
          (rc, buf, st) = xfs_read_block fs (add64 phys i) (drop off (xs_block_buf st)) st;
          st = st\<lparr>xs_block_buf := take off (xs_block_buf st) @ buf\<rparr>
      in if rc \<noteq> 0 then (False, st) else load_dir_blocks fs phys (i + 1) n st)"

text \<open>The kind of directory (1 shortform, 2 single block, 0 unsupported) and its block size.\<close>

definition xfs_load_dir :: "nat \<Rightarrow> xfs_fs \<Rightarrow> xfs_state \<Rightarrow> (nat \<times> nat) \<times> xfs_state" where
  "xfs_load_dir node fs st =
     (let (rc, st) = xfs_read_inode_raw fs (vn_inode (xs_nodes st ! node)) st in
      if rc \<noteq> 0 then ((0, 0), st)
      else if di_format (xs_inode_buf st) = XFS_DINODE_FMT_LOCAL then ((1, 0), st)
      else if di_format (xs_inode_buf st) \<noteq> XFS_DINODE_FMT_EXTENTS then ((0, 0), st)
      else
        let dirblksize = unat (push_bit (xs_dirblklog fs) (of_nat (xs_block_size fs) :: u32)) in
        if di_nextents (xs_inode_buf st) \<noteq> 1 then ((0, 0), st)
        else
          let e = xfs_decode_extent (xs_inode_buf st) 100 in
          if xe_startoff e \<noteq> 0 \<or> mul32 (xe_blockcount e) (xs_block_size fs) \<noteq> dirblksize then ((0, 0), st)
          else
            let phys = xfs_fsb_to_block fs (xe_startblock e) in
            if dirblksize > 4096 then ((0, 0), st)
            else
              let (ok, st) = load_dir_blocks fs phys 0 (unat (push_bit (xs_dirblklog fs) 1 :: u32)) st
              in if \<not> ok then ((0, 0), st) else ((2, dirblksize), st))"

definition dir_entry_at :: "nat \<times> nat \<Rightarrow> nat \<Rightarrow> xfs_state \<Rightarrow> xfs_sf_entry option option" where
  "dir_entry_at kind idx st =
     (if fst kind = 1 then Some (xfs_sf_entry_at idx st)
      else if fst kind = 2 then xfs_block_entry_at (snd kind) idx st else Some None)"

definition xfs_readdir :: "nat \<Rightarrow> nat \<Rightarrow> xfs_state \<Rightarrow> (dirent option \<times> xfs_state) option" where
  "xfs_readdir node index st =
     (case vn_private (xs_nodes st ! node) of
        None \<Rightarrow> Some (None, st)
      | Some f \<Rightarrow>
          let fs = xs_pool st ! f; (kind, st) = xfs_load_dir node fs st in
          do {
            found \<leftarrow> dir_entry_at kind index st;
            (case found of
               None \<Rightarrow> Some (None, st)
             | Some e \<Rightarrow>
                 let (rc, st) = xfs_read_inode_raw fs (se_inumber e) st in
                 Some (Some \<lparr>de_name = take (MAX_FILENAME - 1) (se_name e),
                             de_size = (if rc = 0 then di_size (xs_inode_buf st) else 0),
                             de_type = (if se_ftype e = 2 then VFS_DIRECTORY else VFS_FILE)\<rparr>, st))
          })"

text \<open>The operations that \<open>xfs_finddir\<close> and \<open>xfs_mount\<close> store in a node.\<close>

definition xfs_dir_ops :: "node_op list" where "xfs_dir_ops = [Op_readdir, Op_finddir]"
definition xfs_file_ops :: "node_op list" where "xfs_file_ops = [Op_read]"

partial_function (option) find_from :: "nat \<times> nat \<Rightarrow> u8 list \<Rightarrow> nat \<Rightarrow> xfs_state \<Rightarrow> xfs_sf_entry option option" where
  "find_from kind name idx st =
     do {
       found \<leftarrow> dir_entry_at kind idx st;
       (case found of
          None \<Rightarrow> Some None
        | Some e \<Rightarrow> if se_name e = name then Some (Some e) else find_from kind name (add32 idx 1) st)
     }"

definition xfs_finddir :: "nat \<Rightarrow> u8 list \<Rightarrow> xfs_state \<Rightarrow> (nat option \<times> xfs_state) option" where
  "xfs_finddir node name st =
     (case vn_private (xs_nodes st ! node) of
        None \<Rightarrow> Some (None, st)
      | Some f \<Rightarrow>
          let fs = xs_pool st ! f; name = cstr_of name; (kind, st) = xfs_load_dir node fs st in
          if fst kind = 0 then Some (None, st)
          else do {
            found \<leftarrow> find_from kind name 0 st;
            (case found of
               None \<Rightarrow> Some (None, st)
             | Some e \<Rightarrow>
                 let (rc, st) = xfs_read_inode_raw fs (se_inumber e) st in
                 if rc \<noteq> 0 then Some (None, st)
                 else (case xfs_alloc_node st of
                         (None, st) \<Rightarrow> Some (None, st)
                       | (Some found_node, st) \<Rightarrow>
                           let child = xs_inode_buf st; isdir = (di_mode child AND XFS_S_IFMT = XFS_S_IFDIR);
                               nd = \<lparr>vn_name = take (MAX_FILENAME - 1) name, vn_type = (if isdir then VFS_DIRECTORY else VFS_FILE),
                                     vn_size = di_size child, vn_inode = se_inumber e mod 2 ^ 32,
                                     vn_ops = (if isdir then xfs_dir_ops else xfs_file_ops),
                                     vn_parent = Some node, vn_private = Some f\<rparr>
                           in Some (Some found_node, st\<lparr>xs_nodes := (xs_nodes st)[found_node := nd]\<rparr>)))
          })"

section \<open>Mounting\<close>

definition xfs_sb_fs :: "u8 list \<Rightarrow> u8 \<Rightarrow> u8 \<Rightarrow> nat \<Rightarrow> xfs_fs" where
  "xfs_sb_fs sb drive_type drive part_lba =
     \<lparr>xs_drive = drive, xs_drive_type = drive_type, xs_part_lba = part_lba, xs_block_size = be32_at sb 4,
      xs_spb = be32_at sb 4 div 512 mod 2 ^ 8, xs_agblocks = be32_at sb 84, xs_agcount = be32_at sb 88,
      xs_agblklog = unat (byte_at sb 124), xs_inodesize = be16_at sb 104, xs_inopblock = be16_at sb 106,
      xs_inopblog = unat (byte_at sb 123), xs_dirblklog = unat (byte_at sb 192), xs_rootino = be64_at sb 56\<rparr>"

definition xfs_mount :: "u8 \<Rightarrow> u8 \<Rightarrow> nat \<Rightarrow> mount_point \<Rightarrow> xfs_state \<Rightarrow> int \<times> mount_point \<times> xfs_state" where
  "xfs_mount drive_type drive part_lba mp st =
     (let (rc, sb, d) = blk_read drive_type drive part_lba 1 (replicate 512 0) (xs_disk st);
          st = st\<lparr>xs_disk := d\<rparr>
      in if rc \<noteq> 0 then (- 1, mp, st)
         else if be32_at sb 0 \<noteq> XFS_SB_MAGIC then (- 2, mp, st)
         else if (of_nat (be16_at sb 100) :: u16) AND XFS_SB_VERSION_NUMBITS = XFS_SB_VERSION_5 then (- 3, mp, st)
         else (case xfs_alloc_fs st of
                 (None, st) \<Rightarrow> (- 4, mp, st)
               | (Some f, st) \<Rightarrow>
                   let fs = xfs_sb_fs sb drive_type drive part_lba;
                       st = st\<lparr>xs_pool := (xs_pool st)[f := fs]\<rparr>
                   in if xs_block_size fs = 0 \<or> xs_block_size fs > 4096 \<or> xs_inodesize fs = 0 \<or> xs_inodesize fs > 4096
                      then (- 5, mp, st)
                      else (case xfs_alloc_node st of
                              (None, st) \<Rightarrow> (- 6, mp, st)
                            | (Some root, st) \<Rightarrow>
                                let nd = \<lparr>vn_name = [0x2F], vn_type = VFS_DIRECTORY OR VFS_MOUNTPOINT, vn_size = 0,
                                          vn_inode = xs_rootino fs mod 2 ^ 32, vn_ops = xfs_dir_ops, vn_parent = None,
                                          vn_private = Some f\<rparr>;
                                    st = st\<lparr>xs_nodes := (xs_nodes st)[root := nd]\<rparr>
                                in (0, mp\<lparr>mt_root := Some root, mt_drive := drive, mt_fs_type := FS_XFS,
                                          mt_part_lba := part_lba, mt_active := True\<rparr>, st))))"

end
