(* ===== verification/Xfs_Props.thy ===== *)
theory Xfs_Props
  imports Xfs Vfs_Props Elf_Props
begin

text \<open>
  What the XFS driver shows: the packed extent records decode to the fields they were made from, files read back, also
  through the descriptors of the virtual file system, as the bytes that the driver's decoding of their inodes leads to
  (inline, or block by block through the extent list; \<open>Xfs_Format\<close> shows that these are the bytes of the file as the format
  writes it), and a shortform directory listing gives the entries that the directory holds.
\<close>

section \<open>Big-endian numbers\<close>

lemma xfs_be32_digits:
  assumes "a < 256" "b < 256" "c < 256" "d < (256 :: nat)"
  shows "xfs_be32 (a + 256 * (b + 256 * (c + 256 * d))) = a * 2 ^ 24 + b * 2 ^ 16 + c * 2 ^ 8 + d"
proof -
  have s: "x < 256 \<Longrightarrow> (x + 256 * y) mod 256 = x" "x < 256 \<Longrightarrow> (x + 256 * y) div 256 = y" for x y :: nat by simp_all
  have p: "(2 :: nat) ^ 8 = 256" "(2 :: nat) ^ 16 = 256 * 256" "(2 :: nat) ^ 24 = 256 * (256 * 256)" by simp_all
  show ?thesis unfolding xfs_be32_def p div_mult2_eq by (simp only: assms s mod_less)
qed

lemma byte_less: "unat (b :: u8) < 256"
  using unsigned_less [of b] by simp

lemma be32_at_eq:
  "be32_at buf i = unat (byte_at buf i) * 2 ^ 24 + unat (byte_at buf (i + 1)) * 2 ^ 16 + unat (byte_at buf (i + 2)) * 2 ^ 8 + unat (byte_at buf (i + 3))"
proof -
  have "le32 buf i = unat (byte_at buf i) + 256 * (unat (byte_at buf (i + 1)) + 256 * (unat (byte_at buf (i + 2)) + 256 * unat (byte_at buf (i + 3))))"
    by (simp add: le32_def le16_def algebra_simps numeral_3_eq_3)
  then show ?thesis unfolding be32_at_def by (simp only: xfs_be32_digits byte_less)
qed

lemma be64_at_eq: "be64_at buf i = be32_at buf i * 2 ^ 32 + be32_at buf (i + 4)"
proof -
  have "le64 buf i mod 2 ^ 32 = le32 buf i" "le64 buf i div 2 ^ 32 = le32 buf (i + 4)"
    using le32_bound [of buf i] by (simp_all add: le64_def)
  then show ?thesis by (simp add: be64_at_def xfs_be64_def be32_at_def)
qed

lemma be32_at_less: "be32_at buf i < 2 ^ 32"
  using byte_less [of "byte_at buf i"] byte_less [of "byte_at buf (i + 1)"] byte_less [of "byte_at buf (i + 2)"] byte_less [of "byte_at buf (i + 3)"]
  by (simp add: be32_at_eq)

lemma be64_at_less: "be64_at buf i < 2 ^ 64"
  using be32_at_less [of buf i] be32_at_less [of buf "i + 4"] by (simp add: be64_at_eq)

lemma be16_at_eq: "be16_at buf i = unat (byte_at buf i) * 2 ^ 8 + unat (byte_at buf (i + 1))"
proof -
  let ?v = "of_nat (le16 buf i) :: u16"
  have v: "unat ?v = le16 buf i" using le16_bound [of buf i] by (simp add: unat_of_nat)
  have a: "unat (drop_bit 8 ?v) = unat (byte_at buf (i + 1))"
  proof -
    have "unat (drop_bit 8 ?v) = unat ?v div 2 ^ 8"
      by (simp only: unsigned_drop_bit_eq drop_bit_eq_div [where 'a = nat] take_bit_eq_mod [where 'a = nat] mod_less unsigned_less)
    also have "\<dots> = le16 buf i div 256" unfolding v by simp
    also have "\<dots> = unat (byte_at buf (i + 1))" using byte_less [of "byte_at buf i"] by (simp add: le16_def)
    finally show ?thesis .
  qed
  have b: "unat (push_bit 8 ?v) = unat (byte_at buf i) * 256"
  proof -
    have "unat (push_bit 8 ?v) = le16 buf i * 256 mod (256 * 256)"
      unfolding unsigned_push_bit_eq v push_bit_eq_mult [where 'a = nat] take_bit_eq_mod [where 'a = nat] by simp
    also have "\<dots> = (le16 buf i mod 256) * 256" by (rule mod_mult_mult2)
    also have "le16 buf i mod 256 = unat (byte_at buf i)" using byte_less [of "byte_at buf i"] by (simp add: le16_def)
    finally show ?thesis .
  qed
  have "unat (xfs_be16 ?v) = unat (push_bit 8 ?v) + unat (drop_bit 8 ?v)"
    unfolding xfs_be16_def or.commute [of "drop_bit 8 ?v"]
    by (rule unat_or_disjoint [where k = 8]) (simp add: b, simp add: a byte_less)
  then show ?thesis by (simp add: be16_at_def a b)
qed

text \<open>A number as \<open>n\<close> big-endian bytes.\<close>

fun be_bytes :: "nat \<Rightarrow> nat \<Rightarrow> u8 list" where
  "be_bytes 0 v = []"
| "be_bytes (Suc n) v = of_nat (v div 256 ^ n) # be_bytes n v"

lemma length_be_bytes [simp]: "length (be_bytes n v) = n"
  by (induction n) simp_all

lemma byte_at_be_bytes: "i < n \<Longrightarrow> unat (byte_at (be_bytes n v @ rest) i) = v div 256 ^ (n - 1 - i) mod 256"
proof (induction n arbitrary: i)
  case (Suc n)
  then show ?case by (cases i) (simp_all add: byte_at_def unat_of_nat)
qed simp

lemma be32_be_bytes: "be32_at (be_bytes 4 v @ rest) 0 = v mod 2 ^ 32"
proof -
  have "v mod 2 ^ 32 = v div 256 ^ 3 mod 256 * 2 ^ 24 + v div 256 ^ 2 mod 256 * 2 ^ 16 + v div 256 mod 256 * 2 ^ 8 + v mod 256"
  proof -
    have m: "x mod (256 * k) = x mod 256 + 256 * (x div 256 mod k)" for x k :: nat by (simp add: mod_mult2_eq)
    have "v mod 2 ^ 32 = v mod (256 * (256 * (256 * 256)))" by simp
    also have "\<dots> = v mod 256 + 256 * (v div 256 mod 256 + 256 * (v div 256 div 256 mod 256 + 256 * (v div 256 div 256 div 256 mod 256)))"
      unfolding m ..
    finally show ?thesis by (simp add: div_mult2_eq [symmetric] algebra_simps)
  qed
  then show ?thesis using byte_at_be_bytes [of 0 4 v rest] byte_at_be_bytes [of 1 4 v rest] byte_at_be_bytes [of 2 4 v rest] byte_at_be_bytes [of 3 4 v rest]
    unfolding be32_at_eq add_0_left by simp
qed


text \<open>Fields that lie inside a prefix of the buffer.\<close>

lemma be32_at_append: "i + 4 \<le> length xs \<Longrightarrow> be32_at (xs @ ys) i = be32_at xs i"
  by (simp add: be32_at_eq byte_at_concat)

lemma be64_at_append: "i + 8 \<le> length xs \<Longrightarrow> be64_at (xs @ ys) i = be64_at xs i"
  by (simp add: be64_at_eq be32_at_append)

lemma be16_at_append: "i + 2 \<le> length xs \<Longrightarrow> be16_at (xs @ ys) i = be16_at xs i"
  by (simp add: be16_at_eq byte_at_concat)

lemma byte_at_prefix: "i < length xs \<Longrightarrow> byte_at (xs @ ys) i = byte_at xs i"
  by (simp add: byte_at_concat)

lemma byte_at_drop: "byte_at (drop k xs) i = byte_at xs (k + i)"
  by (auto simp: byte_at_def)

lemma be32_at_drop: "be32_at (drop k xs) i = be32_at xs (k + i)"
  by (simp only: be32_at_eq byte_at_drop add.assoc)

lemma be64_at_drop: "be64_at (drop k xs) i = be64_at xs (k + i)"
  by (simp only: be64_at_eq be32_at_drop add.assoc)

lemma be_bytes_add: "be_bytes (m + n) v = be_bytes m (v div 256 ^ n) @ be_bytes n v"
proof (induction m)
  case (Suc m)
  have "v div 256 ^ (m + n) = v div 256 ^ n div 256 ^ m" by (simp add: div_mult2_eq [symmetric] power_add mult.commute)
  with Suc show ?case by simp
qed simp

lemma be64_be_bytes: "v < 2 ^ 64 \<Longrightarrow> be64_at (be_bytes 8 v @ rest) 0 = v"
proof -
  assume v: "v < 2 ^ 64"
  have e: "be_bytes 8 v = be_bytes 4 (v div 2 ^ 32) @ be_bytes 4 v" using be_bytes_add [of 4 4 v] by simp
  have "be32_at (be_bytes 8 v @ rest) 4 = be32_at (drop 4 (be_bytes 8 v @ rest)) 0" unfolding be32_at_drop by simp
  also have "\<dots> = be32_at (be_bytes 4 v @ rest) 0" unfolding e by simp
  finally have "be32_at (be_bytes 8 v @ rest) 4 = v mod 2 ^ 32" unfolding be32_be_bytes .
  moreover have "be32_at (be_bytes 8 v @ rest) 0 = v div 2 ^ 32 mod 2 ^ 32" unfolding e append_assoc be32_be_bytes ..
  moreover have "v div 2 ^ 32 mod 2 ^ 32 = v div 2 ^ 32" using v by (simp add: less_mult_imp_div_less)
  ultimately show ?thesis unfolding be64_at_eq add_0_left by (simp only: div_mult_mod_eq)
qed

section \<open>Extent records\<close>

text \<open>What the bits of a record mean, as arithmetic.\<close>

lemma xfs_decode_extent_eq:
  fixes buf at
  defines "l0 \<equiv> be64_at buf at" and "l1 \<equiv> be64_at buf (at + 8)"
  shows "xfs_decode_extent buf at =
    \<lparr>xe_startoff = l0 div 2 ^ 9 mod 2 ^ 54, xe_startblock = (l0 mod 2 ^ 9) * 2 ^ 43 + l1 div 2 ^ 21,
     xe_blockcount = l1 mod 2 ^ 21, xe_unwritten = (l0 div 2 ^ 63 \<noteq> 0)\<rparr>"
proof -
  let ?l0 = "of_nat l0 :: u64" and ?l1 = "of_nat l1 :: u64"
  have u: "unat ?l0 = l0" "unat ?l1 = l1" using be64_at_less by (auto simp: l0_def l1_def unat_of_nat)
  have m: "push_bit 54 1 - 1 = (mask 54 :: u64)" "push_bit 21 1 - 1 = (mask 21 :: u64)" "(0x1FF :: u64) = mask 9"
    by (simp_all add: mask_eq_decr_exp)
  have d: "unat (drop_bit n w) = unat w div 2 ^ n" for n and w :: u64
    by (simp only: unsigned_drop_bit_eq drop_bit_eq_div [where 'a = nat] take_bit_eq_mod [where 'a = nat] mod_less unsigned_less)
  have l: "l0 mod 2 ^ 9 < 2 ^ 9" "l1 div 2 ^ 21 < 2 ^ 43" using be64_at_less [of buf "at + 8"] by (simp_all add: l1_def less_mult_imp_div_less)
  have p: "unat (push_bit 43 (?l0 AND mask 9)) = l0 mod 2 ^ 9 * 2 ^ 43"
  proof -
    have "l0 mod 2 ^ 9 * 2 ^ 43 < 2 ^ 9 * 2 ^ 43" using l(1) by (simp only: mult_less_cancel2) simp
    then have "l0 mod 2 ^ 9 * 2 ^ 43 < 2 ^ 64" by (rule less_trans) simp
    then show ?thesis unfolding unsigned_push_bit_eq unat_and_mask u push_bit_eq_mult [where 'a = nat] take_bit_eq_mod [where 'a = nat] by simp
  qed
  have "unat (push_bit 43 (?l0 AND mask 9) OR drop_bit 21 ?l1) = l0 mod 2 ^ 9 * 2 ^ 43 + l1 div 2 ^ 21"
    by (subst unat_or_disjoint [where k = 43]) (simp_all only: p d u l dvd_triv_right)
  moreover have "drop_bit 63 ?l0 \<noteq> 0 \<longleftrightarrow> l0 div 2 ^ 63 \<noteq> 0" using d [of 63 ?l0] u by (metis unsigned_eq_0_iff)
  ultimately show ?thesis
    unfolding xfs_decode_extent_def Let_def l0_def [symmetric] l1_def [symmetric] m unat_and_mask d u by simp
qed

definition xfs_extent_bytes :: "xfs_extent \<Rightarrow> u8 list" where
  "xfs_extent_bytes e =
     be_bytes 8 ((if xe_unwritten e then 2 ^ 63 else 0) + xe_startoff e * 2 ^ 9 + xe_startblock e div 2 ^ 43) @
     be_bytes 8 (xe_startblock e mod 2 ^ 43 * 2 ^ 21 + xe_blockcount e)"

text \<open>An extent record decodes to the extent it was made from: the flag in the top bit, the 54 bits of the logical
  offset, the 52 bits of the physical block that straddle the two big-endian words, and the 21 bits of the length.
\<close>

lemma xfs_extent_roundtrip:
  assumes "xe_startoff e < 2 ^ 54" "xe_startblock e < 2 ^ 52" "xe_blockcount e < 2 ^ 21"
  shows "xfs_decode_extent (xfs_extent_bytes e @ rest) 0 = e"
proof -
  define f where "f = (if xe_unwritten e then 1 else 0 :: nat)"
  let ?h = "xe_startblock e div 2 ^ 43"
  let ?l0 = "(if xe_unwritten e then 2 ^ 63 else 0) + xe_startoff e * 2 ^ 9 + ?h" and ?l1 = "xe_startblock e mod 2 ^ 43 * 2 ^ 21 + xe_blockcount e"
  have h: "?h < 2 ^ 9" using assms(2) by (simp add: less_mult_imp_div_less)
  have l0: "?l0 = 2 ^ 9 * (2 ^ 54 * f + xe_startoff e) + ?h" by (simp add: f_def algebra_simps)
  have f1: "f \<le> 1" by (simp add: f_def)
  have s: "2 ^ 54 * f + xe_startoff e < 2 ^ 55" using assms(1) f1 by (cases "f = 0") auto
  have b0: "?l0 < 2 ^ 64"
  proof -
    have "2 ^ 9 * (2 ^ 54 * f + xe_startoff e) + ?h < 2 ^ 9 * 2 ^ 55" using s h by simp
    then show ?thesis unfolding l0 by simp
  qed
  have m: "xe_startblock e mod 2 ^ 43 < 2 ^ 43" by simp
  have b1: "?l1 < 2 ^ 64"
  proof -
    have "xe_startblock e mod 2 ^ 43 * 2 ^ 21 + xe_blockcount e < 2 ^ 43 * 2 ^ 21" using m assms(3) by simp
    then show ?thesis by simp
  qed
  have w0: "be64_at (xfs_extent_bytes e @ rest) 0 = ?l0" unfolding xfs_extent_bytes_def append_assoc by (rule be64_be_bytes [OF b0])
  have "be64_at (xfs_extent_bytes e @ rest) 8 = be64_at (drop 8 (xfs_extent_bytes e @ rest)) 0" unfolding be64_at_drop by simp
  also have "drop 8 (xfs_extent_bytes e @ rest) = be_bytes 8 ?l1 @ rest" by (simp add: xfs_extent_bytes_def)
  finally have w1: "be64_at (xfs_extent_bytes e @ rest) 8 = ?l1" unfolding be64_be_bytes [OF b1] .
  have q: "?l0 div 2 ^ 9 = 2 ^ 54 * f + xe_startoff e" "?l0 mod 2 ^ 9 = ?h" unfolding l0 using h by (simp_all only: div_mult_self4 mod_mult_self4) simp_all
  have "?l0 div 2 ^ 63 = ?l0 div 2 ^ 9 div 2 ^ 54" by (simp add: div_mult2_eq [symmetric])
  also have "\<dots> = f" unfolding q(1) using assms(1) by simp
  finally have "(?l0 div 2 ^ 63 \<noteq> 0) = xe_unwritten e" by (simp add: f_def)
  moreover have "?l0 div 2 ^ 9 mod 2 ^ 54 = xe_startoff e" unfolding q(1) using assms(1) by simp
  moreover have "?l1 div 2 ^ 21 = xe_startblock e mod 2 ^ 43" "?l1 mod 2 ^ 21 = xe_blockcount e" using assms(3) by simp_all
  ultimately show ?thesis unfolding xfs_decode_extent_eq add_0_left w0 w1 q(2) by (simp add: div_mult_mod_eq)
qed

theorem xfs_extent_roundtrip_witness:
  "xfs_decode_extent (xfs_extent_bytes \<lparr>xe_startoff = 5, xe_startblock = 2 ^ 51 + 7, xe_blockcount = 3, xe_unwritten = True\<rparr>) 0 =
     \<lparr>xe_startoff = 5, xe_startblock = 2 ^ 51 + 7, xe_blockcount = 3, xe_unwritten = True\<rparr>"
  using xfs_extent_roundtrip [of "\<lparr>xe_startoff = 5, xe_startblock = 2 ^ 51 + 7, xe_blockcount = 3, xe_unwritten = True\<rparr>" "[]"]
  by simp


section \<open>Blocks and inodes of a sound volume\<close>

definition xfs_geometry :: "xfs_fs \<Rightarrow> bool" where
  "xfs_geometry fs \<longleftrightarrow> 1 \<le> xs_spb fs \<and> xs_spb fs \<le> 8 \<and> xs_block_size fs = 512 * xs_spb fs \<and>
     100 \<le> xs_inodesize fs \<and> xs_inodesize fs \<le> xs_block_size fs"

definition xfs_calm :: "xfs_state \<Rightarrow> bool" where
  "xfs_calm st \<longleftrightarrow> disk_ok (xs_disk st) \<and> healthy (xs_disk st)"

text \<open>The contents of a block and of an inode on the device.\<close>

definition xfs_blk :: "xfs_fs \<Rightarrow> disk \<Rightarrow> nat \<Rightarrow> u8 list" where
  "xfs_blk fs d b = read_sectors d (xs_drive_type fs) (xs_drive fs) (add64 (xs_part_lba fs) (mul64 b (xs_spb fs))) (xs_spb fs)"

definition xfs_inode_at :: "xfs_fs \<Rightarrow> disk \<Rightarrow> nat \<Rightarrow> u8 list" where
  "xfs_inode_at fs d ino = (let (b, off) = xfs_ino_to_loc fs ino in take (xs_inodesize fs) (drop off (xfs_blk fs d b)))"

definition xfs_inode_ok :: "xfs_fs \<Rightarrow> disk \<Rightarrow> nat \<Rightarrow> bool" where
  "xfs_inode_ok fs d ino \<longleftrightarrow> snd (xfs_ino_to_loc fs ino) + xs_inodesize fs \<le> xs_block_size fs \<and>
     be16_at (xfs_inode_at fs d ino) 0 = XFS_DINODE_MAGIC"

text \<open>What reading leaves alone.\<close>

definition xfs_quiet :: "xfs_state \<Rightarrow> xfs_state \<Rightarrow> bool" where
  "xfs_quiet st st' \<longleftrightarrow> xs_nodes st' = xs_nodes st \<and> xs_pool st' = xs_pool st \<and> dk_sec (xs_disk st') = dk_sec (xs_disk st) \<and> xfs_calm st'"

lemma xfs_blk_cong: "dk_sec d' = dk_sec d \<Longrightarrow> xfs_blk fs d' = xfs_blk fs d"
  by (simp add: fun_eq_iff xfs_blk_def read_sectors_def)

lemma xfs_inode_cong:
  assumes "dk_sec d' = dk_sec d"
  shows "xfs_inode_at fs d' = xfs_inode_at fs d" "xfs_inode_ok fs d' = xfs_inode_ok fs d"
  using xfs_blk_cong [OF assms, of fs] by (simp_all add: fun_eq_iff xfs_inode_at_def xfs_inode_ok_def)

lemma length_xfs_blk: "xfs_geometry fs \<Longrightarrow> disk_ok d \<Longrightarrow> length (xfs_blk fs d b) = xs_block_size fs"
  by (simp add: xfs_blk_def length_read_sectors xfs_geometry_def)

lemma length_xfs_inode: "xfs_geometry fs \<Longrightarrow> disk_ok d \<Longrightarrow> xfs_inode_ok fs d ino \<Longrightarrow> length (xfs_inode_at fs d ino) = xs_inodesize fs"
  by (auto simp: xfs_inode_at_def xfs_inode_ok_def length_xfs_blk split: prod.split)

lemma xfs_read_block_calm:
  assumes "xfs_geometry fs" "xfs_calm st"
  shows "\<exists>d. xfs_read_block fs b buf st = (0, overwrite buf (xfs_blk fs (xs_disk st) b), st\<lparr>xs_disk := d\<rparr>) \<and>
    dk_sec d = dk_sec (xs_disk st) \<and> disk_ok d \<and> healthy d"
proof -
  have "8 \<le> blk_max (xs_drive_type fs)" by (simp add: blk_max_def)
  then have "xs_spb fs \<le> blk_max (xs_drive_type fs)" using assms(1) by (simp add: xfs_geometry_def)
  with assms(2) show ?thesis
    by (auto simp: xfs_read_block_def xfs_calm_def blk_read_healthy xfs_blk_def disk_ok_def)
qed

lemma xfs_read_inode_calm:
  assumes g: "xfs_geometry fs" and c: "xfs_calm st" and i: "xfs_inode_ok fs (xs_disk st) ino"
  shows "\<exists>st' rest. xfs_read_inode_raw fs ino st = (0, st') \<and> xs_inode_buf st' = xfs_inode_at fs (xs_disk st) ino @ rest \<and>
    xfs_quiet st st' \<and> xs_block_buf st' = xs_block_buf st"
proof -
  obtain b off where l: "xfs_ino_to_loc fs ino = (b, off)" by fastforce
  obtain d where d: "xfs_read_block fs b (xs_inode_block st) st =
      (0, overwrite (xs_inode_block st) (xfs_blk fs (xs_disk st) b), st\<lparr>xs_disk := d\<rparr>)"
    "dk_sec d = dk_sec (xs_disk st)" "disk_ok d" "healthy d" using xfs_read_block_calm [OF g c] by blast
  have len: "length (xfs_blk fs (xs_disk st) b) = xs_block_size fs" using c by (simp add: length_xfs_blk [OF g] xfs_calm_def)
  have o: "off + xs_inodesize fs \<le> xs_block_size fs" using i l by (simp add: xfs_inode_ok_def)
  have bs: "xs_block_size fs \<le> 4096" using g by (simp add: xfs_geometry_def)
  then have a: "\<not> add32 off (xs_inodesize fs) > 4096" using o by (simp add: add32_def not_less mod_less_eq_dividend [THEN order_trans])
  let ?buf = "overwrite (xs_inode_block st) (xfs_blk fs (xs_disk st) b)"
  have ino: "bytes_of ?buf off (xs_inodesize fs) = xfs_inode_at fs (xs_disk st) ino"
    using o len by (subst bytes_of_take) (simp_all add: overwrite_def xfs_inode_at_def l)
  have li: "length (xfs_inode_at fs (xs_disk st) ino) = xs_inodesize fs" using c by (simp add: length_xfs_inode [OF g _ i] xfs_calm_def)
  have "be16_at (overwrite (xs_inode_buf st) (xfs_inode_at fs (xs_disk st) ino)) 0 = XFS_DINODE_MAGIC"
    using i g li by (simp add: overwrite_def be16_at_append xfs_inode_ok_def xfs_geometry_def)
  then have "xfs_read_inode_raw fs ino st =
      (0, st\<lparr>xs_disk := d, xs_inode_block := ?buf, xs_inode_buf := overwrite (xs_inode_buf st) (xfs_inode_at fs (xs_disk st) ino)\<rparr>)"
    using a by (simp add: xfs_read_inode_raw_def l d(1) ino)
  then show ?thesis using d(2-4) by (auto simp: overwrite_def xfs_quiet_def xfs_calm_def)
qed

section \<open>Files\<close>

text \<open>The block that holds logical block \<open>lb\<close> of the file with a given inode.\<close>

definition xfs_phys :: "xfs_fs \<Rightarrow> u8 list \<Rightarrow> nat \<Rightarrow> nat" where
  "xfs_phys fs inode lb = xfs_resolve_extent fs inode 0 (di_nextents inode) lb"

lemma resolve_extent_prefix:
  "100 + 16 * n \<le> length inode \<Longrightarrow> n < 2 ^ 28 \<Longrightarrow>
     xfs_resolve_extent fs (inode @ rest) i n lb = xfs_resolve_extent fs inode i n lb"
proof (induction "n - i" arbitrary: i)
  case (Suc k)
  then have i: "i < n" by simp
  then have m: "mul32 i 16 = 16 * i" using Suc.prems by (simp add: mul32_def)
  have "100 + 16 * i + 16 \<le> length inode" using i Suc.prems by simp
  then have e: "xfs_decode_extent (inode @ rest) (100 + mul32 i 16) = xfs_decode_extent inode (100 + mul32 i 16)"
    unfolding m xfs_decode_extent_def by (simp add: be64_at_append)
  have "xfs_resolve_extent fs (inode @ rest) (i + 1) n lb = xfs_resolve_extent fs inode (i + 1) n lb"
    using Suc by (intro Suc.hyps) simp_all
  then show ?case by (subst (1 2) xfs_resolve_extent.simps) (simp add: e Let_def)
next
  case 0
  then show ?case by (subst (1 2) xfs_resolve_extent.simps) simp
qed

definition xfs_data :: "xfs_fs \<Rightarrow> disk \<Rightarrow> u8 list \<Rightarrow> nat \<Rightarrow> u8 list" where
  "xfs_data fs d inode n = concat (map (\<lambda>lb. xfs_blk fs d (xfs_phys fs inode lb)) [0 ..< n])"

lemma length_xfs_data: "xfs_geometry fs \<Longrightarrow> disk_ok d \<Longrightarrow> length (xfs_data fs d inode n) = xs_block_size fs * n"
  by (induction n) (simp_all add: xfs_data_def length_xfs_blk)

lemma xfs_data_cong:
  assumes "dk_sec d' = dk_sec d"
  shows "xfs_data fs d' = xfs_data fs d"
  by (intro ext) (simp only: xfs_data_def xfs_blk_cong [OF assms])

lemma xfs_read_blocks_spec:
  assumes g: "xfs_geometry fs" and b: "offset + n \<le> xs_block_size fs * k" "offset + n < 2 ^ 64"
    and x: "100 + 16 * di_nextents inode \<le> length inode" "di_nextents inode < 2 ^ 28" "\<forall>lb < k. xfs_phys fs inode lb \<noteq> 0"
    and "xfs_calm st" "xs_inode_buf st = inode @ rest" "length out \<le> n"
    "out = take (length out) (drop offset (xfs_data fs (xs_disk st) inode k))"
  shows "\<exists>st'. xfs_read_blocks fs (di_nextents inode) offset n out st =
      Some (take n (drop offset (xfs_data fs (xs_disk st) inode k)), st') \<and> xfs_quiet st st'"
  using assms(7-10)
proof (induction "n - length out" arbitrary: out st rule: less_induct)
  case less
  let ?bs = "xs_block_size fs" and ?D = "xfs_data fs (xs_disk st) inode k"
  have bs: "0 < ?bs" using g by (simp add: xfs_geometry_def)
  show ?case
  proof (cases "length out < n")
    case False
    then show ?thesis using less.prems by (subst xfs_read_blocks.simps) (simp add: xfs_quiet_def)
  next
    case True
    let ?cur = "offset + length out"
    let ?l = "?cur div ?bs" and ?o = "?cur mod ?bs"
    define copy where "copy = min (?bs - ?o) (n - length out)"
    have cur: "add64 offset (length out) = ?cur" "?cur < ?bs * k" using True b by (simp_all add: add64_def)
    have l: "?l < k" using cur(2) by (simp add: less_mult_imp_div_less mult.commute)
    have o: "?o < ?bs" "?bs * ?l + ?o = ?cur" using bs by simp_all
    have cp: "?o + copy \<le> ?bs" "0 < copy" "copy \<le> n - length out" using o(1) True by (auto simp: copy_def)
    let ?p = "xfs_phys fs inode ?l"
    have ph: "xfs_resolve_extent fs (xs_inode_buf st) 0 (di_nextents inode) ?l = ?p" "?p \<noteq> 0"
      using x l unfolding less.prems(2) xfs_phys_def by (simp_all add: resolve_extent_prefix)
    obtain d where d: "xfs_read_block fs ?p (xs_block_buf st) st = (0, overwrite (xs_block_buf st) (xfs_blk fs (xs_disk st) ?p), st\<lparr>xs_disk := d\<rparr>)"
      "dk_sec d = dk_sec (xs_disk st)" "disk_ok d" "healthy d" using xfs_read_block_calm [OF g less.prems(1)] by blast
    let ?buf = "overwrite (xs_block_buf st) (xfs_blk fs (xs_disk st) ?p)"
    let ?s = "st\<lparr>xs_disk := d, xs_block_buf := ?buf\<rparr>"
    have dk: "disk_ok (xs_disk st)" using less.prems(1) by (simp add: xfs_calm_def)
    have chunk: "bytes_of ?buf ?o copy = take copy (drop ?cur ?D)"
    proof -
      have "bytes_of ?buf ?o copy = take copy (drop ?o (xfs_blk fs (xs_disk st) ?p))"
        using cp(1) length_xfs_blk [OF g dk] by (subst bytes_of_take) (simp_all add: overwrite_def)
      also have "\<dots> = take copy (drop (?bs * ?l + ?o) ?D)"
        unfolding xfs_data_def by (rule concat_slice [OF _ l cp(1), symmetric]) (simp add: length_xfs_blk g dk)
      finally show ?thesis unfolding o(2) .
    qed
    have lc: "length (take copy (drop ?cur ?D)) = copy" using length_xfs_data [OF g dk] cp(3) b(1) True by simp
    let ?out = "out @ bytes_of ?buf ?o copy"
    have out': "?out = take (length ?out) (drop offset ?D)"
      unfolding chunk length_append lc take_add drop_drop add.commute [of "length out" offset] using less.prems(4) by simp
    have len: "length ?out = length out + copy" by simp
    have ds: "xfs_data fs (xs_disk ?s) inode k = ?D" using xfs_data_cong [OF d(2)] by simp
    have "\<exists>st'. xfs_read_blocks fs (di_nextents inode) offset n ?out ?s = Some (take n (drop offset ?D), st') \<and> xfs_quiet ?s st'"
      unfolding ds [symmetric]
    proof (rule less.hyps)
      show "n - length ?out < n - length out" "length ?out \<le> n" using cp(2,3) True unfolding len by simp_all
      show "xfs_calm ?s" "xs_inode_buf ?s = inode @ rest" using d(3,4) less.prems(2) by (simp_all add: xfs_calm_def)
      show "?out = take (length ?out) (drop offset (xfs_data fs (xs_disk ?s) inode k))" unfolding ds by (rule out')
    qed
    moreover have "xfs_read_blocks fs (di_nextents inode) offset n out st = xfs_read_blocks fs (di_nextents inode) offset n ?out ?s"
      using True ph(2) by (subst xfs_read_blocks.simps) (simp add: cur(1) ph(1) d(1) Let_def copy_def [symmetric])
    ultimately show ?thesis using d(2) by (auto simp: xfs_quiet_def)
  qed
qed


text \<open>Node \<open>n\<close> is a file of the volume \<open>fs\<close>, inline or with its extents in the inode and no holes below its size.\<close>

definition xfs_file_at :: "nat \<Rightarrow> xfs_fs \<Rightarrow> xfs_state \<Rightarrow> bool" where
  "xfs_file_at n fs s \<longleftrightarrow>
     (let nd = xs_nodes s ! n; inode = xfs_inode_at fs (xs_disk s) (vn_inode nd) in
      n < length (xs_nodes s) \<and> (\<exists>f. vn_private nd = Some f \<and> xs_pool s ! f = fs) \<and> vn_ops nd = xfs_file_ops \<and>
      xfs_geometry fs \<and> xfs_calm s \<and> xfs_inode_ok fs (xs_disk s) (vn_inode nd) \<and> vn_size nd < 2 ^ 31 \<and>
      (di_format inode = XFS_DINODE_FMT_LOCAL \<and> 100 + vn_size nd \<le> xs_inodesize fs \<or>
       di_format inode = XFS_DINODE_FMT_EXTENTS \<and> 100 + 16 * di_nextents inode \<le> xs_inodesize fs \<and>
       (\<forall>lb < (vn_size nd + xs_block_size fs - 1) div xs_block_size fs. xfs_phys fs inode lb \<noteq> 0)))"

definition xfs_contents :: "nat \<Rightarrow> xfs_fs \<Rightarrow> xfs_state \<Rightarrow> u8 list" where
  "xfs_contents n fs s =
     (let nd = xs_nodes s ! n; inode = xfs_inode_at fs (xs_disk s) (vn_inode nd) in
      if di_format inode = XFS_DINODE_FMT_LOCAL then take (vn_size nd) (drop 100 inode)
      else take (vn_size nd) (xfs_data fs (xs_disk s) inode ((vn_size nd + xs_block_size fs - 1) div xs_block_size fs)))"

lemma xfs_file_quiet:
  assumes "xfs_quiet s s'"
  shows "xfs_contents n fs s' = xfs_contents n fs s" "xfs_file_at n fs s \<Longrightarrow> xfs_file_at n fs s'"
proof -
  have q: "xs_nodes s' = xs_nodes s" "xs_pool s' = xs_pool s" "dk_sec (xs_disk s') = dk_sec (xs_disk s)" "xfs_calm s'"
    using assms by (simp_all add: xfs_quiet_def)
  note c = xfs_inode_cong [OF q(3)] xfs_data_cong [OF q(3)]
  show "xfs_contents n fs s' = xfs_contents n fs s" unfolding xfs_contents_def q(1) c ..
  show "xfs_file_at n fs s'" if "xfs_file_at n fs s" using that q(4) unfolding xfs_file_at_def Let_def q(1,2) c by simp
qed

lemma blocks_cover: "0 < b \<Longrightarrow> n \<le> b * ((n + b - 1) div b)" for n b :: nat
proof -
  assume b: "0 < b"
  have "n + b - 1 < b * ((n + b - 1) div b) + b" using b by (metis mod_less_divisor mult_div_mod_eq nat_add_left_cancel_less)
  then show ?thesis using b by linarith
qed

lemma xfs_file_cases:
  assumes "xfs_file_at n fs s"
  defines "nd \<equiv> xs_nodes s ! n" and "inode \<equiv> xfs_inode_at fs (xs_disk s) (vn_inode (xs_nodes s ! n))"
  obtains (inline) "di_format inode = XFS_DINODE_FMT_LOCAL" "100 + vn_size nd \<le> xs_inodesize fs"
      "xfs_contents n fs s = take (vn_size nd) (drop 100 inode)"
    | (extents) "di_format inode = XFS_DINODE_FMT_EXTENTS" "100 + 16 * di_nextents inode \<le> xs_inodesize fs"
      "\<forall>lb < (vn_size nd + xs_block_size fs - 1) div xs_block_size fs. xfs_phys fs inode lb \<noteq> 0"
      "xfs_contents n fs s = take (vn_size nd) (xfs_data fs (xs_disk s) inode ((vn_size nd + xs_block_size fs - 1) div xs_block_size fs))"
proof -
  have "XFS_DINODE_FMT_EXTENTS \<noteq> XFS_DINODE_FMT_LOCAL" by (simp add: XFS_DINODE_FMT_EXTENTS_def XFS_DINODE_FMT_LOCAL_def)
  then show thesis using assms(1) that unfolding xfs_file_at_def xfs_contents_def Let_def nd_def inode_def by metis
qed

lemma xfs_file_basics:
  assumes "xfs_file_at n fs s"
  shows "xfs_geometry fs" "xfs_calm s" "xfs_inode_ok fs (xs_disk s) (vn_inode (xs_nodes s ! n))" "vn_size (xs_nodes s ! n) < 2 ^ 31"
    "\<exists>f. vn_private (xs_nodes s ! n) = Some f \<and> xs_pool s ! f = fs" "n < length (xs_nodes s)" "vn_ops (xs_nodes s ! n) = xfs_file_ops"
    "length (xfs_inode_at fs (xs_disk s) (vn_inode (xs_nodes s ! n))) = xs_inodesize fs" "100 \<le> xs_inodesize fs" "xs_inodesize fs \<le> 4096"
proof -
  show a: "xfs_geometry fs" "xfs_calm s" "xfs_inode_ok fs (xs_disk s) (vn_inode (xs_nodes s ! n))" "vn_size (xs_nodes s ! n) < 2 ^ 31"
    "\<exists>f. vn_private (xs_nodes s ! n) = Some f \<and> xs_pool s ! f = fs" "n < length (xs_nodes s)" "vn_ops (xs_nodes s ! n) = xfs_file_ops"
    using assms unfolding xfs_file_at_def Let_def by blast+
  show "length (xfs_inode_at fs (xs_disk s) (vn_inode (xs_nodes s ! n))) = xs_inodesize fs" "100 \<le> xs_inodesize fs" "xs_inodesize fs \<le> 4096"
    using a by (simp_all add: length_xfs_inode xfs_calm_def xfs_geometry_def)
qed

lemma length_xfs_contents:
  assumes f: "xfs_file_at n fs s"
  shows "length (xfs_contents n fs s) = vn_size (xs_nodes s ! n)"
  using f
proof (cases rule: xfs_file_cases)
  case inline
  then show ?thesis using xfs_file_basics(8) [OF f] by simp
next
  case extents
  have "0 < xs_block_size fs" "disk_ok (xs_disk s)" using xfs_file_basics(1,2) [OF f] by (simp_all add: xfs_geometry_def xfs_calm_def)
  then show ?thesis using extents(4) blocks_cover [of "xs_block_size fs" "vn_size (xs_nodes s ! n)"] xfs_file_basics(1) [OF f]
    by (simp add: length_xfs_data)
qed

lemma xfs_inode_fields:
  assumes "100 \<le> length inode"
  shows "di_format (inode @ rest) = di_format inode" "di_nextents (inode @ rest) = di_nextents inode"
  using assms by (simp_all add: di_format_def di_nextents_def byte_at_prefix be32_at_append)

lemma xfs_read_spec:
  assumes f: "xfs_file_at n fs s" and k: "k < 2 ^ 32"
  shows "\<exists>s'. xfs_read n off k s = Some (int (min k (length (xfs_contents n fs s) - off)), take k (drop off (xfs_contents n fs s)), s') \<and>
    xfs_quiet s s'"
proof -
  let ?nd = "xs_nodes s ! n" and ?D = "xs_disk s"
  let ?inode = "xfs_inode_at fs ?D (vn_inode ?nd)" and ?sz = "vn_size ?nd" and ?bs = "xs_block_size fs"
  let ?N = "(?sz + ?bs - 1) div ?bs"
  note a = xfs_file_basics [OF f] and lc = length_xfs_contents [OF f]
  obtain fi where fi: "vn_private ?nd = Some fi" "xs_pool s ! fi = fs" using a(5) by blast
  show ?thesis
  proof (cases "off \<ge> ?sz")
    case True
    then show ?thesis using fi lc a(2) by (simp add: xfs_read_def xfs_quiet_def)
  next
    case False
    obtain s1 rest where s1: "xfs_read_inode_raw fs (vn_inode ?nd) s = (0, s1)" "xs_inode_buf s1 = ?inode @ rest" "xfs_quiet s s1"
      using xfs_read_inode_calm [OF a(1,2,3)] by blast
    have fields: "di_format (xs_inode_buf s1) = di_format ?inode" "di_nextents (xs_inode_buf s1) = di_nextents ?inode"
      using xfs_inode_fields [of ?inode rest] a(8,9) s1(2) by simp_all
    define m where "m = min k (?sz - off)"
    have m: "m \<le> ?sz - off" "m < 2 ^ 31" "off + m \<le> ?sz" using False a(4) by (simp_all add: m_def)
    have rem: "(if add64 off k > ?sz then (?sz - off) mod 2 ^ 32 else k) = m"
    proof -
      have "add64 off k = off + k" using False a(4) k by (simp add: add64_def)
      then show ?thesis using False a(4) k by (auto simp: m_def min_def)
    qed
    have res: "int (min k (length (xfs_contents n fs s) - off)) = int32 m" "take k (drop off (xfs_contents n fs s)) = take m (drop off (xfs_contents n fs s))"
      using m(2) lc by (simp_all add: int32_small m_def) (simp add: min_def)
    show ?thesis
    proof (cases "m = 0")
      case True
      then show ?thesis using fi False s1(1,3) rem res by (simp add: xfs_read_def Let_def int32_small)
    next
      case nz: False
      from f show ?thesis
      proof (cases rule: xfs_file_cases)
        case inline
        have "bytes_of (xs_inode_buf s1) (100 + off) m = take m (drop (100 + off) (?inode @ rest))"
          unfolding s1(2) using m(3) inline(2) a(8) by (intro bytes_of_take) simp
        also have "\<dots> = take m (drop off (xfs_contents n fs s))"
          using m(1,3) inline a(8) by (simp add: drop_take min_absorb2 add.commute [of off])
        finally have "xfs_read n off k s = Some (int32 m, take m (drop off (xfs_contents n fs s)), s1)"
          using fi False s1(1) rem nz inline(1) fields by (simp add: xfs_read_def Let_def)
        then show ?thesis unfolding res using s1(3) by blast
      next
        case extents
        have q: "xfs_calm s1" "xfs_data fs (xs_disk s1) = xfs_data fs ?D" using s1(3) xfs_data_cong [of "xs_disk s1" ?D fs] by (simp_all add: xfs_quiet_def)
        have cov: "off + m \<le> ?bs * ?N" "off + m < 2 ^ 64"
          using m(3) a(1,4) blocks_cover [of ?bs ?sz] by (simp_all add: xfs_geometry_def)
        have ne: "100 + 16 * di_nextents ?inode \<le> length ?inode" "di_nextents ?inode < 2 ^ 28" using extents(2) a(8,10) by simp_all
        from xfs_read_blocks_spec [OF a(1) cov ne extents(3) q(1) s1(2), of "[]"] obtain s2 where
          r: "xfs_read_blocks fs (di_nextents ?inode) off m [] s1 = Some (take m (drop off (xfs_data fs ?D ?inode ?N)), s2)" "xfs_quiet s1 s2"
          unfolding q(2) by auto
        have c: "take m (drop off (xfs_data fs ?D ?inode ?N)) = take m (drop off (xfs_contents n fs s))"
          unfolding extents(4) using m(1) by (simp add: drop_take min_absorb2)
        have "length (take m (drop off (xfs_contents n fs s))) = m" using lc m(1) by simp
        then have "xfs_read n off k s = Some (int32 m, take m (drop off (xfs_contents n fs s)), s2)"
          using fi False s1(1) rem nz extents(1) fields r(1) c
          by (auto simp: xfs_read_def Let_def XFS_DINODE_FMT_EXTENTS_def XFS_DINODE_FMT_LOCAL_def)
        moreover have "xfs_quiet s s2" using s1(3) r(2) by (simp add: xfs_quiet_def)
        ultimately show ?thesis unfolding res by blast
      qed
    qed
  qed
qed

section \<open>The driver behind the virtual file system\<close>

type_synonym xfs_mount_fn = "u8 \<Rightarrow> u8 \<Rightarrow> nat \<Rightarrow> mount_point \<Rightarrow> xfs_state \<Rightarrow> int \<times> mount_point \<times> xfs_state"
type_synonym xfs_defrag_fn = "nat \<Rightarrow> xfs_state \<Rightarrow> (int \<times> (nat \<times> nat \<times> nat) \<times> xfs_state) option"

text \<open>The driver stores no write, create, unlink or rename operation in its nodes: those fields are never called.\<close>

definition xfs_driver :: "xfs_mount_fn \<Rightarrow> xfs_mount_fn \<Rightarrow> xfs_mount_fn \<Rightarrow> xfs_defrag_fn \<Rightarrow> xfs_defrag_fn \<Rightarrow> xfs_state driver" where
  "xfs_driver fat_mount ext2_mount ntfs_mount fat_defrag ext2_defrag =
     \<lparr>dr_node = \<lambda>s n. if n < length (xs_nodes s) then xs_nodes s ! n else node_zero,
      dr_finddir = xfs_finddir, dr_create = \<lambda>n name s. Some (None, s), dr_read = xfs_read, dr_write = \<lambda>n off data s. Some (- 1, s),
      dr_readdir = xfs_readdir, dr_unlink = \<lambda>n name s. Some (- 1, s), dr_rename = \<lambda>n name m name' s. Some (- 1, s),
      dr_fat32_mount = fat_mount, dr_ext2_mount = ext2_mount, dr_ntfs_mount = ntfs_mount, dr_xfs_mount = xfs_mount,
      dr_fat32_defrag = fat_defrag, dr_ext2_defrag = ext2_defrag,
      dr_disk = xs_disk, dr_set_disk = \<lambda>d s. s\<lparr>xs_disk := d\<rparr>\<rparr>"

interpretation xfs_file: readable_file "xfs_driver fat_mount ext2_mount ntfs_mount fat_defrag ext2_defrag" n "xfs_file_at n fs" "xfs_contents n fs"
  for fat_mount ext2_mount ntfs_mount :: xfs_mount_fn and fat_defrag ext2_defrag :: xfs_defrag_fn and n fs
proof
  fix s off k assume i: "xfs_file_at n fs s"
  show "Op_read \<in> set (vn_ops (dr_node (xfs_driver fat_mount ext2_mount ntfs_mount fat_defrag ext2_defrag) s n))"
    using xfs_file_basics [OF i] by (simp add: xfs_driver_def xfs_file_ops_def)
  show "length (xfs_contents n fs s) < 2 ^ 31" using length_xfs_contents [OF i] xfs_file_basics [OF i] by simp
  show "\<exists>s'. dr_read (xfs_driver fat_mount ext2_mount ntfs_mount fat_defrag ext2_defrag) n off k s =
      Some (int (min k (length (xfs_contents n fs s) - off)), take k (drop off (xfs_contents n fs s)), s') \<and>
      xfs_file_at n fs s' \<and> xfs_contents n fs s' = xfs_contents n fs s" if "k < 2 ^ 32"
    using xfs_read_spec [OF i that, of off] xfs_file_quiet [of s _ n fs] i by (auto simp: xfs_driver_def)
qed


lemma xfs_stream:
  assumes "caller_ok v" "open_fd fd v = Some e" "fd_node e = Some n" "xfs_file_at n fs (v_fs v)"
    "\<forall>k \<in> set ks. k < 2 ^ 32" "unat (fd_offset e) + sum_list ks < 2 ^ 63"
  shows "\<exists>v' e'. vfs_read_seq (xfs_driver fat_mount ext2_mount ntfs_mount fat_defrag ext2_defrag) fd ks v =
      Some (take (sum_list ks) (drop (unat (fd_offset e)) (xfs_contents n fs (v_fs v))), v') \<and>
    open_fd fd v' = Some e' \<and> fd_node e' = Some n \<and>
    unat (fd_offset e') = unat (fd_offset e) + min (sum_list ks) (length (xfs_contents n fs (v_fs v)) - unat (fd_offset e))"
proof -
  have "xfs_file.reading n fs fd (unat (fd_offset e)) v" unfolding xfs_file.reading_def using assms by simp
  from xfs_file.stream [OF this assms(5,6), of fat_mount ext2_mount ntfs_mount fat_defrag ext2_defrag]
  show ?thesis unfolding xfs_file.reading_def by blast
qed

section \<open>Directories\<close>

text \<open>A shortform directory: the header with the number of entries and of 8-byte inode numbers and the parent, then
  the entries; inode numbers have 8 bytes when \<open>i8\<close> is not zero and 4 otherwise.\<close>

definition sf_entry_bytes :: "nat \<Rightarrow> nat \<Rightarrow> xfs_sf_entry \<Rightarrow> u8 list" where
  "sf_entry_bytes sz off e =
     of_nat (length (se_name e)) # be_bytes 2 off @ se_name e @ se_ftype e # be_bytes sz (se_inumber e)"

definition sf_width :: "nat \<Rightarrow> nat" where "sf_width i8 = (if i8 = 0 then 4 else 8)"

definition sf_dir_bytes :: "nat \<Rightarrow> nat \<Rightarrow> (nat \<times> xfs_sf_entry) list \<Rightarrow> u8 list" where
  "sf_dir_bytes i8 parent es =
     [of_nat (length es), of_nat i8] @ be_bytes (sf_width i8) parent @ concat (map (\<lambda>(off, e). sf_entry_bytes (sf_width i8) off e) es)"

definition sf_entry_ok :: "nat \<Rightarrow> xfs_sf_entry \<Rightarrow> bool" where
  "sf_entry_ok sz e \<longleftrightarrow> length (se_name e) < 256 \<and> se_inumber e < 256 ^ sz"

lemma byte_at_append_offset: "byte_at (u @ v) (length u + i) = byte_at v i"
  by (simp add: byte_at_concat)

lemma be_at_append_offset:
  "be32_at (u @ v) (length u + i) = be32_at v i" "be64_at (u @ v) (length u + i) = be64_at v i"
  by (simp_all only: be64_at_eq be32_at_eq byte_at_append_offset add.assoc)

lemma byte_at_first: "byte_at (b # v) 0 = b"
  by (simp add: byte_at_def)

lemma sf_walk_entries:
  assumes "sz = 4 \<or> sz = 8" "\<forall>(off, e) \<in> set es. sf_entry_ok sz e"
  shows "sf_walk (u @ concat (map (\<lambda>(off, e). sf_entry_bytes sz off e) es) @ rest) sz (i + k) i (length u) (length es) =
    (if k < length es then Some (snd (es ! k)) else None)"
  using assms(2)
proof (induction es arbitrary: u i k)
  case (Cons x es)
  obtain off e where x: "x = (off, e)" by fastforce
  have ok: "length (se_name e) < 256" "se_inumber e < 256 ^ sz" using Cons.prems x by (auto simp: sf_entry_ok_def)
  let ?c = "concat (map (\<lambda>(off, e). sf_entry_bytes sz off e) es) @ rest"
  let ?s = "u @ sf_entry_bytes sz off e @ ?c"
  have nl: "unat (byte_at ?s (length u)) = length (se_name e)"
    using byte_at_append_offset [of u _ 0] ok(1) by (simp add: sf_entry_bytes_def byte_at_def unat_of_nat)
  let ?u3 = "u @ of_nat (length (se_name e)) # be_bytes 2 off"
  have s3: "?s = ?u3 @ se_name e @ se_ftype e # be_bytes sz (se_inumber e) @ ?c" by (simp add: sf_entry_bytes_def)
  have nm: "bytes_of ?s (length u + 3) (length (se_name e)) = se_name e"
    unfolding s3 by (subst bytes_of_take) simp_all
  let ?u4 = "?u3 @ se_name e"
  have s4: "?s = ?u4 @ se_ftype e # be_bytes sz (se_inumber e) @ ?c" by (simp add: s3)
  have l4: "length u + 3 + length (se_name e) = length ?u4" by simp
  have ft: "byte_at ?s (length u + 3 + length (se_name e)) = se_ftype e"
    unfolding l4 s4 using byte_at_append_offset [of ?u4 "se_ftype e # be_bytes sz (se_inumber e) @ ?c" 0]
    by (simp only: add_0_right byte_at_first)
  let ?u5 = "?u4 @ [se_ftype e]"
  have s5: "?s = ?u5 @ be_bytes sz (se_inumber e) @ ?c" by (simp add: s4)
  have l5: "length u + 3 + length (se_name e) + 1 = length ?u5" by simp
  have inum: "sf_inumber ?s sz (length u + 3 + length (se_name e) + 1) = se_inumber e"
    unfolding l5 s5 sf_inumber_def using assms(1) ok(2) be_at_append_offset [of ?u5 _ 0] be32_be_bytes be64_be_bytes by auto
  show ?case
  proof (cases k)
    case 0
    then show ?thesis using nl nm ft inum x by (simp add: Let_def)
  next
    case (Suc k')
    have l: "length u + (3 + length (se_name e) + 1 + sz) = length (u @ sf_entry_bytes sz off e)" by (simp add: sf_entry_bytes_def)
    have "sf_walk ((u @ sf_entry_bytes sz off e) @ ?c) sz (i + 1 + k') (i + 1) (length (u @ sf_entry_bytes sz off e)) (length es) =
        (if k' < length es then Some (snd (es ! k')) else None)" by (rule Cons.IH) (use Cons.prems in auto)
    then show ?thesis using nl x Suc unfolding l [symmetric] by (simp add: Let_def)
  qed
qed simp

lemma xfs_sf_entry_spec:
  assumes "xs_inode_buf st = core @ sf_dir_bytes i8 parent es @ rest" "length core = 100" "i8 < 256" "length es < 256"
    "\<forall>(off, e) \<in> set es. sf_entry_ok (sf_width i8) e"
  shows "xfs_sf_entry_at k st = (if k < length es then Some (snd (es ! k)) else None)"
proof -
  let ?sf = "sf_dir_bytes i8 parent es @ rest" and ?w = "sf_width i8"
  let ?u = "[of_nat (length es), of_nat i8] @ be_bytes ?w parent"
  have d: "drop 100 (xs_inode_buf st) = ?sf" using assms(1,2) by simp
  have c: "unat (byte_at ?sf 0) = length es" using assms(4) by (simp add: sf_dir_bytes_def byte_at_def unat_of_nat)
  have "byte_at ?sf 1 = of_nat i8" by (simp add: sf_dir_bytes_def byte_at_def)
  moreover have "(of_nat i8 :: u8) = 0 \<longleftrightarrow> i8 = 0" using assms(3) by (simp add: word_unat_eq_iff unat_of_nat)
  ultimately have w: "(if byte_at ?sf 1 \<noteq> 0 then 8 else 4) = ?w" by (simp add: sf_width_def)
  have u: "2 + ?w = length ?u" by simp
  have s: "?sf = ?u @ concat (map (\<lambda>(off, e). sf_entry_bytes ?w off e) es) @ rest" by (simp add: sf_dir_bytes_def)
  have "?w = 4 \<or> ?w = 8" by (simp add: sf_width_def)
  from sf_walk_entries [OF this assms(5), of ?u rest 0 k] show ?thesis
    unfolding xfs_sf_entry_at_def Let_def d c w unfolding u unfolding s by simp
qed

lemma find_from_shortform:
  assumes "\<And>k. xfs_sf_entry_at k st = (if k < length es then Some (es ! k) else None)" "length es < 2 ^ 32"
  shows "i \<le> length es \<Longrightarrow> find_from (1, z) name i st = Some (List.find (\<lambda>e. se_name e = name) (drop i es))"
proof (induction "length es - i" arbitrary: i)
  case 0
  then show ?case by (subst find_from.simps) (simp add: dir_entry_at_def assms(1))
next
  case (Suc n)
  then have i: "i < length es" by simp
  have "add32 i 1 = i + 1" using i assms(2) by (simp add: add32_def)
  moreover have "find_from (1, z) name (i + 1) st = Some (List.find (\<lambda>e. se_name e = name) (drop (i + 1) es))"
    using Suc.hyps(2) i by (intro Suc.hyps(1)) simp_all
  moreover have "drop i es = es ! i # drop (i + 1) es" using i by (simp add: Cons_nth_drop_Suc)
  ultimately show ?case using i by (subst find_from.simps) (simp add: dir_entry_at_def assms(1))
qed

text \<open>C37: a shortform directory in an inode's literal area reads back as the entries that were written there, with 4-byte
  and with 8-byte inode numbers: the walk by index gives every entry in order and nothing behind the last one, and
  the lookup by name always ends, with the first entry of that exact name or with none.
\<close>

theorem xfs_shortform_entries:
  assumes "xs_inode_buf st = core @ sf_dir_bytes i8 parent es @ rest" "length core = 100" "i8 < 256" "length es < 256"
    "\<forall>(off, e) \<in> set es. sf_entry_ok (sf_width i8) e"
  shows "(\<forall>k. xfs_sf_entry_at k st = (if k < length es then Some (snd (es ! k)) else None)) \<and>
    find_from (1, 0) name 0 st = Some (List.find (\<lambda>e. se_name e = name) (map snd es))"
proof -
  have k: "xfs_sf_entry_at k st = (if k < length es then Some (snd (es ! k)) else None)" for k by (rule xfs_sf_entry_spec [OF assms])
  then have "find_from (1, 0) name 0 st = Some (List.find (\<lambda>e. se_name e = name) (drop 0 (map snd es)))"
    using assms(4) by (intro find_from_shortform) simp_all
  with k show ?thesis by simp
qed

definition sf_example :: "(nat \<times> xfs_sf_entry) list" where
  "sf_example = [(0x60, \<lparr>se_name = [0x61, 0x62], se_inumber = 131, se_ftype = 1\<rparr>), (0x70, \<lparr>se_name = [0x63], se_inumber = 2 ^ 33, se_ftype = 2\<rparr>)]"

definition xfs_state_empty :: xfs_state where
  "xfs_state_empty = \<lparr>xs_disk = \<lparr>dk_sec = \<lambda>ty drv lba. replicate 512 0, dk_plan = []\<rparr>, xs_pool = [], xs_nodes = [],
     xs_inode_buf = replicate 4096 0, xs_block_buf = replicate 4096 0, xs_inode_block = replicate 4096 0\<rparr>"

theorem xfs_shortform_entries_witness:
  "xfs_sf_entry_at 1 (xfs_state_empty\<lparr>xs_inode_buf := replicate 100 0 @ sf_dir_bytes 1 128 sf_example @ []\<rparr>) =
     Some \<lparr>se_name = [0x63], se_inumber = 2 ^ 33, se_ftype = 2\<rparr>"
proof -
  let ?st = "xfs_state_empty\<lparr>xs_inode_buf := replicate 100 0 @ sf_dir_bytes 1 128 sf_example @ []\<rparr>"
  have "xs_inode_buf ?st = replicate 100 0 @ sf_dir_bytes 1 128 sf_example @ []" "length (replicate 100 (0 :: u8)) = 100" "1 < (256 :: nat)" "length sf_example < 256"
    "\<forall>(off, e) \<in> set sf_example. sf_entry_ok (sf_width 1) e"
    by (simp_all add: sf_example_def sf_entry_ok_def sf_width_def)
  from xfs_shortform_entries [OF this] have "xfs_sf_entry_at 1 ?st = (if 1 < length sf_example then Some (snd (sf_example ! 1)) else None)" by blast
  also have "\<dots> = Some \<lparr>se_name = [0x63], se_inumber = 2 ^ 33, se_ftype = 2\<rparr>" by (simp add: sf_example_def)
  finally show ?thesis .
qed

text \<open>A free region of length zero inside a block directory keeps the walk where it is: the call does not return.\<close>

lemma block_walk_stuck:
  assumes "pos < leaf_start" "be16_at buf pos = 0xFFFF" "be16_at buf (pos + 2) = 0" "pos < 2 ^ 32"
  shows "block_walk buf leaf_start want_idx pos seen = None"
proof (rule ccontr)
  assume "block_walk buf leaf_start want_idx pos seen \<noteq> None"
  then obtain y where y: "block_walk buf leaf_start want_idx pos seen = Some y" by blast
  have "\<not> (pos < leaf_start \<and> be16_at buf pos = 0xFFFF \<and> be16_at buf (pos + 2) = 0 \<and> pos < 2 ^ 32)"
  proof (rule block_walk.raw_induct [OF _ y, where P = "\<lambda>buf leaf_start want_idx pos seen y.
        \<not> (pos < leaf_start \<and> be16_at buf pos = 0xFFFF \<and> be16_at buf (pos + 2) = 0 \<and> pos < 2 ^ 32)"], goal_cases)
    case (1 self buf leaf_start want_idx pos seen y)
    show ?case
    proof
      assume a: "pos < leaf_start \<and> be16_at buf pos = 0xFFFF \<and> be16_at buf (pos + 2) = 0 \<and> pos < 2 ^ 32"
      then have "self buf leaf_start want_idx pos seen = Some y" using 1(2) by (simp add: add32_def)
      from 1(1) [OF this] a show False by blast
    qed
  qed
  with assms show False by blast
qed

section \<open>Programs on an XFS volume\<close>

lemma xfs_read_blocks_bound:
  assumes "xfs_read_blocks fs nx offset n out st = Some y"
  shows "length out \<le> n \<longrightarrow> length (fst y) \<le> n"
proof (rule xfs_read_blocks.raw_induct [OF _ assms, where P = "\<lambda>fs nx offset n out st y. length out \<le> n \<longrightarrow> length (fst y) \<le> n"], goal_cases)
  case (1 self fs nx offset n out st y)
  note hyp = 1(1)
  show ?case using 1(2) by (auto simp: Let_def min_def split: if_splits prod.splits dest!: hyp)
qed

lemma xfs_read_bound: "xfs_read node off n st = Some (r, out, st') \<Longrightarrow> n < 2 ^ 32 \<Longrightarrow> length out \<le> n"
proof -
  assume r: "xfs_read node off n st = Some (r, out, st')" and n: "n < 2 ^ 32"
  have m: "(if add64 off n > sz then (sz - off) mod 2 ^ 32 else n) \<le> n" if "off < sz" for sz
  proof (cases "off + n < 2 ^ 64")
    case True
    then have "sz - off < n \<or> \<not> add64 off n > sz" using that by (auto simp: add64_def)
    then show ?thesis by (auto intro: le_trans [OF mod_less_eq_dividend])
  next
    case False
    then have "add64 off n \<le> sz"
    proof (cases "off < 2 ^ 64")
      case True
      then have "(off + n) mod 2 ^ 64 = off + n - 2 ^ 64" using False n by (simp add: mod_if)
      then show ?thesis using that True n by (simp add: add64_def)
    next
      case False
      have "add64 off n < 2 ^ 64" by (simp add: add64_def)
      then show ?thesis using False that by linarith
    qed
    then show ?thesis by simp
  qed
  show ?thesis
  proof (cases "out = []")
    case False
    let ?sz = "vn_size (xs_nodes st ! node)" and ?m = "\<lambda>sz. if add64 off n > sz then (sz - off) mod 2 ^ 32 else n"
    from r False have o: "off < ?sz" by (auto simp: xfs_read_def Let_def not_le split: option.splits if_splits)
    from r False o consider "length out = ?m ?sz" | fs nx s1 s2 where "xfs_read_blocks fs nx off (?m ?sz) [] s1 = Some (out, s2)"
      unfolding xfs_read_def by (auto simp: Let_def split: option.splits if_splits prod.splits bind_splits)
    then show ?thesis
    proof cases
      case 1
      then show ?thesis using m [OF o] by simp
    next
      case 2
      then show ?thesis using xfs_read_blocks_bound [OF 2] m [OF o] by simp
    qed
  qed simp
qed

interpretation xfs_source: program_source "xfs_driver fat_mount ext2_mount ntfs_mount fat_defrag ext2_defrag"
  for fat_mount ext2_mount ntfs_mount :: xfs_mount_fn and fat_defrag ext2_defrag :: xfs_defrag_fn
  by unfold_locales (auto simp: xfs_driver_def dest: xfs_read_bound)

end
