(* ===== verification/Xfs_Format.thy ===== *)
theory Xfs_Format
  imports Xfs_Props
begin

text \<open>
  XFS files as the format writes them, and the driver on them. The layout is described without reference to the driver:
  allocation groups of \<open>agblocks\<close> blocks one behind the other, block and inode numbers with the group in the bits above
  \<open>agblklog\<close>, the inode with its big-endian fields, and in its literal area the bytes of the file or the packed extent
  records. Reading such a file through a descriptor returns its bytes.
\<close>

section \<open>The layout\<close>

text \<open>Block \<open>agbno\<close> of group \<open>ag\<close>: its place on the volume and the number that records give it.\<close>

definition group_block :: "xfs_fs \<Rightarrow> nat \<Rightarrow> nat \<Rightarrow> nat" where
  "group_block fs ag agbno = ag * xs_agblocks fs + agbno"

definition block_number :: "xfs_fs \<Rightarrow> nat \<Rightarrow> nat \<Rightarrow> nat" where
  "block_number fs ag agbno = ag * 2 ^ xs_agblklog fs + agbno"

definition volume_block :: "xfs_fs \<Rightarrow> disk \<Rightarrow> nat \<Rightarrow> u8 list" where
  "volume_block fs d b = read_sectors d (xs_drive_type fs) (xs_drive fs) (xs_part_lba fs + b * xs_spb fs) (xs_spb fs)"

definition xfs_layout :: "xfs_fs \<Rightarrow> bool" where
  "xfs_layout fs \<longleftrightarrow> xfs_geometry fs \<and> xs_part_lba fs < 2 ^ 63 \<and> xs_agblocks fs \<le> 2 ^ xs_agblklog fs \<and>
     xs_agcount fs * 2 ^ xs_agblklog fs \<le> 2 ^ 52 \<and> xs_inopblog fs \<le> 12"

text \<open>A file is stored in the inode itself, or has a size and pieces: group, first block, number of blocks.\<close>

type_synonym piece = "nat \<times> nat \<times> nat"

datatype xfs_body = In_inode "u8 list" | Pieces nat "piece list"

fun piece_ok :: "xfs_fs \<Rightarrow> piece \<Rightarrow> bool" where
  "piece_ok fs (ag, agbno, cnt) \<longleftrightarrow> ag < xs_agcount fs \<and> agbno + cnt \<le> xs_agblocks fs \<and> 0 < cnt \<and> cnt < 2 ^ 21 \<and> 0 < ag + agbno"

fun piece_blocks :: "xfs_fs \<Rightarrow> piece list \<Rightarrow> nat list" where
  "piece_blocks fs [] = []"
| "piece_blocks fs ((ag, agbno, cnt) # ps) = [group_block fs ag agbno ..< group_block fs ag agbno + cnt] @ piece_blocks fs ps"

fun extent_list :: "xfs_fs \<Rightarrow> nat \<Rightarrow> piece list \<Rightarrow> u8 list" where
  "extent_list fs off [] = []"
| "extent_list fs off ((ag, agbno, cnt) # ps) =
     xfs_extent_bytes \<lparr>xe_startoff = off, xe_startblock = block_number fs ag agbno, xe_blockcount = cnt, xe_unwritten = False\<rparr> @
     extent_list fs (off + cnt) ps"

fun body_bytes :: "xfs_fs \<Rightarrow> disk \<Rightarrow> xfs_body \<Rightarrow> u8 list" where
  "body_bytes fs d (In_inode v) = v"
| "body_bytes fs d (Pieces fsize ps) = take fsize (concat (map (volume_block fs d) (piece_blocks fs ps)))"

text \<open>The inode of a file: magic number, format, size, number of extents and the literal area from byte 100 on.\<close>

fun inode_holds :: "xfs_fs \<Rightarrow> xfs_body \<Rightarrow> u8 list \<Rightarrow> bool" where
  "inode_holds fs (In_inode v) inode \<longleftrightarrow>
     take 2 inode = [0x49, 0x4E] \<and> inode ! 5 = 1 \<and> take 8 (drop 56 inode) = be_bytes 8 (length v) \<and>
     100 + length v \<le> length inode \<and> take (length v) (drop 100 inode) = v"
| "inode_holds fs (Pieces fsize ps) inode \<longleftrightarrow>
     take 2 inode = [0x49, 0x4E] \<and> inode ! 5 = 2 \<and> take 8 (drop 56 inode) = be_bytes 8 fsize \<and>
     take 4 (drop 76 inode) = be_bytes 4 (length ps) \<and> (\<exists>rest. drop 100 inode = extent_list fs 0 ps @ rest) \<and>
     (\<forall>p \<in> set ps. piece_ok fs p) \<and> fsize < 2 ^ 31 \<and> fsize \<le> xs_block_size fs * length (piece_blocks fs ps)"

text \<open>Node \<open>n\<close> stands for a file of the volume \<open>fs\<close>: inode \<open>k\<close> of a block of group \<open>ag\<close> holds it.\<close>

definition xfs_file_on :: "nat \<Rightarrow> xfs_fs \<Rightarrow> xfs_body \<Rightarrow> xfs_state \<Rightarrow> bool" where
  "xfs_file_on n fs body s \<longleftrightarrow>
     (let nd = xs_nodes s ! n in
      n < length (xs_nodes s) \<and> (\<exists>f. vn_private nd = Some f \<and> xs_pool s ! f = fs) \<and> vn_ops nd = xfs_file_ops \<and>
      xfs_layout fs \<and> xfs_calm s \<and> vn_size nd = (case body of In_inode v \<Rightarrow> length v | Pieces fsize ps \<Rightarrow> fsize) \<and>
      (\<exists>ag agbno k. ag < xs_agcount fs \<and> agbno < xs_agblocks fs \<and> k < 2 ^ xs_inopblog fs \<and> (k + 1) * xs_inodesize fs \<le> xs_block_size fs \<and>
         vn_inode nd = block_number fs ag agbno * 2 ^ xs_inopblog fs + k \<and>
         inode_holds fs body (take (xs_inodesize fs) (drop (k * xs_inodesize fs) (volume_block fs (xs_disk s) (group_block fs ag agbno))))))"

section \<open>What the driver finds\<close>

lemma number_bounds:
  assumes "xfs_layout fs" "ag < xs_agcount fs" "agbno < xs_agblocks fs"
  shows "block_number fs ag agbno < 2 ^ 52" "group_block fs ag agbno < 2 ^ 52" "group_block fs ag agbno \<le> block_number fs ag agbno" "agbno < 2 ^ xs_agblklog fs"
proof -
  have l: "xs_agblocks fs \<le> 2 ^ xs_agblklog fs" "xs_agcount fs * 2 ^ xs_agblklog fs \<le> 2 ^ 52" using assms(1) by (simp_all add: xfs_layout_def)
  show a: "agbno < 2 ^ xs_agblklog fs" using assms(3) l(1) by simp
  have "(ag + 1) * 2 ^ xs_agblklog fs \<le> xs_agcount fs * 2 ^ xs_agblklog fs" using assms(2) by (intro mult_le_mono1) simp
  then show b: "block_number fs ag agbno < 2 ^ 52" using a l(2) by (simp add: block_number_def)
  show "group_block fs ag agbno \<le> block_number fs ag agbno" using l(1) by (simp add: group_block_def block_number_def)
  with b show "group_block fs ag agbno < 2 ^ 52" by simp
qed

lemma fsb_to_block_number:
  assumes "xfs_layout fs" "ag < xs_agcount fs" "agbno < xs_agblocks fs"
  shows "xfs_fsb_to_block fs (block_number fs ag agbno) = group_block fs ag agbno"
proof -
  note b = number_bounds [OF assms]
  have "ag * xs_agblocks fs < 2 ^ 64" using b(2) by (simp add: group_block_def)
  then show ?thesis using b by (simp add: xfs_fsb_to_block_def block_number_def group_block_def add64_def mul64_def)
qed

lemma volume_block_eq: "xfs_layout fs \<Longrightarrow> b < 2 ^ 52 \<Longrightarrow> xfs_blk fs d b = volume_block fs d b"
proof -
  assume l: "xfs_layout fs" and b: "b < 2 ^ 52"
  have "b * xs_spb fs \<le> 2 ^ 52 * 8" using l b by (intro mult_le_mono) (auto simp: xfs_layout_def xfs_geometry_def)
  then show ?thesis using l by (simp add: xfs_blk_def volume_block_def add64_def mul64_def xfs_layout_def)
qed

lemma ino_to_loc_number:
  assumes "xfs_layout fs" "ag < xs_agcount fs" "agbno < xs_agblocks fs" "k < 2 ^ xs_inopblog fs" "(k + 1) * xs_inodesize fs \<le> xs_block_size fs"
  shows "xfs_ino_to_loc fs (block_number fs ag agbno * 2 ^ xs_inopblog fs + k) = (group_block fs ag agbno, k * xs_inodesize fs)"
proof -
  let ?i = "xs_inopblog fs" and ?l = "xs_agblklog fs"
  note b = number_bounds [OF assms(1-3)]
  have k: "k < 2 ^ 32"
  proof -
    have "(2 :: nat) ^ ?i \<le> 2 ^ 12" using assms(1) by (intro power_increasing) (simp_all add: xfs_layout_def)
    then show ?thesis using assms(4) by simp
  qed
  have ino: "block_number fs ag agbno * 2 ^ ?i + k = ag * 2 ^ (?l + ?i) + (agbno * 2 ^ ?i + k)" by (simp add: block_number_def power_add algebra_simps)
  have r: "agbno * 2 ^ ?i + k < 2 ^ (?l + ?i)"
  proof -
    have "(agbno + 1) * 2 ^ ?i \<le> 2 ^ ?l * 2 ^ ?i" using b(4) by (intro mult_le_mono1) simp
    then show ?thesis using assms(4) by (simp add: power_add)
  qed
  have "xs_block_size fs \<le> 4096" using assms(1) by (simp add: xfs_layout_def xfs_geometry_def)
  then have m: "k * xs_inodesize fs < 2 ^ 32" using assms(5) by simp
  have "ag * xs_agblocks fs < 2 ^ 64" "ag * xs_agblocks fs + agbno < 2 ^ 64" using b(2) by (simp_all add: group_block_def)
  then show ?thesis unfolding ino xfs_ino_to_loc_def Let_def using r assms(4) k m
    by (simp add: add64_def mul64_def mul32_def group_block_def)
qed

lemma decode_extent_at: "xfs_decode_extent (u @ v) (length u) = xfs_decode_extent v 0"
  using be64_at_drop [of "length u" "u @ v" 0] be64_at_drop [of "length u" "u @ v" 8] by (simp add: xfs_decode_extent_def)

lemma length_extent_list: "length (extent_list fs off ps) = 16 * length ps"
  by (induction fs off ps rule: extent_list.induct) (simp_all add: xfs_extent_bytes_def)

text \<open>The record that covers a block of the file leads to the block of that piece.\<close>

lemma resolve_pieces:
  assumes l: "xfs_layout fs"
  shows "\<forall>p \<in> set ps. piece_ok fs p \<Longrightarrow> buf = u @ extent_list fs off ps @ rest \<Longrightarrow> length u = 100 + 16 * i \<Longrightarrow> i + length ps < 2 ^ 20 \<Longrightarrow>
    off + length (piece_blocks fs ps) < 2 ^ 54 \<Longrightarrow> j < length (piece_blocks fs ps) \<Longrightarrow>
    xfs_resolve_extent fs buf i (i + length ps) (off + j) = piece_blocks fs ps ! j"
proof (induction ps arbitrary: u off i j)
  case (Cons p ps)
  obtain ag agbno cnt where p: "p = (ag, agbno, cnt)" by (cases p) auto
  have ok: "ag < xs_agcount fs" "agbno + cnt \<le> xs_agblocks fs" "cnt < 2 ^ 21" "0 < cnt" using Cons.prems(1) p by simp_all
  let ?e = "\<lparr>xe_startoff = off, xe_startblock = block_number fs ag agbno, xe_blockcount = cnt, xe_unwritten = False\<rparr>"
  have m: "100 + mul32 i 16 = length u" using Cons.prems(3,4) by (simp add: mul32_def)
  have bn: "block_number fs ag agbno < 2 ^ 52" using number_bounds(1) [OF l ok(1), of agbno] ok(2,4) by simp
  have d: "xfs_decode_extent buf (100 + mul32 i 16) = ?e"
    unfolding m Cons.prems(2) p extent_list.simps append_assoc decode_extent_at
    by (rule xfs_extent_roundtrip) (use bn ok(3) Cons.prems(5) in simp_all)
  show ?case
  proof (cases "j < cnt")
    case True
    have a: "agbno + j < xs_agblocks fs" using ok(2) True by simp
    have "add64 (block_number fs ag agbno) j = block_number fs ag (agbno + j)"
      using number_bounds(1) [OF l ok(1) a] by (simp add: add64_def block_number_def)
    then show ?thesis using True d fsb_to_block_number [OF l ok(1) a]
      by (subst xfs_resolve_extent.simps) (simp add: p nth_append group_block_def)
  next
    case False
    have "xfs_resolve_extent fs buf (i + 1) (i + 1 + length ps) (off + cnt + (j - cnt)) = piece_blocks fs ps ! (j - cnt)"
      using Cons.prems False p by (intro Cons.IH [of "u @ xfs_extent_bytes ?e"]) (simp_all add: xfs_extent_bytes_def)
    then show ?thesis using False d by (subst xfs_resolve_extent.simps) (simp add: p nth_append)
  qed
qed simp
lemma piece_blocks_bounds:
  assumes "xfs_layout fs"
  shows "\<forall>p \<in> set ps. piece_ok fs p \<Longrightarrow> b \<in> set (piece_blocks fs ps) \<Longrightarrow> 0 < b \<and> b < 2 ^ 52"
proof (induction ps)
  case (Cons p ps)
  obtain ag agbno cnt where p: "p = (ag, agbno, cnt)" by (cases p) auto
  have ok: "ag < xs_agcount fs" "agbno + cnt \<le> xs_agblocks fs" "0 < cnt" "0 < ag + agbno" using Cons.prems(1) p by simp_all
  have pos: "0 < group_block fs ag agbno" using ok(2-4) by (auto simp: group_block_def)
  have top: "group_block fs ag agbno + (cnt - 1) < 2 ^ 52"
    using number_bounds(2) [OF assms ok(1), of "agbno + (cnt - 1)"] ok(2,3) unfolding group_block_def by linarith
  show ?case using Cons.IH Cons.prems p pos top ok(3) by auto
qed simp

lemma length_piece_blocks: "\<forall>p \<in> set ps. piece_ok fs p \<Longrightarrow> length (piece_blocks fs ps) \<le> 2 ^ 21 * length ps"
  by (induction fs ps rule: piece_blocks.induct) auto

text \<open>On such a file the driver finds the inode, and what it decodes are the bytes of the file.\<close>

lemma xfs_file_on_at:
  assumes "xfs_file_on n fs body s"
  shows "xfs_file_at n fs s \<and> xfs_contents n fs s = body_bytes fs (xs_disk s) body"
proof -
  let ?nd = "xs_nodes s ! n" and ?d = "xs_disk s"
  have h: "n < length (xs_nodes s)" "\<exists>f. vn_private ?nd = Some f \<and> xs_pool s ! f = fs" "vn_ops ?nd = xfs_file_ops" "xfs_layout fs" "xfs_calm s"
    "vn_size ?nd = (case body of In_inode v \<Rightarrow> length v | Pieces fsize ps \<Rightarrow> fsize)"
    using assms unfolding xfs_file_on_def Let_def by blast+
  obtain ag agbno k where a: "ag < xs_agcount fs" "agbno < xs_agblocks fs" "k < 2 ^ xs_inopblog fs" "(k + 1) * xs_inodesize fs \<le> xs_block_size fs"
    "vn_inode ?nd = block_number fs ag agbno * 2 ^ xs_inopblog fs + k"
    "inode_holds fs body (take (xs_inodesize fs) (drop (k * xs_inodesize fs) (volume_block fs ?d (group_block fs ag agbno))))"
    using assms unfolding xfs_file_on_def Let_def by blast
  define inode where "inode = xfs_inode_at fs ?d (vn_inode ?nd)"
  note loc = ino_to_loc_number [OF h(4) a(1-4)]
  have g: "xfs_geometry fs" "disk_ok ?d" "100 \<le> xs_inodesize fs" "xs_inodesize fs \<le> 4096" using h(4,5) by (simp_all add: xfs_layout_def xfs_calm_def xfs_geometry_def)
  have hold: "inode_holds fs body inode"
    using a(6) unfolding inode_def a(5) xfs_inode_at_def loc by (simp add: volume_block_eq [OF h(4) number_bounds(2) [OF h(4) a(1,2)]])
  have fit: "snd (xfs_ino_to_loc fs (vn_inode ?nd)) + xs_inodesize fs \<le> xs_block_size fs" unfolding a(5) loc using a(4) by simp
  have li: "length inode = xs_inodesize fs"
    using fit unfolding inode_def xfs_inode_at_def by (auto simp: length_xfs_blk [OF g(1,2)] split: prod.split)
  have magic: "take 2 inode = [0x49, 0x4E]" using hold by (cases body) simp_all
  then have "inode ! 0 = 0x49" "inode ! 1 = 0x4E" using nth_take [of 0 2 inode] nth_take [of 1 2 inode] by simp_all
  then have "be16_at inode 0 = XFS_DINODE_MAGIC" using li g(3) by (simp add: be16_at_eq byte_at_def XFS_DINODE_MAGIC_def)
  with fit have iok: "xfs_inode_ok fs ?d (vn_inode ?nd)" by (simp add: xfs_inode_ok_def inode_def)
  have fmt: "di_format inode = inode ! 5" using li g(3) by (simp add: di_format_def byte_at_def)
  show ?thesis
  proof (cases body)
    case (In_inode v)
    have v: "inode ! 5 = 1" "100 + length v \<le> length inode" "take (length v) (drop 100 inode) = v" using hold In_inode by simp_all
    have sz: "vn_size ?nd = length v" using h(6) In_inode by simp
    show ?thesis using h(1-3,5) g iok v li fmt sz In_inode
      unfolding xfs_file_at_def xfs_contents_def Let_def inode_def [symmetric] by (simp add: XFS_DINODE_FMT_LOCAL_def)
  next
    case (Pieces fsize ps)
    obtain rest where v: "inode ! 5 = 2" "take 4 (drop 76 inode) = be_bytes 4 (length ps)" "drop 100 inode = extent_list fs 0 ps @ rest"
      "\<forall>p \<in> set ps. piece_ok fs p" "fsize < 2 ^ 31" "fsize \<le> xs_block_size fs * length (piece_blocks fs ps)"
      using hold Pieces by auto
    have sz: "vn_size ?nd = fsize" using h(6) Pieces by simp
    let ?bs = "piece_blocks fs ps" and ?n = "(fsize + xs_block_size fs - 1) div xs_block_size fs"
    have ln: "100 + 16 * length ps \<le> xs_inodesize fs" using arg_cong [OF v(3), of length] li g(3) by (simp add: length_extent_list)
    have "drop 76 inode = be_bytes 4 (length ps) @ drop 4 (drop 76 inode)" using v(2) append_take_drop_id [of 4 "drop 76 inode"] by simp
    then have nx: "di_nextents inode = length ps"
      using be32_be_bytes [of "length ps" "drop 4 (drop 76 inode)"] be32_at_drop [of 76 inode 0] ln g(4) by (simp add: di_nextents_def)
    have u: "inode = take 100 inode @ extent_list fs 0 ps @ rest" using v(3) append_take_drop_id [of 100 inode] by simp
    have lb: "length ?bs < 2 ^ 54" using length_piece_blocks [OF v(4)] ln g(4) by simp
    have phys: "xfs_phys fs inode j = ?bs ! j" if "j < length ?bs" for j
      using resolve_pieces [OF h(4) v(4) u, of 0 j] that ln g(3,4) li lb by (simp add: xfs_phys_def nx)
    have pos: "0 < xs_block_size fs" using g(1) by (simp add: xfs_geometry_def)
    have n: "?n \<le> length ?bs"
    proof -
      have "?n \<le> (xs_block_size fs * length ?bs + (xs_block_size fs - 1)) div xs_block_size fs" using v(6) pos by (intro div_le_mono) simp
      also have "\<dots> = length ?bs + (xs_block_size fs - 1) div xs_block_size fs" using pos by (intro div_mult_self4) simp
      also have "\<dots> = length ?bs" using pos by simp
      finally show ?thesis .
    qed
    have bb: "0 < ?bs ! j \<and> ?bs ! j < 2 ^ 52" if "j < length ?bs" for j using piece_blocks_bounds [OF h(4) v(4)] that by simp
    have data: "xfs_data fs ?d inode ?n = concat (map (volume_block fs ?d) (take ?n ?bs))"
    proof -
      have "map (\<lambda>j. xfs_blk fs ?d (xfs_phys fs inode j)) [0 ..< ?n] = map (volume_block fs ?d) (take ?n ?bs)"
        by (rule nth_equalityI) (use n phys bb volume_block_eq [OF h(4)] in auto)
      then show ?thesis by (simp only: xfs_data_def)
    qed
    have "length (concat (map (volume_block fs ?d) (take ?n ?bs))) = xs_block_size fs * ?n"
      unfolding data [symmetric] by (rule length_xfs_data [OF g(1,2)])
    moreover have "concat (map (volume_block fs ?d) ?bs) = concat (map (volume_block fs ?d) (take ?n ?bs)) @ concat (map (volume_block fs ?d) (drop ?n ?bs))"
      by (metis append_take_drop_id concat_append map_append)
    ultimately have "take fsize (xfs_data fs ?d inode ?n) = take fsize (concat (map (volume_block fs ?d) ?bs))"
      using blocks_cover [OF pos, of fsize] unfolding data by simp
    moreover have "\<forall>j < ?n. xfs_phys fs inode j \<noteq> 0" using phys bb n by (metis less_le_trans neq0_conv)
    ultimately show ?thesis using h(1-3,5) g iok v(1,5) ln fmt sz nx Pieces
      unfolding xfs_file_at_def xfs_contents_def Let_def inode_def [symmetric] by (simp add: XFS_DINODE_FMT_LOCAL_def XFS_DINODE_FMT_EXTENTS_def)
  qed
qed
text \<open>C36: a file of an XFS volume is written on the device in the layout of the format: the allocation groups one behind the
  other, its inode at the place its number gives, in the inode the bytes of the file or the packed extent records of
  its pieces, each a range of blocks of one group. A program that reads it through a descriptor with any sequence of
  request sizes gets, one after the other, the bytes of the file from the descriptor's offset on, without gap or
  repetition, up to its size; every read returns and the descriptor's offset ends where the delivered bytes end. The
  device is healthy, the file has less than 2 GiB, no hole and no unwritten extent.\<close>

theorem vfs_xfs_stream:
  assumes "caller_ok v" "open_fd fd v = Some e" "fd_node e = Some n" "xfs_file_on n fs body (v_fs v)"
    "\<forall>k \<in> set ks. k < 2 ^ 32" "unat (fd_offset e) + sum_list ks < 2 ^ 63"
  shows "\<exists>v' e'. vfs_read_seq (xfs_driver fat_mount ext2_mount ntfs_mount fat_defrag ext2_defrag) fd ks v =
      Some (take (sum_list ks) (drop (unat (fd_offset e)) (body_bytes fs (xs_disk (v_fs v)) body)), v') \<and>
    open_fd fd v' = Some e' \<and> fd_node e' = Some n \<and>
    unat (fd_offset e') = unat (fd_offset e) + min (sum_list ks) (length (body_bytes fs (xs_disk (v_fs v)) body) - unat (fd_offset e))"
proof -
  have f: "xfs_file_at n fs (v_fs v)" "xfs_contents n fs (v_fs v) = body_bytes fs (xs_disk (v_fs v)) body"
    using xfs_file_on_at [OF assms(4)] by simp_all
  show ?thesis using xfs_stream [OF assms(1-3) f(1) assms(5,6)] unfolding f(2) .
qed

text \<open>A volume of 512-byte blocks in groups of 12, so that block numbers jump by 16 from group to group. A file of 600 bytes:
  inode 1 of block 1 of group 1, its data in block 3 of group 1 and block 2 of group 0.\<close>

definition xfs_vol :: xfs_fs where
  "xfs_vol = \<lparr>xs_drive = 0, xs_drive_type = 0, xs_part_lba = 0, xs_block_size = 512, xs_spb = 1, xs_agblocks = 12,
     xs_agcount = 2, xs_agblklog = 4, xs_inodesize = 256, xs_inopblock = 2, xs_inopblog = 1, xs_dirblklog = 0, xs_rootino = 3\<rparr>"

definition xfs_core_example :: "u8 list" where
  "xfs_core_example = [0x49, 0x4E, 0x81, 0xA4, 2, 2] @ replicate 50 0 @ be_bytes 8 600 @ replicate 12 0 @ be_bytes 4 2 @ replicate 20 0"

definition xfs_pieces_example :: "piece list" where
  "xfs_pieces_example = [(1, 3, 1), (0, 2, 1)]"

definition xfs_inode_example :: "u8 list" where
  "xfs_inode_example = xfs_core_example @ extent_list xfs_vol 0 xfs_pieces_example @ replicate 124 0"

definition xfs_disk_example :: disk where
  "xfs_disk_example = \<lparr>dk_sec = \<lambda>ty drv lba. if lba = 13 then replicate 256 0 @ xfs_inode_example
     else if lba = 15 then replicate 512 7 else if lba = 2 then replicate 512 9 else replicate 512 0, dk_plan = []\<rparr>"

definition xfs_state_example :: xfs_state where
  "xfs_state_example = \<lparr>xs_disk = xfs_disk_example, xs_pool = [xfs_vol],
     xs_nodes = [\<lparr>vn_name = [0x61], vn_type = VFS_FILE, vn_size = 600, vn_inode = 35, vn_ops = xfs_file_ops, vn_parent = None, vn_private = Some 0\<rparr>],
     xs_inode_buf = replicate 4096 0, xs_block_buf = replicate 4096 0, xs_inode_block = replicate 4096 0\<rparr>"

lemma xfs_inode_example_holds: "inode_holds xfs_vol (Pieces 600 xfs_pieces_example) xfs_inode_example"
proof -
  have l: "length xfs_core_example = 100" by (simp add: xfs_core_example_def)
  have "take 2 xfs_inode_example = [0x49, 0x4E]" "xfs_inode_example ! 5 = 2" "take 8 (drop 56 xfs_inode_example) = be_bytes 8 600"
    "take 4 (drop 76 xfs_inode_example) = be_bytes 4 (length xfs_pieces_example)"
    by (simp_all add: xfs_inode_example_def xfs_core_example_def xfs_pieces_example_def numeral_2_eq_2)
  moreover have "drop 100 xfs_inode_example = extent_list xfs_vol 0 xfs_pieces_example @ replicate 124 0" by (simp add: xfs_inode_example_def l)
  moreover have "\<forall>p \<in> set xfs_pieces_example. piece_ok xfs_vol p" "600 \<le> xs_block_size xfs_vol * length (piece_blocks xfs_vol xfs_pieces_example)"
    by (simp_all add: xfs_pieces_example_def xfs_vol_def)
  ultimately show ?thesis by auto
qed

lemma xfs_example_on: "xfs_file_on 0 xfs_vol (Pieces 600 xfs_pieces_example) xfs_state_example"
proof -
  have l: "length xfs_inode_example = 256" by (simp add: xfs_inode_example_def xfs_core_example_def xfs_extent_bytes_def xfs_pieces_example_def)
  have b: "take 256 (drop 256 (volume_block xfs_vol xfs_disk_example 13)) = xfs_inode_example"
    by (simp add: volume_block_def read_sectors_def xfs_vol_def xfs_disk_example_def l)
  have "\<exists>ag agbno k. ag < xs_agcount xfs_vol \<and> agbno < xs_agblocks xfs_vol \<and> k < 2 ^ xs_inopblog xfs_vol \<and> (k + 1) * xs_inodesize xfs_vol \<le> xs_block_size xfs_vol \<and>
      35 = block_number xfs_vol ag agbno * 2 ^ xs_inopblog xfs_vol + k \<and>
      inode_holds xfs_vol (Pieces 600 xfs_pieces_example) (take (xs_inodesize xfs_vol) (drop (k * xs_inodesize xfs_vol) (volume_block xfs_vol xfs_disk_example (group_block xfs_vol ag agbno))))"
  proof (intro exI conjI)
    show "inode_holds xfs_vol (Pieces 600 xfs_pieces_example) (take (xs_inodesize xfs_vol) (drop (1 * xs_inodesize xfs_vol) (volume_block xfs_vol xfs_disk_example (group_block xfs_vol 1 1))))"
      using xfs_inode_example_holds b unfolding group_block_def by (simp add: xfs_vol_def [THEN arg_cong [where f = xs_inodesize], simplified] xfs_vol_def [THEN arg_cong [where f = xs_agblocks], simplified] del: inode_holds.simps)
  qed (simp_all add: xfs_vol_def block_number_def)
  moreover have "xfs_layout xfs_vol" by (simp add: xfs_layout_def xfs_geometry_def xfs_vol_def)
  moreover have "xfs_calm xfs_state_example"
    using l by (auto simp: xfs_calm_def xfs_state_example_def xfs_disk_example_def disk_ok_def healthy_def)
  ultimately show ?thesis unfolding xfs_file_on_def Let_def by (simp add: xfs_state_example_def del: inode_holds.simps)
qed

definition xfs_fd_example :: file_descriptor where
  "xfs_fd_example = \<lparr>fd_node = Some 0, fd_offset = 510, fd_flags = 1, fd_active = True\<rparr>"

definition xfs_vfs_example :: "xfs_state vfs" where
  "xfs_vfs_example = \<lparr>mount_table = [], v_sched = sched_zero\<lparr>cur_task := Some Idle,
     idle_task := task_zero\<lparr>t_fd_table := xfs_fd_example # replicate 63 fd_zero\<rparr>\<rparr>, v_fs = xfs_state_example\<rparr>"

definition xfs_no_mount :: xfs_mount_fn where "xfs_no_mount ty drv lba mp s = (- 1, mp, s)"
definition xfs_no_defrag :: xfs_defrag_fn where "xfs_no_defrag n s = Some (- 1, (0, 0, 0), s)"

theorem vfs_xfs_stream_witness:
  "\<exists>v'. vfs_read_seq (xfs_driver xfs_no_mount xfs_no_mount xfs_no_mount xfs_no_defrag xfs_no_defrag) 0 [1, 3] xfs_vfs_example =
     Some ([7, 7, 9, 9], v')"
proof -
  have ok: "caller_ok xfs_vfs_example" "open_fd 0 xfs_vfs_example = Some xfs_fd_example"
    by (simp_all add: caller_ok_def xfs_vfs_example_def fdt_def sched_current_task_def caller_def get_task_def open_fd_def MAX_FD_def xfs_fd_example_def)
  have f: "xfs_file_on 0 xfs_vol (Pieces 600 xfs_pieces_example) (v_fs xfs_vfs_example)" "fd_node xfs_fd_example = Some 0"
    using xfs_example_on by (simp_all add: xfs_vfs_example_def xfs_fd_example_def)
  have c: "body_bytes xfs_vol (xs_disk (v_fs xfs_vfs_example)) (Pieces 600 xfs_pieces_example) = replicate 512 7 @ replicate 88 9"
    by (simp add: xfs_vfs_example_def xfs_state_example_def xfs_pieces_example_def group_block_def volume_block_def read_sectors_def xfs_vol_def xfs_disk_example_def)
  have o: "unat (fd_offset xfs_fd_example) = 510" by (simp add: xfs_fd_example_def)
  have "\<forall>k \<in> set [1, 3 :: nat]. k < 2 ^ 32" "unat (fd_offset xfs_fd_example) + sum_list [1, 3] < 2 ^ 63" by (simp_all add: o)
  from vfs_xfs_stream [OF ok f(2,1) this, of xfs_no_mount xfs_no_mount xfs_no_mount xfs_no_defrag xfs_no_defrag]
  obtain v' where "vfs_read_seq (xfs_driver xfs_no_mount xfs_no_mount xfs_no_mount xfs_no_defrag xfs_no_defrag) 0 [1, 3] xfs_vfs_example =
      Some (take (sum_list [1, 3]) (drop 510 (replicate 512 7 @ replicate 88 9)), v')"
    unfolding c o by blast
  moreover have "take (sum_list [1, 3]) (drop 510 (replicate 512 7 @ replicate 88 9)) = [7, 7, 9, 9 :: u8]"
    by (simp add: numeral_2_eq_2)
  ultimately show ?thesis by (simp del: vfs_read_seq.simps)
qed


end
