(* ===== verification/Ntfs.thy ===== *)
theory Ntfs
  imports Vfs
begin

text \<open>
  \<open>fs/ntfs.c\<close> and \<open>fs/ntfs.h\<close>: the read-only NTFS driver. The state holds the pools of volumes and nodes, the static
  buffers \<open>mft_buf\<close> and \<open>data_buf\<close>, the \<open>indx_buf\<close> of \<open>ntfs_dir_lookup\<close> and the block devices. A pointer into a buffer
  is a position in it, a pointer to a \<open>$FILE_NAME\<close> attribute the bytes from there on (the buffers do not change
  before it is used). Unsigned values are natural numbers with the wrap-around written out. Loops that a damaged
  volume can keep running are \<open>partial_function (option)\<close>, \<open>None\<close> being a call that does not return. Three things are
  outside the model, as the code does not check them: bytes behind the end of a buffer read as 0, clusters and index
  records above 4096 bytes make the buffers grow where the code would run over them, and a record size given by a
  shift of 32 or more is 0.
\<close>

section \<open>Data\<close>

definition MAX_NTFS_FS :: nat where "MAX_NTFS_FS = 4"
definition MAX_NTFS_NODES :: nat where "MAX_NTFS_NODES = 128"
definition FS_NTFS :: nat where "FS_NTFS = 4"
definition NTFS_ATTR_DATA :: nat where "NTFS_ATTR_DATA = 0x80"
definition NTFS_ATTR_INDEX_ROOT :: nat where "NTFS_ATTR_INDEX_ROOT = 0x90"
definition NTFS_ATTR_INDEX_ALLOCATION :: nat where "NTFS_ATTR_INDEX_ALLOCATION = 0xA0"
definition NTFS_ATTR_END :: nat where "NTFS_ATTR_END = 0xFFFFFFFF"
definition NTFS_FILE_ATTR_DIRECTORY :: u32 where "NTFS_FILE_ATTR_DIRECTORY = 0x10000000"
definition NTFS_MFT_ROOT_DIR :: nat where "NTFS_MFT_ROOT_DIR = 5"
definition NTFS_NS_DOS :: u8 where "NTFS_NS_DOS = 2"

record ntfs_fs =
  nf_drive :: u8
  nf_drive_type :: u8
  nf_part_lba :: nat
  nf_spc :: nat
  nf_cluster_size :: nat
  nf_mft_lba :: nat
  nf_mft_record_size :: nat
  nf_mft_sectors :: nat
  nf_index_record_size :: nat

record ntfs_state =
  nt_disk :: disk
  nt_fs :: "ntfs_fs list"
  nt_nodes :: "vfs_node list"
  nt_mft :: "u8 list"
  nt_data :: "u8 list"
  nt_indx :: "u8 list"

definition ntfs_fs_zero :: ntfs_fs where
  "ntfs_fs_zero = \<lparr>nf_drive = 0, nf_drive_type = 0, nf_part_lba = 0, nf_spc = 0, nf_cluster_size = 0, nf_mft_lba = 0,
     nf_mft_record_size = 0, nf_mft_sectors = 0, nf_index_record_size = 0\<rparr>"

definition ntfs_alloc_node :: "ntfs_state \<Rightarrow> nat option \<times> ntfs_state" where
  "ntfs_alloc_node st = (if length (nt_nodes st) \<ge> MAX_NTFS_NODES then (None, st)
     else (Some (length (nt_nodes st)), st\<lparr>nt_nodes := nt_nodes st @ [node_zero]\<rparr>))"

definition ntfs_alloc_fs :: "ntfs_state \<Rightarrow> nat option \<times> ntfs_state" where
  "ntfs_alloc_fs st = (if length (nt_fs st) \<ge> MAX_NTFS_FS then (None, st)
     else (Some (length (nt_fs st)), st\<lparr>nt_fs := nt_fs st @ [ntfs_fs_zero]\<rparr>))"

section \<open>Names\<close>

text \<open>The characters that \<open>utf16_to_ascii\<close> stores before the terminator; the units start at \<open>buf[off]\<close>.\<close>

definition utf16_to_ascii :: "u8 list \<Rightarrow> nat \<Rightarrow> nat \<Rightarrow> nat \<Rightarrow> u8 list" where
  "utf16_to_ascii buf off len mx =
     map (\<lambda>i. let u = le16 buf (off + 2 * i) in if u < 0x80 then of_nat u else 0x3F) [0 ..< min len (mx - 1)]"

definition ntfs_upper :: "u8 \<Rightarrow> u8" where
  "ntfs_upper c = (if c \<ge> 0x61 \<and> c \<le> 0x7A then c - 32 else c)"

fun ntfs_strcasecmp :: "u8 list \<Rightarrow> u8 list \<Rightarrow> int" where
  "ntfs_strcasecmp a b =
     (if cstr_at a 0 \<noteq> 0 \<and> cstr_at b 0 \<noteq> 0 then
        let ca = ntfs_upper (cstr_at a 0); cb = ntfs_upper (cstr_at b 0) in
        if ca \<noteq> cb then sint ca - sint cb else (case (a, b) of (_ # a, _ # b) \<Rightarrow> ntfs_strcasecmp a b | _ \<Rightarrow> 0)
      else uint (cstr_at a 0) - uint (cstr_at b 0))"

section \<open>Records\<close>

text \<open>The loop of \<open>apply_fixup\<close> over the sectors; the fixup array lies in the record itself.\<close>

function fixup_loop :: "nat \<Rightarrow> nat \<Rightarrow> nat \<Rightarrow> nat \<Rightarrow> nat \<Rightarrow> u8 list \<Rightarrow> int \<times> u8 list" where
  "fixup_loop fixup_offset usn fixup_count sectors i rec =
     (if i < fixup_count \<and> i \<le> sectors then
        if le16 rec (i * 512 - 2) \<noteq> usn then (- 1, rec)
        else fixup_loop fixup_offset usn fixup_count sectors (i + 1)
               (put_le16 rec (i * 512 - 2) (le16 rec (fixup_offset + 2 * i)))
      else (0, rec))"
  by pat_completeness auto
termination
  by (relation "measure (\<lambda>(fo, usn, n, s, i, rec). n - i)") auto

declare fixup_loop.simps [simp del]

definition apply_fixup :: "u8 list \<Rightarrow> nat \<Rightarrow> nat \<Rightarrow> nat \<Rightarrow> int \<times> u8 list" where
  "apply_fixup rec fixup_offset fixup_count record_size =
     (let usn = le16 rec fixup_offset; sectors = record_size div 512 in
      if fixup_count < 2 then (0, rec) else fixup_loop fixup_offset usn fixup_count sectors 1 rec)"

definition read_mft_record :: "ntfs_fs \<Rightarrow> nat \<Rightarrow> ntfs_state \<Rightarrow> int \<times> ntfs_state" where
  "read_mft_record fs record_num st =
     (let lba = add64 (nf_mft_lba fs) (mul64 record_num (nf_mft_sectors fs));
          (rc, buf, d) = blk_read (nf_drive_type fs) (nf_drive fs) lba (nf_mft_sectors fs mod 2 ^ 8) (nt_mft st) (nt_disk st);
          st = st\<lparr>nt_mft := buf, nt_disk := d\<rparr>
      in if rc \<noteq> 0 then (- 1, st)
         else if byte_at buf 0 \<noteq> 0x46 \<or> byte_at buf 1 \<noteq> 0x49 \<or> byte_at buf 2 \<noteq> 0x4C \<or> byte_at buf 3 \<noteq> 0x45 then (- 2, st)
         else let (rc, buf) = apply_fixup buf (le16 buf 4) (le16 buf 6) (nf_mft_record_size fs) in (rc, st\<lparr>nt_mft := buf\<rparr>))"

text \<open>The position of the first attribute of a type.\<close>

partial_function (option) find_attr_from :: "u8 list \<Rightarrow> nat \<Rightarrow> nat \<Rightarrow> nat option option" where
  "find_attr_from rec type off =
     (if off + 16 \<le> le32 rec 24 then
        if le32 rec off = NTFS_ATTR_END then Some None
        else if le32 rec (off + 4) = 0 then Some None
        else if le32 rec off = type then Some (Some off)
        else find_attr_from rec type (add32 off (le32 rec (off + 4)))
      else Some None)"

definition find_attr :: "u8 list \<Rightarrow> nat \<Rightarrow> nat option option" where
  "find_attr rec type = find_attr_from rec type (le16 rec 20)"

text \<open>Fields of an attribute at a position.\<close>

definition at_non_resident :: "u8 list \<Rightarrow> nat \<Rightarrow> bool" where "at_non_resident rec at \<longleftrightarrow> byte_at rec (at + 8) \<noteq> 0"
definition at_value_length :: "u8 list \<Rightarrow> nat \<Rightarrow> nat" where "at_value_length rec at = le32 rec (at + 16)"
definition at_value_offset :: "u8 list \<Rightarrow> nat \<Rightarrow> nat" where "at_value_offset rec at = le16 rec (at + 20)"
definition at_runs_offset :: "u8 list \<Rightarrow> nat \<Rightarrow> nat" where "at_runs_offset rec at = le16 rec (at + 32)"
definition at_real_size :: "u8 list \<Rightarrow> nat \<Rightarrow> nat" where "at_real_size rec at = le64 rec (at + 48) mod 2 ^ 32"

section \<open>Data runs\<close>

fun run_field :: "u8 list \<Rightarrow> nat \<Rightarrow> nat \<Rightarrow> nat \<Rightarrow> u32 \<Rightarrow> u32" where
  "run_field buf pos i 0 acc = acc"
| "run_field buf pos i (Suc n) acc = run_field buf pos (i + 1) n (acc OR push_bit (8 * i) (ucast (byte_at buf (pos + i))))"

fun sign_fill :: "nat \<Rightarrow> nat \<Rightarrow> u32 \<Rightarrow> u32" where
  "sign_fill i 0 acc = acc"
| "sign_fill i (Suc n) acc = sign_fill (i + 1) n (acc OR push_bit (8 * i) 0xFF)"

text \<open>The run at \<open>buf[pos]\<close>: the bytes consumed, the length and the signed offset; \<open>None\<close> is the end of the runs.\<close>

definition parse_run :: "u8 list \<Rightarrow> nat \<Rightarrow> (nat \<times> nat \<times> int) option" where
  "parse_run buf pos =
     (let header = byte_at buf pos; len_sz = unat (header AND 0x0F); off_sz = unat (drop_bit 4 header AND 0x0F) in
      if header = 0 then None
      else if len_sz = 0 \<or> len_sz > 4 then None
      else if off_sz > 4 then None
      else
        let len = run_field buf (pos + 1) 0 len_sz 0;
            off = run_field buf (pos + 1 + len_sz) 0 off_sz 0;
            off = (if off_sz > 0 \<and> byte_at buf (pos + len_sz + off_sz) AND 0x80 \<noteq> 0 then sign_fill off_sz (4 - off_sz) off else off)
        in Some (1 + len_sz + off_sz, unat len, sint off))"

text \<open>The inner loop of \<open>read_nonresident\<close>: the part of one run that the request covers. \<open>False\<close> is the early return
  after a failed transfer.\<close>

partial_function (option) read_run :: "ntfs_fs \<Rightarrow> nat \<Rightarrow> nat \<Rightarrow> nat \<Rightarrow> u8 list \<Rightarrow> ntfs_state \<Rightarrow> ((bool \<times> u8 list) \<times> ntfs_state) option" where
  "read_run fs lcn run_byte_off remaining out st =
     (if remaining > 0 then
        let clust_idx = run_byte_off div nf_cluster_size fs; within_clust = run_byte_off mod nf_cluster_size fs;
            lba = add64 (nf_part_lba fs) (mul64 (add32 lcn clust_idx) (nf_spc fs));
            (rc, buf, d) = blk_read (nf_drive_type fs) (nf_drive fs) lba (nf_spc fs) (nt_data st) (nt_disk st);
            st = st\<lparr>nt_data := buf, nt_disk := d\<rparr>
        in if rc \<noteq> 0 then Some ((False, out), st)
           else
             let chunk = min (nf_cluster_size fs - within_clust) remaining
             in read_run fs lcn (run_byte_off + chunk) (remaining - chunk) (out @ bytes_of (nt_data st) within_clust chunk) st
      else Some ((True, out), st))"

text \<open>The loop over the runs at \<open>buf[pos]\<close>; \<open>lcn\<close> is the cluster of the previous run as a 32-bit value.\<close>

partial_function (option) read_runs :: "ntfs_fs \<Rightarrow> u8 list \<Rightarrow> nat \<Rightarrow> nat \<Rightarrow> nat \<Rightarrow> nat \<Rightarrow> nat \<Rightarrow> u8 list \<Rightarrow> ntfs_state \<Rightarrow>
    ((bool \<times> u8 list) \<times> ntfs_state) option" where
  "read_runs fs buf pos prev_lcn vcn_pos offset n out st =
     (if length out < n then
        (case parse_run buf pos of
           None \<Rightarrow> Some ((True, out), st)
         | Some (consumed, run_len, run_off) \<Rightarrow>
             let lcn = nat ((int prev_lcn + run_off) mod 2 ^ 32);
                 run_end = add32 vcn_pos (mul32 run_len (nf_cluster_size fs));
                 read_end = add32 offset n
             in if run_end > offset \<and> vcn_pos < read_end then
                  let copy_start = max offset vcn_pos; copy_end = min read_end run_end
                  in do {
                    ((ok, out), st) \<leftarrow> read_run fs lcn (copy_start - vcn_pos) (copy_end - copy_start) out st;
                    (if \<not> ok then Some ((False, out), st)
                     else read_runs fs buf (pos + consumed) lcn run_end offset n out st)
                  }
                else read_runs fs buf (pos + consumed) lcn run_end offset n out st)
      else Some ((True, out), st))"

text \<open>The result code and the bytes stored; the attribute is at position \<open>at\<close> of \<open>mft_buf\<close>.\<close>

definition read_nonresident :: "ntfs_fs \<Rightarrow> nat \<Rightarrow> nat \<Rightarrow> nat \<Rightarrow> ntfs_state \<Rightarrow> (int \<times> u8 list \<times> ntfs_state) option" where
  "read_nonresident fs at offset n st =
     do {
       ((ok, out), st) \<leftarrow> read_runs fs (nt_mft st) (at + at_runs_offset (nt_mft st) at) 0 0 offset n [] st;
       Some (if ok then int32 (length out) else - 1, out, st)
     }"

section \<open>Directory indexes\<close>

text \<open>Fields of a \<open>$FILE_NAME\<close> attribute.\<close>

definition fn_real_size :: "u8 list \<Rightarrow> nat" where "fn_real_size fn = le64 fn 48 mod 2 ^ 32"
definition fn_flags :: "u8 list \<Rightarrow> u32" where "fn_flags fn = of_nat (le32 fn 56)"
definition fn_namespace :: "u8 list \<Rightarrow> u8" where "fn_namespace fn = byte_at fn 65"
definition fn_name :: "u8 list \<Rightarrow> u8 list" where "fn_name fn = utf16_to_ascii fn 66 (unat (byte_at fn 64)) MAX_FILENAME"

datatype ntfs_walk = Counter int | Match nat "u8 list"

text \<open>\<open>base\<close> is the buffer from the index node header on.\<close>

partial_function (option) walk_entries :: "u8 list \<Rightarrow> nat \<Rightarrow> nat \<Rightarrow> int \<Rightarrow> int \<Rightarrow> u8 list option \<Rightarrow> ntfs_walk option" where
  "walk_entries base stop off counter target_index search_name =
     (if off + 16 \<le> stop then
        let ie = drop off base; entry_length = le16 ie 8; nxt = add32 off entry_length in
        if (of_nat (le32 ie 12) :: u32) AND 0x02 \<noteq> 0 then Some (Counter counter)
        else if entry_length = 0 then Some (Counter counter)
        else if le16 ie 10 \<ge> 66 then
          let fn = drop 16 ie; ascii_name = fn_name fn in
          if fn_namespace fn \<noteq> NTFS_NS_DOS \<and> cstr_at ascii_name 0 \<noteq> 0 \<and> cstr_at ascii_name 0 \<noteq> 0x24 then
            (case search_name of
               Some name \<Rightarrow>
                 if ntfs_strcasecmp ascii_name name = 0 then Some (Match (le64 ie 0 mod 2 ^ 48) fn)
                 else walk_entries base stop nxt counter target_index search_name
             | None \<Rightarrow>
                 if counter = target_index then Some (Match (le64 ie 0 mod 2 ^ 48) fn)
                 else walk_entries base stop nxt (counter + 1) target_index search_name)
          else walk_entries base stop nxt counter target_index search_name
        else walk_entries base stop nxt counter target_index search_name
      else Some (Counter counter))"

definition walk_index_entries :: "u8 list \<Rightarrow> int \<Rightarrow> int \<Rightarrow> u8 list option \<Rightarrow> ntfs_walk option" where
  "walk_index_entries base counter target_index search_name =
     walk_entries base (le32 base 4) (le32 base 0) counter target_index search_name"

text \<open>The loop over the INDX records of \<open>$INDEX_ALLOCATION\<close>; the result of \<open>apply_fixup\<close> is not used.\<close>

partial_function (option) lookup_records :: "ntfs_fs \<Rightarrow> nat \<Rightarrow> nat \<Rightarrow> nat \<Rightarrow> nat \<Rightarrow> int \<Rightarrow> int \<Rightarrow> u8 list option \<Rightarrow> ntfs_state \<Rightarrow>
    ((nat \<times> u8 list) option \<times> ntfs_state) option" where
  "lookup_records fs at rec_size tot off counter target_index search_name st =
     (if add32 off rec_size \<le> tot then
        do {
          (rd, out, st) \<leftarrow> read_nonresident fs at off rec_size st;
          (let st = st\<lparr>nt_indx := overwrite (nt_indx st) out\<rparr>; indx = nt_indx st in
           if rd < int32 rec_size then
             lookup_records fs at rec_size tot (add32 off rec_size) counter target_index search_name st
           else if byte_at indx 0 \<noteq> 0x49 \<or> byte_at indx 1 \<noteq> 0x4E \<or> byte_at indx 2 \<noteq> 0x44 \<or> byte_at indx 3 \<noteq> 0x58 then
             lookup_records fs at rec_size tot (add32 off rec_size) counter target_index search_name st
           else
             let (rc, indx) = apply_fixup indx (le16 indx 4) (le16 indx 6) rec_size; st = st\<lparr>nt_indx := indx\<rparr> in
             do {
               w \<leftarrow> walk_index_entries (drop 24 indx) counter target_index search_name;
               (case w of
                  Match mft fn \<Rightarrow> Some (Some (mft, fn), st)
                | Counter counter \<Rightarrow>
                    lookup_records fs at rec_size tot (add32 off rec_size) counter target_index search_name st)
             })
        }
      else Some (None, st))"

definition ntfs_dir_lookup :: "ntfs_fs \<Rightarrow> nat \<Rightarrow> int \<Rightarrow> u8 list option \<Rightarrow> ntfs_state \<Rightarrow> ((nat \<times> u8 list) option \<times> ntfs_state) option" where
  "ntfs_dir_lookup fs dir_mft target_index search_name st =
     (let (rc, st) = read_mft_record fs dir_mft st in
      if rc \<noteq> 0 then Some (None, st)
      else do {
        ir \<leftarrow> find_attr (nt_mft st) NTFS_ATTR_INDEX_ROOT;
        (case ir of
           None \<Rightarrow> Some (None, st)
         | Some ir_attr \<Rightarrow>
             do {
               w \<leftarrow> walk_index_entries (drop (ir_attr + at_value_offset (nt_mft st) ir_attr + 16) (nt_mft st)) 0 target_index search_name;
               (case w of
                  Match mft fn \<Rightarrow> Some (Some (mft, fn), st)
                | Counter counter \<Rightarrow>
                    do {
                      ia \<leftarrow> find_attr (nt_mft st) NTFS_ATTR_INDEX_ALLOCATION;
                      (case ia of
                         None \<Rightarrow> Some (None, st)
                       | Some ia_attr \<Rightarrow>
                           if \<not> at_non_resident (nt_mft st) ia_attr then Some (None, st)
                           else
                             let rec_size = (if nf_index_record_size fs = 0 then 4096 else nf_index_record_size fs)
                             in lookup_records fs ia_attr rec_size (at_real_size (nt_mft st) ia_attr) 0 counter target_index search_name st)
                    })
             })
      })"

section \<open>The node operations\<close>

definition ntfs_dir_ops :: "node_op list" where "ntfs_dir_ops = [Op_readdir, Op_finddir]"
definition ntfs_file_ops :: "node_op list" where "ntfs_file_ops = [Op_read]"

definition fn_is_dir :: "u8 list \<Rightarrow> bool" where "fn_is_dir fn \<longleftrightarrow> fn_flags fn AND NTFS_FILE_ATTR_DIRECTORY \<noteq> 0"

definition ntfs_readdir :: "nat \<Rightarrow> nat \<Rightarrow> ntfs_state \<Rightarrow> (dirent option \<times> ntfs_state) option" where
  "ntfs_readdir node index st =
     (case vn_private (nt_nodes st ! node) of
        None \<Rightarrow> Some (None, st)
      | Some f \<Rightarrow>
          do {
            (m, st) \<leftarrow> ntfs_dir_lookup (nt_fs st ! f) (vn_inode (nt_nodes st ! node)) (int32 index) None st;
            Some (map_option (\<lambda>(mft, fn).
              \<lparr>de_name = fn_name fn, de_size = fn_real_size fn, de_type = (if fn_is_dir fn then VFS_DIRECTORY else VFS_FILE)\<rparr>) m, st)
          })"

definition ntfs_finddir :: "nat \<Rightarrow> u8 list \<Rightarrow> ntfs_state \<Rightarrow> (nat option \<times> ntfs_state) option" where
  "ntfs_finddir node name st =
     (case vn_private (nt_nodes st ! node) of
        None \<Rightarrow> Some (None, st)
      | Some f \<Rightarrow>
          do {
            (m, st) \<leftarrow> ntfs_dir_lookup (nt_fs st ! f) (vn_inode (nt_nodes st ! node)) (- 1) (Some name) st;
            Some (case m of
                    None \<Rightarrow> (None, st)
                  | Some (mft, fn) \<Rightarrow>
                      (case ntfs_alloc_node st of
                         (None, st) \<Rightarrow> (None, st)
                       | (Some found, st) \<Rightarrow>
                           let nd = \<lparr>vn_name = fn_name fn, vn_type = (if fn_is_dir fn then VFS_DIRECTORY else VFS_FILE),
                                     vn_size = fn_real_size fn, vn_inode = mft mod 2 ^ 32,
                                     vn_ops = (if fn_is_dir fn then ntfs_dir_ops else ntfs_file_ops),
                                     vn_parent = Some node, vn_private = Some f\<rparr>
                           in (Some found, st\<lparr>nt_nodes := (nt_nodes st)[found := nd]\<rparr>)))
          })"

definition ntfs_read :: "nat \<Rightarrow> nat \<Rightarrow> nat \<Rightarrow> ntfs_state \<Rightarrow> (int \<times> u8 list \<times> ntfs_state) option" where
  "ntfs_read node offset n st =
     (case vn_private (nt_nodes st ! node) of
        None \<Rightarrow> Some (- 1, [], st)
      | Some f \<Rightarrow>
          let fs = nt_fs st ! f; (rc, st) = read_mft_record fs (vn_inode (nt_nodes st ! node)) st in
          if rc \<noteq> 0 then Some (- 1, [], st)
          else do {
            da \<leftarrow> find_attr (nt_mft st) NTFS_ATTR_DATA;
            (case da of
               None \<Rightarrow> Some (- 1, [], st)
             | Some at \<Rightarrow>
                 if \<not> at_non_resident (nt_mft st) at then
                   let data_len = at_value_length (nt_mft st) at in
                   if offset \<ge> data_len then Some (0, [], st)
                   else
                     let n = (if add64 offset n > data_len then (data_len - offset) mod 2 ^ 32 else n)
                     in Some (int32 n, bytes_of (nt_mft st) (at + at_value_offset (nt_mft st) at + offset) n, st)
                 else
                   let file_size = at_real_size (nt_mft st) at in
                   if offset \<ge> file_size then Some (0, [], st)
                   else
                     let n = (if add64 offset n > file_size then (file_size - offset) mod 2 ^ 32 else n)
                     in read_nonresident fs at (offset mod 2 ^ 32) n st)
          })"

section \<open>Mounting\<close>

text \<open>A record size in the boot sector: clusters, or the negated logarithm of a number of bytes.\<close>

definition boot_size :: "u8 \<Rightarrow> nat \<Rightarrow> nat" where
  "boot_size v cluster_size =
     (if sint v < 0 then unat (push_bit (nat (- sint v)) 1 :: u32) else mul32 (unat v) cluster_size)"

definition boot_fs :: "u8 list \<Rightarrow> u8 \<Rightarrow> u8 \<Rightarrow> nat \<Rightarrow> ntfs_fs" where
  "boot_fs bs drive_type drive part_lba =
     (let spc = unat (byte_at bs 13); cluster_size = spc * 512;
          mft_record_size = boot_size (byte_at bs 64) cluster_size;
          index_record_size = boot_size (byte_at bs 68) cluster_size
      in \<lparr>nf_drive = drive, nf_drive_type = drive_type, nf_part_lba = part_lba, nf_spc = spc, nf_cluster_size = cluster_size,
          nf_mft_lba = add64 part_lba (mul64 (le64 bs 48) spc), nf_mft_record_size = mft_record_size,
          nf_mft_sectors = (if mft_record_size div 512 = 0 then 2 else mft_record_size div 512),
          nf_index_record_size = (if index_record_size = 0 then 4096 else index_record_size)\<rparr>)"

definition ntfs_mount :: "u8 \<Rightarrow> u8 \<Rightarrow> nat \<Rightarrow> mount_point \<Rightarrow> ntfs_state \<Rightarrow> int \<times> mount_point \<times> ntfs_state" where
  "ntfs_mount drive_type drive part_lba mp st =
     (let (rc, bs, d) = blk_read drive_type drive part_lba 1 (replicate 512 0) (nt_disk st);
          st = st\<lparr>nt_disk := d\<rparr>
      in if rc \<noteq> 0 then (- 1, mp, st)
         else if byte_at bs 3 \<noteq> 0x4E \<or> byte_at bs 4 \<noteq> 0x54 \<or> byte_at bs 5 \<noteq> 0x46 \<or> byte_at bs 6 \<noteq> 0x53 then (- 2, mp, st)
         else if le16 bs 11 \<noteq> 512 then (- 3, mp, st)
         else (case ntfs_alloc_fs st of
                 (None, st) \<Rightarrow> (- 4, mp, st)
               | (Some f, st) \<Rightarrow>
                   let fs = boot_fs bs drive_type drive part_lba;
                       st = st\<lparr>nt_fs := (nt_fs st)[f := fs]\<rparr>;
                       (rc, st) = read_mft_record fs 0 st
                   in if rc \<noteq> 0 then (- 5, mp, st)
                      else (case ntfs_alloc_node st of
                              (None, st) \<Rightarrow> (- 6, mp, st)
                            | (Some root, st) \<Rightarrow>
                                let nd = \<lparr>vn_name = [0x2F], vn_type = VFS_DIRECTORY OR VFS_MOUNTPOINT, vn_size = 0,
                                          vn_inode = NTFS_MFT_ROOT_DIR, vn_ops = ntfs_dir_ops, vn_parent = None,
                                          vn_private = Some f\<rparr>;
                                    st = st\<lparr>nt_nodes := (nt_nodes st)[root := nd]\<rparr>
                                in (0, mp\<lparr>mt_root := Some root, mt_drive := drive, mt_fs_type := FS_NTFS,
                                          mt_part_lba := part_lba, mt_active := True\<rparr>, st))))"

end
