(* ===== verification/Ntfs_Props.thy ===== *)
theory Ntfs_Props
  imports Ntfs Vfs_Props Elf_Props
begin

text \<open>
  What the NTFS driver shows: a record passes \<open>apply_fixup\<close> exactly when the sectors its array covers carry the update
  sequence number, and then has their ends restored; a file reads back, also through the descriptors of the virtual
  file system, as the bytes that the driver's decoding of its data attribute leads to. \<open>Ntfs_Format\<close> shows that these are
  the bytes of the file as the format writes it.
\<close>

section \<open>Fixups\<close>

text \<open>The record with the ends of the sectors \<open>i, ..., m - 1\<close> restored from the array at \<open>fo\<close>.\<close>

fun restore :: "nat \<Rightarrow> nat \<Rightarrow> nat \<Rightarrow> u8 list \<Rightarrow> u8 list" where
  "restore fo i 0 rec = rec"
| "restore fo i (Suc k) rec = restore fo (i + 1) k (put_le16 rec (i * 512 - 2) (le16 rec (fo + 2 * i)))"

lemma length_restore [simp]: "length (restore fo i k rec) = length rec"
  by (induction fo i k rec rule: restore.induct) simp_all

lemma fixup_loop_length: "length (snd (fixup_loop fo usn cnt sectors i rec)) = length rec"
  by (induction fo usn cnt sectors i rec rule: fixup_loop.induct) (subst fixup_loop.simps, simp)

lemma fixup_loop_drop: "0 < i \<Longrightarrow> 512 * sectors \<le> k \<Longrightarrow> drop k (snd (fixup_loop fo usn cnt sectors i rec)) = drop k rec"
proof (induction fo usn cnt sectors i rec rule: fixup_loop.induct)
  case (1 fo usn cnt sectors i rec)
  show ?case
  proof (cases "i < cnt \<and> i \<le> sectors \<and> le16 rec (i * 512 - 2) = usn")
    case True
    then have "i * 512 - 2 + 1 < k" "i * 512 - 2 < k" using "1.prems" by linarith+
    then have "drop k (put_le16 rec (i * 512 - 2) v) = drop k rec" for v by (simp add: put_le16_def)
    with True "1.IH" "1.prems" show ?thesis by (subst fixup_loop.simps) simp
  qed (subst fixup_loop.simps, auto)
qed

lemma apply_fixup_drop: "rsz \<le> k \<Longrightarrow> drop k (snd (apply_fixup rec fo cnt rsz)) = drop k rec"
  using fixup_loop_drop [of 1 "rsz div 512" k] by (auto simp: apply_fixup_def Let_def le_trans [OF times_div_less_eq_dividend])

lemma apply_fixup_length: "length (snd (apply_fixup rec fo cnt rsz)) = length rec"
  by (simp add: apply_fixup_def Let_def fixup_loop_length)

lemma fixup_loop_spec:
  assumes "fo + 2 * m \<le> 510" "m \<le> cnt" "m \<le> sectors + 1" "cnt \<le> m \<or> sectors + 1 \<le> m"
  shows "0 < i \<Longrightarrow> i \<le> m \<Longrightarrow>
    (fst (fixup_loop fo usn cnt sectors i rec) = 0 \<longleftrightarrow> (\<forall>j. i \<le> j \<longrightarrow> j < m \<longrightarrow> le16 rec (j * 512 - 2) = usn)) \<and>
    (fst (fixup_loop fo usn cnt sectors i rec) = 0 \<longrightarrow> snd (fixup_loop fo usn cnt sectors i rec) = restore fo i (m - i) rec)"
proof (induction "m - i" arbitrary: i rec)
  case 0
  then show ?case using assms by (subst (1 2 3) fixup_loop.simps) auto
next
  case (Suc k)
  then have i: "i < m" "i < cnt" "i \<le> sectors" using assms by linarith+
  show ?case
  proof (cases "le16 rec (i * 512 - 2) = usn")
    case False
    then have "fixup_loop fo usn cnt sectors i rec = (- 1, rec)" using i by (subst fixup_loop.simps) simp
    with False i(1) show ?thesis by auto
  next
    case True
    let ?r = "put_le16 rec (i * 512 - 2) (le16 rec (fo + 2 * i))"
    have s: "fixup_loop fo usn cnt sectors i rec = fixup_loop fo usn cnt sectors (i + 1) ?r"
      using True i by (subst fixup_loop.simps) simp
    have e: "le16 ?r (j * 512 - 2) = le16 rec (j * 512 - 2)" if "i + 1 \<le> j" for j
    proof -
      have "i * 512 - 2 + 2 \<le> j * 512 - 2" using that Suc.prems by linarith
      then show ?thesis by (intro le16_put_other) simp
    qed
    have "(\<forall>j. i + 1 \<le> j \<longrightarrow> j < m \<longrightarrow> le16 ?r (j * 512 - 2) = usn) \<longleftrightarrow> (\<forall>j. i \<le> j \<longrightarrow> j < m \<longrightarrow> le16 rec (j * 512 - 2) = usn)"
      using True e by (metis Suc_eq_plus1 Suc_leD le_neq_implies_less less_eq_Suc_le)
    moreover have "restore fo i (m - i) rec = restore fo (i + 1) (m - (i + 1)) ?r" using Suc.hyps(2) by (metis Suc_diff_le Suc_eq_plus1 diff_Suc_Suc i(1) less_eq_Suc_le restore.simps(2))
    ultimately show ?thesis unfolding s using Suc.hyps(1) [of "i + 1" ?r] Suc.hyps(2) i(1) Suc.prems by auto
  qed
qed

text \<open>The last two bytes of sector \<open>j\<close>, entry \<open>j\<close> of the array at \<open>fo\<close> (entry 0 is the update sequence number, entry \<open>j + 1\<close> what
  sector \<open>j\<close> ends with), and the record whose first \<open>m\<close> sectors end with their entries.\<close>

definition sector_end :: "u8 list \<Rightarrow> nat \<Rightarrow> u8 list" where
  "sector_end rec j = take 2 (drop (512 * j + 510) rec)"

definition usa_entry :: "nat \<Rightarrow> u8 list \<Rightarrow> nat \<Rightarrow> u8 list" where
  "usa_entry fo rec j = take 2 (drop (fo + 2 * j) rec)"

definition restored :: "nat \<Rightarrow> nat \<Rightarrow> u8 list \<Rightarrow> u8 list" where
  "restored fo m rec =
     map (\<lambda>i. if i div 512 < m \<and> 510 \<le> i mod 512 then usa_entry fo rec (i div 512 + 1) ! (i mod 512 - 510) else rec ! i) [0 ..< length rec]"

lemma take2_drop: "i + 2 \<le> length xs \<Longrightarrow> take 2 (drop i xs) = [xs ! i, xs ! (i + 1)]"
  by (intro nth_equalityI) (auto simp: less_Suc_eq numeral_2_eq_2)

lemma unat_byte_less: "unat (b :: u8) < 256"
  using unsigned_less [of b] by simp

lemma le16_slice:
  assumes "i + 2 \<le> length a" "j + 2 \<le> length b"
  shows "le16 a i = le16 b j \<longleftrightarrow> take 2 (drop i a) = take 2 (drop j b)"
proof -
  have "x + 256 * y = x' + 256 * y' \<longleftrightarrow> x = x' \<and> y = y'" if "x < 256" "x' < 256" for x y x' y' :: nat
  proof
    assume e: "x + 256 * y = x' + 256 * y'"
    then have "(x + 256 * y) mod 256 = (x' + 256 * y') mod 256" "(x + 256 * y) div 256 = (x' + 256 * y') div 256" by simp_all
    then show "x = x' \<and> y = y'" using that by simp
  qed simp
  from this [OF unat_byte_less unat_byte_less] show ?thesis
    using assms by (simp add: le16_def byte_at_def take2_drop word_unat_eq_iff)
qed

lemma put_le16_le16: "q + 2 \<le> length rec \<Longrightarrow> put_le16 buf p (le16 rec q) = buf[p := rec ! q, p + 1 := rec ! (q + 1)]"
proof -
  assume q: "q + 2 \<le> length rec"
  have "(of_nat (unat b + 2 ^ 8 * n) :: u8) = b" for b :: u8 and n
    unfolding word_unat_eq_iff by (simp only: unat_of_nat) (simp add: unat_byte_less)
  moreover have "(unat b + 2 ^ 8 * n) div 2 ^ 8 = n" for b :: u8 and n using unat_byte_less [of b] by simp
  moreover have "(of_nat (unat b) :: u8) = b" for b :: u8 by simp
  ultimately show ?thesis using q unfolding put_le16_def le16_def by (simp only:) (simp add: byte_at_def)
qed

lemma sector_pos: "r < 512 \<Longrightarrow> x = 512 * i + r \<longleftrightarrow> x div 512 = i \<and> x mod 512 = r" for x :: nat
  using mult_div_mod_eq [of 512 x] by auto

lemma restore_nth:
  "0 < i \<Longrightarrow> fo + 2 * (i + k) \<le> 510 \<Longrightarrow> 512 * (i + k - 1) \<le> length rec \<Longrightarrow> 510 \<le> length rec \<Longrightarrow> x < length rec \<Longrightarrow>
    restore fo i k rec ! x = (if i \<le> x div 512 + 1 \<and> x div 512 + 1 < i + k \<and> 510 \<le> x mod 512
      then rec ! (fo + 2 * (x div 512 + 1) + (x mod 512 - 510)) else rec ! x)"
proof (induction k arbitrary: i rec)
  case (Suc k)
  let ?p = "i * 512 - 2" and ?q = "fo + 2 * i"
  let ?r = "rec[?p := rec ! ?q, ?p + 1 := rec ! (?q + 1)]"
  have r: "restore fo i (Suc k) rec = restore fo (i + 1) k ?r" using Suc.prems by (simp add: put_le16_le16)
  have p: "?p + 1 < length rec" "510 \<le> ?p" using Suc.prems by (simp_all add: algebra_simps)
  have x: "x = ?p \<longleftrightarrow> x div 512 + 1 = i \<and> x mod 512 = 510" "x = ?p + 1 \<longleftrightarrow> x div 512 + 1 = i \<and> x mod 512 = 511"
    using Suc.prems(1) sector_pos [of 510 x "i - 1"] sector_pos [of 511 x "i - 1"] by (cases i; auto simp: algebra_simps)+
  have m: "x mod 512 < 512" by simp
  have lt: "fo + 2 * a + b < 510" if "a \<le> i + k" "b \<le> 1" for a b using that Suc.prems(2) by simp
  have IH: "restore fo (i + 1) k ?r ! x = (if i + 1 \<le> x div 512 + 1 \<and> x div 512 + 1 < i + 1 + k \<and> 510 \<le> x mod 512
      then ?r ! (fo + 2 * (x div 512 + 1) + (x mod 512 - 510)) else ?r ! x)"
    using Suc.prems by (intro Suc.IH) simp_all
  show ?case
  proof (cases "i + 1 \<le> x div 512 + 1 \<and> x div 512 + 1 < i + 1 + k \<and> 510 \<le> x mod 512")
    case True
    then have "x div 512 + 1 \<le> i + k" by simp
    moreover have "x mod 512 - 510 \<le> 1" using m by linarith
    ultimately have "fo + 2 * (x div 512 + 1) + (x mod 512 - 510) < 510" by (rule lt)
    then have "?r ! (fo + 2 * (x div 512 + 1) + (x mod 512 - 510)) = rec ! (fo + 2 * (x div 512 + 1) + (x mod 512 - 510))" using p by simp
    then show ?thesis using IH True unfolding r by simp
  next
    case False
    have "?r ! x = (if x div 512 + 1 = i \<and> 510 \<le> x mod 512 then rec ! (fo + 2 * (x div 512 + 1) + (x mod 512 - 510)) else rec ! x)"
    proof (cases "x div 512 + 1 = i \<and> 510 \<le> x mod 512")
      case True
      then consider "x = ?p" | "x = ?p + 1" using x m by linarith
      then show ?thesis
      proof cases
        case 1
        then have "?r ! x = rec ! ?q" using p(1) by (simp only: nth_list_update_eq nth_list_update_neq length_list_update)
        then show ?thesis using True 1 x by simp
      next
        case 2
        then have "?r ! x = rec ! (?q + 1)" using p(1) by (simp only: nth_list_update_eq length_list_update)
        then show ?thesis using True 2 x by simp
      qed
    next
      case False
      then have "x \<noteq> ?p" "x \<noteq> ?p + 1" using x by linarith+
      then have "?r ! x = rec ! x" by (simp only: nth_list_update_neq)
      then show ?thesis unfolding if_not_P [OF False] .
    qed
    moreover have "restore fo (i + 1) k ?r ! x = ?r ! x" using IH unfolding if_not_P [OF False] .
    ultimately show ?thesis unfolding r by (simp only:) (rule if_cong; use False in auto)
  qed
qed auto

lemma all_from_one: "(\<forall>j. 1 \<le> j \<longrightarrow> j < m + 1 \<longrightarrow> P j) \<longleftrightarrow> (\<forall>j < m. P (Suc j))"
proof safe
  fix j assume "\<forall>j < m. P (Suc j)" "1 \<le> j" "j < m + 1"
  then show "P j" by (cases j) auto
qed simp

lemma apply_fixup_spec:
  fixes rec fo cnt rsz
  defines "m \<equiv> min (cnt - 1) (rsz div 512)"
  assumes "fo + 2 * m + 2 \<le> 510" "512 * m \<le> length rec" "510 \<le> length rec"
  shows "fst (apply_fixup rec fo cnt rsz) = 0 \<longleftrightarrow> (\<forall>j < m. sector_end rec j = usa_entry fo rec 0)"
    "fst (apply_fixup rec fo cnt rsz) = 0 \<Longrightarrow> snd (apply_fixup rec fo cnt rsz) = restored fo m rec"
proof -
  have e: "(\<forall>j. 1 \<le> j \<longrightarrow> j < m + 1 \<longrightarrow> le16 rec (j * 512 - 2) = le16 rec fo) \<longleftrightarrow> (\<forall>j < m. sector_end rec j = usa_entry fo rec 0)"
  proof -
    have "le16 rec (Suc j * 512 - 2) = le16 rec fo \<longleftrightarrow> sector_end rec j = usa_entry fo rec 0" if "j < m" for j
      using that assms(2-4) le16_slice [of "512 * j + 510" rec fo rec] by (simp add: sector_end_def usa_entry_def algebra_simps)
    then show ?thesis unfolding all_from_one by blast
  qed
  have n: "restore fo 1 m rec = restored fo m rec"
  proof (rule nth_equalityI)
    fix x assume "x < length (restore fo 1 m rec)"
    then have x: "x < length rec" by simp
    have m: "x mod 512 < 512" by simp
    have "usa_entry fo rec (x div 512 + 1) ! (x mod 512 - 510) = rec ! (fo + 2 * (x div 512 + 1) + (x mod 512 - 510))"
      if "x div 512 < m" "510 \<le> x mod 512"
      using that assms(2,4) m by (simp add: usa_entry_def)
    then show "restore fo 1 m rec ! x = restored fo m rec ! x"
      using restore_nth [of 1 fo m rec x] x assms(2-4) by (auto simp: restored_def)
  qed (simp add: restored_def)
  have "(fst (apply_fixup rec fo cnt rsz) = 0 \<longleftrightarrow> (\<forall>j < m. sector_end rec j = usa_entry fo rec 0)) \<and>
      (fst (apply_fixup rec fo cnt rsz) = 0 \<longrightarrow> snd (apply_fixup rec fo cnt rsz) = restored fo m rec)"
  proof (cases "cnt < 2")
    case True
    then have "m = 0" by (auto simp: m_def)
    then show ?thesis using True by (simp add: apply_fixup_def restored_def map_nth)
  next
    case False
    let ?F = "fixup_loop fo (le16 rec fo) cnt (rsz div 512) 1 rec"
    have "(fst ?F = 0 \<longleftrightarrow> (\<forall>j. 1 \<le> j \<longrightarrow> j < m + 1 \<longrightarrow> le16 rec (j * 512 - 2) = le16 rec fo)) \<and> (fst ?F = 0 \<longrightarrow> snd ?F = restore fo 1 (m + 1 - 1) rec)"
      by (rule fixup_loop_spec) (use False assms(2) in \<open>auto simp: m_def min_def\<close>)
    moreover have "apply_fixup rec fo cnt rsz = ?F" using False by (simp add: apply_fixup_def)
    ultimately show ?thesis unfolding e using n by simp
  qed
  then show "fst (apply_fixup rec fo cnt rsz) = 0 \<longleftrightarrow> (\<forall>j < m. sector_end rec j = usa_entry fo rec 0)"
    "fst (apply_fixup rec fo cnt rsz) = 0 \<Longrightarrow> snd (apply_fixup rec fo cnt rsz) = restored fo m rec" by blast+
qed

text \<open>C39: \<open>apply_fixup\<close> on a record with an array of \<open>cnt\<close> words in its first sector looks at the first \<open>cnt - 1\<close> sectors (at all of
  them when there are no more). It succeeds exactly when each of these ends in the update sequence number, and then
  exactly their ends are replaced by the values saved in the array. So a record whose array has a word for every
  sector is refused when any sector belongs to another write; sectors that a shorter array does not cover are not
  looked at, and with an array of less than two words every record is accepted as it is.
\<close>

theorem apply_fixup_exact:
  assumes "fo + 2 * min (cnt - 1) (rsz div 512) + 2 \<le> 510" "512 * min (cnt - 1) (rsz div 512) \<le> length rec" "510 \<le> length rec"
  shows "(fst (apply_fixup rec fo cnt rsz) = 0 \<longleftrightarrow> (\<forall>j < min (cnt - 1) (rsz div 512). sector_end rec j = usa_entry fo rec 0)) \<and>
    (fst (apply_fixup rec fo cnt rsz) = 0 \<longrightarrow> snd (apply_fixup rec fo cnt rsz) = restored fo (min (cnt - 1) (rsz div 512)) rec)"
  using apply_fixup_spec [OF assms] by blast

text \<open>A record of two sectors, number 7, the saved ends 1 and 2.\<close>

definition fixup_example :: "u8 list" where
  "fixup_example = replicate 48 0 @ [7, 0, 1, 0, 2, 0] @ replicate 456 0 @ [7, 0] @ replicate 510 0 @ [7, 0]"

lemma fixup_example_fields: "le16 fixup_example 48 = 7" "le16 fixup_example 510 = 7" "le16 fixup_example 1022 = 7"
  by (simp_all add: le16_def fixup_example_def byte_at_concat) (simp_all add: byte_at_def nth_append)

theorem apply_fixup_exact_witness:
  "fst (apply_fixup fixup_example 48 3 1024) = 0 \<and> snd (apply_fixup fixup_example 48 3 1024) = restored 48 2 fixup_example"
proof -
  have l: "length fixup_example = 1024" by (simp add: fixup_example_def)
  have "sector_end fixup_example j = usa_entry 48 fixup_example 0" if "j < 2" for j
    using that le16_slice [of "512 * j + 510" fixup_example 48 fixup_example] fixup_example_fields l
    by (auto simp: sector_end_def usa_entry_def less_Suc_eq numeral_2_eq_2)
  moreover have "min (3 - 1) (1024 div 512) = (2 :: nat)" by simp
  ultimately show ?thesis using apply_fixup_exact [of 48 3 1024 fixup_example] l by simp
qed

section \<open>Clusters and data runs\<close>

definition ntfs_geometry :: "ntfs_fs \<Rightarrow> bool" where
  "ntfs_geometry fs \<longleftrightarrow> 1 \<le> nf_spc fs \<and> nf_spc fs \<le> 8 \<and> nf_cluster_size fs = 512 * nf_spc fs \<and>
     1 \<le> nf_mft_sectors fs \<and> nf_mft_sectors fs \<le> 8 \<and> nf_mft_record_size fs \<le> 512 * nf_mft_sectors fs"

definition ntfs_calm :: "ntfs_state \<Rightarrow> bool" where
  "ntfs_calm st \<longleftrightarrow> disk_ok (nt_disk st) \<and> healthy (nt_disk st)"

definition ntfs_cluster :: "ntfs_fs \<Rightarrow> disk \<Rightarrow> nat \<Rightarrow> u8 list" where
  "ntfs_cluster fs d c = read_sectors d (nf_drive_type fs) (nf_drive fs) (add64 (nf_part_lba fs) (mul64 c (nf_spc fs))) (nf_spc fs)"

text \<open>The bytes of a run of \<open>len\<close> clusters from \<open>lcn\<close> on.\<close>

definition run_bytes :: "ntfs_fs \<Rightarrow> disk \<Rightarrow> nat \<Rightarrow> nat \<Rightarrow> u8 list" where
  "run_bytes fs d lcn len = concat (map (\<lambda>i. ntfs_cluster fs d (add32 lcn i)) [0 ..< len])"

lemma length_ntfs_cluster: "ntfs_geometry fs \<Longrightarrow> disk_ok d \<Longrightarrow> length (ntfs_cluster fs d c) = nf_cluster_size fs"
  by (simp add: ntfs_cluster_def length_read_sectors ntfs_geometry_def)

lemma length_run_bytes: "ntfs_geometry fs \<Longrightarrow> disk_ok d \<Longrightarrow> length (run_bytes fs d lcn len) = len * nf_cluster_size fs"
  by (induction len) (simp_all add: run_bytes_def length_ntfs_cluster)

lemma ntfs_bytes_cong:
  assumes "dk_sec d' = dk_sec d"
  shows "ntfs_cluster fs d' = ntfs_cluster fs d" "run_bytes fs d' = run_bytes fs d"
proof -
  show c: "ntfs_cluster fs d' = ntfs_cluster fs d" using assms by (simp add: fun_eq_iff ntfs_cluster_def read_sectors_def)
  show "run_bytes fs d' = run_bytes fs d" by (intro ext) (simp only: run_bytes_def c)
qed

text \<open>What reading leaves alone; \<open>mft_buf\<close> keeps its contents once the record is in it.\<close>

definition ntfs_quiet :: "ntfs_state \<Rightarrow> ntfs_state \<Rightarrow> bool" where
  "ntfs_quiet st st' \<longleftrightarrow> nt_nodes st' = nt_nodes st \<and> nt_fs st' = nt_fs st \<and> dk_sec (nt_disk st') = dk_sec (nt_disk st) \<and> ntfs_calm st'"

lemma ntfs_blk_read_calm:
  assumes "ntfs_calm st" "n \<le> 8"
  shows "\<exists>d. blk_read ty drv lba n buf (nt_disk st) = (0, overwrite buf (read_sectors (nt_disk st) ty drv lba n), d) \<and>
    dk_sec d = dk_sec (nt_disk st) \<and> disk_ok d \<and> healthy d"
proof -
  have "n \<le> blk_max ty" using assms(2) by (simp add: blk_max_def)
  with assms(1) show ?thesis by (auto simp: ntfs_calm_def blk_read_healthy disk_ok_def)
qed

lemma read_run_spec:
  assumes g: "ntfs_geometry fs"
  shows "ntfs_calm st \<Longrightarrow> ro + n \<le> len * nf_cluster_size fs \<Longrightarrow>
    \<exists>st'. read_run fs lcn ro n out st = Some ((True, out @ take n (drop ro (run_bytes fs (nt_disk st) lcn len))), st') \<and>
      ntfs_quiet st st' \<and> nt_mft st' = nt_mft st"
proof (induction n arbitrary: ro out st rule: less_induct)
  case (less n)
  let ?cs = "nf_cluster_size fs" and ?R = "run_bytes fs (nt_disk st) lcn len"
  show ?case
  proof (cases "n = 0")
    case True
    then show ?thesis using less.prems by (subst read_run.simps) (simp add: ntfs_quiet_def)
  next
    case False
    let ?i = "ro div ?cs" and ?o = "ro mod ?cs"
    define chunk where "chunk = min (?cs - ?o) n"
    have cs: "0 < ?cs" using g by (simp add: ntfs_geometry_def)
    have i: "?i < len" using less.prems(2) False by (simp add: less_mult_imp_div_less)
    have o: "?o < ?cs" "?cs * ?i + ?o = ro" using cs by simp_all
    have ch: "?o + chunk \<le> ?cs" "0 < chunk" "chunk \<le> n" using o(1) False by (auto simp: chunk_def)
    have spc: "nf_spc fs \<le> 8" using g by (simp add: ntfs_geometry_def)
    let ?c = "ntfs_cluster fs (nt_disk st) (add32 lcn ?i)"
    obtain d where d: "blk_read (nf_drive_type fs) (nf_drive fs) (add64 (nf_part_lba fs) (mul64 (add32 lcn ?i) (nf_spc fs))) (nf_spc fs) (nt_data st) (nt_disk st) =
        (0, overwrite (nt_data st) ?c, d)" "dk_sec d = dk_sec (nt_disk st)" "disk_ok d" "healthy d"
      using ntfs_blk_read_calm [OF less.prems(1) spc] unfolding ntfs_cluster_def by blast
    let ?s = "st\<lparr>nt_data := overwrite (nt_data st) ?c, nt_disk := d\<rparr>"
    have dk: "disk_ok (nt_disk st)" using less.prems(1) by (simp add: ntfs_calm_def)
    have piece: "bytes_of (overwrite (nt_data st) ?c) ?o chunk = take chunk (drop ro ?R)"
    proof -
      have "bytes_of (overwrite (nt_data st) ?c) ?o chunk = take chunk (drop ?o ?c)"
        using ch(1) length_ntfs_cluster [OF g dk] by (subst bytes_of_take) (simp_all add: overwrite_def)
      also have "\<dots> = take chunk (drop (?cs * ?i + ?o) ?R)"
        unfolding run_bytes_def by (rule concat_slice [OF _ i ch(1), symmetric]) (simp add: length_ntfs_cluster g dk)
      finally show ?thesis unfolding o(2) .
    qed
    have R: "run_bytes fs (nt_disk ?s) lcn len = ?R" using ntfs_bytes_cong(2) [OF d(2)] by simp
    have "\<exists>st'. read_run fs lcn (ro + chunk) (n - chunk) (out @ take chunk (drop ro ?R)) ?s =
        Some ((True, (out @ take chunk (drop ro ?R)) @ take (n - chunk) (drop (ro + chunk) ?R)), st') \<and> ntfs_quiet ?s st' \<and> nt_mft st' = nt_mft ?s"
      unfolding R [symmetric] using ch less.prems(2) d(3,4) by (intro less.IH) (simp_all add: ntfs_calm_def)
    then obtain st' where st': "read_run fs lcn (ro + chunk) (n - chunk) (out @ take chunk (drop ro ?R)) ?s =
        Some ((True, (out @ take chunk (drop ro ?R)) @ take (n - chunk) (drop (ro + chunk) ?R)), st')" "ntfs_quiet ?s st'" "nt_mft st' = nt_mft st" by auto
    have j: "(out @ take chunk (drop ro ?R)) @ take (n - chunk) (drop (ro + chunk) ?R) = out @ take n (drop ro ?R)"
      using take_add [of chunk "n - chunk" "drop ro ?R"] ch(3) by (simp add: add.commute)
    have "read_run fs lcn ro n out st = read_run fs lcn (ro + chunk) (n - chunk) (out @ take chunk (drop ro ?R)) ?s"
      using False by (subst read_run.simps) (simp add: Let_def d(1) piece chunk_def [symmetric])
    then show ?thesis using st' d(2) unfolding j by (auto simp: ntfs_quiet_def)
  qed
qed

text \<open>The runs from a position on: the cluster and length of each, the previous cluster being \<open>prev\<close>.\<close>

lemma parse_run_advance: "parse_run buf pos = Some (c, len, off) \<Longrightarrow> length buf - (pos + c) < length buf - pos"
  by (auto simp: parse_run_def Let_def byte_at_def split: if_splits)

function runs_of :: "u8 list \<Rightarrow> nat \<Rightarrow> nat \<Rightarrow> (nat \<times> nat) list" where
  "runs_of buf pos prev =
     (case parse_run buf pos of
        None \<Rightarrow> []
      | Some (c, len, off) \<Rightarrow> let lcn = nat ((int prev + off) mod 2 ^ 32) in (lcn, len) # runs_of buf (pos + c) lcn)"
  by pat_completeness auto
termination
  by (relation "measure (\<lambda>(buf, pos, prev). length buf - pos)") (auto dest: parse_run_advance)

declare runs_of.simps [simp del]

definition runs_data :: "ntfs_fs \<Rightarrow> disk \<Rightarrow> (nat \<times> nat) list \<Rightarrow> u8 list" where
  "runs_data fs d rs = concat (map (\<lambda>(lcn, len). run_bytes fs d lcn len) rs)"

lemma runs_data_simps [simp]: "runs_data fs d [] = []" "runs_data fs d ((lcn, len) # rs) = run_bytes fs d lcn len @ runs_data fs d rs"
  by (simp_all add: runs_data_def)

lemma runs_data_cong:
  assumes "dk_sec d' = dk_sec d"
  shows "runs_data fs d' = runs_data fs d"
  by (intro ext) (simp only: runs_data_def ntfs_bytes_cong [OF assms])

lemma take_clip: "min j (length xs) = min k (length xs) \<Longrightarrow> take j xs = take k xs"
proof -
  assume a: "min j (length xs) = min k (length xs)"
  have "take i xs = take (min i (length xs)) xs" for i by (simp add: min_def)
  then show "take j xs = take k xs" using a by metis
qed

lemma take_drop_append:
  "take n (drop off (P @ R)) = take n (drop off P) @
     take (min (off + n) (length P + length R) - max off (length P)) (drop (max off (length P) - length P) R)"
proof -
  have "drop (max off (length P) - length P) R = drop (off - length P) R" by (simp add: max_def)
  moreover have "take (n - (length P - off)) (drop (off - length P) R) =
      take (min (off + n) (length P + length R) - max off (length P)) (drop (off - length P) R)"
    by (rule take_clip) (auto simp: min_def max_def)
  ultimately show ?thesis by simp
qed

lemma read_runs_spec:
  assumes g: "ntfs_geometry fs"
  shows "ntfs_calm st \<Longrightarrow> vcn + length (runs_data fs (nt_disk st) (runs_of buf pos prev)) < 2 ^ 32 \<Longrightarrow> offset + n < 2 ^ 32 \<Longrightarrow> length P = vcn \<Longrightarrow>
    \<exists>st'. read_runs fs buf pos prev vcn offset n (take n (drop offset P)) st =
      Some ((True, take n (drop offset (P @ runs_data fs (nt_disk st) (runs_of buf pos prev)))), st') \<and> ntfs_quiet st st' \<and> nt_mft st' = nt_mft st"
proof (induction buf pos prev arbitrary: vcn P st rule: runs_of.induct)
  case (1 buf pos prev)
  let ?out = "take n (drop offset P)"
  show ?case
  proof (cases "length ?out < n")
    case False
    then have "n \<le> length (drop offset P)" by simp
    then have "take n (drop offset (P @ R)) = ?out" for R by simp
    with False show ?thesis using "1.prems" by (subst read_runs.simps) (simp add: ntfs_quiet_def)
  next
    case True
    show ?thesis
    proof (cases "parse_run buf pos")
      case None
      then show ?thesis using True "1.prems" by (subst read_runs.simps, subst runs_of.simps) (simp add: ntfs_quiet_def)
    next
      case (Some x)
      then obtain c len off where x: "parse_run buf pos = Some (c, len, off)" by (cases x) auto
      define lcn where "lcn = nat ((int prev + off) mod 2 ^ 32)"
      let ?R = "run_bytes fs (nt_disk st) lcn len" and ?T = "runs_data fs (nt_disk st) (runs_of buf (pos + c) lcn)"
      have ro: "runs_of buf pos prev = (lcn, len) # runs_of buf (pos + c) lcn" using x by (subst runs_of.simps) (simp add: lcn_def Let_def)
      have dk: "disk_ok (nt_disk st)" using "1.prems"(1) by (simp add: ntfs_calm_def)
      have lR: "length ?R = len * nf_cluster_size fs" by (rule length_run_bytes [OF g dk])
      have sz: "vcn + len * nf_cluster_size fs + length ?T < 2 ^ 32" using "1.prems"(2) lR by (simp add: ro)
      define rend where "rend = vcn + len * nf_cluster_size fs"
      have re: "add32 vcn (mul32 len (nf_cluster_size fs)) = rend" "add32 offset n = offset + n"
        using sz "1.prems"(3) by (simp_all add: add32_def mul32_def rend_def)
      let ?cs = "max offset vcn" and ?ce = "min (offset + n) rend"
      have app: "take n (drop offset (P @ ?R)) = ?out @ take (?ce - ?cs) (drop (?cs - vcn) ?R)"
        using take_drop_append [of n offset P ?R] "1.prems"(4) lR by (simp add: rend_def)
      note step = read_runs.simps [of fs buf pos prev vcn offset n ?out st]
      have IH: "\<exists>st'. read_runs fs buf (pos + c) lcn rend offset n (take n (drop offset (P @ ?R))) s =
          Some ((True, take n (drop offset ((P @ ?R) @ ?T))), st') \<and> ntfs_quiet s st' \<and> nt_mft st' = nt_mft s"
        if s: "ntfs_quiet st s" for s
      proof -
        have q: "ntfs_calm s" "runs_data fs (nt_disk s) = runs_data fs (nt_disk st)"
          using s runs_data_cong [of "nt_disk s" "nt_disk st" fs] by (simp_all add: ntfs_quiet_def)
        show ?thesis using "1.IH" [OF x refl refl lcn_def, of s rend "P @ ?R"] q sz lR "1.prems"(3,4) by (simp add: rend_def)
      qed
      show ?thesis
      proof (cases "rend > offset \<and> vcn < offset + n")
        case ov: True
        have "?cs - vcn + (?ce - ?cs) \<le> rend - vcn" using ov by (auto simp: min_def max_def)
        then have "?cs - vcn + (?ce - ?cs) \<le> len * nf_cluster_size fs" by (simp add: rend_def)
        from read_run_spec [OF g "1.prems"(1) this, of lcn ?out] obtain s where
          s: "read_run fs lcn (?cs - vcn) (?ce - ?cs) ?out st = Some ((True, take n (drop offset (P @ ?R))), s)" "ntfs_quiet st s" "nt_mft s = nt_mft st"
          unfolding app by blast
        have "read_runs fs buf pos prev vcn offset n ?out st = read_runs fs buf (pos + c) lcn rend offset n (take n (drop offset (P @ ?R))) s"
          using True ov s(1) unfolding step x by (simp only: if_True option.case prod.case Let_def re lcn_def [symmetric]) simp
        then show ?thesis using IH [OF s(2)] s(2,3) unfolding ro by (auto simp: ntfs_quiet_def)
      next
        case nov: False
        have z: "?ce - ?cs = 0" using nov by (auto simp: min_def max_def)
        have e1: "take n (drop offset (P @ ?R)) = ?out" unfolding app z by simp
        have q: "ntfs_quiet st st" using "1.prems"(1) by (simp add: ntfs_quiet_def)
        have e2: "read_runs fs buf pos prev vcn offset n ?out st = read_runs fs buf (pos + c) lcn rend offset n ?out st"
          using True nov unfolding step x by (simp only: if_True option.case prod.case Let_def re lcn_def [symmetric] if_False)
        from IH [OF q, unfolded e1] show ?thesis unfolding ro runs_data_simps e2 append_assoc .
      qed
    qed
  qed
qed


section \<open>Files\<close>

text \<open>The sectors of a record on the device, and \<open>mft_buf\<close> after \<open>read_mft_record\<close>: the record with its fixups applied
  over what the buffer held.\<close>

definition mft_sectors :: "ntfs_fs \<Rightarrow> disk \<Rightarrow> nat \<Rightarrow> u8 list" where
  "mft_sectors fs d num =
     read_sectors d (nf_drive_type fs) (nf_drive fs) (add64 (nf_mft_lba fs) (mul64 num (nf_mft_sectors fs))) (nf_mft_sectors fs)"

definition mft_image :: "ntfs_fs \<Rightarrow> ntfs_state \<Rightarrow> nat \<Rightarrow> int \<times> u8 list" where
  "mft_image fs s num =
     (let buf = overwrite (nt_mft s) (mft_sectors fs (nt_disk s) num)
      in apply_fixup buf (le16 buf 4) (le16 buf 6) (nf_mft_record_size fs))"

definition mft_record_ok :: "ntfs_fs \<Rightarrow> ntfs_state \<Rightarrow> nat \<Rightarrow> bool" where
  "mft_record_ok fs s num \<longleftrightarrow> take 4 (mft_sectors fs (nt_disk s) num) = [0x46, 0x49, 0x4C, 0x45] \<and> fst (mft_image fs s num) = 0"

lemma length_mft_sectors: "disk_ok d \<Longrightarrow> length (mft_sectors fs d num) = 512 * nf_mft_sectors fs"
  by (simp add: mft_sectors_def length_read_sectors)

text \<open>Two states that agree on the device and on the part of \<open>mft_buf\<close> behind the records.\<close>

definition ntfs_same :: "ntfs_fs \<Rightarrow> ntfs_state \<Rightarrow> ntfs_state \<Rightarrow> bool" where
  "ntfs_same fs s s' \<longleftrightarrow> ntfs_quiet s s' \<and> drop (512 * nf_mft_sectors fs) (nt_mft s') = drop (512 * nf_mft_sectors fs) (nt_mft s)"

lemma mft_image_same:
  assumes "disk_ok (nt_disk s)" "ntfs_same fs s s'"
  shows "mft_image fs s' = mft_image fs s" "mft_record_ok fs s' = mft_record_ok fs s"
proof -
  have d: "dk_sec (nt_disk s') = dk_sec (nt_disk s)" "disk_ok (nt_disk s')" using assms(2) by (simp_all add: ntfs_same_def ntfs_quiet_def ntfs_calm_def)
  then have m: "mft_sectors fs (nt_disk s') = mft_sectors fs (nt_disk s)" by (simp add: fun_eq_iff mft_sectors_def read_sectors_def)
  have "overwrite (nt_mft s') (mft_sectors fs (nt_disk s) num) = overwrite (nt_mft s) (mft_sectors fs (nt_disk s) num)" for num
    using assms by (simp add: overwrite_def ntfs_same_def length_mft_sectors)
  then show i: "mft_image fs s' = mft_image fs s" by (intro ext) (simp only: mft_image_def m)
  show "mft_record_ok fs s' = mft_record_ok fs s" by (intro ext) (simp only: mft_record_ok_def m i)
qed

lemma read_mft_record_calm:
  assumes g: "ntfs_geometry fs" and c: "ntfs_calm s" and ok: "mft_record_ok fs s num"
  shows "\<exists>s'. read_mft_record fs num s = (0, s') \<and> nt_mft s' = snd (mft_image fs s num) \<and> ntfs_same fs s s'"
proof -
  let ?m = "mft_sectors fs (nt_disk s) num"
  let ?buf = "overwrite (nt_mft s) ?m"
  have n: "nf_mft_sectors fs \<le> 8" "nf_mft_sectors fs mod 2 ^ 8 = nf_mft_sectors fs" "4 \<le> 512 * nf_mft_sectors fs" using g by (simp_all add: ntfs_geometry_def)
  obtain d where d: "blk_read (nf_drive_type fs) (nf_drive fs) (add64 (nf_mft_lba fs) (mul64 num (nf_mft_sectors fs))) (nf_mft_sectors fs) (nt_mft s) (nt_disk s) =
      (0, ?buf, d)" "dk_sec d = dk_sec (nt_disk s)" "disk_ok d" "healthy d"
    using ntfs_blk_read_calm [OF c n(1)] unfolding mft_sectors_def by blast
  have l: "length ?m = 512 * nf_mft_sectors fs" using c by (simp add: length_mft_sectors ntfs_calm_def)
  have sig: "byte_at ?buf i = [0x46, 0x49, 0x4C, 0x45] ! i" if "i < 4" for i
  proof -
    have "take 4 ?m ! i = [0x46, 0x49, 0x4C, 0x45] ! i" using ok by (simp add: mft_record_ok_def)
    then show ?thesis using that l n(3) by (simp add: byte_at_def overwrite_def nth_append)
  qed
  have s: "byte_at ?buf 0 = 0x46" "byte_at ?buf 1 = 0x49" "byte_at ?buf 2 = 0x4C" "byte_at ?buf 3 = 0x45"
    using sig [of 0] sig [of 1] sig [of 2] sig [of 3] by simp_all
  obtain rc im where im: "apply_fixup ?buf (le16 ?buf 4) (le16 ?buf 6) (nf_mft_record_size fs) = (rc, im)" by fastforce
  have i: "mft_image fs s num = (rc, im)" "rc = 0" using ok im by (simp_all add: mft_image_def Let_def mft_record_ok_def)
  let ?s' = "s\<lparr>nt_mft := im, nt_disk := d\<rparr>"
  have "read_mft_record fs num s = (0, ?s')"
    using s im i(2) by (simp add: read_mft_record_def Let_def n(2) [simplified] d(1))
  moreover have "drop (512 * nf_mft_sectors fs) im = drop (512 * nf_mft_sectors fs) (nt_mft s)"
    using apply_fixup_drop [of "nf_mft_record_size fs" "512 * nf_mft_sectors fs" ?buf "le16 ?buf 4" "le16 ?buf 6"] im g l
    by (simp add: ntfs_geometry_def overwrite_def)
  ultimately show ?thesis using i d(2-4) by (auto simp: ntfs_same_def ntfs_quiet_def ntfs_calm_def)
qed

text \<open>No run is sparse: each gives its own offset.\<close>

function runs_dense :: "u8 list \<Rightarrow> nat \<Rightarrow> bool" where
  "runs_dense buf pos =
     (case parse_run buf pos of None \<Rightarrow> True | Some (c, len, off) \<Rightarrow> drop_bit 4 (byte_at buf pos) \<noteq> 0 \<and> runs_dense buf (pos + c))"
  by pat_completeness auto
termination
  by (relation "measure (\<lambda>(buf, pos). length buf - pos)") (auto dest: parse_run_advance)

declare runs_dense.simps [simp del]

definition ntfs_resident :: "nat \<Rightarrow> u8 list \<Rightarrow> nat \<Rightarrow> bool" where
  "ntfs_resident sectors rec at \<longleftrightarrow> \<not> at_non_resident rec at \<and> at_value_length rec at < 2 ^ 31 \<and>
     at + at_value_offset rec at + at_value_length rec at \<le> 512 * sectors \<and> 512 * sectors \<le> length rec"

definition ntfs_nonresident :: "ntfs_fs \<Rightarrow> disk \<Rightarrow> u8 list \<Rightarrow> nat \<Rightarrow> bool" where
  "ntfs_nonresident fs d rec at \<longleftrightarrow>
     (let pos = at + at_runs_offset rec at; D = runs_data fs d (runs_of rec pos 0) in
      at_non_resident rec at \<and> at_real_size rec at < 2 ^ 31 \<and> runs_dense rec pos \<and> at_real_size rec at \<le> length D \<and> length D < 2 ^ 32)"

text \<open>Node \<open>n\<close> is a file of \<open>fs\<close> whose data attribute is at \<open>at\<close>.\<close>

definition ntfs_file_at :: "nat \<Rightarrow> ntfs_fs \<Rightarrow> nat \<Rightarrow> ntfs_state \<Rightarrow> bool" where
  "ntfs_file_at n fs at s \<longleftrightarrow>
     (let nd = nt_nodes s ! n; rec = snd (mft_image fs s (vn_inode nd)) in
      n < length (nt_nodes s) \<and> (\<exists>f. vn_private nd = Some f \<and> nt_fs s ! f = fs) \<and> vn_ops nd = ntfs_file_ops \<and>
      ntfs_geometry fs \<and> ntfs_calm s \<and> mft_record_ok fs s (vn_inode nd) \<and> find_attr rec NTFS_ATTR_DATA = Some (Some at) \<and>
      (ntfs_resident (nf_mft_sectors fs) rec at \<or> ntfs_nonresident fs (nt_disk s) rec at))"

definition ntfs_contents :: "nat \<Rightarrow> ntfs_fs \<Rightarrow> nat \<Rightarrow> ntfs_state \<Rightarrow> u8 list" where
  "ntfs_contents n fs at s =
     (let rec = snd (mft_image fs s (vn_inode (nt_nodes s ! n))) in
      if at_non_resident rec at then take (at_real_size rec at) (runs_data fs (nt_disk s) (runs_of rec (at + at_runs_offset rec at) 0))
      else take (at_value_length rec at) (drop (at + at_value_offset rec at) rec))"

lemma ntfs_file_same:
  assumes "ntfs_file_at n fs at s" "ntfs_same fs s s'"
  shows "ntfs_file_at n fs at s'" "ntfs_contents n fs at s' = ntfs_contents n fs at s"
proof -
  have q: "nt_nodes s' = nt_nodes s" "nt_fs s' = nt_fs s" "dk_sec (nt_disk s') = dk_sec (nt_disk s)" "ntfs_calm s'"
    using assms(2) by (simp_all add: ntfs_same_def ntfs_quiet_def)
  have "disk_ok (nt_disk s)" using assms(1) unfolding ntfs_file_at_def Let_def ntfs_calm_def by blast
  note c = mft_image_same [OF this assms(2)] runs_data_cong [OF q(3)]
  show "ntfs_file_at n fs at s'" using assms(1) q(4) unfolding ntfs_file_at_def ntfs_nonresident_def Let_def q(1,2) c by blast
  show "ntfs_contents n fs at s' = ntfs_contents n fs at s" unfolding ntfs_contents_def Let_def q(1) c ..
qed

lemma ntfs_contents_length:
  assumes "ntfs_file_at n fs at s"
  shows "length (ntfs_contents n fs at s) < 2 ^ 31"
  using assms unfolding ntfs_file_at_def ntfs_contents_def ntfs_resident_def ntfs_nonresident_def Let_def by auto

lemma clip_size:
  assumes "off < sz" "sz < 2 ^ 31" "k < 2 ^ 32"
  shows "(if add64 off k > sz then (sz - off) mod 2 ^ 32 else k) = min k (sz - off)"
proof -
  have "add64 off k = off + k" using assms by (simp add: add64_def)
  then show ?thesis using assms by (auto simp: min_def)
qed

lemma ntfs_read_spec:
  assumes f: "ntfs_file_at n fs at s" and k: "k < 2 ^ 32"
  shows "\<exists>s'. ntfs_read n off k s = Some (int (min k (length (ntfs_contents n fs at s) - off)), take k (drop off (ntfs_contents n fs at s)), s') \<and>
    ntfs_same fs s s'"
proof -
  let ?nd = "nt_nodes s ! n"
  define rec where "rec = snd (mft_image fs s (vn_inode ?nd))"
  have a: "ntfs_geometry fs" "ntfs_calm s" "mft_record_ok fs s (vn_inode ?nd)" "find_attr rec NTFS_ATTR_DATA = Some (Some at)"
    "ntfs_resident (nf_mft_sectors fs) rec at \<or> ntfs_nonresident fs (nt_disk s) rec at"
    using f unfolding ntfs_file_at_def Let_def rec_def by blast+
  obtain fi where fi: "vn_private ?nd = Some fi" "nt_fs s ! fi = fs" using f unfolding ntfs_file_at_def Let_def by blast
  obtain s1 where s1: "read_mft_record fs (vn_inode ?nd) s = (0, s1)" "nt_mft s1 = rec" "ntfs_same fs s s1"
    using read_mft_record_calm [OF a(1,2,3)] unfolding rec_def by blast
  note rd = ntfs_read_def [of n off k s] and st = fi s1(1,2) a(4)
  from a(5) show ?thesis
  proof
    assume r: "ntfs_resident (nf_mft_sectors fs) rec at"
    let ?sz = "at_value_length rec at" and ?v = "at + at_value_offset rec at"
    have nr: "\<not> at_non_resident rec at" "?sz < 2 ^ 31" "?v + ?sz \<le> length rec" using r by (auto simp: ntfs_resident_def)
    have C: "ntfs_contents n fs at s = take ?sz (drop ?v rec)" using nr(1) by (simp add: ntfs_contents_def rec_def [symmetric])
    have lC: "length (ntfs_contents n fs at s) = ?sz" using nr(3) by (simp add: C)
    show ?thesis
    proof (cases "off \<ge> ?sz")
      case True
      then show ?thesis using st nr(1) lC s1(3) by (simp add: rd Let_def)
    next
      case False
      define m where "m = min k (?sz - off)"
      have m: "m \<le> ?sz - off" "m < 2 ^ 31" using nr(2) by (auto simp: m_def)
      have "bytes_of rec (?v + off) m = take m (drop (?v + off) rec)" using m(1) nr(3) False by (intro bytes_of_take) linarith
      also have "\<dots> = take k (drop off (take ?sz (drop ?v rec)))"
        using m(1) by (simp add: drop_take m_def min.commute add.commute [of off])
      finally have "ntfs_read n off k s = Some (int32 m, take k (drop off (ntfs_contents n fs at s)), s1)"
        using st nr(1) False clip_size [of off ?sz k] nr(2) k by (simp add: rd Let_def C m_def)
      then show ?thesis using s1(3) m(2) lC by (auto simp: int32_small m_def)
    qed
  next
    assume r: "ntfs_nonresident fs (nt_disk s) rec at"
    let ?sz = "at_real_size rec at" and ?pos = "at + at_runs_offset rec at"
    let ?D = "runs_data fs (nt_disk s) (runs_of rec ?pos 0)"
    have nr: "at_non_resident rec at" "?sz < 2 ^ 31" "?sz \<le> length ?D" "length ?D < 2 ^ 32" using r unfolding ntfs_nonresident_def Let_def by blast+
    have C: "ntfs_contents n fs at s = take ?sz ?D" using nr(1) by (simp add: ntfs_contents_def rec_def [symmetric])
    have lC: "length (ntfs_contents n fs at s) = ?sz" using nr(3) by (simp add: C)
    show ?thesis
    proof (cases "off \<ge> ?sz")
      case True
      then show ?thesis using st nr(1) lC s1(3) by (simp add: rd Let_def)
    next
      case False
      define m where "m = min k (?sz - off)"
      have m: "m \<le> ?sz - off" "m < 2 ^ 31" "off + m < 2 ^ 32" using nr(2) False by (auto simp: m_def)
      have q: "ntfs_calm s1" "runs_data fs (nt_disk s1) = runs_data fs (nt_disk s)"
        using s1(3) runs_data_cong [of "nt_disk s1" "nt_disk s" fs] by (simp_all add: ntfs_same_def ntfs_quiet_def)
      have "\<exists>st'. read_runs fs rec ?pos 0 0 off m (take m (drop off [])) s1 =
          Some ((True, take m (drop off ([] @ runs_data fs (nt_disk s1) (runs_of rec ?pos 0)))), st') \<and> ntfs_quiet s1 st' \<and> nt_mft st' = nt_mft s1"
        using q nr(4) m(3) by (intro read_runs_spec [OF a(1)]) simp_all
      then obtain s2 where s2: "read_runs fs rec ?pos 0 0 off m [] s1 = Some ((True, take m (drop off ?D)), s2)" "ntfs_quiet s1 s2" "nt_mft s2 = nt_mft s1"
        unfolding q(2) by auto
      have l: "length (take m (drop off ?D)) = m" using m(1) nr(3) False by simp
      have tk: "take m (drop off ?D) = take k (drop off (ntfs_contents n fs at s))"
        unfolding C by (simp add: drop_take m_def min.commute)
      have om: "off mod 2 ^ 32 = off" using False nr(2) by simp
      have "read_nonresident fs at (off mod 2 ^ 32) m s1 = Some (int32 m, take k (drop off (ntfs_contents n fs at s)), s2)"
        using s2(1) l tk unfolding om by (simp add: read_nonresident_def s1(2))
      then have "ntfs_read n off k s = Some (int32 m, take k (drop off (ntfs_contents n fs at s)), s2)"
        using st nr(1) False clip_size [of off ?sz k] nr(2) k by (simp add: rd Let_def m_def [symmetric])
      moreover have "ntfs_same fs s s2" using s1(3) s2(2,3) by (simp add: ntfs_same_def ntfs_quiet_def)
      ultimately show ?thesis using m(2) lC by (auto simp: int32_small m_def)
    qed
  qed
qed


section \<open>The driver behind the virtual file system\<close>

type_synonym ntfs_mount_fn = "u8 \<Rightarrow> u8 \<Rightarrow> nat \<Rightarrow> mount_point \<Rightarrow> ntfs_state \<Rightarrow> int \<times> mount_point \<times> ntfs_state"
type_synonym ntfs_defrag_fn = "nat \<Rightarrow> ntfs_state \<Rightarrow> (int \<times> (nat \<times> nat \<times> nat) \<times> ntfs_state) option"

text \<open>The driver stores no write, create, unlink or rename operation in its nodes: those fields are never called.\<close>

definition ntfs_driver :: "ntfs_mount_fn \<Rightarrow> ntfs_mount_fn \<Rightarrow> ntfs_mount_fn \<Rightarrow> ntfs_defrag_fn \<Rightarrow> ntfs_defrag_fn \<Rightarrow> ntfs_state driver" where
  "ntfs_driver fat_mount ext2_mount xfs_mount fat_defrag ext2_defrag =
     \<lparr>dr_node = \<lambda>s n. if n < length (nt_nodes s) then nt_nodes s ! n else node_zero,
      dr_finddir = ntfs_finddir, dr_create = \<lambda>n name s. Some (None, s), dr_read = ntfs_read, dr_write = \<lambda>n off data s. Some (- 1, s),
      dr_readdir = ntfs_readdir, dr_unlink = \<lambda>n name s. Some (- 1, s), dr_rename = \<lambda>n name m name' s. Some (- 1, s),
      dr_fat32_mount = fat_mount, dr_ext2_mount = ext2_mount, dr_ntfs_mount = ntfs_mount, dr_xfs_mount = xfs_mount,
      dr_fat32_defrag = fat_defrag, dr_ext2_defrag = ext2_defrag,
      dr_disk = nt_disk, dr_set_disk = \<lambda>d s. s\<lparr>nt_disk := d\<rparr>\<rparr>"

interpretation ntfs_file: readable_file "ntfs_driver fat_mount ext2_mount xfs_mount fat_defrag ext2_defrag" n "ntfs_file_at n fs at" "ntfs_contents n fs at"
  for fat_mount ext2_mount xfs_mount :: ntfs_mount_fn and fat_defrag ext2_defrag :: ntfs_defrag_fn and n fs at
proof
  fix s off k assume i: "ntfs_file_at n fs at s"
  then have "n < length (nt_nodes s)" "vn_ops (nt_nodes s ! n) = ntfs_file_ops" unfolding ntfs_file_at_def Let_def by blast+
  then show "Op_read \<in> set (vn_ops (dr_node (ntfs_driver fat_mount ext2_mount xfs_mount fat_defrag ext2_defrag) s n))"
    by (simp add: ntfs_driver_def ntfs_file_ops_def)
  show "length (ntfs_contents n fs at s) < 2 ^ 31" by (rule ntfs_contents_length [OF i])
  show "\<exists>s'. dr_read (ntfs_driver fat_mount ext2_mount xfs_mount fat_defrag ext2_defrag) n off k s =
      Some (int (min k (length (ntfs_contents n fs at s) - off)), take k (drop off (ntfs_contents n fs at s)), s') \<and>
      ntfs_file_at n fs at s' \<and> ntfs_contents n fs at s' = ntfs_contents n fs at s" if "k < 2 ^ 32"
    using ntfs_read_spec [OF i that, of off] ntfs_file_same [OF i] by (auto simp: ntfs_driver_def)
qed

lemma ntfs_stream:
  assumes "caller_ok v" "open_fd fd v = Some e" "fd_node e = Some n" "ntfs_file_at n fs at (v_fs v)"
    "\<forall>k \<in> set ks. k < 2 ^ 32" "unat (fd_offset e) + sum_list ks < 2 ^ 63"
  shows "\<exists>v' e'. vfs_read_seq (ntfs_driver fat_mount ext2_mount xfs_mount fat_defrag ext2_defrag) fd ks v =
      Some (take (sum_list ks) (drop (unat (fd_offset e)) (ntfs_contents n fs at (v_fs v))), v') \<and>
    open_fd fd v' = Some e' \<and> fd_node e' = Some n \<and>
    unat (fd_offset e') = unat (fd_offset e) + min (sum_list ks) (length (ntfs_contents n fs at (v_fs v)) - unat (fd_offset e))"
proof -
  have "ntfs_file.reading n fs at fd (unat (fd_offset e)) v" unfolding ntfs_file.reading_def using assms by simp
  from ntfs_file.stream [OF this assms(5,6), of fat_mount ext2_mount xfs_mount fat_defrag ext2_defrag]
  show ?thesis unfolding ntfs_file.reading_def by blast
qed

end
