(* ===== verification/Ntfs_Format.thy ===== *)
theory Ntfs_Format
  imports Ntfs_Props
begin

text \<open>
  NTFS files as the format writes them, and the driver on them. The record of a file is described by an encoding
  that does not refer to the driver: sectors that end in the update sequence number, attributes one behind the other,
  a data attribute with the value itself or with data runs (lengths and signed distances in as few bytes as the header
  says). Reading such a file through a descriptor returns its bytes.
\<close>

section \<open>Little-endian fields\<close>

fun le_digits :: "nat \<Rightarrow> nat \<Rightarrow> u8 list" where
  "le_digits 0 v = []"
| "le_digits (Suc n) v = of_nat v # le_digits n (v div 256)"

lemma length_le_digits [simp]: "length (le_digits n v) = n"
  by (induction n arbitrary: v) simp_all

lemma nth_le_digits: "k < n \<Longrightarrow> le_digits n v ! k = of_nat (v div 256 ^ k)"
proof (induction n arbitrary: v k)
  case (Suc n)
  then show ?case by (cases k) (simp_all add: div_mult2_eq)
qed simp

lemma le_digits_numeral: "le_digits (numeral k) v = of_nat v # le_digits (pred_numeral k) (v div 256)"
  by (simp only: numeral_eq_Suc le_digits.simps)

lemma div_pow: "v div 256 ^ (k + j) = v div 256 ^ k div 256 ^ j" for v :: nat
  by (simp only: power_add div_mult2_eq)

text \<open>The bytes at a position hold a number.\<close>

definition field :: "u8 list \<Rightarrow> nat \<Rightarrow> nat \<Rightarrow> nat \<Rightarrow> bool" where
  "field buf pos n v \<longleftrightarrow> v < 256 ^ n \<and> take n (drop pos buf) = le_digits n v"

lemma field_byte:
  assumes "field buf pos n v" "k < n"
  shows "byte_at buf (pos + k) = of_nat (v div 256 ^ k)" "pos + n \<le> length buf"
proof -
  have l: "length (take n (drop pos buf)) = n" using assms(1) by (simp add: field_def)
  then show p: "pos + n \<le> length buf" using assms(2) by auto
  have "take n (drop pos buf) ! k = of_nat (v div 256 ^ k)" using assms by (simp add: field_def nth_le_digits)
  then show "byte_at buf (pos + k) = of_nat (v div 256 ^ k)" using p assms(2) by (simp add: byte_at_def)
qed

lemma field_append: "pos + n \<le> length buf \<Longrightarrow> field (buf @ rest) pos n v = field buf pos n v"
  by (simp add: field_def)

lemma le16_field:
  assumes "field buf pos n v" "k + 2 \<le> n"
  shows "le16 buf (pos + k) = v div 256 ^ k mod 2 ^ 16"
proof -
  have "byte_at buf (pos + k) = of_nat (v div 256 ^ k)" "byte_at buf (pos + (k + 1)) = of_nat (v div 256 ^ (k + 1))"
    using field_byte(1) [OF assms(1), of k] field_byte(1) [OF assms(1), of "k + 1"] assms(2) by simp_all
  moreover have "v div 256 ^ (k + 1) = v div 256 ^ k div 256" using div_pow [of v k 1] by simp
  moreover have "x mod 256 + 256 * (x div 256 mod 256) = x mod 2 ^ 16" for x :: nat using mod_mult2_eq [of x 256 256] by simp
  ultimately show ?thesis by (simp add: le16_def unat_of_nat add.assoc)
qed

lemma le32_field:
  assumes "field buf pos n v" "k + 4 \<le> n"
  shows "le32 buf (pos + k) = v div 256 ^ k mod 2 ^ 32"
proof -
  have "le16 buf (pos + (k + 2)) = v div 256 ^ (k + 2) mod 2 ^ 16" using assms by (intro le16_field) auto
  moreover have "v div 256 ^ (k + 2) = v div 256 ^ k div 2 ^ 16" using div_pow [of v k 2] by simp
  moreover have "x mod 2 ^ 16 + 2 ^ 16 * (x div 2 ^ 16 mod 2 ^ 16) = x mod 2 ^ 32" for x :: nat using mod_mult2_eq [of x "2 ^ 16" "2 ^ 16"] by simp
  ultimately show ?thesis using le16_field [OF assms(1), of k] assms(2) by (simp add: le32_def add.assoc)
qed

lemma fields:
  "field buf pos 2 v \<Longrightarrow> le16 buf pos = v"
  "field buf pos 4 v \<Longrightarrow> le32 buf pos = v"
  "field buf pos 8 v \<Longrightarrow> v < 2 ^ 32 \<Longrightarrow> le64 buf pos = v"
proof -
  show "field buf pos 2 v \<Longrightarrow> le16 buf pos = v" using le16_field [of buf pos 2 v 0] by (simp add: field_def)
  show "field buf pos 4 v \<Longrightarrow> le32 buf pos = v" using le32_field [of buf pos 4 v 0] by (simp add: field_def)
  show "field buf pos 8 v \<Longrightarrow> v < 2 ^ 32 \<Longrightarrow> le64 buf pos = v"
    using le32_field [of buf pos 8 v 0] le32_field [of buf pos 8 v 4] by (simp add: le64_def)
qed

section \<open>Data runs\<close>

text \<open>One run: the header with the sizes of the two numbers, the length in clusters, the signed distance from the previous run.\<close>

definition enc_run :: "nat \<Rightarrow> nat \<Rightarrow> nat \<Rightarrow> int \<Rightarrow> u8 list" where
  "enc_run lsz osz len delta = of_nat (16 * osz + lsz) # le_digits lsz len @ le_digits osz (nat (delta mod 256 ^ osz))"

definition run_fits :: "nat \<Rightarrow> nat \<Rightarrow> nat \<Rightarrow> int \<Rightarrow> bool" where
  "run_fits lsz osz len delta \<longleftrightarrow> 1 \<le> lsz \<and> lsz \<le> 4 \<and> 1 \<le> osz \<and> osz \<le> 4 \<and> len < 256 ^ lsz \<and>
     - (128 * 256 ^ (osz - 1)) \<le> delta \<and> delta < 128 * 256 ^ (osz - 1)"

lemma unat_ucast_up8: "unat (ucast (b :: u8) :: u32) = unat b"
  using unat_byte_less [of b] by (simp add: unsigned_ucast_eq take_bit_nat_eq_self)

lemma run_field_value:
  "(\<And>k. k < n \<Longrightarrow> byte_at buf (pos + i + k) = of_nat (v div 256 ^ k)) \<Longrightarrow> i + n \<le> 4 \<Longrightarrow> unat acc < 256 ^ i \<Longrightarrow>
    unat (run_field buf pos i n acc) = unat acc + 256 ^ i * (v mod 256 ^ n)"
proof (induction n arbitrary: i v acc)
  case (Suc n)
  let ?b = "ucast (byte_at buf (pos + i)) :: u32"
  have b: "unat ?b = v mod 256" using Suc.prems(1) [of 0] by (simp add: unat_ucast_up8 unat_of_nat)
  have i: "i \<le> 3" using Suc.prems(2) by simp
  have p: "unat (push_bit (8 * i) ?b) = 256 ^ i * (v mod 256)"
  proof -
    have "256 ^ i * (v mod 256) < 256 ^ i * 256" by simp
    also have "\<dots> \<le> 256 ^ 3 * 256" using i by (intro mult_le_mono1 power_increasing) auto
    finally have "256 ^ i * (v mod 256) < 2 ^ 32" by simp
    moreover have "(2 :: nat) ^ (8 * i) = 256 ^ i" by (simp add: power_mult)
    ultimately show ?thesis
      unfolding unsigned_push_bit_eq b push_bit_eq_mult [where 'a = nat] take_bit_eq_mod [where 'a = nat] by (simp add: mult.commute)
  qed
  have e: "(2 :: nat) ^ (8 * i) = 256 ^ i" by (simp add: power_mult)
  have a: "unat (acc OR push_bit (8 * i) ?b) = 256 ^ i * (v mod 256) + unat acc"
    unfolding or.commute [of acc] by (subst unat_or_disjoint [where k = "8 * i"]) (use p e Suc.prems(3) in simp_all)
  have lt: "unat (acc OR push_bit (8 * i) ?b) < 256 ^ (i + 1)"
  proof -
    have "v mod 256 \<le> 255" by (simp add: less_Suc_eq_le [symmetric])
    then have "256 ^ i * (v mod 256) \<le> 256 ^ i * 255" by (rule mult_le_mono2)
    moreover have "(256 :: nat) ^ (i + 1) = 256 ^ i * 255 + 256 ^ i" by simp
    ultimately show ?thesis unfolding a using Suc.prems(3) by linarith
  qed
  have "unat (run_field buf pos (i + 1) n (acc OR push_bit (8 * i) ?b)) = unat (acc OR push_bit (8 * i) ?b) + 256 ^ (i + 1) * (v div 256 mod 256 ^ n)"
  proof (rule Suc.IH [OF _ _ lt])
    show "byte_at buf (pos + (i + 1) + k) = of_nat (v div 256 div 256 ^ k)" if "k < n" for k
      using Suc.prems(1) [of "Suc k"] that by (simp add: div_mult2_eq)
    show "i + 1 + n \<le> 4" using Suc.prems(2) by simp
  qed
  moreover have "v mod 256 ^ Suc n = v mod 256 + 256 * (v div 256 mod 256 ^ n)" by (simp add: mod_mult2_eq)
  ultimately show ?case unfolding run_field.simps a by (simp add: algebra_simps)
qed simp

lemma sign_fill_value:
  "i + n \<le> 4 \<Longrightarrow> unat acc < 256 ^ i \<Longrightarrow> unat (sign_fill i n acc) = unat acc + 256 ^ i * (256 ^ n - 1)"
proof (induction n arbitrary: i acc)
  case (Suc n)
  have e: "(2 :: nat) ^ (8 * i) = 256 ^ i" by (simp add: power_mult)
  have p: "unat (push_bit (8 * i) 0xFF :: u32) = 256 ^ i * 255"
  proof -
    have "256 ^ i * (255 :: nat) \<le> 256 ^ 3 * 255" using Suc.prems(1) by (intro mult_le_mono1 power_increasing) auto
    then have "256 ^ i * (255 :: nat) < 2 ^ 32" by simp
    then show ?thesis unfolding unsigned_push_bit_eq push_bit_eq_mult [where 'a = nat] take_bit_eq_mod [where 'a = nat] e by (simp add: mult.commute)
  qed
  have a: "unat (acc OR push_bit (8 * i) 0xFF) = 256 ^ i * 255 + unat acc"
    unfolding or.commute [of acc] by (subst unat_or_disjoint [where k = "8 * i"]) (use p e Suc.prems(2) in simp_all)
  have "unat (sign_fill (i + 1) n (acc OR push_bit (8 * i) 0xFF)) = unat (acc OR push_bit (8 * i) 0xFF) + 256 ^ (i + 1) * (256 ^ n - 1)"
    using Suc.prems by (intro Suc.IH) (simp_all add: a)
  moreover have "256 ^ i * (255 :: nat) + 256 ^ (i + 1) * (256 ^ n - 1) = 256 ^ i * (256 ^ Suc n - 1)"
  proof -
    have "256 * (q - 1) + 255 = 256 * q - 1" if "1 \<le> q" for q :: nat using that by arith
    from this [of "256 ^ n"] have "256 * (256 ^ n - 1) + 255 = 256 ^ Suc n - (1 :: nat)" by simp
    then have "256 ^ i * (255 + 256 * (256 ^ n - 1)) = 256 ^ i * (256 ^ Suc n - (1 :: nat))" by (simp only: add.commute)
    then show ?thesis by (simp only: distrib_left power_add power_one_right mult.assoc)
  qed
  ultimately show ?case by (simp add: a)
qed simp

lemma sign_bit: "(w :: u8) AND 0x80 \<noteq> 0 \<longleftrightarrow> 128 \<le> unat w"
proof -
  have "w AND 0x80 \<noteq> 0 \<longleftrightarrow> bit w 7" using and_exp_eq_0_iff_not_bit [of w 7] by simp
  also have "\<dots> \<longleftrightarrow> odd (unat w div 128)" using bit_iff_odd [of "unat w" 7] by (simp add: bit_unsigned_iff)
  also have "\<dots> \<longleftrightarrow> 128 \<le> unat w"
  proof (cases "unat w < 128")
    case False
    then have "unat w div 128 = 1" using unat_byte_less [of w] by (intro div_nat_eqI) auto
    then show ?thesis using False by simp
  qed simp
  finally show ?thesis .
qed

lemma of_int_unat: "unat (of_int d :: u32) = nat (d mod 2 ^ 32)"
  by (simp add: unsigned_of_int take_bit_eq_mod)

text \<open>The signed number in the low \<open>osz\<close> bytes: filled up with the sign it is the number itself.\<close>

lemma signed_field:
  assumes o: "1 \<le> osz" "osz \<le> 4" and d: "- (128 * 256 ^ (osz - 1)) \<le> d" "d < 128 * 256 ^ (osz - 1)"
    and w: "unat w = nat (d mod 256 ^ osz)" and b: "unat (b :: u8) = nat (d mod 256 ^ osz) div 256 ^ (osz - 1) mod 256"
  shows "sint (if 0 < osz \<and> b AND 0x80 \<noteq> 0 then sign_fill osz (4 - osz) w else w) = d"
proof -
  obtain q where q: "(256 :: int) ^ osz = 256 * q" "q = 256 ^ (osz - 1)" "0 < q" using o(1) by (cases osz) auto
  have qn: "(256 :: nat) ^ (osz - 1) = nat q" by (simp add: q(2) nat_power_eq)
  have m: "d mod 256 ^ osz = (if d < 0 then d + 256 * q else d)"
  proof (cases "d < 0")
    case True
    then have "(d + 256 * q) mod (256 * q) = d + 256 * q" using d(1) q(2,3) by (intro mod_pos_pos_trivial) auto
    then show ?thesis using True q(1) by simp
  next
    case False
    then show ?thesis using d(2) q by (simp add: mod_pos_pos_trivial)
  qed
  have neg: "b AND 0x80 \<noteq> 0 \<longleftrightarrow> d < 0"
  proof -
    let ?u = "nat (d mod 256 ^ osz)"
    have u: "int ?u = d mod 256 ^ osz" using q by simp
    have "?u < 256 * nat q" using u q m d by (auto simp: nat_less_iff)
    then have "?u div nat q < 256" using q(3) by (simp add: div_less_iff_less_mult)
    then have "unat b = ?u div nat q" using b [unfolded qn] by simp
    moreover have "128 \<le> ?u div nat q \<longleftrightarrow> 128 * nat q \<le> ?u" using q(3) by (simp add: less_eq_div_iff_mult_less_eq)
    moreover have "128 * nat q \<le> ?u \<longleftrightarrow> d < 0" using m q(2,3) d by (auto simp: nat_le_iff le_nat_iff)
    ultimately show ?thesis by (simp only: sign_bit)
  qed
  have r: "- (2 ^ 31) \<le> d" "d < 2 ^ 31"
  proof -
    have "q \<le> 256 ^ 3" unfolding q(2) using o by (intro power_increasing) auto
    then show "- (2 ^ 31) \<le> d" "d < 2 ^ 31" using d q(2) by simp_all
  qed
  have "(if 0 < osz \<and> b AND 0x80 \<noteq> 0 then sign_fill osz (4 - osz) w else w) = of_int d"
  proof (cases "d < 0")
    case True
    have lt: "unat w < 256 ^ osz" using w q(3) by (simp add: nat_less_iff q(1))
    have "(256 :: nat) ^ osz * (256 ^ (4 - osz) - 1) = 2 ^ 32 - 256 ^ osz"
      using power_add [of "256 :: nat" osz "4 - osz"] o(2) by (simp add: diff_mult_distrib2)
    then have "unat (sign_fill osz (4 - osz) w) = unat w + (2 ^ 32 - 256 ^ osz)"
      using sign_fill_value [OF _ lt, of "4 - osz"] o(2) by simp
    moreover have "int (unat w) = d + 256 ^ osz" using w m True q d by simp
    moreover have "(256 :: nat) ^ osz \<le> 2 ^ 32" using power_increasing [of osz 4 "256 :: nat"] o(2) by simp
    ultimately have "int (unat (sign_fill osz (4 - osz) w)) = d + 2 ^ 32" by (simp add: of_nat_diff)
    moreover have "d mod 2 ^ 32 = d + 2 ^ 32" using True r mod_add_self2 [of d "2 ^ 32"] mod_pos_pos_trivial [of "d + 2 ^ 32" "2 ^ 32"] by simp
    ultimately have "unat (sign_fill osz (4 - osz) w) = unat (of_int d :: u32)" unfolding of_int_unat by (metis nat_int)
    then show ?thesis using True neg o(1) by (simp add: word_unat_eq_iff)
  next
    case False
    then have "unat w = unat (of_int d :: u32)" unfolding of_int_unat w m using r by (simp add: mod_pos_pos_trivial)
    then show ?thesis using False neg by (simp add: word_unat_eq_iff)
  qed
  then show ?thesis using r by (simp add: signed_of_int signed_take_bit_int_eq_self)
qed

lemma byte_at_shift: "byte_at (u @ v) (length u + k) = byte_at v k"
  by (simp add: byte_at_def)

lemma run_header:
  assumes "1 \<le> lsz" "lsz \<le> 4" "osz \<le> 4"
  shows "(of_nat (16 * osz + lsz) :: u8) \<noteq> 0" "unat ((of_nat (16 * osz + lsz) :: u8) AND 0x0F) = lsz"
    "unat (drop_bit 4 (of_nat (16 * osz + lsz) :: u8) AND 0x0F) = osz"
proof -
  let ?h = "of_nat (16 * osz + lsz) :: u8"
  have h: "unat ?h = 16 * osz + lsz" unfolding unat_of_nat using assms by simp
  then show "?h \<noteq> 0" using assms(1) by (metis add_is_0 not_one_le_zero unat_0)
  have m: "(0x0F :: u8) = mask 4" by (simp add: mask_eq_decr_exp)
  show "unat (?h AND 0x0F) = lsz" using assms(2) unfolding m unat_and_mask h by simp
  have "unat (drop_bit 4 ?h) = osz"
    by (simp only: unsigned_drop_bit_eq drop_bit_eq_div [where 'a = nat] h take_bit_eq_mod [where 'a = nat]) (use assms in simp)
  then show "unat (drop_bit 4 ?h AND 0x0F) = osz" using assms(3) unfolding m unat_and_mask by simp
qed

lemma parse_run_enc:
  assumes "run_fits lsz osz len delta" "buf = u @ enc_run lsz osz len delta @ rest"
  shows "parse_run buf (length u) = Some (1 + lsz + osz, len, delta)" "drop_bit 4 (byte_at buf (length u)) \<noteq> 0"
proof -
  let ?u = "nat (delta mod 256 ^ osz)"
  have f: "1 \<le> lsz" "lsz \<le> 4" "1 \<le> osz" "osz \<le> 4" "len < 256 ^ lsz" "- (128 * 256 ^ (osz - 1)) \<le> delta" "delta < 128 * 256 ^ (osz - 1)"
    using assms(1) by (simp_all add: run_fits_def)
  let ?h = "of_nat (16 * osz + lsz) :: u8"
  have h: "byte_at buf (length u) = ?h" using byte_at_shift [of u _ 0] by (simp add: assms(2) enc_run_def byte_at_def)
  note hd = run_header [OF f(1,2,4)]
  have b1: "buf = (u @ [?h]) @ le_digits lsz len @ le_digits osz ?u @ rest" by (simp add: assms(2) enc_run_def)
  have b2: "buf = (u @ [?h] @ le_digits lsz len) @ le_digits osz ?u @ rest" by (simp add: assms(2) enc_run_def)
  have l1: "byte_at buf (length u + 1 + 0 + k) = of_nat (len div 256 ^ k)" if "k < lsz" for k
    using byte_at_shift [of "u @ [?h]" "le_digits lsz len @ le_digits osz ?u @ rest" k] that unfolding b1
    by (simp add: byte_at_def nth_append nth_le_digits)
  have l2: "byte_at buf (length u + 1 + lsz + 0 + k) = of_nat (?u div 256 ^ k)" if "k < osz" for k
    using byte_at_shift [of "u @ [?h] @ le_digits lsz len" "le_digits osz ?u @ rest" k] that unfolding b2
    by (simp add: byte_at_def nth_append nth_le_digits)
  have len: "unat (run_field buf (length u + 1) 0 lsz 0) = len"
    using run_field_value [of lsz buf "length u + 1" 0 len 0] l1 f(2,5) by simp
  have ub: "?u < 256 ^ osz" by (simp add: nat_less_iff)
  have off: "unat (run_field buf (length u + 1 + lsz) 0 osz 0) = ?u"
    using run_field_value [of osz buf "length u + 1 + lsz" 0 ?u 0] l2 f(4) ub by simp
  have top: "unat (byte_at buf (length u + lsz + osz)) = ?u div 256 ^ (osz - 1) mod 256"
  proof -
    have "length u + lsz + osz = length u + 1 + lsz + 0 + (osz - 1)" using f(3) by simp
    then have "byte_at buf (length u + lsz + osz) = of_nat (?u div 256 ^ (osz - 1))" using l2 [of "osz - 1"] f(3) by simp
    then show ?thesis by (simp add: unat_of_nat)
  qed
  from signed_field [OF f(3,4,6,7) off top] show "parse_run buf (length u) = Some (1 + lsz + osz, len, delta)"
    using hd f unfolding parse_run_def h Let_def hd len by simp
  show "drop_bit 4 (byte_at buf (length u)) \<noteq> 0" unfolding h using hd(3) f(3) by auto
qed

text \<open>The runs of a file, each with the sizes of its two numbers, its length and its first cluster; a zero byte ends them.\<close>

type_synonym run = "nat \<times> nat \<times> nat \<times> nat"

fun enc_runs :: "nat \<Rightarrow> run list \<Rightarrow> u8 list" where
  "enc_runs prev [] = [0]"
| "enc_runs prev ((lsz, osz, len, lcn) # rs) = enc_run lsz osz len (int lcn - int prev) @ enc_runs lcn rs"

fun runs_fit :: "nat \<Rightarrow> run list \<Rightarrow> bool" where
  "runs_fit prev [] \<longleftrightarrow> True"
| "runs_fit prev ((lsz, osz, len, lcn) # rs) \<longleftrightarrow> run_fits lsz osz len (int lcn - int prev) \<and> lcn < 2 ^ 32 \<and> runs_fit lcn rs"

lemma length_enc_run [simp]: "length (enc_run lsz osz len d) = 1 + lsz + osz"
  by (simp add: enc_run_def)

lemma runs_of_enc:
  "runs_fit prev rs \<Longrightarrow> runs_of (u @ enc_runs prev rs @ rest) (length u) prev = map (\<lambda>(lsz, osz, len, lcn). (lcn, len)) rs \<and>
    runs_dense (u @ enc_runs prev rs @ rest) (length u)"
proof (induction rs arbitrary: u prev)
  case Nil
  have "parse_run (u @ 0 # rest) (length u) = None" by (simp add: parse_run_def byte_at_def nth_append)
  then show ?case by (subst runs_of.simps, subst runs_dense.simps) simp
next
  case (Cons r rs)
  obtain lsz osz len lcn where r: "r = (lsz, osz, len, lcn)" by (cases r) auto
  let ?e = "enc_run lsz osz len (int lcn - int prev)"
  have f: "run_fits lsz osz len (int lcn - int prev)" "lcn < 2 ^ 32" "runs_fit lcn rs" using Cons.prems r by simp_all
  have b: "u @ enc_runs prev (r # rs) @ rest = u @ ?e @ enc_runs lcn rs @ rest" by (simp add: r)
  note p = parse_run_enc [OF f(1) b]
  have l: "length u + (1 + lsz + osz) = length (u @ ?e)" by simp
  have c: "nat ((int prev + (int lcn - int prev)) mod 2 ^ 32) = lcn" using f(2) by (simp add: nat_mod_as_int)
  have IH: "runs_of (u @ enc_runs prev (r # rs) @ rest) (length u + (1 + lsz + osz)) lcn = map (\<lambda>(lsz, osz, len, lcn). (lcn, len)) rs"
    "runs_dense (u @ enc_runs prev (r # rs) @ rest) (length u + (1 + lsz + osz))"
    unfolding l b using Cons.IH [OF f(3), of "u @ ?e"] by simp_all
  show ?case
    by (subst runs_of.simps, subst runs_dense.simps) (use p IH c r in \<open>simp add: Let_def\<close>)
qed
section \<open>Records\<close>

text \<open>Record \<open>num\<close> of the master file table: its sectors carry the signature, the array of the update sequence has a word
  for each of them, each ends in the number, and \<open>rec\<close> is the record as it was before it was written.\<close>

definition file_record :: "ntfs_fs \<Rightarrow> disk \<Rightarrow> nat \<Rightarrow> u8 list \<Rightarrow> bool" where
  "file_record fs d num rec \<longleftrightarrow>
     (\<exists>fo. let k = nf_mft_sectors fs; raw = read_sectors d (nf_drive_type fs) (nf_drive fs) (nf_mft_lba fs + num * k) k in
        take 4 raw = [0x46, 0x49, 0x4C, 0x45] \<and> field raw 4 2 fo \<and> field raw 6 2 (k + 1) \<and> fo + 2 * k + 2 \<le> 510 \<and>
        (\<forall>j < k. sector_end raw j = usa_entry fo raw 0) \<and> rec = restored fo k raw)"

definition ntfs_layout :: "ntfs_fs \<Rightarrow> nat \<Rightarrow> bool" where
  "ntfs_layout fs num \<longleftrightarrow> ntfs_geometry fs \<and> nf_mft_record_size fs = 512 * nf_mft_sectors fs \<and> nf_part_lba fs < 2 ^ 63 \<and>
     nf_mft_lba fs + num * nf_mft_sectors fs < 2 ^ 64"

lemma restored_append: "length raw = 512 * k \<Longrightarrow> fo + 2 * k + 2 \<le> 510 \<Longrightarrow> restored fo k (raw @ tail) = restored fo k raw @ tail"
proof (rule nth_equalityI)
  assume a: "length raw = 512 * k" "fo + 2 * k + 2 \<le> 510"
  fix i assume i: "i < length (restored fo k (raw @ tail))"
  then have i: "i < length raw + length tail" by (simp add: restored_def)
  have d: "i div 512 < k \<longleftrightarrow> i < length raw" using a(1) by (simp add: div_less_iff_less_mult mult.commute)
  have "usa_entry fo (raw @ tail) (j + 1) = usa_entry fo raw (j + 1)" if "j < k" for j
    using that a by (simp add: usa_entry_def)
  then show "restored fo k (raw @ tail) ! i = (restored fo k raw @ tail) ! i"
    using i d by (auto simp: restored_def nth_append)
qed (simp add: restored_def)

lemma file_record_image:
  assumes "ntfs_layout fs num" "ntfs_calm s" "file_record fs (nt_disk s) num rec"
  shows "mft_image fs s num = (0, rec @ drop (512 * nf_mft_sectors fs) (nt_mft s))" "mft_record_ok fs s num" "length rec = 512 * nf_mft_sectors fs"
proof -
  define k where "k = nf_mft_sectors fs"
  define raw where "raw = read_sectors (nt_disk s) (nf_drive_type fs) (nf_drive fs) (nf_mft_lba fs + num * k) k"
  define tail where "tail = drop (512 * k) (nt_mft s)"
  obtain fo where f: "take 4 raw = [0x46, 0x49, 0x4C, 0x45]" "field raw 4 2 fo" "field raw 6 2 (k + 1)" "fo + 2 * k + 2 \<le> 510"
    "\<forall>j < k. sector_end raw j = usa_entry fo raw 0" "rec = restored fo k raw"
    using assms(3) unfolding file_record_def Let_def k_def [symmetric] raw_def [symmetric] by blast
  have g: "1 \<le> k" "k \<le> 8" "nf_mft_record_size fs = 512 * k" "nf_mft_lba fs + num * k < 2 ^ 64"
    using assms(1) by (simp_all add: ntfs_layout_def ntfs_geometry_def k_def)
  have l: "length raw = 512 * k" using assms(2) by (simp add: raw_def ntfs_calm_def length_read_sectors)
  have m: "mft_sectors fs (nt_disk s) num = raw"
    using g(4) unfolding mft_sectors_def raw_def k_def [symmetric] add64_def mul64_def by (simp add: mod_simps)
  have b: "overwrite (nt_mft s) raw = raw @ tail" by (simp add: overwrite_def l tail_def)
  have e: "le16 (raw @ tail) 4 = fo" "le16 (raw @ tail) 6 = k + 1"
    using f(2,3) l g(1) fields(1) field_append [of 4 2 raw tail] field_append [of 6 2 raw tail] by simp_all
  have mk: "min (k + 1 - 1) (512 * k div 512) = k" by simp
  have se: "sector_end (raw @ tail) j = usa_entry fo (raw @ tail) 0" if "j < k" for j
    using f(4,5) that l by (simp add: sector_end_def usa_entry_def)
  note sp = apply_fixup_spec [of fo "k + 1" "512 * k" "raw @ tail", unfolded mk]
  have ok: "fst (apply_fixup (raw @ tail) fo (k + 1) (512 * k)) = 0" using sp(1) se f(4) l g(1) by simp
  then have "snd (apply_fixup (raw @ tail) fo (k + 1) (512 * k)) = rec @ tail" using sp(2) f(4,6) l g(1) restored_append [OF l f(4)] by simp
  with ok show i: "mft_image fs s num = (0, rec @ drop (512 * nf_mft_sectors fs) (nt_mft s))"
    unfolding mft_image_def m b Let_def e g(3) tail_def [symmetric] k_def [symmetric] by (simp add: prod_eq_iff)
  show "mft_record_ok fs s num" using i f(1) by (simp add: mft_record_ok_def m)
  show "length rec = 512 * nf_mft_sectors fs" using l by (simp add: f(6) restored_def k_def)
qed

text \<open>An attribute: its type, its length and the rest of it. The attributes of a record stand one behind the other; \<open>a\<close> is
  what follows the attributes \<open>pre\<close>.\<close>

definition attr_bytes :: "nat \<times> u8 list \<Rightarrow> u8 list" where
  "attr_bytes = (\<lambda>(ty, body). le_digits 4 ty @ le_digits 4 (8 + length body) @ body)"

definition attr_follows :: "u8 list \<Rightarrow> (nat \<times> u8 list) list \<Rightarrow> u8 list \<Rightarrow> bool" where
  "attr_follows rec pre a \<longleftrightarrow>
     (\<exists>off used. field rec 20 2 off \<and> field rec 24 4 used \<and> drop off rec = concat (map attr_bytes pre) @ a \<and>
        off + length (concat (map attr_bytes pre)) + 16 \<le> used \<and>
        (\<forall>(ty, body) \<in> set pre. ty < 2 ^ 32 \<and> ty \<noteq> 0x80 \<and> ty \<noteq> 0xFFFFFFFF))"

lemma find_attr_from_skips:
  "buf = u @ concat (map attr_bytes pre) @ a \<Longrightarrow> length buf < 2 ^ 32 \<Longrightarrow> length u + length (concat (map attr_bytes pre)) + 16 \<le> le32 buf 24 \<Longrightarrow>
    \<forall>(ty, body) \<in> set pre. ty < 2 ^ 32 \<and> ty \<noteq> 0x80 \<and> ty \<noteq> 0xFFFFFFFF \<Longrightarrow> field a 0 4 0x80 \<Longrightarrow> field a 4 4 alen \<Longrightarrow> 0 < alen \<Longrightarrow>
    find_attr_from buf NTFS_ATTR_DATA (length u) = Some (Some (length u + length (concat (map attr_bytes pre))))"
proof (induction pre arbitrary: u)
  case Nil
  have "field buf (length u) 4 0x80" "field buf (length u + 4) 4 alen" using Nil.prems by (simp_all add: field_def)
  note e = this [THEN fields(2)]
  show ?case using Nil.prems e by (subst find_attr_from.simps) (simp add: NTFS_ATTR_END_def NTFS_ATTR_DATA_def)
next
  case (Cons p pre)
  obtain ty body where p: "p = (ty, body)" by fastforce
  have t: "ty < 2 ^ 32" "ty \<noteq> 0x80" "ty \<noteq> 0xFFFFFFFF" using Cons.prems(4) p by simp_all
  have l: "length u + 8 + length body < 2 ^ 32" using Cons.prems(1,2) by (simp add: p attr_bytes_def)
  have "field buf (length u) 4 ty" "field buf (length u + 4) 4 (8 + length body)"
    using Cons.prems(1) t(1) l by (simp_all add: field_def p attr_bytes_def)
  note e = this [THEN fields(2)]
  have n: "add32 (length u) (8 + length body) = length (u @ attr_bytes p)" using l by (simp add: add32_def p attr_bytes_def)
  have "find_attr_from buf NTFS_ATTR_DATA (length u) = find_attr_from buf NTFS_ATTR_DATA (length (u @ attr_bytes p))"
    using Cons.prems(3) e t unfolding n [symmetric]
    by (subst find_attr_from.simps) (simp add: NTFS_ATTR_END_def NTFS_ATTR_DATA_def p attr_bytes_def)
  also have "\<dots> = Some (Some (length (u @ attr_bytes p) + length (concat (map attr_bytes pre))))"
    using Cons.prems by (intro Cons.IH) simp_all
  finally show ?case by simp
qed

lemma find_attr_follows:
  assumes "attr_follows rec pre a" "length rec = 512 * k" "1 \<le> k" "k \<le> 8" "length tail \<le> 2 ^ 16" "field a 0 4 0x80" "field a 4 4 alen" "0 < alen"
  shows "\<exists>at. find_attr (rec @ tail) NTFS_ATTR_DATA = Some (Some at) \<and> drop at rec = a \<and> at + 8 \<le> length rec"
proof -
  obtain off used where f: "field rec 20 2 off" "field rec 24 4 used" "drop off rec = concat (map attr_bytes pre) @ a"
    "off + length (concat (map attr_bytes pre)) + 16 \<le> used" "\<forall>(ty, body) \<in> set pre. ty < 2 ^ 32 \<and> ty \<noteq> 0x80 \<and> ty \<noteq> 0xFFFFFFFF"
    using assms(1) unfolding attr_follows_def by blast
  let ?p = "concat (map attr_bytes pre)"
  have "8 \<le> length a" using field_byte(2) [OF assms(7), of 0] by simp
  moreover have dl: "length (drop off rec) = length ?p + length a" by (simp add: f(3))
  ultimately have la: "off + length ?p + 8 \<le> length rec" by simp
  have u: "length (take off rec) = off" using la by simp
  have b: "rec @ tail = take off rec @ ?p @ a @ tail" using f(3) append_take_drop_id [of off rec] by (metis append.assoc)
  have "le16 (rec @ tail) 20 = off" "le32 (rec @ tail) 24 = used"
    using f(1,2) fields field_append [of 20 2 rec tail] field_append [of 24 4 rec tail] assms(2,3) by simp_all
  moreover have "field (a @ tail) 0 4 0x80" "field (a @ tail) 4 4 alen" using assms(6,7) \<open>8 \<le> length a\<close> by (simp_all add: field_append)
  ultimately have "find_attr (rec @ tail) NTFS_ATTR_DATA = Some (Some (off + length ?p))"
    using find_attr_from_skips [OF b _ _ f(5), of alen] u f(4) assms(2,4,5,8) by (simp add: find_attr_def)
  moreover have "drop (off + length ?p) rec = a" using f(3) drop_drop [of "length ?p" off rec] by (simp add: add.commute)
  ultimately show ?thesis using la by auto
qed
section \<open>File contents\<close>

text \<open>The data of a file: the value itself, or a size and the runs of clusters that hold it. Cluster \<open>c\<close> of the volume begins
  \<open>c\<close> times the sectors per cluster behind the start of the partition.\<close>

datatype ntfs_data = Resident "u8 list" | Runs nat "run list"

definition ntfs_cluster_bytes :: "ntfs_fs \<Rightarrow> disk \<Rightarrow> nat \<Rightarrow> u8 list" where
  "ntfs_cluster_bytes fs d c = read_sectors d (nf_drive_type fs) (nf_drive fs) (nf_part_lba fs + c * nf_spc fs) (nf_spc fs)"

fun run_clusters :: "run list \<Rightarrow> nat list" where
  "run_clusters [] = []"
| "run_clusters ((lsz, osz, len, lcn) # rs) = [lcn ..< lcn + len] @ run_clusters rs"

fun data_bytes :: "ntfs_fs \<Rightarrow> disk \<Rightarrow> ntfs_data \<Rightarrow> u8 list" where
  "data_bytes fs d (Resident v) = v"
| "data_bytes fs d (Runs fsize rs) = take fsize (concat (map (ntfs_cluster_bytes fs d) (run_clusters rs)))"

text \<open>The attribute that holds the data; the driver works with sizes below 2 GiB.\<close>

fun data_attr :: "ntfs_fs \<Rightarrow> ntfs_data \<Rightarrow> u8 list \<Rightarrow> bool" where
  "data_attr fs (Resident v) a \<longleftrightarrow>
     (\<exists>voff. a ! 8 = 0 \<and> field a 16 4 (length v) \<and> field a 20 2 voff \<and> voff + length v \<le> length a \<and> take (length v) (drop voff a) = v)"
| "data_attr fs (Runs fsize rs) a \<longleftrightarrow>
     (\<exists>roff rest. a ! 8 = 1 \<and> field a 32 2 roff \<and> field a 48 8 fsize \<and> drop roff a = enc_runs 0 rs @ rest \<and> runs_fit 0 rs \<and>
        (\<forall>c \<in> set (run_clusters rs). c < 2 ^ 32) \<and> fsize < 2 ^ 31 \<and>
        fsize \<le> nf_cluster_size fs * length (run_clusters rs) \<and> nf_cluster_size fs * length (run_clusters rs) < 2 ^ 32)"

text \<open>Node \<open>n\<close> stands for a file of the volume \<open>fs\<close> with this data on the device.\<close>

definition ntfs_file_on :: "nat \<Rightarrow> ntfs_fs \<Rightarrow> ntfs_data \<Rightarrow> ntfs_state \<Rightarrow> bool" where
  "ntfs_file_on n fs data s \<longleftrightarrow>
     (let nd = nt_nodes s ! n in
      n < length (nt_nodes s) \<and> (\<exists>f. vn_private nd = Some f \<and> nt_fs s ! f = fs) \<and> vn_ops nd = ntfs_file_ops \<and>
      ntfs_layout fs (vn_inode nd) \<and> ntfs_calm s \<and> length (nt_mft s) = 4096 \<and>
      (\<exists>rec pre a alen. file_record fs (nt_disk s) (vn_inode nd) rec \<and> attr_follows rec pre a \<and>
         field a 0 4 0x80 \<and> field a 4 4 alen \<and> 0 < alen \<and> data_attr fs data a))"

lemma field_at: "drop at rec = a \<Longrightarrow> field a p n v \<Longrightarrow> 0 < n \<Longrightarrow> field (rec @ tail) (at + p) n v"
proof -
  assume a: "drop at rec = a" and f: "field a p n v" and n: "0 < n"
  have "field rec (at + p) n v" using a f by (auto simp: field_def add.commute)
  moreover from field_byte(2) [OF this n] have "at + p + n \<le> length rec" .
  ultimately show ?thesis by (simp add: field_append)
qed

lemma run_bytes_clusters:
  assumes "nf_part_lba fs < 2 ^ 63" "nf_spc fs \<le> 8" "\<forall>c \<in> set [lcn ..< lcn + len]. c < 2 ^ 32"
  shows "run_bytes fs d lcn len = concat (map (ntfs_cluster_bytes fs d) [lcn ..< lcn + len])"
proof -
  have "ntfs_cluster fs d (add32 lcn i) = ntfs_cluster_bytes fs d (lcn + i)" if "i < len" for i
  proof -
    have c: "lcn + i < 2 ^ 32" using assms(3) that by simp
    then have "(lcn + i) * nf_spc fs \<le> 2 ^ 32 * 8" using assms(2) by (intro mult_le_mono) auto
    then show ?thesis using c assms(1) by (simp add: ntfs_cluster_def ntfs_cluster_bytes_def add32_def add64_def mul64_def)
  qed
  then have "run_bytes fs d lcn len = concat (map (\<lambda>i. ntfs_cluster_bytes fs d (lcn + i)) [0 ..< len])"
    unfolding run_bytes_def by (intro arg_cong [where f = concat] map_cong) auto
  also have "map (\<lambda>i. ntfs_cluster_bytes fs d (lcn + i)) [0 ..< len] = map (ntfs_cluster_bytes fs d) [lcn ..< lcn + len]"
    by (intro nth_equalityI) simp_all
  finally show ?thesis .
qed

lemma runs_data_clusters:
  assumes "nf_part_lba fs < 2 ^ 63" "nf_spc fs \<le> 8"
  shows "\<forall>c \<in> set (run_clusters rs). c < 2 ^ 32 \<Longrightarrow>
    runs_data fs d (map (\<lambda>(lsz, osz, len, lcn). (lcn, len)) rs) = concat (map (ntfs_cluster_bytes fs d) (run_clusters rs))"
  by (induction rs rule: run_clusters.induct) (simp_all add: run_bytes_clusters [OF assms])

lemma length_clusters:
  "ntfs_geometry fs \<Longrightarrow> disk_ok d \<Longrightarrow> length (concat (map (ntfs_cluster_bytes fs d) cs)) = nf_cluster_size fs * length cs"
  by (induction cs) (simp_all add: ntfs_cluster_bytes_def length_read_sectors ntfs_geometry_def)

text \<open>On such a file the driver finds the attribute, and what it decodes is the data.\<close>

lemma ntfs_file_on_at:
  assumes "ntfs_file_on n fs data s"
  shows "\<exists>at. ntfs_file_at n fs at s \<and> ntfs_contents n fs at s = data_bytes fs (nt_disk s) data"
proof -
  let ?nd = "nt_nodes s ! n" and ?tail = "drop (512 * nf_mft_sectors fs) (nt_mft s)"
  obtain rec pre a alen where f: "file_record fs (nt_disk s) (vn_inode ?nd) rec" "attr_follows rec pre a"
    "field a 0 4 0x80" "field a 4 4 alen" "0 < alen" "data_attr fs data a"
    using assms unfolding ntfs_file_on_def Let_def by blast
  have h: "n < length (nt_nodes s)" "\<exists>f. vn_private ?nd = Some f \<and> nt_fs s ! f = fs" "vn_ops ?nd = ntfs_file_ops" "ntfs_layout fs (vn_inode ?nd)" "ntfs_calm s"
    "length (nt_mft s) = 4096" using assms unfolding ntfs_file_on_def Let_def by blast+
  have g: "ntfs_geometry fs" "nf_part_lba fs < 2 ^ 63" "nf_spc fs \<le> 8" "1 \<le> nf_mft_sectors fs" "nf_mft_sectors fs \<le> 8" "disk_ok (nt_disk s)"
    using h(4,5) by (simp_all add: ntfs_layout_def ntfs_geometry_def ntfs_calm_def)
  note im = file_record_image [OF h(4,5) f(1)]
  have "length ?tail \<le> 2 ^ 16" using h(6) by simp
  from find_attr_follows [OF f(2) im(3) g(4,5) this f(3-5)] obtain at where
    at: "find_attr (rec @ ?tail) NTFS_ATTR_DATA = Some (Some at)" "drop at rec = a" "at + 8 \<le> length rec" by blast
  note fa = field_at [OF at(2), of _ _ _ ?tail]
  have b8: "byte_at (rec @ ?tail) (at + 8) = a ! 8" if "8 < length a"
    using that at(2) by (auto simp: byte_at_def nth_append)
  let ?buf = "rec @ ?tail"
  have "(ntfs_resident (nf_mft_sectors fs) ?buf at \<or> ntfs_nonresident fs (nt_disk s) ?buf at) \<and>
      ntfs_contents n fs at s = data_bytes fs (nt_disk s) data"
  proof (cases data)
    case (Resident v)
    obtain voff where v: "a ! 8 = 0" "field a 16 4 (length v)" "field a 20 2 voff" "voff + length v \<le> length a" "take (length v) (drop voff a) = v"
      using f(6) Resident by auto
    have "8 < length a" using field_byte(2) [OF v(2), of 0] by simp
    then have nr: "\<not> at_non_resident ?buf at" using b8 v(1) by (simp add: at_non_resident_def)
    have e: "at_value_length ?buf at = length v" "at_value_offset ?buf at = voff"
      using fields(1,2) fa v(2,3) by (simp_all add: at_value_length_def at_value_offset_def)
    have l: "at + voff + length v \<le> length rec" using v(4) at(2,3) by auto
    have "take (length v) (drop (at + voff) ?buf) = v" using v(5) at(2) l by (auto simp: add.commute)
    then show ?thesis using nr e l im h(6) g(5) Resident by (auto simp: ntfs_resident_def ntfs_contents_def)
  next
    case (Runs fsize rs)
    obtain roff rest where r: "a ! 8 = 1" "field a 32 2 roff" "field a 48 8 fsize" "drop roff a = enc_runs 0 rs @ rest" "runs_fit 0 rs"
      "\<forall>c \<in> set (run_clusters rs). c < 2 ^ 32" "fsize < 2 ^ 31"
      "fsize \<le> nf_cluster_size fs * length (run_clusters rs)" "nf_cluster_size fs * length (run_clusters rs) < 2 ^ 32"
      using f(6) Runs by auto
    have "8 < length a" using field_byte(2) [OF r(3), of 0] by simp
    then have nr: "at_non_resident ?buf at" using b8 r(1) by (simp add: at_non_resident_def)
    have "field ?buf (at + 48) 8 fsize" using fa r(3) by simp
    then have e: "at_real_size ?buf at = fsize" "at_runs_offset ?buf at = roff"
      using fields(1) fields(3) [of ?buf "at + 48" fsize] fa r(2,7) by (simp_all add: at_real_size_def at_runs_offset_def)
    have d: "drop (at + roff) rec = enc_runs 0 rs @ rest" using r(4) at(2) by (auto simp: add.commute)
    then have "at + roff \<le> length rec" by (cases rs) (auto simp: enc_run_def intro!: leI)
    then have u: "length (take (at + roff) rec) = at + roff" by simp
    have b: "?buf = take (at + roff) rec @ enc_runs 0 rs @ rest @ ?tail" using d append_take_drop_id [of "at + roff" rec] by (metis append.assoc)
    note ro = runs_of_enc [OF r(5), of "take (at + roff) rec" "rest @ ?tail", folded b, unfolded u]
    have "runs_data fs (nt_disk s) (runs_of ?buf (at + roff) 0) = concat (map (ntfs_cluster_bytes fs (nt_disk s)) (run_clusters rs))"
      using ro runs_data_clusters [OF g(2,3) r(6)] by simp
    moreover note length_clusters [OF g(1,6), of "run_clusters rs"]
    ultimately show ?thesis using nr e ro r(7-9) im(1) Runs by (simp add: ntfs_nonresident_def ntfs_contents_def Let_def)
  qed
  then show ?thesis using h g(1) im at(1) unfolding ntfs_file_at_def Let_def by auto
qed
text \<open>C38: a file of an NTFS volume is written on the device in the layout of the format: its record with the update
  sequence in the sector ends, other attributes before the data attribute, there the value itself or the data runs
  with their lengths and signed distances, the clusters at their places in the partition. A program that reads it
  through a descriptor with any sequence of request sizes gets, one after the other, the bytes of the file from the
  descriptor's offset on, without gap or repetition, up to its size; every read returns and the descriptor's offset ends
  where the delivered bytes end. The device is healthy, the file has less than 2 GiB and no sparse run.\<close>

theorem vfs_ntfs_stream:
  assumes "caller_ok v" "open_fd fd v = Some e" "fd_node e = Some n" "ntfs_file_on n fs data (v_fs v)"
    "\<forall>k \<in> set ks. k < 2 ^ 32" "unat (fd_offset e) + sum_list ks < 2 ^ 63"
  shows "\<exists>v' e'. vfs_read_seq (ntfs_driver fat_mount ext2_mount xfs_mount fat_defrag ext2_defrag) fd ks v =
      Some (take (sum_list ks) (drop (unat (fd_offset e)) (data_bytes fs (nt_disk (v_fs v)) data)), v') \<and>
    open_fd fd v' = Some e' \<and> fd_node e' = Some n \<and>
    unat (fd_offset e') = unat (fd_offset e) + min (sum_list ks) (length (data_bytes fs (nt_disk (v_fs v)) data) - unat (fd_offset e))"
proof -
  obtain at where at: "ntfs_file_at n fs at (v_fs v)" "ntfs_contents n fs at (v_fs v) = data_bytes fs (nt_disk (v_fs v)) data"
    using ntfs_file_on_at [OF assms(4)] by blast
  show ?thesis using ntfs_stream [OF assms(1-3) at(1) assms(5,6)] unfolding at(2) .
qed

text \<open>A volume of 512-byte clusters with a file of 600 bytes: record 1 of two sectors with an attribute of type 0x10 before
  the data attribute; the data is in cluster 21 and then, with a negative distance, in cluster 20.\<close>

definition ntfs_vol :: ntfs_fs where
  "ntfs_vol = \<lparr>nf_drive = 0, nf_drive_type = 0, nf_part_lba = 0, nf_spc = 1, nf_cluster_size = 512, nf_mft_lba = 4,
     nf_mft_record_size = 1024, nf_mft_sectors = 2, nf_index_record_size = 4096\<rparr>"

definition ntfs_rec_byte :: "nat \<Rightarrow> u8" where
  "ntfs_rec_byte i =
     (case map_of [(0, 0x46), (1, 0x49), (2, 0x4C), (3, 0x45), (4, 48), (6, 3), (20, 56), (25, 1), (48, 7), (56, 0x10), (60, 24),
        (80, 0x80), (84, 72), (88, 1), (112, 64), (128, 0x58), (129, 2), (144, 0x11), (145, 1), (146, 21), (147, 0x11), (148, 1),
        (149, 0xFF), (510, 7), (1022, 7)] i of None \<Rightarrow> 0 | Some b \<Rightarrow> b)"

text \<open>The bytes of the record from \<open>a\<close> up to \<open>b\<close>.\<close>

definition ntfs_rec_part :: "nat \<Rightarrow> nat \<Rightarrow> u8 list" where
  "ntfs_rec_part a b = map ntfs_rec_byte [a ..< b]"

lemma ntfs_rec_part_append: "a \<le> b \<Longrightarrow> b \<le> c \<Longrightarrow> ntfs_rec_part a b @ ntfs_rec_part b c = ntfs_rec_part a c"
  using upt_add_eq_append [of a b "c - b"] by (simp add: ntfs_rec_part_def)

lemma length_ntfs_rec_part [simp]: "length (ntfs_rec_part a b) = b - a"
  by (simp add: ntfs_rec_part_def)

lemma ntfs_rec_slice: "p + n \<le> b \<Longrightarrow> take n (drop p (ntfs_rec_part 0 b)) = map ntfs_rec_byte [p ..< p + n]"
  by (simp add: ntfs_rec_part_def take_map drop_map)

definition ntfs_disk_example :: disk where
  "ntfs_disk_example = \<lparr>dk_sec = \<lambda>ty drv lba. if lba = 6 then ntfs_rec_part 0 512
     else if lba = 7 then ntfs_rec_part 512 1024 else if lba = 20 then replicate 512 9
     else if lba = 21 then replicate 512 7 else replicate 512 0, dk_plan = []\<rparr>"

definition ntfs_state_example :: ntfs_state where
  "ntfs_state_example = \<lparr>nt_disk = ntfs_disk_example, nt_fs = [ntfs_vol],
     nt_nodes = [\<lparr>vn_name = [0x61], vn_type = VFS_FILE, vn_size = 600, vn_inode = 1, vn_ops = ntfs_file_ops, vn_parent = None, vn_private = Some 0\<rparr>],
     nt_mft = replicate 4096 0, nt_data = replicate 4096 0, nt_indx = replicate 4096 0\<rparr>"

definition ntfs_rec_example :: "u8 list" where
  "ntfs_rec_example = restored 48 2 (ntfs_rec_part 0 1024)"

definition ntfs_data_example :: ntfs_data where
  "ntfs_data_example = Runs 600 [(1, 1, 1, 21), (1, 1, 1, 20)]"

lemma ntfs_rec_example_record: "file_record ntfs_vol ntfs_disk_example 1 ntfs_rec_example"
proof -
  have "[0 ..< 2] = [0, 1 :: nat]" by (simp add: upt_rec)
  then have raw: "read_sectors ntfs_disk_example 0 0 6 2 = ntfs_rec_part 0 1024"
    using ntfs_rec_part_append [of 0 512 1024] by (simp add: read_sectors_def ntfs_disk_example_def)
  note e = ntfs_rec_slice upt_rec ntfs_rec_byte_def
  have "sector_end (ntfs_rec_part 0 1024) j = usa_entry 48 (ntfs_rec_part 0 1024) 0" if "j < 2" for j
  proof -
    have "512 * j + 510 = 510 \<or> 512 * j + 510 = 1022" using that by auto
    then have "sector_end (ntfs_rec_part 0 1024) j = [7, 0]"
      using ntfs_rec_slice [of 510 2 1024] ntfs_rec_slice [of 1022 2 1024] by (auto simp: sector_end_def upt_rec ntfs_rec_byte_def)
    moreover have "usa_entry 48 (ntfs_rec_part 0 1024) 0 = [7, 0]" by (simp add: usa_entry_def e)
    ultimately show ?thesis by simp
  qed
  moreover have "take 4 (ntfs_rec_part 0 1024) = [0x46, 0x49, 0x4C, 0x45]" using ntfs_rec_slice [of 0 4 1024] by (simp add: upt_rec ntfs_rec_byte_def)
  moreover have "field (ntfs_rec_part 0 1024) 4 2 48" "field (ntfs_rec_part 0 1024) 6 2 3" by (simp_all add: field_def le_digits_numeral e)
  ultimately show ?thesis unfolding file_record_def by (intro exI [of _ 48]) (simp add: Let_def raw ntfs_vol_def ntfs_rec_example_def)
qed

lemma ntfs_rec_example_slice: "p + n \<le> 510 \<Longrightarrow> take n (drop p ntfs_rec_example) = map ntfs_rec_byte [p ..< p + n]"
proof (rule nth_equalityI)
  assume pn: "p + n \<le> 510"
  have l: "length ntfs_rec_example = 1024" by (simp add: ntfs_rec_example_def restored_def)
  show "length (take n (drop p ntfs_rec_example)) = length (map ntfs_rec_byte [p ..< p + n])" using pn l by simp
  fix i assume "i < length (take n (drop p ntfs_rec_example))"
  then have "i < n" by simp
  then show "take n (drop p ntfs_rec_example) ! i = map ntfs_rec_byte [p ..< p + n] ! i"
    using pn l by (simp add: ntfs_rec_example_def restored_def ntfs_rec_part_def)
qed

lemma ntfs_example_on: "ntfs_file_on 0 ntfs_vol ntfs_data_example ntfs_state_example"
proof -
  let ?a = "drop 80 ntfs_rec_example"
  note e = ntfs_rec_example_slice upt_rec ntfs_rec_byte_def
  have l: "length ntfs_rec_example = 1024" by (simp add: ntfs_rec_example_def restored_def)
  have fs: "field ntfs_rec_example 20 2 56" "field ntfs_rec_example 24 4 256" "field ?a 0 4 0x80" "field ?a 4 4 72" "field ?a 32 2 64" "field ?a 48 8 600"
    by (simp_all add: field_def e le_digits_numeral)
  have "drop 56 ntfs_rec_example = take 24 (drop 56 ntfs_rec_example) @ ?a" using append_take_drop_id [of 24 "drop 56 ntfs_rec_example"] by simp
  also have "take 24 (drop 56 ntfs_rec_example) = attr_bytes (0x10, replicate 16 0)" by (simp add: e attr_bytes_def le_digits_numeral) (simp add: numeral_eq_Suc)
  finally have at: "attr_follows ntfs_rec_example [(0x10, replicate 16 0)] ?a"
    unfolding attr_follows_def using fs(1,2) by (intro exI [of _ 56] exI [of _ 256]) (simp add: attr_bytes_def)
  have "drop 64 ?a = take 7 (drop 144 ntfs_rec_example) @ drop 7 (drop 144 ntfs_rec_example)"
    using append_take_drop_id [of 7 "drop 144 ntfs_rec_example"] by simp
  also have "take 7 (drop 144 ntfs_rec_example) = enc_runs 0 [(1, 1, 1, 21), (1, 1, 1, 20)]" by (simp add: e enc_run_def)
  finally have rs: "drop 64 ?a = enc_runs 0 [(1, 1, 1, 21), (1, 1, 1, 20)] @ drop 7 (drop 144 ntfs_rec_example)" .
  have nr: "?a ! 8 = 1" using ntfs_rec_example_slice [of 88 1] take_Suc_conv_app_nth [of 0 "drop 88 ntfs_rec_example"] l by (simp add: ntfs_rec_byte_def)
  have "data_attr ntfs_vol ntfs_data_example ?a"
    unfolding ntfs_data_example_def data_attr.simps using nr fs(5,6) rs
    by (intro exI [of _ 64] exI [of _ "drop 7 (drop 144 ntfs_rec_example)"]) (simp add: run_fits_def ntfs_vol_def)
  moreover have "ntfs_calm ntfs_state_example"
    by (auto simp: ntfs_calm_def ntfs_state_example_def ntfs_disk_example_def disk_ok_def healthy_def)
  moreover have "ntfs_layout ntfs_vol 1" by (simp add: ntfs_layout_def ntfs_geometry_def ntfs_vol_def)
  moreover have "\<exists>rec pre a alen. file_record ntfs_vol ntfs_disk_example 1 rec \<and> attr_follows rec pre a \<and>
      field a 0 4 0x80 \<and> field a 4 4 alen \<and> 0 < alen \<and> data_attr ntfs_vol ntfs_data_example a"
    using ntfs_rec_example_record at fs(3,4) calculation(1)
    by (intro exI [of _ ntfs_rec_example] exI [of _ "[(0x10, replicate 16 0)]"] exI [of _ ?a] exI [of _ 72]) simp
  ultimately show ?thesis unfolding ntfs_file_on_def Let_def by (simp add: ntfs_state_example_def)
qed

definition ntfs_fd_example :: file_descriptor where
  "ntfs_fd_example = \<lparr>fd_node = Some 0, fd_offset = 510, fd_flags = 1, fd_active = True\<rparr>"

definition ntfs_vfs_example :: "ntfs_state vfs" where
  "ntfs_vfs_example = \<lparr>mount_table = [], v_sched = sched_zero\<lparr>cur_task := Some Idle,
     idle_task := task_zero\<lparr>t_fd_table := ntfs_fd_example # replicate 63 fd_zero\<rparr>\<rparr>, v_fs = ntfs_state_example\<rparr>"

definition ntfs_no_mount :: ntfs_mount_fn where "ntfs_no_mount ty drv lba mp s = (- 1, mp, s)"
definition ntfs_no_defrag :: ntfs_defrag_fn where "ntfs_no_defrag n s = Some (- 1, (0, 0, 0), s)"

theorem vfs_ntfs_stream_witness:
  "\<exists>v'. vfs_read_seq (ntfs_driver ntfs_no_mount ntfs_no_mount ntfs_no_mount ntfs_no_defrag ntfs_no_defrag) 0 [1, 3] ntfs_vfs_example =
     Some ([7, 7, 9, 9], v')"
proof -
  have ok: "caller_ok ntfs_vfs_example" "open_fd 0 ntfs_vfs_example = Some ntfs_fd_example"
    by (simp_all add: caller_ok_def ntfs_vfs_example_def fdt_def sched_current_task_def caller_def get_task_def open_fd_def MAX_FD_def ntfs_fd_example_def)
  have f: "ntfs_file_on 0 ntfs_vol ntfs_data_example (v_fs ntfs_vfs_example)" "fd_node ntfs_fd_example = Some 0"
    using ntfs_example_on by (simp_all add: ntfs_vfs_example_def ntfs_fd_example_def)
  have c: "data_bytes ntfs_vol (nt_disk (v_fs ntfs_vfs_example)) ntfs_data_example = replicate 512 7 @ replicate 88 9"
    by (simp add: ntfs_vfs_example_def ntfs_state_example_def ntfs_data_example_def ntfs_cluster_bytes_def read_sectors_def ntfs_vol_def ntfs_disk_example_def)
  have o: "unat (fd_offset ntfs_fd_example) = 510" by (simp add: ntfs_fd_example_def)
  have "\<forall>k \<in> set [1, 3 :: nat]. k < 2 ^ 32" "unat (fd_offset ntfs_fd_example) + sum_list [1, 3] < 2 ^ 63" by (simp_all add: o)
  from vfs_ntfs_stream [OF ok f(2,1) this, of ntfs_no_mount ntfs_no_mount ntfs_no_mount ntfs_no_defrag ntfs_no_defrag]
  obtain v' where "vfs_read_seq (ntfs_driver ntfs_no_mount ntfs_no_mount ntfs_no_mount ntfs_no_defrag ntfs_no_defrag) 0 [1, 3] ntfs_vfs_example =
      Some (take (sum_list [1, 3]) (drop 510 (replicate 512 7 @ replicate 88 9)), v')"
    unfolding c o by blast
  moreover have "take (sum_list [1, 3]) (drop 510 (replicate 512 7 @ replicate 88 9)) = [7, 7, 9, 9 :: u8]"
    by (simp add: numeral_2_eq_2)
  ultimately show ?thesis by (simp del: vfs_read_seq.simps)
qed

end
