(* ===== verification/KSort.thy ===== *)
theory KSort
  imports Prelude "HOL-Library.Multiset"
begin

text \<open>
  \<open>libc/sort.c\<close>: quicksort with an insertion sort for small ranges, and binary search. The array is a stretch of
  \<open>n\<close> elements of \<open>sz\<close> bytes in a byte memory, from offset \<open>base\<close> on; a pointer into it is the index of the element.
  The comparison function is a parameter that sees the bytes of two elements. Shown: for every comparison that is a
  total preorder the array ends sorted with the same elements, nothing else of the memory changes, and a search in a
  sorted array finds a match exactly when there is one.
\<close>

section \<open>The code\<close>

definition el :: "u8 list \<Rightarrow> nat \<Rightarrow> nat \<Rightarrow> nat \<Rightarrow> u8 list" where
  "el m base sz k = take sz (drop (base + k * sz) m)"

fun bswap :: "u8 list \<Rightarrow> nat \<Rightarrow> nat \<Rightarrow> nat \<Rightarrow> u8 list" where
  "bswap m a b 0 = m"
| "bswap m a b (Suc sz) = bswap (m[a := m ! b, b := m ! a]) (a + 1) (b + 1) sz"

text \<open>The swap of elements \<open>i\<close> and \<open>j\<close> of the array.\<close>

definition swap_el :: "u8 list \<Rightarrow> nat \<Rightarrow> nat \<Rightarrow> nat \<Rightarrow> nat \<Rightarrow> u8 list" where
  "swap_el m base sz i j = bswap m (base + i * sz) (base + j * sz) sz"

type_synonym comparison = "u8 list \<Rightarrow> u8 list \<Rightarrow> int"

definition med3 :: "u8 list \<Rightarrow> nat \<Rightarrow> nat \<Rightarrow> comparison \<Rightarrow> nat \<Rightarrow> nat \<Rightarrow> nat \<Rightarrow> nat" where
  "med3 m base sz cmp a b c =
     (let e = el m base sz in
      if cmp (e a) (e b) < 0 then
        if cmp (e b) (e c) < 0 then b else if cmp (e a) (e c) < 0 then c else a
      else if cmp (e b) (e c) > 0 then b
      else if cmp (e a) (e c) > 0 then c else a)"

definition ISORT_MAX :: nat where "ISORT_MAX = 8"

fun isort_inner :: "u8 list \<Rightarrow> nat \<Rightarrow> nat \<Rightarrow> comparison \<Rightarrow> nat \<Rightarrow> u8 list" where
  "isort_inner m base sz cmp 0 = m"
| "isort_inner m base sz cmp (Suc j) =
     (if cmp (el m base sz j) (el m base sz (Suc j)) > 0
      then isort_inner (swap_el m base sz j (Suc j)) base sz cmp j else m)"

function isort_from :: "u8 list \<Rightarrow> nat \<Rightarrow> nat \<Rightarrow> nat \<Rightarrow> comparison \<Rightarrow> nat \<Rightarrow> u8 list" where
  "isort_from m base n sz cmp i =
     (if i < n then isort_from (isort_inner m base sz cmp i) base n sz cmp (i + 1) else m)"
  by pat_completeness auto
termination
  by (relation "measure (\<lambda>(m, base, n, sz, cmp, i). n - i)") auto

declare isort_from.simps [simp del]

definition isort :: "u8 list \<Rightarrow> nat \<Rightarrow> nat \<Rightarrow> nat \<Rightarrow> comparison \<Rightarrow> u8 list" where
  "isort m base n sz cmp = isort_from m base n sz cmp 1"

text \<open>The partition loop; the pivot is the last element.\<close>

function part_loop :: "u8 list \<Rightarrow> nat \<Rightarrow> nat \<Rightarrow> nat \<Rightarrow> comparison \<Rightarrow> nat \<Rightarrow> nat \<Rightarrow> u8 list \<times> nat" where
  "part_loop m base n sz cmp i j =
     (if j < n - 1 then
        if cmp (el m base sz j) (el m base sz (n - 1)) \<le> 0
        then part_loop (swap_el m base sz i j) base n sz cmp (i + 1) (j + 1)
        else part_loop m base n sz cmp i (j + 1)
      else (m, i))"
  by pat_completeness auto
termination
  by (relation "measure (\<lambda>(m, base, n, sz, cmp, i, j). n - 1 - j)") auto

declare part_loop.simps [simp del]

definition split_at_pivot :: "u8 list \<Rightarrow> nat \<Rightarrow> nat \<Rightarrow> nat \<Rightarrow> comparison \<Rightarrow> u8 list \<times> nat" where
  "split_at_pivot m base n sz cmp =
     (let piv = med3 m base sz cmp 0 (n div 2) (n - 1);
          m = swap_el m base sz piv (n - 1);
          (m, i) = part_loop m base n sz cmp 0 0
      in (swap_el m base sz i (n - 1), i))"

lemma part_loop_bound: "i \<le> j \<Longrightarrow> j \<le> n - 1 \<Longrightarrow> snd (part_loop m base n sz cmp i j) \<le> n - 1"
proof (induction m base n sz cmp i j rule: part_loop.induct)
  case (1 m base n sz cmp i j)
  then show ?case by (subst part_loop.simps) simp
qed

lemma split_bound: "split_at_pivot m base n sz cmp = (m', i) \<Longrightarrow> i \<le> n - 1"
  using part_loop_bound [of 0 0 n "swap_el m base sz (med3 m base sz cmp 0 (n div 2) (n - 1)) (n - 1)" base sz cmp]
  by (auto simp: split_at_pivot_def split: prod.splits)

function qsort_impl :: "u8 list \<Rightarrow> nat \<Rightarrow> nat \<Rightarrow> nat \<Rightarrow> comparison \<Rightarrow> u8 list" where
  "qsort_impl m base n sz cmp =
     (if n < 2 then m
      else if n \<le> ISORT_MAX then isort m base n sz cmp
      else
        let (m, i) = split_at_pivot m base n sz cmp;
            m = (if i > 0 then qsort_impl m base i sz cmp else m)
        in if n - i > 2 then qsort_impl m (base + (i + 1) * sz) (n - i - 1) sz cmp else m)"
  by pat_completeness auto
termination
  by (relation "measure (\<lambda>(m, base, n, sz, cmp). n)") (auto dest!: sym [THEN split_bound])

declare qsort_impl.simps [simp del]

definition ksort :: "u8 list \<Rightarrow> nat \<Rightarrow> nat \<Rightarrow> nat \<Rightarrow> comparison \<Rightarrow> u8 list" where
  "ksort m base n sz cmp = qsort_impl m base n sz cmp"

text \<open>The search: \<open>lo\<close> is the index of the element that the pointer \<open>lo\<close> points to.\<close>

function bsearch_from :: "u8 list \<Rightarrow> u8 list \<Rightarrow> nat \<Rightarrow> nat \<Rightarrow> comparison \<Rightarrow> nat \<Rightarrow> nat \<Rightarrow> nat option" where
  "bsearch_from key m base sz cmp lo hi =
     (if hi > 0 then
        let mid = hi div 2; r = cmp key (el m base sz (lo + mid)) in
        if r = 0 then Some (lo + mid)
        else if r > 0 then bsearch_from key m base sz cmp (lo + (mid + 1)) (hi - (mid + 1))
        else bsearch_from key m base sz cmp lo mid
      else None)"
  by pat_completeness auto
termination
  by (relation "measure (\<lambda>(key, m, base, sz, cmp, lo, hi). hi)") auto

declare bsearch_from.simps [simp del]

definition kbsearch :: "u8 list \<Rightarrow> u8 list \<Rightarrow> nat \<Rightarrow> nat \<Rightarrow> nat \<Rightarrow> comparison \<Rightarrow> nat option" where
  "kbsearch key m base n sz cmp = bsearch_from key m base sz cmp 0 n"

section \<open>The array as a list of elements\<close>

definition view :: "u8 list \<Rightarrow> nat \<Rightarrow> nat \<Rightarrow> nat \<Rightarrow> u8 list list" where
  "view m base n sz = map (el m base sz) [0 ..< n]"

text \<open>Two memories that agree outside a stretch.\<close>

definition same_outside :: "nat \<Rightarrow> nat \<Rightarrow> u8 list \<Rightarrow> u8 list \<Rightarrow> bool" where
  "same_outside a b m m' \<longleftrightarrow> length m' = length m \<and> (\<forall>k < length m. k < a \<or> b \<le> k \<longrightarrow> m' ! k = m ! k)"

definition swap_list :: "'a list \<Rightarrow> nat \<Rightarrow> nat \<Rightarrow> 'a list" where
  "swap_list xs i j = xs[i := xs ! j, j := xs ! i]"

lemma length_view [simp]: "length (view m base n sz) = n"
  by (simp add: view_def)

lemma view_nth [simp]: "k < n \<Longrightarrow> view m base n sz ! k = el m base sz k"
  by (simp add: view_def)

lemma same_outside_refl [simp]: "same_outside a b m m"
  by (simp add: same_outside_def)

lemma same_outside_trans: "same_outside a b m m' \<Longrightarrow> same_outside a b m' m'' \<Longrightarrow> same_outside a b m m''"
  by (simp add: same_outside_def)

lemma same_outside_mono: "same_outside a b m m' \<Longrightarrow> c \<le> a \<Longrightarrow> b \<le> d \<Longrightarrow> same_outside c d m m'"
  by (simp add: same_outside_def)

lemma mset_swap_list: "i < length xs \<Longrightarrow> j < length xs \<Longrightarrow> mset (swap_list xs i j) = mset xs"
  by (simp add: swap_list_def mset_swap)

lemma length_swap_list [simp]: "length (swap_list xs i j) = length xs"
  by (simp add: swap_list_def)

lemma nth_swap_list: "k < length xs \<Longrightarrow> i < length xs \<Longrightarrow> j < length xs \<Longrightarrow>
    swap_list xs i j ! k = (if k = i then xs ! j else if k = j then xs ! i else xs ! k)"
  by (auto simp: swap_list_def nth_list_update)

lemma swapped_other: "c \<noteq> a \<Longrightarrow> c \<noteq> b \<Longrightarrow> m[a := x, b := y] ! c = m ! c"
  by simp

lemma bswap_effect:
  assumes "a + sz \<le> length m" "b + sz \<le> length m" "a = b \<or> a + sz \<le> b \<or> b + sz \<le> a"
  shows "length (bswap m a b sz) = length m"
    "k < length m \<Longrightarrow> bswap m a b sz ! k =
       (if a \<le> k \<and> k < a + sz then m ! (b + (k - a)) else if b \<le> k \<and> k < b + sz then m ! (a + (k - b)) else m ! k)"
  using assms
proof (induction m a b sz arbitrary: k rule: bswap.induct)
  case (2 m a b sz)
  let ?m = "m[a := m ! b, b := m ! a]"
  {
    case 1
    then show ?case using "2.IH"(1) by auto
  next
    case 2
    then have d: "a = b \<or> a + 1 + sz \<le> b + 1 \<or> b + 1 + sz \<le> a + 1" "a + 1 + sz \<le> length ?m" "b + 1 + sz \<le> length ?m" "k < length ?m" by auto
    then have e: "bswap m a b (Suc sz) ! k = (if a + 1 \<le> k \<and> k < a + 1 + sz then ?m ! (b + 1 + (k - (a + 1)))
        else if b + 1 \<le> k \<and> k < b + 1 + sz then ?m ! (a + 1 + (k - (b + 1))) else ?m ! k)"
      using "2.IH"(2) [of k] by auto
    consider (A) "a + 1 \<le> k" "k < a + 1 + sz" | (B) "\<not> (a + 1 \<le> k \<and> k < a + 1 + sz)" "b + 1 \<le> k" "k < b + 1 + sz"
      | (C) "k = a" "\<not> (b + 1 \<le> k \<and> k < b + 1 + sz)" | (D) "k = b" "k \<noteq> a" "\<not> (a + 1 \<le> k \<and> k < a + 1 + sz)"
      | (E) "k \<noteq> a" "k \<noteq> b" "\<not> (a + 1 \<le> k \<and> k < a + 1 + sz)" "\<not> (b + 1 \<le> k \<and> k < b + 1 + sz)"
      using 2 by arith
    then show ?case
    proof cases
      case A
      have "b + 1 + (k - (a + 1)) = b + (k - a)" "b + (k - a) \<noteq> a" "b + (k - a) \<noteq> b" using A 2 by arith+
      then show ?thesis using e A by simp
    next
      case B
      have "a + 1 + (k - (b + 1)) = a + (k - b)" "a + (k - b) \<noteq> a" "a + (k - b) \<noteq> b" "\<not> (a \<le> k \<and> k < a + Suc sz)" "b \<le> k \<and> k < b + Suc sz" using B 2 by arith+
      moreover have "bswap m a b (Suc sz) ! k = ?m ! (a + 1 + (k - (b + 1)))" using B unfolding e by (simp only: if_False if_True simp_thms)
      ultimately show ?thesis by (simp only: if_False if_True swapped_other simp_thms not_False_eq_True)
    next
      case C
      have "\<not> (a + 1 \<le> k \<and> k < a + 1 + sz)" using C by arith
      then have "bswap m a b (Suc sz) ! k = ?m ! k" using C(2) unfolding e by (simp only: if_False if_True simp_thms)
      then show ?thesis using C(1) 2 by (cases "a = b") simp_all
    next
      case D
      have "\<not> (b + 1 \<le> k \<and> k < b + 1 + sz)" "\<not> (a \<le> k \<and> k < a + Suc sz)" using D by arith+
      then have "bswap m a b (Suc sz) ! k = ?m ! k" using D(3) unfolding e by (simp only: if_False if_True simp_thms)
      then show ?thesis using D \<open>\<not> (a \<le> k \<and> k < a + Suc sz)\<close> 2 by (simp only: if_False) simp
    next
      case E
      then have "bswap m a b (Suc sz) ! k = ?m ! k" unfolding e by (simp only: if_False if_True simp_thms)
      moreover have "\<not> (a \<le> k \<and> k < a + Suc sz)" "\<not> (b \<le> k \<and> k < b + Suc sz)" using E by arith+
      ultimately show ?thesis using E(1,2) by (simp only: if_False swapped_other simp_thms not_False_eq_True)
    qed
  }
qed auto


lemma el_ext: "base + k * sz + sz \<le> length m \<Longrightarrow> length m' = length m \<Longrightarrow>
    (\<And>i. i < sz \<Longrightarrow> m' ! (base' + k' * sz + i) = m ! (base + k * sz + i)) \<Longrightarrow> base' + k' * sz + sz \<le> length m \<Longrightarrow>
    el m' base' sz k' = el m base sz k"
  by (rule nth_equalityI) (simp_all add: el_def)

lemma slot_bounds: "k < n \<Longrightarrow> base + n * sz \<le> b \<Longrightarrow> base + k * sz + sz \<le> (b :: nat)"
proof -
  assume "k < n" "base + n * sz \<le> b"
  moreover have "(k + 1) * sz \<le> n * sz" using \<open>k < n\<close> by (intro mult_le_mono1) simp
  ultimately show ?thesis by simp
qed

lemma slots_apart: "i \<noteq> j \<Longrightarrow> base + i * sz + sz \<le> base + j * sz \<or> base + j * sz + sz \<le> base + i * (sz :: nat)"
  using slot_bounds [of i j base sz "base + j * sz"] slot_bounds [of j i base sz "base + i * sz"] by (cases "i < j") simp_all

lemma swap_el_view:
  assumes "base + n * sz \<le> length m" "i < n" "j < n"
  shows "view (swap_el m base sz i j) base n sz = swap_list (view m base n sz) i j"
    "same_outside base (base + n * sz) m (swap_el m base sz i j)"
proof -
  let ?a = "base + i * sz" and ?b = "base + j * sz"
  have ab: "?a + sz \<le> length m" "?b + sz \<le> length m" "?a + sz \<le> base + n * sz" "?b + sz \<le> base + n * sz"
    using slot_bounds [OF assms(2)] slot_bounds [OF assms(3)] assms(1) by simp_all
  have d: "?a = ?b \<or> ?a + sz \<le> ?b \<or> ?b + sz \<le> ?a" using slots_apart [of i j base sz] by (cases "i = j") auto
  note ef = bswap_effect [OF ab(1,2) d]
  show "same_outside base (base + n * sz) m (swap_el m base sz i j)"
    using ab ef by (auto simp: same_outside_def swap_el_def)
  have "el (swap_el m base sz i j) base sz k = swap_list (view m base n sz) i j ! k" if k: "k < n" for k
  proof -
    have kb: "base + k * sz + sz \<le> length m" using slot_bounds [OF k] assms(1) by simp
    have at: "swap_el m base sz i j ! (base + k * sz + x) = m ! (base + (if k = i then j else if k = j then i else k) * sz + x)" if "x < sz" for x
    proof -
      have "?a \<le> base + k * sz + x \<and> base + k * sz + x < ?a + sz \<longleftrightarrow> k = i" using that slots_apart [of k i base sz] by (cases "k = i") auto
      moreover have "?b \<le> base + k * sz + x \<and> base + k * sz + x < ?b + sz \<longleftrightarrow> k = j" using that slots_apart [of k j base sz] by (cases "k = j") auto
      moreover have "base + k * sz + x < length m" using that kb by simp
      ultimately show ?thesis using ef(2) [of "base + k * sz + x"] by (auto simp: swap_el_def)
    qed
    let ?k = "if k = i then j else if k = j then i else k"
    have "el (swap_el m base sz i j) base sz k = el m base sz ?k"
      by (rule el_ext [OF _ _ at kb]) (use ab kb ef(1) in \<open>auto simp: swap_el_def\<close>)
    then show ?thesis using k assms(2,3) by (simp add: nth_swap_list)
  qed
  then show "view (swap_el m base sz i j) base n sz = swap_list (view m base n sz) i j"
    by (intro nth_equalityI) simp_all
qed

section \<open>Insertion sort\<close>

text \<open>What a comparison function has to be: the sign of \<open>cmp(y, x)\<close> is opposite to that of \<open>cmp(x, y)\<close>, and \<open>\<le>\<close> is transitive.\<close>

definition comparator :: "comparison \<Rightarrow> bool" where
  "comparator cmp \<longleftrightarrow> (\<forall>x y. 0 < cmp x y \<longleftrightarrow> cmp y x < 0) \<and> (\<forall>x y z. cmp x y \<le> 0 \<longrightarrow> cmp y z \<le> 0 \<longrightarrow> cmp x z \<le> 0)"

abbreviation asc :: "comparison \<Rightarrow> u8 list list \<Rightarrow> bool" where
  "asc cmp \<equiv> sorted_wrt (\<lambda>x y. cmp x y \<le> 0)"

lemma comparatorD:
  assumes "comparator cmp"
  shows "0 < cmp x y \<Longrightarrow> cmp y x \<le> 0" "cmp x y \<le> 0 \<Longrightarrow> cmp y z \<le> 0 \<Longrightarrow> cmp x z \<le> 0" "cmp x x = 0"
    "cmp x y = 0 \<Longrightarrow> cmp y x = 0" "cmp x y < 0 \<longleftrightarrow> 0 < cmp y x"
proof -
  have s: "0 < cmp x y \<longleftrightarrow> cmp y x < 0" for x y using assms by (simp add: comparator_def)
  show "0 < cmp x y \<Longrightarrow> cmp y x \<le> 0" using s [of x y] by simp
  show "cmp x x = 0" using s [of x x] by linarith
  show "cmp x y = 0 \<Longrightarrow> cmp y x = 0" "cmp x y < 0 \<longleftrightarrow> 0 < cmp y x" using s [of x y] s [of y x] by linarith+
  show "cmp x y \<le> 0 \<Longrightarrow> cmp y z \<le> 0 \<Longrightarrow> cmp x z \<le> 0" using assms unfolding comparator_def by blast
qed

text \<open>Insertion from the back, on the reversed prefix.\<close>

fun ins_back :: "comparison \<Rightarrow> u8 list \<Rightarrow> u8 list list \<Rightarrow> u8 list list" where
  "ins_back cmp x [] = [x]"
| "ins_back cmp x (y # ys) = (if cmp y x > 0 then y # ins_back cmp x ys else x # y # ys)"

lemma mset_ins_back [simp]: "mset (ins_back cmp x ys) = add_mset x (mset ys)"
  by (induction cmp x ys rule: ins_back.induct) auto

lemma set_ins_back [simp]: "set (ins_back cmp x ys) = insert x (set ys)"
  by (induction cmp x ys rule: ins_back.induct) auto

lemma length_ins_back [simp]: "length (ins_back cmp x ys) = Suc (length ys)"
  by (induction cmp x ys rule: ins_back.induct) auto

lemma ins_back_sorted: "comparator cmp \<Longrightarrow> asc cmp (rev ys) \<Longrightarrow> asc cmp (rev (ins_back cmp x ys))"
  unfolding sorted_wrt_rev
  by (induction cmp x ys rule: ins_back.induct) (auto intro: comparatorD(1,2) simp: not_less)

lemma isort_inner_view:
  assumes "base + n * sz \<le> length m" "j < n"
  shows "view (isort_inner m base sz cmp j) base n sz =
      rev (ins_back cmp (view m base n sz ! j) (rev (take j (view m base n sz)))) @ drop (Suc j) (view m base n sz) \<and>
    same_outside base (base + n * sz) m (isort_inner m base sz cmp j)"
  using assms
proof (induction j arbitrary: m)
  case 0
  have "[view m base n sz ! 0] @ drop (Suc 0) (view m base n sz) = view m base n sz"
    using 0 Cons_nth_drop_Suc [of 0 "view m base n sz"] by simp
  then show ?case using 0 by simp
next
  case (Suc j)
  let ?v = "view m base n sz" and ?m = "swap_el m base sz j (Suc j)"
  have j: "base + n * sz \<le> length m" "Suc j < n" "j < n" using Suc.prems by simp_all
  note sw = swap_el_view [OF j(1) j(3,2)]
  have len: "base + n * sz \<le> length ?m" using sw(2) j(1) by (simp add: same_outside_def)
  have tk: "rev (take (Suc j) ?v) = ?v ! j # rev (take j ?v)" using j by (simp add: take_Suc_conv_app_nth)
  have "drop (Suc j) (swap_list ?v j (Suc j)) = swap_list ?v j (Suc j) ! Suc j # drop (Suc (Suc j)) (swap_list ?v j (Suc j))"
    using j by (simp add: Cons_nth_drop_Suc)
  then have v2: "swap_list ?v j (Suc j) ! j = ?v ! Suc j" "take j (swap_list ?v j (Suc j)) = take j ?v"
    "drop (Suc j) (swap_list ?v j (Suc j)) = ?v ! j # drop (Suc (Suc j)) ?v"
    using j by (simp_all add: nth_swap_list) (simp_all add: swap_list_def)
  have full: "?v = take j ?v @ ?v ! j # ?v ! Suc j # drop (Suc (Suc j)) ?v"
    using j append_take_drop_id [of j ?v] Cons_nth_drop_Suc [of j ?v] Cons_nth_drop_Suc [of "Suc j" ?v] by (simp del: view_nth)
  show ?case
  proof (cases "cmp (?v ! j) (?v ! Suc j) > 0")
    case True
    then have "isort_inner m base sz cmp (Suc j) = isort_inner ?m base sz cmp j" using j by simp
    then show ?thesis
      using Suc.IH [OF len j(3)] sw(2) True unfolding sw(1) v2 tk by (auto intro: same_outside_trans)
  next
    case False
    then have "isort_inner m base sz cmp (Suc j) = m" using j by simp
    then show ?thesis using False full unfolding tk by simp
  qed
qed

lemma isort_from_sorts:
  assumes "comparator cmp" "base + n * sz \<le> length m" "asc cmp (take i (view m base n sz))"
  shows "asc cmp (view (isort_from m base n sz cmp i) base n sz)"
    "mset (view (isort_from m base n sz cmp i) base n sz) = mset (view m base n sz)"
    "same_outside base (base + n * sz) m (isort_from m base n sz cmp i)"
proof -
  have "asc cmp (view (isort_from m base n sz cmp i) base n sz) \<and>
    mset (view (isort_from m base n sz cmp i) base n sz) = mset (view m base n sz) \<and>
    same_outside base (base + n * sz) m (isort_from m base n sz cmp i)"
    using assms
  proof (induction m base n sz cmp i rule: isort_from.induct)
    case (1 m base n sz cmp i)
    show ?case
    proof (cases "i < n")
      case True
      let ?v = "view m base n sz" and ?m = "isort_inner m base sz cmp i"
      have iv: "view ?m base n sz = rev (ins_back cmp (?v ! i) (rev (take i ?v))) @ drop (Suc i) ?v" "same_outside base (base + n * sz) m ?m"
        using isort_inner_view [OF "1.prems"(2) True, of cmp] by blast+
      have sp: "?v = take i ?v @ ?v ! i # drop (Suc i) ?v" using True by (intro id_take_nth_drop) simp
      have "mset ?v = mset (take i ?v) + add_mset (?v ! i) (mset (drop (Suc i) ?v))" by (subst sp) simp
      then have ms: "mset (view ?m base n sz) = mset ?v" unfolding iv(1) by simp
      have "take (i + 1) (view ?m base n sz) = rev (ins_back cmp (?v ! i) (rev (take i ?v)))" unfolding iv(1) using True by simp
      then have "asc cmp (take (i + 1) (view ?m base n sz))" using ins_back_sorted [OF "1.prems"(1), of "rev (take i ?v)"] "1.prems"(3) by simp
      then have "asc cmp (view (isort_from ?m base n sz cmp (i + 1)) base n sz) \<and>
          mset (view (isort_from ?m base n sz cmp (i + 1)) base n sz) = mset (view ?m base n sz) \<and>
          same_outside base (base + n * sz) ?m (isort_from ?m base n sz cmp (i + 1))"
        using iv(2) "1.prems" by (intro "1.IH" True) (auto simp: same_outside_def)
      then show ?thesis using True iv(2) ms by (subst (1 2 3) isort_from.simps) (auto intro: same_outside_trans)
    next
      case False
      then show ?thesis using "1.prems" by (subst (1 2 3) isort_from.simps) simp
    qed
  qed
  then show "asc cmp (view (isort_from m base n sz cmp i) base n sz)"
    "mset (view (isort_from m base n sz cmp i) base n sz) = mset (view m base n sz)"
    "same_outside base (base + n * sz) m (isort_from m base n sz cmp i)" by blast+
qed

section \<open>Partitioning\<close>

lemma med3_bound: "a < n \<Longrightarrow> b < n \<Longrightarrow> c < n \<Longrightarrow> med3 m base sz cmp a b c < n"
  by (simp add: med3_def Let_def)

lemma part_loop_splits:
  assumes "base + n * sz \<le> length m" "i \<le> j" "j \<le> n - 1" "0 < n" "part_loop m base n sz cmp i j = (m', i')"
    "\<forall>k < i. cmp (view m base n sz ! k) (view m base n sz ! (n - 1)) \<le> 0"
    "\<forall>k. i \<le> k \<and> k < j \<longrightarrow> cmp (view m base n sz ! k) (view m base n sz ! (n - 1)) > 0"
  shows "i' \<le> n - 1 \<and> mset (view m' base n sz) = mset (view m base n sz) \<and> same_outside base (base + n * sz) m m' \<and>
    (\<forall>k < i'. cmp (view m' base n sz ! k) (view m' base n sz ! (n - 1)) \<le> 0) \<and>
    (\<forall>k. i' \<le> k \<and> k < n - 1 \<longrightarrow> cmp (view m' base n sz ! k) (view m' base n sz ! (n - 1)) > 0)"
  using assms
proof (induction m base n sz cmp i j rule: part_loop.induct)
  case (1 m base n sz cmp i j)
  let ?v = "view m base n sz" and ?m = "swap_el m base sz i j"
  show ?case
  proof (cases "j < n - 1")
    case j: True
    show ?thesis
    proof (cases "cmp (el m base sz j) (el m base sz (n - 1)) \<le> 0")
      case True
      have ij: "i < n" "j < n" "n - 1 < n" using "1.prems"(2) j by simp_all
      note sw = swap_el_view [OF "1.prems"(1) ij(1,2)]
      have last: "swap_list ?v i j ! (n - 1) = ?v ! (n - 1)" using ij j "1.prems"(2) by (subst nth_swap_list) simp_all
      have low: "\<forall>k < i + 1. cmp (swap_list ?v i j ! k) (swap_list ?v i j ! (n - 1)) \<le> 0"
      proof (intro allI impI)
        fix k assume "k < i + 1"
        then show "cmp (swap_list ?v i j ! k) (swap_list ?v i j ! (n - 1)) \<le> 0"
          using "1.prems"(2,6) True ij last by (cases "k = i") (simp_all add: nth_swap_list)
      qed
      have high: "\<forall>k. i + 1 \<le> k \<and> k < j + 1 \<longrightarrow> cmp (swap_list ?v i j ! k) (swap_list ?v i j ! (n - 1)) > 0"
      proof (intro allI impI)
        fix k assume k: "i + 1 \<le> k \<and> k < j + 1"
        then have "swap_list ?v i j ! k = ?v ! (if k = j then i else k)" using ij by (subst nth_swap_list) auto
        then show "cmp (swap_list ?v i j ! k) (swap_list ?v i j ! (n - 1)) > 0"
          using "1.prems"(7) k last by auto
      qed
      have "part_loop ?m base n sz cmp (i + 1) (j + 1) = (m', i')" using "1.prems"(5) j True by (simp add: part_loop.simps [of m])
      then have "i' \<le> n - 1 \<and> mset (view m' base n sz) = mset (view ?m base n sz) \<and> same_outside base (base + n * sz) ?m m' \<and>
          (\<forall>k < i'. cmp (view m' base n sz ! k) (view m' base n sz ! (n - 1)) \<le> 0) \<and>
          (\<forall>k. i' \<le> k \<and> k < n - 1 \<longrightarrow> cmp (view m' base n sz ! k) (view m' base n sz ! (n - 1)) > 0)"
        using sw "1.prems"(1,2,4) j low high
        by (intro "1.IH"(1) [OF j True]) (simp_all only: sw(1), auto simp: same_outside_def)
      then show ?thesis using sw ij mset_swap_list [of i ?v j] by (auto intro: same_outside_trans)
    next
      case False
      have "part_loop m base n sz cmp i (j + 1) = (m', i')" using "1.prems"(5) j False by (simp add: part_loop.simps [of m])
      moreover have "\<forall>k. i \<le> k \<and> k < j + 1 \<longrightarrow> cmp (?v ! k) (?v ! (n - 1)) > 0"
        using "1.prems"(4,7) False j by (auto simp: less_Suc_eq not_le)
      ultimately show ?thesis using "1.prems"(1,2,4,6) j by (intro "1.IH"(2) [OF j False]) auto
    qed
  next
    case False
    then have "m' = m" "i' = i" "j = n - 1" using "1.prems"(3,5) by (simp_all add: part_loop.simps [of m])
    then show ?thesis using "1.prems" by auto
  qed
qed

lemma split_at_pivot_splits:
  assumes "comparator cmp" "base + n * sz \<le> length m" "0 < n" "split_at_pivot m base n sz cmp = (m', i)"
  shows "i < n" "mset (view m' base n sz) = mset (view m base n sz)" "same_outside base (base + n * sz) m m'"
    "\<forall>k < i. cmp (view m' base n sz ! k) (view m' base n sz ! i) \<le> 0"
    "\<forall>k. i < k \<and> k < n \<longrightarrow> cmp (view m' base n sz ! i) (view m' base n sz ! k) \<le> 0"
proof -
  define piv where "piv = med3 m base sz cmp 0 (n div 2) (n - 1)"
  have piv: "piv < n" unfolding piv_def using assms(3) by (intro med3_bound) auto
  note s1 = swap_el_view [OF assms(2) piv, of "n - 1"]
  let ?m1 = "swap_el m base sz piv (n - 1)"
  obtain m2 where p: "part_loop ?m1 base n sz cmp 0 0 = (m2, i)" "m' = swap_el m2 base sz i (n - 1)"
    using assms(4) by (auto simp: split_at_pivot_def piv_def split: prod.splits)
  have l1: "base + n * sz \<le> length ?m1" using s1(2) assms(2,3) by (simp add: same_outside_def)
  from part_loop_splits [OF l1 _ _ assms(3) p(1)]
  have q: "i \<le> n - 1" "mset (view m2 base n sz) = mset (view ?m1 base n sz)" "same_outside base (base + n * sz) ?m1 m2"
    "\<forall>k < i. cmp (view m2 base n sz ! k) (view m2 base n sz ! (n - 1)) \<le> 0"
    "\<forall>k. i \<le> k \<and> k < n - 1 \<longrightarrow> cmp (view m2 base n sz ! k) (view m2 base n sz ! (n - 1)) > 0" by simp_all
  show i: "i < n" using q(1) assms(3) by simp
  have l2: "base + n * sz \<le> length m2" using q(3) l1 by (simp add: same_outside_def)
  note s2 = swap_el_view [OF l2 i, of "n - 1"]
  let ?v2 = "view m2 base n sz"
  have v: "view m' base n sz = swap_list ?v2 i (n - 1)" using s2(1) assms(3) p(2) by simp
  have nt: "swap_list ?v2 i (n - 1) ! k = (if k = i then ?v2 ! (n - 1) else if k = n - 1 then ?v2 ! i else ?v2 ! k)" if "k < n" for k
    using that i assms(3) by (intro nth_swap_list) simp_all
  have ms: "mset (swap_list ?v2 i (n - 1)) = mset ?v2" "mset (swap_list (view m base n sz) piv (n - 1)) = mset (view m base n sz)"
    using i piv assms(3) by (simp_all add: mset_swap_list)
  then show "mset (view m' base n sz) = mset (view m base n sz)" using v q(2) s1(1) assms(3) by simp
  show "same_outside base (base + n * sz) m m'" using s1(2) q(3) s2(2) p(2) assms(3) by (auto intro: same_outside_trans)
  show "\<forall>k < i. cmp (view m' base n sz ! k) (view m' base n sz ! i) \<le> 0"
    unfolding v using q(1,4) nt i by (auto simp del: view_nth)
  show "\<forall>k. i < k \<and> k < n \<longrightarrow> cmp (view m' base n sz ! i) (view m' base n sz ! k) \<le> 0"
  proof (intro allI impI)
    fix k assume k: "i < k \<and> k < n"
    then have "cmp (?v2 ! (if k = n - 1 then i else k)) (?v2 ! (n - 1)) > 0" using q(5) k by (cases "k = n - 1") (auto simp del: view_nth)
    then show "cmp (view m' base n sz ! i) (view m' base n sz ! k) \<le> 0"
      unfolding v using comparatorD(1) [OF assms(1)] nt [OF i] nt [of k] k by (simp del: view_nth split: if_splits)
  qed
qed

section \<open>Quicksort\<close>

lemma el_same_outside:
  assumes "same_outside a b m m'" "base + k * sz + sz \<le> a \<or> b \<le> base + k * sz" "base + k * sz + sz \<le> length m"
  shows "el m' base sz k = el m base sz k"
  by (rule el_ext [OF assms(3) _ _ assms(3)]) (use assms in \<open>auto simp: same_outside_def\<close>)

lemma view_parts:
  assumes "i < n"
  shows "take i (view m base n sz) = view m base i sz" "drop (i + 1) (view m base n sz) = view m (base + (i + 1) * sz) (n - i - 1) sz"
proof -
  show "take i (view m base n sz) = view m base i sz" using assms by (simp add: view_def take_map)
  have "el m base sz (i + 1 + k) = el m (base + (i + 1) * sz) sz k" for k by (simp add: el_def algebra_simps)
  then show "drop (i + 1) (view m base n sz) = view m (base + (i + 1) * sz) (n - i - 1) sz"
    using assms by (intro nth_equalityI) (simp_all add: view_def)
qed

lemma view_split: "i < n \<Longrightarrow> view m base n sz = view m base i sz @ el m base sz i # view m (base + (i + 1) * sz) (n - i - 1) sz"
  using id_take_nth_drop [of i "view m base n sz"] view_parts [of i n m base sz] by simp

lemma asc_split:
  assumes "comparator cmp" "asc cmp xs" "asc cmp ys" "\<forall>x \<in> set xs. cmp x p \<le> 0" "\<forall>y \<in> set ys. cmp p y \<le> 0"
  shows "asc cmp (xs @ p # ys)"
  using assms comparatorD(2) [OF assms(1)] by (auto simp: sorted_wrt_append)

text \<open>One part of the array sorted, the rest untouched.\<close>

definition part_sorted :: "comparison \<Rightarrow> nat \<Rightarrow> nat \<Rightarrow> nat \<Rightarrow> u8 list \<Rightarrow> u8 list \<Rightarrow> bool" where
  "part_sorted cmp base n sz m m' \<longleftrightarrow> asc cmp (view m' base n sz) \<and> mset (view m' base n sz) = mset (view m base n sz) \<and>
     same_outside base (base + n * sz) m m'"

lemma part_sorted_short: "comparator cmp \<Longrightarrow> n < 2 \<Longrightarrow> part_sorted cmp base n sz m m"
  by (cases n) (auto simp: part_sorted_def view_def)

lemma part_sorted_join:
  assumes c: "comparator cmp" and b: "base + n * sz \<le> length m" and i: "i < n"
    and le: "\<forall>k < i. cmp (view m base n sz ! k) (view m base n sz ! i) \<le> 0"
    and ge: "\<forall>k. i < k \<and> k < n \<longrightarrow> cmp (view m base n sz ! i) (view m base n sz ! k) \<le> 0"
    and l: "part_sorted cmp base i sz m m1" and r: "part_sorted cmp (base + (i + 1) * sz) (n - i - 1) sz m1 m2"
  shows "part_sorted cmp base n sz m m2"
proof -
  let ?b2 = "base + (i + 1) * sz"
  have en: "?b2 + (n - i - 1) * sz = base + n * sz"
  proof -
    have "(i + 1) * sz + (n - i - 1) * sz = n * sz" using i by (simp only: add_mult_distrib [symmetric]) simp
    then show ?thesis by simp
  qed
  have s: "same_outside base (base + i * sz) m m1" "same_outside ?b2 (base + n * sz) m1 m2"
    using l r unfolding part_sorted_def en by blast+
  have len: "length m1 = length m" "length m2 = length m" using s by (simp_all add: same_outside_def)
  have ib: "base + i * sz + sz \<le> base + n * sz" using slot_bounds [OF i, of base sz "base + n * sz"] by simp
  have p: "el m2 base sz i = el m base sz i"
    using el_same_outside [OF s(1), of base i sz] el_same_outside [OF s(2), of base i sz] ib b len by simp
  have left: "view m2 base i sz = view m1 base i sz"
  proof (rule nth_equalityI)
    fix k assume "k < length (view m2 base i sz)"
    then have "k < i" by simp
    moreover from this have "base + k * sz + sz \<le> base + i * sz" using slot_bounds [of k i base sz "base + i * sz"] by simp
    ultimately show "view m2 base i sz ! k = view m1 base i sz ! k" using el_same_outside [OF s(2), of base k sz] ib b len by simp
  qed simp
  have right: "view m1 ?b2 (n - i - 1) sz = view m ?b2 (n - i - 1) sz"
  proof (rule nth_equalityI)
    fix k assume "k < length (view m1 ?b2 (n - i - 1) sz)"
    then have "k < n - i - 1" by simp
    moreover from this have "?b2 + k * sz + sz \<le> base + n * sz" using slot_bounds [of k "n - i - 1" ?b2 sz "base + n * sz"] en by simp
    ultimately show "view m1 ?b2 (n - i - 1) sz ! k = view m ?b2 (n - i - 1) sz ! k" using el_same_outside [OF s(1), of ?b2 k sz] b len by simp
  qed simp
  have ms: "mset (view m2 base i sz) = mset (view m base i sz)" "mset (view m2 ?b2 (n - i - 1) sz) = mset (view m ?b2 (n - i - 1) sz)"
    using l r unfolding part_sorted_def left right by blast+
  have "\<forall>x \<in> set (view m2 base i sz). cmp x (el m base sz i) \<le> 0"
    unfolding mset_eq_setD [OF ms(1)] using le i by (auto simp: in_set_conv_nth)
  moreover have "\<forall>y \<in> set (view m2 ?b2 (n - i - 1) sz). cmp (el m base sz i) y \<le> 0"
  proof
    fix y assume "y \<in> set (view m2 ?b2 (n - i - 1) sz)"
    then have "y \<in> set (drop (i + 1) (view m base n sz))" unfolding mset_eq_setD [OF ms(2)] view_parts(2) [OF i] .
    then obtain k where "k < n - (i + 1)" "y = view m base n sz ! (i + 1 + k)" by (auto simp: in_set_conv_nth)
    then show "cmp (el m base sz i) y \<le> 0" using ge i by (metis add_lessD1 add.commute less_diff_conv less_add_Suc1 add_Suc Suc_eq_plus1 view_nth)
  qed
  ultimately have "asc cmp (view m2 base n sz)"
    unfolding view_split [OF i] p using l r c by (intro asc_split) (simp_all add: part_sorted_def left)
  moreover have "mset (view m2 base n sz) = mset (view m base n sz)" unfolding view_split [OF i] p using ms by simp
  moreover have "same_outside base (base + n * sz) m m2"
    by (rule same_outside_trans [OF same_outside_mono [OF s(1)] same_outside_mono [OF s(2)]]) (use ib in linarith)+
  ultimately show ?thesis by (simp add: part_sorted_def)
qed

lemma part_sorted_from:
  "part_sorted cmp base n sz m m' \<Longrightarrow> mset (view m base n sz) = mset (view m0 base n sz) \<Longrightarrow> same_outside base (base + n * sz) m0 m \<Longrightarrow>
     part_sorted cmp base n sz m0 m'"
  by (auto simp: part_sorted_def intro: same_outside_trans)

lemma qsort_impl_sorts: "comparator cmp \<Longrightarrow> base + n * sz \<le> length m \<Longrightarrow> part_sorted cmp base n sz m (qsort_impl m base n sz cmp)"
proof (induction m base n sz cmp rule: qsort_impl.induct)
  case (1 m base n sz cmp)
  note c = "1.prems"(1)
  consider (tiny) "n < 2" | (small) "\<not> n < 2" "n \<le> ISORT_MAX" | (big) "\<not> n < 2" "\<not> n \<le> ISORT_MAX" by blast
  then show ?case
  proof cases
    case tiny
    then show ?thesis using part_sorted_short [OF c] by (simp add: qsort_impl.simps [of m])
  next
    case small
    have "asc cmp (take 1 (view m base n sz))" by (cases "view m base n sz") simp_all
    from isort_from_sorts [OF c "1.prems"(2) this] show ?thesis using small by (simp add: qsort_impl.simps [of m] isort_def part_sorted_def)
  next
    case big
    obtain m1 i where sp: "split_at_pivot m base n sz cmp = (m1, i)" by fastforce
    note s = split_at_pivot_splits [OF c "1.prems"(2) _ sp]
    have n: "0 < n" using big by simp
    note s = s [OF n]
    define m2 where "m2 = (if i > 0 then qsort_impl m1 base i sz cmp else m1)"
    define m3 where "m3 = (if n - i > 2 then qsort_impl m2 (base + (i + 1) * sz) (n - i - 1) sz cmp else m2)"
    have e: "qsort_impl m base n sz cmp = m3" using big sp by (simp add: qsort_impl.simps [of m] m2_def m3_def Let_def)
    have l1: "base + n * sz \<le> length m1" using s(3) "1.prems"(2) by (simp add: same_outside_def)
    have in1: "base + i * sz \<le> base + n * sz" using s(1) by simp
    have left: "part_sorted cmp base i sz m1 m2"
    proof (cases "i > 0")
      case True
      then show ?thesis unfolding m2_def using "1.IH"(1) [OF big sp [symmetric] refl True c] l1 in1 by simp
    next
      case False
      then show ?thesis using part_sorted_short [OF c] by (simp add: m2_def)
    qed
    have l2: "length m2 = length m1" using left by (simp add: part_sorted_def same_outside_def)
    have "(i + 1) * sz + (n - i - 1) * sz = n * sz" using s(1) by (simp only: add_mult_distrib [symmetric]) simp
    then have en: "base + (i + 1) * sz + (n - i - 1) * sz \<le> length m2" using l1 l2 by simp
    have right: "part_sorted cmp (base + (i + 1) * sz) (n - i - 1) sz m2 m3"
    proof (cases "n - i > 2")
      case True
      then show ?thesis unfolding m3_def using "1.IH"(2) [OF big sp [symmetric] refl m2_def True c en] by simp
    next
      case False
      then show ?thesis using part_sorted_short [OF c, of "n - i - 1"] by (simp add: m3_def)
    qed
    show ?thesis unfolding e by (rule part_sorted_from [OF part_sorted_join [OF c l1 s(1,4,5) left right] s(2,3)])
  qed
qed

text \<open>C31: \<open>ksort\<close> sorts. For every comparison function that is a total preorder and every array inside the memory, whatever
  the number and the size of its elements, the call returns with the elements of the array in ascending order, as a
  permutation of what they were, and with every byte outside the array unchanged.\<close>

theorem ksort_sorts:
  assumes "comparator cmp" "base + n * sz \<le> length m"
  shows "sorted_wrt (\<lambda>x y. cmp x y \<le> 0) (view (ksort m base n sz cmp) base n sz) \<and>
    mset (view (ksort m base n sz cmp) base n sz) = mset (view m base n sz) \<and>
    length (ksort m base n sz cmp) = length m \<and>
    (\<forall>k < length m. k < base \<or> base + n * sz \<le> k \<longrightarrow> ksort m base n sz cmp ! k = m ! k)"
  using qsort_impl_sorts [OF assms] by (simp add: ksort_def part_sorted_def same_outside_def)

text \<open>Bytes compared by value, as unsigned numbers.\<close>

definition cmp_bytes :: comparison where
  "cmp_bytes x y = int (unat (hd (x @ [0]))) - int (unat (hd (y @ [0])))"

lemma comparator_bytes: "comparator cmp_bytes"
  by (auto simp: comparator_def cmp_bytes_def)

definition bytes9 :: "u8 list" where
  "bytes9 = [0xFF, 5, 3, 9, 1, 7, 8, 2, 6, 4, 0xEE]"

theorem ksort_sorts_witness:
  "sorted_wrt (\<lambda>x y. cmp_bytes x y \<le> 0) (view (ksort bytes9 1 9 1 cmp_bytes) 1 9 1) \<and>
   mset (view (ksort bytes9 1 9 1 cmp_bytes) 1 9 1) = {#[1], [2], [3], [4], [5], [6], [7], [8], [9]#} \<and>
   ksort bytes9 1 9 1 cmp_bytes ! 0 = 0xFF"
proof -
  have "1 + 9 * 1 \<le> length bytes9" by (simp add: bytes9_def)
  note k = ksort_sorts [OF comparator_bytes this]
  have "view bytes9 1 9 1 = [[5], [3], [9], [1], [7], [8], [2], [6], [4]]" by code_simp
  then have "mset (view bytes9 1 9 1) = {#[1], [2], [3], [4], [5], [6], [7], [8], [9]#}" by (simp add: add_mset_commute)
  moreover have "0 < length bytes9" "bytes9 ! 0 = 0xFF" by (simp_all add: bytes9_def)
  moreover from this have "ksort bytes9 1 9 1 cmp_bytes ! 0 = 0xFF" using k by (metis zero_less_one)
  ultimately show ?thesis using k by (simp only: simp_thms)
qed

section \<open>Search\<close>

lemma asc_nth: "comparator cmp \<Longrightarrow> asc cmp xs \<Longrightarrow> i \<le> j \<Longrightarrow> j < length xs \<Longrightarrow> cmp (xs ! i) (xs ! j) \<le> 0"
  using comparatorD(3) [of cmp "xs ! i"] by (cases "i = j") (auto simp: sorted_wrt_iff_nth_less)

lemma bsearch_from_finds:
  assumes "comparator cmp" "asc cmp (view m base n sz)" "lo + hi \<le> n"
    "\<forall>k < n. cmp key (el m base sz k) = 0 \<longrightarrow> lo \<le> k \<and> k < lo + hi"
  shows "case bsearch_from key m base sz cmp lo hi of
      None \<Rightarrow> \<forall>k < n. cmp key (el m base sz k) \<noteq> 0
    | Some k \<Rightarrow> k < n \<and> cmp key (el m base sz k) = 0"
  using assms
proof (induction key m base sz cmp lo hi rule: bsearch_from.induct)
  case (1 key m base sz cmp lo hi)
  show ?case
  proof (cases "hi > 0")
    case True
    let ?mid = "lo + hi div 2"
    have mid: "?mid < n" using True "1.prems"(3) by simp
    have le: "cmp (el m base sz i) (el m base sz j) \<le> 0" if "i \<le> j" "j < n" for i j
      using asc_nth [OF "1.prems"(1,2) that(1)] that by simp
    let ?r = "cmp key (el m base sz ?mid)"
    consider (eq) "?r = 0" | (gt) "?r > 0" | (lt) "?r < 0" by linarith
    then show ?thesis
    proof cases
      case eq
      then show ?thesis using True mid by (simp add: bsearch_from.simps [of key])
    next
      case gt
      have "\<not> k \<le> ?mid" if "k < n" "cmp key (el m base sz k) = 0" for k
        using comparatorD(2) [OF "1.prems"(1), of key "el m base sz k" "el m base sz ?mid"] le [of k ?mid] mid that gt by auto
      then have "\<forall>k < n. cmp key (el m base sz k) = 0 \<longrightarrow> lo + (hi div 2 + 1) \<le> k \<and> k < lo + (hi div 2 + 1) + (hi - (hi div 2 + 1))"
        using "1.prems"(4) True by fastforce
      from "1.IH"(1) [OF True refl refl _ gt "1.prems"(1,2) _ this] show ?thesis
        using gt True "1.prems"(3) by (simp add: bsearch_from.simps [of key _ _ _ _ _ hi] Let_def)
    next
      case lt
      have "k < ?mid" if "k < n" "cmp key (el m base sz k) = 0" for k
      proof (rule ccontr)
        assume "\<not> k < ?mid"
        then have "cmp (el m base sz ?mid) (el m base sz k) \<le> 0" using le that(1) by simp
        then have "cmp (el m base sz ?mid) key \<le> 0"
          using comparatorD(2) [OF "1.prems"(1)] comparatorD(4) [OF "1.prems"(1) that(2)] by (metis order_refl)
        then show False using comparatorD(5) [OF "1.prems"(1)] lt by (simp add: not_less [symmetric])
      qed
      then have "\<forall>k < n. cmp key (el m base sz k) = 0 \<longrightarrow> lo \<le> k \<and> k < lo + hi div 2" using "1.prems"(4) by simp
      from "1.IH"(2) [OF True refl refl _ _ "1.prems"(1,2) _ this] show ?thesis
        using lt True "1.prems"(3) by (simp add: bsearch_from.simps [of key _ _ _ _ _ hi] Let_def)
    qed
  next
    case False
    then show ?thesis using "1.prems"(4) by (auto simp: bsearch_from.simps [of key])
  qed
qed

text \<open>\<open>kbsearch\<close> finds what \<open>ksort\<close> has sorted. After sorting any array, a search for any key returns the index of an element
  that compares equal to the key, or nothing, and nothing only when no element of the array compared equal to the key
  before the sort.\<close>

theorem kbsearch_after_ksort:
  assumes "comparator cmp" "base + n * sz \<le> length m"
  shows "case kbsearch key (ksort m base n sz cmp) base n sz cmp of
      None \<Rightarrow> \<forall>x \<in> set (view m base n sz). cmp key x \<noteq> 0
    | Some k \<Rightarrow> k < n \<and> cmp key (view (ksort m base n sz cmp) base n sz ! k) = 0 \<and>
        (\<exists>x \<in> set (view m base n sz). cmp key x = 0)"
proof -
  let ?m = "ksort m base n sz cmp"
  have s: "part_sorted cmp base n sz m ?m" using qsort_impl_sorts [OF assms] by (simp add: ksort_def)
  have "set (view m base n sz) = set (view ?m base n sz)" using s by (intro mset_eq_setD) (simp add: part_sorted_def)
  then have st: "set (view m base n sz) = el ?m base sz ` {..< n}" by (auto simp: view_def)
  have "case kbsearch key ?m base n sz cmp of None \<Rightarrow> \<forall>k < n. cmp key (el ?m base sz k) \<noteq> 0 | Some k \<Rightarrow> k < n \<and> cmp key (el ?m base sz k) = 0"
    unfolding kbsearch_def using s by (intro bsearch_from_finds [OF assms(1)]) (simp_all add: part_sorted_def)
  then show ?thesis unfolding st by (auto split: option.splits)
qed

theorem kbsearch_after_ksort_witness:
  "\<exists>k. kbsearch [7] (ksort bytes9 1 9 1 cmp_bytes) 1 9 1 cmp_bytes = Some k \<and>
     cmp_bytes [7] (view (ksort bytes9 1 9 1 cmp_bytes) 1 9 1 ! k) = 0"
proof -
  have "1 + 9 * 1 \<le> length bytes9" by (simp add: bytes9_def)
  note k = kbsearch_after_ksort [OF comparator_bytes this, of "[7]"]
  have "view bytes9 1 9 1 = [[5], [3], [9], [1], [7], [8], [2], [6], [4]]" by code_simp
  then have "\<exists>x \<in> set (view bytes9 1 9 1). cmp_bytes [7] x = 0" by (simp add: cmp_bytes_def)
  then have e: "\<not> (\<forall>x \<in> set (view bytes9 1 9 1). cmp_bytes [7] x \<noteq> 0)" by blast
  show ?thesis
  proof (cases "kbsearch [7] (ksort bytes9 1 9 1 cmp_bytes) 1 9 1 cmp_bytes")
    case None
    with k e show ?thesis by (simp only: option.case)
  next
    case (Some i)
    with k have "cmp_bytes [7] (view (ksort bytes9 1 9 1 cmp_bytes) 1 9 1 ! i) = 0" by (simp only: option.case)
    with Some show ?thesis by blast
  qed
qed

end
