(* ===== verification/Arith64.thy ===== *)
theory Arith64
  imports Prelude "HOL-Library.Signed_Division"
begin

text \<open>
  \<open>libc/arith64.c\<close>: the 64-bit arithmetic that the compiler may call. Signed and unsigned values share the type of 64-bit
  words; the union of the source is a pair of 32-bit halves. A division by zero, which the code turns into a processor
  exception, is \<open>None\<close>. Shown: the shifts are those of the word, the counts of leading and trailing zeros are exact, and the
  shift-and-subtract division computes quotient and remainder for all operands, signed ones included.
\<close>

section \<open>The code\<close>

definition arith64_hi :: "u64 \<Rightarrow> u32" where "arith64_hi n = ucast (drop_bit 32 n)"
definition arith64_lo :: "u64 \<Rightarrow> u32" where "arith64_lo n = ucast n"

text \<open>The union read back as one word.\<close>

definition arith64_word :: "u32 \<Rightarrow> u32 \<Rightarrow> u64" where
  "arith64_word h l = push_bit 32 (ucast h) OR ucast l"

definition arith64_neg :: "u64 \<Rightarrow> u64 \<Rightarrow> u64" where
  "arith64_neg a b = (a XOR (of_bool (sint b \<ge> 0) - 1)) + of_bool (sint b < 0)"

definition arith64_abs :: "u64 \<Rightarrow> u64" where "arith64_abs a = arith64_neg a a"

definition absvdi2 :: "u64 \<Rightarrow> u64" where "absvdi2 a = arith64_abs a"

definition ashldi3 :: "u64 \<Rightarrow> int \<Rightarrow> u64" where
  "ashldi3 a b =
     (let b = nat (b AND 63); h = arith64_hi a; l = arith64_lo a in
      if b \<ge> 32 then arith64_word (push_bit (b - 32) l) 0
      else if b \<noteq> 0 then arith64_word (drop_bit (32 - b) l OR push_bit b h) (push_bit b l)
      else arith64_word h l)"

definition ashrdi3 :: "u64 \<Rightarrow> int \<Rightarrow> u64" where
  "ashrdi3 a b =
     (let b = nat (b AND 63); h = arith64_hi a; l = arith64_lo a in
      if b \<ge> 32 then arith64_word (signed_drop_bit 31 h) (signed_drop_bit (b - 32) h)
      else if b \<noteq> 0 then arith64_word (signed_drop_bit b h) (push_bit (32 - b) h OR drop_bit b l)
      else arith64_word h l)"

definition lshrdi3 :: "u64 \<Rightarrow> int \<Rightarrow> u64" where
  "lshrdi3 a b =
     (let b = nat (b AND 63); h = arith64_hi a; l = arith64_lo a in
      if b \<ge> 32 then arith64_word 0 (drop_bit (b - 32) h)
      else if b \<noteq> 0 then arith64_word (drop_bit b h) (push_bit (32 - b) h OR drop_bit b l)
      else arith64_word h l)"

text \<open>One line of the searches: \<open>b = !(a & m) << s; n += b;\<close> and the shift by \<open>b\<close>.\<close>

definition clz_line :: "'a::len word \<Rightarrow> nat \<Rightarrow> 'a word \<times> nat \<Rightarrow> 'a word \<times> nat" where
  "clz_line m s = (\<lambda>(a, n). let b = (if a AND m = 0 then 2 ^ s else 0) in (push_bit b a, n + b))"

definition ctz_line :: "'a::len word \<Rightarrow> nat \<Rightarrow> 'a word \<times> nat \<Rightarrow> 'a word \<times> nat" where
  "ctz_line m s = (\<lambda>(a, n). let b = (if a AND m = 0 then 2 ^ s else 0) in (drop_bit b a, n + b))"

definition clzsi2 :: "u32 \<Rightarrow> nat" where
  "clzsi2 a =
     (let (a, n) = clz_line 0xc0000000 1 (clz_line 0xf0000000 2 (clz_line 0xff000000 3 (clz_line 0xffff0000 4 (a, 0))))
      in n + of_bool (a AND 0x80000000 = 0))"

definition clzdi2 :: "u64 \<Rightarrow> nat" where
  "clzdi2 a =
     (let (a, n) = clz_line 0xc000000000000000 1 (clz_line 0xf000000000000000 2 (clz_line 0xff00000000000000 3
            (clz_line 0xffff000000000000 4 (clz_line 0xffffffff00000000 5 (a, 0)))))
      in n + of_bool (a AND 0x8000000000000000 = 0))"

definition ctzsi2 :: "u32 \<Rightarrow> nat" where
  "ctzsi2 a =
     (let (a, n) = ctz_line 0x3 1 (ctz_line 0xf 2 (ctz_line 0xff 3 (ctz_line 0xffff 4 (a, 0))))
      in n + of_bool (a AND 1 = 0))"

definition ctzdi2 :: "u64 \<Rightarrow> nat" where
  "ctzdi2 a =
     (let (a, n) = ctz_line 0x3 1 (ctz_line 0xf 2 (ctz_line 0xff 3 (ctz_line 0xffff 4 (ctz_line 0xffffffff 5 (a, 0)))))
      in n + of_bool (a AND 1 = 0))"

definition ffsdi2 :: "u64 \<Rightarrow> nat" where
  "ffsdi2 a = (if a \<noteq> 0 then ctzdi2 a + 1 else 0)"

definition popcountsi2 :: "u32 \<Rightarrow> u32" where
  "popcountsi2 a =
     (let a = a - (drop_bit 1 a AND 0x55555555);
          a = (drop_bit 2 a AND 0x33333333) + (a AND 0x33333333);
          a = (a + drop_bit 4 a) AND 0x0F0F0F0F;
          a = a + drop_bit 16 a
      in (a + drop_bit 8 a) AND 63)"

definition popcountdi2 :: "u64 \<Rightarrow> u64" where
  "popcountdi2 a =
     (let a = a - (drop_bit 1 a AND 0x5555555555555555);
          a = (drop_bit 2 a AND 0x3333333333333333) + (a AND 0x3333333333333333);
          a = (a + drop_bit 4 a) AND 0x0F0F0F0F0F0F0F0F;
          a = a + drop_bit 32 a;
          a = a + drop_bit 16 a
      in (a + drop_bit 8 a) AND 127)"

text \<open>The loop of the long division: \<open>(a, rem, wrap)\<close>.\<close>

fun div_loop :: "nat \<Rightarrow> u64 \<Rightarrow> u64 \<times> u64 \<times> u64 \<Rightarrow> u64 \<times> u64 \<times> u64" where
  "div_loop 0 b s = s"
| "div_loop (Suc bits) b (a, rem, wrap) =
     (let rem = push_bit 1 rem OR drop_bit 63 a;
          a = push_bit 1 a OR (wrap AND 1);
          wrap = signed_drop_bit 63 (b - rem - 1);
          rem = rem - (b AND wrap)
      in div_loop bits b (a, rem, wrap))"

definition long_division :: "u64 \<Rightarrow> u64 \<Rightarrow> u64 \<times> u64" where
  "long_division a b =
     (let bits = clzdi2 b - clzdi2 a + 1;
          (a, rem, wrap) = div_loop bits b (push_bit (64 - bits) a, drop_bit bits a, 0)
      in (push_bit 1 a OR (wrap AND 1), rem))"

text \<open>The quotient and the remainder.\<close>

definition divmoddi4 :: "u64 \<Rightarrow> u64 \<Rightarrow> (u64 \<times> u64) option" where
  "divmoddi4 a b =
     (if b > a then Some (0, a)
      else if arith64_hi b = 0 \<and> b = 0 then None
      else if arith64_hi b = 0 \<and> b = 1 then Some (a, 0)
      else if arith64_hi b = 0 \<and> arith64_hi a = 0 then
        Some (ucast (arith64_lo a div arith64_lo b), ucast (arith64_lo a mod arith64_lo b))
      else Some (long_division a b))"

definition udivdi3 :: "u64 \<Rightarrow> u64 \<Rightarrow> u64 option" where
  "udivdi3 a b = map_option fst (divmoddi4 a b)"

definition umoddi3 :: "u64 \<Rightarrow> u64 \<Rightarrow> u64 option" where
  "umoddi3 a b = map_option snd (divmoddi4 a b)"

definition divdi3 :: "u64 \<Rightarrow> u64 \<Rightarrow> u64 option" where
  "divdi3 a b = map_option (\<lambda>(q, r). arith64_neg q (a XOR b)) (divmoddi4 (arith64_abs a) (arith64_abs b))"

definition moddi3 :: "u64 \<Rightarrow> u64 \<Rightarrow> u64 option" where
  "moddi3 a b = map_option (\<lambda>(q, r). arith64_neg r a) (divmoddi4 (arith64_abs a) (arith64_abs b))"

section \<open>Shifts\<close>

lemma bit_halves:
  "bit (arith64_hi a) n \<longleftrightarrow> n < 32 \<and> bit a (32 + n)" "bit (arith64_lo a) n \<longleftrightarrow> n < 32 \<and> bit a n"
  "bit (arith64_word h l) n \<longleftrightarrow> (if n < 32 then bit l n else n < 64 \<and> bit h (n - 32))"
  by (auto simp: arith64_hi_def arith64_lo_def arith64_word_def bit_simps dest: bit_imp_le_length)

lemma shift_count: "nat (b AND 63) = nat (b mod 64)" "nat (b mod 64) < 64"
proof -
  have "(63 :: int) = mask 6" by (simp add: mask_eq_exp_minus_1)
  then show "nat (b AND 63) = nat (b mod 64)" by (simp only: take_bit_eq_mask [symmetric] take_bit_eq_mod) simp
qed simp

lemma arith64_shifts:
  "ashldi3 a b = push_bit (nat (b mod 64)) a" "lshrdi3 a b = drop_bit (nat (b mod 64)) a"
  "ashrdi3 a b = signed_drop_bit (nat (b mod 64)) a"
proof -
  define n where "n = nat (b mod 64)"
  have n: "nat (b AND 63) = n" "n < 64" using shift_count by (simp_all add: n_def)
  show "ashldi3 a b = push_bit (nat (b mod 64)) a"
    unfolding ashldi3_def n(1) n_def [symmetric] Let_def
    by (rule bit_word_eqI) (use n(2) in \<open>auto simp: bit_halves bit_simps add.commute [of _ n] dest: bit_imp_le_length\<close>)
  show "lshrdi3 a b = drop_bit (nat (b mod 64)) a"
    unfolding lshrdi3_def n(1) n_def [symmetric] Let_def
    by (rule bit_word_eqI) (use n(2) in \<open>auto simp: bit_halves bit_simps add.commute [of _ n] dest: bit_imp_le_length\<close>)
  show "ashrdi3 a b = signed_drop_bit (nat (b mod 64)) a"
    unfolding ashrdi3_def n(1) n_def [symmetric] Let_def
    by (rule bit_word_eqI) (use n(2) in \<open>auto simp: bit_halves bit_simps add.commute [of _ n] dest: bit_imp_le_length\<close>)
qed

section \<open>Leading and trailing zeros\<close>

lemma unat_push_bit_small: "unat (a :: 'a::len word) * 2 ^ k < 2 ^ LENGTH('a) \<Longrightarrow> unat (push_bit k a) = unat a * 2 ^ k"
  by (simp only: unsigned_push_bit_eq push_bit_eq_mult [where 'a = nat] take_bit_eq_mod [where 'a = nat] mod_less)

lemma and_high_zero: "(a :: 'a::len word) AND NOT (mask k) = 0 \<longleftrightarrow> unat a < 2 ^ k"
proof -
  have "a AND NOT (mask k) = 0 \<longleftrightarrow> unat a div 2 ^ k * 2 ^ k = 0"
    by (simp only: unat_and_not_mask [symmetric] unsigned_eq_0_iff)
  then show ?thesis by (simp add: div_eq_0_iff)
qed

text \<open>A line halves the window in which the highest bit can be.\<close>

lemma clz_line_step:
  fixes a :: "'a::len word"
  assumes "2 ^ (LENGTH('a) - 2 * 2 ^ s) \<le> unat a" "2 * 2 ^ s \<le> LENGTH('a)" "clz_line (NOT (mask (LENGTH('a) - 2 ^ s))) s (a, n) = (a', n')"
  shows "2 ^ (LENGTH('a) - 2 ^ s) \<le> unat a' \<and> n \<le> n' \<and> unat a' = unat a * 2 ^ (n' - n) \<and> n' \<le> n + 2 ^ s"
proof (cases "unat a < 2 ^ (LENGTH('a) - 2 ^ s)")
  case True
  let ?w = "LENGTH('a)" and ?k = "2 ^ s :: nat"
  have "unat a * 2 ^ ?k < 2 ^ (?w - ?k) * 2 ^ ?k" using True by simp
  also have "\<dots> = (2 :: nat) ^ ?w" using assms(2) by (simp add: power_add [symmetric])
  finally have p: "unat (push_bit ?k a) = unat a * 2 ^ ?k" by (rule unat_push_bit_small)
  have e: "a' = push_bit ?k a" "n' = n + ?k" using assms(3) True by (auto simp: clz_line_def and_high_zero Let_def)
  have "(2 :: nat) ^ (?w - ?k) = 2 ^ (?w - 2 * ?k) * 2 ^ ?k" using assms(2) by (simp add: power_add [symmetric])
  also have "\<dots> \<le> unat a * 2 ^ ?k" using assms(1) by simp
  finally show ?thesis using e p by simp
next
  case False
  then show ?thesis using assms(3) by (auto simp: clz_line_def and_high_zero Let_def)
qed

lemma clz_line_keeps:
  fixes a a0 :: "'a::len word"
  assumes "clz_line m s (a, n) = (a', n')" "m = NOT (mask (LENGTH('a) - 2 ^ s))" "2 * 2 ^ s \<le> LENGTH('a)"
    and "2 ^ (LENGTH('a) - 2 * 2 ^ s) \<le> unat a" "unat a = unat a0 * 2 ^ n"
  shows "2 ^ (LENGTH('a) - 2 ^ s) \<le> unat a'" "unat a' = unat a0 * 2 ^ n'"
  using clz_line_step [OF assms(4,3), of n a' n'] assms(1,2,5) by (auto simp: power_add [symmetric])

text \<open>The position of the highest bit, counted from the top.\<close>

definition leading :: "'a::len word \<Rightarrow> nat \<Rightarrow> bool" where
  "leading a n \<longleftrightarrow> n < LENGTH('a) \<and> 2 ^ (LENGTH('a) - 1 - n) \<le> unat a \<and> unat a < 2 ^ (LENGTH('a) - n)"

lemma clz_finish:
  fixes a a0 :: "'a::len word"
  assumes "2 ^ (LENGTH('a) - 2) \<le> unat a" "unat a = unat a0 * 2 ^ n" "m = NOT (mask (LENGTH('a) - 1))" "2 \<le> LENGTH('a)"
  shows "leading a0 (n + of_bool (a AND m = 0))"
proof -
  let ?w = "LENGTH('a)"
  let ?n = "n + of_bool (a AND m = 0)"
  have lo: "2 ^ (?w - 1) \<le> unat a0 * 2 ^ ?n"
  proof (cases "unat a < 2 ^ (?w - 1)")
    case True
    have "(2 :: nat) ^ (?w - 1) = 2 * 2 ^ (?w - 2)" using assms(4) by (simp add: power_Suc [symmetric] del: power_Suc)
    then show ?thesis using True assms(1,2) by (simp add: assms(3) and_high_zero)
  next
    case False
    then show ?thesis using assms(2) by (simp add: assms(3) and_high_zero)
  qed
  have hi: "unat a0 * 2 ^ ?n < 2 ^ ?w"
  proof (cases "unat a < 2 ^ (?w - 1)")
    case True
    have "(2 :: nat) ^ ?w = 2 * 2 ^ (?w - 1)" using assms(4) by (simp add: power_Suc [symmetric] del: power_Suc)
    then show ?thesis using True assms(2) by (simp add: assms(3) and_high_zero)
  next
    case False
    then have "unat a0 * 2 ^ ?n = unat a" using assms(2) by (simp add: assms(3) and_high_zero)
    then show ?thesis by simp
  qed
  have pos: "0 < unat a0" using lo by (cases "unat a0 = 0") auto
  then have "2 ^ ?n \<le> unat a0 * 2 ^ ?n" by simp
  then have "2 ^ ?n < (2 :: nat) ^ ?w" using hi by linarith
  then have n: "?n < ?w" by (rule power_less_imp_less_exp [rotated]) simp
  have "2 ^ (?w - 1 - ?n) * 2 ^ ?n \<le> unat a0 * 2 ^ ?n" "unat a0 * 2 ^ ?n < 2 ^ (?w - ?n) * 2 ^ ?n"
    using lo hi n by (simp_all add: power_add [symmetric])
  then show ?thesis using n by (simp add: leading_def)
qed

lemma clz_masks:
  "(0xffff0000 :: u32) = NOT (mask 16)" "(0xff000000 :: u32) = NOT (mask 24)" "(0xf0000000 :: u32) = NOT (mask 28)"
  "(0xc0000000 :: u32) = NOT (mask 30)" "(0x80000000 :: u32) = NOT (mask 31)"
  "(0xffffffff00000000 :: u64) = NOT (mask 32)" "(0xffff000000000000 :: u64) = NOT (mask 48)" "(0xff00000000000000 :: u64) = NOT (mask 56)"
  "(0xf000000000000000 :: u64) = NOT (mask 60)" "(0xc000000000000000 :: u64) = NOT (mask 62)" "(0x8000000000000000 :: u64) = NOT (mask 63)"
  by (simp_all add: not_eq_complement mask_eq_exp_minus_1)

lemma clzsi2_exact: "a \<noteq> 0 \<Longrightarrow> leading a (clzsi2 a)"
proof -
  assume "a \<noteq> 0"
  then have a0: "2 ^ (LENGTH(32) - 2 * 2 ^ 4) \<le> unat a" "unat a = unat a * 2 ^ 0" by (simp_all add: Suc_le_eq unat_gt_0)
  obtain a1 n1 where l1: "clz_line 0xffff0000 4 (a, 0) = (a1, n1)" by fastforce
  note k1 = clz_line_keeps [OF l1 _ _ a0]
  obtain a2 n2 where l2: "clz_line 0xff000000 3 (a1, n1) = (a2, n2)" by fastforce
  note k2 = clz_line_keeps [OF l2]
  obtain a3 n3 where l3: "clz_line 0xf0000000 2 (a2, n2) = (a3, n3)" by fastforce
  note k3 = clz_line_keeps [OF l3]
  obtain a4 n4 where l4: "clz_line 0xc0000000 1 (a3, n3) = (a4, n4)" by fastforce
  note k4 = clz_line_keeps [OF l4]
  have "clzsi2 a = n4 + of_bool (a4 AND 0x80000000 = 0)" unfolding clzsi2_def l1 l2 l3 l4 by simp
  moreover have "leading a (n4 + of_bool (a4 AND 0x80000000 = 0))"
    using k1 k2 [of a] k3 [of a] k4 [of a] by (intro clz_finish) (simp_all add: clz_masks)
  ultimately show ?thesis by simp
qed

lemma clzdi2_exact: "a \<noteq> 0 \<Longrightarrow> leading a (clzdi2 a)"
proof -
  assume "a \<noteq> 0"
  then have a0: "2 ^ (LENGTH(64) - 2 * 2 ^ 5) \<le> unat a" "unat a = unat a * 2 ^ 0" by (simp_all add: Suc_le_eq unat_gt_0)
  obtain a1 n1 where l1: "clz_line 0xffffffff00000000 5 (a, 0) = (a1, n1)" by fastforce
  note k1 = clz_line_keeps [OF l1 _ _ a0]
  obtain a2 n2 where l2: "clz_line 0xffff000000000000 4 (a1, n1) = (a2, n2)" by fastforce
  note k2 = clz_line_keeps [OF l2]
  obtain a3 n3 where l3: "clz_line 0xff00000000000000 3 (a2, n2) = (a3, n3)" by fastforce
  note k3 = clz_line_keeps [OF l3]
  obtain a4 n4 where l4: "clz_line 0xf000000000000000 2 (a3, n3) = (a4, n4)" by fastforce
  note k4 = clz_line_keeps [OF l4]
  obtain a5 n5 where l5: "clz_line 0xc000000000000000 1 (a4, n4) = (a5, n5)" by fastforce
  note k5 = clz_line_keeps [OF l5]
  have "clzdi2 a = n5 + of_bool (a5 AND 0x8000000000000000 = 0)" unfolding clzdi2_def l1 l2 l3 l4 l5 by simp
  moreover have "leading a (n5 + of_bool (a5 AND 0x8000000000000000 = 0))"
    using k1 k2 [of a] k3 [of a] k4 [of a] k5 [of a] by (intro clz_finish) (simp_all add: clz_masks)
  ultimately show ?thesis by simp
qed

lemma and_low_zero: "(a :: 'a::len word) AND mask k = 0 \<longleftrightarrow> 2 ^ k dvd unat a"
proof -
  have "a AND mask k = 0 \<longleftrightarrow> unat a mod 2 ^ k = 0"
    by (simp only: unat_and_mask [symmetric] unsigned_eq_0_iff)
  then show ?thesis by (simp add: dvd_eq_mod_eq_0)
qed

lemma ctz_line_keeps:
  fixes a a0 :: "'a::len word"
  assumes "ctz_line m s (a, n) = (a', n')" "m = mask (2 ^ s)" "\<not> 2 ^ (2 * 2 ^ s) dvd unat a" "unat a0 = unat a * 2 ^ n"
  shows "\<not> 2 ^ 2 ^ s dvd unat a'" "unat a0 = unat a' * 2 ^ n'"
proof -
  have "(\<not> 2 ^ 2 ^ s dvd unat a') \<and> unat a0 = unat a' * 2 ^ n'"
  proof (cases "2 ^ 2 ^ s dvd unat a")
    case True
    then have e: "a' = drop_bit (2 ^ s) a" "n' = n + 2 ^ s" using assms(1,2) by (auto simp: ctz_line_def and_low_zero Let_def)
    have u: "unat a = unat a' * 2 ^ 2 ^ s" using True by (simp only: e(1) unat_drop_bit_eq drop_bit_eq_div [where 'a = nat] dvd_div_mult_self)
    have "\<not> 2 ^ 2 ^ s dvd unat a'"
    proof
      assume "2 ^ 2 ^ s dvd unat a'"
      then have "2 ^ 2 ^ s * 2 ^ 2 ^ s dvd unat a" unfolding u by (rule mult_dvd_mono) simp
      then show False using assms(3) by (simp add: power_add [symmetric] mult_2)
    qed
    then show ?thesis using assms(4) u e(2) by (simp add: power_add mult_ac)
  next
    case False
    then show ?thesis using assms by (auto simp: ctz_line_def and_low_zero Let_def)
  qed
  then show "\<not> 2 ^ 2 ^ s dvd unat a'" "unat a0 = unat a' * 2 ^ n'" by blast+
qed

text \<open>The position of the lowest bit.\<close>

definition trailing :: "'a::len word \<Rightarrow> nat \<Rightarrow> bool" where
  "trailing a n \<longleftrightarrow> n < LENGTH('a) \<and> 2 ^ n dvd unat a \<and> \<not> 2 ^ (n + 1) dvd unat a"

lemma ctz_finish:
  fixes a a0 :: "'a::len word"
  assumes "\<not> 2 ^ 2 ^ 1 dvd unat a" "unat a0 = unat a * 2 ^ n"
  shows "trailing a0 (n + of_bool (a AND 1 = 0))"
proof -
  let ?n = "n + of_bool (a AND 1 = 0)"
  have m: "(1 :: 'a word) = mask 1" by simp
  have z: "a AND 1 = 0 \<longleftrightarrow> even (unat a)" unfolding m and_low_zero by simp
  obtain q where q: "unat a0 = q * 2 ^ ?n" "odd q"
  proof (cases "even (unat a)")
    case True
    then obtain h where h: "unat a = 2 * h" by blast
    then have "odd h" using assms(1) by auto
    then show ?thesis using that [of h] assms(2) h z True by simp
  next
    case False
    then show ?thesis using that [of "unat a"] assms(2) z by simp
  qed
  have "\<not> 2 ^ (?n + 1) dvd unat a0"
  proof
    assume "2 ^ (?n + 1) dvd unat a0"
    then have "2 * 2 ^ ?n dvd q * 2 ^ ?n" using q(1) by simp
    then show False using q(2) by (subst (asm) dvd_times_right_cancel_iff) simp_all
  qed
  moreover have "?n < LENGTH('a)"
  proof -
    have "1 * 2 ^ ?n \<le> unat a0" unfolding q(1) using q(2) by (intro mult_le_mono1) (cases q; simp)
    then have "2 ^ ?n < (2 :: nat) ^ LENGTH('a)" using unsigned_less [of a0, where 'a = nat] by linarith
    then show ?thesis by (rule power_less_imp_less_exp [rotated]) simp
  qed
  ultimately show ?thesis using q(1) by (simp add: trailing_def)
qed

lemma ctz_masks:
  "(0xffff :: u32) = mask (2 ^ 4)" "(0xff :: u32) = mask (2 ^ 3)" "(0xf :: u32) = mask (2 ^ 2)" "(3 :: u32) = mask (2 ^ 1)"
  "(0xffffffff :: u64) = mask (2 ^ 5)" "(0xffff :: u64) = mask (2 ^ 4)" "(0xff :: u64) = mask (2 ^ 3)" "(0xf :: u64) = mask (2 ^ 2)"
  "(3 :: u64) = mask (2 ^ 1)"
  by (simp_all add: mask_eq_exp_minus_1)

lemma nonzero_not_dvd: "(a :: 'a::len word) \<noteq> 0 \<Longrightarrow> LENGTH('a) \<le> k \<Longrightarrow> \<not> 2 ^ k dvd unat a"
proof
  assume "a \<noteq> 0" "LENGTH('a) \<le> k" "2 ^ k dvd unat a"
  then have "2 ^ k \<le> unat a" by (intro dvd_imp_le) (simp_all add: unat_gt_0)
  moreover have "(2 :: nat) ^ LENGTH('a) \<le> 2 ^ k" using \<open>LENGTH('a) \<le> k\<close> by simp
  ultimately show False using unsigned_less [of a, where 'a = nat] by linarith
qed

lemma ctzsi2_exact: "a \<noteq> 0 \<Longrightarrow> trailing a (ctzsi2 a)"
proof -
  assume "a \<noteq> 0"
  then have a0: "\<not> 2 ^ (2 * 2 ^ 4) dvd unat a" "unat a = unat a * 2 ^ 0" using nonzero_not_dvd [of a "2 * 2 ^ 4"] by simp_all
  obtain a1 n1 where l1: "ctz_line 0xffff 4 (a, 0) = (a1, n1)" by fastforce
  note k1 = ctz_line_keeps [OF l1 ctz_masks(1) a0]
  obtain a2 n2 where l2: "ctz_line 0xff 3 (a1, n1) = (a2, n2)" by fastforce
  note k2 = ctz_line_keeps [OF l2 ctz_masks(2) _ k1(2)]
  obtain a3 n3 where l3: "ctz_line 0xf 2 (a2, n2) = (a3, n3)" by fastforce
  obtain a4 n4 where l4: "ctz_line 0x3 1 (a3, n3) = (a4, n4)" by fastforce
  have c: "\<not> 2 ^ (2 * 2 ^ 3) dvd unat a1" using k1(1) by simp
  note k2 = k2 [OF c]
  have c: "\<not> 2 ^ (2 * 2 ^ 2) dvd unat a2" using k2(1) by simp
  note k3 = ctz_line_keeps [OF l3 ctz_masks(3) c k2(2)]
  have c: "\<not> 2 ^ (2 * 2 ^ 1) dvd unat a3" using k3(1) by simp
  note k4 = ctz_line_keeps [OF l4 ctz_masks(4) c k3(2)]
  have "ctzsi2 a = n4 + of_bool (a4 AND 1 = 0)" unfolding ctzsi2_def l1 l2 l3 l4 by simp
  then show ?thesis using ctz_finish [OF k4] by simp
qed

lemma ctzdi2_exact: "a \<noteq> 0 \<Longrightarrow> trailing a (ctzdi2 a)"
proof -
  assume "a \<noteq> 0"
  then have a0: "\<not> 2 ^ (2 * 2 ^ 5) dvd unat a" "unat a = unat a * 2 ^ 0" using nonzero_not_dvd [of a "2 * 2 ^ 5"] by simp_all
  obtain a1 n1 where l1: "ctz_line 0xffffffff 5 (a, 0) = (a1, n1)" by fastforce
  note k1 = ctz_line_keeps [OF l1 ctz_masks(5) a0]
  obtain a2 n2 where l2: "ctz_line 0xffff 4 (a1, n1) = (a2, n2)" by fastforce
  obtain a3 n3 where l3: "ctz_line 0xff 3 (a2, n2) = (a3, n3)" by fastforce
  obtain a4 n4 where l4: "ctz_line 0xf 2 (a3, n3) = (a4, n4)" by fastforce
  obtain a5 n5 where l5: "ctz_line 0x3 1 (a4, n4) = (a5, n5)" by fastforce
  have c: "\<not> 2 ^ (2 * 2 ^ 4) dvd unat a1" using k1(1) by simp
  note k2 = ctz_line_keeps [OF l2 ctz_masks(6) c k1(2)]
  have c: "\<not> 2 ^ (2 * 2 ^ 3) dvd unat a2" using k2(1) by simp
  note k3 = ctz_line_keeps [OF l3 ctz_masks(7) c k2(2)]
  have c: "\<not> 2 ^ (2 * 2 ^ 2) dvd unat a3" using k3(1) by simp
  note k4 = ctz_line_keeps [OF l4 ctz_masks(8) c k3(2)]
  have c: "\<not> 2 ^ (2 * 2 ^ 1) dvd unat a4" using k4(1) by simp
  note k5 = ctz_line_keeps [OF l5 ctz_masks(9) c k4(2)]
  have "ctzdi2 a = n5 + of_bool (a5 AND 1 = 0)" unfolding ctzdi2_def l1 l2 l3 l4 l5 by simp
  then show ?thesis using ctz_finish [OF k5] by simp
qed

section \<open>Division\<close>

lemma unat_add64: "unat x + unat y < 2 ^ 64 \<Longrightarrow> unat (x + y :: u64) = unat x + unat y"
  by (simp add: unat_word_ariths)

lemma unat_shift_in:
  fixes r a :: u64
  assumes "2 * unat r + unat a div 2 ^ 63 < 2 ^ 64"
  shows "unat (push_bit 1 r OR drop_bit 63 a) = 2 * unat r + unat a div 2 ^ 63"
proof -
  have "\<not> bit (push_bit 1 r) n \<or> \<not> bit (drop_bit 63 a) n" for n
    by (cases "n = 0") (auto simp: bit_0 bit_drop_bit_eq dest: bit_imp_le_length)
  then have "push_bit 1 r OR drop_bit 63 a = push_bit 1 r + drop_bit 63 a" by (rule disjunctive_add [symmetric])
  moreover have "unat (push_bit 1 r) = 2 * unat r" using assms by (subst unat_push_bit_small) simp_all
  moreover have "unat (drop_bit 63 a) = unat a div 2 ^ 63" by (simp only: unat_drop_bit_eq drop_bit_eq_div [where 'a = nat])
  ultimately show ?thesis using assms by (simp only: unat_add64)
qed

lemma unat_shift_out: "unat (push_bit 1 (a :: u64) OR (w AND 1)) = 2 * (unat a mod 2 ^ 63) + unat w mod 2"
proof -
  have "\<not> bit (push_bit 1 a) n \<or> \<not> bit (w AND 1) n" for n
    by (cases "n = 0") (auto simp: bit_0 bit_and_iff bit_1_iff)
  then have "push_bit 1 a OR (w AND 1) = push_bit 1 a + (w AND 1)" by (rule disjunctive_add [symmetric])
  moreover have "unat (w AND 1) = unat w mod 2" using unat_and_mask [of w 1] by simp
  moreover have "unat (push_bit 1 a) = 2 * (unat a mod 2 ^ 63)"
    by (simp only: unsigned_push_bit_eq push_bit_eq_mult [where 'a = nat] take_bit_eq_mod [where 'a = nat])
      (simp add: mult_mod_right mult.commute)
  moreover have "2 * (unat a mod 2 ^ 63) + unat w mod 2 < 2 ^ 64"
  proof -
    have "unat a mod 2 ^ 63 < 2 ^ 63" "unat w mod 2 < 2" by simp_all
    then show ?thesis by simp
  qed
  ultimately show ?thesis by (simp only: unat_add64)
qed

text \<open>The comparison by sign: all ones exactly when \<open>b \<le> r\<close>, as long as the difference has no 64th bit.\<close>

lemma sign_compare:
  fixes b r :: u64
  assumes "unat b \<le> 2 ^ 63 \<and> unat r < 2 * unat b \<or> unat b \<le> unat r \<and> unat r < unat b + 2 ^ 63" "0 < unat b"
  shows "signed_drop_bit 63 (b - r - 1) = (if unat b \<le> unat r then - 1 else 0)"
proof -
  have s: "signed_drop_bit 63 x = (if bit x 63 then - 1 else 0)" for x :: u64
    by (rule bit_word_eqI) (auto simp: bit_simps Suc_le_eq)
  have m: "bit x 63 \<longleftrightarrow> 2 ^ 63 \<le> unat x" for x :: u64
  proof -
    have "unat x div 2 ^ 63 < 2" using unsigned_less [of x, where 'a = nat] by (simp add: div_less_iff_less_mult)
    then have "odd (unat x div 2 ^ 63) \<longleftrightarrow> unat x div 2 ^ 63 \<noteq> 0" by (cases "unat x div 2 ^ 63") auto
    moreover have "bit x 63 = bit (unat x) 63" by (simp add: bit_unsigned_iff)
    ultimately show ?thesis unfolding bit_iff_odd [of "unat x"] by (simp add: div_eq_0_iff not_less)
  qed
  have "unat (b - r - 1) = (if unat b \<le> unat r then 2 ^ 64 + unat b - unat r - 1 else unat b - unat r - 1)"
  proof -
    have rb: "unat r < 2 ^ 64" "unat b < 2 ^ 64" using unsigned_less [of r, where 'a = nat] unsigned_less [of b, where 'a = nat] by simp_all
    have rbi: "int (unat r) < 2 ^ 64" "int (unat b) < 2 ^ 64" using unsigned_less [of r, where 'a = int] unsigned_less [of b, where 'a = int] by simp_all
    have k: "int (unat (of_int k :: u64)) = k mod 2 ^ 64" for k :: int by (simp add: unsigned_of_int take_bit_eq_mod)
    have "b - r - 1 = of_int (int (unat b) - int (unat r) - 1)" by simp
    then have u: "int (unat (b - r - 1)) = (int (unat b) - int (unat r) - 1) mod 2 ^ 64" using k by (simp only:)
    show ?thesis
    proof (cases "unat b \<le> unat r")
      case True
      have "(int (unat b) - int (unat r) - 1) mod 2 ^ 64 = (int (unat b) - int (unat r) - 1 + 2 ^ 64) mod 2 ^ 64" by (simp only: mod_add_self2)
      also have "\<dots> = int (unat b) - int (unat r) - 1 + 2 ^ 64" using True rbi by (intro mod_pos_pos_trivial) linarith+
      also have "\<dots> = int (2 ^ 64 + unat b - unat r - 1)" using rb by (simp add: of_nat_diff)
      finally have "int (unat (b - r - 1)) = int (2 ^ 64 + unat b - unat r - 1)" using u by (simp only:)
      then show ?thesis using True by (simp only: of_nat_eq_iff if_True)
    next
      case False
      then have "(int (unat b) - int (unat r) - 1) mod 2 ^ 64 = int (unat b) - int (unat r) - 1" using rbi by (intro mod_pos_pos_trivial) linarith+
      also have "\<dots> = int (unat b - unat r - 1)" using False by (simp add: of_nat_diff)
      finally have "int (unat (b - r - 1)) = int (unat b - unat r - 1)" using u by (simp only:)
      then show ?thesis using False by (simp only: of_nat_eq_iff if_False)
    qed
  qed
  then have "2 ^ 63 \<le> unat (b - r - 1) \<longleftrightarrow> unat b \<le> unat r" using assms by auto
  then show ?thesis by (simp add: s m)
qed

text \<open>The state of the loop with \<open>r\<close> bits of the numerator left: what is shifted in so far is \<open>N\<close> without them, the quotient of that
  is \<open>Q\<close>, of which the last bit is still in \<open>wrap\<close>.\<close>

definition div_state :: "nat \<Rightarrow> nat \<Rightarrow> nat \<Rightarrow> nat \<Rightarrow> u64 \<times> u64 \<times> u64 \<Rightarrow> bool" where
  "div_state N b r Q s \<longleftrightarrow> (case s of (a, rem, wrap) \<Rightarrow>
     unat rem + b * Q = N div 2 ^ r \<and> unat rem < b \<and> unat wrap mod 2 = Q mod 2 \<and>
     unat a = (N mod 2 ^ r) * 2 ^ (64 - r) + Q div 2 \<and> Q div 2 < 2 ^ (64 - r))"

lemma top_bit:
  assumes "0 < r" "r \<le> 64" "q < 2 ^ (64 - r)"
  shows "((N mod 2 ^ r) * 2 ^ (64 - r) + q) div 2 ^ 63 = N div 2 ^ (r - 1) mod (2 :: nat)"
    "((N mod 2 ^ r) * 2 ^ (64 - r) + q) mod 2 ^ 63 = (N mod 2 ^ (r - 1)) * 2 ^ (64 - r) + q"
proof -
  let ?p = "2 ^ (64 - r) :: nat" and ?h = "2 ^ (r - 1) :: nat"
  have e: "?h * ?p = 2 ^ 63" using assms(1,2) by (simp add: power_add [symmetric])
  have "N mod 2 ^ r = ?h * (N div ?h mod 2) + N mod ?h"
    using mod_mult2_eq [of N ?h 2] assms(1) by (simp add: power_Suc [symmetric] mult.commute del: power_Suc)
  then have x: "(N mod 2 ^ r) * ?p + q = 2 ^ 63 * (N div ?h mod 2) + ((N mod ?h) * ?p + q)"
    unfolding e [symmetric] by (simp add: algebra_simps)
  have "N mod ?h < ?h" by simp
  then have "N mod ?h + 1 \<le> ?h" by linarith
  then have "(N mod ?h + 1) * ?p \<le> ?h * ?p" by (rule mult_le_mono1)
  then have "(N mod ?h) * ?p + q < 2 ^ 63" using assms(3) unfolding e by simp
  then show "((N mod 2 ^ r) * ?p + q) div 2 ^ 63 = N div ?h mod 2" "((N mod 2 ^ r) * ?p + q) mod 2 ^ 63 = (N mod ?h) * ?p + q"
    unfolding x by simp_all
qed

lemma div_step:
  assumes "div_state N (unat b) (Suc r) Q (a, rem, wrap)" "r < 64" "N < 2 ^ 64" "unat b \<le> 2 ^ 63 \<or> r = 0 \<and> unat b \<le> N"
    and "rem1 = push_bit 1 rem OR drop_bit 63 a" "a1 = push_bit 1 a OR (wrap AND 1)" "wrap1 = signed_drop_bit 63 (b - rem1 - 1)"
  shows "\<exists>Q'. div_state N (unat b) r Q' (a1, rem1 - (b AND wrap1), wrap1)"
proof -
  note d = assms(1) [unfolded div_state_def prod.case]
  let ?x = "N div 2 ^ r mod 2"
  have q: "Q div 2 < 2 ^ (64 - Suc r)" using d by simp
  have ua: "unat a = (N mod 2 ^ Suc r) * 2 ^ (64 - Suc r) + Q div 2" using d by simp
  have top: "unat a div 2 ^ 63 = ?x" "unat a mod 2 ^ 63 = (N mod 2 ^ r) * 2 ^ (64 - Suc r) + Q div 2"
    using top_bit [of "Suc r" "Q div 2" N] assms(2) q unfolding ua by simp_all
  have nx: "N div 2 ^ r = 2 * (N div 2 ^ Suc r) + ?x" using div_mult2_eq [of N "2 ^ r" 2] by (simp add: mult.commute)
  have r1: "2 * unat rem + ?x + unat b * (2 * Q) = N div 2 ^ r" using d nx by (simp add: algebra_simps)
  have "N div 2 ^ r < 2 ^ 64" using assms(3) by (meson div_le_dividend le_less_trans)
  then have u1: "unat rem1 = 2 * unat rem + ?x" unfolding assms(5) using unat_shift_in [of rem a] r1 top(1) by simp
  have ua1: "unat a1 = 2 * ((N mod 2 ^ r) * 2 ^ (64 - Suc r) + Q div 2) + Q mod 2" unfolding assms(6) unat_shift_out top(2) using d by simp
  have b: "0 < unat b" "unat rem1 < 2 * unat b" using d u1 by auto
  have "signed_drop_bit 63 (b - rem1 - 1) = (if unat b \<le> unat rem1 then - 1 else 0)"
  proof (rule sign_compare [OF _ b(1)])
    show "unat b \<le> 2 ^ 63 \<and> unat rem1 < 2 * unat b \<or> unat b \<le> unat rem1 \<and> unat rem1 < unat b + 2 ^ 63"
    proof (cases "unat b \<le> 2 ^ 63")
      case False
      then have "r = 0" "unat b \<le> N" using assms(4) by auto
      moreover have "Q = 0"
      proof (rule ccontr)
        assume "Q \<noteq> 0"
        then have "unat b * 2 \<le> unat b * (2 * Q)" by simp
        moreover have "2 * unat rem + ?x + unat b * (2 * Q) = N" using r1 \<open>r = 0\<close> by simp
        ultimately have "unat b * 2 \<le> N" by linarith
        then show False using assms(3) False by simp
      qed
      ultimately show ?thesis using u1 r1 assms(3) False by simp
    qed (use b in simp)
  qed
  then have w: "wrap1 = (if unat b \<le> unat rem1 then - 1 else 0)" using assms(7) by simp
  define Q' where "Q' = 2 * Q + (if unat b \<le> unat rem1 then 1 else 0)"
  have rem2: "unat (rem1 - (b AND wrap1)) = unat rem1 - (if unat b \<le> unat rem1 then unat b else 0)"
    by (simp add: w unat_sub word_le_nat_alt)
  have wm: "unat wrap1 mod 2 = Q' mod 2"
  proof -
    have "unat (- 1 :: u64) mod 2 = 1" by (simp add: unsigned_minus_1_eq_mask mask_eq_exp_minus_1)
    then show ?thesis by (simp add: w Q'_def)
  qed
  have p: "(2 :: nat) ^ (64 - r) = 2 * 2 ^ (64 - Suc r)" using assms(2) by (simp add: power_Suc [symmetric] Suc_diff_Suc del: power_Suc)
  have "unat (rem1 - (b AND wrap1)) + unat b * Q' = N div 2 ^ r" unfolding rem2 Q'_def using r1 u1 by (auto simp: algebra_simps)
  moreover have "unat (rem1 - (b AND wrap1)) < unat b" unfolding rem2 using b by auto
  moreover have "unat a1 = (N mod 2 ^ r) * 2 ^ (64 - r) + Q' div 2" unfolding ua1 p Q'_def by (simp add: algebra_simps)
  moreover have "Q' div 2 < 2 ^ (64 - r)" unfolding p Q'_def using q by auto
  ultimately show ?thesis using wm unfolding div_state_def by (intro exI [of _ Q']) simp
qed

lemma div_loop_divides:
  assumes "div_state N (unat b) r Q s" "r \<le> 64" "N < 2 ^ 64" "unat b \<le> 2 ^ 63 \<or> r \<le> 1 \<and> unat b \<le> N"
  shows "\<exists>Q'. div_state N (unat b) 0 Q' (div_loop r b s)"
  using assms
proof (induction r arbitrary: Q s)
  case (Suc r)
  obtain a rem wrap where s: "s = (a, rem, wrap)" by (cases s)
  define rem1 where "rem1 = push_bit 1 rem OR drop_bit 63 a"
  define a1 where "a1 = push_bit 1 a OR (wrap AND 1)"
  define wrap1 where "wrap1 = signed_drop_bit 63 (b - rem1 - 1)"
  obtain Q' where q: "div_state N (unat b) r Q' (a1, rem1 - (b AND wrap1), wrap1)"
    using div_step [OF Suc.prems(1) [unfolded s] _ Suc.prems(3) _ rem1_def a1_def wrap1_def] Suc.prems(2,4) by auto
  have "div_loop (Suc r) b s = div_loop r b (a1, rem1 - (b AND wrap1), wrap1)"
    unfolding s by (simp only: div_loop.simps Let_def rem1_def a1_def wrap1_def)
  then show ?case using Suc.IH [OF q] Suc.prems(2-4) by auto
qed auto

lemma long_division_exact:
  assumes "b \<le> a" "2 \<le> unat b"
  shows "long_division a b = (a div b, a mod b)"
proof -
  have le: "unat b \<le> unat a" using assms(1) by (simp add: word_le_nat_alt)
  have ab: "leading a (clzdi2 a)" "leading b (clzdi2 b)" using assms le by (auto intro!: clzdi2_exact)
  let ?ca = "clzdi2 a" and ?cb = "clzdi2 b"
  note A = ab [unfolded leading_def]
  have "(2 :: nat) ^ (63 - ?cb) \<le> unat b" "unat a < 2 ^ (64 - ?ca)" using A by simp_all
  then have "(2 :: nat) ^ (63 - ?cb) < 2 ^ (64 - ?ca)" using le by linarith
  then have "63 - ?cb < 64 - ?ca" by (rule power_less_imp_less_exp [rotated]) simp
  then have c: "?ca \<le> ?cb" "?cb < 64" using A by simp_all
  have "(2 :: nat) ^ 1 < 2 ^ (64 - ?cb)" using A assms(2) by simp
  then have "1 < 64 - ?cb" by (rule power_less_imp_less_exp [rotated]) simp
  then have cb: "?cb \<le> 62" by simp
  define k where "k = ?cb - ?ca + 1"
  have k: "0 < k" "k \<le> 63" using cb by (simp_all add: k_def)
  have "unat a < 2 ^ (63 - ?cb) * 2 ^ k"
  proof -
    have "63 - ?cb + k = 64 - ?ca" using c by (simp add: k_def)
    then show ?thesis using A by (simp add: power_add [symmetric])
  qed
  then have "unat a div 2 ^ k < 2 ^ (63 - ?cb)" by (simp add: div_less_iff_less_mult)
  then have lt: "unat a div 2 ^ k < unat b" using A by simp
  let ?s = "(push_bit (64 - k) a, drop_bit k a, 0 :: u64)"
  have "unat (push_bit (64 - k) a) = (unat a mod 2 ^ k) * 2 ^ (64 - k)"
  proof -
    have "unat (push_bit (64 - k) a) = unat a * 2 ^ (64 - k) mod 2 ^ 64"
      by (simp only: unsigned_push_bit_eq push_bit_eq_mult [where 'a = nat] take_bit_eq_mod [where 'a = nat]) simp
    also have "(2 :: nat) ^ 64 = 2 ^ k * 2 ^ (64 - k)" using k by (simp add: power_add [symmetric])
    finally show ?thesis by (simp add: mult_mod_left)
  qed
  then have st: "div_state (unat a) (unat b) k 0 ?s" 
    unfolding div_state_def prod.case unat_drop_bit_eq drop_bit_eq_div [where 'a = nat] using lt by simp
  have b63: "unat b \<le> 2 ^ 63 \<or> k \<le> 1 \<and> unat b \<le> unat a"
  proof (cases "?cb = 0")
    case True
    then show ?thesis using c le by (simp add: k_def)
  next
    case False
    then have "(2 :: nat) ^ (64 - ?cb) \<le> 2 ^ 63" by (intro power_increasing) simp_all
    then show ?thesis using A by simp
  qed
  obtain Q where "div_state (unat a) (unat b) 0 Q (div_loop k b ?s)"
    using div_loop_divides [OF st _ _ b63] k unsigned_less [of a, where 'a = nat] by auto
  moreover obtain a1 rem wrap where dl: "div_loop k b ?s = (a1, rem, wrap)" by (cases "div_loop k b ?s")
  ultimately have f: "unat rem + unat b * Q = unat a" "unat rem < unat b" "unat wrap mod 2 = Q mod 2" "unat a1 = Q div 2"
    by (simp_all add: div_state_def)
  have "Q = unat a div unat b" "unat rem = unat a mod unat b"
    using f(1,2) by (metis div_mult_self4 add.commute div_less add_0 less_nat_zero_code) (metis f(1,2) mod_mult_self2 mod_less)
  moreover have "unat (push_bit 1 a1 OR (wrap AND 1)) = Q"
  proof -
    have "Q \<le> unat a" using f(1) assms(2) by (metis le_add2 le_trans mult_le_mono1 nat_mult_1 one_le_numeral le_trans)
    then have "Q div 2 < 2 ^ 63" using unsigned_less [of a, where 'a = nat] by simp
    then show ?thesis unfolding unat_shift_out f(3,4) by simp
  qed
  ultimately have "push_bit 1 a1 OR (wrap AND 1) = a div b" "rem = a mod b" by (simp_all add: word_unat_eq_iff unat_div unat_mod)
  then show ?thesis unfolding long_division_def k_def [symmetric] Let_def dl by simp
qed

lemma unat_halves: "unat (arith64_lo x) = unat x mod 2 ^ 32" "unat (arith64_hi x) = unat x div 2 ^ 32" "unat (ucast (w :: u32) :: u64) = unat w"
proof -
  have dn: "unat (ucast (y :: u64) :: u32) = unat y mod 2 ^ 32" for y
    by (simp only: unsigned_ucast_eq take_bit_eq_mod [where 'a = nat]) simp
  show "unat (arith64_lo x) = unat x mod 2 ^ 32" by (simp only: arith64_lo_def dn)
  have "unat x div 2 ^ 32 < 2 ^ 32" using unsigned_less [of x, where 'a = nat] by (simp add: div_less_iff_less_mult)
  then show "unat (arith64_hi x) = unat x div 2 ^ 32" by (simp only: arith64_hi_def dn unat_drop_bit_eq drop_bit_eq_div [where 'a = nat] mod_less)
  have "unat w < 2 ^ 32" using unsigned_less [of w, where 'a = nat] by simp
  then have "unat w < 2 ^ 64" by simp
  then show "unat (ucast w :: u64) = unat w" by (simp only: unsigned_ucast_eq take_bit_eq_mod [where 'a = nat]) simp
qed

lemma divmoddi4_exact: "divmoddi4 a b = (if b = 0 then None else Some (a div b, a mod b))"
proof -
  have hi: "arith64_hi x = 0 \<longleftrightarrow> unat x < 2 ^ 32" for x
    using unat_halves(2) [of x] by (metis div_eq_0_iff power_not_zero unsigned_eq_0_iff zero_neq_numeral)
  consider (small) "b > a" | (zero) "b = 0" | (one) "b \<le> a" "b = 1" | (half) "b \<le> a" "b \<noteq> 0" "b \<noteq> 1" "unat a < 2 ^ 32" "unat b < 2 ^ 32"
    | (long) "b \<le> a" "b \<noteq> 0" "b \<noteq> 1" "\<not> (unat a < 2 ^ 32 \<and> unat b < 2 ^ 32)"
    using not_less [of a b] by blast
  then show ?thesis
  proof cases
    case small
    then have "a div b = 0" "a mod b = a" "b \<noteq> 0" by (auto simp: word_unat_eq_iff word_less_nat_alt unat_div unat_mod)
    then show ?thesis using small by (simp add: divmoddi4_def)
  next
    case half
    then have "ucast (arith64_lo a div arith64_lo b) = a div b" "ucast (arith64_lo a mod arith64_lo b) = a mod b"
      by (simp_all only: word_unat_eq_iff unat_halves unat_div unat_mod mod_less)
    moreover have "\<not> a < b" using half(1) by simp
    ultimately show ?thesis using half by (simp add: divmoddi4_def hi)
  next
    case long
    then have "unat b \<noteq> 0" "unat b \<noteq> 1" by (metis unsigned_eq_0_iff, metis unat_1 word_unat_eq_iff)
    then have "2 \<le> unat b" by simp
    from long_division_exact [OF long(1) this] leD [OF long(1)] long show ?thesis by (auto simp: divmoddi4_def hi)
  qed (simp_all add: divmoddi4_def hi not_less)
qed

lemma arith64_neg_eq: "arith64_neg a b = (if sint b < 0 then - a else a)"
proof -
  have "a XOR - 1 = NOT a" by simp
  then show ?thesis by (cases "sint b < 0") (simp_all add: arith64_neg_def not_eq_complement)
qed

lemma arith64_abs_eq: "arith64_abs a = of_int \<bar>sint a\<bar>"
proof (cases "sint a < 0")
  case True
  then have "of_int \<bar>sint a\<bar> = - (of_int (sint a) :: u64)" by simp
  then show ?thesis using True by (simp add: arith64_abs_def arith64_neg_eq)
next
  case False
  then show ?thesis by (simp add: arith64_abs_def arith64_neg_eq)
qed

lemma unat_abs: "int (unat (arith64_abs a)) = \<bar>sint a\<bar>"
proof -
  have "- (2 ^ 63) \<le> sint a" "sint a < 2 ^ 63" using sint_greater_eq [of a] sint_less [of a] by simp_all
  then have "\<bar>sint a\<bar> mod 2 ^ 64 = \<bar>sint a\<bar>" by (intro mod_pos_pos_trivial) simp_all
  then show ?thesis by (simp add: arith64_abs_eq unsigned_of_int take_bit_eq_mod)
qed

lemma sign_xor: "sint (a XOR b :: u64) < 0 \<longleftrightarrow> (sint a < 0) \<noteq> (sint b < 0)"
proof -
  have "sint x < 0 \<longleftrightarrow> bit x 63" for x :: u64 using bit_last_iff [of x] by simp
  then show ?thesis by (simp add: bit_xor_iff)
qed

lemma abs_parts:
  "arith64_abs a div arith64_abs b = of_int (\<bar>sint a\<bar> div \<bar>sint b\<bar>)" "arith64_abs a mod arith64_abs b = of_int (\<bar>sint a\<bar> mod \<bar>sint b\<bar>)"
proof -
  have n: "(x :: u64) = of_int (int (unat x))" for x by simp
  show "arith64_abs a div arith64_abs b = of_int (\<bar>sint a\<bar> div \<bar>sint b\<bar>)"
    by (subst n) (simp only: unat_div zdiv_int unat_abs)
  show "arith64_abs a mod arith64_abs b = of_int (\<bar>sint a\<bar> mod \<bar>sint b\<bar>)"
    by (subst n) (simp only: unat_mod zmod_int unat_abs)
qed


text \<open>C32: the division routines are exact. For all 64-bit operands \<open>__divmoddi4\<close> returns quotient and remainder of the unsigned division,
  \<open>__udivdi3\<close> and \<open>__umoddi3\<close> one of them, and \<open>__divdi3\<close> and \<open>__moddi3\<close> those of the signed division that truncates towards zero, the most
  negative value included; a divisor of zero, and nothing else, raises the exception.\<close>

theorem arith64_division:
  "divmoddi4 a b = (if b = 0 then None else Some (a div b, a mod b)) \<and>
   udivdi3 a b = (if b = 0 then None else Some (a div b)) \<and> umoddi3 a b = (if b = 0 then None else Some (a mod b)) \<and>
   divdi3 a b = (if b = 0 then None else Some (of_int (sint a sdiv sint b))) \<and>
   moddi3 a b = (if b = 0 then None else Some (of_int (sint a smod sint b)))"
proof -
  have z: "arith64_abs b = 0 \<longleftrightarrow> b = 0"
  proof -
    have "arith64_abs b = 0 \<longleftrightarrow> int (unat (arith64_abs b)) = 0" by (simp add: unsigned_eq_0_iff)
    then show ?thesis unfolding unat_abs by (simp add: signed_eq_0_iff)
  qed
  have q: "arith64_neg (of_int (\<bar>sint a\<bar> div \<bar>sint b\<bar>)) (a XOR b) = of_int (sint a sdiv sint b)"
    unfolding arith64_neg_eq sign_xor signed_divide_int_def
    by (cases "sint a < 0"; cases "sint a = 0"; cases "sint b < 0"; cases "sint b = 0") simp_all
  have r: "arith64_neg (of_int (\<bar>sint a\<bar> mod \<bar>sint b\<bar>)) a = of_int (sint a smod sint b)"
    unfolding arith64_neg_eq signed_modulo_int_def by (cases "sint a < 0"; cases "sint a = 0") simp_all
  show ?thesis
    unfolding udivdi3_def umoddi3_def divdi3_def moddi3_def divmoddi4_exact abs_parts z using q r by simp
qed

end
