(* ===== verification/Utf8.thy ===== *)
theory Utf8
  imports Prelude
begin

text \<open>
  \<open>libc/utf8.c\<close> and \<open>libc/utf8.h\<close>: decoding, encoding and the string functions on code points. A string is the
  list of its bytes (a read at its end gives the terminator, and a zero byte inside ends it earlier), a pointer
  into it a position. The theorems relate the routines to the sequence of code points that a string encodes:
  \<open>utf8_encode\<close> and \<open>utf8_decode\<close> are inverse on Unicode scalar values, everything else is an error, and the
  validity test, the code point count and the bounded copy are exact.
\<close>

section \<open>Code points\<close>

type_synonym rune = u32

definition RUNE_ERROR :: rune where "RUNE_ERROR = 0xFFFD"
definition RUNE_EOF :: rune where "RUNE_EOF = - 1"
definition RUNE_MAX :: rune where "RUNE_MAX = 0x10FFFF"

definition utf8_byte_len :: "rune \<Rightarrow> nat" where
  "utf8_byte_len cp =
     (if cp < 0x80 then 1
      else if cp < 0x800 then 2
      else if cp < 0x10000 then if cp \<ge> 0xD800 \<and> cp \<le> 0xDFFF then 0 else 3
      else if cp \<le> RUNE_MAX then 4 else 0)"

definition utf8_is_cont :: "u8 \<Rightarrow> bool" where "utf8_is_cont b \<longleftrightarrow> b AND 0xC0 = 0x80"
definition utf8_is_lead :: "u8 \<Rightarrow> bool" where "utf8_is_lead b \<longleftrightarrow> b AND 0xC0 = 0xC0"

text \<open>The bytes that \<open>utf8_encode\<close> stores; their number is its result.\<close>

definition utf8_encode :: "rune \<Rightarrow> u8 list" where
  "utf8_encode cp =
     (if cp < 0x80 then [ucast cp]
      else if cp < 0x800 then [ucast (0xC0 OR drop_bit 6 cp), ucast (0x80 OR (cp AND 0x3F))]
      else if cp < 0x10000 then
        if cp \<ge> 0xD800 \<and> cp \<le> 0xDFFF then [0xEF, 0xBF, 0xBD]
        else [ucast (0xE0 OR drop_bit 12 cp), ucast (0x80 OR (drop_bit 6 cp AND 0x3F)), ucast (0x80 OR (cp AND 0x3F))]
      else if cp \<le> RUNE_MAX then
        [ucast (0xF0 OR drop_bit 18 cp), ucast (0x80 OR (drop_bit 12 cp AND 0x3F)),
         ucast (0x80 OR (drop_bit 6 cp AND 0x3F)), ucast (0x80 OR (cp AND 0x3F))]
      else [0xEF, 0xBF, 0xBD])"

text \<open>The loop over the \<open>n\<close> continuation bytes at \<open>p\<close>: the code point, or \<open>None\<close> at a byte that is not one;
  and where the pointer is left.\<close>

fun decode_tail :: "u8 list \<Rightarrow> nat \<Rightarrow> nat \<Rightarrow> rune \<Rightarrow> rune option \<times> nat" where
  "decode_tail s p 0 cp = (Some cp, p)"
| "decode_tail s p (Suc n) cp =
     (if cstr_at s p AND 0xC0 \<noteq> 0x80 then (None, p)
      else decode_tail s (p + 1) n (push_bit 6 cp OR ucast (cstr_at s p AND 0x3F)))"

definition decode_seq :: "u8 list \<Rightarrow> nat \<Rightarrow> nat \<Rightarrow> rune \<Rightarrow> rune \<times> nat" where
  "decode_seq s p extra cp =
     (case decode_tail s p extra cp of
        (None, p) \<Rightarrow> (RUNE_ERROR, p)
      | (Some cp, p) \<Rightarrow>
          if extra = 1 \<and> cp < 0x80 then (RUNE_ERROR, p)
          else if extra = 2 \<and> cp < 0x800 then (RUNE_ERROR, p)
          else if extra = 3 \<and> cp < 0x10000 then (RUNE_ERROR, p)
          else if cp \<ge> 0xD800 \<and> cp \<le> 0xDFFF then (RUNE_ERROR, p)
          else if cp > RUNE_MAX then (RUNE_ERROR, p)
          else (cp, p))"

definition utf8_decode :: "u8 list \<Rightarrow> nat \<Rightarrow> rune \<times> nat" where
  "utf8_decode s p =
     (let lead = cstr_at s p in
      if lead = 0 then (RUNE_EOF, p)
      else if lead < 0x80 then (ucast lead, p + 1)
      else if lead AND 0xE0 = 0xC0 then decode_seq s (p + 1) 1 (ucast lead AND 0x1F)
      else if lead AND 0xF0 = 0xE0 then decode_seq s (p + 1) 2 (ucast lead AND 0x0F)
      else if lead AND 0xF8 = 0xF0 then decode_seq s (p + 1) 3 (ucast lead AND 0x07)
      else (RUNE_ERROR, p + 1))"

section \<open>Rune predicates\<close>

definition rune_is_ascii :: "rune \<Rightarrow> bool" where "rune_is_ascii c \<longleftrightarrow> c < 0x80"
definition rune_is_digit :: "rune \<Rightarrow> bool" where "rune_is_digit c \<longleftrightarrow> c \<ge> 0x30 \<and> c \<le> 0x39"
definition rune_is_upper :: "rune \<Rightarrow> bool" where "rune_is_upper c \<longleftrightarrow> c \<ge> 0x41 \<and> c \<le> 0x5A"
definition rune_is_lower :: "rune \<Rightarrow> bool" where "rune_is_lower c \<longleftrightarrow> c \<ge> 0x61 \<and> c \<le> 0x7A"
definition rune_is_alpha :: "rune \<Rightarrow> bool" where "rune_is_alpha c \<longleftrightarrow> rune_is_upper c \<or> rune_is_lower c"
definition rune_is_alnum :: "rune \<Rightarrow> bool" where "rune_is_alnum c \<longleftrightarrow> rune_is_alpha c \<or> rune_is_digit c"
definition rune_is_space :: "rune \<Rightarrow> bool" where "rune_is_space c \<longleftrightarrow> c \<in> {0x20, 0x09, 0x0A, 0x0D, 0x0C, 0x0B}"
definition rune_is_print :: "rune \<Rightarrow> bool" where "rune_is_print c \<longleftrightarrow> (c \<ge> 0x20 \<and> c < 0x7F) \<or> c > 0x9F"

definition rune_is_hex :: "rune \<Rightarrow> bool" where
  "rune_is_hex c \<longleftrightarrow> rune_is_digit c \<or> (c \<ge> 0x41 \<and> c \<le> 0x46) \<or> (c \<ge> 0x61 \<and> c \<le> 0x66)"

definition rune_to_upper :: "rune \<Rightarrow> rune" where "rune_to_upper c = (if rune_is_lower c then c - 32 else c)"
definition rune_to_lower :: "rune \<Rightarrow> rune" where "rune_to_lower c = (if rune_is_upper c then c + 32 else c)"

definition rune_hex_val :: "rune \<Rightarrow> int" where
  "rune_hex_val c =
     (if c \<ge> 0x30 \<and> c \<le> 0x39 then uint (c - 0x30)
      else if c \<ge> 0x41 \<and> c \<le> 0x46 then uint (c - 0x41 + 10)
      else if c \<ge> 0x61 \<and> c \<le> 0x66 then uint (c - 0x61 + 10)
      else - 1)"

section \<open>The pointer stays in the string\<close>

lemma decode_tail_within:
  "p \<le> length s \<Longrightarrow> p \<le> snd (decode_tail s p n cp) \<and> snd (decode_tail s p n cp) \<le> length s"
proof (induction s p n cp rule: decode_tail.induct)
  case (2 s p n cp)
  show ?case
  proof (cases "cstr_at s p AND 0xC0 = 0x80")
    case True
    then have "cstr_at s p \<noteq> 0" by auto
    then have "p + 1 \<le> length s" by (simp add: cstr_at_def split: if_splits)
    with 2 True show ?thesis by fastforce
  qed (use 2 in simp)
qed simp

lemma snd_decode_seq: "snd (decode_seq s p extra cp) = snd (decode_tail s p extra cp)"
  by (auto simp: decode_seq_def split: prod.splits option.splits)

lemma decode_within:
  assumes "cstr_at s p \<noteq> 0"
  shows "p < snd (utf8_decode s p) \<and> snd (utf8_decode s p) \<le> length s"
proof -
  have "p + 1 \<le> length s" using assms by (simp add: cstr_at_def split: if_splits)
  from decode_tail_within [OF this] have
    "p < snd (decode_seq s (p + 1) n cp) \<and> snd (decode_seq s (p + 1) n cp) \<le> length s" for n cp
    unfolding snd_decode_seq less_eq_Suc_le Suc_eq_plus1 by blast
  with assms \<open>p + 1 \<le> length s\<close> show ?thesis by (simp add: utf8_decode_def Let_def del: add_Suc_right)
qed

lemma decode_less: "cstr_at s p \<noteq> 0 \<Longrightarrow> (cp, q) = utf8_decode s p \<Longrightarrow> length s - q < length s - p"
  using decode_within [of s p] by (metis diff_less_mono2 less_le_trans snd_conv)

section \<open>The string functions\<close>

text \<open>\<open>while (*s) { if (!utf8_is_cont(*s)) n++; s++; }\<close>\<close>

fun utf8_strlen :: "u8 list \<Rightarrow> nat" where
  "utf8_strlen [] = 0"
| "utf8_strlen (b # s) = (if b = 0 then 0 else (if utf8_is_cont b then 0 else 1) + utf8_strlen s)"

fun advance_from :: "u8 list \<Rightarrow> nat \<Rightarrow> nat \<Rightarrow> nat" where
  "advance_from s p 0 = p"
| "advance_from s p (Suc n) = (if cstr_at s p \<noteq> 0 then advance_from s (snd (utf8_decode s p)) n else p)"

definition utf8_advance :: "u8 list \<Rightarrow> nat \<Rightarrow> nat" where "utf8_advance s n = advance_from s 0 n"
definition utf8_codepoint_offset :: "u8 list \<Rightarrow> nat \<Rightarrow> nat" where "utf8_codepoint_offset s n = utf8_advance s n - 0"

definition SIZE_MAX :: nat where "SIZE_MAX = 2 ^ 64 - 1"

function valid_from :: "u8 list \<Rightarrow> nat \<Rightarrow> nat \<Rightarrow> bool" where
  "valid_from s len p =
     (if cstr_at s p \<noteq> 0 \<and> (len = SIZE_MAX \<or> p < len) then
        let (cp, q) = utf8_decode s p in if cp = RUNE_ERROR then False else valid_from s len q
      else True)"
  by pat_completeness auto
termination
  by (relation "measure (\<lambda>(s, len, p). length s - p)") (auto intro: decode_less)

declare valid_from.simps [simp del]

definition utf8_valid :: "u8 list \<Rightarrow> nat \<Rightarrow> bool" where "utf8_valid s len = valid_from s len 0"

function casecmp_from :: "u8 list \<Rightarrow> nat \<Rightarrow> u8 list \<Rightarrow> nat \<Rightarrow> int" where
  "casecmp_from a p b q =
     (if cstr_at a p \<noteq> 0 \<and> cstr_at b q \<noteq> 0 then
        let (ca, p') = utf8_decode a p; (cb, q') = utf8_decode b q;
            ca = rune_to_lower ca; cb = rune_to_lower cb
        in if ca \<noteq> cb then if ca < cb then - 1 else 1 else casecmp_from a p' b q'
      else if cstr_at a p = cstr_at b q then 0 else if cstr_at a p < cstr_at b q then - 1 else 1)"
  by pat_completeness auto
termination
  by (relation "measure (\<lambda>(a, p, b, q). length a - p)") (auto intro: decode_less)

declare casecmp_from.simps [simp del]

definition utf8_casecmp :: "u8 list \<Rightarrow> u8 list \<Rightarrow> int" where "utf8_casecmp a b = casecmp_from a 0 b 0"

function strchr_from :: "u8 list \<Rightarrow> rune \<Rightarrow> nat \<Rightarrow> nat option" where
  "strchr_from s cp p =
     (if cstr_at s p \<noteq> 0 then
        let (c, q) = utf8_decode s p in if c = cp then Some p else strchr_from s cp q
      else if cp = 0 then Some p else None)"
  by pat_completeness auto
termination
  by (relation "measure (\<lambda>(s, cp, p). length s - p)") (auto intro: decode_less)

declare strchr_from.simps [simp del]

definition utf8_strchr :: "u8 list \<Rightarrow> rune \<Rightarrow> nat option" where "utf8_strchr s cp = strchr_from s cp 0"

text \<open>The destination is an array, \<open>d\<close> the position of \<open>dst\<close> in it and \<open>stop\<close> that of \<open>end\<close>; the result is the array,
  the final position and the count.\<close>

function copy_from :: "u8 list \<Rightarrow> nat \<Rightarrow> nat \<Rightarrow> nat \<Rightarrow> nat \<Rightarrow> nat \<Rightarrow> u8 list \<Rightarrow> u8 list \<times> nat \<times> nat" where
  "copy_from src p n d stop copied dst =
     (if cstr_at src p \<noteq> 0 \<and> copied < n then
        let (cp, q) = utf8_decode src p; blen = utf8_byte_len cp in
        if d + blen > stop then (dst, d, copied)
        else
          let code = utf8_encode cp in
          copy_from src q n (d + blen) stop (copied + 1) (take d dst @ code @ drop (d + length code) dst)
      else (dst, d, copied))"
  by pat_completeness auto
termination
  by (relation "measure (\<lambda>(src, p, n, d, stop, copied, dst). length src - p)") (auto intro: decode_less)

declare copy_from.simps [simp del]

definition utf8_strncpy_cp :: "u8 list \<Rightarrow> nat \<Rightarrow> u8 list \<Rightarrow> nat \<Rightarrow> nat \<times> u8 list" where
  "utf8_strncpy_cp dst buf_sz src n =
     (if buf_sz = 0 then (0, dst)
      else let (dst, d, copied) = copy_from src 0 n 0 (buf_sz - 1) 0 dst in (copied, dst[d := 0]))"

section \<open>Bytes as numbers\<close>

lemma lead_tests:
  fixes b :: u8
  shows "b AND 0xC0 = 0x80 \<longleftrightarrow> unat b div 64 = 2" "b AND 0xE0 = 0xC0 \<longleftrightarrow> unat b div 32 = 6"
    "b AND 0xF0 = 0xE0 \<longleftrightarrow> unat b div 16 = 14" "b AND 0xF8 = 0xF0 \<longleftrightarrow> unat b div 8 = 30"
proof -
  have m: "unat (b AND NOT (mask n)) = unat b div 2 ^ n * 2 ^ n" for n by (rule unat_and_not_mask)
  have e: "b AND c = d \<longleftrightarrow> unat (b AND c) = unat d" for c d by (simp add: word_unat_eq_iff)
  have c: "(0xC0 :: u8) = NOT (mask 6)" "(0xE0 :: u8) = NOT (mask 5)" "(0xF0 :: u8) = NOT (mask 4)" "(0xF8 :: u8) = NOT (mask 3)"
    by (simp_all add: mask_eq_decr_exp)
  show "b AND 0xC0 = 0x80 \<longleftrightarrow> unat b div 64 = 2" unfolding e c(1) m by simp
  show "b AND 0xE0 = 0xC0 \<longleftrightarrow> unat b div 32 = 6" unfolding e c(2) m by (simp add: c(1) [symmetric])
  show "b AND 0xF0 = 0xE0 \<longleftrightarrow> unat b div 16 = 14" unfolding e c(3) m by (simp add: c(2) [symmetric])
  show "b AND 0xF8 = 0xF0 \<longleftrightarrow> unat b div 8 = 30" unfolding e c(4) m by (simp add: c(3) [symmetric])
qed

lemma unat_ucast_up: "unat (ucast (b :: u8) :: u32) = unat b"
  by (simp add: unsigned_ucast_eq take_bit_nat_eq_self_iff less_le_trans [OF unsigned_less])

lemma payload_bits:
  fixes b :: u8
  shows "unat (ucast b AND 0x1F :: u32) = unat b mod 32" "unat (ucast b AND 0x0F :: u32) = unat b mod 16"
    "unat (ucast b AND 0x07 :: u32) = unat b mod 8" "unat (ucast (b AND 0x3F) :: u32) = unat b mod 64"
proof -
  have c: "(0x1F :: u32) = mask 5" "(0x0F :: u32) = mask 4" "(0x07 :: u32) = mask 3" "(0x3F :: u8) = mask 6"
    by (simp_all add: mask_eq_decr_exp)
  show "unat (ucast b AND 0x1F :: u32) = unat b mod 32" "unat (ucast b AND 0x0F :: u32) = unat b mod 16"
    "unat (ucast b AND 0x07 :: u32) = unat b mod 8" "unat (ucast (b AND 0x3F) :: u32) = unat b mod 64"
    unfolding c unat_ucast_up unat_and_mask by (simp_all add: unat_ucast_up)
qed

lemma unat_shift6:
  fixes cp :: rune and b :: u8
  assumes "unat cp < 2 ^ 26"
  shows "unat (push_bit 6 cp OR ucast (b AND 0x3F)) = 64 * unat cp + unat b mod 64"
proof -
  have p: "unat (push_bit 6 cp) = 64 * unat cp"
    using assms by (simp only: unsigned_push_bit_eq push_bit_eq_mult [where 'a = nat] take_bit_eq_mod [where 'a = nat]) simp
  show ?thesis by (subst unat_or_disjoint [where k = 6]) (simp_all add: p payload_bits)
qed


text \<open>The bytes of an encoding as numbers.\<close>

lemma encode_byte:
  assumes "2 ^ k dvd unat h" "unat x < 2 ^ k" "unat h + unat x < 256"
  shows "unat (ucast (h OR x :: u32) :: u8) = unat h + unat x"
  using assms unat_or_disjoint [OF assms(1,2)] by (simp add: unsigned_ucast_eq take_bit_nat_eq_self_iff)

lemma unat_drop: "unat (drop_bit n (cp :: u32)) = unat cp div 2 ^ n"
  by (simp only: unsigned_drop_bit_eq drop_bit_eq_div [where 'a = nat] take_bit_eq_mod [where 'a = nat] mod_less unsigned_less)

lemma unat_low6: "unat (x AND 0x3F :: u32) = unat x mod 64"
proof -
  have "(0x3F :: u32) = mask 6" by (simp add: mask_eq_decr_exp)
  then show ?thesis by (simp only: unat_and_mask) simp
qed

lemmas rune_nat = word_less_nat_alt word_le_nat_alt RUNE_MAX_def

lemma encode_cont: "unat (ucast (0x80 OR (x AND 0x3F) :: u32) :: u8) = 128 + unat x mod 64"
proof -
  have "unat x mod 64 < 64" by simp
  then show ?thesis by (subst encode_byte [where k = 6]) (simp_all add: unat_low6)
qed

lemma encode_bytes:
  "utf8_byte_len cp = 1 \<Longrightarrow> map unat (utf8_encode cp) = [unat cp]"
  "utf8_byte_len cp = 2 \<Longrightarrow> map unat (utf8_encode cp) = [192 + unat cp div 64, 128 + unat cp mod 64]"
  "utf8_byte_len cp = 3 \<Longrightarrow> map unat (utf8_encode cp) =
     [224 + unat cp div 4096, 128 + unat cp div 64 mod 64, 128 + unat cp mod 64]"
  "utf8_byte_len cp = 4 \<Longrightarrow> map unat (utf8_encode cp) =
     [240 + unat cp div 262144, 128 + unat cp div 4096 mod 64, 128 + unat cp div 64 mod 64, 128 + unat cp mod 64]"
proof -
  show "map unat (utf8_encode cp) = [unat cp]" if "utf8_byte_len cp = 1"
    using that by (simp add: utf8_byte_len_def utf8_encode_def rune_nat unsigned_ucast_eq take_bit_nat_eq_self_iff split: if_splits)
  show "map unat (utf8_encode cp) = [192 + unat cp div 64, 128 + unat cp mod 64]" if l: "utf8_byte_len cp = 2"
  proof -
    have c: "\<not> cp < 0x80" "cp < 0x800" using l by (auto simp: utf8_byte_len_def split: if_splits)
    then have "unat cp div 64 < 32" by (simp add: rune_nat)
    then have "unat (ucast (0xC0 OR drop_bit 6 cp) :: u8) = 192 + unat cp div 64"
      by (subst encode_byte [where k = 5]) (simp_all add: unat_drop)
    with c show ?thesis by (simp add: utf8_encode_def encode_cont)
  qed
  show "map unat (utf8_encode cp) = [224 + unat cp div 4096, 128 + unat cp div 64 mod 64, 128 + unat cp mod 64]"
    if l: "utf8_byte_len cp = 3"
  proof -
    have c: "\<not> cp < 0x80" "\<not> cp < 0x800" "cp < 0x10000" "\<not> (cp \<ge> 0xD800 \<and> cp \<le> 0xDFFF)"
      using l by (auto simp: utf8_byte_len_def split: if_splits)
    then have "unat cp div 4096 < 16" by (simp add: rune_nat)
    then have "unat (ucast (0xE0 OR drop_bit 12 cp) :: u8) = 224 + unat cp div 4096"
      by (subst encode_byte [where k = 4]) (simp_all add: unat_drop)
    with c show ?thesis by (auto simp: utf8_encode_def encode_cont unat_drop)
  qed
  show "map unat (utf8_encode cp) =
     [240 + unat cp div 262144, 128 + unat cp div 4096 mod 64, 128 + unat cp div 64 mod 64, 128 + unat cp mod 64]"
    if l: "utf8_byte_len cp = 4"
  proof -
    have c: "\<not> cp < 0x80" "\<not> cp < 0x800" "\<not> cp < 0x10000" "cp \<le> RUNE_MAX"
      using l by (auto simp: utf8_byte_len_def split: if_splits)
    then have "unat cp div 262144 < 8" by (simp add: rune_nat)
    then have "unat (ucast (0xF0 OR drop_bit 18 cp) :: u8) = 240 + unat cp div 262144"
      by (subst encode_byte [where k = 3]) (simp_all add: unat_drop)
    with c show ?thesis by (simp add: utf8_encode_def encode_cont unat_drop)
  qed
qed

lemma byte_len_cases: "utf8_byte_len cp \<in> {0, 1, 2, 3, 4}"
  by (simp add: utf8_byte_len_def)

lemma length_encode: "utf8_byte_len cp \<noteq> 0 \<Longrightarrow> length (utf8_encode cp) = utf8_byte_len cp"
  using byte_len_cases [of cp] encode_bytes [of cp, THEN arg_cong [where f = length]] by auto

section \<open>Decoding and encoding are inverse\<close>

text \<open>A decoded sequence with \<open>n\<close> continuation bytes, as arithmetic.\<close>

fun tail_value :: "u8 list \<Rightarrow> nat \<Rightarrow> nat \<Rightarrow> nat \<Rightarrow> nat" where
  "tail_value s p 0 v = v"
| "tail_value s p (Suc n) v = tail_value s (p + 1) n (64 * v + unat (cstr_at s p) mod 64)"

lemma decode_tail_value:
  assumes "\<forall>i < n. unat (cstr_at s (p + i)) div 64 = 2" "unat cp * 64 ^ n + 64 ^ n \<le> 2 ^ 32"
  shows "\<exists>cp'. decode_tail s p n cp = (Some cp', p + n) \<and> unat cp' = tail_value s p n (unat cp)"
  using assms
proof (induction s p n cp rule: decode_tail.induct)
  case (2 s p n cp)
  have c: "cstr_at s p AND 0xC0 = 0x80" using "2.prems"(1) by (auto simp: lead_tests)
  have "unat cp * 64 \<le> unat cp * 64 ^ Suc n" by simp
  moreover have "(64 :: nat) \<le> 64 ^ Suc n" by simp
  ultimately have "unat cp * 64 + 64 \<le> 2 ^ 32" using "2.prems"(2) by (meson add_mono le_trans)
  then have v: "unat (push_bit 6 cp OR ucast (cstr_at s p AND 0x3F)) = 64 * unat cp + unat (cstr_at s p) mod 64"
    by (intro unat_shift6) simp
  have "unat (cstr_at s p) mod 64 < 64" by simp
  then have "64 * unat cp + unat (cstr_at s p) mod 64 + 1 \<le> 64 * (unat cp + 1)" by simp
  then have "(64 * unat cp + unat (cstr_at s p) mod 64 + 1) * 64 ^ n \<le> 64 * (unat cp + 1) * 64 ^ n" by (rule mult_le_mono1)
  also have "\<dots> \<le> 2 ^ 32" using "2.prems"(2) by (simp add: algebra_simps)
  finally have b: "(64 * unat cp + unat (cstr_at s p) mod 64) * 64 ^ n + 64 ^ n \<le> 2 ^ 32" by (simp add: algebra_simps)
  have "\<forall>i < n. unat (cstr_at s (p + 1 + i)) div 64 = 2" using "2.prems"(1) by (auto dest: spec [of _ "Suc i" for i])
  from "2.IH" [OF _ this] c b show ?case by (simp add: v)
qed simp

lemma decode_tail_fails:
  "\<not> (\<forall>i < n. unat (cstr_at s (p + i)) div 64 = 2) \<Longrightarrow> fst (decode_tail s p n cp) = None"
proof (induction s p n cp rule: decode_tail.induct)
  case (2 s p n cp)
  show ?case
  proof (cases "unat (cstr_at s p) div 64 = 2")
    case True
    then have "\<not> (\<forall>i < n. unat (cstr_at s (p + 1 + i)) div 64 = 2)"
      using "2.prems" by (metis add.assoc add.right_neutral less_Suc_eq_0_disj plus_1_eq_Suc)
    from "2.IH" [OF _ this] True show ?thesis by (simp add: lead_tests)
  qed (simp add: lead_tests)
qed simp


text \<open>What the whole of \<open>utf8_decode\<close> computes, by the kind of the lead byte.\<close>

definition seq_result :: "u8 list \<Rightarrow> nat \<Rightarrow> nat \<Rightarrow> nat \<Rightarrow> rune \<Rightarrow> bool" where
  "seq_result s p n v cp \<longleftrightarrow>
     (\<forall>i < n. unat (cstr_at s (p + i)) div 64 = 2) \<and> unat cp = tail_value s p n v \<and> utf8_byte_len cp = n + 1"

lemma tail_value_less: "(v + 1) * 64 ^ n \<le> B \<Longrightarrow> tail_value s p n v < B"
proof (induction s p n v rule: tail_value.induct)
  case (2 s p n v)
  have "unat (cstr_at s p) mod 64 < 64" by simp
  then have "64 * v + unat (cstr_at s p) mod 64 + 1 \<le> 64 * (v + 1)" by simp
  then have "(64 * v + unat (cstr_at s p) mod 64 + 1) * 64 ^ n \<le> 64 * (v + 1) * 64 ^ n" by (rule mult_le_mono1)
  also have "\<dots> \<le> B" using "2.prems" by (simp add: algebra_simps)
  finally show ?case using "2.IH" by simp
qed simp

lemma decode_seq_iff:
  assumes v: "(unat c + 1) * 64 ^ n \<le> 2 ^ (5 * n + 6)" and n: "n \<in> {1, 2, 3}" and e: "cp \<noteq> RUNE_ERROR"
  shows "decode_seq s p n c = (cp, q) \<longleftrightarrow> seq_result s p n (unat c) cp \<and> q = p + n"
proof (cases "\<forall>i < n. unat (cstr_at s (p + i)) div 64 = 2")
  case True
  have "(2 :: nat) ^ (5 * n + 6) \<le> 2 ^ 32" using n by (intro power_increasing) auto
  with v have "unat c * 64 ^ n + 64 ^ n \<le> 2 ^ 32" by (simp add: algebra_simps)
  from decode_tail_value [OF True this] obtain c' where c': "decode_tail s p n c = (Some c', p + n)"
    "unat c' = tail_value s p n (unat c)" by blast
  then have "seq_result s p n (unat c) cp \<longleftrightarrow> cp = c' \<and> utf8_byte_len c' = n + 1"
    using True unfolding seq_result_def by (metis word_unat_eq_iff)
  moreover have "unat c' < 2 ^ (5 * n + 6)" using tail_value_less [OF v] c'(2) by simp
  ultimately show ?thesis using n e
    by (auto simp: decode_seq_def c'(1) utf8_byte_len_def rune_nat split: if_splits)
next
  case False
  then have "fst (decode_tail s p n c) = None" by (rule decode_tail_fails)
  with False e show ?thesis by (auto simp: decode_seq_def seq_result_def split: prod.splits)
qed


text \<open>A code point that a C string can hold, and a run of bytes at a position.\<close>

definition text_rune :: "rune \<Rightarrow> bool" where
  "text_rune cp \<longleftrightarrow> cp \<noteq> 0 \<and> utf8_byte_len cp \<noteq> 0"

definition bytes_at :: "u8 list \<Rightarrow> nat \<Rightarrow> u8 list \<Rightarrow> bool" where
  "bytes_at s p bs \<longleftrightarrow> (\<forall>i < length bs. cstr_at s (p + i) = bs ! i)"

lemma bytes_at_nat: "bytes_at s p bs \<longleftrightarrow> (\<forall>i < length (map unat bs). unat (cstr_at s (p + i)) = map unat bs ! i)"
  by (auto simp: bytes_at_def word_unat_eq_iff)

lemma base64: "x < 64 \<Longrightarrow> (64 * y + x) div 64 = y" "x < 64 \<Longrightarrow> (64 * y + x) mod 64 = (x :: nat)"
  by simp_all

lemma digit64: "(b :: nat) div 64 = 2 \<Longrightarrow> b = 128 + b mod 64"
  using div_mult_mod_eq [of b 64] by simp

lemma low_digit: "(128 + x mod 64) div 64 = (2 :: nat)" "(128 + x mod 64) mod 64 = x mod (64 :: nat)"
proof -
  have "128 + x mod 64 = 64 * 2 + x mod 64" by simp
  then show "(128 + x mod 64) div 64 = 2" "(128 + x mod 64) mod 64 = x mod 64" by (simp_all only: base64 mod_less_divisor zero_less_numeral)
qed

lemma high_digit: "x < k \<Longrightarrow> (h * k + x) div k = h \<and> (h * k + x) mod k = (x :: nat)"
  by simp

lemma two_bytes:
  fixes n b0 b1 :: nat
  assumes "n < 2048"
  shows "b0 div 32 = 6 \<and> b1 div 64 = 2 \<and> n = 64 * (b0 mod 32) + b1 mod 64 \<longleftrightarrow> b0 = 192 + n div 64 \<and> b1 = 128 + n mod 64"
proof
  assume a: "b0 div 32 = 6 \<and> b1 div 64 = 2 \<and> n = 64 * (b0 mod 32) + b1 mod 64"
  have "b0 = 192 + b0 mod 32" using a div_mult_mod_eq [of b0 32] by simp
  with a show "b0 = 192 + n div 64 \<and> b1 = 128 + n mod 64" by (metis base64 digit64 mod_less_divisor zero_less_numeral)
next
  assume a: "b0 = 192 + n div 64 \<and> b1 = 128 + n mod 64"
  moreover have "n div 64 < 32" using assms by simp
  ultimately have "b0 mod 32 = n div 64" "b0 div 32 = 6" "b1 mod 64 = n mod 64" "b1 div 64 = 2"
    using high_digit [of "n div 64" 32 6] by (simp_all add: low_digit)
  then show "b0 div 32 = 6 \<and> b1 div 64 = 2 \<and> n = 64 * (b0 mod 32) + b1 mod 64" by (simp only: mult_div_mod_eq)
qed

lemma three_bytes:
  fixes n b0 b1 b2 :: nat
  assumes "n < 65536"
  shows "b0 div 16 = 14 \<and> b1 div 64 = 2 \<and> b2 div 64 = 2 \<and> n = 64 * (64 * (b0 mod 16) + b1 mod 64) + b2 mod 64 \<longleftrightarrow>
    b0 = 224 + n div 64 div 64 \<and> b1 = 128 + n div 64 mod 64 \<and> b2 = 128 + n mod 64"
proof
  assume a: "b0 div 16 = 14 \<and> b1 div 64 = 2 \<and> b2 div 64 = 2 \<and> n = 64 * (64 * (b0 mod 16) + b1 mod 64) + b2 mod 64"
  then have n: "n div 64 = 64 * (b0 mod 16) + b1 mod 64" "n mod 64 = b2 mod 64"
    by (simp_all only: base64 mod_less_divisor zero_less_numeral)
  have "b0 = 224 + b0 mod 16" using a div_mult_mod_eq [of b0 16] by simp
  with a n show "b0 = 224 + n div 64 div 64 \<and> b1 = 128 + n div 64 mod 64 \<and> b2 = 128 + n mod 64"
    by (metis base64 digit64 mod_less_divisor zero_less_numeral)
next
  assume a: "b0 = 224 + n div 64 div 64 \<and> b1 = 128 + n div 64 mod 64 \<and> b2 = 128 + n mod 64"
  moreover have "n div 64 div 64 < 16" using assms by simp
  ultimately have "b0 mod 16 = n div 64 div 64" "b0 div 16 = 14" "b1 mod 64 = n div 64 mod 64" "b2 mod 64 = n mod 64"
    "b1 div 64 = 2" "b2 div 64 = 2"
    using high_digit [of "n div 64 div 64" 16 14] by (simp_all add: low_digit)
  then show "b0 div 16 = 14 \<and> b1 div 64 = 2 \<and> b2 div 64 = 2 \<and> n = 64 * (64 * (b0 mod 16) + b1 mod 64) + b2 mod 64"
    by (simp only: mult_div_mod_eq)
qed

lemma four_bytes:
  fixes n b0 b1 b2 b3 :: nat
  assumes "n < 2097152"
  shows "b0 div 8 = 30 \<and> b1 div 64 = 2 \<and> b2 div 64 = 2 \<and> b3 div 64 = 2 \<and>
      n = 64 * (64 * (64 * (b0 mod 8) + b1 mod 64) + b2 mod 64) + b3 mod 64 \<longleftrightarrow>
    b0 = 240 + n div 64 div 64 div 64 \<and> b1 = 128 + n div 64 div 64 mod 64 \<and> b2 = 128 + n div 64 mod 64 \<and> b3 = 128 + n mod 64"
proof
  assume a: "b0 div 8 = 30 \<and> b1 div 64 = 2 \<and> b2 div 64 = 2 \<and> b3 div 64 = 2 \<and>
      n = 64 * (64 * (64 * (b0 mod 8) + b1 mod 64) + b2 mod 64) + b3 mod 64"
  then have n: "n div 64 = 64 * (64 * (b0 mod 8) + b1 mod 64) + b2 mod 64" "n mod 64 = b3 mod 64"
    by (simp_all only: base64 mod_less_divisor zero_less_numeral)
  then have m: "n div 64 div 64 = 64 * (b0 mod 8) + b1 mod 64" "n div 64 mod 64 = b2 mod 64"
    by (simp_all only: base64 mod_less_divisor zero_less_numeral)
  have "b0 = 240 + b0 mod 8" using a div_mult_mod_eq [of b0 8] by simp
  with a n(2) m show "b0 = 240 + n div 64 div 64 div 64 \<and> b1 = 128 + n div 64 div 64 mod 64 \<and> b2 = 128 + n div 64 mod 64 \<and> b3 = 128 + n mod 64"
    by (metis base64 digit64 mod_less_divisor zero_less_numeral)
next
  assume a: "b0 = 240 + n div 64 div 64 div 64 \<and> b1 = 128 + n div 64 div 64 mod 64 \<and> b2 = 128 + n div 64 mod 64 \<and> b3 = 128 + n mod 64"
  moreover have "n div 64 div 64 div 64 < 8" using assms by simp
  ultimately have "b0 mod 8 = n div 64 div 64 div 64" "b0 div 8 = 30" "b1 mod 64 = n div 64 div 64 mod 64" "b2 mod 64 = n div 64 mod 64"
    "b3 mod 64 = n mod 64" "b1 div 64 = 2" "b2 div 64 = 2" "b3 div 64 = 2"
    using high_digit [of "n div 64 div 64 div 64" 8 30] by (simp_all add: low_digit)
  then show "b0 div 8 = 30 \<and> b1 div 64 = 2 \<and> b2 div 64 = 2 \<and> b3 div 64 = 2 \<and>
      n = 64 * (64 * (64 * (b0 mod 8) + b1 mod 64) + b2 mod 64) + b3 mod 64"
    by (simp only: mult_div_mod_eq)
qed

lemma seq_result_bytes:
  "unat (cstr_at s p) div 32 = 6 \<and> seq_result s (p + 1) 1 (unat (cstr_at s p) mod 32) cp \<longleftrightarrow>
     utf8_byte_len cp = 2 \<and> bytes_at s p (utf8_encode cp)"
  "unat (cstr_at s p) div 16 = 14 \<and> seq_result s (p + 1) 2 (unat (cstr_at s p) mod 16) cp \<longleftrightarrow>
     utf8_byte_len cp = 3 \<and> bytes_at s p (utf8_encode cp)"
  "unat (cstr_at s p) div 8 = 30 \<and> seq_result s (p + 1) 3 (unat (cstr_at s p) mod 8) cp \<longleftrightarrow>
     utf8_byte_len cp = 4 \<and> bytes_at s p (utf8_encode cp)"
proof -
  have b: "utf8_byte_len cp = 2 \<Longrightarrow> unat cp < 2048" "utf8_byte_len cp = 3 \<Longrightarrow> unat cp < 65536"
    "utf8_byte_len cp = 4 \<Longrightarrow> unat cp < 2097152" by (auto simp: utf8_byte_len_def rune_nat split: if_splits)
  have d: "x div 4096 = x div 64 div 64" "x div 262144 = x div 64 div 64 div 64" for x :: nat by (simp_all add: div_mult2_eq [symmetric])
  show "unat (cstr_at s p) div 32 = 6 \<and> seq_result s (p + 1) 1 (unat (cstr_at s p) mod 32) cp \<longleftrightarrow>
     utf8_byte_len cp = 2 \<and> bytes_at s p (utf8_encode cp)"
    using two_bytes [OF b(1), of "unat (cstr_at s p)" "unat (cstr_at s (p + 1))"]
    unfolding bytes_at_nat by (cases "utf8_byte_len cp = 2") (auto simp: seq_result_def encode_bytes less_Suc_eq)
  show "unat (cstr_at s p) div 16 = 14 \<and> seq_result s (p + 1) 2 (unat (cstr_at s p) mod 16) cp \<longleftrightarrow>
     utf8_byte_len cp = 3 \<and> bytes_at s p (utf8_encode cp)"
    using three_bytes [OF b(2), of "unat (cstr_at s p)" "unat (cstr_at s (p + 1))" "unat (cstr_at s (p + 2))"]
    unfolding bytes_at_nat d by (cases "utf8_byte_len cp = 3") (auto simp: seq_result_def encode_bytes less_Suc_eq d numeral_2_eq_2)
  show "unat (cstr_at s p) div 8 = 30 \<and> seq_result s (p + 1) 3 (unat (cstr_at s p) mod 8) cp \<longleftrightarrow>
     utf8_byte_len cp = 4 \<and> bytes_at s p (utf8_encode cp)"
    using four_bytes [OF b(3), of "unat (cstr_at s p)" "unat (cstr_at s (p + 1))" "unat (cstr_at s (p + 2))" "unat (cstr_at s (p + 3))"]
    unfolding bytes_at_nat d by (cases "utf8_byte_len cp = 4") (auto simp: seq_result_def encode_bytes less_Suc_eq d numeral_3_eq_3)
qed


theorem decode_iff:
  assumes z: "cstr_at s p \<noteq> 0" and e: "cp \<noteq> RUNE_ERROR"
  shows "utf8_decode s p = (cp, q) \<longleftrightarrow>
    text_rune cp \<and> bytes_at s p (utf8_encode cp) \<and> q = p + length (utf8_encode cp)"
proof -
  let ?b = "unat (cstr_at s p)"
  have one: "utf8_byte_len cp = 1 \<and> bytes_at s p (utf8_encode cp) \<longleftrightarrow> ?b < 128 \<and> unat cp = ?b"
  proof (cases "utf8_byte_len cp = 1")
    case True
    then have "unat cp < 128" by (auto simp: utf8_byte_len_def rune_nat split: if_splits)
    with True show ?thesis unfolding bytes_at_nat encode_bytes(1) [OF True] by auto
  qed (auto simp: utf8_byte_len_def rune_nat)
  have t: "text_rune cp \<and> bytes_at s p (utf8_encode cp) \<longleftrightarrow>
      (\<exists>n \<in> {1, 2, 3, 4}. utf8_byte_len cp = n \<and> bytes_at s p (utf8_encode cp))"
  proof -
    have "cp \<noteq> 0" if "utf8_byte_len cp = 1" "bytes_at s p (utf8_encode cp)"
      using one that z by (auto simp: word_unat_eq_iff)
    moreover have "cp \<noteq> 0" if "utf8_byte_len cp \<noteq> 1" using that by (auto simp: utf8_byte_len_def)
    ultimately show ?thesis using byte_len_cases [of cp] by (auto simp: text_rune_def)
  qed
  have l: "length (utf8_encode cp) = utf8_byte_len cp" if "text_rune cp" using that by (simp add: text_rune_def length_encode)
  have m: "?b mod 32 < 32" "?b mod 16 < 16" "?b mod 8 < 8" by simp_all
  have k: "utf8_decode s p = (cp, q) \<longleftrightarrow>
     (?b < 128 \<and> unat cp = ?b \<and> q = p + 1) \<or>
     (?b div 32 = 6 \<and> seq_result s (p + 1) 1 (?b mod 32) cp \<and> q = p + 1 + 1) \<or>
     (?b div 16 = 14 \<and> seq_result s (p + 1) 2 (?b mod 16) cp \<and> q = p + 1 + 2) \<or>
     (?b div 8 = 30 \<and> seq_result s (p + 1) 3 (?b mod 8) cp \<and> q = p + 1 + 3)"
  proof -
    have s: "decode_seq s (p + 1) 1 (ucast (cstr_at s p) AND 0x1F) = (cp, q) \<longleftrightarrow> seq_result s (p + 1) 1 (?b mod 32) cp \<and> q = p + 1 + 1"
      "decode_seq s (p + 1) 2 (ucast (cstr_at s p) AND 0x0F) = (cp, q) \<longleftrightarrow> seq_result s (p + 1) 2 (?b mod 16) cp \<and> q = p + 1 + 2"
      "decode_seq s (p + 1) 3 (ucast (cstr_at s p) AND 0x07) = (cp, q) \<longleftrightarrow> seq_result s (p + 1) 3 (?b mod 8) cp \<and> q = p + 1 + 3"
      using m by (subst decode_seq_iff; simp add: payload_bits e)+
    have lt: "cstr_at s p < 0x80 \<longleftrightarrow> ?b < 128" by (simp add: word_less_nat_alt)
    have eq: "ucast (cstr_at s p) = cp \<longleftrightarrow> unat cp = ?b" using unat_ucast_up [of "cstr_at s p"] by (metis word_unat_eq_iff)
    have ex: "?b div 32 = 6 \<Longrightarrow> ?b div 16 \<noteq> 14 \<and> ?b div 8 \<noteq> 30 \<and> \<not> ?b < 128" "?b div 16 = 14 \<Longrightarrow> ?b div 8 \<noteq> 30 \<and> \<not> ?b < 128"
      "?b div 8 = 30 \<Longrightarrow> \<not> ?b < 128" by linarith+
    show ?thesis using z e ex by (auto simp: utf8_decode_def Let_def lead_tests s [simplified] lt eq)
  qed
  have "text_rune cp \<and> bytes_at s p (utf8_encode cp) \<and> q = p + length (utf8_encode cp) \<longleftrightarrow>
     ((utf8_byte_len cp = 1 \<and> bytes_at s p (utf8_encode cp)) \<and> q = p + 1) \<or>
     ((utf8_byte_len cp = 2 \<and> bytes_at s p (utf8_encode cp)) \<and> q = p + 1 + 1) \<or>
     ((utf8_byte_len cp = 3 \<and> bytes_at s p (utf8_encode cp)) \<and> q = p + 1 + 2) \<or>
     ((utf8_byte_len cp = 4 \<and> bytes_at s p (utf8_encode cp)) \<and> q = p + 1 + 3)"
    using t l by auto
  then show ?thesis unfolding k one seq_result_bytes [symmetric] by (simp only: conj_assoc)
qed



section \<open>Strings of code points\<close>

text \<open>The string that a sequence of code points encodes.\<close>

definition encoded :: "rune list \<Rightarrow> u8 list" where
  "encoded cps = concat (map utf8_encode cps)"

lemma encoded_simps [simp]: "encoded [] = []" "encoded (cp # cps) = utf8_encode cp @ encoded cps"
  "encoded (cps @ cps') = encoded cps @ encoded cps'"
  by (simp_all add: encoded_def)

lemma encode_nonzero: "text_rune cp \<Longrightarrow> 0 \<notin> set (utf8_encode cp)"
proof -
  assume t: "text_rune cp"
  have "unat cp \<noteq> 0" using t by (simp add: text_rune_def unsigned_eq_0_iff del: unat_gt_0)
  then have "\<forall>n \<in> set (map unat (utf8_encode cp)). n \<noteq> 0"
    using t byte_len_cases [of cp] encode_bytes [of cp] by (auto simp: text_rune_def simp del: set_map)
  then show ?thesis by auto
qed

lemma encode_nonempty: "text_rune cp \<Longrightarrow> utf8_encode cp \<noteq> []"
  using length_encode [of cp] by (auto simp: text_rune_def)

lemma encoded_nonzero: "\<forall>cp \<in> set cps. text_rune cp \<Longrightarrow> 0 \<notin> set (encoded cps)"
  by (induction cps) (auto dest: encode_nonzero)

lemma bytes_at_append: "bytes_at (u @ bs @ v) (length u) bs"
  by (simp add: bytes_at_def cstr_at_def nth_append)

lemma cstr_at_encoded: "text_rune cp \<Longrightarrow> cstr_at (u @ utf8_encode cp @ v) (length u) \<noteq> 0"
  using encode_nonzero [of cp] encode_nonempty [of cp] by (cases "utf8_encode cp") (auto simp: cstr_at_def nth_append)

lemma decode_replacement:
  assumes "cstr_at s p = 0xEF" "cstr_at s (Suc p) = 0xBF" "cstr_at s (Suc (Suc p)) = 0xBD"
  shows "utf8_decode s p = (0xFFFD, p + 3)"
proof -
  have "decode_tail s (Suc p) 2 15 = (Some 0xFFFD, p + 3)"
    unfolding numeral_2_eq_2 using assms by simp
  then show ?thesis using assms by (simp add: utf8_decode_def decode_seq_def Let_def RUNE_MAX_def)
qed

text \<open>Decoding at the start of an encoded code point; U+FFFD decodes to itself too.\<close>

lemma decode_encoded:
  assumes t: "text_rune cp"
  shows "utf8_decode (u @ utf8_encode cp @ v) (length u) = (cp, length u + length (utf8_encode cp))"
proof (cases "cp = RUNE_ERROR")
  case False
  then show ?thesis using decode_iff [OF cstr_at_encoded [OF t] False] t bytes_at_append by blast
next
  case True
  have e: "utf8_encode cp = [0xEF, 0xBF, 0xBD]" by (simp add: True utf8_encode_def RUNE_ERROR_def)
  have b: "cstr_at (u @ [0xEF, 0xBF, 0xBD] @ v) (length u + i) = [0xEF, 0xBF, 0xBD] ! i" if "i < 3" for i
    using bytes_at_append [of u "[0xEF, 0xBF, 0xBD]" v] that by (simp add: bytes_at_def)
  have "utf8_decode (u @ [0xEF, 0xBF, 0xBD] @ v) (length u) = (0xFFFD, length u + 3)"
    using b [of 0] b [of 1] b [of 2] by (intro decode_replacement) simp_all
  then show ?thesis unfolding e by (simp add: True RUNE_ERROR_def)
qed

text \<open>A decode that is no error found the encoding of its code point.\<close>

lemma decode_sound:
  assumes "cstr_at s p \<noteq> 0" "utf8_decode s p = (cp, q)" "cp \<noteq> RUNE_ERROR"
  shows "text_rune cp" "drop p s = utf8_encode cp @ drop q s"
proof -
  have d: "text_rune cp" "bytes_at s p (utf8_encode cp)" "q = p + length (utf8_encode cp)"
    using decode_iff [OF assms(1,3), of q] assms(2) by simp_all
  have q: "q \<le> length s" using decode_within [OF assms(1)] assms(2) by simp
  have "take (length (utf8_encode cp)) (drop p s) = utf8_encode cp"
    using d(2,3) q by (intro nth_equalityI) (auto simp: bytes_at_def cstr_at_def)
  then show "drop p s = utf8_encode cp @ drop q s"
    using append_take_drop_id [of "length (utf8_encode cp)" "drop p s"] d(3) by (simp add: add.commute)
  show "text_rune cp" by (rule d(1))
qed

lemma valid_from_encoded:
  "\<forall>cp \<in> set cps. text_rune cp \<and> cp \<noteq> RUNE_ERROR \<Longrightarrow> cstr_at v 0 = 0 \<Longrightarrow> valid_from (u @ encoded cps @ v) SIZE_MAX (length u)"
proof (induction cps arbitrary: u)
  case Nil
  then show ?case by (subst valid_from.simps) (auto simp: cstr_at_def nth_append split: if_splits)
next
  case (Cons cp cps)
  then have "valid_from ((u @ utf8_encode cp) @ encoded cps @ v) SIZE_MAX (length (u @ utf8_encode cp))" by (intro Cons.IH) simp_all
  then show ?case using decode_encoded [of cp u "encoded cps @ v"] Cons.prems by (subst valid_from.simps) (simp add: Let_def)
qed

lemma valid_from_sound:
  "valid_from s len p \<Longrightarrow> len = SIZE_MAX \<Longrightarrow>
     \<exists>cps v. drop p s = encoded cps @ v \<and> cstr_at v 0 = 0 \<and> (\<forall>cp \<in> set cps. text_rune cp \<and> cp \<noteq> RUNE_ERROR)"
proof (induction s len p rule: valid_from.induct)
  case (1 s len p)
  obtain cp q where d: "utf8_decode s p = (cp, q)" by fastforce
  show ?case
  proof (cases "cstr_at s p = 0")
    case True
    then have "cstr_at (drop p s) 0 = 0" by (auto simp: cstr_at_def)
    then show ?thesis by (intro exI [of _ "[]"] exI [of _ "drop p s"]) simp
  next
    case False
    with "1.prems" d have v: "cp \<noteq> RUNE_ERROR" "valid_from s len q" by (subst (asm) valid_from.simps, auto split: if_splits)+
    from "1.IH" [OF _ d [symmetric] refl v(1) v(2) "1.prems"(2)] False "1.prems"(2) obtain cps v where
      "drop q s = encoded cps @ v" "cstr_at v 0 = 0" "\<forall>cp \<in> set cps. text_rune cp \<and> cp \<noteq> RUNE_ERROR" by auto
    with decode_sound [OF False d v(1)] v(1) show ?thesis by (intro exI [of _ "cp # cps"] exI [of _ v]) simp
  qed
qed

lemma cstr_of_append: "0 \<notin> set u \<Longrightarrow> cstr_at v 0 = 0 \<Longrightarrow> cstr_of (u @ v) = u"
  by (induction u) (auto simp: cstr_of_def cstr_at_def takeWhile_eq_Nil_iff hd_conv_nth split: if_splits)

lemma cstr_of_split: "\<exists>v. s = cstr_of s @ v \<and> cstr_at v 0 = 0"
proof (intro exI conjI)
  show "s = cstr_of s @ dropWhile (\<lambda>b. b \<noteq> 0) s" by (simp add: cstr_of_def)
  show "cstr_at (dropWhile (\<lambda>b. b \<noteq> 0) s) 0 = 0"
    using hd_dropWhile [of "\<lambda>b. b \<noteq> 0" s] by (cases "dropWhile (\<lambda>b. b \<noteq> 0) s") (auto simp: cstr_at_def)
qed

text \<open>C33: \<open>utf8_valid\<close> on a whole string (the length \<open>SIZE_MAX\<close>, the only one a caller passes) holds exactly when the string is the encoding of a sequence of Unicode scalar
  values other than U+FFFD: overlong forms, surrogates, values above U+10FFFF, stray continuation bytes and
  truncated sequences are all rejected, and nothing else is.
\<close>

theorem utf8_valid_exact:
  "utf8_valid s SIZE_MAX \<longleftrightarrow>
     (\<exists>cps. cstr_of s = encoded cps \<and> list_all (\<lambda>cp. text_rune cp \<and> cp \<noteq> RUNE_ERROR) cps)"
proof
  assume "utf8_valid s SIZE_MAX"
  then obtain cps v where c: "s = encoded cps @ v" "cstr_at v 0 = 0" "\<forall>cp \<in> set cps. text_rune cp \<and> cp \<noteq> RUNE_ERROR"
    using valid_from_sound [of s SIZE_MAX 0] by (auto simp: utf8_valid_def)
  then have "cstr_of s = encoded cps" using cstr_of_append encoded_nonzero by auto
  with c(3) show "\<exists>cps. cstr_of s = encoded cps \<and> list_all (\<lambda>cp. text_rune cp \<and> cp \<noteq> RUNE_ERROR) cps"
    by (auto simp: list_all_iff)
next
  assume "\<exists>cps. cstr_of s = encoded cps \<and> list_all (\<lambda>cp. text_rune cp \<and> cp \<noteq> RUNE_ERROR) cps"
  then obtain cps where c: "cstr_of s = encoded cps" "\<forall>cp \<in> set cps. text_rune cp \<and> cp \<noteq> RUNE_ERROR"
    by (auto simp: list_all_iff)
  obtain v where "s = cstr_of s @ v" "cstr_at v 0 = 0" using cstr_of_split by blast
  with valid_from_encoded [OF c(2), of v "[]"] c(1) show "utf8_valid s SIZE_MAX" by (simp add: utf8_valid_def)
qed


section \<open>Counting, stepping and copying\<close>

lemma encode_cont_count: "text_rune cp \<Longrightarrow> \<exists>b bs. utf8_encode cp = b # bs \<and> \<not> utf8_is_cont b \<and> b \<noteq> 0 \<and> (\<forall>c \<in> set bs. utf8_is_cont c \<and> c \<noteq> 0)"
proof -
  assume t: "text_rune cp"
  then obtain b bs where e: "utf8_encode cp = b # bs" using encode_nonempty [OF t] by (cases "utf8_encode cp") auto
  have z: "b \<noteq> 0" "\<forall>c \<in> set bs. c \<noteq> 0" using encode_nonzero [OF t] e by auto
  have u: "unat cp < 2 ^ 21 \<and> (utf8_byte_len cp = 1 \<longrightarrow> unat cp < 128)"
    using t by (auto simp: text_rune_def utf8_byte_len_def rune_nat split: if_splits)
  have "unat b div 64 \<noteq> 2 \<and> (\<forall>x \<in> set (map unat bs). x div 64 = 2)"
  proof -
    have "192 + x div 64 \<noteq> y \<or> y div 64 \<noteq> 2" "224 + x div 4096 \<noteq> y \<or> y div 64 \<noteq> 2" "240 + x div 262144 \<noteq> y \<or> y div 64 \<noteq> 2" for x y :: nat
      by linarith+
    then show ?thesis using t u byte_len_cases [of cp] encode_bytes [of cp] unfolding e
      by (auto simp: text_rune_def low_digit simp del: set_map)
  qed
  with e z show ?thesis by (auto simp: utf8_is_cont_def lead_tests)
qed

lemma strlen_skip: "\<forall>c \<in> set bs. utf8_is_cont c \<and> c \<noteq> 0 \<Longrightarrow> utf8_strlen (bs @ v) = utf8_strlen v"
  by (induction bs) auto

lemma strlen_encoded: "\<forall>cp \<in> set cps. text_rune cp \<Longrightarrow> utf8_strlen (encoded cps) = length cps"
proof (induction cps)
  case (Cons cp cps)
  then obtain b bs where "utf8_encode cp = b # bs" "\<not> utf8_is_cont b" "b \<noteq> 0" "\<forall>c \<in> set bs. utf8_is_cont c \<and> c \<noteq> 0"
    using encode_cont_count [of cp] by auto
  with Cons show ?case by (simp add: strlen_skip)
qed simp

lemma advance_encoded:
  "\<forall>cp \<in> set cps. text_rune cp \<Longrightarrow> advance_from (u @ encoded cps) (length u) n = length u + length (encoded (take n cps))"
proof (induction n arbitrary: u cps)
  case (Suc n)
  show ?case
  proof (cases cps)
    case (Cons cp cps')
    have "advance_from ((u @ utf8_encode cp) @ encoded cps') (length (u @ utf8_encode cp)) n =
        length (u @ utf8_encode cp) + length (encoded (take n cps'))"
      by (rule Suc.IH) (use Suc.prems Cons in auto)
    with Suc.prems Cons decode_encoded [of cp u "encoded cps'"] cstr_at_encoded [of cp u "encoded cps'"] show ?thesis by simp
  qed (simp add: cstr_at_def)
qed simp

text \<open>On a well-formed string, \<open>utf8_strlen\<close> is the number of its code points and \<open>utf8_codepoint_offset\<close> the
  length of the encoding of the first \<open>n\<close> of them (the whole string when there are fewer).
\<close>

theorem utf8_positions:
  assumes "list_all text_rune cps"
  shows "utf8_strlen (encoded cps) = length cps \<and> utf8_codepoint_offset (encoded cps) n = length (encoded (take n cps))"
  using assms strlen_encoded [of cps] advance_encoded [of cps "[]" n]
  by (simp_all add: list_all_iff utf8_codepoint_offset_def utf8_advance_def)

theorem utf8_positions_witness:
  "utf8_strlen (encoded [0x41, 0x20AC, 0x1F600]) = 3 \<and>
   utf8_codepoint_offset (encoded [0x41, 0x20AC, 0x1F600]) 2 = length (encoded [0x41, 0x20AC])"
  using utf8_positions [of "[0x41, 0x20AC, 0x1F600]" 2]
  by (simp_all add: text_rune_def utf8_byte_len_def RUNE_MAX_def)

lemma copy_encoded:
  assumes "\<forall>cp \<in> set cps. text_rune cp" "d \<le> stop" "stop < length dst" "copied \<le> n"
  shows "\<exists>k. copy_from (u @ encoded cps) (length u) n d stop copied dst =
      (take d dst @ encoded (take k cps) @ drop (d + length (encoded (take k cps))) dst, d + length (encoded (take k cps)), copied + k) \<and>
    k \<le> length cps \<and> copied + k \<le> n \<and> d + length (encoded (take k cps)) \<le> stop \<and>
    (k = length cps \<or> copied + k = n \<or> d + length (encoded (take (k + 1) cps)) > stop)"
  using assms
proof (induction cps arbitrary: u d copied dst)
  case Nil
  then show ?case by (intro exI [of _ 0]) (subst copy_from.simps, simp add: cstr_at_def)
next
  case (Cons cp cps)
  let ?s = "u @ utf8_encode cp @ encoded cps" and ?l = "length (utf8_encode cp)"
  have d: "utf8_decode ?s (length u) = (cp, length u + ?l)" "cstr_at ?s (length u) \<noteq> 0" "utf8_byte_len cp = ?l"
    using decode_encoded [of cp u] cstr_at_encoded [of cp u] length_encode [of cp] Cons.prems(1) by (auto simp: text_rune_def)
  show ?case
  proof (cases "copied < n \<and> d + ?l \<le> stop")
    case True
    let ?dst = "take d dst @ utf8_encode cp @ drop (d + ?l) dst"
    have len: "length ?dst = length dst" using True Cons.prems by simp
    from Cons.IH [of "d + ?l" ?dst "copied + 1" "u @ utf8_encode cp"] True Cons.prems len obtain k where k:
      "copy_from ?s (length u + ?l) n (d + ?l) stop (copied + 1) ?dst =
        (take (d + ?l) ?dst @ encoded (take k cps) @ drop (d + ?l + length (encoded (take k cps))) ?dst,
         d + ?l + length (encoded (take k cps)), copied + 1 + k)"
      "k \<le> length cps" "copied + 1 + k \<le> n" "d + ?l + length (encoded (take k cps)) \<le> stop"
      "k = length cps \<or> copied + 1 + k = n \<or> d + ?l + length (encoded (take (k + 1) cps)) > stop" by auto
    have "take (d + ?l) ?dst = take d dst @ utf8_encode cp" using True Cons.prems by simp
    moreover have "drop (d + ?l + x) ?dst = drop (d + (?l + x)) dst" for x using True Cons.prems by (simp add: ac_simps)
    ultimately have "copy_from ?s (length u) n d stop copied dst =
        (take d dst @ encoded (take (Suc k) (cp # cps)) @ drop (d + length (encoded (take (Suc k) (cp # cps)))) dst,
         d + length (encoded (take (Suc k) (cp # cps))), copied + Suc k)"
      using k(1) True d by (subst copy_from.simps) (simp add: Let_def add.assoc)
    with k(2-) show ?thesis by (intro exI [of _ "Suc k"]) (simp add: add.assoc)
  next
    case False
    then have "copy_from ?s (length u) n d stop copied dst = (dst, d, copied)"
      using d by (subst copy_from.simps) (simp add: Let_def not_le)
    with False Cons.prems show ?thesis by (intro exI [of _ 0]) auto
  qed
qed

text \<open>\<open>utf8_strncpy_cp\<close> copies whole code points only: the destination receives the encoding of the first \<open>k\<close> code
  points of the source and a terminator, nothing behind the terminator changes, \<open>k\<close> is returned, and \<open>k\<close> is the
  largest number not above \<open>n\<close> whose encoding fits the buffer with its terminator.
\<close>

theorem utf8_strncpy_cp_exact:
  assumes "list_all text_rune cps" "0 < buf_sz" "buf_sz \<le> length dst"
  shows "\<exists>k. utf8_strncpy_cp dst buf_sz (encoded cps) n =
      (k, encoded (take k cps) @ 0 # drop (length (encoded (take k cps)) + 1) dst) \<and>
    k \<le> length cps \<and> k \<le> n \<and> length (encoded (take k cps)) < buf_sz \<and>
    (k = length cps \<or> k = n \<or> length (encoded (take (k + 1) cps)) \<ge> buf_sz)"
proof -
  have "buf_sz - 1 < length dst" using assms by linarith
  with copy_encoded [of cps 0 "buf_sz - 1" dst 0 n "[]"] assms obtain k where k:
    "copy_from (encoded cps) 0 n 0 (buf_sz - 1) 0 dst =
      (encoded (take k cps) @ drop (length (encoded (take k cps))) dst, length (encoded (take k cps)), k)"
    "k \<le> length cps" "k \<le> n" "length (encoded (take k cps)) \<le> buf_sz - 1"
    "k = length cps \<or> k = n \<or> length (encoded (take (k + 1) cps)) > buf_sz - 1" by (auto simp: list_all_iff)
  have "drop (length (encoded (take k cps))) dst = dst ! length (encoded (take k cps)) # drop (length (encoded (take k cps)) + 1) dst"
    using k(4) assms(2,3) by (simp add: Cons_nth_drop_Suc)
  then have "(encoded (take k cps) @ drop (length (encoded (take k cps))) dst)[length (encoded (take k cps)) := 0] =
      encoded (take k cps) @ 0 # drop (length (encoded (take k cps)) + 1) dst" by (simp add: list_update_append)
  with k assms(2) show ?thesis by (intro exI [of _ k]) (auto simp: utf8_strncpy_cp_def)
qed

theorem utf8_strncpy_cp_exact_witness:
  "\<exists>k. utf8_strncpy_cp (replicate 5 1) 5 (encoded [0x41, 0x20AC, 0x42]) 9 =
      (k, encoded (take k [0x41, 0x20AC, 0x42]) @ 0 # drop (length (encoded (take k [0x41, 0x20AC, 0x42])) + 1) (replicate 5 1))"
  using utf8_strncpy_cp_exact [of "[0x41, 0x20AC, 0x42]" 5 "replicate 5 1" 9]
  by (auto simp: text_rune_def utf8_byte_len_def)


end
