(* ===== verification/KString.thy ===== *)
theory KString
  imports Prelude "HOL-Library.Signed_Division"
begin

text \<open>
  The character classes of \<open>libc/ctype.c\<close>, the strings of \<open>libc/string.c\<close> and the integer conversions of
  \<open>libc/stdlib.c\<close>. A string that is only read is the list of its bytes (a read at its end gives the terminator,
  a zero byte inside ends it earlier); one that is written is the array it lies in. \<open>char\<close> is signed, as on
  x86. \<open>strtok_r\<close> works on positions of the array it cuts up. The floating point routines (\<open>str_to_double\<close>,
  \<open>pow\<close>, \<open>ftoa\<close>) are not modelled.
\<close>

section \<open>Character classes\<close>

definition islower :: "int \<Rightarrow> bool" where "islower c \<longleftrightarrow> c \<ge> 97 \<and> c \<le> 122"
definition isupper :: "int \<Rightarrow> bool" where "isupper c \<longleftrightarrow> c \<ge> 65 \<and> c \<le> 90"
definition isalpha :: "int \<Rightarrow> bool" where "isalpha c \<longleftrightarrow> islower c \<or> isupper c"
definition isdigit :: "int \<Rightarrow> bool" where "isdigit c \<longleftrightarrow> c \<ge> 48 \<and> c \<le> 57"
definition isalnum :: "int \<Rightarrow> bool" where "isalnum c \<longleftrightarrow> isalpha c \<or> isdigit c"
definition isascii :: "int \<Rightarrow> bool" where "isascii c \<longleftrightarrow> c < 128"
definition iscntrl :: "int \<Rightarrow> bool" where "iscntrl c \<longleftrightarrow> (c \<ge> 0 \<and> c < 32) \<or> c = 127"

definition ispunct :: "int \<Rightarrow> bool" where
  "ispunct c \<longleftrightarrow> (c > 32 \<and> c < 48) \<or> (c > 57 \<and> c < 65) \<or> (c > 90 \<and> c < 97) \<or> (c > 122 \<and> c < 127)"

definition isgraph :: "int \<Rightarrow> bool" where "isgraph c \<longleftrightarrow> isalnum c \<or> ispunct c"
definition isprint :: "int \<Rightarrow> bool" where "isprint c \<longleftrightarrow> isgraph c"
definition isxdigit :: "int \<Rightarrow> bool" where "isxdigit c \<longleftrightarrow> isdigit c \<or> (c \<ge> 65 \<and> c \<le> 70) \<or> (c \<ge> 97 \<and> c \<le> 102)"
definition isspace :: "int \<Rightarrow> bool" where "isspace c \<longleftrightarrow> c = 9 \<or> c = 11 \<or> c = 10 \<or> c = 0x0C \<or> c = 0x0D \<or> c = 32"
definition toupper :: "int \<Rightarrow> int" where "toupper c = (if islower c then c XOR 0x20 else c)"
definition tolower :: "int \<Rightarrow> int" where "tolower c = (if isupper c then c XOR 0x20 else c)"
definition toascii :: "int \<Rightarrow> int" where "toascii c = c AND 0x7f"

text \<open>The \<open>int\<close> that a \<open>char\<close> is promoted to.\<close>

definition char_int :: "u8 \<Rightarrow> int" where "char_int c = sint c"

section \<open>Strings\<close>

fun strlen :: "u8 list \<Rightarrow> nat" where
  "strlen [] = 0"
| "strlen (c # s) = (if c = 0 then 0 else 1 + strlen s)"

text \<open>\<open>for (i, j; i < j; i++, j--)\<close> swap \<open>s[i]\<close> and \<open>s[j]\<close>: the loop of \<open>reverse\<close> and of \<open>itoa\<close>.\<close>

function invert :: "u8 list \<Rightarrow> nat \<Rightarrow> nat \<Rightarrow> u8 list" where
  "invert s i j = (if i < j then invert (s[i := s ! j, j := s ! i]) (i + 1) (j - 1) else s)"
  by pat_completeness auto
termination
  by (relation "measure (\<lambda>(s, i, j). j - i)") auto

declare invert.simps [simp del]

definition reverse :: "u8 list \<Rightarrow> u8 list" where
  "reverse s = (let n = strlen s in if n = 0 then s else invert s 0 (n - 1))"

text \<open>The digits of \<open>n\<close>, last first, stored from \<open>str[i]\<close>; \<open>int\<close> arithmetic.\<close>

function ascii_digits :: "int \<Rightarrow> u8 list \<Rightarrow> nat \<Rightarrow> u8 list \<times> nat" where
  "ascii_digits n str i =
     (let str = str[i := of_int (n smod 10 + 48)]; n = n sdiv 10
      in if n > 0 then ascii_digits n str (i + 1) else (str, i + 1))"
  by pat_completeness auto
termination
proof (relation "measure (\<lambda>(n, str, i). nat n)")
  fix n x :: int and str xa :: "u8 list" and i :: nat
  assume "x = n sdiv 10" "x > 0"
  then have "nat x < nat n" by (cases "n \<ge> 0") (auto simp: signed_divide_int_def sgn_if split: if_splits)
  then show "((x, xa, i + 1), (n, str, i)) \<in> measure (\<lambda>(n, str, i). nat n)" by simp
qed simp

declare ascii_digits.simps [simp del]

definition int_to_ascii :: "32 word \<Rightarrow> u8 list \<Rightarrow> u8 list" where
  "int_to_ascii n str =
     (let sign = sint n; n = (if sign < 0 then - n else n);
          (str, i) = ascii_digits (sint n) str 0;
          (str, i) = (if sign < 0 then (str[i := 0x2D], i + 1) else (str, i))
      in reverse (str[i := 0]))"

text \<open>\<open>append\<close> and \<open>backspace\<close>.\<close>

definition append_char :: "u8 list \<Rightarrow> u8 \<Rightarrow> u8 list" where
  "append_char s n = (let len = strlen s in s[len := n, len + 1 := 0])"

definition backspace :: "u8 list \<Rightarrow> u8 list" where
  "backspace s = (let len = strlen s in if len > 0 then s[len - 1 := 0] else s)"

text \<open>One round of \<open>hex_to_ascii\<close> at shift \<open>i\<close>, with the flag \<open>zeros\<close>.\<close>

definition hex_round :: "32 word \<Rightarrow> bool \<times> u8 list \<Rightarrow> nat \<Rightarrow> bool \<times> u8 list" where
  "hex_round n st i =
     (let (zeros, str) = st; tmp = ucast (drop_bit i n AND 0xF) :: u8 in
      if tmp = 0 \<and> \<not> zeros then (zeros, str)
      else (True, append_char str (if tmp > 0xA then tmp - 0xA + 0x61 else tmp + 0x30)))"

definition hex_to_ascii :: "32 word \<Rightarrow> u8 list \<Rightarrow> u8 list" where
  "hex_to_ascii n str =
     (let str = append_char (append_char str 0x30) 0x78;
          (zeros, str) = foldl (hex_round n) (False, str) [28, 24, 20, 16, 12, 8, 4];
          tmp = ucast (n AND 0xF) :: u8
      in append_char str (if tmp \<ge> 0xA then tmp - 0xA + 0x61 else tmp + 0x30))"

text \<open>Comparisons. \<open>strcmp\<close> subtracts signed characters, the others unsigned ones.\<close>

fun strcmp :: "u8 list \<Rightarrow> u8 list \<Rightarrow> int" where
  "strcmp s1 s2 =
     (let a = cstr_at s1 0; b = cstr_at s2 0 in
      if a = b then if a = 0 then 0 else (case (s1, s2) of (_ # s1, _ # s2) \<Rightarrow> strcmp s1 s2 | _ \<Rightarrow> 0)
      else char_int a - char_int b)"

fun strncmp :: "u8 list \<Rightarrow> u8 list \<Rightarrow> nat \<Rightarrow> int" where
  "strncmp s1 s2 0 = 0"
| "strncmp s1 s2 (Suc n) =
     (let a = cstr_at s1 0; b = cstr_at s2 0 in
      if a \<noteq> b then uint a - uint b else if a = 0 then 0 else strncmp (tl s1) (tl s2) n)"

fun strcasecmp :: "u8 list \<Rightarrow> u8 list \<Rightarrow> int" where
  "strcasecmp s1 s2 =
     (let a = cstr_at s1 0; b = cstr_at s2 0 in
      if a \<noteq> 0 \<and> b \<noteq> 0 then
        let c = tolower (uint a) - tolower (uint b) in
        if c \<noteq> 0 then c else (case (s1, s2) of (_ # s1, _ # s2) \<Rightarrow> strcasecmp s1 s2 | _ \<Rightarrow> 0)
      else uint a - uint b)"

text \<open>Copies into the array \<open>d\<close> from position \<open>i\<close>.\<close>

fun copy_str :: "u8 list \<Rightarrow> nat \<Rightarrow> u8 list \<Rightarrow> u8 list" where
  "copy_str d i [] = d[i := 0]"
| "copy_str d i (c # src) = (if c = 0 then d[i := 0] else copy_str (d[i := c]) (i + 1) src)"

definition strcpy :: "u8 list \<Rightarrow> u8 list \<Rightarrow> u8 list" where "strcpy dst src = copy_str dst 0 src"
definition strcat :: "u8 list \<Rightarrow> u8 list \<Rightarrow> u8 list" where "strcat dst src = copy_str dst (strlen dst) src"

text \<open>The common first loop of \<open>strncpy\<close> and \<open>strncat\<close>: at most \<open>n\<close> bytes to \<open>d[i...]\<close>; how many were copied.\<close>

fun copy_n :: "u8 list \<Rightarrow> nat \<Rightarrow> nat \<Rightarrow> u8 list \<Rightarrow> nat \<Rightarrow> u8 list \<times> nat" where
  "copy_n d i 0 src k = (d, k)"
| "copy_n d i (Suc n) src k =
     (if cstr_at src 0 = 0 then (d, k) else copy_n (d[i := cstr_at src 0]) (i + 1) n (tl src) (k + 1))"

definition strncpy :: "u8 list \<Rightarrow> u8 list \<Rightarrow> nat \<Rightarrow> u8 list" where
  "strncpy dst src n = (let (dst, i) = copy_n dst 0 n src 0 in set_slots dst i (n - i) 0)"

definition strncat :: "u8 list \<Rightarrow> u8 list \<Rightarrow> nat \<Rightarrow> u8 list" where
  "strncat dst src n = (let d = strlen dst; (dst, i) = copy_n dst d n src 0 in dst[d + i := 0])"

text \<open>Searches give the position in the string.\<close>

fun strchr_at :: "u8 list \<Rightarrow> u8 \<Rightarrow> nat \<Rightarrow> nat option" where
  "strchr_at [] c p = (if c = 0 then Some p else None)"
| "strchr_at (x # s) c p =
     (if x = 0 then if c = 0 then Some p else None else if x = c then Some p else strchr_at s c (p + 1))"

definition strchr :: "u8 list \<Rightarrow> int \<Rightarrow> nat option" where "strchr s c = strchr_at s (of_int c) 0"

fun strrchr_at :: "u8 list \<Rightarrow> u8 \<Rightarrow> nat \<Rightarrow> nat option \<Rightarrow> nat option" where
  "strrchr_at [] c p found = (if c = 0 then Some p else found)"
| "strrchr_at (x # s) c p found =
     (if x = 0 then if c = 0 then Some p else found else strrchr_at s c (p + 1) (if x = c then Some p else found))"

definition strrchr :: "u8 list \<Rightarrow> int \<Rightarrow> nat option" where "strrchr s c = strrchr_at s (of_int c) 0 None"

fun strstr_at :: "u8 list \<Rightarrow> u8 list \<Rightarrow> nat \<Rightarrow> nat \<Rightarrow> nat option" where
  "strstr_at [] needle nlen p = None"
| "strstr_at (x # hay) needle nlen p =
     (if x = 0 then None
      else if x = cstr_at needle 0 \<and> strncmp (x # hay) needle nlen = 0 then Some p
      else strstr_at hay needle nlen (p + 1))"

definition strstr :: "u8 list \<Rightarrow> u8 list \<Rightarrow> nat option" where
  "strstr haystack needle =
     (if cstr_at needle 0 = 0 then Some 0 else strstr_at haystack needle (strlen needle) 0)"

fun strspn :: "u8 list \<Rightarrow> u8 list \<Rightarrow> nat" where
  "strspn [] accept = 0"
| "strspn (x # s) accept = (if x = 0 \<or> strchr accept (uint x) = None then 0 else 1 + strspn s accept)"

fun strcspn :: "u8 list \<Rightarrow> u8 list \<Rightarrow> nat" where
  "strcspn [] reject = 0"
| "strcspn (x # s) reject = (if x = 0 \<or> strchr reject (uint x) \<noteq> None then 0 else 1 + strcspn s reject)"

definition strnlen :: "u8 list \<Rightarrow> nat \<Rightarrow> nat" where
  "strnlen s maxlen = skip_while (\<lambda>i. cstr_at s i \<noteq> 0) 0 maxlen"

text \<open>\<open>strtok_r\<close> on the array \<open>buf\<close>: \<open>str\<close> and \<open>saveptr\<close> are positions in it, \<open>None\<close> the null pointer. The
  result is the token's position, the new \<open>saveptr\<close> and the array.\<close>

definition strtok_r :: "u8 list \<Rightarrow> nat option \<Rightarrow> u8 list \<Rightarrow> nat option \<Rightarrow> nat option \<times> nat option \<times> u8 list" where
  "strtok_r buf str delim saveptr =
     (case (case str of None \<Rightarrow> saveptr | Some p \<Rightarrow> Some p) of
        None \<Rightarrow> (None, saveptr, buf)
      | Some s \<Rightarrow>
          let s = s + strspn (drop s buf) delim in
          if cstr_at buf s = 0 then (None, Some s, buf)
          else
            let tok = s; s = s + strcspn (drop s buf) delim;
                (buf, s) = (if cstr_at buf s \<noteq> 0 then (buf[s := 0], s + 1) else (buf, s))
            in (Some tok, Some s, buf))"

section \<open>Numbers from text\<close>

definition space_byte :: "u8 \<Rightarrow> bool" where "space_byte c = isspace (char_int c)"
definition digit_byte :: "u8 \<Rightarrow> bool" where "digit_byte c = isdigit (char_int c)"

text \<open>The digit loop of both parsers with its overflow check against \<open>limit\<close>; \<open>None\<close> is the early return.\<close>

fun digit_loop :: "nat \<Rightarrow> nat \<Rightarrow> u8 list \<Rightarrow> (nat \<times> u8 list) option" where
  "digit_loop limit result [] = Some (result, [])"
| "digit_loop limit result (c # s) =
     (if digit_byte c then
        let digit = unat (c - 0x30) in
        if result > (limit - digit) div 10 then None else digit_loop limit (result * 10 + digit) s
      else Some (result, c # s))"

text \<open>The result and the error flag; \<open>None\<close> is a null pointer.\<close>

definition str_to_uint64 :: "u8 list option \<Rightarrow> nat \<times> bool" where
  "str_to_uint64 s =
     (case s of
        None \<Rightarrow> (0, True)
      | Some s \<Rightarrow>
          let s = dropWhile space_byte s in
          if \<not> digit_byte (cstr_at s 0) then (0, True)
          else (case digit_loop (2 ^ 64 - 1) 0 s of
                  None \<Rightarrow> (0, True)
                | Some (result, s) \<Rightarrow> if cstr_at (dropWhile space_byte s) 0 \<noteq> 0 then (0, True) else (result, False)))"

definition str_to_int64 :: "u8 list option \<Rightarrow> 64 word \<times> bool" where
  "str_to_int64 s =
     (case s of
        None \<Rightarrow> (0, True)
      | Some s \<Rightarrow>
          let s = dropWhile space_byte s;
              (negative, s) = (if cstr_at s 0 = 0x2D then (True, tl s) else if cstr_at s 0 = 0x2B then (False, tl s) else (False, s))
          in if \<not> digit_byte (cstr_at s 0) then (0, True)
             else (case digit_loop (if negative then 2 ^ 63 else 2 ^ 63 - 1) 0 s of
                     None \<Rightarrow> (0, True)
                   | Some (result, s) \<Rightarrow>
                       if cstr_at (dropWhile space_byte s) 0 \<noteq> 0 then (0, True)
                       else (if negative then - of_nat result else of_nat result, False)))"

section \<open>Text from numbers\<close>

definition digit_table :: "u8 list" where
  "digit_table = map of_char ''zyxwvutsrqponmlkjihgfedcba9876543210123456789abcdefghijklmnopqrstuvwxyz''"

definition digit_char :: "int \<Rightarrow> u8" where
  "digit_char r = digit_table ! nat (35 + r)"

function itoa_digits :: "int \<Rightarrow> int \<Rightarrow> u8 list \<Rightarrow> nat \<Rightarrow> u8 list \<times> nat" where
  "itoa_digits value base str ptr =
     (let str = str[ptr := digit_char (value smod base)]; value = value sdiv base
      in if value \<noteq> 0 \<and> base \<ge> 2 then itoa_digits value base str (ptr + 1) else (str, ptr + 1))"
  by pat_completeness auto
termination
proof (relation "measure (\<lambda>(value, base, str, ptr). nat \<bar>value\<bar>)")
  fix v base x :: int and str xa :: "u8 list" and ptr :: nat
  assume a: "x = v sdiv base" "x \<noteq> 0 \<and> base \<ge> 2"
  have "0 \<le> \<bar>v\<bar> div base" using a by (simp add: pos_imp_zdiv_nonneg_iff)
  then have "\<bar>x\<bar> = \<bar>v\<bar> div base" using a by (auto simp: signed_divide_int_def abs_mult sgn_if)
  moreover have "\<bar>v\<bar> div base < \<bar>v\<bar>" using a by (intro int_div_less_self) (auto simp: signed_divide_int_def)
  ultimately show "((x, base, xa, ptr + 1), (v, base, str, ptr)) \<in> measure (\<lambda>(v, base, str, ptr). nat \<bar>v\<bar>)" by simp
qed simp

declare itoa_digits.simps [simp del]

definition itoa :: "64 word \<Rightarrow> u8 list \<Rightarrow> int \<Rightarrow> u8 list" where
  "itoa value str base =
     (if base < 2 \<or> base > 36 then str[0 := 0]
      else
        let (str, low) = (if sint value < 0 \<and> base = 10 then (str[0 := 0x2D], 1) else (str, 0));
            (str, ptr) = itoa_digits (sint value) base str low
        in invert (str[ptr := 0]) low (ptr - 1))"

text \<open>\<open>llimit\<close> and \<open>rlimit\<close>: fields of \<open>n\<close> characters; the second counts the terminator.\<close>

definition llimit :: "u8 list \<Rightarrow> nat \<Rightarrow> u8 \<Rightarrow> u8 list" where
  "llimit src n a =
     (let len = strlen src in
      if len = n then src
      else if len > n then src[n := 0]
      else (set_slots src len (n - len) a)[n := 0])"

definition rlimit :: "u8 list \<Rightarrow> nat \<Rightarrow> u8 \<Rightarrow> u8 list" where
  "rlimit src n a =
     (let len = strlen src in
      if len \<ge> sub64 n 1 then src[sub64 n 1 := 0]
      else
        let pad = sub64 n 1 - len;
            src = take pad src @ take (len + 1) src @ drop (pad + (len + 1)) src
        in set_slots src 0 pad a)"


section \<open>Strings in arrays\<close>

lemma strlen_eq: "strlen s = length (cstr_of s)"
  by (induction s) (auto simp: cstr_of_def)

lemma length_invert [simp]: "length (invert s i j) = length s"
  by (induction s i j rule: invert.induct) (subst invert.simps, simp)

lemma nth_invert:
  "j < length s \<Longrightarrow> k < length s \<Longrightarrow> invert s i j ! k = (if i \<le> k \<and> k \<le> j then s ! (i + j - k) else s ! k)"
proof (induction s i j rule: invert.induct)
  case (1 s i j)
  show ?case
  proof (cases "i < j")
    case True
    let ?s = "s[i := s ! j, j := s ! i]"
    have "invert s i j ! k = invert ?s (i + 1) (j - 1) ! k" using True by (subst invert.simps) simp
    also have "\<dots> = (if i + 1 \<le> k \<and> k \<le> j - 1 then ?s ! (i + 1 + (j - 1) - k) else ?s ! k)"
      using "1.IH" [OF True] "1.prems" by simp
    also have "\<dots> = (if i \<le> k \<and> k \<le> j then s ! (i + j - k) else s ! k)"
      using True "1.prems" by (auto simp: nth_list_update)
    finally show ?thesis .
  next
    case False
    then have "i \<le> k \<and> k \<le> j \<Longrightarrow> i + j - k = k" by linarith
    with False show ?thesis by (subst invert.simps) auto
  qed
qed

lemma invert_append: "u \<noteq> [] \<Longrightarrow> invert (w @ u @ v) (length w) (length w + length u - 1) = w @ rev u @ v"
proof (rule nth_equalityI)
  fix k
  assume u: "u \<noteq> []" and k: "k < length (invert (w @ u @ v) (length w) (length w + length u - 1))"
  let ?j = "length w + length u - 1"
  have j: "?j < length (w @ u @ v)" "k < length (w @ u @ v)" using u k by (auto simp: length_greater_0_conv [symmetric] simp del: length_greater_0_conv)
  have "invert (w @ u @ v) (length w) ?j ! k =
      (if length w \<le> k \<and> k \<le> ?j then (w @ u @ v) ! (length w + ?j - k) else (w @ u @ v) ! k)" by (rule nth_invert [OF j])
  also have "\<dots> = (w @ rev u @ v) ! k"
  proof (cases "length w \<le> k \<and> k \<le> ?j")
    case True
    then obtain m where m: "k = length w + m" "m < length u" using u by (cases u) (auto simp: le_iff_add)
    then have "length w + ?j - k = length w + (length u - Suc m)" by simp
    then have "(w @ u @ v) ! (length w + ?j - k) = (w @ rev u @ v) ! k"
      using m by (simp only: nth_append_length_plus) (simp add: nth_append rev_nth diff_less [OF _ le_less_trans [OF le0]])
    with True show ?thesis by simp
  next
    case False
    then have "k < length w \<or> k \<ge> length w + length u" using u by (cases u) auto
    then show ?thesis using False by (auto simp: nth_append)
  qed
  finally show "invert (w @ u @ v) (length w) ?j ! k = (w @ rev u @ v) ! k" .
qed simp

section \<open>Decimal text and back\<close>

text \<open>The digits of \<open>n\<close> in a base, last first.\<close>

function radix :: "nat \<Rightarrow> nat \<Rightarrow> nat list" where
  "radix b n = (if n < b \<or> b < 2 then [n] else n mod b # radix b (n div b))"
  by pat_completeness auto
termination
  by (relation "measure snd") (auto intro: div_less_dividend)

declare radix.simps [simp del]

definition digit_text :: "nat \<Rightarrow> u8" where "digit_text k = (if k < 10 then of_nat (48 + k) else of_nat (87 + k))"

definition itoa_text :: "int \<Rightarrow> int \<Rightarrow> u8 list" where
  "itoa_text base v =
     (if v < 0 \<and> base = 10 then [0x2D] else []) @ map digit_text (rev (radix (nat base) (nat \<bar>v\<bar>)))"

lemma digit_table_eq: "digit_table = rev (map digit_text [1 ..< 36]) @ map digit_text [0 ..< 36]"
  by code_simp

lemma digit_table_at: "k < 36 \<Longrightarrow> digit_table ! (35 + k) = digit_text k \<and> digit_table ! (35 - k) = digit_text k"
  unfolding digit_table_eq by (cases k) (auto simp: nth_append rev_nth less_Suc_eq_le)

lemma digit_char_smod:
  assumes "2 \<le> base" "base \<le> 36"
  shows "digit_char (v smod base) = digit_text (nat \<bar>v\<bar> mod nat base)"
proof -
  let ?k = "nat \<bar>v\<bar> mod nat base"
  have k: "int ?k = \<bar>v\<bar> mod base" using assms by (simp add: zmod_int)
  have "?k < nat base" using assms by simp
  then have "?k < 36" using assms by linarith
  then have t: "digit_table ! (35 + ?k) = digit_text ?k" "digit_table ! (35 - ?k) = digit_text ?k" using digit_table_at by blast+
  have "v smod base = (if v < 0 then - int ?k else int ?k)"
    using assms by (auto simp: signed_modulo_int_def signed_divide_int_def sgn_if k zdiv_int minus_div_mult_eq_mod [symmetric] algebra_simps)
  then show ?thesis using t \<open>?k < 36\<close> by (auto simp: digit_char_def nat_diff_distrib' nat_add_distrib)
qed

lemma abs_sdiv: "2 \<le> base \<Longrightarrow> nat \<bar>v sdiv base\<bar> = nat \<bar>v\<bar> div nat base"
proof -
  assume b: "2 \<le> base"
  have "0 \<le> \<bar>v\<bar> div base" using b by (simp add: pos_imp_zdiv_nonneg_iff)
  then have "\<bar>v sdiv base\<bar> = \<bar>v\<bar> div base" using b by (auto simp: signed_divide_int_def abs_mult sgn_if)
  then show ?thesis using b by (simp add: nat_div_distrib)
qed

lemma itoa_digits_radix:
  "2 \<le> base \<Longrightarrow> base \<le> 36 \<Longrightarrow> ptr + length (radix (nat base) (nat \<bar>v\<bar>)) \<le> length str \<Longrightarrow>
   itoa_digits v base str ptr =
     (take ptr str @ map digit_text (radix (nat base) (nat \<bar>v\<bar>)) @ drop (ptr + length (radix (nat base) (nat \<bar>v\<bar>))) str,
      ptr + length (radix (nat base) (nat \<bar>v\<bar>)))"
proof (induction v base str ptr rule: itoa_digits.induct)
  case (1 v base str ptr)
  let ?n = "nat \<bar>v\<bar>" and ?b = "nat base"
  note b = "1.prems"(1,2)
  have z: "v sdiv base = 0 \<longleftrightarrow> ?n < ?b" using abs_sdiv [OF b(1), of v] b(1) by (auto simp: div_eq_0_iff)
  have p: "ptr < length str" using "1.prems"(3) by (subst (asm) radix.simps) (auto split: if_splits)
  show ?case
  proof (cases "?n < ?b")
    case True
    then have r: "radix ?b ?n = [?n]" by (subst radix.simps) simp
    from True z have "itoa_digits v base str ptr = (str[ptr := digit_text ?n], ptr + 1)"
      by (subst itoa_digits.simps) (simp add: Let_def digit_char_smod [OF b])
    then show ?thesis unfolding r using p by (simp add: upd_conv_take_nth_drop)
  next
    case False
    have "2 \<le> ?b" using b by simp
    with False have r: "radix ?b ?n = ?n mod ?b # radix ?b (?n div ?b)" by (subst radix.simps) simp
    let ?s = "str[ptr := digit_text (?n mod ?b)]"
    have "itoa_digits v base str ptr = itoa_digits (v sdiv base) base ?s (ptr + 1)"
      using False z b by (subst itoa_digits.simps) (simp add: Let_def digit_char_smod)
    also have "\<dots> = (take (ptr + 1) ?s @ map digit_text (radix ?b (?n div ?b)) @ drop (ptr + 1 + length (radix ?b (?n div ?b))) ?s,
        ptr + 1 + length (radix ?b (?n div ?b)))"
      using "1.IH" [OF refl refl] False z b "1.prems"(3) by (simp add: abs_sdiv r digit_char_smod)
    finally show ?thesis unfolding r using p by (simp add: take_Suc_conv_app_nth)
  qed
qed

lemma radix_nonempty: "radix b n \<noteq> []"
  by (subst radix.simps) simp

lemma itoa_spec:
  assumes "2 \<le> base" "base \<le> 36" "length (itoa_text base (sint v)) < length str"
  shows "itoa v str base = itoa_text base (sint v) @ 0 # drop (length (itoa_text base (sint v)) + 1) str"
proof -
  let ?w = "if sint v < 0 \<and> base = 10 then [0x2D] else [] :: u8 list" and ?ds = "radix (nat base) (nat \<bar>sint v\<bar>)"
  let ?str = "if sint v < 0 \<and> base = 10 then str[0 := 0x2D] else str"
  have l: "length ?w + length ?ds < length str" using assms(3) by (auto simp: itoa_text_def)
  have t: "take (length ?w) ?str = ?w" using l by (cases str) auto
  have "length ?w + length ?ds \<le> length ?str" using l by auto
  from itoa_digits_radix [OF assms(1,2) this] have i: "itoa_digits (sint v) base ?str (length ?w) =
      (?w @ map digit_text ?ds @ drop (length ?w + length ?ds) ?str, length ?w + length ?ds)" unfolding t .
  have d: "drop (length ?w + length ?ds) ?str = str ! (length ?w + length ?ds) # drop (length ?w + length ?ds + 1) str"
    using l radix_nonempty [of "nat base" "nat \<bar>sint v\<bar>"] by (auto simp: Cons_nth_drop_Suc)
  let ?a = "?w @ map digit_text ?ds @ 0 # drop (length ?w + length ?ds + 1) str"
  have "itoa v str base = invert ?a (length ?w) (length ?w + length ?ds - 1)"
    using assms(1,2) i by (auto simp: itoa_def d list_update_append)
  also have "\<dots> = ?w @ rev (map digit_text ?ds) @ 0 # drop (length ?w + length ?ds + 1) str"
    using invert_append [of "map digit_text ?ds" ?w] radix_nonempty by simp
  finally show ?thesis by (auto simp: itoa_text_def rev_map)
qed


text \<open>The value of a list of digits, first digit first.\<close>

definition decimal :: "nat \<Rightarrow> nat list \<Rightarrow> nat" where "decimal r ds = foldl (\<lambda>r d. r * 10 + d) r ds"

lemma decimal_simps [simp]: "decimal r [] = r" "decimal r (d # ds) = decimal (r * 10 + d) ds"
  by (simp_all add: decimal_def)

lemma decimal_snoc: "decimal r (ds @ [d]) = decimal r ds * 10 + d"
  by (simp add: decimal_def)

lemma decimal_ge: "r \<le> decimal r ds"
proof (induction ds arbitrary: r)
  case (Cons d ds)
  have "r \<le> r * 10 + d" by simp
  also have "\<dots> \<le> decimal (r * 10 + d) ds" by (rule Cons.IH)
  finally show ?case by simp
qed simp

lemma radix_value: "decimal 0 (rev (radix 10 n)) = n"
proof (induction n rule: less_induct)
  case (less n)
  show ?case
  proof (cases "n < 10")
    case False
    then have "decimal 0 (rev (radix 10 (n div 10))) = n div 10" by (intro less) simp
    with False show ?thesis by (subst radix.simps) (simp add: decimal_snoc)
  qed (subst radix.simps, simp)
qed

lemma radix_digits: "d \<in> set (radix 10 n) \<Longrightarrow> d < 10"
proof (induction n rule: less_induct)
  case (less n)
  show ?case
  proof (cases "n < 10")
    case False
    then have "radix 10 n = n mod 10 # radix 10 (n div 10)" by (subst radix.simps) simp
    with less.IH [of "n div 10"] less.prems False show ?thesis by auto
  qed (use less.prems in \<open>auto simp: radix.simps [of 10 n]\<close>)
qed

lemma digit_text_small: "d < 10 \<Longrightarrow> unat (digit_text d) = 48 + d"
proof -
  assume "d < 10"
  then have "unat (of_nat (48 + d) :: u8) = 48 + d" by (subst unat_of_nat) simp
  with \<open>d < 10\<close> show ?thesis by (simp add: digit_text_def)
qed

lemma sint_small: "unat (c :: u8) < 128 \<Longrightarrow> sint c = int (unat c)"
proof -
  assume "unat c < 128"
  then have "int (unat c) < 128" by linarith
  then have "uint c < 128" by simp
  moreover have "- 128 \<le> uint c" by (rule order_trans [OF _ unsigned_greater_eq]) simp
  ultimately have "signed_take_bit 7 (uint c) = uint c" by (intro signed_take_bit_int_eq_self) simp_all
  then show ?thesis by (simp add: sint_uint)
qed

lemma digit_byte_text: "d < 10 \<Longrightarrow> digit_byte (digit_text d) \<and> digit_text d - 0x30 = of_nat d \<and> digit_text d \<noteq> 0"
proof -
  assume d: "d < 10"
  have "digit_text d = of_nat 48 + of_nat d" using d by (simp add: digit_text_def)
  then have "digit_text d - 0x30 = of_nat d" by simp
  moreover have "sint (digit_text d) = int (48 + d)" using digit_text_small [OF d] d by (subst sint_small) simp_all
  ultimately show ?thesis using d digit_text_small [OF d] by (auto simp: digit_byte_def char_int_def isdigit_def)
qed

lemma digit_loop_text:
  assumes "\<forall>d \<in> set ds. d < 10" "decimal r ds \<le> limit" "9 \<le> limit" "rest = [] \<or> \<not> digit_byte (hd rest)"
  shows "digit_loop limit r (map digit_text ds @ rest) = Some (decimal r ds, rest)"
  using assms
proof (induction ds arbitrary: r)
  case Nil
  then show ?case by (cases rest) auto
next
  case (Cons d ds)
  have d: "d < 10" using Cons.prems by simp
  then have u: "unat (digit_text d - 0x30) = d" using digit_byte_text [OF d] by (simp add: unat_of_nat)
  have "r * 10 + d \<le> limit" using Cons.prems(2) decimal_ge [of "r * 10 + d" ds] by simp
  then have "r \<le> (limit - d) div 10" by (simp add: less_eq_div_iff_mult_less_eq)
  with Cons digit_byte_text [OF d] u show ?case by (simp add: Let_def)
qed

lemma not_space_digit: "d < 10 \<Longrightarrow> \<not> space_byte (digit_text d)"
  using digit_byte_text [of d] by (auto simp: digit_byte_def space_byte_def isspace_def isdigit_def)

lemma itoa_text_length: "length (itoa_text 10 (sint (v :: 64 word))) \<le> 20"
proof -
  have l: "n < 10 ^ Suc k \<Longrightarrow> length (radix 10 n) \<le> Suc k" for k n
  proof (induction k arbitrary: n)
    case 0
    then show ?case by (subst radix.simps) simp
  next
    case (Suc k)
    then have "n div 10 < 10 ^ Suc k" by (simp add: less_mult_imp_div_less)
    from Suc.IH [OF this] show ?case by (subst radix.simps) simp
  qed
  have "- (2 ^ 63) \<le> sint v" "sint v < 2 ^ 63" using sint_greater_eq [of v] sint_less [of v] by simp_all
  then have "nat \<bar>sint v\<bar> < 10 ^ Suc 18" by simp
  from l [OF this] have "length (radix 10 (nat \<bar>sint v\<bar>)) \<le> 19" by simp
  then show ?thesis by (auto simp: itoa_text_def simp del: abs_of_neg abs_of_nonneg)
qed

lemma itoa_str_to_int64_aux:
  "str_to_int64 (Some (itoa_text 10 (sint v) @ 0 # rest)) = (v, False)"
proof -
  let ?n = "nat \<bar>sint v\<bar>" and ?neg = "sint v < 0"
  obtain d ds where d: "rev (radix 10 ?n) = d # ds" using radix_nonempty [of 10 ?n] by (cases "rev (radix 10 ?n)") auto
  have dd: "\<forall>x \<in> set (d # ds). x < 10" using radix_digits [of _ ?n] unfolding d [symmetric] by simp
  have t: "itoa_text 10 (sint v) = (if ?neg then [0x2D] else []) @ map digit_text (d # ds)" by (simp add: itoa_text_def d)
  have b: "- (2 ^ 63) \<le> sint v" "sint v < 2 ^ 63" using sint_greater_eq [of v] sint_less [of v] by simp_all
  have val: "decimal 0 (d # ds) = ?n" using radix_value [of ?n] d by simp
  have lim: "decimal 0 (d # ds) \<le> (if ?neg then 2 ^ 63 else 2 ^ 63 - 1)" unfolding val using b by auto
  have z: "\<not> digit_byte 0" "\<not> space_byte 0" "\<not> space_byte 0x2D" by (auto simp: digit_byte_def space_byte_def char_int_def isdigit_def isspace_def)
  have l: "digit_loop (if ?neg then 2 ^ 63 else 2 ^ 63 - 1) 0 (map digit_text (d # ds) @ 0 # rest) = Some (?n, 0 # rest)"
    using digit_loop_text [OF dd lim] z(1) unfolding val by auto
  have sgn: "digit_text d \<noteq> 0x2D" "digit_text d \<noteq> 0x2B" using digit_text_small [of d] dd by (auto simp: word_unat_eq_iff)
  have v: "(if ?neg then - of_nat ?n else of_nat ?n) = v" by (auto simp: of_int_of_nat [symmetric] of_nat_nat)
  show ?thesis
  proof (cases ?neg)
    case True
    then show ?thesis using l v digit_byte_text [of d] dd z
      by (simp add: str_to_int64_def t cstr_at_def del: digit_loop.simps)
  next
    case False
    then show ?thesis using l v digit_byte_text [of d] dd z not_space_digit [of d] sgn
      by (simp add: str_to_int64_def t cstr_at_def del: digit_loop.simps)
  qed
qed

text \<open>C34: \<open>itoa\<close> in base ten and \<open>str_to_int64\<close> are inverse on every 64-bit integer, the most negative one included: the
  text that \<open>itoa\<close> leaves in its buffer (the sign and up to nineteen digits, whatever the buffer held before) parses
  without an error to the number it was made from.
\<close>

theorem itoa_str_to_int64: "str_to_int64 (Some (itoa v (replicate 32 junk) 10)) = (v, False)"
  using itoa_spec [of 10 v "replicate 32 junk"] itoa_text_length [of v] itoa_str_to_int64_aux [of v] by simp


section \<open>Splitting a string\<close>

text \<open>The maximal runs of a string that hold no delimiter.\<close>

function tokens :: "u8 set \<Rightarrow> u8 list \<Rightarrow> u8 list list" where
  "tokens D s =
     (let s = dropWhile (\<lambda>c. c \<in> D) s in
      if s = [] then [] else takeWhile (\<lambda>c. c \<notin> D) s # tokens D (dropWhile (\<lambda>c. c \<notin> D) s))"
  by pat_completeness auto
termination
proof (relation "measure (\<lambda>(D, s). length s)")
  fix D :: "u8 set" and s x
  assume x: "x = dropWhile (\<lambda>c. c \<in> D) s" "x \<noteq> []"
  have "hd x \<notin> D" unfolding x(1) by (rule hd_dropWhile [OF x(2) [unfolded x(1)]])
  obtain c cs where c: "x = c # cs" using x(2) by (cases x) blast+
  with \<open>hd x \<notin> D\<close> have "length (dropWhile (\<lambda>c. c \<notin> D) x) < length x"
    using length_dropWhile_le [of "\<lambda>c. c \<notin> D" cs] by simp
  also have "\<dots> \<le> length s" by (simp add: x(1) length_dropWhile_le)
  finally show "((D, dropWhile (\<lambda>c. c \<notin> D) x), D, s) \<in> measure (\<lambda>(D, s). length s)" by simp
qed simp

declare tokens.simps [simp del]

text \<open>A client's loop over the tokens of the string at \<open>str\<close>: each is read before the next call.\<close>

partial_function (option) strtok_all :: "u8 list \<Rightarrow> nat option \<Rightarrow> u8 list \<Rightarrow> nat option \<Rightarrow> u8 list list option" where
  "strtok_all buf str delim saveptr =
     (case strtok_r buf str delim saveptr of
        (None, saveptr, buf) \<Rightarrow> Some []
      | (Some tok, saveptr, buf) \<Rightarrow>
          do { ts \<leftarrow> strtok_all buf None delim saveptr; Some (cstr_of (drop tok buf) # ts) })"

lemma strchr_at_mem: "x \<noteq> 0 \<Longrightarrow> strchr_at s x p \<noteq> None \<longleftrightarrow> x \<in> set (cstr_of s)"
  by (induction s arbitrary: p) (auto simp: cstr_of_def)

lemma strchr_mem: "x \<noteq> 0 \<Longrightarrow> strchr s (uint x) \<noteq> None \<longleftrightarrow> x \<in> set (cstr_of s)"
  unfolding strchr_def word_of_int_uint by (rule strchr_at_mem)

lemma strspn_eq: "strspn s d = length (takeWhile (\<lambda>x. x \<in> set (cstr_of d)) (cstr_of s))"
proof (induction s)
  case (Cons x s)
  then show ?case using strchr_mem [of x d] by (cases "x = 0") (auto simp: cstr_of_def)
qed (simp add: cstr_of_def)

lemma strcspn_eq: "strcspn s d = length (takeWhile (\<lambda>x. x \<notin> set (cstr_of d)) (cstr_of s))"
proof (induction s)
  case (Cons x s)
  then show ?case using strchr_mem [of x d] by (cases "x = 0") (auto simp: cstr_of_def)
qed (simp add: cstr_of_def)

lemma cstr_of_drop: "k \<le> length (cstr_of s) \<Longrightarrow> cstr_of (drop k s) = drop k (cstr_of s)"
proof (induction s arbitrary: k)
  case (Cons x s)
  then show ?case by (cases k) (auto simp: cstr_of_def split: if_splits)
qed (simp add: cstr_of_def)

lemma cstr_at_cstr_of: "cstr_at s 0 = 0 \<longleftrightarrow> cstr_of s = []"
  by (cases s) (auto simp: cstr_at_def cstr_of_def)

lemma cstr_at_drop: "cstr_at s p = cstr_at (drop p s) 0"
  by (auto simp: cstr_at_def)

lemma cstr_of_cut: "k < length (cstr_of s) \<Longrightarrow> cstr_of (s[k := 0]) = take k (cstr_of s)"
proof (induction s arbitrary: k)
  case (Cons x s)
  then show ?case by (cases k) (auto simp: cstr_of_def split: if_splits)
qed (simp add: cstr_of_def)

text \<open>One call at a position of the array.\<close>

lemma strtok_step:
  fixes buf delim :: "u8 list" and str sp :: "nat option"
  assumes "q = (case str of None \<Rightarrow> sp | Some p \<Rightarrow> Some p)" "q = Some p"
  defines "D \<equiv> set (cstr_of delim)" and "t \<equiv> dropWhile (\<lambda>c. c \<in> set (cstr_of delim)) (cstr_of (drop p buf))"
  shows "t = [] \<Longrightarrow> \<exists>sp'. strtok_r buf str delim sp = (None, sp', buf)"
    and "t \<noteq> [] \<Longrightarrow> \<exists>tok p' buf'. strtok_r buf str delim sp = (Some tok, Some p', buf') \<and>
      cstr_of (drop tok buf') = takeWhile (\<lambda>c. c \<notin> D) t \<and> cstr_of (drop p' buf') = drop 1 (dropWhile (\<lambda>c. c \<notin> D) t)"
proof -
  let ?s = "p + strspn (drop p buf) delim"
  have t: "t = cstr_of (drop ?s buf)"
    using cstr_of_drop [of "strspn (drop p buf) delim" "drop p buf"]
    by (simp add: t_def strspn_eq dropWhile_eq_drop length_takeWhile_le add.commute)
  have z: "cstr_at buf ?s = 0 \<longleftrightarrow> t = []" using cstr_at_drop [of buf ?s] cstr_at_cstr_of [of "drop ?s buf"] t by simp
  show "\<exists>sp'. strtok_r buf str delim sp = (None, sp', buf)" if "t = []"
    using that z assms(1,2) by (auto simp: strtok_r_def Let_def split: option.splits)
  show "\<exists>tok p' buf'. strtok_r buf str delim sp = (Some tok, Some p', buf') \<and>
      cstr_of (drop tok buf') = takeWhile (\<lambda>c. c \<notin> D) t \<and> cstr_of (drop p' buf') = drop 1 (dropWhile (\<lambda>c. c \<notin> D) t)"
    if ne: "t \<noteq> []"
  proof -
    let ?m = "strcspn (drop ?s buf) delim"
    have m: "?m = length (takeWhile (\<lambda>c. c \<notin> D) t)" by (simp add: strcspn_eq D_def t)
    have dr: "cstr_of (drop (?s + ?m) buf) = dropWhile (\<lambda>c. c \<notin> D) t"
      using cstr_of_drop [of ?m "drop ?s buf"] m length_takeWhile_le [of "\<lambda>c. c \<notin> D" t]
      by (simp add: t [symmetric] dropWhile_eq_drop add.commute)
    have y: "cstr_at buf (?s + ?m) = 0 \<longleftrightarrow> dropWhile (\<lambda>c. c \<notin> D) t = []"
      using cstr_at_drop [of buf "?s + ?m"] cstr_at_cstr_of [of "drop (?s + ?m) buf"] dr by simp
    show ?thesis
    proof (cases "cstr_at buf (?s + ?m) = 0")
      case True
      with ne z assms(1,2) have "strtok_r buf str delim sp = (Some ?s, Some (?s + ?m), buf)"
        by (auto simp: strtok_r_def Let_def split: option.splits)
      moreover have n: "dropWhile (\<lambda>c. c \<notin> D) t = []" using True y by blast
      then have "takeWhile (\<lambda>c. c \<notin> D) t = t" by (metis append_Nil2 takeWhile_dropWhile_id)
      then have "cstr_of (drop ?s buf) = takeWhile (\<lambda>c. c \<notin> D) t" using t by metis
      moreover have "cstr_of (drop (?s + ?m) buf) = drop 1 (dropWhile (\<lambda>c. c \<notin> D) t)" unfolding dr n by (rule drop_Nil [symmetric])
      ultimately show ?thesis by blast
    next
      case False
      with ne z assms(1,2) have "strtok_r buf str delim sp = (Some ?s, Some (?s + ?m + 1), buf[?s + ?m := 0])"
        by (auto simp: strtok_r_def Let_def split: option.splits)
      moreover have "?m < length t"
        using False y m takeWhile_dropWhile_id [of "\<lambda>c. c \<notin> D" t] by (metis length_append length_greater_0_conv less_add_same_cancel1)
      then have "cstr_of (drop ?s (buf[?s + ?m := 0])) = take ?m t"
        using cstr_of_cut [of ?m "drop ?s buf"] t by (simp add: drop_update_swap)
      moreover have "drop (?s + ?m + 1) (buf[?s + ?m := 0]) = drop 1 (drop (?s + ?m) buf)" by (simp add: drop_update_cancel)
      then have "cstr_of (drop (?s + ?m + 1) (buf[?s + ?m := 0])) = drop 1 (dropWhile (\<lambda>c. c \<notin> D) t)"
        using cstr_of_drop [of 1 "drop (?s + ?m) buf"] dr False y by (cases "dropWhile (\<lambda>c. c \<notin> D) t") auto
      ultimately show ?thesis by (simp add: m takeWhile_eq_take [symmetric])
    qed
  qed
qed

lemma tokens_skip: "c \<in> D \<Longrightarrow> tokens D (c # s) = tokens D s"
  by (subst (1 2) tokens.simps) simp

lemma tokens_drop1: "tokens D (drop 1 (dropWhile (\<lambda>c. c \<notin> D) t)) = tokens D (dropWhile (\<lambda>c. c \<notin> D) t)"
proof (cases "dropWhile (\<lambda>c. c \<notin> D) t")
  case (Cons c s)
  then have "c \<in> D" using hd_dropWhile [of "\<lambda>c. c \<notin> D" t] by simp
  with Cons show ?thesis by (simp add: tokens_skip)
qed (simp only: drop_Nil)

lemma strtok_all_tokens:
  "(case str of None \<Rightarrow> sp | Some p \<Rightarrow> Some p) = Some p \<Longrightarrow>
     strtok_all buf str delim sp = Some (tokens (set (cstr_of delim)) (cstr_of (drop p buf)))"
proof (induction "length (cstr_of (drop p buf))" arbitrary: p buf str sp rule: less_induct)
  case less
  let ?D = "set (cstr_of delim)" and ?t = "dropWhile (\<lambda>c. c \<in> set (cstr_of delim)) (cstr_of (drop p buf))"
  note step = strtok_step [OF less.prems [symmetric] refl, of delim buf]
  show ?case
  proof (cases "?t = []")
    case True
    with step(1) obtain sp' where "strtok_r buf str delim sp = (None, sp', buf)" by blast
    with True show ?thesis by (subst strtok_all.simps) (simp add: tokens.simps [of ?D "cstr_of (drop p buf)"])
  next
    case False
    with step(2) obtain tok p' buf' where s: "strtok_r buf str delim sp = (Some tok, Some p', buf')"
      "cstr_of (drop tok buf') = takeWhile (\<lambda>c. c \<notin> ?D) ?t" "cstr_of (drop p' buf') = drop 1 (dropWhile (\<lambda>c. c \<notin> ?D) ?t)" by blast
    have "length (cstr_of (drop p' buf')) < length ?t"
      using False length_dropWhile_le [of "\<lambda>c. c \<notin> ?D" "tl ?t"] hd_dropWhile [OF False] unfolding s(3)
      by (cases ?t) auto
    also have "\<dots> \<le> length (cstr_of (drop p buf))" by (rule length_dropWhile_le)
    finally have "strtok_all buf' None delim (Some p') = Some (tokens ?D (cstr_of (drop p' buf')))" by (intro less.hyps) simp_all
    then have "strtok_all buf' None delim (Some p') = Some (tokens ?D (dropWhile (\<lambda>c. c \<notin> ?D) ?t))"
      unfolding s(3) by (simp only: tokens_drop1)
    moreover have "tokens ?D (cstr_of (drop p buf)) = takeWhile (\<lambda>c. c \<notin> ?D) ?t # tokens ?D (dropWhile (\<lambda>c. c \<notin> ?D) ?t)"
      using False by (subst tokens.simps) (simp only: Let_def if_False)
    ultimately show ?thesis using s(1,2) by (subst strtok_all.simps) simp
  qed
qed

text \<open>Calling \<open>strtok_r\<close> on a string until it returns null ends, and gives exactly the maximal runs of characters
  that are not delimiters, in order: leading, trailing and repeated delimiters produce no empty token.
\<close>

theorem strtok_r_tokens: "strtok_all buf (Some 0) delim sp = Some (tokens (set (cstr_of delim)) (cstr_of buf))"
  using strtok_all_tokens [of sp "Some 0" 0 buf delim] by simp

end
