(* ===== verification/KFormat.thy ===== *)
theory KFormat
  imports KString
begin

text \<open>
  \<open>libc/stdio.c\<close> and \<open>libc/format.c\<close>: the three formatters and the routines built on them. The variable arguments
  are a list of typed values; fetching one of another type than the next in the list is undefined behaviour, the
  value \<open>None\<close>, and so are a null pointer for \<open>%s\<close> in \<open>printf\<close> and a read behind the terminator of the format, which
  a format that ends inside a directive causes. \<open>ftoa\<close>, floating point arithmetic, is a parameter. \<open>printf\<close> is the
  sequence of its \<open>kprint_char\<close> calls, a buffer is its array of bytes. The count of characters is a natural number:
  outputs of \<open>2 ^ 64\<close> characters are out of reach.
\<close>

section \<open>Arguments and the format pointer\<close>

datatype 'd varg = Arg32 u32 | Arg64 u64 | ArgPtr u64 | ArgDouble 'd | ArgStr "u8 list option"

fun arg32 :: "'d varg list \<Rightarrow> (u32 \<times> 'd varg list) option" where
  "arg32 (Arg32 v # args) = Some (v, args)"
| "arg32 _ = None"

fun arg64 :: "'d varg list \<Rightarrow> (u64 \<times> 'd varg list) option" where
  "arg64 (Arg64 v # args) = Some (v, args)"
| "arg64 _ = None"

fun arg_ptr :: "'d varg list \<Rightarrow> (u64 \<times> 'd varg list) option" where
  "arg_ptr (ArgPtr v # args) = Some (v, args)"
| "arg_ptr _ = None"

fun arg_double :: "'d varg list \<Rightarrow> ('d \<times> 'd varg list) option" where
  "arg_double (ArgDouble v # args) = Some (v, args)"
| "arg_double _ = None"

fun arg_str :: "'d varg list \<Rightarrow> (u8 list option \<times> 'd varg list) option" where
  "arg_str (ArgStr v # args) = Some (v, args)"
| "arg_str _ = None"

text \<open>\<open>format++\<close>: nothing behind the terminator may be read.\<close>

definition next_char :: "u8 list \<Rightarrow> u8 list option" where
  "next_char fmt = (case fmt of [] \<Rightarrow> None | _ # f \<Rightarrow> Some f)"

text \<open>The text that \<open>itoa\<close> leaves in a local buffer.\<close>

definition itoa_str :: "u64 \<Rightarrow> int \<Rightarrow> u8 list" where
  "itoa_str v base = cstr_of (itoa v (replicate 72 0) base)"

definition upper_str :: "u8 list \<Rightarrow> u8 list" where
  "upper_str = map (\<lambda>c. of_int (toupper (char_int c)))"

section \<open>printf and sprintf\<close>

text \<open>The directive after a \<open>%\<close>, the same chain of tests in both functions: the characters emitted, the rest of the
  format and of the arguments.\<close>

definition long_directive :: "u8 \<Rightarrow> 'd varg list \<Rightarrow> (u8 list \<times> 'd varg list) option" where
  "long_directive c args =
     (if c = 0x64 then do { (v, args) \<leftarrow> arg64 args; Some (itoa_str v 10, args) }
      else if c = 0x75 then do { (v, args) \<leftarrow> arg64 args; Some (itoa_str v 10, args) }
      else if c = 0x78 then do { (v, args) \<leftarrow> arg64 args; Some (itoa_str v 16, args) }
      else if c = 0x6F then do { (v, args) \<leftarrow> arg64 args; Some (itoa_str v 8, args) }
      else Some ([], args))"

definition short_directive :: "('d \<Rightarrow> u8 list) \<Rightarrow> u8 \<Rightarrow> 'd varg list \<Rightarrow> (u8 list \<times> 'd varg list) option" where
  "short_directive ftoa c args =
     (if c = 0x64 then do { (v, args) \<leftarrow> arg32 args; Some (itoa_str (scast v) 10, args) }
      else if c = 0x75 then do { (v, args) \<leftarrow> arg32 args; Some (itoa_str (ucast v) 10, args) }
      else if c = 0x78 then do { (v, args) \<leftarrow> arg32 args; Some (itoa_str (ucast v) 16, args) }
      else if c = 0x58 then do { (v, args) \<leftarrow> arg32 args; Some (upper_str (itoa_str (ucast v) 16), args) }
      else if c = 0x6F then do { (v, args) \<leftarrow> arg32 args; Some (itoa_str (ucast v) 8, args) }
      else if c = 0x66 then do { (v, args) \<leftarrow> arg_double args; Some (ftoa v, args) }
      else if c = 0x70 then do { (v, args) \<leftarrow> arg_ptr args; Some ([0x30, 0x78] @ itoa_str v 16, args) }
      else if c = 0x63 then do { (v, args) \<leftarrow> arg32 args; Some ([ucast v], args) }
      else if c = 0x73 then
        do { (v, args) \<leftarrow> arg_str args; (case v of None \<Rightarrow> None | Some v \<Rightarrow> Some (cstr_of v, args)) }
      else if c = 0x25 then Some ([0x25], args)
      else Some ([], args))"

definition directive :: "('d \<Rightarrow> u8 list) \<Rightarrow> u8 list \<Rightarrow> 'd varg list \<Rightarrow> (u8 list \<times> u8 list \<times> 'd varg list) option" where
  "directive ftoa fmt args =
     (if cstr_at fmt 0 = 0x6C then
        do { f \<leftarrow> next_char fmt; (t, args) \<leftarrow> long_directive (cstr_at f 0) args; f \<leftarrow> next_char f; Some (t, f, args) }
      else do { (t, args) \<leftarrow> short_directive ftoa (cstr_at fmt 0) args; f \<leftarrow> next_char fmt; Some (t, f, args) })"

lemma next_char_shorter: "next_char fmt = Some f \<Longrightarrow> length f < length fmt"
  by (auto simp: next_char_def split: list.splits)

lemma directive_shorter: "directive ftoa fmt args = Some (t, f, args') \<Longrightarrow> length f < length fmt"
  by (auto simp: directive_def split: if_splits bind_splits dest!: next_char_shorter)

text \<open>The characters that \<open>printf\<close> prints.\<close>

function printf :: "('d \<Rightarrow> u8 list) \<Rightarrow> u8 list \<Rightarrow> 'd varg list \<Rightarrow> u8 list option" where
  "printf ftoa [] args = Some []"
| "printf ftoa (c # fmt) args =
     (if c = 0 then Some []
      else if c = 0x25 then
        (case directive ftoa fmt args of
           None \<Rightarrow> None
         | Some (t, f, args') \<Rightarrow> do { out \<leftarrow> printf ftoa f args'; Some (t @ out) })
      else do { out \<leftarrow> printf ftoa fmt args; Some (c # out) })"
  by pat_completeness auto
termination
  by (relation "measure (\<lambda>(ftoa, fmt, args). length fmt)") (auto dest!: directive_shorter)

text \<open>\<open>for (p = buf; *p; p++) *s++ = *p\<close>\<close>

definition put_text :: "u8 list \<Rightarrow> nat \<Rightarrow> u8 list \<Rightarrow> u8 list" where
  "put_text s pos t = take pos s @ t @ drop (pos + length t) s"

function sprintf_from :: "('d \<Rightarrow> u8 list) \<Rightarrow> u8 list \<Rightarrow> nat \<Rightarrow> u8 list \<Rightarrow> 'd varg list \<Rightarrow> (u8 list \<times> nat) option" where
  "sprintf_from ftoa s pos [] args = Some (s[pos := 0], pos)"
| "sprintf_from ftoa s pos (c # fmt) args =
     (if c = 0 then Some (s[pos := 0], pos)
      else if c = 0x25 then
        (case directive ftoa fmt args of
           None \<Rightarrow> None
         | Some (t, f, args') \<Rightarrow> sprintf_from ftoa (put_text s pos t) (pos + length t) f args')
      else sprintf_from ftoa (s[pos := c]) (pos + 1) fmt args)"
  by pat_completeness auto
termination
  by (relation "measure (\<lambda>(ftoa, s, pos, fmt, args). length fmt)") (auto dest!: directive_shorter)

definition sprintf :: "('d \<Rightarrow> u8 list) \<Rightarrow> u8 list \<Rightarrow> u8 list \<Rightarrow> 'd varg list \<Rightarrow> (int \<times> u8 list) option" where
  "sprintf ftoa s fmt args = map_option (\<lambda>(s, pos). (int32 pos, s)) (sprintf_from ftoa s 0 fmt args)"

section \<open>vsnprintf\<close>

text \<open>The macros \<open>_EC\<close> and \<open>_EMIT_PADDED\<close>; the state is the buffer and \<open>total\<close>.\<close>

definition emit_char :: "nat \<Rightarrow> u8 list \<times> nat \<Rightarrow> u8 \<Rightarrow> u8 list \<times> nat" where
  "emit_char n st c = (let (s, count) = st in (if n > 1 \<and> count < n - 1 then s[count := c] else s, count + 1))"

definition emit_chars :: "nat \<Rightarrow> u8 list \<Rightarrow> u8 list \<times> nat \<Rightarrow> u8 list \<times> nat" where
  "emit_chars n cs st = foldl (emit_char n) st cs"

definition emit_padded :: "nat \<Rightarrow> u8 list \<Rightarrow> int \<Rightarrow> bool \<Rightarrow> bool \<Rightarrow> u8 list \<times> nat \<Rightarrow> u8 list \<times> nat" where
  "emit_padded n v width zero_pad left_align st =
     (let vl = int (length v);
          st = (if \<not> left_align \<and> vl < width
                then emit_chars n (replicate (nat (width - vl)) (if zero_pad then 0x30 else 0x20)) st else st);
          st = emit_chars n v st
      in if left_align \<and> vl < width then emit_chars n (replicate (nat (width - vl)) 0x20) st else st)"

fun parse_flags :: "u8 list \<Rightarrow> bool \<Rightarrow> bool \<Rightarrow> u8 list \<times> bool \<times> bool" where
  "parse_flags [] left_align zero_pad = ([], left_align, zero_pad)"
| "parse_flags (c # fmt) left_align zero_pad =
     (if c = 0x2D then parse_flags fmt True False
      else if c = 0x30 \<and> \<not> left_align then parse_flags fmt left_align True
      else (c # fmt, left_align, zero_pad))"

text \<open>\<open>width\<close> is an \<open>int\<close>.\<close>

fun parse_width :: "u8 list \<Rightarrow> int \<Rightarrow> u8 list \<times> int" where
  "parse_width [] width = ([], width)"
| "parse_width (c # fmt) width =
     (if digit_byte c then parse_width fmt (sint (of_int (width * 10 + (char_int c - 48)) :: 32 word)) else (c # fmt, width))"

text \<open>An integer argument of either size, widened to 64 bits.\<close>

definition arg_int :: "bool \<Rightarrow> bool \<Rightarrow> 'd varg list \<Rightarrow> (u64 \<times> 'd varg list) option" where
  "arg_int is_signed is_long args =
     (if is_long then arg64 args
      else do { (v, args) \<leftarrow> arg32 args; Some (if is_signed then scast v else ucast v, args) })"

definition conversion :: "('d \<Rightarrow> u8 list) \<Rightarrow> u8 \<Rightarrow> bool \<Rightarrow> 'd varg list \<Rightarrow> (u8 list \<times> 'd varg list) option" where
  "conversion ftoa c is_long args =
     (if c = 0x64 then do { (v, args) \<leftarrow> arg_int True is_long args; Some (itoa_str v 10, args) }
      else if c = 0x75 then do { (v, args) \<leftarrow> arg_int False is_long args; Some (itoa_str v 10, args) }
      else if c = 0x78 then do { (v, args) \<leftarrow> arg_int False is_long args; Some (itoa_str v 16, args) }
      else if c = 0x58 then do { (v, args) \<leftarrow> arg_int False is_long args; Some (upper_str (itoa_str v 16), args) }
      else if c = 0x6F then do { (v, args) \<leftarrow> arg_int False is_long args; Some (itoa_str v 8, args) }
      else if c = 0x66 then do { (v, args) \<leftarrow> arg_double args; Some (ftoa v, args) }
      else if c = 0x70 then do { (v, args) \<leftarrow> arg_ptr args; Some ([0x30, 0x78] @ itoa_str v 16, args) }
      else if c = 0x63 then do { (v, args) \<leftarrow> arg32 args; Some (cstr_of [ucast v], args) }
      else if c = 0x73 then
        do { (v, args) \<leftarrow> arg_str args;
             Some (case v of None \<Rightarrow> [0x28, 0x6E, 0x75, 0x6C, 0x6C, 0x29] | Some v \<Rightarrow> cstr_of v, args) }
      else if c = 0x25 then Some ([0x25], args)
      else Some (cstr_of [0x25, c], args))"

text \<open>One directive: the value string with its width and flags, the rest of the format and of the arguments.\<close>

record spec_text =
  sp_val :: "u8 list"
  sp_width :: int
  sp_zero :: bool
  sp_left :: bool

definition format_spec :: "('d \<Rightarrow> u8 list) \<Rightarrow> u8 list \<Rightarrow> 'd varg list \<Rightarrow> (spec_text \<times> u8 list \<times> 'd varg list) option" where
  "format_spec ftoa fmt args =
     (let (fmt, left_align, zero_pad) = parse_flags fmt False False;
          (fmt, width) = parse_width fmt 0;
          (is_long, fmt) = (if cstr_at fmt 0 = 0x6C then (True, tl fmt) else (False, fmt))
      in do {
        (v, args) \<leftarrow> conversion ftoa (cstr_at fmt 0) is_long args;
        f \<leftarrow> next_char fmt;
        Some (\<lparr>sp_val = v, sp_width = width, sp_zero = zero_pad, sp_left = left_align\<rparr>, f, args)
      })"

lemma parse_flags_le: "length (fst (parse_flags fmt l z)) \<le> length fmt"
  by (induction fmt l z rule: parse_flags.induct) auto

lemma parse_width_le: "length (fst (parse_width fmt w)) \<le> length fmt"
  by (induction fmt w rule: parse_width.induct) auto

lemma format_spec_shorter: "format_spec ftoa fmt args = Some (sp, f, args') \<Longrightarrow> length f < length fmt"
  using parse_flags_le [of fmt False False] parse_width_le [of "fst (parse_flags fmt False False)" 0]
  by (fastforce simp: format_spec_def Let_def split: if_splits prod.splits bind_splits dest!: next_char_shorter)

function vsnprintf_loop :: "('d \<Rightarrow> u8 list) \<Rightarrow> nat \<Rightarrow> u8 list \<times> nat \<Rightarrow> u8 list \<Rightarrow> 'd varg list \<Rightarrow> (u8 list \<times> nat) option" where
  "vsnprintf_loop ftoa n st [] args = Some st"
| "vsnprintf_loop ftoa n st (c # fmt) args =
     (if c = 0 then Some st
      else if c \<noteq> 0x25 then vsnprintf_loop ftoa n (emit_char n st c) fmt args
      else (case format_spec ftoa fmt args of
              None \<Rightarrow> None
            | Some (sp, f, args') \<Rightarrow>
                vsnprintf_loop ftoa n (emit_padded n (sp_val sp) (sp_width sp) (sp_zero sp) (sp_left sp) st) f args'))"
  by pat_completeness auto
termination
  by (relation "measure (\<lambda>(ftoa, n, st, fmt, args). length fmt)") (auto dest!: format_spec_shorter)

definition vsnprintf :: "('d \<Rightarrow> u8 list) \<Rightarrow> u8 list \<Rightarrow> nat \<Rightarrow> u8 list \<Rightarrow> 'd varg list \<Rightarrow> (int \<times> u8 list) option" where
  "vsnprintf ftoa s n fmt args =
     (case vsnprintf_loop ftoa n (s, 0) fmt args of
        None \<Rightarrow> None
      | Some (s, count) \<Rightarrow>
          Some (int32 count, if n > 0 then s[if count < n then count else n - 1 := 0] else s))"

definition snprintf :: "('d \<Rightarrow> u8 list) \<Rightarrow> u8 list \<Rightarrow> nat \<Rightarrow> u8 list \<Rightarrow> 'd varg list \<Rightarrow> (int \<times> u8 list) option" where
  "snprintf ftoa s n fmt args = vsnprintf ftoa s n fmt args"


section \<open>The formatting helpers\<close>

text \<open>Integers and strings only: no directive of these formats reads a \<open>double\<close>.\<close>

definition lit :: "string \<Rightarrow> u8 list" where "lit = map of_char"

definition no_double :: "unit \<Rightarrow> u8 list" where "no_double x = []"

definition hx :: "u8 \<Rightarrow> u8" where "hx b = lit ''0123456789abcdef'' ! unat b"

definition print_hex_byte :: "u8 \<Rightarrow> u8 list option" where
  "print_hex_byte b = printf no_double (lit ''%s'') [ArgStr (Some [hx (drop_bit 4 b), hx (b AND 0xf), 0])]"

text \<open>The sequence of several calls that print.\<close>

fun print_all :: "u8 list option list \<Rightarrow> u8 list option" where
  "print_all [] = Some []"
| "print_all (x # xs) = do { a \<leftarrow> x; b \<leftarrow> print_all xs; Some (a @ b) }"

definition hex_dump_line :: "u8 list \<Rightarrow> nat \<Rightarrow> nat \<Rightarrow> u8 list option" where
  "hex_dump_line p len i =
     do {
       (rc, off) \<leftarrow> snprintf no_double (replicate 12 0) 12 (lit ''%08lx'') [Arg64 (of_nat i)];
       head \<leftarrow> printf no_double (lit ''%s  '') [ArgStr (Some off)];
       hex \<leftarrow> print_all (concat (map (\<lambda>j.
          [if i + j < len then print_hex_byte (p ! (i + j)) else printf no_double (lit ''  '') [],
           printf no_double (lit '' '') []] @ (if j = 7 then [printf no_double (lit '' '') []] else [])) [0 ..< 16]));
       bar \<leftarrow> printf no_double (lit ''|'') [];
       asc \<leftarrow> print_all (map (\<lambda>j. let c = p ! (i + j) in
          printf no_double (lit ''%s'') [ArgStr (Some [if c \<ge> 0x20 \<and> c < 0x7f then c else 0x2E, 0])]) [0 ..< min 16 (len - i)]);
       tail \<leftarrow> printf no_double (lit ''|'' @ [0x0A]) [];
       Some (head @ hex @ bar @ asc @ tail)
     }"

definition hex_dump :: "u8 list \<Rightarrow> nat \<Rightarrow> u8 list option" where
  "hex_dump buf len = print_all (map (\<lambda>k. hex_dump_line buf len (16 * k)) [0 ..< (len + 15) div 16])"

text \<open>\<open>while (v >= 1024 && u < 4)\<close>\<close>

fun size_unit :: "nat \<Rightarrow> nat \<Rightarrow> nat \<Rightarrow> nat" where
  "size_unit 0 v u = u"
| "size_unit (Suc k) v u = (if v \<ge> 1024 then size_unit k (v div 1024) (u + 1) else u)"

definition size_units :: "u8 list list" where
  "size_units = [lit ''B'', lit ''KB'', lit ''MB'', lit ''GB'', lit ''TB'']"

definition fmt_size :: "u64 \<Rightarrow> u8 list \<Rightarrow> nat \<Rightarrow> u8 list option" where
  "fmt_size bytes out sz =
     (let u = size_unit 4 (unat bytes) 0 in
      if u = 0 then map_option snd (snprintf no_double out sz (lit ''%lu B'') [Arg64 bytes])
      else
        let whole = unat bytes div 1024 ^ u;
            rem = unat bytes div 1024 ^ (u - 1);
            rem = ((rem mod 1024) * 100) div 1024
        in map_option snd (snprintf no_double out sz (lit ''%lu.%02lu %s'')
             [Arg64 (of_nat whole), Arg64 (of_nat rem), ArgStr (Some (size_units ! u))]))"

text \<open>The address is in network byte order: its bytes in memory order.\<close>

definition fmt_ip4 :: "u32 \<Rightarrow> u8 list \<Rightarrow> nat \<Rightarrow> u8 list option" where
  "fmt_ip4 ip_be out sz =
     (let b = \<lambda>i. Arg32 (drop_bit (8 * i) ip_be AND 0xFF) in
      map_option snd (snprintf no_double out sz (lit ''%d.%d.%d.%d'') [b 0, b 1, b 2, b 3]))"

definition fmt_mac :: "u8 list \<Rightarrow> u8 list \<Rightarrow> nat \<Rightarrow> u8 list" where
  "fmt_mac mac out sz =
     (if sz < 18 then out
      else put_text out 0 (concat (map (\<lambda>i. [hx (drop_bit 4 (mac ! i)), hx (mac ! i AND 0xf), if i < 5 then 0x3A else 0]) [0 ..< 6])))"

definition fmt_uptime :: "nat \<Rightarrow> u8 list \<Rightarrow> nat \<Rightarrow> u8 list option" where
  "fmt_uptime ms out sz =
     (let s = ms div 1000; mi = s div 60; s = s mod 60; hr = mi div 60; mi = mi mod 60; day = hr div 24; hr = hr mod 24;
          a = \<lambda>x. Arg64 (of_nat x)
      in map_option snd
           (if day \<noteq> 0 then snprintf no_double out sz (lit ''%lud %02luh %02lum %02lus'') [a day, a hr, a mi, a s]
            else if hr \<noteq> 0 then snprintf no_double out sz (lit ''%luh %02lum %02lus'') [a hr, a mi, a s]
            else snprintf no_double out sz (lit ''%lum %02lus'') [a mi, a s]))"

text \<open>The loop stores two digits per byte while they and the terminator fit; the terminator is always stored.\<close>

function hexstr_from :: "u8 list \<Rightarrow> nat \<Rightarrow> u8 list \<Rightarrow> nat \<Rightarrow> nat \<Rightarrow> u8 list" where
  "hexstr_from buf len out sz i =
     (if i < len \<and> i * 2 + 2 < sz then
        hexstr_from buf len (out[i * 2 := hx (drop_bit 4 (buf ! i)), i * 2 + 1 := hx (buf ! i AND 0xf)]) sz (i + 1)
      else out[i * 2 := 0])"
  by pat_completeness auto
termination
  by (relation "measure (\<lambda>(buf, len, out, sz, i). len - i)") auto

declare hexstr_from.simps [simp del]

definition fmt_hexstr :: "u8 list \<Rightarrow> nat \<Rightarrow> u8 list \<Rightarrow> nat \<Rightarrow> u8 list" where
  "fmt_hexstr buf len out sz = hexstr_from buf len out sz 0"

section \<open>The text and its truncation\<close>

text \<open>The whole text that a format produces, independent of any buffer.\<close>

definition padded :: "u8 list \<Rightarrow> int \<Rightarrow> bool \<Rightarrow> bool \<Rightarrow> u8 list" where
  "padded v width zero_pad left_align =
     (let pad = nat (width - int (length v)) in
      if left_align then v @ replicate pad 0x20 else replicate pad (if zero_pad then 0x30 else 0x20) @ v)"

function format_text :: "('d \<Rightarrow> u8 list) \<Rightarrow> u8 list \<Rightarrow> 'd varg list \<Rightarrow> u8 list option" where
  "format_text ftoa [] args = Some []"
| "format_text ftoa (c # fmt) args =
     (if c = 0 then Some []
      else if c \<noteq> 0x25 then do { out \<leftarrow> format_text ftoa fmt args; Some (c # out) }
      else (case format_spec ftoa fmt args of
              None \<Rightarrow> None
            | Some (sp, f, args') \<Rightarrow>
                do { out \<leftarrow> format_text ftoa f args';
                     Some (padded (sp_val sp) (sp_width sp) (sp_zero sp) (sp_left sp) @ out) }))"
  by pat_completeness auto
termination
  by (relation "measure (\<lambda>(ftoa, fmt, args). length fmt)") (auto dest!: format_spec_shorter)

text \<open>The buffer after the characters \<open>out\<close>: the first \<open>n - 1\<close> of them at its start.\<close>

definition window :: "nat \<Rightarrow> u8 list \<Rightarrow> u8 list \<Rightarrow> u8 list" where
  "window n s out = take (n - 1) out @ drop (length (take (n - 1) out)) s"

lemma emit_char_window:
  assumes "n \<le> length s"
  shows "emit_char n (window n s out, length out) c = (window n s (out @ [c]), length (out @ [c]))"
proof (cases "length out < n - 1")
  case True
  then have "window n s out = out @ s ! length out # drop (Suc (length out)) s"
    using assms by (simp add: window_def Cons_nth_drop_Suc)
  moreover have "1 < n" using True by linarith
  ultimately show ?thesis using True by (simp add: emit_char_def window_def list_update_append)
qed (simp add: emit_char_def window_def)

lemma emit_chars_window:
  "n \<le> length s \<Longrightarrow> k = length out \<Longrightarrow> emit_chars n cs (window n s out, k) = (window n s (out @ cs), k + length cs)"
proof (induction cs arbitrary: out k)
  case (Cons c cs)
  then show ?case using Cons.IH [of "k + 1" "out @ [c]"] by (simp add: emit_chars_def emit_char_window)
qed (simp add: emit_chars_def)

lemma emit_padded_window:
  "n \<le> length s \<Longrightarrow> emit_padded n v width z l (window n s out, length out) =
     (window n s (out @ padded v width z l), length (out @ padded v width z l))"
  by (simp add: emit_padded_def padded_def Let_def emit_chars_window)

lemma vsnprintf_loop_window:
  "n \<le> length s \<Longrightarrow> vsnprintf_loop ftoa n (window n s out, length out) fmt args =
     map_option (\<lambda>t. (window n s (out @ t), length (out @ t))) (format_text ftoa fmt args)"
proof (induction ftoa fmt args arbitrary: out rule: format_text.induct)
  case (2 ftoa c fmt args)
  show ?case
  proof (cases "c = 0x25")
    case True
    show ?thesis
    proof (cases "format_spec ftoa fmt args")
      case (Some x)
      obtain sp f args' where x: "x = (sp, f, args')" by (cases x) auto
      let ?p = "padded (sp_val sp) (sp_width sp) (sp_zero sp) (sp_left sp)"
      from "2.IH"(2) [OF _ _ Some x [symmetric] refl "2.prems", of "out @ ?p"] Some x True show ?thesis
        by (cases "format_text ftoa f args'") (simp_all add: emit_padded_window [OF "2.prems"])
    qed (use True in simp)
  next
    case False
    show ?thesis
    proof (cases "c = 0")
      case False
      from "2.IH"(1) [OF this \<open>c \<noteq> 0x25\<close> "2.prems", of "out @ [c]"] False \<open>c \<noteq> 0x25\<close> show ?thesis
        by (cases "format_text ftoa fmt args") (simp_all add: emit_char_window [OF "2.prems"])
    qed simp
  qed
qed simp

text \<open>C35: \<open>snprintf\<close> into a buffer of \<open>n\<close> bytes is the text of the format cut to the buffer: with \<open>n > 0\<close> the buffer
  holds the first \<open>n - 1\<close> characters (all of them when they fit) and a terminator, bytes from \<open>n\<close> on and behind the
  terminator keep their values, with \<open>n = 0\<close> nothing is written, and in every case the full length is returned.
\<close>

theorem snprintf_truncates:
  assumes "n \<le> length s"
  shows "snprintf ftoa s n fmt args =
    map_option (\<lambda>out. (int32 (length out),
      if n = 0 then s else take (n - 1) out @ 0 # drop (length (take (n - 1) out) + 1) s)) (format_text ftoa fmt args)"
proof -
  have w: "window n s [] = s" "window 0 s t = s" for t by (simp_all add: window_def)
  have u: "(window n s t)[if length t < n then length t else n - 1 := 0] =
      take (n - 1) t @ 0 # drop (length (take (n - 1) t) + 1) s" if n: "n > 0" for t
  proof -
    have k: "(if length t < n then length t else n - 1) = length (take (n - 1) t)" using n by auto
    have "length (take (n - 1) t) < length s" using n assms by auto
    then have "drop (length (take (n - 1) t)) s = s ! length (take (n - 1) t) # drop (length (take (n - 1) t) + 1) s"
      by (simp only: Cons_nth_drop_Suc [symmetric] Suc_eq_plus1)
    then show ?thesis unfolding k window_def by (simp only: list_update_append list_update_length if_False less_irrefl diff_self_eq_0 list_update_code)
  qed
  show ?thesis using vsnprintf_loop_window [OF assms, of ftoa "[]" fmt args] u
    by (cases "format_text ftoa fmt args") (auto simp: snprintf_def vsnprintf_def w)
qed

theorem snprintf_truncates_witness:
  "snprintf (\<lambda>_. []) ([7, 7, 7, 7, 7, 7]) 4 [0x61, 0x25, 0x73, 0x21] [ArgStr (Some [0x62, 0x63]) :: unit varg] =
     Some (4, [0x61, 0x62, 0x63, 0, 7, 7])"
  using snprintf_truncates [of 4 "[7, 7, 7, 7, 7, 7]" "\<lambda>_. []" "[0x61, 0x25, 0x73, 0x21]" "[ArgStr (Some [0x62, 0x63]) :: unit varg]"]
  by (simp add: format_spec_def conversion_def next_char_def padded_def cstr_at_def cstr_of_def digit_byte_def char_int_def isdigit_def int32_def)


section \<open>What the directives print\<close>

lemma radix_length: "2 \<le> b \<Longrightarrow> n < b ^ Suc k \<Longrightarrow> length (radix b n) \<le> Suc k"
proof (induction k arbitrary: n)
  case 0
  then show ?case by (subst radix.simps) simp
next
  case (Suc k)
  have "n < b ^ Suc k * b" using Suc.prems(2) by (simp add: mult.commute mult.left_commute)
  then have "n div b < b ^ Suc k" by (rule less_mult_imp_div_less)
  from Suc.IH [OF Suc.prems(1) this] show ?case by (subst radix.simps) simp
qed

lemma digit_text_nonzero: "k < 36 \<Longrightarrow> digit_text k \<noteq> 0"
proof -
  assume "k < 36"
  then have "unat (of_nat (48 + k) :: u8) = 48 + k" "unat (of_nat (87 + k) :: u8) = 87 + k" by (subst unat_of_nat, simp)+
  then show ?thesis unfolding digit_text_def by (metis add_is_0 unat_0 zero_neq_numeral)
qed

lemma radix_less: "2 \<le> b \<Longrightarrow> d \<in> set (radix b n) \<Longrightarrow> d < b"
proof (induction n rule: less_induct)
  case (less n)
  show ?case
  proof (cases "n < b")
    case False
    then have "radix b n = n mod b # radix b (n div b)" using less.prems by (subst radix.simps) simp
    with less.IH [of "n div b"] less.prems False show ?thesis by auto
  qed (use less.prems in \<open>auto simp: radix.simps [of b n]\<close>)
qed

text \<open>The text of a converted integer, in any base and for every 64-bit value.\<close>

lemma itoa_str_eq:
  assumes "2 \<le> base" "base \<le> 36"
  shows "itoa_str v base = itoa_text base (sint v)"
proof -
  let ?n = "nat \<bar>sint v\<bar>" and ?b = "nat base"
  have "- (2 ^ 63) \<le> sint v" "sint v < 2 ^ 63" using sint_greater_eq [of v] sint_less [of v] by simp_all
  then have "?n < 2 ^ Suc 63" by simp
  also have "(2 :: nat) ^ Suc 63 \<le> ?b ^ Suc 63" using assms by (intro power_mono) simp_all
  finally have "length (radix ?b ?n) \<le> Suc 63" using assms by (intro radix_length) simp_all
  moreover have "length (itoa_text base x) \<le> 1 + length (radix ?b (nat \<bar>x\<bar>))" for x by (auto simp: itoa_text_def)
  from this [of "sint v"] have "length (itoa_text base (sint v)) \<le> 1 + length (radix ?b ?n)" .
  ultimately have "length (itoa_text base (sint v)) < length (replicate 72 (0 :: u8))" by simp
  from itoa_spec [OF assms this] have s: "itoa v (replicate 72 0) base =
      itoa_text base (sint v) @ 0 # drop (length (itoa_text base (sint v)) + 1) (replicate 72 0)" .
  have "0 \<notin> set (itoa_text base (sint v))"
    using radix_less [of ?b _ ?n] digit_text_nonzero assms by (fastforce simp: itoa_text_def)
  then show ?thesis unfolding itoa_str_def s by (simp add: cstr_of_def takeWhile_append)
qed

text \<open>The sign is only written in base ten: an unsigned 64-bit value of \<open>2 ^ 63\<close> or more prints as a negative number
  with \<open>%lu\<close> and as the digits of its negation with \<open>%lx\<close> or \<open>%p\<close>.\<close>

lemma unsigned_conversion_wrong: "itoa_str (- 1) 16 = [0x31] \<and> itoa_str (- 1) 10 = [0x2D, 0x31]"
proof -
  have "radix 16 1 = [1]" "radix 10 1 = [1]" by (subst radix.simps, simp)+
  then show ?thesis by (simp add: itoa_str_eq itoa_text_def digit_text_def)
qed

text \<open>A format that ends in \<open>%\<close> makes every formatter step over the terminator.\<close>

lemma trailing_percent: "printf ftoa [0x25] args = None \<and> format_text ftoa [0x25] args = None"
  by (simp add: directive_def short_directive_def format_spec_def conversion_def next_char_def cstr_at_def)

text \<open>\<open>sprintf\<close> stores what \<open>printf\<close> prints.\<close>

lemma sprintf_from_printf:
  "pos \<le> length s \<Longrightarrow> printf ftoa fmt args = Some out \<Longrightarrow> pos + length out < length s \<Longrightarrow>
     sprintf_from ftoa s pos fmt args =
       Some (take pos s @ out @ 0 # drop (pos + length out + 1) s, pos + length out)"
proof (induction ftoa s pos fmt args arbitrary: out rule: sprintf_from.induct)
  case (1 ftoa s pos args)
  then show ?case by (simp add: upd_conv_take_nth_drop)
next
  case (2 ftoa s pos c fmt args)
  consider (stop) "c = 0" | (dir) "c = 0x25" | (plain) "c \<noteq> 0" "c \<noteq> 0x25" by blast
  then show ?case
  proof cases
    case stop
    with "2.prems" show ?thesis by (simp add: upd_conv_take_nth_drop)
  next
    case dir
    with "2.prems"(2) obtain t f args' out' where d: "directive ftoa fmt args = Some (t, f, args')"
      "printf ftoa f args' = Some out'" "out = t @ out'" by (auto split: option.splits bind_splits)
    have "sprintf_from ftoa (put_text s pos t) (pos + length t) f args' =
        Some (take (pos + length t) (put_text s pos t) @ out' @ 0 # drop (pos + length t + length out' + 1) (put_text s pos t),
              pos + length t + length out')"
      using "2.prems" d by (intro "2.IH"(1) [OF _ dir d(1)]) (simp_all add: dir put_text_def)
    moreover have "take (pos + length t) (put_text s pos t) = take pos s @ t"
      "drop (pos + length t + length out' + 1) (put_text s pos t) = drop (pos + length t + length out' + 1) s"
      using "2.prems"(1,3) d(3) by (simp_all add: put_text_def ac_simps)
    ultimately show ?thesis using d dir by (simp add: add.assoc)
  next
    case plain
    with "2.prems"(2) obtain out' where d: "printf ftoa fmt args = Some out'" "out = c # out'" by (auto split: bind_splits)
    have "sprintf_from ftoa (s[pos := c]) (pos + 1) fmt args =
        Some (take (pos + 1) (s[pos := c]) @ out' @ 0 # drop (pos + 1 + length out' + 1) (s[pos := c]), pos + 1 + length out')"
      using "2.prems" d plain by (intro "2.IH"(2)) simp_all
    then show ?thesis using "2.prems" d plain by (simp add: take_Suc_conv_app_nth)
  qed
qed

lemma sprintf_printf:
  assumes "printf ftoa fmt args = Some out" "length out < length s"
  shows "sprintf ftoa s fmt args = Some (int32 (length out), out @ 0 # drop (length out + 1) s)"
  using sprintf_from_printf [of 0 s ftoa fmt args out] assms by (simp add: sprintf_def)

section \<open>The helpers\<close>

definition hex_of :: "u8 list \<Rightarrow> u8 list" where
  "hex_of bs = concat (map (\<lambda>b. [hx (drop_bit 4 b), hx (b AND 0xf)]) bs)"

lemma length_hex_of [simp]: "length (hex_of bs) = 2 * length bs"
  by (induction bs) (simp_all add: hex_of_def)

lemma hexstr_from_spec:
  assumes "i \<le> len" "len \<le> length buf" "i * 2 < sz" "sz \<le> length out" "take (2 * i) out = hex_of (take i buf)"
  shows "hexstr_from buf len out sz i =
    (let k = max i (min len ((sz - 1) div 2)) in hex_of (take k buf) @ 0 # drop (2 * k + 1) out)"
  using assms
proof (induction buf len out sz i rule: hexstr_from.induct)
  case (1 buf len out sz i)
  let ?out = "out[i * 2 := hx (drop_bit 4 (buf ! i)), i * 2 + 1 := hx (buf ! i AND 0xf)]"
  show ?case
  proof (cases "i < len \<and> i * 2 + 2 < sz")
    case True
    then have l: "i < length buf" "2 * i + 1 < length out" using "1.prems" by linarith+
    have "take (2 * i + 2) ?out = take (2 * i) out @ [hx (drop_bit 4 (buf ! i)), hx (buf ! i AND 0xf)]"
      using l by (simp add: take_Suc_conv_app_nth mult.commute numeral_2_eq_2 nth_list_update)
    also have "\<dots> = hex_of (take (i + 1) buf)" using "1.prems"(5) l by (simp add: hex_of_def take_Suc_conv_app_nth)
    finally have t: "take (2 * (i + 1)) ?out = hex_of (take (i + 1) buf)" by simp
    have k: "max (i + 1) (min len ((sz - 1) div 2)) = max i (min len ((sz - 1) div 2))" using True by auto
    have "i + 1 \<le> min len ((sz - 1) div 2)" using True by auto
    then have "i * 2 + 1 < 2 * max i (min len ((sz - 1) div 2)) + 1" by linarith
    then have d: "drop (2 * max i (min len ((sz - 1) div 2)) + 1) ?out = drop (2 * max i (min len ((sz - 1) div 2)) + 1) out"
      by (simp only: drop_update_cancel add_lessD1 [of "i * 2" 1])
    have "hexstr_from buf len out sz i = hexstr_from buf len ?out sz (i + 1)" using True by (subst hexstr_from.simps) simp
    also have "\<dots> = (let k = max (i + 1) (min len ((sz - 1) div 2)) in hex_of (take k buf) @ 0 # drop (2 * k + 1) ?out)"
      using True "1.prems" t by (intro "1.IH") simp_all
    finally show ?thesis unfolding Let_def k d .
  next
    case False
    then have k: "max i (min len ((sz - 1) div 2)) = i" using "1.prems" by auto
    have "hexstr_from buf len out sz i = out[i * 2 := 0]" using False by (subst hexstr_from.simps) (simp only: if_False)
    then have "hexstr_from buf len out sz i = take (2 * i) out @ 0 # drop (2 * i + 1) out"
      using "1.prems"(3,4) by (simp add: upd_conv_take_nth_drop mult.commute)
    then show ?thesis unfolding k Let_def "1.prems"(5) .
  qed
qed

text \<open>\<open>fmt_hexstr\<close> writes as many whole bytes as fit with the terminator, and nothing behind it.\<close>

lemma fmt_hexstr_spec:
  assumes "len \<le> length buf" "0 < sz" "sz \<le> length out"
  shows "fmt_hexstr buf len out sz =
    (let k = min len ((sz - 1) div 2) in hex_of (take k buf) @ 0 # drop (2 * k + 1) out)"
  using hexstr_from_spec [of 0 len buf sz out] assms by (simp add: fmt_hexstr_def hex_of_def)

text \<open>With an empty buffer the terminator is stored all the same.\<close>

lemma fmt_hexstr_empty_buffer: "fmt_hexstr buf len out 0 = out[0 := 0]"
  unfolding fmt_hexstr_def by (subst hexstr_from.simps) simp

lemma fmt_mac_spec:
  assumes "18 \<le> sz" "sz \<le> length out" "length mac = 6"
  shows "\<exists>t. fmt_mac mac out sz = t @ 0 # drop 18 out \<and> length t = 17"
proof -
  let ?c = "concat (map (\<lambda>i. [hx (drop_bit 4 (mac ! i)), hx (mac ! i AND 0xf), if i < 5 then 0x3A else 0]) [0 ..< 6])"
  have u: "[0 ..< 6] = [0, 1, 2, 3, 4, 5 :: nat]" by (simp add: upt_rec)
  have "?c = butlast ?c @ [0]" "length ?c = 18" unfolding u by simp_all
  then have "fmt_mac mac out sz = butlast ?c @ 0 # drop 18 out" "length (butlast ?c) = 17"
    using assms by (simp_all add: fmt_mac_def put_text_def)
  then show ?thesis by blast
qed

end
