(* ===== verification/UMalloc.thy ===== *)
theory UMalloc
  imports Prelude
begin

text \<open>
  The allocator of the user programs (\<open>userland/umalloc.h\<close>): a first-fit free list in address order over the break of the
  process. Block headers are a store from addresses to records; a null pointer is address 0. The call of \<open>SYS_SBRK\<close> is an
  argument, \<open>None\<close> when it does not return; a loop over a list that never ends is \<open>None\<close> too.
\<close>

section \<open>Definitions\<close>

record ublock =
  ub_size :: nat
  ub_next :: nat
  ub_free :: bool

text \<open>The headers are kept in a store of their own, by the address they have in the process: a program that writes over the
  header in front of its block is outside the model.\<close>

record 's uheap =
  umalloc_free_list :: nat
  u_blk :: "nat \<Rightarrow> ublock"
  u_sys :: 's

type_synonym 's sbrk_fn = "nat \<Rightarrow> 's \<Rightarrow> (nat \<times> 's) option"

definition UMALLOC_ALIGN :: nat where "UMALLOC_ALIGN = 16"
definition UMALLOC_HDR_SIZE :: nat where "UMALLOC_HDR_SIZE = 32"
definition UMALLOC_MIN_GROW :: nat where "UMALLOC_MIN_GROW = 4096"

definition umalloc_align_up :: "nat \<Rightarrow> nat" where
  "umalloc_align_up x = add64 x (UMALLOC_ALIGN - 1) div UMALLOC_ALIGN * UMALLOC_ALIGN"

definition upd_blk :: "nat \<Rightarrow> (ublock \<Rightarrow> ublock) \<Rightarrow> 's uheap \<Rightarrow> 's uheap" where
  "upd_blk a f h = h\<lparr>u_blk := (u_blk h)(a := f (u_blk h a))\<rparr>"

abbreviation set_next :: "nat \<Rightarrow> nat \<Rightarrow> 's uheap \<Rightarrow> 's uheap" where
  "set_next a p \<equiv> upd_blk a (\<lambda>b. b\<lparr>ub_next := p\<rparr>)"

text \<open>\<open>while (cur->next && cur->next < blk) cur = cur->next\<close>\<close>

partial_function (option) insert_after :: "(nat \<Rightarrow> ublock) \<Rightarrow> nat \<Rightarrow> nat \<Rightarrow> nat option" where
  "insert_after b blk cur =
     (if ub_next (b cur) \<noteq> 0 \<and> ub_next (b cur) < blk then insert_after b blk (ub_next (b cur)) else Some cur)"

definition umalloc_list_insert :: "nat \<Rightarrow> 's uheap \<Rightarrow> 's uheap option" where
  "umalloc_list_insert blk h =
     (if umalloc_free_list h = 0 \<or> blk < umalloc_free_list h
      then Some ((set_next blk (umalloc_free_list h) h)\<lparr>umalloc_free_list := blk\<rparr>)
      else map_option (\<lambda>cur. set_next cur blk (set_next blk (ub_next (u_blk h cur)) h))
             (insert_after (u_blk h) blk (umalloc_free_list h)))"

text \<open>The new block, or 0.\<close>

definition umalloc_grow :: "'s sbrk_fn \<Rightarrow> nat \<Rightarrow> 's uheap \<Rightarrow> (nat \<times> 's uheap) option" where
  "umalloc_grow sbrk min_size h =
     (let chunk = add64 min_size UMALLOC_HDR_SIZE;
          chunk = (if chunk < UMALLOC_MIN_GROW then UMALLOC_MIN_GROW else chunk)
      in case sbrk chunk (u_sys h) of
           None \<Rightarrow> None
         | Some (base, s) \<Rightarrow>
             let h = h\<lparr>u_sys := s\<rparr> in
             if base = 2 ^ 64 - 1 then Some (0, h)
             else Some (base, h\<lparr>u_blk := (u_blk h)(base := \<lparr>ub_size = sub64 chunk UMALLOC_HDR_SIZE, ub_next = 0, ub_free = True\<rparr>)\<rparr>))"

text \<open>The search loop: \<open>prev\<close> and \<open>cur\<close>.\<close>

partial_function (option) first_fit :: "(nat \<Rightarrow> ublock) \<Rightarrow> nat \<Rightarrow> nat \<Rightarrow> nat \<Rightarrow> (nat \<times> nat) option" where
  "first_fit b sz prev cur =
     (if cur \<noteq> 0 \<and> \<not> (ub_free (b cur) \<and> ub_size (b cur) \<ge> sz) then first_fit b sz cur (ub_next (b cur)) else Some (prev, cur))"

definition umalloc_split :: "nat \<Rightarrow> nat \<Rightarrow> 's uheap \<Rightarrow> 's uheap option" where
  "umalloc_split sz cur h =
     (if ub_size (u_blk h cur) \<ge> add64 (add64 sz UMALLOC_HDR_SIZE) UMALLOC_ALIGN then
        let rem = add64 (add64 cur UMALLOC_HDR_SIZE) sz;
            h = upd_blk rem (\<lambda>b. b\<lparr>ub_size := sub64 (sub64 (ub_size (u_blk h cur)) sz) UMALLOC_HDR_SIZE, ub_free := True\<rparr>) h
        in map_option (upd_blk cur (\<lambda>b. b\<lparr>ub_size := sz\<rparr>)) (umalloc_list_insert rem h)
      else Some h)"

definition umalloc :: "'s sbrk_fn \<Rightarrow> nat \<Rightarrow> 's uheap \<Rightarrow> (nat \<times> 's uheap) option" where
  "umalloc sbrk sz h =
     (if sz = 0 then Some (0, h)
      else
        let sz = umalloc_align_up sz in
        case first_fit (u_blk h) sz 0 (umalloc_free_list h) of
          None \<Rightarrow> None
        | Some (prev, cur) \<Rightarrow>
            (case (if cur \<noteq> 0
                   then Some (cur, if prev \<noteq> 0 then set_next prev (ub_next (u_blk h cur)) h
                                   else h\<lparr>umalloc_free_list := ub_next (u_blk h cur)\<rparr>)
                   else umalloc_grow sbrk sz h) of
               None \<Rightarrow> None
             | Some (cur, h) \<Rightarrow>
                 if cur = 0 then Some (0, h)
                 else map_option (\<lambda>h. (add64 cur UMALLOC_HDR_SIZE, upd_blk cur (\<lambda>b. b\<lparr>ub_free := False, ub_next := 0\<rparr>) h))
                        (umalloc_split sz cur h)))"

definition ufree :: "nat \<Rightarrow> 's uheap \<Rightarrow> 's uheap option" where
  "ufree p h =
     (if p = 0 then Some h
      else
        let blk = sub64 p UMALLOC_HDR_SIZE in
        case umalloc_list_insert blk (upd_blk blk (\<lambda>b. b\<lparr>ub_free := True\<rparr>) h) of
          None \<Rightarrow> None
        | Some h \<Rightarrow>
            let nxt = ub_next (u_blk h blk) in
            if nxt \<noteq> 0 \<and> add64 (add64 blk UMALLOC_HDR_SIZE) (ub_size (u_blk h blk)) = nxt
            then Some (upd_blk blk (\<lambda>b. b\<lparr>ub_size := add64 (ub_size b) (add64 UMALLOC_HDR_SIZE (ub_size (u_blk h nxt))),
                                          ub_next := ub_next (u_blk h nxt)\<rparr>) h)
            else Some h)"

lemmas umalloc_consts = UMALLOC_ALIGN_def UMALLOC_HDR_SIZE_def UMALLOC_MIN_GROW_def

section \<open>The free list as a path through the headers\<close>

fun upath :: "(nat \<Rightarrow> ublock) \<Rightarrow> nat \<Rightarrow> nat list \<Rightarrow> nat \<Rightarrow> bool" where
  "upath b p [] q \<longleftrightarrow> p = q"
| "upath b p (a # as) q \<longleftrightarrow> p = a \<and> a \<noteq> 0 \<and> upath b (ub_next (b a)) as q"

lemma upath_append: "upath b p (xs @ ys) r \<longleftrightarrow> (\<exists>q. upath b p xs q \<and> upath b q ys r)"
  by (induction xs arbitrary: p) auto

lemma upath_cong: "(\<And>a. a \<in> set as \<Longrightarrow> ub_next (b' a) = ub_next (b a)) \<Longrightarrow> upath b' p as q = upath b p as q"
  by (induction as arbitrary: p) auto

lemma upath_nonzero: "upath b p as q \<Longrightarrow> 0 \<notin> set as"
  by (induction as arbitrary: p) auto

lemma upath_end_unique: "upath b p as q \<Longrightarrow> upath b p as q' \<Longrightarrow> q = q'"
  by (induction as arbitrary: p) auto

lemma upath_snoc: "upath b p (xs @ [a]) q \<longleftrightarrow> upath b p xs a \<and> a \<noteq> 0 \<and> q = ub_next (b a)"
  by (auto simp: upath_append)

lemma upath_last: "upath b p as q \<Longrightarrow> as \<noteq> [] \<Longrightarrow> ub_next (b (last as)) = q"
  by (cases as rule: rev_cases) (auto simp: upath_snoc)

lemma upath_redirect:
  assumes "upath b p as q" "as \<noteq> []" "distinct as" "ub_next (b' (last as)) = r" "\<And>a. a \<in> set (butlast as) \<Longrightarrow> ub_next (b' a) = ub_next (b a)"
  shows "upath b' p as r"
proof -
  obtain xs a where as: "as = xs @ [a]" using assms(2) by (cases as rule: rev_cases) auto
  have "upath b' p xs a = upath b p xs a" by (rule upath_cong) (use assms(5) as in auto)
  then show ?thesis using assms(1,4) as by (auto simp: upath_snoc)
qed

definition fits :: "(nat \<Rightarrow> ublock) \<Rightarrow> nat \<Rightarrow> nat \<Rightarrow> bool" where
  "fits b n a \<longleftrightarrow> ub_free (b a) \<and> n \<le> ub_size (b a)"

lemma first_fit_path:
  "upath b p as 0 \<Longrightarrow>
   first_fit b n prev p = Some (case dropWhile (\<lambda>a. \<not> fits b n a) as of
     [] \<Rightarrow> (last (prev # as), 0) | a # _ \<Rightarrow> (last (prev # takeWhile (\<lambda>a. \<not> fits b n a) as), a))"
proof (induction as arbitrary: p prev)
  case Nil
  then show ?case by (subst first_fit.simps) simp
next
  case (Cons a as)
  show ?case
  proof (cases "fits b n a")
    case True
    then show ?thesis using Cons.prems by (subst first_fit.simps) (simp add: fits_def)
  next
    case False
    have "first_fit b n prev p = first_fit b n a (ub_next (b a))"
      using False Cons.prems by (subst first_fit.simps) (simp add: fits_def)
    then show ?thesis using False Cons
      by (cases "dropWhile (\<lambda>a. \<not> fits b n a) as") (simp_all del: dropWhile_eq_Nil_conv)
  qed
qed

lemma insert_after_path:
  "upath b a (a # as) 0 \<Longrightarrow> insert_after b blk a = Some (last (a # takeWhile (\<lambda>x. x < blk) as))"
proof (induction as arbitrary: a)
  case Nil
  then show ?case by (subst insert_after.simps) simp
next
  case (Cons c as)
  then show ?case by (subst insert_after.simps) auto
qed

text \<open>Linking changes no size and no flag.\<close>

definition same_contents :: "'s uheap \<Rightarrow> 's uheap \<Rightarrow> bool" where
  "same_contents h h' \<longleftrightarrow> u_sys h' = u_sys h \<and> (\<forall>a. ub_size (u_blk h' a) = ub_size (u_blk h a) \<and> ub_free (u_blk h' a) = ub_free (u_blk h a))"

definition free_path :: "nat list \<Rightarrow> 's uheap \<Rightarrow> bool" where
  "free_path fs h \<longleftrightarrow> upath (u_blk h) (umalloc_free_list h) fs 0"

text \<open>Where a block goes in a list in address order.\<close>

definition link_in :: "nat \<Rightarrow> nat list \<Rightarrow> nat list" where
  "link_in blk fs = takeWhile (\<lambda>a. a < blk) fs @ blk # dropWhile (\<lambda>a. a < blk) fs"

lemma set_link_in [simp]: "set (link_in blk fs) = insert blk (set fs)"
proof -
  have "set (takeWhile (\<lambda>a. a < blk) fs @ dropWhile (\<lambda>a. a < blk) fs) = set fs" by simp
  then show ?thesis by (auto simp: link_in_def simp del: takeWhile_dropWhile_id)
qed

lemma link_in_sorted: "sorted_wrt (<) fs \<Longrightarrow> blk \<notin> set fs \<Longrightarrow> sorted_wrt (<) (link_in blk fs)"
  by (induction fs) (auto simp: link_in_def dest: set_takeWhileD set_dropWhileD)

lemma list_insert_path:
  assumes "free_path fs h" "distinct fs" "blk \<notin> set fs" "blk \<noteq> 0"
  obtains h' where "umalloc_list_insert blk h = Some h'" "free_path (link_in blk fs) h'" "same_contents h h'"
proof (cases "umalloc_free_list h = 0 \<or> blk < umalloc_free_list h")
  case True
  let ?h = "(set_next blk (umalloc_free_list h) h)\<lparr>umalloc_free_list := blk\<rparr>"
  have l: "link_in blk fs = blk # fs" using True assms(1) by (cases fs) (auto simp: free_path_def link_in_def)
  have "upath (u_blk ?h) (umalloc_free_list h) fs 0 = upath (u_blk h) (umalloc_free_list h) fs 0"
    by (rule upath_cong) (use assms(3) in \<open>auto simp: upd_blk_def\<close>)
  then have "free_path (link_in blk fs) ?h" using assms l by (simp add: free_path_def upd_blk_def)
  moreover have "same_contents h ?h" by (simp add: same_contents_def upd_blk_def)
  ultimately show ?thesis using that True by (simp add: umalloc_list_insert_def)
next
  case False
  obtain a as where fs: "fs = a # as" "umalloc_free_list h = a" using assms(1) False by (cases fs) (auto simp: free_path_def)
  have a: "a < blk" using False fs assms(3) by auto
  define xs ys where "xs = takeWhile (\<lambda>x. x < blk) fs" and "ys = dropWhile (\<lambda>x. x < blk) fs"
  have xs: "xs = a # takeWhile (\<lambda>x. x < blk) as" "fs = xs @ ys" using a fs by (simp_all add: xs_def ys_def)
  define c where "c = last xs"
  have c: "c \<in> set xs" "c \<noteq> blk" using xs assms(3) last_in_set [of xs] by (auto simp: c_def)
  obtain q where q: "upath (u_blk h) a xs q" "upath (u_blk h) q ys 0"
    using assms(1) fs(2) xs(2) by (auto simp: free_path_def upath_append)
  have n: "ub_next (u_blk h c) = q" using upath_last [OF q(1)] xs by (simp add: c_def)
  let ?h = "set_next c blk (set_next blk q h)"
  have d: "distinct xs" "set xs \<inter> set ys = {}" using assms(2) xs(2) by auto
  have "upath (u_blk ?h) a xs blk"
  proof (rule upath_redirect [OF q(1)])
    show "xs \<noteq> []" "distinct xs" using xs(1) d(1) by simp_all
    show "ub_next (u_blk ?h (last xs)) = blk" by (simp add: c_def upd_blk_def)
    fix x assume x: "x \<in> set (butlast xs)"
    have "x \<noteq> c" using x d(1) \<open>xs \<noteq> []\<close> by (cases xs rule: rev_cases) (auto simp: c_def)
    moreover have "x \<noteq> blk" using in_set_butlastD [OF x] assms(3) xs(2) by auto
    ultimately show "ub_next (u_blk ?h x) = ub_next (u_blk h x)" by (simp add: upd_blk_def)
  qed
  moreover have "upath (u_blk ?h) q ys 0 = upath (u_blk h) q ys 0"
    by (rule upath_cong) (use xs d c assms(3) in \<open>auto simp: upd_blk_def\<close>)
  moreover have "link_in blk fs = xs @ blk # ys" by (simp add: link_in_def xs_def ys_def)
  moreover have "ub_next (u_blk ?h blk) = q" "umalloc_free_list ?h = a" using c fs by (simp_all add: upd_blk_def)
  ultimately have "free_path (link_in blk fs) ?h"
    using q(2) assms(4) unfolding free_path_def by (auto simp: upath_append)
  moreover have "same_contents h ?h" by (simp add: same_contents_def upd_blk_def)
  moreover have "insert_after (u_blk h) blk a = Some c"
    using insert_after_path [of "u_blk h" a as blk] assms(1) fs xs(1) by (simp add: free_path_def c_def)
  then have "umalloc_list_insert blk h = Some ?h" using False fs n by (simp add: umalloc_list_insert_def)
  ultimately show ?thesis using that by blast
qed


section \<open>Blocks that tile part of the heap\<close>

text \<open>A set of blocks given by their addresses and sizes: aligned, between \<open>lo\<close> and \<open>hi\<close>, and no two of them overlap.\<close>

definition blocks_ok :: "nat \<Rightarrow> nat \<Rightarrow> nat set \<Rightarrow> (nat \<Rightarrow> nat) \<Rightarrow> bool" where
  "blocks_ok lo hi B sz \<longleftrightarrow>
     (\<forall>a \<in> B. lo \<le> a \<and> a + UMALLOC_HDR_SIZE + sz a \<le> hi \<and> UMALLOC_ALIGN dvd a \<and> UMALLOC_ALIGN dvd sz a) \<and>
     (\<forall>a \<in> B. \<forall>b \<in> B. a < b \<longrightarrow> a + UMALLOC_HDR_SIZE + sz a \<le> b)"

definition arena :: "nat set \<Rightarrow> (nat \<Rightarrow> nat) \<Rightarrow> nat set" where
  "arena B sz = (\<Union>a \<in> B. {a ..< a + UMALLOC_HDR_SIZE + sz a})"

lemma blocks_okD:
  assumes "blocks_ok lo hi B sz" "a \<in> B"
  shows "lo \<le> a" "a + UMALLOC_HDR_SIZE + sz a \<le> hi" "UMALLOC_ALIGN dvd a" "UMALLOC_ALIGN dvd sz a"
  using assms by (auto simp: blocks_ok_def)

lemma ublocks_apart:
  "blocks_ok lo hi B sz \<Longrightarrow> a \<in> B \<Longrightarrow> b \<in> B \<Longrightarrow> a \<noteq> b \<Longrightarrow> a + UMALLOC_HDR_SIZE + sz a \<le> b \<or> b + UMALLOC_HDR_SIZE + sz b \<le> a"
  by (cases a b rule: linorder_cases) (auto simp: blocks_ok_def)

lemma blocks_cong: "(\<And>a. a \<in> B \<Longrightarrow> sz' a = sz a) \<Longrightarrow> blocks_ok lo hi B sz' = blocks_ok lo hi B sz \<and> arena B sz' = arena B sz"
  by (simp add: blocks_ok_def arena_def cong: ball_cong SUP_cong)

lemma arena_insert: "arena (insert a B) sz = {a ..< a + UMALLOC_HDR_SIZE + sz a} \<union> arena B sz"
  by (simp add: arena_def)

lemma arena_other: "a \<notin> B \<Longrightarrow> arena B (sz(a := n)) = arena B sz"
  by (rule blocks_cong [THEN conjunct2]) auto

definition block_in :: "nat \<Rightarrow> nat \<Rightarrow> nat \<Rightarrow> nat \<Rightarrow> bool" where
  "block_in lo hi a n \<longleftrightarrow> lo \<le> a \<and> a + UMALLOC_HDR_SIZE + n \<le> hi \<and> UMALLOC_ALIGN dvd a \<and> UMALLOC_ALIGN dvd n"

lemma blocks_insertI:
  assumes "blocks_ok lo hi B sz" "block_in lo hi r n"
    and "\<And>b. b \<in> B \<Longrightarrow> b \<noteq> r \<Longrightarrow> b + UMALLOC_HDR_SIZE + sz b \<le> r \<or> r + UMALLOC_HDR_SIZE + n \<le> b"
  shows "blocks_ok lo hi (insert r B) (sz(r := n))"
proof -
  have "b + UMALLOC_HDR_SIZE + sz b \<le> r" if "b \<in> B" "b < r" for b using assms(3) [of b] that by fastforce
  moreover have "r + UMALLOC_HDR_SIZE + n \<le> b" if "b \<in> B" "r < b" for b using assms(3) [of b] that by fastforce
  ultimately have p: "\<forall>b \<in> B. (b < r \<longrightarrow> b + UMALLOC_HDR_SIZE + sz b \<le> r) \<and> (r < b \<longrightarrow> r + UMALLOC_HDR_SIZE + n \<le> b)" by blast
  show ?thesis unfolding blocks_ok_def using assms(1,2) p unfolding blocks_ok_def block_in_def by simp
qed

lemma blocks_subset: "blocks_ok lo hi B sz \<Longrightarrow> A \<subseteq> B \<Longrightarrow> blocks_ok lo hi A sz"
  unfolding blocks_ok_def by blast

text \<open>Cutting a block in two, joining two neighbours, and a new block at the end.\<close>

lemma blocks_split:
  assumes "blocks_ok lo hi B sz" "a \<in> B" "n + UMALLOC_HDR_SIZE \<le> sz a" "UMALLOC_ALIGN dvd n"
  defines "r \<equiv> a + UMALLOC_HDR_SIZE + n"
  shows "r \<notin> B" "blocks_ok lo hi (insert r B) (sz(a := n, r := sz a - n - UMALLOC_HDR_SIZE))"
    "arena (insert r B) (sz(a := n, r := sz a - n - UMALLOC_HDR_SIZE)) = arena B sz"
proof -
  have r: "a < r" "r + UMALLOC_HDR_SIZE + (sz a - n - UMALLOC_HDR_SIZE) = a + UMALLOC_HDR_SIZE + sz a" "r < a + UMALLOC_HDR_SIZE + sz a"
    using assms(3) by (auto simp: r_def UMALLOC_HDR_SIZE_def)
  show n: "r \<notin> B" using ublocks_apart [OF assms(1,2), of r] r by auto
  have "UMALLOC_ALIGN dvd r" "UMALLOC_ALIGN dvd sz a - n - UMALLOC_HDR_SIZE"
    using blocks_okD(3,4) [OF assms(1,2)] assms(4) by (auto simp: r_def umalloc_consts intro!: dvd_add dvd_diff_nat)
  then have i: "block_in lo hi a n" "block_in lo hi r (sz a - n - UMALLOC_HDR_SIZE)"
    using blocks_okD [OF assms(1,2)] assms(3,4) r by (auto simp: block_in_def)
  have d: "b + UMALLOC_HDR_SIZE + sz b \<le> a \<or> a + UMALLOC_HDR_SIZE + sz a \<le> b" if "b \<in> B" "b \<noteq> a" for b
    using ublocks_apart [OF assms(1) that(1) assms(2) that(2)] by auto
  have B: "B = insert a (B - {a})" using assms(2) by auto
  have "blocks_ok lo hi (insert a (B - {a})) (sz(a := n))"
    by (rule blocks_insertI [OF blocks_subset [OF assms(1)] i(1)]) (use d assms(3) in fastforce)+
  then have o: "blocks_ok lo hi B (sz(a := n))" using B by simp
  show "blocks_ok lo hi (insert r B) (sz(a := n, r := sz a - n - UMALLOC_HDR_SIZE))"
  proof (rule blocks_insertI [OF o i(2)])
    fix b assume "b \<in> B" "b \<noteq> r"
    then show "b + UMALLOC_HDR_SIZE + (sz(a := n)) b \<le> r \<or> r + UMALLOC_HDR_SIZE + (sz a - n - UMALLOC_HDR_SIZE) \<le> b"
      using d [of b] r by (cases "b = a") (auto simp: r_def)
  qed
  have "arena (insert r (insert a (B - {a}))) (sz(a := n, r := sz a - n - UMALLOC_HDR_SIZE)) = arena (insert a (B - {a})) sz"
    using n r unfolding arena_insert by (auto simp: arena_other r_def)
  then show "arena (insert r B) (sz(a := n, r := sz a - n - UMALLOC_HDR_SIZE)) = arena B sz" using B by simp
qed

lemma blocks_join:
  assumes "blocks_ok lo hi B sz" "a \<in> B" "b \<in> B" "a + UMALLOC_HDR_SIZE + sz a = b"
  shows "blocks_ok lo hi (B - {b}) (sz(a := sz a + UMALLOC_HDR_SIZE + sz b))"
    "arena (B - {b}) (sz(a := sz a + UMALLOC_HDR_SIZE + sz b)) = arena B sz"
proof -
  have ab: "a < b" "UMALLOC_ALIGN dvd sz a + UMALLOC_HDR_SIZE + sz b"
    using assms blocks_okD(4) [OF assms(1)] by (auto simp: umalloc_consts intro!: dvd_add)
  have d: "c + UMALLOC_HDR_SIZE + sz c \<le> a \<or> b + UMALLOC_HDR_SIZE + sz b \<le> c" if "c \<in> B" "c \<noteq> a" "c \<noteq> b" for c
    using ublocks_apart [OF assms(1) that(1) assms(2) that(2)] ublocks_apart [OF assms(1) that(1) assms(3) that(3)] assms(4)
    by (auto simp: UMALLOC_HDR_SIZE_def)
  have i: "block_in lo hi a (sz a + UMALLOC_HDR_SIZE + sz b)"
    using blocks_okD [OF assms(1,2)] blocks_okD [OF assms(1,3)] assms(4) ab(2) by (simp add: block_in_def)
  have "blocks_ok lo hi (insert a (B - {b})) (sz(a := sz a + UMALLOC_HDR_SIZE + sz b))"
  proof (rule blocks_insertI [OF blocks_subset [OF assms(1)] i])
    fix c assume "c \<in> B - {b}" "c \<noteq> a"
    then show "c + UMALLOC_HDR_SIZE + sz c \<le> a \<or> a + UMALLOC_HDR_SIZE + (sz a + UMALLOC_HDR_SIZE + sz b) \<le> c"
      using d [of c] assms(4) by (auto simp: add.assoc)
  qed auto
  then show "blocks_ok lo hi (B - {b}) (sz(a := sz a + UMALLOC_HDR_SIZE + sz b))"
    using assms(2) ab by (simp add: insert_absorb)
  have B: "B = insert b (insert a (B - {a, b}))" "B - {b} = insert a (B - {a, b})" using assms(2,3) ab by auto
  show "arena (B - {b}) (sz(a := sz a + UMALLOC_HDR_SIZE + sz b)) = arena B sz"
  proof -
    have "arena (insert b (insert a (B - {a, b}))) sz = arena B sz" using B(1) by simp
    moreover have "{a ..< a + UMALLOC_HDR_SIZE + (sz a + UMALLOC_HDR_SIZE + sz b)} =
        {b ..< b + UMALLOC_HDR_SIZE + sz b} \<union> {a ..< a + UMALLOC_HDR_SIZE + sz a}"
      using assms(4) by auto
    ultimately show ?thesis unfolding B(2) by (simp add: arena_insert arena_other Un_assoc)
  qed
qed

lemma blocks_grow:
  assumes "blocks_ok lo hi B sz" "lo \<le> hi" "UMALLOC_ALIGN dvd hi" "UMALLOC_ALIGN dvd n"
  shows "hi \<notin> B" "blocks_ok lo (hi + UMALLOC_HDR_SIZE + n) (insert hi B) (sz(hi := n))"
    "arena (insert hi B) (sz(hi := n)) = arena B sz \<union> {hi ..< hi + UMALLOC_HDR_SIZE + n}"
proof -
  have b: "a + UMALLOC_HDR_SIZE + sz a \<le> hi" if "a \<in> B" for a using blocks_okD(2) [OF assms(1) that] .
  show "hi \<notin> B" using b by (fastforce simp: UMALLOC_HDR_SIZE_def)
  have "blocks_ok lo (hi + UMALLOC_HDR_SIZE + n) B sz" using assms(1) by (fastforce simp: blocks_ok_def)
  then show "blocks_ok lo (hi + UMALLOC_HDR_SIZE + n) (insert hi B) (sz(hi := n))"
    by (rule blocks_insertI) (use assms b in \<open>auto simp: block_in_def\<close>)
  show "arena (insert hi B) (sz(hi := n)) = arena B sz \<union> {hi ..< hi + UMALLOC_HDR_SIZE + n}"
    using \<open>hi \<notin> B\<close> by (auto simp: arena_insert arena_other)
qed


end
