(* ===== verification/UMalloc_Props.thy ===== *)
theory UMalloc_Props
  imports UMalloc
begin

text \<open>
  What \<open>umalloc\<close> and \<open>ufree\<close> do: an invariant that free and used blocks tile the heap, kept by splitting, unlinking, growing
  and coalescing; and, inside the locale \<open>break_source\<close> (the contract of the call that moves the break), what every
  allocation returns and what holds after any sequence of allocations and releases.
\<close>

section \<open>The invariant of the allocator\<close>

abbreviation usz :: "'s uheap \<Rightarrow> nat \<Rightarrow> nat" where "usz h \<equiv> \<lambda>a. ub_size (u_blk h a)"

text \<open>The free list is in address order, and its blocks and the \<open>live\<close> ones lie apart between \<open>lo\<close> and \<open>hi\<close>.\<close>

definition uheap_ok :: "nat \<Rightarrow> nat \<Rightarrow> nat set \<Rightarrow> nat list \<Rightarrow> 's uheap \<Rightarrow> bool" where
  "uheap_ok lo hi live fs h \<longleftrightarrow>
     free_path fs h \<and> sorted_wrt (<) fs \<and> set fs \<inter> live = {} \<and> 0 < lo \<and> lo \<le> hi \<and> hi < 2 ^ 63 \<and>
     (\<forall>a \<in> set fs. ub_free (u_blk h a)) \<and> blocks_ok lo hi (set fs \<union> live) (usz h)"

definition uarena :: "nat set \<Rightarrow> nat list \<Rightarrow> 's uheap \<Rightarrow> nat set" where
  "uarena live fs h = arena (set fs \<union> live) (usz h)"

lemma uheap_okD:
  assumes "uheap_ok lo hi live fs h"
  shows "free_path fs h" "sorted_wrt (<) fs" "distinct fs" "set fs \<inter> live = {}" "0 < lo" "lo \<le> hi" "hi < 2 ^ 63"
    "\<forall>a \<in> set fs. ub_free (u_blk h a)" "blocks_ok lo hi (set fs \<union> live) (usz h)"
  using assms strict_sorted_iff [of fs] by (auto simp: uheap_ok_def)

lemma uheap_ok_block:
  assumes "uheap_ok lo hi live fs h" "a \<in> set fs \<union> live"
  shows "a \<noteq> 0" "a + UMALLOC_HDR_SIZE + usz h a < 2 ^ 63" "UMALLOC_ALIGN dvd usz h a"
  using blocks_okD [OF uheap_okD(9) [OF assms(1)] assms(2)] uheap_okD(5-7) [OF assms(1)] by auto

lemma free_path_cong:
  assumes "umalloc_free_list h' = umalloc_free_list h" "\<And>a. a \<in> set fs \<Longrightarrow> ub_next (u_blk h' a) = ub_next (u_blk h a)"
  shows "free_path fs h' = free_path fs h"
  unfolding free_path_def assms(1) by (rule upath_cong) (rule assms(2))

text \<open>Cutting the rest off a block that is in use.\<close>

lemma split_ok:
  assumes ok: "uheap_ok lo hi live fs h" and c: "c \<in> live" and n: "n \<le> usz h c" "UMALLOC_ALIGN dvd n"
  obtains h' fs' where "umalloc_split n c h = Some h'" "uheap_ok lo hi live fs' h'" "n \<le> usz h' c" "u_sys h' = u_sys h"
    "uarena live fs' h' = uarena live fs h" "\<And>a. a \<in> live \<Longrightarrow> a \<noteq> c \<Longrightarrow> usz h' a = usz h a"
proof (cases "n + UMALLOC_HDR_SIZE + UMALLOC_ALIGN \<le> usz h c")
  note b = uheap_ok_block [OF ok, of c]
  have w: "add64 (add64 n UMALLOC_HDR_SIZE) UMALLOC_ALIGN = n + UMALLOC_HDR_SIZE + UMALLOC_ALIGN"
    using b c n(1) by (simp add: umalloc_consts add64_exact)
  {
    case False
    then have "umalloc_split n c h = Some h" by (simp add: umalloc_split_def w)
    then show ?thesis using that ok n by simp
  next
    case True
    define r where "r = c + UMALLOC_HDR_SIZE + n"
    let ?B = "set fs \<union> live" and ?m = "usz h c - n - UMALLOC_HDR_SIZE"
    have s: "r \<notin> ?B" "blocks_ok lo hi (insert r ?B) ((usz h)(c := n, r := ?m))" "arena (insert r ?B) ((usz h)(c := n, r := ?m)) = arena ?B (usz h)"
      using blocks_split [OF uheap_okD(9) [OF ok], of c n] c n(2) True by (simp_all add: r_def)
    have r: "add64 (add64 c UMALLOC_HDR_SIZE) n = r" "sub64 (sub64 (usz h c) n) UMALLOC_HDR_SIZE = ?m" "r \<noteq> 0" "r \<noteq> c"
      using b c n True by (simp_all add: r_def umalloc_consts add64_exact sub64_exact)
    let ?h1 = "upd_blk r (\<lambda>b. b\<lparr>ub_size := ?m, ub_free := True\<rparr>) h"
    have p1: "free_path fs ?h1"
      using uheap_okD(1) [OF ok] s(1) by (subst free_path_cong [of _ h]) (auto simp: upd_blk_def)
    obtain h2 where h2: "umalloc_list_insert r ?h1 = Some h2" "free_path (link_in r fs) h2" "same_contents ?h1 h2"
      using list_insert_path [OF p1 uheap_okD(3) [OF ok], of r] s(1) r(3) by auto
    let ?h3 = "upd_blk c (\<lambda>b. b\<lparr>ub_size := n\<rparr>) h2"
    have z: "usz ?h3 = (usz h)(c := n, r := ?m)" using h2(3) r(4) by (auto simp: same_contents_def upd_blk_def fun_eq_iff)
    have u: "set (link_in r fs) \<union> live = insert r ?B" by auto
    have "free_path (link_in r fs) ?h3" using h2(2) by (subst free_path_cong [of _ h2]) (auto simp: upd_blk_def)
    moreover have "sorted_wrt (<) (link_in r fs)" using link_in_sorted uheap_okD(2) [OF ok] s(1) by auto
    moreover have "\<forall>a \<in> set (link_in r fs). ub_free (u_blk ?h3 a)"
      using h2(3) uheap_okD(8) [OF ok] by (auto simp: same_contents_def upd_blk_def)
    ultimately have "uheap_ok lo hi live (link_in r fs) ?h3"
      using uheap_okD(4-7) [OF ok] s(1,2) unfolding uheap_ok_def u z by auto
    moreover have "umalloc_split n c h = Some ?h3" using True h2(1) by (simp add: umalloc_split_def w r Let_def)
    moreover have "uarena live (link_in r fs) ?h3 = uarena live fs h" unfolding uarena_def u z by (rule s(3))
    moreover have "n \<le> usz ?h3 c" "u_sys ?h3 = u_sys h" using h2(3) by (simp_all add: same_contents_def upd_blk_def)
    moreover have "usz ?h3 a = usz h a" if "a \<in> live" "a \<noteq> c" for a using fun_cong [OF z, of a] that s(1) by auto
    ultimately show ?thesis using that by blast
  }
qed

text \<open>Giving a block back: it joins the free list, and takes in the free block right behind it.\<close>

lemma free_sets:
  assumes "xs @ ys = fs" "distinct fs" "set fs \<inter> live = {}" "c \<in> live"
  shows "set (xs @ c # ys) \<union> (live - {c}) = set fs \<union> live"
  using assms by auto

lemma ufree_ok:
  assumes ok: "uheap_ok lo hi live fs h" and c: "c \<in> live"
  obtains h' fs' where "ufree (c + UMALLOC_HDR_SIZE) h = Some h'" "uheap_ok lo hi (live - {c}) fs' h'" "u_sys h' = u_sys h"
    "uarena (live - {c}) fs' h' = uarena live fs h" "\<And>a. a \<in> live \<Longrightarrow> a \<noteq> c \<Longrightarrow> usz h' a = usz h a"
proof -
  define xs ys where "xs = takeWhile (\<lambda>x. x < c) fs" and "ys = dropWhile (\<lambda>x. x < c) fs"
  have fs: "xs @ ys = fs" "link_in c fs = xs @ c # ys" by (simp_all add: xs_def ys_def link_in_def)
  note D = uheap_okD [OF ok]
  have cf: "c \<notin> set fs" "c \<noteq> 0" using D(4) c uheap_ok_block(1) [OF ok] by auto
  have b: "sub64 (c + UMALLOC_HDR_SIZE) UMALLOC_HDR_SIZE = c" "add64 (add64 c UMALLOC_HDR_SIZE) (usz h c) = c + UMALLOC_HDR_SIZE + usz h c"
    using uheap_ok_block(2) [OF ok, of c] c by (simp_all add: sub64_exact add64_exact)
  let ?h0 = "upd_blk c (\<lambda>b. b\<lparr>ub_free := True\<rparr>) h"
  have p0: "free_path fs ?h0" using D(1) by (subst free_path_cong [of _ h]) (auto simp: upd_blk_def)
  obtain h1 where h1: "umalloc_list_insert c ?h0 = Some h1" "free_path (xs @ c # ys) h1" "same_contents ?h0 h1"
    using list_insert_path [OF p0 D(3) cf] fs(2) by metis
  have z: "usz h1 = usz h" "u_sys h1 = u_sys h" using h1(3) by (auto simp: same_contents_def upd_blk_def fun_eq_iff)
  have fr: "\<forall>a \<in> set (xs @ c # ys). ub_free (u_blk h1 a)"
    using h1(3) D(8) fs(1) by (auto simp: same_contents_def upd_blk_def)
  have so: "sorted_wrt (<) (xs @ c # ys)" using link_in_sorted [OF D(2) cf(1)] fs(2) by simp
  note S = free_sets [OF fs(1) D(3,4) c]
  define nxt where "nxt = ub_next (u_blk h1 c)"
  have q: "upath (u_blk h1) (umalloc_free_list h1) xs c" "upath (u_blk h1) nxt ys 0"
    using h1(2) by (auto simp: free_path_def upath_append nxt_def)
  show ?thesis
  proof (cases "nxt \<noteq> 0 \<and> c + UMALLOC_HDR_SIZE + usz h c = nxt")
    case False
    have "uheap_ok lo hi (live - {c}) (xs @ c # ys) h1"
      using h1(2) so fr D(4-7,9) fs(1) unfolding uheap_ok_def S z by auto
    moreover have "uarena (live - {c}) (xs @ c # ys) h1 = uarena live fs h" unfolding uarena_def S z ..
    moreover have "ufree (c + UMALLOC_HDR_SIZE) h = Some h1"
      using False h1(1) b cf(2) fun_cong [OF z(1), of c] unfolding ufree_def nxt_def by (auto simp: Let_def)
    ultimately show ?thesis using that z by metis
  next
    case True
    obtain zs where zs: "ys = nxt # zs" using q(2) True by (cases ys) auto
    let ?h2 = "upd_blk c (\<lambda>b. b\<lparr>ub_size := add64 (ub_size b) (add64 UMALLOC_HDR_SIZE (usz h1 nxt)), ub_next := ub_next (u_blk h1 nxt)\<rparr>) h1"
    have nb: "nxt \<in> set fs" "nxt + UMALLOC_HDR_SIZE + usz h nxt < 2 ^ 63" using fs(1) zs uheap_ok_block(2) [OF ok, of nxt] by auto
    then have a: "add64 (usz h c) (add64 UMALLOC_HDR_SIZE (usz h nxt)) = usz h c + UMALLOC_HDR_SIZE + usz h nxt"
      using True by (auto simp: add64_exact)
    have z2: "usz ?h2 = (usz h)(c := usz h c + UMALLOC_HDR_SIZE + usz h nxt)"
      using a fun_cong [OF z(1)] by (auto simp: upd_blk_def fun_eq_iff)
    have J: "blocks_ok lo hi ((set fs \<union> live) - {nxt}) (usz ?h2)" "arena ((set fs \<union> live) - {nxt}) (usz ?h2) = arena (set fs \<union> live) (usz h)"
      using blocks_join [OF D(9), of c nxt] c nb(1) True unfolding z2 by simp_all
    have nl: "nxt \<notin> live" "nxt \<notin> set xs" "nxt \<notin> set zs" "nxt \<noteq> c" using nb(1) D(3,4) fs(1) zs c by auto
    have S2: "set (xs @ c # zs) \<union> (live - {c}) = (set fs \<union> live) - {nxt}" using S nl unfolding zs by auto
    have "upath (u_blk ?h2) (umalloc_free_list h1) xs c"
      using q(1) cf(1) fs(1) by (subst upath_cong [of _ _ "u_blk h1"]) (auto simp: upd_blk_def)
    moreover have "upath (u_blk ?h2) (ub_next (u_blk h1 nxt)) zs 0"
      using q(2) cf(1) fs(1) zs by (subst upath_cong [of _ _ "u_blk h1"]) (auto simp: upd_blk_def)
    ultimately have "free_path (xs @ c # zs) ?h2"
      using cf(2) unfolding free_path_def upath_append by (auto simp: upd_blk_def)
    moreover have "\<forall>a \<in> set (xs @ c # zs). ub_free (u_blk ?h2 a)" using fr zs by (auto simp: upd_blk_def)
    moreover have "sorted_wrt (<) (xs @ c # zs)" using so zs by (auto simp: sorted_wrt_append)
    moreover have "set (xs @ c # zs) \<inter> (live - {c}) = {}" using D(4) fs(1) zs by auto
    ultimately have e1: "uheap_ok lo hi (live - {c}) (xs @ c # zs) ?h2"
      using D(5-7) J(1) unfolding uheap_ok_def S2 by blast
    have e2: "uarena (live - {c}) (xs @ c # zs) ?h2 = uarena live fs h" unfolding uarena_def S2 by (rule J(2))
    have e3: "ufree (c + UMALLOC_HDR_SIZE) h = Some ?h2"
      using True h1(1) b cf(2) fun_cong [OF z(1), of c] unfolding ufree_def nxt_def by (auto simp: Let_def)
    have e4: "u_sys ?h2 = u_sys h" using z(2) by (simp add: upd_blk_def)
    have e5: "usz ?h2 a = usz h a" if "a \<noteq> c" for a using fun_cong [OF z2, of a] that by simp
    show ?thesis by (rule that [OF e3 e1 e4 e2 e5])
  qed
qed

text \<open>Taking a block off the free list.\<close>

lemma unlink_ok:
  assumes ok: "uheap_ok lo hi live (xs @ c # ys) h"
    and h': "h' = (if last (0 # xs) \<noteq> 0 then set_next (last (0 # xs)) (ub_next (u_blk h c)) h
                   else h\<lparr>umalloc_free_list := ub_next (u_blk h c)\<rparr>)"
  shows "uheap_ok lo hi (insert c live) (xs @ ys) h'" "uarena (insert c live) (xs @ ys) h' = uarena live (xs @ c # ys) h"
    "u_sys h' = u_sys h" "usz h' = usz h" "c \<notin> live"
proof -
  note D = uheap_okD [OF ok]
  have q: "upath (u_blk h) (umalloc_free_list h) xs c" "upath (u_blk h) (ub_next (u_blk h c)) ys 0" "c \<noteq> 0"
    using D(1) by (auto simp: free_path_def upath_append)
  have S: "set (xs @ ys) \<union> insert c live = set (xs @ c # ys) \<union> live" by auto
  show z: "usz h' = usz h" "u_sys h' = u_sys h" "c \<notin> live" using D(4) by (auto simp: h' upd_blk_def fun_eq_iff)
  have f: "ub_free (u_blk h' a) = ub_free (u_blk h a)" for a by (simp add: h' upd_blk_def)
  have "free_path (xs @ ys) h'"
  proof (cases "xs = []")
    case True
    then show ?thesis using q by (simp add: h' free_path_def)
  next
    case False
    then have l: "last xs \<noteq> 0" "last xs \<in> set xs" using upath_nonzero [OF q(1)] last_in_set [of xs] by metis+
    then have h'_eq: "h' = set_next (last xs) (ub_next (u_blk h c)) h" using False by (simp add: h')
    have d: "x \<noteq> last xs" if "x \<in> set (butlast xs)" for x
      using that D(3) False by (cases xs rule: rev_cases) auto
    have "upath (u_blk h') (umalloc_free_list h) xs (ub_next (u_blk h c))"
      by (rule upath_redirect [OF q(1) False]) (use D(3) d in \<open>auto simp: h'_eq upd_blk_def\<close>)
    moreover have "upath (u_blk h') (ub_next (u_blk h c)) ys 0"
      using q(2) D(3) l by (subst upath_cong [of _ _ "u_blk h"]) (auto simp: h'_eq upd_blk_def)
    ultimately show ?thesis unfolding free_path_def upath_append by (auto simp: h'_eq upd_blk_def)
  qed
  moreover have "sorted_wrt (<) (xs @ ys)" using D(2) by (auto simp: sorted_wrt_append)
  moreover have "set (xs @ ys) \<inter> insert c live = {}" using D(3,4) by auto
  ultimately show "uheap_ok lo hi (insert c live) (xs @ ys) h'"
    using D(5-9) f unfolding uheap_ok_def S z(1) by auto
  show "uarena (insert c live) (xs @ ys) h' = uarena live (xs @ c # ys) h" unfolding uarena_def S z(1) ..
qed

lemma uheap_ok_cong:
  "u_blk h' = u_blk h \<Longrightarrow> umalloc_free_list h' = umalloc_free_list h \<Longrightarrow> uheap_ok lo hi live fs h' = uheap_ok lo hi live fs h"
  by (simp add: uheap_ok_def free_path_def)

text \<open>The last step of an allocation changes neither sizes nor the free list.\<close>

lemma mark_used_ok:
  assumes ok: "uheap_ok lo hi live fs h" and c: "c \<in> live" and h': "h' = upd_blk c (\<lambda>b. b\<lparr>ub_free := False, ub_next := 0\<rparr>) h"
  shows "uheap_ok lo hi live fs h'" "usz h' = usz h" "u_sys h' = u_sys h"
proof -
  have n: "c \<notin> set fs" using uheap_okD(4) [OF ok] c by auto
  show z: "usz h' = usz h" "u_sys h' = u_sys h" by (auto simp: h' upd_blk_def fun_eq_iff)
  have "free_path fs h'" using uheap_okD(1) [OF ok] n by (subst free_path_cong [of _ h]) (auto simp: h' upd_blk_def)
  then show "uheap_ok lo hi live fs h'" using ok n unfolding uheap_ok_def z by (auto simp: h' upd_blk_def)
qed

lemma align_up_ok:
  assumes "0 < n" "n + 64 \<le> 2 ^ 64"
  shows "n \<le> umalloc_align_up n" "UMALLOC_ALIGN dvd umalloc_align_up n" "umalloc_align_up n + 48 < 2 ^ 64" "0 < umalloc_align_up n"
proof -
  have "add64 n (UMALLOC_ALIGN - 1) = n + 15" using assms by (simp add: UMALLOC_ALIGN_def add64_exact)
  then have e: "umalloc_align_up n = (n + 15) div 16 * 16" by (simp add: umalloc_align_up_def UMALLOC_ALIGN_def)
  show "n \<le> umalloc_align_up n" unfolding e by linarith
  then show "0 < umalloc_align_up n" using assms(1) by linarith
  show "UMALLOC_ALIGN dvd umalloc_align_up n" unfolding e UMALLOC_ALIGN_def by simp
  have "(n + 15) div 16 * 16 \<le> n + 15" by linarith
  moreover have "n + 15 + 48 < 2 ^ 64" using assms(2) by simp
  ultimately show "umalloc_align_up n + 48 < 2 ^ 64" unfolding e by linarith
qed

section \<open>Allocation over a break\<close>

text \<open>What the allocator needs of the call that moves the break: it returns, and either refuses and leaves the break where
  it is or moves it up by the increment and returns where it was.\<close>

locale break_source =
  fixes sbrk :: "'s sbrk_fn" and inv :: "'s \<Rightarrow> bool" and brk :: "'s \<Rightarrow> nat"
  assumes brk_bound: "inv s \<Longrightarrow> brk s < 2 ^ 63"
    and sbrk_moves: "inv s \<Longrightarrow> 0 < n \<Longrightarrow> n < 2 ^ 64 \<Longrightarrow>
      \<exists>v s'. sbrk n s = Some (v, s') \<and> inv s' \<and> (v = 2 ^ 64 - 1 \<and> brk s' = brk s \<or> v = brk s \<and> brk s' = brk s + n)"
begin

text \<open>The heap of a process: the invariant up to its break.\<close>

definition uproc :: "nat \<Rightarrow> nat set \<Rightarrow> nat list \<Rightarrow> 's uheap \<Rightarrow> bool" where
  "uproc lo live fs h \<longleftrightarrow> inv (u_sys h) \<and> UMALLOC_ALIGN dvd brk (u_sys h) \<and> uheap_ok lo (brk (u_sys h)) live fs h"

lemma grow_ok:
  assumes ok: "uproc lo live fs h" and n: "0 < n" "UMALLOC_ALIGN dvd n" "n + UMALLOC_HDR_SIZE < 2 ^ 64"
  shows "\<exists>r h'. umalloc_grow sbrk n h = Some (r, h') \<and>
    (r = 0 \<and> uproc lo live fs h' \<and> usz h' = usz h \<and> u_blk h' = u_blk h \<and> brk (u_sys h') = brk (u_sys h) \<or>
     r \<noteq> 0 \<and> r \<notin> live \<and> uproc lo (insert r live) fs h' \<and> n \<le> usz h' r \<and> (\<forall>a \<in> live. usz h' a = usz h a) \<and>
     uarena (insert r live) fs h' = uarena live fs h \<union> {brk (u_sys h) ..< brk (u_sys h')} \<and> brk (u_sys h) \<le> brk (u_sys h'))"
proof -
  note U = ok [unfolded uproc_def]
  note D = uheap_okD [OF conjunct2 [OF conjunct2 [OF U]]]
  define chunk where "chunk = (if n + UMALLOC_HDR_SIZE < UMALLOC_MIN_GROW then UMALLOC_MIN_GROW else n + UMALLOC_HDR_SIZE)"
  have c: "UMALLOC_HDR_SIZE \<le> chunk" "n \<le> chunk - UMALLOC_HDR_SIZE" "chunk < 2 ^ 64" "0 < chunk"
    using n by (auto simp: chunk_def umalloc_consts)
  have ca: "UMALLOC_ALIGN dvd chunk" using n(2) by (auto simp: chunk_def umalloc_consts intro!: dvd_add)
  have m: "UMALLOC_ALIGN dvd chunk - UMALLOC_HDR_SIZE" using ca by (intro dvd_diff_nat) (auto simp: umalloc_consts)
  have a: "add64 n UMALLOC_HDR_SIZE = n + UMALLOC_HDR_SIZE" "sub64 chunk UMALLOC_HDR_SIZE = chunk - UMALLOC_HDR_SIZE"
    using n(3) c by (simp_all add: add64_exact sub64_exact)
  obtain v s' where s: "sbrk chunk (u_sys h) = Some (v, s')" "inv s'"
      "v = 2 ^ 64 - 1 \<and> brk s' = brk (u_sys h) \<or> v = brk (u_sys h) \<and> brk s' = brk (u_sys h) + chunk"
    using sbrk_moves [of "u_sys h" chunk] U c by blast
  let ?b = "brk (u_sys h)"
  have bb: "?b < 2 ^ 63" "brk s' < 2 ^ 63" using brk_bound U s(2) by blast+
  show ?thesis
  proof (cases "v = 2 ^ 64 - 1")
    case True
    then have "umalloc_grow sbrk n h = Some (0, h\<lparr>u_sys := s'\<rparr>)"
      using s(1) by (simp add: umalloc_grow_def a chunk_def [symmetric])
    moreover have "uproc lo live fs (h\<lparr>u_sys := s'\<rparr>)"
      using U s bb True uheap_ok_cong [of "h\<lparr>u_sys := s'\<rparr>" h] by (auto simp: uproc_def)
    ultimately show ?thesis using s(3) bb True by auto
  next
    case False
    then have v: "v = ?b" "brk s' = ?b + chunk" using s(3) by auto
    let ?h = "h\<lparr>u_sys := s', u_blk := (u_blk h)(?b := \<lparr>ub_size = chunk - UMALLOC_HDR_SIZE, ub_next = 0, ub_free = True\<rparr>)\<rparr>"
    have g: "umalloc_grow sbrk n h = Some (?b, ?h)"
      using s(1) v False by (simp add: umalloc_grow_def a chunk_def [symmetric])
    have z: "usz ?h = (usz h)(?b := chunk - UMALLOC_HDR_SIZE)" by (auto simp: fun_eq_iff)
    have e: "?b + UMALLOC_HDR_SIZE + (chunk - UMALLOC_HDR_SIZE) = ?b + chunk" using c(1) by simp
    have B: "?b \<notin> set fs \<union> live" "blocks_ok lo (?b + chunk) (insert ?b (set fs \<union> live)) (usz ?h)"
        "arena (insert ?b (set fs \<union> live)) (usz ?h) = arena (set fs \<union> live) (usz h) \<union> {?b ..< ?b + chunk}"
      using blocks_grow [OF D(9,6) _ m] U unfolding z e by simp_all
    have S: "set fs \<union> insert ?b live = insert ?b (set fs \<union> live)" by simp
    have "free_path fs ?h" using D(1) B(1) by (subst free_path_cong [of _ h]) auto
    then have "uheap_ok lo (brk (u_sys ?h)) (insert ?b live) fs ?h"
      using D(2,4-8) B(1,2) bb v unfolding uheap_ok_def S by auto
    then have "uproc lo (insert ?b live) fs ?h" using U s(2) ca v by (simp add: uproc_def)
    moreover have "uarena (insert ?b live) fs ?h = uarena live fs h \<union> {?b ..< brk (u_sys ?h)}"
      unfolding uarena_def S using B(3) v by simp
    moreover have "\<forall>a \<in> live. usz ?h a = usz h a" using B(1) by auto
    moreover have "?b \<noteq> 0" using D(5,6) by simp
    moreover have "n \<le> usz ?h ?b" "?b \<le> brk (u_sys ?h)" using c(2) v by simp_all
    ultimately show ?thesis using g B(1) by (intro exI [of _ ?b] exI [of _ ?h]) blast
  qed
qed

end

context break_source
begin

text \<open>What an allocation does once it has a block: the rest is cut off and the block handed out.\<close>

lemma finish_ok:
  assumes ok: "uproc lo live fs h" and c: "c \<in> live" and n: "n \<le> usz h c" "UMALLOC_ALIGN dvd n"
  shows "\<exists>h' fs'. map_option (\<lambda>h. (add64 c UMALLOC_HDR_SIZE, upd_blk c (\<lambda>b. b\<lparr>ub_free := False, ub_next := 0\<rparr>) h)) (umalloc_split n c h) =
      Some (c + UMALLOC_HDR_SIZE, h') \<and> uproc lo live fs' h' \<and> n \<le> usz h' c \<and> u_sys h' = u_sys h \<and>
    uarena live fs' h' = uarena live fs h \<and> (\<forall>a \<in> live. a \<noteq> c \<longrightarrow> usz h' a = usz h a)"
proof -
  note U = ok [unfolded uproc_def]
  obtain h1 fs' where h1: "umalloc_split n c h = Some h1" "uheap_ok lo (brk (u_sys h)) live fs' h1" "n \<le> usz h1 c" "u_sys h1 = u_sys h"
      "uarena live fs' h1 = uarena live fs h" "\<And>a. a \<in> live \<Longrightarrow> a \<noteq> c \<Longrightarrow> usz h1 a = usz h a"
    using split_ok [OF conjunct2 [OF conjunct2 [OF U]] c n] by metis
  define h2 where "h2 = upd_blk c (\<lambda>b. b\<lparr>ub_free := False, ub_next := 0\<rparr>) h1"
  note M = mark_used_ok [OF h1(2) c h2_def]
  have "c + UMALLOC_HDR_SIZE < 2 ^ 64" using uheap_ok_block(2) [OF h1(2), of c] c by simp
  then have "map_option (\<lambda>h. (add64 c UMALLOC_HDR_SIZE, upd_blk c (\<lambda>b. b\<lparr>ub_free := False, ub_next := 0\<rparr>) h)) (umalloc_split n c h) =
      Some (c + UMALLOC_HDR_SIZE, h2)"
    using h1(1) by (simp add: h2_def add64_exact)
  moreover have "uproc lo live fs' h2" using U M h1(4) by (simp add: uproc_def)
  moreover have "n \<le> usz h2 c" "\<forall>a \<in> live. a \<noteq> c \<longrightarrow> usz h2 a = usz h a" using h1(3,6) fun_cong [OF M(2)] by simp_all
  moreover have "uarena live fs' h2 = uarena live fs h" using h1(5) M(2) by (simp add: uarena_def)
  ultimately show ?thesis using M(3) h1(4) by (intro exI [of _ h2] exI [of _ fs']) simp
qed

text \<open>The outcome of an allocation: null, when no free block is large enough and the break does not move, or the body of a new
  block. The blocks in use keep their sizes, and the arena grows by what the break has moved.\<close>

definition umalloc_result :: "nat \<Rightarrow> nat set \<Rightarrow> nat list \<Rightarrow> 's uheap \<Rightarrow> nat \<Rightarrow> nat \<Rightarrow> 's uheap \<Rightarrow> bool" where
  "umalloc_result lo live fs h n p h' \<longleftrightarrow>
     brk (u_sys h) \<le> brk (u_sys h') \<and> (\<forall>a \<in> live. usz h' a = usz h a) \<and>
     (p = 0 \<and> uproc lo live fs h' \<and> uarena live fs h' = uarena live fs h \<and> brk (u_sys h') = brk (u_sys h) \<and>
        (\<forall>a \<in> set fs. usz h a < umalloc_align_up n) \<or>
      (\<exists>c fs'. p = c + UMALLOC_HDR_SIZE \<and> c \<notin> live \<and> n \<le> usz h' c \<and> uproc lo (insert c live) fs' h' \<and>
        uarena (insert c live) fs' h' = uarena live fs h \<union> {brk (u_sys h) ..< brk (u_sys h')}))"

lemma umalloc_found:
  assumes ok: "uproc lo live fs h" and n: "0 < n" "n + 64 \<le> 2 ^ 64"
    and m: "m = umalloc_align_up n" and hit: "dropWhile (\<lambda>a. \<not> fits (u_blk h) m a) fs = c # ys"
  shows "\<exists>p h'. umalloc sbrk n h = Some (p, h') \<and> umalloc_result lo live fs h n p h'"
proof -
  note A = align_up_ok [OF n, folded m]
  note U = ok [unfolded uproc_def]
  let ?P = "\<lambda>a. \<not> fits (u_blk h) m a"
  define xs where "xs = takeWhile ?P fs"
  have ff: "first_fit (u_blk h) m 0 (umalloc_free_list h) = Some (last (0 # xs), c)"
    unfolding xs_def
    using first_fit_path [OF uheap_okD(1) [OF conjunct2 [OF conjunct2 [OF U]], unfolded free_path_def], of m 0] hit by simp
  have fs: "fs = xs @ c # ys" using takeWhile_dropWhile_id [of ?P fs] hit by (simp add: xs_def)
  have fit: "m \<le> usz h c" using hit hd_dropWhile [of ?P fs] by (auto simp: fits_def)
  have c0: "c \<noteq> 0" using uheap_ok_block(1) [OF conjunct2 [OF conjunct2 [OF U]], of c] fs by simp
  define h1 where "h1 = (if last (0 # xs) \<noteq> 0 then set_next (last (0 # xs)) (ub_next (u_blk h c)) h
                 else h\<lparr>umalloc_free_list := ub_next (u_blk h c)\<rparr>)"
  note L = unlink_ok [OF conjunct2 [OF conjunct2 [OF U, unfolded fs]] h1_def]
  have ok1: "uproc lo (insert c live) (xs @ ys) h1" using U L by (simp add: uproc_def)
  have "m \<le> usz h1 c" using fit fun_cong [OF L(4)] by simp
  from finish_ok [OF ok1 _ this A(2)] obtain h' fs' where f:
    "map_option (\<lambda>h. (add64 c UMALLOC_HDR_SIZE, upd_blk c (\<lambda>b. b\<lparr>ub_free := False, ub_next := 0\<rparr>) h)) (umalloc_split m c h1) =
      Some (c + UMALLOC_HDR_SIZE, h')" "uproc lo (insert c live) fs' h'" "m \<le> usz h' c" "u_sys h' = u_sys h1"
    "uarena (insert c live) fs' h' = uarena (insert c live) (xs @ ys) h1" "\<forall>a \<in> insert c live. a \<noteq> c \<longrightarrow> usz h' a = usz h1 a"
    by blast
  have "umalloc sbrk n h = Some (c + UMALLOC_HDR_SIZE, h')"
    using n(1) ff c0 f(1) unfolding umalloc_def m [symmetric] by (auto simp: h1_def)
  moreover have "\<forall>a \<in> live. usz h' a = usz h a" using f(6) L(5) fun_cong [OF L(4)] by auto
  moreover have "uarena (insert c live) fs' h' = uarena live fs h \<union> {brk (u_sys h) ..< brk (u_sys h')}" "brk (u_sys h') = brk (u_sys h)"
    using f(4,5) L(2,3) fs by simp_all
  moreover have "n \<le> usz h' c" using A(1) f(3) by simp
  ultimately show ?thesis using f(2) L(5)
    by (intro exI [of _ "c + UMALLOC_HDR_SIZE"] exI [of _ h']) (auto simp: umalloc_result_def)
qed

lemma umalloc_grown:
  assumes ok: "uproc lo live fs h" and n: "0 < n" "n + 64 \<le> 2 ^ 64"
    and m: "m = umalloc_align_up n" and hit: "dropWhile (\<lambda>a. \<not> fits (u_blk h) m a) fs = []"
  shows "\<exists>p h'. umalloc sbrk n h = Some (p, h') \<and> umalloc_result lo live fs h n p h'"
proof -
  note A = align_up_ok [OF n, folded m]
  note D = uheap_okD [OF conjunct2 [OF conjunct2 [OF ok [unfolded uproc_def]]]]
  have ff: "first_fit (u_blk h) m 0 (umalloc_free_list h) = Some (last (0 # fs), 0)"
    using first_fit_path [OF D(1) [unfolded free_path_def], of m 0] hit by simp
  have no: "\<forall>a \<in> set fs. usz h a < m" using hit D(8) by (auto simp: fits_def)
  obtain r h1 where g: "umalloc_grow sbrk m h = Some (r, h1)"
    "r = 0 \<and> uproc lo live fs h1 \<and> usz h1 = usz h \<and> u_blk h1 = u_blk h \<and> brk (u_sys h1) = brk (u_sys h) \<or>
     r \<noteq> 0 \<and> r \<notin> live \<and> uproc lo (insert r live) fs h1 \<and> m \<le> usz h1 r \<and> (\<forall>a \<in> live. usz h1 a = usz h a) \<and>
     uarena (insert r live) fs h1 = uarena live fs h \<union> {brk (u_sys h) ..< brk (u_sys h1)} \<and> brk (u_sys h) \<le> brk (u_sys h1)"
    using grow_ok [OF ok A(4,2)] A(3) by (auto simp: UMALLOC_HDR_SIZE_def)
  show ?thesis
  proof (cases "r = 0")
    case True
    then have "umalloc sbrk n h = Some (0, h1)" using n(1) ff g(1) unfolding umalloc_def m [symmetric] by simp
    then show ?thesis using True g(2) no unfolding umalloc_result_def m [symmetric] by (auto simp: uarena_def)
  next
    case False
    then have r: "r \<notin> live" "uproc lo (insert r live) fs h1" "m \<le> usz h1 r" "\<forall>a \<in> live. usz h1 a = usz h a"
      "uarena (insert r live) fs h1 = uarena live fs h \<union> {brk (u_sys h) ..< brk (u_sys h1)}" "brk (u_sys h) \<le> brk (u_sys h1)"
      using g(2) by auto
    from finish_ok [OF r(2) _ r(3) A(2)] obtain h' fs' where f:
      "map_option (\<lambda>h. (add64 r UMALLOC_HDR_SIZE, upd_blk r (\<lambda>b. b\<lparr>ub_free := False, ub_next := 0\<rparr>) h)) (umalloc_split m r h1) =
        Some (r + UMALLOC_HDR_SIZE, h')" "uproc lo (insert r live) fs' h'" "m \<le> usz h' r" "u_sys h' = u_sys h1"
      "uarena (insert r live) fs' h' = uarena (insert r live) fs h1" "\<forall>a \<in> insert r live. a \<noteq> r \<longrightarrow> usz h' a = usz h1 a"
      by blast
    have "umalloc sbrk n h = Some (r + UMALLOC_HDR_SIZE, h')"
      using n(1) ff g(1) False f(1) unfolding umalloc_def m [symmetric] by simp
    moreover have "\<forall>a \<in> live. usz h' a = usz h a" using f(6) r(1,4) by auto
    moreover have "uarena (insert r live) fs' h' = uarena live fs h \<union> {brk (u_sys h) ..< brk (u_sys h')}" "brk (u_sys h) \<le> brk (u_sys h')"
      using f(4,5) r(5,6) by simp_all
    moreover have "n \<le> usz h' r" using A(1) f(3) by simp
    ultimately show ?thesis using f(2) r(1)
      by (intro exI [of _ "r + UMALLOC_HDR_SIZE"] exI [of _ h']) (auto simp: umalloc_result_def)
  qed
qed

lemma umalloc_ok:
  assumes "uproc lo live fs h" "0 < n" "n + 64 \<le> 2 ^ 64"
  shows "\<exists>p h'. umalloc sbrk n h = Some (p, h') \<and> umalloc_result lo live fs h n p h'"
  using umalloc_found [OF assms refl] umalloc_grown [OF assms refl]
  by (cases "dropWhile (\<lambda>a. \<not> fits (u_blk h) (umalloc_align_up n) a) fs") auto

end

section \<open>Programs that allocate and free\<close>

text \<open>The states a program reaches by allocating and by freeing what it holds; the map gives the pointers it holds with the
  sizes it asked for.\<close>

inductive urun :: "'s sbrk_fn \<Rightarrow> 's uheap \<Rightarrow> (nat \<rightharpoonup> nat) \<Rightarrow> 's uheap \<Rightarrow> bool" for sbrk h0 where
  urun_start: "urun sbrk h0 Map.empty h0"
| urun_alloc: "urun sbrk h0 live h \<Longrightarrow> 0 < n \<Longrightarrow> n + 64 \<le> 2 ^ 64 \<Longrightarrow> umalloc sbrk n h = Some (p, h') \<Longrightarrow>
    urun sbrk h0 (if p = 0 then live else live(p \<mapsto> n)) h'"
| urun_free: "urun sbrk h0 live h \<Longrightarrow> live p = Some n \<Longrightarrow> ufree p h = Some h' \<Longrightarrow> urun sbrk h0 (live(p := None)) h'"

definition held_blocks :: "(nat \<rightharpoonup> nat) \<Rightarrow> nat set" where
  "held_blocks live = (\<lambda>p. p - UMALLOC_HDR_SIZE) ` dom live"

definition held_ok :: "(nat \<rightharpoonup> nat) \<Rightarrow> 's uheap \<Rightarrow> bool" where
  "held_ok live h \<longleftrightarrow> (\<forall>p n. live p = Some n \<longrightarrow> UMALLOC_HDR_SIZE \<le> p \<and> n \<le> usz h (p - UMALLOC_HDR_SIZE))"

lemma held_blocks_add: "held_blocks (live(c + UMALLOC_HDR_SIZE \<mapsto> n)) = insert c (held_blocks live)"
  by (auto simp: held_blocks_def)

lemma held_blocks_remove:
  assumes "held_ok live h" "live p = Some n"
  shows "held_blocks (live(p := None)) = held_blocks live - {p - UMALLOC_HDR_SIZE}" "p - UMALLOC_HDR_SIZE \<in> held_blocks live"
proof -
  have "q - UMALLOC_HDR_SIZE \<noteq> p - UMALLOC_HDR_SIZE" if "q \<in> dom live" "q \<noteq> p" for q
  proof -
    have "UMALLOC_HDR_SIZE \<le> q" "UMALLOC_HDR_SIZE \<le> p" using that assms by (auto simp: held_ok_def)
    then show ?thesis using that(2) by arith
  qed
  then show "held_blocks (live(p := None)) = held_blocks live - {p - UMALLOC_HDR_SIZE}" by (auto simp: held_blocks_def)
  show "p - UMALLOC_HDR_SIZE \<in> held_blocks live" using assms(2) by (auto simp: held_blocks_def)
qed

context break_source
begin

definition urun_inv :: "nat \<Rightarrow> (nat \<rightharpoonup> nat) \<Rightarrow> nat list \<Rightarrow> 's uheap \<Rightarrow> bool" where
  "urun_inv lo live fs h \<longleftrightarrow> held_ok live h \<and> uproc lo (held_blocks live) fs h \<and> uarena (held_blocks live) fs h = {lo ..< brk (u_sys h)}"

lemma urun_inv_alloc:
  assumes i: "urun_inv lo live fs h" and n: "0 < n" "n + 64 \<le> 2 ^ 64" and r: "umalloc sbrk n h = Some (p, h')"
  shows "\<exists>fs'. urun_inv lo (if p = 0 then live else live(p \<mapsto> n)) fs' h'"
proof -
  have u: "uproc lo (held_blocks live) fs h" "uarena (held_blocks live) fs h = {lo ..< brk (u_sys h)}" "held_ok live h"
    using i by (auto simp: urun_inv_def)
  have R: "umalloc_result lo (held_blocks live) fs h n p h'" using umalloc_ok [OF u(1) n] r by auto
  have k: "held_ok live h'" using R u(3) by (auto simp: umalloc_result_def held_ok_def held_blocks_def dom_def)
  have lo: "lo \<le> brk (u_sys h)" using u(1) uheap_okD(6) by (auto simp: uproc_def)
  have b: "brk (u_sys h) \<le> brk (u_sys h')" using R by (simp add: umalloc_result_def)
  consider (null) "p = 0" "uproc lo (held_blocks live) fs h'" "uarena (held_blocks live) fs h' = {lo ..< brk (u_sys h')}"
    | (new) c fs' where "p = c + UMALLOC_HDR_SIZE" "n \<le> usz h' c" "uproc lo (insert c (held_blocks live)) fs' h'"
        "uarena (insert c (held_blocks live)) fs' h' = {lo ..< brk (u_sys h')}"
    using R u(2) lo b ivl_disj_un_two(3) [of lo "brk (u_sys h)" "brk (u_sys h')"] unfolding umalloc_result_def by auto
  then show ?thesis
  proof cases
    case null
    then show ?thesis using k by (auto simp: urun_inv_def)
  next
    case new
    have "held_ok (live(p \<mapsto> n)) h'" using k new(1,2) by (auto simp: held_ok_def)
    then show ?thesis using new held_blocks_add [of live c n] by (auto simp: urun_inv_def UMALLOC_HDR_SIZE_def)
  qed
qed

lemma urun_inv_free:
  assumes i: "urun_inv lo live fs h" and p: "live p = Some n"
  shows "\<exists>h' fs'. ufree p h = Some h' \<and> urun_inv lo (live(p := None)) fs' h'"
proof -
  have u: "uproc lo (held_blocks live) fs h" "uarena (held_blocks live) fs h = {lo ..< brk (u_sys h)}" "held_ok live h"
    using i by (auto simp: urun_inv_def)
  define c where "c = p - UMALLOC_HDR_SIZE"
  note H = held_blocks_remove [OF u(3) p, folded c_def]
  have pc: "p = c + UMALLOC_HDR_SIZE" using u(3) p by (auto simp: held_ok_def c_def)
  have ok: "uheap_ok lo (brk (u_sys h)) (held_blocks live) fs h" using u(1) by (simp add: uproc_def)
  obtain h' fs' where f: "ufree (c + UMALLOC_HDR_SIZE) h = Some h'" "uheap_ok lo (brk (u_sys h)) (held_blocks live - {c}) fs' h'"
      "u_sys h' = u_sys h" "uarena (held_blocks live - {c}) fs' h' = uarena (held_blocks live) fs h"
      "\<And>a. a \<in> held_blocks live \<Longrightarrow> a \<noteq> c \<Longrightarrow> usz h' a = usz h a"
    using ufree_ok [OF ok H(2)] by metis
  have "q - UMALLOC_HDR_SIZE \<in> held_blocks (live(p := None))" if "live q \<noteq> None" "q \<noteq> p" for q
    using that by (auto simp: held_blocks_def)
  then have "q - UMALLOC_HDR_SIZE \<in> held_blocks live \<and> q - UMALLOC_HDR_SIZE \<noteq> c" if "live q \<noteq> None" "q \<noteq> p" for q
    using that H(1) by auto
  then have "held_ok (live(p := None)) h'" using u(3) f(5) unfolding held_ok_def by (auto split: if_splits)
  then show ?thesis using f u H(1) pc by (auto simp: urun_inv_def uproc_def)
qed

lemma urun_keeps:
  assumes "urun sbrk h0 live h" "umalloc_free_list h0 = 0" "inv (u_sys h0)" "0 < brk (u_sys h0)" "UMALLOC_ALIGN dvd brk (u_sys h0)"
  shows "\<exists>fs. urun_inv (brk (u_sys h0)) live fs h"
  using assms
proof (induction rule: urun.induct)
  case urun_start
  then show ?case using brk_bound
    by (intro exI [of _ "[]"]) (auto simp: urun_inv_def held_ok_def uproc_def uheap_ok_def free_path_def blocks_ok_def uarena_def arena_def held_blocks_def)
next
  case (urun_alloc live h n p h')
  then show ?case using urun_inv_alloc by blast
next
  case (urun_free live h p n h')
  then show ?case using urun_inv_free by (metis option.inject)
qed

text \<open>What the program has of it.\<close>

lemma urun_inv_safe:
  assumes i: "urun_inv lo live fs h" and p: "live p = Some n"
  shows "UMALLOC_ALIGN dvd p" "lo \<le> p" "p + n \<le> brk (u_sys h)" "live q = Some m \<Longrightarrow> q \<noteq> p \<Longrightarrow> {p ..< p + n} \<inter> {q ..< q + m} = {}"
proof -
  have u: "blocks_ok lo (brk (u_sys h)) (set fs \<union> held_blocks live) (usz h)" "held_ok live h"
    using i uheap_okD(9) by (auto simp: urun_inv_def uproc_def)
  have r: "x - UMALLOC_HDR_SIZE \<in> set fs \<union> held_blocks live \<and> x - UMALLOC_HDR_SIZE + UMALLOC_HDR_SIZE = x \<and> k \<le> usz h (x - UMALLOC_HDR_SIZE)"
    if "live x = Some k" for x k
    using that u(2) by (auto simp: held_ok_def held_blocks_def)
  note B = blocks_okD [OF u(1) conjunct1 [OF r [OF p]]]
  show "lo \<le> p" "p + n \<le> brk (u_sys h)" using B(1,2) r [OF p] by auto
  show "UMALLOC_ALIGN dvd p" using dvd_add [OF B(3), of UMALLOC_HDR_SIZE] r [OF p] by (simp add: umalloc_consts)
  assume q: "live q = Some m" "q \<noteq> p"
  then have "p - UMALLOC_HDR_SIZE \<noteq> q - UMALLOC_HDR_SIZE" using r [OF p] r [OF q(1)] by metis
  from ublocks_apart [OF u(1) conjunct1 [OF r [OF p]] conjunct1 [OF r [OF q(1)]] this]
  show "{p ..< p + n} \<inter> {q ..< q + m} = {}" using r [OF p] r [OF q(1)] by auto
qed

end

end
