(* ===== verification/User_Heap.thy ===== *)
theory User_Heap
  imports UMalloc_Props Syscall_Props
begin

text \<open>
  The allocator of a user program on the kernel below it: \<open>umalloc\<close> grows its heap through the system call dispatcher, which
  maps the pages of the process. Shown: whatever a program allocates and frees, the blocks it holds are apart, inside the
  part of its heap that the kernel has mapped, and nothing of the heap is lost.
\<close>

section \<open>The system call as a break\<close>

definition SYS_SBRK :: nat where "SYS_SBRK = 18"

text \<open>The other registers are whatever the program has in them.\<close>

definition usyscall1 :: "'s driver \<Rightarrow> sys_env \<Rightarrow> regs \<Rightarrow> nat \<Rightarrow> nat \<Rightarrow> 's sys \<Rightarrow> (nat \<times> 's sys) option" where
  "usyscall1 D env r num a1 y =
     (case syscall_dispatch D env (r\<lparr>r_rax := of_nat num, r_rdi := of_nat a1\<rparr>) y of
        Done (v, y') \<Rightarrow> Some (unat v, y') | _ \<Rightarrow> None)"

abbreviation usbrk :: "'s driver \<Rightarrow> sys_env \<Rightarrow> regs \<Rightarrow> 's sys sbrk_fn" where
  "usbrk D env r \<equiv> usyscall1 D env r SYS_SBRK"

definition proc_brk :: "nat \<Rightarrow> 's sys \<Rightarrow> nat" where
  "proc_brk i y = t_heap_brk (task_pool (y_sched y) ! i)"

text \<open>Task \<open>i\<close> runs, with a heap from \<open>lo\<close> on and the address space at \<open>ap\<close>.\<close>

definition heap_process :: "sys_env \<Rightarrow> nat \<Rightarrow> nat \<Rightarrow> nat \<Rightarrow> 's sys \<Rightarrow> bool" where
  "heap_process env ap i lo y \<longleftrightarrow>
     (\<exists>as. process_ok env as y \<and> as_ptr as = ap) \<and> cur_task (y_sched y) = Some (Slot i) \<and> i < length (task_pool (y_sched y)) \<and>
     (let t = task_pool (y_sched y) ! i in t_as t \<noteq> 0 \<and> t_heap_end t \<noteq> 0 \<and> t_heap_start t = lo \<and> t_heap_brk t \<le> t_heap_end t)"

lemma heap_process_mapped:
  assumes "heap_process env ap i lo y"
  shows "\<exists>as. process_ok env as y \<and> as_ptr as = ap \<and> seg_mapped (k_mem (y_k y)) as lo (proc_brk i y)" "proc_brk i y \<le> VMM_USER_BASE + VMM_USER_SIZE"
proof -
  obtain as where a: "process_ok env as y" "as_ptr as = ap" using assms by (auto simp: heap_process_def)
  have "brk_task (k_mem (y_k y)) as (task_pool (y_sched y) ! i)"
    using a(1) assms by (simp add: process_ok_def brk_ok_def heap_process_def get_task_def)
  then show "\<exists>as. process_ok env as y \<and> as_ptr as = ap \<and> seg_mapped (k_mem (y_k y)) as lo (proc_brk i y)" "proc_brk i y \<le> VMM_USER_BASE + VMM_USER_SIZE"
    using a assms by (auto simp: heap_process_def proc_brk_def brk_task_def Let_def)
qed

lemma sint_of_nat_pos:
  assumes "n < 2 ^ 64" "0 \<le> sint (of_nat n :: u64)"
  shows "nat (sint (of_nat n :: u64)) = n"
proof -
  have s: "sint (of_nat n :: u64) = signed_take_bit 63 (int n)" by (simp add: signed_of_nat)
  then have b: "\<not> bit (int n) 63" using assms(2) by simp
  have "int n < 2 ^ 64" using assms(1) by (simp add: zless_nat_eq_int_zless [symmetric])
  then have "int n = take_bit (Suc 63) (int n)" by (simp add: take_bit_int_eq_self)
  also have "\<dots> = take_bit 63 (int n)" using b by (simp only: take_bit_Suc_from_most) simp
  finally show ?thesis using s b by (simp add: signed_take_bit_eq_if_positive)
qed

interpretation proc_heap: break_source "usbrk D env r" "heap_process env ap i lo" "proc_brk i" for D env r ap i lo
proof unfold_locales
  fix y :: "'a sys" and n :: nat
  assume p: "heap_process env ap i lo y"
  have "proc_brk i y \<le> 2 ^ 31" using heap_process_mapped(2) [OF p] by (simp add: VMM_USER_BASE_def VMM_USER_SIZE_def)
  then show b: "proc_brk i y < 2 ^ 63" by simp
  assume n: "0 < n" "n < 2 ^ 64"
  obtain as where a: "process_ok env as y" "as_ptr as = ap" using p by (auto simp: heap_process_def)
  define t where "t = task_pool (y_sched y) ! i"
  have c: "the (cur_task (y_sched y)) = Slot i" "cur_task (y_sched y) = Some (Slot i)" "i < length (task_pool (y_sched y))"
    using p by (simp_all add: heap_process_def)
  let ?r = "r\<lparr>r_rax := of_nat SYS_SBRK, r_rdi := of_nat n\<rparr>"
  obtain v y' where s: "sys_sbrk env ?r y = Done (v, y')" "sstep env as y y'" "cur_task (y_sched y') = Some (Slot i)"
      "length (task_pool (y_sched y')) = length (task_pool (y_sched y))" "brk_moved ?r t v (task_pool (y_sched y') ! i)"
    using sys_sbrk_ok [OF a(1) refl, of ?r] c by (auto simp: get_task_def t_def)
  have d: "usbrk D env r n y = Some (unat v, y')" using s(1) by (simp add: usyscall1_def syscall_dispatch_def SYS_SBRK_def)
  obtain as' where a': "process_ok env as' y'" "as_ptr as' = ap" using s(2) a(2) by (auto simp: sstep_def)
  have "heap_process env ap i lo y'"
    using p s(3-5) a' unfolding heap_process_def t_def [symmetric] brk_moved_def by (auto simp: Let_def)
  moreover have "unat v = 2 ^ 64 - 1 \<and> proc_brk i y' = proc_brk i y \<or> unat v = proc_brk i y \<and> proc_brk i y' = proc_brk i y + n"
  proof (cases "v = minus_one \<and> task_pool (y_sched y') ! i = t")
    case True
    then show ?thesis by (simp add: proc_brk_def t_def minus_one_def unsigned_minus_1_eq_mask mask_eq_exp_minus_1)
  next
    case False
    then have e: "v = of_nat (t_heap_brk t) \<and> 0 \<le> sint (r_rdi ?r) \<and>
        task_pool (y_sched y') ! i = t\<lparr>t_heap_brk := t_heap_brk t + nat (sint (r_rdi ?r))\<rparr>"
      using s(5) unfolding brk_moved_def by blast
    have m: "v = of_nat (t_heap_brk t)" "0 \<le> sint (of_nat n :: u64)" "t_heap_brk (task_pool (y_sched y') ! i) = t_heap_brk t + nat (sint (of_nat n :: u64))"
      using conjunct1 [OF e] conjunct1 [OF conjunct2 [OF e]] arg_cong [OF conjunct2 [OF conjunct2 [OF e]], of t_heap_brk] by simp_all
    then show ?thesis using b sint_of_nat_pos [OF n(2) m(2)]
      by (simp add: proc_brk_def t_def unsigned_of_nat take_bit_nat_eq_self)
  qed
  ultimately show "\<exists>v s'. usbrk D env r n y = Some (v, s') \<and> heap_process env ap i lo s' \<and>
      (v = 2 ^ 64 - 1 \<and> proc_brk i s' = proc_brk i y \<or> v = proc_brk i y \<and> proc_brk i s' = proc_brk i y + n)"
    using d by blast
qed

section \<open>Programs on the kernel\<close>

text \<open>C10: a program that starts with an empty heap and allocates (at most \<open>2 ^ 64 - 64\<close> bytes at a time) and frees in any order holds only aligned pointers to
  blocks that do not overlap and lie between the start of its heap and its break, where the kernel has mapped every page
  for it; every further allocation and every release of what it holds returns; and once it has released everything, the free
  list covers the whole heap, so no byte that the kernel gave is lost.\<close>

theorem umalloc_over_sbrk:
  assumes "process_ok env as y" "cur_task (y_sched y) = Some (Slot i)" "i < length (task_pool (y_sched y))"
    and "t = task_pool (y_sched y) ! i" "t_as t \<noteq> 0" "0 < t_heap_start t" "t_heap_brk t = t_heap_start t"
      "t_heap_start t \<le> t_heap_end t" "UMALLOC_ALIGN dvd t_heap_start t"
    and "umalloc_free_list h0 = 0" "u_sys h0 = y" "urun (usbrk D env r) h0 held h"
  shows "\<exists>as'. process_ok env as' (u_sys h) \<and> as_ptr as' = as_ptr as \<and>
    seg_mapped (k_mem (y_k (u_sys h))) as' (t_heap_start t) (proc_brk i (u_sys h)) \<and>
    (\<forall>p n. held p = Some n \<longrightarrow> UMALLOC_ALIGN dvd p \<and> t_heap_start t \<le> p \<and> p + n \<le> proc_brk i (u_sys h) \<and>
       (\<exists>h'. ufree p h = Some h') \<and> (\<forall>q m. held q = Some m \<and> q \<noteq> p \<longrightarrow> {p ..< p + n} \<inter> {q ..< q + m} = {})) \<and>
    (\<forall>n. 0 < n \<and> n + 64 \<le> 2 ^ 64 \<longrightarrow> (\<exists>p h'. umalloc (usbrk D env r) n h = Some (p, h'))) \<and>
    (held = Map.empty \<longrightarrow> (\<exists>fs. free_path fs h \<and> arena (set fs) (usz h) = {t_heap_start t ..< proc_brk i (u_sys h)}))"
proof -
  let ?lo = "t_heap_start t"
  have p: "heap_process env (as_ptr as) i ?lo (u_sys h0)" "proc_brk i (u_sys h0) = ?lo"
    using assms(1-8,11) by (auto simp: heap_process_def proc_brk_def Let_def)
  obtain fs where I: "proc_heap.urun_inv env (as_ptr as) i ?lo ?lo held fs h"
    using proc_heap.urun_keeps [OF assms(12,10) p(1)] assms(6,9) unfolding p(2) by blast
  have u: "proc_heap.uproc env (as_ptr as) i ?lo ?lo (held_blocks held) fs h"
      "uarena (held_blocks held) fs h = {?lo ..< proc_brk i (u_sys h)}"
    using I by (simp_all add: proc_heap.urun_inv_def)
  have hp: "heap_process env (as_ptr as) i ?lo (u_sys h)" and fp: "free_path fs h"
    using u(1) uheap_okD(1) by (auto simp: proc_heap.uproc_def)
  have al: "\<exists>p h'. umalloc (usbrk D env r) n h = Some (p, h')" if "0 < n" "n + 64 \<le> 2 ^ 64" for n
    using proc_heap.umalloc_ok [OF u(1) that] by blast
  have fr: "\<exists>h'. ufree p h = Some h'" if "held p = Some n" for p n using proc_heap.urun_inv_free [OF I that] by blast
  have em: "\<exists>fs. free_path fs h \<and> arena (set fs) (usz h) = {?lo ..< proc_brk i (u_sys h)}" if "held = Map.empty"
    using u(2) fp that by (intro exI [of _ fs]) (simp add: uarena_def held_blocks_def)
  obtain as' where "process_ok env as' (u_sys h)" "as_ptr as' = as_ptr as" "seg_mapped (k_mem (y_k (u_sys h))) as' ?lo (proc_brk i (u_sys h))"
    using heap_process_mapped(1) [OF hp] by blast
  moreover have "\<forall>p n. held p = Some n \<longrightarrow> UMALLOC_ALIGN dvd p \<and> ?lo \<le> p \<and> p + n \<le> proc_brk i (u_sys h) \<and>
      (\<exists>h'. ufree p h = Some h') \<and> (\<forall>q m. held q = Some m \<and> q \<noteq> p \<longrightarrow> {p ..< p + n} \<inter> {q ..< q + m} = {})"
    by (intro allI impI conjI; (elim conjE)?; (rule fr proc_heap.urun_inv_safe [OF I]; assumption))
  ultimately show ?thesis using al em by (intro exI [of _ as']) blast
qed

definition uheap_example :: "fat_state sys uheap" where
  "uheap_example = \<lparr>umalloc_free_list = 0, u_blk = \<lambda>_. \<lparr>ub_size = 0, ub_next = 0, ub_free = False\<rparr>, u_sys = sys_example\<rparr>"

definition regs_example :: regs where
  "regs_example = \<lparr>r_rax = 0, r_rdi = 0, r_rsi = 0, r_rdx = 0, r_r10 = 0\<rparr>"

theorem umalloc_over_sbrk_witness:
  "\<exists>p h'. umalloc (usbrk (fat_driver no_mount no_mount no_mount no_defrag) sys_env_example regs_example) 100 uheap_example = Some (p, h') \<and>
     (p = 0 \<or> 0x40000000 \<le> p \<and> p + 100 \<le> proc_brk 3 (u_sys h'))"
proof -
  let ?s = "usbrk (fat_driver no_mount no_mount no_mount no_defrag) sys_env_example regs_example"
  have t: "t_as task_example \<noteq> 0" "0 < t_heap_start task_example" "t_heap_brk task_example = t_heap_start task_example"
    "t_heap_start task_example \<le> t_heap_end task_example" "UMALLOC_ALIGN dvd t_heap_start task_example" "t_heap_start task_example = 0x40000000"
    by (simp_all add: task_example_def UMALLOC_ALIGN_def)
  have h: "umalloc_free_list uheap_example = 0" "u_sys uheap_example = sys_example" by (simp_all add: uheap_example_def)
  note safe = umalloc_over_sbrk [OF sys_example_ok(1-3) sys_example_ok(4) [symmetric] t(1-5) h,
      where D = "fat_driver no_mount no_mount no_mount no_defrag" and r = regs_example]
  have "\<forall>n. 0 < n \<and> n + 64 \<le> 2 ^ 64 \<longrightarrow> (\<exists>p h'. umalloc ?s n uheap_example = Some (p, h'))" using safe [OF urun_start] by (elim exE conjE)
  from this [rule_format, of 100] obtain p h' where a: "umalloc ?s 100 uheap_example = Some (p, h')" by auto
  let ?m = "if p = 0 then Map.empty else [p \<mapsto> 100]"
  have "urun ?s uheap_example ?m h'" using urun_alloc [OF urun_start _ _ a] by simp
  from safe [OF this] have "\<forall>q n. ?m q = Some n \<longrightarrow> 0x40000000 \<le> q \<and> q + n \<le> proc_brk 3 (u_sys h')"
    unfolding t(6) by (elim exE conjE) blast
  from this [rule_format, of p 100] have "p = 0 \<or> 0x40000000 \<le> p \<and> p + 100 \<le> proc_brk 3 (u_sys h')" by auto
  then show ?thesis using a by blast
qed

text \<open>The rounding of the size is not checked for overflow: the largest requests are rounded to zero, and are then served by
  any free block at all.\<close>

lemma umalloc_size_wraps: "2 ^ 64 - 16 < n \<Longrightarrow> n < 2 ^ 64 \<Longrightarrow> umalloc_align_up n = 0"
  by (simp add: umalloc_align_up_def UMALLOC_ALIGN_def add64_def mod_if)

end
