(* ===== verification/Input.thy ===== *)
theory Input
  imports Events Gfx KFormat
begin

text \<open>
  The keyboard and the mouse (\<open>drivers/keyboard.c\<close>, \<open>drivers/mouse.c\<close>): scancodes and packets that arrive by interrupts
  become characters, positions and events of \<open>ui/event.c\<close>. Reading a port is an argument of the handlers, the
  acknowledgement of the interrupt has no effect on this state. The initialisation of the controller is left out.
\<close>

section \<open>Keyboard\<close>

record kbd =
  cur_scancode :: u8
  shift_pressed :: bool
  e0_prefix :: bool
  ev_shift :: bool
  kb_ev :: evstate

definition KEY_UP :: u8 where "KEY_UP = 0x60"
definition KEY_DOWN :: u8 where "KEY_DOWN = 0x61"
definition KEY_LEFT :: u8 where "KEY_LEFT = 0x62"
definition KEY_RIGHT :: u8 where "KEY_RIGHT = 0x63"

definition keymap :: "u8 list" where
  "keymap = [0, 27] @ lit ''1234567890-='' @ [8, 9] @ lit ''qwertyuiop[]'' @ [10, 0] @ lit ''asdfghjkl;'' @ [0x27, 0x60, 0, 0x5C] @
     lit ''zxcvbnm,./'' @ [0, 0x2A, 0, 0x20] @ replicate 70 0"

definition keymap_shift :: "u8 list" where
  "keymap_shift = [0, 27] @ lit ''!@#$%^&*()_+'' @ [8, 9] @ lit ''QWERTYUIOP{}'' @ [10, 0] @ lit ''ASDFGHJKL:'' @ [0x22, 0x7E, 0, 0x7C] @
     lit ''ZXCVBNM<>?'' @ [0, 0x2A, 0, 0x20] @ replicate 70 0"

definition shift_code :: "u8 \<Rightarrow> bool" where "shift_code sc \<longleftrightarrow> sc = 0x2A \<or> sc = 0x36"

definition key_char :: "bool \<Rightarrow> u8 \<Rightarrow> u8" where
  "key_char shift sc = (if shift then keymap_shift ! unat sc else keymap ! unat sc)"

definition get_cur_scancode :: "kbd \<Rightarrow> u8 \<times> kbd" where
  "get_cur_scancode s = (cur_scancode s, s\<lparr>cur_scancode := 0\<rparr>)"

text \<open>\<open>None\<close> while the call still waits for an interrupt.\<close>

definition keyboard_receive_key :: "bool \<Rightarrow> kbd \<Rightarrow> (u8 \<times> kbd) option" where
  "keyboard_receive_key halt s =
     (let sc = cur_scancode s in
      if halt \<and> sc = 0 then None
      else if sc AND 0x80 \<noteq> 0 then
        Some (0, (if shift_code (sc AND 0x7F) then s\<lparr>shift_pressed := False\<rparr> else s)\<lparr>cur_scancode := 0\<rparr>)
      else if shift_code sc then Some (0, s\<lparr>shift_pressed := True, cur_scancode := 0\<rparr>)
      else Some (key_char (shift_pressed s) sc, s\<lparr>cur_scancode := 0\<rparr>))"

definition kbd_push_event :: "u8 \<Rightarrow> kbd \<Rightarrow> kbd" where
  "kbd_push_event sc s =
     (if sc AND 0x80 \<noteq> 0 then
        let rel = sc AND 0x7F; s = (if shift_code rel then s\<lparr>ev_shift := False\<rparr> else s)
        in s\<lparr>kb_ev := event_push_key (kb_ev s) rel False 0\<rparr>
      else
        let s = (if shift_code sc then s\<lparr>ev_shift := True\<rparr> else s);
            ch = (if sc < 128 then key_char (ev_shift s) sc else 0)
        in s\<lparr>kb_ev := event_push_key (kb_ev s) sc True ch\<rparr>)"

definition arrow_code :: "u8 \<Rightarrow> u8 \<Rightarrow> u8" where
  "arrow_code sc cur =
     (if sc = 0x48 then KEY_UP else if sc = 0x50 then KEY_DOWN else if sc = 0x4B then KEY_LEFT else if sc = 0x4D then KEY_RIGHT else cur)"

text \<open>The handler of the keyboard interrupt, with the byte read from port 0x60.\<close>

definition kb_callback :: "u8 \<Rightarrow> kbd \<Rightarrow> kbd" where
  "kb_callback sc s =
     (if sc = 0xE0 then s\<lparr>e0_prefix := True\<rparr>
      else if e0_prefix s then
        let s = s\<lparr>e0_prefix := False\<rparr> in
        if sc AND 0x80 = 0 then
          let s = s\<lparr>cur_scancode := arrow_code sc (cur_scancode s)\<rparr> in
          if cur_scancode s \<ge> KEY_UP \<and> cur_scancode s \<le> KEY_RIGHT
          then s\<lparr>kb_ev := event_push_key (kb_ev s) (cur_scancode s) True 0\<rparr> else s
        else s
      else kbd_push_event sc (s\<lparr>cur_scancode := sc\<rparr>))"

definition kbd_inject_scancode :: "u8 \<Rightarrow> kbd \<Rightarrow> kbd" where
  "kbd_inject_scancode sc s =
     (let s = (if cur_scancode s = 0 then s\<lparr>cur_scancode := sc\<rparr> else s) in
      if sc \<ge> KEY_UP \<and> sc \<le> KEY_RIGHT then s\<lparr>kb_ev := event_push_key (kb_ev s) sc True 0\<rparr> else kbd_push_event sc s)"

section \<open>Reading a line\<close>

text \<open>The calls that show the line on the screen.\<close>

datatype echo_op = Set_Cursor int | Print u8

record line =
  ln_buf :: "u8 list"
  ln_len :: nat
  ln_pos :: nat
  ln_shift :: bool
  ln_out :: "echo_op list"

definition echo_ops :: "bool \<Rightarrow> echo_op list \<Rightarrow> line \<Rightarrow> line" where
  "echo_ops echo ops l = (if echo then l\<lparr>ln_out := ln_out l @ ops\<rparr> else l)"

text \<open>The loops \<open>start[i] = start[i + 1]\<close> upwards and \<open>start[i] = start[i - 1]\<close> downwards.\<close>

fun shift_left :: "u8 list \<Rightarrow> nat \<Rightarrow> nat \<Rightarrow> u8 list" where
  "shift_left b i 0 = b"
| "shift_left b i (Suc k) = shift_left (b[i := b ! (i + 1)]) (i + 1) k"

fun shift_right :: "u8 list \<Rightarrow> nat \<Rightarrow> nat \<Rightarrow> u8 list" where
  "shift_right b i 0 = b"
| "shift_right b i (Suc k) = shift_right (b[i := b ! (i - 1)]) (i - 1) k"

definition print_from :: "u8 list \<Rightarrow> nat \<Rightarrow> nat \<Rightarrow> echo_op list" where
  "print_from b i n = map (\<lambda>k. Print (b ! k)) [i ..< n]"

definition line_backspace :: "bool \<Rightarrow> int \<Rightarrow> line \<Rightarrow> line" where
  "line_backspace echo base l =
     (if ln_pos l > 0 then
        let l = l\<lparr>ln_pos := ln_pos l - 1, ln_len := ln_len l - 1\<rparr>;
            l = l\<lparr>ln_buf := shift_left (ln_buf l) (ln_pos l) (ln_len l - ln_pos l)\<rparr>;
            save = base + int (ln_pos l) * 2
        in echo_ops echo ([Set_Cursor save] @ print_from (ln_buf l) (ln_pos l) (ln_len l) @ [Print 0x20, Set_Cursor save]) l
      else l)"

definition line_insert :: "bool \<Rightarrow> int \<Rightarrow> nat \<Rightarrow> u8 \<Rightarrow> line \<Rightarrow> line" where
  "line_insert echo base max_len c l =
     (if ln_len l < sub32 max_len 1 then
        let b = (shift_right (ln_buf l) (ln_len l) (ln_len l - ln_pos l))[ln_pos l := c];
            l = l\<lparr>ln_buf := b, ln_pos := ln_pos l + 1, ln_len := ln_len l + 1\<rparr>;
            save = base + int (ln_pos l) * 2
        in echo_ops echo ([Set_Cursor (base + (int (ln_pos l) - 1) * 2)] @ print_from b (ln_pos l - 1) (ln_len l) @ [Set_Cursor save]) l
      else l)"

text \<open>One key; true when the line is finished.\<close>

definition line_key :: "bool \<Rightarrow> int \<Rightarrow> nat \<Rightarrow> u8 \<Rightarrow> line \<Rightarrow> bool \<times> line" where
  "line_key echo base max_len sc l =
     (if sc AND 0x80 \<noteq> 0 then (False, if shift_code (sc AND 0x7F) then l\<lparr>ln_shift := False\<rparr> else l)
      else if shift_code sc then (False, l\<lparr>ln_shift := True\<rparr>)
      else if sc = KEY_LEFT then
        (False, if ln_pos l > 0 then let l = l\<lparr>ln_pos := ln_pos l - 1\<rparr> in echo_ops echo [Set_Cursor (base + int (ln_pos l) * 2)] l else l)
      else if sc = KEY_RIGHT then
        (False, if ln_pos l < ln_len l then let l = l\<lparr>ln_pos := ln_pos l + 1\<rparr> in echo_ops echo [Set_Cursor (base + int (ln_pos l) * 2)] l else l)
      else
        let c = key_char (ln_shift l) sc in
        if c = 0 then (False, l)
        else if c = 10 then (True, l)
        else if c = 8 then (False, line_backspace echo base l)
        else (False, line_insert echo base max_len c l))"

text \<open>The loop on the scancodes that it finds in \<open>cur_scancode\<close>, one after the other; \<open>None\<close> while the call still waits. The slot
  holds one code, and an interrupt before the loop looks again replaces it: a replaced code is not in the list. The
  result is the finished line and the scancodes that it leaves.\<close>

fun line_keys :: "bool \<Rightarrow> int \<Rightarrow> nat \<Rightarrow> u8 list \<Rightarrow> line \<Rightarrow> (line \<times> u8 list) option" where
  "line_keys echo base max_len [] l = None"
| "line_keys echo base max_len (sc # scs) l =
     (if sc = 0 then line_keys echo base max_len scs l
      else case line_key echo base max_len sc l of
             (True, l) \<Rightarrow> Some (l, scs)
           | (False, l) \<Rightarrow> line_keys echo base max_len scs l)"

definition getline :: "u8 list \<Rightarrow> bool \<Rightarrow> int \<Rightarrow> nat \<Rightarrow> bool \<Rightarrow> u8 list \<Rightarrow> (u8 list \<times> bool \<times> echo_op list \<times> u8 list) option" where
  "getline to echo base max_len shift scs =
     map_option (\<lambda>(l, scs). ((ln_buf l)[ln_len l := 0], ln_shift l, ln_out l, scs))
       (line_keys echo base max_len scs \<lparr>ln_buf = to, ln_len = 0, ln_pos = 0, ln_shift = shift, ln_out = []\<rparr>)"

section \<open>Mouse\<close>

record mouse =
  state_x :: int
  state_y :: int
  state_dx :: int
  state_dy :: int
  state_buttons :: u8
  state_present :: bool
  bound_w :: int
  bound_h :: int
  pkt :: "u8 list"
  pkt_pos :: nat
  ms_ev :: evstate

definition PS2_OBF :: u8 where "PS2_OBF = 1"

definition clamp_pos :: "mouse \<Rightarrow> mouse" where
  "clamp_pos m =
     (let m = (if state_x m < 0 then m\<lparr>state_x := 0\<rparr> else m);
          m = (if state_y m < 0 then m\<lparr>state_y := 0\<rparr> else m);
          m = (if state_x m \<ge> bound_w m then m\<lparr>state_x := bound_w m - 1\<rparr> else m)
      in if state_y m \<ge> bound_h m then m\<lparr>state_y := bound_h m - 1\<rparr> else m)"

definition push_mouse :: "mouse \<Rightarrow> mouse" where
  "push_mouse m = m\<lparr>ms_ev := event_push_mouse (ms_ev m) (of_int (state_x m)) (of_int (state_y m)) (state_buttons m)\<rparr>"

definition decode_packet :: "mouse \<Rightarrow> mouse" where
  "decode_packet m =
     (let flags = pkt m ! 0;
          dx = int (unat (pkt m ! 1)) - (if flags AND 0x10 \<noteq> 0 then 256 else 0);
          dy = int (unat (pkt m ! 2)) - (if flags AND 0x20 \<noteq> 0 then 256 else 0);
          dx = (if flags AND 0x40 \<noteq> 0 then 0 else dx);
          dy = (if flags AND 0x80 \<noteq> 0 then 0 else dy);
          m = m\<lparr>state_buttons := flags AND 0x07, state_dx := wrap32 (state_dx m + dx), state_dy := wrap32 (state_dy m - dy),
                state_x := wrap32 (state_x m + dx), state_y := wrap32 (state_y m - dy)\<rparr>
      in push_mouse (clamp_pos m))"

text \<open>The handler of the mouse interrupt, with the status and the byte read from the controller.\<close>

definition mouse_irq_handler :: "u8 \<Rightarrow> u8 \<Rightarrow> mouse \<Rightarrow> mouse" where
  "mouse_irq_handler status b m =
     (if status AND PS2_OBF = 0 then m
      else if pkt_pos m = 0 \<and> b AND 0x08 = 0 then m
      else
        let m = m\<lparr>pkt := (pkt m)[pkt_pos m := b], pkt_pos := pkt_pos m + 1\<rparr> in
        if pkt_pos m < 3 then m else decode_packet (m\<lparr>pkt_pos := 0\<rparr>))"

definition mouse_set_bounds :: "int \<Rightarrow> int \<Rightarrow> mouse \<Rightarrow> mouse" where
  "mouse_set_bounds w h m = m\<lparr>bound_w := (if w > 0 then w else 1), bound_h := (if h > 0 then h else 1)\<rparr>"

definition mouse_consume_delta :: "mouse \<Rightarrow> int \<times> int \<times> mouse" where
  "mouse_consume_delta m = (state_dx m, state_dy m, m\<lparr>state_dx := 0, state_dy := 0\<rparr>)"

definition mouse_get_x :: "mouse \<Rightarrow> int" where "mouse_get_x m = state_x m"
definition mouse_get_y :: "mouse \<Rightarrow> int" where "mouse_get_y m = state_y m"
definition mouse_get_buttons :: "mouse \<Rightarrow> u8" where "mouse_get_buttons m = state_buttons m"
definition mouse_present :: "mouse \<Rightarrow> bool" where "mouse_present m = state_present m"

definition mouse_inject_delta :: "int \<Rightarrow> int \<Rightarrow> u8 \<Rightarrow> mouse \<Rightarrow> mouse" where
  "mouse_inject_delta dx dy buttons m =
     push_mouse ((clamp_pos (m\<lparr>state_x := wrap32 (state_x m + dx), state_y := wrap32 (state_y m - dy)\<rparr>))
       \<lparr>state_buttons := buttons, state_present := True\<rparr>)"

end
