(* ===== verification/Input_Props.thy ===== *)
theory Input_Props
  imports Input Gfx_Props Utf8
begin

text \<open>
  What the input drivers show: \<open>getline\<close> is an editor on the text before and behind the cursor and stays in its buffer; a
  mouse packet moves the position by what it encodes, clipped to the screen, and becomes one report to the event queue;
  an extended key can repeat the event of an arrow key.
\<close>

section \<open>The line editor\<close>

lemma length_shift_left [simp]: "length (shift_left b i k) = length b"
  by (induction b i k rule: shift_left.induct) simp_all

lemma length_shift_right [simp]: "length (shift_right b i k) = length b"
  by (induction b i k rule: shift_right.induct) simp_all

lemma shift_left_nth:
  "i + k < length b \<Longrightarrow> shift_left b i k ! j = (if i \<le> j \<and> j < i + k then b ! (j + 1) else b ! j)"
proof (induction b i k rule: shift_left.induct)
  case (2 b i k)
  then show ?case by (auto simp: nth_list_update)
qed auto

lemma shift_right_nth:
  "k \<le> i \<Longrightarrow> i < length b \<Longrightarrow> shift_right b i k ! j = (if i - k < j \<and> j \<le> i then b ! (j - 1) else b ! j)"
proof (induction b i k rule: shift_right.induct)
  case (2 b i k)
  then show ?case by (auto simp: nth_list_update)
qed auto

text \<open>The editor on the text before and the text behind the cursor.\<close>

type_synonym editor = "bool \<times> u8 list \<times> u8 list"

definition edit_char :: "nat \<Rightarrow> u8 \<Rightarrow> u8 list \<times> u8 list \<Rightarrow> u8 list \<times> u8 list" where
  "edit_char cap c e = (let (xs, ys) = e in
     if c = 8 then (butlast xs, ys) else if length xs + length ys < cap then (xs @ [c], ys) else (xs, ys))"

definition edit_left :: "u8 list \<times> u8 list \<Rightarrow> u8 list \<times> u8 list" where
  "edit_left e = (let (xs, ys) = e in if xs = [] then (xs, ys) else (butlast xs, last xs # ys))"

definition edit_right :: "u8 list \<times> u8 list \<Rightarrow> u8 list \<times> u8 list" where
  "edit_right e = (let (xs, ys) = e in if ys = [] then (xs, ys) else (xs @ [hd ys], tl ys))"

definition edit_key :: "nat \<Rightarrow> u8 \<Rightarrow> editor \<Rightarrow> bool \<times> editor" where
  "edit_key cap sc st = (let (sh, e) = st in
     if sc AND 0x80 \<noteq> 0 then (False, sh \<and> \<not> shift_code (sc AND 0x7F), e)
     else if shift_code sc then (False, True, e)
     else if sc = KEY_LEFT then (False, sh, edit_left e)
     else if sc = KEY_RIGHT then (False, sh, edit_right e)
     else let c = key_char sh sc in
       if c = 0 then (False, sh, e) else if c = 10 then (True, sh, e) else (False, sh, edit_char cap c e))"

fun edit_keys :: "nat \<Rightarrow> u8 list \<Rightarrow> editor \<Rightarrow> (u8 list \<times> bool \<times> u8 list) option" where
  "edit_keys cap [] st = None"
| "edit_keys cap (sc # scs) st =
     (if sc = 0 then edit_keys cap scs st
      else case edit_key cap sc st of
             (True, sh, xs, ys) \<Rightarrow> Some (xs @ ys, sh, scs)
           | (False, st) \<Rightarrow> edit_keys cap scs st)"

definition line_rel :: "nat \<Rightarrow> u8 list \<Rightarrow> editor \<Rightarrow> line \<Rightarrow> bool" where
  "line_rel max_len to st l \<longleftrightarrow> (case st of (sh, xs, ys) \<Rightarrow>
     ln_shift l = sh \<and> ln_pos l = length xs \<and> ln_len l = length xs + length ys \<and> take (ln_len l) (ln_buf l) = xs @ ys \<and>
     length (ln_buf l) = length to \<and> drop max_len (ln_buf l) = drop max_len to \<and> ln_len l < max_len \<and> 0 \<notin> set (xs @ ys))"

lemma echo_line_rel [simp]: "line_rel max_len to st (echo_ops echo ops l) = line_rel max_len to st l"
  by (auto simp: echo_ops_def line_rel_def)

lemma backspace_rel:
  assumes r: "line_rel max_len to (sh, xs, ys) l" and m: "max_len \<le> length to"
  shows "line_rel max_len to (sh, butlast xs, ys) (line_backspace echo base l)"
proof (cases xs rule: rev_cases)
  case Nil
  then show ?thesis using r by (auto simp: line_backspace_def line_rel_def)
next
  case (snoc zs x)
  let ?b = "ln_buf l" and ?p = "length zs" and ?n = "length zs + length ys"
  have f: "ln_pos l = Suc ?p" "ln_len l = Suc ?n" "take (Suc ?n) ?b = zs @ x # ys" "length ?b = length to"
      "drop max_len ?b = drop max_len to" "Suc ?n < max_len" "0 \<notin> set (zs @ ys)" "ln_shift l = sh"
    using r snoc by (auto simp: line_rel_def)
  let ?c = "shift_left ?b ?p (length ys)"
  have n: "?c ! j = (if ?p \<le> j \<and> j < ?n then ?b ! (j + 1) else ?b ! j)" for j using f(4,6) m shift_left_nth [of ?p "length ys" ?b j] by simp
  have b: "?b ! j = (zs @ x # ys) ! j" if "j < Suc ?n" for j using that f(3) by (metis nth_take)
  have "take ?n ?c = zs @ ys"
    using f(4,6) m by (intro nth_equalityI) (auto simp: n b nth_append nth_Cons Suc_diff_le split: nat.split)
  moreover have "drop max_len ?c = drop max_len to"
    using f(4,6) m by (subst f(5) [symmetric], intro nth_equalityI) (auto simp: n)
  ultimately show ?thesis using f snoc by (simp add: line_backspace_def Let_def) (simp add: line_rel_def)
qed

lemma diff_SucD: "(i::nat) - n = Suc x \<Longrightarrow> i - Suc n = x"
  by simp

lemma insert_rel:
  assumes r: "line_rel max_len to (sh, xs, ys) l" and m: "max_len \<le> length to" "max_len < 2 ^ 32" and c: "c \<noteq> 0" "c \<noteq> 8"
  shows "line_rel max_len to (sh, edit_char (max_len - 1) c (xs, ys)) (line_insert echo base max_len c l)"
proof (cases "length xs + length ys < max_len - 1")
  case False
  moreover have "sub32 max_len 1 = max_len - 1" using r m by (simp add: line_rel_def sub32_exact)
  ultimately show ?thesis using r c by (auto simp: line_insert_def edit_char_def line_rel_def)
next
  case True
  let ?b = "ln_buf l" and ?p = "length xs" and ?n = "length xs + length ys"
  have f: "ln_pos l = ?p" "ln_len l = ?n" "take ?n ?b = xs @ ys" "length ?b = length to" "drop max_len ?b = drop max_len to"
      "0 \<notin> set (xs @ ys)" "ln_shift l = sh" "sub32 max_len 1 = max_len - 1"
    using r m by (auto simp: line_rel_def sub32_exact)
  let ?c = "(shift_right ?b ?n (length ys))[?p := c]"
  have s: "shift_right ?b ?n (length ys) ! j = (if ?p < j \<and> j \<le> ?n then ?b ! (j - 1) else ?b ! j)" for j
    using f(4) True m shift_right_nth [of "length ys" ?n ?b j] by simp
  have n: "?c ! j = (if j = ?p then c else if ?p < j \<and> j \<le> ?n then ?b ! (j - 1) else ?b ! j)" for j
    using f(4) True m by (simp add: nth_list_update s)
  have b: "?b ! j = (xs @ ys) ! j" if "j < ?n" for j using that f(3) by (metis nth_take)
  have "take (Suc ?n) ?c = xs @ c # ys"
    using f(4) True m by (intro nth_equalityI) (auto simp: n b nth_append nth_Cons Suc_diff_le split: nat.split dest: diff_SucD)
  moreover have "drop max_len ?c = drop max_len to"
    using f(4) True m by (subst f(5) [symmetric], intro nth_equalityI) (auto simp: s)
  ultimately show ?thesis using f True c by (simp add: line_insert_def edit_char_def Let_def) (simp add: line_rel_def)
qed

lemma left_rel:
  assumes "line_rel max_len to (sh, xs, ys) l" "0 < ln_pos l"
  shows "line_rel max_len to (sh, edit_left (xs, ys)) (l\<lparr>ln_pos := ln_pos l - 1\<rparr>)"
  using assms by (cases xs rule: rev_cases) (auto simp: line_rel_def edit_left_def)

lemma right_rel:
  assumes "line_rel max_len to (sh, xs, ys) l" "ln_pos l < ln_len l"
  shows "line_rel max_len to (sh, edit_right (xs, ys)) (l\<lparr>ln_pos := ln_pos l + 1\<rparr>)"
  using assms by (cases ys) (auto simp: line_rel_def edit_right_def)

lemma edge_rel:
  assumes "line_rel max_len to (sh, xs, ys) l"
  shows "\<not> 0 < ln_pos l \<Longrightarrow> edit_left (xs, ys) = (xs, ys)" "\<not> ln_pos l < ln_len l \<Longrightarrow> edit_right (xs, ys) = (xs, ys)"
  using assms by (auto simp: line_rel_def edit_left_def edit_right_def)

lemma shift_rel: "line_rel max_len to (sh, e) l \<Longrightarrow> line_rel max_len to (sh', e) (l\<lparr>ln_shift := sh'\<rparr>)"
  by (auto simp: line_rel_def split: prod.splits)

lemma line_key_rel:
  assumes r: "line_rel max_len to (sh, xs, ys) l" and m: "max_len \<le> length to" "max_len < 2 ^ 32"
  shows "fst (line_key echo base max_len sc l) = fst (edit_key (max_len - 1) sc (sh, xs, ys))"
    "line_rel max_len to (snd (edit_key (max_len - 1) sc (sh, xs, ys))) (snd (line_key echo base max_len sc l))"
proof -
  have sh: "ln_shift l = sh" using r by (simp add: line_rel_def)
  show "fst (line_key echo base max_len sc l) = fst (edit_key (max_len - 1) sc (sh, xs, ys))"
    by (simp add: line_key_def edit_key_def Let_def sh)
  consider "sc AND 0x80 \<noteq> 0" | "sc AND 0x80 = 0" "shift_code sc" | "sc AND 0x80 = 0" "\<not> shift_code sc" "sc = KEY_LEFT"
    | "sc AND 0x80 = 0" "\<not> shift_code sc" "sc \<noteq> KEY_LEFT" "sc = KEY_RIGHT"
    | "sc AND 0x80 = 0" "\<not> shift_code sc" "sc \<noteq> KEY_LEFT" "sc \<noteq> KEY_RIGHT" by blast
  then show "line_rel max_len to (snd (edit_key (max_len - 1) sc (sh, xs, ys))) (snd (line_key echo base max_len sc l))"
  proof cases
    case 1
    then show ?thesis using r shift_rel [OF r, of False] sh by (auto simp: line_key_def edit_key_def Let_def)
  next
    case 2
    then show ?thesis using shift_rel [OF r, of True] by (simp add: line_key_def edit_key_def)
  next
    case 3
    then show ?thesis using r left_rel [OF r] edge_rel(1) [OF r] by (simp add: line_key_def edit_key_def Let_def)
  next
    case 4
    then show ?thesis using r right_rel [OF r] edge_rel(2) [OF r] by (simp add: line_key_def edit_key_def Let_def)
  next
    case 5
    have "edit_char (max_len - 1) 8 (xs, ys) = (butlast xs, ys)" by (simp add: edit_char_def)
    then show ?thesis using 5 r sh backspace_rel [OF r m(1)] insert_rel [OF r m] by (simp add: line_key_def edit_key_def Let_def)
  qed
qed

lemma line_keys_rel:
  assumes "line_rel max_len to st l" and m: "max_len \<le> length to" "max_len < 2 ^ 32"
  shows "case edit_keys (max_len - 1) scs st of
      None \<Rightarrow> line_keys echo base max_len scs l = None
    | Some (str, sh, rest) \<Rightarrow> \<exists>l' xs ys. line_keys echo base max_len scs l = Some (l', rest) \<and> line_rel max_len to (sh, xs, ys) l' \<and> str = xs @ ys"
  using assms(1)
proof (induction scs arbitrary: st l)
  case (Cons sc scs)
  obtain sh xs ys where st: "st = (sh, xs, ys)" by (cases st) auto
  note K = line_key_rel [OF Cons.prems [unfolded st] m, where echo = echo and base = base and sc = sc]
  obtain d l' where l: "line_key echo base max_len sc l = (d, l')" by fastforce
  obtain st' where e: "edit_key (max_len - 1) sc st = (d, st')" using K(1) l st by (cases "edit_key (max_len - 1) sc st") simp
  have r: "line_rel max_len to st' l'" using K(2) l e st by simp
  obtain sh' xs' ys' where st': "st' = (sh', xs', ys')" by (cases st') auto
  show ?case
  proof (cases "sc = 0")
    case True
    then show ?thesis using Cons.IH [OF Cons.prems] by (auto split: option.splits)
  next
    case False
    then show ?thesis using Cons.IH [OF r] l e r by (cases d) (auto simp: st' split: option.splits)
  qed
qed simp

text \<open>C40: \<open>getline\<close> is a line editor. On any sequence of scancodes it returns when the editor on the text before and behind the
  cursor meets the return key, with that editor's text as the terminated string in the buffer and the rest of the scancodes
  still to come; it never holds more than \<open>max_len - 1\<close> characters, and the bytes of the array from \<open>max_len\<close> on are not touched.\<close>

theorem getline_edits:
  assumes "0 < max_len" "max_len \<le> length to" "max_len < 2 ^ 32"
  shows "case edit_keys (max_len - 1) scs (shift, [], []) of
      None \<Rightarrow> getline to echo base max_len shift scs = None
    | Some (str, sh, rest) \<Rightarrow> \<exists>to' out. getline to echo base max_len shift scs = Some (to', sh, out, rest) \<and>
        cstr_of to' = str \<and> length str < max_len \<and> length to' = length to \<and> drop max_len to' = drop max_len to"
proof (cases "edit_keys (max_len - 1) scs (shift, [], [])")
  case None
  have "line_rel max_len to (shift, [], []) \<lparr>ln_buf = to, ln_len = 0, ln_pos = 0, ln_shift = shift, ln_out = []\<rparr>"
    using assms(1) by (simp add: line_rel_def)
  from line_keys_rel [OF this assms(2,3), where scs = scs and echo = echo and base = base] show ?thesis using None by (simp add: getline_def)
next
  case (Some res)
  obtain str sh rest where res: "res = (str, sh, rest)" by (cases res) auto
  have "line_rel max_len to (shift, [], []) \<lparr>ln_buf = to, ln_len = 0, ln_pos = 0, ln_shift = shift, ln_out = []\<rparr>"
    using assms(1) by (simp add: line_rel_def)
  from line_keys_rel [OF this assms(2,3), where scs = scs and echo = echo and base = base] obtain l xs ys where
    l: "line_keys echo base max_len scs \<lparr>ln_buf = to, ln_len = 0, ln_pos = 0, ln_shift = shift, ln_out = []\<rparr> = Some (l, rest)"
      "line_rel max_len to (sh, xs, ys) l" "str = xs @ ys" using Some res by auto
  let ?to = "(ln_buf l)[ln_len l := 0]"
  have f: "take (length str) (ln_buf l) = str" "ln_len l = length str" "length str < max_len" "length (ln_buf l) = length to"
      "drop max_len (ln_buf l) = drop max_len to" "0 \<notin> set str" "ln_shift l = sh"
    using l(2,3) by (auto simp: line_rel_def)
  have "?to = str @ 0 # drop (Suc (length str)) (ln_buf l)"
    using f assms(2) upd_conv_take_nth_drop [of "length str" "ln_buf l" 0] by simp
  then have "cstr_of ?to = str" using f(6) by (simp add: cstr_of_append cstr_at_def)
  moreover have "drop max_len ?to = drop max_len to" using f(3,5,2) by (simp add: drop_update_cancel)
  moreover have "getline to echo base max_len shift scs = Some (?to, sh, ln_out l, rest)" using l(1) f(7) by (simp add: getline_def)
  ultimately show ?thesis using Some res f by auto
qed

theorem getline_edits_witness:
  "let scs = [0x1E, 0x2E, KEY_LEFT, 0x2A, 0x30, 0xAA, 0x1C, 0x1E]; to = replicate 6 7 in
   edit_keys (4 - 1) scs (False, [], []) = Some (lit ''aBc'', False, [0x1E]) \<and>
   (\<exists>to' out. getline to True 0 4 False scs = Some (to', False, out, [0x1E]) \<and> cstr_of to' = lit ''aBc'' \<and> drop 4 to' = [7, 7])"
proof -
  let ?scs = "[0x1E, 0x2E, KEY_LEFT, 0x2A, 0x30, 0xAA, 0x1C, 0x1E] :: u8 list" and ?to = "replicate 6 7 :: u8 list"
  have e: "edit_keys (4 - 1) ?scs (False, [], []) = Some (lit ''aBc'', False, [0x1E])" by code_simp
  have d: "drop 4 ?to = [7, 7]" by code_simp
  have "\<exists>to' out. getline ?to True 0 4 False ?scs = Some (to', False, out, [0x1E]) \<and> cstr_of to' = lit ''aBc'' \<and> drop 4 to' = [7, 7]"
    using getline_edits [where max_len = 4 and to = ?to and scs = ?scs and shift = False and echo = True and base = 0]
    unfolding e d by auto
  then show ?thesis unfolding Let_def using e by blast
qed

text \<open>With \<open>max_len = 0\<close> the limit \<open>max_len - 1\<close> wraps to the largest value, so the characters go into an array that has no room for
  them.\<close>

lemma getline_no_room:
  assumes "ln_len l < 2 ^ 32 - 1" shows "ln_len (line_insert False base 0 c l) = ln_len l + 1"
  using assms by (simp add: line_insert_def sub32_def Let_def echo_ops_def)

section \<open>Keys that the keyboard reports\<close>

text \<open>An extended key without a code of its own reports the arrow key that still waits once more.\<close>

lemma extended_key_repeats_arrow:
  assumes "e0_prefix s" "KEY_UP \<le> cur_scancode s" "cur_scancode s \<le> KEY_RIGHT"
    and "sc AND 0x80 = 0" "sc \<notin> {0x48, 0x50, 0x4B, 0x4D}"
  shows "kb_callback sc s = s\<lparr>e0_prefix := False, kb_ev := event_push_key (kb_ev s) (cur_scancode s) True 0\<rparr>"
proof -
  have "sc \<noteq> 0xE0" using assms(4) by auto
  then show ?thesis using assms by (simp add: kb_callback_def arrow_code_def Let_def)
qed

text \<open>A code that is injected while a key waits is lost for \<open>getline\<close> and still becomes an event.\<close>

lemma inject_pending:
  assumes "cur_scancode s \<noteq> 0"
  shows "cur_scancode (kbd_inject_scancode sc s) = cur_scancode s"
    "sc \<in> {KEY_UP .. KEY_RIGHT} \<Longrightarrow> kb_ev (kbd_inject_scancode sc s) = event_push_key (kb_ev s) sc True 0"
  using assms by (auto simp: kbd_inject_scancode_def kbd_push_event_def Let_def)

section \<open>Mouse packets\<close>

text \<open>The packet that a PS/2 mouse sends for a movement of \<open>dx\<close>, \<open>dy\<close> with its left, right and middle button.\<close>

definition mouse_buttons :: "bool \<Rightarrow> bool \<Rightarrow> bool \<Rightarrow> u8" where
  "mouse_buttons l r mid = (if l then 1 else 0) + (if r then 2 else 0) + (if mid then 4 else 0)"

definition mouse_packet :: "int \<Rightarrow> int \<Rightarrow> bool \<Rightarrow> bool \<Rightarrow> bool \<Rightarrow> u8 list" where
  "mouse_packet dx dy l r mid =
     [mouse_buttons l r mid + 8 + (if dx < 0 then 0x10 else 0) + (if dy < 0 then 0x20 else 0), of_int dx, of_int dy]"

definition mouse_ok :: "mouse \<Rightarrow> bool" where
  "mouse_ok m \<longleftrightarrow> length (pkt m) = 3 \<and> pkt_pos m < 3 \<and> 0 \<le> state_x m \<and> state_x m < bound_w m \<and> 0 \<le> state_y m \<and> state_y m < bound_h m \<and>
     bound_w m \<le> 2 ^ 31 - 256 \<and> bound_h m \<le> 2 ^ 31 - 256"

definition clip :: "int \<Rightarrow> int \<Rightarrow> int" where "clip n i = max 0 (min (n - 1) i)"

lemma clip_bounds: "0 < n \<Longrightarrow> 0 \<le> clip n i \<and> clip n i < n"
  by (auto simp: clip_def)

lemma clamp_pos_clip:
  assumes "0 < bound_w m" "0 < bound_h m"
  shows "clamp_pos m = m\<lparr>state_x := clip (bound_w m) (state_x m), state_y := clip (bound_h m) (state_y m)\<rparr>"
  using assms by (cases m) (simp add: clamp_pos_def clip_def Let_def min_def max_def)

lemma delta_byte:
  assumes "- 256 \<le> d" "d \<le> (255::int)" shows "int (unat (of_int d :: u8)) - (if d < 0 then 256 else 0) = d"
proof -
  have "int (unat (of_int d :: u8)) = d mod 256" by (simp add: unsigned_of_int take_bit_eq_mod)
  moreover have "d mod 256 = (if d < 0 then d + 256 else d)" using assms by presburger
  ultimately show ?thesis by simp
qed

text \<open>The flag byte, read the way the handler reads it.\<close>

lemma packet_flags:
  fixes l r mid sx sy :: bool
  defines "f \<equiv> mouse_buttons l r mid + 8 + (if sx then 0x10 else 0) + (if sy then 0x20 else 0)"
  shows "f AND 0x08 \<noteq> 0" "(f AND 0x10 \<noteq> 0) = sx" "(f AND 0x20 \<noteq> 0) = sy" "f AND 0x40 = 0" "f AND 0x80 = 0"
    "f AND 0x07 = mouse_buttons l r mid"
  unfolding f_def mouse_buttons_def by (cases l; cases r; cases mid; cases sx; cases sy; simp)+

text \<open>What a movement does to the driver: the position moves and stays on the screen, the deltas add up, the event queue gets
  one report.\<close>

definition mouse_moved :: "int \<Rightarrow> int \<Rightarrow> u8 \<Rightarrow> mouse \<Rightarrow> mouse" where
  "mouse_moved dx dy b m =
     (let x = clip (bound_w m) (state_x m + dx); y = clip (bound_h m) (state_y m - dy)
      in m\<lparr>state_buttons := b, state_dx := wrap32 (state_dx m + dx), state_dy := wrap32 (state_dy m - dy), state_x := x, state_y := y,
           ms_ev := event_push_mouse (ms_ev m) (of_int x) (of_int y) b\<rparr>)"

lemma mouse_moved_ok: "mouse_ok m \<Longrightarrow> mouse_ok (mouse_moved dx dy b m)"
  by (simp add: mouse_ok_def mouse_moved_def Let_def clip_bounds)

lemma decode_packet_moves:
  assumes m: "mouse_ok m" "pkt m = mouse_packet dx dy l r mid" and d: "- 256 \<le> dx" "dx \<le> 255" "- 256 \<le> dy" "dy \<le> 255"
  shows "decode_packet m = mouse_moved dx dy (mouse_buttons l r mid) m"
proof -
  let ?p = "mouse_packet dx dy l r mid"
  have f: "(?p ! 0 AND 0x10 \<noteq> 0) = (dx < 0)" "(?p ! 0 AND 0x20 \<noteq> 0) = (dy < 0)" "?p ! 0 AND 0x40 = 0" "?p ! 0 AND 0x80 = 0"
      "?p ! 0 AND 0x07 = mouse_buttons l r mid"
    using packet_flags [of l r mid "dx < 0" "dy < 0"] by (simp_all add: mouse_packet_def)
  have q: "?p ! 1 = of_int dx" "?p ! 2 = of_int dy" by (simp_all add: mouse_packet_def)
  have w: "wrap32 (state_x m + dx) = state_x m + dx" "wrap32 (state_y m - dy) = state_y m - dy" "0 < bound_w m" "0 < bound_h m"
    using m(1) d by (auto simp: mouse_ok_def intro!: wrap32_id)
  show ?thesis unfolding decode_packet_def m(2) q f Let_def delta_byte [OF d(1,2)] delta_byte [OF d(3,4)] w(1,2)
    using w by (simp add: f clamp_pos_clip push_mouse_def mouse_moved_def Let_def)
qed

text \<open>The three bytes of a packet, one interrupt each, move the mouse by what the packet encodes.\<close>

theorem mouse_packet_moves:
  assumes m: "mouse_ok m" "pkt_pos m = 0" and d: "- 256 \<le> dx" "dx \<le> 255" "- 256 \<le> dy" "dy \<le> 255"
    and s: "s0 AND PS2_OBF \<noteq> 0" "s1 AND PS2_OBF \<noteq> 0" "s2 AND PS2_OBF \<noteq> 0" and p: "mouse_packet dx dy l r mid = [b0, b1, b2]"
  shows "mouse_irq_handler s2 b2 (mouse_irq_handler s1 b1 (mouse_irq_handler s0 b0 m)) =
    mouse_moved dx dy (mouse_buttons l r mid) (m\<lparr>pkt := [b0, b1, b2]\<rparr>)"
proof -
  obtain a b c where k: "pkt m = [a, b, c]" using m by (auto simp: mouse_ok_def numeral_3_eq_3 length_Suc_conv)
  have "b0 AND 0x08 \<noteq> 0" using packet_flags(1) [of l r mid "dx < 0" "dy < 0"] p by (simp add: mouse_packet_def)
  then have "mouse_irq_handler s2 b2 (mouse_irq_handler s1 b1 (mouse_irq_handler s0 b0 m)) = decode_packet (m\<lparr>pkt := [b0, b1, b2], pkt_pos := 0\<rparr>)"
    using s m(2) by (simp add: mouse_irq_handler_def k Let_def)
  moreover have "m\<lparr>pkt := [b0, b1, b2], pkt_pos := 0\<rparr> = m\<lparr>pkt := [b0, b1, b2]\<rparr>" using m(2) by (cases m) simp
  moreover have "mouse_ok (m\<lparr>pkt := [b0, b1, b2]\<rparr>)" using m(1) by (simp add: mouse_ok_def)
  ultimately show ?thesis using decode_packet_moves [OF _ _ d] p by simp
qed

end
