(* ===== verification/Spec2Isabelle.thy ===== *)
theory Spec2Isabelle
  imports KMem Ringbuf Events Sched_Props Fat32_Names Vfs_Fat Net_Props Elf_Props Gfx_Props Syscall_Props Ext2_Props Ext2_Dir
    Xfs_Format Ntfs_Format KSort Arith64 Utf8 KFormat User_Heap Input_Props
begin

text \<open>
  Verification library of the CoolFrost kernel, a 64-bit hobby operating system in C.

  \<^bold>\<open>The program.\<close> CoolFrost boots into long mode, maps the first gigabyte one to one, and runs kernel tasks and user
  processes under a priority scheduler. The heap (\<open>libc/heap.c\<close>, \<open>libc/mem.c\<close>) gives memory to everything else. The
  scheduler (\<open>cpu/sched.c\<close>) owns the tasks, each with its descriptor table. The virtual file system (\<open>fs/vfs.c\<close>) resolves
  paths over mounts and calls the drivers; FAT32 (\<open>fs/fat32.c\<close>) and ext2 (\<open>fs/ext2.c\<close>) read and write, XFS (\<open>fs/xfs.c\<close>) and
  NTFS (\<open>fs/ntfs.c\<close>) only read, all over the block layer of \<open>drivers/ata.c\<close>. \<open>cpu/vmm.c\<close> and \<open>cpu/paging.c\<close> build the page tables of processes on heap pages and check user
  pointers. The loader (\<open>kernel/elf.c\<close>) reads an executable through the file system into a fresh address space and submits
  it to the scheduler. The system calls (\<open>cpu/syscall.c\<close>) are how a process reaches all of this, the event queue
  (\<open>ui/event.c\<close>) and the screen (\<open>gfx/gfx.c\<close>) included. The network stack (\<open>net/\<close>) stands beside them,
  and the library (\<open>libc/\<close>) below everything.

  \<^bold>\<open>How it is modelled.\<close> One definition per C function, with its loops as recursive functions named in the map beside it.
  Structures are records, pointers to them are addresses or indices, and machine integers are words, or natural numbers with
  the reduction modulo the width written where a sum can wrap. Operations return the new state; an access outside its array
  is \<open>None\<close>, so a theorem that an operation returns \<open>Some\<close> is a theorem that it stays inside its memory.

  \<^item> \<open>Prelude\<close>: arithmetic modulo the word sizes, byte lists, loops that skip, and the lemmas all theories share.
  \<^item> \<open>KHeap\<close>, \<open>KMem\<close>: the bitmap allocator over a chain of blocks, \<open>kmalloc\<close> and \<open>kfree\<close> with the header word before each
    allocation, and the memory routines. Shown: an allocation fails only when no block has room and otherwise adds one region
    disjoint from all live ones; a free removes exactly its region; \<open>memmove\<close> copies as if through a buffer.
  \<^item> \<open>Fifo\<close>, \<open>Ringbuf\<close>, \<open>Events\<close>: the contract of a bounded queue as locales, interpreted by the byte ring of
    \<open>libc/ringbuf.h\<close> and by the event queue. Shown: streams pass in order; a consumer of mouse events can follow the buttons.
  \<^item> \<open>Sched\<close>, \<open>Sched_Inv\<close>, \<open>Sched_Props\<close>: run queues, submission, ticks and the switch at the end of an interrupt. Shown: an
    invariant over all reachable states, refinement of abstract preemption, no task lost, round robin, exact quanta, the
    conditions under which a submission fails, the first frame of a user task.
  \<^item> \<open>Disk\<close>, \<open>Fat32\<close>, \<open>Fat32_Fat\<close>, \<open>Fat32_File\<close>, \<open>Fat32_Names\<close>: block transfers on a device given by its sectors, partition
    tables, and the whole FAT32 driver with its one-sector cache. Shown: updates of the table and later lookups, next-fit
    allocation, contiguous runs, freeing of chains, reading as a slice of the chain's bytes, the 8.3 name conversions.
  \<^item> \<open>Vfs\<close>, \<open>Vfs_Props\<close>, \<open>Vfs_Fat\<close>: mounts, path walks and descriptors over an arbitrary driver, and the driver record filled with
    the FAT32 operations. Shown: longest-prefix mounts, walks as lookups of components, lowest free descriptors, what an
    unmount closes, sequential reads.
  \<^item> \<open>Ext2\<close>, \<open>Ext2_Blocks\<close>, \<open>Ext2_Alloc\<close>, \<open>Ext2_File\<close>, \<open>Ext2_Dir\<close>, \<open>Ext2_Props\<close>: the whole ext2 driver with its four static
    buffers; a volume as its blocks, the used blocks and inodes as the sets its bitmaps describe, a directory block as a
    list of records. Shown: both allocators implement an allocator on sets, blocks are handed out once and metadata never, the
    inode tables are a map, descriptors read what the block pointers lead to, directory edits are edits of the list of
    entries, reading and writing return on any contents of the device, directory scans for sizes not too near 4 GiB; a
    directory near that size on which the scan does not end.
  \<^item> \<open>Xfs\<close>, \<open>Xfs_Props\<close>, \<open>Xfs_Format\<close>: the XFS driver with its big-endian fields and bit-packed extents, and the layout of
    allocation groups, inodes and extent lists as the format defines it. Shown: extent records and shortform directories are
    inverse to their encodings, a file written in that layout is what descriptors read; a directory block on which the walk
    does not end.
  \<^item> \<open>Ntfs\<close>, \<open>Ntfs_Props\<close>, \<open>Ntfs_Format\<close>: the NTFS driver with its file records, data runs and index nodes, and the encoding of
    records, attributes and runs as the format defines it. Shown: the fixups accept a record exactly when the sectors its array
    covers belong to one write, a file written in that encoding is what descriptors read.
  \<^item> \<open>Vmm\<close>, \<open>Vmm_Props\<close>, \<open>Confined\<close>: page tables as little-endian words in byte memory. Shown: mapping changes one translation
    of one space, a space that is created, filled and destroyed leaves the heap as it was, the pointer check is exact; pages
    reachable by a process are its own and no tables.
  \<^item> \<open>Elf\<close>, \<open>Elf_Props\<close>: the loader. Shown: a load either produces a complete process or leaves everything as it was.
  \<^item> \<open>Input\<close>, \<open>Input_Props\<close>: the keyboard and the mouse (\<open>drivers/keyboard.c\<close>, \<open>drivers/mouse.c\<close>). Shown: \<open>getline\<close>
    implements a line editor on the text before and behind the cursor and stays in its buffer; the three bytes of a packet move the
    mouse by what they encode, on the screen; when an extended key reports an arrow key twice.
  \<^item> \<open>Gfx\<close>, \<open>Gfx_Props\<close>: surfaces and drawing. Shown: fills, blits and presenting with moderate coordinates stay inside their
    memory and paint exactly what they should.
  \<^item> \<open>Net\<close>, \<open>Net_Props\<close>: Ethernet, ARP, IPv4, ICMP, UDP, DHCP with the buffers the code shares between layers. Shown: echo
    requests are answered with checksums that verify under RFC 1071, the nested polling loops end once no frame comes for as long
    as their deadlines, a flood of echo requests keeps them from ending, the ARP cache is sound, DHCP options are read back.
  \<^item> \<open>Syscall\<close>, \<open>Syscall_Props\<close>: every call of the dispatcher on the joined state of all parts, with user pointers translated by
    the tables of the caller. Shown: no call faults or harms another process; how \<open>sbrk\<close> moves the break.

  \<^item> \<open>KSort\<close>, \<open>Arith64\<close>: sorting and searching of \<open>libc/sort.c\<close> on byte arrays with any comparison, the 64-bit arithmetic of
    \<open>libc/arith64.c\<close>. Shown: \<open>ksort\<close> sorts in place, \<open>kbsearch\<close> finds what is there, the bitwise long division is division.
  \<^item> \<open>Utf8\<close>, \<open>KString\<close>, \<open>KFormat\<close>: the strings of \<open>libc/utf8.c\<close>, \<open>libc/ctype.c\<close>, \<open>libc/string.c\<close>, \<open>libc/stdlib.c\<close>, and the
    formatting of \<open>libc/stdio.c\<close> and \<open>libc/format.c\<close>. Shown: the validity test is exact and copies cut at code points, printed
    integers are read back, tokens are the maximal runs, \<open>snprintf\<close> is the formatted text cut to its buffer.
  \<^item> \<open>UMalloc\<close>, \<open>UMalloc_Props\<close>, \<open>User_Heap\<close>: the allocator of the user programs (\<open>userland/umalloc.h\<close>), a free list in address
    order through block headers, first alone and then on the system calls. Shown: whatever a program allocates and frees,
    its blocks lie apart in mapped memory of the process and the free list loses nothing.

  \<^bold>\<open>Interfaces.\<close> The queue contracts of \<open>Fifo\<close> are interpreted by the ring buffer and the event queue; \<open>program_source\<close> in
  \<open>Elf_Props\<close> states what the loader and the read call need of a file-system driver (it fills no more of a buffer than asked)
  and is interpreted by FAT32, ext2 and XFS; \<open>readable_file\<close> in \<open>Vfs_Props\<close>, what a descriptor needs of a file, by all four drivers;
  \<open>number_allocator\<close> in \<open>Ext2_Alloc\<close>, the contract of an allocator of numbers, by the blocks and by the inodes of ext2;
  \<open>break_source\<close> in \<open>UMalloc_Props\<close>, what the user allocator needs of the kernel, by the system call dispatcher. The clients are proved once inside the locales.

  \<^bold>\<open>Fuel and bounds.\<close> Loops with a bound are recursive functions with a termination proof. The cluster chains of FAT32 may be
  cyclic on a corrupt disk; the walks carry the number of clusters as a bound or are partial functions whose result \<open>None\<close> is
  a walk that does not end, and the theorems about them state that they return. The polling loops of the network take fuel,
  on an endless sequence of clock values and frames; that some amount of it is enough when quiet spells keep coming is itself proved. A system call that waits for a driver
  which does not return has the outcome \<open>Hang\<close>, one that dereferences an unmapped address the outcome \<open>Fault\<close>.

  \<^bold>\<open>Not modelled.\<close> Assembly and the programming of hardware: boot code, interrupt entry, descriptor tables, controllers, disks,
  network cards, USB, sound, the text console and its fonts; their effects on the modelled parts are parameters (a device
  serves or refuses a transfer, a card delivers frames, the clock advances between polls). Interrupts are steps between the
  operations, not inside them, as the kernel runs on one processor with interrupts masked there. Each file-system driver
  is modelled over its own state, with the mounts of the others as parameters of its driver record. The ext2 theorems are
  about volumes with blocks of 1024 to 4096 bytes and non-empty groups, which the driver does not check; the one on reading is
  about files with block pointers, not extents. The theorem on reading from NTFS is about clusters and records that fit the
  4096-byte buffers and about files without holes, whose runs the driver does not support; the one on XFS, about files without
  holes and unwritten extents. The user allocator keeps its headers in a store of its own. Floating point (\<open>ftoa\<close>,
  \<open>str_to_double\<close>, \<open>pow\<close>) has no model here: the text of a double is a parameter of the formatting functions. The shell, the
  window manager and the user programs are left out.
\<close>

end
